(* ===== verification/Prelude.thy ===== *)
theory Prelude
  imports Main "HOL-Library.Word" "HOL-Library.Monad_Syntax"
begin

text \<open>
  Shared vocabulary of the development: the machine integer types the Rust sources use, the
  \<open>option\<close> monad as the model of a Rust computation that may panic, checked slice and index
  operations, and the generic lemmas on lists, maps and words that the component theories rely on.

  Conventions used everywhere.
  \<^item> A Rust function that can panic (index out of range, slice out of range, underflow of an
    unsigned subtraction, \<open>unwrap\<close> on \<open>None\<close>) returns \<open>'a panics\<close>; \<open>None\<close> is the panic.
    A Rust \<open>Option<T>\<close> result is nested inside it.
  \<^item> \<open>usize\<close> values that count memory cells are \<open>nat\<close>: a \<open>Vec\<close> holds at most
    \<open>isize::MAX\<close> bytes, so sums of a few of them do not wrap; subtractions are checked.
    Where the code does bit arithmetic on a \<open>usize\<close> it is a \<open>64 word\<close>.
\<close>

section \<open>Machine types\<close>

type_synonym u8 = "8 word"
type_synonym u16 = "16 word"
type_synonym u32 = "32 word"
type_synonym u64 = "64 word"
type_synonym i16 = "16 word"
type_synonym i32 = "32 word"
type_synonym i64 = "64 word"
type_synonym bytes = "8 word list"

text \<open>Texts of the code as bytes.\<close>

definition ascii :: "string \<Rightarrow> bytes" where
  "ascii s = map of_char s"

abbreviation i16_MIN :: int where "i16_MIN \<equiv> - 32768"
abbreviation i16_MAX :: int where "i16_MAX \<equiv> 32767"
abbreviation i32_MIN :: int where "i32_MIN \<equiv> - 2147483648"
abbreviation i32_MAX :: int where "i32_MAX \<equiv> 2147483647"

section \<open>Collections of rewrite rules\<close>

named_theorems panic_simps \<open>unfolding of the checked operations\<close>
named_theorems abs_simps \<open>abstraction functions applied to operations\<close>
named_theorems inv_intros \<open>invariants kept by operations\<close>

section \<open>Computations that may panic\<close>

type_synonym 'a panics = "'a option"

definition idx :: "'a list \<Rightarrow> nat \<Rightarrow> 'a panics" where
  "idx xs i = (if i < length xs then Some (xs ! i) else None)"

definition upd :: "'a list \<Rightarrow> nat \<Rightarrow> 'a \<Rightarrow> 'a list panics" where
  "upd xs i v = (if i < length xs then Some (xs[i := v]) else None)"

text \<open>\<open>&xs[a..b]\<close>\<close>
definition slice :: "'a list \<Rightarrow> nat \<Rightarrow> nat \<Rightarrow> 'a list panics" where
  "slice xs a b = (if a \<le> b \<and> b \<le> length xs then Some (take (b - a) (drop a xs)) else None)"

text \<open>\<open>&xs[a..]\<close>\<close>
definition slice_from :: "'a list \<Rightarrow> nat \<Rightarrow> 'a list panics" where
  "slice_from xs a = (if a \<le> length xs then Some (drop a xs) else None)"

text \<open>\<open>xs[a..b].copy_from_slice(src)\<close>\<close>
definition copy_from_slice :: "'a list \<Rightarrow> nat \<Rightarrow> nat \<Rightarrow> 'a list \<Rightarrow> 'a list panics" where
  "copy_from_slice xs a b src =
     (if a \<le> b \<and> b \<le> length xs \<and> length src = b - a
      then Some (take a xs @ src @ drop b xs) else None)"

text \<open>\<open>xs.copy_within(a..b, dest)\<close>\<close>
definition copy_within :: "'a list \<Rightarrow> nat \<Rightarrow> nat \<Rightarrow> nat \<Rightarrow> 'a list panics" where
  "copy_within xs a b dest =
     (if a \<le> b \<and> b \<le> length xs \<and> dest + (b - a) \<le> length xs
      then Some (take dest xs @ take (b - a) (drop a xs) @ drop (dest + (b - a)) xs)
      else None)"

text \<open>Unsigned subtraction with overflow checks, as in a debug build.\<close>
definition usub :: "nat \<Rightarrow> nat \<Rightarrow> nat panics" where
  "usub a b = (if b \<le> a then Some (a - b) else None)"

lemmas [panic_simps] = idx_def upd_def slice_def slice_from_def copy_from_slice_def
  copy_within_def usub_def

lemma bind_Some_iff: "(m \<bind> f) = Some y \<longleftrightarrow> (\<exists>x. m = Some x \<and> f x = Some y)"
  by (cases m) auto

lemma idx_Some [simp]: "i < length xs \<Longrightarrow> idx xs i = Some (xs ! i)"
  by (simp add: idx_def)

lemma upd_Some [simp]: "i < length xs \<Longrightarrow> upd xs i v = Some (xs[i := v])"
  by (simp add: upd_def)

lemma usub_Some [simp]: "b \<le> a \<Longrightarrow> usub a b = Some (a - b)"
  by (simp add: usub_def)

text \<open>A successful slice splits its list in three; overwriting a slice replaces the middle.\<close>

lemma slice_Some_iff:
  "slice xs a b = Some ys \<longleftrightarrow> (\<exists>us vs. xs = us @ ys @ vs \<and> a = length us \<and> b = length us + length ys)"
proof
  assume "slice xs a b = Some ys"
  then have ab: "a \<le> b" "b \<le> length xs" and ys: "ys = take (b - a) (drop a xs)"
    by (auto simp: slice_def split: if_splits)
  then have "xs = take a xs @ ys @ drop b xs"
    by (metis append_take_drop_id drop_drop le_add_diff_inverse2)
  with ab ys show "\<exists>us vs. xs = us @ ys @ vs \<and> a = length us \<and> b = length us + length ys"
    by (intro exI [of _ "take a xs"] exI [of _ "drop b xs"]) auto
qed (auto simp: slice_def)

lemma slice_length: "slice xs a b = Some ys \<Longrightarrow> length ys = b - a \<and> a \<le> b \<and> b \<le> length xs"
  by (auto simp: slice_Some_iff)

lemma slice_mid: "slice (us @ ys @ vs) (length us) (length us + length ys) = Some ys"
  by (auto simp: slice_Some_iff)

lemma copy_from_slice_mid:
  "length ys = length src \<Longrightarrow>
   copy_from_slice (us @ ys @ vs) (length us) (length us + length src) src = Some (us @ src @ vs)"
  by (simp add: copy_from_slice_def)

section \<open>Lists\<close>

text \<open>\<open>Vec::insert\<close> and \<open>Vec::remove\<close> at an index within the length.\<close>

definition insert_at :: "nat \<Rightarrow> 'a \<Rightarrow> 'a list \<Rightarrow> 'a list" where
  "insert_at i x xs = take i xs @ x # drop i xs"

definition remove_at :: "nat \<Rightarrow> 'a list \<Rightarrow> 'a list" where
  "remove_at i xs = take i xs @ drop (Suc i) xs"

lemma length_insert_at [simp]: "i \<le> length xs \<Longrightarrow> length (insert_at i x xs) = Suc (length xs)"
  by (simp add: insert_at_def)

lemma length_remove_at [simp]: "i < length xs \<Longrightarrow> length (remove_at i xs) = length xs - 1"
  by (simp add: remove_at_def)

lemma set_insert_at: "set (insert_at i x xs) = insert x (set xs)"
proof -
  have "set xs = set (take i xs) \<union> set (drop i xs)"
    by (metis append_take_drop_id set_append)
  then show ?thesis by (auto simp: insert_at_def)
qed

lemma map_insert_at: "map f (insert_at i x xs) = insert_at i (f x) (map f xs)"
  by (simp add: insert_at_def take_map drop_map)

lemma map_remove_at: "map f (remove_at i xs) = remove_at i (map f xs)"
  by (simp add: remove_at_def take_map drop_map)

lemma set_remove_at_distinct:
  assumes "distinct xs" and "i < length xs"
  shows "set (remove_at i xs) = set xs - {xs ! i}"
proof -
  have eq: "xs = take i xs @ xs ! i # drop (Suc i) xs"
    using assms(2) by (rule id_take_nth_drop)
  with assms(1) have "distinct (take i xs @ xs ! i # drop (Suc i) xs)" by simp
  then have "xs ! i \<notin> set (take i xs)" and "xs ! i \<notin> set (drop (Suc i) xs)" by auto
  moreover have "set xs = set (take i xs) \<union> {xs ! i} \<union> set (drop (Suc i) xs)"
    by (subst eq) auto
  ultimately show ?thesis by (auto simp: remove_at_def)
qed

text \<open>Inserting and removing in strictly ascending lists.\<close>

lemma sorted_wrt_take_drop:
  "sorted_wrt P xs \<Longrightarrow> sorted_wrt P (take i xs) \<and> sorted_wrt P (drop i xs)"
  by (metis append_take_drop_id sorted_wrt_append)

lemma sorted_wrt_insert_at:
  assumes "sorted_wrt (<) (xs :: 'a :: linorder list)" and "i \<le> length xs"
    and "\<And>j. j < i \<Longrightarrow> xs ! j < x" and "\<And>j. i \<le> j \<Longrightarrow> j < length xs \<Longrightarrow> x < xs ! j"
  shows "sorted_wrt (<) (insert_at i x xs)"
proof -
  have l: "\<forall>y\<in>set (take i xs). y < x"
    using assms(2,3) by (auto simp: in_set_conv_nth)
  have r: "\<forall>y\<in>set (drop i xs). x < y"
    using assms(4) by (auto simp: in_set_conv_nth)
  from assms(1) have "sorted_wrt (<) (take i xs @ drop i xs)" by simp
  with l r show ?thesis
    unfolding insert_at_def sorted_wrt_append by auto
qed

lemma sorted_wrt_remove_at: "sorted_wrt P xs \<Longrightarrow> sorted_wrt P (remove_at i xs)"
proof -
  assume "sorted_wrt P xs"
  then have "sorted_wrt P (take i xs @ drop i xs)" by simp
  moreover have "set (drop (Suc i) xs) \<subseteq> set (drop i xs)"
    by (simp add: set_drop_subset_set_drop)
  moreover have "sorted_wrt P (drop (Suc i) xs)"
    using \<open>sorted_wrt P xs\<close> by (simp add: sorted_wrt_take_drop)
  ultimately show ?thesis
    unfolding remove_at_def sorted_wrt_append by blast
qed

lemma strict_sorted_distinct: "sorted_wrt (<) (xs :: 'a :: linorder list) \<Longrightarrow> distinct xs"
  by (simp add: strict_sorted_iff)

text \<open>Keeping the elements of a window of an ascending list.\<close>

lemma filter_window:
  assumes "a \<le> b" and "b \<le> length xs"
    and "\<And>i. i < length xs \<Longrightarrow> P (xs ! i) \<longleftrightarrow> a \<le> i \<and> i < b"
  shows "filter P xs = take (b - a) (drop a xs)"
proof -
  have split: "xs = take a xs @ take (b - a) (drop a xs) @ drop b xs"
    by (metis append_assoc append_take_drop_id assms(1) le_add_diff_inverse take_add)
  have "\<forall>x\<in>set (take a xs). \<not> P x"
    using assms by (auto simp: in_set_conv_nth)
  moreover have "\<forall>x\<in>set (drop b xs). \<not> P x"
    using assms by (auto simp: in_set_conv_nth)
  moreover have "\<forall>x\<in>set (take (b - a) (drop a xs)). P x"
    using assms by (auto simp: in_set_conv_nth)
  ultimately have "filter P (take a xs) = []" and "filter P (drop b xs) = []"
    and "filter P (take (b - a) (drop a xs)) = take (b - a) (drop a xs)"
    by (auto simp: filter_empty_conv filter_id_conv)
  then show ?thesis by (subst split) simp
qed

lemma map_of_filter_key: "map_of (filter (\<lambda>e. fst e \<noteq> k) m) = (map_of m)(k := None)"
  by (induction m) (auto simp: fun_eq_iff)

lemma map_sum_Inr: "map_sum f g r = Inr y \<longleftrightarrow> (\<exists>x. r = Inr x \<and> y = g x)"
  by (cases r) auto

end
