(* ===== verification/Rust_Text.thy ===== *)
theory Rust_Text
  imports Prelude
begin

text \<open>
  Text as the Rust standard library reads and prints it: \<open>str::from_utf8\<close> (the well-formed byte
  sequences of the Unicode standard), \<open>memchr\<close>, the decimal form that \<open>format!\<close> gives an integer and
  \<open>str::parse\<close> for the signed integers. A \<open>str\<close> or \<open>String\<close> is the list of its bytes.
\<close>

section \<open>UTF-8\<close>

definition utf8_cont :: "u8 \<Rightarrow> bool" where
  "utf8_cont b \<longleftrightarrow> 0x80 \<le> b \<and> b \<le> 0xBF"

text \<open>The admissible second bytes of a sequence of three or four bytes, by its first byte.\<close>

definition utf8_second3 :: "u8 \<Rightarrow> u8 \<Rightarrow> bool" where
  "utf8_second3 b c \<longleftrightarrow>
     (if b = 0xE0 then 0xA0 \<le> c \<and> c \<le> 0xBF
      else if b = 0xED then 0x80 \<le> c \<and> c \<le> 0x9F else utf8_cont c)"

definition utf8_second4 :: "u8 \<Rightarrow> u8 \<Rightarrow> bool" where
  "utf8_second4 b c \<longleftrightarrow>
     (if b = 0xF0 then 0x90 \<le> c \<and> c \<le> 0xBF
      else if b = 0xF4 then 0x80 \<le> c \<and> c \<le> 0x8F else utf8_cont c)"

fun utf8_valid :: "bytes \<Rightarrow> bool" where
  "utf8_valid [] \<longleftrightarrow> True"
| "utf8_valid (b # bs) \<longleftrightarrow>
     (if b < 0x80 then utf8_valid bs
      else if 0xC2 \<le> b \<and> b \<le> 0xDF
        then (case bs of c # bs' \<Rightarrow> utf8_cont c \<and> utf8_valid bs' | [] \<Rightarrow> False)
      else if 0xE0 \<le> b \<and> b \<le> 0xEF
        then (case bs of c # d # bs' \<Rightarrow> utf8_second3 b c \<and> utf8_cont d \<and> utf8_valid bs' | _ \<Rightarrow> False)
      else if 0xF0 \<le> b \<and> b \<le> 0xF4
        then (case bs of
                c # d # e # bs' \<Rightarrow> utf8_second4 b c \<and> utf8_cont d \<and> utf8_cont e \<and> utf8_valid bs'
              | _ \<Rightarrow> False)
      else False)"

lemma ascii_utf8: "list_all (\<lambda>b. b < 0x80) bs \<Longrightarrow> utf8_valid bs"
  by (induction bs) auto

section \<open>Searching a byte\<close>

text \<open>\<open>memchr(b, hay)\<close>: the first position of \<open>b\<close>.\<close>

definition memchr :: "u8 \<Rightarrow> bytes \<Rightarrow> nat option" where
  "memchr b hay = (let pre = takeWhile (\<lambda>c. c \<noteq> b) hay
                   in if length pre < length hay then Some (length pre) else None)"

lemma memchr_append: "b \<notin> set xs \<Longrightarrow> memchr b (xs @ b # ys) = Some (length xs)"
  by (auto simp: memchr_def takeWhile_append takeWhile_eq_all_conv Let_def)

lemma memchr_Some:
  assumes "memchr b hay = Some i"
  shows "i < length hay" "hay ! i = b" "b \<notin> set (take i hay)"
proof -
  let ?p = "takeWhile (\<lambda>c. c \<noteq> b) hay"
  have i: "i = length ?p" "length ?p < length hay"
    using assms by (auto simp: memchr_def Let_def split: if_splits)
  then show "i < length hay" by simp
  show "hay ! i = b" using i nth_length_takeWhile by blast
  show "b \<notin> set (take i hay)"
    using i by (metis (mono_tags, lifting) set_takeWhileD takeWhile_eq_take)
qed

section \<open>Integers in decimal\<close>

fun show_nat :: "nat \<Rightarrow> bytes" where
  "show_nat n = (if n < 10 then [0x30 + of_nat n] else show_nat (n div 10) @ [0x30 + of_nat (n mod 10)])"

declare show_nat.simps [simp del]

definition show_int :: "int \<Rightarrow> bytes" where
  "show_int i = (if i < 0 then 0x2D # show_nat (nat (- i)) else show_nat (nat i))"

definition digit_val :: "u8 \<Rightarrow> nat option" where
  "digit_val b = (if 0x30 \<le> b \<and> b \<le> 0x39 then Some (unat (b - 0x30)) else None)"

fun parse_digits :: "nat \<Rightarrow> bytes \<Rightarrow> nat option" where
  "parse_digits acc [] = Some acc"
| "parse_digits acc (b # bs) =
     (case digit_val b of None \<Rightarrow> None | Some d \<Rightarrow> parse_digits (10 * acc + d) bs)"

definition parse_nat :: "bytes \<Rightarrow> nat option" where
  "parse_nat bs = (if bs = [] then None else parse_digits 0 bs)"

text \<open>
  \<open>str::parse\<close> for a signed type with the given range: a sign or none, then digits; a value outside the
  range is an error. The library stops at the first step that overflows; as the accumulated
  magnitude never decreases, that is exactly when the whole value is out of range.
\<close>

definition parse_int :: "int \<Rightarrow> int \<Rightarrow> bytes \<Rightarrow> int option" where
  "parse_int lo hi bs =
     (case (case bs of
              [] \<Rightarrow> None
            | b # r \<Rightarrow> if b = 0x2D then map_option (\<lambda>n. - int n) (parse_nat r)
                      else if b = 0x2B then map_option int (parse_nat r)
                      else map_option int (parse_nat bs)) of
        None \<Rightarrow> None
      | Some i \<Rightarrow> if lo \<le> i \<and> i \<le> hi then Some i else None)"

abbreviation i64_MIN :: int where "i64_MIN \<equiv> - 9223372036854775808"
abbreviation i64_MAX :: int where "i64_MAX \<equiv> 9223372036854775807"

definition parse_i64 :: "bytes \<Rightarrow> i64 option" where
  "parse_i64 bs = map_option word_of_int (parse_int i64_MIN i64_MAX bs)"

text \<open>\<open>isize\<close> has 64 bits on the targets of the server; a length is used as a number.\<close>

definition parse_isize :: "bytes \<Rightarrow> int option" where
  "parse_isize bs = parse_int i64_MIN i64_MAX bs"

subsection \<open>Printing and parsing are inverse\<close>

lemma unat_digit: "d < 10 \<Longrightarrow> unat (0x30 + of_nat d :: u8) = 48 + d"
  by (simp add: unat_word_ariths unat_of_nat)

lemma digit_facts:
  assumes "d < 10"
  shows "digit_val (0x30 + of_nat d) = Some d" "0x30 + of_nat d < (0x80 :: u8)"
    "0x30 + of_nat d \<notin> {0x0D, 0x0A, 0x2B, 0x2D :: u8}"
proof -
  note u = unat_digit [OF assms]
  have ge: "0x30 \<le> (0x30 + of_nat d :: u8)" "(0x30 + of_nat d :: u8) \<le> 0x39"
    using u assms by (simp_all add: word_le_nat_alt del: unat_of_nat)
  moreover have "(0x30 + of_nat d - 0x30 :: u8) = of_nat d" by simp
  ultimately show "digit_val (0x30 + of_nat d) = Some d"
    using assms by (simp add: digit_val_def unat_of_nat)
  show "0x30 + of_nat d < (0x80 :: u8)" using u assms by (simp add: word_less_nat_alt del: unat_of_nat)
  show "0x30 + of_nat d \<notin> {0x0D, 0x0A, 0x2B, 0x2D :: u8}"
  proof
    assume "0x30 + of_nat d \<in> {0x0D, 0x0A, 0x2B, 0x2D :: u8}"
    then have "unat (0x30 + of_nat d :: u8) \<in> unat ` {0x0D, 0x0A, 0x2B, 0x2D :: u8}" by (rule imageI)
    with u show False by simp
  qed
qed

lemma parse_digits_append:
  "parse_digits acc (xs @ ys) = (case parse_digits acc xs of None \<Rightarrow> None | Some a \<Rightarrow> parse_digits a ys)"
  by (induction xs arbitrary: acc) (auto split: option.splits)

lemma parse_show_nat: "parse_digits 0 (show_nat n) = Some n"
proof (induction n rule: show_nat.induct)
  case (1 n)
  show ?case
  proof (cases "n < 10")
    case True
    then show ?thesis by (simp add: show_nat.simps [of n] digit_facts)
  next
    case False
    have "n mod 10 < 10" by simp
    note d = digit_facts(1) [OF this]
    from False 1 show ?thesis
      by (simp add: show_nat.simps [of n] parse_digits_append d)
  qed
qed

lemma show_nat_bytes: "list_all (\<lambda>b. b < 0x80 \<and> b \<notin> {0x0D, 0x0A, 0x2B, 0x2D}) (show_nat n)"
proof (induction n rule: show_nat.induct)
  case (1 n)
  have m: "n mod 10 < 10" by simp
  show ?case
  proof (cases "n < 10")
    case True
    then show ?thesis using digit_facts(2,3) [OF True] by (simp add: show_nat.simps [of n])
  next
    case False
    with 1 digit_facts(2,3) [OF m] show ?thesis
      by (subst show_nat.simps) (simp add: list_all_append)
  qed
qed

lemma show_nat_ne: "show_nat n \<noteq> []"
  by (simp add: show_nat.simps)

lemma parse_nat_show: "parse_nat (show_nat n) = Some n"
  by (simp add: parse_nat_def show_nat_ne parse_show_nat)

lemma parse_show_int: "lo \<le> i \<Longrightarrow> i \<le> hi \<Longrightarrow> parse_int lo hi (show_int i) = Some i"
proof (cases "i < 0")
  case False
  moreover assume "lo \<le> i" "i \<le> hi"
  moreover obtain b r where br: "show_nat (nat i) = b # r" using show_nat_ne by (cases "show_nat (nat i)") auto
  moreover from this have "b \<noteq> 0x2D" "b \<noteq> 0x2B" using show_nat_bytes [of "nat i"] by auto
  ultimately show ?thesis
    using parse_nat_show [of "nat i"] by (simp add: parse_int_def show_int_def)
qed (simp add: parse_int_def show_int_def parse_nat_show)

lemma parse_show_i64: "parse_i64 (show_int (sint (x :: i64))) = Some x"
proof -
  have "- 9223372036854775808 \<le> sint x \<and> sint x \<le> 9223372036854775807"
    using sint_greater_eq [of x] sint_less [of x] by simp
  then show ?thesis by (simp add: parse_i64_def parse_show_int)
qed

lemma parse_show_isize: "int n \<le> i64_MAX \<Longrightarrow> parse_isize (show_nat n) = Some (int n)"
  using parse_show_int [of i64_MIN "int n" i64_MAX] by (simp add: parse_isize_def show_int_def)

text \<open>A line of text: well formed and free of carriage returns.\<close>

definition text_line :: "bytes \<Rightarrow> bool" where
  "text_line bs \<longleftrightarrow> utf8_valid bs \<and> 0x0D \<notin> set bs"

lemma text_line_show_nat [simp]: "text_line (show_nat n)"
proof -
  have "list_all (\<lambda>b. b < 0x80) (show_nat n)" "list_all (\<lambda>b. b \<noteq> 0x0D) (show_nat n)"
    using show_nat_bytes [of n] by (auto elim: list.pred_mono_strong)
  then show ?thesis using ascii_utf8 by (auto simp: text_line_def list_all_iff)
qed

lemma text_line_show_int [simp]: "text_line (show_int i)"
  using text_line_show_nat [of "nat (- i)"] text_line_show_nat [of "nat i"]
  by (auto simp: text_line_def show_int_def)

end
