(* ===== verification/Interfaces.thy ===== *)
theory Interfaces
  imports Prelude
begin

text \<open>
  The contracts of the containers, as locales. Each names the operations a client calls, the
  abstraction function and the invariant of the provider, and the laws an operation obeys; the
  facts about arbitrary sequences of operations are proved once, in the locale \<open>simulation\<close>,
  and reach every container through a \<open>sublocale\<close>. The interpretations stand in the theories
  of the containers: \<open>set_impl\<close> for \<open>IntSet\<close>, \<open>deque_impl\<close> for \<open>ListPack\<close> and
  \<open>QuickList\<close>, \<open>map_impl\<close> for \<open>Dict\<close> and \<open>SmartHash\<close>.
\<close>

section \<open>Runs of operations\<close>

text \<open>A run collects the outputs and stops at the first panic.\<close>

fun run :: "('op \<Rightarrow> 's \<Rightarrow> ('out \<times> 's) panics) \<Rightarrow> 'op list \<Rightarrow> 's \<Rightarrow> ('out list \<times> 's) panics" where
  "run step [] s = Some ([], s)"
| "run step (p # ps) s = do {
     (out, s') \<leftarrow> step p s;
     (outs, s'') \<leftarrow> run step ps s';
     Some (out # outs, s'')
   }"

fun spec_run :: "('op \<Rightarrow> 'a \<Rightarrow> 'out \<times> 'a) \<Rightarrow> 'op list \<Rightarrow> 'a \<Rightarrow> 'out list \<times> 'a" where
  "spec_run step [] a = ([], a)"
| "spec_run step (p # ps) a =
     (let (out, a') = step p a; (outs, a'') = spec_run step ps a' in (out # outs, a''))"

locale simulation =
  fixes cstep :: "'op \<Rightarrow> 's \<Rightarrow> ('out \<times> 's) panics"
    and astep :: "'op \<Rightarrow> 'a \<Rightarrow> 'out \<times> 'a"
    and abs :: "'s \<Rightarrow> 'a"
    and inv :: "'s \<Rightarrow> bool"
    and admissible :: "'op \<Rightarrow> bool"
  assumes step_sim: "inv s \<Longrightarrow> admissible p \<Longrightarrow>
    \<exists>out s'. cstep p s = Some (out, s') \<and> inv s' \<and> astep p (abs s) = (out, abs s')"
begin

lemma run_sim:
  "inv s \<Longrightarrow> \<forall>p\<in>set ps. admissible p \<Longrightarrow>
   \<exists>outs s'. run cstep ps s = Some (outs, s') \<and> inv s' \<and> spec_run astep ps (abs s) = (outs, abs s')"
proof (induction ps arbitrary: s)
  case Nil
  then show ?case by simp
next
  case (Cons p ps)
  then obtain out s' where st: "cstep p s = Some (out, s')" "inv s'" "astep p (abs s) = (out, abs s')"
    using step_sim [of s p] by auto
  with Cons.IH [of s'] Cons.prems(2) show ?case by fastforce
qed

text \<open>The same in functional form: a run returns exactly the outputs of the specification.\<close>

lemma run_refines:
  assumes "inv s" and "\<forall>p\<in>set ps. admissible p"
  shows "map_option (\<lambda>(outs, s'). (outs, abs s')) (run cstep ps s) = Some (spec_run astep ps (abs s))"
  using run_sim [OF assms] by auto

lemma run_inv:
  assumes "inv s" and "\<forall>p\<in>set ps. admissible p" and "run cstep ps s = Some (outs, s')"
  shows "inv s'"
  using run_sim [OF assms(1,2)] assms(3) by auto

end

text \<open>
  Operations that may panic by design: the specification is partial as well, and says when. Each operation has a
  cost, for providers whose state can be described only while the costs stay below a limit.
\<close>

locale metered_simulation =
  fixes cstep :: "'op \<Rightarrow> 's \<Rightarrow> ('out \<times> 's) panics"
    and astep :: "'op \<Rightarrow> 'a \<Rightarrow> ('out \<times> 'a) panics"
    and abs :: "'s \<Rightarrow> 'a"
    and inv :: "nat \<Rightarrow> 's \<Rightarrow> bool"
    and cost :: "'op \<Rightarrow> nat"
    and limit :: nat
  assumes metered_step: "inv w s \<Longrightarrow> w + cost p \<le> limit \<Longrightarrow>
    rel_option (\<lambda>(out, t) (out', b). out = out' \<and> inv (w + cost p) t \<and> b = abs t) (cstep p s) (astep p (abs s))"
begin

lemma metered_run:
  "inv w s \<Longrightarrow> w + sum_list (map cost ps) \<le> limit \<Longrightarrow>
   map_option (\<lambda>(outs, t). (outs, abs t)) (run cstep ps s) = run astep ps (abs s)"
proof (induction ps arbitrary: w s)
  case (Cons p ps)
  have step: "rel_option (\<lambda>(out, t) (out', b). out = out' \<and> inv (w + cost p) t \<and> b = abs t) (cstep p s) (astep p (abs s))"
    using metered_step [OF Cons.prems(1), of p] Cons.prems(2) by simp
  then show ?case
  proof cases
    case (Some x y)
    then obtain out t where t: "cstep p s = Some (out, t)" "astep p (abs s) = Some (out, abs t)" "inv (w + cost p) t"
      by (cases x; cases y) auto
    have "map_option (\<lambda>(outs, t). (outs, abs t)) (run cstep ps t) = run astep ps (abs t)"
      using Cons.IH [OF t(3)] Cons.prems(2) by (simp add: add.assoc)
    then show ?thesis using t(1,2) by (cases "run cstep ps t"; cases "run astep ps (abs t)") auto
  qed simp
qed simp

end

section \<open>Iterators\<close>

text \<open>Calling \<open>next\<close> at most \<open>n\<close> times, up to the first \<open>None\<close>.\<close>

fun drain :: "('it \<Rightarrow> 'a option \<times> 'it) \<Rightarrow> nat \<Rightarrow> 'it \<Rightarrow> 'a list" where
  "drain nx 0 it = []"
| "drain nx (Suc n) it = (case nx it of (None, _) \<Rightarrow> [] | (Some x, it') \<Rightarrow> x # drain nx n it')"

locale iterator =
  fixes nx :: "'it \<Rightarrow> 'a option \<times> 'it"
    and left :: "'it \<Rightarrow> 'a list"
    and inv :: "'it \<Rightarrow> bool"
  assumes next_none: "inv it \<Longrightarrow> left it = [] \<Longrightarrow> fst (nx it) = None"
    and next_some: "inv it \<Longrightarrow> left it = x # xs \<Longrightarrow>
      \<exists>it'. nx it = (Some x, it') \<and> inv it' \<and> left it' = xs"
begin

lemma drain_take: "inv it \<Longrightarrow> drain nx n it = take n (left it)"
proof (induction n arbitrary: it)
  case 0
  show ?case by simp
next
  case (Suc n)
  show ?case
  proof (cases "left it")
    case Nil
    with next_none [OF Suc.prems] show ?thesis by (cases "nx it") simp
  next
    case (Cons x xs)
    with next_some [OF Suc.prems] Suc.IH show ?thesis by fastforce
  qed
qed

lemma drain_all: "inv it \<Longrightarrow> length (left it) \<le> n \<Longrightarrow> drain nx n it = left it"
  by (simp add: drain_take)

end

section \<open>Sets\<close>

datatype 'a set_op = Set_Insert 'a | Set_Remove 'a | Set_Contains 'a | Set_Len
datatype set_out = Set_Bool bool | Set_Size nat

fun set_spec :: "'a set_op \<Rightarrow> 'a set \<Rightarrow> set_out \<times> 'a set" where
  "set_spec (Set_Insert x) S = (Set_Bool (x \<notin> S), insert x S)"
| "set_spec (Set_Remove x) S = (Set_Bool (x \<in> S), S - {x})"
| "set_spec (Set_Contains x) S = (Set_Bool (x \<in> S), S)"
| "set_spec Set_Len S = (Set_Size (card S), S)"

fun set_step ::
  "('s \<Rightarrow> 'a \<Rightarrow> 's \<times> bool) \<Rightarrow> ('s \<Rightarrow> 'a \<Rightarrow> 's \<times> bool) \<Rightarrow> ('s \<Rightarrow> 'a \<Rightarrow> bool) \<Rightarrow> ('s \<Rightarrow> nat) \<Rightarrow>
   'a set_op \<Rightarrow> 's \<Rightarrow> (set_out \<times> 's) panics" where
  "set_step ins rm mem len (Set_Insert x) s = (let (s', b) = ins s x in Some (Set_Bool b, s'))"
| "set_step ins rm mem len (Set_Remove x) s = (let (s', b) = rm s x in Some (Set_Bool b, s'))"
| "set_step ins rm mem len (Set_Contains x) s = Some (Set_Bool (mem s x), s)"
| "set_step ins rm mem len Set_Len s = Some (Set_Size (len s), s)"

locale set_impl =
  fixes ins :: "'s \<Rightarrow> 'a \<Rightarrow> 's \<times> bool"
    and rm :: "'s \<Rightarrow> 'a \<Rightarrow> 's \<times> bool"
    and mem :: "'s \<Rightarrow> 'a \<Rightarrow> bool"
    and len :: "'s \<Rightarrow> nat"
    and abs :: "'s \<Rightarrow> 'a set"
    and inv :: "'s \<Rightarrow> bool"
  assumes mem_law: "inv s \<Longrightarrow> mem s x \<longleftrightarrow> x \<in> abs s"
    and ins_law: "inv s \<Longrightarrow> ins s x = (s', b) \<Longrightarrow> inv s' \<and> abs s' = insert x (abs s) \<and> b = (x \<notin> abs s)"
    and rm_law: "inv s \<Longrightarrow> rm s x = (s', b) \<Longrightarrow> inv s' \<and> abs s' = abs s - {x} \<and> b = (x \<in> abs s)"
    and len_law: "inv s \<Longrightarrow> len s = card (abs s)"
begin

lemma set_step_sim:
  assumes "inv s"
  shows "\<exists>out s'. set_step ins rm mem len p s = Some (out, s') \<and> inv s' \<and> set_spec p (abs s) = (out, abs s')"
proof (cases p)
  case (Set_Insert x)
  obtain s' b where "ins s x = (s', b)" by (cases "ins s x")
  with ins_law [OF assms this] Set_Insert show ?thesis by simp
next
  case (Set_Remove x)
  obtain s' b where "rm s x = (s', b)" by (cases "rm s x")
  with rm_law [OF assms this] Set_Remove show ?thesis by simp
qed (use assms mem_law len_law in simp_all)

end

sublocale set_impl \<subseteq> runs: simulation "set_step ins rm mem len" set_spec abs inv "\<lambda>_. True"
  by unfold_locales (rule set_step_sim)

section \<open>Double-ended sequences\<close>

datatype 'a deque_op =
  Push_Front 'a | Push_Back 'a | Pop_Front | Pop_Back | Get nat | Len | Clear

datatype 'a deque_out = Unit_Out | Item_Out "'a option" | Len_Out nat

definition nth_opt :: "'a list \<Rightarrow> nat \<Rightarrow> 'a option" where
  "nth_opt xs i = (if i < length xs then Some (xs ! i) else None)"

fun deque_spec :: "'a deque_op \<Rightarrow> 'a list \<Rightarrow> 'a deque_out \<times> 'a list" where
  "deque_spec (Push_Front x) xs = (Unit_Out, x # xs)"
| "deque_spec (Push_Back x) xs = (Unit_Out, xs @ [x])"
| "deque_spec Pop_Front xs =
     (Item_Out (case xs of [] \<Rightarrow> None | x # _ \<Rightarrow> Some x), tl xs)"
| "deque_spec Pop_Back xs =
     (Item_Out (if xs = [] then None else Some (last xs)), butlast xs)"
| "deque_spec (Get i) xs = (Item_Out (nth_opt xs i), xs)"
| "deque_spec Len xs = (Len_Out (length xs), xs)"
| "deque_spec Clear xs = (Unit_Out, [])"

record ('s, 'a) deque_ops =
  d_push_front :: "'s \<Rightarrow> 'a \<Rightarrow> 's panics"
  d_push_back :: "'s \<Rightarrow> 'a \<Rightarrow> 's panics"
  d_pop_front :: "'s \<Rightarrow> ('a option \<times> 's) panics"
  d_pop_back :: "'s \<Rightarrow> ('a option \<times> 's) panics"
  d_get :: "'s \<Rightarrow> nat \<Rightarrow> ('a option \<times> 's) panics"
  d_len :: "'s \<Rightarrow> nat"
  d_clear :: "'s \<Rightarrow> 's panics"

fun deque_step :: "('s, 'a) deque_ops \<Rightarrow> 'a deque_op \<Rightarrow> 's \<Rightarrow> ('a deque_out \<times> 's) panics" where
  "deque_step D (Push_Front x) s = do { s' \<leftarrow> d_push_front D s x; Some (Unit_Out, s') }"
| "deque_step D (Push_Back x) s = do { s' \<leftarrow> d_push_back D s x; Some (Unit_Out, s') }"
| "deque_step D Pop_Front s = do { (r, s') \<leftarrow> d_pop_front D s; Some (Item_Out r, s') }"
| "deque_step D Pop_Back s = do { (r, s') \<leftarrow> d_pop_back D s; Some (Item_Out r, s') }"
| "deque_step D (Get i) s = do { (r, s') \<leftarrow> d_get D s i; Some (Item_Out r, s') }"
| "deque_step D Len s = Some (Len_Out (d_len D s), s)"
| "deque_step D Clear s = do { s' \<leftarrow> d_clear D s; Some (Unit_Out, s') }"

fun op_storable :: "('a \<Rightarrow> bool) \<Rightarrow> 'a deque_op \<Rightarrow> bool" where
  "op_storable P (Push_Front x) = P x"
| "op_storable P (Push_Back x) = P x"
| "op_storable P _ = True"

locale deque_impl =
  fixes D :: "('s, 'a) deque_ops"
    and items :: "'s \<Rightarrow> 'a list"
    and inv :: "'s \<Rightarrow> bool"
    and storable :: "'a \<Rightarrow> bool"
  assumes push_front_law: "inv s \<Longrightarrow> storable x \<Longrightarrow>
      \<exists>s'. d_push_front D s x = Some s' \<and> inv s' \<and> items s' = x # items s"
    and push_back_law: "inv s \<Longrightarrow> storable x \<Longrightarrow>
      \<exists>s'. d_push_back D s x = Some s' \<and> inv s' \<and> items s' = items s @ [x]"
    and pop_front_law: "inv s \<Longrightarrow>
      \<exists>s'. d_pop_front D s = Some (case items s of [] \<Rightarrow> None | x # _ \<Rightarrow> Some x, s') \<and>
           inv s' \<and> items s' = tl (items s)"
    and pop_back_law: "inv s \<Longrightarrow>
      \<exists>s'. d_pop_back D s = Some (if items s = [] then None else Some (last (items s)), s') \<and>
           inv s' \<and> items s' = butlast (items s)"
    and get_law: "inv s \<Longrightarrow>
      \<exists>s'. d_get D s i = Some (nth_opt (items s) i, s') \<and> inv s' \<and> items s' = items s"
    and len_law: "inv s \<Longrightarrow> d_len D s = length (items s)"
    and clear_law: "inv s \<Longrightarrow> \<exists>s'. d_clear D s = Some s' \<and> inv s' \<and> items s' = []"
begin

lemma deque_step_sim:
  assumes "inv s" and "op_storable storable p"
  shows "\<exists>out s'. deque_step D p s = Some (out, s') \<and> inv s' \<and> deque_spec p (items s) = (out, items s')"
proof (cases p)
  case (Push_Front x)
  with push_front_law [OF assms(1), of x] assms(2) show ?thesis by auto
next
  case (Push_Back x)
  with push_back_law [OF assms(1), of x] assms(2) show ?thesis by auto
next
  case Pop_Front
  with pop_front_law [OF assms(1)] show ?thesis by auto
next
  case Pop_Back
  with pop_back_law [OF assms(1)] show ?thesis by auto
next
  case (Get i)
  with get_law [OF assms(1), of i] show ?thesis by auto
next
  case Len
  with len_law [OF assms(1)] assms(1) show ?thesis by simp
next
  case Clear
  with clear_law [OF assms(1)] show ?thesis by auto
qed

end

sublocale deque_impl \<subseteq> runs: simulation "deque_step D" deque_spec items inv "op_storable storable"
  by unfold_locales (rule deque_step_sim)

text \<open>Filling a sequence from a source of items, as \<open>from_iter\<close> and \<open>from_vecdeque\<close> do.\<close>

fun push_all :: "('s, 'a) deque_ops \<Rightarrow> 's \<Rightarrow> 'a list \<Rightarrow> 's panics" where
  "push_all D s [] = Some s"
| "push_all D s (x # xs) = do { s' \<leftarrow> d_push_back D s x; push_all D s' xs }"

context deque_impl
begin

lemma push_all_law:
  "inv s \<Longrightarrow> \<forall>x\<in>set xs. storable x \<Longrightarrow>
   \<exists>s'. push_all D s xs = Some s' \<and> inv s' \<and> items s' = items s @ xs"
proof (induction xs arbitrary: s)
  case Nil
  then show ?case by simp
next
  case (Cons x xs)
  then obtain s' where "d_push_back D s x = Some s'" "inv s'" "items s' = items s @ [x]"
    using push_back_law [of s x] by auto
  with Cons.IH [of s'] Cons.prems(2) show ?case by auto
qed

end

section \<open>Maps\<close>

datatype ('k, 'v) map_op = Map_Insert 'k 'v | Map_Remove 'k | Map_Get 'k | Map_Len
datatype 'v map_out = Map_Bool bool | Map_Val "'v option" | Map_Size nat

fun map_spec :: "('k, 'v) map_op \<Rightarrow> ('k \<rightharpoonup> 'v) \<Rightarrow> 'v map_out \<times> ('k \<rightharpoonup> 'v)" where
  "map_spec (Map_Insert k v) m = (Map_Bool (k \<notin> dom m), m(k \<mapsto> v))"
| "map_spec (Map_Remove k) m = (Map_Bool (k \<in> dom m), m(k := None))"
| "map_spec (Map_Get k) m = (Map_Val (m k), m)"
| "map_spec Map_Len m = (Map_Size (card (dom m)), m)"

record ('s, 'k, 'v) map_ops =
  m_insert :: "'s \<Rightarrow> 'k \<Rightarrow> 'v \<Rightarrow> ('s \<times> bool) panics"
  m_remove :: "'s \<Rightarrow> 'k \<Rightarrow> ('s \<times> bool) panics"
  m_get :: "'s \<Rightarrow> 'k \<Rightarrow> 'v option panics"
  m_len :: "'s \<Rightarrow> nat"

fun map_step :: "('s, 'k, 'v) map_ops \<Rightarrow> ('k, 'v) map_op \<Rightarrow> 's \<Rightarrow> ('v map_out \<times> 's) panics" where
  "map_step M (Map_Insert k v) s = do { (s', b) \<leftarrow> m_insert M s k v; Some (Map_Bool b, s') }"
| "map_step M (Map_Remove k) s = do { (s', b) \<leftarrow> m_remove M s k; Some (Map_Bool b, s') }"
| "map_step M (Map_Get k) s = do { r \<leftarrow> m_get M s k; Some (Map_Val r, s) }"
| "map_step M Map_Len s = Some (Map_Size (m_len M s), s)"

fun insert_all :: "('s, 'k, 'v) map_ops \<Rightarrow> 's \<Rightarrow> ('k \<times> 'v) list \<Rightarrow> 's panics" where
  "insert_all M s [] = Some s"
| "insert_all M s ((k, v) # kvs) = do { (s', _) \<leftarrow> m_insert M s k v; insert_all M s' kvs }"

locale map_impl =
  fixes M :: "('s, 'k, 'v) map_ops"
    and abs :: "'s \<Rightarrow> 'k \<rightharpoonup> 'v"
    and inv :: "'s \<Rightarrow> bool"
  assumes insert_law: "inv s \<Longrightarrow>
      \<exists>s'. m_insert M s k v = Some (s', k \<notin> dom (abs s)) \<and> inv s' \<and> abs s' = (abs s)(k \<mapsto> v)"
    and remove_law: "inv s \<Longrightarrow>
      \<exists>s'. m_remove M s k = Some (s', k \<in> dom (abs s)) \<and> inv s' \<and> abs s' = (abs s)(k := None)"
    and get_law: "inv s \<Longrightarrow> m_get M s k = Some (abs s k)"
    and len_law: "inv s \<Longrightarrow> m_len M s = card (dom (abs s))"
begin

lemma map_step_sim:
  assumes "inv s"
  shows "\<exists>out s'. map_step M p s = Some (out, s') \<and> inv s' \<and> map_spec p (abs s) = (out, abs s')"
proof (cases p)
  case (Map_Insert k v)
  with insert_law [OF assms, of k v] show ?thesis by auto
next
  case (Map_Remove k)
  with remove_law [OF assms, of k] show ?thesis by auto
next
  case (Map_Get k)
  with get_law [OF assms, of k] assms show ?thesis by simp
next
  case Map_Len
  with len_law [OF assms] assms show ?thesis by simp
qed

lemma insert_all_law:
  "inv s \<Longrightarrow> \<exists>s'. insert_all M s kvs = Some s' \<and> inv s' \<and> abs s' = abs s ++ map_of (rev kvs)"
proof (induction kvs arbitrary: s)
  case Nil
  then show ?case by simp
next
  case (Cons kv kvs)
  obtain k v where kv: "kv = (k, v)" by (cases kv)
  from insert_law [OF Cons.prems, of k v] obtain s' b
    where s': "m_insert M s k v = Some (s', b)" "inv s'" "abs s' = (abs s)(k \<mapsto> v)" by auto
  have "(abs s)(k \<mapsto> v) ++ map_of (rev kvs) = abs s ++ map_of (rev ((k, v) # kvs))"
    by (rule ext) (simp add: map_add_def split: option.split)
  moreover obtain s'' where "insert_all M s' kvs = Some s''" "inv s''" "abs s'' = abs s' ++ map_of (rev kvs)"
    using Cons.IH [OF s'(2)] by blast
  ultimately show ?case using s' by (intro exI [of _ s'']) (simp add: kv)
qed

end

sublocale map_impl \<subseteq> runs: simulation "map_step M" map_spec abs inv "\<lambda>_. True"
  by unfold_locales (rule map_step_sim)

end
