(* ===== verification/Sds.thy ===== *)
theory Sds
  imports Rust_Text Interfaces
begin

text \<open>
  \<open>src/database/sds/sds_base.rs\<close> and \<open>sds_numeric.rs\<close>: byte strings kept inline up to \<open>INLINE_CAP\<close> bytes and in a
  vector beyond, their conversions, and the numbers in them. A heap string is the contents of its vector and
  the vector's capacity, which grows as \<open>RawVec\<close> grows it. The text of a floating-point number is a parameter.
\<close>

section \<open>Representation\<close>

abbreviation INLINE_CAP :: nat where "INLINE_CAP \<equiv> 23"

datatype sds = Inline u8 bytes | Heap bytes nat

text \<open>The inline form of at most \<open>INLINE_CAP\<close> bytes.\<close>

definition inline_of :: "bytes \<Rightarrow> sds panics" where
  "inline_of bs = do {
     buf \<leftarrow> copy_from_slice (replicate INLINE_CAP 0) 0 (length bs) bs;
     Some (Inline (of_nat (length bs)) buf)
   }"

definition sds_from_vec :: "bytes \<Rightarrow> nat \<Rightarrow> sds panics" where
  "sds_from_vec vec cap = (if length vec \<le> INLINE_CAP then inline_of vec else Some (Heap vec cap))"

definition sds_from_bytes :: "bytes \<Rightarrow> sds panics" where
  "sds_from_bytes bs = (if length bs \<le> INLINE_CAP then inline_of bs else Some (Heap bs (length bs)))"

definition sds_from_str :: "bytes \<Rightarrow> sds panics" where
  "sds_from_str s = sds_from_bytes s"

definition sds_from_string :: "bytes \<Rightarrow> nat \<Rightarrow> sds panics" where
  "sds_from_string vec cap = (if length vec \<le> INLINE_CAP then sds_from_vec vec cap else Some (Heap vec cap))"

definition sds_default :: sds where
  "sds_default = Inline 0 (replicate INLINE_CAP 0)"

text \<open>A vector of more than \<open>isize::MAX\<close> bytes is refused with a panic.\<close>

definition isize_MAX :: nat where
  "isize_MAX = 2 ^ 63 - 1"

definition vec_with_capacity :: "nat \<Rightarrow> nat panics" where
  "vec_with_capacity cap = (if cap \<le> isize_MAX then Some cap else None)"

definition sds_with_capacity :: "nat \<Rightarrow> sds panics" where
  "sds_with_capacity cap =
     (if cap \<le> INLINE_CAP then Some sds_default else do { cap \<leftarrow> vec_with_capacity cap; Some (Heap [] cap) })"

definition sds_repeat :: "u8 \<Rightarrow> nat \<Rightarrow> sds panics" where
  "sds_repeat byte n =
     (if n = 0 then Some sds_default
      else if n \<le> INLINE_CAP then do {
        buf \<leftarrow> copy_from_slice (replicate INLINE_CAP 0) 0 n (replicate n byte);
        Some (Inline (of_nat n) buf)
      }
      else do { cap \<leftarrow> vec_with_capacity n; Some (Heap (replicate n byte) cap) })"

section \<open>Reading\<close>

fun sds_as_slice :: "sds \<Rightarrow> bytes panics" where
  "sds_as_slice (Inline len buf) = slice buf 0 (unat len)"
| "sds_as_slice (Heap buf cap) = Some buf"

fun sds_len :: "sds \<Rightarrow> nat" where
  "sds_len (Inline len buf) = unat len"
| "sds_len (Heap buf cap) = length buf"

definition sds_is_empty :: "sds \<Rightarrow> bool" where
  "sds_is_empty s \<longleftrightarrow> sds_len s = 0"

fun sds_capacity :: "sds \<Rightarrow> nat" where
  "sds_capacity (Inline len buf) = INLINE_CAP"
| "sds_capacity (Heap buf cap) = cap"

fun sds_is_inline :: "sds \<Rightarrow> bool" where
  "sds_is_inline (Inline len buf) \<longleftrightarrow> True"
| "sds_is_inline (Heap buf cap) \<longleftrightarrow> False"

definition sds_slice_range :: "sds \<Rightarrow> nat \<Rightarrow> nat \<Rightarrow> sds panics" where
  "sds_slice_range s start end =
     (if start \<le> end \<and> end \<le> sds_len s
      then do { bs \<leftarrow> sds_as_slice s; sub \<leftarrow> slice bs start end; sds_from_bytes sub }
      else None)"

text \<open>\<open>Ok\<close> is \<open>Some\<close> of the text; the position a \<open>Utf8Error\<close> reports is left out.\<close>

definition sds_as_str :: "sds \<Rightarrow> bytes option panics" where
  "sds_as_str s = do { bs \<leftarrow> sds_as_slice s; Some (if utf8_valid bs then Some bs else None) }"

fun sds_into_string :: "sds \<Rightarrow> bytes option panics" where
  "sds_into_string (Heap buf cap) = Some (if utf8_valid buf then Some buf else None)"
| "sds_into_string (Inline len buf) = do {
     bs \<leftarrow> slice buf 0 (unat len);
     Some (if utf8_valid bs then Some bs else None)
   }"

fun sds_into_vec :: "sds \<Rightarrow> bytes panics" where
  "sds_into_vec (Inline len buf) = slice buf 0 (unat len)"
| "sds_into_vec (Heap buf cap) = Some buf"

text \<open>Slices compare by their first difference, then by length.\<close>

fun slice_cmp :: "bytes \<Rightarrow> bytes \<Rightarrow> int" where
  "slice_cmp [] [] = 0"
| "slice_cmp [] (b # bs) = - 1"
| "slice_cmp (a # as) [] = 1"
| "slice_cmp (a # as) (b # bs) = (if a < b then - 1 else if b < a then 1 else slice_cmp as bs)"

definition sds_eq :: "sds \<Rightarrow> sds \<Rightarrow> bool panics" where
  "sds_eq s t = do { a \<leftarrow> sds_as_slice s; b \<leftarrow> sds_as_slice t; Some (a = b) }"

definition sds_cmp :: "sds \<Rightarrow> sds \<Rightarrow> int panics" where
  "sds_cmp s t = do { a \<leftarrow> sds_as_slice s; b \<leftarrow> sds_as_slice t; Some (slice_cmp a b) }"

section \<open>Writing\<close>

text \<open>\<open>Vec::reserve\<close>: nothing when the room is there, else at least twice the capacity and never below 8.\<close>

definition vec_reserve :: "nat \<Rightarrow> nat \<Rightarrow> nat \<Rightarrow> nat panics" where
  "vec_reserve cap len additional =
     (if additional \<le> cap - len then Some cap
      else vec_with_capacity (max (2 * cap) (max (len + additional) 8)))"

fun sds_reserve :: "sds \<Rightarrow> nat \<Rightarrow> sds panics" where
  "sds_reserve (Inline len buf) additional =
     (let cur_len = unat len; required = cur_len + additional
      in if required \<le> INLINE_CAP then Some (Inline len buf)
         else do { cap \<leftarrow> vec_with_capacity required; bs \<leftarrow> slice buf 0 cur_len; Some (Heap bs cap) })"
| "sds_reserve (Heap buf cap) additional = do { cap \<leftarrow> vec_reserve cap (length buf) additional; Some (Heap buf cap) }"

fun sds_clear :: "sds \<Rightarrow> sds" where
  "sds_clear (Inline len buf) = Inline 0 buf"
| "sds_clear (Heap buf cap) = Heap [] cap"

fun sds_push :: "sds \<Rightarrow> u8 \<Rightarrow> sds panics" where
  "sds_push (Inline len buf) byte =
     (let cur_len = unat len
      in if cur_len < INLINE_CAP then do {
           buf \<leftarrow> upd buf cur_len byte;
           Some (Inline (len + 1) buf)
         } else do {
           cap \<leftarrow> vec_with_capacity (cur_len + 1);
           bs \<leftarrow> slice buf 0 cur_len;
           Some (Heap (bs @ [byte]) cap)
         })"
| "sds_push (Heap buf cap) byte = do { cap \<leftarrow> vec_reserve cap (length buf) 1; Some (Heap (buf @ [byte]) cap) }"

fun sds_append :: "sds \<Rightarrow> bytes \<Rightarrow> sds panics" where
  "sds_append (Inline len buf) other =
     (let cur_len = unat len; total = cur_len + length other
      in if total \<le> INLINE_CAP then do {
           buf \<leftarrow> copy_from_slice buf cur_len total other;
           Some (Inline (of_nat total) buf)
         } else do {
           cap \<leftarrow> vec_with_capacity total;
           bs \<leftarrow> slice buf 0 cur_len;
           Some (Heap (bs @ other) cap)
         })"
| "sds_append (Heap buf cap) other = do {
     room \<leftarrow> usub cap (length buf);
     cap \<leftarrow> (if room < length other then vec_reserve cap (length buf) (length other) else Some cap);
     cap \<leftarrow> vec_reserve cap (length buf) (length other);
     Some (Heap (buf @ other) cap)
   }"

fun sds_inline_downgrade :: "sds \<Rightarrow> sds panics" where
  "sds_inline_downgrade (Heap buf cap) =
     (if length buf \<le> INLINE_CAP then inline_of buf else Some (Heap buf cap))"
| "sds_inline_downgrade (Inline len buf) = Some (Inline len buf)"

definition sds_truncate :: "sds \<Rightarrow> nat \<Rightarrow> sds panics" where
  "sds_truncate s new_len = sds_inline_downgrade (case s of
       Inline len buf \<Rightarrow> if new_len < unat len then Inline (of_nat new_len) buf else s
     | Heap buf cap \<Rightarrow> if new_len < length buf then Heap (take new_len buf) cap else s)"

text \<open>A write through \<open>DerefMut\<close>: \<open>s[i] = byte\<close>.\<close>

fun sds_set :: "sds \<Rightarrow> nat \<Rightarrow> u8 \<Rightarrow> sds panics" where
  "sds_set (Inline len buf) i byte =
     (if i < unat len then do { buf \<leftarrow> upd buf i byte; Some (Inline len buf) } else None)"
| "sds_set (Heap buf cap) i byte = do { buf \<leftarrow> upd buf i byte; Some (Heap buf cap) }"

fun sds_extend :: "sds \<Rightarrow> bytes \<Rightarrow> sds panics" where
  "sds_extend s [] = Some s"
| "sds_extend s (b # bs) = do { s \<leftarrow> sds_push s b; sds_extend s bs }"

definition sds_from_iter :: "bytes \<Rightarrow> sds panics" where
  "sds_from_iter bs = sds_extend sds_default bs"

text \<open>\<open>debug_assert_invariants\<close>\<close>

fun sds_assert_invariants :: "sds \<Rightarrow> bool" where
  "sds_assert_invariants (Inline len buf) \<longleftrightarrow> unat len \<le> INLINE_CAP \<and> slice buf 0 (unat len) \<noteq> None"
| "sds_assert_invariants (Heap buf cap) \<longleftrightarrow> length buf \<le> cap"

section \<open>Contents and invariant\<close>

fun sds_bytes :: "sds \<Rightarrow> bytes" where
  "sds_bytes (Inline len buf) = take (unat len) buf"
| "sds_bytes (Heap buf cap) = buf"

fun sds_inv :: "sds \<Rightarrow> bool" where
  "sds_inv (Inline len buf) \<longleftrightarrow> length buf = INLINE_CAP \<and> unat len \<le> INLINE_CAP"
| "sds_inv (Heap buf cap) \<longleftrightarrow> length buf \<le> cap"

definition sds_is :: "sds panics \<Rightarrow> bytes \<Rightarrow> bool" where
  "sds_is r bs \<longleftrightarrow> (\<exists>s. r = Some s \<and> sds_inv s \<and> sds_bytes s = bs)"

lemma unat_of_nat_small: "n \<le> INLINE_CAP \<Longrightarrow> unat (of_nat n :: u8) = n"
  by (simp add: unat_of_nat)

lemma slice_front: "n \<le> length buf \<Longrightarrow> slice buf 0 n = Some (take n buf)"
  by (simp add: slice_def)

lemma sds_as_slice_bytes: "sds_inv s \<Longrightarrow> sds_as_slice s = Some (sds_bytes s)"
  by (cases s) (simp_all add: slice_front)

lemma sds_len_bytes: "sds_inv s \<Longrightarrow> sds_len s = length (sds_bytes s)"
  by (cases s) simp_all

lemma inline_of_is: "length bs \<le> INLINE_CAP \<Longrightarrow> sds_is (inline_of bs) bs"
  by (auto simp: inline_of_def copy_from_slice_def sds_is_def unat_of_nat_small)

lemma inline_of_inline: "inline_of bs = Some s \<Longrightarrow> sds_is_inline s"
  by (auto simp: inline_of_def bind_Some_iff)

lemma sds_from_bytes_is: "sds_is (sds_from_bytes bs) bs"
  by (simp add: sds_from_bytes_def inline_of_is) (simp add: sds_is_def)

lemma sds_from_vec_is: "length vec \<le> cap \<Longrightarrow> sds_is (sds_from_vec vec cap) vec"
  by (simp add: sds_from_vec_def inline_of_is) (simp add: sds_is_def)

text \<open>While at most \<open>w\<close> bytes were written or reserved, the capacity is below about twice as many.\<close>

definition sds_fits :: "nat \<Rightarrow> sds \<Rightarrow> bool" where
  "sds_fits w s \<longleftrightarrow> sds_inv s \<and> sds_len s \<le> w \<and> sds_capacity s \<le> 2 * w + INLINE_CAP"

definition sds_limit :: nat where
  "sds_limit = isize_MAX div 2 - INLINE_CAP"

definition sds_grows :: "sds panics \<Rightarrow> nat \<Rightarrow> bytes \<Rightarrow> bool" where
  "sds_grows r w bs \<longleftrightarrow> (\<exists>s. r = Some s \<and> sds_fits w s \<and> sds_bytes s = bs)"

lemma sds_fitsD: "sds_fits w s \<Longrightarrow> sds_inv s"
  by (simp add: sds_fits_def)

lemma limit_capacity: "w \<le> sds_limit \<Longrightarrow> c \<le> 2 * w + INLINE_CAP \<Longrightarrow> vec_with_capacity c = Some c"
  by (simp add: sds_limit_def isize_MAX_def vec_with_capacity_def)

lemma vec_reserve_fits:
  assumes "len \<le> w" and "cap \<le> 2 * w + INLINE_CAP" and "w + n \<le> sds_limit"
  shows "\<exists>c. vec_reserve cap len n = Some c \<and> (len \<le> cap \<longrightarrow> len + n \<le> c) \<and> c \<le> 2 * (w + n) + INLINE_CAP"
proof (cases "n \<le> cap - len")
  case False
  then have "max (2 * cap) (max (len + n) 8) \<le> 2 * (w + n) + INLINE_CAP" using assms(1) by simp
  then show ?thesis using False limit_capacity [OF assms(3)] by (auto simp: vec_reserve_def)
qed (use assms in \<open>auto simp: vec_reserve_def\<close>)

lemma sds_push_grows:
  assumes "sds_fits w s" and "w + 1 \<le> sds_limit"
  shows "sds_grows (sds_push s b) (w + 1) (sds_bytes s @ [b])"
proof (cases s)
  case (Inline len buf)
  then have i: "length buf = INLINE_CAP" "unat len \<le> INLINE_CAP" "unat len \<le> w" using assms(1) by (auto simp: sds_fits_def)
  show ?thesis
  proof (cases "unat len < INLINE_CAP")
    case True
    then have "unat (len + 1) = Suc (unat len)" by (simp add: unat_word_ariths)
    with Inline True i show ?thesis by (simp add: sds_grows_def sds_fits_def take_Suc_conv_app_nth)
  next
    case False
    with i have "unat len = INLINE_CAP" by simp
    moreover have "vec_with_capacity (INLINE_CAP + 1) = Some (INLINE_CAP + 1)"
      by (rule limit_capacity [OF assms(2)]) (use i(3) \<open>unat len = INLINE_CAP\<close> in simp)
    ultimately show ?thesis using Inline i by (simp add: sds_grows_def sds_fits_def slice_front)
  qed
next
  case (Heap buf cap)
  then show ?thesis using assms vec_reserve_fits [of "length buf" w cap 1] by (auto simp: sds_grows_def sds_fits_def)
qed

lemma sds_append_grows:
  assumes "sds_fits w s" and "w + length other \<le> sds_limit"
  shows "sds_grows (sds_append s other) (w + length other) (sds_bytes s @ other)"
proof (cases s)
  case (Inline len buf)
  then have i: "length buf = INLINE_CAP" "unat len \<le> INLINE_CAP" "unat len \<le> w" using assms(1) by (auto simp: sds_fits_def)
  show ?thesis
  proof (cases "unat len + length other \<le> INLINE_CAP")
    case True
    then have "unat (of_nat (unat len + length other) :: u8) = unat len + length other"
      by (rule unat_of_nat_small)
    with Inline True i show ?thesis by (simp add: sds_grows_def sds_fits_def copy_from_slice_def Let_def del: of_nat_add)
  next
    case False
    moreover have "vec_with_capacity (unat len + length other) = Some (unat len + length other)"
      by (rule limit_capacity [OF assms(2)]) (use i(3) in simp)
    ultimately show ?thesis using Inline i by (simp add: sds_grows_def sds_fits_def slice_front Let_def)
  qed
next
  case (Heap buf cap)
  then have h: "length buf \<le> cap" "length buf \<le> w" "cap \<le> 2 * w + INLINE_CAP" using assms(1) by (auto simp: sds_fits_def)
  obtain c where c: "vec_reserve cap (length buf) (length other) = Some c" "length buf + length other \<le> c"
      "c \<le> 2 * (w + length other) + INLINE_CAP"
    using vec_reserve_fits [OF h(2,3) assms(2)] h(1) by auto
  have "length other \<le> c - length buf" using c(2) by linarith
  then have "vec_reserve c (length buf) (length other) = Some c" by (simp add: vec_reserve_def)
  with Heap h c show ?thesis by (auto simp: sds_grows_def sds_fits_def usub_def)
qed

lemma inline_of_grows: "length bs \<le> INLINE_CAP \<Longrightarrow> length bs \<le> w \<Longrightarrow> sds_grows (inline_of bs) w bs"
  by (auto simp: inline_of_def copy_from_slice_def sds_grows_def sds_fits_def unat_of_nat_small)

lemma sds_truncate_grows: "sds_fits w s \<Longrightarrow> sds_grows (sds_truncate s n) w (take n (sds_bytes s))"
proof (cases s)
  case (Heap buf cap)
  assume s: "sds_fits w s"
  show ?thesis
  proof (cases "length (take n buf) \<le> INLINE_CAP")
    case True
    with s Heap inline_of_grows [of "take n buf" w] show ?thesis by (auto simp: sds_truncate_def sds_fits_def)
  qed (use s Heap in \<open>auto simp: sds_truncate_def sds_grows_def sds_fits_def\<close>)
qed (auto simp: sds_truncate_def sds_grows_def sds_fits_def unat_of_nat_small min_def)

lemma sds_reserve_grows:
  assumes "sds_fits w s" and "w + n \<le> sds_limit"
  shows "\<exists>t. sds_reserve s n = Some t \<and> sds_fits (w + n) t \<and> sds_bytes t = sds_bytes s \<and> sds_len s + n \<le> sds_capacity t"
proof (cases s)
  case (Inline len buf)
  then have i: "length buf = INLINE_CAP" "unat len \<le> INLINE_CAP" "unat len \<le> w" using assms(1) by (auto simp: sds_fits_def)
  then have "vec_with_capacity (unat len + n) = Some (unat len + n)" by (intro limit_capacity [OF assms(2)]) simp
  with Inline i show ?thesis by (auto simp: Let_def slice_front sds_fits_def)
next
  case (Heap buf cap)
  then show ?thesis using assms vec_reserve_fits [of "length buf" w cap n] by (auto simp: sds_fits_def)
qed

lemma sds_extend_grows:
  "sds_fits w s \<Longrightarrow> w + length bs \<le> sds_limit \<Longrightarrow> sds_grows (sds_extend s bs) (w + length bs) (sds_bytes s @ bs)"
proof (induction bs arbitrary: w s)
  case (Cons b bs)
  then obtain t where "sds_push s b = Some t" "sds_fits (w + 1) t" "sds_bytes t = sds_bytes s @ [b]"
    using sds_push_grows [of w s b] by (auto simp: sds_grows_def)
  with Cons.IH [of "w + 1" t] Cons.prems(2) show ?case by simp
qed (simp add: sds_grows_def)

lemma sds_default_facts [simp]: "sds_inv sds_default" "sds_bytes sds_default = []"
  by (simp_all add: sds_default_def)

section \<open>Refinement of byte strings\<close>

datatype sds_op = Sds_Push u8 | Sds_Append bytes | Sds_Extend bytes | Sds_Truncate nat | Sds_Reserve nat | Sds_Clear
  | Sds_Len | Sds_Bytes | Sds_Range nat nat | Sds_Str

text \<open>Answers: nothing, a number, bytes, or \<open>None\<close> for invalid UTF-8.\<close>

datatype sds_out = Nothing | Number nat | Text "bytes option"

fun sds_step :: "sds_op \<Rightarrow> sds \<Rightarrow> (sds_out \<times> sds) panics" where
  "sds_step (Sds_Push b) s = map_option (Pair Nothing) (sds_push s b)"
| "sds_step (Sds_Append bs) s = map_option (Pair Nothing) (sds_append s bs)"
| "sds_step (Sds_Extend bs) s = map_option (Pair Nothing) (sds_extend s bs)"
| "sds_step (Sds_Truncate n) s = map_option (Pair Nothing) (sds_truncate s n)"
| "sds_step (Sds_Reserve n) s = map_option (Pair Nothing) (sds_reserve s n)"
| "sds_step Sds_Clear s = Some (Nothing, sds_clear s)"
| "sds_step Sds_Len s = Some (Number (sds_len s), s)"
| "sds_step Sds_Bytes s = do { bs \<leftarrow> sds_as_slice s; Some (Text (Some bs), s) }"
| "sds_step (Sds_Range i j) s = do { t \<leftarrow> sds_slice_range s i j; bs \<leftarrow> sds_as_slice t; Some (Text (Some bs), s) }"
| "sds_step Sds_Str s = do { r \<leftarrow> sds_as_str s; Some (Text r, s) }"

text \<open>A range that is not one panics.\<close>

fun sds_spec :: "sds_op \<Rightarrow> bytes \<Rightarrow> (sds_out \<times> bytes) panics" where
  "sds_spec (Sds_Push b) bs = Some (Nothing, bs @ [b])"
| "sds_spec (Sds_Append cs) bs = Some (Nothing, bs @ cs)"
| "sds_spec (Sds_Extend cs) bs = Some (Nothing, bs @ cs)"
| "sds_spec (Sds_Truncate n) bs = Some (Nothing, take n bs)"
| "sds_spec (Sds_Reserve n) bs = Some (Nothing, bs)"
| "sds_spec Sds_Clear bs = Some (Nothing, [])"
| "sds_spec Sds_Len bs = Some (Number (length bs), bs)"
| "sds_spec Sds_Bytes bs = Some (Text (Some bs), bs)"
| "sds_spec (Sds_Range i j) bs =
     (if i \<le> j \<and> j \<le> length bs then Some (Text (Some (take (j - i) (drop i bs))), bs) else None)"
| "sds_spec Sds_Str bs = Some (Text (if utf8_valid bs then Some bs else None), bs)"

text \<open>The bytes an operation writes or reserves.\<close>

fun sds_cost :: "sds_op \<Rightarrow> nat" where
  "sds_cost (Sds_Push b) = 1"
| "sds_cost (Sds_Append bs) = length bs"
| "sds_cost (Sds_Extend bs) = length bs"
| "sds_cost (Sds_Reserve n) = n"
| "sds_cost _ = 0"

lemma sds_slice_range_is:
  assumes "sds_inv s" and "i \<le> j" and "j \<le> sds_len s"
  shows "sds_is (sds_slice_range s i j) (take (j - i) (drop i (sds_bytes s)))"
  using assms sds_from_bytes_is [of "take (j - i) (drop i (sds_bytes s))"]
  by (simp add: sds_slice_range_def sds_as_slice_bytes slice_def sds_len_bytes)

lemma sds_clear_fits: "sds_fits w s \<Longrightarrow> sds_fits w (sds_clear s) \<and> sds_bytes (sds_clear s) = []"
  by (cases s) (simp_all add: sds_fits_def)

interpretation sds: metered_simulation sds_step sds_spec sds_bytes sds_fits sds_cost sds_limit
proof unfold_locales
  fix w s p
  assume s: "sds_fits w s" and limit: "w + sds_cost p \<le> sds_limit"
  note i = sds_fitsD [OF s]
  show "rel_option (\<lambda>(out, t) (out', b). out = out' \<and> sds_fits (w + sds_cost p) t \<and> b = sds_bytes t)
      (sds_step p s) (sds_spec p (sds_bytes s))"
  proof (cases p)
    case (Sds_Push b)
    then show ?thesis using sds_push_grows [OF s, of b] limit by (auto simp: sds_grows_def)
  next
    case (Sds_Append bs)
    then show ?thesis using sds_append_grows [OF s, of bs] limit by (auto simp: sds_grows_def)
  next
    case (Sds_Extend bs)
    then show ?thesis using sds_extend_grows [OF s, of bs] limit by (auto simp: sds_grows_def)
  next
    case (Sds_Truncate n)
    then show ?thesis using sds_truncate_grows [OF s, of n] by (auto simp: sds_grows_def)
  next
    case (Sds_Reserve n)
    then show ?thesis using sds_reserve_grows [OF s, of n] limit by auto
  next
    case (Sds_Range a b)
    show ?thesis
    proof (cases "a \<le> b \<and> b \<le> sds_len s")
      case True
      then obtain t where t: "sds_slice_range s a b = Some t" "sds_inv t"
        "sds_bytes t = take (b - a) (drop a (sds_bytes s))"
        using sds_slice_range_is [OF i] by (auto simp: sds_is_def)
      with True s i Sds_Range show ?thesis by (simp add: sds_as_slice_bytes sds_len_bytes)
    qed (use i Sds_Range in \<open>auto simp: sds_len_bytes sds_slice_range_def\<close>)
  qed (use s i in \<open>simp_all add: sds_as_slice_bytes sds_len_bytes sds_as_str_def sds_clear_fits\<close>)
qed

text \<open>C12. Every sequence of operations on an empty \<open>Sds\<close> that writes and reserves less than about 4 EiB answers as a
  list of bytes, across the moves between the inline buffer and the heap. It panics exactly when it asks for a
  range that does not lie within the string.
\<close>

theorem sds_refines_bytes:
  assumes "sum_list (map sds_cost ps) \<le> sds_limit"
  shows "map_option (\<lambda>(outs, s). (outs, sds_bytes s)) (run sds_step ps sds_default) = run sds_spec ps []"
  using sds.metered_run [of 0 sds_default ps] assms by (simp add: sds_fits_def sds_default_def)

theorem sds_refines_bytes_witness:
  "map_option (\<lambda>(outs, s). (outs, sds_bytes s)) (run sds_step [Sds_Reserve 100, Sds_Append [1, 2], Sds_Range 1 3] sds_default) =
   run sds_spec [Sds_Reserve 100, Sds_Append [1, 2], Sds_Range 1 3] []"
  by (rule sds_refines_bytes) (simp add: sds_limit_def isize_MAX_def)

text \<open>
  Every constructor gives a string with the bytes it was given that passes \<open>debug_assert_invariants\<close>; the conversions
  out of a string give them back, and equality and order are those of the bytes.
\<close>

lemma sds_inv_asserts: "sds_inv s \<Longrightarrow> sds_assert_invariants s"
  by (cases s) (simp_all add: slice_front)

lemma sds_repeat_is: "n \<le> isize_MAX \<Longrightarrow> sds_is (sds_repeat b n) (replicate n b)"
  by (auto simp: sds_repeat_def sds_is_def copy_from_slice_def unat_of_nat_small vec_with_capacity_def)

lemma sds_into_vec_bytes: "sds_inv s \<Longrightarrow> sds_into_vec s = Some (sds_bytes s)"
  by (cases s) (simp_all add: slice_front)

lemma sds_into_string_bytes:
  "sds_inv s \<Longrightarrow> sds_into_string s = Some (if utf8_valid (sds_bytes s) then Some (sds_bytes s) else None)"
  by (cases s) (simp_all add: slice_front)

lemma slice_cmp_eq: "slice_cmp a b = 0 \<longleftrightarrow> a = b"
  by (induction a b rule: slice_cmp.induct) auto

lemma slice_cmp_swap: "slice_cmp b a = - slice_cmp a b"
  by (induction a b rule: slice_cmp.induct) auto

text \<open>
  The constructors give a string that holds exactly the bytes they were given, whatever its representation, and
  that the invariant check accepts; reading it back in every way gives the bytes; comparing two
  strings is comparing their bytes, and equality is the order's equality.
\<close>

theorem sds_conversions:
  assumes "length vec \<le> cap"
  shows "\<exists>s t. sds_from_vec vec cap = Some s \<and> sds_from_bytes bs = Some t \<and>
    sds_assert_invariants s \<and> sds_assert_invariants t \<and>
    sds_into_vec s = Some vec \<and> sds_into_vec t = Some bs \<and>
    sds_into_string t = Some (if utf8_valid bs then Some bs else None) \<and>
    sds_is_inline s = (length vec \<le> INLINE_CAP) \<and>
    sds_eq s t = Some (vec = bs) \<and> sds_cmp s t = Some (slice_cmp vec bs) \<and> (slice_cmp vec bs = 0 \<longleftrightarrow> vec = bs)"
proof -
  obtain s where s: "sds_from_vec vec cap = Some s" "sds_inv s" "sds_bytes s = vec"
    using sds_from_vec_is [OF assms] by (auto simp: sds_is_def)
  obtain t where t: "sds_from_bytes bs = Some t" "sds_inv t" "sds_bytes t = bs"
    using sds_from_bytes_is [of bs] by (auto simp: sds_is_def)
  have "sds_is_inline s = (length vec \<le> INLINE_CAP)"
    using s(1) by (auto simp: sds_from_vec_def inline_of_inline split: if_splits)
  with s t show ?thesis
    by (simp add: sds_inv_asserts sds_into_vec_bytes sds_into_string_bytes sds_eq_def sds_cmp_def sds_as_slice_bytes slice_cmp_eq)
qed

theorem sds_conversions_witness:
  "\<exists>s t. sds_from_vec [1, 2] 8 = Some s \<and> sds_from_bytes [1, 3] = Some t \<and> sds_cmp s t = Some (- 1)"
  using sds_conversions [of "[1, 2]" 8 "[1, 3]"] by auto

end
