(* ===== verification/Sds_Numeric.thy ===== *)
theory Sds_Numeric
  imports Sds
begin

text \<open>
  \<open>src/database/sds/sds_numeric.rs\<close>: numbers printed into and parsed from strings, with \<open>from_str_radix\<close> of the
  standard library and the order in which it detects errors; and \<open>from_utf8_lossy\<close> of \<open>sds_base.rs\<close> with the
  replacement the standard library documents (each maximal ill-formed prefix gives one \<open>U+FFFD\<close>).
\<close>

section \<open>Replacing ill-formed text\<close>

abbreviation replacement :: bytes where "replacement \<equiv> [0xEF, 0xBF, 0xBD]"

fun utf8_lossy :: "bytes \<Rightarrow> bytes" where
  "utf8_lossy [] = []"
| "utf8_lossy (b # bs) =
     (if b < 0x80 then b # utf8_lossy bs
      else if 0xC2 \<le> b \<and> b \<le> 0xDF then
        (case bs of
           c # bs1 \<Rightarrow> if utf8_cont c then b # c # utf8_lossy bs1 else replacement @ utf8_lossy bs
         | [] \<Rightarrow> replacement)
      else if 0xE0 \<le> b \<and> b \<le> 0xEF then
        (case bs of
           c # bs1 \<Rightarrow>
             if utf8_second3 b c
             then (case bs1 of
                     d # bs2 \<Rightarrow> if utf8_cont d then b # c # d # utf8_lossy bs2 else replacement @ utf8_lossy bs1
                   | [] \<Rightarrow> replacement)
             else replacement @ utf8_lossy bs
         | [] \<Rightarrow> replacement)
      else if 0xF0 \<le> b \<and> b \<le> 0xF4 then
        (case bs of
           c # bs1 \<Rightarrow>
             if utf8_second4 b c
             then (case bs1 of
                     d # bs2 \<Rightarrow>
                       if utf8_cont d
                       then (case bs2 of
                               e # bs3 \<Rightarrow> if utf8_cont e then b # c # d # e # utf8_lossy bs3
                                         else replacement @ utf8_lossy bs2
                             | [] \<Rightarrow> replacement)
                       else replacement @ utf8_lossy bs1
                   | [] \<Rightarrow> replacement)
             else replacement @ utf8_lossy bs
         | [] \<Rightarrow> replacement)
      else replacement @ utf8_lossy bs)"

definition sds_from_utf8_lossy :: "bytes \<Rightarrow> sds panics" where
  "sds_from_utf8_lossy bs = sds_from_bytes (utf8_lossy bs)"

lemma utf8_valid_replacement: "utf8_valid (0xEF # 0xBF # 0xBD # bs) \<longleftrightarrow> utf8_valid bs"
proof -
  have "utf8_second3 0xEF 0xBF" "utf8_cont 0xBD" by (simp_all add: utf8_second3_def utf8_cont_def)
  then show ?thesis by simp
qed

lemma utf8_lossy_valid: "utf8_valid (utf8_lossy bs)"
proof (induction bs rule: utf8_lossy.induct)
  case (2 b bs)
  then show ?case
    using utf8_valid_replacement by (auto simp del: utf8_valid.simps(2) simp add: utf8_valid.simps(2) [of b] split: list.split)
qed simp

text \<open>One sequence: the tests of both functions are the same, whatever they are.\<close>

lemma lossy_step:
  assumes "if A then utf8_valid bs
     else if B then (case bs of c # bs' \<Rightarrow> utf8_cont c \<and> utf8_valid bs' | [] \<Rightarrow> False)
     else if C then (case bs of c # d # bs' \<Rightarrow> P c \<and> utf8_cont d \<and> utf8_valid bs' | _ \<Rightarrow> False)
     else if D then (case bs of c # d # e # bs' \<Rightarrow> Q c \<and> utf8_cont d \<and> utf8_cont e \<and> utf8_valid bs' | _ \<Rightarrow> False)
     else False"
    and IH: "\<And>ys. utf8_valid ys \<Longrightarrow> length ys \<le> length bs \<Longrightarrow> utf8_lossy ys = ys"
  shows "(if A then b # utf8_lossy bs
     else if B then (case bs of c # bs1 \<Rightarrow> if utf8_cont c then b # c # utf8_lossy bs1 else X1 c bs1 | [] \<Rightarrow> X2)
     else if C then (case bs of c # bs1 \<Rightarrow>
         if P c then (case bs1 of d # bs2 \<Rightarrow> if utf8_cont d then b # c # d # utf8_lossy bs2 else X3 c bs1 d bs2 | [] \<Rightarrow> X4 c bs1)
         else X5 c bs1 | [] \<Rightarrow> X6)
     else if D then (case bs of c # bs1 \<Rightarrow>
         if Q c then (case bs1 of d # bs2 \<Rightarrow>
             if utf8_cont d then (case bs2 of
                 e # bs3 \<Rightarrow> if utf8_cont e then b # c # d # e # utf8_lossy bs3 else X7 c bs1 d bs2 e bs3
               | [] \<Rightarrow> X8 c bs1 d bs2)
             else X9 c bs1 d bs2 | [] \<Rightarrow> X10 c bs1)
         else X11 c bs1 | [] \<Rightarrow> X12)
     else X13) = b # bs"
  using assms(1) by (auto simp add: IH split: list.splits if_splits simp del: utf8_valid.simps(2) utf8_lossy.simps(2))

lemma utf8_lossy_id: "utf8_valid bs \<Longrightarrow> utf8_lossy bs = bs"
proof (induction bs rule: length_induct)
  case (1 xs)
  show ?case
  proof (cases xs)
    case (Cons b bs)
    have IH: "utf8_lossy ys = ys" if "utf8_valid ys" "length ys \<le> length bs" for ys
      using 1(1) that Cons by simp
    have "utf8_valid (b # bs)" using 1(2) Cons by simp
    then have "utf8_lossy (b # bs) = b # bs"
      unfolding utf8_valid.simps(2) [of b bs] utf8_lossy.simps(2) [of b bs]
    proof (rule lossy_step)
      show "utf8_lossy ys = ys" if "utf8_valid ys" "length ys \<le> length bs" for ys by (rule IH [OF that])
    qed
    with Cons show ?thesis by simp
  qed simp
qed

section \<open>Integers of the standard library\<close>

datatype int_error_kind = Empty | InvalidDigit | PosOverflow | NegOverflow

text \<open>The digits: an invalid digit is reported before the overflow of the step it stands at.\<close>

fun digits_loop :: "int_error_kind \<Rightarrow> nat \<Rightarrow> nat \<Rightarrow> bytes \<Rightarrow> int_error_kind + nat" where
  "digits_loop ovf lim acc [] = Inr acc"
| "digits_loop ovf lim acc (b # bs) =
     (case digit_val b of
        None \<Rightarrow> Inl InvalidDigit
      | Some d \<Rightarrow> if 10 * acc > lim then Inl ovf
                  else if 10 * acc + d > lim then Inl ovf
                  else digits_loop ovf lim (10 * acc + d) bs)"

text \<open>\<open>from_str_radix(src, 10)\<close> for a type with greatest magnitudes \<open>neg\<close> and \<open>pos\<close>, signed or not.\<close>

definition int_from_str :: "bool \<Rightarrow> nat \<Rightarrow> nat \<Rightarrow> bytes \<Rightarrow> int_error_kind + int" where
  "int_from_str is_signed neg pos src =
     (case src of
        [] \<Rightarrow> Inl Empty
      | b # r \<Rightarrow>
          if (b = 0x2B \<or> b = 0x2D) \<and> r = [] then Inl InvalidDigit
          else if b = 0x2B then map_sum id int (digits_loop PosOverflow pos 0 r)
          else if b = 0x2D \<and> is_signed then map_sum id (\<lambda>n. - int n) (digits_loop NegOverflow neg 0 r)
          else map_sum id int (digits_loop PosOverflow pos 0 src))"

lemma parse_digits_mono: "parse_digits acc bs = Some v \<Longrightarrow> acc \<le> v"
  by (induction acc bs arbitrary: v rule: parse_digits.induct) (fastforce split: option.splits)+

lemma digits_loop_Inr:
  "acc \<le> lim \<Longrightarrow> digits_loop ovf lim acc bs = Inr v \<longleftrightarrow> parse_digits acc bs = Some v \<and> v \<le> lim"
proof (induction bs arbitrary: acc)
  case (Cons b bs)
  show ?case
  proof (cases "digit_val b")
    case (Some d)
    show ?thesis
    proof (cases "10 * acc + d \<le> lim")
      case True
      with Cons.IH [OF True] Some show ?thesis by simp
    next
      case False
      moreover have "v > lim" if "parse_digits (10 * acc + d) bs = Some v"
        using parse_digits_mono [OF that] False by simp
      ultimately show ?thesis using Some by auto
    qed
  qed simp
qed auto

text \<open>The library's parser and \<open>parse_int\<close> accept the same texts with the same values.\<close>

lemma int_from_str_parse_int:
  "int_from_str True neg pos src = Inr i \<longleftrightarrow> parse_int (- int neg) (int pos) src = Some i"
proof (cases src)
  case (Cons b r)
  have p: "map_sum id f x = Inr i \<longleftrightarrow> (\<exists>n. x = Inr n \<and> f n = i)" for f :: "nat \<Rightarrow> int" and x :: "int_error_kind + nat"
    by (cases x) auto
  show ?thesis
    using Cons
    by (auto simp: int_from_str_def parse_int_def parse_nat_def p digits_loop_Inr
        simp del: digits_loop.simps parse_digits.simps split: option.split)
qed (simp add: int_from_str_def parse_int_def)

section \<open>Parsing strings\<close>

datatype sds_numeric_error = EmptyValue | InvalidInteger | InvalidFloat | Overflow | InvalidUtf8

fun signed_error :: "int_error_kind \<Rightarrow> sds_numeric_error" where
  "signed_error PosOverflow = Overflow"
| "signed_error NegOverflow = Overflow"
| "signed_error Empty = EmptyValue"
| "signed_error InvalidDigit = InvalidInteger"

fun unsigned_error :: "int_error_kind \<Rightarrow> sds_numeric_error" where
  "unsigned_error PosOverflow = Overflow"
| "unsigned_error Empty = EmptyValue"
| "unsigned_error _ = InvalidInteger"

definition to_i64 :: "bytes \<Rightarrow> sds_numeric_error + i64" where
  "to_i64 bs =
     (if bs = [] then Inl EmptyValue
      else if \<not> utf8_valid bs then Inl InvalidUtf8
      else map_sum signed_error word_of_int (int_from_str True (2 ^ 63) (2 ^ 63 - 1) bs))"

definition to_u64 :: "bytes \<Rightarrow> sds_numeric_error + u64" where
  "to_u64 bs =
     (if bs = [] then Inl EmptyValue
      else if \<not> utf8_valid bs then Inl InvalidUtf8
      else map_sum unsigned_error word_of_int (int_from_str False 0 (2 ^ 64 - 1) bs))"

definition to_f64 :: "(bytes \<Rightarrow> u64 option) \<Rightarrow> bytes \<Rightarrow> sds_numeric_error + u64" where
  "to_f64 parse bs =
     (if bs = [] then Inl EmptyValue
      else if \<not> utf8_valid bs then Inl InvalidUtf8
      else case parse bs of None \<Rightarrow> Inl InvalidFloat | Some f \<Rightarrow> Inr f)"

definition is_ascii_digit :: "u8 \<Rightarrow> bool" where
  "is_ascii_digit b \<longleftrightarrow> 0x30 \<le> b \<and> b \<le> 0x39"

definition is_integer :: "bytes \<Rightarrow> bool" where
  "is_integer bs =
     (case bs of
        [] \<Rightarrow> False
      | b # r \<Rightarrow> (let digits = (if b = 0x2D \<or> b = 0x2B then r else bs)
                 in digits \<noteq> [] \<and> list_all is_ascii_digit digits))"

text \<open>The parser of the file that works on bytes; \<open>result\<close> is a checked \<open>u64\<close>.\<close>

fun parse_i64_loop :: "nat \<Rightarrow> bytes \<Rightarrow> sds_numeric_error + nat" where
  "parse_i64_loop result [] = Inr result"
| "parse_i64_loop result (b # bs) =
     (if \<not> is_ascii_digit b then Inl InvalidInteger
      else if result * 10 \<ge> 2 ^ 64 then Inl Overflow
      else if result * 10 + unat (b - 0x30) \<ge> 2 ^ 64 then Inl Overflow
      else parse_i64_loop (result * 10 + unat (b - 0x30)) bs)"

definition sds_parse_i64 :: "bytes \<Rightarrow> sds_numeric_error + i64" where
  "sds_parse_i64 bs =
     (case bs of
        [] \<Rightarrow> Inl EmptyValue
      | b # r \<Rightarrow>
          (let (neg, digs) = (if b = 0x2D then (True, r) else if b = 0x2B then (False, r) else (False, bs))
           in if digs = [] then Inl InvalidInteger
              else case parse_i64_loop 0 digs of
                Inl e \<Rightarrow> Inl e
              | Inr result \<Rightarrow>
                  if neg
                  then if result > 2 ^ 63 - 1 + 1 then Inl Overflow else Inr (- of_nat result)
                  else if result > 2 ^ 63 - 1 then Inl Overflow else Inr (of_nat result)))"

section \<open>Printing\<close>

text \<open>The digits are written from the end of the buffer; running out of room or a bad index is a panic.\<close>

function write_digits :: "nat \<Rightarrow> bytes \<Rightarrow> nat \<Rightarrow> (bytes \<times> nat) panics" where
  "write_digits n buf pos =
     (if n > 0 then do {
        pos \<leftarrow> usub pos 1;
        buf \<leftarrow> upd buf pos (0x30 + of_nat (n mod 10));
        write_digits (n div 10) buf pos
      } else Some (buf, pos))"
  by pat_completeness auto
termination
  by (relation "measure (\<lambda>(n, buf, pos). n)") auto

declare write_digits.simps [simp del]

definition write_i64 :: "i64 \<Rightarrow> bytes panics" where
  "write_i64 n =
     (let buf = replicate 20 0
      in if n = 0 then do { buf \<leftarrow> upd buf 0 0x30; slice buf 0 1 }
         else do {
           (buf, pos) \<leftarrow> write_digits (nat \<bar>sint n\<bar>) buf 20;
           (buf, pos) \<leftarrow> (if sint n < 0
                          then do { pos \<leftarrow> usub pos 1; buf \<leftarrow> upd buf pos 0x2D; Some (buf, pos) }
                          else Some (buf, pos));
           slice buf pos 20
         })"

definition write_u64 :: "u64 \<Rightarrow> bytes panics" where
  "write_u64 n =
     (let buf = replicate 20 0
      in if n = 0 then do { buf \<leftarrow> upd buf 0 0x30; slice buf 0 1 }
         else do { (buf, pos) \<leftarrow> write_digits (unat n) buf 20; slice buf pos 20 })"

definition from_i64 :: "i64 \<Rightarrow> sds panics" where
  "from_i64 n = do { s \<leftarrow> write_i64 n; sds_from_bytes s }"

definition from_u64 :: "u64 \<Rightarrow> sds panics" where
  "from_u64 n = do { s \<leftarrow> write_u64 n; sds_from_bytes s }"

text \<open>
  \<open>StackFmtBuf<32>\<close>: the formatter hands over the text of the number in pieces, the parameter \<open>pieces\<close>; a piece
  that does not fit is an error, which \<open>expect\<close> turns into a panic.
\<close>

definition write_str :: "nat \<Rightarrow> bytes \<times> nat \<Rightarrow> bytes \<Rightarrow> (bytes \<times> nat) option" where
  "write_str N = (\<lambda>(buf, len) s.
     let end = len + length s
     in if end > N then None
        else do { buf \<leftarrow> copy_from_slice buf len end s; Some (buf, end) })"

fun write_pieces :: "nat \<Rightarrow> bytes \<times> nat \<Rightarrow> bytes list \<Rightarrow> (bytes \<times> nat) option" where
  "write_pieces N b [] = Some b"
| "write_pieces N b (s # ss) = do { b \<leftarrow> write_str N b s; write_pieces N b ss }"

definition from_f64 :: "(u64 \<Rightarrow> bytes list) \<Rightarrow> u64 \<Rightarrow> sds panics" where
  "from_f64 pieces n = do {
     (buf, len) \<leftarrow> write_pieces 32 (replicate 32 0, 0) (pieces n);
     bs \<leftarrow> slice buf 0 len;
     sds_from_bytes bs
   }"

lemma show_nat_length: "n < 10 ^ k \<Longrightarrow> 0 < k \<Longrightarrow> length (show_nat n) \<le> k"
proof (induction k arbitrary: n)
  case (Suc k)
  show ?case
  proof (cases "n < 10")
    case False
    then have "0 < k" using Suc.prems(1) by (cases k) auto
    moreover have "n div 10 < 10 ^ k" using Suc.prems(1) by (simp add: less_mult_imp_div_less mult.commute)
    ultimately show ?thesis using Suc.IH [of "n div 10"] False by (simp add: show_nat.simps [of n])
  qed (simp add: show_nat.simps [of n])
qed simp

lemma write_digits_shows:
  "0 < n \<Longrightarrow> length (show_nat n) \<le> length pre \<Longrightarrow>
   \<exists>pre'. length pre' = length pre - length (show_nat n) \<and>
     write_digits n (pre @ post) (length pre) = Some (pre' @ show_nat n @ post, length pre')"
proof (induction n arbitrary: pre post rule: show_nat.induct)
  case (1 n)
  from 1(3) show_nat_ne [of n] obtain pre1 x where pre: "pre = pre1 @ [x]" by (cases pre rule: rev_cases) auto
  have step: "write_digits n (pre @ post) (length pre)
      = write_digits (n div 10) (pre1 @ (0x30 + of_nat (n mod 10)) # post) (length pre1)"
    using 1(2) pre by (subst write_digits.simps) (simp add: list_update_append)
  show ?case
  proof (cases "n < 10")
    case True
    then show ?thesis
      using step pre by (simp add: show_nat.simps [of n] write_digits.simps [of 0])
  next
    case False
    then have "0 < n div 10" "length (show_nat (n div 10)) \<le> length pre1"
      using 1(3) pre by (auto simp: show_nat.simps [of n] div_greater_zero_iff)
    from 1(1) [OF False this, of "(0x30 + of_nat (n mod 10)) # post"] step pre False show ?thesis
      by (auto simp: show_nat.simps [of n])
  qed
qed

lemma write_u64_shows: "write_u64 n = Some (show_nat (unat n))"
proof (cases "n = 0")
  case True
  then show ?thesis by (simp add: write_u64_def show_nat.simps slice_def numeral_eq_Suc)
next
  case False
  have "unat n < 10 ^ 20" using unsigned_less [of n, where ?'a = nat] by simp
  then have len: "length (show_nat (unat n)) \<le> length (replicate 20 (0 :: u8))" using show_nat_length by simp
  have "0 < unat n" using False by (simp add: unat_gt_0)
  from write_digits_shows [OF this len, of "[]"] obtain pre where
    "length pre = 20 - length (show_nat (unat n))"
    "write_digits (unat n) (replicate 20 0) 20 = Some (pre @ show_nat (unat n), length pre)"
    by auto
  with False len show ?thesis by (simp add: write_u64_def slice_def Let_def)
qed

lemma write_i64_shows: "write_i64 n = Some (show_int (sint n))"
proof (cases "n = 0")
  case True
  then show ?thesis by (simp add: write_i64_def show_int_def show_nat.simps slice_def numeral_eq_Suc)
next
  case False
  let ?m = "nat \<bar>sint n\<bar>"
  have "\<bar>sint n\<bar> \<le> 2 ^ 63" using sint_greater_eq [of n] sint_less [of n] by simp
  then have "?m < 10 ^ 19" by simp
  then have len: "length (show_nat ?m) \<le> 19" using show_nat_length by simp
  have "sint n \<noteq> 0" using False by (metis sint_0 signed_word_eqI)
  then have "0 < ?m" by simp
  from write_digits_shows [OF this, of "replicate 20 0" "[]"] len obtain pre where pre:
    "length pre = 20 - length (show_nat ?m)"
    "write_digits ?m (replicate 20 0) 20 = Some (pre @ show_nat ?m, length pre)"
    by auto
  show ?thesis
  proof (cases "sint n < 0")
    case True
    from pre(1) len obtain pre1 x where p: "pre = pre1 @ [x]" by (cases pre rule: rev_cases) auto
    with pre(1) len have total: "Suc (length pre1 + length (show_nat ?m)) = 20" by simp
    from p pre(2) have "write_digits ?m (replicate 20 0) 20 = Some (pre1 @ x # show_nat ?m, Suc (length pre1))"
      by (simp del: abs_of_neg)
    moreover have "?m = nat (- sint n)" using True by simp
    ultimately show ?thesis
      using False True total by (simp add: write_i64_def show_int_def slice_def Let_def)
  next
    case neg: False
    then have "?m = nat (sint n)" by simp
    with pre len False neg show ?thesis
      by (simp add: write_i64_def show_int_def slice_def Let_def)
  qed
qed

section \<open>Properties\<close>

lemma digit_val_ascii: "digit_val b \<noteq> None \<longleftrightarrow> is_ascii_digit b"
  by (simp add: digit_val_def is_ascii_digit_def)

lemma parse_digits_ascii: "parse_digits acc bs \<noteq> None \<longleftrightarrow> list_all is_ascii_digit bs"
proof (induction bs arbitrary: acc)
  case (Cons b bs)
  then show ?case using digit_val_ascii [of b] by (auto split: option.splits)
qed simp

lemma is_ascii_digit_small: "is_ascii_digit b \<Longrightarrow> b < 0x80"
proof -
  assume "is_ascii_digit b"
  then have "b \<le> 0x39" by (simp add: is_ascii_digit_def)
  also have "(0x39 :: u8) < 0x80" by simp
  finally show ?thesis .
qed

lemma parse_int_is_integer: "parse_int lo hi bs = Some i \<Longrightarrow> is_integer bs"
proof -
  assume p: "parse_int lo hi bs = Some i"
  then obtain b r where bs: "bs = b # r" by (cases bs) (auto simp: parse_int_def)
  have nat: "ds \<noteq> [] \<and> list_all is_ascii_digit ds" if "parse_nat ds \<noteq> None" for ds
    using that parse_digits_ascii [of 0 ds] by (auto simp: parse_nat_def split: if_splits)
  have "b \<noteq> 0x2D \<and> b \<noteq> 0x2B \<longrightarrow> parse_nat bs \<noteq> None" "b = 0x2D \<or> b = 0x2B \<longrightarrow> parse_nat r \<noteq> None"
    using p bs by (auto simp: parse_int_def split: if_splits option.splits)
  then show ?thesis using bs nat [of r] nat [of bs] by (auto simp: is_integer_def Let_def)
qed

lemma is_integer_utf8: "is_integer bs \<Longrightarrow> utf8_valid bs"
proof (cases bs)
  case (Cons b r)
  assume i: "is_integer bs"
  have tail: "utf8_valid ds" if "list_all is_ascii_digit ds" for ds
    using that by (auto intro!: ascii_utf8 elim!: list.pred_mono_strong simp: is_ascii_digit_small)
  show ?thesis
  proof (cases "b = 0x2D \<or> b = 0x2B")
    case True
    with i Cons have "utf8_valid r" by (auto simp: is_integer_def intro!: tail)
    with True Cons show ?thesis by auto
  next
    case False
    with i Cons have "list_all is_ascii_digit bs" by (simp add: is_integer_def Let_def)
    then show ?thesis by (rule tail)
  qed
qed simp

lemma to_i64_parse_int:
  "to_i64 bs = Inr n \<longleftrightarrow> (\<exists>i. parse_int i64_MIN i64_MAX bs = Some i \<and> n = word_of_int i)"
proof -
  have p: "int_from_str True (2 ^ 63) (2 ^ 63 - 1) bs = Inr i \<longleftrightarrow> parse_int i64_MIN i64_MAX bs = Some i" for i
    unfolding int_from_str_parse_int by simp
  have u: "bs \<noteq> [] \<and> utf8_valid bs" if "parse_int i64_MIN i64_MAX bs = Some i" for i
    using parse_int_is_integer [OF that] is_integer_utf8 by (auto simp: is_integer_def)
  show ?thesis
  proof (cases "int_from_str True (2 ^ 63) (2 ^ 63 - 1) bs")
    case (Inl e)
    then have "parse_int i64_MIN i64_MAX bs = None" using p by (metis Inl_Inr_False not_None_eq)
    with Inl show ?thesis unfolding to_i64_def by simp
  next
    case (Inr i)
    then have "parse_int i64_MIN i64_MAX bs = Some i" by (rule p [THEN iffD1])
    with Inr u [of i] show ?thesis unfolding to_i64_def Inr by auto
  qed
qed

lemma parse_i64_loop_Inr:
  "acc < 2 ^ 64 \<Longrightarrow> parse_i64_loop acc bs = Inr v \<longleftrightarrow> parse_digits acc bs = Some v \<and> v < 2 ^ 64"
proof (induction bs arbitrary: acc)
  case (Cons b bs)
  show ?case
  proof (cases "is_ascii_digit b")
    case True
    let ?d = "unat (b - 0x30)"
    have d: "digit_val b = Some ?d" using True by (simp add: digit_val_def is_ascii_digit_def)
    show ?thesis
    proof (cases "10 * acc + ?d < 2 ^ 64")
      case less: True
      with Cons.IH [OF less] True d show ?thesis by (simp add: mult.commute)
    next
      case False
      moreover have "\<not> v < 2 ^ 64" if "parse_digits (10 * acc + ?d) bs = Some v"
        using parse_digits_mono [OF that] False by simp
      ultimately show ?thesis using True d by (auto simp: mult.commute)
    qed
  next
    case False
    then have "digit_val b = None" using digit_val_ascii [of b] by auto
    with False show ?thesis by simp
  qed
qed auto

definition parse_i64_tail :: "bool \<Rightarrow> bytes \<Rightarrow> sds_numeric_error + i64" where
  "parse_i64_tail neg digs =
     (if digs = [] then Inl InvalidInteger
      else case parse_i64_loop 0 digs of
        Inl e \<Rightarrow> Inl e
      | Inr result \<Rightarrow>
          if neg
          then if result > 2 ^ 63 - 1 + 1 then Inl Overflow else Inr (- of_nat result)
          else if result > 2 ^ 63 - 1 then Inl Overflow else Inr (of_nat result))"

lemma parse_i64_tail_Inr:
  "parse_i64_tail neg digs = Inr n \<longleftrightarrow>
   (\<exists>v. parse_nat digs = Some v \<and> int v \<le> (if neg then - i64_MIN else i64_MAX) \<and>
        n = (if neg then - of_nat v else of_nat v))"
proof (cases "parse_i64_loop 0 digs")
  case (Inl e)
  have "\<not> v < 2 ^ 64" if "parse_digits 0 digs = Some v" for v
    using parse_i64_loop_Inr [of 0 digs v] Inl that by simp
  then have "\<not> int v \<le> (if neg then - i64_MIN else i64_MAX)" if "parse_nat digs = Some v" for v
    using that unfolding parse_nat_def by (cases "digs = []"; cases neg) force+
  then have "\<nexists>v. parse_nat digs = Some v \<and> int v \<le> (if neg then - i64_MIN else i64_MAX)" by blast
  with Inl show ?thesis unfolding parse_i64_tail_def by auto
next
  case (Inr v)
  then have "parse_digits 0 digs = Some v" using parse_i64_loop_Inr [of 0 digs v] by simp
  with Inr show ?thesis by (auto simp: parse_i64_tail_def parse_nat_def)
qed

lemma sds_parse_i64_parse_int:
  "sds_parse_i64 bs = Inr n \<longleftrightarrow> (\<exists>i. parse_int i64_MIN i64_MAX bs = Some i \<and> n = word_of_int i)"
proof (cases bs)
  case (Cons b r)
  have w: "word_of_int (- int v) = (- of_nat v :: i64)" for v by simp
  have "sds_parse_i64 bs = (if b = 0x2D then parse_i64_tail True r
      else if b = 0x2B then parse_i64_tail False r else parse_i64_tail False bs)"
    using Cons by (simp add: sds_parse_i64_def parse_i64_tail_def)
  then show ?thesis
    using Cons by (auto simp: parse_i64_tail_Inr parse_int_def w split: option.splits if_splits)
qed (simp add: sds_parse_i64_def parse_int_def)

text \<open>\<open>from_i64\<close> and \<open>from_u64\<close> never panic, give an inline string with the decimal digits of the number, and \<open>to_i64\<close>,
  \<open>to_u64\<close> read the number back, for every value of the type.
\<close>

theorem sds_number_roundtrip:
  "\<exists>s t. from_i64 n = Some s \<and> sds_is_inline s \<and> sds_bytes s = show_int (sint n) \<and> to_i64 (sds_bytes s) = Inr n \<and>
     from_u64 m = Some t \<and> sds_is_inline t \<and> sds_bytes t = show_nat (unat m) \<and> to_u64 (sds_bytes t) = Inr m"
proof -
  have from_bytes: "\<exists>s. sds_from_bytes bs = Some s \<and> sds_is_inline s \<and> sds_bytes s = bs" if "length bs \<le> 20" for bs
    using that inline_of_is [of bs] by (auto simp: sds_from_bytes_def sds_is_def inline_of_inline)
  have m: "unat m < 10 ^ 20" "unat m \<le> 2 ^ 64 - 1" using unsigned_less [of m, where ?'a = nat] by simp_all
  have "nat \<bar>sint n\<bar> < 10 ^ 19" using sint_greater_eq [of n] sint_less [of n] by simp
  then have "length (show_int (sint n)) \<le> 20"
    using show_nat_length [of "nat \<bar>sint n\<bar>" 19] by (cases "sint n < 0") (simp_all add: show_int_def)
  moreover have "length (show_nat (unat m)) \<le> 20" using show_nat_length m(1) by simp
  moreover have "to_i64 (show_int (sint n)) = Inr n"
    using parse_show_i64 [of n] by (auto simp: to_i64_parse_int parse_i64_def)
  moreover have "to_u64 (show_nat (unat m)) = Inr m"
  proof -
    obtain b r where br: "show_nat (unat m) = b # r" using show_nat_ne by (cases "show_nat (unat m)") auto
    then have "b \<noteq> 0x2D" "b \<noteq> 0x2B" using show_nat_bytes [of "unat m"] by auto
    moreover have "digits_loop PosOverflow (2 ^ 64 - 1) 0 (show_nat (unat m)) = Inr (unat m)"
      using m(2) parse_show_nat [of "unat m"] digits_loop_Inr [of 0] by blast
    ultimately have "int_from_str False 0 (2 ^ 64 - 1) (show_nat (unat m)) = Inr (int (unat m))"
      unfolding br int_from_str_def by simp
    moreover have "utf8_valid (show_nat (unat m))" using text_line_show_nat by (simp add: text_line_def)
    ultimately show ?thesis unfolding to_u64_def by (simp add: show_nat_ne)
  qed
  ultimately show ?thesis
    using from_bytes [of "show_int (sint n)"] from_bytes [of "show_nat (unat m)"]
    by (auto simp: from_i64_def from_u64_def write_i64_shows write_u64_shows)
qed

text \<open>
  The two integer parsers of the file, the one over the standard library and the one over bytes, accept the same
  strings with the same values (they differ only in which error they report), and \<open>is_integer\<close> holds for every
  string they accept and for no string that they reject other than for its size.
\<close>

theorem sds_parsers_agree:
  "(to_i64 bs = Inr n \<longleftrightarrow> sds_parse_i64 bs = Inr n) \<and>
   (to_i64 bs = Inr n \<longrightarrow> is_integer bs) \<and>
   (is_integer bs \<longrightarrow> (\<exists>v. to_i64 bs = Inr v) \<or> to_i64 bs = Inl Overflow)"
proof -
  have "(\<exists>v. to_i64 bs = Inr v) \<or> to_i64 bs = Inl Overflow" if i: "is_integer bs"
  proof -
    obtain b r where bs: "bs = b # r" using i by (cases bs) (auto simp: is_integer_def)
    have digits: "\<exists>v. digits_loop ovf lim acc ds = Inr v \<or> digits_loop ovf lim acc ds = Inl ovf"
      if "list_all is_ascii_digit ds" for ovf lim acc ds
      using that
    proof (induction ds arbitrary: acc)
      case (Cons a ds)
      then obtain d where "digit_val a = Some d" using digit_val_ascii [of a] by auto
      with Cons.IH [of "10 * acc + d"] Cons.prems show ?case by auto
    qed simp
    have "(\<exists>v. int_from_str True p q bs = Inr v) \<or> int_from_str True p q bs = Inl PosOverflow \<or>
        int_from_str True p q bs = Inl NegOverflow" for p q
      using i bs digits [of r PosOverflow q 0] digits [of r NegOverflow p 0] digits [of bs PosOverflow q 0]
      unfolding is_integer_def int_from_str_def by (auto simp del: digits_loop.simps simp: Let_def)
    from this [of "2 ^ 63" "2 ^ 63 - 1"] show ?thesis
      using bs is_integer_utf8 [OF i] unfolding to_i64_def by (elim disjE exE) (simp_all only: map_sum.simps, simp_all)
  qed
  then show ?thesis
    using to_i64_parse_int sds_parse_i64_parse_int parse_int_is_integer by blast
qed

theorem sds_parsers_agree_witness:
  "sds_parse_i64 [0x2D, 0x37] = Inr (- 7) \<and> is_integer [0x2D, 0x37]"
proof -
  have "to_i64 [0x2D, 0x37] = Inr (- 7)"
    unfolding to_i64_parse_int by (rule exI [of _ "- 7"]) code_simp
  with sds_parsers_agree [of "[0x2D, 0x37]" "- 7"] show ?thesis by simp
qed

lemma write_pieces_fits:
  assumes "length buf = N" and "len \<le> N"
  shows "write_pieces N (buf, len) ss =
    (if len + length (concat ss) \<le> N
     then Some (take len buf @ concat ss @ drop (len + length (concat ss)) buf, len + length (concat ss)) else None)"
  using assms
proof (induction ss arbitrary: buf len)
  case (Cons s ss)
  show ?case
  proof (cases "len + length s \<le> N")
    case True
    let ?buf = "take len buf @ s @ drop (len + length s) buf"
    have "write_str N (buf, len) s = Some (?buf, len + length s)"
      using True Cons.prems by (simp add: write_str_def copy_from_slice_def Let_def)
    moreover have "length ?buf = N" using Cons.prems True by simp
    moreover have "take (len + length s) ?buf = take len buf @ s" using Cons.prems by simp
    moreover have "drop (len + length s + k) ?buf = drop (len + length s + k) buf" for k
      using Cons.prems by (simp add: add.assoc add.commute)
    ultimately show ?thesis using Cons.IH [of ?buf "len + length s"] True by (simp add: add.assoc)
  qed (simp add: write_str_def)
qed simp

text \<open>\<open>from_f64\<close> gives the text of the number when it has at most 32 bytes and panics otherwise (the text of \<open>1e300\<close>,
  for example, has 301 digits).
\<close>

theorem sds_from_f64_bounded:
  "(length (concat (pieces f)) \<le> 32 \<longrightarrow> sds_is (from_f64 pieces f) (concat (pieces f))) \<and>
   (32 < length (concat (pieces f)) \<longrightarrow> from_f64 pieces f = None)"
  using write_pieces_fits [of "replicate 32 0" 32 0 "pieces f"] sds_from_bytes_is [of "concat (pieces f)"]
  by (simp add: from_f64_def slice_front)

theorem sds_from_f64_bounded_witness:
  "from_f64 (\<lambda>_. [replicate 301 0x30]) 0x7E37E43C8800759C = None"
  using sds_from_f64_bounded [of "\<lambda>_. [replicate 301 0x30]"] by simp

text \<open>
  \<open>from_utf8_lossy\<close> gives well-formed text on every input and leaves well-formed text as it is.
\<close>

theorem sds_from_utf8_lossy_text:
  "\<exists>s. sds_from_utf8_lossy bs = Some s \<and> sds_inv s \<and> utf8_valid (sds_bytes s) \<and>
     (utf8_valid bs \<longrightarrow> sds_bytes s = bs)"
  using sds_from_bytes_is [of "utf8_lossy bs"] utf8_lossy_valid [of bs] utf8_lossy_id [of bs]
  by (auto simp: sds_from_utf8_lossy_def sds_is_def)

theorem sds_from_utf8_lossy_text_witness:
  "\<exists>s. sds_from_utf8_lossy [0x61, 0xC3, 0xA9] = Some s \<and> sds_bytes s = [0x61, 0xC3, 0xA9]"
proof -
  have "utf8_valid [0x61, 0xC3, 0xA9]" by (simp add: utf8_cont_def)
  with sds_from_utf8_lossy_text [of "[0x61, 0xC3, 0xA9]"] show ?thesis by blast
qed

end
