(* ===== verification/Rust_Std.thy ===== *)
theory Rust_Std
  imports Prelude
begin

text \<open>
  The algorithms of the Rust standard library that the sources call and whose result the
  component theories depend on: \<open>slice::binary_search\<close> (the branch-free loop of \<open>core::slice\<close>)
  and \<open>usize::next_power_of_two\<close>, each with the contract its documentation gives.
\<close>

section \<open>Three-way comparison\<close>

datatype cmp_ordering = Less | Equal | Greater

definition ord_cmp :: "'a :: linorder \<Rightarrow> 'a \<Rightarrow> cmp_ordering" where
  "ord_cmp a b = (if a < b then Less else if a = b then Equal else Greater)"

lemma ord_cmp_simps [simp]:
  "ord_cmp a b = Less \<longleftrightarrow> a < b"
  "ord_cmp a b = Equal \<longleftrightarrow> a = b"
  "ord_cmp a b = Greater \<longleftrightarrow> b < a"
  by (auto simp: ord_cmp_def)

section \<open>Binary search\<close>

text \<open>
  \<open>Ok i\<close> is \<open>Inr i\<close>, \<open>Err i\<close> is \<open>Inl i\<close>. The comparison \<open>f\<close> tells how an element
  compares with the target.
\<close>

function binary_search_loop ::
  "('a \<Rightarrow> cmp_ordering) \<Rightarrow> 'a list \<Rightarrow> nat \<Rightarrow> nat \<Rightarrow> nat" where
  "binary_search_loop f xs base sz =
     (if 1 < sz
      then binary_search_loop f xs
             (if f (xs ! (base + sz div 2)) = Greater then base else base + sz div 2)
             (sz - sz div 2)
      else base)"
  by pat_completeness auto
termination
  by (relation "measure (\<lambda>(f, xs, base, sz). sz)") auto

declare binary_search_loop.simps [simp del]

definition binary_search_by :: "('a \<Rightarrow> cmp_ordering) \<Rightarrow> 'a list \<Rightarrow> nat + nat" where
  "binary_search_by f xs =
     (if xs = [] then Inl 0
      else let base = binary_search_loop f xs 0 (length xs)
           in case f (xs ! base) of
                Equal \<Rightarrow> Inr base
              | Less \<Rightarrow> Inl (base + 1)
              | Greater \<Rightarrow> Inl base)"

text \<open>The search over elements read through a key, e.g. a word read as a signed number.\<close>

definition binary_search_key ::
  "('a \<Rightarrow> 'b :: linorder) \<Rightarrow> 'a list \<Rightarrow> 'b \<Rightarrow> nat + nat" where
  "binary_search_key k xs t = binary_search_by (\<lambda>x. ord_cmp (k x) t) xs"

lemma binary_search_loop_inv:
  assumes "sorted (map k xs)" and "0 < sz" and "base + sz \<le> length xs"
    and "base = 0 \<or> k (xs ! base) \<le> t"
    and "\<forall>j. base + sz \<le> j \<and> j < length xs \<longrightarrow> t < k (xs ! j)"
    and "b = binary_search_loop (\<lambda>x. ord_cmp (k x) t) xs base sz"
  shows "b < length xs \<and> (b = 0 \<or> k (xs ! b) \<le> t) \<and> (\<forall>j. b < j \<and> j < length xs \<longrightarrow> t < k (xs ! j))"
  using assms(2-6)
proof (induction sz arbitrary: base rule: less_induct)
  case (less sz)
  note step = binary_search_loop.simps [of _ xs base sz]
  show ?case
  proof (cases "1 < sz")
    case False
    with less.prems(1) have "sz = 1" by simp
    moreover from this less.prems(5) have "b = base" by (simp add: binary_search_loop.simps)
    ultimately show ?thesis using less.prems(2-4) by auto
  next
    case True
    let ?mid = "base + sz div 2"
    have mid: "?mid < length xs" using True less.prems(2) by linarith
    show ?thesis
    proof (cases "k (xs ! ?mid) \<le> t")
      case True
      with \<open>1 < sz\<close> have "b = binary_search_loop (\<lambda>x. ord_cmp (k x) t) xs ?mid (sz - sz div 2)"
        using less.prems(5) by (simp add: step)
      then show ?thesis
        using less.IH [of "sz - sz div 2" ?mid] \<open>1 < sz\<close> True less.prems(2,4) by simp
    next
      case False
      have above: "t < k (xs ! j)" if "?mid \<le> j" "j < length xs" for j
        using sorted_nth_mono [OF assms(1), of ?mid j] that False mid by auto
      from False \<open>1 < sz\<close> have "b = binary_search_loop (\<lambda>x. ord_cmp (k x) t) xs base (sz - sz div 2)"
        using less.prems(5) by (simp add: step)
      moreover have "\<forall>j. base + (sz - sz div 2) \<le> j \<and> j < length xs \<longrightarrow> t < k (xs ! j)"
        using above by auto
      ultimately show ?thesis
        using less.IH [of "sz - sz div 2" base] \<open>1 < sz\<close> less.prems(2,3) by simp
    qed
  qed
qed

lemma binary_search_loop_result:
  assumes "sorted (map k xs)" and "xs \<noteq> []"
    and "b = binary_search_loop (\<lambda>x. ord_cmp (k x) t) xs 0 (length xs)"
  shows "b < length xs" and "b = 0 \<or> k (xs ! b) \<le> t"
    and "b < j \<Longrightarrow> j < length xs \<Longrightarrow> t < k (xs ! j)"
proof -
  have "\<forall>j. 0 + length xs \<le> j \<and> j < length xs \<longrightarrow> t < k (xs ! j)" by auto
  from binary_search_loop_inv [OF assms(1) _ _ _ this assms(3)] assms(2)
  show "b < length xs" and "b = 0 \<or> k (xs ! b) \<le> t"
    and "b < j \<Longrightarrow> j < length xs \<Longrightarrow> t < k (xs ! j)" by simp_all
qed

text \<open>The documented contract, for slices ascending in the key.\<close>

lemma binary_search_key_Ok:
  assumes "sorted (map k xs)" and "binary_search_key k xs t = Inr i"
  shows "i < length xs \<and> k (xs ! i) = t"
proof -
  have ne: "xs \<noteq> []" using assms(2) by (auto simp: binary_search_key_def binary_search_by_def)
  then have "i = binary_search_loop (\<lambda>x. ord_cmp (k x) t) xs 0 (length xs)" and "k (xs ! i) = t"
    using assms(2)
    by (auto simp: binary_search_key_def binary_search_by_def Let_def split: cmp_ordering.splits)
  with binary_search_loop_result(1) [OF assms(1) ne] show ?thesis by blast
qed

lemma binary_search_key_Err:
  assumes "sorted (map k xs)" and "binary_search_key k xs t = Inl i"
  shows "i \<le> length xs \<and> (\<forall>j<i. k (xs ! j) < t) \<and> (\<forall>j. i \<le> j \<and> j < length xs \<longrightarrow> t < k (xs ! j))"
proof (cases "xs = []")
  case True
  with assms(2) show ?thesis by (simp add: binary_search_key_def binary_search_by_def)
next
  case False
  define b where "b = binary_search_loop (\<lambda>x. ord_cmp (k x) t) xs 0 (length xs)"
  have b: "b < length xs" "b = 0 \<or> k (xs ! b) \<le> t" "\<forall>j. b < j \<and> j < length xs \<longrightarrow> t < k (xs ! j)"
    using binary_search_loop_result [OF assms(1) False b_def] by blast+
  have below: "k (xs ! j) < t" if "k (xs ! b) < t" "j \<le> b" for j
    using sorted_nth_mono [OF assms(1), of j b] that b(1) by auto
  have res: "(case ord_cmp (k (xs ! b)) t of Equal \<Rightarrow> Inr b | Less \<Rightarrow> Inl (b + 1) | Greater \<Rightarrow> Inl b)
      = Inl i"
    using assms(2) False
    by (simp add: binary_search_key_def binary_search_by_def Let_def b_def [symmetric] cong: cmp_ordering.case_cong)
  show ?thesis
  proof (cases "k (xs ! b) < t")
    case True
    with res have "i = Suc b" by (simp add: ord_cmp_def)
    with b below True show ?thesis by (auto simp: less_Suc_eq_le)
  next
    case False
    with res have "i = b" and "t < k (xs ! b)" by (auto simp: ord_cmp_def split: if_splits)
    with b have "b = 0" by auto
    with b \<open>i = b\<close> \<open>t < k (xs ! b)\<close> show ?thesis by (metis less_nat_zero_code neq0_conv zero_le)
  qed
qed

lemma binary_search_key_iff:
  assumes "sorted (map k xs)"
  shows "(\<exists>i. binary_search_key k xs t = Inr i) \<longleftrightarrow> t \<in> k ` set xs"
proof (cases "binary_search_key k xs t")
  case (Inr i)
  with binary_search_key_Ok [OF assms Inr] have "t \<in> k ` set xs" by auto
  with Inr show ?thesis by auto
next
  case (Inl i)
  with binary_search_key_Err [OF assms Inl] have "t \<notin> k ` set xs"
    by (auto simp: in_set_conv_nth) (metis leI less_irrefl)
  with Inl show ?thesis by auto
qed

section \<open>Powers of two\<close>

text \<open>\<open>usize::next_power_of_two\<close>: the least power of two that is at least \<open>n\<close>.\<close>

function npo2_from :: "nat \<Rightarrow> nat \<Rightarrow> nat" where
  "npo2_from p n = (if 0 < p \<and> p < n then npo2_from (2 * p) n else p)"
  by pat_completeness auto
termination
  by (relation "measure (\<lambda>(p, n). n - p)") auto

declare npo2_from.simps [simp del]

definition next_power_of_two :: "nat \<Rightarrow> nat" where
  "next_power_of_two n = npo2_from 1 n"

definition is_pow2 :: "nat \<Rightarrow> bool" where
  "is_pow2 n \<longleftrightarrow> (\<exists>e. n = 2 ^ e)"

lemma npo2_from_spec:
  assumes "is_pow2 p"
  shows "is_pow2 (npo2_from p n) \<and> n \<le> npo2_from p n \<and> p \<le> npo2_from p n"
  using assms
proof (induction p n rule: npo2_from.induct)
  case (1 p n)
  from "1.prems" have "0 < p" and "is_pow2 (2 * p)"
    by (auto simp: is_pow2_def) (metis power_Suc)
  with 1 show ?case by (subst (1 2 3) npo2_from.simps) auto
qed

lemma npo2_from_least:
  assumes "is_pow2 p" and "is_pow2 q" and "n \<le> q" and "p \<le> q"
  shows "npo2_from p n \<le> q"
  using assms
proof (induction p n rule: npo2_from.induct)
  case (1 p n)
  show ?case
  proof (cases "p < n")
    case True
    obtain a b where ab: "p = 2 ^ a" "q = 2 ^ b" using "1.prems" by (auto simp: is_pow2_def)
    with True "1.prems" have "(2::nat) ^ a < 2 ^ b" by linarith
    then have "a < b" by simp
    then have "2 ^ Suc a \<le> (2::nat) ^ b" by (intro power_increasing) auto
    then have "2 * p \<le> q" by (simp add: ab)
    moreover have "is_pow2 (2 * p)" by (auto simp: is_pow2_def ab) (metis power_Suc)
    ultimately show ?thesis using 1 True by (subst npo2_from.simps) (auto simp: ab)
  next
    case False
    with "1.prems" show ?thesis by (subst npo2_from.simps) auto
  qed
qed

lemma is_pow2_1 [simp]: "is_pow2 (Suc 0)"
  unfolding is_pow2_def by (rule exI [of _ 0]) simp

lemma is_pow2_4 [simp]: "is_pow2 4"
  unfolding is_pow2_def by (rule exI [of _ 2]) simp

lemma is_pow2_pos: "is_pow2 a \<Longrightarrow> 0 < a"
  by (auto simp: is_pow2_def)

lemma next_power_of_two_pow2 [simp]: "is_pow2 (next_power_of_two n)"
  using npo2_from_spec [of 1 n] by (simp add: next_power_of_two_def)

lemma next_power_of_two_ge: "n \<le> next_power_of_two n"
  using npo2_from_spec [of 1 n] by (simp add: next_power_of_two_def)

lemma next_power_of_two_least: "is_pow2 q \<Longrightarrow> n \<le> q \<Longrightarrow> next_power_of_two n \<le> q"
  using npo2_from_least [of 1 q n] is_pow2_pos [of q] by (simp add: next_power_of_two_def Suc_le_eq)

lemma next_power_of_two_id: "is_pow2 n \<Longrightarrow> next_power_of_two n = n"
  by (simp add: le_antisym next_power_of_two_ge next_power_of_two_least)

lemma is_pow2_max: "is_pow2 a \<Longrightarrow> is_pow2 b \<Longrightarrow> is_pow2 (max a b)"
  by (simp add: max_def)

lemma is_pow2_double: "is_pow2 a \<Longrightarrow> is_pow2 (2 * a)"
  unfolding is_pow2_def by (metis power_Suc)

end
