(* ===== verification/IntSet.thy ===== *)
theory IntSet
  imports Rust_Std Interfaces
begin

text \<open>
  \<open>src/database/intset/intset_base.rs\<close>: a set of 64-bit integers in an ascending vector whose
  element width grows from 16 to 32 to 64 bits. The vectors hold machine words that are read as
  signed numbers by \<open>sint\<close>; \<open>as i16\<close> truncates (\<open>ucast\<close>), \<open>as i64\<close> extends the sign
  (\<open>scast\<close>). The section on the set interface interprets \<open>set_impl\<close> on these operations.
\<close>

section \<open>Data\<close>

datatype encoding = Int16 | Int32 | Int64

record intset =
  enc :: encoding
  data16 :: "i16 list"
  data32 :: "i32 list"
  data64 :: "i64 list"

datatype intset_iter = Iter16 "i16 list" | Iter32 "i32 list" | Iter64 "i64 list"

datatype intset_range_iter =
  Range16 "i16 list" | Range32 "i32 list" | Range64 "i64 list" | RangeEmpty

text \<open>\<open>Encoding as u8\<close>: the declaration order.\<close>
fun enc_rank :: "encoding \<Rightarrow> nat" where
  "enc_rank Int16 = 0"
| "enc_rank Int32 = 1"
| "enc_rank Int64 = 2"

abbreviation search_signed :: "'w :: len word list \<Rightarrow> 'w word \<Rightarrow> nat + nat" where
  "search_signed xs x \<equiv> binary_search_key sint xs (sint x)"

fun is_ok :: "'e + 'a \<Rightarrow> bool" where
  "is_ok (Inr _) = True"
| "is_ok (Inl _) = False"

section \<open>Operations\<close>

definition intset_new :: intset where
  "intset_new = \<lparr>enc = Int16, data16 = [], data32 = [], data64 = []\<rparr>"

definition intset_len :: "intset \<Rightarrow> nat" where
  "intset_len s = (case enc s of
       Int16 \<Rightarrow> length (data16 s) | Int32 \<Rightarrow> length (data32 s) | Int64 \<Rightarrow> length (data64 s))"

definition intset_is_empty :: "intset \<Rightarrow> bool" where
  "intset_is_empty s \<longleftrightarrow> intset_len s = 0"

definition intset_contains :: "intset \<Rightarrow> i64 \<Rightarrow> bool" where
  "intset_contains s v = (case enc s of
       Int16 \<Rightarrow>
         if sint v < i16_MIN \<or> sint v > i16_MAX then False
         else is_ok (search_signed (data16 s) (ucast v))
     | Int32 \<Rightarrow>
         if sint v < i32_MIN \<or> sint v > i32_MAX then False
         else is_ok (search_signed (data32 s) (ucast v))
     | Int64 \<Rightarrow> is_ok (search_signed (data64 s) v))"

text \<open>\<open>Encoding\<close> that a value needs.\<close>
definition needed_encoding :: "i64 \<Rightarrow> encoding" where
  "needed_encoding v =
     (if i16_MIN \<le> sint v \<and> sint v \<le> i16_MAX then Int16
      else if i32_MIN \<le> sint v \<and> sint v \<le> i32_MAX then Int32
      else Int64)"

definition upgrade :: "intset \<Rightarrow> encoding \<Rightarrow> intset" where
  "upgrade s new_enc =
     (let s' = (case (enc s, new_enc) of
          (Int16, Int32) \<Rightarrow> s\<lparr>data32 := map scast (data16 s), data16 := []\<rparr>
        | (Int16, Int64) \<Rightarrow> s\<lparr>data64 := map scast (data16 s), data16 := []\<rparr>
        | (Int32, Int64) \<Rightarrow> s\<lparr>data64 := map scast (data32 s), data32 := []\<rparr>
        | _ \<Rightarrow> s)
      in s'\<lparr>enc := new_enc\<rparr>)"

text \<open>Inserting a value that fits the current encoding into the vector of that encoding.\<close>
definition sorted_insert :: "'w :: len word list \<Rightarrow> 'w word \<Rightarrow> 'w word list \<times> bool" where
  "sorted_insert xs x = (case search_signed xs x of
       Inr _ \<Rightarrow> (xs, False)
     | Inl pos \<Rightarrow> (insert_at pos x xs, True))"

definition intset_insert :: "intset \<Rightarrow> i64 \<Rightarrow> intset \<times> bool" where
  "intset_insert s0 v =
     (let need = needed_encoding v;
          s = (if enc_rank need > enc_rank (enc s0) then upgrade s0 need else s0)
      in case enc s of
           Int16 \<Rightarrow> (let (d, b) = sorted_insert (data16 s) (ucast v) in (s\<lparr>data16 := d\<rparr>, b))
         | Int32 \<Rightarrow> (let (d, b) = sorted_insert (data32 s) (ucast v) in (s\<lparr>data32 := d\<rparr>, b))
         | Int64 \<Rightarrow> (let (d, b) = sorted_insert (data64 s) v in (s\<lparr>data64 := d\<rparr>, b)))"

definition sorted_remove :: "'w :: len word list \<Rightarrow> 'w word \<Rightarrow> 'w word list \<times> bool" where
  "sorted_remove xs x = (case search_signed xs x of
       Inr pos \<Rightarrow> (remove_at pos xs, True)
     | Inl _ \<Rightarrow> (xs, False))"

definition intset_remove :: "intset \<Rightarrow> i64 \<Rightarrow> intset \<times> bool" where
  "intset_remove s v = (case enc s of
       Int16 \<Rightarrow>
         if sint v < i16_MIN \<or> sint v > i16_MAX then (s, False)
         else (let (d, b) = sorted_remove (data16 s) (ucast v) in (s\<lparr>data16 := d\<rparr>, b))
     | Int32 \<Rightarrow>
         if sint v < i32_MIN \<or> sint v > i32_MAX then (s, False)
         else (let (d, b) = sorted_remove (data32 s) (ucast v) in (s\<lparr>data32 := d\<rparr>, b))
     | Int64 \<Rightarrow> (let (d, b) = sorted_remove (data64 s) v in (s\<lparr>data64 := d\<rparr>, b)))"

subsection \<open>Iteration\<close>

definition intset_iter_of :: "intset \<Rightarrow> intset_iter" where
  "intset_iter_of s = (case enc s of
       Int16 \<Rightarrow> Iter16 (data16 s) | Int32 \<Rightarrow> Iter32 (data32 s) | Int64 \<Rightarrow> Iter64 (data64 s))"

text \<open>A slice iterator is the slice that is left; \<open>next\<close> takes from its front,
  \<open>next_back\<close> from its end.\<close>

fun slice_next :: "'a list \<Rightarrow> 'a option \<times> 'a list" where
  "slice_next [] = (None, [])"
| "slice_next (x # xs) = (Some x, xs)"

definition slice_next_back :: "'a list \<Rightarrow> 'a option \<times> 'a list" where
  "slice_next_back xs = (if xs = [] then (None, []) else (Some (last xs), butlast xs))"

fun iter_next :: "intset_iter \<Rightarrow> i64 option \<times> intset_iter" where
  "iter_next (Iter16 xs) = (let (r, ys) = slice_next xs in (map_option scast r, Iter16 ys))"
| "iter_next (Iter32 xs) = (let (r, ys) = slice_next xs in (map_option scast r, Iter32 ys))"
| "iter_next (Iter64 xs) = (let (r, ys) = slice_next xs in (r, Iter64 ys))"

fun iter_next_back :: "intset_iter \<Rightarrow> i64 option \<times> intset_iter" where
  "iter_next_back (Iter16 xs) = (let (r, ys) = slice_next_back xs in (map_option scast r, Iter16 ys))"
| "iter_next_back (Iter32 xs) = (let (r, ys) = slice_next_back xs in (map_option scast r, Iter32 ys))"
| "iter_next_back (Iter64 xs) = (let (r, ys) = slice_next_back xs in (r, Iter64 ys))"

fun iter_len :: "intset_iter \<Rightarrow> nat" where
  "iter_len (Iter16 xs) = length xs"
| "iter_len (Iter32 xs) = length xs"
| "iter_len (Iter64 xs) = length xs"

definition iter_size_hint :: "intset_iter \<Rightarrow> nat \<times> nat option" where
  "iter_size_hint it = (iter_len it, Some (iter_len it))"

fun range_next :: "intset_range_iter \<Rightarrow> i64 option \<times> intset_range_iter" where
  "range_next (Range16 xs) = (let (r, ys) = slice_next xs in (map_option scast r, Range16 ys))"
| "range_next (Range32 xs) = (let (r, ys) = slice_next xs in (map_option scast r, Range32 ys))"
| "range_next (Range64 xs) = (let (r, ys) = slice_next xs in (r, Range64 ys))"
| "range_next RangeEmpty = (None, RangeEmpty)"

fun range_next_back :: "intset_range_iter \<Rightarrow> i64 option \<times> intset_range_iter" where
  "range_next_back (Range16 xs) = (let (r, ys) = slice_next_back xs in (map_option scast r, Range16 ys))"
| "range_next_back (Range32 xs) = (let (r, ys) = slice_next_back xs in (map_option scast r, Range32 ys))"
| "range_next_back (Range64 xs) = (let (r, ys) = slice_next_back xs in (r, Range64 ys))"
| "range_next_back RangeEmpty = (None, RangeEmpty)"

fun range_len :: "intset_range_iter \<Rightarrow> nat" where
  "range_len (Range16 xs) = length xs"
| "range_len (Range32 xs) = length xs"
| "range_len (Range64 xs) = length xs"
| "range_len RangeEmpty = 0"

definition range_size_hint :: "intset_range_iter \<Rightarrow> nat \<times> nat option" where
  "range_size_hint it = (range_len it, Some (range_len it))"

subsection \<open>Ranges\<close>

definition find_range_start_i16 :: "intset \<Rightarrow> i64 \<Rightarrow> nat" where
  "find_range_start_i16 s start =
     (if sint start < i16_MIN then 0
      else if sint start > i16_MAX then length (data16 s)
      else case search_signed (data16 s) (ucast start) of Inr i \<Rightarrow> i | Inl i \<Rightarrow> i)"

definition find_range_end_i16 :: "intset \<Rightarrow> i64 \<Rightarrow> nat" where
  "find_range_end_i16 s end =
     (if sint end < i16_MIN then 0
      else if sint end > i16_MAX then length (data16 s)
      else case search_signed (data16 s) (ucast end) of Inr i \<Rightarrow> i + 1 | Inl i \<Rightarrow> i)"

definition find_range_start_i32 :: "intset \<Rightarrow> i64 \<Rightarrow> nat" where
  "find_range_start_i32 s start =
     (if sint start < i32_MIN then 0
      else if sint start > i32_MAX then length (data32 s)
      else case search_signed (data32 s) (ucast start) of Inr i \<Rightarrow> i | Inl i \<Rightarrow> i)"

definition find_range_end_i32 :: "intset \<Rightarrow> i64 \<Rightarrow> nat" where
  "find_range_end_i32 s end =
     (if sint end < i32_MIN then 0
      else if sint end > i32_MAX then length (data32 s)
      else case search_signed (data32 s) (ucast end) of Inr i \<Rightarrow> i + 1 | Inl i \<Rightarrow> i)"

definition find_range_start_i64 :: "intset \<Rightarrow> i64 \<Rightarrow> nat" where
  "find_range_start_i64 s start =
     (case search_signed (data64 s) start of Inr i \<Rightarrow> i | Inl i \<Rightarrow> i)"

definition find_range_end_i64 :: "intset \<Rightarrow> i64 \<Rightarrow> nat" where
  "find_range_end_i64 s end =
     (case search_signed (data64 s) end of Inr i \<Rightarrow> i + 1 | Inl i \<Rightarrow> i)"

text \<open>\<open>None\<close> is the panic of a slice out of range.\<close>

definition iter_range :: "intset \<Rightarrow> i64 \<Rightarrow> i64 \<Rightarrow> intset_range_iter panics" where
  "iter_range s start end =
     (if sint start > sint end then Some RangeEmpty
      else case enc s of
        Int16 \<Rightarrow>
          (let a = find_range_start_i16 s start; b = find_range_end_i16 s end
           in if a \<ge> b then Some RangeEmpty else map_option Range16 (slice (data16 s) a b))
      | Int32 \<Rightarrow>
          (let a = find_range_start_i32 s start; b = find_range_end_i32 s end
           in if a \<ge> b then Some RangeEmpty else map_option Range32 (slice (data32 s) a b))
      | Int64 \<Rightarrow>
          (let a = find_range_start_i64 s start; b = find_range_end_i64 s end
           in if a \<ge> b then Some RangeEmpty else map_option Range64 (slice (data64 s) a b)))"

section \<open>Abstraction and invariant\<close>

definition elems :: "intset \<Rightarrow> i64 list" where
  "elems s = (case enc s of
       Int16 \<Rightarrow> map scast (data16 s) | Int32 \<Rightarrow> map scast (data32 s) | Int64 \<Rightarrow> data64 s)"

definition intset_abs :: "intset \<Rightarrow> i64 set" where
  "intset_abs s = set (elems s)"

definition ascending :: "'w :: len word list \<Rightarrow> bool" where
  "ascending xs \<longleftrightarrow> sorted_wrt (<) (map sint xs)"

text \<open>The active vector is strictly ascending and the two others are empty.\<close>
definition intset_inv :: "intset \<Rightarrow> bool" where
  "intset_inv s \<longleftrightarrow> (case enc s of
       Int16 \<Rightarrow> ascending (data16 s) \<and> data32 s = [] \<and> data64 s = []
     | Int32 \<Rightarrow> ascending (data32 s) \<and> data16 s = [] \<and> data64 s = []
     | Int64 \<Rightarrow> ascending (data64 s) \<and> data16 s = [] \<and> data32 s = [])"

section \<open>Signed words of different widths\<close>

lemma sint_scast_up: "LENGTH('a) \<le> LENGTH('b) \<Longrightarrow> sint (scast (x :: 'a :: len word) :: 'b :: len word) = sint x"
  by (simp add: is_up_def source_size_def target_size_def sint_up_scast word_size)

lemma sint_scast_16 [simp]: "sint (scast (x :: i16) :: i64) = sint x" "sint (scast (x :: i16) :: i32) = sint x"
  by (simp_all add: sint_scast_up)

lemma sint_scast_32 [simp]: "sint (scast (x :: i32) :: i64) = sint x"
  by (simp add: sint_scast_up)

lemma sint_ucast_down:
  fixes v :: "'a :: len word"
  assumes "LENGTH('b) \<le> LENGTH('a)"
    and "- (2 ^ (LENGTH('b) - 1)) \<le> sint v" and "sint v < 2 ^ (LENGTH('b) - 1)"
  shows "sint (ucast v :: 'b :: len word) = sint v"
proof -
  have "sint (ucast v :: 'b word) = signed_take_bit (LENGTH('b) - Suc 0) (sint v)"
    using assms(1) by (subst sint_uint [of v]) (simp add: signed_ucast_eq min_def)
  also have "\<dots> = sint v"
    using assms(2,3) by (intro signed_take_bit_int_eq_self) auto
  finally show ?thesis .
qed

lemma sint_ucast_16 [simp]: "i16_MIN \<le> sint v \<Longrightarrow> sint v \<le> i16_MAX \<Longrightarrow> sint (ucast (v :: i64) :: i16) = sint v"
  by (rule sint_ucast_down) auto

lemma sint_ucast_32 [simp]: "i32_MIN \<le> sint v \<Longrightarrow> sint v \<le> i32_MAX \<Longrightarrow> sint (ucast (v :: i64) :: i32) = sint v"
  by (rule sint_ucast_down) auto

lemma sint_range_16: "i16_MIN \<le> sint (x :: i16)" "sint (x :: i16) \<le> i16_MAX"
  using sint_range_size [of x] by (auto simp: word_size)

lemma sint_range_32: "i32_MIN \<le> sint (x :: i32)" "sint (x :: i32) \<le> i32_MAX"
  using sint_range_size [of x] by (auto simp: word_size)

lemma sint_eqI: "sint x = sint y \<Longrightarrow> x = y"
  by (metis scast_id scast_eq)

section \<open>The ascending vectors\<close>

lemma ascending_sorted: "ascending xs \<Longrightarrow> sorted (map sint xs)"
  by (simp add: ascending_def strict_sorted_iff)

lemma search_ok_iff: "ascending xs \<Longrightarrow> is_ok (binary_search_key sint xs t) \<longleftrightarrow> t \<in> sint ` set xs"
  using binary_search_key_iff [OF ascending_sorted, of xs t]
  by (cases "binary_search_key sint xs t") auto

lemma sorted_insert_spec:
  assumes "ascending xs" and "sorted_insert xs x = (ys, b)"
  shows "ascending ys" and "set ys = insert x (set xs)" and "b \<longleftrightarrow> sint x \<notin> sint ` set xs"
proof -
  note srt = ascending_sorted [OF assms(1)]
  have "ascending ys \<and> set ys = insert x (set xs) \<and> (b \<longleftrightarrow> sint x \<notin> sint ` set xs)"
  proof (cases "search_signed xs x")
    case (Inr i)
    with assms(2) have "ys = xs" "\<not> b" by (auto simp: sorted_insert_def)
    moreover from binary_search_key_Ok [OF srt Inr] have "x \<in> set xs"
      by (metis nth_mem sint_eqI)
    ultimately show ?thesis using assms(1) by auto
  next
    case (Inl i)
    with assms(2) have ys: "ys = insert_at i x xs" "b" by (auto simp: sorted_insert_def)
    have i: "i \<le> length xs" "\<And>j. j < i \<Longrightarrow> sint (xs ! j) < sint x"
      "\<And>j. i \<le> j \<Longrightarrow> j < length xs \<Longrightarrow> sint x < sint (xs ! j)"
      using binary_search_key_Err [OF srt Inl] by auto
    have "sorted_wrt (<) (insert_at i (sint x) (map sint xs))"
      using assms(1) i by (intro sorted_wrt_insert_at) (auto simp: ascending_def)
    moreover have "sint x \<notin> sint ` set xs"
      using search_ok_iff [OF assms(1), of "sint x"] Inl by simp
    ultimately show ?thesis by (simp add: ys ascending_def map_insert_at set_insert_at)
  qed
  then show "ascending ys" and "set ys = insert x (set xs)" and "b \<longleftrightarrow> sint x \<notin> sint ` set xs"
    by blast+
qed

lemma sorted_remove_spec:
  assumes "ascending xs" and "sorted_remove xs x = (ys, b)"
  shows "ascending ys" and "set ys = set xs - {x}" and "b \<longleftrightarrow> sint x \<in> sint ` set xs"
proof -
  note srt = ascending_sorted [OF assms(1)]
  have "ascending ys \<and> set ys = set xs - {x} \<and> (b \<longleftrightarrow> sint x \<in> sint ` set xs)"
  proof (cases "search_signed xs x")
    case (Inr i)
    with assms(2) have ys: "ys = remove_at i xs" "b" by (auto simp: sorted_remove_def)
    from binary_search_key_Ok [OF srt Inr] have i: "i < length xs" "xs ! i = x"
      by (auto intro: sint_eqI)
    have "distinct xs"
      using assms(1) strict_sorted_distinct unfolding ascending_def by (metis distinct_map)
    with i have "set ys = set xs - {x}" by (auto simp: ys set_remove_at_distinct)
    moreover have "ascending ys"
      using assms(1) by (simp add: ys ascending_def map_remove_at sorted_wrt_remove_at)
    moreover have "sint x \<in> sint ` set xs" using i by (metis image_eqI nth_mem)
    ultimately show ?thesis using ys by blast
  next
    case (Inl i)
    with assms(2) have "ys = xs" "\<not> b" by (auto simp: sorted_remove_def)
    moreover have "sint x \<notin> sint ` set xs"
      using search_ok_iff [OF assms(1), of "sint x"] Inl by simp
    moreover from this have "x \<notin> set xs" by auto
    ultimately show ?thesis using assms(1) by auto
  qed
  then show "ascending ys" and "set ys = set xs - {x}" and "b \<longleftrightarrow> sint x \<in> sint ` set xs"
    by blast+
qed

text \<open>The vectors seen through the sign extension to 64 bits.\<close>

lemma mem_scast:
  assumes "LENGTH('w :: len) \<le> 64"
  shows "v \<in> scast ` set (xs :: 'w word list) \<longleftrightarrow> sint (v :: i64) \<in> sint ` set xs"
  using sint_scast_up [where 'a = 'w and 'b = 64] assms by (force simp: image_iff intro: sint_eqI)

lemma narrow_insert:
  assumes "LENGTH('w :: len) \<le> 64" and "sint (ucast v :: 'w word) = sint (v :: i64)"
    and "ascending (xs :: 'w word list)" and "sorted_insert xs (ucast v) = (ys, b)"
  shows "ascending ys \<and> scast ` set ys = insert v (scast ` set xs) \<and> (b \<longleftrightarrow> v \<notin> scast ` set xs)"
proof -
  have "scast (ucast v :: 'w word) = v"
    using assms(1,2) by (intro sint_eqI) (simp add: sint_scast_up)
  then have "scast ` set ys = insert v (scast ` set xs)"
    by (simp only: sorted_insert_spec(2) [OF assms(3,4)] image_insert)
  with sorted_insert_spec(1,3) [OF assms(3,4)] show ?thesis
    by (simp only: mem_scast [OF assms(1)] assms(2))
qed

lemma narrow_remove:
  assumes "LENGTH('w :: len) \<le> 64" and "sint (ucast v :: 'w word) = sint (v :: i64)"
    and "ascending (xs :: 'w word list)" and "sorted_remove xs (ucast v) = (ys, b)"
  shows "ascending ys \<and> scast ` set ys = scast ` set xs - {v} \<and> (b \<longleftrightarrow> v \<in> scast ` set xs)"
proof -
  have "scast (ucast v :: 'w word) = v"
    using assms(1,2) by (intro sint_eqI) (simp add: sint_scast_up)
  moreover have "inj (scast :: 'w word \<Rightarrow> i64)"
  proof (rule injI)
    fix x y :: "'w word"
    assume "(scast x :: i64) = scast y"
    then have "sint (scast x :: i64) = sint (scast y :: i64)" by simp
    then show "x = y" using assms(1) by (simp add: sint_scast_up sint_eqI)
  qed
  ultimately have "scast ` (set xs - {ucast v}) = scast ` set xs - {v}"
    by (simp only: image_set_diff image_insert image_empty)
  then have "scast ` set ys = scast ` set xs - {v}"
    by (simp only: sorted_remove_spec(2) [OF assms(3,4)])
  with sorted_remove_spec(1,3) [OF assms(3,4)] show ?thesis
    by (simp only: mem_scast [OF assms(1)] assms(2))
qed

lemma sint_mem [simp]: "sint v \<in> sint ` set xs \<longleftrightarrow> v \<in> set xs"
  by (auto dest: sint_eqI)

section \<open>The set interface\<close>

lemma abs_cases:
  "enc s = Int16 \<Longrightarrow> intset_abs s = scast ` set (data16 s)"
  "enc s = Int32 \<Longrightarrow> intset_abs s = scast ` set (data32 s)"
  "enc s = Int64 \<Longrightarrow> intset_abs s = scast ` set (data64 s)"
  by (simp_all add: intset_abs_def elems_def)

lemma sint_elems: "map sint (elems s) = (case enc s of
    Int16 \<Rightarrow> map sint (data16 s) | Int32 \<Rightarrow> map sint (data32 s) | Int64 \<Rightarrow> map sint (data64 s))"
  by (simp add: elems_def split: encoding.split)

lemma elems_ascending: "intset_inv s \<Longrightarrow> ascending (elems s)"
  using sint_elems [of s] by (auto simp: intset_inv_def ascending_def split: encoding.splits)

text \<open>A value fits an encoding when it needs no wider one.\<close>

definition fits :: "encoding \<Rightarrow> i64 \<Rightarrow> bool" where
  "fits e v \<longleftrightarrow> enc_rank (needed_encoding v) \<le> enc_rank e"

lemma fits_16: "fits Int16 v \<longleftrightarrow> i16_MIN \<le> sint v \<and> sint v \<le> i16_MAX"
  by (simp add: fits_def needed_encoding_def)

lemma fits_32: "fits Int32 v \<longleftrightarrow> i32_MIN \<le> sint v \<and> sint v \<le> i32_MAX"
  by (auto simp: fits_def needed_encoding_def)

lemma fits_64: "fits Int64 v"
  by (simp add: fits_def needed_encoding_def)

lemma not_fits_not_member: "\<not> fits (enc s) v \<Longrightarrow> v \<notin> intset_abs s"
  using sint_range_16 sint_range_32
  by (cases "enc s") (auto simp: abs_cases fits_16 fits_32 fits_64)

lemma contains_iff: "intset_inv s \<Longrightarrow> intset_contains s v \<longleftrightarrow> v \<in> intset_abs s"
  using not_fits_not_member [of s v]
  by (cases "enc s")
     (auto simp: intset_contains_def intset_inv_def fits_16 fits_32 search_ok_iff abs_cases mem_scast)

lemma len_card: "intset_inv s \<Longrightarrow> intset_len s = card (intset_abs s)"
proof -
  assume "intset_inv s"
  then have "distinct (elems s)"
    using elems_ascending strict_sorted_distinct unfolding ascending_def by (metis distinct_map)
  then show ?thesis
    by (simp add: intset_abs_def distinct_card)
       (simp add: intset_len_def elems_def split: encoding.split)
qed

lemma upgrade_elems:
  assumes "enc_rank (enc s) < enc_rank e"
  shows "elems (upgrade s e) = elems s" and "enc (upgrade s e) = e"
proof -
  have "(scast (scast (x :: i16) :: i32) :: i64) = scast x" for x
    by (rule sint_eqI) simp
  with assms show "elems (upgrade s e) = elems s"
    by (cases "enc s"; cases e) (simp_all add: upgrade_def elems_def)
  show "enc (upgrade s e) = e" by (simp add: upgrade_def Let_def)
qed

lemma ascending_scast:
  "ascending (map scast (xs :: i16 list) :: i32 list) = ascending xs"
  "ascending (map scast (xs :: i16 list) :: i64 list) = ascending xs"
  "ascending (map scast (ys :: i32 list) :: i64 list) = ascending ys"
  by (simp_all add: ascending_def comp_def)

lemma upgrade_inv: "intset_inv s \<Longrightarrow> enc_rank (enc s) < enc_rank e \<Longrightarrow> intset_inv (upgrade s e)"
  by (cases "enc s"; cases e) (auto simp: upgrade_def intset_inv_def ascending_scast)

text \<open>The first part of an insertion: widen the encoding if the value needs it.\<close>

definition widen :: "intset \<Rightarrow> i64 \<Rightarrow> intset" where
  "widen s v = (if enc_rank (needed_encoding v) > enc_rank (enc s) then upgrade s (needed_encoding v) else s)"

lemma widen_props:
  assumes "intset_inv s"
  shows "intset_inv (widen s v)" and "intset_abs (widen s v) = intset_abs s" and "fits (enc (widen s v)) v"
  using assms by (auto simp: widen_def intset_abs_def upgrade_elems upgrade_inv fits_def)

lemma insert_via_widen: "intset_insert s v = intset_insert (widen s v) v"
  by (auto simp: intset_insert_def widen_def upgrade_elems Let_def)

lemma insert_widened:
  assumes "intset_inv s" and "fits (enc s) v" and "intset_insert s v = (s', b)"
  shows "intset_inv s' \<and> intset_abs s' = insert v (intset_abs s) \<and> b = (v \<notin> intset_abs s)"
proof -
  have nw: "\<not> enc_rank (needed_encoding v) > enc_rank (enc s)"
    using assms(2) by (simp add: fits_def)
  show ?thesis
  proof (cases "enc s")
    case Int16
    with assms narrow_insert [of v "data16 s"] nw show ?thesis
      by (auto simp: intset_insert_def intset_inv_def fits_16 abs_cases split: prod.splits)
  next
    case Int32
    with assms narrow_insert [of v "data32 s"] nw show ?thesis
      by (auto simp: intset_insert_def intset_inv_def fits_32 abs_cases split: prod.splits)
  next
    case Int64
    then obtain d where d: "sorted_insert (data64 s) v = (d, b)" "s' = s\<lparr>data64 := d\<rparr>"
      using assms(3) nw by (auto simp: intset_insert_def split: prod.splits)
    moreover have "ascending (data64 s)" using assms(1) Int64 by (simp add: intset_inv_def)
    ultimately show ?thesis
      using sorted_insert_spec [of "data64 s" v d b] assms(1) Int64
      by (simp add: intset_inv_def abs_cases)
  qed
qed

lemma insert_spec:
  assumes "intset_inv s" and "intset_insert s v = (s', b)"
  shows "intset_inv s' \<and> intset_abs s' = insert v (intset_abs s) \<and> b = (v \<notin> intset_abs s)"
  using insert_widened [of "widen s v" v s' b] widen_props [OF assms(1), of v] assms(2)
  by (simp add: insert_via_widen [of s v])

lemma remove_spec:
  assumes "intset_inv s" and "intset_remove s v = (s', b)"
  shows "intset_inv s' \<and> intset_abs s' = intset_abs s - {v} \<and> b = (v \<in> intset_abs s)"
proof (cases "fits (enc s) v")
  case False
  then have "(s', b) = (s, False)"
    using assms(2) by (cases "enc s") (auto simp: intset_remove_def fits_16 fits_32 fits_64)
  with assms(1) not_fits_not_member [OF False] show ?thesis by simp
next
  case True
  show ?thesis
  proof (cases "enc s")
    case Int16
    with assms True narrow_remove [of v "data16 s"] show ?thesis
      by (auto simp: intset_remove_def intset_inv_def fits_16 abs_cases split: prod.splits)
  next
    case Int32
    with assms True narrow_remove [of v "data32 s"] show ?thesis
      by (auto simp: intset_remove_def intset_inv_def fits_32 abs_cases split: prod.splits)
  next
    case Int64
    then obtain d where d: "sorted_remove (data64 s) v = (d, b)" "s' = s\<lparr>data64 := d\<rparr>"
      using assms(2) by (auto simp: intset_remove_def split: prod.splits)
    moreover have "ascending (data64 s)" using assms(1) Int64 by (simp add: intset_inv_def)
    ultimately show ?thesis
      using sorted_remove_spec [of "data64 s" v d b] assms(1) Int64
      by (simp add: intset_inv_def abs_cases)
  qed
qed

interpretation iset: set_impl intset_insert intset_remove intset_contains intset_len intset_abs intset_inv
  by unfold_locales (fact contains_iff insert_spec remove_spec len_card)+

lemma intset_new_inv [simp]: "intset_inv intset_new" and intset_new_abs [simp]: "intset_abs intset_new = {}"
  by (simp_all add: intset_inv_def intset_abs_def elems_def intset_new_def ascending_def)

section \<open>Iteration in ascending order\<close>

fun iter_left :: "intset_iter \<Rightarrow> i64 list" where
  "iter_left (Iter16 xs) = map scast xs"
| "iter_left (Iter32 xs) = map scast xs"
| "iter_left (Iter64 xs) = xs"

fun range_left :: "intset_range_iter \<Rightarrow> i64 list" where
  "range_left (Range16 xs) = map scast xs"
| "range_left (Range32 xs) = map scast xs"
| "range_left (Range64 xs) = xs"
| "range_left RangeEmpty = []"

lemma slice_next_back_Nil [simp]: "slice_next_back [] = (None, [])"
  and slice_next_back_snoc [simp]: "slice_next_back (xs @ [x]) = (Some x, xs)"
  by (simp_all add: slice_next_back_def)

lemma rev_ConsE:
  assumes "rev xs = y # ys"
  obtains zs where "xs = zs @ [y]" and "rev zs = ys"
  using assms by (cases xs rule: rev_cases) auto

interpretation fwd: iterator iter_next iter_left "\<lambda>_. True"
  by unfold_locales (auto elim!: iter_left.elims)

interpretation bwd: iterator iter_next_back "\<lambda>it. rev (iter_left it)" "\<lambda>_. True"
proof unfold_locales
  fix it x xs
  assume "rev (iter_left it) = x # xs"
  then show "\<exists>it'. iter_next_back it = (Some x, it') \<and> True \<and> rev (iter_left it') = xs"
    by (cases it) (auto elim!: rev_ConsE simp: map_eq_append_conv map_eq_Cons_conv simp del: rev_eq_Cons_iff)
qed (auto elim!: iter_left.elims)

interpretation rng: iterator range_next range_left "\<lambda>_. True"
  by unfold_locales (auto elim!: range_left.elims)

interpretation rngb: iterator range_next_back "\<lambda>it. rev (range_left it)" "\<lambda>_. True"
proof unfold_locales
  fix it x xs
  assume "rev (range_left it) = x # xs"
  then show "\<exists>it'. range_next_back it = (Some x, it') \<and> True \<and> rev (range_left it') = xs"
    by (cases it) (auto elim!: rev_ConsE simp: map_eq_append_conv map_eq_Cons_conv simp del: rev_eq_Cons_iff)
qed (auto elim!: range_left.elims)

lemma iter_len_left: "iter_len it = length (iter_left it)"
  by (cases it) simp_all

lemma iter_left_of: "iter_left (intset_iter_of s) = elems s"
  by (simp add: intset_iter_of_def elems_def split: encoding.split)

section \<open>Ranges\<close>

text \<open>The start index counts the elements below the bound, the end index those not above it.\<close>

definition starts_at :: "'w :: len word list \<Rightarrow> int \<Rightarrow> nat \<Rightarrow> bool" where
  "starts_at xs t i \<longleftrightarrow> i \<le> length xs \<and> (\<forall>j<length xs. t \<le> sint (xs ! j) \<longleftrightarrow> i \<le> j)"

definition ends_at :: "'w :: len word list \<Rightarrow> int \<Rightarrow> nat \<Rightarrow> bool" where
  "ends_at xs t i \<longleftrightarrow> i \<le> length xs \<and> (\<forall>j<length xs. sint (xs ! j) \<le> t \<longleftrightarrow> j < i)"

lemma start_index:
  assumes "ascending xs"
  shows "starts_at xs t (case binary_search_key sint xs t of Inr i \<Rightarrow> i | Inl i \<Rightarrow> i)"
proof -
  note srt = ascending_sorted [OF assms(1)]
  have mono: "sint (xs ! a) < sint (xs ! b)" if "a < b" "b < length xs" for a b
    using assms(1) that by (auto simp: ascending_def sorted_wrt_iff_nth_less)
  show ?thesis
  proof (cases "binary_search_key sint xs t")
    case (Inr k)
    with binary_search_key_Ok [OF srt Inr] have "k < length xs" "sint (xs ! k) = t" by auto
    then have "\<forall>j<length xs. t \<le> sint (xs ! j) \<longleftrightarrow> k \<le> j"
      using mono by (metis le_cases le_less_linear less_le_not_le nat_less_le)
    with Inr \<open>k < length xs\<close> show ?thesis by (simp add: starts_at_def)
  next
    case (Inl k)
    with binary_search_key_Err [OF srt Inl] show ?thesis
      by (auto simp: starts_at_def not_le [symmetric] intro: leI)
  qed
qed

lemma end_index:
  assumes "ascending xs"
  shows "ends_at xs t (case binary_search_key sint xs t of Inr i \<Rightarrow> i + 1 | Inl i \<Rightarrow> i)"
proof -
  note srt = ascending_sorted [OF assms(1)]
  have mono: "sint (xs ! a) < sint (xs ! b)" if "a < b" "b < length xs" for a b
    using assms(1) that by (auto simp: ascending_def sorted_wrt_iff_nth_less)
  show ?thesis
  proof (cases "binary_search_key sint xs t")
    case (Inr k)
    with binary_search_key_Ok [OF srt Inr] have k: "k < length xs" "sint (xs ! k) = t" by auto
    then have "\<forall>j<length xs. sint (xs ! j) \<le> t \<longleftrightarrow> j < Suc k"
      using mono by (metis less_Suc_eq less_le_not_le linorder_neqE_nat not_less_eq Suc_leI order_refl)
    with Inr k show ?thesis by (simp add: ends_at_def)
  next
    case (Inl k)
    with binary_search_key_Err [OF srt Inl] show ?thesis
      by (auto simp: ends_at_def not_le [symmetric] intro: leI)
  qed
qed

lemma starts_at_clamped:
  "(\<forall>x\<in>set xs. t \<le> sint x) \<Longrightarrow> starts_at xs t 0"
  "(\<forall>x\<in>set xs. sint x < t) \<Longrightarrow> starts_at xs t (length xs)"
  by (auto simp: starts_at_def not_le)

lemma ends_at_clamped:
  "(\<forall>x\<in>set xs. t < sint x) \<Longrightarrow> ends_at xs t 0"
  "(\<forall>x\<in>set xs. sint x \<le> t) \<Longrightarrow> ends_at xs t (length xs)"
  by (auto simp: ends_at_def not_le)

lemma find_range_16:
  assumes "ascending (data16 s)"
  shows "starts_at (data16 s) (sint v) (find_range_start_i16 s v)"
    and "ends_at (data16 s) (sint v) (find_range_end_i16 s v)"
proof -
  have b: "i16_MIN \<le> sint x \<and> sint x \<le> i16_MAX" for x :: i16 using sint_range_16 [of x] by simp
  have lo: "sint v < i16_MIN \<Longrightarrow> sint v < sint x" for x :: i16 using b [of x] by linarith
  have hi: "i16_MAX < sint v \<Longrightarrow> sint x < sint v" for x :: i16 using b [of x] by linarith
  show "starts_at (data16 s) (sint v) (find_range_start_i16 s v)"
    using start_index [OF assms, of "sint v"] lo hi
    by (auto simp: find_range_start_i16_def intro!: starts_at_clamped less_imp_le)
  show "ends_at (data16 s) (sint v) (find_range_end_i16 s v)"
    using end_index [OF assms, of "sint v"] lo hi
    by (auto simp: find_range_end_i16_def intro!: ends_at_clamped less_imp_le)
qed

lemma find_range_32:
  assumes "ascending (data32 s)"
  shows "starts_at (data32 s) (sint v) (find_range_start_i32 s v)"
    and "ends_at (data32 s) (sint v) (find_range_end_i32 s v)"
proof -
  have b: "i32_MIN \<le> sint x \<and> sint x \<le> i32_MAX" for x :: i32 using sint_range_32 [of x] by simp
  have lo: "sint v < i32_MIN \<Longrightarrow> sint v < sint x" for x :: i32 using b [of x] by linarith
  have hi: "i32_MAX < sint v \<Longrightarrow> sint x < sint v" for x :: i32 using b [of x] by linarith
  show "starts_at (data32 s) (sint v) (find_range_start_i32 s v)"
    using start_index [OF assms, of "sint v"] lo hi
    by (auto simp: find_range_start_i32_def intro!: starts_at_clamped less_imp_le)
  show "ends_at (data32 s) (sint v) (find_range_end_i32 s v)"
    using end_index [OF assms, of "sint v"] lo hi
    by (auto simp: find_range_end_i32_def intro!: ends_at_clamped less_imp_le)
qed

lemma find_range_64:
  assumes "ascending (data64 s)"
  shows "starts_at (data64 s) (sint v) (find_range_start_i64 s v)"
    and "ends_at (data64 s) (sint v) (find_range_end_i64 s v)"
  using start_index [OF assms, of "sint v"] end_index [OF assms, of "sint v"]
  by (simp_all add: find_range_start_i64_def find_range_end_i64_def)

lemma window_filter:
  assumes "starts_at xs t a" and "ends_at xs u b"
  shows "b \<le> length xs"
    and "filter (\<lambda>x. t \<le> sint x \<and> sint x \<le> u) xs = (if b \<le> a then [] else take (b - a) (drop a xs))"
proof -
  have A: "a \<le> length xs" "\<And>j. j < length xs \<Longrightarrow> t \<le> sint (xs ! j) \<longleftrightarrow> a \<le> j"
    using assms(1) by (auto simp: starts_at_def)
  have B: "b \<le> length xs" "\<And>j. j < length xs \<Longrightarrow> sint (xs ! j) \<le> u \<longleftrightarrow> j < b"
    using assms(2) by (auto simp: ends_at_def)
  show "b \<le> length xs" by (rule B(1))
  show "filter (\<lambda>x. t \<le> sint x \<and> sint x \<le> u) xs = (if b \<le> a then [] else take (b - a) (drop a xs))"
  proof (cases "b \<le> a")
    case True
    have "\<not> (t \<le> sint (xs ! j) \<and> sint (xs ! j) \<le> u)" if "j < length xs" for j
      using A(2) [OF that] B(2) [OF that] True by auto
    then have "\<forall>x\<in>set xs. \<not> (t \<le> sint x \<and> sint x \<le> u)"
      by (metis in_set_conv_nth)
    with True show ?thesis by (simp add: filter_empty_conv)
  next
    case False
    with A B show ?thesis by (simp add: filter_window)
  qed
qed

lemma range_filter:
  assumes "intset_inv s"
  shows "\<exists>it. iter_range s a b = Some it \<and>
     range_left it = filter (\<lambda>v. sint a \<le> sint v \<and> sint v \<le> sint b) (elems s)"
proof (cases "sint a > sint b")
  case True
  then have "filter (\<lambda>v. sint a \<le> sint v \<and> sint v \<le> sint b) (elems s) = []"
    by (auto simp: filter_empty_conv)
  with True show ?thesis by (simp add: iter_range_def)
next
  case False
  show ?thesis
  proof (cases "enc s")
    case Int16
    with assms have "ascending (data16 s)" by (simp add: intset_inv_def)
    note w = window_filter [OF find_range_16(1) [OF this, of a] find_range_16(2) [OF this, of b]]
    with Int16 False show ?thesis
      by (auto simp: iter_range_def Let_def slice_def elems_def filter_map comp_def)
  next
    case Int32
    with assms have "ascending (data32 s)" by (simp add: intset_inv_def)
    note w = window_filter [OF find_range_32(1) [OF this, of a] find_range_32(2) [OF this, of b]]
    with Int32 False show ?thesis
      by (auto simp: iter_range_def Let_def slice_def elems_def filter_map comp_def)
  next
    case Int64
    with assms have "ascending (data64 s)" by (simp add: intset_inv_def)
    note w = window_filter [OF find_range_64(1) [OF this, of a] find_range_64(2) [OF this, of b]]
    with Int64 False show ?thesis
      by (auto simp: iter_range_def Let_def slice_def elems_def)
  qed
qed

section \<open>Properties\<close>

text \<open>C10. Started from the empty set, every sequence of insertions, removals, membership tests and
  length queries on an \<open>IntSet\<close> answers exactly as the mathematical set of 64-bit integers does,
  whatever the widths of the values and however often the encoding is upgraded on the way; the
  final state is well-formed (one strictly ascending vector, the others empty).\<close>

theorem intset_refines_set:
  "\<exists>outs s'. run (set_step intset_insert intset_remove intset_contains intset_len) ps intset_new
       = Some (outs, s') \<and> intset_inv s' \<and> spec_run set_spec ps {} = (outs, intset_abs s')"
  using iset.runs.run_sim [of intset_new ps] by simp

text \<open>On a well-formed set the range query over \<open>[a, b]\<close> does not panic, and draining its
  iterator from the front yields exactly the members between the bounds, in the order of the full
  iteration, which is strictly ascending; draining from the back yields them reversed.\<close>

theorem iter_range_exact:
  assumes "intset_inv s" and "intset_len s \<le> n"
  shows "\<exists>it. iter_range s a b = Some it \<and>
     drain range_next n it = filter (\<lambda>v. sint a \<le> sint v \<and> sint v \<le> sint b) (drain iter_next n (intset_iter_of s)) \<and>
     drain range_next_back n it = rev (drain range_next n it) \<and>
     sorted_wrt (<) (map sint (drain iter_next n (intset_iter_of s))) \<and>
     set (drain iter_next n (intset_iter_of s)) = intset_abs s"
proof -
  obtain it where it: "iter_range s a b = Some it"
    "range_left it = filter (\<lambda>v. sint a \<le> sint v \<and> sint v \<le> sint b) (elems s)"
    using range_filter [OF assms(1)] by blast
  have n: "length (elems s) \<le> n"
    using assms(2) by (simp add: intset_len_def elems_def split: encoding.splits)
  then have "length (range_left it) \<le> n"
    by (rule order_trans [rotated]) (simp only: it(2) length_filter_le)
  then have d: "drain range_next n it = range_left it" "drain range_next_back n it = rev (range_left it)"
    by (simp_all add: rng.drain_all rngb.drain_all)
  have e: "drain iter_next n (intset_iter_of s) = elems s"
    using n by (simp add: fwd.drain_all iter_left_of)
  have "sorted_wrt (<) (map sint (elems s))"
    using elems_ascending [OF assms(1)] by (simp only: ascending_def)
  with it show ?thesis by (intro exI [of _ it]) (simp add: d e intset_abs_def)
qed

theorem iter_range_exact_witness:
  "\<exists>it. iter_range (fst (intset_insert intset_new 70000)) 5 100000 = Some it \<and>
     drain range_next 1 it = filter (\<lambda>v. sint (5 :: i64) \<le> sint v \<and> sint v \<le> sint (100000 :: i64))
       (drain iter_next 1 (intset_iter_of (fst (intset_insert intset_new 70000))))"
proof -
  have "intset_insert intset_new 70000 = (fst (intset_insert intset_new 70000), snd (intset_insert intset_new 70000))"
    by simp
  from insert_spec [OF intset_new_inv this] have i: "intset_inv (fst (intset_insert intset_new 70000))" by blast
  have l: "intset_len (fst (intset_insert intset_new 70000)) \<le> 1" by code_simp
  show ?thesis using iter_range_exact [OF i l] by blast
qed

end
