(* ===== verification/QuickList.thy ===== *)
theory QuickList
  imports Rust_Std Interfaces
begin

text \<open>
  \<open>src/database/quicklist/quicklist_base.rs\<close>: a list cut into bounded segments, with a lazily
  rebuilt index of cumulative segment lengths, a one-entry access cache and a periodic
  re-packing of the segments. A \<open>VecDeque\<close> is the list of its items; its capacity is an
  allocation detail and is not part of the state (\<open>validate\<close> takes the capacities as an
  argument). The last sections interpret \<open>deque_impl\<close> and state the properties.
\<close>

section \<open>Data\<close>

record 'a quicklist =
  segments :: "'a list list"
  segment_starts :: "nat list"
  max_segment_size :: nat
  ql_len :: nat
  last_accessed :: "(nat \<times> nat) option"
  index_dirty :: bool
  ops_since_optimize :: nat
  optimize_threshold :: nat

section \<open>The index\<close>

text \<open>\<open>Vec::resize(n, v)\<close>\<close>
definition resize :: "'a list \<Rightarrow> nat \<Rightarrow> 'a \<Rightarrow> 'a list" where
  "resize xs n v = take n xs @ replicate (n - length xs) v"

definition mark_index_dirty :: "'a quicklist \<Rightarrow> 'a quicklist" where
  "mark_index_dirty q =
     (let desired = length (segments q) + 1;
          starts = segment_starts q
      in q\<lparr>index_dirty := True, last_accessed := None,
           segment_starts := (if length starts \<noteq> desired then resize starts desired 0 else starts)\<rparr>)"

fun cumulative :: "nat \<Rightarrow> 'a list list \<Rightarrow> nat list" where
  "cumulative c [] = []"
| "cumulative c (s # ss) = (c + length s) # cumulative (c + length s) ss"

definition rebuild_segment_starts :: "'a quicklist \<Rightarrow> 'a quicklist" where
  "rebuild_segment_starts q =
     q\<lparr>segment_starts := 0 # cumulative 0 (segments q), index_dirty := False, last_accessed := None\<rparr>"

text \<open>The loop of \<open>update_segment_starts_from\<close>, over the segment numbers that are left.\<close>

fun update_starts :: "'a list list \<Rightarrow> nat list \<Rightarrow> nat list \<Rightarrow> nat list panics" where
  "update_starts segs [] starts = Some starts"
| "update_starts segs (i # is) starts = do {
     prev_start \<leftarrow> (if i = 0 then Some 0 else idx starts i);
     seg \<leftarrow> idx segs i;
     update_starts segs is
       (if i + 1 < length starts then starts[i + 1 := prev_start + length seg] else starts)
   }"

definition update_segment_starts_from :: "'a quicklist \<Rightarrow> nat \<Rightarrow> 'a quicklist panics" where
  "update_segment_starts_from q start_seg =
     (if start_seg \<ge> length (segments q) then Some q
      else do {
        starts \<leftarrow> update_starts (segments q) [start_seg..<length (segments q)] (segment_starts q);
        Some (q\<lparr>segment_starts := starts, index_dirty := False, last_accessed := None\<rparr>)
      })"

text \<open>\<open>find_segment\<close>: the slow path of the lookup, the cached path before it, and the lazy
  rebuild of the index before both.\<close>

definition find_segment_slow :: "'a quicklist \<Rightarrow> nat \<Rightarrow> ((nat \<times> nat) option \<times> 'a quicklist) panics" where
  "find_segment_slow q index =
     (case binary_search_key id (segment_starts q) index of
        Inr seg_idx \<Rightarrow> Some (Some (seg_idx, 0), q\<lparr>last_accessed := Some (seg_idx, index)\<rparr>)
      | Inl seg_idx \<Rightarrow>
          if seg_idx = 0 \<or> seg_idx > length (segments q) then Some (None, q)
          else do {
            start \<leftarrow> idx (segment_starts q) (seg_idx - 1);
            offset \<leftarrow> usub index start;
            Some (Some (seg_idx - 1, offset), q\<lparr>last_accessed := Some (seg_idx - 1, index)\<rparr>)
          })"

definition find_segment_cached :: "'a quicklist \<Rightarrow> nat \<Rightarrow> ((nat \<times> nat) option \<times> 'a quicklist) panics" where
  "find_segment_cached q index =
     (case last_accessed q of
        None \<Rightarrow> find_segment_slow q index
      | Some (cached_seg, _) \<Rightarrow>
          if cached_seg < length (segments q) then do {
            seg_start \<leftarrow> idx (segment_starts q) cached_seg;
            seg \<leftarrow> idx (segments q) cached_seg;
            if index \<ge> seg_start \<and> index < seg_start + length seg
            then Some (Some (cached_seg, index - seg_start), q\<lparr>last_accessed := Some (cached_seg, index)\<rparr>)
            else find_segment_slow q index
          }
          else find_segment_slow q index)"

definition find_segment :: "'a quicklist \<Rightarrow> nat \<Rightarrow> ((nat \<times> nat) option \<times> 'a quicklist) panics" where
  "find_segment q index =
     (if index \<ge> ql_len q then Some (None, q)
      else find_segment_cached
        (if index_dirty q \<or> length (segment_starts q) \<noteq> length (segments q) + 1
         then rebuild_segment_starts q else q) index)"

definition find_segment_const :: "'a quicklist \<Rightarrow> nat \<Rightarrow> (nat \<times> nat) option panics" where
  "find_segment_const q index =
     (if index \<ge> ql_len q then Some None
      else case binary_search_key id (segment_starts q) index of
             Inr seg_idx \<Rightarrow> Some (Some (seg_idx, 0))
           | Inl seg_idx \<Rightarrow>
               if seg_idx = 0 \<or> seg_idx > length (segments q) then Some None
               else do {
                 start \<leftarrow> idx (segment_starts q) (seg_idx - 1);
                 offset \<leftarrow> usub index start;
                 Some (Some (seg_idx - 1, offset))
               })"

section \<open>Optimisation\<close>

text \<open>The inner and the outer loop of \<open>optimize\<close>; the state is the finished segments and
  the segment being filled.\<close>

fun pack_segment :: "nat \<Rightarrow> 'a list \<Rightarrow> 'a list list \<times> 'a list \<Rightarrow> 'a list list \<times> 'a list" where
  "pack_segment m [] st = st"
| "pack_segment m (x # xs) (new, cur) =
     pack_segment m xs (if length cur \<ge> m then (new @ [cur], [x]) else (new, cur @ [x]))"

fun pack_segments :: "nat \<Rightarrow> 'a list list \<Rightarrow> 'a list list \<times> 'a list \<Rightarrow> 'a list list \<times> 'a list" where
  "pack_segments m [] st = st"
| "pack_segments m (s # ss) st = pack_segments m ss (pack_segment m s st)"

definition ql_optimize :: "'a quicklist \<Rightarrow> 'a quicklist" where
  "ql_optimize q =
     (let (new, cur) = pack_segments (max_segment_size q) (segments q) ([], []);
          q1 = q\<lparr>segments := (if cur = [] then new else new @ [cur])\<rparr>;
          q2 = rebuild_segment_starts (mark_index_dirty q1)
      in q2\<lparr>ops_since_optimize := 0\<rparr>)"

definition auto_optimize :: "'a quicklist \<Rightarrow> 'a quicklist" where
  "auto_optimize q0 =
     (let q = q0\<lparr>ops_since_optimize := ops_since_optimize q0 + 1\<rparr>
      in if ops_since_optimize q < optimize_threshold q then q
         else let q' = q\<lparr>ops_since_optimize := 0\<rparr>;
                  should_optimize = (length (segments q') > 5 \<or>
                    list_ex (\<lambda>s. length s < max_segment_size q' div 4) (segments q'))
              in if should_optimize then ql_optimize q' else q')"

section \<open>Operations\<close>

definition ql_with_optimize_threshold :: "nat \<Rightarrow> nat \<Rightarrow> 'a quicklist" where
  "ql_with_optimize_threshold max_size threshold =
     \<lparr>segments = [], segment_starts = [0], max_segment_size = max_size, ql_len = 0,
      last_accessed = None, index_dirty = False, ops_since_optimize = 0,
      optimize_threshold = threshold\<rparr>"

definition ql_new :: "nat \<Rightarrow> 'a quicklist" where
  "ql_new max_size =
     \<lparr>segments = [], segment_starts = [0], max_segment_size = max_size, ql_len = 0,
      last_accessed = None, index_dirty = False, ops_since_optimize = 0,
      optimize_threshold = 1000\<rparr>"

definition ql_is_empty :: "'a quicklist \<Rightarrow> bool" where
  "ql_is_empty q \<longleftrightarrow> ql_len q = 0"

definition ql_get :: "'a quicklist \<Rightarrow> nat \<Rightarrow> ('a option \<times> 'a quicklist) panics" where
  "ql_get q index = do {
     (r, q') \<leftarrow> find_segment q index;
     (case r of
        None \<Rightarrow> Some (None, q')
      | Some (seg_idx, offset) \<Rightarrow> do {
          seg \<leftarrow> idx (segments q') seg_idx;
          Some (nth_opt seg offset, q')
        })
   }"

text \<open>\<open>get_mut\<close> hands out a reference; here the caller's write through it is the function \<open>f\<close>.\<close>

definition ql_get_mut :: "'a quicklist \<Rightarrow> nat \<Rightarrow> ('a \<Rightarrow> 'a) \<Rightarrow> (bool \<times> 'a quicklist) panics" where
  "ql_get_mut q index f = do {
     (r, q') \<leftarrow> find_segment q index;
     (case r of
        None \<Rightarrow> Some (False, q')
      | Some (seg_idx, offset) \<Rightarrow>
          if seg_idx < length (segments q') \<and> offset < length (segments q' ! seg_idx)
          then let seg = segments q' ! seg_idx
               in Some (True, q'\<lparr>segments := (segments q')[seg_idx := seg[offset := f (seg ! offset)]]\<rparr>)
          else Some (False, q'))
   }"

definition ql_push_front :: "'a quicklist \<Rightarrow> 'a \<Rightarrow> 'a quicklist panics" where
  "ql_push_front q0 item =
     (let q = (if (case segments q0 of [] \<Rightarrow> True | s # _ \<Rightarrow> length s \<ge> max_segment_size q0)
               then mark_index_dirty (q0\<lparr>segments := [] # segments q0\<rparr>) else q0)
      in do {
        seg \<leftarrow> idx (segments q) 0;
        segs \<leftarrow> upd (segments q) 0 (item # seg);
        let q1 = q\<lparr>segments := segs, ql_len := ql_len q + 1\<rparr>;
        q2 \<leftarrow> (if \<not> index_dirty q1 then update_segment_starts_from q1 0 else Some q1);
        Some (auto_optimize q2)
      })"

definition ql_push_back :: "'a quicklist \<Rightarrow> 'a \<Rightarrow> 'a quicklist panics" where
  "ql_push_back q0 item =
     (let needed_new_segment =
            (segments q0 = [] \<or> length (last (segments q0)) \<ge> max_segment_size q0);
          q = (if needed_new_segment
               then mark_index_dirty (q0\<lparr>segments := segments q0 @ [[]]\<rparr>) else q0)
      in do {
        last_idx \<leftarrow> usub (length (segments q)) 1;
        seg \<leftarrow> idx (segments q) last_idx;
        segs \<leftarrow> upd (segments q) last_idx (seg @ [item]);
        let q1 = q\<lparr>segments := segs, ql_len := ql_len q + 1\<rparr>;
        q2 \<leftarrow> (if \<not> index_dirty q1 then update_segment_starts_from q1 last_idx else Some q1);
        Some (auto_optimize q2)
      })"

definition ql_pop_front :: "'a quicklist \<Rightarrow> ('a option \<times> 'a quicklist) panics" where
  "ql_pop_front q =
     (if segments q = [] then Some (None, q)
      else case hd (segments q) of
             [] \<Rightarrow> Some (None, q)
           | item # seg \<Rightarrow> do {
               n \<leftarrow> usub (ql_len q) 1;
               let q1 = q\<lparr>segments := seg # tl (segments q), ql_len := n\<rparr>;
               q2 \<leftarrow> (if seg = [] then Some (mark_index_dirty (q1\<lparr>segments := tl (segments q1)\<rparr>))
                     else if \<not> index_dirty q1 then update_segment_starts_from q1 0
                     else Some q1);
               Some (Some item, auto_optimize q2)
             })"

definition ql_pop_back :: "'a quicklist \<Rightarrow> ('a option \<times> 'a quicklist) panics" where
  "ql_pop_back q =
     (if segments q = [] then Some (None, q)
      else let last_idx = length (segments q) - 1; seg = last (segments q)
           in if seg = [] then Some (None, q)
              else do {
                n \<leftarrow> usub (ql_len q) 1;
                let q1 = q\<lparr>segments := butlast (segments q) @ [butlast seg], ql_len := n\<rparr>;
                q2 \<leftarrow> (if butlast seg = [] then Some (mark_index_dirty (q1\<lparr>segments := butlast (segments q1)\<rparr>))
                      else if \<not> index_dirty q1 then update_segment_starts_from q1 last_idx
                      else Some q1);
                Some (Some (last seg), auto_optimize q2)
              })"

definition ql_iter :: "'a quicklist \<Rightarrow> 'a list" where
  "ql_iter q = concat (segments q)"

definition ql_clear :: "'a quicklist \<Rightarrow> 'a quicklist" where
  "ql_clear q = q\<lparr>segments := [], segment_starts := [0], ql_len := 0, last_accessed := None,
     index_dirty := False, ops_since_optimize := 0\<rparr>"

definition ql_set_optimize_threshold :: "'a quicklist \<Rightarrow> nat \<Rightarrow> 'a quicklist" where
  "ql_set_optimize_threshold q threshold = q\<lparr>optimize_threshold := threshold\<rparr>"

text \<open>The operations behind the deque interface.\<close>

definition ql_ops :: "('a quicklist, 'a) deque_ops" where
  "ql_ops = \<lparr>d_push_front = ql_push_front, d_push_back = ql_push_back,
     d_pop_front = ql_pop_front, d_pop_back = ql_pop_back, d_get = ql_get,
     d_len = ql_len, d_clear = (\<lambda>q. Some (ql_clear q))\<rparr>"

definition ql_from_vecdeque :: "'a list \<Rightarrow> nat \<Rightarrow> 'a quicklist panics" where
  "ql_from_vecdeque items max_size = push_all ql_ops (ql_new max_size) items"

definition ql_from_iter :: "'a list \<Rightarrow> nat \<Rightarrow> 'a quicklist panics" where
  "ql_from_iter items max_size = push_all ql_ops (ql_new max_size) items"

fun append_segments :: "'a list \<Rightarrow> 'a list list \<Rightarrow> 'a list" where
  "append_segments result [] = result"
| "append_segments result (s # ss) = append_segments (result @ s) ss"

definition ql_into_vecdeque :: "'a quicklist \<Rightarrow> 'a list" where
  "ql_into_vecdeque q = append_segments [] (segments q)"

text \<open>\<open>validate\<close>; \<open>caps\<close> are the capacities of the segments' buffers.\<close>

fun starts_ok :: "nat list \<Rightarrow> nat \<Rightarrow> nat \<Rightarrow> 'a list list \<Rightarrow> nat + nat" where
  "starts_ok starts i expected [] = Inr expected"
| "starts_ok starts i expected (s # ss) =
     (if starts ! i \<noteq> expected then Inl i else starts_ok starts (Suc i) (expected + length s) ss)"

definition ql_validate :: "nat list \<Rightarrow> 'a quicklist \<Rightarrow> string + unit" where
  "ql_validate caps q =
     (if list_ex (\<lambda>c. c > max_segment_size q * 2) caps then Inl ''Segment capacity exceeds limit''
      else if sum_list (map length (segments q)) \<noteq> ql_len q then Inl ''Length mismatch''
      else if length (segment_starts q) \<noteq> length (segments q) + 1
        then Inl ''segment_starts length mismatch''
      else if \<not> index_dirty q then
        (case starts_ok (segment_starts q) 0 0 (segments q) of
           Inl _ \<Rightarrow> Inl ''segment_starts value mismatch''
         | Inr expected \<Rightarrow>
             if segment_starts q ! length (segments q) \<noteq> expected
             then Inl ''segment_starts final value mismatch'' else Inr ())
      else Inr ())"

definition ensure_valid_state :: "'a quicklist \<Rightarrow> 'a quicklist" where
  "ensure_valid_state q0 =
     (let calculated_len = sum_list (map length (segments q0));
          q = (if ql_len q0 \<noteq> calculated_len then q0\<lparr>ql_len := calculated_len\<rparr> else q0);
          q' = rebuild_segment_starts (mark_index_dirty q);
          q'' = q'\<lparr>ops_since_optimize := 0\<rparr>
      in if optimize_threshold q'' = 0 then q''\<lparr>optimize_threshold := 1000\<rparr> else q'')"

text \<open>Deserialisation from the four serialised fields.\<close>

definition ql_deserialize :: "'a list list \<Rightarrow> nat list \<Rightarrow> nat \<Rightarrow> nat \<Rightarrow> 'a quicklist" where
  "ql_deserialize segs starts max_size len =
     ensure_valid_state
       \<lparr>segments = segs, segment_starts = starts, max_segment_size = max_size, ql_len = len,
        last_accessed = None, index_dirty = False, ops_since_optimize = 0,
        optimize_threshold = 1000\<rparr>"

section \<open>Abstraction and invariant\<close>

abbreviation ql_items :: "'a quicklist \<Rightarrow> 'a list" where
  "ql_items q \<equiv> concat (segments q)"

text \<open>The number of items before segment \<open>i\<close>.\<close>
definition before :: "'a list list \<Rightarrow> nat \<Rightarrow> nat" where
  "before segs i = length (concat (take i segs))"

definition ql_inv :: "'a quicklist \<Rightarrow> bool" where
  "ql_inv q \<longleftrightarrow>
     0 < max_segment_size q \<and>
     (\<forall>s\<in>set (segments q). s \<noteq> [] \<and> length s \<le> max_segment_size q) \<and>
     ql_len q = length (ql_items q) \<and>
     length (segment_starts q) = length (segments q) + 1 \<and>
     (\<not> index_dirty q \<longrightarrow> (\<forall>i\<le>length (segments q). segment_starts q ! i = before (segments q) i))"

section \<open>Cumulative lengths\<close>

lemma before_0 [simp]: "before segs 0 = 0"
  by (simp add: before_def)

lemma before_Suc: "i < length segs \<Longrightarrow> before segs (Suc i) = before segs i + length (segs ! i)"
  by (simp add: before_def take_Suc_conv_app_nth)

lemma before_all [simp]: "before segs (length segs) = length (concat segs)"
  by (simp add: before_def)

lemma before_cong: "take i segs = take i segs' \<Longrightarrow> before segs i = before segs' i"
  by (simp add: before_def)

lemma before_strict_mono:
  assumes "\<forall>s\<in>set segs. s \<noteq> []" and "i < j" and "j \<le> length segs"
  shows "before segs i < before segs j"
  using assms(2,3)
proof (induction j)
  case (Suc j)
  then have "segs ! j \<noteq> []" using assms(1) by simp
  then have "before segs j < before segs (Suc j)" using Suc.prems by (simp add: before_Suc)
  with Suc show ?case by (cases "i = j") auto
qed simp

lemma before_mono: "i \<le> j \<Longrightarrow> before segs i \<le> before segs j"
  by (metis before_def concat_append le_add1 le_add_diff_inverse length_append take_add)

lemma concat_nth_before:
  assumes "k < length segs" and "off < length (segs ! k)"
  shows "concat segs ! (before segs k + off) = segs ! k ! off"
    and "before segs k + off < length (concat segs)"
proof -
  have c: "concat segs = concat (take k segs) @ segs ! k @ concat (drop (Suc k) segs)"
    using assms(1) by (metis concat.simps(2) concat_append id_take_nth_drop)
  show "concat segs ! (before segs k + off) = segs ! k ! off"
    using assms(2) by (subst c) (simp add: before_def nth_append)
  show "before segs k + off < length (concat segs)"
    using assms(2) by (subst c) (simp add: before_def)
qed

lemma length_cumulative [simp]: "length (cumulative c segs) = length segs"
  by (induction segs arbitrary: c) auto

lemma cumulative_nth: "i < length segs \<Longrightarrow> cumulative c segs ! i = c + before segs (Suc i)"
  by (induction segs arbitrary: c i) (auto simp: before_def nth_Cons split: nat.split)

definition starts_right :: "'a list list \<Rightarrow> nat list \<Rightarrow> bool" where
  "starts_right segs starts \<longleftrightarrow>
     length starts = length segs + 1 \<and> (\<forall>i\<le>length segs. starts ! i = before segs i)"

lemma rebuild_right [simp]: "starts_right segs (0 # cumulative 0 segs)"
  by (auto simp: starts_right_def nth_Cons cumulative_nth split: nat.split)

text \<open>The incremental update: correct up to its first segment before, correct everywhere after.\<close>

lemma update_starts_right:
  assumes "length starts = length segs + 1" and "n \<le> length segs" and "\<forall>i\<le>n. starts ! i = before segs i"
  shows "\<exists>starts'. update_starts segs [n..<length segs] starts = Some starts' \<and> starts_right segs starts'"
  using assms
proof (induction "length segs - n" arbitrary: n starts)
  case 0
  then show ?case by (simp add: starts_right_def)
next
  case (Suc d)
  then have n: "n < length segs" by simp
  let ?st = "starts[n + 1 := before segs n + length (segs ! n)]"
  have "\<forall>i\<le>Suc n. ?st ! i = before segs i"
    using Suc.prems(1,3) n by (auto simp: nth_list_update before_Suc le_Suc_eq)
  then have "\<exists>starts'. update_starts segs [Suc n..<length segs] ?st = Some starts' \<and> starts_right segs starts'"
    using Suc.hyps(1) [of "Suc n" ?st] Suc.hyps(2) Suc.prems(1) n by simp
  moreover have "(if n = 0 then Some 0 else idx starts n) = Some (before segs n)"
    using Suc.prems(1,3) n by simp
  ultimately show ?case
    using n Suc.prems(1) by (simp add: upt_conv_Cons)
qed

section \<open>The invariant and the index\<close>

lemma ql_inv_alt:
  "ql_inv q \<longleftrightarrow>
     0 < max_segment_size q \<and>
     (\<forall>s\<in>set (segments q). s \<noteq> [] \<and> length s \<le> max_segment_size q) \<and>
     ql_len q = length (ql_items q) \<and>
     length (segment_starts q) = length (segments q) + 1 \<and>
     (index_dirty q \<or> starts_right (segments q) (segment_starts q))"
  by (auto simp: ql_inv_def starts_right_def)

lemma length_resize [simp]: "length (resize xs n v) = n"
  by (simp add: resize_def)

lemma mark_index_dirty_simps [simp]:
  "segments (mark_index_dirty q) = segments q"
  "index_dirty (mark_index_dirty q)"
  "max_segment_size (mark_index_dirty q) = max_segment_size q"
  "ql_len (mark_index_dirty q) = ql_len q"
  "length (segment_starts (mark_index_dirty q)) = length (segments q) + 1"
  by (simp_all add: mark_index_dirty_def Let_def)

lemma rebuild_simps [simp]:
  "segments (rebuild_segment_starts q) = segments q"
  "max_segment_size (rebuild_segment_starts q) = max_segment_size q"
  "ql_len (rebuild_segment_starts q) = ql_len q"
  "segment_starts (rebuild_segment_starts q) = 0 # cumulative 0 (segments q)"
  by (simp_all add: rebuild_segment_starts_def)

lemma update_from_right:
  assumes "length (segment_starts q) = length (segments q) + 1" and "n < length (segments q)"
    and "\<forall>i\<le>n. segment_starts q ! i = before (segments q) i"
  shows "\<exists>starts. update_segment_starts_from q n =
      Some (q\<lparr>segment_starts := starts, index_dirty := False, last_accessed := None\<rparr>) \<and>
      starts_right (segments q) starts"
  using update_starts_right [OF assms(1) less_imp_le [OF assms(2)] assms(3)] assms(2)
  by (auto simp: update_segment_starts_from_def)

subsection \<open>Re-packing\<close>

lemma pack_segment_spec:
  assumes "0 < m" and "\<forall>s\<in>set new. s \<noteq> [] \<and> length s \<le> m" and "length cur \<le> m"
    and "pack_segment m xs (new, cur) = (new', cur')"
  shows "concat new' @ cur' = concat new @ cur @ xs \<and> length cur' \<le> m \<and>
    (\<forall>s\<in>set new'. s \<noteq> [] \<and> length s \<le> m)"
  using assms(2-4)
proof (induction xs arbitrary: new cur)
  case (Cons x xs)
  show ?case
  proof (cases "length cur \<ge> m")
    case True
    with assms(1) have "cur \<noteq> []" by auto
    with True Cons.prems Cons.IH [of "new @ [cur]" "[x]"] assms(1) show ?thesis by auto
  next
    case False
    with Cons.prems Cons.IH [of new "cur @ [x]"] show ?thesis by auto
  qed
qed simp

lemma pack_segments_spec:
  assumes "0 < m" and "\<forall>s\<in>set new. s \<noteq> [] \<and> length s \<le> m" and "length cur \<le> m"
    and "pack_segments m segs (new, cur) = (new', cur')"
  shows "concat new' @ cur' = concat new @ cur @ concat segs \<and> length cur' \<le> m \<and>
    (\<forall>s\<in>set new'. s \<noteq> [] \<and> length s \<le> m)"
  using assms(2-4)
proof (induction segs arbitrary: new cur)
  case (Cons s segs)
  obtain new1 cur1 where p: "pack_segment m s (new, cur) = (new1, cur1)"
    by (cases "pack_segment m s (new, cur)")
  have "concat new1 @ cur1 = concat new @ cur @ s" "length cur1 \<le> m" "\<forall>s\<in>set new1. s \<noteq> [] \<and> length s \<le> m"
    using pack_segment_spec [OF assms(1) Cons.prems(1,2) p] by blast+
  moreover from this Cons.IH [of new1 cur1] Cons.prems(3)
  have "concat new' @ cur' = concat new1 @ cur1 @ concat segs \<and> length cur' \<le> m \<and>
    (\<forall>s\<in>set new'. s \<noteq> [] \<and> length s \<le> m)" by (simp add: p)
  ultimately show ?case by (metis append_assoc concat.simps(2))
qed simp

lemma optimize_inv_items:
  assumes "ql_inv q"
  shows "ql_inv (ql_optimize q)" and "ql_items (ql_optimize q) = ql_items q"
proof -
  have m: "0 < max_segment_size q" using assms by (simp add: ql_inv_def)
  obtain new cur where p: "pack_segments (max_segment_size q) (segments q) ([], []) = (new, cur)"
    by (cases "pack_segments (max_segment_size q) (segments q) ([], [])")
  from pack_segments_spec [OF m _ _ p]
  have "concat new @ cur = ql_items q" "length cur \<le> max_segment_size q"
    "\<forall>s\<in>set new. s \<noteq> [] \<and> length s \<le> max_segment_size q" by auto
  then show "ql_items (ql_optimize q) = ql_items q" and "ql_inv (ql_optimize q)"
    using assms by (auto simp: ql_optimize_def Let_def p ql_inv_alt simp flip: length_concat)
qed

lemma auto_optimize_inv_items:
  assumes "ql_inv q"
  shows "ql_inv (auto_optimize q)" and "ql_items (auto_optimize q) = ql_items q"
proof -
  have "ql_inv (q\<lparr>ops_since_optimize := n\<rparr>)" for n using assms by (simp add: ql_inv_def)
  then show "ql_inv (auto_optimize q)" and "ql_items (auto_optimize q) = ql_items q"
    by (auto simp: auto_optimize_def Let_def optimize_inv_items)
qed

subsection \<open>Lookup through the index\<close>

text \<open>A position: a segment number and an offset that name the item at a global index.\<close>
definition position_of :: "'a list list \<Rightarrow> nat \<Rightarrow> nat \<times> nat \<Rightarrow> bool" where
  "position_of segs index p \<longleftrightarrow>
     fst p < length segs \<and> snd p < length (segs ! fst p) \<and> before segs (fst p) + snd p = index"

lemma starts_sorted: "starts_right segs starts \<Longrightarrow> sorted (map id starts)"
  by (auto simp: starts_right_def sorted_iff_nth_mono before_mono simp del: before_all)

lemma search_starts_Ok:
  assumes "starts_right segs starts" and "\<forall>s\<in>set segs. s \<noteq> []" and "index < length (concat segs)"
    and "binary_search_key id starts index = Inr i"
  shows "position_of segs index (i, 0)"
proof -
  note srt = starts_sorted [OF assms(1)]
  from binary_search_key_Ok [OF srt assms(4)] assms(1)
  have i: "i \<le> length segs" "before segs i = index" by (auto simp: starts_right_def)
  moreover from this assms(3) have "i \<noteq> length segs" by auto
  ultimately have "i < length segs" by simp
  with assms(2) i show ?thesis by (simp add: position_of_def)
qed

lemma search_starts_Err:
  assumes "starts_right segs starts" and "\<forall>s\<in>set segs. s \<noteq> []" and "index < length (concat segs)"
    and "binary_search_key id starts index = Inl i"
  shows "0 < i" and "i \<le> length segs" and "starts ! (i - 1) \<le> index"
    and "position_of segs index (i - 1, index - starts ! (i - 1))"
proof -
  have st: "length starts = length segs + 1" "\<And>j. j \<le> length segs \<Longrightarrow> starts ! j = before segs j"
    using assms(1) by (auto simp: starts_right_def)
  note srt = starts_sorted [OF assms(1)]
  note E = binary_search_key_Err [OF srt assms(4)]
  show pos: "0 < i"
  proof (rule ccontr)
    assume "\<not> 0 < i"
    with E st have "index < before segs 0" by auto
    then show False by simp
  qed
  show le: "i \<le> length segs"
  proof (rule ccontr)
    assume "\<not> i \<le> length segs"
    with E have "starts ! length segs < index" by simp
    with assms(3) st(2) [of "length segs"] show False by simp
  qed
  from E pos have "starts ! (i - 1) < index" by simp
  moreover from E le st have "index < before segs i" by auto
  ultimately show "starts ! (i - 1) \<le> index" and "position_of segs index (i - 1, index - starts ! (i - 1))"
    using st pos le before_Suc [of "i - 1" segs] by (auto simp: position_of_def)
qed

definition lookup_result :: "'a quicklist \<Rightarrow> nat \<Rightarrow> ((nat \<times> nat) option \<times> 'a quicklist) panics \<Rightarrow> bool" where
  "lookup_result q index r \<longleftrightarrow>
     (\<exists>p q'. r = Some (Some p, q') \<and> ql_inv q' \<and> segments q' = segments q \<and> position_of (segments q) index p)"

lemma lookup_resultI:
  "ql_inv q \<Longrightarrow> position_of (segments q) index p \<Longrightarrow>
   lookup_result q index (Some (Some p, q\<lparr>last_accessed := x\<rparr>))"
  by (auto simp: lookup_result_def ql_inv_def)

lemma find_segment_slow_spec:
  assumes inv: "ql_inv q" and right: "starts_right (segments q) (segment_starts q)"
    and inside: "index < length (ql_items q)"
  shows "lookup_result q index (find_segment_slow q index)"
proof -
  have ne: "\<forall>s\<in>set (segments q). s \<noteq> []" using inv by (auto simp: ql_inv_def)
  show ?thesis
  proof (cases "binary_search_key id (segment_starts q) index")
    case (Inr i)
    with search_starts_Ok [OF right ne inside Inr] show ?thesis
      by (simp add: find_segment_slow_def lookup_resultI [OF inv])
  next
    case (Inl i)
    with search_starts_Err [OF right ne inside Inl] right show ?thesis
      by (auto simp: find_segment_slow_def starts_right_def intro: lookup_resultI [OF inv])
  qed
qed

lemma find_segment_cached_spec:
  assumes inv: "ql_inv q" and right: "starts_right (segments q) (segment_starts q)"
    and inside: "index < length (ql_items q)"
  shows "lookup_result q index (find_segment_cached q index)"
proof (cases "last_accessed q")
  case None
  with find_segment_slow_spec [OF assms] show ?thesis by (simp add: find_segment_cached_def)
next
  case (Some ca)
  obtain c j where ca: "ca = (c, j)" by (cases ca)
  show ?thesis
  proof (cases "c < length (segments q) \<and> before (segments q) c \<le> index \<and>
      index < before (segments q) c + length (segments q ! c)")
    case True
    then have "position_of (segments q) index (c, index - before (segments q) c)"
      by (auto simp: position_of_def)
    with True Some right show ?thesis
      by (auto simp: ca starts_right_def find_segment_cached_def intro: lookup_resultI [OF inv])
  next
    case False
    with Some right have "find_segment_cached q index = find_segment_slow q index"
      by (auto simp: ca starts_right_def find_segment_cached_def)
    with find_segment_slow_spec [OF assms] show ?thesis by simp
  qed
qed

lemma find_segment_spec:
  assumes "ql_inv q"
  shows "index < length (ql_items q) \<Longrightarrow> lookup_result q index (find_segment q index)"
    and "\<not> index < length (ql_items q) \<Longrightarrow> find_segment q index = Some (None, q)"
proof -
  assume "index < length (ql_items q)"
  moreover have "ql_inv (rebuild_segment_starts q)" using assms by (simp add: ql_inv_alt)
  ultimately show "lookup_result q index (find_segment q index)"
    using assms find_segment_cached_spec [of "rebuild_segment_starts q" index]
      find_segment_cached_spec [of q index]
    by (auto simp: find_segment_def ql_inv_alt lookup_result_def)
next
  assume "\<not> index < length (ql_items q)"
  with assms show "find_segment q index = Some (None, q)" by (simp add: find_segment_def ql_inv_def)
qed

section \<open>The deque interface\<close>

text \<open>What an operation leaves before its incremental index update: everything in order except
  possibly the starts after segment \<open>n\<close>.\<close>

definition pending :: "'a quicklist \<Rightarrow> nat \<Rightarrow> bool" where
  "pending q n \<longleftrightarrow>
     0 < max_segment_size q \<and> n < length (segments q) \<and>
     (\<forall>s\<in>set (segments q). s \<noteq> [] \<and> length s \<le> max_segment_size q) \<and>
     ql_len q = length (ql_items q) \<and>
     length (segment_starts q) = length (segments q) + 1 \<and>
     (\<not> index_dirty q \<longrightarrow> (\<forall>i\<le>n. segment_starts q ! i = before (segments q) i))"

lemma finish_pending:
  assumes "pending q n"
  shows "\<exists>q'. (if \<not> index_dirty q then update_segment_starts_from q n else Some q) = Some q' \<and>
     ql_inv q' \<and> segments q' = segments q"
proof (cases "index_dirty q")
  case True
  with assms show ?thesis by (simp add: pending_def ql_inv_alt)
next
  case False
  then obtain starts where "update_segment_starts_from q n =
      Some (q\<lparr>segment_starts := starts, index_dirty := False, last_accessed := None\<rparr>)"
      "starts_right (segments q) starts"
    using update_from_right [of q n] assms by (auto simp: pending_def)
  with False assms show ?thesis by (auto simp: pending_def ql_inv_alt starts_right_def)
qed

lemma finish_optimize:
  assumes "pending q n"
  shows "\<exists>q'. (do { q2 \<leftarrow> (if \<not> index_dirty q then update_segment_starts_from q n else Some q);
                 Some (f (auto_optimize q2)) }) = Some (f q') \<and>
     ql_inv q' \<and> ql_items q' = ql_items q"
  using finish_pending [OF assms] auto_optimize_inv_items by fastforce

lemma push_front_spec:
  assumes "ql_inv q"
  shows "\<exists>q'. ql_push_front q x = Some q' \<and> ql_inv q' \<and> ql_items q' = x # ql_items q"
proof -
  define q1 where "q1 = (if (case segments q of [] \<Rightarrow> True | s # _ \<Rightarrow> length s \<ge> max_segment_size q)
      then mark_index_dirty (q\<lparr>segments := [] # segments q\<rparr>) else q)"
  have "\<exists>s ss. segments q1 = s # ss \<and> s @ concat ss = ql_items q \<and> length s < max_segment_size q"
    using assms by (cases "segments q") (auto simp: q1_def ql_inv_def)
  then obtain s ss where segs: "segments q1 = s # ss" and items: "s @ concat ss = ql_items q"
    and s: "length s < max_segment_size q" by blast
  define q2 where "q2 = q1\<lparr>segments := (x # s) # ss, ql_len := ql_len q1 + 1\<rparr>"
  have "pending q2 0"
    using assms s segs by (auto simp: pending_def q2_def q1_def ql_inv_def split: if_splits list.splits)
  from finish_optimize [OF this, of "\<lambda>q. q"] obtain q'
    where "(do { q2 \<leftarrow> (if \<not> index_dirty q2 then update_segment_starts_from q2 0 else Some q2);
                 Some (auto_optimize q2) }) = Some q'" "ql_inv q'" "ql_items q' = ql_items q2" by blast
  moreover have "ql_items q2 = x # ql_items q" using items by (simp add: q2_def)
  moreover have "ql_push_front q x =
      (do { q2 \<leftarrow> (if \<not> index_dirty q2 then update_segment_starts_from q2 0 else Some q2);
            Some (auto_optimize q2) })"
    by (simp add: ql_push_front_def Let_def q1_def [symmetric] segs) (simp add: q2_def)
  ultimately show ?thesis by simp
qed

text \<open>Changing the last segment keeps the starts up to it.\<close>

lemma before_snoc: "i \<le> length ss \<Longrightarrow> before (ss @ [a]) i = before (ss @ [b]) i"
  by (rule before_cong) simp

lemma push_back_spec:
  assumes "ql_inv q"
  shows "\<exists>q'. ql_push_back q x = Some q' \<and> ql_inv q' \<and> ql_items q' = ql_items q @ [x]"
proof -
  define q1 where "q1 = (if segments q = [] \<or> length (last (segments q)) \<ge> max_segment_size q
      then mark_index_dirty (q\<lparr>segments := segments q @ [[]]\<rparr>) else q)"
  have "\<exists>ss s. segments q1 = ss @ [s] \<and> concat ss @ s = ql_items q \<and> length s < max_segment_size q"
    using assms by (cases "segments q" rule: rev_cases) (auto simp: q1_def ql_inv_def)
  then obtain ss s where segs: "segments q1 = ss @ [s]" and items: "concat ss @ s = ql_items q"
    and s: "length s < max_segment_size q" by blast
  define q2 where "q2 = q1\<lparr>segments := ss @ [s @ [x]], ql_len := ql_len q1 + 1\<rparr>"
  have starts: "segment_starts q1 ! i = before (ss @ [s @ [x]]) i" if "\<not> index_dirty q1" "i \<le> length ss" for i
    using that assms segs before_snoc [of i ss "s @ [x]" s] by (auto simp: q1_def ql_inv_def split: if_splits)
  have "ql_len q1 = length (ql_items q)" and "max_segment_size q1 = max_segment_size q"
    and "\<forall>s\<in>set ss. s \<noteq> [] \<and> length s \<le> max_segment_size q"
    and "length (segment_starts q1) = length (segments q1) + 1" and "0 < max_segment_size q"
    using assms segs by (auto simp: q1_def ql_inv_def split: if_splits)
  then have "pending q2 (length ss)"
    using s segs starts by (simp add: pending_def q2_def flip: items)
  from finish_optimize [OF this, of "\<lambda>q. q"] obtain q'
    where "(do { q2 \<leftarrow> (if \<not> index_dirty q2 then update_segment_starts_from q2 (length ss) else Some q2);
                 Some (auto_optimize q2) }) = Some q'" "ql_inv q'" "ql_items q' = ql_items q2" by blast
  moreover have "ql_items q2 = ql_items q @ [x]" using items by (simp add: q2_def flip: items)
  moreover have "ql_push_back q x =
      (do { q2 \<leftarrow> (if \<not> index_dirty q2 then update_segment_starts_from q2 (length ss) else Some q2);
            Some (auto_optimize q2) })"
    by (simp add: ql_push_back_def Let_def q1_def [symmetric] segs) (simp add: q2_def)
  ultimately show ?thesis by simp
qed

lemma pop_front_spec:
  assumes "ql_inv q"
  shows "\<exists>q'. ql_pop_front q = Some (case ql_items q of [] \<Rightarrow> None | x # _ \<Rightarrow> Some x, q') \<and>
     ql_inv q' \<and> ql_items q' = tl (ql_items q)"
proof (cases "segments q")
  case Nil
  with assms show ?thesis by (simp add: ql_pop_front_def)
next
  case (Cons s0 ss)
  with assms obtain x s where s0: "s0 = x # s" by (cases s0) (auto simp: ql_inv_def)
  have len: "ql_len q = Suc (length (s @ concat ss))" using assms Cons s0 by (simp add: ql_inv_def)
  show ?thesis
  proof (cases "s = []")
    case True
    define q1 where "q1 = mark_index_dirty (q\<lparr>ql_len := ql_len q - 1, segments := ss\<rparr>)"
    have "ql_inv q1" using assms Cons s0 True by (auto simp: q1_def ql_inv_def)
    with auto_optimize_inv_items [OF this] Cons s0 True len show ?thesis
      by (auto simp: ql_pop_front_def q1_def)
  next
    case False
    define q1 where "q1 = q\<lparr>segments := s # ss, ql_len := ql_len q - 1\<rparr>"
    have "pending q1 0" using assms Cons s0 False by (auto simp: q1_def pending_def ql_inv_def)
    from finish_optimize [OF this, of "\<lambda>q. (Some x, q)"] Cons s0 False len show ?thesis
      by (auto simp: ql_pop_front_def q1_def Let_def)
  qed
qed

lemma pop_back_spec:
  assumes "ql_inv q"
  shows "\<exists>q'. ql_pop_back q = Some (if ql_items q = [] then None else Some (last (ql_items q)), q') \<and>
     ql_inv q' \<and> ql_items q' = butlast (ql_items q)"
proof (cases "segments q" rule: rev_cases)
  case Nil
  with assms show ?thesis by (simp add: ql_pop_back_def)
next
  case (snoc ss s0)
  with assms obtain s x where s0: "s0 = s @ [x]" by (cases s0 rule: rev_cases) (auto simp: ql_inv_def)
  have len: "ql_len q = Suc (length (concat ss @ s))" using assms snoc s0 by (simp add: ql_inv_def)
  show ?thesis
  proof (cases "s = []")
    case True
    define q1 where "q1 = mark_index_dirty (q\<lparr>ql_len := ql_len q - 1, segments := ss\<rparr>)"
    have "ql_inv q1" using assms snoc s0 True by (auto simp: q1_def ql_inv_def)
    with auto_optimize_inv_items [OF this] snoc s0 True len show ?thesis
      by (auto simp: ql_pop_back_def q1_def butlast_append)
  next
    case False
    define q1 where "q1 = q\<lparr>segments := ss @ [s], ql_len := ql_len q - 1\<rparr>"
    have "segment_starts q ! i = before (ss @ [s]) i" if "\<not> index_dirty q" "i \<le> length ss" for i
      using that assms snoc before_snoc [of i ss s s0] by (auto simp: ql_inv_def)
    then have "pending q1 (length ss)"
      using assms snoc s0 False by (auto simp: q1_def pending_def ql_inv_def)
    from finish_optimize [OF this, of "\<lambda>q. (Some x, q)"] snoc s0 False len show ?thesis
      by (auto simp: ql_pop_back_def q1_def Let_def butlast_append)
  qed
qed

lemma get_spec:
  assumes "ql_inv q"
  shows "\<exists>q'. ql_get q i = Some (nth_opt (ql_items q) i, q') \<and> ql_inv q' \<and> segments q' = segments q"
proof (cases "i < length (ql_items q)")
  case True
  from find_segment_spec(1) [OF assms True] obtain k off q'
    where f: "find_segment q i = Some (Some (k, off), q')" "ql_inv q'" "segments q' = segments q"
      and p: "position_of (segments q) i (k, off)" by (auto simp: lookup_result_def)
  with concat_nth_before [of k "segments q" off] show ?thesis
    by (auto simp: ql_get_def position_of_def nth_opt_def)
next
  case False
  with find_segment_spec(2) [OF assms False] assms show ?thesis by (simp add: ql_get_def nth_opt_def)
qed

lemma get_items_spec:
  "ql_inv q \<Longrightarrow> \<exists>q'. ql_get q i = Some (nth_opt (ql_items q) i, q') \<and> ql_inv q' \<and> ql_items q' = ql_items q"
  using get_spec [of q i] by auto

lemma len_spec: "ql_inv q \<Longrightarrow> ql_len q = length (ql_items q)"
  by (simp add: ql_inv_def)

lemma clear_spec: "ql_inv q \<Longrightarrow> \<exists>q'. Some (ql_clear q) = Some q' \<and> ql_inv q' \<and> ql_items q' = []"
  by (simp add: ql_clear_def ql_inv_def)

lemma ql_ops_sel:
  "d_push_front ql_ops = ql_push_front" "d_push_back ql_ops = ql_push_back"
  "d_pop_front ql_ops = ql_pop_front" "d_pop_back ql_ops = ql_pop_back"
  "d_get ql_ops = ql_get" "d_len ql_ops = ql_len" "d_clear ql_ops = (\<lambda>q. Some (ql_clear q))"
  by (simp_all add: ql_ops_def)

lemmas ql_specs = push_front_spec push_back_spec pop_front_spec pop_back_spec get_items_spec
  len_spec clear_spec

lemma ql_new_inv [simp]: "0 < m \<Longrightarrow> ql_inv (ql_new m)" and ql_new_items [simp]: "ql_items (ql_new m) = []"
  by (simp_all add: ql_new_def ql_inv_def)

interpretation ql: deque_impl ql_ops "\<lambda>q. ql_items q" ql_inv "\<lambda>_. True"
  by unfold_locales (unfold ql_ops_sel, (erule ql_specs)+)

section \<open>Reads and writes at an index\<close>

lemma get_mut_spec:
  assumes "ql_inv q"
  shows "\<exists>q'. ql_get_mut q i f = Some (i < length (ql_items q), q') \<and> ql_inv q' \<and>
     ql_items q' = (if i < length (ql_items q) then (ql_items q)[i := f (ql_items q ! i)] else ql_items q)"
proof (cases "i < length (ql_items q)")
  case True
  from find_segment_spec(1) [OF assms True] obtain k off q1
    where f: "find_segment q i = Some (Some (k, off), q1)" "ql_inv q1" "segments q1 = segments q"
      and p: "position_of (segments q) i (k, off)" by (auto simp: lookup_result_def)
  let ?segs = "segments q"
  have k: "k < length ?segs" "off < length (?segs ! k)" "before ?segs k + off = i"
    using p by (auto simp: position_of_def)
  define segs' where "segs' = ?segs[k := (?segs ! k)[off := f (?segs ! k ! off)]]"
  define q' where "q' = q1\<lparr>segments := segs'\<rparr>"
  have lens: "map length segs' = map length ?segs"
    using k(1) by (simp add: segs'_def map_update list_update_same_conv)
  have before: "before segs' j = before ?segs j" for j
    by (simp add: before_def length_concat take_map [symmetric] lens)
  have split: "?segs = take k ?segs @ ?segs ! k # drop (Suc k) ?segs"
    using k(1) by (rule id_take_nth_drop)
  have items: "concat segs' = (concat ?segs)[i := f (concat ?segs ! i)]"
  proof -
    define A C where "A = concat (take k ?segs)" and "C = concat (drop (Suc k) ?segs)"
    have "concat ?segs = A @ ?segs ! k @ C" by (subst split) (simp add: A_def C_def)
    moreover have "concat segs' = A @ (?segs ! k)[off := f (?segs ! k ! off)] @ C"
      using k(1) by (simp add: segs'_def upd_conv_take_nth_drop A_def C_def)
    moreover have "concat ?segs ! i = ?segs ! k ! off" and "i = length A + off"
      using concat_nth_before(1) [OF k(1,2)] k(3) by (simp_all add: A_def before_def)
    ultimately show ?thesis using k(2) by (simp add: list_update_append)
  qed
  have "ql_inv q'"
  proof -
    have "length s = length (?segs ! j)" if "s = segs' ! j" "j < length segs'" for s j
      using that lens by (metis length_map nth_map)
    moreover have "length segs' = length ?segs" using lens by (metis length_map)
    ultimately have "\<forall>s\<in>set segs'. s \<noteq> [] \<and> length s \<le> max_segment_size q1"
      using f(2,3) by (metis in_set_conv_nth length_0_conv ql_inv_def)
    then show ?thesis
      using f(2,3) \<open>length segs' = length ?segs\<close> items
      by (simp add: q'_def ql_inv_def before)
  qed
  moreover have "ql_get_mut q i f = Some (True, q')"
    using f k by (simp add: ql_get_mut_def q'_def segs'_def Let_def)
  ultimately show ?thesis using True items by (simp add: q'_def)
next
  case False
  with find_segment_spec(2) [OF assms False] assms show ?thesis by (simp add: ql_get_mut_def)
qed

section \<open>Conversions\<close>

lemma auto_optimize_max [simp]: "max_segment_size (auto_optimize q) = max_segment_size q"
  by (simp add: auto_optimize_def ql_optimize_def Let_def split: prod.split)

lemma update_from_max:
  "update_segment_starts_from q n = Some q' \<Longrightarrow> max_segment_size q' = max_segment_size q"
  by (auto simp: update_segment_starts_from_def bind_Some_iff split: if_splits)

lemma push_back_max: "ql_push_back q x = Some q' \<Longrightarrow> max_segment_size q' = max_segment_size q"
  by (auto simp: ql_push_back_def Let_def bind_Some_iff split: if_splits dest!: update_from_max)

lemma push_all_max: "push_all ql_ops q xs = Some q' \<Longrightarrow> max_segment_size q' = max_segment_size q"
  by (induction xs arbitrary: q) (auto simp: bind_Some_iff ql_ops_sel dest: push_back_max)

lemma append_segments_concat: "append_segments r segs = r @ concat segs"
  by (induction segs arbitrary: r) simp_all

lemma starts_ok_right:
  assumes "\<forall>i\<le>length segs. starts ! (k + i) = c + before segs i"
  shows "starts_ok starts k c segs = Inr (c + length (concat segs))"
  using assms
proof (induction segs arbitrary: k c)
  case (Cons s ss)
  have "\<forall>i\<le>length ss. starts ! (Suc k + i) = (c + length s) + before ss i"
  proof (intro allI impI)
    fix i assume "i \<le> length ss"
    with Cons.prems [rule_format, of "Suc i"]
    show "starts ! (Suc k + i) = (c + length s) + before ss i" by (simp add: before_def)
  qed
  moreover from Cons.prems have "starts ! k = c" by (metis add_0_right before_0 zero_le)
  ultimately show ?case using Cons.IH by simp
qed simp

lemma validate_inv:
  assumes "ql_inv q" and "\<forall>c\<in>set caps. c \<le> max_segment_size q * 2"
  shows "ql_validate caps q = Inr ()"
proof -
  have "\<not> list_ex (\<lambda>c. c > max_segment_size q * 2) caps"
    using assms(2) by (auto simp: list_ex_iff)
  moreover have "\<not> index_dirty q \<Longrightarrow>
      starts_ok (segment_starts q) 0 0 (segments q) = Inr (length (ql_items q))"
    using assms(1) starts_ok_right [of "segments q" "segment_starts q" 0 0] by (simp add: ql_inv_def)
  ultimately show ?thesis
    using assms(1) by (auto simp: ql_validate_def ql_inv_def length_concat [symmetric])
qed

lemma deserialize_inv:
  assumes "0 < m" and "\<forall>s\<in>set segs. s \<noteq> [] \<and> length s \<le> m"
  shows "ql_inv (ql_deserialize segs starts m n)" and "ql_items (ql_deserialize segs starts m n) = concat segs"
  using assms by (auto simp: ql_deserialize_def ensure_valid_state_def Let_def ql_inv_alt length_concat)

section \<open>Properties\<close>

text \<open>C8. For every positive segment size, every sequence of pushes and pops at both ends,
  indexed reads, length queries and clears on a \<open>QuickList\<close> runs without a panic and answers
  exactly as the plain list does, through every segment split, lazy index rebuild, cache hit and
  automatic re-packing; the final state satisfies the invariant (no empty or oversized segment,
  length and index consistent).\<close>

theorem quicklist_refines_list:
  assumes "0 < m"
  shows "\<exists>outs q'. run (deque_step ql_ops) ps (ql_new m) = Some (outs, q') \<and> ql_inv q' \<and>
     spec_run deque_spec ps [] = (outs, ql_items q')"
proof -
  have "\<forall>p\<in>set ps. op_storable (\<lambda>_. True) p"
    by (metis op_storable.elims(3))
  with ql.runs.run_sim [of "ql_new m" ps] assms show ?thesis by simp
qed

theorem quicklist_refines_list_witness:
  "\<exists>outs q'. run (deque_step ql_ops) [Push_Back (1 :: nat), Push_Front 2, Get 1, Pop_Back] (ql_new 1) = Some (outs, q') \<and>
     ql_inv q' \<and> spec_run deque_spec [Push_Back (1 :: nat), Push_Front 2, Get 1, Pop_Back] [] = (outs, ql_items q')"
  by (rule quicklist_refines_list) simp

text \<open>a write through \<open>get_mut\<close> changes exactly the item at the index and nothing else, and
  reports whether the index exists; it never panics and keeps the invariant.\<close>

theorem quicklist_get_mut:
  assumes "ql_inv q"
  shows "\<exists>q'. ql_get_mut q i f = Some (i < length (ql_iter q), q') \<and> ql_inv q' \<and>
     ql_iter q' = (if i < length (ql_iter q) then (ql_iter q)[i := f (ql_iter q ! i)] else ql_iter q)"
  unfolding ql_iter_def by (rule get_mut_spec [OF assms])

theorem quicklist_get_mut_witness:
  "\<exists>q'. ql_get_mut (ql_new 4 :: nat quicklist) 2 Suc = Some (2 < length (ql_iter (ql_new 4 :: nat quicklist)), q') \<and>
     ql_inv q' \<and> ql_iter q' = (if 2 < length (ql_iter (ql_new 4 :: nat quicklist))
       then (ql_iter (ql_new 4))[2 := Suc (ql_iter (ql_new 4) ! 2)] else ql_iter (ql_new 4))"
proof -
  have "ql_inv (ql_new 4 :: nat quicklist)" by simp
  from quicklist_get_mut [OF this, of 2 Suc] show ?thesis .
qed

text \<open>building a \<open>QuickList\<close> from items and reading it back gives the items; what
  deserialisation makes of its four serialised fields is well-formed, holds the same items, passes
  \<open>validate\<close>, and has a clean index whatever the serialised index and length were.\<close>

theorem quicklist_roundtrip:
  assumes "0 < m" and "\<forall>c\<in>set caps. c \<le> 2 * m"
  shows "\<exists>q. ql_from_iter xs m = Some q \<and> ql_into_vecdeque q = xs \<and> ql_len q = length xs \<and>
     (let q' = ql_deserialize (segments q) starts m n
      in ql_inv q' \<and> ql_into_vecdeque q' = xs \<and> ql_len q' = length xs \<and>
         \<not> index_dirty q' \<and> ql_validate caps q' = Inr ())"
proof -
  obtain q where q: "ql_from_iter xs m = Some q" "ql_inv q" "ql_items q = xs"
    using ql.push_all_law [of "ql_new m" xs] assms(1) by (auto simp: ql_from_iter_def)
  have m: "max_segment_size q = m"
    using push_all_max q(1) by (fastforce simp: ql_from_iter_def ql_new_def)
  let ?q' = "ql_deserialize (segments q) starts m n"
  have "\<forall>s\<in>set (segments q). s \<noteq> [] \<and> length s \<le> m" using q(2) m by (simp add: ql_inv_def)
  note d = deserialize_inv [OF assms(1) this, of starts n]
  have "\<not> index_dirty ?q'" "max_segment_size ?q' = m"
    by (simp_all add: ql_deserialize_def ensure_valid_state_def Let_def rebuild_segment_starts_def)
  with d q assms(2) validate_inv [OF d(1), of caps] show ?thesis
    by (simp add: ql_into_vecdeque_def append_segments_concat Let_def ql_inv_def mult.commute)
qed

theorem quicklist_roundtrip_witness:
  "\<exists>q. ql_from_iter [1, 2, 3 :: nat] 2 = Some q \<and> ql_into_vecdeque q = [1, 2, 3] \<and> ql_len q = length [1, 2, 3 :: nat] \<and>
     (let q' = ql_deserialize (segments q) [] 2 77
      in ql_inv q' \<and> ql_into_vecdeque q' = [1, 2, 3] \<and> ql_len q' = length [1, 2, 3 :: nat] \<and>
         \<not> index_dirty q' \<and> ql_validate [2, 4] q' = Inr ())"
proof -
  have "0 < (2 :: nat)" and "\<forall>c\<in>set [2, 4]. c \<le> 2 * (2 :: nat)" by simp_all
  from quicklist_roundtrip [OF this, of "[1, 2, 3]" "[]" 77] show ?thesis .
qed

end
