(* ===== verification/Leb128.thy ===== *)
theory Leb128
  imports Prelude
begin

text \<open>
  Seven-bit variable-length integers, the format behind \<open>ListPack::encode_varint\<close> and the
  \<open>zdb\<close> varint module: the reference encoding \<open>leb\<close> on natural numbers, the bit facts that
  relate it to the word loops of the sources, and one round of such an encoder and decoder loop.
\<close>

unbundle bit_operations_syntax

section \<open>Bits of a byte\<close>

lemma and_127: "(x :: 'a :: len word) AND 127 = take_bit 7 x"
proof -
  have "(127 :: 'a word) = mask 7" by (simp add: mask_eq_exp_minus_1)
  then show ?thesis by (simp only: take_bit_eq_mask)
qed

lemma unat_and_127: "unat ((x :: 'a :: len word) AND 127) = unat x mod 128"
proof -
  have "unat (take_bit 7 x) = take_bit 7 (unat x)" by (rule unsigned_take_bit_eq)
  also have "\<dots> = unat x mod 128" by (simp only: take_bit_eq_mod) simp
  finally show ?thesis by (simp only: and_127)
qed

lemma bit_7_iff: "bit (x :: u8) 7 \<longleftrightarrow> 128 \<le> unat x"
proof -
  have "bit (unat x) 7 \<longleftrightarrow> bit x 7" by (simp add: bit_unsigned_iff)
  moreover have "bit (unat x) 7 \<longleftrightarrow> odd (unat x div 128)" by (simp add: bit_iff_odd)
  moreover have "unat x < 256" using unsigned_less [of x, where 'a = nat] by simp
  moreover from this have "unat x div 128 = (if unat x < 128 then 0 else 1)" by auto
  ultimately show ?thesis by (auto split: if_splits)
qed

lemma and_128_eq_0: "(x :: u8) AND 128 = 0 \<longleftrightarrow> unat x < 128"
proof -
  have "x AND 128 = x AND 2 ^ 7" by simp
  then show ?thesis using bit_7_iff [of x] by (simp only: and_exp_eq_0_iff_not_bit) auto
qed

lemma disjoint_or_unat:
  fixes a b :: "'a :: len word"
  assumes "a AND b = 0" and "unat a + unat b < 2 ^ LENGTH('a)"
  shows "unat (a OR b) = unat a + unat b"
  using assms by (simp add: disjunctive_add_eq_or [symmetric] unat_word_ariths)

lemma or_128: "unat (b :: u8) < 128 \<Longrightarrow> unat (b OR 128) = unat b + 128"
  using disjoint_or_unat [of b 128] by (simp add: and_128_eq_0)

lemma or_shift:
  fixes r x :: "'a :: len word"
  assumes r: "unat r < 2 ^ s" and x: "unat x * 2 ^ s + unat r < 2 ^ LENGTH('a)"
  shows "unat (r OR push_bit s x) = unat r + unat x * 2 ^ s"
proof -
  have "unat (push_bit s x) = take_bit LENGTH('a) (push_bit s (unat x))"
    by (rule unsigned_push_bit_eq)
  then have p: "unat (push_bit s x) = unat x * 2 ^ s"
    using x by (simp only: push_bit_eq_mult take_bit_eq_mod) simp
  have "take_bit s (unat r) = unat r" using r by (simp add: take_bit_nat_eq_self)
  then have "unat (take_bit s r) = unat r" by (simp add: unsigned_take_bit_eq)
  then have t: "take_bit s r = r" by (simp only: word_unat_eq_iff)
  have "take_bit s r AND push_bit s x = 0"
    by (rule bit_eqI) (auto simp: bit_and_iff bit_take_bit_iff bit_push_bit_iff)
  with t have "r AND push_bit s x = 0" by simp
  with p x show ?thesis by (simp add: disjoint_or_unat)
qed

section \<open>The reference encoding\<close>

text \<open>Little endian groups of seven bits; all bytes but the last carry the continuation bit.\<close>

fun leb :: "nat \<Rightarrow> bytes" where
  "leb n = (if n < 128 then [of_nat n] else of_nat (n mod 128 + 128) # leb (n div 128))"

declare leb.simps [simp del]

lemma leb_small: "n < 128 \<Longrightarrow> leb n = [of_nat n]"
  by (simp add: leb.simps [of n])

lemma leb_large: "128 \<le> n \<Longrightarrow> leb n = of_nat (n mod 128 + 128) # leb (n div 128)"
  by (simp add: leb.simps [of n])

lemma leb_not_Nil [simp]: "leb n \<noteq> []"
  by (simp add: leb.simps [of n])

lemma unat_of_nat_byte: "n < 256 \<Longrightarrow> unat (of_nat n :: u8) = n"
  by (simp add: unat_of_nat)

lemma leb_hd: "unat (hd (leb n)) = (if n < 128 then n else n mod 128 + 128)"
proof (cases "n < 128")
  case False
  have "n mod 128 < 128" by simp
  then have "n mod 128 + 128 < 256" by linarith
  with False show ?thesis by (simp add: leb_large unat_of_nat_byte del: of_nat_add of_nat_mod)
qed (simp add: leb_small unat_of_nat_byte)

lemma leb_length: "n < 128 ^ k \<Longrightarrow> 0 < k \<Longrightarrow> length (leb n) \<le> k"
proof (induction n arbitrary: k rule: leb.induct)
  case (1 n)
  show ?case
  proof (cases "n < 128")
    case False
    then obtain j where k: "k = Suc j" "0 < j" using 1(2,3) by (cases k; cases "k - 1") auto
    with 1(2) have "n div 128 < 128 ^ j" by (simp add: less_mult_imp_div_less mult.commute)
    with 1(1) [OF False] k have "length (leb (n div 128)) \<le> j" by simp
    with False k show ?thesis by (simp add: leb_large)
  qed (use 1(3) in \<open>simp add: leb_small\<close>)
qed

section \<open>One round of a decoder\<close>

text \<open>
  A decoder keeps the value read so far in a word \<open>r\<close> below \<open>2 ^ s\<close>, where \<open>s\<close> is the
  shift of the next group; \<open>n\<close> is the number still to be read.
\<close>

definition leb_acc :: "'a :: len word \<Rightarrow> nat \<Rightarrow> u8 \<Rightarrow> 'a word" where
  "leb_acc r s b = r OR push_bit s (ucast (b AND 127))"

lemma unat_leb_acc:
  fixes r :: "'a :: len word"
  assumes "8 \<le> LENGTH('a)" and "unat r < 2 ^ s"
    and "unat r + (unat b mod 128) * 2 ^ s < 2 ^ LENGTH('a)"
  shows "unat (leb_acc r s b) = unat r + (unat b mod 128) * 2 ^ s"
proof -
  have "unat (b AND 127) < 2 ^ LENGTH('a)"
    using assms(1) unat_and_127 [of b] power_increasing [OF assms(1), of "2 :: nat"]
    by (auto intro: order.strict_trans2 [of _ 128])
  then have "unat (ucast (b AND 127) :: 'a word) = unat b mod 128"
    by (simp only: unsigned_ucast_eq take_bit_nat_eq_self unat_and_127)
  with assms show ?thesis
    unfolding leb_acc_def by (subst or_shift) (simp_all add: add.commute)
qed

lemma leb_byte_last: "n < 128 \<Longrightarrow> unat (of_nat n :: u8) mod 128 = n \<and> (of_nat n :: u8) AND 128 = 0"
  by (simp add: and_128_eq_0 unat_of_nat_byte)

lemma leb_byte_more:
  "unat (of_nat (n mod 128 + 128) :: u8) mod 128 = n mod 128 \<and> (of_nat (n mod 128 + 128) :: u8) AND 128 \<noteq> 0"
proof -
  have "n mod 128 < 128" by simp
  then have "unat (of_nat (n mod 128 + 128) :: u8) = n mod 128 + 128"
    by (intro unat_of_nat_byte) linarith
  then show ?thesis by (simp add: and_128_eq_0 del: of_nat_add)
qed

lemma leb_round:
  fixes r :: "'a :: len word"
  assumes "8 \<le> LENGTH('a)" and "unat r < 2 ^ s" and "unat r + n * 2 ^ s < 2 ^ LENGTH('a)"
    and "unat b mod 128 = n mod 128"
  shows "unat (leb_acc r s b) = unat r + (n mod 128) * 2 ^ s"
    and "unat (leb_acc r s b) < 2 ^ (s + 7)"
    and "unat (leb_acc r s b) + (n div 128) * 2 ^ (s + 7) = unat r + n * 2 ^ s"
proof -
  have "(n mod 128) * 2 ^ s \<le> n * 2 ^ s" by simp
  with assms(3) have "unat r + (n mod 128) * 2 ^ s < 2 ^ LENGTH('a)" by linarith
  with assms show eq: "unat (leb_acc r s b) = unat r + (n mod 128) * 2 ^ s"
    by (simp add: unat_leb_acc)
  have "(n mod 128) * 2 ^ s \<le> 127 * 2 ^ s" by simp
  with assms(2) eq have "unat (leb_acc r s b) < 2 ^ s + 127 * 2 ^ s" by linarith
  then show "unat (leb_acc r s b) < 2 ^ (s + 7)" by (simp add: power_add)
  have "n * 2 ^ s = (n mod 128) * 2 ^ s + (n div 128) * (2 ^ s * 128)"
    (is "_ = ?r")
  proof -
    have "?r = (n mod 128 + n div 128 * 128) * 2 ^ s" by (simp only: distrib_right)
    then show ?thesis by simp
  qed
  with eq show "unat (leb_acc r s b) + (n div 128) * 2 ^ (s + 7) = unat r + n * 2 ^ s"
    by (simp add: power_add)
qed

section \<open>One round of an encoder\<close>

lemma unat_drop_bit_7: "unat (drop_bit 7 (v :: 'a :: len word)) = unat v div 128"
proof -
  have "unat (drop_bit 7 v) = drop_bit 7 (unat v)" by (rule unat_drop_bit_eq)
  then show ?thesis by (simp only: drop_bit_eq_div) simp
qed

lemma leb_low_byte:
  fixes v :: "'a :: len word"
  assumes "8 \<le> LENGTH('a)"
  shows "unat (ucast (v AND 127) :: u8) = unat v mod 128"
proof -
  have "unat v mod 128 < 2 ^ 8" using mod_less_divisor [of 128 "unat v"] by simp
  then have "take_bit 8 (unat v mod 128) = unat v mod 128" by (rule take_bit_nat_eq_self)
  moreover have "unat (ucast (v AND 127) :: u8) = take_bit LENGTH(8) (unat (v AND 127))"
    by (rule unsigned_ucast_eq)
  ultimately show ?thesis by (simp only: unat_and_127) simp
qed

lemma drop_bit_7_eq_0: "drop_bit 7 (v :: 'a :: len word) = 0 \<longleftrightarrow> unat v < 128"
  using unat_drop_bit_7 [of v] by (simp only: unat_eq_0 [symmetric]) auto

lemma leb_step_last:
  fixes v :: "'a :: len word"
  assumes "8 \<le> LENGTH('a)" and "unat v < 128"
  shows "[ucast (v AND 127)] = leb (unat v)"
proof -
  have "ucast (v AND 127) = (of_nat (unat v) :: u8)"
    using leb_low_byte [OF assms(1), of v] assms(2) by (simp only: word_unat_eq_iff unat_of_nat_byte) simp
  then show ?thesis using assms(2) by (simp only: leb_small)
qed

lemma leb_step_more:
  fixes v :: "'a :: len word"
  assumes "8 \<le> LENGTH('a)" and "\<not> unat v < 128"
  shows "((ucast (v AND 127) :: u8) OR 128) # leb (unat (drop_bit 7 v)) = leb (unat v)"
proof -
  have m: "unat v mod 128 < 128" by simp
  have "unat ((ucast (v AND 127) :: u8) OR 128) = unat v mod 128 + 128"
    using or_128 [of "ucast (v AND 127)"] leb_low_byte [OF assms(1), of v] m by (simp only:)
  also have "\<dots> = unat (of_nat (unat v mod 128 + 128) :: u8)"
    using m by (intro unat_of_nat_byte [symmetric]) linarith
  finally have "(ucast (v AND 127) :: u8) OR 128 = of_nat (unat v mod 128 + 128)"
    by (simp only: word_unat_eq_iff)
  then show ?thesis using assms(2) by (simp only: leb_large not_less unat_drop_bit_7)
qed

end
