(* ===== verification/ListPack.thy ===== *)
theory ListPack
  imports Interfaces Leb128
begin

text \<open>
  \<open>src/database/listpack/listpack_base.rs\<close>: a sequence of byte strings kept in one buffer,
  each preceded by its length as a varint, the whole closed by the byte \<open>0xFF\<close>, with free
  space on both sides. The theory follows the file function by function: the varint codec, the
  buffer management (\<open>grow_and_center\<close>, \<open>recenter\<close>), the deque operations, positional access
  and removal, and the scans (\<open>get\<close>, \<open>iter\<close>, \<open>find_element_pos\<close>,
  \<open>collect_element_positions\<close>), each of which is a loop of its own in the source.

  The layout invariant says that the slice \<open>head .. tail\<close> of the buffer is the encoding of a list of
  \<^emph>\<open>storable\<close> items. A value is storable when the first byte of its encoded length is not
  the terminator: the encoder writes \<open>0xFF\<close> first for the lengths 255, 383, 511, \<dots>, and
  such an item reads as the end of the list.
\<close>

unbundle bit_operations_syntax

section \<open>State\<close>

record listpack =
  lp_data :: bytes
  lp_head :: nat
  lp_tail :: nat
  num_entries :: nat

section \<open>The varint codec\<close>

function encode_varint :: "u64 \<Rightarrow> bytes" where
  "encode_varint value =
     (let byte = ucast (value AND 0x7F) :: u8; value' = drop_bit 7 value in
      if value' = 0 then [byte] else (byte OR 0x80) # encode_varint value')"
  by auto

termination encode_varint
proof (relation "measure unat")
  show "wf (measure (unat :: u64 \<Rightarrow> nat))" by simp
next
  fix v w :: u64 and b :: u8
  assume "b = ucast (v AND 0x7F)" and w: "w = drop_bit 7 v" and "w \<noteq> 0"
  then have "128 \<le> unat v" by (simp only: drop_bit_7_eq_0 not_less)
  then show "(w, v) \<in> measure unat" by (simp only: w unat_drop_bit_7 in_measure)
qed

declare encode_varint.simps [simp del]

fun decode_varint_loop :: "u64 \<Rightarrow> nat \<Rightarrow> nat \<Rightarrow> bytes \<Rightarrow> (u64 \<times> nat) option" where
  "decode_varint_loop result shift i [] = None"
| "decode_varint_loop result shift i (byte # rest) =
     (let result' = result OR push_bit shift (ucast (byte AND 0x7F)) in
      if byte AND 0x80 = 0 then Some (result', i + 1)
      else if shift + 7 > 64 then None
      else decode_varint_loop result' (shift + 7) (i + 1) rest)"

definition decode_varint :: "bytes \<Rightarrow> (u64 \<times> nat) option" where
  "decode_varint data = decode_varint_loop 0 0 0 data"

lemma decode_varint_loop_gt: "decode_varint_loop r s i bs = Some (v, c) \<Longrightarrow> i < c"
  by (induction r s i bs rule: decode_varint_loop.induct) (force simp: Let_def split: if_splits)+

lemma decode_varint_pos: "decode_varint bs = Some (v, c) \<Longrightarrow> 0 < c"
  unfolding decode_varint_def by (drule decode_varint_loop_gt)

section \<open>Buffer management\<close>

definition lp_new :: "listpack panics" where
  "lp_new = (let cap = 1024; head = cap div 2 in do {
     data \<leftarrow> upd (replicate cap 0) head 0xFF;
     Some \<lparr> lp_data = data, lp_head = head, lp_tail = head + 1, num_entries = 0 \<rparr> })"

definition grow_and_center :: "listpack \<Rightarrow> nat \<Rightarrow> listpack panics" where
  "grow_and_center s extra = do {
     used \<leftarrow> usub (lp_tail s) (lp_head s);
     let need = used + extra;
     let space_before = lp_head s;
     space_after \<leftarrow> usub (length (lp_data s)) (lp_tail s);
     if space_before \<ge> extra \<and> space_after \<ge> extra then Some s
     else do {
       let new_cap = max (max (length (lp_data s)) 1 * 3 div 2) (need * 2);
       room \<leftarrow> usub new_cap used;
       let new_head = room div 2;
       old \<leftarrow> slice (lp_data s) (lp_head s) (lp_tail s);
       new_data \<leftarrow> copy_from_slice (replicate new_cap 0) new_head (new_head + used) old;
       Some (s \<lparr> lp_head := new_head, lp_tail := new_head + used, lp_data := new_data \<rparr>)
     }
   }"

text \<open>\<open>for i in (0..used).rev() { data[new_head + i] = data[head + i] }\<close>\<close>
fun recenter_copy :: "nat \<Rightarrow> nat \<Rightarrow> nat \<Rightarrow> bytes \<Rightarrow> bytes panics" where
  "recenter_copy head new_head 0 data = Some data"
| "recenter_copy head new_head (Suc i) data = do {
     b \<leftarrow> idx data (head + i);
     data' \<leftarrow> upd data (new_head + i) b;
     recenter_copy head new_head i data'
   }"

definition recenter :: "listpack \<Rightarrow> listpack panics" where
  "recenter s = do {
     used \<leftarrow> usub (lp_tail s) (lp_head s);
     if used = 0 then do {
       let head = length (lp_data s) div 2;
       data \<leftarrow> upd (lp_data s) head 0xFF;
       Some (s \<lparr> lp_head := head, lp_tail := head + 1, lp_data := data \<rparr>)
     } else do {
       room \<leftarrow> usub (length (lp_data s)) used;
       let new_head = room div 2;
       if new_head = lp_head s then Some s
       else do {
         data \<leftarrow> (if new_head < lp_head s
                  then copy_within (lp_data s) (lp_head s) (lp_tail s) new_head
                  else recenter_copy (lp_head s) new_head used (lp_data s));
         Some (s \<lparr> lp_data := data, lp_head := new_head, lp_tail := new_head + used \<rparr>)
       }
     }
   }"

text \<open>The reset shared by \<open>clear\<close>, \<open>pop_front\<close> and \<open>pop_back\<close>.\<close>
definition lp_reset :: "listpack \<Rightarrow> listpack panics" where
  "lp_reset s = do {
     let head = length (lp_data s) div 2;
     data \<leftarrow> upd (lp_data s) head 0xFF;
     Some (s \<lparr> lp_head := head, lp_tail := head + 1, lp_data := data \<rparr>)
   }"

section \<open>Deque operations\<close>

definition lp_push_front :: "listpack \<Rightarrow> bytes \<Rightarrow> listpack panics" where
  "lp_push_front s value = do {
     let len_bytes = encode_varint (of_nat (length value));
     let extra = length len_bytes + length value;
     s \<leftarrow> grow_and_center s extra;
     h \<leftarrow> usub (lp_head s) extra;
     data \<leftarrow> copy_from_slice (lp_data s) h (h + length len_bytes) len_bytes;
     data \<leftarrow> copy_from_slice data (h + length len_bytes) (h + extra) value;
     Some (s \<lparr> lp_head := h, lp_data := data, num_entries := num_entries s + 1 \<rparr>)
   }"

definition lp_push_back :: "listpack \<Rightarrow> bytes \<Rightarrow> listpack panics" where
  "lp_push_back s value = do {
     let len_bytes = encode_varint (of_nat (length value));
     let extra = length len_bytes + length value;
     s \<leftarrow> grow_and_center s extra;
     term_pos \<leftarrow> usub (lp_tail s) 1;
     data \<leftarrow> copy_from_slice (lp_data s) term_pos (term_pos + length len_bytes) len_bytes;
     let vstart = term_pos + length len_bytes;
     data \<leftarrow> copy_from_slice data vstart (vstart + length value) value;
     let new_term = vstart + length value;
     data \<leftarrow> upd data new_term 0xFF;
     Some (s \<lparr> lp_data := data, lp_tail := new_term + 1, num_entries := num_entries s + 1 \<rparr>)
   }"

definition lp_pop_front :: "listpack \<Rightarrow> (bytes option \<times> listpack) panics" where
  "lp_pop_front s =
     (if num_entries s = 0 then Some (None, s)
      else do {
        rest \<leftarrow> slice_from (lp_data s) (lp_head s);
        case decode_varint rest of
          None \<Rightarrow> Some (None, s)
        | Some (len, consumed) \<Rightarrow> do {
            let start = lp_head s + consumed;
            element \<leftarrow> slice (lp_data s) start (start + unat len);
            let s = s \<lparr> lp_head := start + unat len, num_entries := num_entries s - 1 \<rparr>;
            if num_entries s = 0 then do { s \<leftarrow> lp_reset s; Some (Some element, s) }
            else if lp_head s > length (lp_data s) div 2
            then do { s \<leftarrow> recenter s; Some (Some element, s) }
            else Some (Some element, s)
          }
      })"

text \<open>
  The scan of \<open>pop_back\<close>: the outer option is a panic, the inner one the early return of
  \<open>?\<close>; the triple is \<open>(last_start, last_len, last_consumed)\<close>.
\<close>
function pop_back_scan ::
  "bytes \<Rightarrow> nat \<Rightarrow> nat \<Rightarrow> nat \<times> nat \<times> nat \<Rightarrow> (nat \<times> nat \<times> nat) option panics" where
  "pop_back_scan data tail pos seen =
     (if \<not> pos < tail then Some (Some seen)
      else case idx data pos of None \<Rightarrow> None
      | Some b \<Rightarrow>
          if b = 0xFF then Some (Some seen)
          else case decode_varint (drop pos data) of
            None \<Rightarrow> Some None
          | Some (len, consumed) \<Rightarrow>
              pop_back_scan data tail (pos + consumed + unat len) (pos, unat len, consumed))"
  by pat_completeness auto

termination pop_back_scan
  by (relation "measure (\<lambda>(data, tail, pos, seen). tail - pos)") (auto dest!: decode_varint_pos)

definition lp_pop_back :: "listpack \<Rightarrow> (bytes option \<times> listpack) panics" where
  "lp_pop_back s =
     (if num_entries s = 0 then Some (None, s)
      else do {
        found \<leftarrow> pop_back_scan (lp_data s) (lp_tail s) (lp_head s) (lp_head s, 0, 0);
        case found of
          None \<Rightarrow> Some (None, s)
        | Some (last_start, last_len, last_consumed) \<Rightarrow> do {
            let data_start = last_start + last_consumed;
            element \<leftarrow> slice (lp_data s) data_start (data_start + last_len);
            let s = s \<lparr> lp_tail := last_start, num_entries := num_entries s - 1 \<rparr>;
            if num_entries s = 0 then do { s \<leftarrow> lp_reset s; Some (Some element, s) }
            else do {
              data \<leftarrow> upd (lp_data s) (lp_tail s) 0xFF;
              let s = s \<lparr> lp_data := data, lp_tail := lp_tail s + 1 \<rparr>;
              if lp_tail s > length (lp_data s) * 3 div 4
              then do { s \<leftarrow> recenter s; Some (Some element, s) }
              else Some (Some element, s)
            }
          }
      })"

definition lp_clear :: "listpack \<Rightarrow> listpack panics" where
  "lp_clear s = do { s \<leftarrow> lp_reset s; Some (s \<lparr> num_entries := 0 \<rparr>) }"

definition lp_len :: "listpack \<Rightarrow> nat" where
  "lp_len s = num_entries s"

definition lp_is_empty :: "listpack \<Rightarrow> bool" where
  "lp_is_empty s \<longleftrightarrow> num_entries s = 0"

definition lp_capacity :: "listpack \<Rightarrow> nat" where
  "lp_capacity s = length (lp_data s)"

definition used_bytes :: "listpack \<Rightarrow> nat panics" where
  "used_bytes s = usub (lp_tail s) (lp_head s)"

definition free_bytes :: "listpack \<Rightarrow> nat panics" where
  "free_bytes s = do { used \<leftarrow> used_bytes s; usub (lp_len s) used }"

section \<open>Changing the length\<close>

text \<open>
  \<open>while self.num_entries > len { self.pop_back(); }\<close>. A \<open>pop_back\<close> that fails to decode leaves
  the list as it is and the loop would not end; the fuel is the number of entries to remove.
\<close>
fun truncate_loop :: "nat \<Rightarrow> nat \<Rightarrow> listpack \<Rightarrow> listpack panics" where
  "truncate_loop fuel len s =
     (if num_entries s > len
      then case fuel of 0 \<Rightarrow> None
           | Suc fuel' \<Rightarrow> do { (_, s') \<leftarrow> lp_pop_back s; truncate_loop fuel' len s' }
      else Some s)"

definition lp_truncate :: "listpack \<Rightarrow> nat \<Rightarrow> listpack panics" where
  "lp_truncate s len =
     (if len \<ge> num_entries s then Some s else truncate_loop (num_entries s - len) len s)"

fun resize_push :: "nat \<Rightarrow> bytes \<Rightarrow> listpack \<Rightarrow> listpack panics" where
  "resize_push 0 fill s = Some s"
| "resize_push (Suc n) fill s = do { s' \<leftarrow> lp_push_back s fill; resize_push n fill s' }"

definition lp_resize :: "listpack \<Rightarrow> nat \<Rightarrow> bytes \<Rightarrow> listpack panics" where
  "lp_resize s new_len fill =
     (if new_len > num_entries s then resize_push (new_len - num_entries s) fill s
      else if new_len < num_entries s then lp_truncate s new_len
      else Some s)"

section \<open>Access by position\<close>

function get_loop :: "bytes \<Rightarrow> nat \<Rightarrow> nat \<Rightarrow> nat \<Rightarrow> nat \<Rightarrow> bytes option panics" where
  "get_loop data tail index i cur =
     (if \<not> i < tail then Some None
      else case idx data i of None \<Rightarrow> None
      | Some b \<Rightarrow>
          if b = 0xFF then Some None
          else case decode_varint (drop i data) of
            None \<Rightarrow> Some None
          | Some (len, consumed) \<Rightarrow>
              if cur = index
              then map_option Some (slice data (i + consumed) (i + consumed + unat len))
              else get_loop data tail index (i + consumed + unat len) (cur + 1))"
  by pat_completeness auto

termination get_loop
  by (relation "measure (\<lambda>(data, tail, index, i, cur). tail - i)") (auto dest!: decode_varint_pos)

definition lp_get :: "listpack \<Rightarrow> nat \<Rightarrow> bytes option panics" where
  "lp_get s index =
     (if index \<ge> num_entries s then Some None
      else get_loop (lp_data s) (lp_tail s) index (lp_head s) 0)"

text \<open>\<open>iter\<close>: the closure given to \<open>from_fn\<close> owns the position.\<close>

record lp_iter =
  it_data :: bytes
  it_pos :: nat
  it_end :: nat

definition lp_iter_of :: "listpack \<Rightarrow> lp_iter" where
  "lp_iter_of s = \<lparr> it_data = lp_data s, it_pos = lp_head s, it_end = lp_tail s \<rparr>"

definition lp_iter_next :: "lp_iter \<Rightarrow> (bytes option \<times> lp_iter) panics" where
  "lp_iter_next it =
     (if it_pos it \<ge> it_end it then Some (None, it)
      else do {
        b \<leftarrow> idx (it_data it) (it_pos it);
        if b = 0xFF then Some (None, it)
        else case decode_varint (drop (it_pos it) (it_data it)) of
          None \<Rightarrow> Some (None, it)
        | Some (len, consumed) \<Rightarrow> do {
            let start = it_pos it + consumed;
            item \<leftarrow> slice (it_data it) start (start + unat len);
            Some (Some item, it \<lparr> it_pos := start + unat len \<rparr>)
          }
      })"

function collect_positions_loop :: "bytes \<Rightarrow> nat \<Rightarrow> nat \<Rightarrow> (nat \<times> nat) list panics" where
  "collect_positions_loop data tail pos =
     (if \<not> pos < tail then Some []
      else case idx data pos of None \<Rightarrow> None
      | Some b \<Rightarrow>
          if b = 0xFF then Some []
          else case decode_varint (drop pos data) of
            None \<Rightarrow> Some []
          | Some (len, consumed) \<Rightarrow>
              map_option (\<lambda>ps. (pos + consumed, unat len) # ps)
                (collect_positions_loop data tail (pos + consumed + unat len)))"
  by pat_completeness auto

termination collect_positions_loop
  by (relation "measure (\<lambda>(data, tail, pos). tail - pos)") (auto dest!: decode_varint_pos)

definition collect_element_positions :: "listpack \<Rightarrow> (nat \<times> nat) list panics" where
  "collect_element_positions s = collect_positions_loop (lp_data s) (lp_tail s) (lp_head s)"

text \<open>
  \<open>iter_rev\<close>; \<open>from_raw_parts\<close> outside the buffer is undefined behaviour, here \<open>None\<close>.
\<close>
fun raw_slices :: "bytes \<Rightarrow> (nat \<times> nat) list \<Rightarrow> bytes list panics" where
  "raw_slices data [] = Some []"
| "raw_slices data ((start, len) # ps) = do {
     x \<leftarrow> slice data start (start + len);
     xs \<leftarrow> raw_slices data ps;
     Some (x # xs)
   }"

definition lp_iter_rev :: "listpack \<Rightarrow> bytes list panics" where
  "lp_iter_rev s = do {
     positions \<leftarrow> collect_element_positions s;
     raw_slices (lp_data s) (rev positions)
   }"

function find_pos_loop :: "bytes \<Rightarrow> nat \<Rightarrow> nat \<Rightarrow> nat \<Rightarrow> nat \<Rightarrow> (nat \<times> nat \<times> nat) option panics" where
  "find_pos_loop data tail index pos cur =
     (if \<not> pos < tail then Some None
      else case idx data pos of None \<Rightarrow> None
      | Some b \<Rightarrow>
          if b = 0xFF then Some None
          else case decode_varint (drop pos data) of
            None \<Rightarrow> Some None
          | Some (len, consumed) \<Rightarrow>
              if cur = index then Some (Some (pos, unat len, consumed))
              else find_pos_loop data tail index (pos + (consumed + unat len)) (cur + 1))"
  by pat_completeness auto

termination find_pos_loop
  by (relation "measure (\<lambda>(data, tail, index, pos, cur). tail - pos)") (auto dest!: decode_varint_pos)

definition find_element_pos :: "listpack \<Rightarrow> nat \<Rightarrow> (nat \<times> nat \<times> nat) option panics" where
  "find_element_pos s index =
     (if index \<ge> num_entries s then Some None
      else find_pos_loop (lp_data s) (lp_tail s) index (lp_head s) 0)"

definition lp_remove :: "listpack \<Rightarrow> nat \<Rightarrow> (bool \<times> listpack) panics" where
  "lp_remove s index =
     (if index \<ge> num_entries s then Some (False, s)
      else if index = 0 then do { (_, s') \<leftarrow> lp_pop_front s; Some (True, s') }
      else do {
        found \<leftarrow> find_element_pos s index;
        case found of
          None \<Rightarrow> Some (False, s)
        | Some (elem_start, elem_len, consumed) \<Rightarrow>
            let elem_end = elem_start + consumed + elem_len in
            if index = num_entries s - 1 then do {
              data \<leftarrow> upd (lp_data s) elem_start 0xFF;
              Some (True, s \<lparr> lp_data := data, lp_tail := elem_start + 1, num_entries := num_entries s - 1 \<rparr>)
            } else do {
              left_bytes \<leftarrow> usub elem_start (lp_head s);
              right_bytes \<leftarrow> usub (lp_tail s) elem_end;
              if left_bytes < right_bytes then do {
                data \<leftarrow> copy_within (lp_data s) (lp_head s) elem_start elem_end;
                Some (True, s \<lparr> lp_data := data, lp_head := lp_head s + (elem_end - elem_start),
                               num_entries := num_entries s - 1 \<rparr>)
              } else do {
                data \<leftarrow> copy_within (lp_data s) elem_end (lp_tail s) elem_start;
                Some (True, s \<lparr> lp_data := data, lp_tail := lp_tail s - (elem_end - elem_start),
                               num_entries := num_entries s - 1 \<rparr>)
              }
            }
      })"

declare pop_back_scan.simps [simp del] get_loop.simps [simp del] collect_positions_loop.simps [simp del]
  find_pos_loop.simps [simp del]

section \<open>The codec is the reference encoding\<close>

lemma len64: "8 \<le> LENGTH(64)"
  by simp

lemma encode_varint_leb: "encode_varint v = leb (unat v)"
proof (induction v rule: encode_varint.induct)
  case (1 v)
  show ?case
  proof (cases "unat v < 128")
    case True
    then show ?thesis
      by (subst encode_varint.simps) (simp only: Let_def drop_bit_7_eq_0 if_True leb_step_last [of v] len64)
  next
    case False
    then have nz: "drop_bit 7 v \<noteq> 0" by (simp only: drop_bit_7_eq_0 not_False_eq_True)
    show ?thesis
      by (subst encode_varint.simps)
        (simp only: Let_def nz if_False 1 [OF refl refl nz] leb_step_more [OF len64 False])
  qed
qed

lemma decode_varint_loop_leb:
  assumes "unat r < 2 ^ s" and "unat r + n * 2 ^ s < 2 ^ 64"
  shows "decode_varint_loop r s i (leb n @ rest) = Some (of_nat (unat r + n * 2 ^ s), i + length (leb n))"
  using assms
proof (induction n arbitrary: r s i rule: leb.induct)
  case (1 n)
  have acc: "r OR push_bit s (ucast (b AND 0x7F)) = leb_acc r s b" for b
    by (simp add: leb_acc_def)
  have r: "of_nat (unat w) = w" for w :: u64 by simp
  show ?case
  proof (cases "n < 128")
    case True
    note b = leb_byte_last [OF True]
    have "unat (leb_acc r s (of_nat n)) = unat r + n * 2 ^ s"
      using leb_round(1) [of r s n "of_nat n"] 1(2,3) b True by simp
    then have "leb_acc r s (of_nat n) = of_nat (unat r + n * 2 ^ s)" by (metis r)
    with True b show ?thesis by (simp add: leb_small acc)
  next
    case False
    let ?b = "of_nat (n mod 128 + 128) :: u8" and ?r = "leb_acc r s (of_nat (n mod 128 + 128))"
    have b: "unat ?b mod 128 = n mod 128" "?b AND 0x80 \<noteq> 0" using leb_byte_more [of n] by auto
    have l: "8 \<le> LENGTH(64)" "unat r + n * 2 ^ s < 2 ^ LENGTH(64)" using 1(3) by simp_all
    note rnd = leb_round [OF l(1) 1(2) l(2) b(1)]
    have "n div 128 \<noteq> 0" using False by simp
    then have "(2 :: nat) ^ (s + 7) \<le> (n div 128) * 2 ^ (s + 7)" by simp
    also have "\<dots> < 2 ^ 64" using rnd(3) 1(3) by linarith
    finally have s: "s + 7 < 64" by (simp only: power_strict_increasing_iff)
    have "decode_varint_loop ?r (s + 7) (i + 1) (leb (n div 128) @ rest) =
        Some (of_nat (unat ?r + (n div 128) * 2 ^ (s + 7)), i + 1 + length (leb (n div 128)))"
      by (rule 1(1) [OF False rnd(2)]) (use rnd(3) 1(3) in \<open>simp only:\<close>)
    with False b s show ?thesis by (simp add: leb_large acc Let_def rnd(3) del: of_nat_add)
  qed
qed

lemma decode_varint_leb:
  "n < 2 ^ 64 \<Longrightarrow> decode_varint (leb n @ rest) = Some (of_nat n, length (leb n))"
  using decode_varint_loop_leb [of 0 0 n 0 rest] by (simp add: decode_varint_def)

lemma encode_length: "n < 2 ^ 64 \<Longrightarrow> encode_varint (of_nat n) = leb n"
  by (simp add: encode_varint_leb unat_of_nat)

section \<open>Layout of the buffer\<close>

definition entry :: "bytes \<Rightarrow> bytes" where
  "entry x = leb (length x) @ x"

definition lp_bytes :: "bytes list \<Rightarrow> bytes" where
  "lp_bytes xs = concat (map entry xs) @ [0xFF]"

definition storable :: "bytes \<Rightarrow> bool" where
  "storable x \<longleftrightarrow> length x < 2 ^ 64 \<and> \<not> (128 \<le> length x \<and> length x mod 128 = 127)"

definition lp_at :: "bytes \<Rightarrow> nat \<Rightarrow> nat \<Rightarrow> bytes list \<Rightarrow> bool" where
  "lp_at data pos tail xs \<longleftrightarrow> slice data pos tail = Some (lp_bytes xs) \<and> (\<forall>x\<in>set xs. storable x)"

lemma entry_hd: "storable x \<Longrightarrow> hd (leb (length x)) \<noteq> 0xFF"
proof
  assume s: "storable x" and "hd (leb (length x)) = 0xFF"
  then have "unat (hd (leb (length x))) = 255" by simp
  with s show False by (auto simp: leb_hd storable_def split: if_splits)
qed

lemma length_entry [simp]: "length (entry x) = length (leb (length x)) + length x"
  by (simp add: entry_def)

lemma lp_bytes_simps [simp]:
  "lp_bytes [] = [0xFF]" "lp_bytes (x # xs) = leb (length x) @ x @ lp_bytes xs"
  by (simp_all add: lp_bytes_def entry_def)

lemma lp_bytes_append: "lp_bytes (xs @ ys) = concat (map entry xs) @ lp_bytes ys"
  by (simp add: lp_bytes_def)

lemma lp_bytes_not_Nil [simp]: "lp_bytes xs \<noteq> []"
  by (simp add: lp_bytes_def)

lemma lp_at_I:
  "data = us @ lp_bytes xs @ vs \<Longrightarrow> pos = length us \<Longrightarrow> tail = length us + length (lp_bytes xs) \<Longrightarrow>
   \<forall>x\<in>set xs. storable x \<Longrightarrow> lp_at data pos tail xs"
  by (auto simp: lp_at_def slice_Some_iff)

lemma lp_at_E:
  assumes "lp_at data pos tail xs"
  obtains us vs where "data = us @ lp_bytes xs @ vs" "pos = length us"
    "tail = length us + length (lp_bytes xs)" "\<forall>x\<in>set xs. storable x"
  using assms by (auto simp: lp_at_def slice_Some_iff)

lemma lp_at_bounds: "lp_at data pos tail xs \<Longrightarrow> pos < tail \<and> tail \<le> length data \<and> tail - pos = length (lp_bytes xs)"
  by (erule lp_at_E) simp

lemma lp_at_Nil: "lp_at data pos tail [] \<Longrightarrow> pos < tail \<and> idx data pos = Some 0xFF"
  by (erule lp_at_E) (simp add: nth_append)

text \<open>What every scan sees at an element: not the terminator, a decodable length, the item.\<close>

lemma lp_at_Cons:
  assumes "lp_at data pos tail (x # xs)"
  shows "pos < tail" and "\<exists>b. idx data pos = Some b \<and> b \<noteq> 0xFF"
    and "decode_varint (drop pos data) = Some (of_nat (length x), length (leb (length x)))"
    and "unat (of_nat (length x) :: u64) = length x"
    and "slice data (pos + length (leb (length x))) (pos + length (leb (length x)) + length x) = Some x"
    and "lp_at data (pos + length (leb (length x)) + length x) tail xs"
proof -
  from assms obtain us vs where d: "data = us @ leb (length x) @ x @ lp_bytes xs @ vs" "pos = length us"
    "tail = length us + length (lp_bytes (x # xs))" "\<forall>y\<in>set (x # xs). storable y"
    by (auto elim: lp_at_E)
  from d show "pos < tail" by simp
  have "leb (length x) = hd (leb (length x)) # tl (leb (length x))" by simp
  then have "idx data pos = Some (hd (leb (length x)))"
    using d by (simp add: nth_append hd_conv_nth)
  with d(4) entry_hd show "\<exists>b. idx data pos = Some b \<and> b \<noteq> 0xFF" by simp
  from d(4) have len: "length x < 2 ^ 64" by (simp add: storable_def)
  show "decode_varint (drop pos data) = Some (of_nat (length x), length (leb (length x)))"
    using d decode_varint_leb [OF len] by simp
  show "unat (of_nat (length x) :: u64) = length x" using len by (simp add: unat_of_nat)
  show "slice data (pos + length (leb (length x))) (pos + length (leb (length x)) + length x) = Some x"
    using d slice_mid [of "us @ leb (length x)" x "lp_bytes xs @ vs"] by simp
  show "lp_at data (pos + length (leb (length x)) + length x) tail xs"
    by (rule lp_at_I [of _ "us @ leb (length x) @ x" _ vs]) (use d in simp_all)
qed

lemma lp_at_drop:
  "lp_at data pos tail (xs @ ys) \<Longrightarrow> lp_at data (pos + length (concat (map entry xs))) tail ys"
proof (induction xs arbitrary: pos)
  case (Cons x xs)
  then show ?case using lp_at_Cons(6) [of data pos tail x "xs @ ys"] by (fastforce simp: add.assoc)
qed simp

lemma pop_back_scan_at:
  "lp_at data pos tail xs \<Longrightarrow>
   pop_back_scan data tail pos seen =
     Some (Some (if xs = [] then seen
       else (pos + length (concat (map entry (butlast xs))), length (last xs), length (leb (length (last xs))))))"
proof (induction xs arbitrary: pos seen)
  case Nil
  then show ?case using lp_at_Nil [OF Nil] by (subst pop_back_scan.simps) simp
next
  case (Cons x xs)
  note c = lp_at_Cons [OF Cons.prems]
  from c Cons.IH [OF c(6)] show ?case
    by (subst pop_back_scan.simps) auto
qed

lemma get_loop_at:
  "lp_at data pos tail xs \<Longrightarrow> cur \<le> index \<Longrightarrow>
   get_loop data tail index pos cur = Some (nth_opt xs (index - cur))"
proof (induction xs arbitrary: pos cur)
  case Nil
  then show ?case using lp_at_Nil [OF Nil(1)] by (subst get_loop.simps) (simp add: nth_opt_def)
next
  case (Cons x xs)
  note c = lp_at_Cons [OF Cons.prems(1)]
  from c Cons.IH [OF c(6), of "cur + 1"] Cons.prems(2) show ?case
    by (subst get_loop.simps) (auto simp: nth_opt_def nth_Cons')
qed

lemma find_pos_loop_at:
  "lp_at data pos tail xs \<Longrightarrow> cur \<le> index \<Longrightarrow> index - cur < length xs \<Longrightarrow>
   find_pos_loop data tail index pos cur =
     Some (Some (pos + length (concat (map entry (take (index - cur) xs))),
       length (xs ! (index - cur)), length (leb (length (xs ! (index - cur))))))"
proof (induction xs arbitrary: pos cur)
  case (Cons x xs)
  note c = lp_at_Cons [OF Cons.prems(1)]
  show ?case
  proof (cases "cur = index")
    case True
    with c show ?thesis by (subst find_pos_loop.simps) auto
  next
    case False
    then have i: "index - cur = Suc (index - (cur + 1))" using Cons.prems(2) by simp
    from False c Cons.IH [OF c(6), of "cur + 1"] Cons.prems(2,3) i show ?thesis
      by (subst find_pos_loop.simps) (auto simp: add.assoc)
  qed
qed simp

lemma raw_slices_iff:
  "raw_slices data ps = Some xs \<longleftrightarrow> list_all2 (\<lambda>(start, len) x. slice data start (start + len) = Some x) ps xs"
proof (induction ps arbitrary: xs)
  case (Cons p ps)
  obtain start len where "p = (start, len)" by (cases p)
  with Cons show ?case by (cases xs) (auto simp: bind_Some_iff)
qed auto

lemma collect_positions_at:
  "lp_at data pos tail xs \<Longrightarrow>
   \<exists>ps. collect_positions_loop data tail pos = Some ps \<and> raw_slices data ps = Some xs"
proof (induction xs arbitrary: pos)
  case Nil
  then show ?case using lp_at_Nil [OF Nil] by (subst collect_positions_loop.simps) simp
next
  case (Cons x xs)
  note c = lp_at_Cons [OF Cons.prems]
  from c Cons.IH [OF c(6)] show ?case
    by (subst collect_positions_loop.simps) auto
qed

lemma lp_iter_next_at:
  assumes "lp_at (it_data it) (it_pos it) (it_end it) xs"
  shows "case xs of [] \<Rightarrow> lp_iter_next it = Some (None, it)
    | x # ys \<Rightarrow> \<exists>it'. lp_iter_next it = Some (Some x, it') \<and> it_data it' = it_data it \<and> it_end it' = it_end it \<and>
        lp_at (it_data it') (it_pos it') (it_end it') ys"
proof (cases xs)
  case Nil
  with assms lp_at_Nil [of "it_data it" "it_pos it" "it_end it"] show ?thesis
    by (simp add: lp_iter_next_def)
next
  case (Cons x ys)
  with lp_at_Cons [of "it_data it" "it_pos it" "it_end it" x ys] assms show ?thesis
    by (auto simp: lp_iter_next_def)
qed

section \<open>Moving the live bytes\<close>

text \<open>Each of these steps keeps the live slice; \<open>bs\<close> stands for its bytes.\<close>

definition lp_live :: "listpack \<Rightarrow> bytes \<Rightarrow> bool" where
  "lp_live s bs \<longleftrightarrow> slice (lp_data s) (lp_head s) (lp_tail s) = Some bs \<and> bs \<noteq> []"

lemma lp_live_E:
  assumes "lp_live s bs"
  obtains us vs where "lp_data s = us @ bs @ vs" "lp_head s = length us"
    "lp_tail s = length us + length bs" "bs \<noteq> []"
  using assms by (auto simp: lp_live_def slice_Some_iff)

lemma grow_and_center_spec:
  assumes "lp_live s bs"
  shows "\<exists>s'. grow_and_center s extra = Some s' \<and> lp_live s' bs \<and> num_entries s' = num_entries s \<and>
    extra \<le> lp_head s' \<and> lp_tail s' + extra \<le> length (lp_data s')"
proof -
  from assms obtain us vs where d: "lp_data s = us @ bs @ vs" "lp_head s = length us"
    "lp_tail s = length us + length bs" "bs \<noteq> []" by (rule lp_live_E)
  show ?thesis
  proof (cases "length us \<ge> extra \<and> length vs \<ge> extra")
    case True
    with d assms show ?thesis by (auto simp: grow_and_center_def)
  next
    case False
    define cap where "cap = max (max (length (lp_data s)) 1 * 3 div 2) ((length bs + extra) * 2)"
    have cap: "2 * (length bs + extra) \<le> cap" by (simp add: cap_def)
    have cap_eq: "max (max (length us + (length bs + length vs)) (Suc 0) * 3 div 2) (length bs * 2 + extra * 2) = cap"
      by (simp add: cap_def d(1))
    define h where "h = (cap - length bs) div 2"
    have h: "extra \<le> h" "h + length bs + extra \<le> cap" using cap by (auto simp: h_def)
    have copy: "copy_from_slice (replicate cap 0) h (h + length bs) bs =
        Some (replicate h 0 @ bs @ replicate (cap - (h + length bs)) 0)"
      using h by (simp add: copy_from_slice_def)
    have eq: "grow_and_center s extra = Some (s \<lparr> lp_head := h, lp_tail := h + length bs,
        lp_data := replicate h 0 @ bs @ replicate (cap - (h + length bs)) 0 \<rparr>)"
      using False d cap copy assms
      by (auto simp: grow_and_center_def lp_live_def cap_eq Let_def h_def [symmetric])
    show ?thesis
      unfolding eq using h slice_mid [of "replicate h 0" bs] d(4) by (auto simp: lp_live_def)
  qed
qed

lemma recenter_copy_spec:
  "head \<le> new_head \<Longrightarrow> new_head + n \<le> length data \<Longrightarrow>
   \<exists>data'. recenter_copy head new_head n data = Some data' \<and> length data' = length data \<and>
     (\<forall>j<n. data' ! (new_head + j) = data ! (head + j)) \<and> (\<forall>k\<ge>new_head + n. data' ! k = data ! k)"
proof (induction n arbitrary: data)
  case (Suc n)
  let ?data = "data[new_head + n := data ! (head + n)]"
  from Suc.IH [of ?data] Suc.prems obtain data' where
    d: "recenter_copy head new_head n ?data = Some data'" "length data' = length data"
      "\<forall>j<n. data' ! (new_head + j) = ?data ! (head + j)" "\<forall>k\<ge>new_head + n. data' ! k = ?data ! k"
    by auto
  have "data' ! (new_head + j) = data ! (head + j)" if "j < Suc n" for j
    using that d(3,4) Suc.prems by (cases "j = n") auto
  moreover have "data' ! k = data ! k" if "new_head + Suc n \<le> k" for k
    using that d(4) by auto
  ultimately show ?case using d(1,2) Suc.prems by auto
qed simp

lemma recenter_spec:
  assumes "lp_live s bs"
  shows "\<exists>s'. recenter s = Some s' \<and> lp_live s' bs \<and> num_entries s' = num_entries s"
proof -
  from assms obtain us vs where d: "lp_data s = us @ bs @ vs" "lp_head s = length us"
    "lp_tail s = length us + length bs" "bs \<noteq> []" by (rule lp_live_E)
  define h where "h = (length us + length vs) div 2"
  have h: "h + length bs \<le> length (lp_data s)" by (simp add: h_def d(1))
  consider "h = length us" | "h < length us" | "length us < h" by linarith
  then show ?thesis
  proof cases
    case 1
    with assms d show ?thesis by (auto simp: recenter_def h_def [symmetric])
  next
    case 2
    have "slice (take h (lp_data s) @ bs @ drop (h + length bs) (lp_data s)) h (h + length bs) = Some bs"
      using h by (auto simp: slice_Some_iff)
    with 2 d h show ?thesis
      by (auto simp: recenter_def h_def [symmetric] copy_within_def lp_live_def)
  next
    case 3
    with recenter_copy_spec [of "length us" h "length bs" "lp_data s"] h obtain data' where
      c: "recenter_copy (length us) h (length bs) (lp_data s) = Some data'" "length data' = length (lp_data s)"
        "\<forall>j<length bs. data' ! (h + j) = lp_data s ! (length us + j)" by auto
    have "take (length bs) (drop h data') = bs"
      by (rule nth_equalityI) (use c h in \<open>auto simp: d(1) nth_append\<close>)
    with c h have "slice data' h (h + length bs) = Some bs" by (simp add: slice_def)
    with 3 d c(1) show ?thesis
      by (auto simp: recenter_def h_def [symmetric] lp_live_def)
  qed
qed

section \<open>Contents and invariant\<close>

text \<open>The contents are what the code's own scan finds; the invariant says that the scan is exact.\<close>

definition lp_scan :: "bytes \<Rightarrow> nat \<Rightarrow> nat \<Rightarrow> bytes list" where
  "lp_scan data tail pos = (case collect_positions_loop data tail pos of None \<Rightarrow> []
     | Some ps \<Rightarrow> (case raw_slices data ps of None \<Rightarrow> [] | Some xs \<Rightarrow> xs))"

definition lp_items :: "listpack \<Rightarrow> bytes list" where
  "lp_items s = lp_scan (lp_data s) (lp_tail s) (lp_head s)"

definition lp_inv :: "listpack \<Rightarrow> bool" where
  "lp_inv s \<longleftrightarrow> lp_at (lp_data s) (lp_head s) (lp_tail s) (lp_items s) \<and> num_entries s = length (lp_items s)"

lemma lp_scan_at: "lp_at data pos tail xs \<Longrightarrow> lp_scan data tail pos = xs"
  using collect_positions_at [of data pos tail xs] by (auto simp: lp_scan_def)

definition lp_holds :: "listpack \<Rightarrow> bytes list \<Rightarrow> bool" where
  "lp_holds s xs \<longleftrightarrow> lp_live s (lp_bytes xs) \<and> (\<forall>x\<in>set xs. storable x) \<and> num_entries s = length xs"

lemma lp_holds_at: "lp_holds s xs \<longleftrightarrow> lp_at (lp_data s) (lp_head s) (lp_tail s) xs \<and> num_entries s = length xs"
  by (auto simp: lp_holds_def lp_live_def lp_at_def)

lemma lp_holds_iff: "lp_holds s xs \<longleftrightarrow> lp_inv s \<and> lp_items s = xs"
  by (auto simp: lp_holds_at lp_inv_def lp_items_def lp_scan_at)

lemma lp_reset_spec:
  assumes "0 < length (lp_data s)"
  shows "\<exists>s'. lp_reset s = Some s' \<and> lp_live s' (lp_bytes []) \<and> num_entries s' = num_entries s"
proof -
  let ?h = "length (lp_data s) div 2"
  have h: "?h < length (lp_data s)" using assms by simp
  then have "slice ((lp_data s)[?h := 0xFF]) ?h (?h + 1) = Some [0xFF]"
    by (simp add: slice_def take_Suc hd_drop_conv_nth)
  with h show ?thesis by (auto simp: lp_reset_def lp_live_def Let_def)
qed

lemma lp_new_spec: "\<exists>s. lp_new = Some s \<and> lp_holds s []"
proof -
  let ?data = "(replicate 1024 0 :: bytes)[512 := 0xFF]"
  have "slice ?data 512 513 = Some (take 1 (drop 512 ?data))" by (simp add: slice_def)
  also have "take 1 (drop 512 ?data) = [0xFF]" by (simp add: take_Suc hd_drop_conv_nth)
  finally show ?thesis by (simp add: lp_new_def lp_holds_def lp_live_def Let_def)
qed

lemma lp_push_front_spec:
  assumes "lp_holds s xs" and "storable x"
  shows "\<exists>s'. lp_push_front s x = Some s' \<and> lp_holds s' (x # xs)"
proof -
  let ?e = "leb (length x)" and ?extra = "length (leb (length x)) + length x"
  from grow_and_center_spec [of s "lp_bytes xs" ?extra] assms obtain s1 where
    g: "grow_and_center s ?extra = Some s1" "lp_live s1 (lp_bytes xs)" "num_entries s1 = length xs"
      "?extra \<le> lp_head s1" by (auto simp: lp_holds_def)
  from g(2) obtain us vs where d: "lp_data s1 = us @ lp_bytes xs @ vs" "lp_head s1 = length us"
    "lp_tail s1 = length us + length (lp_bytes xs)" by (rule lp_live_E)
  define h where "h = length us - ?extra"
  obtain u1 u2 u3 where us: "us = u1 @ u2 @ u3" "length u1 = h" "length u2 = length ?e" "length u3 = length x"
  proof
    show "us = take h us @ take (length ?e) (drop h us) @ drop (h + length ?e) us"
      by (metis append_take_drop_id drop_drop add.commute)
  qed (use g(4) d(2) in \<open>auto simp: h_def\<close>)
  have e: "encode_varint (of_nat (length x)) = ?e"
    using assms(2) by (simp add: encode_length storable_def)
  have c1: "copy_from_slice (lp_data s1) h (h + length ?e) ?e = Some (u1 @ ?e @ u3 @ lp_bytes xs @ vs)"
    using copy_from_slice_mid [of u2 ?e u1 "u3 @ lp_bytes xs @ vs"] us d(1) by simp
  have c2: "copy_from_slice (u1 @ ?e @ u3 @ lp_bytes xs @ vs) (h + length ?e) (h + ?extra) x =
      Some (u1 @ ?e @ x @ lp_bytes xs @ vs)"
    using copy_from_slice_mid [of u3 x "u1 @ ?e" "lp_bytes xs @ vs"] us by (simp add: add.assoc)
  have "slice (u1 @ ?e @ x @ lp_bytes xs @ vs) h (lp_tail s1) = Some (lp_bytes (x # xs))"
    unfolding slice_Some_iff
    by (rule exI [of _ u1], rule exI [of _ vs]) (use us d in simp)
  with e g c1 c2 d(2) assms show ?thesis
    by (simp add: lp_push_front_def lp_holds_def lp_live_def h_def [symmetric] Let_def)
qed

lemma split_window:
  assumes "a + b < length v"
  shows "v = take a v @ take b (drop a v) @ v ! (a + b) # drop (Suc (a + b)) v"
proof -
  have "v ! (a + b) # drop (Suc (a + b)) v = drop b (drop a v)"
    using assms by (simp add: Cons_nth_drop_Suc add.commute)
  then show ?thesis by (simp only: append_take_drop_id)
qed

lemma lp_push_back_live:
  assumes "lp_live s (lp_bytes xs)" and "length x < 2 ^ 64"
  shows "\<exists>s'. lp_push_back s x = Some s' \<and> lp_live s' (lp_bytes (xs @ [x])) \<and> num_entries s' = Suc (num_entries s)"
proof -
  let ?e = "leb (length x)" and ?extra = "length (leb (length x)) + length x"
  let ?c = "concat (map entry xs)"
  from grow_and_center_spec [of s "lp_bytes xs" ?extra] assms obtain s1 where
    g: "grow_and_center s ?extra = Some s1" "lp_live s1 (lp_bytes xs)" "num_entries s1 = num_entries s"
      "lp_tail s1 + ?extra \<le> length (lp_data s1)" by auto
  from g(2) obtain us vs where d: "lp_data s1 = us @ ?c @ [0xFF] @ vs" "lp_head s1 = length us"
    "lp_tail s1 = length us + length ?c + 1" by (rule lp_live_E) (simp add: lp_bytes_def)
  obtain v1 v2 v3 v4 where vs: "[0xFF] @ vs = v1 @ v2 @ v3 # v4" "length v1 = length ?e" "length v2 = length x"
  proof
    let ?v = "[0xFF] @ vs :: bytes"
    have "?extra < length ?v" using g(4) d by simp
    then show "?v = take (length ?e) ?v @ take (length x) (drop (length ?e) ?v) @ ?v ! ?extra # drop (Suc ?extra) ?v"
      by (rule split_window)
  qed (use g(4) d in auto)
  have e: "encode_varint (of_nat (length x)) = ?e"
    using assms(2) by (simp add: encode_length)
  let ?p = "length us + length ?c"
  have c1: "copy_from_slice (lp_data s1) ?p (?p + length ?e) ?e = Some (us @ ?c @ ?e @ v2 @ v3 # v4)"
    using copy_from_slice_mid [of v1 ?e "us @ ?c" "v2 @ v3 # v4"] vs d(1) by simp
  have c2: "copy_from_slice (us @ ?c @ ?e @ v2 @ v3 # v4) (?p + length ?e) (?p + length ?e + length x) x =
      Some (us @ ?c @ ?e @ x @ v3 # v4)"
    using copy_from_slice_mid [of v2 x "us @ ?c @ ?e" "v3 # v4"] vs by (simp add: add.assoc)
  have u: "upd (us @ ?c @ ?e @ x @ v3 # v4) (?p + length ?e + length x) 0xFF =
      Some (us @ ?c @ ?e @ x @ 0xFF # v4)"
    using upd_Some [of "?p + length ?e + length x" "(us @ ?c @ ?e @ x) @ v3 # v4"]
      list_update_length [of "us @ ?c @ ?e @ x" v3 v4] by (simp add: add.assoc)
  have "slice (us @ ?c @ ?e @ x @ 0xFF # v4) (length us) (?p + length ?e + length x + 1) =
      Some (lp_bytes (xs @ [x]))"
    unfolding slice_Some_iff
    by (rule exI [of _ us], rule exI [of _ v4]) (simp add: lp_bytes_append)
  with e g(1,3) c1 c2 u d(2,3) show ?thesis
    by (simp add: lp_push_back_def lp_live_def Let_def add.assoc)
qed

lemma lp_push_back_spec:
  assumes "lp_holds s xs" and "storable x"
  shows "\<exists>s'. lp_push_back s x = Some s' \<and> lp_holds s' (xs @ [x])"
  using lp_push_back_live [of s xs x] assms by (auto simp: lp_holds_def storable_def)

lemma lp_recenter_holds:
  "lp_holds s xs \<Longrightarrow> \<exists>s'. recenter s = Some s' \<and> lp_holds s' xs"
  using recenter_spec [of s "lp_bytes xs"] by (auto simp: lp_holds_def)

lemma lp_reset_holds:
  "0 < length (lp_data s) \<Longrightarrow> num_entries s = 0 \<Longrightarrow> \<exists>s'. lp_reset s = Some s' \<and> lp_holds s' []"
  using lp_reset_spec [of s] by (auto simp: lp_holds_def)

lemma lp_holds_nonempty: "lp_holds s xs \<Longrightarrow> 0 < length (lp_data s)"
  unfolding lp_holds_at using lp_at_bounds by fastforce

lemma lp_pop_front_Cons:
  assumes "lp_holds s (x # xs)"
  shows "\<exists>s'. lp_pop_front s = Some (Some x, s') \<and> lp_holds s' xs"
proof -
  have at: "lp_at (lp_data s) (lp_head s) (lp_tail s) (x # xs)" and num: "num_entries s = Suc (length xs)"
    using assms by (auto simp: lp_holds_at)
  note c = lp_at_Cons [OF at]
  let ?start = "lp_head s + length (leb (length x))"
  let ?s = "s \<lparr> lp_head := ?start + length x, num_entries := length xs \<rparr>"
  have h: "lp_holds ?s xs" using c(6) by (simp add: lp_holds_at)
  have "slice_from (lp_data s) (lp_head s) = Some (drop (lp_head s) (lp_data s))"
    using lp_at_bounds [OF at] by (simp add: slice_from_def)
  then have eq: "lp_pop_front s = (if xs = [] then do { s \<leftarrow> lp_reset ?s; Some (Some x, s) }
      else if lp_head ?s > length (lp_data s) div 2 then do { s \<leftarrow> recenter ?s; Some (Some x, s) }
      else Some (Some x, ?s))"
    using num c by (simp add: lp_pop_front_def Let_def)
  show ?thesis
  proof (cases "xs = []")
    case True
    with h lp_holds_nonempty [OF h] lp_reset_holds [of ?s] show ?thesis by (auto simp: eq)
  next
    case False
    with h lp_recenter_holds [OF h] show ?thesis by (auto simp: eq)
  qed
qed

lemma lp_pop_back_snoc:
  assumes "lp_holds s (xs @ [x])"
  shows "\<exists>s'. lp_pop_back s = Some (Some x, s') \<and> lp_holds s' xs"
proof -
  let ?c = "concat (map entry xs)"
  have at: "lp_at (lp_data s) (lp_head s) (lp_tail s) (xs @ [x])" and num: "num_entries s = Suc (length xs)"
    using assms by (auto simp: lp_holds_at)
  let ?start = "lp_head s + length ?c"
  have at': "lp_at (lp_data s) ?start (lp_tail s) [x]" using lp_at_drop [OF at] .
  note c = lp_at_Cons [OF at']
  have scan: "pop_back_scan (lp_data s) (lp_tail s) (lp_head s) (lp_head s, 0, 0) =
      Some (Some (?start, length x, length (leb (length x))))"
    using pop_back_scan_at [OF at] by simp
  let ?s1 = "s \<lparr> lp_tail := ?start, num_entries := length xs \<rparr>"
  let ?s2 = "s \<lparr> num_entries := length xs, lp_data := (lp_data s)[?start := 0xFF], lp_tail := ?start + 1 \<rparr>"
  have lt: "?start < length (lp_data s)" using c(1) lp_at_bounds [OF at'] by simp
  have eq: "lp_pop_back s = (if xs = [] then do { s \<leftarrow> lp_reset ?s1; Some (Some x, s) }
      else if ?start + 1 > length (lp_data s) * 3 div 4 then do { s \<leftarrow> recenter ?s2; Some (Some x, s) }
      else Some (Some x, ?s2))"
    using num scan c(5) lt by (simp add: lp_pop_back_def Let_def)
  show ?thesis
  proof (cases "xs = []")
    case True
    have "0 < length (lp_data ?s1)" using lt by (cases "lp_data s") auto
    with True lp_reset_holds [of ?s1] show ?thesis by (auto simp: eq)
  next
    case False
    from at obtain us vs where d: "lp_data s = us @ lp_bytes (xs @ [x]) @ vs" "lp_head s = length us"
      "\<forall>y\<in>set (xs @ [x]). storable y" by (rule lp_at_E)
    obtain b bs where b: "leb (length x) @ x = b # bs" by (cases "leb (length x) @ x") auto
    have "lp_data s = (us @ ?c) @ b # (bs @ [0xFF] @ vs)"
      using d(1) b by (simp add: lp_bytes_append)
    then have "(lp_data s)[?start := 0xFF] = us @ lp_bytes xs @ bs @ [0xFF] @ vs"
      using d(2) by (simp only: length_append [symmetric] list_update_length lp_bytes_def) simp
    then have "lp_at (lp_data ?s2) (lp_head ?s2) (lp_tail ?s2) xs"
      by (intro lp_at_I [of _ us _ "bs @ [0xFF] @ vs"]) (use d in \<open>simp_all add: lp_bytes_def\<close>)
    then have "lp_holds ?s2 xs" by (simp add: lp_holds_at)
    with lp_recenter_holds [OF this] False show ?thesis by (auto simp: eq)
  qed
qed

lemma lp_clear_spec: "lp_holds s xs \<Longrightarrow> \<exists>s'. lp_clear s = Some s' \<and> lp_holds s' []"
  using lp_reset_spec [of s] lp_holds_nonempty [of s xs]
  by (auto simp: lp_clear_def lp_holds_def lp_live_def)

lemma lp_get_spec: "lp_holds s xs \<Longrightarrow> lp_get s i = Some (nth_opt xs i)"
  using get_loop_at [of "lp_data s" "lp_head s" "lp_tail s" xs 0 i]
  by (auto simp: lp_holds_at lp_get_def nth_opt_def)

section \<open>The contract of a deque\<close>

definition lp_ops :: "(listpack, bytes) deque_ops" where
  "lp_ops = \<lparr> d_push_front = lp_push_front, d_push_back = lp_push_back, d_pop_front = lp_pop_front,
     d_pop_back = lp_pop_back, d_get = (\<lambda>s i. map_option (\<lambda>r. (r, s)) (lp_get s i)), d_len = lp_len,
     d_clear = lp_clear \<rparr>"

interpretation lp: deque_impl lp_ops lp_items lp_inv storable
proof
  fix s x i
  assume "lp_inv s"
  then have h: "lp_holds s (lp_items s)" by (simp add: lp_holds_iff)
  show "storable x \<Longrightarrow> \<exists>s'. d_push_front lp_ops s x = Some s' \<and> lp_inv s' \<and> lp_items s' = x # lp_items s"
    using lp_push_front_spec [OF h] by (auto simp: lp_ops_def lp_holds_iff)
  show "storable x \<Longrightarrow> \<exists>s'. d_push_back lp_ops s x = Some s' \<and> lp_inv s' \<and> lp_items s' = lp_items s @ [x]"
    using lp_push_back_spec [OF h] by (auto simp: lp_ops_def lp_holds_iff)
  show "\<exists>s'. d_pop_front lp_ops s = Some (case lp_items s of [] \<Rightarrow> None | x # _ \<Rightarrow> Some x, s') \<and>
      lp_inv s' \<and> lp_items s' = tl (lp_items s)"
  proof (cases "lp_items s")
    case Nil
    with h show ?thesis by (auto simp: lp_ops_def lp_pop_front_def lp_holds_iff lp_inv_def)
  next
    case (Cons y ys)
    with h lp_pop_front_Cons [of s y ys] show ?thesis by (auto simp: lp_ops_def lp_holds_iff)
  qed
  show "\<exists>s'. d_pop_back lp_ops s = Some (if lp_items s = [] then None else Some (last (lp_items s)), s') \<and>
      lp_inv s' \<and> lp_items s' = butlast (lp_items s)"
  proof (cases "lp_items s" rule: rev_cases)
    case Nil
    with h show ?thesis by (auto simp: lp_ops_def lp_pop_back_def lp_holds_iff lp_inv_def)
  next
    case (snoc ys y)
    with h lp_pop_back_snoc [of s ys y] show ?thesis by (auto simp: lp_ops_def lp_holds_iff)
  qed
  show "\<exists>s'. d_get lp_ops s i = Some (nth_opt (lp_items s) i, s') \<and> lp_inv s' \<and> lp_items s' = lp_items s"
    using \<open>lp_inv s\<close> lp_get_spec [OF h] by (auto simp: lp_ops_def)
  show "d_len lp_ops s = length (lp_items s)"
    using \<open>lp_inv s\<close> by (simp add: lp_ops_def lp_len_def lp_inv_def)
  show "\<exists>s'. d_clear lp_ops s = Some s' \<and> lp_inv s' \<and> lp_items s' = []"
    using lp_clear_spec [OF h] by (auto simp: lp_ops_def lp_holds_iff)
qed

section \<open>Lengths, iteration and removal\<close>

declare truncate_loop.simps [simp del]

lemma truncate_loop_spec:
  "lp_holds s xs \<Longrightarrow> length xs - len \<le> fuel \<Longrightarrow>
   \<exists>s'. truncate_loop fuel len s = Some s' \<and> lp_holds s' (take len xs)"
proof (induction fuel arbitrary: s xs)
  case 0
  then have "num_entries s = length xs" by (simp add: lp_holds_def)
  with 0 show ?case by (simp add: truncate_loop.simps [of 0])
next
  case (Suc fuel)
  have num: "num_entries s = length xs" using Suc.prems by (simp add: lp_holds_def)
  show ?case
  proof (cases "len < length xs")
    case False
    with num Suc.prems show ?thesis by (simp add: truncate_loop.simps [of "Suc fuel"])
  next
    case True
    then obtain ys y where xs: "xs = ys @ [y]" by (cases xs rule: rev_cases) auto
    with lp_pop_back_snoc [of s ys y] Suc.prems obtain s1
      where s1: "lp_pop_back s = Some (Some y, s1)" "lp_holds s1 ys" by auto
    have "length ys - len \<le> fuel" using Suc.prems(2) xs by simp
    from Suc.IH [OF s1(2) this] obtain s'
      where "truncate_loop fuel len s1 = Some s'" "lp_holds s' (take len ys)" by blast
    with s1 True num xs show ?thesis by (simp add: truncate_loop.simps [of "Suc fuel"])
  qed
qed

lemma lp_truncate_spec:
  "lp_holds s xs \<Longrightarrow> \<exists>s'. lp_truncate s len = Some s' \<and> lp_holds s' (take len xs)"
proof -
  assume h: "lp_holds s xs"
  then have "num_entries s = length xs" by (simp add: lp_holds_def)
  with h truncate_loop_spec [OF h, of len "length xs - len"] show ?thesis
    by (cases "len < length xs") (auto simp: lp_truncate_def)
qed

lemma resize_push_spec:
  "lp_holds s xs \<Longrightarrow> storable fill \<Longrightarrow>
   \<exists>s'. resize_push n fill s = Some s' \<and> lp_holds s' (xs @ replicate n fill)"
proof (induction n arbitrary: s xs)
  case (Suc n)
  from lp_push_back_spec [OF Suc.prems] obtain s1
    where s1: "lp_push_back s fill = Some s1" "lp_holds s1 (xs @ [fill])" by blast
  with Suc.IH [OF s1(2) Suc.prems(2)] show ?case by (auto simp: replicate_append_same)
qed simp

lemma lp_resize_spec:
  assumes "lp_holds s xs" and "storable fill"
  shows "\<exists>s'. lp_resize s n fill = Some s' \<and> lp_holds s' (take n xs @ replicate (n - length xs) fill)"
proof -
  have num: "num_entries s = length xs" using assms by (simp add: lp_holds_def)
  show ?thesis
  proof (cases "n < length xs")
    case True
    with lp_truncate_spec [OF assms(1), of n] num show ?thesis by (auto simp: lp_resize_def)
  next
    case False
    with resize_push_spec [OF assms, of "n - length xs"] num assms(1) show ?thesis
      by (auto simp: lp_resize_def)
  qed
qed

text \<open>The iterator never panics on a well-formed list; \<open>lp_iter_nx\<close> is \<open>next\<close> there.\<close>

definition lp_iter_nx :: "lp_iter \<Rightarrow> bytes option \<times> lp_iter" where
  "lp_iter_nx it = (case lp_iter_next it of None \<Rightarrow> (None, it) | Some r \<Rightarrow> r)"

definition lp_iter_left :: "lp_iter \<Rightarrow> bytes list" where
  "lp_iter_left it = lp_scan (it_data it) (it_end it) (it_pos it)"

definition lp_iter_inv :: "lp_iter \<Rightarrow> bool" where
  "lp_iter_inv it \<longleftrightarrow> lp_at (it_data it) (it_pos it) (it_end it) (lp_iter_left it)"

interpretation lpi: iterator lp_iter_nx lp_iter_left lp_iter_inv
proof
  fix it
  assume i: "lp_iter_inv it"
  show "fst (lp_iter_nx it) = None" if "lp_iter_left it = []"
    using lp_iter_next_at [of it "[]"] i that by (simp add: lp_iter_inv_def lp_iter_nx_def)
  show "\<exists>it'. lp_iter_nx it = (Some x, it') \<and> lp_iter_inv it' \<and> lp_iter_left it' = xs"
    if "lp_iter_left it = x # xs" for x xs
  proof -
    have "lp_at (it_data it) (it_pos it) (it_end it) (x # xs)" using i that by (simp add: lp_iter_inv_def)
    from lp_iter_next_at [OF this] obtain it' where
      n: "lp_iter_next it = Some (Some x, it')" "lp_at (it_data it') (it_pos it') (it_end it') xs" by auto
    from lp_scan_at [OF n(2)] have "lp_iter_left it' = xs" by (simp add: lp_iter_left_def)
    with n show ?thesis by (simp add: lp_iter_inv_def lp_iter_nx_def)
  qed
qed

lemma lp_iter_spec:
  assumes "lp_holds s xs"
  shows "drain lp_iter_nx (num_entries s + 1) (lp_iter_of s) = xs" and "lp_iter_rev s = Some (rev xs)"
proof -
  have at: "lp_at (lp_data s) (lp_head s) (lp_tail s) xs" "num_entries s = length xs"
    using assms by (simp_all add: lp_holds_at)
  have "lp_iter_left (lp_iter_of s) = xs"
    using lp_scan_at [OF at(1)] by (simp add: lp_iter_left_def lp_iter_of_def)
  then show "drain lp_iter_nx (num_entries s + 1) (lp_iter_of s) = xs"
    using lpi.drain_all [of "lp_iter_of s" "num_entries s + 1"] at
    by (simp add: lp_iter_inv_def) (simp add: lp_iter_of_def)
  from collect_positions_at [OF at(1)] obtain ps
    where "collect_positions_loop (lp_data s) (lp_tail s) (lp_head s) = Some ps"
      and ps: "raw_slices (lp_data s) ps = Some xs" by blast
  moreover have "raw_slices (lp_data s) (rev ps) = Some (rev xs)"
    using ps by (simp add: raw_slices_iff list_all2_rev)
  ultimately show "lp_iter_rev s = Some (rev xs)"
    by (simp add: lp_iter_rev_def collect_element_positions_def)
qed

text \<open>
  Removal is exact at both ends and where the bytes to the left of the item are at least as many
  as those to its right; the branch that shifts the left part is not (\<open>lp_remove_left_corrupts\<close>).
\<close>

definition left_bytes_of :: "bytes list \<Rightarrow> nat \<Rightarrow> nat" where
  "left_bytes_of xs i = length (concat (map entry (take i xs)))"

definition right_bytes_of :: "bytes list \<Rightarrow> nat \<Rightarrow> nat" where
  "right_bytes_of xs i = length (lp_bytes (drop (Suc i) xs))"

lemma find_element_pos_spec:
  assumes "lp_holds s xs" and "i < length xs"
  shows "find_element_pos s i =
    Some (Some (lp_head s + left_bytes_of xs i, length (xs ! i), length (leb (length (xs ! i)))))"
  using find_pos_loop_at [of "lp_data s" "lp_head s" "lp_tail s" xs 0 i] assms
  by (auto simp: find_element_pos_def lp_holds_at left_bytes_of_def)

text \<open>The parts of a well-formed list around one of its items.\<close>

lemma lp_split_at:
  assumes "lp_holds s xs" and "i < length xs"
  obtains us vs where "lp_data s = us @ concat (map entry (take i xs)) @ entry (xs ! i) @ lp_bytes (drop (Suc i) xs) @ vs"
    and "lp_head s = length us" and "num_entries s = length xs"
    and "lp_tail s = length us + left_bytes_of xs i + length (entry (xs ! i)) + right_bytes_of xs i"
    and "\<forall>x\<in>set xs. storable x"
proof -
  have "xs = take i xs @ xs ! i # drop (Suc i) xs" using assms(2) by (rule id_take_nth_drop)
  then have b: "lp_bytes xs = concat (map entry (take i xs)) @ entry (xs ! i) @ lp_bytes (drop (Suc i) xs)"
    by (metis lp_bytes_append lp_bytes_simps(2) entry_def append_assoc)
  from assms(1) obtain us vs where "lp_data s = us @ lp_bytes xs @ vs" "lp_head s = length us"
    "lp_tail s = length us + length (lp_bytes xs)" "\<forall>x\<in>set xs. storable x" "num_entries s = length xs"
    by (auto simp: lp_holds_at elim: lp_at_E)
  then show thesis by (intro that) (simp_all add: b left_bytes_of_def right_bytes_of_def)
qed

lemma lp_remove_last:
  assumes "lp_holds s xs" and "1 < length xs"
  shows "\<exists>s'. lp_remove s (length xs - 1) = Some (True, s') \<and> lp_holds s' (butlast xs)"
proof -
  let ?i = "length xs - 1" and ?c = "concat (map entry (butlast xs))"
  from assms have i: "?i < length xs" "0 < ?i" by simp_all
  have c: "butlast xs = take ?i xs" "drop (Suc ?i) xs = []" using i by (simp_all add: butlast_conv_take)
  from lp_split_at [OF assms(1) i(1)] obtain us vs where
    d: "lp_data s = us @ ?c @ entry (xs ! ?i) @ [0xFF] @ vs" "lp_head s = length us"
      "num_entries s = length xs" "\<forall>x\<in>set xs. storable x"
    unfolding c lp_bytes_simps(1) by blast
  obtain b bs where b: "entry (xs ! ?i) = b # bs"
    by (cases "entry (xs ! ?i)") (auto simp: entry_def)
  let ?start = "length us + length ?c"
  have f: "find_element_pos s ?i = Some (Some (?start, length (xs ! ?i), length (leb (length (xs ! ?i)))))"
    using find_element_pos_spec [OF assms(1) i(1)] d(2) by (simp add: left_bytes_of_def butlast_conv_take)
  have dt: "lp_data s = (us @ ?c) @ b # (bs @ [0xFF] @ vs)" using d(1) b by simp
  then have u: "upd (lp_data s) ?start 0xFF = Some (us @ lp_bytes (butlast xs) @ bs @ [0xFF] @ vs)"
    by (simp only: length_append [symmetric] upd_def list_update_length lp_bytes_def) simp
  let ?s = "s \<lparr> lp_data := us @ lp_bytes (butlast xs) @ bs @ [0xFF] @ vs, lp_tail := ?start + 1,
    num_entries := num_entries s - 1 \<rparr>"
  have "lp_holds ?s (butlast xs)"
    unfolding lp_holds_at using d(2,3,4)
    by (auto intro!: lp_at_I [of _ us _ "bs @ [0xFF] @ vs"] simp: lp_bytes_def dest: in_set_butlastD)
  with f u i d(3) show ?thesis by (simp add: lp_remove_def Let_def)
qed

lemma lp_remove_shift:
  assumes "lp_holds s xs" and "0 < i" and "i < length xs - 1" and "right_bytes_of xs i \<le> left_bytes_of xs i"
  shows "\<exists>s'. lp_remove s i = Some (True, s') \<and> lp_holds s' (remove_at i xs)"
proof -
  let ?c = "concat (map entry (take i xs))" and ?e = "entry (xs ! i)" and ?r = "lp_bytes (drop (Suc i) xs)"
  from assms have i: "i < length xs" by simp
  from lp_split_at [OF assms(1) i] obtain us vs where
    d: "lp_data s = us @ ?c @ ?e @ ?r @ vs" "lp_head s = length us" "num_entries s = length xs"
      "lp_tail s = length us + length ?c + length ?e + length ?r" "\<forall>x\<in>set xs. storable x"
    unfolding left_bytes_of_def right_bytes_of_def by blast
  let ?start = "length us + length ?c"
  have f: "find_element_pos s i = Some (Some (?start, length (xs ! i), length (leb (length (xs ! i)))))"
    using find_element_pos_spec [OF assms(1) i] d(2) by (simp add: left_bytes_of_def)
  define ws where "ws = drop (length ?r) (?e @ ?r @ vs)"
  have w: "copy_within (lp_data s) (?start + length ?e) (lp_tail s) ?start = Some (us @ ?c @ ?r @ ws)"
    by (simp add: copy_within_def d(1,4) ws_def)
  have bytes: "lp_bytes (remove_at i xs) = ?c @ ?r" by (simp add: remove_at_def lp_bytes_append)
  have st: "\<forall>x\<in>set (remove_at i xs). storable x"
    using d(5) by (auto simp: remove_at_def dest: in_set_takeD in_set_dropD)
  let ?s = "s \<lparr> lp_data := us @ ?c @ ?r @ ws, lp_tail := lp_tail s - length ?e,
    num_entries := num_entries s - 1 \<rparr>"
  have "lp_at (lp_data ?s) (lp_head ?s) (lp_tail ?s) (remove_at i xs)"
    by (rule lp_at_I [of _ us _ ws]) (use d(2,4) st in \<open>simp_all add: bytes\<close>)
  then have "lp_holds ?s (remove_at i xs)" using d(3) i by (simp add: lp_holds_at)
  moreover have "lp_remove s i = Some (True, ?s)"
    using f w assms(2-4) d(2-4) i
    by (simp add: lp_remove_def Let_def add.assoc left_bytes_of_def right_bytes_of_def)
  ultimately show ?thesis by blast
qed

lemma lp_remove_equal_lengths:
  assumes h: "lp_holds s [x, y, z]" and len: "length x = length z" "length y = length z"
  shows "\<exists>s'. lp_remove s 1 = Some (True, s') \<and> lp_holds s' [y, x]"
proof -
  obtain us vs where
    d: "lp_data s = us @ entry x @ entry y @ entry z @ [0xFF] @ vs" "lp_head s = length us" "num_entries s = 3"
      "lp_tail s = length us + length (entry x @ entry y @ entry z @ [0xFF])" "storable x" "storable y"
    by (rule lp_split_at [OF h, of 1])
       (auto intro!: that simp: left_bytes_of_def right_bytes_of_def entry_def numeral_3_eq_3 add.assoc)
  let ?n = "length (entry z)"
  have n: "length (entry x) = ?n" "length (entry y) = ?n" using len by simp_all
  have f: "find_element_pos s 1 = Some (Some (length us + ?n, length y, length (leb (length y))))"
    using find_element_pos_spec [OF h, of 1] d(2) n by (simp add: left_bytes_of_def)
  have e: "length us + ?n + length (leb (length y)) + length y = length us + ?n + ?n" using n(2) by simp
  have w: "copy_within (lp_data s) (length us) (length us + ?n) (length us + ?n + ?n) =
      Some (us @ entry x @ entry y @ entry x @ [0xFF] @ vs)"
    using n by (simp add: copy_within_def d(1) del: length_entry)
  let ?s = "s \<lparr> lp_data := us @ entry x @ entry y @ entry x @ [0xFF] @ vs, lp_head := length us + ?n,
    num_entries := 2 \<rparr>"
  have "lp_at (lp_data ?s) (lp_head ?s) (lp_tail ?s) [y, x]"
    by (rule lp_at_I [of _ "us @ entry x" _ vs]) (use d n in \<open>simp_all add: entry_def\<close>)
  then have "lp_holds ?s [y, x]" by (simp add: lp_holds_at)
  moreover have "lp_remove s 1 = Some (True, ?s)"
    using f w d(2-4) n by (simp add: lp_remove_def Let_def e del: length_entry)
  ultimately show ?thesis by blast
qed

lemma lp_used_gt_len: "lp_inv s \<Longrightarrow> \<exists>used. used_bytes s = Some used \<and> lp_len s < used"
proof -
  assume i: "lp_inv s"
  have "length xs < length (lp_bytes xs)" for xs
  proof (induction xs)
    case (Cons x xs)
    have "0 < length (leb (length x))" by simp
    with Cons show ?case by (simp only: lp_bytes_simps length_append list.size)
  qed simp
  with i lp_at_bounds [of "lp_data s" "lp_head s" "lp_tail s" "lp_items s"] show ?thesis
    by (auto simp: lp_inv_def used_bytes_def lp_len_def)
qed

text \<open>\<open>free_bytes\<close> subtracts from the number of items instead of the capacity, and underflows always.\<close>

lemma free_bytes_underflows: "lp_inv s \<Longrightarrow> free_bytes s = None"
  using lp_used_gt_len [of s] by (auto simp: free_bytes_def usub_def)

section \<open>Properties\<close>

text \<open>C9. Every sequence of pushes, pops, lookups, length queries and clears on a fresh
  \<open>ListPack\<close> runs without a panic and answers exactly like a list of byte strings, for items whose
  encoded length does not start with the terminator byte.\<close>

theorem listpack_refines_list:
  assumes "\<forall>p\<in>set ps. op_storable storable p"
  shows "map_option (\<lambda>(outs, s). (outs, lp_items s)) (do { s \<leftarrow> lp_new; run (deque_step lp_ops) ps s }) =
    Some (spec_run deque_spec ps [])"
proof -
  obtain s where s: "lp_new = Some s" "lp_inv s" "lp_items s = []"
    using lp_new_spec by (auto simp: lp_holds_iff)
  with lp.runs.run_refines [OF s(2) assms] show ?thesis unfolding s(1) by simp
qed

theorem listpack_refines_list_witness:
  "map_option (\<lambda>(outs, s). (outs, lp_items s))
     (do { s \<leftarrow> lp_new; run (deque_step lp_ops) [Push_Back [1, 2], Push_Front [3], Pop_Back, Get 0, Len] s }) =
   Some ([Unit_Out, Unit_Out, Item_Out (Some [1, 2]), Item_Out (Some [3]), Len_Out 1], [[3]])"
  by (subst listpack_refines_list) (simp_all add: storable_def nth_opt_def)

text \<open>The length codec round-trips every \<open>usize\<close>, whatever bytes follow, and never takes
  more than ten bytes.\<close>

theorem listpack_varint_roundtrip:
  "decode_varint (encode_varint v @ rest) = Some (v, length (encode_varint v)) \<and>
   length (encode_varint v) \<le> 10"
proof -
  have v: "unat v < 2 ^ 64" using unsigned_less [of v, where 'a = nat] by simp
  have "unat v < 128 ^ 10" using v by (rule order.strict_trans2) simp
  with v show ?thesis by (simp add: encode_varint_leb decode_varint_leb leb_length)
qed

text \<open>On every well-formed list \<open>resize\<close> (and \<open>truncate\<close> through it) returns, keeps the
  invariant, and keeps a prefix of the items or pads them with the fill value.\<close>

theorem listpack_resize_exact:
  assumes "lp_inv s" and "storable fill"
  shows "\<exists>s'. lp_resize s n fill = Some s' \<and> lp_inv s' \<and>
    lp_items s' = take n (lp_items s) @ replicate (n - length (lp_items s)) fill"
  using lp_resize_spec [of s "lp_items s" fill n] assms by (simp add: lp_holds_iff)

theorem listpack_resize_exact_witness:
  "\<exists>s s'. lp_new = Some s \<and> lp_resize s 2 [7] = Some s' \<and> lp_items s' = [[7], [7]]"
proof -
  obtain s where s: "lp_new = Some s" "lp_inv s" "lp_items s = []"
    using lp_new_spec by (auto simp: lp_holds_iff)
  have "storable [7]" by (simp add: storable_def)
  with listpack_resize_exact [OF s(2), of "[7]" 2] s show ?thesis by (auto simp: numeral_2_eq_2)
qed

text \<open>Iteration visits exactly the items, in order, and \<open>iter_rev\<close> in reverse order.\<close>

theorem listpack_iter_exact:
  assumes "lp_inv s"
  shows "drain lp_iter_nx (num_entries s + 1) (lp_iter_of s) = lp_items s \<and>
    lp_iter_rev s = Some (rev (lp_items s))"
  using lp_iter_spec [of s "lp_items s"] assms by (simp add: lp_holds_iff)

theorem listpack_iter_exact_witness:
  "\<exists>s. lp_new = Some s \<and> drain lp_iter_nx (num_entries s + 1) (lp_iter_of s) = [] \<and> lp_iter_rev s = Some []"
proof -
  obtain s where s: "lp_new = Some s" "lp_inv s" "lp_items s = []"
    using lp_new_spec by (auto simp: lp_holds_iff)
  from listpack_iter_exact [OF s(2)] show ?thesis unfolding s(3) by (intro exI [of _ s] conjI s(1)) simp_all
qed

text \<open>\<open>remove\<close> takes out exactly the item at the index, out of range included, at both ends and
  wherever at least as many bytes lie to the left of the item as to its right.\<close>

theorem listpack_remove_exact:
  assumes "lp_inv s" and "i = 0 \<or> Suc i = length (lp_items s) \<or>
    right_bytes_of (lp_items s) i \<le> left_bytes_of (lp_items s) i"
  shows "\<exists>s'. lp_remove s i = Some (i < length (lp_items s), s') \<and> lp_inv s' \<and> lp_items s' = remove_at i (lp_items s)"
proof -
  have h: "lp_holds s (lp_items s)" using assms(1) by (simp add: lp_holds_iff)
  then have num: "num_entries s = length (lp_items s)" by (simp add: lp_holds_def)
  consider "length (lp_items s) \<le> i" | "i = 0" "i < length (lp_items s)" | "0 < i" "Suc i = length (lp_items s)"
    | "0 < i" "i < length (lp_items s) - 1" by linarith
  then show ?thesis
  proof cases
    case 1
    with assms(1) num show ?thesis by (simp add: lp_remove_def remove_at_def)
  next
    case 2
    then obtain x xs where "lp_items s = x # xs" by (cases "lp_items s") auto
    with lp_pop_front_Cons [of s x xs] h 2 num show ?thesis
      by (auto simp: lp_remove_def remove_at_def lp_holds_iff)
  next
    case 3
    then have "i = length (lp_items s) - 1" "1 < length (lp_items s)" by simp_all
    with lp_remove_last [OF h] show ?thesis by (auto simp: lp_holds_iff remove_at_def butlast_conv_take)
  next
    case 4
    then have "i < length (lp_items s)" by simp
    with 4 lp_remove_shift [OF h 4] assms(2) show ?thesis by (auto simp: lp_holds_iff)
  qed
qed

theorem listpack_remove_exact_witness:
  "\<exists>s s'. lp_new = Some s \<and> lp_remove s 0 = Some (False, s') \<and> lp_items s' = []"
proof -
  obtain s where s: "lp_new = Some s" "lp_inv s" "lp_items s = []"
    using lp_new_spec by (auto simp: lp_holds_iff)
  with listpack_remove_exact [OF s(2), of 0] show ?thesis by (auto simp: remove_at_def)
qed

text \<open>C38. The other branch of \<open>remove\<close> copies the left part to the wrong place: of three items of
  equal length, removing the middle one leaves the middle and the first instead of the first and the
  last.\<close>

theorem listpack_remove_left_corrupts:
  assumes "lp_inv s" and "lp_items s = [x, y, z]" and "length x = length z" and "length y = length z"
  shows "\<exists>s'. lp_remove s 1 = Some (True, s') \<and> lp_items s' = [y, x]"
  using lp_remove_equal_lengths [of s x y z] assms by (auto simp: lp_holds_iff)

theorem listpack_remove_left_corrupts_witness:
  "\<exists>s s'. do { s \<leftarrow> lp_new; push_all lp_ops s [[1], [2], [3]] } = Some s \<and>
    lp_remove s 1 = Some (True, s') \<and> lp_items s' = [[2], [1]]"
proof -
  obtain s0 where s0: "lp_new = Some s0" "lp_inv s0" "lp_items s0 = []"
    using lp_new_spec by (auto simp: lp_holds_iff)
  have "\<forall>x\<in>set [[1], [2], [3]]. storable x" by (simp add: storable_def)
  from lp.push_all_law [OF s0(2) this] s0 obtain s
    where s: "push_all lp_ops s0 [[1], [2], [3]] = Some s" "lp_inv s" "lp_items s = [[1], [2], [3]]" by auto
  from listpack_remove_left_corrupts [OF s(2,3)] s(1) show ?thesis unfolding s0(1) by auto
qed

text \<open>An item whose encoded length starts with \<open>0xFF\<close> (length 255, 383, \<dots>) is lost: pushed on
  an empty list it counts in \<open>len\<close>, but \<open>get(0)\<close> finds nothing.\<close>

theorem listpack_long_item_lost:
  assumes "lp_inv s" and "lp_items s = []" and "length x < 2 ^ 64" and "128 \<le> length x" and "length x mod 128 = 127"
  shows "\<exists>s'. lp_push_back s x = Some s' \<and> lp_len s' = 1 \<and> lp_get s' 0 = Some None"
proof -
  have "lp_live s (lp_bytes [])" "num_entries s = 0"
    using assms(1,2) lp_holds_iff [of s "[]"] by (auto simp: lp_holds_def)
  with lp_push_back_live [of s "[]" x] assms(3) obtain s' where
    s': "lp_push_back s x = Some s'" "lp_live s' (lp_bytes [x])" "num_entries s' = 1" by auto
  from s'(2) obtain us vs where d: "lp_data s' = us @ leb (length x) @ x @ [0xFF] @ vs"
    "lp_head s' = length us" "lp_tail s' = length us + length (lp_bytes [x])" by (auto elim: lp_live_E)
  have "unat (hd (leb (length x))) = 255" using assms(4,5) by (simp add: leb_hd)
  then have "hd (leb (length x)) = 0xFF" by (simp add: word_unat_eq_iff)
  then have "idx (lp_data s') (lp_head s') = Some 0xFF"
    using d by (simp add: nth_append hd_conv_nth)
  with d s'(3) have "lp_get s' 0 = Some None"
    by (simp add: lp_get_def get_loop.simps [of _ _ 0 _ 0])
  with s' show ?thesis by (auto simp: lp_len_def)
qed

theorem listpack_long_item_lost_witness:
  "\<exists>s s'. lp_new = Some s \<and> lp_push_back s (replicate 255 0) = Some s' \<and> lp_len s' = 1 \<and> lp_get s' 0 = Some None"
proof -
  obtain s where s: "lp_new = Some s" "lp_inv s" "lp_items s = []"
    using lp_new_spec by (auto simp: lp_holds_iff)
  from listpack_long_item_lost [OF s(2,3), of "replicate 255 0"] s(1) show ?thesis by auto
qed

end
