(* ===== verification/Dict.thy ===== *)
theory Dict
  imports Rust_Std Interfaces
begin

text \<open>
  \<open>src/database/dict/dict_base.rs\<close> and \<open>entry.rs\<close>: the chained hash table with two tables and
  incremental rehashing that backs sets, sorted sets and hashes.

  The hasher (\<open>ahash::RandomState\<close> or any other \<open>BuildHasher\<close>) is a parameter
  \<open>h\<close> of every operation that hashes; nothing is assumed of it, so the theorems hold for every
  hash function, constant ones included. A collision chain (\<open>Option<Box<DictNode>>\<close>) is the list of its
  nodes; the two tables are the fields \<open>ht0\<close> and \<open>ht1\<close>. An \<open>Entry\<close> of the source borrows a link of a
  chain: here it is the table, the bucket and the position of that link.
\<close>

unbundle bit_operations_syntax

section \<open>State\<close>

abbreviation INITIAL_SIZE :: nat where "INITIAL_SIZE \<equiv> 4"
abbreviation REHASH_MIN_ENTRIES :: nat where "REHASH_MIN_ENTRIES \<equiv> 8"
abbreviation REHASH_MAX_EMPTY_VISITS :: nat where "REHASH_MAX_EMPTY_VISITS \<equiv> 64"

record ('k, 'v) hash_table =
  buckets :: "('k \<times> 'v) list list"
  size_mask :: nat
  used :: nat

record ('k, 'v) dict =
  ht0 :: "('k, 'v) hash_table"
  ht1 :: "('k, 'v) hash_table"
  rehash_idx :: int

definition ht :: "('k, 'v) dict \<Rightarrow> nat \<Rightarrow> ('k, 'v) hash_table" where
  "ht d i = (if i = 0 then ht0 d else ht1 d)"

definition set_ht :: "('k, 'v) dict \<Rightarrow> nat \<Rightarrow> ('k, 'v) hash_table \<Rightarrow> ('k, 'v) dict" where
  "set_ht d i t = (if i = 0 then d \<lparr> ht0 := t \<rparr> else d \<lparr> ht1 := t \<rparr>)"

section \<open>One table\<close>

definition ht_with_capacity :: "nat \<Rightarrow> ('k, 'v) hash_table" where
  "ht_with_capacity cap =
     (if cap = 0 then \<lparr> buckets = [], size_mask = 0, used = 0 \<rparr>
      else let sz = max (next_power_of_two cap) INITIAL_SIZE in
        \<lparr> buckets = replicate sz [], size_mask = sz - 1, used = 0 \<rparr>)"

definition ht_clear :: "('k, 'v) hash_table \<Rightarrow> ('k, 'v) hash_table" where
  "ht_clear t = t \<lparr> buckets := [], size_mask := 0, used := 0 \<rparr>"

definition is_empty_table :: "('k, 'v) hash_table \<Rightarrow> bool" where
  "is_empty_table t \<longleftrightarrow> buckets t = []"

definition ht_capacity :: "('k, 'v) hash_table \<Rightarrow> nat" where
  "ht_capacity t = length (buckets t)"

text \<open>\<open>(hash as usize) & size_mask\<close>\<close>
definition slot_of :: "('k \<Rightarrow> u64) \<Rightarrow> ('k, 'v) hash_table \<Rightarrow> 'k \<Rightarrow> nat" where
  "slot_of h t key = unat (h key) AND size_mask t"

text \<open>Linking a node at the head of its chain, the tail of every insertion and move.\<close>
definition ht_push :: "('k \<Rightarrow> u64) \<Rightarrow> ('k, 'v) hash_table \<Rightarrow> 'k \<times> 'v \<Rightarrow> ('k, 'v) hash_table panics" where
  "ht_push h t e = do {
     next \<leftarrow> idx (buckets t) (slot_of h t (fst e));
     bs \<leftarrow> upd (buckets t) (slot_of h t (fst e)) (e # next);
     Some (t \<lparr> buckets := bs, used := used t + 1 \<rparr>)
   }"

section \<open>Chains\<close>

fun chain_find :: "('k \<times> 'v) list \<Rightarrow> 'k \<Rightarrow> 'v option" where
  "chain_find [] key = None"
| "chain_find ((k, v) # next) key = (if k = key then Some v else chain_find next key)"

text \<open>\<open>e.val = val; return false\<close> in the loop of \<open>insert\<close>, or \<open>None\<close> at the end of the chain.\<close>
fun chain_update :: "('k \<times> 'v) list \<Rightarrow> 'k \<Rightarrow> 'v \<Rightarrow> ('k \<times> 'v) list option" where
  "chain_update [] key val = None"
| "chain_update ((k, v) # next) key val =
     (if k = key then Some ((k, val) # next) else map_option ((#) (k, v)) (chain_update next key val))"

text \<open>The position of the link that holds the key.\<close>
fun find_entry_slot :: "('k \<times> 'v) list \<Rightarrow> 'k \<Rightarrow> nat option" where
  "find_entry_slot [] key = None"
| "find_entry_slot ((k, v) # next) key = (if k = key then Some 0 else map_option Suc (find_entry_slot next key))"

fun remove_from_chain_iter :: "('k \<times> 'v) list \<Rightarrow> 'k \<Rightarrow> ('k \<times> 'v) list \<times> bool" where
  "remove_from_chain_iter [] key = ([], False)"
| "remove_from_chain_iter ((k, v) # next) key =
     (if k = key then (next, True)
      else let (next', b) = remove_from_chain_iter next key in ((k, v) # next', b))"

section \<open>Rehashing\<close>

definition dict_with_hasher :: "('k, 'v) dict" where
  "dict_with_hasher = \<lparr> ht0 = ht_with_capacity 0, ht1 = ht_with_capacity 0, rehash_idx = -1 \<rparr>"

definition dict_with_capacity_and_hasher :: "nat \<Rightarrow> ('k, 'v) dict" where
  "dict_with_capacity_and_hasher cap =
     \<lparr> ht0 = ht_with_capacity (if cap = 0 then 0 else cap), ht1 = ht_with_capacity 0, rehash_idx = -1 \<rparr>"

definition is_rehashing :: "('k, 'v) dict \<Rightarrow> bool" where
  "is_rehashing d \<longleftrightarrow> rehash_idx d \<noteq> -1"

text \<open>
  Moving the nodes of a chain into the second table: \<open>ht[0].used\<close> goes down and
  \<open>ht[1].used\<close> goes up with each.
\<close>
fun move_chain ::
  "('k \<Rightarrow> u64) \<Rightarrow> ('k \<times> 'v) list \<Rightarrow> nat \<Rightarrow> ('k, 'v) hash_table \<Rightarrow> (nat \<times> ('k, 'v) hash_table) panics" where
  "move_chain h [] used0 t1 = Some (used0, t1)"
| "move_chain h (e # next) used0 t1 = do {
     t1' \<leftarrow> ht_push h t1 e;
     used0' \<leftarrow> usub used0 1;
     move_chain h next used0' t1'
   }"

text \<open>\<open>ht[0] = replace(&mut ht[1], with_capacity(0)); rehash_idx = -1\<close>\<close>
definition promote :: "('k, 'v) dict \<Rightarrow> ('k, 'v) dict" where
  "promote d = d \<lparr> ht0 := ht1 d, ht1 := ht_with_capacity 0, rehash_idx := -1 \<rparr>"

definition after_move :: "('k, 'v) dict \<Rightarrow> nat \<Rightarrow> nat \<Rightarrow> ('k, 'v) hash_table \<Rightarrow> ('k, 'v) dict" where
  "after_move d i used0 t1 =
     d \<lparr> ht0 := (ht0 d) \<lparr> buckets := (buckets (ht0 d))[i := []], used := used0 \<rparr>, ht1 := t1 \<rparr>"

function rehash_loop :: "('k \<Rightarrow> u64) \<Rightarrow> nat \<Rightarrow> nat \<Rightarrow> ('k, 'v) dict \<Rightarrow> ('k, 'v) dict panics" where
  "rehash_loop h entries_moved empty_visits d =
     (if \<not> (entries_moved < REHASH_MIN_ENTRIES \<or> empty_visits < REHASH_MAX_EMPTY_VISITS) then Some d
      else let i = nat (rehash_idx d) in
        if i \<ge> ht_capacity (ht0 d) then Some (promote d)
        else if buckets (ht0 d) ! i = [] then
          let d' = d \<lparr> rehash_idx := rehash_idx d + 1 \<rparr> in
          if empty_visits + 1 \<ge> REHASH_MAX_EMPTY_VISITS \<and> entries_moved > 0 then Some d'
          else rehash_loop h entries_moved (empty_visits + 1) d'
        else case move_chain h (buckets (ht0 d) ! i) (used (ht0 d)) (ht1 d) of
          None \<Rightarrow> None
        | Some (used0, t1) \<Rightarrow>
            rehash_loop h (entries_moved + length (buckets (ht0 d) ! i)) 0
              ((after_move d i used0 t1) \<lparr> rehash_idx := rehash_idx d + 1 \<rparr>))"
  by pat_completeness auto

termination rehash_loop
  by (relation "measure (\<lambda>(h, m, e, d). nat (int (ht_capacity (ht0 d)) - rehash_idx d))")
     (auto simp: ht_capacity_def after_move_def)

declare rehash_loop.simps [simp del]

definition rehash_step :: "('k \<Rightarrow> u64) \<Rightarrow> ('k, 'v) dict \<Rightarrow> ('k, 'v) dict panics" where
  "rehash_step h d = (if \<not> is_rehashing d then Some d else rehash_loop h 0 0 d)"

definition expand_if_needed :: "('k, 'v) dict \<Rightarrow> ('k, 'v) dict" where
  "expand_if_needed d =
     (if is_rehashing d then d
      else let size = ht_capacity (ht0 d); usd = used (ht0 d) in
        if size = 0 then d \<lparr> ht0 := ht_with_capacity INITIAL_SIZE \<rparr>
        else if usd \<ge> size then d \<lparr> ht1 := ht_with_capacity (size * 2), rehash_idx := 0 \<rparr>
        else d)"

text \<open>\<open>(size as f64 * 0.25) as usize\<close> is \<open>size div 4\<close>: the product is exact for a power of two.\<close>
definition shrink_if_needed :: "('k, 'v) dict \<Rightarrow> ('k, 'v) dict" where
  "shrink_if_needed d =
     (if is_rehashing d then d
      else let size = ht_capacity (ht0 d); usd = used (ht0 d) in
        if size \<le> INITIAL_SIZE then d
        else let shrink_threshold = size div 4 in
          if usd < shrink_threshold
          then let new_size = max (size div 2) INITIAL_SIZE in
            d \<lparr> ht1 := ht_with_capacity new_size, rehash_idx := 0 \<rparr>
          else d)"

fun finish_loop :: "('k \<Rightarrow> u64) \<Rightarrow> nat list \<Rightarrow> ('k, 'v) dict \<Rightarrow> ('k, 'v) dict panics" where
  "finish_loop h [] d = Some d"
| "finish_loop h (i # is) d = do {
     chain \<leftarrow> idx (buckets (ht0 d)) i;
     (used0, t1) \<leftarrow> move_chain h chain (used (ht0 d)) (ht1 d);
     finish_loop h is (after_move d i used0 t1)
   }"

definition finish_rehash :: "('k \<Rightarrow> u64) \<Rightarrow> ('k, 'v) dict \<Rightarrow> ('k, 'v) dict panics" where
  "finish_rehash h d =
     (if \<not> is_rehashing d then Some d
      else do {
        d' \<leftarrow> finish_loop h [nat (rehash_idx d)..<ht_capacity (ht0 d)] d;
        Some (promote d')
      })"

fun rebuild_chain ::
  "('k \<Rightarrow> u64) \<Rightarrow> nat \<Rightarrow> ('k \<times> 'v) list \<Rightarrow> ('k, 'v) hash_table \<Rightarrow> ('k, 'v) hash_table panics" where
  "rebuild_chain h new_cap [] t = Some t"
| "rebuild_chain h new_cap (e # next) t =
     (if new_cap = 0 then rebuild_chain h new_cap next t
      else do { t' \<leftarrow> ht_push h t e; rebuild_chain h new_cap next t' })"

fun rebuild_table ::
  "('k \<Rightarrow> u64) \<Rightarrow> nat \<Rightarrow> ('k \<times> 'v) list list \<Rightarrow> ('k, 'v) hash_table \<Rightarrow> ('k, 'v) hash_table panics" where
  "rebuild_table h new_cap [] t = Some t"
| "rebuild_table h new_cap (bucket # bs) t = do {
     t' \<leftarrow> rebuild_chain h new_cap bucket t;
     rebuild_table h new_cap bs t'
   }"

definition force_rehash_to :: "('k \<Rightarrow> u64) \<Rightarrow> ('k, 'v) dict \<Rightarrow> nat \<Rightarrow> ('k, 'v) dict panics" where
  "force_rehash_to h d target_cap = do {
     d \<leftarrow> (if is_rehashing d then finish_rehash h d else Some d);
     let new_cap = (if target_cap = 0 then 0 else max (next_power_of_two target_cap) INITIAL_SIZE);
     if ht_capacity (ht0 d) = new_cap then Some d
     else do {
       new_table \<leftarrow> rebuild_table h new_cap (buckets (ht0 d)) (ht_with_capacity new_cap);
       Some (d \<lparr> ht0 := new_table, ht1 := ht_clear (ht1 d), rehash_idx := -1 \<rparr>)
     }
   }"

section \<open>Operations\<close>

text \<open>The search of \<open>insert\<close> over \<open>for table_idx in 0..=1\<close>; \<open>Some (Some d)\<close> is \<open>return false\<close>.\<close>
fun insert_search ::
  "('k \<Rightarrow> u64) \<Rightarrow> ('k, 'v) dict \<Rightarrow> 'k \<Rightarrow> 'v \<Rightarrow> nat list \<Rightarrow> ('k, 'v) dict option panics" where
  "insert_search h d key val [] = Some None"
| "insert_search h d key val (i # is) =
     (let t = ht d i in
      if is_empty_table t
      then (if \<not> is_rehashing d then Some None else insert_search h d key val is)
      else do {
        chain \<leftarrow> idx (buckets t) (slot_of h t key);
        case chain_update chain key val of
          Some chain' \<Rightarrow>
            Some (Some (set_ht d i (t \<lparr> buckets := (buckets t)[slot_of h t key := chain'] \<rparr>)))
        | None \<Rightarrow> if \<not> is_rehashing d then Some None else insert_search h d key val is
      })"

definition dict_insert :: "('k \<Rightarrow> u64) \<Rightarrow> ('k, 'v) dict \<Rightarrow> 'k \<Rightarrow> 'v \<Rightarrow> (('k, 'v) dict \<times> bool) panics" where
  "dict_insert h d key val = do {
     d \<leftarrow> rehash_step h (expand_if_needed d);
     found \<leftarrow> insert_search h d key val [0, 1];
     case found of
       Some d' \<Rightarrow> Some (d', False)
     | None \<Rightarrow> do {
         let i = (if is_rehashing d then 1 else 0);
         t \<leftarrow> ht_push h (ht d i) (key, val);
         Some (set_ht d i t, True)
       }
   }"

fun get_search :: "('k \<Rightarrow> u64) \<Rightarrow> ('k, 'v) dict \<Rightarrow> 'k \<Rightarrow> nat list \<Rightarrow> 'v option panics" where
  "get_search h d key [] = Some None"
| "get_search h d key (i # is) =
     (let t = ht d i in
      if is_empty_table t
      then (if \<not> is_rehashing d then Some None else get_search h d key is)
      else do {
        chain \<leftarrow> idx (buckets t) (slot_of h t key);
        case chain_find chain key of
          Some v \<Rightarrow> Some (Some v)
        | None \<Rightarrow> if \<not> is_rehashing d then Some None else get_search h d key is
      })"

definition dict_get :: "('k \<Rightarrow> u64) \<Rightarrow> ('k, 'v) dict \<Rightarrow> 'k \<Rightarrow> 'v option panics" where
  "dict_get h d key = get_search h d key [0, 1]"

text \<open>
  \<open>get_mut\<close>, with the caller's use of the reference as \<open>f\<close>: the result is the value seen, the new state
  holds \<open>f\<close> of it. \<open>find_val_mut\<close> walks the chain.
\<close>
fun find_val_mut :: "('k \<times> 'v) list \<Rightarrow> 'k \<Rightarrow> ('v \<Rightarrow> 'v) \<Rightarrow> ('v \<times> ('k \<times> 'v) list) option" where
  "find_val_mut [] key f = None"
| "find_val_mut ((k, v) # next) key f =
     (if k = key then Some (v, (k, f v) # next)
      else map_option (\<lambda>(r, next'). (r, (k, v) # next')) (find_val_mut next key f))"

definition table_get_mut ::
  "('k \<Rightarrow> u64) \<Rightarrow> ('k, 'v) hash_table \<Rightarrow> 'k \<Rightarrow> ('v \<Rightarrow> 'v) \<Rightarrow> ('v \<times> ('k, 'v) hash_table) option panics" where
  "table_get_mut h t key f = do {
     chain \<leftarrow> idx (buckets t) (slot_of h t key);
     Some (map_option (\<lambda>(r, chain'). (r, t \<lparr> buckets := (buckets t)[slot_of h t key := chain'] \<rparr>))
       (find_val_mut chain key f))
   }"

definition dict_get_mut ::
  "('k \<Rightarrow> u64) \<Rightarrow> ('k, 'v) dict \<Rightarrow> 'k \<Rightarrow> ('v \<Rightarrow> 'v) \<Rightarrow> ('v option \<times> ('k, 'v) dict) panics" where
  "dict_get_mut h d key f = do {
     d \<leftarrow> (if is_rehashing d then rehash_step h d else Some d);
     let rehashing = is_rehashing d;
     r0 \<leftarrow> (if \<not> is_empty_table (ht0 d) then table_get_mut h (ht0 d) key f else Some None);
     case r0 of
       Some (v, t) \<Rightarrow> Some (Some v, d \<lparr> ht0 := t \<rparr>)
     | None \<Rightarrow> do {
         r1 \<leftarrow> (if rehashing \<and> \<not> is_empty_table (ht1 d) then table_get_mut h (ht1 d) key f else Some None);
         case r1 of
           Some (v, t) \<Rightarrow> Some (Some v, d \<lparr> ht1 := t \<rparr>)
         | None \<Rightarrow> Some (None, d)
       }
   }"

fun remove_search ::
  "('k \<Rightarrow> u64) \<Rightarrow> ('k, 'v) dict \<Rightarrow> 'k \<Rightarrow> nat list \<Rightarrow> (('k, 'v) dict \<times> bool) panics" where
  "remove_search h d key [] = Some (d, False)"
| "remove_search h d key (i # is) =
     (let t = ht d i in
      if is_empty_table t
      then (if \<not> is_rehashing d then Some (d, False) else remove_search h d key is)
      else do {
        chain \<leftarrow> idx (buckets t) (slot_of h t key);
        case remove_from_chain_iter chain key of
          (chain', True) \<Rightarrow> do {
            usd \<leftarrow> usub (used t) 1;
            let d' = set_ht d i (t \<lparr> buckets := (buckets t)[slot_of h t key := chain'], used := usd \<rparr>);
            Some (if i = 0 then shrink_if_needed d' else d', True)
          }
        | (_, False) \<Rightarrow> if \<not> is_rehashing d then Some (d, False) else remove_search h d key is
      })"

definition dict_remove :: "('k \<Rightarrow> u64) \<Rightarrow> ('k, 'v) dict \<Rightarrow> 'k \<Rightarrow> (('k, 'v) dict \<times> bool) panics" where
  "dict_remove h d key = do {
     d \<leftarrow> (if is_rehashing d then rehash_step h d else Some d);
     remove_search h d key [0, 1]
   }"

definition dict_len :: "('k, 'v) dict \<Rightarrow> nat" where
  "dict_len d = used (ht0 d) + used (ht1 d)"

definition dict_is_empty :: "('k, 'v) dict \<Rightarrow> bool" where
  "dict_is_empty d \<longleftrightarrow> dict_len d = 0"

definition dict_capacity :: "('k, 'v) dict \<Rightarrow> nat" where
  "dict_capacity d = ht_capacity (ht0 d)"

definition dict_clear :: "('k, 'v) dict \<Rightarrow> ('k, 'v) dict" where
  "dict_clear d = d \<lparr> ht0 := ht_clear (ht0 d), ht1 := ht_clear (ht1 d), rehash_idx := -1 \<rparr>"

definition dict_reserve :: "('k \<Rightarrow> u64) \<Rightarrow> ('k, 'v) dict \<Rightarrow> nat \<Rightarrow> ('k, 'v) dict panics" where
  "dict_reserve h d additional =
     (let needed = dict_len d + additional; current_cap = ht_capacity (ht0 d) in
      if current_cap \<ge> needed then Some d else force_rehash_to h d needed)"

definition dict_shrink_to_fit :: "('k \<Rightarrow> u64) \<Rightarrow> ('k, 'v) dict \<Rightarrow> ('k, 'v) dict panics" where
  "dict_shrink_to_fit h d =
     (let usd = dict_len d;
          target = (if usd = 0 then 0 else max (next_power_of_two usd) INITIAL_SIZE) in
      if ht_capacity (ht0 d) \<le> target \<and> \<not> is_rehashing d then Some d
      else force_rehash_to h d target)"

section \<open>Entries\<close>

text \<open>
  \<open>Occupied table bucket pos\<close> stands for \<open>OccupiedEntry { slot, used }\<close>, the link at position \<open>pos\<close> of
  the chain; \<open>Vacant key table bucket\<close> for \<open>VacantEntry { key, slot, used }\<close>, the head of the chain.
\<close>
datatype 'k entry_loc = Occupied nat nat nat | Vacant 'k nat nat

definition find_in_table :: "('k \<Rightarrow> u64) \<Rightarrow> ('k, 'v) dict \<Rightarrow> nat \<Rightarrow> 'k \<Rightarrow> 'k entry_loc option panics" where
  "find_in_table h d i key =
     (let t = ht d i in
      if is_empty_table t then Some None
      else do {
        chain \<leftarrow> idx (buckets t) (slot_of h t key);
        Some (map_option (Occupied i (slot_of h t key)) (find_entry_slot chain key))
      })"

definition dict_entry :: "('k \<Rightarrow> u64) \<Rightarrow> ('k, 'v) dict \<Rightarrow> 'k \<Rightarrow> ('k entry_loc \<times> ('k, 'v) dict) panics" where
  "dict_entry h d key = do {
     d \<leftarrow> rehash_step h (expand_if_needed d);
     let rehashing = is_rehashing d;
     e0 \<leftarrow> find_in_table h d 0 key;
     case e0 of
       Some e \<Rightarrow> Some (e, d)
     | None \<Rightarrow> do {
         e1 \<leftarrow> (if rehashing then find_in_table h d 1 key else Some None);
         case e1 of
           Some e \<Rightarrow> Some (e, d)
         | None \<Rightarrow> do {
             let target = (if rehashing then 1 else 0);
             _ \<leftarrow> idx (buckets (ht d target)) (slot_of h (ht d target) key);
             Some (Vacant key target (slot_of h (ht d target) key), d)
           }
       }
   }"

text \<open>The node an occupied entry points at; \<open>unwrap\<close> panics where there is none.\<close>
definition occupied_node :: "('k, 'v) dict \<Rightarrow> nat \<Rightarrow> nat \<Rightarrow> nat \<Rightarrow> ('k \<times> 'v) panics" where
  "occupied_node d i s p = do { chain \<leftarrow> idx (buckets (ht d i)) s; idx chain p }"

definition occupied_key :: "('k, 'v) dict \<Rightarrow> nat \<Rightarrow> nat \<Rightarrow> nat \<Rightarrow> 'k panics" where
  "occupied_key d i s p = map_option fst (occupied_node d i s p)"

definition occupied_get :: "('k, 'v) dict \<Rightarrow> nat \<Rightarrow> nat \<Rightarrow> nat \<Rightarrow> 'v panics" where
  "occupied_get d i s p = map_option snd (occupied_node d i s p)"

text \<open>\<open>get_mut\<close> and \<open>into_mut\<close>, with what the caller writes through the reference as \<open>f\<close>.\<close>
definition occupied_modify :: "('k, 'v) dict \<Rightarrow> nat \<Rightarrow> nat \<Rightarrow> nat \<Rightarrow> ('v \<Rightarrow> 'v) \<Rightarrow> ('k, 'v) dict panics" where
  "occupied_modify d i s p f = do {
     chain \<leftarrow> idx (buckets (ht d i)) s;
     (k, v) \<leftarrow> idx chain p;
     Some (set_ht d i ((ht d i) \<lparr> buckets := (buckets (ht d i))[s := chain[p := (k, f v)]] \<rparr>))
   }"

definition occupied_insert :: "('k, 'v) dict \<Rightarrow> nat \<Rightarrow> nat \<Rightarrow> nat \<Rightarrow> 'v \<Rightarrow> ('v \<times> ('k, 'v) dict) panics" where
  "occupied_insert d i s p val = do {
     (k, old) \<leftarrow> occupied_node d i s p;
     d' \<leftarrow> occupied_modify d i s p (\<lambda>_. val);
     Some (old, d')
   }"

definition occupied_remove :: "('k, 'v) dict \<Rightarrow> nat \<Rightarrow> nat \<Rightarrow> nat \<Rightarrow> ('v \<times> ('k, 'v) dict) panics" where
  "occupied_remove d i s p = do {
     chain \<leftarrow> idx (buckets (ht d i)) s;
     (k, v) \<leftarrow> idx chain p;
     usd \<leftarrow> usub (used (ht d i)) 1;
     Some (v, set_ht d i ((ht d i) \<lparr> buckets := (buckets (ht d i))[s := remove_at p chain], used := usd \<rparr>))
   }"

definition vacant_insert :: "('k, 'v) dict \<Rightarrow> 'k \<Rightarrow> nat \<Rightarrow> nat \<Rightarrow> 'v \<Rightarrow> ('k, 'v) dict panics" where
  "vacant_insert d key i s val = do {
     old_head \<leftarrow> idx (buckets (ht d i)) s;
     Some (set_ht d i ((ht d i) \<lparr> buckets := (buckets (ht d i))[s := (key, val) # old_head],
       used := used (ht d i) + 1 \<rparr>))
   }"

text \<open>\<open>or_insert_with_key\<close>; the result is the value the returned reference points at.\<close>
fun or_insert_with_key :: "('k, 'v) dict \<Rightarrow> 'k entry_loc \<Rightarrow> ('k \<Rightarrow> 'v) \<Rightarrow> ('v \<times> ('k, 'v) dict) panics" where
  "or_insert_with_key d (Occupied i s p) f = do { v \<leftarrow> occupied_get d i s p; Some (v, d) }"
| "or_insert_with_key d (Vacant key i s) f =
     (let val = f key in do { d' \<leftarrow> vacant_insert d key i s val; Some (val, d') })"

definition or_insert_with :: "('k, 'v) dict \<Rightarrow> 'k entry_loc \<Rightarrow> (unit \<Rightarrow> 'v) \<Rightarrow> ('v \<times> ('k, 'v) dict) panics" where
  "or_insert_with d e f = (case e of
     Occupied i s p \<Rightarrow> do { v \<leftarrow> occupied_get d i s p; Some (v, d) }
   | Vacant key i s \<Rightarrow> do { d' \<leftarrow> vacant_insert d key i s (f ()); Some (f (), d') })"

definition or_insert :: "('k, 'v) dict \<Rightarrow> 'k entry_loc \<Rightarrow> 'v \<Rightarrow> ('v \<times> ('k, 'v) dict) panics" where
  "or_insert d e dflt = (case e of
     Occupied i s p \<Rightarrow> do { v \<leftarrow> occupied_get d i s p; Some (v, d) }
   | Vacant key i s \<Rightarrow> do { d' \<leftarrow> vacant_insert d key i s dflt; Some (dflt, d') })"

definition and_modify :: "('k, 'v) dict \<Rightarrow> 'k entry_loc \<Rightarrow> ('v \<Rightarrow> 'v) \<Rightarrow> ('k entry_loc \<times> ('k, 'v) dict) panics" where
  "and_modify d e f = (case e of
     Occupied i s p \<Rightarrow> do { d' \<leftarrow> occupied_modify d i s p f; Some (e, d') }
   | Vacant key i s \<Rightarrow> Some (e, d))"

definition entry_key :: "('k, 'v) dict \<Rightarrow> 'k entry_loc \<Rightarrow> 'k panics" where
  "entry_key d e = (case e of Occupied i s p \<Rightarrow> occupied_key d i s p | Vacant key i s \<Rightarrow> Some key)"

section \<open>Iteration, equality, serialisation\<close>

record ('k, 'v) dict_iter =
  it_t0 :: "('k, 'v) hash_table"
  it_t1 :: "('k, 'v) hash_table"
  table_idx :: nat
  bucket_idx :: nat
  current_entry :: "('k \<times> 'v) list"

definition dict_iter_of :: "('k, 'v) dict \<Rightarrow> ('k, 'v) dict_iter" where
  "dict_iter_of d = \<lparr> it_t0 = ht0 d, it_t1 = ht1 d, table_idx = 0, bucket_idx = 0, current_entry = [] \<rparr>"

definition it_table :: "('k, 'v) dict_iter \<Rightarrow> ('k, 'v) hash_table" where
  "it_table it = (if table_idx it = 0 then it_t0 it else it_t1 it)"

function dict_iter_next :: "('k, 'v) dict_iter \<Rightarrow> ('k \<times> 'v) option \<times> ('k, 'v) dict_iter" where
  "dict_iter_next it =
     (case current_entry it of
        e # next \<Rightarrow> (Some e, it \<lparr> current_entry := next \<rparr>)
      | [] \<Rightarrow>
          if bucket_idx it \<ge> length (buckets (it_table it)) then
            if table_idx it = 0 \<and> \<not> is_empty_table (it_t1 it)
            then dict_iter_next (it \<lparr> table_idx := 1, bucket_idx := 0 \<rparr>)
            else (None, it)
          else dict_iter_next
            (it \<lparr> current_entry := buckets (it_table it) ! bucket_idx it, bucket_idx := bucket_idx it + 1 \<rparr>))"
  by pat_completeness auto

termination dict_iter_next
  by (relation "measure (\<lambda>it. (if table_idx it = 0 then 1 + length (buckets (it_t1 it)) else 0) +
        (length (buckets (it_table it)) - bucket_idx it))") (auto simp: it_table_def)

declare dict_iter_next.simps [simp del]

text \<open>Everything an iterator of the dictionary yields, in order.\<close>
definition dict_entries :: "('k, 'v) dict \<Rightarrow> ('k \<times> 'v) list" where
  "dict_entries d = concat (buckets (ht0 d)) @ concat (buckets (ht1 d))"

text \<open>\<open>self.iter().all(|(k, v)| other.get(k) == Some(v))\<close>\<close>
fun all_equal :: "('k \<Rightarrow> u64) \<Rightarrow> ('k, 'v) dict \<Rightarrow> ('k \<times> 'v) list \<Rightarrow> bool panics" where
  "all_equal h d [] = Some True"
| "all_equal h d ((k, v) # kvs) = do {
     r \<leftarrow> dict_get h d k;
     if r = Some v then all_equal h d kvs else Some False
   }"

definition dict_eq :: "('k \<Rightarrow> u64) \<Rightarrow> ('k \<Rightarrow> u64) \<Rightarrow> ('k, 'v) dict \<Rightarrow> ('k, 'v) dict \<Rightarrow> bool panics" where
  "dict_eq h h' d other =
     (if dict_len d \<noteq> dict_len other then Some False
      else all_equal h' other (drain dict_iter_next (dict_len d) (dict_iter_of d)))"

text \<open>The sequence of pairs \<open>Serialize\<close> emits, with the length it announces.\<close>
definition dict_serialize :: "('k, 'v) dict \<Rightarrow> nat \<times> ('k \<times> 'v) list" where
  "dict_serialize d = (dict_len d, drain dict_iter_next (dict_len d) (dict_iter_of d))"

fun visit_seq :: "('k \<Rightarrow> u64) \<Rightarrow> ('k, 'v) dict \<Rightarrow> ('k \<times> 'v) list \<Rightarrow> ('k, 'v) dict panics" where
  "visit_seq h d [] = Some d"
| "visit_seq h d ((k, v) # kvs) = do { (d', _) \<leftarrow> dict_insert h d k v; visit_seq h d' kvs }"

definition dict_deserialize :: "('k \<Rightarrow> u64) \<Rightarrow> ('k \<times> 'v) list \<Rightarrow> ('k, 'v) dict panics" where
  "dict_deserialize h kvs = visit_seq h dict_with_hasher kvs"

section \<open>Invariant and contents\<close>

definition table_keys :: "('k, 'v) hash_table \<Rightarrow> 'k set" where
  "table_keys t = fst ` set (concat (buckets t))"

definition table_map :: "('k, 'v) hash_table \<Rightarrow> 'k \<rightharpoonup> 'v" where
  "table_map t = map_of (concat (buckets t))"

text \<open>Each key is in the bucket its hash selects, no key occurs twice, and \<open>used\<close> counts the nodes.\<close>
definition table_ok :: "('k \<Rightarrow> u64) \<Rightarrow> ('k, 'v) hash_table \<Rightarrow> bool" where
  "table_ok h t \<longleftrightarrow>
     (buckets t = [] \<or> is_pow2 (length (buckets t)) \<and> INITIAL_SIZE \<le> length (buckets t) \<and>
        size_mask t = length (buckets t) - 1) \<and>
     used t = length (concat (buckets t)) \<and>
     distinct (map fst (concat (buckets t))) \<and>
     (\<forall>i<length (buckets t). \<forall>e\<in>set (buckets t ! i). slot_of h t (fst e) = i)"

definition dict_inv :: "('k \<Rightarrow> u64) \<Rightarrow> ('k, 'v) dict \<Rightarrow> bool" where
  "dict_inv h d \<longleftrightarrow>
     table_ok h (ht0 d) \<and> table_ok h (ht1 d) \<and> table_keys (ht0 d) \<inter> table_keys (ht1 d) = {} \<and>
     (if is_rehashing d
      then 0 \<le> rehash_idx d \<and> nat (rehash_idx d) \<le> ht_capacity (ht0 d) \<and>
        \<not> is_empty_table (ht0 d) \<and> \<not> is_empty_table (ht1 d) \<and>
        (\<forall>i<nat (rehash_idx d). buckets (ht0 d) ! i = [])
      else is_empty_table (ht1 d))"

definition dict_abs :: "('k, 'v) dict \<Rightarrow> 'k \<rightharpoonup> 'v" where
  "dict_abs d = map_of (dict_entries d)"

section \<open>Chains and tables\<close>

lemma ht_set_ht [simp]: "ht (set_ht d i t) i = t" "is_rehashing (set_ht d i t) = is_rehashing d"
  by (simp_all add: ht_def set_ht_def is_rehashing_def)

lemma chain_find_map_of: "chain_find b k = map_of b k"
  by (induction b k rule: chain_find.induct) auto

lemma chain_update_None: "chain_update b k v = None \<longleftrightarrow> k \<notin> fst ` set b"
  by (induction b k v rule: chain_update.induct) auto

lemma chain_update_Some:
  "chain_update b k v = Some b' \<Longrightarrow> map fst b' = map fst b \<and> map_of b' = (map_of b)(k \<mapsto> v)"
  by (induction b k v arbitrary: b' rule: chain_update.induct) (force split: if_splits)+

lemma find_val_mut_None: "find_val_mut b k f = None \<longleftrightarrow> map_of b k = None"
  by (induction b k f rule: find_val_mut.induct) auto

lemma find_val_mut_Some:
  "find_val_mut b k f = Some (r, b') \<Longrightarrow>
   map_of b k = Some r \<and> map fst b' = map fst b \<and> map_of b' = (map_of b)(k \<mapsto> f r)"
  by (induction b k f arbitrary: b' rule: find_val_mut.induct) (force split: if_splits)+

lemma remove_from_chain_spec:
  "distinct (map fst b) \<Longrightarrow> remove_from_chain_iter b k = (b', r) \<Longrightarrow>
   r = (k \<in> fst ` set b) \<and> b' = filter (\<lambda>e. fst e \<noteq> k) b"
proof (induction b arbitrary: b' r)
  case (Cons e b)
  obtain k' v where e: "e = (k', v)" by (cases e)
  show ?case
  proof (cases "k' = k")
    case True
    with Cons.prems have "filter (\<lambda>e. fst e \<noteq> k) b = b" by (auto simp: e filter_id_conv)
    with True Cons.prems e show ?thesis by auto
  next
    case False
    with Cons e show ?thesis by (auto split: prod.splits)
  qed
qed simp

lemma filter_key_length:
  "distinct (map fst b) \<Longrightarrow> length (filter (\<lambda>e. fst e \<noteq> k) b) = length b - (if k \<in> fst ` set b then 1 else 0)"
proof (induction b)
  case (Cons e b)
  have "filter (\<lambda>e. fst e \<noteq> k) b = b" if "k \<notin> fst ` set b" using that by (auto simp: filter_id_conv)
  moreover have "length b \<noteq> 0" if "k \<in> fst ` set b" using that by auto
  ultimately show ?case using Cons by auto
qed simp

lemma slot_of_update [simp]:
  "slot_of h (t \<lparr> buckets := bs \<rparr>) = slot_of h t" "slot_of h (t \<lparr> used := u \<rparr>) = slot_of h t"
  by (simp_all add: slot_of_def fun_eq_iff)

lemma slot_of_less:
  assumes "table_ok h t" and "buckets t \<noteq> []"
  shows "slot_of h t k < length (buckets t)"
proof -
  from assms obtain e where e: "length (buckets t) = 2 ^ e" "size_mask t = 2 ^ e - 1"
    by (auto simp: table_ok_def is_pow2_def)
  have "slot_of h t k = take_bit e (unat (h k))"
    unfolding slot_of_def e(2) take_bit_eq_mask mask_eq_exp_minus_1 ..
  also have "\<dots> < 2 ^ e" by simp
  finally show ?thesis by (simp add: e(1))
qed

text \<open>A table seen around the bucket of a key: the key occurs in no other bucket.\<close>

lemma table_focus:
  assumes ok: "table_ok h t" and ne: "\<not> is_empty_table t"
  obtains L b R where "buckets t = L @ b # R" and "length L = slot_of h t k"
    and "k \<notin> fst ` set (concat L)" and "k \<notin> fst ` set (concat R)"
    and "idx (buckets t) (slot_of h t k) = Some b" and "table_map t k = map_of b k"
    and "\<And>b'. (buckets t)[slot_of h t k := b'] = L @ b' # R"
    and "buckets t ! slot_of h t k = b"
proof -
  let ?s = "slot_of h t k"
  have s: "?s < length (buckets t)" using slot_of_less [OF ok] ne by (simp add: is_empty_table_def)
  define L where "L = take ?s (buckets t)"
  define R where "R = drop (Suc ?s) (buckets t)"
  have eq: "buckets t = L @ buckets t ! ?s # R" using s by (simp add: L_def R_def id_take_nth_drop)
  have slots: "\<And>i e. i < length (buckets t) \<Longrightarrow> e \<in> set (buckets t ! i) \<Longrightarrow> slot_of h t (fst e) = i"
    using ok by (simp add: table_ok_def)
  have L: "k \<notin> fst ` set (concat L)"
  proof
    assume "k \<in> fst ` set (concat L)"
    then obtain i e where "i < length L" "e \<in> set (L ! i)" "fst e = k"
      by (auto simp: in_set_conv_nth) (metis in_set_conv_nth fst_conv)
    with slots [of i e] s show False by (simp add: L_def)
  qed
  have R: "k \<notin> fst ` set (concat R)"
  proof
    assume "k \<in> fst ` set (concat R)"
    then obtain i e where "i < length R" "e \<in> set (R ! i)" "fst e = k"
      by (auto simp: in_set_conv_nth) (metis in_set_conv_nth fst_conv)
    moreover from this have "Suc ?s + i < length (buckets t)" by (simp add: R_def)
    ultimately show False using slots [of "Suc ?s + i" e] s by (simp add: R_def)
  qed
  have "map_of (concat L) k = None" "map_of (concat R) k = None"
    using L R by (simp_all add: map_of_eq_None_iff)
  then have "table_map t k = map_of (buckets t ! ?s) k"
    unfolding table_map_def by (subst eq) (simp add: map_add_def split: option.split)
  moreover have "(buckets t)[?s := b'] = L @ b' # R" for b'
    using s by (simp add: L_def R_def upd_conv_take_nth_drop)
  ultimately show thesis using that eq L R s by (simp add: L_def)
qed

lemma distinct_replace:
  "distinct (xs @ ys @ zs) \<Longrightarrow> distinct ys' \<Longrightarrow> set ys' \<subseteq> insert k (set ys) \<Longrightarrow> k \<notin> set xs \<Longrightarrow> k \<notin> set zs \<Longrightarrow>
   distinct (xs @ ys' @ zs)"
  by auto

lemma distinct_drop_mid: "distinct (xs @ ys @ zs) \<Longrightarrow> distinct (xs @ zs)"
  by auto

text \<open>Replacing the bucket of \<open>k\<close> by one that differs from it only at \<open>k\<close>.\<close>

lemma table_replace:
  assumes ok: "table_ok h t" and bs: "buckets t = L @ b # R" "length L = slot_of h t k"
    and k: "k \<notin> fst ` set (concat L)" "k \<notin> fst ` set (concat R)"
    and b': "distinct (map fst b')" "fst ` set b' \<subseteq> insert k (fst ` set b)" "map_of b' = (map_of b)(k := r)"
    and u: "u + length b = used t + length b'"
  shows "table_ok h (t \<lparr> buckets := L @ b' # R, used := u \<rparr>)"
    and "table_map (t \<lparr> buckets := L @ b' # R, used := u \<rparr>) = (table_map t)(k := r)"
    and "table_keys (t \<lparr> buckets := L @ b' # R, used := u \<rparr>) \<subseteq> insert k (table_keys t)"
proof -
  let ?t = "t \<lparr> buckets := L @ b' # R, used := u \<rparr>"
  have d: "distinct (map fst (concat L @ b @ concat R))" and us: "used t = length (concat L @ b @ concat R)"
    using ok bs(1) by (simp_all add: table_ok_def)
  have slots: "\<forall>i<length (L @ b # R). \<forall>e\<in>set ((L @ b # R) ! i). slot_of h t (fst e) = i"
    using ok bs(1) by (simp add: table_ok_def)
  have "\<forall>e\<in>set b. slot_of h t (fst e) = length L" using spec [OF slots, of "length L"] by simp
  then have sb: "\<forall>e\<in>set b'. slot_of h t (fst e) = length L" using b'(2) bs(2) by force
  have "\<forall>e\<in>set ((L @ b' # R) ! i). slot_of h t (fst e) = i" if "i < length (L @ b' # R)" for i
    using that slots sb by (cases "i = length L") (auto simp: nth_append nth_Cons' split: if_splits)
  moreover have "distinct (map fst (concat L @ b' @ concat R))"
    using distinct_replace [of "map fst (concat L)" "map fst b" "map fst (concat R)" "map fst b'" k] d b'(1,2) k
    by (simp only: map_append set_map simp_thms)
  moreover have "u = length (concat L @ b' @ concat R)" using u us by simp
  ultimately show "table_ok h ?t" using ok bs(1) by (auto simp: table_ok_def)
  have "map_of (concat L) k = None" "map_of (concat R) k = None"
    using k by (simp_all add: map_of_eq_None_iff)
  then show "table_map ?t = (table_map t)(k := r)"
    using bs(1) b'(3) by (auto simp: table_map_def map_add_def fun_eq_iff split: option.split)
  show "table_keys ?t \<subseteq> insert k (table_keys t)"
    using bs(1) b'(2) by (auto simp: table_keys_def)
qed

lemma table_keys_dom: "table_keys t = dom (table_map t)"
  by (simp add: table_keys_def table_map_def dom_map_of_conv_image_fst)

lemma empty_table [simp]: "is_empty_table t \<Longrightarrow> table_map t = Map.empty" 
  by (simp add: is_empty_table_def table_map_def)

text \<open>The size \<open>with_capacity\<close> and \<open>force_rehash_to\<close> give a table for a requested capacity.\<close>

definition table_size :: "nat \<Rightarrow> nat" where
  "table_size cap = (if cap = 0 then 0 else max (next_power_of_two cap) INITIAL_SIZE)"

lemma table_size_facts [simp]:
  "table_size cap = 0 \<longleftrightarrow> cap = 0" "table_size (table_size cap) = table_size cap" "cap \<le> table_size cap"
proof -
  show "table_size cap = 0 \<longleftrightarrow> cap = 0" by (simp add: table_size_def)
  have "next_power_of_two (max (next_power_of_two cap) INITIAL_SIZE) = max (next_power_of_two cap) INITIAL_SIZE"
    by (intro next_power_of_two_id is_pow2_max) simp_all
  then show "table_size (table_size cap) = table_size cap" by (simp add: table_size_def)
  show "cap \<le> table_size cap" using next_power_of_two_ge [of cap] by (simp add: table_size_def le_max_iff_disj)
qed

lemma table_size_0 [simp]: "table_size 0 = 0"
  by (simp add: table_size_def)

lemma ht_with_capacity_facts:
  "table_ok h (ht_with_capacity cap)" "table_map (ht_with_capacity cap) = Map.empty"
  "is_empty_table (ht_with_capacity cap) \<longleftrightarrow> cap = 0" "used (ht_with_capacity cap) = 0"
  "length (buckets (ht_with_capacity cap)) = table_size cap"
proof -
  have c: "concat (replicate n []) = []" for n by (induction n) auto
  have "is_pow2 (max (next_power_of_two cap) INITIAL_SIZE)" by (simp add: is_pow2_max)
  then show "table_ok h (ht_with_capacity cap)"
    by (auto simp: ht_with_capacity_def table_ok_def Let_def c)
  show "table_map (ht_with_capacity cap) = Map.empty" "used (ht_with_capacity cap) = 0"
    by (auto simp: ht_with_capacity_def table_map_def Let_def c)
  show "is_empty_table (ht_with_capacity cap) \<longleftrightarrow> cap = 0"
    by (auto simp: ht_with_capacity_def is_empty_table_def Let_def)
  show "length (buckets (ht_with_capacity cap)) = table_size cap"
    by (auto simp: ht_with_capacity_def table_size_def Let_def)
qed

lemma ht_push_spec:
  assumes "table_ok h t" and "\<not> is_empty_table t" and "k \<notin> dom (table_map t)"
  shows "\<exists>t'. ht_push h t (k, v) = Some t' \<and> table_ok h t' \<and> table_map t' = (table_map t)(k \<mapsto> v) \<and>
    length (buckets t') = length (buckets t) \<and> used t' = used t + 1"
proof -
  from assms(1,2) obtain L b R where f: "buckets t = L @ b # R" "length L = slot_of h t k"
    "k \<notin> fst ` set (concat L)" "k \<notin> fst ` set (concat R)" "idx (buckets t) (slot_of h t k) = Some b"
    "table_map t k = map_of b k" "\<And>b'. (buckets t)[slot_of h t k := b'] = L @ b' # R" by (rule table_focus [of h t k]) blast
  have nb: "k \<notin> fst ` set b" using assms(3) f(6) by (simp add: domIff map_of_eq_None_iff)
  have "distinct (map fst b)" using assms(1) f(1) by (simp add: table_ok_def)
  then have r: "table_ok h (t \<lparr> buckets := L @ ((k, v) # b) # R, used := used t + 1 \<rparr>)"
    "table_map (t \<lparr> buckets := L @ ((k, v) # b) # R, used := used t + 1 \<rparr>) = (table_map t)(k \<mapsto> v)"
    using table_replace [OF assms(1) f(1-4), of "(k, v) # b" "Some v" "used t + 1"] nb by simp_all
  have "slot_of h t k < length (buckets t)" using f(1,2) by simp
  then have "ht_push h t (k, v) = Some (t \<lparr> buckets := L @ ((k, v) # b) # R, used := used t + 1 \<rparr>)"
    using f(5,7) by (simp add: ht_push_def)
  with r f(1) show ?thesis by simp
qed

section \<open>Rehashing keeps the contents\<close>

lemma dict_abs_tables: "dict_abs d = table_map (ht1 d) ++ table_map (ht0 d)"
  by (simp add: dict_abs_def dict_entries_def table_map_def)

text \<open>The state of a rehash with the buckets below \<open>n\<close> already moved.\<close>

definition mid_inv :: "('k \<Rightarrow> u64) \<Rightarrow> ('k, 'v) dict \<Rightarrow> nat \<Rightarrow> bool" where
  "mid_inv h d n \<longleftrightarrow>
     table_ok h (ht0 d) \<and> table_ok h (ht1 d) \<and> dom (table_map (ht0 d)) \<inter> dom (table_map (ht1 d)) = {} \<and>
     \<not> is_empty_table (ht0 d) \<and> \<not> is_empty_table (ht1 d) \<and>
     n \<le> ht_capacity (ht0 d) \<and> (\<forall>i<n. buckets (ht0 d) ! i = [])"

lemma mid_inv_rehash_idx [simp]: "mid_inv h (d \<lparr> rehash_idx := r \<rparr>) n = mid_inv h d n"
  by (simp add: mid_inv_def)

lemma dict_abs_rehash_idx [simp]: "dict_abs (d \<lparr> rehash_idx := r \<rparr>) = dict_abs d"
  by (simp add: dict_abs_tables)

lemma dict_inv_rehashing:
  "is_rehashing d \<Longrightarrow> dict_inv h d \<longleftrightarrow> 0 \<le> rehash_idx d \<and> mid_inv h d (nat (rehash_idx d))"
  by (auto simp: dict_inv_def mid_inv_def table_keys_dom)

lemma dict_inv_idle:
  "\<not> is_rehashing d \<Longrightarrow> dict_inv h d \<longleftrightarrow> table_ok h (ht0 d) \<and> table_ok h (ht1 d) \<and> is_empty_table (ht1 d)"
  by (auto simp: dict_inv_def table_keys_dom)

lemma move_chain_spec:
  "table_ok h t \<Longrightarrow> \<not> is_empty_table t \<Longrightarrow> distinct (map fst c) \<Longrightarrow> fst ` set c \<inter> dom (table_map t) = {} \<Longrightarrow>
   length c \<le> u \<Longrightarrow>
   \<exists>t'. move_chain h c u t = Some (u - length c, t') \<and> table_ok h t' \<and> table_map t' = table_map t ++ map_of c \<and>
     length (buckets t') = length (buckets t)"
proof (induction c arbitrary: u t)
  case (Cons e c)
  obtain k v where e: "e = (k, v)" by (cases e)
  from ht_push_spec [OF Cons.prems(1,2), of k v] Cons.prems(4) e obtain t1 where
    t1: "ht_push h t (k, v) = Some t1" "table_ok h t1" "table_map t1 = (table_map t)(k \<mapsto> v)"
      "length (buckets t1) = length (buckets t)" by auto
  have ne: "\<not> is_empty_table t1" using t1(4) Cons.prems(2) by (auto simp: is_empty_table_def)
  have "fst ` set c \<inter> dom (table_map t1) = {}" using Cons.prems(3,4) t1(3) e by auto
  moreover have "distinct (map fst c)" "length c \<le> u - 1" using Cons.prems(3,5) by auto
  ultimately obtain t' where
    t': "move_chain h c (u - 1) t1 = Some (u - 1 - length c, t')" "table_ok h t'"
      "table_map t' = table_map t1 ++ map_of c" "length (buckets t') = length (buckets t)"
    using Cons.IH [OF t1(2) ne, of "u - 1"] t1(4) by auto
  have "map_of c k = None" using Cons.prems(3) e by (auto simp: map_of_eq_None_iff)
  then have "table_map t1 ++ map_of c = table_map t ++ map_of (e # c)"
    using t1(3) e by (auto simp: map_add_def fun_eq_iff split: option.split)
  with t'(3) have "table_map t' = table_map t ++ map_of (e # c)" by simp
  with t'(1,2,4) t1(1) e Cons.prems(5) show ?case by (simp del: map_of.simps)
qed simp

text \<open>Emptying a bucket of a table.\<close>

lemma table_empty_bucket:
  assumes ok: "table_ok h t" and i: "i < length (buckets t)"
  defines "t' \<equiv> t \<lparr> buckets := (buckets t)[i := []], used := used t - length (buckets t ! i) \<rparr>"
  shows "table_ok h t'" and "length (buckets t ! i) \<le> used t" and "distinct (map fst (buckets t ! i))"
    and "table_map t = table_map t' ++ map_of (buckets t ! i)"
    and "dom (table_map t') \<inter> fst ` set (buckets t ! i) = {}"
    and "dom (table_map t) = dom (table_map t') \<union> fst ` set (buckets t ! i)"
proof -
  let ?b = "buckets t ! i" and ?L = "concat (take i (buckets t))" and ?R = "concat (drop (Suc i) (buckets t))"
  have c: "concat (buckets t) = ?L @ ?b @ ?R"
    using arg_cong [OF id_take_nth_drop [OF i], of concat] by simp
  have c': "concat (buckets t') = ?L @ ?R"
    using i by (simp add: t'_def upd_conv_take_nth_drop)
  have d: "distinct (map fst (?L @ ?b @ ?R))" and u: "used t = length (?L @ ?b @ ?R)"
    using ok by (simp_all only: table_ok_def c simp_thms)
  show "length ?b \<le> used t" "distinct (map fst ?b)" using d u by simp_all
  have "distinct (map fst (?L @ ?R))" using d by (simp only: map_append) (rule distinct_drop_mid)
  moreover have "\<forall>j<length (buckets t). \<forall>e\<in>set ((buckets t)[i := []] ! j). slot_of h t (fst e) = j"
    using ok i by (auto simp: table_ok_def nth_list_update split: if_splits)
  moreover have "used t - length ?b = length (?L @ ?R)" using u by simp
  ultimately show "table_ok h t'"
    using ok c' by (auto simp: table_ok_def t'_def)
  have tm: "table_map t' = map_of (?L @ ?R)" "table_map t = map_of (?L @ ?b @ ?R)"
    by (simp_all only: table_map_def c c')
  show dj: "dom (table_map t') \<inter> fst ` set ?b = {}"
    using d by (simp only: tm dom_map_of_conv_image_fst map_append distinct_append set_append set_map image_Un) blast
  show "dom (table_map t) = dom (table_map t') \<union> fst ` set ?b"
    by (simp only: tm dom_map_of_conv_image_fst set_append image_Un) blast
  have "map_of ?L x = None" if "map_of ?b x = Some v" for x v
    using that d by (auto simp: map_of_eq_None_iff dest!: map_of_SomeD) force
  then show "table_map t = table_map t' ++ map_of ?b"
    by (auto simp: tm map_add_def fun_eq_iff split: option.split)
qed

lemma mid_step:
  assumes m: "mid_inv h d i" and i: "i < ht_capacity (ht0 d)"
  shows "\<exists>u t. move_chain h (buckets (ht0 d) ! i) (used (ht0 d)) (ht1 d) = Some (u, t) \<and>
    mid_inv h (after_move d i u t) (Suc i) \<and> dict_abs (after_move d i u t) = dict_abs d \<and>
    ht_capacity (ht0 (after_move d i u t)) = ht_capacity (ht0 d) \<and> ht_capacity t = ht_capacity (ht1 d)"
proof -
  let ?b = "buckets (ht0 d) ! i"
  define t0 where "t0 = (ht0 d) \<lparr> buckets := (buckets (ht0 d))[i := []], used := used (ht0 d) - length ?b \<rparr>"
  have len: "i < length (buckets (ht0 d))" using i by (simp add: ht_capacity_def)
  note e = table_empty_bucket [OF _ len, of h, folded t0_def]
  have ok: "table_ok h (ht0 d)" "table_ok h (ht1 d)" "\<not> is_empty_table (ht0 d)" "\<not> is_empty_table (ht1 d)"
    "dom (table_map (ht0 d)) \<inter> dom (table_map (ht1 d)) = {}" using m by (auto simp: mid_inv_def)
  note e = e [OF ok(1)]
  have dj: "fst ` set ?b \<inter> dom (table_map (ht1 d)) = {}" using e(6) ok(5) by blast
  from move_chain_spec [OF ok(2,4) e(3) dj e(2)] obtain t where
    t: "move_chain h ?b (used (ht0 d)) (ht1 d) = Some (used (ht0 d) - length ?b, t)" "table_ok h t"
      "table_map t = table_map (ht1 d) ++ map_of ?b" "length (buckets t) = length (buckets (ht1 d))" by blast
  let ?d = "after_move d i (used (ht0 d) - length ?b) t"
  have d': "ht0 ?d = t0" "ht1 ?d = t" by (simp_all add: after_move_def t0_def)
  have domt: "dom (table_map t) = dom (table_map (ht1 d)) \<union> fst ` set ?b"
    by (simp add: t(3) dom_map_of_conv_image_fst Un_commute)
  have "dom (table_map t0) \<inter> dom (table_map t) = {}" using e(5,6) ok(5) domt by blast
  moreover have "\<forall>j<Suc i. buckets t0 ! j = []"
    using m len by (auto simp: mid_inv_def t0_def nth_list_update less_Suc_eq)
  moreover have "\<not> is_empty_table t0" "\<not> is_empty_table t"
    using ok(3,4) t(4) by (auto simp: is_empty_table_def t0_def)
  ultimately have "mid_inv h ?d (Suc i)"
    using e(1) t(2) i by (simp add: mid_inv_def d') (simp add: t0_def ht_capacity_def)
  moreover have "dict_abs ?d = dict_abs d"
  proof -
    have "map_of ?b x = None" if "table_map t0 x = Some v" for x v
      using that e(5) by (auto simp: map_of_eq_None_iff)
    then show ?thesis
      by (auto simp: dict_abs_tables d' t(3) e(4) map_add_def fun_eq_iff split: option.split)
  qed
  moreover have "ht_capacity t0 = ht_capacity (ht0 d)" "ht_capacity t = ht_capacity (ht1 d)"
    using t(4) by (simp_all add: t0_def ht_capacity_def)
  ultimately show ?thesis using t(1) d' by auto
qed

lemma promote_spec:
  assumes "mid_inv h d n" and "ht_capacity (ht0 d) \<le> n"
  shows "dict_inv h (promote d)" and "dict_abs (promote d) = dict_abs d" and "\<not> is_rehashing (promote d)"
    and "ht_capacity (ht0 (promote d)) = ht_capacity (ht1 d)"
proof -
  have "\<forall>b\<in>set (buckets (ht0 d)). b = []"
    using assms by (auto simp: mid_inv_def ht_capacity_def in_set_conv_nth)
  then have "concat (buckets (ht0 d)) = []" by (simp add: concat_eq_Nil_conv)
  then have "table_map (ht0 d) = Map.empty" by (simp add: table_map_def)
  then show "dict_abs (promote d) = dict_abs d"
    by (simp add: dict_abs_tables promote_def ht_with_capacity_facts)
  show idle: "\<not> is_rehashing (promote d)" by (simp add: promote_def is_rehashing_def)
  show "dict_inv h (promote d)" unfolding dict_inv_idle [OF idle]
    using assms(1) by (simp add: promote_def mid_inv_def ht_with_capacity_facts)
  show "ht_capacity (ht0 (promote d)) = ht_capacity (ht1 d)" by (simp add: promote_def)
qed

lemma rehash_loop_spec:
  "0 \<le> rehash_idx d \<Longrightarrow> mid_inv h d (nat (rehash_idx d)) \<Longrightarrow>
   \<exists>d'. rehash_loop h m e d = Some d' \<and> dict_inv h d' \<and> dict_abs d' = dict_abs d \<and> \<not> is_empty_table (ht0 d')"
proof (induction h m e d rule: rehash_loop.induct)
  case (1 h m e d)
  let ?i = "nat (rehash_idx d)"
  have re: "is_rehashing d" using 1(3) by (simp add: is_rehashing_def)
  have inv: "dict_inv h d" using 1(3,4) re by (simp add: dict_inv_rehashing)
  have nx: "nat (rehash_idx d + 1) = Suc ?i" using 1(3) by simp
  have ne: "\<not> is_empty_table (ht0 d)" "\<not> is_empty_table (ht0 (promote d))"
    using 1(4) by (simp_all add: mid_inv_def promote_def)
  show ?case
  proof (cases "(m < REHASH_MIN_ENTRIES \<or> e < REHASH_MAX_EMPTY_VISITS) \<and> ?i < ht_capacity (ht0 d)")
    case False
    with inv ne promote_spec [OF 1(4)] show ?thesis
      by (subst rehash_loop.simps) (auto simp: Let_def)
  next
    case True
    show ?thesis
    proof (cases "buckets (ht0 d) ! ?i = []")
      case empty: True
      let ?d = "d \<lparr> rehash_idx := rehash_idx d + 1 \<rparr>"
      have "mid_inv h ?d (Suc ?i)"
        using 1(4) True empty by (auto simp: mid_inv_def less_Suc_eq)
      then have m': "mid_inv h ?d (nat (rehash_idx ?d))" using nx by simp
      then have "dict_inv h ?d" using 1(3) by (subst dict_inv_rehashing) (auto simp: is_rehashing_def)
      with True empty 1(1) [OF _ refl _ empty refl] m' 1(3) ne show ?thesis
        by (subst rehash_loop.simps) (auto simp: Let_def)
    next
      case False
      from mid_step [OF 1(4)] True obtain u t where
        s: "move_chain h (buckets (ht0 d) ! ?i) (used (ht0 d)) (ht1 d) = Some (u, t)"
          "mid_inv h (after_move d ?i u t) (Suc ?i)" "dict_abs (after_move d ?i u t) = dict_abs d" by blast
      let ?d = "(after_move d ?i u t) \<lparr> rehash_idx := rehash_idx d + 1 \<rparr>"
      have "mid_inv h ?d (nat (rehash_idx ?d))" using s(2) nx by simp
      moreover have "0 \<le> rehash_idx ?d" using 1(3) by simp
      ultimately show ?thesis using True False s 1(2) [OF _ refl _ False s(1) refl]
        by (subst rehash_loop.simps) (auto simp: Let_def)
    qed
  qed
qed

lemma rehash_step_spec:
  assumes "dict_inv h d"
  shows "\<exists>d'. rehash_step h d = Some d' \<and> dict_inv h d' \<and> dict_abs d' = dict_abs d \<and>
    (is_empty_table (ht0 d') \<longrightarrow> is_empty_table (ht0 d))"
  using assms rehash_loop_spec [of d h 0 0]
  by (cases "is_rehashing d") (auto simp: rehash_step_def dict_inv_rehashing)

lemma expand_spec:
  assumes "dict_inv h d"
  shows "dict_inv h (expand_if_needed d)" and "dict_abs (expand_if_needed d) = dict_abs d"
    and "\<not> is_empty_table (ht0 (expand_if_needed d))"
proof -
  have cap: "ht_capacity (ht0 d) = 0 \<longleftrightarrow> is_empty_table (ht0 d)"
    by (simp add: ht_capacity_def is_empty_table_def)
  consider "is_rehashing d" | "\<not> is_rehashing d" "is_empty_table (ht0 d)"
    | "\<not> is_rehashing d" "\<not> is_empty_table (ht0 d)" "ht_capacity (ht0 d) \<le> used (ht0 d)"
    | "\<not> is_rehashing d" "\<not> is_empty_table (ht0 d)" "used (ht0 d) < ht_capacity (ht0 d)" by linarith
  then have "dict_inv h (expand_if_needed d) \<and> dict_abs (expand_if_needed d) = dict_abs d \<and>
      \<not> is_empty_table (ht0 (expand_if_needed d))"
  proof cases
    case 1
    with assms show ?thesis by (simp add: expand_if_needed_def dict_inv_rehashing mid_inv_def)
  next
    case 2
    with assms show ?thesis
      by (auto simp: expand_if_needed_def cap Let_def dict_inv_def is_rehashing_def table_keys_dom
        dict_abs_tables ht_with_capacity_facts)
  next
    case 3
    with assms show ?thesis
      by (auto simp: expand_if_needed_def cap Let_def dict_inv_def is_rehashing_def table_keys_dom
        dict_abs_tables ht_with_capacity_facts)
  next
    case 4
    with assms show ?thesis by (simp add: expand_if_needed_def cap)
  qed
  then show "dict_inv h (expand_if_needed d)" "dict_abs (expand_if_needed d) = dict_abs d"
    "\<not> is_empty_table (ht0 (expand_if_needed d))" by simp_all
qed

lemma shrink_spec:
  assumes "dict_inv h d"
  shows "dict_inv h (shrink_if_needed d) \<and> dict_abs (shrink_if_needed d) = dict_abs d"
proof -
  have "\<not> ht_capacity (ht0 d) \<le> INITIAL_SIZE \<Longrightarrow> \<not> is_empty_table (ht0 d)"
    by (auto simp: ht_capacity_def is_empty_table_def)
  with assms show ?thesis
    by (auto simp: shrink_if_needed_def Let_def dict_inv_def is_rehashing_def table_keys_dom
        dict_abs_tables ht_with_capacity_facts)
qed

lemma finish_loop_spec:
  "mid_inv h d i \<Longrightarrow> i \<le> n \<Longrightarrow> n = ht_capacity (ht0 d) \<Longrightarrow>
   \<exists>d'. finish_loop h [i..<n] d = Some d' \<and> mid_inv h d' n \<and> dict_abs d' = dict_abs d \<and>
     ht_capacity (ht0 d') = n"
proof (induction "n - i" arbitrary: i d)
  case 0
  then show ?case by simp
next
  case (Suc k)
  then have i: "i < n" by simp
  with mid_step [OF Suc.prems(1)] Suc.prems(3) obtain u t where
    s: "move_chain h (buckets (ht0 d) ! i) (used (ht0 d)) (ht1 d) = Some (u, t)"
      "mid_inv h (after_move d i u t) (Suc i)" "dict_abs (after_move d i u t) = dict_abs d"
      "ht_capacity (ht0 (after_move d i u t)) = n" by auto
  have "k = n - Suc i" "Suc i \<le> n" "n = ht_capacity (ht0 (after_move d i u t))"
    using Suc.hyps(2) i s(4) by simp_all
  from Suc.hyps(1) [OF this(1) s(2) this(2,3)] s(3) obtain d' where
    "finish_loop h [Suc i..<n] (after_move d i u t) = Some d'" "mid_inv h d' n"
      "dict_abs d' = dict_abs d" "ht_capacity (ht0 d') = n" by metis
  moreover have "[i..<n] = i # [Suc i..<n]" using i by (rule upt_conv_Cons)
  moreover have "idx (buckets (ht0 d)) i = Some (buckets (ht0 d) ! i)"
    using i Suc.prems(3) by (simp add: ht_capacity_def)
  ultimately show ?case using s(1) by simp
qed

lemma finish_rehash_spec:
  assumes "dict_inv h d"
  shows "\<exists>d'. finish_rehash h d = Some d' \<and> dict_inv h d' \<and> dict_abs d' = dict_abs d \<and> \<not> is_rehashing d'"
proof (cases "is_rehashing d")
  case True
  with assms have m: "mid_inv h d (nat (rehash_idx d))" "nat (rehash_idx d) \<le> ht_capacity (ht0 d)"
    by (auto simp: dict_inv_rehashing mid_inv_def)
  from finish_loop_spec [OF m refl] obtain d' where
    "finish_loop h [nat (rehash_idx d)..<ht_capacity (ht0 d)] d = Some d'"
      "mid_inv h d' (ht_capacity (ht0 d))" "dict_abs d' = dict_abs d" "ht_capacity (ht0 d') = ht_capacity (ht0 d)"
    by blast
  with promote_spec [of h d' "ht_capacity (ht0 d)"] True show ?thesis by (simp add: finish_rehash_def)
qed (use assms in \<open>simp add: finish_rehash_def\<close>)

lemma rebuild_chain_move:
  "n \<noteq> 0 \<Longrightarrow> length c \<le> u \<Longrightarrow> rebuild_chain h n c t = map_option snd (move_chain h c u t)"
  by (induction c arbitrary: u t) (auto split: bind_splits)

lemma rebuild_chain_0: "rebuild_chain h 0 c t = Some t"
  by (induction c) auto

lemma rebuild_table_0: "rebuild_table h 0 bs t = Some t"
  by (induction bs) (auto simp: rebuild_chain_0)

lemma rebuild_table_spec:
  "n \<noteq> 0 \<Longrightarrow> table_ok h t \<Longrightarrow> \<not> is_empty_table t \<Longrightarrow> distinct (map fst (concat bs)) \<Longrightarrow>
   fst ` set (concat bs) \<inter> dom (table_map t) = {} \<Longrightarrow>
   \<exists>t'. rebuild_table h n bs t = Some t' \<and> table_ok h t' \<and> table_map t' = table_map t ++ map_of (concat bs) \<and>
     length (buckets t') = length (buckets t)"
proof (induction bs arbitrary: t)
  case (Cons b bs)
  have b: "distinct (map fst b)" "fst ` set b \<inter> dom (table_map t) = {}" "distinct (map fst (concat bs))"
    "fst ` set b \<inter> fst ` set (concat bs) = {}"
    using Cons.prems(4,5) by (auto simp del: set_concat)
  from move_chain_spec [OF Cons.prems(2,3) b(1,2), of "length b"] obtain t1 where
    t1: "rebuild_chain h n b t = Some t1" "table_ok h t1" "table_map t1 = table_map t ++ map_of b"
      "length (buckets t1) = length (buckets t)"
    using rebuild_chain_move [OF Cons.prems(1), of b "length b" h t] by auto
  have ne: "\<not> is_empty_table t1" using t1(4) Cons.prems(3) by (auto simp: is_empty_table_def)
  have "fst ` set (concat bs) \<inter> dom (table_map t1) = {}"
    using Cons.prems(5) b(4) t1(3) by (auto simp: dom_map_of_conv_image_fst simp del: set_concat)
  from Cons.IH [OF Cons.prems(1) t1(2) ne b(3) this] obtain t' where
    t': "rebuild_table h n bs t1 = Some t'" "table_ok h t'" "table_map t' = table_map t1 ++ map_of (concat bs)"
      "length (buckets t') = length (buckets t)" using t1(4) by auto
  have "map_of b ++ map_of (concat bs) = map_of (concat bs) ++ map_of b"
    by (rule map_add_comm) (use b(4) in \<open>simp only: dom_map_of_conv_image_fst\<close>)
  with t'(3) t1(3) have "table_map t' = table_map t ++ map_of (concat (b # bs))"
    by (simp only: concat.simps map_of_append map_add_assoc [symmetric])
  with t' t1(1) show ?case by (simp del: concat.simps(2))
qed simp

lemma table_used: "table_ok h t \<Longrightarrow> used t = card (dom (table_map t))"
proof -
  assume "table_ok h t"
  then have "used t = length (map fst (concat (buckets t)))" "distinct (map fst (concat (buckets t)))"
    by (auto simp: table_ok_def)
  then have "used t = card (set (map fst (concat (buckets t))))" by (simp only: distinct_card)
  then show ?thesis by (simp add: table_map_def dom_map_of_conv_image_fst)
qed

lemma finite_table [simp]: "finite (dom (table_map t))"
  by (simp add: table_map_def finite_dom_map_of)

lemma dict_len_spec: "dict_inv h d \<Longrightarrow> dict_len d = card (dom (dict_abs d))"
  using card_Un_disjoint [of "dom (table_map (ht0 d))" "dom (table_map (ht1 d))"]
  by (simp add: dict_inv_def dict_len_def dict_abs_tables table_used [of h] table_keys_dom)

lemma rebuild_fresh:
  assumes ok: "table_ok h t" and "n = 0 \<longrightarrow> concat (buckets t) = []"
  shows "\<exists>t'. rebuild_table h (table_size n) (buckets t) (ht_with_capacity (table_size n)) = Some t' \<and>
    table_ok h t' \<and> table_map t' = table_map t \<and> ht_capacity t' = table_size n"
proof (cases "n = 0")
  case True
  then have "table_map t = Map.empty" using assms(2) by (simp add: table_map_def)
  with True show ?thesis
    by (simp add: rebuild_table_0 ht_capacity_def ht_with_capacity_facts(1,2))
       (simp add: ht_with_capacity_def)
next
  case False
  have d: "distinct (map fst (concat (buckets t)))" using ok by (simp add: table_ok_def)
  let ?e = "ht_with_capacity (table_size n) :: ('a, 'b) hash_table"
  have "fst ` set (concat (buckets t)) \<inter> dom (table_map ?e) = {}" by (simp add: ht_with_capacity_facts(2))
  with rebuild_table_spec [of "table_size n" h ?e, OF _ ht_with_capacity_facts(1) _ d] False show ?thesis
    by (simp add: ht_with_capacity_facts(2,3,5) table_map_def [of t] ht_capacity_def del: set_concat)
qed

lemma force_rehash_spec:
  assumes "dict_inv h d" and "cap = 0 \<longrightarrow> dict_len d = 0"
  shows "\<exists>d'. force_rehash_to h d cap = Some d' \<and> dict_inv h d' \<and> dict_abs d' = dict_abs d \<and> \<not> is_rehashing d' \<and>
    dict_capacity d' = table_size cap"
proof -
  from finish_rehash_spec [OF assms(1)] obtain d1 where
    d1: "(if is_rehashing d then finish_rehash h d else Some d) = Some d1" "dict_inv h d1"
      "dict_abs d1 = dict_abs d" "\<not> is_rehashing d1" using assms(1) by (cases "is_rehashing d") auto
  have ok: "table_ok h (ht0 d1)" "is_empty_table (ht1 d1)" using d1(2,4) by (auto simp: dict_inv_idle)
  have abs: "dict_abs d1 = table_map (ht0 d1)" using ok(2) by (simp add: dict_abs_tables)
  show ?thesis
  proof (cases "ht_capacity (ht0 d1) = table_size cap")
    case True
    with d1 show ?thesis by (simp add: force_rehash_to_def dict_capacity_def table_size_def [symmetric])
  next
    case False
    have "cap = 0 \<longrightarrow> used (ht0 d1) = 0"
      using assms dict_len_spec [OF assms(1)] table_used [OF ok(1)] d1(3) abs by simp
    then have "cap = 0 \<longrightarrow> concat (buckets (ht0 d1)) = []" using ok(1) by (simp add: table_ok_def)
    from rebuild_fresh [OF ok(1) this] obtain t where
      t: "rebuild_table h (table_size cap) (buckets (ht0 d1)) (ht_with_capacity (table_size cap)) = Some t"
        "table_ok h t" "table_map t = dict_abs d1" "ht_capacity t = table_size cap" by (auto simp: abs)
    let ?d = "d1 \<lparr> ht0 := t, ht1 := ht_clear (ht1 d1), rehash_idx := -1 \<rparr>"
    have "table_ok h (ht_clear (ht1 d1))" "is_empty_table (ht_clear (ht1 d1))"
      by (simp_all add: ht_clear_def table_ok_def is_empty_table_def)
    then have "dict_inv h ?d" "\<not> is_rehashing ?d" "dict_abs ?d = dict_abs d"
      using t(2,3) d1(3) by (auto simp: dict_inv_def is_rehashing_def table_keys_dom dict_abs_tables)
    with d1(1) t(1,4) False show ?thesis
      by (simp add: force_rehash_to_def dict_capacity_def Let_def table_size_def [symmetric])
  qed
qed

lemma dict_reserve_spec:
  assumes "dict_inv h d"
  shows "\<exists>d'. dict_reserve h d n = Some d' \<and> dict_inv h d' \<and> dict_abs d' = dict_abs d \<and>
    dict_len d + n \<le> dict_capacity d'"
proof (cases "dict_len d + n \<le> ht_capacity (ht0 d)")
  case False
  with force_rehash_spec [OF assms, of "dict_len d + n"] table_size_facts(3) [of "dict_len d + n"]
  show ?thesis by (auto simp: dict_reserve_def Let_def simp del: table_size_facts)
qed (use assms in \<open>auto simp: dict_reserve_def dict_capacity_def\<close>)

lemma dict_shrink_to_fit_spec:
  assumes "dict_inv h d"
  shows "\<exists>d'. dict_shrink_to_fit h d = Some d' \<and> dict_inv h d' \<and> dict_abs d' = dict_abs d \<and>
    dict_capacity d' \<le> table_size (dict_len d)"
proof -
  have eq: "dict_shrink_to_fit h d = (if ht_capacity (ht0 d) \<le> table_size (dict_len d) \<and> \<not> is_rehashing d
      then Some d else force_rehash_to h d (table_size (dict_len d)))"
    by (simp only: dict_shrink_to_fit_def Let_def table_size_def)
  show ?thesis
    using force_rehash_spec [OF assms, of "table_size (dict_len d)"] assms
    by (auto simp: eq dict_capacity_def)
qed

section \<open>Operations on the contents\<close>

lemma dict_abs_lookup:
  assumes "dict_inv h d"
  shows "dict_abs d k = (case table_map (ht0 d) k of Some v \<Rightarrow> Some v
    | None \<Rightarrow> if is_rehashing d then table_map (ht1 d) k else None)"
proof (cases "is_rehashing d")
  case True
  then show ?thesis by (simp add: dict_abs_tables map_add_def split: option.split)
next
  case False
  with assms have "is_empty_table (ht1 d)" by (simp add: dict_inv_idle)
  with False show ?thesis by (simp add: dict_abs_tables split: option.split)
qed

text \<open>Storing a table that differs at one key.\<close>

lemma dict_set_spec:
  assumes d: "dict_inv h d" and i: "i < 2" "i = 1 \<longrightarrow> is_rehashing d" "\<not> is_empty_table (ht d i)"
    and t: "table_ok h t" "length (buckets t) = length (buckets (ht d i))"
      "table_map t = (table_map (ht d i))(k := r)"
    and k: "k \<notin> dom (table_map (ht d (1 - i)))"
    and z: "i = 0 \<Longrightarrow> is_rehashing d \<Longrightarrow> \<forall>j<nat (rehash_idx d). buckets t ! j = []"
  shows "dict_inv h (set_ht d i t)" and "dict_abs (set_ht d i t) = (dict_abs d)(k := r)"
proof -
  have ne: "\<not> is_empty_table t" using t(2) i(3) by (auto simp: is_empty_table_def)
  have re: "is_rehashing (set_ht d i t) = is_rehashing d" by (simp add: set_ht_def is_rehashing_def)
  consider "i = 0" "is_rehashing d" | "i = 0" "\<not> is_rehashing d" | "i = 1" "is_rehashing d" using i by linarith
  then show "dict_inv h (set_ht d i t)"
  proof cases
    case 1
    then show ?thesis using d ne t k z unfolding dict_inv_rehashing [OF 1(2)] dict_inv_def re
      by (auto simp: set_ht_def ht_def mid_inv_def table_keys_dom ht_capacity_def split: if_splits)
  next
    case 2
    then show ?thesis using d t(1) unfolding dict_inv_idle [OF 2(2)] dict_inv_def re
      by (auto simp: set_ht_def table_keys_dom)
  next
    case 3
    then show ?thesis using d ne t k unfolding dict_inv_rehashing [OF 3(2)] dict_inv_def re
      by (auto simp: set_ht_def ht_def mid_inv_def table_keys_dom ht_capacity_def split: if_splits)
  qed
  have "table_map (ht d (1 - i)) k = None" using k by (simp add: domIff)
  then show "dict_abs (set_ht d i t) = (dict_abs d)(k := r)"
    using t(3) i(1) by (cases "i = 0") (auto simp: set_ht_def ht_def dict_abs_tables map_add_def fun_eq_iff split: option.split)
qed

text \<open>
  Replacing a chain of one of the tables by one that differs at one key, as every operation that
  finds its key or links a new node does.
\<close>

lemma dict_set_chain:
  assumes d: "dict_inv h d" and i: "i < 2" "i = 1 \<longrightarrow> is_rehashing d" "\<not> is_empty_table (ht d i)"
    and b: "b = buckets (ht d i) ! slot_of h (ht d i) k"
    and b': "distinct (map fst b')" "fst ` set b' \<subseteq> insert k (fst ` set b)" "map_of b' = (map_of b)(k := r)"
      "u + length b = used (ht d i) + length b'"
    and k: "k \<notin> dom (table_map (ht d (1 - i)))" and z: "b = [] \<Longrightarrow> i = 0 \<Longrightarrow> \<not> is_rehashing d"
  defines "d' \<equiv> set_ht d i ((ht d i) \<lparr> buckets := (buckets (ht d i))[slot_of h (ht d i) k := b'], used := u \<rparr>)"
  shows "dict_inv h d'" and "dict_abs d' = (dict_abs d)(k := r)"
proof -
  let ?t = "ht d i"
  have ok: "table_ok h ?t" using d by (auto simp: dict_inv_def ht_def)
  from ok i(3) obtain L R where f: "buckets ?t = L @ b # R" "length L = slot_of h ?t k"
    "k \<notin> fst ` set (concat L)" "k \<notin> fst ` set (concat R)" "(buckets ?t)[slot_of h ?t k := b'] = L @ b' # R"
    by (rule table_focus [of h ?t k]) (simp add: b)
  note r = table_replace [OF ok f(1-4) b']
  have "\<forall>j<nat (rehash_idx d). (L @ b' # R) ! j = []" if "i = 0" "is_rehashing d"
  proof (intro allI impI)
    fix j assume j: "j < nat (rehash_idx d)"
    have e: "\<forall>j<nat (rehash_idx d). (L @ b # R) ! j = []"
      using d that f(1) by (simp add: dict_inv_rehashing mid_inv_def ht_def)
    have "b \<noteq> []" using z that by blast
    then have "j \<noteq> length L" using spec [OF e, of j] j by (cases "j = length L") simp_all
    then have "(L @ b' # R) ! j = (L @ b # R) ! j" by (simp add: nth_append nth_Cons')
    with e j show "(L @ b' # R) ! j = []" by simp
  qed
  then have z': "i = 0 \<Longrightarrow> is_rehashing d \<Longrightarrow>
      \<forall>j<nat (rehash_idx d). buckets (?t \<lparr> buckets := L @ b' # R, used := u \<rparr>) ! j = []" by simp
  show "dict_inv h d'" "dict_abs d' = (dict_abs d)(k := r)"
    unfolding d'_def f(5)
    using dict_set_spec [OF d i r(1) _ r(2) k z'] f(1) by simp_all
qed

lemma table_keep_used [simp]: "t \<lparr> buckets := bs, used := used t \<rparr> = t \<lparr> buckets := bs \<rparr>"
  by (cases t) simp

text \<open>The chain of a key in one of the tables.\<close>

lemma dict_chain:
  fixes d :: "('k, 'v) dict" and k :: 'k
  assumes "dict_inv h d" and "\<not> is_empty_table (ht d i)"
  defines "b \<equiv> buckets (ht d i) ! slot_of h (ht d i) k"
  shows "idx (buckets (ht d i)) (slot_of h (ht d i) k) = Some b" and "map_of b k = table_map (ht d i) k"
    and "distinct (map fst b)" and "length b \<le> used (ht d i)"
proof -
  have ok: "table_ok h (ht d i)" using assms(1) by (auto simp: dict_inv_def ht_def)
  from ok assms(2) obtain L R where f: "buckets (ht d i) = L @ b # R"
    "idx (buckets (ht d i)) (slot_of h (ht d i) k) = Some b" "map_of b k = table_map (ht d i) k"
    by (rule table_focus [of h "ht d i" k]) (simp add: b_def)
  then show "idx (buckets (ht d i)) (slot_of h (ht d i) k) = Some b" "map_of b k = table_map (ht d i) k" by simp_all
  show "distinct (map fst b)" "length b \<le> used (ht d i)"
    using ok unfolding table_ok_def f(1) by simp_all
qed

lemma dict_get_spec:
  assumes "dict_inv h d"
  shows "dict_get h d k = Some (dict_abs d k)"
proof -
  have one: "get_search h d k (i # is) = (if is_empty_table (ht d i) then
      (if is_rehashing d then get_search h d k is else Some None)
      else case table_map (ht d i) k of Some v \<Rightarrow> Some (Some v)
        | None \<Rightarrow> if is_rehashing d then get_search h d k is else Some None)" for i "is"
    using dict_chain [OF assms, of i k] by (auto simp: chain_find_map_of split: option.split)
  show ?thesis
    using assms by (auto simp: dict_get_def one dict_abs_lookup [OF assms] ht_def dict_inv_rehashing mid_inv_def
      simp del: get_search.simps(2) split: option.split)
qed

lemma dict_update_found:
  assumes d: "dict_inv h d" and i: "i < 2" "i = 1 \<longrightarrow> is_rehashing d" "\<not> is_empty_table (ht d i)"
    and b: "b = buckets (ht d i) ! slot_of h (ht d i) k" and m: "map_of b k \<noteq> None"
    and b': "map fst b' = map fst b" "map_of b' = (map_of b)(k \<mapsto> v)"
  defines "d' \<equiv> set_ht d i ((ht d i) \<lparr> buckets := (buckets (ht d i))[slot_of h (ht d i) k := b'] \<rparr>)"
  shows "dict_inv h d'" and "dict_abs d' = (dict_abs d)(k \<mapsto> v)"
proof -
  note c = dict_chain [OF d i(3), of k, folded b]
  have k: "k \<notin> dom (table_map (ht d (1 - i)))"
    using d i(1) m c(2) by (cases "i = 0") (auto simp: dict_inv_def ht_def table_keys_dom)
  have l: "length b' = length b" using b'(1) by (metis length_map)
  have s: "fst ` set b' = fst ` set b" using b'(1) by (metis set_map)
  have ne: "b \<noteq> []" using m by auto
  show "dict_inv h d'" "dict_abs d' = (dict_abs d)(k \<mapsto> v)"
    unfolding d'_def
    using dict_set_chain [OF d i b _ _ b'(2) _ k, of "used (ht d i)"] c(3) b'(1) l s ne by (simp_all add: subset_insertI)
qed

lemma insert_search_spec:
  assumes d: "dict_inv h d" and ne: "\<not> is_empty_table (ht0 d)"
  shows "\<exists>r. insert_search h d k v [0, 1] = Some r \<and>
    (case r of None \<Rightarrow> dict_abs d k = None
     | Some d' \<Rightarrow> dict_abs d k \<noteq> None \<and> dict_inv h d' \<and> dict_abs d' = (dict_abs d)(k \<mapsto> v))"
proof -
  have one: "\<exists>b. idx (buckets (ht d i)) (slot_of h (ht d i) k) = Some b \<and>
      (case chain_update b k v of None \<Rightarrow> table_map (ht d i) k = None
       | Some b' \<Rightarrow> table_map (ht d i) k \<noteq> None \<and>
         dict_inv h (set_ht d i ((ht d i) \<lparr> buckets := (buckets (ht d i))[slot_of h (ht d i) k := b'] \<rparr>)) \<and>
         dict_abs (set_ht d i ((ht d i) \<lparr> buckets := (buckets (ht d i))[slot_of h (ht d i) k := b'] \<rparr>)) =
           (dict_abs d)(k \<mapsto> v))"
    if i: "i < 2" "i = 1 \<longrightarrow> is_rehashing d" "\<not> is_empty_table (ht d i)" for i
  proof -
    note c = dict_chain [OF d i(3), of k]
    show ?thesis
    proof (cases "chain_update (buckets (ht d i) ! slot_of h (ht d i) k) k v")
      case None
      then have "table_map (ht d i) k = None"
        using c(2) by (simp add: chain_update_None map_of_eq_None_iff [symmetric])
      with None c(1) show ?thesis by simp
    next
      case (Some b')
      then have "map_of (buckets (ht d i) ! slot_of h (ht d i) k) k \<noteq> None"
        using chain_update_None [of "buckets (ht d i) ! slot_of h (ht d i) k" k v] by (simp add: map_of_eq_None_iff)
      with c Some chain_update_Some [OF Some] dict_update_found [OF d i refl] show ?thesis by simp
    qed
  qed
  show ?thesis
  proof (cases "is_rehashing d")
    case True
    then have "\<not> is_empty_table (ht1 d)" using d by (simp add: dict_inv_rehashing mid_inv_def)
    with one [of 0] one [of 1] ne True show ?thesis
      by (auto simp: dict_abs_lookup [OF d] ht_def Let_def split: option.split option.split_asm)
  next
    case False
    with one [of 0] ne show ?thesis
      by (auto simp: dict_abs_lookup [OF d] ht_def Let_def split: option.split option.split_asm)
  qed
qed

lemma prepare_insert:
  assumes "dict_inv h d"
  obtains d1 where "rehash_step h (expand_if_needed d) = Some d1" and "dict_inv h d1"
    and "dict_abs d1 = dict_abs d" and "\<not> is_empty_table (ht0 d1)"
  using rehash_step_spec [OF expand_spec(1) [OF assms]] expand_spec(2,3) [OF assms] that by auto

lemma prepare_step:
  assumes "dict_inv h d"
  obtains d1 where "(if is_rehashing d then rehash_step h d else Some d) = Some d1" and "dict_inv h d1"
    and "dict_abs d1 = dict_abs d"
  using rehash_step_spec [OF assms] assms that by (cases "is_rehashing d") auto

text \<open>Where an absent key goes: the second table while rehashing, else the first.\<close>

lemma dict_push_spec:
  assumes d: "dict_inv h d" and ne: "\<not> is_empty_table (ht0 d)" and k: "dict_abs d k = None"
  defines "i \<equiv> if is_rehashing d then 1 else 0"
  shows "\<exists>t. ht_push h (ht d i) (k, v) = Some t \<and> dict_inv h (set_ht d i t) \<and>
    dict_abs (set_ht d i t) = (dict_abs d)(k \<mapsto> v)"
proof -
  have i: "i < 2" "i = 1 \<longrightarrow> is_rehashing d" by (auto simp: i_def)
  have ne': "\<not> is_empty_table (ht d i)" using d ne
    by (auto simp: i_def ht_def dict_inv_rehashing mid_inv_def)
  have ks: "k \<notin> dom (table_map (ht d j))" for j
    using k by (auto simp: dict_abs_tables ht_def map_add_def split: option.splits)
  have "table_ok h (ht d i)" using d by (auto simp: dict_inv_def ht_def)
  from ht_push_spec [OF this ne' ks, of v] obtain t where
    t: "ht_push h (ht d i) (k, v) = Some t" "table_ok h t" "table_map t = (table_map (ht d i))(k \<mapsto> v)"
      "length (buckets t) = length (buckets (ht d i))" by blast
  with dict_set_spec [OF d i ne' t(2,4,3) ks] show ?thesis by (auto simp: i_def)
qed

lemma dict_insert_spec:
  assumes "dict_inv h d"
  shows "\<exists>d'. dict_insert h d k v = Some (d', k \<notin> dom (dict_abs d)) \<and> dict_inv h d' \<and>
    dict_abs d' = (dict_abs d)(k \<mapsto> v)"
proof -
  from assms obtain d1 where d1: "rehash_step h (expand_if_needed d) = Some d1" "dict_inv h d1"
    "dict_abs d1 = dict_abs d" "\<not> is_empty_table (ht0 d1)" by (rule prepare_insert)
  from insert_search_spec [OF d1(2,4), of k v] obtain r where
    r: "insert_search h d1 k v [0, 1] = Some r" "case r of None \<Rightarrow> dict_abs d1 k = None
      | Some d' \<Rightarrow> dict_abs d1 k \<noteq> None \<and> dict_inv h d' \<and> dict_abs d' = (dict_abs d1)(k \<mapsto> v)" by blast
  show ?thesis
  proof (cases r)
    case None
    with r dict_push_spec [OF d1(2,4), of k v] d1 show ?thesis
      by (auto simp: dict_insert_def Let_def domIff simp del: insert_search.simps)
  next
    case (Some d')
    with r d1 show ?thesis by (auto simp: dict_insert_def domIff simp del: insert_search.simps)
  qed
qed

lemma dict_remove_found:
  assumes d: "dict_inv h d" and i: "i < 2" "i = 1 \<longrightarrow> is_rehashing d" "\<not> is_empty_table (ht d i)"
    and b: "b = buckets (ht d i) ! slot_of h (ht d i) k" and k: "k \<in> fst ` set b"
  defines "d' \<equiv> set_ht d i ((ht d i) \<lparr> buckets := (buckets (ht d i))[slot_of h (ht d i) k := filter (\<lambda>e. fst e \<noteq> k) b],
    used := used (ht d i) - 1 \<rparr>)"
  shows "dict_inv h d'" and "dict_abs d' = (dict_abs d)(k := None)" and "0 < used (ht d i)"
proof -
  let ?b' = "filter (\<lambda>e. fst e \<noteq> k) b"
  note c = dict_chain [OF d i(3), of k, folded b]
  have ne: "b \<noteq> []" using k by auto
  show u: "0 < used (ht d i)" using c(4) ne by (cases "used (ht d i)") auto
  have "map_of b k \<noteq> None" using k by (simp add: map_of_eq_None_iff)
  with c(2) have "k \<in> dom (table_map (ht d i))" by (simp add: domIff)
  then have k': "k \<notin> dom (table_map (ht d (1 - i)))"
    using d i(1) by (cases "i = 0") (auto simp: dict_inv_def ht_def table_keys_dom)
  have "distinct (map fst ?b')" using c(3) by (simp add: distinct_map_filter)
  moreover have "fst ` set ?b' \<subseteq> insert k (fst ` set b)" by auto
  moreover have "map_of ?b' = (map_of b)(k := None)" by (rule map_of_filter_key)
  moreover have "used (ht d i) - 1 + length b = used (ht d i) + length ?b'"
    using filter_key_length [OF c(3), of k] k ne u by (cases b) auto
  ultimately show "dict_inv h d'" "dict_abs d' = (dict_abs d)(k := None)"
    unfolding d'_def using dict_set_chain [OF d i b _ _ _ _ k'] ne by blast+
qed

lemma remove_one:
  assumes d: "dict_inv h d" and i: "i < 2" "i = 1 \<longrightarrow> is_rehashing d" "\<not> is_empty_table (ht d i)"
  shows "if k \<in> dom (table_map (ht d i))
    then \<exists>d'. remove_search h d k (i # is) = Some (d', True) \<and> dict_inv h d' \<and> dict_abs d' = (dict_abs d)(k := None)
    else remove_search h d k (i # is) = (if is_rehashing d then remove_search h d k is else Some (d, False))"
proof -
  let ?b = "buckets (ht d i) ! slot_of h (ht d i) k"
  note c = dict_chain [OF d i(3), of k]
  have iff: "k \<in> dom (table_map (ht d i)) \<longleftrightarrow> k \<in> fst ` set ?b"
    using c(2) by (metis domIff map_of_eq_None_iff)
  obtain b' r where rm: "remove_from_chain_iter ?b k = (b', r)" by (cases "remove_from_chain_iter ?b k")
  have b': "r = (k \<in> fst ` set ?b)" "b' = filter (\<lambda>e. fst e \<noteq> k) ?b"
    using remove_from_chain_spec [OF c(3) rm] by auto
  show ?thesis
  proof (cases "k \<in> fst ` set ?b")
    case False
    with c(1) rm b' i(3) iff show ?thesis by (simp add: Let_def)
  next
    case True
    let ?d = "set_ht d i ((ht d i) \<lparr> buckets := (buckets (ht d i))[slot_of h (ht d i) k := b'], used := used (ht d i) - 1 \<rparr>)"
    note f = dict_remove_found [OF d i refl True, folded b'(2)]
    have "remove_search h d k (i # is) = Some (if i = 0 then shrink_if_needed ?d else ?d, True)"
      using c(1) rm b'(1) True i(3) f(3) by (simp add: Let_def)
    with f(1,2) True iff shrink_spec [of h ?d] show ?thesis by auto
  qed
qed

lemma dict_remove_spec:
  assumes "dict_inv h d"
  shows "\<exists>d'. dict_remove h d k = Some (d', k \<in> dom (dict_abs d)) \<and> dict_inv h d' \<and>
    dict_abs d' = (dict_abs d)(k := None)"
proof -
  from assms obtain d1 where
    d1: "(if is_rehashing d then rehash_step h d else Some d) = Some d1" "dict_inv h d1" "dict_abs d1 = dict_abs d"
    by (rule prepare_step)
  have "\<exists>d'. remove_search h d1 k [0, 1] = Some (d', k \<in> dom (dict_abs d1)) \<and> dict_inv h d' \<and>
      dict_abs d' = (dict_abs d1)(k := None)"
  proof (cases "is_rehashing d1")
    case True
    then have "\<not> is_empty_table (ht0 d1)" "\<not> is_empty_table (ht1 d1)"
      using d1(2) by (simp_all add: dict_inv_rehashing mid_inv_def)
    moreover have "dom (dict_abs d1) = dom (table_map (ht0 d1)) \<union> dom (table_map (ht1 d1))"
      by (simp add: dict_abs_tables Un_commute)
    ultimately show ?thesis
      using remove_one [OF d1(2), of 0 k "[1]"] remove_one [OF d1(2), of 1 k "[]"] True d1(2)
      by (auto simp: ht_def fun_upd_idem_iff domIff simp del: remove_search.simps(2) split: if_splits)
  next
    case False
    then have "dom (dict_abs d1) = dom (table_map (ht0 d1))"
      using d1(2) by (simp add: dict_abs_tables dict_inv_idle)
    moreover have "remove_search h d1 k [0, 1] = Some (d1, False)" if "is_empty_table (ht0 d1)"
      using that False by (simp add: ht_def)
    ultimately show ?thesis using False d1(2) remove_one [OF d1(2), of 0 k "[1]"]
      by (cases "is_empty_table (ht0 d1)")
         (auto simp: ht_def fun_upd_idem_iff domIff simp del: remove_search.simps(2) split: if_splits)
  qed
  with d1 show ?thesis by (simp add: dict_remove_def del: remove_search.simps)
qed

lemma get_mut_one:
  assumes d: "dict_inv h d" and i: "i < 2" "i = 1 \<longrightarrow> is_rehashing d" "\<not> is_empty_table (ht d i)"
  shows "case table_map (ht d i) k of None \<Rightarrow> table_get_mut h (ht d i) k f = Some None
    | Some v \<Rightarrow> \<exists>t. table_get_mut h (ht d i) k f = Some (Some (v, t)) \<and> dict_inv h (set_ht d i t) \<and>
        dict_abs (set_ht d i t) = (dict_abs d)(k \<mapsto> f v)"
proof -
  let ?b = "buckets (ht d i) ! slot_of h (ht d i) k"
  note c = dict_chain [OF d i(3), of k]
  show ?thesis
  proof (cases "find_val_mut ?b k f")
    case None
    then have "map_of ?b k = None" by (simp only: find_val_mut_None)
    with c None show ?thesis by (simp add: table_get_mut_def)
  next
    case (Some p)
    obtain v b' where p: "p = (v, b')" by (cases p)
    with Some have s: "map_of ?b k = Some v" "map fst b' = map fst ?b" "map_of b' = (map_of ?b)(k \<mapsto> f v)"
      using find_val_mut_Some [of ?b k f v b'] by auto
    have "table_map (ht d i) k = Some v" using s(1) c(2) by simp
    with dict_update_found [OF d i refl _ s(2,3)] c(1) s(1) Some p show ?thesis
      by (simp add: table_get_mut_def)
  qed
qed

lemma dict_get_mut_spec:
  assumes "dict_inv h d"
  shows "\<exists>d'. dict_get_mut h d k f = Some (dict_abs d k, d') \<and> dict_inv h d' \<and>
    dict_abs d' = (dict_abs d)(k := map_option f (dict_abs d k))"
proof -
  from assms obtain d1 where
    d1: "(if is_rehashing d then rehash_step h d else Some d) = Some d1" "dict_inv h d1" "dict_abs d1 = dict_abs d"
    by (rule prepare_step)
  have id: "m(x := None) = m" if "m x = None" for m :: "'a \<rightharpoonup> 'b" and x using that by auto
  note lk = dict_abs_lookup [OF d1(2), of k]
  show ?thesis
  proof (cases "table_map (ht0 d1) k")
    case (Some v)
    then have "\<not> is_empty_table (ht0 d1)" by auto
    with get_mut_one [OF d1(2), of 0 k f] Some d1 lk show ?thesis
      by (auto simp: dict_get_mut_def ht_def set_ht_def)
  next
    case None
    have r0: "(if \<not> is_empty_table (ht0 d1) then table_get_mut h (ht0 d1) k f else Some None) = Some None"
      using get_mut_one [OF d1(2), of 0 k f] None by (simp add: ht_def)
    show ?thesis
    proof (cases "is_rehashing d1")
      case True
      then have "\<not> is_empty_table (ht1 d1)" using d1(2) by (simp add: dict_inv_rehashing mid_inv_def)
      with get_mut_one [OF d1(2), of 1 k f] None True r0 d1 lk id show ?thesis
        by (cases "table_map (ht1 d1) k") (auto simp: dict_get_mut_def ht_def set_ht_def Let_def)
    next
      case False
      with None r0 d1 lk id show ?thesis by (auto simp: dict_get_mut_def Let_def)
    qed
  qed
qed

section \<open>Iteration\<close>

definition dict_iter_left :: "('k, 'v) dict_iter \<Rightarrow> ('k \<times> 'v) list" where
  "dict_iter_left it = current_entry it @ concat (drop (bucket_idx it) (buckets (it_table it))) @
     (if table_idx it = 0 then concat (buckets (it_t1 it)) else [])"

lemma dict_iter_next_spec:
  "case dict_iter_left it of [] \<Rightarrow> fst (dict_iter_next it) = None
   | e # es \<Rightarrow> \<exists>it'. dict_iter_next it = (Some e, it') \<and> dict_iter_left it' = es"
proof (induction it rule: dict_iter_next.induct)
  case (1 it)
  show ?case
  proof (cases "current_entry it")
    case (Cons e es)
    then show ?thesis
      by (subst dict_iter_next.simps) (simp add: dict_iter_left_def it_table_def)
  next
    case Nil
    show ?thesis
    proof (cases "bucket_idx it \<ge> length (buckets (it_table it))")
      case True
      have l: "dict_iter_left it = (if table_idx it = 0 then concat (buckets (it_t1 it)) else [])"
        using Nil True by (simp add: dict_iter_left_def)
      show ?thesis
      proof (cases "table_idx it = 0 \<and> \<not> is_empty_table (it_t1 it)")
        case t: True
        let ?it = "it \<lparr> table_idx := 1, bucket_idx := 0 \<rparr>"
        have "dict_iter_left ?it = dict_iter_left it" using t l Nil by (simp add: dict_iter_left_def it_table_def)
        moreover have "dict_iter_next it = dict_iter_next ?it"
          using Nil True t by (subst dict_iter_next.simps) simp
        ultimately show ?thesis using 1(1) [OF Nil True t] by (simp only:)
      next
        case f: False
        then have "dict_iter_left it = []" using l by (auto simp: is_empty_table_def)
        moreover have "dict_iter_next it = (None, it)"
          using Nil True f by (subst dict_iter_next.simps) auto
        ultimately show ?thesis by simp
      qed
    next
      case False
      let ?it = "it \<lparr> current_entry := buckets (it_table it) ! bucket_idx it, bucket_idx := bucket_idx it + 1 \<rparr>"
      have "drop (bucket_idx it) (buckets (it_table it)) =
          buckets (it_table it) ! bucket_idx it # drop (Suc (bucket_idx it)) (buckets (it_table it))"
        using False by (simp add: Cons_nth_drop_Suc)
      then have "dict_iter_left ?it = dict_iter_left it" using Nil by (simp add: dict_iter_left_def it_table_def)
      moreover have "dict_iter_next it = dict_iter_next ?it"
        using Nil False by (subst dict_iter_next.simps) simp
      ultimately show ?thesis using 1(2) [OF Nil False] by (simp only:)
    qed
  qed
qed

interpretation dict_it: iterator dict_iter_next dict_iter_left "\<lambda>_. True"
proof
  fix it :: "('a, 'b) dict_iter"
  show "fst (dict_iter_next it) = None" if "dict_iter_left it = []"
    using dict_iter_next_spec [of it] that by simp
  show "\<exists>it'. dict_iter_next it = (Some x, it') \<and> True \<and> dict_iter_left it' = xs" if "dict_iter_left it = x # xs" for x xs
    using dict_iter_next_spec [of it] that by simp
qed

lemma dict_iter_of_left: "dict_iter_left (dict_iter_of d) = dict_entries d"
  by (simp add: dict_iter_left_def dict_iter_of_def it_table_def dict_entries_def)

lemma dict_entries_length: "dict_inv h d \<Longrightarrow> length (dict_entries d) = dict_len d"
  by (simp add: dict_entries_def dict_len_def dict_inv_def table_ok_def)

lemma dict_entries_distinct: "dict_inv h d \<Longrightarrow> distinct (map fst (dict_entries d))"
  by (auto simp: dict_entries_def dict_inv_def table_ok_def table_keys_def simp del: set_concat)

lemma dict_drain: "dict_inv h d \<Longrightarrow> drain dict_iter_next (dict_len d) (dict_iter_of d) = dict_entries d"
  using dict_it.drain_all [of "dict_iter_of d" "dict_len d"] by (simp add: dict_iter_of_left dict_entries_length)

section \<open>Entries\<close>

text \<open>What an entry for \<open>k\<close> points at.\<close>

fun entry_ok :: "('k \<Rightarrow> u64) \<Rightarrow> ('k, 'v) dict \<Rightarrow> 'k \<Rightarrow> 'k entry_loc \<Rightarrow> bool" where
  "entry_ok h d k (Occupied i s p) \<longleftrightarrow>
     i < 2 \<and> (i = 1 \<longrightarrow> is_rehashing d) \<and> \<not> is_empty_table (ht d i) \<and> s = slot_of h (ht d i) k \<and>
     p < length (buckets (ht d i) ! s) \<and> fst (buckets (ht d i) ! s ! p) = k"
| "entry_ok h d k (Vacant key i s) \<longleftrightarrow>
     key = k \<and> i = (if is_rehashing d then 1 else 0) \<and> \<not> is_empty_table (ht0 d) \<and> s = slot_of h (ht d i) k \<and>
     dict_abs d k = None"

lemma find_entry_slot_spec:
  "case find_entry_slot b k of None \<Rightarrow> map_of b k = None
   | Some p \<Rightarrow> p < length b \<and> fst (b ! p) = k \<and> map_of b k = Some (snd (b ! p))"
  by (induction b k rule: find_entry_slot.induct) (auto split: option.splits)

lemma dict_entry_spec:
  assumes "dict_inv h d"
  shows "\<exists>e d1. dict_entry h d k = Some (e, d1) \<and> dict_inv h d1 \<and> dict_abs d1 = dict_abs d \<and> entry_ok h d1 k e \<and>
    ((\<exists>i s p. e = Occupied i s p) \<longleftrightarrow> k \<in> dom (dict_abs d))"
proof -
  from assms obtain d1 where d1: "rehash_step h (expand_if_needed d) = Some d1" "dict_inv h d1"
    "dict_abs d1 = dict_abs d" "\<not> is_empty_table (ht0 d1)" by (rule prepare_insert)
  have find: "\<exists>r. find_in_table h d1 i k = Some r \<and> (case r of None \<Rightarrow> table_map (ht d1 i) k = None
      | Some e \<Rightarrow> table_map (ht d1 i) k \<noteq> None \<and> entry_ok h d1 k e \<and> (\<exists>j s p. e = Occupied j s p))"
    if i: "i < 2" "i = 1 \<longrightarrow> is_rehashing d1" "\<not> is_empty_table (ht d1 i)" for i
    using dict_chain(1) [OF d1(2) i(3), of k] dict_chain(2) [OF d1(2) i(3), of k, symmetric] i
      find_entry_slot_spec [of "buckets (ht d1 i) ! slot_of h (ht d1 i) k" k]
    by (auto simp: find_in_table_def Let_def split: option.splits)
  have sl: "idx (buckets (ht d1 i)) (slot_of h (ht d1 i) k) \<noteq> None" if "\<not> is_empty_table (ht d1 i)" for i
    using dict_chain(1) [OF d1(2) that, of k] by simp
  note lk = dict_abs_lookup [OF d1(2), of k]
  show ?thesis
  proof (cases "is_rehashing d1")
    case True
    then have "\<not> is_empty_table (ht1 d1)" using d1(2) by (simp add: dict_inv_rehashing mid_inv_def)
    with find [of 0] find [of 1] sl [of 1] True d1 lk show ?thesis
      by (auto simp: dict_entry_def Let_def ht_def domIff split: option.split option.split_asm)
  next
    case False
    with find [of 0] sl [of 0] d1 lk show ?thesis
      by (auto simp: dict_entry_def Let_def ht_def domIff split: option.split option.split_asm)
  qed
qed

lemma occupied_chain:
  assumes "dict_inv h d" and "entry_ok h d k (Occupied i s p)"
  defines "b \<equiv> buckets (ht d i) ! s"
  shows "idx (buckets (ht d i)) s = Some b" and "idx b p = Some (k, the (dict_abs d k))"
    and "distinct (map fst b)" and "map_of b k = dict_abs d k" and "k \<in> dom (dict_abs d)"
    and "length b \<le> used (ht d i)"
proof -
  have i: "i < 2" "\<not> is_empty_table (ht d i)" "s = slot_of h (ht d i) k" "p < length b" "fst (b ! p) = k"
    "i = 1 \<longrightarrow> is_rehashing d"
    using assms(2) by (auto simp: b_def)
  note c = dict_chain [OF assms(1) i(2), of k, folded i(3), folded b_def]
  show "idx (buckets (ht d i)) s = Some b" "distinct (map fst b)" "length b \<le> used (ht d i)" using c i by simp_all
  have m: "map_of b k = Some (snd (b ! p))"
    using c(3) i(4,5) by (metis map_of_eq_Some_iff nth_mem prod.collapse)
  then have "table_map (ht d i) k \<noteq> None" using c(2) by simp
  then have "table_map (ht d i) k = dict_abs d k"
    using i(1,6) assms(1) dict_abs_lookup [OF assms(1), of k]
    by (cases "i = 0") (auto simp: ht_def dict_inv_def table_keys_dom split: option.split)
  with c(2) have a: "map_of b k = dict_abs d k" by simp
  with m have v: "dict_abs d k = Some (snd (b ! p))" by simp
  show "map_of b k = dict_abs d k" by (rule a)
  show "k \<in> dom (dict_abs d)" using v by (rule domI)
  show "idx b p = Some (k, the (dict_abs d k))" using v i(4,5) by (simp add: prod_eq_iff)
qed

lemma map_of_update_at:
  "distinct (map fst b) \<Longrightarrow> p < length b \<Longrightarrow> fst (b ! p) = k \<Longrightarrow> map_of (b[p := (k, w)]) = (map_of b)(k \<mapsto> w)"
proof (induction b arbitrary: p)
  case (Cons e b)
  then show ?case
    by (cases p) (auto simp: fun_eq_iff, metis in_set_conv_nth image_eqI)
qed simp

lemma remove_at_key:
  assumes "distinct (map fst b)" and "p < length b" and "fst (b ! p) = k"
  shows "remove_at p b = filter (\<lambda>e. fst e \<noteq> k) b"
proof -
  have eq: "b = take p b @ b ! p # drop (Suc p) b" using assms(2) by (rule id_take_nth_drop)
  then have "distinct (map fst (take p b @ b ! p # drop (Suc p) b))" using assms(1) by simp
  then have "\<forall>e\<in>set (take p b). fst e \<noteq> k" "\<forall>e\<in>set (drop (Suc p) b). fst e \<noteq> k"
    using assms(3) by (auto simp: rev_image_eqI)
  then have "filter (\<lambda>e. fst e \<noteq> k) (take p b @ b ! p # drop (Suc p) b) = remove_at p b"
    using assms(3) by (simp add: remove_at_def filter_id_conv)
  with eq show ?thesis by simp
qed

lemma occupied_modify_spec:
  assumes d: "dict_inv h d" and e: "entry_ok h d k (Occupied i s p)"
  shows "\<exists>d'. occupied_modify d i s p f = Some d' \<and> dict_inv h d' \<and>
    dict_abs d' = (dict_abs d)(k \<mapsto> f (the (dict_abs d k))) \<and> entry_ok h d' k (Occupied i s p)"
proof -
  let ?b = "buckets (ht d i) ! s"
  note c = occupied_chain [OF d e]
  have i: "i < 2" "i = 1 \<longrightarrow> is_rehashing d" "\<not> is_empty_table (ht d i)" "s = slot_of h (ht d i) k"
    "p < length ?b" "fst (?b ! p) = k" using e by auto
  let ?b' = "?b[p := (k, f (the (dict_abs d k)))]"
  let ?d = "set_ht d i ((ht d i) \<lparr> buckets := (buckets (ht d i))[s := ?b'] \<rparr>)"
  have m: "map fst ?b' = map fst ?b" using i(5,6) by (simp add: map_update) (metis list_update_id nth_map)
  have m': "map_of ?b' = (map_of ?b)(k \<mapsto> f (the (dict_abs d k)))" by (rule map_of_update_at) (use c(3) i in auto)
  have ne: "map_of ?b k \<noteq> None" using c(4,5) by (auto simp: domIff)
  have "dict_inv h ?d \<and> dict_abs ?d = (dict_abs d)(k \<mapsto> f (the (dict_abs d k)))"
    using dict_update_found [OF d i(1-3), of ?b k ?b' "f (the (dict_abs d k))"] i(4) ne m m' by simp
  moreover have "occupied_modify d i s p f = Some ?d" using c(1,2) by (simp add: occupied_modify_def)
  moreover have "entry_ok h ?d k (Occupied i s p)"
  proof -
    have "s < length (buckets (ht d i))" using c(1) by (auto simp: idx_def split: if_splits)
    then show ?thesis using i by (simp add: is_empty_table_def)
  qed
  ultimately show ?thesis by blast
qed

lemma occupied_remove_spec:
  assumes d: "dict_inv h d" and e: "entry_ok h d k (Occupied i s p)"
  shows "\<exists>d'. occupied_remove d i s p = Some (the (dict_abs d k), d') \<and> dict_inv h d' \<and>
    dict_abs d' = (dict_abs d)(k := None)"
proof -
  let ?b = "buckets (ht d i) ! s"
  note c = occupied_chain [OF d e]
  have i: "i < 2" "i = 1 \<longrightarrow> is_rehashing d" "\<not> is_empty_table (ht d i)" "s = slot_of h (ht d i) k"
    "p < length ?b" "fst (?b ! p) = k" using e by auto
  let ?d = "set_ht d i ((ht d i) \<lparr> buckets := (buckets (ht d i))[s := remove_at p ?b], used := used (ht d i) - 1 \<rparr>)"
  have r: "remove_at p ?b = filter (\<lambda>e. fst e \<noteq> k) ?b" by (rule remove_at_key) (use c(3) i in auto)
  have "?b ! p \<in> set ?b" using i(5) by simp
  then have k: "k \<in> fst ` set ?b" using i(6) by (metis image_eqI)
  note f = dict_remove_found [OF d i(1-3) arg_cong [OF i(4), of "(!) (buckets (ht d i))"] k]
  have "dict_inv h ?d \<and> dict_abs ?d = (dict_abs d)(k := None)" using f(1,2) by (simp only: r i(4) [symmetric])
  moreover have "occupied_remove d i s p = Some (the (dict_abs d k), ?d)"
    using c(1,2) f(3) by (simp add: occupied_remove_def)
  ultimately show ?thesis by blast
qed

lemma vacant_insert_spec:
  assumes d: "dict_inv h d" and e: "entry_ok h d k (Vacant key i s)"
  shows "\<exists>d'. vacant_insert d key i s v = Some d' \<and> dict_inv h d' \<and> dict_abs d' = (dict_abs d)(k \<mapsto> v)"
proof -
  have v: "key = k" "i = (if is_rehashing d then 1 else 0)" "\<not> is_empty_table (ht0 d)" "s = slot_of h (ht d i) k"
    "dict_abs d k = None" using e by auto
  from dict_push_spec [OF d v(3,5), of v, folded v(2)] obtain t where
    t: "ht_push h (ht d i) (k, v) = Some t" "dict_inv h (set_ht d i t)" "dict_abs (set_ht d i t) = (dict_abs d)(k \<mapsto> v)"
    by blast
  then have "vacant_insert d key i s v = Some (set_ht d i t)"
    by (auto simp: vacant_insert_def ht_push_def v(1,4) bind_Some_iff upd_def idx_def split: if_splits)
  with t(2,3) show ?thesis by blast
qed

section \<open>The contract of a map\<close>

definition dict_ops :: "('k \<Rightarrow> u64) \<Rightarrow> (('k, 'v) dict, 'k, 'v) map_ops" where
  "dict_ops h = \<lparr> m_insert = dict_insert h, m_remove = dict_remove h, m_get = dict_get h, m_len = dict_len \<rparr>"

interpretation dict: map_impl "dict_ops h" dict_abs "dict_inv h" for h :: "'k \<Rightarrow> u64"
proof
  fix d :: "('k, 'v) dict" and k v
  assume d: "dict_inv h d"
  show "\<exists>d'. m_insert (dict_ops h) d k v = Some (d', k \<notin> dom (dict_abs d)) \<and> dict_inv h d' \<and>
      dict_abs d' = (dict_abs d)(k \<mapsto> v)"
    using dict_insert_spec [OF d] by (simp add: dict_ops_def)
  show "\<exists>d'. m_remove (dict_ops h) d k = Some (d', k \<in> dom (dict_abs d)) \<and> dict_inv h d' \<and>
      dict_abs d' = (dict_abs d)(k := None)"
    using dict_remove_spec [OF d] by (simp add: dict_ops_def)
  show "m_get (dict_ops h) d k = Some (dict_abs d k)" using dict_get_spec [OF d] by (simp add: dict_ops_def)
  show "m_len (dict_ops h) d = card (dom (dict_abs d))" using dict_len_spec [OF d] by (simp add: dict_ops_def)
qed

lemma dict_with_hasher_spec: "dict_inv h dict_with_hasher" "dict_abs dict_with_hasher = Map.empty"
  by (simp_all add: dict_with_hasher_def dict_inv_def is_rehashing_def table_keys_dom dict_abs_tables
    ht_with_capacity_facts)

lemma dict_clear_spec: "dict_inv h (dict_clear d)" "dict_abs (dict_clear d) = Map.empty"
  by (simp_all add: dict_clear_def dict_inv_def is_rehashing_def table_keys_dom dict_abs_tables
    ht_clear_def table_ok_def is_empty_table_def table_map_def)

lemma dict_with_capacity_spec:
  "dict_inv h (dict_with_capacity_and_hasher cap)" "dict_abs (dict_with_capacity_and_hasher cap) = Map.empty"
  "cap \<le> dict_capacity (dict_with_capacity_and_hasher cap)"
  by (simp_all add: dict_with_capacity_and_hasher_def dict_inv_def is_rehashing_def table_keys_dom
    dict_abs_tables ht_with_capacity_facts dict_capacity_def ht_capacity_def)

lemma all_equal_spec:
  "dict_inv h d \<Longrightarrow> all_equal h d kvs = Some (\<forall>(k, v)\<in>set kvs. dict_abs d k = Some v)"
  by (induction h d kvs rule: all_equal.induct) (auto simp: dict_get_spec)

lemma finite_dict_abs [simp]: "finite (dom (dict_abs d))"
  by (simp add: dict_abs_def finite_dom_map_of)

lemma visit_seq_insert_all: "visit_seq h d kvs = insert_all (dict_ops h) d kvs"
  by (induction kvs arbitrary: d) (auto simp: dict_ops_def)

lemma rehash_loop_completes:
  "mid_inv h d (nat (rehash_idx d)) \<Longrightarrow> 0 \<le> rehash_idx d \<Longrightarrow> ht_capacity (ht0 d) < REHASH_MAX_EMPTY_VISITS \<Longrightarrow>
   e \<le> nat (rehash_idx d) \<Longrightarrow> rehash_loop h m e d = Some d' \<Longrightarrow> \<not> is_rehashing d'"
proof (induction h m e d rule: rehash_loop.induct)
  case (1 h m e d)
  let ?i = "nat (rehash_idx d)"
  have i: "?i \<le> ht_capacity (ht0 d)" using 1(3) by (simp add: mid_inv_def)
  with 1(5,6) have e: "e < REHASH_MAX_EMPTY_VISITS" by linarith
  have nx: "nat (rehash_idx d + 1) = Suc ?i" using 1(4) by simp
  show ?case
  proof (cases "?i < ht_capacity (ht0 d)")
    case False
    with e 1(7) have "d' = promote d" by (simp add: rehash_loop.simps [of h m e d] Let_def)
    then show ?thesis by (simp add: promote_def is_rehashing_def)
  next
    case True
    with 1(5,6) have e63: "e < 63" by linarith
    then have e': "\<not> (e + 1 \<ge> REHASH_MAX_EMPTY_VISITS \<and> m > 0)" by simp
    show ?thesis
    proof (cases "buckets (ht0 d) ! ?i = []")
      case empty: True
      let ?d = "d \<lparr> rehash_idx := rehash_idx d + 1 \<rparr>"
      have r: "rehash_loop h m (e + 1) ?d = Some d'"
        using 1(7) e e' empty not_le [THEN iffD2, OF True]
        by (simp only: rehash_loop.simps [of h m e d] Let_def simp_thms if_True if_False)
      have "mid_inv h ?d (nat (rehash_idx ?d))"
        using 1(3) True empty nx by (auto simp: mid_inv_def less_Suc_eq)
      then show ?thesis using 1(1) [OF _ refl _ empty refl e' _ _ _ _ r] e True 1(4-6) nx by simp
    next
      case False
      from mid_step [OF 1(3) True] obtain u t where
        s: "move_chain h (buckets (ht0 d) ! ?i) (used (ht0 d)) (ht1 d) = Some (u, t)"
          "mid_inv h (after_move d ?i u t) (Suc ?i)"
          "ht_capacity (ht0 (after_move d ?i u t)) = ht_capacity (ht0 d)" by blast
      let ?d = "(after_move d ?i u t) \<lparr> rehash_idx := rehash_idx d + 1 \<rparr>"
      have r: "rehash_loop h (m + length (buckets (ht0 d) ! ?i)) 0 ?d = Some d'"
        using 1(7) True e False s(1) by (simp add: rehash_loop.simps [of h m e d] Let_def)
      then show ?thesis using 1(2) [OF _ refl _ False s(1) refl _ _ _ _ r] e True 1(4-5) nx s(2,3) by simp
    qed
  qed
qed

lemma entry_modify_or_insert:
  assumes "dict_inv h d"
  shows "\<exists>d'. do { (e, d1) \<leftarrow> dict_entry h d k; (e, d2) \<leftarrow> and_modify d1 e f; or_insert d2 e v } =
      Some (case dict_abs d k of None \<Rightarrow> v | Some x \<Rightarrow> f x, d') \<and> dict_inv h d' \<and>
      dict_abs d' = (dict_abs d)(k \<mapsto> (case dict_abs d k of None \<Rightarrow> v | Some x \<Rightarrow> f x))"
proof -
  from dict_entry_spec [OF assms, of k] obtain e d1 where
    e: "dict_entry h d k = Some (e, d1)" "dict_inv h d1" "dict_abs d1 = dict_abs d" "entry_ok h d1 k e"
      "(\<exists>i s p. e = Occupied i s p) \<longleftrightarrow> k \<in> dom (dict_abs d)" by blast
  show ?thesis
  proof (cases e)
    case (Occupied i s p)
    with e(5) obtain x where x: "dict_abs d k = Some x" by auto
    from occupied_modify_spec [OF e(2), of k i s p f] e(4) Occupied obtain d2 where
      d2: "occupied_modify d1 i s p f = Some d2" "dict_inv h d2"
        "dict_abs d2 = (dict_abs d)(k \<mapsto> f x)" "entry_ok h d2 k (Occupied i s p)" using x e(3) by auto
    have "occupied_get d2 i s p = Some (f x)"
      using occupied_chain(1,2) [OF d2(2,4)] d2(3) by (simp add: occupied_get_def occupied_node_def)
    with e(1) Occupied d2 x show ?thesis by (simp add: and_modify_def or_insert_def)
  next
    case (Vacant key i s)
    with e(5) have x: "dict_abs d k = None" by auto
    from vacant_insert_spec [OF e(2), of k key i s v] e(4) Vacant obtain d2 where
      "vacant_insert d1 key i s v = Some d2" "dict_inv h d2" "dict_abs d2 = (dict_abs d1)(k \<mapsto> v)" by auto
    with e(1,3) Vacant x show ?thesis by (simp add: and_modify_def or_insert_def)
  qed
qed

lemma entry_remove:
  assumes "dict_inv h d" and "dict_abs d k = Some x"
  shows "\<exists>i s p d1 d'. dict_entry h d k = Some (Occupied i s p, d1) \<and>
      occupied_remove d1 i s p = Some (x, d') \<and> dict_inv h d' \<and> dict_abs d' = (dict_abs d)(k := None)"
proof -
  from dict_entry_spec [OF assms(1), of k] assms(2) obtain i s p d1 where
    e: "dict_entry h d k = Some (Occupied i s p, d1)" "dict_inv h d1" "dict_abs d1 = dict_abs d"
      "entry_ok h d1 k (Occupied i s p)" by blast
  from occupied_remove_spec [OF e(2,4)] e(1,3) assms(2) show ?thesis by auto
qed

section \<open>Properties\<close>

text \<open>C6. Every sequence of insertions, removals, lookups and length queries on an empty dictionary runs
  without a panic and answers exactly like a finite map, whatever the hash function.\<close>

theorem dict_refines_map:
  "map_option (\<lambda>(outs, d). (outs, dict_abs d)) (run (map_step (dict_ops h)) ps dict_with_hasher) =
   Some (spec_run map_spec ps Map.empty)"
  using dict.runs.run_refines [OF dict_with_hasher_spec(1), of ps] by (simp add: dict_with_hasher_spec(2))

text \<open>\<open>entry(k).and_modify(f).or_insert(v)\<close> stores and returns \<open>f\<close> of the present value, or \<open>v\<close> for an
  absent key, and keeps the invariant; \<open>OccupiedEntry::remove\<close> returns the value and takes the key out.\<close>

theorem dict_entry_api:
  assumes "dict_inv h d"
  shows "(\<exists>d'. do { (e, d1) \<leftarrow> dict_entry h d k; (e, d2) \<leftarrow> and_modify d1 e f; or_insert d2 e v } =
      Some (case dict_abs d k of None \<Rightarrow> v | Some x \<Rightarrow> f x, d') \<and> dict_inv h d' \<and>
      dict_abs d' = (dict_abs d)(k \<mapsto> (case dict_abs d k of None \<Rightarrow> v | Some x \<Rightarrow> f x))) \<and>
    (\<forall>x. dict_abs d k = Some x \<longrightarrow> (\<exists>i s p d1 d'. dict_entry h d k = Some (Occupied i s p, d1) \<and>
      occupied_remove d1 i s p = Some (x, d') \<and> dict_inv h d' \<and> dict_abs d' = (dict_abs d)(k := None)))"
  using entry_modify_or_insert [OF assms] entry_remove [OF assms] by blast

theorem dict_entry_api_witness:
  "\<exists>d'. do { (e, d1) \<leftarrow> dict_entry (\<lambda>_. 0) dict_with_hasher (1 :: nat); (e, d2) \<leftarrow> and_modify d1 e Suc; or_insert d2 e 5 } =
    Some (5, d') \<and> dict_abs d' = [1 \<mapsto> 5]"
  using dict_entry_api [OF dict_with_hasher_spec(1), of "\<lambda>_. 0" "1 :: nat" Suc 5]
  by (auto simp: dict_with_hasher_spec(2))

text \<open>\<open>reserve\<close> and \<open>shrink_to_fit\<close> keep the contents; \<open>reserve\<close> leaves room for the announced
  items, \<open>shrink_to_fit\<close> at most the smallest power of two that holds them (at least four).\<close>

theorem dict_capacity_control:
  assumes "dict_inv h d"
  shows "(\<exists>d'. dict_reserve h d n = Some d' \<and> dict_inv h d' \<and> dict_abs d' = dict_abs d \<and>
      dict_len d + n \<le> dict_capacity d') \<and>
    (\<exists>d'. dict_shrink_to_fit h d = Some d' \<and> dict_inv h d' \<and> dict_abs d' = dict_abs d \<and>
      dict_capacity d' \<le> (if dict_len d = 0 then 0 else max (next_power_of_two (dict_len d)) INITIAL_SIZE))"
  using dict_reserve_spec [OF assms] dict_shrink_to_fit_spec [OF assms] by (simp add: table_size_def)

theorem dict_capacity_control_witness:
  "\<exists>d'. dict_reserve (\<lambda>_ :: nat. 0) (dict_with_hasher :: (nat, nat) dict) 9 = Some d' \<and> 9 \<le> dict_capacity d'"
  using dict_capacity_control [OF dict_with_hasher_spec(1), of "\<lambda>_ :: nat. 0" 9] by auto

text \<open>Equality of dictionaries, with their own hash functions and capacities, is equality of the
  maps they hold.\<close>

theorem dict_eq_iff:
  assumes "dict_inv h d" and "dict_inv h' d'"
  shows "dict_eq h h' d d' = Some (dict_abs d = dict_abs d')"
proof -
  let ?all = "\<forall>(k, v)\<in>set (dict_entries d). dict_abs d' k = Some v"
  have sub: "?all \<longleftrightarrow> dict_abs d \<subseteq>\<^sub>m dict_abs d'"
    using dict_entries_distinct [OF assms(1)] by (auto simp: map_le_def dict_abs_def dom_def)
  have "dict_abs d = dict_abs d'" if "dict_len d = dict_len d'" "dict_abs d \<subseteq>\<^sub>m dict_abs d'"
  proof -
    have "dom (dict_abs d) = dom (dict_abs d')"
      using that dict_len_spec [OF assms(1)] dict_len_spec [OF assms(2)]
      by (intro card_subset_eq) (auto dest: map_le_implies_dom_le)
    with that(2) show ?thesis by (metis map_le_antisym map_le_def)
  qed
  moreover have "dict_len d = dict_len d'" if "dict_abs d = dict_abs d'"
    using that dict_len_spec [OF assms(1)] dict_len_spec [OF assms(2)] by simp
  ultimately show ?thesis
    unfolding dict_eq_def dict_drain [OF assms(1)] all_equal_spec [OF assms(2)] sub by auto
qed

theorem dict_eq_iff_witness:
  "dict_eq (\<lambda>_. 0) (\<lambda>_. 7) (dict_with_hasher :: (nat, nat) dict) (dict_with_capacity_and_hasher 3) = Some True"
  using dict_eq_iff [OF dict_with_hasher_spec(1) dict_with_capacity_spec(1)]
  by (simp add: dict_with_hasher_spec dict_with_capacity_spec)

text \<open>Serialisation emits every pair once, announces their number, and deserialisation rebuilds the
  same map under any hash function.\<close>

theorem dict_serialize_roundtrip:
  assumes "dict_inv h d"
  shows "fst (dict_serialize d) = length (snd (dict_serialize d)) \<and> distinct (map fst (snd (dict_serialize d))) \<and>
    map_of (snd (dict_serialize d)) = dict_abs d \<and>
    (\<exists>d'. dict_deserialize h' (snd (dict_serialize d)) = Some d' \<and> dict_inv h' d' \<and> dict_abs d' = dict_abs d)"
proof -
  have e: "dict_serialize d = (dict_len d, dict_entries d)"
    by (simp add: dict_serialize_def dict_drain [OF assms])
  have "map_of (rev (dict_entries d)) = dict_abs d"
    unfolding dict_abs_def using dict_entries_distinct [OF assms]
    by (subst map_of_inject_set) (simp_all add: rev_map [symmetric])
  with dict.insert_all_law [OF dict_with_hasher_spec(1) [of h'], of "dict_entries d"]
  have "\<exists>d'. dict_deserialize h' (dict_entries d) = Some d' \<and> dict_inv h' d' \<and> dict_abs d' = dict_abs d"
    by (simp add: dict_deserialize_def visit_seq_insert_all dict_with_hasher_spec(2))
  with dict_entries_length [OF assms] dict_entries_distinct [OF assms] show ?thesis
    by (simp add: e dict_abs_def)
qed

theorem dict_serialize_roundtrip_witness:
  "\<exists>d'. dict_deserialize (\<lambda>_. 1) (snd (dict_serialize (dict_with_hasher :: (nat, nat) dict))) = Some d' \<and>
    dict_abs d' = Map.empty"
  using dict_serialize_roundtrip [where h' = "\<lambda>_. 1" and d = "dict_with_hasher :: (nat, nat) dict",
    OF dict_with_hasher_spec(1) [of "\<lambda>_. 0"]]
  by (auto simp: dict_with_hasher_spec(2))

text \<open>A rehash step is not bounded by \<open>REHASH_MIN_ENTRIES\<close>: on a table of fewer than 64 buckets one step
  always moves everything, because the loop goes on while either counter is below its limit.\<close>

theorem rehash_step_completes_small:
  assumes "dict_inv h d" and "ht_capacity (ht0 d) < REHASH_MAX_EMPTY_VISITS"
  shows "\<exists>d'. rehash_step h d = Some d' \<and> \<not> is_rehashing d' \<and> dict_abs d' = dict_abs d"
proof (cases "is_rehashing d")
  case True
  with rehash_step_spec [OF assms(1)] rehash_loop_completes [of h d 0 0] assms show ?thesis
    by (auto simp: dict_inv_rehashing rehash_step_def)
qed (simp add: rehash_step_def)

theorem rehash_step_completes_small_witness:
  "\<exists>d'. rehash_step (\<lambda>_. 0) (dict_with_hasher :: (nat, nat) dict) = Some d' \<and> \<not> is_rehashing d'"
proof -
  have "ht_capacity (ht0 (dict_with_hasher :: (nat, nat) dict)) < REHASH_MAX_EMPTY_VISITS"
    by (simp add: dict_with_hasher_def ht_capacity_def ht_with_capacity_facts)
  from rehash_step_completes_small [OF dict_with_hasher_spec(1) this] show ?thesis by blast
qed

end
