(* ===== verification/SmartHash.thy ===== *)
theory SmartHash
  imports Interfaces "HOL-Library.Multiset"
begin

text \<open>
  \<open>src/database/smarthash/smarthash_base.rs\<close>: a hash that is a vector of pairs while small and a
  \<open>HashMap\<close> from \<open>THRESHOLD\<close> pairs on, with a deferred way back.

  \<open>std::collections::HashMap\<close> visits its pairs in an order the program cannot know. It is modelled by
  the list of its pairs together with a parameter \<open>\<sigma>\<close> that proposes the order of a traversal:
  \<open>hm_iter\<close> follows \<open>\<sigma>\<close> when it names a permutation of the positions. The theorems hold for every
  \<open>\<sigma>\<close>, and every order arises from one.
\<close>

section \<open>The standard hash map\<close>

type_synonym ('k, 'v) hash_map = "('k \<times> 'v) list"
type_synonym ('k, 'v) order = "('k \<times> 'v) list \<Rightarrow> nat list"

fun hm_insert :: "('k, 'v) hash_map \<Rightarrow> 'k \<Rightarrow> 'v \<Rightarrow> ('k, 'v) hash_map \<times> 'v option" where
  "hm_insert [] key val = ([(key, val)], None)"
| "hm_insert ((k, v) # m) key val =
     (if k = key then ((k, val) # m, Some v)
      else let (m', old) = hm_insert m key val in ((k, v) # m', old))"

definition hm_remove :: "('k, 'v) hash_map \<Rightarrow> 'k \<Rightarrow> ('k, 'v) hash_map \<times> 'v option" where
  "hm_remove m key = (filter (\<lambda>e. fst e \<noteq> key) m, map_of m key)"

definition hm_iter :: "('k, 'v) order \<Rightarrow> ('k, 'v) hash_map \<Rightarrow> ('k \<times> 'v) list" where
  "hm_iter \<sigma> m =
     (if mset (\<sigma> m) = mset [0..<length m] then map ((!) m) (\<sigma> m) else m)"

lemma hm_iter_mset: "mset (hm_iter \<sigma> m) = mset m"
proof (cases "mset (\<sigma> m) = mset [0..<length m]")
  case True
  then have "mset (map ((!) m) (\<sigma> m)) = mset (map ((!) m) [0..<length m])" by (simp only: mset_map)
  with True show ?thesis by (simp add: hm_iter_def map_nth)
qed (auto simp: hm_iter_def)

lemma hm_iter_facts:
  "set (hm_iter \<sigma> m) = set m" "length (hm_iter \<sigma> m) = length m"
  "distinct (map fst (hm_iter \<sigma> m)) \<longleftrightarrow> distinct (map fst m)"
proof -
  note e = hm_iter_mset [of \<sigma> m]
  show "set (hm_iter \<sigma> m) = set m" "length (hm_iter \<sigma> m) = length m"
    using e by (metis mset_eq_setD, metis mset_eq_length)
  have "mset (map fst (hm_iter \<sigma> m)) = mset (map fst m)" using e by (simp only: mset_map)
  then show "distinct (map fst (hm_iter \<sigma> m)) \<longleftrightarrow> distinct (map fst m)" by (metis mset_eq_imp_distinct_iff)
qed

lemma hm_iter_map_of: "distinct (map fst m) \<Longrightarrow> map_of (hm_iter \<sigma> m) = map_of m"
  by (subst map_of_inject_set) (simp_all add: hm_iter_facts)

lemma hm_insert_map: "hm_insert m k v = (m', old) \<Longrightarrow> old = map_of m k \<and> map_of m' = (map_of m)(k \<mapsto> v)"
proof (induction m arbitrary: m' old)
  case (Cons e m)
  obtain k' v' where e: "e = (k', v')" by (cases e)
  obtain m1 o1 where r: "hm_insert m k v = (m1, o1)" by (cases "hm_insert m k v")
  from Cons.prems Cons.IH [OF r] show ?case
    by (cases "k' = k") (auto simp: e r fun_upd_twist)
qed auto

lemma hm_insert_keys:
  "hm_insert m k v = (m', old) \<Longrightarrow> map fst m' = (if k \<in> fst ` set m then map fst m else map fst m @ [k])"
proof (induction m arbitrary: m' old)
  case (Cons e m)
  obtain k' v' where e: "e = (k', v')" by (cases e)
  obtain m1 o1 where r: "hm_insert m k v = (m1, o1)" by (cases "hm_insert m k v")
  from Cons.prems Cons.IH [OF r] show ?case
    by (cases "k' = k") (clarsimp simp: e r)+
qed auto

lemma hm_insert_distinct:
  "hm_insert m k v = (m', old) \<Longrightarrow> distinct (map fst m) \<Longrightarrow> distinct (map fst m')"
  by (simp add: hm_insert_keys del: set_map) simp

lemma hm_remove_spec:
  assumes "hm_remove m k = (m', old)" and "distinct (map fst m)"
  shows "old = map_of m k" and "map_of m' = (map_of m)(k := None)" and "distinct (map fst m')"
    and "length m' \<le> length m"
proof -
  have m': "m' = filter (\<lambda>e. fst e \<noteq> k) m" "old = map_of m k" using assms(1) by (auto simp: hm_remove_def)
  then show "old = map_of m k" "distinct (map fst m')" "length m' \<le> length m"
    using assms(2) by (simp_all add: distinct_map_filter)
  show "map_of m' = (map_of m)(k := None)" unfolding m'(1) by (induction m) (auto simp: fun_eq_iff)
qed

section \<open>State and operations\<close>

abbreviation THRESHOLD :: nat where "THRESHOLD \<equiv> 32"

datatype ('k, 'v) repr = Zip "('k \<times> 'v) list" | Map "('k, 'v) hash_map"

record ('k, 'v) smart_hash =
  repr :: "('k, 'v) repr"
  pending_downgrade :: bool

definition sh_new :: "('k, 'v) smart_hash" where
  "sh_new = \<lparr> repr = Zip [], pending_downgrade = False \<rparr>"

definition sh_len :: "('k, 'v) smart_hash \<Rightarrow> nat" where
  "sh_len s = (case repr s of Zip v \<Rightarrow> length v | Map m \<Rightarrow> length m)"

definition sh_is_empty :: "('k, 'v) smart_hash \<Rightarrow> bool" where
  "sh_is_empty s \<longleftrightarrow> sh_len s = 0"

definition sh_contains :: "('k, 'v) smart_hash \<Rightarrow> 'k \<Rightarrow> bool" where
  "sh_contains s key = (case repr s of
     Zip v \<Rightarrow> list_ex (\<lambda>(k, _). k = key) v
   | Map m \<Rightarrow> map_of m key \<noteq> None)"

definition do_downgrade :: "('k, 'v) order \<Rightarrow> ('k, 'v) smart_hash \<Rightarrow> ('k, 'v) smart_hash" where
  "do_downgrade \<sigma> s = (case repr s of
     Map m \<Rightarrow> s \<lparr> repr := Zip (hm_iter \<sigma> m), pending_downgrade := False \<rparr>
   | Zip v \<Rightarrow> s \<lparr> repr := Zip [], pending_downgrade := False \<rparr>)"

text \<open>\<open>vec.iter_mut().find(|(k, _)| *k == key)\<close> and the write through the reference.\<close>
fun zip_update :: "('k \<times> 'v) list \<Rightarrow> 'k \<Rightarrow> 'v \<Rightarrow> ('k \<times> 'v) list option" where
  "zip_update [] key val = None"
| "zip_update ((k, v) # vec) key val =
     (if k = key then Some ((k, val) # vec) else map_option ((#) (k, v)) (zip_update vec key val))"

fun insert_pairs :: "('k, 'v) hash_map \<Rightarrow> ('k \<times> 'v) list \<Rightarrow> ('k, 'v) hash_map" where
  "insert_pairs m [] = m"
| "insert_pairs m ((k, v) # kvs) = insert_pairs (fst (hm_insert m k v)) kvs"

definition sh_insert :: "('k, 'v) order \<Rightarrow> ('k, 'v) smart_hash \<Rightarrow> 'k \<Rightarrow> 'v \<Rightarrow> ('k, 'v) smart_hash \<times> bool" where
  "sh_insert \<sigma> s0 key val =
     (let s = (if pending_downgrade s0 then do_downgrade \<sigma> s0 else s0) in
      case repr s of
        Zip vec \<Rightarrow>
          (case zip_update vec key val of
             Some vec' \<Rightarrow> (s \<lparr> repr := Zip vec' \<rparr>, False)
           | None \<Rightarrow>
               let vec' = vec @ [(key, val)] in
               if length vec' \<ge> THRESHOLD then (s \<lparr> repr := Map (insert_pairs [] vec') \<rparr>, True)
               else (s \<lparr> repr := Zip vec' \<rparr>, True))
      | Map m \<Rightarrow>
          let (m', old) = hm_insert m key val in (s \<lparr> repr := Map m' \<rparr>, old = None))"

fun zip_get :: "('k \<times> 'v) list \<Rightarrow> 'k \<Rightarrow> 'v option" where
  "zip_get [] key = None"
| "zip_get ((k, v) # vec) key = (if k = key then Some v else zip_get vec key)"

definition sh_get :: "('k, 'v) smart_hash \<Rightarrow> 'k \<Rightarrow> 'v option" where
  "sh_get s key = (case repr s of Zip vec \<Rightarrow> zip_get vec key | Map m \<Rightarrow> map_of m key)"

fun zip_position :: "('k \<times> 'v) list \<Rightarrow> 'k \<Rightarrow> nat option" where
  "zip_position [] key = None"
| "zip_position ((k, v) # vec) key = (if k = key then Some 0 else map_option Suc (zip_position vec key))"

definition sh_remove :: "('k, 'v) smart_hash \<Rightarrow> 'k \<Rightarrow> ('k, 'v) smart_hash \<times> bool" where
  "sh_remove s key =
     (let (r, removed) = (case repr s of
            Zip vec \<Rightarrow> (case zip_position vec key of
                Some pos \<Rightarrow> (Zip (remove_at pos vec), True)
              | None \<Rightarrow> (Zip vec, False))
          | Map m \<Rightarrow> let (m', old) = hm_remove m key in (Map m', old \<noteq> None));
          s' = s \<lparr> repr := r \<rparr> in
      (if removed then
         case r of Map m \<Rightarrow>
             if length m < THRESHOLD div 2 then s' \<lparr> pending_downgrade := True \<rparr> else s'
         | Zip _ \<Rightarrow> s'
       else s', removed))"

definition sh_clear :: "('k, 'v) smart_hash \<Rightarrow> ('k, 'v) smart_hash" where
  "sh_clear s = s \<lparr> repr := Zip [], pending_downgrade := False \<rparr>"

definition sh_keys :: "('k, 'v) order \<Rightarrow> ('k, 'v) smart_hash \<Rightarrow> 'k list" where
  "sh_keys \<sigma> s = (case repr s of Zip v \<Rightarrow> map fst v | Map m \<Rightarrow> map fst (hm_iter \<sigma> m))"

definition sh_values :: "('k, 'v) order \<Rightarrow> ('k, 'v) smart_hash \<Rightarrow> 'v list" where
  "sh_values \<sigma> s = (case repr s of Zip v \<Rightarrow> map snd v | Map m \<Rightarrow> map snd (hm_iter \<sigma> m))"

definition sh_entries :: "('k, 'v) order \<Rightarrow> ('k, 'v) smart_hash \<Rightarrow> ('k \<times> 'v) list" where
  "sh_entries \<sigma> s = (case repr s of Zip v \<Rightarrow> v | Map m \<Rightarrow> hm_iter \<sigma> m)"

text \<open>\<open>iter\<close> takes \<open>&mut self\<close> and performs a pending downgrade; the pairs are what it will yield.\<close>
definition sh_iter :: "('k, 'v) order \<Rightarrow> ('k, 'v) smart_hash \<Rightarrow> ('k \<times> 'v) list \<times> ('k, 'v) smart_hash" where
  "sh_iter \<sigma> s0 =
     (let s = (if pending_downgrade s0 then do_downgrade \<sigma> s0 else s0) in
      (case repr s of Zip vec \<Rightarrow> vec | Map m \<Rightarrow> hm_iter \<sigma> m, s))"

fun sh_extend :: "('k, 'v) order \<Rightarrow> ('k, 'v) smart_hash \<Rightarrow> ('k \<times> 'v) list \<Rightarrow> ('k, 'v) smart_hash" where
  "sh_extend \<sigma> s [] = s"
| "sh_extend \<sigma> s ((k, v) # kvs) = sh_extend \<sigma> (fst (sh_insert \<sigma> s k v)) kvs"

definition sh_from_iter :: "('k, 'v) order \<Rightarrow> ('k \<times> 'v) list \<Rightarrow> ('k, 'v) smart_hash" where
  "sh_from_iter \<sigma> kvs = sh_extend \<sigma> sh_new kvs"

section \<open>Contents and invariant\<close>

definition sh_pairs :: "('k, 'v) smart_hash \<Rightarrow> ('k \<times> 'v) list" where
  "sh_pairs s = (case repr s of Zip v \<Rightarrow> v | Map m \<Rightarrow> m)"

definition sh_abs :: "('k, 'v) smart_hash \<Rightarrow> 'k \<rightharpoonup> 'v" where
  "sh_abs s = map_of (sh_pairs s)"

text \<open>A vector stays below the threshold, and a downgrade is pending only for a small map.\<close>
definition sh_inv :: "('k, 'v) smart_hash \<Rightarrow> bool" where
  "sh_inv s \<longleftrightarrow> distinct (map fst (sh_pairs s)) \<and>
     (case repr s of Zip v \<Rightarrow> length v < THRESHOLD \<and> \<not> pending_downgrade s
      | Map m \<Rightarrow> pending_downgrade s \<longrightarrow> length m < THRESHOLD div 2)"

lemma zip_update_None: "zip_update b k v = None \<longleftrightarrow> k \<notin> fst ` set b"
  by (induction b k v rule: zip_update.induct) auto

lemma zip_update_Some:
  "zip_update b k v = Some b' \<Longrightarrow> map fst b' = map fst b \<and> map_of b' = (map_of b)(k \<mapsto> v)"
  by (induction b k v arbitrary: b' rule: zip_update.induct) (force split: if_splits)+

lemma zip_get_map_of: "zip_get b k = map_of b k"
  by (induction b k rule: zip_get.induct) auto

lemma zip_position_spec:
  "distinct (map fst b) \<Longrightarrow> case zip_position b k of None \<Rightarrow> k \<notin> fst ` set b
   | Some p \<Rightarrow> p < length b \<and> k \<in> fst ` set b \<and> remove_at p b = filter (\<lambda>e. fst e \<noteq> k) b"
proof (induction b k rule: zip_position.induct)
  case (2 k v vec key)
  have "filter (\<lambda>e. fst e \<noteq> key) vec = vec" if "key \<notin> fst ` set vec"
    using that by (auto simp: filter_id_conv)
  moreover have "key \<in> fst ` set vec" if "(key, b) \<in> set vec" for b using that by force
  ultimately show ?case using 2 by (auto simp: remove_at_def split: option.splits)
qed simp

lemma insert_pairs_spec:
  "distinct (map fst m) \<Longrightarrow>
   distinct (map fst (insert_pairs m kvs)) \<and> map_of (insert_pairs m kvs) = map_of m ++ map_of (rev kvs)"
proof (induction m kvs rule: insert_pairs.induct)
  case (2 m k v kvs)
  obtain m' r where r: "hm_insert m k v = (m', r)" by (cases "hm_insert m k v")
  have "map_of (insert_pairs m' kvs) = (map_of m)(k \<mapsto> v) ++ map_of (rev kvs)"
    and "distinct (map fst (insert_pairs m' kvs))"
    using 2(1) hm_insert_distinct [OF r 2(2)] hm_insert_map [OF r] by (simp_all only: r fst_conv)
  then show ?case using r by (simp add: map_add_def fun_eq_iff split: option.split)
qed simp

lemma downgrade_spec:
  fixes \<sigma> :: "('k, 'v) order" and s :: "('k, 'v) smart_hash"
  assumes "sh_inv s"
  defines "s' \<equiv> if pending_downgrade s then do_downgrade \<sigma> s else s"
  shows "sh_inv s'" and "sh_abs s' = sh_abs s" and "\<not> pending_downgrade s'"
  using assms
  by (auto simp: s'_def sh_inv_def sh_abs_def sh_pairs_def do_downgrade_def hm_iter_facts hm_iter_map_of
      split: repr.splits)

lemma sh_insert_spec:
  assumes "sh_inv s" and "sh_insert \<sigma> s k v = (s', b)"
  shows "sh_inv s' \<and> sh_abs s' = (sh_abs s)(k \<mapsto> v) \<and> b = (k \<notin> dom (sh_abs s))"
proof -
  define s1 where "s1 = (if pending_downgrade s then do_downgrade \<sigma> s else s)"
  note d = downgrade_spec [OF assms(1), of \<sigma>, folded s1_def]
  show ?thesis
  proof (cases "repr s1")
    case (Zip vec)
    have dv: "distinct (map fst vec)" "length vec < THRESHOLD" "sh_abs s = map_of vec"
      using d Zip by (auto simp: sh_inv_def sh_abs_def sh_pairs_def)
    show ?thesis
    proof (cases "zip_update vec k v")
      case None
      then have k: "k \<notin> fst ` set vec" using zip_update_None [of vec k v] by simp
      have "distinct (map fst (insert_pairs [] (vec @ [(k, v)])))"
        "map_of (insert_pairs [] (vec @ [(k, v)])) = map_of (vec @ [(k, v)])"
        using insert_pairs_spec [of "[]" "vec @ [(k, v)]"] dv(1) k
          map_of_inject_set [of "rev (vec @ [(k, v)])" "vec @ [(k, v)]"]
        by (auto simp: rev_map [symmetric])
      moreover have "map_of (vec @ [(k, v)]) = (map_of vec)(k \<mapsto> v)"
      proof -
        have "map_of vec k = None" using k by (simp add: map_of_eq_None_iff)
        then show ?thesis by (auto simp: fun_eq_iff map_add_def split: option.split)
      qed
      ultimately show ?thesis using assms(2) Zip None k dv d(3)
        by (auto simp: sh_insert_def s1_def [symmetric] Let_def sh_inv_def sh_abs_def sh_pairs_def
            dom_map_of_conv_image_fst split: if_splits)
    next
      case (Some vec')
      with zip_update_Some [OF Some] assms(2) Zip dv d(3) zip_update_None [of vec k v] show ?thesis
        by (auto simp: sh_insert_def s1_def [symmetric] Let_def sh_inv_def sh_abs_def sh_pairs_def
            dom_map_of_conv_image_fst dest: map_eq_imp_length_eq)
    qed
  next
    case (Map m)
    obtain m' r where r: "hm_insert m k v = (m', r)" by (cases "hm_insert m k v")
    from hm_insert_map [OF r] hm_insert_distinct [OF r] assms(2) Map d r show ?thesis
      by (auto simp: sh_insert_def s1_def [symmetric] Let_def sh_inv_def sh_abs_def sh_pairs_def domIff)
  qed
qed

lemma sh_remove_spec:
  assumes "sh_inv s" and "sh_remove s k = (s', b)"
  shows "sh_inv s' \<and> sh_abs s' = (sh_abs s)(k := None) \<and> b = (k \<in> dom (sh_abs s))"
proof (cases "repr s")
  case (Zip vec)
  have dv: "distinct (map fst vec)" "length vec < THRESHOLD" "\<not> pending_downgrade s" "sh_abs s = map_of vec"
    using assms(1) Zip by (auto simp: sh_inv_def sh_abs_def sh_pairs_def)
  note z = zip_position_spec [OF dv(1), of k]
  have f: "map_of (filter (\<lambda>e. fst e \<noteq> k) vec) = (map_of vec)(k := None)"
    "distinct (map fst (filter (\<lambda>e. fst e \<noteq> k) vec))" "length (filter (\<lambda>e. fst e \<noteq> k) vec) \<le> length vec"
    using hm_remove_spec(2,3,4) [of vec k "filter (\<lambda>e. fst e \<noteq> k) vec"] dv(1) by (simp_all add: hm_remove_def)
  show ?thesis
  proof (cases "zip_position vec k")
    case None
    with z have "map_of vec k = None" by (simp add: map_of_eq_None_iff)
    moreover have "s' = s \<lparr> repr := Zip vec \<rparr>" "\<not> b" using assms(2) Zip None by (auto simp: sh_remove_def)
    ultimately show ?thesis using dv by (auto simp: sh_inv_def sh_abs_def sh_pairs_def fun_upd_idem)
  next
    case (Some p)
    with z have r: "k \<in> fst ` set vec" "remove_at p vec = filter (\<lambda>e. fst e \<noteq> k) vec" by auto
    moreover have "s' = s \<lparr> repr := Zip (remove_at p vec) \<rparr>" "b" using assms(2) Zip Some by (auto simp: sh_remove_def)
    ultimately show ?thesis using dv f order.strict_trans1 [OF length_filter_le dv(2)]
      by (auto simp: sh_inv_def sh_abs_def sh_pairs_def dom_map_of_conv_image_fst)
  qed
next
  case (Map m)
  obtain m' r where r: "hm_remove m k = (m', r)" by (cases "hm_remove m k")
  have "distinct (map fst m)" using assms(1) Map by (auto simp: sh_inv_def sh_pairs_def)
  with hm_remove_spec [OF r] assms Map r show ?thesis
    by (auto simp: sh_remove_def Let_def sh_inv_def sh_abs_def sh_pairs_def split: if_splits)
qed

section \<open>The contract of a map\<close>

definition sh_ops :: "('k, 'v) order \<Rightarrow> (('k, 'v) smart_hash, 'k, 'v) map_ops" where
  "sh_ops \<sigma> = \<lparr> m_insert = (\<lambda>s k v. Some (sh_insert \<sigma> s k v)), m_remove = (\<lambda>s k. Some (sh_remove s k)),
     m_get = (\<lambda>s k. Some (sh_get s k)), m_len = sh_len \<rparr>"

interpretation sh: map_impl "sh_ops \<sigma>" sh_abs sh_inv for \<sigma> :: "('k, 'v) order"
proof
  fix s :: "('k, 'v) smart_hash" and k v
  assume s: "sh_inv s"
  show "\<exists>s'. m_insert (sh_ops \<sigma>) s k v = Some (s', k \<notin> dom (sh_abs s)) \<and> sh_inv s' \<and> sh_abs s' = (sh_abs s)(k \<mapsto> v)"
    using sh_insert_spec [OF s, of \<sigma> k v] by (cases "sh_insert \<sigma> s k v") (simp add: sh_ops_def)
  show "\<exists>s'. m_remove (sh_ops \<sigma>) s k = Some (s', k \<in> dom (sh_abs s)) \<and> sh_inv s' \<and> sh_abs s' = (sh_abs s)(k := None)"
    using sh_remove_spec [OF s, of k] by (cases "sh_remove s k") (simp add: sh_ops_def)
  show "m_get (sh_ops \<sigma>) s k = Some (sh_abs s k)"
    by (simp add: sh_ops_def sh_get_def sh_abs_def sh_pairs_def zip_get_map_of split: repr.split)
  have "distinct (map fst (sh_pairs s))" using s by (simp add: sh_inv_def)
  then have "length (sh_pairs s) = card (fst ` set (sh_pairs s))" by (metis distinct_card length_map set_map)
  then show "m_len (sh_ops \<sigma>) s = card (dom (sh_abs s))"
    by (simp add: sh_ops_def sh_len_def sh_abs_def dom_map_of_conv_image_fst sh_pairs_def split: repr.splits)
qed

lemma sh_new_spec: "sh_inv sh_new" "sh_abs sh_new = Map.empty"
  by (simp_all add: sh_new_def sh_inv_def sh_abs_def sh_pairs_def)

lemma sh_contains_spec: "sh_contains s k \<longleftrightarrow> k \<in> dom (sh_abs s)"
proof -
  have "list_ex (\<lambda>(k', _). k' = k) v \<longleftrightarrow> k \<in> fst ` set v" for v :: "('a \<times> 'b) list"
    by (auto simp: list_ex_iff rev_image_eqI)
  then show ?thesis
    by (auto simp: sh_contains_def sh_abs_def sh_pairs_def domIff map_of_eq_None_iff split: repr.split)
qed

lemma sh_extend_insert_all: "insert_all (sh_ops \<sigma>) s kvs = Some (sh_extend \<sigma> s kvs)"
  by (induction kvs arbitrary: s) (auto simp: sh_ops_def split: prod.split)

section \<open>Properties\<close>

text \<open>C11. Every sequence of insertions, removals, lookups and length queries on a new \<open>SmartHash\<close> answers
  exactly like a finite map, across the switches of representation and for every traversal order of
  the standard hash map; afterwards a vector representation holds fewer than \<open>THRESHOLD\<close> pairs.\<close>

theorem smarthash_refines_map:
  "\<exists>s. run (map_step (sh_ops \<sigma>)) ps sh_new = Some (fst (spec_run map_spec ps Map.empty), s) \<and>
    sh_abs s = snd (spec_run map_spec ps Map.empty) \<and> (\<forall>vec. repr s = Zip vec \<longrightarrow> length vec < THRESHOLD)"
proof -
  from sh.runs.run_sim [OF sh_new_spec(1), of ps \<sigma>] obtain outs s where
    "run (map_step (sh_ops \<sigma>)) ps sh_new = Some (outs, s)" "sh_inv s"
    "spec_run map_spec ps (sh_abs sh_new) = (outs, sh_abs s)" by auto
  then show ?thesis by (auto simp: sh_new_spec(2) sh_inv_def)
qed

theorem smarthash_refines_map_witness:
  "\<exists>s. run (map_step (sh_ops (\<lambda>_. []))) [Map_Insert (1 :: nat) (2 :: nat), Map_Remove 1, Map_Get 1] sh_new =
    Some ([Map_Bool True, Map_Bool True, Map_Val None], s) \<and> sh_abs s = Map.empty"
  using smarthash_refines_map [of "\<lambda>_. []" "[Map_Insert (1 :: nat) (2 :: nat), Map_Remove 1, Map_Get 1]"]
  by (auto simp: fun_eq_iff)

lemma sh_entries_spec:
  assumes "sh_inv s"
  shows "distinct (map fst (sh_entries \<sigma> s))" and "map_of (sh_entries \<sigma> s) = sh_abs s"
    and "sh_keys \<sigma> s = map fst (sh_entries \<sigma> s)" and "sh_values \<sigma> s = map snd (sh_entries \<sigma> s)"
  using assms
  by (auto simp: sh_keys_def sh_values_def sh_entries_def sh_inv_def sh_abs_def sh_pairs_def hm_iter_facts hm_iter_map_of
      split: repr.splits)

lemma sh_iter_spec:
  assumes "sh_inv s" and "sh_iter \<sigma> s = (es, s')"
  shows "sh_inv s'" and "distinct (map fst es)" and "map_of es = sh_abs s" and "sh_abs s' = sh_abs s" and "\<not> pending_downgrade s'"
proof -
  define t where "t = (if pending_downgrade s then do_downgrade \<sigma> s else s)"
  note d = downgrade_spec [OF assms(1), of \<sigma>, folded t_def]
  have "sh_iter \<sigma> s = (sh_entries \<sigma> t, t)" by (simp add: sh_iter_def t_def [symmetric] sh_entries_def Let_def)
  then have "es = sh_entries \<sigma> t" "s' = t" using assms(2) by simp_all
  then show "sh_inv s'" and "distinct (map fst es)" and "map_of es = sh_abs s" and "sh_abs s' = sh_abs s" and "\<not> pending_downgrade s'"
    using d sh_entries_spec [OF d(1)] by simp_all
qed

text \<open>\<open>from_iter\<close> builds the map in which later pairs win; \<open>entries\<close>, \<open>keys\<close>, \<open>values\<close> and \<open>iter\<close> list
  each pair once, and \<open>iter\<close> leaves the contents and clears a pending downgrade.\<close>

theorem smarthash_iteration:
  "sh_abs (sh_from_iter \<sigma> kvs) = map_of (rev kvs) \<and>
   (let s = sh_from_iter \<sigma> kvs; (es, s') = sh_iter \<sigma> s in
      distinct (sh_keys \<sigma> s) \<and> sh_keys \<sigma> s = map fst (sh_entries \<sigma> s) \<and> sh_values \<sigma> s = map snd (sh_entries \<sigma> s) \<and>
      map_of (sh_entries \<sigma> s) = map_of (rev kvs) \<and> map_of es = map_of (rev kvs) \<and> distinct (map fst es) \<and>
      sh_abs s' = map_of (rev kvs) \<and> \<not> pending_downgrade s')"
proof -
  let ?s = "sh_from_iter \<sigma> kvs"
  have s: "sh_inv ?s" "sh_abs ?s = map_of (rev kvs)"
    using sh.insert_all_law [OF sh_new_spec(1), of \<sigma> kvs]
    by (auto simp: sh_extend_insert_all sh_from_iter_def sh_new_spec(2))
  obtain es s' where i: "sh_iter \<sigma> ?s = (es, s')" by (cases "sh_iter \<sigma> ?s")
  show ?thesis using s sh_entries_spec [OF s(1), of \<sigma>] sh_iter_spec [OF s(1) i] i by (simp add: Let_def)
qed

end
