(* ===== verification/ExpireMap.thy ===== *)
theory ExpireMap
  imports Interfaces "HOL-Library.Product_Lexorder"
begin

text \<open>
  \<open>src/database/expire/expire_base.rs\<close>: keys with a time to live. The clock (\<open>Instant::now()\<close>) is an
  argument of every operation that reads it. \<open>deadlines\<close> is a partial function; the heap
  \<open>BinaryHeap<Reverse<(Instant, Vec<u8>)>>\<close> is the ascending list of its elements, so \<open>peek\<close> is the
  head: equal elements are indistinguishable and the order is total. The heap keeps stale pairs of keys
  that were removed or set again; the theorems say that they never show.
\<close>

section \<open>State and operations\<close>

record 'k expire_map =
  deadlines :: "'k \<rightharpoonup> nat"
  queue :: "(nat \<times> 'k) list"

definition em_new :: "'k expire_map" where
  "em_new = \<lparr> deadlines = Map.empty, queue = [] \<rparr>"

text \<open>Times are in nanoseconds. An \<open>Instant\<close> holds 63 bits of seconds, and adding a \<open>Duration\<close> beyond that panics.\<close>

definition INSTANT_MAX :: nat where
  "INSTANT_MAX = 2 ^ 63 * 10 ^ 9 - 1"

definition instant_add :: "nat \<Rightarrow> nat \<Rightarrow> nat panics" where
  "instant_add now ttl = (if now + ttl \<le> INSTANT_MAX then Some (now + ttl) else None)"

definition em_set :: "nat \<Rightarrow> 'k :: linorder expire_map \<Rightarrow> 'k \<Rightarrow> nat \<Rightarrow> 'k expire_map panics" where
  "em_set now s key ttl = do {
     deadline \<leftarrow> instant_add now ttl;
     Some (s \<lparr> deadlines := (deadlines s)(key \<mapsto> deadline), queue := insort (deadline, key) (queue s) \<rparr>)
   }"

text \<open>
  \<open>while let Some(Reverse((deadline, ref key))) = self.queue.peek()\<close>; the result is the rest of the heap,
  the deadlines and the expired keys in the order they were found.
\<close>
fun purge_loop :: "nat \<Rightarrow> (nat \<times> 'k) list \<Rightarrow> ('k \<rightharpoonup> nat) \<Rightarrow> 'k list \<Rightarrow> (nat \<times> 'k) list \<times> ('k \<rightharpoonup> nat) \<times> 'k list" where
  "purge_loop now [] dl expired = ([], dl, expired)"
| "purge_loop now ((deadline, key) # q) dl expired =
     (if deadline > now then ((deadline, key) # q, dl, expired)
      else case dl key of
        Some sorted_deadline \<Rightarrow>
          if sorted_deadline \<le> now then purge_loop now q (dl(key := None)) (expired @ [key])
          else purge_loop now q dl expired
      | None \<Rightarrow> purge_loop now q dl expired)"

definition em_purge :: "nat \<Rightarrow> 'k expire_map \<Rightarrow> 'k list \<times> 'k expire_map" where
  "em_purge now s =
     (let (q, dl, expired) = purge_loop now (queue s) (deadlines s) [] in
      (expired, s \<lparr> queue := q, deadlines := dl \<rparr>))"

definition em_get :: "nat \<Rightarrow> 'k expire_map \<Rightarrow> 'k \<Rightarrow> bool \<times> 'k expire_map" where
  "em_get now s key = (let (_, s') = em_purge now s in (deadlines s' key \<noteq> None, s'))"

definition em_remove :: "'k expire_map \<Rightarrow> 'k \<Rightarrow> 'k expire_map" where
  "em_remove s key = s \<lparr> deadlines := (deadlines s)(key := None) \<rparr>"

section \<open>Invariant\<close>

text \<open>Every live deadline is in the heap.\<close>

definition em_inv :: "'k :: linorder expire_map \<Rightarrow> bool" where
  "em_inv s \<longleftrightarrow> sorted (queue s) \<and> (\<forall>k d. deadlines s k = Some d \<longrightarrow> (d, k) \<in> set (queue s))"

text \<open>The deadlines a purge at \<open>now\<close> keeps.\<close>

definition alive :: "nat \<Rightarrow> ('k \<rightharpoonup> nat) \<Rightarrow> ('k \<rightharpoonup> nat)" where
  "alive now dl = (\<lambda>k. case dl k of Some d \<Rightarrow> if d \<le> now then None else Some d | None \<Rightarrow> None)"

lemma purge_loop_spec:
  "sorted q \<Longrightarrow> \<forall>k d. dl k = Some d \<longrightarrow> (d, k) \<in> set q \<Longrightarrow> purge_loop now q dl ex = (q', dl', ex') \<Longrightarrow>
   dl' = alive now dl \<and> sorted q' \<and> (\<forall>k d. dl' k = Some d \<longrightarrow> (d, k) \<in> set q') \<and>
   (\<exists>new. ex' = ex @ new \<and> distinct new \<and> set new = {k. \<exists>d. dl k = Some d \<and> d \<le> now})"
proof (induction now q dl ex arbitrary: q' dl' ex' rule: purge_loop.induct)
  case (1 now dl ex)
  then have "dl = Map.empty" by (auto simp: fun_eq_iff)
  with 1 show ?case by (auto simp: alive_def)
next
  case (2 now t k q dl ex)
  show ?case
  proof (cases "t > now")
    case True
    then have "\<forall>k' d. dl k' = Some d \<longrightarrow> now < d"
      using 2(4,5) by (fastforce simp: less_eq_prod_def)
    then have "alive now dl = dl" "{k. \<exists>d. dl k = Some d \<and> d \<le> now} = {}"
      by (fastforce simp: alive_def fun_eq_iff split: option.split)+
    with True 2(4-6) show ?thesis by auto
  next
    case False
    have q: "sorted q" using 2(4) by simp
    show ?thesis
    proof (cases "dl k")
      case None
      with 2(5) have "\<forall>k' d. dl k' = Some d \<longrightarrow> (d, k') \<in> set q" by fastforce
      with 2(1) [OF False None q] 2(6) None False show ?thesis by simp
    next
      case (Some d)
      show ?thesis
      proof (cases "d \<le> now")
        case True
        let ?dl = "dl(k := None)"
        have "\<forall>k' d. ?dl k' = Some d \<longrightarrow> (d, k') \<in> set q" using 2(5) by auto
        moreover have "purge_loop now q ?dl (ex @ [k]) = (q', dl', ex')" using 2(6) False Some True by simp
        ultimately obtain new where n: "dl' = alive now ?dl" "sorted q'" "\<forall>k d. dl' k = Some d \<longrightarrow> (d, k) \<in> set q'"
          "ex' = (ex @ [k]) @ new" "distinct new" "set new = {k'. \<exists>d. ?dl k' = Some d \<and> d \<le> now}"
          using 2(2) [OF False Some True q] by blast
        have "alive now ?dl = alive now dl" using Some True by (auto simp: alive_def fun_eq_iff)
        moreover have "distinct (k # new) \<and> set (k # new) = {k'. \<exists>d. dl k' = Some d \<and> d \<le> now}"
          using n(5,6) Some True by auto
        ultimately show ?thesis using n(1-4) by (intro conjI exI [of _ "k # new"]) simp_all
      next
        case late: False
        then have "\<forall>k' d. dl k' = Some d \<longrightarrow> (d, k') \<in> set q" using 2(5) False Some by fastforce
        with 2(3) [OF False Some late q] 2(6) Some False late show ?thesis by simp
      qed
    qed
  qed
qed

lemma em_purge_spec:
  assumes "em_inv s"
  shows "case em_purge now s of (ex, s') \<Rightarrow> em_inv s' \<and> deadlines s' = alive now (deadlines s) \<and>
    distinct ex \<and> set ex = {k. \<exists>d. deadlines s k = Some d \<and> d \<le> now}"
proof -
  obtain q dl ex where p: "purge_loop now (queue s) (deadlines s) [] = (q, dl, ex)"
    by (cases "purge_loop now (queue s) (deadlines s) []")
  have "sorted (queue s)" "\<forall>k d. deadlines s k = Some d \<longrightarrow> (d, k) \<in> set (queue s)"
    using assms by (auto simp: em_inv_def)
  from purge_loop_spec [OF this p] show ?thesis by (simp add: em_purge_def p em_inv_def)
qed

lemma em_set_inv: "em_inv s \<Longrightarrow> em_set now s k ttl = Some s' \<Longrightarrow> em_inv s'"
  by (auto simp: em_inv_def em_set_def bind_Some_iff sorted_insort set_insort_key split: if_splits)

section \<open>Histories\<close>

datatype 'k em_op = Em_Set nat 'k nat | Em_Get nat 'k | Em_Remove 'k | Em_Purge nat
datatype 'k em_out = Em_Unit | Em_Bool bool | Em_Keys "'k set"

text \<open>The specification keeps the deadlines only. It panics where a deadline is no time.\<close>

fun em_spec :: "'k em_op \<Rightarrow> ('k \<rightharpoonup> nat) \<Rightarrow> ('k em_out \<times> ('k \<rightharpoonup> nat)) panics" where
  "em_spec (Em_Set now k ttl) m = (if now + ttl \<le> INSTANT_MAX then Some (Em_Unit, m(k \<mapsto> now + ttl)) else None)"
| "em_spec (Em_Get now k) m = Some (Em_Bool (\<exists>d. m k = Some d \<and> now < d), alive now m)"
| "em_spec (Em_Remove k) m = Some (Em_Unit, m(k := None))"
| "em_spec (Em_Purge now) m = Some (Em_Keys {k. \<exists>d. m k = Some d \<and> d \<le> now}, alive now m)"

fun em_step :: "'k :: linorder em_op \<Rightarrow> 'k expire_map \<Rightarrow> ('k em_out \<times> 'k expire_map) panics" where
  "em_step (Em_Set now k ttl) s = map_option (Pair Em_Unit) (em_set now s k ttl)"
| "em_step (Em_Get now k) s = (let (b, s') = em_get now s k in Some (Em_Bool b, s'))"
| "em_step (Em_Remove k) s = Some (Em_Unit, em_remove s k)"
| "em_step (Em_Purge now) s = (let (ex, s') = em_purge now s in Some (Em_Keys (set ex), s'))"

interpretation em: metered_simulation em_step em_spec deadlines "\<lambda>_. em_inv" "\<lambda>_. 0" 0
proof
  fix w :: nat and s :: "'k :: linorder expire_map" and p
  assume s: "em_inv s"
  show "rel_option (\<lambda>(out, t) (out', b). out = out' \<and> em_inv t \<and> b = deadlines t) (em_step p s) (em_spec p (deadlines s))"
  proof (cases p)
    case (Em_Set now k ttl)
    with em_set_inv [OF s, of now k ttl] show ?thesis by (auto simp: em_set_def instant_add_def)
  next
    case (Em_Get now k)
    obtain ex s' where p: "em_purge now s = (ex, s')" by (cases "em_purge now s")
    with em_purge_spec [OF s, of now] Em_Get show ?thesis
      by (auto simp: em_get_def alive_def split: option.splits)
  next
    case (Em_Remove k)
    with s show ?thesis by (auto simp: em_remove_def em_inv_def)
  next
    case (Em_Purge now)
    obtain ex s' where p: "em_purge now s = (ex, s')" by (cases "em_purge now s")
    with em_purge_spec [OF s, of now] Em_Purge show ?thesis by simp
  qed
qed

section \<open>Properties\<close>

text \<open>C23. Every history of \<open>set\<close>, \<open>get\<close>, \<open>remove\<close> and \<open>purge\<close> calls, at any clock readings, answers as a
  map from keys to deadlines that forgets exactly what has expired: stale pairs in the heap
  (keys removed or set again) never expire a live key. A history panics exactly when a \<open>set\<close> asks for a deadline
  beyond the last instant.\<close>

theorem expire_map_refines_deadlines:
  "map_option (\<lambda>(outs, s). (outs, deadlines s)) (run em_step ps em_new) = run em_spec ps Map.empty"
proof -
  have "em_inv em_new" by (simp add: em_inv_def em_new_def)
  from em.metered_run [OF this, of 0 ps] show ?thesis by (simp add: em_new_def)
qed

text \<open>A purge returns each expired key once, all of them and no other, and leaves the rest.\<close>

theorem purge_exact:
  assumes "em_inv s" and "em_purge now s = (expired, s')"
  shows "distinct expired \<and> set expired = {k. \<exists>d. deadlines s k = Some d \<and> d \<le> now} \<and>
    deadlines s' = alive now (deadlines s) \<and> em_inv s'"
  using em_purge_spec [OF assms(1), of now] assms(2) by simp

theorem purge_exact_witness:
  "\<exists>s. em_set 1 em_new (7 :: nat) 2 = Some s \<and> fst (em_purge 5 s) = [7]"
proof -
  obtain s where s: "em_set 1 em_new (7 :: nat) 2 = Some s" "deadlines s = [7 \<mapsto> 3]"
    by (simp add: em_set_def instant_add_def INSTANT_MAX_def em_new_def numeral_3_eq_3)
  have i: "em_inv s" by (rule em_set_inv [OF _ s(1)]) (simp add: em_inv_def em_new_def)
  obtain ex s' where p: "em_purge 5 s = (ex, s')" by (cases "em_purge 5 s")
  have "distinct ex" "set ex = {7}" using purge_exact [OF i p] by (auto simp: s(2) split: if_splits)
  then have "length ex = 1" by (metis card.empty card_insert_disjoint distinct_card empty_iff finite.emptyI One_nat_def)
  with \<open>set ex = {7}\<close> have "ex = [7]" by (cases ex) auto
  with p s(1) show ?thesis by simp
qed

end
