(* ===== verification/Streams.thy ===== *)
theory Streams
  imports Prelude
begin

text \<open>
  \<open>src/database/stream/stream_base.rs\<close>: an append-only list of entries with identifiers made of the
  clock in milliseconds and a counter. The clock reading of \<open>current_millis\<close> is an argument of \<open>add\<close>;
  the counter is a \<open>u64\<close> and \<open>fetch_add\<close> wraps. The payload \<open>HashMap<String, Value>\<close> is a type
  parameter. The order of identifiers is the derived lexicographic one, given as an instance
  of \<open>linorder\<close>.
\<close>

section \<open>Identifiers\<close>

datatype stream_id = StreamId (ms_time: u64) (sequence: u64)

instantiation stream_id :: linorder
begin

definition less_eq_stream_id :: "stream_id \<Rightarrow> stream_id \<Rightarrow> bool" where
  "a \<le> b \<longleftrightarrow> ms_time a < ms_time b \<or> ms_time a = ms_time b \<and> sequence a \<le> sequence b"

definition less_stream_id :: "stream_id \<Rightarrow> stream_id \<Rightarrow> bool" where
  "(a :: stream_id) < b \<longleftrightarrow> a \<le> b \<and> \<not> b \<le> a"

instance
proof
  fix a b c :: stream_id
  show "(a < b) = (a \<le> b \<and> \<not> b \<le> a)" by (rule less_stream_id_def)
  show "a \<le> a" by (simp add: less_eq_stream_id_def)
  show "a \<le> b \<Longrightarrow> b \<le> c \<Longrightarrow> a \<le> c" by (auto simp: less_eq_stream_id_def)
  show "a \<le> b \<Longrightarrow> b \<le> a \<Longrightarrow> a = b" by (cases a; cases b) (auto simp: less_eq_stream_id_def)
  show "a \<le> b \<or> b \<le> a" by (auto simp: less_eq_stream_id_def)
qed

end

lemma stream_id_less:
  "a < b \<longleftrightarrow> ms_time a < ms_time b \<or> ms_time a = ms_time b \<and> sequence a < sequence b" for a b :: stream_id
  by (auto simp: less_stream_id_def less_eq_stream_id_def)

section \<open>State and operations\<close>

record 'd stream_entry =
  entry_id :: stream_id
  entry_data :: 'd

record 'd stream =
  entries :: "'d stream_entry list"
  next_sequence :: u64

definition stream_new :: "'d stream" where
  "stream_new = \<lparr> entries = [], next_sequence = 1 \<rparr>"

definition stream_add :: "u64 \<Rightarrow> 'd stream \<Rightarrow> 'd \<Rightarrow> stream_id \<times> 'd stream" where
  "stream_add current_millis s data =
     (let ms = current_millis;
          sq = next_sequence s;
          id = StreamId ms sq in
      (id, s \<lparr> next_sequence := next_sequence s + 1,
               entries := entries s @ [\<lparr> entry_id = id, entry_data = data \<rparr>] \<rparr>))"

definition stream_range :: "'d stream \<Rightarrow> stream_id \<Rightarrow> stream_id \<Rightarrow> 'd stream_entry list" where
  "stream_range s start fin = filter (\<lambda>entry. entry_id entry \<ge> start \<and> entry_id entry \<le> fin) (entries s)"

definition stream_iter :: "'d stream \<Rightarrow> 'd stream_entry list" where
  "stream_iter s = entries s"

definition stream_len :: "'d stream \<Rightarrow> nat" where
  "stream_len s = length (entries s)"

definition stream_is_empty :: "'d stream \<Rightarrow> bool" where
  "stream_is_empty s \<longleftrightarrow> entries s = []"

text \<open>A history of additions, each with its clock reading.\<close>

fun stream_adds :: "'d stream \<Rightarrow> (u64 \<times> 'd) list \<Rightarrow> stream_id list \<times> 'd stream" where
  "stream_adds s [] = ([], s)"
| "stream_adds s ((t, d) # tds) =
     (let (id, s') = stream_add t s d; (ids, s'') = stream_adds s' tds in (id # ids, s''))"

section \<open>Identifiers of a history\<close>

lemma stream_adds_spec:
  "stream_adds s tds = (ids, s') \<Longrightarrow>
   ids = map (\<lambda>i. StreamId (fst (tds ! i)) (next_sequence s + of_nat i)) [0..<length tds] \<and>
   entries s' = entries s @ map (\<lambda>(id, td). \<lparr> entry_id = id, entry_data = snd td \<rparr>) (zip ids tds)"
proof (induction tds arbitrary: s ids s')
  case (Cons td tds)
  obtain t d where td: "td = (t, d)" by (cases td)
  let ?s = "snd (stream_add t s d)"
  obtain ids1 s1 where r: "stream_adds ?s tds = (ids1, s1)" by (cases "stream_adds ?s tds")
  have a: "fst (stream_add t s d) = StreamId t (next_sequence s)" "next_sequence ?s = next_sequence s + 1"
    "entries ?s = entries s @ [\<lparr> entry_id = StreamId t (next_sequence s), entry_data = d \<rparr>]"
    by (simp_all add: stream_add_def Let_def)
  have ids: "ids = StreamId t (next_sequence s) # ids1" "s' = s1"
    using Cons.prems r a(1) by (auto simp: td split: prod.splits)
  have "[0..<length (td # tds)] = 0 # map Suc [0..<length tds]"
    by (simp add: upt_conv_Cons map_Suc_upt del: upt_Suc)
  then have "map (\<lambda>i. StreamId (fst ((td # tds) ! i)) (next_sequence s + of_nat i)) [0..<length (td # tds)] =
      StreamId t (next_sequence s) # map (\<lambda>i. StreamId (fst (tds ! i)) (next_sequence s + 1 + of_nat i)) [0..<length tds]"
    by (simp add: td add.assoc comp_def del: upt_Suc)
  with Cons.IH [OF r] ids a(2,3) show ?case by (simp add: td del: upt_Suc)
qed simp

lemma stream_new_adds:
  assumes "stream_adds stream_new tds = (ids, s)" and "i < length tds" and "length tds < 2 ^ 64"
  shows "length ids = length tds" and "ms_time (ids ! i) = fst (tds ! i)" and "unat (sequence (ids ! i)) = Suc i"
proof -
  have ids: "ids = map (\<lambda>i. StreamId (fst (tds ! i)) (1 + of_nat i)) [0..<length tds]"
    using stream_adds_spec [OF assms(1)] by (simp add: stream_new_def)
  show "length ids = length tds" "ms_time (ids ! i) = fst (tds ! i)" using ids assms(2) by simp_all
  have "sequence (ids ! i) = of_nat (Suc i)" using ids assms(2) by simp
  moreover have "Suc i < 2 ^ 64" using assms(2,3) by linarith
  ultimately show "unat (sequence (ids ! i)) = Suc i" by (simp only: unat_of_nat) simp
qed

lemma sorted_cut:
  assumes "sorted xs" and up: "\<And>x y. P x \<Longrightarrow> x \<le> y \<Longrightarrow> P y"
  shows "\<exists>a\<le>length xs. \<forall>i<length xs. P (xs ! i) \<longleftrightarrow> a \<le> i"
proof -
  let ?a = "length (takeWhile (\<lambda>x. \<not> P x) xs)"
  have "\<not> P (xs ! i)" if "i < ?a" for i
    using that by (metis nth_mem set_takeWhileD takeWhile_nth)
  moreover have "P (xs ! i)" if i: "?a \<le> i" "i < length xs" for i
  proof -
    have "P (xs ! ?a)" using nth_length_takeWhile [of "\<lambda>x. \<not> P x" xs] i by simp
    then show ?thesis using up sorted_nth_mono [OF assms(1) i] by blast
  qed
  ultimately have "\<forall>i<length xs. P (xs ! i) \<longleftrightarrow> ?a \<le> i" by (meson not_le)
  then show ?thesis using length_takeWhile_le [of "\<lambda>x. \<not> P x" xs] by blast
qed

section \<open>Properties\<close>

text \<open>C33. Identifiers are never reused by fewer than \<open>2^64\<close> additions, whatever the clock does.\<close>

theorem stream_ids_unique:
  assumes "length tds < 2 ^ 64" and "stream_adds stream_new tds = (ids, s)"
  shows "distinct ids \<and> map entry_id (stream_iter s) = ids \<and> map entry_data (stream_iter s) = map snd tds"
proof -
  have l: "length ids = length tds" using stream_adds_spec [OF assms(2)] by simp
  have "distinct ids" unfolding distinct_conv_nth
  proof (intro allI impI)
    fix i j assume "i < length ids" "j < length ids" "i \<noteq> j"
    then have "unat (sequence (ids ! i)) \<noteq> unat (sequence (ids ! j))"
      using stream_new_adds(3) [OF assms(2) _ assms(1)] l by simp
    then show "ids ! i \<noteq> ids ! j" by metis
  qed
  moreover have "entries s = map (\<lambda>(id, td). \<lparr> entry_id = id, entry_data = snd td \<rparr>) (zip ids tds)"
    using stream_adds_spec [OF assms(2)] by (simp add: stream_new_def)
  ultimately show ?thesis using l
    by (simp add: stream_iter_def comp_def case_prod_unfold) (simp flip: map_map [unfolded comp_def])
qed

theorem stream_ids_unique_witness:
  "distinct (fst (stream_adds stream_new [(5, True), (5, False), (3, True)]))"
proof -
  obtain ids s where a: "stream_adds stream_new [(5, True), (5, False), (3, True)] = (ids, s)"
    by (cases "stream_adds stream_new [(5, True), (5, False), (3, True)]")
  from stream_ids_unique [OF _ a] a show ?thesis by simp
qed

text \<open>With a clock that does not go back, identifiers grow strictly, so the entries are in the
  order of their identifiers and \<open>range\<close> returns a contiguous part of the stream: the entries from the
  first identifier not below \<open>start\<close> to the last not above \<open>end\<close>.\<close>

theorem stream_range_contiguous:
  assumes "length tds < 2 ^ 64" and "sorted (map fst tds)" and "stream_adds stream_new tds = (ids, s)"
  shows "sorted_wrt (<) ids \<and>
    (\<exists>a b. stream_range s start fin = take (b - a) (drop a (entries s)) \<and>
      (\<forall>i<length ids. a \<le> i \<and> i < b \<longleftrightarrow> start \<le> ids ! i \<and> ids ! i \<le> fin))"
proof -
  have l: "length ids = length tds" using stream_adds_spec [OF assms(3)] by simp
  note n = stream_new_adds [OF assms(3) _ assms(1)]
  have lt: "ids ! i < ids ! j" if "i < j" "j < length ids" for i j
  proof -
    have "fst (tds ! i) \<le> fst (tds ! j)" using sorted_nth_mono [OF assms(2), of i j] that l by simp
    moreover have "sequence (ids ! i) < sequence (ids ! j)" using n(3) that l by (simp add: word_less_nat_alt)
    ultimately show ?thesis using n(2) that l by (auto simp: stream_id_less)
  qed
  then have s: "sorted_wrt (<) ids" by (simp add: sorted_wrt_iff_nth_less)
  then have so: "sorted ids" by (simp add: strict_sorted_imp_sorted)
  obtain a where a: "a \<le> length ids" "\<forall>i<length ids. start \<le> ids ! i \<longleftrightarrow> a \<le> i"
    using sorted_cut [OF so, of "\<lambda>x. start \<le> x"] order_trans by blast
  obtain b where b: "b \<le> length ids" "\<forall>i<length ids. \<not> ids ! i \<le> fin \<longleftrightarrow> b \<le> i"
    using sorted_cut [OF so, of "\<lambda>x. \<not> x \<le> fin"] order_trans by blast
  have e: "entries s = map (\<lambda>(id, td). \<lparr> entry_id = id, entry_data = snd td \<rparr>) (zip ids tds)"
    using stream_adds_spec [OF assms(3)] by (simp add: stream_new_def)
  have w: "\<forall>i<length ids. a \<le> i \<and> i < max a b \<longleftrightarrow> start \<le> ids ! i \<and> ids ! i \<le> fin"
    using a(2) b(2) by (auto simp: less_max_iff_disj not_le)
  have "stream_range s start fin = take (max a b - a) (drop a (entries s))"
    unfolding stream_range_def
    by (rule filter_window) (use a b w l e in auto)
  with s w show ?thesis by blast
qed

theorem stream_range_contiguous_witness:
  "sorted_wrt (<) (fst (stream_adds stream_new [(3, True), (5, False), (5, True)]))"
proof -
  obtain ids s where a: "stream_adds stream_new [(3, True), (5, False), (5, True)] = (ids, s)"
    by (cases "stream_adds stream_new [(3, True), (5, False), (5, True)]")
  from stream_range_contiguous [OF _ _ a] a show ?thesis by simp
qed

end
