(* ===== verification/Bitmap.thy ===== *)
theory Bitmap
  imports Prelude
begin

text \<open>
  \<open>src/database/bitmap/bitmap_base.rs\<close>, \<open>bitmap_simd.rs\<close> and \<open>bitmap_common.rs\<close>: a growable bit array with
  the most significant bit of each byte first, population counts over ranges with three counting
  strategies, and the bitwise operators. The CPU features that select a strategy
  (\<open>is_x86_feature_detected!\<close>) are a parameter. The \<open>std::arch\<close> intrinsics of the AVX2 routine are
  given by their documented effect on vectors of 32 bytes. The field \<open>strategy\<close> of the struct is never
  read and is left out.
\<close>

unbundle bit_operations_syntax

section \<open>Counting tables and strategies\<close>

definition BIT_COUNT_TABLE :: "nat list" where
  "BIT_COUNT_TABLE = [
    0, 1, 1, 2, 1, 2, 2, 3, 1, 2, 2, 3, 2, 3, 3, 4, 1, 2, 2, 3, 2, 3, 3, 4, 2, 3, 3, 4, 3, 4, 4, 5,
    1, 2, 2, 3, 2, 3, 3, 4, 2, 3, 3, 4, 3, 4, 4, 5, 2, 3, 3, 4, 3, 4, 4, 5, 3, 4, 4, 5, 4, 5, 5, 6,
    1, 2, 2, 3, 2, 3, 3, 4, 2, 3, 3, 4, 3, 4, 4, 5, 2, 3, 3, 4, 3, 4, 4, 5, 3, 4, 4, 5, 4, 5, 5, 6,
    2, 3, 3, 4, 3, 4, 4, 5, 3, 4, 4, 5, 4, 5, 5, 6, 3, 4, 4, 5, 4, 5, 5, 6, 4, 5, 5, 6, 5, 6, 6, 7,
    1, 2, 2, 3, 2, 3, 3, 4, 2, 3, 3, 4, 3, 4, 4, 5, 2, 3, 3, 4, 3, 4, 4, 5, 3, 4, 4, 5, 4, 5, 5, 6,
    2, 3, 3, 4, 3, 4, 4, 5, 3, 4, 4, 5, 4, 5, 5, 6, 3, 4, 4, 5, 4, 5, 5, 6, 4, 5, 5, 6, 5, 6, 6, 7,
    2, 3, 3, 4, 3, 4, 4, 5, 3, 4, 4, 5, 4, 5, 5, 6, 3, 4, 4, 5, 4, 5, 5, 6, 4, 5, 5, 6, 5, 6, 6, 7,
    3, 4, 4, 5, 4, 5, 5, 6, 4, 5, 5, 6, 5, 6, 6, 7, 4, 5, 5, 6, 5, 6, 6, 7, 5, 6, 6, 7, 6, 7, 7, 8]"

datatype bitcount_strategy = LookupTable | Popcnt | Avx2

record cpu_features =
  has_popcnt :: bool
  has_avx2 :: bool

definition best_strategy :: "cpu_features \<Rightarrow> bitcount_strategy" where
  "best_strategy f = (if has_avx2 f then Avx2 else if has_popcnt f then Popcnt else LookupTable)"

definition byte_count :: "u8 \<Rightarrow> nat" where
  "byte_count b = BIT_COUNT_TABLE ! unat b"

definition bitcount_lookup_table :: "bytes \<Rightarrow> nat" where
  "bitcount_lookup_table bs = sum_list (map byte_count bs)"

text \<open>\<open>u64::from_le_bytes\<close> and \<open>count_ones\<close>.\<close>
fun from_le_bytes :: "bytes \<Rightarrow> u64" where
  "from_le_bytes [] = 0"
| "from_le_bytes (b # bs) = ucast b OR push_bit 8 (from_le_bytes bs)"

definition count_ones :: "'a :: len word \<Rightarrow> nat" where
  "count_ones w = length (filter (bit w) [0..<LENGTH('a)])"

text \<open>The two loops of \<open>bitcount_popcnt_impl\<close>, also the tail of the AVX2 routine.\<close>
fun popcnt_loop :: "bytes \<Rightarrow> nat \<Rightarrow> nat" where
  "popcnt_loop (b0 # b1 # b2 # b3 # b4 # b5 # b6 # b7 # rest) count =
     popcnt_loop rest (count + count_ones (from_le_bytes [b0, b1, b2, b3, b4, b5, b6, b7]))"
| "popcnt_loop rest count = count + bitcount_lookup_table rest"

definition bitcount_popcnt_impl :: "bytes \<Rightarrow> nat" where
  "bitcount_popcnt_impl bs = popcnt_loop bs 0"

definition bitcount_popcnt :: "cpu_features \<Rightarrow> bytes \<Rightarrow> nat" where
  "bitcount_popcnt f bs = (if has_popcnt f then bitcount_popcnt_impl bs else bitcount_lookup_table bs)"

text \<open>
  The AVX2 block. A vector is the list of its bytes in memory order: \<open>and_si256\<close> works per byte;
  \<open>srli_epi16\<close> shifts the 16-bit lanes, so the low byte of a lane takes in the low bits of its neighbour;
  \<open>shuffle_epi8\<close> looks the low four bits of each index up in the 16-byte table of its half (the index is
  below 16 here); \<open>sad_epu8\<close> against zero adds up groups of eight bytes.
\<close>

definition nibble_table :: bytes where
  "nibble_table = [0, 1, 1, 2, 1, 2, 2, 3, 1, 2, 2, 3, 2, 3, 3, 4]"

fun srli_epi16_4 :: "bytes \<Rightarrow> bytes" where
  "srli_epi16_4 (lo # hi # rest) =
     (let lane = drop_bit 4 (ucast lo OR push_bit 8 (ucast hi) :: u16) in
      ucast lane # ucast (drop_bit 8 lane) # srli_epi16_4 rest)"
| "srli_epi16_4 rest = rest"

definition and_si256 :: "bytes \<Rightarrow> bytes \<Rightarrow> bytes" where
  "and_si256 xs ys = map2 (AND) xs ys"

definition shuffle_epi8 :: "bytes \<Rightarrow> bytes \<Rightarrow> bytes" where
  "shuffle_epi8 table ix = map (\<lambda>i. table ! unat (i AND 0x0F)) ix"

definition add_epi8 :: "bytes \<Rightarrow> bytes \<Rightarrow> bytes" where
  "add_epi8 xs ys = map2 (+) xs ys"

fun sad_groups :: "bytes \<Rightarrow> nat list" where
  "sad_groups (b0 # b1 # b2 # b3 # b4 # b5 # b6 # b7 # rest) =
     sum_list (map unat [b0, b1, b2, b3, b4, b5, b6, b7]) # sad_groups rest"
| "sad_groups rest = []"

definition avx2_block :: "bytes \<Rightarrow> nat" where
  "avx2_block vec =
     (let low_mask = replicate 32 0x0F;
          lo = and_si256 vec low_mask;
          hi = and_si256 (srli_epi16_4 vec) low_mask;
          popcnt_lo = shuffle_epi8 nibble_table lo;
          popcnt_hi = shuffle_epi8 nibble_table hi;
          sm = add_epi8 popcnt_lo popcnt_hi in
      sum_list (sad_groups sm))"

function avx2_loop :: "bytes \<Rightarrow> nat \<Rightarrow> nat" where
  "avx2_loop bs count =
     (if length bs \<ge> 32 then avx2_loop (drop 32 bs) (count + avx2_block (take 32 bs))
      else popcnt_loop bs count)"
  by auto

termination avx2_loop
  by (relation "measure (\<lambda>(bs, count). length bs)") auto

definition bitcount_avx2 :: "cpu_features \<Rightarrow> bytes \<Rightarrow> nat" where
  "bitcount_avx2 f bs = (if has_avx2 f then avx2_loop bs 0 else bitcount_popcnt f bs)"

definition bitcount_auto :: "cpu_features \<Rightarrow> bytes \<Rightarrow> nat" where
  "bitcount_auto f bs =
     (if has_avx2 f then bitcount_avx2 f bs
      else if has_popcnt f then bitcount_popcnt f bs
      else bitcount_lookup_table bs)"

definition bitcount_strategy_bytes :: "cpu_features \<Rightarrow> bytes \<Rightarrow> bitcount_strategy \<Rightarrow> nat" where
  "bitcount_strategy_bytes f bs strategy = (case strategy of
     LookupTable \<Rightarrow> bitcount_lookup_table bs
   | Popcnt \<Rightarrow> bitcount_popcnt f bs
   | Avx2 \<Rightarrow> bitcount_avx2 f bs)"

section \<open>Bitmaps\<close>

record bitmap =
  bm_bytes :: bytes

definition bm_new :: bitmap where
  "bm_new = \<lparr> bm_bytes = [] \<rparr>"

definition bm_with_capacity :: "nat \<Rightarrow> bitmap" where
  "bm_with_capacity bits = \<lparr> bm_bytes = replicate ((bits + 7) div 8) 0 \<rparr>"

definition set_bit_bm :: "bitmap \<Rightarrow> nat \<Rightarrow> bool \<Rightarrow> (bool \<times> bitmap) panics" where
  "set_bit_bm bm bit_offset v = do {
     let byte_index = bit_offset div 8;
     let bit_index = bit_offset mod 8;
     let bs = (if byte_index \<ge> length (bm_bytes bm)
               then bm_bytes bm @ replicate (byte_index + 1 - length (bm_bytes bm)) 0
               else bm_bytes bm);
     byte \<leftarrow> idx bs byte_index;
     let mask = (push_bit (7 - bit_index) 1 :: u8);
     let old = (byte AND mask \<noteq> 0);
     bs' \<leftarrow> upd bs byte_index (if v then byte OR mask else byte AND NOT mask);
     Some (old, bm \<lparr> bm_bytes := bs' \<rparr>)
   }"

definition get_bit_bm :: "bitmap \<Rightarrow> nat \<Rightarrow> bool panics" where
  "get_bit_bm bm bit_offset =
     (let byte_index = bit_offset div 8; bit_index = bit_offset mod 8 in
      if byte_index \<ge> length (bm_bytes bm) then Some False
      else do {
        byte \<leftarrow> idx (bm_bytes bm) byte_index;
        Some ((drop_bit (7 - bit_index) byte) AND 1 = 1)
      })"

definition bit_len :: "bitmap \<Rightarrow> nat" where
  "bit_len bm = length (bm_bytes bm) * 8"

text \<open>
  \<open>bitcount\<close> and \<open>bitcount_with_strategy\<close> differ in the routine for the middle bytes only; the routine is
  the first argument.
\<close>
definition bitcount_range :: "(bytes \<Rightarrow> nat) \<Rightarrow> bitmap \<Rightarrow> nat \<Rightarrow> nat \<Rightarrow> nat panics" where
  "bitcount_range middle bm start0 end0 =
     (let fin = min end0 (bit_len bm); start = min start0 fin in
      if start \<ge> fin then Some 0
      else let start_byte = start div 8; end_byte = (fin - 1) div 8 in
        if start_byte = end_byte then
          let sb = start mod 8; eb = fin mod 8;
              mask = ((if eb = 0 then drop_bit sb 0xFF else drop_bit sb 0xFF AND push_bit (8 - eb) 0xFF) :: u8)
          in do { b \<leftarrow> idx (bm_bytes bm) start_byte; Some (byte_count (b AND mask)) }
        else do {
          let sb = start mod 8;
          let first_mask = (drop_bit sb 0xFF :: u8);
          first \<leftarrow> idx (bm_bytes bm) start_byte;
          let count = byte_count (first AND first_mask);
          count \<leftarrow> (if end_byte > start_byte + 1
                     then do {
                       middle_bytes \<leftarrow> slice (bm_bytes bm) (start_byte + 1) end_byte;
                       Some (count + middle middle_bytes) }
                     else Some count);
          let eb = fin mod 8;
          let last_mask = ((if eb = 0 then 0xFF else push_bit (8 - eb) 0xFF) :: u8);
          lst \<leftarrow> idx (bm_bytes bm) end_byte;
          Some (count + byte_count (lst AND last_mask))
        })"

definition bm_bitcount :: "cpu_features \<Rightarrow> bitmap \<Rightarrow> nat \<Rightarrow> nat \<Rightarrow> nat panics" where
  "bm_bitcount f bm start fin = bitcount_range (bitcount_auto f) bm start fin"

definition bm_bitcount_with_strategy ::
  "cpu_features \<Rightarrow> bitmap \<Rightarrow> nat \<Rightarrow> nat \<Rightarrow> bitcount_strategy \<Rightarrow> nat panics" where
  "bm_bitcount_with_strategy f bm start fin strategy =
     bitcount_range (\<lambda>bs. bitcount_strategy_bytes f bs strategy) bm start fin"

definition bitcount_all :: "cpu_features \<Rightarrow> bitmap \<Rightarrow> nat" where
  "bitcount_all f bm = bitcount_auto f (bm_bytes bm)"

definition bm_and :: "bitmap \<Rightarrow> bitmap \<Rightarrow> bitmap" where
  "bm_and a b = \<lparr> bm_bytes = map2 (AND) (bm_bytes a) (bm_bytes b) \<rparr>"

definition get_or_zero :: "bytes \<Rightarrow> nat \<Rightarrow> u8" where
  "get_or_zero bs i = (if i < length bs then bs ! i else 0)"

definition bm_or :: "bitmap \<Rightarrow> bitmap \<Rightarrow> bitmap" where
  "bm_or a b = (let len = max (length (bm_bytes a)) (length (bm_bytes b)) in
     \<lparr> bm_bytes = map (\<lambda>i. get_or_zero (bm_bytes a) i OR get_or_zero (bm_bytes b) i) [0..<len] \<rparr>)"

definition bm_xor :: "bitmap \<Rightarrow> bitmap \<Rightarrow> bitmap" where
  "bm_xor a b = (let len = max (length (bm_bytes a)) (length (bm_bytes b)) in
     \<lparr> bm_bytes = map (\<lambda>i. get_or_zero (bm_bytes a) i XOR get_or_zero (bm_bytes b) i) [0..<len] \<rparr>)"

definition bm_not :: "bitmap \<Rightarrow> bitmap" where
  "bm_not a = \<lparr> bm_bytes = map NOT (bm_bytes a) \<rparr>"

section \<open>Bits of a byte\<close>

text \<open>The bits in bitmap order, the most significant first.\<close>

definition byte_bits :: "u8 \<Rightarrow> bool list" where
  "byte_bits b = [bit b 7, bit b 6, bit b 5, bit b 4, bit b 3, bit b 2, bit b 1, bit b 0]"

abbreviation ones :: "bool list \<Rightarrow> nat" where
  "ones bs \<equiv> length (filter (\<lambda>x. x) bs)"

lemma table_correct: "\<forall>n<256. BIT_COUNT_TABLE ! n = ones (byte_bits (of_nat n))"
proof -
  have "list_all2 (\<lambda>n c. c = ones (byte_bits (of_nat n))) [0..<256] BIT_COUNT_TABLE"
    by code_simp
  then show ?thesis by (simp add: list_all2_conv_all_nth)
qed

lemma byte_count_ones: "byte_count b = ones (byte_bits b)"
proof -
  have "unat b < 256" using unsigned_less [of b, where 'a = nat] by simp
  with table_correct show ?thesis by (simp add: byte_count_def)
qed

section \<open>Bits of a byte sequence\<close>

definition bits_of :: "bytes \<Rightarrow> bool list" where
  "bits_of bs = concat (map byte_bits bs)"

lemma length_byte_bits [simp]: "length (byte_bits b) = 8"
  by (simp add: byte_bits_def)

lemma bits_of_simps [simp]:
  "bits_of [] = []" "bits_of (b # bs) = byte_bits b @ bits_of bs" "bits_of (xs @ ys) = bits_of xs @ bits_of ys"
  by (simp_all add: bits_of_def)

lemma length_bits_of [simp]: "length (bits_of bs) = 8 * length bs"
  by (induction bs) auto

lemma byte_bits_nth: "j < 8 \<Longrightarrow> byte_bits b ! j = bit b (7 - j)"
proof -
  assume "j < 8"
  then consider "j = 0" | "j = 1" | "j = 2" | "j = 3" | "j = 4" | "j = 5" | "j = 6" | "j = 7" by linarith
  then show ?thesis by cases (simp_all add: byte_bits_def)
qed

lemma bits_of_nth: "i < 8 * length bs \<Longrightarrow> bits_of bs ! i = bit (bs ! (i div 8)) (7 - i mod 8)"
proof (induction bs arbitrary: i)
  case (Cons b bs)
  show ?case
  proof (cases "i < 8")
    case False
    have "bits_of (b # bs) ! i = bits_of bs ! (i - 8)" using False by (simp add: nth_append)
    also have "\<dots> = bit (bs ! ((i - 8) div 8)) (7 - (i - 8) mod 8)" using Cons False by simp
    finally have "bits_of (b # bs) ! i = bit (bs ! ((i - 8) div 8)) (7 - (i - 8) mod 8)" .
    moreover have "(i - 8) div 8 = i div 8 - 1" "(i - 8) mod 8 = i mod 8" using False
      by (simp_all add: le_div_geq le_mod_geq)
    ultimately show ?thesis using False by (simp add: nth_Cons' div_eq_0_iff)
  qed (simp add: nth_append byte_bits_nth)
qed simp

lemma lookup_ones: "bitcount_lookup_table bs = ones (bits_of bs)"
  by (induction bs) (auto simp: bitcount_lookup_table_def byte_count_ones)

section \<open>The three strategies agree\<close>

lemma length_filter_sum: "length (filter P xs) = sum_list (map (\<lambda>x. of_bool (P x)) xs)"
  by (induction xs) auto

lemma byte_count_bits: "byte_count b = length (filter (bit b) [0..<8])"
proof -
  have "[0..<8] = [0, 1, 2, 3, 4, 5, 6, 7 :: nat]" by code_simp
  then show ?thesis
    by (simp only: byte_count_ones byte_bits_def length_filter_sum list.map sum_list.Nil sum_list.Cons add_0_right ac_simps)
qed

lemma from_le_bytes_count:
  "length bs \<le> 8 \<Longrightarrow>
   length (filter (bit (from_le_bytes bs)) [0..<8 * length bs]) = bitcount_lookup_table bs"
proof (induction bs)
  case (Cons b bs)
  let ?w = "from_le_bytes (b # bs)" and ?v = "from_le_bytes bs" and ?n = "8 * length bs"
  have split: "[0..<8 * length (b # bs)] = [0..<8] @ map (\<lambda>n. n + 8) [0..<?n]"
    unfolding map_add_upt using upt_add_eq_append [of 0 8 ?n] by (simp add: add.commute)
  have low: "bit ?w n = bit b n" if "n < 8" for n
    using that by (auto simp: bit_or_iff bit_push_bit_iff bit_ucast_iff)
  have high: "bit ?w (n + 8) = bit ?v n" if "n < ?n" for n
    using that Cons.prems by (auto simp: bit_or_iff bit_push_bit_iff bit_ucast_iff dest: bit_imp_le_length)
  have "length (filter (bit ?w) [0..<8]) = byte_count b"
    unfolding byte_count_bits
    by (rule arg_cong [of _ _ length], rule filter_cong) (simp_all add: low del: from_le_bytes.simps)
  moreover have "filter (\<lambda>n. bit ?w (n + 8)) [0..<?n] = filter (bit ?v) [0..<?n]"
    by (rule filter_cong) (simp_all add: high del: from_le_bytes.simps)
  ultimately show ?case using Cons unfolding split
    by (simp add: filter_map comp_def bitcount_lookup_table_def del: from_le_bytes.simps)
qed (simp add: bitcount_lookup_table_def)

lemma popcnt_loop_spec: "popcnt_loop bs count = count + bitcount_lookup_table bs"
proof (induction bs count rule: popcnt_loop.induct)
  case (1 b0 b1 b2 b3 b4 b5 b6 b7 rest count)
  have "count_ones (from_le_bytes [b0, b1, b2, b3, b4, b5, b6, b7]) =
      bitcount_lookup_table [b0, b1, b2, b3, b4, b5, b6, b7]"
    using from_le_bytes_count [of "[b0, b1, b2, b3, b4, b5, b6, b7]"] by (simp add: count_ones_def del: from_le_bytes.simps)
  with 1 show ?case by (simp add: bitcount_lookup_table_def del: from_le_bytes.simps)
qed simp_all

text \<open>Per byte, the two nibble lookups add up to the table entry, without overflow.\<close>

definition nibble_sum :: "u8 \<Rightarrow> u8" where
  "nibble_sum b = nibble_table ! unat ((b AND 0x0F) AND 0x0F) +
     nibble_table ! unat ((drop_bit 4 b AND 0x0F) AND 0x0F)"

lemma nibble_sum_all: "\<forall>n<256. unat (nibble_sum (of_nat n)) = BIT_COUNT_TABLE ! n"
proof -
  have "list_all2 (\<lambda>n c. unat (nibble_sum (of_nat n)) = c) [0..<256] BIT_COUNT_TABLE" by code_simp
  then show ?thesis by (simp add: list_all2_conv_all_nth)
qed

lemma nibble_sum_count: "unat (nibble_sum b) = byte_count b"
proof -
  have "unat b < 256" using unsigned_less [of b, where 'a = nat] by simp
  from nibble_sum_all [rule_format, OF this] show ?thesis by (simp add: byte_count_def)
qed

lemma bit_0F: "bit (0x0F :: u8) n \<longleftrightarrow> n < 4"
proof -
  have "(0x0F :: u8) = mask 4" by (simp add: mask_eq_exp_minus_1)
  then have "bit (0x0F :: u8) n \<longleftrightarrow> bit (mask 4 :: u8) n" by (simp only:)
  also have "\<dots> \<longleftrightarrow> n < 4" unfolding bit_mask_iff by auto
  finally show ?thesis .
qed

lemma srli_low:
  fixes lo hi :: u8
  shows "ucast (drop_bit 4 (ucast lo OR push_bit 8 (ucast hi) :: u16)) AND (0x0F :: u8) = drop_bit 4 lo AND 0x0F"
proof (rule bit_eqI)
  fix n
  show "bit (ucast (drop_bit 4 (ucast lo OR push_bit 8 (ucast hi) :: u16)) AND (0x0F :: u8)) n =
      bit (drop_bit 4 lo AND 0x0F) n"
    by (simp only: bit_and_iff bit_0F bit_ucast_iff bit_drop_bit_eq bit_or_iff bit_push_bit_iff comp_def) auto
qed

lemma srli_high:
  fixes lo hi :: u8
  shows "ucast (drop_bit 8 (drop_bit 4 (ucast lo OR push_bit 8 (ucast hi) :: u16))) AND (0x0F :: u8) =
    drop_bit 4 hi AND 0x0F"
proof (rule bit_eqI)
  fix n
  have "\<not> bit lo (12 + n)" using bit_imp_le_length [of lo "12 + n"] by auto
  then show "bit (ucast (drop_bit 8 (drop_bit 4 (ucast lo OR push_bit 8 (ucast hi) :: u16))) AND (0x0F :: u8)) n =
      bit (drop_bit 4 hi AND 0x0F) n"
    by (simp only: bit_and_iff bit_0F bit_ucast_iff bit_drop_bit_eq bit_or_iff bit_push_bit_iff comp_def) auto
qed

lemma length_srli [simp]: "length (srli_epi16_4 vec) = length vec"
  by (induction vec rule: srli_epi16_4.induct) (auto simp: Let_def)

lemma srli_masked:
  "length vec = 2 * n \<Longrightarrow> map (\<lambda>b. b AND 0x0F) (srli_epi16_4 vec) = map (\<lambda>b. drop_bit 4 b AND 0x0F) vec"
proof (induction n arbitrary: vec)
  case (Suc n)
  then have "length vec = Suc (Suc (2 * n))" by simp
  then obtain lo hi rest where v: "vec = lo # hi # rest" "length rest = 2 * n"
    unfolding length_Suc_conv by blast
  show ?case unfolding v(1)
    by (simp only: srli_epi16_4.simps Let_def list.map srli_low srli_high Suc.IH [OF v(2)])
qed simp

lemma sad_groups_sum: "length xs = 8 * n \<Longrightarrow> sum_list (sad_groups xs) = sum_list (map unat xs)"
proof (induction n arbitrary: xs)
  case (Suc n)
  then have "length xs = Suc (Suc (Suc (Suc (Suc (Suc (Suc (Suc (8 * n))))))))" by simp
  then obtain b0 b1 b2 b3 b4 b5 b6 b7 ys where x: "xs = b0 # b1 # b2 # b3 # b4 # b5 # b6 # b7 # ys" "length ys = 8 * n"
    unfolding length_Suc_conv by blast
  from Suc.IH [OF x(2)] show ?case by (simp add: x(1))
qed simp

lemma map2_replicate: "length xs = n \<Longrightarrow> map2 f xs (replicate n c) = map (\<lambda>x. f x c) xs"
  by (induction xs arbitrary: n) auto

lemma map2_maps: "map2 f (map g xs) (map h xs) = map (\<lambda>x. f (g x) (h x)) xs"
  by (induction xs) auto

lemma avx2_block_spec:
  assumes "length vec = 32"
  shows "avx2_block vec = bitcount_lookup_table vec"
proof -
  have l: "length vec = 2 * 16" "length (map nibble_sum vec) = 8 * 4" using assms by simp_all
  have lo: "and_si256 vec (replicate 32 0x0F) = map (\<lambda>b. b AND 0x0F) vec"
    using assms by (simp only: and_si256_def map2_replicate)
  have "and_si256 (srli_epi16_4 vec) (replicate 32 0x0F) = map (\<lambda>b. b AND 0x0F) (srli_epi16_4 vec)"
    using assms by (simp only: and_si256_def map2_replicate length_srli)
  then have hi: "and_si256 (srli_epi16_4 vec) (replicate 32 0x0F) = map (\<lambda>b. drop_bit 4 b AND 0x0F) vec"
    by (simp only: srli_masked [OF l(1)])
  have "add_epi8 (shuffle_epi8 nibble_table (map (\<lambda>b. b AND 0x0F) vec))
      (shuffle_epi8 nibble_table (map (\<lambda>b. drop_bit 4 b AND 0x0F) vec)) = map nibble_sum vec"
    by (simp only: add_epi8_def shuffle_epi8_def map_map comp_def map2_maps nibble_sum_def [symmetric])
  then have "avx2_block vec = sum_list (sad_groups (map nibble_sum vec))"
    by (simp only: avx2_block_def Let_def lo hi)
  also have "\<dots> = bitcount_lookup_table vec"
    by (simp only: sad_groups_sum [OF l(2)] map_map comp_def nibble_sum_count bitcount_lookup_table_def)
  finally show ?thesis .
qed

lemma lookup_append: "bitcount_lookup_table (xs @ ys) = bitcount_lookup_table xs + bitcount_lookup_table ys"
  by (simp add: bitcount_lookup_table_def)

declare avx2_loop.simps [simp del]

lemma avx2_loop_spec: "avx2_loop bs count = count + bitcount_lookup_table bs"
proof (induction bs count rule: avx2_loop.induct)
  case (1 bs count)
  show ?case
  proof (cases "length bs \<ge> 32")
    case True
    have "bitcount_lookup_table bs = bitcount_lookup_table (take 32 bs) + bitcount_lookup_table (drop 32 bs)"
      by (metis lookup_append append_take_drop_id)
    moreover have "avx2_block (take 32 bs) = bitcount_lookup_table (take 32 bs)"
      using True by (intro avx2_block_spec) simp
    ultimately show ?thesis using 1 [OF True] True by (simp add: avx2_loop.simps [of bs])
  next
    case False
    then show ?thesis by (simp add: avx2_loop.simps [of bs] popcnt_loop_spec)
  qed
qed

lemma bitcount_strategies:
  "bitcount_auto f bs = ones (bits_of bs)" "bitcount_strategy_bytes f bs strategy = ones (bits_of bs)"
  by (auto simp: bitcount_auto_def bitcount_strategy_bytes_def bitcount_avx2_def bitcount_popcnt_def
      bitcount_popcnt_impl_def avx2_loop_spec popcnt_loop_spec lookup_ones split: bitcount_strategy.split)

section \<open>Bitmaps as sets of positions\<close>

definition bm_bit :: "bitmap \<Rightarrow> nat \<Rightarrow> bool" where
  "bm_bit bm i \<longleftrightarrow> i div 8 < length (bm_bytes bm) \<and> bit (bm_bytes bm ! (i div 8)) (7 - i mod 8)"

lemma bm_bit_bits: "bm_bit bm i \<longleftrightarrow> i < 8 * length (bm_bytes bm) \<and> bits_of (bm_bytes bm) ! i"
proof -
  have "i div 8 < length (bm_bytes bm) \<longleftrightarrow> i < 8 * length (bm_bytes bm)" by auto
  then show ?thesis by (auto simp: bm_bit_def bits_of_nth)
qed

lemma get_bit_spec: "get_bit_bm bm i = Some (bm_bit bm i)"
proof -
  have "(drop_bit k (b :: u8) AND 1 = 1) = bit b k" for b k
    by (simp add: bit_iff_odd_drop_bit and_one_eq odd_iff_mod_2_eq_one)
  then show ?thesis by (auto simp: get_bit_bm_def bm_bit_def Let_def)
qed

lemma mask_bit: "bit (2 ^ k :: u8) n \<longleftrightarrow> n = k \<and> k < 8"
  by (auto simp: bit_exp_iff)

lemma div_mod_8_inj: "j div 8 = i div 8 \<Longrightarrow> 7 - j mod 8 = 7 - i mod 8 \<Longrightarrow> j = (i :: nat)"
proof -
  assume "j div 8 = i div 8" "7 - j mod 8 = 7 - i mod 8"
  moreover have "j mod 8 < 8" "i mod 8 < 8" by simp_all
  ultimately have "j div 8 = i div 8" "j mod 8 = i mod 8" by linarith+
  then show "j = i" by (metis div_mult_mod_eq)
qed

lemma set_bit_spec:
  "\<exists>bm'. set_bit_bm bm i v = Some (bm_bit bm i, bm') \<and> (\<forall>j. bm_bit bm' j = (if j = i then v else bm_bit bm j)) \<and>
    length (bm_bytes bm') = max (length (bm_bytes bm)) (i div 8 + 1)"
proof -
  define n where "n = i div 8"
  define bs where "bs = (if n \<ge> length (bm_bytes bm)
    then bm_bytes bm @ replicate (n + 1 - length (bm_bytes bm)) 0 else bm_bytes bm)"
  define m where "m = (2 ^ (7 - i mod 8) :: u8)"
  have n: "n < length bs" and len: "length bs = max (length (bm_bytes bm)) (n + 1)" by (auto simp: bs_def)
  have same: "bm_bit bm j \<longleftrightarrow> j div 8 < length bs \<and> bit (bs ! (j div 8)) (7 - j mod 8)" for j
    by (auto simp: bm_bit_def bs_def nth_append)
  define b where "b = (if v then bs ! n OR m else bs ! n AND NOT m)"
  have old: "(bs ! n AND m \<noteq> 0) = bm_bit bm i"
  proof -
    have "(bs ! n AND m \<noteq> 0) = bit (bs ! n) (7 - i mod 8)" by (simp add: m_def and_exp_eq_0_iff_not_bit)
    then show ?thesis using n same [of i] by (simp add: n_def)
  qed
  have eq: "set_bit_bm bm i v = Some (bm_bit bm i, (bm \<lparr> bm_bytes := bs[n := b] \<rparr>))"
    using n old by (simp add: set_bit_bm_def n_def [symmetric] bs_def [symmetric] m_def [symmetric] b_def Let_def)
  have "bm_bit (bm \<lparr> bm_bytes := bs[n := b] \<rparr>) j = (if j = i then v else bm_bit bm j)" for j
  proof (cases "j div 8 = n")
    case False
    then have "j \<noteq> i" by (auto simp: n_def)
    with False show ?thesis unfolding same [of j] by (simp add: bm_bit_def)
  next
    case True
    have "bit b (7 - j mod 8) = (if 7 - j mod 8 = 7 - i mod 8 then v else bit (bs ! n) (7 - j mod 8))"
      by (auto simp: b_def bit_or_iff bit_and_iff bit_not_iff mask_bit m_def)
    moreover have "7 - j mod 8 = 7 - i mod 8 \<longleftrightarrow> j = i" using True div_mod_8_inj [of j i] by (auto simp: n_def)
    ultimately show ?thesis using True n by (simp add: bm_bit_def [of "(bm \<lparr> bm_bytes := bs[n := b] \<rparr>)"] same)
  qed
  with eq len n_def show ?thesis by auto
qed

section \<open>Counting a range\<close>

lemma byte_bits_and: "byte_bits (b AND m) = map2 (\<and>) (byte_bits b) (byte_bits m)"
  by (simp add: byte_bits_def bit_and_iff)

lemma ones_and_replicate:
  "length xs = a + b + c \<Longrightarrow>
   ones (map2 (\<and>) xs (replicate a False @ replicate b True @ replicate c False)) = ones (take b (drop a xs))"
proof -
  assume l: "length xs = a + b + c"
  have "take b (drop a xs) @ drop (a + b) xs = drop a xs"
    by (metis append_take_drop_id drop_drop add.commute)
  then have "xs = take a xs @ take b (drop a xs) @ drop (a + b) xs" by simp
  with l obtain us vs ws where x: "xs = us @ vs @ ws" "length us = a" "length vs = b" "length ws = c"
    by (intro that [of "take a xs" "take b (drop a xs)" "drop (a + b) xs"]) simp_all
  have f: "map2 (\<and>) zs (replicate n False) = replicate n False" if "length zs = n" for zs n
    using that by (induction zs arbitrary: n) auto
  have t: "map2 (\<and>) zs (replicate n True) = zs" if "length zs = n" for zs n
    using that by (induction zs arbitrary: n) auto
  show ?thesis using x by (simp add: f t)
qed

lemma masks:
  "k < 8 \<Longrightarrow> byte_bits (drop_bit k 0xFF) = replicate k False @ replicate (8 - k) True"
  "0 < k \<Longrightarrow> k < 8 \<Longrightarrow> byte_bits (push_bit (8 - k) 0xFF) = replicate k True @ replicate (8 - k) False"
  "k < 8 \<Longrightarrow> 0 < e \<Longrightarrow> e < 8 \<Longrightarrow> k \<le> e \<Longrightarrow> byte_bits (drop_bit k 0xFF AND push_bit (8 - e) 0xFF) =
     replicate k False @ replicate (e - k) True @ replicate (8 - e) False"
proof -
  have 1: "list_all (\<lambda>k. byte_bits (drop_bit k 0xFF) = replicate k False @ replicate (8 - k) True) [0..<8]" by code_simp
  have 2: "list_all (\<lambda>k. byte_bits (push_bit (8 - k) 0xFF) = replicate k True @ replicate (8 - k) False) [1..<8]"
    by code_simp
  have 3: "list_all (\<lambda>k. list_all (\<lambda>e. byte_bits (drop_bit k 0xFF AND push_bit (8 - e) 0xFF) =
     replicate k False @ replicate (e - k) True @ replicate (8 - e) False) [max 1 k..<8]) [0..<8]" by code_simp
  show "k < 8 \<Longrightarrow> byte_bits (drop_bit k 0xFF) = replicate k False @ replicate (8 - k) True"
    using 1 by (simp only: list_all_iff) simp
  show "0 < k \<Longrightarrow> k < 8 \<Longrightarrow> byte_bits (push_bit (8 - k) 0xFF) = replicate k True @ replicate (8 - k) False"
    using 2 by (simp only: list_all_iff) simp
  show "k < 8 \<Longrightarrow> 0 < e \<Longrightarrow> e < 8 \<Longrightarrow> k \<le> e \<Longrightarrow> byte_bits (drop_bit k 0xFF AND push_bit (8 - e) 0xFF) =
     replicate k False @ replicate (e - k) True @ replicate (8 - e) False"
    using 3 by (simp only: list_all_iff) simp
qed

lemma count_first: "k < 8 \<Longrightarrow> byte_count (b AND drop_bit k 0xFF) = ones (drop k (byte_bits b))"
  using ones_and_replicate [of "byte_bits b" k "8 - k" 0]
  by (simp only: byte_count_ones byte_bits_and [of b] masks(1) length_byte_bits) simp

lemma count_last: "0 < k \<Longrightarrow> k < 8 \<Longrightarrow> byte_count (b AND push_bit (8 - k) 0xFF) = ones (take k (byte_bits b))"
  using ones_and_replicate [of "byte_bits b" 0 k "8 - k"]
  by (simp only: byte_count_ones byte_bits_and [of b] masks(2) length_byte_bits) simp

lemma count_between:
  "k < 8 \<Longrightarrow> 0 < e \<Longrightarrow> e < 8 \<Longrightarrow> k \<le> e \<Longrightarrow>
   byte_count (b AND (drop_bit k 0xFF AND push_bit (8 - e) 0xFF)) = ones (drop k (take e (byte_bits b)))"
  using ones_and_replicate [of "byte_bits b" k "e - k" "8 - e"]
  by (simp only: byte_count_ones byte_bits_and [of b] masks(3) length_byte_bits drop_take)

lemma count_full: "byte_count (b AND 0xFF) = ones (byte_bits b)"
  using count_first [of 0 b] by simp

lemma bits_slice_one:
  assumes "bs = xs @ b # ys" and "sb \<le> 8" and "eb \<le> 8"
  shows "drop (8 * length xs + sb) (take (8 * length xs + eb) (bits_of bs)) = drop sb (take eb (byte_bits b))"
  using assms by simp

lemma bits_slice_two:
  assumes "bs = xs @ b # ms @ c # ys" and "sb \<le> 8" and "eb \<le> 8"
  shows "drop (8 * length xs + sb) (take (8 * (length xs + 1 + length ms) + eb) (bits_of bs)) =
    drop sb (byte_bits b) @ bits_of ms @ take eb (byte_bits c)"
  using assms by simp

lemma byte_end:
  fixes n :: nat
  assumes "0 < n"
  shows "n = 8 * ((n - 1) div 8) + (if n mod 8 = 0 then 8 else n mod 8)" and "n mod 8 \<le> 8"
proof -
  obtain m where m: "n = Suc m" using assms by (cases n) auto
  define q r where "q = m div 8" and "r = m mod 8"
  have qr: "m = 8 * q + r" "r < 8" unfolding q_def r_def by (rule mult_div_mod_eq [symmetric], rule mod_less_divisor) simp
  have "Suc m mod 8 = (if r = 7 then 0 else Suc r)" unfolding r_def mod_Suc by simp
  then show "n = 8 * ((n - 1) div 8) + (if n mod 8 = 0 then 8 else n mod 8)"
    unfolding m diff_Suc_1 q_def [symmetric] using qr by (cases "r = 7") simp_all
qed simp

lemma bitcount_range_spec:
  fixes bm :: bitmap and e0 :: nat
  assumes middle: "\<And>bs. middle bs = ones (bits_of bs)"
  defines "bs \<equiv> bm_bytes bm"
  defines "fin \<equiv> min e0 (8 * length bs)"
  shows "bitcount_range middle bm s0 e0 = Some (ones (drop (min s0 fin) (take fin (bits_of bs))))"
proof (cases "s0 < fin")
  case False
  then have "min s0 fin \<ge> fin" by simp
  then show ?thesis by (simp add: bitcount_range_def bit_len_def bs_def [symmetric] fin_def mult.commute Let_def)
next
  case True
  define s where "s = s0 div 8"
  define sb where "sb = s0 mod 8"
  define e where "e = (fin - 1) div 8"
  define eb where "eb = fin mod 8"
  define eb' where "eb' = (if eb = 0 then 8 else eb)"
  have s0: "s0 = 8 * s + sb" "sb < 8" by (simp_all add: s_def sb_def)
  have fin: "fin = 8 * e + eb'" "0 < eb'" "eb' \<le> 8"
    unfolding e_def eb'_def eb_def using byte_end [of fin] True by (auto split: if_splits)
  have e: "e < length bs" using fin True unfolding fin_def by linarith
  have se: "s \<le> e" using True s0 fin by linarith
  have start: "min s0 fin = s0" using True by simp
  have fin': "min e0 (bit_len bm) = fin" by (simp add: fin_def bit_len_def bs_def mult.commute)
  have unf: "bitcount_range middle bm s0 e0 =
      (if s = e then do { b \<leftarrow> idx bs s; Some (byte_count (b AND
           (if eb = 0 then drop_bit sb 0xFF else drop_bit sb 0xFF AND push_bit (8 - eb) 0xFF))) }
       else do {
         first \<leftarrow> idx bs s;
         count \<leftarrow> (if e > s + 1 then do { m \<leftarrow> slice bs (s + 1) e;
             Some (byte_count (first AND drop_bit sb 0xFF) + middle m) }
           else Some (byte_count (first AND drop_bit sb 0xFF)));
         lst \<leftarrow> idx bs e;
         Some (count + byte_count (lst AND (if eb = 0 then 0xFF else push_bit (8 - eb) 0xFF)))
       })"
    using True by (simp only: bitcount_range_def fin' start Let_def bs_def [symmetric] s_def [symmetric]
      sb_def [symmetric] e_def [symmetric] eb_def [symmetric] not_le if_not_P refl if_False)
  show ?thesis
  proof (cases "s = e")
    case True
    have b: "bs = take s bs @ bs ! s # drop (Suc s) bs" using e True by (simp add: id_take_nth_drop)
    have "drop s0 (take fin (bits_of bs)) = drop sb (take eb' (byte_bits (bs ! s)))"
      using bits_slice_one [OF b, of sb eb'] s0 fin e True by simp
    moreover have "eb < 8" by (simp add: eb_def)
    moreover have "sb \<le> eb'" using \<open>s0 < fin\<close> s0 fin True by simp
    ultimately show ?thesis
      using unf True e s0(2) fin(2,3) by (simp add: start eb'_def count_first count_between split: if_splits)
  next
    case False
    with se have lt: "s < e" by simp
    define ms where "ms = take (e - Suc s) (drop (Suc s) bs)"
    have ms: "length ms = e - Suc s" using e by (simp add: ms_def)
    have "drop (Suc s) bs = ms @ bs ! e # drop (Suc e) bs"
      using id_take_nth_drop [of "e - Suc s" "drop (Suc s) bs"] lt e by (simp add: ms_def)
    then have b: "bs = take s bs @ bs ! s # ms @ bs ! e # drop (Suc e) bs"
      using id_take_nth_drop [of s bs] lt e by simp
    have l: "length (take s bs) = s" "s + 1 + length ms = e" using ms lt e by simp_all
    have "drop s0 (take fin (bits_of bs)) =
        drop sb (byte_bits (bs ! s)) @ bits_of ms @ take eb' (byte_bits (bs ! e))"
      using bits_slice_two [OF b, of sb eb', unfolded l] s0 fin by simp
    moreover have "slice bs (s + 1) e = Some ms" using lt e by (simp add: slice_def ms_def)
    moreover have "ms = []" if "\<not> e > s + 1" using that ms by simp
    moreover have "byte_count (bs ! e AND (if eb = 0 then 0xFF else push_bit (8 - eb) 0xFF)) =
        ones (take eb' (byte_bits (bs ! e)))"
      using fin(2,3) count_full count_last [of eb "bs ! e"] by (simp add: eb'_def eb_def)
    ultimately show ?thesis
      using unf False e lt s0(2) by (auto simp: start middle count_first)
  qed
qed

lemma ones_range_card:
  "ones (drop a (take b xs)) = card {i. a \<le> i \<and> i < b \<and> i < length xs \<and> xs ! i}"
proof -
  have "ones (drop a (take b xs)) = card {i. i < length (drop a (take b xs)) \<and> drop a (take b xs) ! i}"
    by (simp add: length_filter_conv_card)
  also have "\<dots> = card ((+) a ` {i. i < length (drop a (take b xs)) \<and> drop a (take b xs) ! i})"
    by (simp add: card_image)
  also have "(+) a ` {i. i < length (drop a (take b xs)) \<and> drop a (take b xs) ! i} =
      {i. a \<le> i \<and> i < b \<and> i < length xs \<and> xs ! i}"
  proof (intro set_eqI iffI)
    fix i assume "i \<in> {i. a \<le> i \<and> i < b \<and> i < length xs \<and> xs ! i}"
    then show "i \<in> (+) a ` {i. i < length (drop a (take b xs)) \<and> drop a (take b xs) ! i}"
      by (intro image_eqI [of _ _ "i - a"]) auto
  next
    fix i assume "i \<in> (+) a ` {i. i < length (drop a (take b xs)) \<and> drop a (take b xs) ! i}"
    then obtain k where k: "i = a + k" "k < length (drop a (take b xs))" "drop a (take b xs) ! k" by auto
    then have "a \<le> length (take b xs)" by auto
    with k show "i \<in> {i. a \<le> i \<and> i < b \<and> i < length xs \<and> xs ! i}" by auto
  qed
  finally show ?thesis .
qed

section \<open>Properties\<close>

lemma bitcount_card:
  "bm_bitcount f bm start fin = Some (card {i. start \<le> i \<and> i < fin \<and> bm_bit bm i})"
  "bm_bitcount_with_strategy f bm start fin strategy = Some (card {i. start \<le> i \<and> i < fin \<and> bm_bit bm i})"
proof -
  let ?bs = "bm_bytes bm"
  let ?fin = "min fin (8 * length ?bs)"
  have c: "{i. min start ?fin \<le> i \<and> i < ?fin \<and> i < length (bits_of ?bs) \<and> bits_of ?bs ! i} =
      {i. start \<le> i \<and> i < fin \<and> bm_bit bm i}"
    by (auto simp: bm_bit_bits)
  show "bm_bitcount f bm start fin = Some (card {i. start \<le> i \<and> i < fin \<and> bm_bit bm i})"
    unfolding bm_bitcount_def bitcount_range_spec [of "bitcount_auto f", OF bitcount_strategies(1)] ones_range_card c ..
  show "bm_bitcount_with_strategy f bm start fin strategy = Some (card {i. start \<le> i \<and> i < fin \<and> bm_bit bm i})"
    unfolding bm_bitcount_with_strategy_def
      bitcount_range_spec [of "\<lambda>bs. bitcount_strategy_bytes f bs strategy", OF bitcount_strategies(2)] ones_range_card c ..
qed

text \<open>C25. \<open>bitcount\<close> over any range counts exactly the set bits of the range, out-of-range ends included,
  without a panic, and the same for every CPU and every explicit strategy.\<close>

theorem bitcount_exact:
  "bm_bitcount f bm start fin = Some (card {i. start \<le> i \<and> i < fin \<and> bm_bit bm i}) \<and>
   bm_bitcount_with_strategy f bm start fin strategy = bm_bitcount f bm start fin \<and>
   bitcount_all f bm = card {i. bm_bit bm i}"
proof -
  have "ones (bits_of (bm_bytes bm)) = card {i. bm_bit bm i}"
    using ones_range_card [of 0 "8 * length (bm_bytes bm)" "bits_of (bm_bytes bm)"] by (simp add: bm_bit_bits)
  then show ?thesis by (simp add: bitcount_card bitcount_all_def bitcount_strategies)
qed

text \<open>\<open>set_bit\<close> returns the old bit, grows the array just enough, and changes that bit only;
  \<open>get_bit\<close> reads the bit, and \<open>false\<close> beyond the end.\<close>

theorem set_bit_exact:
  "\<exists>bm'. set_bit_bm bm i v = Some (bm_bit bm i, bm') \<and>
    (\<forall>j. get_bit_bm bm' j = Some (if j = i then v else bm_bit bm j)) \<and>
    length (bm_bytes bm') = max (length (bm_bytes bm)) (i div 8 + 1)"
  using set_bit_spec [of bm i v] by (auto simp: get_bit_spec)

text \<open>The operators are pointwise: conjunction cuts to the shorter array, disjunction and exclusive
  or read missing bytes as zero, negation complements within the array.\<close>

theorem bitops_pointwise:
  "bm_bit (bm_and a b) i = (bm_bit a i \<and> bm_bit b i) \<and>
   bm_bit (bm_or a b) i = (bm_bit a i \<or> bm_bit b i) \<and>
   bm_bit (bm_xor a b) i = (bm_bit a i \<noteq> bm_bit b i) \<and>
   bm_bit (bm_not a) i = (i < bit_len a \<and> \<not> bm_bit a i)"
proof (intro conjI)
  let ?len = "max (length (bm_bytes a)) (length (bm_bytes b))"
  have z: "bm_bit c i = bit (get_or_zero (bm_bytes c) (i div 8)) (7 - i mod 8)" for c
    by (simp add: bm_bit_def get_or_zero_def)
  have out: "get_or_zero (bm_bytes a) (i div 8) = 0" "get_or_zero (bm_bytes b) (i div 8) = 0" if "\<not> i div 8 < ?len"
    using that unfolding get_or_zero_def by (auto simp del: bit_simps)
  show "bm_bit (bm_and a b) i = (bm_bit a i \<and> bm_bit b i)"
    by (auto simp: bm_bit_def bm_and_def bit_and_iff)
  show "bm_bit (bm_or a b) i = (bm_bit a i \<or> bm_bit b i)"
    using out by (cases "i div 8 < ?len") (simp_all add: z, simp_all add: bm_or_def get_or_zero_def [of "map _ _"] bit_or_iff)
  show "bm_bit (bm_xor a b) i = (bm_bit a i \<noteq> bm_bit b i)"
    using out by (cases "i div 8 < ?len") (simp_all add: z, simp_all add: bm_xor_def get_or_zero_def [of "map _ _"] bit_xor_iff)
  have "i div 8 < length (bm_bytes a) \<longleftrightarrow> i < bit_len a" by (auto simp: bit_len_def)
  then show "bm_bit (bm_not a) i = (i < bit_len a \<and> \<not> bm_bit a i)"
    by (auto simp: bm_bit_def bm_not_def bit_not_iff)
qed

end
