(* ===== verification/SkipList.thy ===== *)
theory SkipList
  imports Interfaces
begin

text \<open>
  \<open>src/database/skiplist/skiplist_base.rs\<close>: the skip list behind sorted sets, with its nodes in an explicit
  heap. The source works with \<open>NonNull\<close> and raw pointers in \<open>unsafe\<close> blocks: here a pointer is an address,
  following a null pointer or the address of a node that was freed is \<open>None\<close>, and so is a loop over links
  that does not end. A theorem that an operation returns \<open>Some\<close> therefore includes its memory safety.

  \<open>Box::into_raw\<close> takes an address never used before (field \<open>sl_fresh\<close>) and \<open>Box::from_raw\<close> followed by
  a drop removes the cell. \<open>fastrand::u32\<close> is the parameter \<open>rand\<close>, the sequence of values
  the generator returns, of which \<open>sl_drawn\<close> have been drawn; nothing is assumed of it.
\<close>

unbundle bit_operations_syntax

section \<open>State\<close>

abbreviation MAX_LEVEL :: nat where "MAX_LEVEL \<equiv> 16"
abbreviation P_LEVEL :: u32 where "P_LEVEL \<equiv> 0x4000"
abbreviation MASK :: u32 where "MASK \<equiv> 0xFFFF"

type_synonym addr = nat
type_synonym link = "addr option"

record ('k, 'v) node =
  nd_key :: 'k
  nd_value :: 'v
  nd_forward :: "link list"
  nd_backward :: link

type_synonym ('k, 'v) cells = "addr \<Rightarrow> ('k, 'v) node option"

record ('k, 'v) skip_list =
  sl_cells :: "('k, 'v) cells"
  sl_fresh :: addr
  sl_drawn :: nat
  sl_head :: addr
  sl_level :: nat
  sl_length :: nat

definition node_new :: "'k \<Rightarrow> 'v \<Rightarrow> ('k, 'v) node" where
  "node_new k v = \<lparr> nd_key = k, nd_value = v, nd_forward = replicate MAX_LEVEL None, nd_backward = None \<rparr>"

text \<open>\<open>Node::head\<close> with \<open>K::default()\<close> and \<open>V::default()\<close> as arguments.\<close>
definition sl_new :: "'k \<Rightarrow> 'v \<Rightarrow> ('k, 'v) skip_list" where
  "sl_new dk dv = \<lparr> sl_cells = [0 \<mapsto> node_new dk dv], sl_fresh = 1, sl_drawn = 0, sl_head = 0, sl_level = 1,
     sl_length = 0 \<rparr>"

section \<open>Searching\<close>

function random_level_loop :: "(nat \<Rightarrow> u32) \<Rightarrow> nat \<Rightarrow> nat \<Rightarrow> nat \<times> nat" where
  "random_level_loop rand drawn lvl =
     (if lvl < MAX_LEVEL
      then if rand drawn AND MASK < P_LEVEL then random_level_loop rand (drawn + 1) (lvl + 1) else (lvl, drawn + 1)
      else (lvl, drawn))"
  by pat_completeness auto
termination
  by (relation "measure (\<lambda>(r, d, lvl). MAX_LEVEL - lvl)") auto

declare random_level_loop.simps [simp del]

definition random_level :: "(nat \<Rightarrow> u32) \<Rightarrow> nat \<Rightarrow> nat \<times> nat" where
  "random_level rand drawn = random_level_loop rand drawn 1"

text \<open>The \<open>while let\<close> loop along one level, up to the last node whose key is below \<open>key\<close>.\<close>

partial_function (option) walk :: "('k :: linorder, 'v) cells \<Rightarrow> 'k \<Rightarrow> nat \<Rightarrow> addr \<Rightarrow> addr option" where
  "walk c k i cur = do {
     n \<leftarrow> c cur;
     nxt \<leftarrow> idx (nd_forward n) i;
     case nxt of
       None \<Rightarrow> Some cur
     | Some p \<Rightarrow> do {
         m \<leftarrow> c p;
         if nd_key m < k then walk c k i p else Some cur } }"

text \<open>\<open>for i in (0..self.level).rev()\<close>, recording the last node of each level.\<close>

fun find_update_loop ::
  "('k :: linorder, 'v) cells \<Rightarrow> 'k \<Rightarrow> nat list \<Rightarrow> addr \<Rightarrow> link list \<Rightarrow> link list panics" where
  "find_update_loop c k [] cur update = Some update"
| "find_update_loop c k (i # is) cur update = do {
     cur \<leftarrow> walk c k i cur;
     update \<leftarrow> upd update i (Some cur);
     find_update_loop c k is cur update }"

definition find_update :: "('k :: linorder, 'v) skip_list \<Rightarrow> 'k \<Rightarrow> link list panics" where
  "find_update s k = find_update_loop (sl_cells s) k (rev [0..<sl_level s]) (sl_head s) (replicate MAX_LEVEL None)"

text \<open>\<open>(*update[i])\<close>: the entry must not be null.\<close>
definition update_at :: "link list \<Rightarrow> nat \<Rightarrow> addr panics" where
  "update_at update i = do { l \<leftarrow> idx update i; l }"

text \<open>\<open>(*a).forward[i]\<close>\<close>
definition forward_at :: "('k, 'v) cells \<Rightarrow> addr \<Rightarrow> nat \<Rightarrow> link panics" where
  "forward_at c a i = do { n \<leftarrow> c a; idx (nd_forward n) i }"

fun descend :: "('k :: linorder, 'v) cells \<Rightarrow> 'k \<Rightarrow> nat list \<Rightarrow> addr \<Rightarrow> addr panics" where
  "descend c k [] cur = Some cur"
| "descend c k (i # is) cur = do { cur \<leftarrow> walk c k i cur; descend c k is cur }"

definition sl_search :: "('k :: linorder, 'v) skip_list \<Rightarrow> 'k \<Rightarrow> 'v option panics" where
  "sl_search s k = do {
     cur \<leftarrow> descend (sl_cells s) k (rev [0..<sl_level s]) (sl_head s);
     nxt \<leftarrow> forward_at (sl_cells s) cur 0;
     case nxt of
       None \<Rightarrow> Some None
     | Some p \<Rightarrow> do {
         n \<leftarrow> sl_cells s p;
         Some (if nd_key n = k then Some (nd_value n) else None) } }"

text \<open>\<open>search_mut\<close>, with what the caller does through the reference as \<open>f\<close>.\<close>
definition sl_search_mut ::
  "('k :: linorder, 'v) skip_list \<Rightarrow> 'k \<Rightarrow> ('v \<Rightarrow> 'v) \<Rightarrow> ('v option \<times> ('k, 'v) skip_list) panics" where
  "sl_search_mut s k f = do {
     update \<leftarrow> find_update s k;
     u0 \<leftarrow> update_at update 0;
     nxt \<leftarrow> forward_at (sl_cells s) u0 0;
     case nxt of
       None \<Rightarrow> Some (None, s)
     | Some p \<Rightarrow> do {
         n \<leftarrow> sl_cells s p;
         Some (if nd_key n = k
           then (Some (nd_value n), s \<lparr> sl_cells := (sl_cells s)(p \<mapsto> n \<lparr> nd_value := f (nd_value n) \<rparr>) \<rparr>)
           else (None, s)) } }"

definition sl_contains :: "('k :: linorder, 'v) skip_list \<Rightarrow> 'k \<Rightarrow> bool panics" where
  "sl_contains s k = map_option (\<lambda>r. r \<noteq> None) (sl_search s k)"

section \<open>Insertion and removal\<close>

definition set_forward :: "('k, 'v) cells \<Rightarrow> addr \<Rightarrow> nat \<Rightarrow> link \<Rightarrow> ('k, 'v) cells panics" where
  "set_forward c a i l = do {
     n \<leftarrow> c a;
     f \<leftarrow> upd (nd_forward n) i l;
     Some (c(a \<mapsto> n \<lparr> nd_forward := f \<rparr>)) }"

definition set_backward :: "('k, 'v) cells \<Rightarrow> addr \<Rightarrow> link \<Rightarrow> ('k, 'v) cells panics" where
  "set_backward c a l = do { n \<leftarrow> c a; Some (c(a \<mapsto> n \<lparr> nd_backward := l \<rparr>)) }"

fun fill_head :: "addr \<Rightarrow> nat list \<Rightarrow> link list \<Rightarrow> link list panics" where
  "fill_head h [] update = Some update"
| "fill_head h (i # is) update = do { update \<leftarrow> upd update i (Some h); fill_head h is update }"

fun link_levels :: "link list \<Rightarrow> addr \<Rightarrow> nat list \<Rightarrow> ('k, 'v) cells \<Rightarrow> ('k, 'v) cells panics" where
  "link_levels update new [] c = Some c"
| "link_levels update new (i # is) c = do {
     u \<leftarrow> update_at update i;
     f \<leftarrow> forward_at c u i;
     c \<leftarrow> set_forward c new i f;
     c \<leftarrow> set_forward c u i (Some new);
     link_levels update new is c }"

definition sl_insert ::
  "(nat \<Rightarrow> u32) \<Rightarrow> ('k :: linorder, 'v) skip_list \<Rightarrow> 'k \<Rightarrow> 'v \<Rightarrow> ('k, 'v) skip_list panics" where
  "sl_insert rand s k v = do {
     update \<leftarrow> find_update s k;
     u0 \<leftarrow> update_at update 0;
     nxt \<leftarrow> forward_at (sl_cells s) u0 0;
     existing \<leftarrow> (case nxt of
         None \<Rightarrow> Some None
       | Some p \<Rightarrow> do { n \<leftarrow> sl_cells s p; Some (if nd_key n = k then Some (p, n) else None) });
     case existing of
       Some (p, n) \<Rightarrow> Some (s \<lparr> sl_cells := (sl_cells s)(p \<mapsto> n \<lparr> nd_value := v \<rparr>) \<rparr>)
     | None \<Rightarrow> do {
         let (lvl, drawn) = random_level rand (sl_drawn s);
         update \<leftarrow> (if lvl > sl_level s then fill_head (sl_head s) [sl_level s..<lvl] update else Some update);
         let level = (if lvl > sl_level s then lvl else sl_level s);
         let new = sl_fresh s;
         c \<leftarrow> link_levels update new [0..<lvl] ((sl_cells s)(new \<mapsto> node_new k v));
         u0 \<leftarrow> idx update 0;
         c \<leftarrow> set_backward c new u0;
         nxt \<leftarrow> forward_at c new 0;
         c \<leftarrow> (case nxt of None \<Rightarrow> Some c | Some p \<Rightarrow> set_backward c p (Some new));
         Some (s \<lparr> sl_cells := c, sl_fresh := new + 1, sl_drawn := drawn, sl_level := level,
           sl_length := sl_length s + 1 \<rparr>) } }"

fun unlink_levels :: "link list \<Rightarrow> addr \<Rightarrow> nat list \<Rightarrow> ('k, 'v) cells \<Rightarrow> ('k, 'v) cells panics" where
  "unlink_levels update node [] c = Some c"
| "unlink_levels update node (i # is) c = do {
     u \<leftarrow> update_at update i;
     f \<leftarrow> forward_at c u i;
     c \<leftarrow> (if f = Some node then do { g \<leftarrow> forward_at c node i; set_forward c u i g } else Some c);
     unlink_levels update node is c }"

function lower_level :: "('k, 'v) cells \<Rightarrow> addr \<Rightarrow> nat \<Rightarrow> nat panics" where
  "lower_level c h level =
     (if level > 1
      then do { f \<leftarrow> forward_at c h (level - 1); if f = None then lower_level c h (level - 1) else Some level }
      else Some level)"
  by pat_completeness auto
termination
  by (relation "measure (\<lambda>(c, h, l). l)") auto

declare lower_level.simps [simp del]

definition sl_remove ::
  "('k :: linorder, 'v) skip_list \<Rightarrow> 'k \<Rightarrow> ('v option \<times> ('k, 'v) skip_list) panics" where
  "sl_remove s k = do {
     update \<leftarrow> find_update s k;
     u0 \<leftarrow> update_at update 0;
     nxt \<leftarrow> forward_at (sl_cells s) u0 0;
     case nxt of
       None \<Rightarrow> Some (None, s)
     | Some node \<Rightarrow> do {
         n \<leftarrow> sl_cells s node;
         if nd_key n = k then do {
           c \<leftarrow> unlink_levels update node [0..<sl_level s] (sl_cells s);
           nxt \<leftarrow> forward_at c node 0;
           m \<leftarrow> c node;
           c \<leftarrow> (case nxt of None \<Rightarrow> Some c | Some p \<Rightarrow> set_backward c p (nd_backward m));
           level \<leftarrow> lower_level c (sl_head s) (sl_level s);
           len \<leftarrow> usub (sl_length s) 1;
           boxed \<leftarrow> c node;
           Some (Some (nd_value boxed), s \<lparr> sl_cells := c(node := None), sl_level := level, sl_length := len \<rparr>)
         } else Some (None, s) } }"

definition sl_len :: "('k, 'v) skip_list \<Rightarrow> nat" where
  "sl_len s = sl_length s"

definition sl_is_empty :: "('k, 'v) skip_list \<Rightarrow> bool" where
  "sl_is_empty s \<longleftrightarrow> sl_length s = 0"

section \<open>Iterators and ends\<close>

text \<open>
  A step of an iterator returns the item and the iterator after it. \<open>ReverseIter\<close> stops at the head,
  \<open>RangeIter\<close> at the first key that is not below \<open>end\<close>.
\<close>

record 'k range_iter =
  ri_current :: link
  ri_end :: "'k option"

definition sl_iter :: "('k, 'v) skip_list \<Rightarrow> link panics" where
  "sl_iter s = forward_at (sl_cells s) (sl_head s) 0"

definition iter_step :: "('k, 'v) cells \<Rightarrow> link \<Rightarrow> (('k \<times> 'v) option \<times> link) panics" where
  "iter_step c cur = (case cur of
       None \<Rightarrow> Some (None, None)
     | Some p \<Rightarrow> do {
         n \<leftarrow> c p;
         nxt \<leftarrow> idx (nd_forward n) 0;
         Some (Some (nd_key n, nd_value n), nxt) })"

definition rev_step :: "('k, 'v) cells \<Rightarrow> addr \<Rightarrow> link \<Rightarrow> (('k \<times> 'v) option \<times> link) panics" where
  "rev_step c h cur = (case cur of
       None \<Rightarrow> Some (None, None)
     | Some p \<Rightarrow> if p = h then Some (None, Some p) else do {
         n \<leftarrow> c p;
         Some (Some (nd_key n, nd_value n), nd_backward n) })"

definition range_step ::
  "('k :: linorder, 'v) cells \<Rightarrow> 'k range_iter \<Rightarrow> (('k \<times> 'v) option \<times> 'k range_iter) panics" where
  "range_step c it = (case ri_current it of
       None \<Rightarrow> Some (None, it)
     | Some p \<Rightarrow> do {
         n \<leftarrow> c p;
         if (case ri_end it of None \<Rightarrow> False | Some e \<Rightarrow> nd_key n \<ge> e) then Some (None, it)
         else do {
           nxt \<leftarrow> idx (nd_forward n) 0;
           Some (Some (nd_key n, nd_value n), it \<lparr> ri_current := nxt \<rparr>) } })"

text \<open>A \<open>for\<close> loop over an iterator, collecting the items.\<close>

partial_function (option) collect :: "('it \<Rightarrow> ('a option \<times> 'it) panics) \<Rightarrow> 'it \<Rightarrow> 'a list option" where
  "collect step it = do {
     (r, it') \<leftarrow> step it;
     case r of None \<Rightarrow> Some [] | Some x \<Rightarrow> do { xs \<leftarrow> collect step it'; Some (x # xs) } }"

definition sl_range :: "('k :: linorder, 'v) skip_list \<Rightarrow> 'k \<Rightarrow> 'k \<Rightarrow> 'k range_iter panics" where
  "sl_range s a b = do {
     cur \<leftarrow> descend (sl_cells s) a (rev [0..<sl_level s]) (sl_head s);
     p \<leftarrow> forward_at (sl_cells s) cur 0;
     Some \<lparr> ri_current = p, ri_end = Some b \<rparr> }"

partial_function (option) walk_end :: "('k, 'v) cells \<Rightarrow> nat \<Rightarrow> addr \<Rightarrow> addr option" where
  "walk_end c i cur = do {
     nxt \<leftarrow> forward_at c cur i;
     case nxt of None \<Rightarrow> Some cur | Some p \<Rightarrow> walk_end c i p }"

fun descend_end :: "('k, 'v) cells \<Rightarrow> nat list \<Rightarrow> addr \<Rightarrow> addr panics" where
  "descend_end c [] cur = Some cur"
| "descend_end c (i # is) cur = do { cur \<leftarrow> walk_end c i cur; descend_end c is cur }"

definition sl_last_node :: "('k, 'v) skip_list \<Rightarrow> link panics" where
  "sl_last_node s = do {
     cur \<leftarrow> descend_end (sl_cells s) (rev [0..<sl_level s]) (sl_head s);
     Some (if cur = sl_head s then None else Some cur) }"

definition sl_iter_rev :: "('k, 'v) skip_list \<Rightarrow> link panics" where
  "sl_iter_rev s = sl_last_node s"

definition sl_first :: "('k, 'v) skip_list \<Rightarrow> ('k \<times> 'v) option panics" where
  "sl_first s = do {
     nxt \<leftarrow> forward_at (sl_cells s) (sl_head s) 0;
     case nxt of None \<Rightarrow> Some None | Some p \<Rightarrow> do { n \<leftarrow> sl_cells s p; Some (Some (nd_key n, nd_value n)) } }"

definition sl_last :: "('k, 'v) skip_list \<Rightarrow> ('k \<times> 'v) option panics" where
  "sl_last s = do {
     cur \<leftarrow> descend_end (sl_cells s) (rev [0..<sl_level s]) (sl_head s);
     if cur = sl_head s then Some None
     else do { n \<leftarrow> sl_cells s cur; Some (Some (nd_key n, nd_value n)) } }"

section \<open>Clearing, dropping, checking, comparing\<close>

text \<open>The loop of \<open>clear\<close> and \<open>drop\<close>: each node is freed after its link was read.\<close>

partial_function (option) free_all :: "('k, 'v) cells \<Rightarrow> link \<Rightarrow> ('k, 'v) cells option" where
  "free_all c cur = (case cur of
       None \<Rightarrow> Some c
     | Some p \<Rightarrow> do { nxt \<leftarrow> forward_at c p 0; free_all (c(p := None)) nxt })"

definition sl_clear :: "('k, 'v) skip_list \<Rightarrow> ('k, 'v) skip_list panics" where
  "sl_clear s = do {
     first \<leftarrow> forward_at (sl_cells s) (sl_head s) 0;
     c \<leftarrow> free_all (sl_cells s) first;
     hn \<leftarrow> c (sl_head s);
     Some (s \<lparr> sl_cells := c(sl_head s \<mapsto> hn \<lparr> nd_forward := map (\<lambda>_. None) (nd_forward hn), nd_backward := None \<rparr>),
       sl_level := 1, sl_length := 0 \<rparr>) }"

definition sl_drop :: "('k, 'v) skip_list \<Rightarrow> ('k, 'v) cells panics" where
  "sl_drop s = do {
     first \<leftarrow> forward_at (sl_cells s) (sl_head s) 0;
     c \<leftarrow> free_all (sl_cells s) first;
     _ \<leftarrow> c (sl_head s);
     Some (c(sl_head s := None)) }"

datatype validation_error =
    InvalidLevel nat nat
  | SortOrderViolation
  | LengthMismatch nat nat

partial_function (option) validate_loop ::
  "('k :: linorder, 'v) cells \<Rightarrow> nat \<Rightarrow> 'k option \<Rightarrow> link \<Rightarrow> (validation_error + nat) option" where
  "validate_loop c cnt prev_key cur = (case cur of
       None \<Rightarrow> Some (Inr cnt)
     | Some p \<Rightarrow> do {
         n \<leftarrow> c p;
         if \<not> length (nd_forward n) \<le> MAX_LEVEL then Some (Inl (InvalidLevel (length (nd_forward n)) MAX_LEVEL))
         else if (case prev_key of None \<Rightarrow> False | Some prev \<Rightarrow> \<not> prev < nd_key n) then Some (Inl SortOrderViolation)
         else do { nxt \<leftarrow> idx (nd_forward n) 0; validate_loop c (cnt + 1) (Some (nd_key n)) nxt } })"

definition validate_invariants :: "('k :: linorder, 'v) skip_list \<Rightarrow> (validation_error + unit) panics" where
  "validate_invariants s = do {
     first \<leftarrow> forward_at (sl_cells s) (sl_head s) 0;
     r \<leftarrow> validate_loop (sl_cells s) 0 None first;
     Some (case r of Inl e \<Rightarrow> Inl e
       | Inr cnt \<Rightarrow> if \<not> cnt = sl_length s then Inl (LengthMismatch (sl_length s) cnt) else Inr ()) }"

text \<open>The collected list that \<open>serialize\<close> passes on, and \<open>deserialize\<close> and \<open>clone\<close> insert again.\<close>

definition sl_serialize :: "('k, 'v) skip_list \<Rightarrow> ('k \<times> 'v) list panics" where
  "sl_serialize s = do { it \<leftarrow> sl_iter s; collect (iter_step (sl_cells s)) it }"

fun sl_insert_all ::
  "(nat \<Rightarrow> u32) \<Rightarrow> ('k :: linorder, 'v) skip_list \<Rightarrow> ('k \<times> 'v) list \<Rightarrow> ('k, 'v) skip_list panics" where
  "sl_insert_all rand s [] = Some s"
| "sl_insert_all rand s ((k, v) # kvs) = do { s \<leftarrow> sl_insert rand s k v; sl_insert_all rand s kvs }"

definition sl_deserialize ::
  "(nat \<Rightarrow> u32) \<Rightarrow> 'k :: linorder \<Rightarrow> 'v \<Rightarrow> ('k \<times> 'v) list \<Rightarrow> ('k, 'v) skip_list panics" where
  "sl_deserialize rand dk dv kvs = sl_insert_all rand (sl_new dk dv) kvs"

definition sl_clone ::
  "(nat \<Rightarrow> u32) \<Rightarrow> 'k :: linorder \<Rightarrow> 'v \<Rightarrow> ('k, 'v) skip_list \<Rightarrow> ('k, 'v) skip_list panics" where
  "sl_clone rand dk dv s = do {
     it \<leftarrow> sl_iter s;
     kvs \<leftarrow> collect (iter_step (sl_cells s)) it;
     sl_insert_all rand (sl_new dk dv) kvs }"

partial_function (option) eq_loop :: "('k, 'v) cells \<Rightarrow> ('k, 'v) cells \<Rightarrow> link \<Rightarrow> link \<Rightarrow> bool option" where
  "eq_loop ca cb a b = (case a of
       None \<Rightarrow> Some (b = None)
     | Some p \<Rightarrow> (case b of
         None \<Rightarrow> Some False
       | Some q \<Rightarrow> do {
           m \<leftarrow> ca p;
           n \<leftarrow> cb q;
           if nd_key m \<noteq> nd_key n \<or> nd_value m \<noteq> nd_value n then Some False
           else do {
             a' \<leftarrow> idx (nd_forward m) 0;
             b' \<leftarrow> idx (nd_forward n) 0;
             eq_loop ca cb a' b' } }))"

definition sl_eq :: "('k, 'v) skip_list \<Rightarrow> ('k, 'v) skip_list \<Rightarrow> bool panics" where
  "sl_eq s t =
     (if sl_len s \<noteq> sl_len t then Some False
      else do {
        a \<leftarrow> forward_at (sl_cells s) (sl_head s) 0;
        b \<leftarrow> forward_at (sl_cells t) (sl_head t) 0;
        eq_loop (sl_cells s) (sl_cells t) a b })"

section \<open>Chains of links\<close>

text \<open>
  The links of level \<open>i\<close> as a function from addresses, \<open>chain f a ps\<close> for the path from \<open>a\<close> through
  exactly the nodes \<open>ps\<close>, and \<open>bchain\<close> for the backward links.
\<close>

definition nx :: "('k, 'v) cells \<Rightarrow> nat \<Rightarrow> addr \<Rightarrow> link option" where
  "nx c i a = forward_at c a i"

fun chain :: "(addr \<Rightarrow> link option) \<Rightarrow> addr \<Rightarrow> addr list \<Rightarrow> bool" where
  "chain f a [] \<longleftrightarrow> f a = Some None"
| "chain f a (p # ps) \<longleftrightarrow> f a = Some (Some p) \<and> chain f p ps"

fun bchain :: "(addr \<Rightarrow> link option) \<Rightarrow> addr \<Rightarrow> addr list \<Rightarrow> bool" where
  "bchain b a [] \<longleftrightarrow> True"
| "bchain b a (p # ps) \<longleftrightarrow> b p = Some (Some a) \<and> bchain b p ps"

abbreviation last_of :: "addr \<Rightarrow> addr list \<Rightarrow> addr" where
  "last_of a ps \<equiv> last (a # ps)"

lemma chain_cong: "(\<And>x. x \<in> set (a # ps) \<Longrightarrow> f x = g x) \<Longrightarrow> chain f a ps \<longleftrightarrow> chain g a ps"
  by (induction ps arbitrary: a) auto

lemma bchain_cong: "(\<And>x. x \<in> set ps \<Longrightarrow> f x = g x) \<Longrightarrow> bchain f a ps \<longleftrightarrow> bchain g a ps"
  by (induction ps arbitrary: a) auto

lemma chain_append: "chain f a (xs @ ys) \<Longrightarrow> chain f (last_of a xs) ys"
  by (induction xs arbitrary: a) auto

lemma chain_next: "chain f a (xs @ p # ys) \<Longrightarrow> f (last_of a xs) = Some (Some p)"
  using chain_append [of f a xs "p # ys"] by simp

lemma chain_defined: "chain f a ps \<Longrightarrow> x \<in> set (a # ps) \<Longrightarrow> \<exists>l. f x = Some l"
  by (induction ps arbitrary: a) auto

lemma last_of_in: "last_of a ps \<in> set (a # ps)"
  by (rule last_in_set) simp

lemma last_of_append: "last_of a (xs @ ys) = last_of (last_of a xs) ys"
  by simp

lemma chain_insert:
  assumes "chain f a (xs @ ys)" and "distinct (a # xs @ ys)" and "new \<notin> set (a # xs @ ys)"
  shows "chain (f(new := f (last_of a xs), last_of a xs := Some (Some new))) a (xs @ new # ys)"
  using assms
proof (induction xs arbitrary: a)
  case Nil
  let ?g = "f(new := f a, a := Some (Some new))"
  have "chain ?g new ys"
  proof (cases ys)
    case (Cons y zs)
    have "chain ?g y zs \<longleftrightarrow> chain f y zs" by (rule chain_cong) (use Nil.prems Cons in auto)
    then show ?thesis using Nil.prems Cons by auto
  qed (use Nil.prems in auto)
  then show ?case by (simp add: fun_upd_def)
next
  case (Cons x xs)
  have "last_of x xs \<in> set (x # xs)" by (rule last_of_in)
  then have "last_of x xs \<noteq> a" using Cons.prems(2) by auto
  with Cons.IH [of x] Cons.prems show ?case by (simp add: fun_upd_def)
qed

lemma chain_remove:
  assumes "chain f a (xs @ p # ys)" and "distinct (a # xs @ p # ys)"
  shows "chain (f(last_of a xs := f p)) a (xs @ ys)"
  using assms
proof (induction xs arbitrary: a)
  case Nil
  show ?case
  proof (cases ys)
    case (Cons y zs)
    have fp: "f p = Some (Some y)" using Nil.prems Cons by simp
    have "chain (f(a := f p)) y zs \<longleftrightarrow> chain f y zs" by (rule chain_cong) (use Nil.prems Cons in auto)
    then show ?thesis using Nil.prems Cons by (simp add: fun_upd_def fp)
  qed (use Nil.prems in auto)
next
  case (Cons x xs)
  have "last_of x xs \<in> set (x # xs)" by (rule last_of_in)
  then have "last_of x xs \<noteq> a" using Cons.prems(2) by auto
  with Cons.IH [of x] Cons.prems show ?case by (simp add: fun_upd_def)
qed

lemma bchain_append: "bchain b a (xs @ ys) \<longleftrightarrow> bchain b a xs \<and> bchain b (last_of a xs) ys"
  by (induction xs arbitrary: a) auto

section \<open>Views of the heap\<close>

definition key_of :: "('k, 'v) cells \<Rightarrow> addr \<Rightarrow> 'k" where
  "key_of c a = nd_key (the (c a))"

definition val_of :: "('k, 'v) cells \<Rightarrow> addr \<Rightarrow> 'v" where
  "val_of c a = nd_value (the (c a))"

definition bk :: "('k, 'v) cells \<Rightarrow> addr \<Rightarrow> link option" where
  "bk c a = map_option nd_backward (c a)"

text \<open>Heaps that differ in the links only.\<close>

definition same_data :: "('k, 'v) cells \<Rightarrow> ('k, 'v) cells \<Rightarrow> bool" where
  "same_data c c' \<longleftrightarrow> (\<forall>a. map_option (\<lambda>n. (nd_key n, nd_value n, length (nd_forward n))) (c a) =
     map_option (\<lambda>n. (nd_key n, nd_value n, length (nd_forward n))) (c' a))"

lemma same_data_refl [simp]: "same_data c c"
  by (simp add: same_data_def)

lemma same_data_trans: "same_data c c' \<Longrightarrow> same_data c' c'' \<Longrightarrow> same_data c c''"
  by (simp add: same_data_def)

definition wide :: "('k, 'v) cells \<Rightarrow> bool" where
  "wide c \<longleftrightarrow> (\<forall>a n. c a = Some n \<longrightarrow> length (nd_forward n) = MAX_LEVEL)"

lemma same_dataD:
  assumes "same_data c c'"
  shows "dom c' = dom c" and "key_of c' a = key_of c a" and "val_of c' a = val_of c a" and "wide c' = wide c"
proof -
  have e: "(c a = None \<and> c' a = None) \<or> (\<exists>n n'. c a = Some n \<and> c' a = Some n' \<and> nd_key n' = nd_key n \<and>
      nd_value n' = nd_value n \<and> length (nd_forward n') = length (nd_forward n))" for a
    using assms unfolding same_data_def by (drule_tac x = a in spec) (cases "c a"; cases "c' a"; simp)
  have "c' a = None \<longleftrightarrow> c a = None" for a using e [of a] by auto
  then show "dom c' = dom c" by (simp add: dom_def)
  show "key_of c' a = key_of c a" and "val_of c' a = val_of c a"
    using e [of a] by (auto simp: key_of_def val_of_def)
  have "(\<forall>n. c' a = Some n \<longrightarrow> length (nd_forward n) = MAX_LEVEL) \<longleftrightarrow>
      (\<forall>n. c a = Some n \<longrightarrow> length (nd_forward n) = MAX_LEVEL)" for a
    using e [of a] by auto
  then show "wide c' = wide c" by (simp add: wide_def)
qed

lemma set_forward_view:
  assumes "wide c" and "a \<in> dom c" and "i < MAX_LEVEL"
  shows "\<exists>c'. set_forward c a i l = Some c' \<and> same_data c c' \<and> bk c' = bk c \<and>
    nx c' i = (nx c i)(a := Some l) \<and> (\<forall>j. j \<noteq> i \<longrightarrow> nx c' j = nx c j)"
proof -
  obtain n where n: "c a = Some n" using assms(2) by blast
  then have l: "length (nd_forward n) = MAX_LEVEL" using assms(1) by (simp add: wide_def)
  let ?c = "c(a \<mapsto> n \<lparr> nd_forward := (nd_forward n)[i := l] \<rparr>)"
  have "set_forward c a i l = Some ?c" using n l assms(3) by (simp add: set_forward_def upd_def)
  moreover have "same_data c ?c" "bk ?c = bk c" using n by (auto simp: same_data_def bk_def)
  moreover have "nx ?c i = (nx c i)(a := Some l)" using n l assms(3) by (auto simp: nx_def forward_at_def idx_def)
  moreover have "nx ?c j = nx c j" if "j \<noteq> i" for j using n that by (auto simp: nx_def forward_at_def idx_def)
  ultimately show ?thesis by blast
qed

lemma set_backward_view:
  assumes "a \<in> dom c"
  shows "\<exists>c'. set_backward c a l = Some c' \<and> same_data c c' \<and> bk c' = (bk c)(a := Some l) \<and> nx c' = nx c"
proof -
  obtain n where n: "c a = Some n" using assms by blast
  let ?c = "c(a \<mapsto> n \<lparr> nd_backward := l \<rparr>)"
  have "set_backward c a l = Some ?c" using n by (simp add: set_backward_def)
  moreover have "same_data c ?c" "bk ?c = (bk c)(a := Some l)" using n by (auto simp: same_data_def bk_def)
  moreover have "nx ?c = nx c" using n by (intro ext) (auto simp: nx_def forward_at_def)
  ultimately show ?thesis by blast
qed

lemma nx_defined: "wide c \<Longrightarrow> a \<in> dom c \<Longrightarrow> i < MAX_LEVEL \<Longrightarrow> \<exists>l. nx c i a = Some l"
  by (auto simp: nx_def forward_at_def idx_def wide_def)

lemma nx_dom: "nx c i a = Some l \<Longrightarrow> a \<in> dom c"
  by (auto simp: nx_def forward_at_def bind_Some_iff)

section \<open>The invariant\<close>

text \<open>
  \<open>sl_ok s ps H\<close>: the nodes in order are \<open>ps\<close>, node \<open>p\<close> takes part in the levels below \<open>H p\<close>, and the
  heap holds the head and these nodes and nothing else.
\<close>

definition sl_ok :: "('k :: linorder, 'v) skip_list \<Rightarrow> addr list \<Rightarrow> (addr \<Rightarrow> nat) \<Rightarrow> bool" where
  "sl_ok s ps H \<longleftrightarrow>
     distinct (sl_head s # ps) \<and> dom (sl_cells s) = set (sl_head s # ps) \<and>
     (\<forall>a \<in> dom (sl_cells s). a < sl_fresh s) \<and> wide (sl_cells s) \<and>
     (\<forall>i < MAX_LEVEL. chain (nx (sl_cells s) i) (sl_head s) (filter (\<lambda>p. i < H p) ps)) \<and>
     (\<forall>p \<in> set ps. 1 \<le> H p \<and> H p \<le> sl_level s) \<and> 1 \<le> sl_level s \<and> sl_level s \<le> MAX_LEVEL \<and>
     bchain (bk (sl_cells s)) (sl_head s) ps \<and>
     sorted_wrt (\<lambda>p q. key_of (sl_cells s) p < key_of (sl_cells s) q) ps \<and>
     sl_length s = length ps"

definition pairs :: "('k, 'v) cells \<Rightarrow> addr list \<Rightarrow> ('k \<times> 'v) list" where
  "pairs c ps = map (\<lambda>p. (key_of c p, val_of c p)) ps"

lemma sl_okD:
  assumes "sl_ok s ps H"
  shows "distinct (sl_head s # ps)" and "dom (sl_cells s) = set (sl_head s # ps)"
    and "a \<in> dom (sl_cells s) \<Longrightarrow> a < sl_fresh s" and "wide (sl_cells s)"
    and "i < MAX_LEVEL \<Longrightarrow> chain (nx (sl_cells s) i) (sl_head s) (filter (\<lambda>p. i < H p) ps)"
    and "p \<in> set ps \<Longrightarrow> 1 \<le> H p \<and> H p \<le> sl_level s" and "1 \<le> sl_level s \<and> sl_level s \<le> MAX_LEVEL"
    and "bchain (bk (sl_cells s)) (sl_head s) ps"
    and "sorted_wrt (\<lambda>p q. key_of (sl_cells s) p < key_of (sl_cells s) q) ps"
    and "sl_length s = length ps"
  using assms unfolding sl_ok_def by blast+

lemma sl_ok_level0:
  assumes "sl_ok s ps H"
  shows "chain (nx (sl_cells s) 0) (sl_head s) ps"
proof -
  have "filter (\<lambda>p. 0 < H p) ps = ps" using sl_okD(6) [OF assms] by (auto intro!: filter_True simp: Suc_le_eq)
  then show ?thesis using sl_okD(5) [OF assms, of 0] by simp
qed

lemma sl_new_ok: "sl_ok (sl_new dk dv) [] H"
  by (auto simp: sl_ok_def sl_new_def wide_def node_new_def nx_def forward_at_def idx_def)

text \<open>Splitting the nodes at a key.\<close>

lemma split_at_key:
  fixes k :: "'k :: linorder"
  assumes "sorted_wrt (\<lambda>p q. K p < K q) ps"
  obtains as bs where "ps = as @ bs" and "\<forall>p \<in> set as. K p < k" and "\<forall>p \<in> set bs. \<not> K p < k"
proof -
  have "\<exists>as bs. ps = as @ bs \<and> (\<forall>p \<in> set as. K p < k) \<and> (\<forall>p \<in> set bs. \<not> K p < k)"
    using assms
  proof (induction ps)
    case (Cons p ps)
    then obtain as bs where ab: "ps = as @ bs" "\<forall>p \<in> set as. K p < k" "\<forall>p \<in> set bs. \<not> K p < k" by auto
    show ?case
    proof (cases "K p < k")
      case True
      with ab show ?thesis by (intro exI [of _ "p # as"] exI [of _ bs]) auto
    next
      case False
      with Cons.prems have "\<forall>q \<in> set (p # ps). \<not> K q < k" by fastforce
      then show ?thesis by (intro exI [of _ "[]"] exI [of _ "p # ps"]) auto
    qed
  qed simp
  then show thesis using that by blast
qed

section \<open>Walking the levels\<close>

lemma walk_chain:
  assumes "chain (nx c i) a (xs @ ys)" and "\<forall>x \<in> set xs. key_of c x < k"
    and "\<forall>y \<in> set ys. \<not> key_of c y < k"
  shows "walk c k i a = Some (last_of a xs)"
  using assms
proof (induction xs arbitrary: a)
  case Nil
  show ?case
  proof (cases ys)
    case Nil
    with Nil.prems show ?thesis by (subst walk.simps) (auto simp: nx_def forward_at_def bind_Some_iff)
  next
    case (Cons y zs)
    then obtain m where "c y = Some m" using chain_defined [OF Nil.prems(1), of y] nx_dom by fastforce
    with Cons Nil.prems show ?thesis
      by (subst walk.simps) (auto simp: nx_def forward_at_def bind_Some_iff key_of_def)
  qed
next
  case (Cons x xs)
  obtain m where "c x = Some m" using chain_defined [OF Cons.prems(1), of x] nx_dom by fastforce
  with Cons show ?case
    by (subst walk.simps) (auto simp: nx_def forward_at_def bind_Some_iff key_of_def)
qed

lemma walk_end_chain: "chain (nx c i) a xs \<Longrightarrow> walk_end c i a = Some (last_of a xs)"
proof (induction xs arbitrary: a)
  case Nil
  then show ?case by (subst walk_end.simps) (simp add: nx_def)
next
  case (Cons x xs)
  then show ?case by (subst walk_end.simps) (simp add: nx_def)
qed

text \<open>Going down one level from the last node of the level above.\<close>

lemma level_below:
  assumes "chain f h (filter (\<lambda>p. i < H p) as @ rest)"
    and "a = last_of h (filter (\<lambda>p. Suc i < H p) as)"
  obtains vs where "chain f a (vs @ rest)" and "set vs \<subseteq> set as"
    and "last_of a vs = last_of h (filter (\<lambda>p. i < H p) as)"
proof -
  let ?L = "filter (\<lambda>p. i < H p) as"
  have "a \<in> set (h # filter (\<lambda>p. Suc i < H p) as)" unfolding assms(2) by (rule last_of_in)
  then have "a \<in> set (h # ?L)" by auto
  then obtain us vs where uv: "h # ?L = us @ a # vs" by (meson split_list)
  have "chain f a (vs @ rest)"
  proof (cases us)
    case Nil
    with uv assms(1) show ?thesis by simp
  next
    case (Cons u us')
    with uv have "?L = us' @ a # vs" by simp
    then have "chain f h ((us' @ [a]) @ (vs @ rest))" using assms(1) by simp
    then have "chain f (last_of h (us' @ [a])) (vs @ rest)" by (rule chain_append)
    then show ?thesis by simp
  qed
  moreover have "set vs \<subseteq> set (tl (h # ?L))" unfolding uv by (cases us) auto
  moreover have "last_of a vs = last_of h ?L" using uv by (metis last_appendR list.distinct(1))
  ultimately show thesis using that by auto
qed

definition preds :: "addr \<Rightarrow> (addr \<Rightarrow> nat) \<Rightarrow> addr list \<Rightarrow> nat \<Rightarrow> addr" where
  "preds h H as i = last_of h (filter (\<lambda>p. i < H p) as)"

lemma preds_in: "preds h H as i \<in> set (h # as)"
  using last_of_in [of h "filter (\<lambda>p. i < H p) as"] by (auto simp: preds_def)

lemma walk_level:
  assumes "chain (nx c i) h (filter (\<lambda>p. i < H p) (as @ bs))"
    and "\<forall>p \<in> set as. key_of c p < k" and "\<forall>p \<in> set bs. \<not> key_of c p < k"
  shows "walk c k i (preds h H as (Suc i)) = Some (preds h H as i)"
proof -
  have "chain (nx c i) h (filter (\<lambda>p. i < H p) as @ filter (\<lambda>p. i < H p) bs)" using assms(1) by simp
  then obtain vs where "chain (nx c i) (preds h H as (Suc i)) (vs @ filter (\<lambda>p. i < H p) bs)"
    "set vs \<subseteq> set as" "last_of (preds h H as (Suc i)) vs = preds h H as i"
    unfolding preds_def by (rule level_below) auto
  moreover have "\<forall>x \<in> set vs. key_of c x < k" using calculation(2) assms(2) by auto
  moreover have "\<forall>y \<in> set (filter (\<lambda>p. i < H p) bs). \<not> key_of c y < k" using assms(3) by auto
  ultimately show ?thesis using walk_chain [of c i _ vs "filter (\<lambda>p. i < H p) bs" k] by metis
qed

lemma find_update_loop_levels:
  assumes "\<And>i. i < j \<Longrightarrow> walk c k i (u (Suc i)) = Some (u i)" and "j \<le> length up"
  shows "find_update_loop c k (rev [0..<j]) (u j) up = Some (map (Some \<circ> u) [0..<j] @ drop j up)"
  using assms
proof (induction j arbitrary: up)
  case (Suc j)
  have "drop j (up[j := Some (u j)]) = Some (u j) # drop (Suc j) up"
    using Suc.prems(2) by (subst Cons_nth_drop_Suc [symmetric]) auto
  with Suc.IH [of "up[j := Some (u j)]"] Suc.prems show ?case by (simp add: upd_def)
qed simp

lemma descend_levels:
  assumes "\<And>i. i < j \<Longrightarrow> walk c k i (u (Suc i)) = Some (u i)"
  shows "descend c k (rev [0..<j]) (u j) = Some (u 0)"
  using assms by (induction j) auto

lemma descend_end_levels:
  assumes "\<And>i. i < j \<Longrightarrow> walk_end c i (u (Suc i)) = Some (u i)"
  shows "descend_end c (rev [0..<j]) (u j) = Some (u 0)"
  using assms by (induction j) auto

lemma filter_level:
  fixes H :: "addr \<Rightarrow> nat"
  assumes "\<forall>p \<in> set ps. H p \<le> l" and "l \<le> i"
  shows "filter (\<lambda>p. i < H p) ps = []"
  using assms by (induction ps) auto

lemma preds_top: "\<forall>p \<in> set as. H p \<le> l \<Longrightarrow> l \<le> i \<Longrightarrow> preds h H as i = h"
  by (simp add: preds_def filter_level)

text \<open>
  The nodes split at a key: \<open>as\<close> are the nodes below it. The search along the levels ends at
  \<open>preds\<close> of each level, and so in particular at the last node of \<open>as\<close>.
\<close>

definition splits :: "('k :: linorder, 'v) skip_list \<Rightarrow> (addr \<Rightarrow> nat) \<Rightarrow> 'k \<Rightarrow> addr list \<Rightarrow> addr list \<Rightarrow> bool" where
  "splits s H k as bs \<longleftrightarrow> sl_ok s (as @ bs) H \<and> (\<forall>p \<in> set as. key_of (sl_cells s) p < k) \<and>
     (\<forall>p \<in> set bs. \<not> key_of (sl_cells s) p < k)"

lemma splits_exists:
  assumes "sl_ok s ps H"
  obtains as bs where "ps = as @ bs" and "splits s H k as bs"
  using split_at_key [OF sl_okD(9) [OF assms], of k] assms unfolding splits_def by metis

lemma splits_ok: "splits s H k as bs \<Longrightarrow> sl_ok s (as @ bs) H"
  by (simp add: splits_def)

lemma splits_walk:
  assumes "splits s H k as bs" and "i < MAX_LEVEL"
  shows "walk (sl_cells s) k i (preds (sl_head s) H as (Suc i)) = Some (preds (sl_head s) H as i)"
  using assms walk_level [OF sl_okD(5) [OF splits_ok [OF assms(1)] assms(2)]] by (auto simp: splits_def)

lemma splits_top:
  assumes "splits s H k as bs" and "sl_level s \<le> i"
  shows "preds (sl_head s) H as i = sl_head s"
  using sl_okD(6) [OF splits_ok [OF assms(1)]] by (intro preds_top [OF _ assms(2)]) auto

lemma splits_bottom:
  assumes "splits s H k as bs"
  shows "preds (sl_head s) H as 0 = last_of (sl_head s) as"
proof -
  have "filter (\<lambda>p. 0 < H p) as = as"
    using sl_okD(6) [OF splits_ok [OF assms]] by (auto intro!: filter_True simp: Suc_le_eq)
  then show ?thesis by (simp add: preds_def)
qed

lemma splits_next:
  assumes "splits s H k as bs"
  shows "forward_at (sl_cells s) (preds (sl_head s) H as 0) 0 = Some (case bs of [] \<Rightarrow> None | p # _ \<Rightarrow> Some p)"
  using chain_append [OF sl_ok_level0 [OF splits_ok [OF assms]]] splits_bottom [OF assms]
  by (cases bs) (auto simp: nx_def)

lemma splits_descend:
  assumes "splits s H k as bs"
  shows "descend (sl_cells s) k (rev [0..<sl_level s]) (sl_head s) = Some (preds (sl_head s) H as 0)"
  using descend_levels [of "sl_level s" "sl_cells s" k "preds (sl_head s) H as"]
    splits_walk [OF assms] splits_top [OF assms order_refl] sl_okD(7) [OF splits_ok [OF assms]] by fastforce

lemma splits_find_update:
  assumes "splits s H k as bs"
  shows "find_update s k = Some (map (Some \<circ> preds (sl_head s) H as) [0..<sl_level s] @
    replicate (MAX_LEVEL - sl_level s) None)"
  using find_update_loop_levels [of "sl_level s" "sl_cells s" k "preds (sl_head s) H as" "replicate MAX_LEVEL None"]
    splits_walk [OF assms] splits_top [OF assms order_refl] sl_okD(7) [OF splits_ok [OF assms]]
  unfolding find_update_def by fastforce

lemma update_at_levels: "i < l \<Longrightarrow> update_at (map (Some \<circ> u) [0..<l] @ xs) i = Some (u i)"
  by (simp add: update_at_def idx_def nth_append)

lemma splits_node:
  assumes "splits s H k as (p # bs)"
  obtains n where "sl_cells s p = Some n" and "nd_key n = key_of (sl_cells s) p" and "nd_value n = val_of (sl_cells s) p"
proof -
  have "p \<in> dom (sl_cells s)" using sl_okD(2) [OF splits_ok [OF assms]] by simp
  then show thesis using that by (auto simp: key_of_def val_of_def)
qed

section \<open>Lookups\<close>

text \<open>The pairs of the nodes, and the specification of a lookup on them.\<close>

lemma map_of_split:
  assumes "splits s H k as bs"
  shows "map_of (pairs (sl_cells s) (as @ bs)) k =
    (case bs of [] \<Rightarrow> None | p # _ \<Rightarrow> if key_of (sl_cells s) p = k then Some (val_of (sl_cells s) p) else None)"
proof -
  let ?c = "sl_cells s"
  have "map_of (pairs ?c as) k = None" using assms by (auto simp: splits_def pairs_def map_of_eq_None_iff)
  moreover have "map_of (pairs ?c (p # ps)) k = (if key_of ?c p = k then Some (val_of ?c p) else None)" if "bs = p # ps" for p ps
  proof -
    have "\<forall>q \<in> set ps. key_of ?c p < key_of ?c q"
      using sl_okD(9) [OF splits_ok [OF assms]] that by (auto simp: sorted_wrt_append)
    moreover have "\<not> key_of ?c p < k" using assms that by (auto simp: splits_def)
    ultimately have "map_of (pairs ?c ps) k = None"
      by (fastforce simp: pairs_def map_of_eq_None_iff)
    then show ?thesis by (simp add: pairs_def)
  qed
  ultimately show ?thesis by (cases bs) (auto simp: pairs_def map_add_def)
qed

lemma sl_search_spec:
  assumes "sl_ok s ps H"
  shows "sl_search s k = Some (map_of (pairs (sl_cells s) ps) k)"
proof -
  obtain as bs where ps: "ps = as @ bs" and sp: "splits s H k as bs" using splits_exists [OF assms] .
  show ?thesis
  proof (cases bs)
    case Nil
    then show ?thesis
      using splits_next [OF sp] map_of_split [OF sp] by (simp add: ps sl_search_def splits_descend [OF sp])
  next
    case (Cons p qs)
    obtain n where "sl_cells s p = Some n" "nd_key n = key_of (sl_cells s) p" "nd_value n = val_of (sl_cells s) p"
      using splits_node sp Cons by metis
    then show ?thesis
      using Cons splits_next [OF sp] map_of_split [OF sp] by (simp add: ps sl_search_def splits_descend [OF sp])
  qed
qed

section \<open>Insertion\<close>

lemma random_level_loop_bounds:
  "1 \<le> lvl \<Longrightarrow> lvl \<le> MAX_LEVEL \<Longrightarrow> random_level_loop rand drawn lvl = (l, d) \<Longrightarrow> 1 \<le> l \<and> l \<le> MAX_LEVEL"
proof (induction rand drawn lvl rule: random_level_loop.induct)
  case (1 rand drawn lvl)
  show ?case
  proof (cases "lvl < MAX_LEVEL \<and> rand drawn AND MASK < P_LEVEL")
    case True
    with 1(4) have "random_level_loop rand (drawn + 1) (lvl + 1) = (l, d)"
      by (simp add: random_level_loop.simps [of rand drawn lvl])
    with 1(1) True show ?thesis by simp
  next
    case False
    with 1(2-4) show ?thesis by (auto simp: random_level_loop.simps [of rand drawn lvl] split: if_splits)
  qed
qed

lemma random_level_bounds: "random_level rand drawn = (l, d) \<Longrightarrow> 1 \<le> l \<and> l \<le> MAX_LEVEL"
  unfolding random_level_def by (rule random_level_loop_bounds [of 1]) auto

lemma fill_head_levels:
  assumes "l + n \<le> length up" and "up = map (Some \<circ> u) [0..<l] @ xs" and "\<And>i. l \<le> i \<Longrightarrow> u i = h"
  shows "\<exists>ys. fill_head h [l..<l + n] up = Some (map (Some \<circ> u) [0..<l + n] @ ys)"
  using assms
proof (induction n arbitrary: l up xs)
  case (Suc n)
  have xs: "xs = hd xs # tl xs" using Suc.prems(1,2) by (cases xs) auto
  have e: "up[l := Some h] = map (Some \<circ> u) [0..<Suc l] @ tl xs"
    unfolding Suc.prems(2) using Suc.prems(3) [of l] by (subst xs) (simp add: list_update_append)
  have "\<exists>ys. fill_head h [Suc l..<Suc l + n] (up[l := Some h]) = Some (map (Some \<circ> u) [0..<Suc l + n] @ ys)"
    by (rule Suc.IH [OF _ e]) (use Suc.prems in auto)
  then show ?case using Suc.prems(1) by (simp add: upt_rec [of l "Suc (l + n)"] upd_def comp_def del: upt_Suc)
qed auto

lemma link_levels_view:
  assumes "wide c" and "new \<in> dom c" and "distinct is"
    and "\<And>i. i \<in> set is \<Longrightarrow> i < MAX_LEVEL \<and> update_at up i = Some (u i) \<and> u i \<in> dom c \<and> u i \<noteq> new"
  shows "\<exists>c'. link_levels up new is c = Some c' \<and> same_data c c' \<and> bk c' = bk c \<and>
    (\<forall>i. nx c' i = (if i \<in> set is then (nx c i)(new := nx c i (u i), u i := Some (Some new)) else nx c i))"
  using assms
proof (induction "is" arbitrary: c)
  case (Cons i "is")
  note i = Cons.prems(4) [of i, simplified]
  obtain f where f: "nx c i (u i) = Some f" using nx_defined [OF Cons.prems(1)] i by blast
  obtain c1 where c1: "set_forward c new i f = Some c1" "same_data c c1" "bk c1 = bk c"
    "nx c1 i = (nx c i)(new := Some f)" "\<forall>j. j \<noteq> i \<longrightarrow> nx c1 j = nx c j"
    using set_forward_view [OF Cons.prems(1,2)] i by blast
  have w1: "wide c1" "dom c1 = dom c" using same_dataD [OF c1(2)] Cons.prems(1) by auto
  obtain c2 where c2: "set_forward c1 (u i) i (Some new) = Some c2" "same_data c1 c2" "bk c2 = bk c1"
    "nx c2 i = (nx c1 i)(u i := Some (Some new))" "\<forall>j. j \<noteq> i \<longrightarrow> nx c2 j = nx c1 j"
    using set_forward_view [OF w1(1), of "u i" i "Some new"] i w1(2) by blast
  have w2: "wide c2" "dom c2 = dom c" using same_dataD [OF c2(2)] w1 by auto
  have "\<exists>c'. link_levels up new is c2 = Some c' \<and> same_data c2 c' \<and> bk c' = bk c2 \<and>
    (\<forall>i. nx c' i = (if i \<in> set is then (nx c2 i)(new := nx c2 i (u i), u i := Some (Some new)) else nx c2 i))"
    by (rule Cons.IH) (use Cons.prems w2 in auto)
  then obtain c' where c': "link_levels up new is c2 = Some c'" "same_data c2 c'" "bk c' = bk c2"
    "\<And>i. nx c' i = (if i \<in> set is then (nx c2 i)(new := nx c2 i (u i), u i := Some (Some new)) else nx c2 i)" by blast
  have "link_levels up new (i # is) c = Some c'"
    using i f c1(1) c2(1) c'(1) by (simp add: nx_def)
  moreover have "same_data c c'" using c1(2) c2(2) c'(2) same_data_trans by blast
  moreover have "bk c' = bk c" using c1(3) c2(3) c'(3) by simp
  moreover have "nx c' j = (if j \<in> set (i # is) then (nx c j)(new := nx c j (u j), u j := Some (Some new)) else nx c j)" for j
    using c1(4,5) c2(4,5) c'(4) [of j] f Cons.prems(3) by (cases "j = i") auto
  ultimately show ?case by blast
qed auto

lemma bk_fresh: "bk (c(a \<mapsto> node_new k v)) = (bk c)(a := Some None)"
  by (auto simp: bk_def node_new_def)

lemma nx_fresh: "i < MAX_LEVEL \<Longrightarrow> nx (c(a \<mapsto> node_new k v)) i = (nx c i)(a := Some None)"
  by (auto simp: nx_def forward_at_def node_new_def idx_def)

lemma data_fresh:
  "key_of (c(a \<mapsto> node_new k v)) b = (if b = a then k else key_of c b)"
  "val_of (c(a \<mapsto> node_new k v)) b = (if b = a then v else val_of c b)"
  by (simp_all add: key_of_def val_of_def node_new_def)

lemma wide_fresh: "wide c \<Longrightarrow> wide (c(a \<mapsto> node_new k v))"
  by (simp add: wide_def node_new_def)

lemma bchain_insert:
  assumes "bchain b h (as @ bs)" and "distinct (h # as @ bs)" and "new \<notin> set (h # as @ bs)"
    and "\<And>x. x \<in> set as \<Longrightarrow> b' x = b x" and "\<And>x. x \<in> set (tl bs) \<Longrightarrow> b' x = b x"
    and "b' new = Some (Some (last_of h as))" and "bs \<noteq> [] \<Longrightarrow> b' (hd bs) = Some (Some new)"
  shows "bchain b' h (as @ new # bs)"
proof -
  have "bchain b' h as" using assms(1,4) bchain_cong [of as b' b h] by (simp add: bchain_append)
  moreover have "bchain b' new bs"
  proof (cases bs)
    case (Cons q qs)
    have "bchain b q qs" using assms(1) Cons by (simp add: bchain_append)
    then have "bchain b' q qs" using assms(5) Cons bchain_cong [of qs b' b q] by simp
    then show ?thesis using assms(7) Cons by simp
  qed simp
  ultimately show ?thesis using assms(6) by (simp add: bchain_append)
qed

text \<open>The case of a new key, from the heap after the links were set.\<close>

lemma insert_links_ok:
  fixes s :: "('k :: linorder, 'v) skip_list"
  defines "c \<equiv> sl_cells s"
  defines "new \<equiv> sl_fresh s"
  defines "h \<equiv> sl_head s"
  assumes sp: "splits s H k as bs" and fresh: "\<forall>p \<in> set bs. key_of c p \<noteq> k"
    and lvl: "1 \<le> lvl" "lvl \<le> MAX_LEVEL"
    and data: "same_data (c(new \<mapsto> node_new k v)) c'"
    and links: "\<And>i. i < MAX_LEVEL \<Longrightarrow> nx c' i = (if i < lvl
      then ((nx c i)(new := Some None))(new := nx c i (preds h H as i), preds h H as i := Some (Some new))
      else (nx c i)(new := Some None))"
    and backs: "bchain (bk c') h (as @ new # bs)"
  shows "sl_ok (s \<lparr> sl_cells := c', sl_fresh := new + 1, sl_drawn := d, sl_level := max lvl (sl_level s),
      sl_length := sl_length s + 1 \<rparr>) (as @ new # bs) (H(new := lvl)) \<and>
    pairs c' (as @ new # bs) = pairs c as @ (k, v) # pairs c bs"
proof -
  note ok = splits_ok [OF sp]
  note D = same_dataD [OF data]
  have dist: "distinct (h # as @ bs)" and dom: "dom c = set (h # as @ bs)"
    using sl_okD(1,2) [OF ok] by (simp_all add: h_def c_def)
  have nin: "new \<notin> set (h # as @ bs)"
    using sl_okD(3) [OF ok, of new] dom unfolding c_def new_def by auto
  have kv: "key_of c' p = key_of c p" "val_of c' p = val_of c p" if "p \<in> set (as @ bs)" for p
    using that nin D(2,3) by (auto simp: data_fresh)
  have kn: "key_of c' new = k" "val_of c' new = v" using D(2,3) by (simp_all add: data_fresh)
  have fil: "filter (\<lambda>p. i < (H(new := lvl)) p) xs = filter (\<lambda>p. i < H p) xs" if "set xs \<subseteq> set (as @ bs)" for xs i
    using that nin by (intro filter_cong) auto
  have ch: "chain (nx c' i) h (filter (\<lambda>p. i < (H(new := lvl)) p) (as @ new # bs))" if i: "i < MAX_LEVEL" for i
  proof -
    let ?A = "filter (\<lambda>p. i < H p) as" and ?B = "filter (\<lambda>p. i < H p) bs"
    let ?f = "(nx c i)(new := Some None)"
    have "chain (nx c i) h (?A @ ?B)" using sl_okD(5) [OF ok i] by (simp add: c_def h_def)
    then have f: "chain ?f h (?A @ ?B)" using nin by (subst chain_cong [of h _ ?f "nx c i"]) auto
    have u: "preds h H as i = last_of h ?A" by (simp add: preds_def)
    have un: "last_of h ?A \<noteq> new" using preds_in [of h H as i] nin unfolding u by auto
    have fil': "filter (\<lambda>p. i < (H(new := lvl)) p) (as @ new # bs) = ?A @ (if i < lvl then [new] else []) @ ?B"
      using fil [of as i] fil [of bs i] by simp
    show ?thesis
    proof (cases "i < lvl")
      case True
      have "chain (?f(new := ?f (last_of h ?A), last_of h ?A := Some (Some new))) h (?A @ new # ?B)"
        by (rule chain_insert [OF f]) (use dist nin in auto)
      moreover have "?f (last_of h ?A) = nx c i (last_of h ?A)" using un by (rule fun_upd_other)
      ultimately show ?thesis unfolding fil' links [OF i] u using True by (simp only: if_True append.simps)
    next
      case False
      with f show ?thesis unfolding fil' links [OF i] by (simp only: if_False append.simps)
    qed
  qed
  have srt: "sorted_wrt (\<lambda>p q. key_of c' p < key_of c' q) (as @ new # bs)"
  proof -
    have "sorted_wrt (\<lambda>p q. key_of c p < key_of c q) (as @ bs)" using sl_okD(9) [OF ok] by (simp add: c_def)
    moreover have "\<forall>p \<in> set as. key_of c p < k" "\<forall>p \<in> set bs. k < key_of c p"
      using sp fresh by (auto simp: splits_def c_def not_less_iff_gr_or_eq)
    ultimately show ?thesis
      using kv kn by (auto simp: sorted_wrt_append sorted_wrt_iff_nth_less [of _ as] sorted_wrt_iff_nth_less [of _ bs])
  qed
  have "pairs c' as = pairs c as" "pairs c' bs = pairs c bs" using kv by (auto simp: pairs_def)
  then have "pairs c' (as @ new # bs) = pairs c as @ (k, v) # pairs c bs" using kn by (simp add: pairs_def)
  moreover have "dom c' = insert new (set (h # as @ bs))" using D(1) dom by simp
  moreover have "wide c'" using D(4) wide_fresh sl_okD(4) [OF ok] by (simp add: c_def)
  moreover have "H p \<le> max lvl (sl_level s) \<and> 1 \<le> H p" if "p \<in> set (as @ bs)" for p
    using sl_okD(6) [OF ok that] by auto
  ultimately show ?thesis
    using dist nin ch srt backs lvl sl_okD(3,7,10) [OF ok] dom
    unfolding sl_ok_def by (auto simp: c_def h_def new_def less_Suc_eq)
qed

definition ord_insert :: "'k :: linorder \<Rightarrow> 'v \<Rightarrow> ('k \<times> 'v) list \<Rightarrow> ('k \<times> 'v) list" where
  "ord_insert k v kvs = filter (\<lambda>(x, _). x < k) kvs @ (k, v) # filter (\<lambda>(x, _). k < x) kvs"

lemma ord_insert_split:
  assumes "\<forall>(x, _) \<in> set as. x < k" and "\<forall>(x, _) \<in> set bs. k < x"
  shows "ord_insert k v (as @ bs) = as @ (k, v) # bs" and "ord_insert k v (as @ (k, w) # bs) = as @ (k, v) # bs"
proof -
  have "filter (\<lambda>(x, _). x < k) as = as" "filter (\<lambda>(x, _). k < x) bs = bs"
    using assms by (auto intro!: filter_True)
  moreover have "filter (\<lambda>(x, _). k < x) as = []" "filter (\<lambda>(x, _). x < k) bs = []"
    using assms by (auto intro!: filter_False dest: order_less_asym)
  ultimately show "ord_insert k v (as @ bs) = as @ (k, v) # bs" "ord_insert k v (as @ (k, w) # bs) = as @ (k, v) # bs"
    by (simp_all add: ord_insert_def)
qed

lemma splits_pairs_low: "splits s H k as bs \<Longrightarrow> \<forall>(x, _) \<in> set (pairs (sl_cells s) as). x < k"
  by (auto simp: splits_def pairs_def)

lemma splits_pairs_high:
  assumes "splits s H k as (p # bs)"
  shows "\<forall>(x, _) \<in> set (pairs (sl_cells s) bs). k < x"
proof -
  have "\<forall>q \<in> set bs. key_of (sl_cells s) p < key_of (sl_cells s) q"
    using sl_okD(9) [OF splits_ok [OF assms]] by (auto simp: sorted_wrt_append)
  moreover have "k \<le> key_of (sl_cells s) p" using assms by (auto simp: splits_def)
  ultimately show ?thesis by (auto simp: pairs_def)
qed

text \<open>Writing the value of a node.\<close>

lemma set_value_ok:
  assumes "sl_ok s ps H" and "p \<in> set ps" and "sl_cells s p = Some n"
  shows "sl_ok (s \<lparr> sl_cells := (sl_cells s)(p \<mapsto> n \<lparr> nd_value := v \<rparr>) \<rparr>) ps H"
proof -
  let ?c = "(sl_cells s)(p \<mapsto> n \<lparr> nd_value := v \<rparr>)"
  have "nx ?c i = nx (sl_cells s) i" for i using assms(3) by (intro ext) (auto simp: nx_def forward_at_def)
  moreover have "bk ?c = bk (sl_cells s)" using assms(3) by (auto simp: bk_def)
  moreover have "key_of ?c a = key_of (sl_cells s) a" for a using assms(3) by (simp add: key_of_def)
  moreover have "wide ?c = wide (sl_cells s)" using assms(3) by (auto simp: wide_def)
  moreover have "dom ?c = dom (sl_cells s)" using assms(3) by auto
  ultimately show ?thesis using assms(1) by (simp add: sl_ok_def)
qed

lemma set_value_pairs:
  assumes "distinct (as @ p # bs)" and "c p = Some n"
  shows "pairs (c(p \<mapsto> n \<lparr> nd_value := v \<rparr>)) (as @ p # bs) = pairs c as @ (key_of c p, v) # pairs c bs"
  using assms by (auto simp: pairs_def key_of_def val_of_def)

lemma insert_update_levels:
  assumes sp: "splits s H k as bs" and lvl: "lvl \<le> MAX_LEVEL"
    and up: "find_update s k = Some up"
  shows "\<exists>up'. (if lvl > sl_level s then fill_head (sl_head s) [sl_level s..<lvl] up else Some up) = Some up' \<and>
    (\<forall>i < max 1 lvl. update_at up' i = Some (preds (sl_head s) H as i))"
proof -
  let ?u = "preds (sl_head s) H as" and ?l = "sl_level s"
  have L: "1 \<le> ?l" "?l \<le> MAX_LEVEL" using sl_okD(7) [OF splits_ok [OF sp]] by auto
  have up': "up = map (Some \<circ> ?u) [0..<?l] @ replicate (MAX_LEVEL - ?l) None"
    using up splits_find_update [OF sp] by simp
  show ?thesis
  proof (cases "lvl > ?l")
    case True
    have "\<exists>ys. fill_head (sl_head s) [?l..<?l + (lvl - ?l)] up = Some (map (Some \<circ> ?u) [0..<?l + (lvl - ?l)] @ ys)"
      by (rule fill_head_levels [OF _ up']) (use L lvl True splits_top [OF sp] in \<open>auto simp: up'\<close>)
    then show ?thesis using True update_at_levels by fastforce
  next
    case False
    then show ?thesis using L update_at_levels [of _ ?l ?u] by (auto simp: up')
  qed
qed

lemma sl_insert_new:
  fixes s :: "('k :: linorder, 'v) skip_list"
  assumes sp: "splits s H k as bs" and fresh: "\<forall>p \<in> set bs. key_of (sl_cells s) p \<noteq> k"
    and lvl: "1 \<le> lvl" "lvl \<le> MAX_LEVEL"
    and up: "\<forall>i < lvl. update_at up i = Some (preds (sl_head s) H as i)"
  shows "\<exists>c s'. link_levels up (sl_fresh s) [0..<lvl] ((sl_cells s)(sl_fresh s \<mapsto> node_new k v)) = Some c \<and>
    (do { u0 \<leftarrow> idx up 0; c \<leftarrow> set_backward c (sl_fresh s) u0; nxt \<leftarrow> forward_at c (sl_fresh s) 0;
       c \<leftarrow> (case nxt of None \<Rightarrow> Some c | Some p \<Rightarrow> set_backward c p (Some (sl_fresh s)));
       Some (s \<lparr> sl_cells := c, sl_fresh := sl_fresh s + 1, sl_drawn := d, sl_level := max lvl (sl_level s),
         sl_length := sl_length s + 1 \<rparr>) }) = Some s' \<and>
    (\<exists>H'. sl_ok s' (as @ sl_fresh s # bs) H') \<and>
    pairs (sl_cells s') (as @ sl_fresh s # bs) = pairs (sl_cells s) as @ (k, v) # pairs (sl_cells s) bs"
proof -
  let ?c = "sl_cells s" and ?new = "sl_fresh s" and ?h = "sl_head s"
  let ?u = "preds ?h H as" and ?cn = "(sl_cells s)(sl_fresh s \<mapsto> node_new k v)"
  note ok = splits_ok [OF sp]
  have dist: "distinct (?h # as @ bs)" and dom: "dom ?c = set (?h # as @ bs)"
    using sl_okD(1,2) [OF ok] by simp_all
  have nin: "?new \<notin> set (?h # as @ bs)" unfolding dom [symmetric] using sl_okD(3) [OF ok, of ?new] by (meson less_irrefl)
  have uin: "?u i \<in> set (?h # as @ bs)" for i using preds_in [of ?h H as i] by auto
  have un: "?u i \<noteq> ?new" "?u i \<in> dom ?cn" for i using uin [of i] nin unfolding dom_fun_upd dom by auto
  have "\<exists>c'. link_levels up ?new [0..<lvl] ?cn = Some c' \<and> same_data ?cn c' \<and> bk c' = bk ?cn \<and>
    (\<forall>i. nx c' i = (if i \<in> set [0..<lvl] then (nx ?cn i)(?new := nx ?cn i (?u i), ?u i := Some (Some ?new)) else nx ?cn i))"
    by (rule link_levels_view) (use wide_fresh [OF sl_okD(4) [OF ok]] un up lvl(2) in auto)
  then obtain c1 where c1: "link_levels up ?new [0..<lvl] ?cn = Some c1" "same_data ?cn c1" "bk c1 = bk ?cn"
    "\<And>i. nx c1 i = (if i \<in> set [0..<lvl] then (nx ?cn i)(?new := nx ?cn i (?u i), ?u i := Some (Some ?new)) else nx ?cn i)"
    by blast
  have u0: "idx up 0 = Some (Some (?u 0))" using up lvl(1) by (auto simp: update_at_def bind_Some_iff)
  have d1: "dom c1 = insert ?new (dom ?c)" using same_dataD(1) [OF c1(2)] by simp
  obtain c2 where c2: "set_backward c1 ?new (Some (?u 0)) = Some c2" "same_data c1 c2"
    "bk c2 = (bk c1)(?new := Some (Some (?u 0)))" "nx c2 = nx c1"
    using set_backward_view [of ?new c1] d1 by blast
  have d2: "dom c2 = insert ?new (dom ?c)" using same_dataD(1) [OF c2(2)] d1 by simp
  have "nx c1 0 ?new = nx ?c 0 (?u 0)"
    using lvl(1) un [of 0] by (simp add: c1(4) nx_fresh)
  then have nxt: "forward_at c2 ?new 0 = Some (case bs of [] \<Rightarrow> None | p # _ \<Rightarrow> Some p)"
    using splits_next [OF sp] c2(4) by (simp add: nx_def fun_eq_iff)
  have "\<exists>c3. (case (case bs of [] \<Rightarrow> None | p # _ \<Rightarrow> Some p) of None \<Rightarrow> Some c2
      | Some p \<Rightarrow> set_backward c2 p (Some ?new)) = Some c3 \<and> same_data c2 c3 \<and> nx c3 = nx c2 \<and>
      bk c3 = (if bs = [] then bk c2 else (bk c2)(hd bs := Some (Some ?new)))"
    using set_backward_view [of "hd bs" c2 "Some ?new"] d2 dom by (cases bs) auto
  then obtain c3 where c3: "(case (case bs of [] \<Rightarrow> None | p # _ \<Rightarrow> Some p) of None \<Rightarrow> Some c2
      | Some p \<Rightarrow> set_backward c2 p (Some ?new)) = Some c3" "same_data c2 c3" "nx c3 = nx c2"
      "bk c3 = (if bs = [] then bk c2 else (bk c2)(hd bs := Some (Some ?new)))" by blast
  have data: "same_data ?cn c3" using c1(2) c2(2) c3(2) same_data_trans by blast
  have bk3: "bk c3 x = (if bs \<noteq> [] \<and> x = hd bs then Some (Some ?new) else if x = ?new then Some (Some (?u 0)) else bk ?c x)" for x
    by (simp add: c3(4) c2(3) c1(3) bk_fresh)
  have "bchain (bk c3) ?h (as @ ?new # bs)"
  proof (rule bchain_insert [OF sl_okD(8) [OF ok] dist nin])
    show "bk c3 x = bk ?c x" if "x \<in> set as" for x using that dist nin by (cases bs) (auto simp: bk3)
    show "bk c3 x = bk ?c x" if "x \<in> set (tl bs)" for x using that dist nin by (cases bs) (auto simp: bk3)
    show "bk c3 ?new = Some (Some (last_of ?h as))" using nin splits_bottom [OF sp] by (cases bs) (auto simp: bk3)
  qed (simp add: bk3)
  moreover have "nx c3 i = (if i < lvl then ((nx ?c i)(?new := Some None))(?new := nx ?c i (?u i), ?u i := Some (Some ?new))
      else (nx ?c i)(?new := Some None))" if "i < MAX_LEVEL" for i
    using that un [of i] by (simp add: c3(3) c2(4) c1(4) nx_fresh)
  ultimately have fin: "sl_ok (s \<lparr> sl_cells := c3, sl_fresh := ?new + 1, sl_drawn := d, sl_level := max lvl (sl_level s),
      sl_length := sl_length s + 1 \<rparr>) (as @ ?new # bs) (H(?new := lvl)) \<and>
      pairs c3 (as @ ?new # bs) = pairs ?c as @ (k, v) # pairs ?c bs"
    by (intro insert_links_ok [OF sp fresh lvl data])
  show ?thesis
    by (rule exI [of _ c1], rule exI, intro conjI, rule c1(1))
      (use u0 c2(1) nxt c3(1) fin in \<open>auto simp: bind_Some_iff\<close>)
qed

lemma sl_insert_spec:
  fixes s :: "('k :: linorder, 'v) skip_list"
  assumes ok: "sl_ok s ps H"
  shows "\<exists>s' ps' H'. sl_insert rand s k v = Some s' \<and> sl_ok s' ps' H' \<and>
    pairs (sl_cells s') ps' = ord_insert k v (pairs (sl_cells s) ps)"
proof -
  obtain as bs where ps: "ps = as @ bs" and sp: "splits s H k as bs" using splits_exists [OF ok] .
  let ?c = "sl_cells s"
  obtain up where up: "find_update s k = Some up" using splits_find_update [OF sp] by blast
  have "1 \<le> sl_level s" using sl_okD(7) [OF ok] by simp
  then have u0: "update_at up 0 = Some (preds (sl_head s) H as 0)"
    using up splits_find_update [OF sp] update_at_levels [of 0] by auto
  note nxt = splits_next [OF sp]
  show ?thesis
  proof (cases "\<exists>p qs. bs = p # qs \<and> key_of ?c p = k")
    case True
    then obtain p qs where bs: "bs = p # qs" and pk: "key_of ?c p = k" by blast
    obtain n where n: "?c p = Some n" "nd_key n = k" using splits_node sp bs pk by metis
    have "sl_insert rand s k v = Some (s \<lparr> sl_cells := ?c(p \<mapsto> n \<lparr> nd_value := v \<rparr>) \<rparr>)"
      using up u0 nxt bs n by (simp add: sl_insert_def)
    moreover have "sl_ok (s \<lparr> sl_cells := ?c(p \<mapsto> n \<lparr> nd_value := v \<rparr>) \<rparr>) ps H"
      by (rule set_value_ok [OF ok _ n(1)]) (simp add: ps bs)
    moreover have "pairs (?c(p \<mapsto> n \<lparr> nd_value := v \<rparr>)) ps = ord_insert k v (pairs ?c ps)"
    proof -
      have "ord_insert k v (pairs ?c as @ (k, val_of ?c p) # pairs ?c qs) = pairs ?c as @ (k, v) # pairs ?c qs"
        by (rule ord_insert_split(2)) (use splits_pairs_low [OF sp] splits_pairs_high [of s H k as p qs] sp bs in auto)
      then show ?thesis
        using set_value_pairs [of as p qs ?c n v] sl_okD(1) [OF ok] n(1) pk by (simp add: ps bs pairs_def)
    qed
    ultimately show ?thesis by (intro exI [of _ "s \<lparr> sl_cells := ?c(p \<mapsto> n \<lparr> nd_value := v \<rparr>) \<rparr>"] exI) auto
  next
    case False
    have fresh: "\<forall>p \<in> set bs. key_of ?c p \<noteq> k"
      using False splits_pairs_high [of s H k as] sp by (cases bs) (fastforce simp: pairs_def)+
    obtain lvl d where ld: "random_level rand (sl_drawn s) = (lvl, d)" by fastforce
    note lvl = random_level_bounds [OF ld]
    obtain up' where up': "(if lvl > sl_level s then fill_head (sl_head s) [sl_level s..<lvl] up else Some up) = Some up'"
      "\<forall>i < lvl. update_at up' i = Some (preds (sl_head s) H as i)"
      using insert_update_levels [OF sp _ up, of lvl] lvl by auto
    obtain c s' H' where cs: "link_levels up' (sl_fresh s) [0..<lvl] (?c(sl_fresh s \<mapsto> node_new k v)) = Some c"
      "(do { u0 \<leftarrow> idx up' 0; c \<leftarrow> set_backward c (sl_fresh s) u0; nxt \<leftarrow> forward_at c (sl_fresh s) 0;
       c \<leftarrow> (case nxt of None \<Rightarrow> Some c | Some p \<Rightarrow> set_backward c p (Some (sl_fresh s)));
       Some (s \<lparr> sl_cells := c, sl_fresh := sl_fresh s + 1, sl_drawn := d, sl_level := max lvl (sl_level s),
         sl_length := sl_length s + 1 \<rparr>) }) = Some s'"
      "sl_ok s' (as @ sl_fresh s # bs) H'"
      "pairs (sl_cells s') (as @ sl_fresh s # bs) = pairs ?c as @ (k, v) # pairs ?c bs"
      using sl_insert_new [OF sp fresh, of lvl up' v d] lvl up'(2) by blast
    have ex: "(case (case bs of [] \<Rightarrow> None | p # _ \<Rightarrow> Some p) of None \<Rightarrow> Some None
       | Some p \<Rightarrow> do { n \<leftarrow> ?c p; Some (if nd_key n = k then Some (p, n) else None) }) = Some None"
    proof (cases bs)
      case (Cons p qs)
      obtain n where "?c p = Some n" "nd_key n = key_of ?c p" using splits_node sp Cons by metis
      with False Cons show ?thesis by simp
    qed simp
    have "max lvl (sl_level s) = (if lvl > sl_level s then lvl else sl_level s)" by simp
    then have "sl_insert rand s k v = Some s'"
      using cs(2) unfolding sl_insert_def up u0 nxt bind.bind_lunit ex ld by (simp add: up'(1) cs(1))
    moreover have "ord_insert k v (pairs ?c ps) = pairs ?c as @ (k, v) # pairs ?c bs"
    proof -
      have "\<forall>(x, _) \<in> set (pairs ?c bs). k < x"
        using fresh sp by (auto simp: pairs_def splits_def not_less_iff_gr_or_eq)
      then show ?thesis using ord_insert_split(1) [OF splits_pairs_low [OF sp]] by (simp add: ps pairs_def)
    qed
    ultimately show ?thesis using cs(3,4) by metis
  qed
qed

section \<open>Removal\<close>

lemma unlink_levels_view:
  assumes "wide c" and "node \<in> dom c" and "distinct is"
    and "\<And>i. i \<in> set is \<Longrightarrow> i < MAX_LEVEL \<and> update_at up i = Some (u i) \<and> u i \<in> dom c"
  shows "\<exists>c'. unlink_levels up node is c = Some c' \<and> same_data c c' \<and> bk c' = bk c \<and>
    (\<forall>i. nx c' i = (if i \<in> set is \<and> nx c i (u i) = Some (Some node) then (nx c i)(u i := nx c i node) else nx c i))"
  using assms
proof (induction "is" arbitrary: c)
  case (Cons i "is")
  note i = Cons.prems(4) [of i, simplified]
  obtain f g where fg: "nx c i (u i) = Some f" "nx c i node = Some g"
    using nx_defined [OF Cons.prems(1)] i Cons.prems(2) by meson
  have "\<exists>c1. (if f = Some node then do { g \<leftarrow> forward_at c node i; set_forward c (u i) i g } else Some c) = Some c1 \<and>
    same_data c c1 \<and> bk c1 = bk c \<and> nx c1 i = (if f = Some node then (nx c i)(u i := Some g) else nx c i) \<and>
    (\<forall>j. j \<noteq> i \<longrightarrow> nx c1 j = nx c j)"
    using set_forward_view [OF Cons.prems(1), of "u i" i g] i fg(2) by (auto simp: nx_def)
  then obtain c1 where c1:
    "(if f = Some node then do { g \<leftarrow> forward_at c node i; set_forward c (u i) i g } else Some c) = Some c1"
    "same_data c c1" "bk c1 = bk c" "nx c1 i = (if f = Some node then (nx c i)(u i := Some g) else nx c i)"
    "\<And>j. j \<noteq> i \<Longrightarrow> nx c1 j = nx c j" by blast
  have w1: "wide c1" "dom c1 = dom c" using same_dataD [OF c1(2)] Cons.prems(1) by auto
  have "\<exists>c'. unlink_levels up node is c1 = Some c' \<and> same_data c1 c' \<and> bk c' = bk c1 \<and>
    (\<forall>i. nx c' i = (if i \<in> set is \<and> nx c1 i (u i) = Some (Some node) then (nx c1 i)(u i := nx c1 i node) else nx c1 i))"
    by (rule Cons.IH) (use Cons.prems w1 in auto)
  then obtain c' where c': "unlink_levels up node is c1 = Some c'" "same_data c1 c'" "bk c' = bk c1"
    "\<And>i. nx c' i = (if i \<in> set is \<and> nx c1 i (u i) = Some (Some node) then (nx c1 i)(u i := nx c1 i node) else nx c1 i)"
    by blast
  have "unlink_levels up node (i # is) c = Some c'" using i fg(1) c1(1) c'(1) by (simp add: nx_def)
  moreover have "same_data c c'" using c1(2) c'(2) same_data_trans by blast
  moreover have "bk c' = bk c" using c1(3) c'(3) by simp
  moreover have "nx c' j = (if j \<in> set (i # is) \<and> nx c j (u j) = Some (Some node)
      then (nx c j)(u j := nx c j node) else nx c j)" for j
    using c1(4,5) c'(4) [of j] fg Cons.prems(3) by (cases "j = i") auto
  ultimately show ?case by blast
qed auto

lemma lower_level_view:
  assumes "wide c" and "h \<in> dom c" and "1 \<le> l" and "l \<le> MAX_LEVEL"
  shows "\<exists>l'. lower_level c h l = Some l' \<and> 1 \<le> l' \<and> l' \<le> l \<and> (\<forall>i. l' \<le> i \<and> i < l \<longrightarrow> nx c i h = Some None)"
  using assms(3,4)
proof (induction l)
  case (Suc l)
  show ?case
  proof (cases "l = 0")
    case False
    obtain f where f: "nx c l h = Some f" using nx_defined [OF assms(1,2), of l] Suc.prems by auto
    show ?thesis
    proof (cases f)
      case None
      obtain l' where "lower_level c h l = Some l'" "1 \<le> l'" "l' \<le> l" "\<forall>i. l' \<le> i \<and> i < l \<longrightarrow> nx c i h = Some None"
        using Suc.IH Suc.prems False by auto
      with None f False show ?thesis
        by (subst lower_level.simps) (auto simp: nx_def less_Suc_eq)
    next
      case (Some p)
      with f False show ?thesis by (subst lower_level.simps) (auto simp: nx_def)
    qed
  qed (simp add: lower_level.simps)
qed simp

lemma nx_free: "nx (c(a := None)) i = (nx c i)(a := None)"
  by (auto simp: nx_def forward_at_def)

lemma bchain_remove:
  assumes "bchain b h (as @ p # bs)" and "distinct (h # as @ p # bs)"
    and "\<And>x. x \<in> set as \<Longrightarrow> b' x = b x" and "\<And>x. x \<in> set (tl bs) \<Longrightarrow> b' x = b x"
    and "bs \<noteq> [] \<Longrightarrow> b' (hd bs) = b p"
  shows "bchain b' h (as @ bs)"
proof -
  have "bchain b' h as" using assms(1,3) bchain_cong [of as b' b h] by (simp add: bchain_append)
  moreover have "bchain b' (last_of h as) bs"
  proof (cases bs)
    case (Cons q qs)
    have "bchain b q qs" using assms(1) Cons by (simp add: bchain_append)
    then have "bchain b' q qs" using assms(4) Cons bchain_cong [of qs b' b q] by simp
    then show ?thesis using assms(1,5) Cons by (simp add: bchain_append)
  qed simp
  ultimately show ?thesis by (simp add: bchain_append)
qed

text \<open>The links after the removal of node \<open>p\<close>, before and after it is freed.\<close>

lemma remove_chains:
  assumes sp: "splits s H k as (p # bs)" and i: "i < MAX_LEVEL"
    and f: "f = (if nx (sl_cells s) i (preds (sl_head s) H as i) = Some (Some p)
      then (nx (sl_cells s) i)(preds (sl_head s) H as i := nx (sl_cells s) i p) else nx (sl_cells s) i)"
  shows "chain (f(p := x)) (sl_head s) (filter (\<lambda>q. i < H q) (as @ bs))"
proof -
  let ?A = "filter (\<lambda>q. i < H q) as" and ?B = "filter (\<lambda>q. i < H q) bs" and ?h = "sl_head s"
  note ok = splits_ok [OF sp]
  have dist: "distinct (?h # as @ p # bs)" using sl_okD(1) [OF ok] by simp
  have u: "preds ?h H as i = last_of ?h ?A" by (simp add: preds_def)
  have c: "chain (nx (sl_cells s) i) ?h (?A @ (if i < H p then [p] else []) @ ?B)"
    using sl_okD(5) [OF ok i] by (cases "i < H p") simp_all
  have "chain f ?h (?A @ ?B)"
  proof (cases "i < H p")
    case True
    then have "nx (sl_cells s) i (last_of ?h ?A) = Some (Some p)" using chain_next [of _ ?h ?A p ?B] c by simp
    moreover have "chain ((nx (sl_cells s) i)(last_of ?h ?A := nx (sl_cells s) i p)) ?h (?A @ ?B)"
      by (rule chain_remove) (use c True dist in auto)
    ultimately show ?thesis unfolding f u by (simp only: if_True refl simp_thms)
  next
    case False
    have "nx (sl_cells s) i (last_of ?h ?A) \<noteq> Some (Some p)"
    proof (cases ?B)
      case Nil
      then show ?thesis using chain_append [of "nx (sl_cells s) i" ?h ?A "[]"] c False by auto
    next
      case (Cons q qs)
      then have "q \<in> set bs" by (metis filter_is_subset list.set_intros(1) subsetD)
      then have "q \<noteq> p" using dist by auto
      then show ?thesis using chain_next [of "nx (sl_cells s) i" ?h ?A q qs] c False Cons by auto
    qed
    then show ?thesis unfolding f u using c False by (simp only: if_False) simp
  qed
  moreover have "chain (f(p := x)) ?h (?A @ ?B) \<longleftrightarrow> chain f ?h (?A @ ?B)" by (rule chain_cong) (use dist in auto)
  ultimately show ?thesis by simp
qed

lemma sl_remove_found:
  fixes s :: "('k :: linorder, 'v) skip_list"
  assumes sp: "splits s H k as (p # bs)"
    and up: "\<forall>i < sl_level s. update_at up i = Some (preds (sl_head s) H as i)"
  shows "\<exists>c s'. unlink_levels up p [0..<sl_level s] (sl_cells s) = Some c \<and>
    (do { nxt \<leftarrow> forward_at c p 0; m \<leftarrow> c p;
       c \<leftarrow> (case nxt of None \<Rightarrow> Some c | Some q \<Rightarrow> set_backward c q (nd_backward m));
       level \<leftarrow> lower_level c (sl_head s) (sl_level s);
       len \<leftarrow> usub (sl_length s) 1;
       boxed \<leftarrow> c p;
       Some (Some (nd_value boxed), s \<lparr> sl_cells := c(p := None), sl_level := level, sl_length := len \<rparr>) }) =
      Some (Some (val_of (sl_cells s) p), s') \<and>
    sl_ok s' (as @ bs) H \<and> pairs (sl_cells s') (as @ bs) = pairs (sl_cells s) (as @ bs)"
proof -
  let ?c = "sl_cells s" and ?h = "sl_head s" and ?l = "sl_level s"
  let ?u = "preds ?h H as"
  note ok = splits_ok [OF sp]
  have dist: "distinct (?h # as @ p # bs)" and dom: "dom ?c = set (?h # as @ p # bs)"
    using sl_okD(1,2) [OF ok] by simp_all
  have L: "1 \<le> ?l" "?l \<le> MAX_LEVEL" using sl_okD(7) [OF ok] by auto
  have un: "?u i \<in> dom ?c" for i using preds_in [of ?h H as i] unfolding dom by auto
  have "\<exists>c'. unlink_levels up p [0..<?l] ?c = Some c' \<and> same_data ?c c' \<and> bk c' = bk ?c \<and>
    (\<forall>i. nx c' i = (if i \<in> set [0..<?l] \<and> nx ?c i (?u i) = Some (Some p) then (nx ?c i)(?u i := nx ?c i p) else nx ?c i))"
    by (rule unlink_levels_view) (use sl_okD(4) [OF ok] dom un up L in auto)
  then obtain c1 where c1: "unlink_levels up p [0..<?l] ?c = Some c1" "same_data ?c c1" "bk c1 = bk ?c"
    "\<And>i. nx c1 i = (if i \<in> set [0..<?l] \<and> nx ?c i (?u i) = Some (Some p) then (nx ?c i)(?u i := nx ?c i p) else nx ?c i)"
    by blast
  have c1all: "nx c1 i = (if nx ?c i (?u i) = Some (Some p) then (nx ?c i)(?u i := nx ?c i p) else nx ?c i)"
    if i: "i < MAX_LEVEL" for i
  proof (cases "i < ?l")
    case False
    then have "filter (\<lambda>q. i < H q) (as @ p # bs) = []"
      using sl_okD(6) [OF ok] by (intro filter_level [of _ H ?l]) auto
    then have "nx ?c i ?h = Some None" using sl_okD(5) [OF ok i] by simp
    then show ?thesis using splits_top [OF sp, of i] False c1(4) [of i] by simp
  qed (simp add: c1(4))
  note D1 = same_dataD [OF c1(2)]
  have pu: "p \<noteq> ?u i" for i using preds_in [of ?h H as i] dist by auto
  have p0: "nx c1 0 p = Some (case bs of [] \<Rightarrow> None | q # _ \<Rightarrow> Some q)"
    using chain_append [of "nx ?c 0" ?h "as @ [p]" bs] sl_ok_level0 [OF ok] c1all [of 0] pu [of 0] by (cases bs) auto
  have "p \<in> dom c1" using D1(1) dom by simp
  then obtain m where m: "c1 p = Some m" by blast
  have "\<exists>c2. (case (case bs of [] \<Rightarrow> None | q # _ \<Rightarrow> Some q) of None \<Rightarrow> Some c1
      | Some q \<Rightarrow> set_backward c1 q (nd_backward m)) = Some c2 \<and> same_data c1 c2 \<and> nx c2 = nx c1 \<and>
      bk c2 = (if bs = [] then bk c1 else (bk c1)(hd bs := Some (nd_backward m)))"
    using set_backward_view [of "hd bs" c1 "nd_backward m"] D1(1) dom by (cases bs) auto
  then obtain c2 where c2: "(case (case bs of [] \<Rightarrow> None | q # _ \<Rightarrow> Some q) of None \<Rightarrow> Some c1
      | Some q \<Rightarrow> set_backward c1 q (nd_backward m)) = Some c2" "same_data c1 c2" "nx c2 = nx c1"
      "bk c2 = (if bs = [] then bk c1 else (bk c1)(hd bs := Some (nd_backward m)))" by blast
  note D2 = same_dataD [OF same_data_trans [OF c1(2) c2(2)]]
  have "\<exists>l'. lower_level c2 ?h ?l = Some l' \<and> 1 \<le> l' \<and> l' \<le> ?l \<and> (\<forall>i. l' \<le> i \<and> i < ?l \<longrightarrow> nx c2 i ?h = Some None)"
    by (rule lower_level_view) (use D2 sl_okD(4) [OF ok] dom L in auto)
  then obtain l' where l': "lower_level c2 ?h ?l = Some l'" "1 \<le> l'" "l' \<le> ?l"
    "\<forall>i. l' \<le> i \<and> i < ?l \<longrightarrow> nx c2 i ?h = Some None" by blast
  have "p \<in> dom c2" using D2(1) dom by simp
  then obtain n where n: "c2 p = Some n" by blast
  have nv: "nd_value n = val_of ?c p" using D2(3) [of p] n by (simp add: val_of_def)
  let ?cn = "c2(p := None)"
  have ch: "chain (nx ?cn i) ?h (filter (\<lambda>q. i < H q) (as @ bs))" if "i < MAX_LEVEL" for i
    using remove_chains [OF sp that c1all [OF that]] by (simp add: nx_free c2(3))
  have low: "H q \<le> l'" if q: "q \<in> set (as @ bs)" for q
  proof (rule ccontr)
    assume "\<not> H q \<le> l'"
    moreover have "H q \<le> ?l" using sl_okD(6) [OF ok, of q] q by auto
    ultimately have "nx c2 l' ?h = Some None" "l' < MAX_LEVEL" using l'(4) L by auto
    moreover have "?h \<noteq> p" using dist by auto
    ultimately have "filter (\<lambda>q. l' < H q) (as @ bs) = []"
      using ch [of l'] by (cases "filter (\<lambda>q. l' < H q) (as @ bs)") (auto simp: nx_free)
    then show False using q \<open>\<not> H q \<le> l'\<close> by (auto simp: filter_empty_conv)
  qed
  have bch: "bchain (bk ?cn) ?h (as @ bs)"
  proof (rule bchain_remove [OF sl_okD(8) [OF ok] dist])
    have b: "bk ?cn x = (if x = p then None else bk c2 x)" for x by (simp add: bk_def)
    show "bk ?cn x = bk ?c x" if "x \<in> set as" for x
      using that dist by (cases bs) (auto simp: b c2(4) c1(3))
    show "bk ?cn x = bk ?c x" if "x \<in> set (tl bs)" for x
      using that dist by (cases bs) (auto simp: b c2(4) c1(3))
    show "bk ?cn (hd bs) = bk ?c p" if "bs \<noteq> []"
      using that dist m by (cases bs) (auto simp: b c2(4) c1(3) [symmetric], auto simp: bk_def)
  qed
  have kv: "key_of ?cn q = key_of ?c q" "val_of ?cn q = val_of ?c q" if "q \<in> set (as @ bs)" for q
    using that dist D2(2,3) [of q] by (auto simp: key_of_def val_of_def)
  have srt: "sorted_wrt (\<lambda>p q. key_of ?cn p < key_of ?cn q) (as @ bs)"
    using sl_okD(9) [OF ok] kv by (auto simp: sorted_wrt_append sorted_wrt_iff_nth_less [of _ as] sorted_wrt_iff_nth_less [of _ bs])
  have dom': "dom ?cn = set (?h # as @ bs)" using D2(1) dom dist by auto
  have w: "wide ?cn" using D2(4) sl_okD(4) [OF ok] by (auto simp: wide_def)
  let ?s = "s \<lparr> sl_cells := ?cn, sl_level := l', sl_length := length (as @ bs) \<rparr>"
  have fr: "a < sl_fresh s" if "a \<in> dom ?cn" for a
    using that sl_okD(3) [OF ok, of a] unfolding dom dom' by auto
  have "sl_ok ?s (as @ bs) H"
    unfolding sl_ok_def using dist dom' fr w ch low sl_okD(6) [OF ok] l'(2,3) L bch srt by auto
  moreover have "pairs ?cn (as @ bs) = pairs ?c (as @ bs)" using kv by (auto simp: pairs_def)
  moreover have "usub (sl_length s) 1 = Some (length (as @ bs))" using sl_okD(10) [OF ok] by (simp add: usub_def)
  ultimately show ?thesis
    using p0 m c2(1) l'(1) n nv by (intro exI [of _ c1] exI [of _ ?s]) (simp add: c1(1) nx_def)
qed

definition ord_remove :: "'k \<Rightarrow> ('k \<times> 'v) list \<Rightarrow> ('k \<times> 'v) list" where
  "ord_remove k kvs = filter (\<lambda>(x, _). x \<noteq> k) kvs"

lemma ord_remove_none: "map_of kvs k = None \<Longrightarrow> ord_remove k kvs = kvs"
  unfolding ord_remove_def by (rule filter_True) (force simp: map_of_eq_None_iff)

lemma sl_remove_spec:
  fixes s :: "('k :: linorder, 'v) skip_list"
  assumes ok: "sl_ok s ps H"
  shows "\<exists>s' ps'. sl_remove s k = Some (map_of (pairs (sl_cells s) ps) k, s') \<and> sl_ok s' ps' H \<and>
    pairs (sl_cells s') ps' = ord_remove k (pairs (sl_cells s) ps)"
proof -
  let ?c = "sl_cells s"
  obtain as bs where ps: "ps = as @ bs" and sp: "splits s H k as bs" using splits_exists [OF ok] .
  obtain up where up: "find_update s k = Some up" using splits_find_update [OF sp] by blast
  have ups: "\<forall>i < sl_level s. update_at up i = Some (preds (sl_head s) H as i)"
    using up splits_find_update [OF sp] update_at_levels [of _ "sl_level s" "preds (sl_head s) H as"] by auto
  have "1 \<le> sl_level s" using sl_okD(7) [OF ok] by simp
  then have u0: "update_at up 0 = Some (preds (sl_head s) H as 0)" using ups by simp
  note nxt = splits_next [OF sp]
  note mo = map_of_split [OF sp]
  have keep: ?thesis if "sl_remove s k = Some (None, s)" and "map_of (pairs ?c (as @ bs)) k = None"
    using that ok ord_remove_none [OF that(2)] by (intro exI [of _ s] exI [of _ ps]) (simp add: ps)
  show ?thesis
  proof (cases bs)
    case Nil
    have "sl_remove s k = Some (None, s)" using up u0 nxt Nil by (simp add: sl_remove_def)
    then show ?thesis using keep mo Nil by simp
  next
    case (Cons p qs)
    obtain n where n: "?c p = Some n" "nd_key n = key_of ?c p" using splits_node sp Cons by metis
    show ?thesis
    proof (cases "key_of ?c p = k")
      case False
      then have "sl_remove s k = Some (None, s)" using up u0 nxt Cons n by (simp add: sl_remove_def)
      then show ?thesis using keep mo Cons False by simp
    next
      case True
      obtain c s' where cs: "unlink_levels up p [0..<sl_level s] ?c = Some c"
        "(do { nxt \<leftarrow> forward_at c p 0; m \<leftarrow> c p;
           c \<leftarrow> (case nxt of None \<Rightarrow> Some c | Some q \<Rightarrow> set_backward c q (nd_backward m));
           level \<leftarrow> lower_level c (sl_head s) (sl_level s);
           len \<leftarrow> usub (sl_length s) 1;
           boxed \<leftarrow> c p;
           Some (Some (nd_value boxed), s \<lparr> sl_cells := c(p := None), sl_level := level, sl_length := len \<rparr>) }) =
          Some (Some (val_of ?c p), s')"
        "sl_ok s' (as @ qs) H" "pairs (sl_cells s') (as @ qs) = pairs ?c (as @ qs)"
        using sl_remove_found [of s H k as p qs up] sp ups Cons by blast
      have "sl_remove s k = Some (Some (val_of ?c p), s')"
        using cs(2) up u0 nxt Cons n True by (simp add: sl_remove_def cs(1))
      moreover have "ord_remove k (pairs ?c ps) = pairs ?c (as @ qs)"
      proof -
        have "ord_remove k (pairs ?c as) = pairs ?c as" "ord_remove k (pairs ?c qs) = pairs ?c qs"
          using splits_pairs_low [OF sp] splits_pairs_high [of s H k as p qs] sp Cons
          by (auto simp: ord_remove_def intro!: filter_True)
        then show ?thesis using True by (simp add: ps Cons ord_remove_def pairs_def)
      qed
      ultimately show ?thesis using cs(3,4) mo Cons True by (intro exI [of _ s'] exI [of _ "as @ qs"]) (simp add: ps)
    qed
  qed
qed

section \<open>Iteration\<close>

lemma node_at:
  assumes "nx c 0 p = Some l"
  obtains n where "c p = Some n" and "idx (nd_forward n) 0 = Some l"
  using assms that by (auto simp: nx_def forward_at_def bind_Some_iff)

lemma collect_done: "step it = Some (None, it') \<Longrightarrow> collect step it = Some []"
  by (subst collect.simps) simp

lemma collect_more: "step it = Some (Some x, it') \<Longrightarrow> collect step it' = Some xs \<Longrightarrow> collect step it = Some (x # xs)"
  by (subst collect.simps) simp

lemma collect_iter:
  assumes "chain (nx c 0) a ps" and "nx c 0 a = Some l"
  shows "collect (iter_step c) l = Some (pairs c ps)"
  using assms
proof (induction ps arbitrary: a l)
  case Nil
  then show ?case by (simp add: collect_done iter_step_def pairs_def)
next
  case (Cons p ps)
  obtain l' where l': "nx c 0 p = Some l'" using chain_defined [OF Cons.prems(1), of p] by auto
  then obtain n where "c p = Some n" "idx (nd_forward n) 0 = Some l'" by (rule node_at)
  then have "iter_step c (Some p) = Some (Some (key_of c p, val_of c p), l')"
    by (simp add: iter_step_def key_of_def val_of_def)
  from collect_more [of "iter_step c", OF this] Cons.IH [of p l'] Cons.prems l' show ?case by (simp add: pairs_def)
qed

lemma collect_rev:
  assumes "bchain (bk c) h ps" and "distinct (h # ps)"
  shows "collect (rev_step c h) (Some (last_of h ps)) = Some (rev (pairs c ps))"
  using assms
proof (induction ps rule: rev_induct)
  case Nil
  then show ?case by (simp add: collect_done rev_step_def pairs_def)
next
  case (snoc p ps)
  have "bk c p = Some (Some (last_of h ps))" and b: "bchain (bk c) h ps"
    using snoc.prems(1) by (simp_all add: bchain_append)
  then obtain n where "c p = Some n" "nd_backward n = Some (last_of h ps)" by (auto simp: bk_def)
  then have "rev_step c h (Some p) = Some (Some (key_of c p, val_of c p), Some (last_of h ps))"
    using snoc.prems(2) by (auto simp: rev_step_def key_of_def val_of_def)
  from collect_more [of "rev_step c h", OF this] snoc.IH [OF b] snoc.prems(2) show ?case by (simp add: pairs_def)
qed

lemma collect_range:
  assumes "chain (nx c 0) a ps" and "nx c 0 a = Some l" and "sorted_wrt (\<lambda>p q. key_of c p < key_of c q) ps"
  shows "collect (range_step c) \<lparr> ri_current = l, ri_end = Some e \<rparr> = Some (filter (\<lambda>(x, _). x < e) (pairs c ps))"
  using assms
proof (induction ps arbitrary: a l)
  case Nil
  then show ?case by (simp add: collect_done range_step_def pairs_def)
next
  case (Cons p ps)
  obtain l' where l': "nx c 0 p = Some l'" using chain_defined [OF Cons.prems(1), of p] by auto
  then obtain n where n: "c p = Some n" "idx (nd_forward n) 0 = Some l'" by (rule node_at)
  show ?case
  proof (cases "key_of c p < e")
    case True
    then have "range_step c \<lparr> ri_current = Some p, ri_end = Some e \<rparr> =
        Some (Some (key_of c p, val_of c p), \<lparr> ri_current = l', ri_end = Some e \<rparr>)"
      using n by (auto simp: range_step_def key_of_def val_of_def not_le)
    from collect_more [of "range_step c", OF this] Cons.IH [of p l'] Cons.prems l' True show ?thesis by (simp add: pairs_def)
  next
    case False
    then have "filter (\<lambda>(x, _). x < e) (pairs c (p # ps)) = []"
      using Cons.prems(3) by (fastforce simp: pairs_def filter_empty_conv)
    moreover have "range_step c \<lparr> ri_current = Some p, ri_end = Some e \<rparr> =
        Some (None, \<lparr> ri_current = Some p, ri_end = Some e \<rparr>)"
      using n False by (auto simp: range_step_def key_of_def)
    ultimately show ?thesis using Cons.prems collect_done by (metis chain.simps(2) option.inject)
  qed
qed

lemma sl_iter_spec:
  assumes "sl_ok s ps H"
  shows "sl_serialize s = Some (pairs (sl_cells s) ps)"
proof -
  obtain l where l: "nx (sl_cells s) 0 (sl_head s) = Some l"
    using chain_defined [OF sl_ok_level0 [OF assms], of "sl_head s"] by auto
  then show ?thesis
    using collect_iter [OF sl_ok_level0 [OF assms] l] by (simp add: sl_serialize_def sl_iter_def nx_def)
qed

lemma sl_last_spec:
  assumes ok: "sl_ok s ps H"
  shows "descend_end (sl_cells s) (rev [0..<sl_level s]) (sl_head s) = Some (last_of (sl_head s) ps)"
proof -
  let ?u = "preds (sl_head s) H ps"
  have w: "walk_end (sl_cells s) i (?u (Suc i)) = Some (?u i)" if i: "i < sl_level s" for i
  proof -
    have "i < MAX_LEVEL" using i sl_okD(7) [OF ok] by simp
    then have "chain (nx (sl_cells s) i) (sl_head s) (filter (\<lambda>p. i < H p) ps @ [])" using sl_okD(5) [OF ok] by simp
    then obtain vs where "chain (nx (sl_cells s) i) (?u (Suc i)) (vs @ [])" "last_of (?u (Suc i)) vs = ?u i"
      unfolding preds_def by (rule level_below) auto
    then show ?thesis using walk_end_chain by fastforce
  qed
  have "?u (sl_level s) = sl_head s" by (rule preds_top [of ps H "sl_level s"]) (use sl_okD(6) [OF ok] in auto)
  moreover have "filter (\<lambda>p. 0 < H p) ps = ps" using sl_okD(6) [OF ok] by (auto intro!: filter_True simp: Suc_le_eq)
  ultimately show ?thesis using descend_end_levels [of "sl_level s" "sl_cells s" ?u, OF w] by (simp add: preds_def)
qed

lemma sl_last_item:
  assumes ok: "sl_ok s ps H"
  shows "sl_last s = Some (if ps = [] then None else Some (last (pairs (sl_cells s) ps)))"
proof (cases "ps = []")
  case False
  have "last ps \<in> set ps" using False by simp
  then have "last ps \<in> dom (sl_cells s)" "last ps \<noteq> sl_head s" using sl_okD(1,2) [OF ok] by auto
  then show ?thesis using False sl_last_spec [OF ok] by (auto simp: sl_last_def pairs_def last_map key_of_def val_of_def)
qed (use sl_last_spec [OF ok] in \<open>simp add: sl_last_def\<close>)

lemma sl_first_item:
  assumes ok: "sl_ok s ps H"
  shows "sl_first s = Some (if ps = [] then None else Some (hd (pairs (sl_cells s) ps)))"
proof (cases ps)
  case Nil
  then show ?thesis using sl_ok_level0 [OF ok] by (simp add: sl_first_def nx_def)
next
  case (Cons p qs)
  have "p \<in> dom (sl_cells s)" using sl_okD(2) [OF ok] Cons by simp
  then show ?thesis
    using Cons sl_ok_level0 [OF ok] by (auto simp: sl_first_def nx_def pairs_def key_of_def val_of_def)
qed

lemma sl_rev_spec:
  assumes ok: "sl_ok s ps H"
  shows "(sl_iter_rev s \<bind> collect (rev_step (sl_cells s) (sl_head s))) = Some (rev (pairs (sl_cells s) ps))"
proof (cases "ps = []")
  case True
  then show ?thesis
    using sl_last_spec [OF ok] by (simp add: sl_iter_rev_def sl_last_node_def collect_done rev_step_def pairs_def)
next
  case False
  have "last ps \<in> set ps" using False by simp
  then have "last ps \<noteq> sl_head s" using sl_okD(1) [OF ok] by auto
  then show ?thesis
    using False sl_last_spec [OF ok] collect_rev [OF sl_okD(8,1) [OF ok]] by (simp add: sl_iter_rev_def sl_last_node_def)
qed

lemma sl_range_spec:
  assumes ok: "sl_ok s ps H"
  shows "(sl_range s a b \<bind> collect (range_step (sl_cells s))) =
    Some (filter (\<lambda>(x, _). a \<le> x \<and> x < b) (pairs (sl_cells s) ps))"
proof -
  let ?c = "sl_cells s"
  obtain as bs where ps: "ps = as @ bs" and sp: "splits s H a as bs" using splits_exists [OF ok] .
  have c: "chain (nx ?c 0) (last_of (sl_head s) as) bs"
    using chain_append [OF sl_ok_level0 [OF splits_ok [OF sp]]] .
  have srt: "sorted_wrt (\<lambda>p q. key_of ?c p < key_of ?c q) bs"
    using sl_okD(9) [OF splits_ok [OF sp]] by (simp add: sorted_wrt_append)
  have n: "nx ?c 0 (last_of (sl_head s) as) = Some (case bs of [] \<Rightarrow> None | p # _ \<Rightarrow> Some p)"
    using splits_next [OF sp] by (simp only: nx_def splits_bottom [OF sp])
  have "sl_range s a b = Some \<lparr> ri_current = (case bs of [] \<Rightarrow> None | p # _ \<Rightarrow> Some p), ri_end = Some b \<rparr>"
    by (simp add: sl_range_def splits_descend [OF sp] splits_next [OF sp])
  moreover note collect_range [OF c n srt, of b]
  moreover have "filter (\<lambda>(x, _). a \<le> x \<and> x < b) (pairs ?c as) = []"
    using splits_pairs_low [OF sp] by (fastforce simp: filter_empty_conv)
  moreover have "filter (\<lambda>(x, _). a \<le> x \<and> x < b) (pairs ?c bs) = filter (\<lambda>(x, _). x < b) (pairs ?c bs)"
    using sp by (intro filter_cong) (auto simp: splits_def pairs_def not_less)
  ultimately show ?thesis by (simp add: ps pairs_def)
qed

section \<open>Clearing, dropping, checking, comparing\<close>

lemma free_all_chain:
  assumes "chain (nx c 0) p qs" and "distinct (p # qs)"
  shows "free_all c (Some p) = Some (\<lambda>x. if x \<in> set (p # qs) then None else c x)"
  using assms
proof (induction qs arbitrary: c p)
  case Nil
  have "free_all (c(p := None)) None = Some (c(p := None))" by (subst free_all.simps) simp
  moreover have "c(p := None) = (\<lambda>x. if x \<in> set [p] then None else c x)" by auto
  ultimately show ?case using Nil by (subst free_all.simps) (simp add: nx_def)
next
  case (Cons q qs)
  define d where "d = c(p := None)"
  have "chain (nx d 0) q qs \<longleftrightarrow> chain (nx c 0) q qs"
    unfolding d_def by (rule chain_cong) (use Cons.prems in \<open>auto simp: nx_free\<close>)
  then have "free_all d (Some q) = Some (\<lambda>x. if x \<in> set (q # qs) then None else d x)"
    by (intro Cons.IH) (use Cons.prems in auto)
  moreover have "(\<lambda>x. if x \<in> set (q # qs) then None else d x) =
      (\<lambda>x. if x \<in> set (p # q # qs) then None else c x)" by (auto simp: d_def)
  ultimately show ?case using Cons.prems by (subst free_all.simps) (simp add: nx_def d_def)
qed

lemma sl_free_all:
  assumes ok: "sl_ok s ps H"
  shows "\<exists>l hn. forward_at (sl_cells s) (sl_head s) 0 = Some l \<and> free_all (sl_cells s) l = Some [sl_head s \<mapsto> hn] \<and>
    length (nd_forward hn) = MAX_LEVEL"
proof -
  let ?c = "sl_cells s" and ?h = "sl_head s"
  obtain hn where hn: "?c ?h = Some hn" using sl_okD(2) [OF ok] by auto
  then have "length (nd_forward hn) = MAX_LEVEL" using sl_okD(4) [OF ok] by (simp add: wide_def)
  moreover have "(\<lambda>x. if x \<in> set ps then None else ?c x) = [?h \<mapsto> hn]"
    using sl_okD(1,2) [OF ok] hn by (intro ext) (auto simp: domIff [of _ ?c, symmetric])
  moreover have "\<exists>l. forward_at ?c ?h 0 = Some l \<and> free_all ?c l = Some (\<lambda>x. if x \<in> set ps then None else ?c x)"
  proof (cases ps)
    case Nil
    have "free_all ?c None = Some ?c" by (subst free_all.simps) simp
    then show ?thesis using Nil sl_ok_level0 [OF ok] by (simp add: nx_def)
  next
    case (Cons p qs)
    have "free_all ?c (Some p) = Some (\<lambda>x. if x \<in> set ps then None else ?c x)"
      unfolding Cons by (rule free_all_chain) (use Cons sl_ok_level0 [OF ok] sl_okD(1) [OF ok] in auto)
    then show ?thesis using Cons sl_ok_level0 [OF ok] by (simp add: nx_def)
  qed
  ultimately show ?thesis by auto
qed

lemma sl_clear_spec:
  assumes ok: "sl_ok s ps H"
  shows "\<exists>s'. sl_clear s = Some s' \<and> sl_ok s' [] H"
proof -
  let ?h = "sl_head s"
  obtain l hn where f: "forward_at (sl_cells s) ?h 0 = Some l" "free_all (sl_cells s) l = Some [?h \<mapsto> hn]"
    "length (nd_forward hn) = MAX_LEVEL" using sl_free_all [OF ok] by blast
  have "?h < sl_fresh s" using sl_okD(2,3) [OF ok] by auto
  with f show ?thesis
    by (auto simp: sl_clear_def sl_ok_def wide_def nx_def forward_at_def idx_def)
qed

lemma sl_drop_spec: "sl_ok s ps H \<Longrightarrow> sl_drop s = Some Map.empty"
  using sl_free_all [of s ps H] by (auto simp: sl_drop_def)

lemma validate_loop_chain:
  assumes "chain (nx c 0) p qs" and "sorted_wrt (\<lambda>p q. key_of c p < key_of c q) (p # qs)" and "wide c"
    and "\<forall>k. prev = Some k \<longrightarrow> k < key_of c p"
  shows "validate_loop c n prev (Some p) = Some (Inr (n + length (p # qs)))"
  using assms
proof (induction qs arbitrary: p n prev)
  case Nil
  obtain m where "c p = Some m" "idx (nd_forward m) 0 = Some None" using Nil.prems(1) node_at [of c p None] by auto
  moreover have "validate_loop c k pk None = Some (Inr k)" for k pk by (subst validate_loop.simps) simp
  ultimately show ?case using Nil.prems(3,4)
    by (subst validate_loop.simps) (auto simp: wide_def key_of_def split: option.split)
next
  case (Cons q qs)
  obtain m where m: "c p = Some m" "idx (nd_forward m) 0 = Some (Some q)"
    using Cons.prems(1) node_at [of c p "Some q"] by auto
  have "validate_loop c (n + 1) (Some (nd_key m)) (Some q) = Some (Inr (n + 1 + length (q # qs)))"
    by (rule Cons.IH) (use Cons.prems m(1) in \<open>auto simp: key_of_def\<close>)
  then show ?case using Cons.prems(3,4) m
    by (subst validate_loop.simps) (auto simp: wide_def key_of_def split: option.split)
qed

lemma validate_spec:
  assumes ok: "sl_ok s ps H"
  shows "validate_invariants s = Some (Inr ())"
proof (cases ps)
  case Nil
  have "validate_loop (sl_cells s) 0 None None = Some (Inr 0)" by (subst validate_loop.simps) simp
  then show ?thesis using Nil sl_ok_level0 [OF ok] sl_okD(10) [OF ok] by (simp add: validate_invariants_def nx_def)
next
  case (Cons p qs)
  have "validate_loop (sl_cells s) 0 None (Some p) = Some (Inr (0 + length (p # qs)))"
    by (rule validate_loop_chain) (use Cons sl_ok_level0 [OF ok] sl_okD(4,9) [OF ok] in auto)
  then show ?thesis using Cons sl_ok_level0 [OF ok] sl_okD(10) [OF ok] by (simp add: validate_invariants_def nx_def)
qed

lemma eq_loop_ends:
  "eq_loop ca cb None l = Some (l = None)" "eq_loop ca cb (Some p) None = Some False"
  by (subst eq_loop.simps, simp)+

lemma eq_loop_chain:
  assumes "chain (nx ca 0) p ps" and "chain (nx cb 0) q qs"
  shows "eq_loop ca cb (Some p) (Some q) = Some (pairs ca (p # ps) = pairs cb (q # qs))"
  using assms
proof (induction ps arbitrary: p q qs)
  case Nil
  obtain m where m: "ca p = Some m" "idx (nd_forward m) 0 = Some None" using Nil.prems(1) node_at [of ca p None] by auto
  obtain l where "nx cb 0 q = Some l" using chain_defined [OF Nil.prems(2), of q] by auto
  then obtain n where n: "cb q = Some n" "idx (nd_forward n) 0 = Some l" "nx cb 0 q = Some l" using node_at by metis
  have "l = None \<longleftrightarrow> qs = []" using Nil.prems(2) n(3) by (cases qs) auto
  with m n show ?case
    by (subst eq_loop.simps) (auto simp: eq_loop_ends pairs_def key_of_def val_of_def)
next
  case (Cons p' ps)
  obtain m where m: "ca p = Some m" "idx (nd_forward m) 0 = Some (Some p')"
    using Cons.prems(1) node_at [of ca p "Some p'"] by auto
  show ?case
  proof (cases qs)
    case Nil
    then obtain n where "cb q = Some n" "idx (nd_forward n) 0 = Some None"
      using Cons.prems(2) node_at [of cb q None] by auto
    with m Nil show ?thesis by (subst eq_loop.simps) (auto simp: eq_loop_ends pairs_def)
  next
    case (Cons q' qs')
    then obtain n where n: "cb q = Some n" "idx (nd_forward n) 0 = Some (Some q')"
      using Cons.prems(2) node_at [of cb q "Some q'"] by auto
    have "eq_loop ca cb (Some p') (Some q') = Some (pairs ca (p' # ps) = pairs cb (q' # qs'))"
      using Cons.IH Cons.prems Cons by simp
    with m n Cons show ?thesis
      by (subst eq_loop.simps) (auto simp: pairs_def key_of_def val_of_def)
  qed
qed

lemma sl_eq_spec:
  assumes a: "sl_ok s ps H" and b: "sl_ok t qs J"
  shows "sl_eq s t = Some (pairs (sl_cells s) ps = pairs (sl_cells t) qs)"
proof (cases "length ps = length qs")
  case False
  then have "pairs (sl_cells s) ps \<noteq> pairs (sl_cells t) qs" by (metis length_map pairs_def)
  then show ?thesis using False sl_okD(10) [OF a] sl_okD(10) [OF b] by (simp add: sl_eq_def sl_len_def)
next
  case True
  then have l: "sl_length s = sl_length t" using sl_okD(10) [OF a] sl_okD(10) [OF b] by simp
  show ?thesis
  proof (cases ps)
    case Nil
    then show ?thesis
      using True l sl_ok_level0 [OF a] sl_ok_level0 [OF b] by (simp add: sl_eq_def sl_len_def nx_def eq_loop_ends pairs_def)
  next
    case (Cons p ps')
    then obtain q qs' where "qs = q # qs'" using True by (cases qs) auto
    then show ?thesis
      using Cons l sl_ok_level0 [OF a] sl_ok_level0 [OF b] eq_loop_chain [of "sl_cells s" p ps' "sl_cells t" q qs']
      by (simp add: sl_eq_def sl_len_def nx_def [of _ _ "sl_head _"])
  qed
qed

lemma sl_insert_all_sorted:
  assumes "sl_ok s ps H" and "sorted_wrt (\<lambda>x y. fst x < fst y) (pairs (sl_cells s) ps @ kvs)"
  shows "\<exists>s' ps' H'. sl_insert_all rand s kvs = Some s' \<and> sl_ok s' ps' H' \<and>
    pairs (sl_cells s') ps' = pairs (sl_cells s) ps @ kvs"
  using assms
proof (induction kvs arbitrary: s ps H)
  case (Cons kv kvs)
  obtain k v where kv: "kv = (k, v)" by (cases kv)
  obtain s1 ps1 H1 where s1: "sl_insert rand s k v = Some s1" "sl_ok s1 ps1 H1"
    "pairs (sl_cells s1) ps1 = ord_insert k v (pairs (sl_cells s) ps)" using sl_insert_spec [OF Cons.prems(1)] by blast
  have "ord_insert k v (pairs (sl_cells s) ps @ []) = pairs (sl_cells s) ps @ [(k, v)]"
    by (rule ord_insert_split(1)) (use Cons.prems(2) in \<open>auto simp: sorted_wrt_append kv\<close>)
  then have e: "pairs (sl_cells s1) ps1 = pairs (sl_cells s) ps @ [kv]" using s1(3) by (simp add: kv)
  then show ?case using Cons.IH [OF s1(2)] Cons.prems(2) s1(1) kv by simp
qed auto

lemma pairs_sorted: "sl_ok s ps H \<Longrightarrow> sorted_wrt (\<lambda>x y. fst x < fst y) (pairs (sl_cells s) ps)"
  by (drule sl_okD(9)) (simp add: pairs_def sorted_wrt_map)

lemma sl_rebuild:
  assumes ok: "sl_ok s ps H"
  shows "\<exists>t qs J. sl_deserialize rand dk dv (pairs (sl_cells s) ps) = Some t \<and> sl_ok t qs J \<and>
    pairs (sl_cells t) qs = pairs (sl_cells s) ps"
  using sl_insert_all_sorted [OF sl_new_ok [of dk dv], of "pairs (sl_cells s) ps" rand] pairs_sorted [OF ok]
  by (auto simp: sl_deserialize_def pairs_def)

lemma sl_search_mut_spec:
  fixes s :: "('k :: linorder, 'v) skip_list"
  assumes ok: "sl_ok s ps H"
  shows "\<exists>s'. sl_search_mut s k f = Some (map_of (pairs (sl_cells s) ps) k, s') \<and> sl_ok s' ps H \<and>
    pairs (sl_cells s') ps = map (\<lambda>(x, v). (x, if x = k then f v else v)) (pairs (sl_cells s) ps)"
proof -
  let ?c = "sl_cells s"
  obtain as bs where ps: "ps = as @ bs" and sp: "splits s H k as bs" using splits_exists [OF ok] .
  obtain up where up: "find_update s k = Some up" using splits_find_update [OF sp] by blast
  have "1 \<le> sl_level s" using sl_okD(7) [OF ok] by simp
  then have u0: "update_at up 0 = Some (preds (sl_head s) H as 0)"
    using up splits_find_update [OF sp] update_at_levels [of 0] by auto
  note nxt = splits_next [OF sp]
  note mo = map_of_split [OF sp]
  have keep: ?thesis if "sl_search_mut s k f = Some (None, s)" and "map_of (pairs ?c (as @ bs)) k = None"
  proof -
    have "map (\<lambda>(x, v). (x, if x = k then f v else v)) (pairs ?c ps) = pairs ?c ps"
      using that(2) by (intro map_idI) (force simp: map_of_eq_None_iff ps)
    then show ?thesis using that ok by (simp add: ps)
  qed
  show ?thesis
  proof (cases bs)
    case Nil
    have "sl_search_mut s k f = Some (None, s)" using up u0 nxt Nil by (simp add: sl_search_mut_def)
    then show ?thesis using keep mo Nil by simp
  next
    case (Cons p qs)
    obtain n where n: "?c p = Some n" "nd_key n = key_of ?c p" "nd_value n = val_of ?c p"
      using splits_node sp Cons by metis
    show ?thesis
    proof (cases "key_of ?c p = k")
      case False
      then have "sl_search_mut s k f = Some (None, s)" using up u0 nxt Cons n by (simp add: sl_search_mut_def)
      then show ?thesis using keep mo Cons False by simp
    next
      case True
      let ?s = "s \<lparr> sl_cells := ?c(p \<mapsto> n \<lparr> nd_value := f (nd_value n) \<rparr>) \<rparr>"
      have "sl_search_mut s k f = Some (Some (val_of ?c p), ?s)"
        using up u0 nxt Cons n True by (simp add: sl_search_mut_def)
      moreover have "sl_ok ?s ps H" by (rule set_value_ok [OF ok _ n(1)]) (simp add: ps Cons)
      moreover have "map (\<lambda>(x, v). (x, if x = k then f v else v)) (pairs ?c as) = pairs ?c as"
        "map (\<lambda>(x, v). (x, if x = k then f v else v)) (pairs ?c qs) = pairs ?c qs"
        using splits_pairs_low [OF sp] splits_pairs_high [of s H k as p qs] sp Cons
        by (auto intro!: map_idI)
      moreover have "pairs (?c(p \<mapsto> n \<lparr> nd_value := f (nd_value n) \<rparr>)) ps = pairs ?c as @ (k, f (nd_value n)) # pairs ?c qs"
        using set_value_pairs [of as p qs ?c n] sl_okD(1) [OF ok] n(1) True by (simp add: ps Cons)
      ultimately show ?thesis using mo Cons True n(3) by (simp add: ps pairs_def)
    qed
  qed
qed

section \<open>Refinement\<close>

datatype ('k, 'v) sl_op =
    Sl_Insert 'k 'v | Sl_Remove 'k | Sl_Search 'k | Sl_Modify 'k "'v \<Rightarrow> 'v" | Sl_Contains 'k | Sl_Len | Sl_Is_Empty
  | Sl_First | Sl_Last | Sl_Iter | Sl_Iter_Rev | Sl_Range 'k 'k | Sl_Clear

datatype ('k, 'v) sl_out =
    Sl_Unit | Sl_Val "'v option" | Sl_Bool bool | Sl_Size nat | Sl_Item "('k \<times> 'v) option" | Sl_Items "('k \<times> 'v) list"

text \<open>The specification: a list of pairs in ascending order of the keys.\<close>

fun sl_spec :: "('k :: linorder, 'v) sl_op \<Rightarrow> ('k \<times> 'v) list \<Rightarrow> ('k, 'v) sl_out \<times> ('k \<times> 'v) list" where
  "sl_spec (Sl_Insert k v) kvs = (Sl_Unit, ord_insert k v kvs)"
| "sl_spec (Sl_Remove k) kvs = (Sl_Val (map_of kvs k), ord_remove k kvs)"
| "sl_spec (Sl_Search k) kvs = (Sl_Val (map_of kvs k), kvs)"
| "sl_spec (Sl_Modify k f) kvs = (Sl_Val (map_of kvs k), map (\<lambda>(x, v). (x, if x = k then f v else v)) kvs)"
| "sl_spec (Sl_Contains k) kvs = (Sl_Bool (k \<in> fst ` set kvs), kvs)"
| "sl_spec Sl_Len kvs = (Sl_Size (length kvs), kvs)"
| "sl_spec Sl_Is_Empty kvs = (Sl_Bool (kvs = []), kvs)"
| "sl_spec Sl_First kvs = (Sl_Item (if kvs = [] then None else Some (hd kvs)), kvs)"
| "sl_spec Sl_Last kvs = (Sl_Item (if kvs = [] then None else Some (last kvs)), kvs)"
| "sl_spec Sl_Iter kvs = (Sl_Items kvs, kvs)"
| "sl_spec Sl_Iter_Rev kvs = (Sl_Items (rev kvs), kvs)"
| "sl_spec (Sl_Range a b) kvs = (Sl_Items (filter (\<lambda>(x, _). a \<le> x \<and> x < b) kvs), kvs)"
| "sl_spec Sl_Clear kvs = (Sl_Unit, [])"

fun sl_step ::
  "(nat \<Rightarrow> u32) \<Rightarrow> ('k :: linorder, 'v) sl_op \<Rightarrow> ('k, 'v) skip_list \<Rightarrow> (('k, 'v) sl_out \<times> ('k, 'v) skip_list) panics" where
  "sl_step rand (Sl_Insert k v) s = do { s' \<leftarrow> sl_insert rand s k v; Some (Sl_Unit, s') }"
| "sl_step rand (Sl_Remove k) s = do { (r, s') \<leftarrow> sl_remove s k; Some (Sl_Val r, s') }"
| "sl_step rand (Sl_Search k) s = do { r \<leftarrow> sl_search s k; Some (Sl_Val r, s) }"
| "sl_step rand (Sl_Modify k f) s = do { (r, s') \<leftarrow> sl_search_mut s k f; Some (Sl_Val r, s') }"
| "sl_step rand (Sl_Contains k) s = do { b \<leftarrow> sl_contains s k; Some (Sl_Bool b, s) }"
| "sl_step rand Sl_Len s = Some (Sl_Size (sl_len s), s)"
| "sl_step rand Sl_Is_Empty s = Some (Sl_Bool (sl_is_empty s), s)"
| "sl_step rand Sl_First s = do { r \<leftarrow> sl_first s; Some (Sl_Item r, s) }"
| "sl_step rand Sl_Last s = do { r \<leftarrow> sl_last s; Some (Sl_Item r, s) }"
| "sl_step rand Sl_Iter s = do { it \<leftarrow> sl_iter s; xs \<leftarrow> collect (iter_step (sl_cells s)) it; Some (Sl_Items xs, s) }"
| "sl_step rand Sl_Iter_Rev s =
     do { it \<leftarrow> sl_iter_rev s; xs \<leftarrow> collect (rev_step (sl_cells s) (sl_head s)) it; Some (Sl_Items xs, s) }"
| "sl_step rand (Sl_Range a b) s =
     do { it \<leftarrow> sl_range s a b; xs \<leftarrow> collect (range_step (sl_cells s)) it; Some (Sl_Items xs, s) }"
| "sl_step rand Sl_Clear s = do { s' \<leftarrow> sl_clear s; Some (Sl_Unit, s') }"

definition sl_inv :: "('k :: linorder, 'v) skip_list \<Rightarrow> bool" where
  "sl_inv s \<longleftrightarrow> (\<exists>ps H. sl_ok s ps H)"

definition sl_items :: "('k, 'v) skip_list \<Rightarrow> ('k \<times> 'v) list" where
  "sl_items s = (case sl_serialize s of None \<Rightarrow> [] | Some kvs \<Rightarrow> kvs)"

lemma sl_items_pairs: "sl_ok s ps H \<Longrightarrow> sl_items s = pairs (sl_cells s) ps"
  by (simp add: sl_items_def sl_iter_spec)

lemma sl_sim_query:
  assumes "sl_inv s" and "sl_step rand p s = Some (out, s)" and "sl_spec p (sl_items s) = (out, sl_items s)"
  shows "\<exists>out s'. sl_step rand p s = Some (out, s') \<and> sl_inv s' \<and> sl_spec p (sl_items s) = (out, sl_items s')"
  using assms by blast

lemma sl_step_sim:
  assumes "sl_inv s"
  shows "\<exists>out s'. sl_step rand p s = Some (out, s') \<and> sl_inv s' \<and> sl_spec p (sl_items s) = (out, sl_items s')"
proof -
  obtain ps H where ok: "sl_ok s ps H" using assms by (auto simp: sl_inv_def)
  let ?kvs = "pairs (sl_cells s) ps"
  note it = sl_items_pairs [OF ok]
  have e: "?kvs = [] \<longleftrightarrow> ps = []" by (simp add: pairs_def)
  note q = sl_sim_query [OF assms]
  show ?thesis
  proof (cases p)
    case (Sl_Insert k v)
    obtain s' ps' H' where "sl_insert rand s k v = Some s'" "sl_ok s' ps' H'"
      "pairs (sl_cells s') ps' = ord_insert k v ?kvs" using sl_insert_spec [OF ok] by blast
    with Sl_Insert it sl_items_pairs [of s' ps' H'] show ?thesis by (auto simp: sl_inv_def)
  next
    case (Sl_Remove k)
    obtain s' ps' where "sl_remove s k = Some (map_of ?kvs k, s')" "sl_ok s' ps' H"
      "pairs (sl_cells s') ps' = ord_remove k ?kvs" using sl_remove_spec [OF ok] by blast
    with Sl_Remove it sl_items_pairs [of s' ps' H] show ?thesis by (auto simp: sl_inv_def)
  next
    case (Sl_Modify k f)
    obtain s' where "sl_search_mut s k f = Some (map_of ?kvs k, s')" "sl_ok s' ps H"
      "pairs (sl_cells s') ps = map (\<lambda>(x, v). (x, if x = k then f v else v)) ?kvs" using sl_search_mut_spec [OF ok] by blast
    with Sl_Modify it sl_items_pairs [of s' ps H] show ?thesis by (auto simp: sl_inv_def)
  next
    case Sl_Clear
    obtain s' where "sl_clear s = Some s'" "sl_ok s' [] H" using sl_clear_spec [OF ok] by blast
    with Sl_Clear sl_items_pairs [of s' "[]" H] show ?thesis by (auto simp: sl_inv_def pairs_def)
  next
    case (Sl_Search k)
    then show ?thesis by (intro q [of _ _ "Sl_Val (map_of ?kvs k)"]) (simp_all add: sl_search_spec [OF ok] it)
  next
    case (Sl_Contains k)
    then show ?thesis
      by (intro q [of _ _ "Sl_Bool (k \<in> fst ` set ?kvs)"])
        (auto simp: sl_contains_def sl_search_spec [OF ok] it dest: map_of_SomeD weak_map_of_SomeI intro: rev_image_eqI)
  next
    case Sl_Len
    then show ?thesis
      by (intro q [of _ _ "Sl_Size (length ?kvs)"]) (simp_all add: sl_len_def sl_okD(10) [OF ok] it pairs_def)
  next
    case Sl_Is_Empty
    then show ?thesis
      by (intro q [of _ _ "Sl_Bool (?kvs = [])"]) (simp_all add: sl_is_empty_def sl_okD(10) [OF ok] it pairs_def)
  next
    case Sl_First
    then show ?thesis
      by (intro q [of _ _ "Sl_Item (if ?kvs = [] then None else Some (hd ?kvs))"]) (simp_all add: sl_first_item [OF ok] it e)
  next
    case Sl_Last
    then show ?thesis
      by (intro q [of _ _ "Sl_Item (if ?kvs = [] then None else Some (last ?kvs))"]) (simp_all add: sl_last_item [OF ok] it e)
  next
    case Sl_Iter
    then show ?thesis
      using sl_iter_spec [OF ok] by (intro q [of _ _ "Sl_Items ?kvs"]) (auto simp: sl_serialize_def it bind_Some_iff)
  next
    case Sl_Iter_Rev
    then show ?thesis
      using sl_rev_spec [OF ok] by (intro q [of _ _ "Sl_Items (rev ?kvs)"]) (auto simp: it bind_Some_iff)
  next
    case (Sl_Range a b)
    then show ?thesis
      using sl_range_spec [OF ok, of a b]
      by (intro q [of _ _ "Sl_Items (filter (\<lambda>(x, _). a \<le> x \<and> x < b) ?kvs)"]) (auto simp: it bind_Some_iff)
  qed
qed

interpretation sl: simulation "sl_step rand" sl_spec sl_items sl_inv "\<lambda>_. True" for rand
  by unfold_locales (rule sl_step_sim)

lemma sl_new_inv: "sl_inv (sl_new dk dv)"
  unfolding sl_inv_def by (intro exI) (rule sl_new_ok)

lemma sl_new_items: "sl_items (sl_new (dk :: 'k :: linorder) dv) = []"
  using sl_items_pairs [OF sl_new_ok [of dk dv]] by (simp add: pairs_def)

section \<open>Properties\<close>

text \<open>C7. For every sequence of operations, every random generator and every default key and value, the
  skip list gives the results of a list of pairs kept in ascending order of the keys: inserting
  replaces the value of an equal key, removal returns the removed value, the iterators run up, down and over a
  half-open range. No step follows a null or freed pointer and no loop over the links runs on.\<close>

theorem skiplist_refines_ordered_map:
  "map_option (\<lambda>(outs, s). (outs, sl_items s)) (run (sl_step rand) ops (sl_new dk dv)) = Some (spec_run sl_spec ops [])"
  using sl.run_refines [OF sl_new_inv [of dk dv]] by (simp add: sl_new_items)

text \<open>C24. After any sequence of operations \<open>validate_invariants\<close> accepts the list, the items are strictly
  ascending and as many as \<open>len\<close> says, the heap holds the head and one node per item and nothing
  else, and dropping the list frees every one of them.\<close>

theorem skiplist_memory:
  "\<exists>outs s. run (sl_step rand) ops (sl_new dk dv) = Some (outs, s) \<and> validate_invariants s = Some (Inr ()) \<and>
    sorted_wrt (<) (map fst (sl_items s)) \<and> sl_len s = length (sl_items s) \<and>
    card (dom (sl_cells s)) = sl_len s + 1 \<and> sl_drop s = Some Map.empty"
proof -
  obtain outs s where r: "run (sl_step rand) ops (sl_new dk dv) = Some (outs, s)" and "sl_inv s"
    using sl.run_sim [OF sl_new_inv [of dk dv], of ops rand] by auto
  then obtain ps H where ok: "sl_ok s ps H" by (auto simp: sl_inv_def)
  have "sorted_wrt (<) (map fst (sl_items s))"
    using pairs_sorted [OF ok] by (simp add: sl_items_pairs [OF ok] sorted_wrt_map)
  moreover have "card (dom (sl_cells s)) = sl_len s + 1"
    using sl_okD(1,2,10) [OF ok] by (simp add: distinct_card sl_len_def)
  moreover have "sl_len s = length (sl_items s)" by (simp add: sl_items_pairs [OF ok] pairs_def sl_len_def sl_okD(10) [OF ok])
  ultimately show ?thesis using r validate_spec [OF ok] sl_drop_spec [OF ok] by blast
qed

text \<open>Serialising a list and deserialising the result, with any generator and defaults, gives an equal list; so
  does \<open>clone\<close>; and two lists are equal exactly when they hold the same items.\<close>

theorem skiplist_roundtrip:
  "\<exists>outs s outs' t. run (sl_step rand) ops (sl_new dk dv) = Some (outs, s) \<and>
    run (sl_step rand') ops' (sl_new dk' dv') = Some (outs', t) \<and>
    sl_eq s t = Some (sl_items s = sl_items t) \<and>
    (\<exists>kvs u. sl_serialize s = Some kvs \<and> sl_deserialize rand' dk' dv' kvs = Some u \<and> sl_eq s u = Some True) \<and>
    (\<exists>u. sl_clone rand' dk' dv' s = Some u \<and> sl_eq s u = Some True)"
proof -
  obtain outs s where r: "run (sl_step rand) ops (sl_new dk dv) = Some (outs, s)" and "sl_inv s"
    using sl.run_sim [OF sl_new_inv [of dk dv], of ops rand] by auto
  then obtain ps H where ok: "sl_ok s ps H" by (auto simp: sl_inv_def)
  obtain outs' t where r': "run (sl_step rand') ops' (sl_new dk' dv') = Some (outs', t)" and "sl_inv t"
    using sl.run_sim [OF sl_new_inv [of dk' dv'], of ops' rand'] by auto
  then obtain qs J where ok': "sl_ok t qs J" by (auto simp: sl_inv_def)
  obtain u us K where u: "sl_deserialize rand' dk' dv' (pairs (sl_cells s) ps) = Some u" "sl_ok u us K"
    "pairs (sl_cells u) us = pairs (sl_cells s) ps" using sl_rebuild [OF ok] by blast
  have "sl_clone rand' dk' dv' s = Some u"
    using u(1) sl_iter_spec [OF ok] by (auto simp: sl_clone_def sl_deserialize_def sl_serialize_def bind_Some_iff)
  then show ?thesis
    using r r' u sl_eq_spec [OF ok ok'] sl_eq_spec [OF ok u(2)] sl_iter_spec [OF ok]
      sl_items_pairs [OF ok] sl_items_pairs [OF ok'] by auto
qed

end
