(* ===== verification/Hll.thy ===== *)
theory Hll
  imports Prelude
begin

text \<open>
  \<open>src/database/hll/hll_base.rs\<close>, \<open>hll_dense.rs\<close> and \<open>hll_sparse.rs\<close>: the registers of HyperLogLog, in the
  sparse map and in the dense array of six-bit fields, with adding, merging and the conversion. The
  precision \<open>P\<close>, a const generic of the source, is an argument; the hash function (murmur3, xxh64 or
  SipHash of other crates) is the parameter \<open>hash\<close>. A \<open>BTreeMap\<close> is its pairs in ascending order
  of the keys. The estimators are floating point and not modelled.
\<close>

unbundle bit_operations_syntax

section \<open>The dense array\<close>

abbreviation (input) REGISTER_BITS :: nat where "REGISTER_BITS \<equiv> 6"
abbreviation (input) MIN_PRECISION :: nat where "MIN_PRECISION \<equiv> 4"
abbreviation (input) MAX_PRECISION :: nat where "MAX_PRECISION \<equiv> 18"
abbreviation (input) DEFAULT_SPARSE_THRESHOLD :: nat where "DEFAULT_SPARSE_THRESHOLD \<equiv> 3000"

definition num_registers :: "nat \<Rightarrow> nat" where
  "num_registers precision = 2 ^ precision"

definition dense_size :: "nat \<Rightarrow> nat" where
  "dense_size precision = num_registers precision * REGISTER_BITS div 8"

definition dense_new :: "nat \<Rightarrow> bytes" where
  "dense_new P = replicate (dense_size P) 0"

text \<open>The two bytes a register spans, as a 16-bit word.\<close>
definition combined :: "bytes \<Rightarrow> nat \<Rightarrow> u16 panics" where
  "combined d byte_index = do {
     byte1 \<leftarrow> idx d byte_index;
     let byte2 = (if byte_index + 1 < length d then d ! (byte_index + 1) else 0);
     Some (ucast byte1 OR push_bit 8 (ucast byte2)) }"

definition dense_get_register :: "nat \<Rightarrow> bytes \<Rightarrow> nat \<Rightarrow> u8 panics" where
  "dense_get_register P d index =
     (if \<not> index < num_registers P then None
      else do {
        let bit_index = index * 6;
        let byte_index = bit_index div 8;
        let bit_offset = bit_index mod 8;
        w \<leftarrow> combined d byte_index;
        Some (ucast (drop_bit bit_offset w AND 0x3F)) })"

definition dense_set_register :: "nat \<Rightarrow> bytes \<Rightarrow> nat \<Rightarrow> u8 \<Rightarrow> bytes panics" where
  "dense_set_register P d index v =
     (if \<not> index < num_registers P \<or> \<not> v \<le> 63 then None
      else do {
        let bit_index = index * 6;
        let byte_index = bit_index div 8;
        let bit_offset = bit_index mod 8;
        w \<leftarrow> combined d byte_index;
        let w = w AND NOT (push_bit bit_offset 0x3F);
        let w = w OR push_bit bit_offset (ucast v AND 0x3F);
        d \<leftarrow> upd d byte_index (ucast (w AND 0xFF));
        if byte_index + 1 < length d then upd d (byte_index + 1) (ucast (drop_bit 8 w)) else Some d })"

section \<open>The sparse map\<close>

record hll_sparse =
  registers :: "(nat \<times> u8) list"
  threshold :: nat

text \<open>\<open>BTreeMap::insert\<close>\<close>
definition bt_insert :: "'k :: linorder \<Rightarrow> 'v \<Rightarrow> ('k \<times> 'v) list \<Rightarrow> ('k \<times> 'v) list" where
  "bt_insert k v kvs = takeWhile (\<lambda>(x, _). x < k) kvs @ (k, v) # dropWhile (\<lambda>(x, _). x \<le> k) kvs"

definition sparse_with_threshold :: "nat \<Rightarrow> hll_sparse" where
  "sparse_with_threshold t = \<lparr> registers = [], threshold = t \<rparr>"

definition sparse_new :: hll_sparse where
  "sparse_new = sparse_with_threshold DEFAULT_SPARSE_THRESHOLD"

definition sparse_set_register :: "hll_sparse \<Rightarrow> nat \<Rightarrow> u8 \<Rightarrow> hll_sparse \<times> bool" where
  "sparse_set_register s index v =
     (if v = 0 then (s, False)
      else if (case map_of (registers s) index of Some current \<Rightarrow> current \<ge> v | None \<Rightarrow> False) then (s, False)
      else (s \<lparr> registers := bt_insert index v (registers s) \<rparr>, True))"

definition sparse_get_register :: "hll_sparse \<Rightarrow> nat \<Rightarrow> u8" where
  "sparse_get_register s index = (case map_of (registers s) index of Some v \<Rightarrow> v | None \<Rightarrow> 0)"

definition should_convert_to_dense :: "hll_sparse \<Rightarrow> bool" where
  "should_convert_to_dense s \<longleftrightarrow> length (registers s) > threshold s"

fun sparse_merge_loop :: "hll_sparse \<Rightarrow> (nat \<times> u8) list \<Rightarrow> hll_sparse" where
  "sparse_merge_loop s [] = s"
| "sparse_merge_loop s ((index, v) # kvs) = sparse_merge_loop (fst (sparse_set_register s index v)) kvs"

definition sparse_merge :: "hll_sparse \<Rightarrow> hll_sparse \<Rightarrow> hll_sparse" where
  "sparse_merge s other = sparse_merge_loop s (registers other)"

definition count_zeros :: "hll_sparse \<Rightarrow> nat \<Rightarrow> nat panics" where
  "count_zeros s total_register = usub total_register (length (registers s))"

section \<open>HyperLogLog\<close>

datatype hll_encoding = Sparse hll_sparse | Dense bytes

record hll =
  encoding :: hll_encoding
  hll_version :: u8

definition hll_with_threshold :: "nat \<Rightarrow> hll" where
  "hll_with_threshold t = \<lparr> encoding = Sparse (sparse_with_threshold t), hll_version = 1 \<rparr>"

definition hll_new :: hll where
  "hll_new = \<lparr> encoding = Sparse sparse_new, hll_version = 1 \<rparr>"

fun set_all :: "nat \<Rightarrow> bytes \<Rightarrow> (nat \<times> u8) list \<Rightarrow> bytes panics" where
  "set_all P d [] = Some d"
| "set_all P d ((index, v) # kvs) = do { d \<leftarrow> dense_set_register P d index v; set_all P d kvs }"

definition from_sparse :: "nat \<Rightarrow> hll_sparse \<Rightarrow> bytes panics" where
  "from_sparse P s = set_all P (dense_new P) (registers s)"

definition convert_to_dense :: "nat \<Rightarrow> hll \<Rightarrow> hll panics" where
  "convert_to_dense P h = (case encoding h of
       Sparse s \<Rightarrow> do { d \<leftarrow> from_sparse P s; Some (h \<lparr> encoding := Dense d \<rparr>) }
     | Dense _ \<Rightarrow> Some h)"

definition leading_zeros :: "u64 \<Rightarrow> nat" where
  "leading_zeros w = length (takeWhile (\<lambda>i. \<not> bit w i) (rev [0..<64]))"

definition index_and_rho :: "nat \<Rightarrow> u64 \<Rightarrow> nat \<times> u8" where
  "index_and_rho P hash =
     (unat (drop_bit (64 - P) hash),
      of_nat (min (leading_zeros (push_bit P hash) + 1) (64 - P + 1)))"

definition hll_add :: "nat \<Rightarrow> (bytes \<Rightarrow> u64) \<Rightarrow> hll \<Rightarrow> bytes \<Rightarrow> hll panics" where
  "hll_add P hash h x =
     (let (index, rho) = index_and_rho P (hash x) in
      case encoding h of
        Sparse s \<Rightarrow>
          if rho > sparse_get_register s index then
            let s' = fst (sparse_set_register s index rho); h' = h \<lparr> encoding := Sparse s' \<rparr> in
            if should_convert_to_dense s' then convert_to_dense P h' else Some h'
          else Some h
      | Dense d \<Rightarrow> do {
          current \<leftarrow> dense_get_register P d index;
          if rho > current then do {
            d \<leftarrow> dense_set_register P d index rho;
            Some (h \<lparr> encoding := Dense d \<rparr>) }
          else Some h })"

text \<open>The loop over the sparse registers of the other, and over all registers of a dense other.\<close>

fun raise_sparse :: "nat \<Rightarrow> bytes \<Rightarrow> (nat \<times> u8) list \<Rightarrow> bytes panics" where
  "raise_sparse P d [] = Some d"
| "raise_sparse P d ((index, v) # kvs) = do {
     current \<leftarrow> dense_get_register P d index;
     d \<leftarrow> (if v > current then dense_set_register P d index v else Some d);
     raise_sparse P d kvs }"

fun raise_dense :: "nat \<Rightarrow> bytes \<Rightarrow> bytes \<Rightarrow> nat list \<Rightarrow> bytes panics" where
  "raise_dense P d e [] = Some d"
| "raise_dense P d e (i # is) = do {
     val1 \<leftarrow> dense_get_register P d i;
     val2 \<leftarrow> dense_get_register P e i;
     d \<leftarrow> (if val2 > val1 then dense_set_register P d i val2 else Some d);
     raise_dense P d e is }"

text \<open>The arms of \<open>merge\<close> for a dense \<open>self\<close>; a sparse \<open>self\<close> meeting a dense other is converted first.\<close>

definition merge_into_dense :: "nat \<Rightarrow> bytes \<Rightarrow> hll_encoding \<Rightarrow> bytes panics" where
  "merge_into_dense P d other = (case other of
       Sparse s2 \<Rightarrow> raise_sparse P d (registers s2)
     | Dense d2 \<Rightarrow> raise_dense P d d2 [0..<num_registers P])"

definition hll_merge :: "nat \<Rightarrow> hll \<Rightarrow> hll \<Rightarrow> hll panics" where
  "hll_merge P h other = (case (encoding h, encoding other) of
       (Sparse s1, Sparse s2) \<Rightarrow>
         let s = sparse_merge s1 s2; h' = h \<lparr> encoding := Sparse s \<rparr> in
         if should_convert_to_dense s then convert_to_dense P h' else Some h'
     | (Sparse s1, Dense d2) \<Rightarrow> do {
         d \<leftarrow> from_sparse P s1;
         d \<leftarrow> merge_into_dense P d (Dense d2);
         Some (h \<lparr> encoding := Dense d \<rparr>) }
     | (Dense d1, e2) \<Rightarrow> do { d \<leftarrow> merge_into_dense P d1 e2; Some (h \<lparr> encoding := Dense d \<rparr>) })"

definition hll_get_register :: "nat \<Rightarrow> hll \<Rightarrow> nat \<Rightarrow> u8 panics" where
  "hll_get_register P h index = (case encoding h of
       Sparse s \<Rightarrow> Some (sparse_get_register s index)
     | Dense d \<Rightarrow> dense_get_register P d index)"

definition hll_set_register :: "nat \<Rightarrow> hll \<Rightarrow> nat \<Rightarrow> u8 \<Rightarrow> hll panics" where
  "hll_set_register P h index v = (case encoding h of
       Sparse s \<Rightarrow>
         let s' = fst (sparse_set_register s index v); h' = h \<lparr> encoding := Sparse s' \<rparr> in
         if should_convert_to_dense s' then convert_to_dense P h' else Some h'
     | Dense d \<Rightarrow> do { d \<leftarrow> dense_set_register P d index v; Some (h \<lparr> encoding := Dense d \<rparr>) })"

definition is_sparse :: "hll \<Rightarrow> bool" where
  "is_sparse h \<longleftrightarrow> (case encoding h of Sparse _ \<Rightarrow> True | Dense _ \<Rightarrow> False)"

fun hll_add_all :: "nat \<Rightarrow> (bytes \<Rightarrow> u64) \<Rightarrow> hll \<Rightarrow> bytes list \<Rightarrow> hll panics" where
  "hll_add_all P hash h [] = Some h"
| "hll_add_all P hash h (x # xs) = do { h \<leftarrow> hll_add P hash h x; hll_add_all P hash h xs }"

section \<open>Registers as bits of the array\<close>

definition sbit :: "bytes \<Rightarrow> nat \<Rightarrow> bool" where
  "sbit d n \<longleftrightarrow> n div 8 < length d \<and> bit (d ! (n div 8)) (n mod 8)"

lemma combined_bit:
  assumes "b < length d"
  shows "\<exists>w. combined d b = Some w \<and> (\<forall>k. bit w k \<longleftrightarrow> k < 16 \<and> sbit d (8 * b + k))"
proof -
  let ?b2 = "if b + 1 < length d then d ! (b + 1) else 0"
  let ?w = "ucast (d ! b) OR push_bit 8 (ucast ?b2) :: u16"
  have "bit ?w k \<longleftrightarrow> k < 16 \<and> sbit d (8 * b + k)" for k
  proof -
    consider "k < 8" | "8 \<le> k" "k < 16" | "16 \<le> k" by linarith
    then show ?thesis
    proof cases
      case 1
      then have "(8 * b + k) div 8 = b" "(8 * b + k) mod 8 = k" by simp_all
      with 1 assms show ?thesis
        by (simp add: sbit_def bit_or_iff bit_push_bit_iff bit_ucast_iff)
    next
      case 2
      define m where "m = k - 8"
      have m: "k = 8 + m" "m < 8" using 2 by (simp_all add: m_def)
      then have "(8 * b + k) div 8 = b + 1" "(8 * b + k) mod 8 = m" by simp_all
      with m show ?thesis
        by (auto simp: sbit_def bit_or_iff bit_push_bit_iff bit_ucast_iff dest: bit_imp_le_length)
    next
      case 3
      then show ?thesis by (auto dest: bit_imp_le_length)
    qed
  qed
  then show ?thesis using assms by (simp add: combined_def)
qed

lemma mask6: "(0x3F :: u16) = mask 6"
  by (simp add: mask_eq_exp_minus_1)

lemma dense_bits: "2 \<le> P \<Longrightarrow> 8 * dense_size P = 6 * num_registers P"
proof -
  assume "2 \<le> P"
  then obtain m where "P = m + 2" by (metis add.commute le_Suc_ex)
  then show ?thesis by (simp add: dense_size_def num_registers_def power_add)
qed

lemma dense_get_bits:
  assumes "length d = dense_size P" "2 \<le> P" "i < num_registers P"
  shows "\<exists>v. dense_get_register P d i = Some v \<and> (\<forall>j. bit v j \<longleftrightarrow> j < 6 \<and> sbit d (6 * i + j))"
proof -
  have l: "8 * length d = 6 * num_registers P" using dense_bits assms by simp
  define b where "b = i * 6 div 8"
  define off where "off = i * 6 mod 8"
  have i6: "6 * i = 8 * b + off" unfolding b_def off_def by presburger
  have off: "off \<le> 6" unfolding off_def by presburger
  have b: "b < length d" using l assms(3) by (simp add: b_def)
  obtain w where w: "combined d b = Some w" "\<And>k. bit w k \<longleftrightarrow> k < 16 \<and> sbit d (8 * b + k)"
    using combined_bit[OF b] by blast
  have "bit (ucast (drop_bit off w AND 0x3F) :: u8) j \<longleftrightarrow> j < 6 \<and> sbit d (6 * i + j)" for j
    using off unfolding mask6
    by (auto simp: bit_ucast_iff bit_and_iff bit_drop_bit_eq bit_mask_iff w i6 add.assoc)
  then show ?thesis using assms(3) w by (simp add: dense_get_register_def Let_def b_def off_def)
qed

lemma dense_set_bits:
  assumes "length d = dense_size P" "2 \<le> P" "i < num_registers P" "v \<le> 63"
  shows "\<exists>d'. dense_set_register P d i v = Some d' \<and> length d' = length d \<and>
    (\<forall>n. sbit d' n \<longleftrightarrow> (if 6 * i \<le> n \<and> n < 6 * i + 6 then bit v (n - 6 * i) else sbit d n))"
proof -
  have l: "8 * length d = 6 * num_registers P" using dense_bits assms by simp
  define b where "b = i * 6 div 8"
  define off where "off = i * 6 mod 8"
  have i6: "6 * i = 8 * b + off" unfolding b_def off_def by presburger
  have off: "off \<le> 6" unfolding off_def by presburger
  have b: "b < length d" using l assms(3) by (simp add: b_def)
  have fit: "8 * b + off + 6 \<le> 8 * length d" using i6 l assms(3) by linarith
  obtain w where w: "combined d b = Some w" "\<And>k. bit w k \<longleftrightarrow> k < 16 \<and> sbit d (8 * b + k)"
    using combined_bit[OF b] by blast
  define w' where "w' = (w AND NOT (push_bit off 0x3F)) OR push_bit off (ucast v AND 0x3F)"
  have w'b: "bit w' k \<longleftrightarrow> k < 16 \<and> (if off \<le> k \<and> k < off + 6 then bit v (k - off) else sbit d (8 * b + k))" for k
  proof (cases "k < 16")
    case True
    then show ?thesis using off unfolding w'_def mask6
      by (auto simp: bit_or_iff bit_and_iff bit_not_iff bit_push_bit_iff bit_ucast_iff bit_mask_iff w)
  next
    case False
    then show ?thesis by (auto dest: bit_imp_le_length)
  qed
  let ?lo = "ucast (w' AND 0xFF) :: u8" and ?hi = "ucast (drop_bit 8 w') :: u8"
  have m8: "(0xFF :: u16) = mask 8" by (simp add: mask_eq_exp_minus_1)
  have lo: "bit ?lo k \<longleftrightarrow> k < 8 \<and> bit w' k" for k
    unfolding m8 by (auto simp: bit_ucast_iff bit_and_iff bit_mask_iff)
  have hi: "bit ?hi k \<longleftrightarrow> k < 8 \<and> bit w' (8 + k)" for k
    by (auto simp: bit_ucast_iff bit_drop_bit_eq)
  define d' where "d' = (let d1 = d[b := ?lo] in if b + 1 < length d then d1[b + 1 := ?hi] else d1)"
  have run: "dense_set_register P d i v = Some d'"
    using assms(3,4) w(1) b
    by (simp add: dense_set_register_def Let_def d'_def w'_def b_def off_def upd_def)
  have len: "length d' = length d" by (simp add: d'_def Let_def)
  have bits: "sbit d' n \<longleftrightarrow> (if 6 * i \<le> n \<and> n < 6 * i + 6 then bit v (n - 6 * i) else sbit d n)" for n
  proof -
    define m where "m = n mod 8"
    have m: "m < 8" by (simp add: m_def)
    consider "n = 8 * b + m" | "n = 8 * (b + 1) + m" | "n div 8 \<noteq> b" "n div 8 \<noteq> b + 1"
      by (metis m_def mult_div_mod_eq)
    then show ?thesis
    proof cases
      case 1
      have "sbit d' n \<longleftrightarrow> bit w' m"
        using 1 m b len by (simp add: sbit_def d'_def Let_def lo)
      then show ?thesis using 1 m off by (auto simp: w'b i6)
    next
      case 2
      show ?thesis
      proof (cases "b + 1 < length d")
        case True
        have nd: "n div 8 = b + 1" "n mod 8 = m" using 2 m by (simp_all only: div_mult_self4 mod_mult_self4) simp_all
        with True have "sbit d' n \<longleftrightarrow> bit w' (8 + m)"
          using nd m b len by (simp add: sbit_def d'_def Let_def hi)
        moreover have "n = 8 * b + (8 + m)" using 2 by simp
        ultimately show ?thesis using m off by (auto simp: w'b i6)
      next
        case False
        then have "length d = b + 1" using b by simp
        then have "off \<le> 2" "n \<ge> 8 * length d" using fit 2 by simp_all
        moreover have "\<not> n div 8 < length d" using \<open>n \<ge> 8 * length d\<close> by linarith
        then have "\<not> sbit d' n" "\<not> sbit d n" using len by (simp_all add: sbit_def)
        ultimately show ?thesis using 2 i6 by auto
      qed
    next
      case 3
      then have "sbit d' n \<longleftrightarrow> sbit d n" using len by (auto simp: sbit_def d'_def Let_def nth_list_update)
      moreover have "\<not> (6 * i \<le> n \<and> n < 6 * i + 6)"
      proof
        assume "6 * i \<le> n \<and> n < 6 * i + 6"
        then have "8 * b \<le> n" "n < 8 * b + 16" using i6 off by linarith+
        then have "n div 8 = b \<or> n div 8 = b + 1" by linarith
        with 3 show False by simp
      qed
      ultimately show ?thesis by auto
    qed
  qed
  show ?thesis using run len bits by blast
qed

lemma value_bits_lt: "(v :: u8) \<le> 63 \<Longrightarrow> bit v j \<Longrightarrow> j < 6"
proof -
  assume v: "v \<le> 63" and b: "bit v j"
  have "bit (unat v) j" using b by (simp add: bit_unsigned_iff)
  then have "unat v div 2 ^ j \<noteq> 0" by (metis bit_iff_odd even_zero)
  then have "2 ^ j \<le> unat v" by (metis div_less not_le)
  moreover have "unat v < 2 ^ 6" using v by (simp add: word_le_nat_alt)
  ultimately have "(2 :: nat) ^ j < 2 ^ 6" by (rule le_less_trans)
  then show "j < 6" by (rule power_less_imp_less_exp[rotated]) simp
qed

lemma dense_get_set:
  assumes "length d = dense_size P" "2 \<le> P" "i < num_registers P" "v \<le> 63"
  shows "\<exists>d'. dense_set_register P d i v = Some d' \<and> length d' = length d \<and>
    (\<forall>j. dense_get_register P d' j = (if j = i then Some v else dense_get_register P d j))"
proof -
  obtain d' where d': "dense_set_register P d i v = Some d'" "length d' = length d"
    and bits: "\<And>n. sbit d' n \<longleftrightarrow> (if 6 * i \<le> n \<and> n < 6 * i + 6 then bit v (n - 6 * i) else sbit d n)"
    using dense_set_bits[OF assms] by blast
  have "dense_get_register P d' j = (if j = i then Some v else dense_get_register P d j)" for j
  proof (cases "j < num_registers P")
    case True
    obtain a where a: "dense_get_register P d' j = Some a" "\<And>k. bit a k \<longleftrightarrow> k < 6 \<and> sbit d' (6 * j + k)"
      using dense_get_bits[of d' P j] d' assms True by auto
    obtain c where c: "dense_get_register P d j = Some c" "\<And>k. bit c k \<longleftrightarrow> k < 6 \<and> sbit d (6 * j + k)"
      using dense_get_bits[of d P j] assms True by auto
    show ?thesis
    proof (cases "j = i")
      case True
      have "a = v" by (rule bit_eqI) (auto simp: a bits True value_bits_lt[OF assms(4)])
      then show ?thesis using True a by simp
    next
      case False
      have "a = c" by (rule bit_eqI) (use False in \<open>auto simp: a c bits\<close>)
      then show ?thesis using False a c by simp
    qed
  next
    case False
    then show ?thesis using assms(3) by (auto simp: dense_get_register_def)
  qed
  then show ?thesis using d' by blast
qed

lemma dense_get_new:
  assumes "2 \<le> P" "i < num_registers P"
  shows "dense_get_register P (dense_new P) i = Some 0"
proof -
  have l: "length (dense_new P) = dense_size P" by (simp add: dense_new_def)
  obtain v where v: "dense_get_register P (dense_new P) i = Some v"
    and b: "\<And>j. bit v j \<longleftrightarrow> j < 6 \<and> sbit (dense_new P) (6 * i + j)"
    using dense_get_bits[OF l assms] by blast
  have "v = 0" by (rule bit_eqI) (auto simp: b sbit_def dense_new_def)
  then show ?thesis using v by simp
qed

section \<open>The ordered map of a sparse sketch\<close>

lemma bt_insert_map_of:
  assumes "sorted_wrt (<) (map fst kvs)"
  shows "map_of (bt_insert k v kvs) = (map_of kvs)(k \<mapsto> v)"
  using assms
proof (induction kvs)
  case (Cons p kvs)
  obtain x y where p: "p = (x, y)" by force
  have IH: "map_of (bt_insert k v kvs) = (map_of kvs)(k \<mapsto> v)" using Cons.IH Cons.prems by auto
  have above: "\<forall>z \<in> set kvs. x < fst z" using Cons.prems p by auto
  consider "x < k" | "x = k" | "k < x" by fastforce
  then show ?case
  proof cases
    case 1
    then have "bt_insert k v (p # kvs) = p # bt_insert k v kvs" by (simp add: bt_insert_def p)
    then show ?thesis using IH 1 p by auto
  next
    case 2
    then have "dropWhile (\<lambda>(x, _). x \<le> k) kvs = kvs" using above by (cases kvs) auto
    then show ?thesis using 2 p by (auto simp: bt_insert_def)
  next
    case 3
    then show ?thesis using p by (auto simp: bt_insert_def)
  qed
qed (simp add: bt_insert_def)

lemma bt_insert_set: "set (bt_insert k v kvs) \<subseteq> insert (k, v) (set kvs)"
  by (auto simp: bt_insert_def dest: set_takeWhileD set_dropWhileD)

lemma bt_insert_sorted:
  assumes "sorted_wrt (<) (map fst kvs)"
  shows "sorted_wrt (<) (map fst (bt_insert k v kvs))"
  using assms
proof (induction kvs)
  case (Cons p kvs)
  obtain x y where p: "p = (x, y)" by force
  have IH: "sorted_wrt (<) (map fst (bt_insert k v kvs))" using Cons.IH Cons.prems by auto
  have above: "\<forall>z \<in> set kvs. x < fst z" using Cons.prems p by auto
  consider "x < k" | "x = k" | "k < x" by fastforce
  then show ?case
  proof cases
    case 1
    then have "bt_insert k v (p # kvs) = p # bt_insert k v kvs" by (simp add: bt_insert_def p)
    then show ?thesis using IH 1 p above bt_insert_set[of k v kvs] by auto
  next
    case 2
    then have "dropWhile (\<lambda>(x, _). x \<le> k) kvs = kvs" using above by (cases kvs) auto
    then show ?thesis using 2 p Cons.prems by (auto simp: bt_insert_def)
  next
    case 3
    then show ?thesis using p Cons.prems by (fastforce simp: bt_insert_def)
  qed
qed (simp add: bt_insert_def)

section \<open>The registers of a sketch\<close>

text \<open>The sketch \<open>h\<close> has the register values \<open>r\<close>, in either encoding.\<close>

definition hll_regs :: "nat \<Rightarrow> hll \<Rightarrow> (nat \<Rightarrow> u8) \<Rightarrow> bool" where
  "hll_regs P h r \<longleftrightarrow> (\<forall>i. r i \<le> 63) \<and> (case encoding h of
       Sparse s \<Rightarrow> sorted_wrt (<) (map fst (registers s)) \<and>
         (\<forall>k v. (k, v) \<in> set (registers s) \<longrightarrow> k < num_registers P \<and> 0 < v) \<and>
         (\<forall>i. sparse_get_register s i = r i)
     | Dense d \<Rightarrow> length d = dense_size P \<and>
         (\<forall>i < num_registers P. dense_get_register P d i = Some (r i)))"

lemma sparse_get_set:
  assumes "sorted_wrt (<) (map fst (registers s))"
  shows "sparse_get_register (fst (sparse_set_register s k v)) i =
           (if i = k then max (sparse_get_register s k) v else sparse_get_register s i)"
proof -
  have "max (sparse_get_register s k) v =
          (if v = 0 then sparse_get_register s k
           else case map_of (registers s) k of Some c \<Rightarrow> if c \<ge> v then c else v | None \<Rightarrow> v)"
    by (auto simp: sparse_get_register_def max_def word_gt_0 split: option.split)
  then show ?thesis using assms
    by (auto simp: sparse_set_register_def sparse_get_register_def bt_insert_map_of split: option.splits)
qed

lemma sparse_set_inv:
  assumes "sorted_wrt (<) (map fst (registers s))"
    and "\<forall>k v. (k, v) \<in> set (registers s) \<longrightarrow> k < n \<and> 0 < v" "i < n"
  shows "sorted_wrt (<) (map fst (registers (fst (sparse_set_register s i v)))) \<and>
    (\<forall>k w. (k, w) \<in> set (registers (fst (sparse_set_register s i v))) \<longrightarrow> k < n \<and> 0 < w)"
proof (cases "v = 0")
  case False
  then have "0 < v" by (simp add: word_gt_0)
  then show ?thesis
    using assms bt_insert_sorted[OF assms(1), of i v] bt_insert_set[of i v "registers s"]
    by (auto simp: sparse_set_register_def)
qed (use assms in \<open>simp add: sparse_set_register_def\<close>)

lemma set_all_regs:
  assumes "2 \<le> P" "length d = dense_size P"
    and "\<forall>i < num_registers P. dense_get_register P d i = Some (r i)"
    and "\<forall>(k, v) \<in> set kvs. k < num_registers P \<and> v \<le> 63" "distinct (map fst kvs)"
  shows "\<exists>d'. set_all P d kvs = Some d' \<and> length d' = dense_size P \<and>
    (\<forall>i < num_registers P. dense_get_register P d' i =
       Some (case map_of kvs i of Some v \<Rightarrow> v | None \<Rightarrow> r i))"
  using assms(2-)
proof (induction kvs arbitrary: d r)
  case (Cons p kvs)
  obtain k v where p: "p = (k, v)" by force
  obtain d1 where d1: "dense_set_register P d k v = Some d1" "length d1 = dense_size P"
    and g: "\<And>j. dense_get_register P d1 j = (if j = k then Some v else dense_get_register P d j)"
    using dense_get_set[of d P k v] assms(1) Cons.prems p by auto
  have r1: "\<forall>i < num_registers P. dense_get_register P d1 i = Some ((r(k := v)) i)"
    using g Cons.prems(2) by simp
  obtain d' where d': "set_all P d1 kvs = Some d'" "length d' = dense_size P"
    "\<forall>i < num_registers P. dense_get_register P d' i =
       Some (case map_of kvs i of Some v \<Rightarrow> v | None \<Rightarrow> (r(k := v)) i)"
    using Cons.IH[OF d1(2) r1] Cons.prems by auto
  have "map_of kvs k = None" using Cons.prems(4) p by (simp add: map_of_eq_None_iff)
  then have "Some (case map_of (p # kvs) i of Some v \<Rightarrow> v | None \<Rightarrow> r i) =
      Some (case map_of kvs i of Some v \<Rightarrow> v | None \<Rightarrow> (r(k := v)) i)" for i
    using p by (auto split: option.split)
  then show ?case using d1 d' p by simp
qed simp

lemma from_sparse_regs:
  assumes "2 \<le> P" "hll_regs P h r" "encoding h = Sparse s"
  shows "\<exists>d. from_sparse P s = Some d \<and> length d = dense_size P \<and>
    (\<forall>i < num_registers P. dense_get_register P d i = Some (r i))"
proof -
  have s: "sorted_wrt (<) (map fst (registers s))" and rng: "\<And>k v. (k, v) \<in> set (registers s) \<Longrightarrow> k < num_registers P"
    and r: "\<And>i. sparse_get_register s i = r i" "\<And>i. r i \<le> 63"
    using assms(2,3) by (auto simp: hll_regs_def)
  have dist: "distinct (map fst (registers s))" using strict_sorted_distinct[OF s] .
  have "\<forall>(k, v) \<in> set (registers s). k < num_registers P \<and> v \<le> 63"
  proof clarify
    fix k v assume kv: "(k, v) \<in> set (registers s)"
    then have "v = r k" using dist r(1)[of k] by (simp add: sparse_get_register_def map_of_eq_Some_iff)
    then show "k < num_registers P \<and> v \<le> 63" using rng[OF kv] r(2) by simp
  qed
  from set_all_regs[OF assms(1) _ _ this dist, of "dense_new P" "\<lambda>_. 0"]
  obtain d where "set_all P (dense_new P) (registers s) = Some d" "length d = dense_size P"
    "\<forall>i < num_registers P. dense_get_register P d i =
       Some (case map_of (registers s) i of Some v \<Rightarrow> v | None \<Rightarrow> 0)"
    using dense_get_new[OF assms(1)] by (auto simp: dense_new_def)
  then show ?thesis using r(1) by (simp add: from_sparse_def sparse_get_register_def)
qed

lemma convert_regs:
  assumes "2 \<le> P" "hll_regs P h r"
  shows "\<exists>h'. convert_to_dense P h = Some h' \<and> hll_regs P h' r \<and> \<not> is_sparse h'"
proof (cases "encoding h")
  case (Sparse s)
  with from_sparse_regs[OF assms Sparse] assms(2) show ?thesis
    by (auto simp: convert_to_dense_def hll_regs_def is_sparse_def)
next
  case (Dense d)
  then show ?thesis using assms(2) by (simp add: convert_to_dense_def is_sparse_def)
qed

lemma hll_regs_get:
  assumes "hll_regs P h r" "i < num_registers P"
  shows "hll_get_register P h i = Some (r i)"
  using assms by (auto simp: hll_regs_def hll_get_register_def split: hll_encoding.splits)

lemma hll_regs_new: "hll_regs P (hll_with_threshold t) (\<lambda>_. 0)"
  by (simp add: hll_regs_def hll_with_threshold_def sparse_with_threshold_def sparse_get_register_def)

lemma max_le_63: "(a :: u8) \<le> 63 \<Longrightarrow> b \<le> 63 \<Longrightarrow> max a b \<le> 63"
  by simp

lemma index_and_rho_range:
  assumes "4 \<le> P" "P \<le> 18"
  shows "fst (index_and_rho P x) < num_registers P \<and> 0 < snd (index_and_rho P x) \<and> snd (index_and_rho P x) \<le> 63"
proof -
  let ?m = "min (leading_zeros (push_bit P x) + 1) (64 - P + 1)"
  have "unat x < 2 ^ 64" using unsigned_less[of x] by simp
  also have "(2 :: nat) ^ 64 = 2 ^ (64 - P) * 2 ^ P" using assms by (simp flip: power_add)
  finally have "unat x div 2 ^ (64 - P) < 2 ^ P" by (simp add: less_mult_imp_div_less mult.commute)
  moreover have m: "0 < ?m" "?m \<le> 61" using assms by auto
  have un: "unat (of_nat m :: u8) = m" if "m \<le> 61" for m
    using that by (simp add: unat_of_nat)
  have "unat (of_nat ?m :: u8) = ?m" using m(2) by (rule un)
  moreover have "unat (drop_bit (64 - P) x) = unat x div 2 ^ (64 - P)"
    unfolding unat_drop_bit_eq by (rule drop_bit_eq_div)
  ultimately show ?thesis using m
    unfolding index_and_rho_def num_registers_def fst_conv snd_conv word_less_nat_alt word_le_nat_alt
    by simp
qed

lemma hll_add_regs:
  assumes "4 \<le> P" "P \<le> 18" "hll_regs P h r" "index_and_rho P (hash x) = (k, rho)"
  shows "\<exists>h'. hll_add P hash h x = Some h' \<and> hll_regs P h' (r(k := max (r k) rho))"
proof -
  have k: "k < num_registers P" "0 < rho" "rho \<le> 63"
    using index_and_rho_range[OF assms(1,2), of "hash x"] assms(4) by simp_all
  have P2: "2 \<le> P" using assms(1) by simp
  have r63: "r i \<le> 63" for i using assms(3) by (simp add: hll_regs_def)
  have noop: "\<not> rho > r k \<Longrightarrow> r(k := max (r k) rho) = r" by (auto simp: max_def)
  show ?thesis
  proof (cases "encoding h")
    case (Sparse s)
    have s: "sorted_wrt (<) (map fst (registers s))"
      "\<forall>k v. (k, v) \<in> set (registers s) \<longrightarrow> k < num_registers P \<and> 0 < v"
      "\<And>i. sparse_get_register s i = r i"
      using assms(3) Sparse by (auto simp: hll_regs_def)
    let ?h = "h \<lparr> encoding := Sparse (fst (sparse_set_register s k rho)) \<rparr>"
    have "hll_regs P ?h (r(k := max (r k) rho))"
      using sparse_set_inv[OF s(1,2) k(1), of rho] r63 k(3) s(3)
      by (simp add: hll_regs_def sparse_get_set[OF s(1)])
    with convert_regs[OF P2 this] show ?thesis
      using assms(3,4) noop s(3) by (auto simp: hll_add_def Sparse Let_def)
  next
    case (Dense d)
    have d: "length d = dense_size P" "\<forall>i < num_registers P. dense_get_register P d i = Some (r i)"
      using assms(3) Dense by (auto simp: hll_regs_def)
    obtain d' where "dense_set_register P d k rho = Some d'" "length d' = dense_size P"
      "\<And>j. dense_get_register P d' j = (if j = k then Some rho else dense_get_register P d j)"
      using dense_get_set[OF d(1) P2 k(1,3)] d(1) by auto
    then show ?thesis
      using assms(3,4) d k noop r63 by (auto simp: hll_add_def Dense hll_regs_def max_def)
  qed
qed

lemma sparse_merge_regs:
  assumes "sorted_wrt (<) (map fst (registers s))"
    "\<forall>k v. (k, v) \<in> set (registers s) \<longrightarrow> k < n \<and> 0 < v"
    "\<forall>k v. (k, v) \<in> set kvs \<longrightarrow> k < n \<and> 0 < v" "distinct (map fst kvs)"
  shows "let s' = sparse_merge_loop s kvs in
    sorted_wrt (<) (map fst (registers s')) \<and> (\<forall>k v. (k, v) \<in> set (registers s') \<longrightarrow> k < n \<and> 0 < v) \<and>
    (\<forall>i. sparse_get_register s' i = max (sparse_get_register s i) (case map_of kvs i of Some v \<Rightarrow> v | None \<Rightarrow> 0))"
  using assms
proof (induction kvs arbitrary: s)
  case (Cons p kvs)
  obtain k v where p: "p = (k, v)" by force
  let ?s = "fst (sparse_set_register s k v)"
  have k: "k < n" using Cons.prems(3) p by auto
  have "map_of kvs k = None" using Cons.prems(4) p by (simp add: map_of_eq_None_iff)
  then have g: "max (sparse_get_register ?s i) (case map_of kvs i of Some v \<Rightarrow> v | None \<Rightarrow> 0) =
      max (sparse_get_register s i) (case map_of (p # kvs) i of Some v \<Rightarrow> v | None \<Rightarrow> 0)" for i
    using p by (auto simp: sparse_get_set[OF Cons.prems(1)] max.absorb1 split: option.split)
  note inv = sparse_set_inv[OF Cons.prems(1,2) k, of v]
  have pre: "\<forall>k v. (k, v) \<in> set kvs \<longrightarrow> k < n \<and> 0 < v" "distinct (map fst kvs)"
    using Cons.prems(3,4) by auto
  have "sparse_merge_loop s (p # kvs) = sparse_merge_loop ?s kvs" using p by simp
  then show ?case
    using Cons.IH[OF conjunct1[OF inv] conjunct2[OF inv] pre] unfolding Let_def g by simp
qed (auto simp: max.absorb1)

lemma raise_regs:
  assumes "2 \<le> P" "length d = dense_size P" "\<forall>i < num_registers P. dense_get_register P d i = Some (r i)"
    "k < num_registers P" "v \<le> 63"
  shows "\<exists>d'. (if v > r k then dense_set_register P d k v else Some d) = Some d' \<and> length d' = dense_size P \<and>
    (\<forall>i < num_registers P. dense_get_register P d' i = Some ((r(k := max (r k) v)) i))"
  using dense_get_set[OF assms(2,1,4,5)] assms by (auto simp: max_def)

lemma raise_sparse_regs:
  assumes "2 \<le> P" "length d = dense_size P" "\<forall>i < num_registers P. dense_get_register P d i = Some (r i)"
    "\<forall>(k, v) \<in> set kvs. k < num_registers P \<and> v \<le> 63" "distinct (map fst kvs)"
  shows "\<exists>d'. raise_sparse P d kvs = Some d' \<and> length d' = dense_size P \<and>
    (\<forall>i < num_registers P. dense_get_register P d' i =
       Some (max (r i) (case map_of kvs i of Some v \<Rightarrow> v | None \<Rightarrow> 0)))"
  using assms(2-)
proof (induction kvs arbitrary: d r)
  case (Cons p kvs)
  obtain k v where p: "p = (k, v)" by force
  have k: "k < num_registers P" "v \<le> 63" using Cons.prems(3) p by auto
  obtain d1 where d1: "(if v > r k then dense_set_register P d k v else Some d) = Some d1" "length d1 = dense_size P"
    "\<forall>i < num_registers P. dense_get_register P d1 i = Some ((r(k := max (r k) v)) i)"
    using raise_regs[OF assms(1) Cons.prems(1,2) k] by blast
  have "map_of kvs k = None" using Cons.prems(4) p by (simp add: map_of_eq_None_iff)
  then have g: "max ((r(k := max (r k) v)) i) (case map_of kvs i of Some v \<Rightarrow> v | None \<Rightarrow> 0) =
      max (r i) (case map_of (p # kvs) i of Some v \<Rightarrow> v | None \<Rightarrow> 0)" for i
    using p by (auto simp: max.absorb1 split: option.split)
  have "raise_sparse P d (p # kvs) = raise_sparse P d1 kvs"
    using d1(1) Cons.prems(2) k p by simp
  then show ?case using Cons.IH[OF d1(2,3)] Cons.prems by (simp only: g) auto
qed (auto simp: max.absorb1)

lemma raise_dense_regs:
  assumes "2 \<le> P" "length d = dense_size P" "\<forall>i < num_registers P. dense_get_register P d i = Some (r i)"
    "\<forall>i < num_registers P. dense_get_register P e i = Some (q i)" "\<forall>i. q i \<le> 63"
    "\<forall>i \<in> set is. i < num_registers P"
  shows "\<exists>d'. raise_dense P d e is = Some d' \<and> length d' = dense_size P \<and>
    (\<forall>i < num_registers P. dense_get_register P d' i = Some (if i \<in> set is then max (r i) (q i) else r i))"
  using assms(2,3,6)
proof (induction "is" arbitrary: d r)
  case (Cons k ks)
  have k: "k < num_registers P" "q k \<le> 63" using Cons.prems(3) assms(5) by auto
  obtain d1 where d1: "(if q k > r k then dense_set_register P d k (q k) else Some d) = Some d1" "length d1 = dense_size P"
    "\<forall>i < num_registers P. dense_get_register P d1 i = Some ((r(k := max (r k) (q k))) i)"
    using raise_regs[OF assms(1) Cons.prems(1,2) k] by blast
  have g: "(if i \<in> set ks then max ((r(k := max (r k) (q k))) i) (q i) else (r(k := max (r k) (q k))) i) =
      (if i \<in> set (k # ks) then max (r i) (q i) else r i)" for i
    by auto
  have "raise_dense P d e (k # ks) = raise_dense P d1 e ks"
    using d1(1) Cons.prems(2) k assms(4) by simp
  then show ?case using Cons.IH[OF d1(2,3)] Cons.prems(3) by (simp only: g) auto
qed auto

lemma sparse_regs_distinct:
  assumes "hll_regs P h r" "encoding h = Sparse s"
  shows "sorted_wrt (<) (map fst (registers s)) \<and> distinct (map fst (registers s)) \<and>
    (\<forall>(k, v) \<in> set (registers s). k < num_registers P \<and> v \<le> 63) \<and>
    (\<forall>k v. (k, v) \<in> set (registers s) \<longrightarrow> k < num_registers P \<and> 0 < v) \<and>
    (\<forall>i. (case map_of (registers s) i of Some v \<Rightarrow> v | None \<Rightarrow> 0) = r i)"
proof -
  have s: "sorted_wrt (<) (map fst (registers s))"
    and rng: "\<And>k v. (k, v) \<in> set (registers s) \<Longrightarrow> k < num_registers P \<and> 0 < v"
    and r: "\<And>i. sparse_get_register s i = r i" "\<And>i. r i \<le> 63"
    using assms by (auto simp: hll_regs_def)
  have dist: "distinct (map fst (registers s))" using strict_sorted_distinct[OF s] .
  have "v \<le> 63" if "(k, v) \<in> set (registers s)" for k v
    using that dist r(1)[of k] r(2)[of k] by (simp add: sparse_get_register_def map_of_eq_Some_iff)
  then show ?thesis using s dist rng r(1) by (auto simp: sparse_get_register_def)
qed

lemma merge_into_dense_regs:
  assumes "2 \<le> P" "length d = dense_size P" "\<forall>i < num_registers P. dense_get_register P d i = Some (r i)"
    "hll_regs P g q"
  shows "\<exists>d'. merge_into_dense P d (encoding g) = Some d' \<and> length d' = dense_size P \<and>
    (\<forall>i < num_registers P. dense_get_register P d' i = Some (max (r i) (q i)))"
proof (cases "encoding g")
  case (Sparse s)
  then show ?thesis
    using raise_sparse_regs[OF assms(1-3), of "registers s"] sparse_regs_distinct[OF assms(4) Sparse]
    by (auto simp: merge_into_dense_def)
next
  case (Dense e)
  then have "\<forall>i < num_registers P. dense_get_register P e i = Some (q i)" "\<forall>i. q i \<le> 63"
    using assms(4) by (auto simp: hll_regs_def)
  from raise_dense_regs[OF assms(1-3) this, of "[0..<num_registers P]"] show ?thesis
    using Dense by (auto simp: merge_into_dense_def)
qed

lemma hll_merge_regs:
  assumes "2 \<le> P" "hll_regs P h r" "hll_regs P g q"
  shows "\<exists>h'. hll_merge P h g = Some h' \<and> hll_regs P h' (\<lambda>i. max (r i) (q i))"
proof -
  have le63: "\<forall>i. max (r i) (q i) \<le> 63" using assms(2,3) by (simp add: hll_regs_def)
  show ?thesis
  proof (cases "encoding h")
    case (Sparse s)
    note s = sparse_regs_distinct[OF assms(2) Sparse]
    show ?thesis
    proof (cases "encoding g")
      case S: (Sparse s2)
      note s2 = sparse_regs_distinct[OF assms(3) S]
      let ?h = "h \<lparr> encoding := Sparse (sparse_merge s s2) \<rparr>"
      have "hll_regs P ?h (\<lambda>i. max (r i) (q i))"
        using sparse_merge_regs[of s "num_registers P" "registers s2"] s s2 le63
        by (auto simp: hll_regs_def sparse_merge_def sparse_get_register_def Let_def)
      with convert_regs[OF assms(1) this] show ?thesis
        by (auto simp: hll_merge_def Sparse S Let_def)
    next
      case (Dense e)
      obtain d where d: "from_sparse P s = Some d" "length d = dense_size P"
        "\<forall>i < num_registers P. dense_get_register P d i = Some (r i)"
        using from_sparse_regs[OF assms(1,2) Sparse] by blast
      from merge_into_dense_regs[OF assms(1) d(2,3) assms(3)] show ?thesis
        using d(1) Dense le63 by (auto simp: hll_merge_def Sparse hll_regs_def)
    qed
  next
    case (Dense d)
    then have "length d = dense_size P" "\<forall>i < num_registers P. dense_get_register P d i = Some (r i)"
      using assms(2) by (auto simp: hll_regs_def)
    from merge_into_dense_regs[OF assms(1) this assms(3)] show ?thesis
      using Dense le63 by (auto simp: hll_merge_def hll_regs_def)
  qed
qed

text \<open>The reference: every register is the greatest rank hashed to it.\<close>

definition max_rank :: "nat \<Rightarrow> (bytes \<Rightarrow> u64) \<Rightarrow> bytes set \<Rightarrow> nat \<Rightarrow> u8" where
  "max_rank P hash X i = Max (insert 0 (snd ` Set.filter (\<lambda>p. fst p = i) ((\<lambda>x. index_and_rho P (hash x)) ` X)))"

lemma max_rank_insert:
  assumes "finite X" "index_and_rho P (hash x) = (k, rho)"
  shows "max_rank P hash (insert x X) = (max_rank P hash X)(k := max (max_rank P hash X k) rho)"
proof
  fix i
  let ?S = "snd ` Set.filter (\<lambda>p. fst p = i) ((\<lambda>x. index_and_rho P (hash x)) ` X)"
  have fin: "finite ?S" using assms(1) by simp
  have "snd ` Set.filter (\<lambda>p. fst p = i) ((\<lambda>x. index_and_rho P (hash x)) ` insert x X) =
          (if k = i then insert rho ?S else ?S)"
    using assms(2) by (auto simp: image_iff)
  then have "max_rank P hash (insert x X) i = (if k = i then Max (insert rho (insert 0 ?S)) else Max (insert 0 ?S))"
    by (simp only: max_rank_def) (simp add: insert_commute)
  also have "\<dots> = ((max_rank P hash X)(k := max (max_rank P hash X k) rho)) i"
    using fin by (simp add: max_rank_def max.commute del: Max_insert) (simp add: Max_insert fin max.commute)
  finally show "max_rank P hash (insert x X) i = ((max_rank P hash X)(k := max (max_rank P hash X k) rho)) i" .
qed

lemma max_rank_union:
  assumes "finite X" "finite Y"
  shows "max_rank P hash (X \<union> Y) i = max (max_rank P hash X i) (max_rank P hash Y i)"
  using assms(2)
proof induction
  case empty
  then show ?case by (simp add: max_rank_def)
next
  case (insert y Y)
  obtain k rho where ir: "index_and_rho P (hash y) = (k, rho)" by force
  show ?case
    using insert max_rank_insert[where hash = hash, OF _ ir] assms(1)
    by (auto simp: max.assoc)
qed

lemma hll_add_all_regs:
  assumes "4 \<le> P" "P \<le> 18" "hll_regs P h (max_rank P hash X)" "finite X"
  shows "\<exists>h'. hll_add_all P hash h xs = Some h' \<and> hll_regs P h' (max_rank P hash (X \<union> set xs))"
  using assms(3,4)
proof (induction xs arbitrary: h X)
  case (Cons x xs)
  obtain k rho where ir: "index_and_rho P (hash x) = (k, rho)" by force
  obtain h1 where h1: "hll_add P hash h x = Some h1" "hll_regs P h1 (max_rank P hash (insert x X))"
    using hll_add_regs[where hash = hash, OF assms(1,2) Cons.prems(1) ir] max_rank_insert[where hash = hash, OF Cons.prems(2) ir] by auto
  show ?case using Cons.IH[OF h1(2)] Cons.prems(2) h1(1) by simp
qed simp

lemma hll_added:
  assumes "4 \<le> P" "P \<le> 18"
  shows "\<exists>h. hll_add_all P hash (hll_with_threshold t) xs = Some h \<and> hll_regs P h (max_rank P hash (set xs))"
proof -
  have "max_rank P hash {} = (\<lambda>_. 0)" by (auto simp: max_rank_def)
  then show ?thesis using hll_add_all_regs[OF assms, of "hll_with_threshold t" hash "{}" xs] hll_regs_new by simp
qed

section \<open>Properties\<close>

text \<open>C31. For every precision the source admits and every threshold of the sparse encoding, adding any
  sequence of elements never panics, and then every register reads as the greatest rank over the
  distinct elements hashed to it: neither the order, nor repetitions, nor the moment at which the
  sketch turns dense is observable.\<close>
theorem hll_add_registers:
  assumes "4 \<le> P" "P \<le> 18"
  shows "\<exists>h. hll_add_all P hash (hll_with_threshold t) xs = Some h \<and>
    (\<forall>i < num_registers P. hll_get_register P h i = Some (max_rank P hash (set xs) i))"
  using hll_added[OF assms] hll_regs_get by blast

text \<open>Sixteen registers and a threshold of two: the third element turns the sketch dense.\<close>
theorem hll_add_registers_witness:
  "(4 :: nat) \<le> 4 \<and> (\<exists>h. hll_add_all 4 (\<lambda>b. of_nat (length b) * 0x1111111111111111) (hll_with_threshold 2) [[1], [1, 2], [1, 2, 3]] = Some h \<and>
    (\<forall>i < num_registers 4. hll_get_register 4 h i =
      Some (max_rank 4 (\<lambda>b. of_nat (length b) * 0x1111111111111111) (set [[1], [1, 2], [1, 2, 3]]) i)))"
  using hll_add_registers[of 4 "\<lambda>b. of_nat (length b) * 0x1111111111111111" 2 "[[1], [1, 2], [1, 2, 3]]"]
  by simp

text \<open>Merging the sketch of one sequence with the sketch of another, in any combination of encodings
  and thresholds, gives the registers of the sketch of both sequences together.\<close>
theorem hll_merge_union:
  assumes "4 \<le> P" "P \<le> 18"
  shows "\<exists>h g m u. hll_add_all P hash (hll_with_threshold t1) xs = Some h \<and>
    hll_add_all P hash (hll_with_threshold t2) ys = Some g \<and> hll_merge P h g = Some m \<and>
    hll_add_all P hash (hll_with_threshold t3) (xs @ ys) = Some u \<and>
    (\<forall>i < num_registers P. hll_get_register P m i = hll_get_register P u i)"
proof -
  obtain h where h: "hll_add_all P hash (hll_with_threshold t1) xs = Some h" "hll_regs P h (max_rank P hash (set xs))"
    using hll_added[OF assms] by blast
  obtain g where g: "hll_add_all P hash (hll_with_threshold t2) ys = Some g" "hll_regs P g (max_rank P hash (set ys))"
    using hll_added[OF assms] by blast
  obtain u where u: "hll_add_all P hash (hll_with_threshold t3) (xs @ ys) = Some u"
    "hll_regs P u (max_rank P hash (set (xs @ ys)))"
    using hll_added[OF assms] by blast
  obtain m where m: "hll_merge P h g = Some m"
    "hll_regs P m (\<lambda>i. max (max_rank P hash (set xs) i) (max_rank P hash (set ys) i))"
    using hll_merge_regs[OF _ h(2) g(2)] assms(1) by auto
  have "(\<lambda>i. max (max_rank P hash (set xs) i) (max_rank P hash (set ys) i)) = max_rank P hash (set (xs @ ys))"
    by (rule ext) (simp add: max_rank_union)
  then have "hll_regs P m (max_rank P hash (set (xs @ ys)))" using m(2) by simp
  from hll_regs_get[OF this] hll_regs_get[OF u(2)]
  show ?thesis using h(1) g(1) u(1) m(1) by auto
qed

theorem hll_merge_union_witness:
  "\<exists>h g m u. hll_add_all 4 (\<lambda>b. of_nat (length b) * 0x1111111111111111) (hll_with_threshold 0) [[1], [1, 2]] = Some h \<and>
    hll_add_all 4 (\<lambda>b. of_nat (length b) * 0x1111111111111111) (hll_with_threshold 9) [[1, 2, 3]] = Some g \<and>
    hll_merge 4 h g = Some m \<and>
    hll_add_all 4 (\<lambda>b. of_nat (length b) * 0x1111111111111111) (hll_with_threshold 1) ([[1], [1, 2]] @ [[1, 2, 3]]) = Some u \<and>
    (\<forall>i < num_registers 4. hll_get_register 4 m i = hll_get_register 4 u i)"
  by (rule hll_merge_union) simp_all

end
