(* ===== verification/Rust_Io.thy ===== *)
theory Rust_Io
  imports Prelude
begin

text \<open>
  The parts of \<open>std::io\<close> and of the error type that the serialisation code goes through: a
  writer is known by its \<open>write_all\<close>, a reader by its \<open>read_exact\<close>, and both may fail. The
  locales \<open>byte_sink\<close> and \<open>byte_source\<close> say what the serialisers rely on; they are interpreted
  on the instances the code uses, \<open>Vec<u8>\<close> (which never fails) and a byte slice.
\<close>

section \<open>Errors\<close>

datatype io_error = UnexpectedEof | WriteZero | OtherError

text \<open>
  The errors of \<open>ZumicResult\<close> that the modelled code raises: an I/O error under the message given to
  \<open>context\<close>, and the variants of \<open>ZdbError\<close> with their numbers. Offsets, keys and the texts that
  only decorate a report are left out.
\<close>

datatype zumic_error =
    Io string io_error
  | Context string zumic_error
  | ParseError string string
  | ZdbUnexpectedEof
  | InvalidTag u8
  | SizeLimit nat nat
  | CompressionError
  | InvalidMagic bytes
  | UnsupportedVersion u8
  | IncompatibleVersion u8 u8
  | CrcMismatch u32 u32
  | FileTooSmall nat nat

type_synonym 'a zumic_result = "zumic_error + 'a"

definition io_context :: "string \<Rightarrow> io_error + 'a \<Rightarrow> 'a zumic_result" where
  "io_context msg r = (case r of Inl e \<Rightarrow> Inl (Io msg e) | Inr x \<Rightarrow> Inr x)"

definition bind_result :: "'e + 'a \<Rightarrow> ('a \<Rightarrow> 'e + 'b) \<Rightarrow> 'e + 'b" where
  "bind_result r f = (case r of Inl e \<Rightarrow> Inl e | Inr x \<Rightarrow> f x)"

lemma bind_result_simps [simp]:
  "bind_result (Inl e) f = Inl e"
  "bind_result (Inr x) f = f x"
  by (simp_all add: bind_result_def)

lemma io_context_simps [simp]:
  "io_context msg (Inl e) = Inl (Io msg e)"
  "io_context msg (Inr x) = Inr x"
  by (simp_all add: io_context_def)

lemma bind_result_cong [fundef_cong]:
  assumes "r = r'" and "\<And>x. r' = Inr x \<Longrightarrow> f x = g x"
  shows "bind_result r f = bind_result r' g"
  using assms by (cases r') (auto simp: bind_result_def)

section \<open>Writers and readers\<close>

text \<open>\<open>write_all\<close> takes the writer and the bytes; \<open>read_exact\<close> the reader and the length of the buffer.\<close>

type_synonym 'w write_all = "'w \<Rightarrow> bytes \<Rightarrow> io_error + 'w"
type_synonym 'r read_exact = "'r \<Rightarrow> nat \<Rightarrow> io_error + (bytes \<times> 'r)"

definition vec_write_all :: "bytes write_all" where
  "vec_write_all w bs = Inr (w @ bs)"

text \<open>A slice \<open>&mut [u8]\<close> as a writer is what was written and the room left.\<close>

definition buf_write_all :: "(bytes \<times> nat) write_all" where
  "buf_write_all w bs = (if length bs \<le> snd w then Inr (fst w @ bs, snd w - length bs) else Inl WriteZero)"

definition slice_read_exact :: "bytes read_exact" where
  "slice_read_exact r n = (if n \<le> length r then Inr (take n r, drop n r) else Inl UnexpectedEof)"

text \<open>
  A sink has written \<open>out w\<close> and has room for \<open>n\<close> more bytes when \<open>room w n\<close>; within its room a
  write succeeds and appends, beyond it the write fails.
\<close>

locale byte_sink =
  fixes write_all :: "'w write_all" and out :: "'w \<Rightarrow> bytes" and room :: "'w \<Rightarrow> nat \<Rightarrow> bool"
  assumes write_ok: "room w (length bs) \<Longrightarrow> \<exists>w'. write_all w bs = Inr w' \<and> out w' = out w @ bs \<and>
      (\<forall>n. room w' n \<longleftrightarrow> room w (length bs + n))"
    and room_mono: "room w (m + n) \<Longrightarrow> room w m"
    and write_fail: "\<not> room w (length bs) \<Longrightarrow> \<exists>e. write_all w bs = Inl e"

locale byte_source =
  fixes read_exact :: "'r read_exact" and left :: "'r \<Rightarrow> bytes"
  assumes read_ok: "n \<le> length (left r) \<Longrightarrow> \<exists>r'. read_exact r n = Inr (take n (left r), r') \<and> left r' = drop n (left r)"
    and read_fail: "length (left r) < n \<Longrightarrow> read_exact r n = Inl UnexpectedEof"
begin

lemma read_append:
  assumes "left r = bs @ rest"
  obtains r' where "read_exact r (length bs) = Inr (bs, r')" and "left r' = rest"
  using read_ok [of "length bs" r] assms by auto

end

interpretation vec: byte_sink vec_write_all "\<lambda>w. w" "\<lambda>w n. True"
  by unfold_locales (auto simp: vec_write_all_def)

interpretation buf: byte_sink buf_write_all fst "\<lambda>w n. n \<le> snd w"
  by unfold_locales (auto simp: buf_write_all_def)

interpretation slc: byte_source slice_read_exact "\<lambda>r. r"
  by unfold_locales (auto simp: slice_read_exact_def)

section \<open>Fallible code that may panic\<close>

text \<open>\<open>None\<close> is a panic or an exhausted stack, \<open>Inl\<close> an \<open>Err\<close>; \<open>zbind\<close> is the question mark operator.\<close>

type_synonym 'a zres = "'a zumic_result panics"

definition zok :: "'a \<Rightarrow> 'a zres" where
  "zok x = Some (Inr x)"

definition zerr :: "zumic_error \<Rightarrow> 'a zres" where
  "zerr e = Some (Inl e)"

definition zbind :: "'a zres \<Rightarrow> ('a \<Rightarrow> 'b zres) \<Rightarrow> 'b zres" where
  "zbind m f = (case m of None \<Rightarrow> None | Some (Inl e) \<Rightarrow> Some (Inl e) | Some (Inr x) \<Rightarrow> f x)"

definition zio :: "io_error + 'a \<Rightarrow> 'a zres" where
  "zio r = Some (io_context [] r)"

text \<open>\<open>ensure!\<close>\<close>
definition zensure :: "bool \<Rightarrow> zumic_error \<Rightarrow> unit zres" where
  "zensure b e = (if b then zok () else zerr e)"

text \<open>A computation that cannot return \<open>Err\<close> but may panic.\<close>
definition zlift :: "'a panics \<Rightarrow> 'a zres" where
  "zlift m = map_option Inr m"

lemma zbind_simps [simp]:
  "zbind None f = None"
  "zbind (Some (Inl e)) f = Some (Inl e)"
  "zbind (Some (Inr x)) f = f x"
  "zbind (zok x) f = f x"
  "zbind (zerr e) f = zerr e"
  by (simp_all add: zbind_def zok_def zerr_def)

lemma zbind_zok [simp]: "zbind m zok = m"
  by (simp add: zbind_def zok_def split: option.split sum.split)

lemma zbind_assoc: "zbind (zbind m f) g = zbind m (\<lambda>x. zbind (f x) g)"
  by (simp add: zbind_def split: option.split sum.split)

lemma zio_simps [simp]:
  "zio (Inr x) = zok x"
  "zio (Inl e) = zerr (Io [] e)"
  by (simp_all add: zio_def zok_def zerr_def)

lemma zensure_simps [simp]: "b \<Longrightarrow> zensure b e = zok ()" "\<not> b \<Longrightarrow> zensure b e = zerr e"
  by (simp_all add: zensure_def)

lemma zlift_Some [simp]: "zlift (Some x) = zok x"
  by (simp add: zlift_def zok_def)

lemma zok_inject [simp]: "zok x = zok y \<longleftrightarrow> x = y" "zok x \<noteq> zerr e" "zerr e \<noteq> zok x"
  by (simp_all add: zok_def zerr_def)

lemma zbind_cong [fundef_cong]:
  assumes "m = m'" and "\<And>x. m' = Some (Inr x) \<Longrightarrow> f x = g x"
  shows "zbind m f = zbind m' g"
  using assms by (auto simp: zbind_def split: option.split sum.split)

text \<open>A \<open>for\<close> loop over a collection, threading a state, and one over a range of \<open>n\<close> indices.\<close>

fun zfor :: "('a \<Rightarrow> 's \<Rightarrow> 's zres) \<Rightarrow> 'a list \<Rightarrow> 's \<Rightarrow> 's zres" where
  "zfor f [] s = zok s"
| "zfor f (x # xs) s = zbind (f x s) (zfor f xs)"

primrec zrepeat :: "nat \<Rightarrow> ('s \<Rightarrow> 's zres) \<Rightarrow> 's \<Rightarrow> 's zres" where
  "zrepeat 0 f s = zok s"
| "zrepeat (Suc n) f s = zbind (f s) (zrepeat n f)"

lemma zfor_cong [fundef_cong]:
  assumes "xs = ys" "s = t" and "\<And>x u. x \<in> set ys \<Longrightarrow> f x u = g x u"
  shows "zfor f xs s = zfor g ys t"
  using assms
proof (induction ys arbitrary: xs s t)
  case (Cons y ys)
  have "zfor f ys = zfor g ys" using Cons.IH[OF refl refl] Cons.prems(3) by auto
  then show ?case using Cons.prems by simp
qed simp

section \<open>Big-endian integers\<close>

unbundle bit_operations_syntax

text \<open>\<open>write_u32::<BigEndian>\<close> and its kin write the bytes from the most significant one.\<close>

definition to_be_bytes :: "nat \<Rightarrow> 'a :: len word \<Rightarrow> bytes" where
  "to_be_bytes n w = map (\<lambda>i. ucast (drop_bit (8 * i) w)) (rev [0..<n])"

definition from_be_bytes :: "bytes \<Rightarrow> 'a :: len word" where
  "from_be_bytes bs = foldl (\<lambda>acc b. push_bit 8 acc OR ucast b) 0 bs"

lemma length_to_be_bytes [simp]: "length (to_be_bytes n w) = n"
  by (simp add: to_be_bytes_def)

lemma from_be_bytes_acc:
  "foldl (\<lambda>acc b. push_bit 8 acc OR ucast b) acc (to_be_bytes n w) =
     push_bit (8 * n) acc OR take_bit (8 * n) (w :: 'a :: len word)"
proof (induction n arbitrary: acc)
  case (Suc n)
  have "push_bit (8 * n) (push_bit 8 acc OR ucast (ucast (drop_bit (8 * n) w) :: u8)) OR take_bit (8 * n) w =
        push_bit (8 * Suc n) acc OR take_bit (8 * Suc n) w"
    by (rule bit_eqI)
      (auto simp: bit_or_iff bit_push_bit_iff bit_take_bit_iff bit_ucast_iff bit_drop_bit_eq
        algebra_simps dest: bit_imp_le_length)
  then show ?case using Suc.IH by (simp add: to_be_bytes_def)
qed (simp add: to_be_bytes_def)

lemma from_to_be_bytes: "LENGTH('a) \<le> 8 * n \<Longrightarrow> from_be_bytes (to_be_bytes n w) = (w :: 'a :: len word)"
  by (simp add: from_be_bytes_def from_be_bytes_acc take_bit_word_eq_self)

end
