(* ===== verification/Varint.thy ===== *)
theory Varint
  imports Leb128 Rust_Io
begin

text \<open>
  \<open>src/engine/zdb/varint.rs\<close>: the \<open>u32\<close> lengths of version 3 dumps. The writer and the reader are
  the loops of the source over an arbitrary \<open>Write\<close> and \<open>Read\<close>; they meet the reference encoding
  of theory \<open>Leb128\<close> on every sink and source that keeps the contracts of theory \<open>Rust_Io\<close>.
\<close>

unbundle bit_operations_syntax

lemma drop_bit_7_less:
  assumes "(v :: u32) \<noteq> 0"
  shows "unat (drop_bit 7 v) < unat v"
proof -
  have "unat v \<noteq> 0" using assms by (simp only: unat_eq_0 not_False_eq_True)
  then show ?thesis by (simp only: unat_drop_bit_7)
qed

section \<open>The program\<close>

abbreviation MAX_VARINT_LEN :: nat where "MAX_VARINT_LEN \<equiv> 5"

function write_varint_loop :: "'w write_all \<Rightarrow> 'w \<Rightarrow> u32 \<Rightarrow> nat \<Rightarrow> ('w \<times> nat) zumic_result" where
  "write_varint_loop write_all w v bytes_written =
     (let byte = ucast (v AND 0x7F);
          v' = drop_bit 7 v;
          byte = (if v' \<noteq> 0 then byte OR 0x80 else byte)
      in bind_result (io_context ''Failed to write varint byte'' (write_all w [byte])) (\<lambda>w.
           if v' = 0 then Inr (w, bytes_written + 1)
           else write_varint_loop write_all w v' (bytes_written + 1)))"
  by pat_completeness auto
termination
  by (relation "measure (\<lambda>(f, w, v, n). unat v)") (auto intro!: drop_bit_7_less simp del: unsigned_drop_bit_eq)

declare write_varint_loop.simps [simp del]

definition write_varint :: "'w write_all \<Rightarrow> 'w \<Rightarrow> u32 \<Rightarrow> ('w \<times> nat) zumic_result" where
  "write_varint write_all w v = write_varint_loop write_all w v 0"

text \<open>The \<open>for\<close> loop over \<open>i\<close>; \<open>None\<close> is the \<open>unreachable!\<close> after it.\<close>

fun read_varint_loop :: "'r read_exact \<Rightarrow> 'r \<Rightarrow> nat list \<Rightarrow> u32 \<Rightarrow> nat \<Rightarrow> (u32 \<times> 'r) zumic_result panics" where
  "read_varint_loop read_exact r [] result shift = None"
| "read_varint_loop read_exact r (i # is) result shift =
     (case io_context ''Failed to read varint byte'' (read_exact r 1) of
        Inl e \<Rightarrow> Some (Inl e)
      | Inr (buf, r) \<Rightarrow> do {
          byte \<leftarrow> idx buf 0;
          let result = result OR push_bit shift (ucast (byte AND 0x7F));
          if byte AND 0x80 = 0 then Some (Inr (result, r))
          else let shift = shift + 7 in
            if i = MAX_VARINT_LEN - 1
            then Some (Inl (ParseError ''varint'' ''Varint too long (>5 bytes), possible corruption''))
            else read_varint_loop read_exact r is result shift })"

definition read_varint :: "'r read_exact \<Rightarrow> 'r \<Rightarrow> (u32 \<times> 'r) zumic_result panics" where
  "read_varint read_exact r = read_varint_loop read_exact r [0..<MAX_VARINT_LEN] 0 0"

function varint_size_loop :: "u32 \<Rightarrow> nat \<Rightarrow> nat" where
  "varint_size_loop v n = (if v \<noteq> 0 then varint_size_loop (drop_bit 7 v) (n + 1) else n)"
  by pat_completeness auto
termination
  by (relation "measure (\<lambda>(v, n). unat v)") (auto intro!: drop_bit_7_less simp del: unsigned_drop_bit_eq)

declare varint_size_loop.simps [simp del]

definition varint_size :: "u32 \<Rightarrow> nat" where
  "varint_size v = (if v = 0 then 1 else varint_size_loop v 0)"

definition varint_is_efficient :: "u32 \<Rightarrow> bool" where
  "varint_is_efficient v \<longleftrightarrow> varint_size v < 4"

section \<open>Sizes\<close>

lemma len32: "8 \<le> LENGTH(32)"
  by simp

lemma varint_size_loop_leb: "v \<noteq> 0 \<Longrightarrow> varint_size_loop v k = k + length (leb (unat v))"
proof (induction v k rule: varint_size_loop.induct)
  case (1 v k)
  show ?case
  proof (cases "unat v < 128")
    case True
    then have "drop_bit 7 v = 0" by (simp only: drop_bit_7_eq_0)
    with 1(2) True show ?thesis by (simp add: varint_size_loop.simps leb_small)
  next
    case False
    then have nz: "drop_bit 7 v \<noteq> 0" by (simp only: drop_bit_7_eq_0 not_False_eq_True)
    have "length (leb (unat v)) = Suc (length (leb (unat (drop_bit 7 v))))"
      by (simp only: leb_step_more [OF len32 False, symmetric] list.size)
    with 1(1) [OF 1(2) nz] 1(2) show ?thesis by (subst varint_size_loop.simps) simp
  qed
qed

lemma varint_size_leb: "varint_size v = length (leb (unat v))"
  by (simp add: varint_size_def varint_size_loop_leb leb_small)

lemma leb_length_ge: "128 ^ k \<le> n \<Longrightarrow> k < length (leb n)"
proof (induction k arbitrary: n)
  case (Suc k)
  have "(128 :: nat) ^ Suc k \<ge> 128" by simp
  with Suc.prems have n: "128 \<le> n" by linarith
  have "128 ^ k \<le> n div 128" using Suc.prems by (simp add: less_eq_div_iff_mult_less_eq mult.commute)
  with Suc.IH n show ?case by (simp add: leb_large)
qed simp

lemma leb_length_le_iff: "0 < k \<Longrightarrow> length (leb n) \<le> k \<longleftrightarrow> n < 128 ^ k"
  using leb_length [of n k] leb_length_ge [of k n] by (meson leD le_less_linear)

section \<open>Writing and reading\<close>

context byte_sink
begin

lemma write_varint_loop_leb:
  assumes "room w (length (leb (unat v)))"
  shows "\<exists>w'. write_varint_loop write_all w v k = Inr (w', k + length (leb (unat v))) \<and>
    out w' = out w @ leb (unat v) \<and> (\<forall>n. room w' n \<longleftrightarrow> room w (length (leb (unat v)) + n))"
  using assms
proof (induction "unat v" arbitrary: v w k rule: less_induct)
  case less
  show ?case
  proof (cases "unat v < 128")
    case True
    have z: "drop_bit 7 v = 0" using True by (simp only: drop_bit_7_eq_0)
    obtain w' where "write_all w (leb (unat v)) = Inr w'" "out w' = out w @ leb (unat v)"
      "\<forall>n. room w' n \<longleftrightarrow> room w (length (leb (unat v)) + n)"
      using write_ok [OF less.prems] by blast
    with leb_step_last [OF len32 True] True show ?thesis
      by (subst write_varint_loop.simps) (simp add: Let_def z leb_small del: leb_not_Nil)
  next
    case False
    have nz: "drop_bit 7 v \<noteq> 0" using False by (simp only: drop_bit_7_eq_0 not_False_eq_True)
    let ?b = "(ucast (v AND 127) :: u8) OR 128" and ?l = "leb (unat (drop_bit 7 v))"
    note l = leb_step_more [OF len32 False, symmetric]
    have lt: "unat (drop_bit 7 v) < unat v" using False by (simp only: unat_drop_bit_7)
    have r1: "room w (length [?b] + length ?l)" using less.prems by (simp only: l list.size add_Suc add_0 add_0_right add_Suc_right)
    then have "room w (length [?b])"
      by (rule room_mono)
    then obtain w1 where w1: "write_all w [?b] = Inr w1" "out w1 = out w @ [?b]"
      "\<forall>n. room w1 n \<longleftrightarrow> room w (length [?b] + n)" using write_ok by blast
    obtain w2 where "write_varint_loop write_all w1 (drop_bit 7 v) (k + 1) = Inr (w2, k + 1 + length ?l)"
      "out w2 = out w1 @ ?l" "\<forall>n. room w2 n \<longleftrightarrow> room w1 (length ?l + n)"
      using less.hyps [OF lt, of w1 "k + 1"] r1 w1(3) by blast
    with w1 nz show ?thesis
      unfolding l by (subst write_varint_loop.simps) (simp add: Let_def)
  qed
qed

lemma write_varint_leb:
  "room w (length (leb (unat v))) \<Longrightarrow> \<exists>w'. write_varint write_all w v = Inr (w', length (leb (unat v))) \<and>
    out w' = out w @ leb (unat v) \<and> (\<forall>n. room w' n \<longleftrightarrow> room w (length (leb (unat v)) + n))"
  unfolding write_varint_def using write_varint_loop_leb [of w v 0] by simp

end

context byte_source
begin

lemma read_varint_byte:
  assumes "left r = b # rest"
  obtains r' where "read_exact r 1 = Inr ([b], r')" and "left r' = rest"
  using read_append [of r "[b]" rest] assms by auto

lemma read_varint_loop_leb:
  assumes "left r = leb n @ rest" and "unat acc < 2 ^ (7 * j)" and "unat acc + n * 2 ^ (7 * j) < 2 ^ 32" and "j < 5"
  shows "\<exists>r'. read_varint_loop read_exact r [j..<5] acc (7 * j) =
      Some (Inr (of_nat (unat acc + n * 2 ^ (7 * j)), r')) \<and> left r' = rest"
  using assms
proof (induction n arbitrary: r acc j rule: leb.induct)
  case (1 n)
  have acc: "acc OR push_bit s (ucast (b AND 0x7F)) = leb_acc acc s b" for s b
    by (simp add: leb_acc_def)
  have unat_of: "of_nat (unat w) = w" for w :: u32 by simp
  have js: "[j..<5] = j # [Suc j..<5]" using 1(5) by (simp add: upt_conv_Cons)
  show ?case
  proof (cases "n < 128")
    case True
    note b = leb_byte_last [OF True]
    have "unat (leb_acc acc (7 * j) (of_nat n)) = unat acc + n * 2 ^ (7 * j)"
      using leb_round(1) [of acc "7 * j" n "of_nat n"] 1(3,4) b True by simp
    then have "leb_acc acc (7 * j) (of_nat n) = of_nat (unat acc + n * 2 ^ (7 * j))"
      by (metis unat_of)
    moreover obtain r' where "read_exact r 1 = Inr ([of_nat n], r')" "left r' = rest"
      using read_varint_byte [of r "of_nat n" rest] 1(2) True by (auto simp: leb_small)
    ultimately show ?thesis using b by (simp add: js idx_def acc Let_def)
  next
    case False
    let ?b = "of_nat (n mod 128 + 128) :: u8" and ?s = "7 * j"
    let ?r = "leb_acc acc ?s ?b"
    have b: "unat ?b mod 128 = n mod 128" "?b AND 0x80 \<noteq> 0" using leb_byte_more [of n] by auto
    have l: "unat acc + n * 2 ^ ?s < 2 ^ LENGTH(32)" using 1(4) by simp
    note rnd = leb_round [OF len32 1(3) l b(1)]
    have "n div 128 \<noteq> 0" using False by simp
    then have "(2 :: nat) ^ (?s + 7) \<le> (n div 128) * 2 ^ (?s + 7)" by simp
    also have "\<dots> < 2 ^ 32" using rnd(3) 1(4) by linarith
    finally have "?s + 7 < 32" by (simp only: power_strict_increasing_iff)
    then have j: "Suc j < 5" by simp
    have s: "7 * Suc j = ?s + 7" by simp
    obtain r1 where r1: "read_exact r 1 = Inr ([?b], r1)" "left r1 = leb (n div 128) @ rest"
      using read_varint_byte [of r ?b] 1(2) False by (auto simp: leb_large)
    have "\<exists>r'. read_varint_loop read_exact r1 [Suc j..<5] ?r (7 * Suc j) =
        Some (Inr (of_nat (unat ?r + (n div 128) * 2 ^ (7 * Suc j)), r')) \<and> left r' = rest"
      by (rule 1(1) [OF False r1(2) _ _ j]) (use rnd(2,3) 1(4) in \<open>simp_all only: s\<close>)
    with j b r1(1) show ?thesis
      by (simp add: js idx_def acc Let_def rnd(3) s del: of_nat_add of_nat_mult of_nat_mod mult_Suc_right)
  qed
qed

lemma read_varint_leb:
  assumes "left r = leb (unat v) @ rest"
  shows "\<exists>r'. read_varint read_exact r = Some (Inr (v, r')) \<and> left r' = rest"
  using read_varint_loop_leb [of r "unat v" rest 0 0] assms unsigned_less [of v, where 'a = nat]
  by (simp add: read_varint_def)

lemma read_varint_loop_more:
  assumes "\<forall>b \<in> set (take (5 - j) (left r)). b AND 0x80 \<noteq> 0" and "j < 5"
  shows "\<exists>msg. read_varint_loop read_exact r [j..<5] acc s =
    Some (Inl (if 5 - j \<le> length (left r) then ParseError ''varint'' msg else Io msg UnexpectedEof))"
  using assms
proof (induction "5 - j" arbitrary: j r acc s)
  case (Suc k)
  have js: "[j..<5] = j # [Suc j..<5]" using Suc.prems by (simp add: upt_conv_Cons)
  show ?case
  proof (cases "left r")
    case Nil
    then show ?thesis using read_fail [of r 1] Suc.prems(2) by (simp add: js)
  next
    case (Cons b rest)
    then obtain r' where r': "read_exact r 1 = Inr ([b], r')" "left r' = rest" by (rule read_varint_byte)
    have t: "take (5 - j) (left r) = b # take (5 - Suc j) rest"
      using Cons Suc.hyps(2) by (simp add: take_Cons')
    show ?thesis
    proof (cases "j = 4")
      case True
      with r' t Cons Suc.prems(1) show ?thesis by (simp add: js idx_def Let_def)
    next
      case False
      have "\<exists>msg. read_varint_loop read_exact r' [Suc j..<5] a t =
          Some (Inl (if 5 - Suc j \<le> length rest then ParseError ''varint'' msg else Io msg UnexpectedEof))" for a t
        using Suc.hyps(1) [of "Suc j" r'] Suc.hyps(2) Suc.prems t r'(2) False by simp
      moreover have "5 - Suc j \<le> length rest \<longleftrightarrow> 5 - j \<le> length (left r)"
        using Cons Suc.prems(2) by auto
      ultimately show ?thesis using r' t Suc.prems(1) False by (simp add: js idx_def Let_def)
    qed
  qed
qed simp

lemma read_varint_loop_total:
  "j < 5 \<Longrightarrow> \<exists>res. read_varint_loop read_exact r [j..<5] acc s = Some res"
proof (induction "5 - j" arbitrary: j r acc s)
  case (Suc k)
  have js: "[j..<5] = j # [Suc j..<5]" using Suc.prems by (simp add: upt_conv_Cons)
  show ?case
  proof (cases "left r")
    case Nil
    then show ?thesis using read_fail [of r 1] by (simp add: js)
  next
    case (Cons b rest)
    then obtain r' where "read_exact r 1 = Inr ([b], r')" by (rule read_varint_byte)
    moreover have "\<exists>res. read_varint_loop read_exact r' [Suc j..<5] a t = Some res" if "j \<noteq> 4" for a t
      using Suc.hyps(1) [of "Suc j"] Suc.hyps(2) Suc.prems that by simp
    ultimately show ?thesis by (simp add: js idx_def Let_def)
  qed
qed simp

end

section \<open>Properties\<close>

lemma unat_u32_less: "unat (v :: u32) < 2 ^ 32"
  using unsigned_less [of v, where 'a = nat] by simp

lemma varint_size_bounds: "0 < k \<Longrightarrow> varint_size v \<le> k \<longleftrightarrow> unat v < 128 ^ k"
  by (simp add: varint_size_leb leb_length_le_iff)

text \<open>What \<open>write_varint\<close> appends, \<open>read_varint\<close> reads back, leaving the rest of the input; the
  count it returns is the number of bytes written and what \<open>varint_size\<close> predicts, between one and five.\<close>

theorem varint_roundtrip:
  "\<exists>bs. write_varint vec_write_all w v = Inr (w @ bs, length bs) \<and>
    length bs = varint_size v \<and> 0 < length bs \<and> length bs \<le> MAX_VARINT_LEN \<and>
    read_varint slice_read_exact (bs @ rest) = Some (Inr (v, rest))"
proof (intro exI conjI)
  let ?bs = "leb (unat v)"
  show "write_varint vec_write_all w v = Inr (w @ ?bs, length ?bs)" using vec.write_varint_leb [of w v] by auto
  show "read_varint slice_read_exact (?bs @ rest) = Some (Inr (v, rest))" using slc.read_varint_leb [of _ v rest] by simp
  show "length ?bs = varint_size v" by (simp only: varint_size_leb)
  have "unat v < 128 ^ 5" using unat_u32_less [of v] by simp
  then show "length ?bs \<le> MAX_VARINT_LEN" by (simp add: leb_length)
qed simp

text \<open>\<open>read_varint\<close> never panics, on any input; a fifth byte that still asks for more is a parse error,
  and an input that ends inside the number is an unexpected end of file.\<close>

theorem read_varint_errors:
  "(\<exists>res. read_varint slice_read_exact bs = Some res) \<and>
   ((\<forall>b \<in> set (take 5 bs). b AND 0x80 \<noteq> 0) \<longrightarrow>
      (\<exists>msg. read_varint slice_read_exact bs =
        Some (Inl (if 5 \<le> length bs then ParseError ''varint'' msg else Io msg UnexpectedEof))))"
  using slc.read_varint_loop_total [of 0 bs 0 0] slc.read_varint_loop_more [of 0 bs 0 0]
  by (simp add: read_varint_def)

theorem read_varint_errors_witness:
  "(\<exists>msg. read_varint slice_read_exact [0x80, 0x80] = Some (Inl (Io msg UnexpectedEof))) \<and>
   (\<exists>msg. read_varint slice_read_exact [0xFF, 0xFF, 0xFF, 0xFF, 0xFF, 0] = Some (Inl (ParseError ''varint'' msg)))"
  using read_varint_errors [of "[0x80, 0x80]"] read_varint_errors [of "[0xFF, 0xFF, 0xFF, 0xFF, 0xFF, 0]"] by simp

text \<open>\<open>varint_size\<close> is the least number of seven-bit groups that hold the value, and
  \<open>varint_is_efficient\<close> accepts every value below 2097152, not only those below the 16384 its
  documentation names.\<close>

theorem varint_size_bands:
  assumes "0 < k"
  shows "(varint_size v \<le> k \<longleftrightarrow> unat v < 128 ^ k) \<and> (varint_is_efficient v \<longleftrightarrow> unat v < 2097152)"
  using varint_size_bounds [OF assms] varint_size_bounds [of 3 v] by (auto simp: varint_is_efficient_def)

theorem varint_size_bands_witness:
  "varint_size 16384 \<le> 3 \<and> \<not> varint_size 16384 \<le> 2 \<and> varint_is_efficient 16384"
  using varint_size_bands [of 3 16384] varint_size_bands [of 2 16384] by simp

end
