(* ===== verification/Zdb_File.thy ===== *)
theory Zdb_File
  imports Rust_Io
begin

text \<open>
  \<open>src/engine/zdb/file.rs\<close>: the versions of the dump format, their compatibility and the header of a
  dump. The derived order of \<open>FormatVersion\<close> is an instance of \<open>linorder\<close>; a warning of
  \<open>CompatibilityInfo\<close> is the \<open>format!\<close> call that makes its text, with the arguments of the call.
\<close>

section \<open>Versions\<close>

datatype format_version = Legacy | V1 | V2 | V3

text \<open>\<open>self as u8\<close>\<close>
fun version_byte :: "format_version \<Rightarrow> u8" where
  "version_byte Legacy = 0"
| "version_byte V1 = 1"
| "version_byte V2 = 2"
| "version_byte V3 = 3"

instantiation format_version :: linorder
begin

definition less_eq_format_version :: "format_version \<Rightarrow> format_version \<Rightarrow> bool" where
  "a \<le> b \<longleftrightarrow> version_byte a \<le> version_byte b"

definition less_format_version :: "format_version \<Rightarrow> format_version \<Rightarrow> bool" where
  "a < b \<longleftrightarrow> version_byte a < version_byte b"

instance
proof
  fix a b c :: format_version
  show "(a < b) = (a \<le> b \<and> \<not> b \<le> a)"
    by (auto simp: less_format_version_def less_eq_format_version_def)
  show "a \<le> a" by (simp add: less_eq_format_version_def)
  show "a \<le> b \<Longrightarrow> b \<le> c \<Longrightarrow> a \<le> c" by (simp add: less_eq_format_version_def)
  show "a \<le> b \<Longrightarrow> b \<le> a \<Longrightarrow> a = b" by (cases a; cases b) (simp_all add: less_eq_format_version_def word_le_nat_alt)
  show "a \<le> b \<or> b \<le> a" by (auto simp: less_eq_format_version_def)
qed

end

abbreviation FILE_MAGIC :: bytes where "FILE_MAGIC \<equiv> [0x5A, 0x44, 0x42]"

definition current :: format_version where
  "current = V3"

fun uses_varint :: "format_version \<Rightarrow> bool" where
  "uses_varint V3 = True"
| "uses_varint _ = False"

fun can_read :: "format_version \<Rightarrow> format_version \<Rightarrow> bool" where
  "can_read Legacy Legacy = True"
| "can_read Legacy _ = False"
| "can_read V1 Legacy = True"
| "can_read V1 V1 = True"
| "can_read V1 _ = False"
| "can_read V2 Legacy = True"
| "can_read V2 V1 = True"
| "can_read V2 V2 = True"
| "can_read V2 V3 = False"
| "can_read V3 _ = True"

definition can_write :: "format_version \<Rightarrow> format_version \<Rightarrow> bool" where
  "can_write self target \<longleftrightarrow> self \<le> target"

definition supported_versions :: "format_version list" where
  "supported_versions = [Legacy, V1, V2, V3]"

fun is_deprecated :: "format_version \<Rightarrow> bool" where
  "is_deprecated Legacy = True"
| "is_deprecated V1 = True"
| "is_deprecated _ = False"

fun recommended_upgrade :: "format_version \<Rightarrow> format_version option" where
  "recommended_upgrade Legacy = Some V1"
| "recommended_upgrade V1 = Some V2"
| "recommended_upgrade V2 = Some V3"
| "recommended_upgrade V3 = None"

definition version_try_from :: "u8 \<Rightarrow> zumic_error + format_version" where
  "version_try_from b =
     (if b = 0 then Inr Legacy else if b = 1 then Inr V1 else if b = 2 then Inr V2 else if b = 3 then Inr V3
      else Inl (UnsupportedVersion b))"

section \<open>Compatibility\<close>

datatype warning =
    Deprecated format_version format_version
  | Newer_Than_Reader format_version format_version
  | Cannot_Read format_version format_version
  | Varint_Encoding

record compatibility_info =
  reader_version :: format_version
  dump_version :: format_version
  ci_can_read :: bool
  ci_can_write :: bool
  requires_migration :: bool
  warnings :: "warning list"

definition compat_check :: "format_version \<Rightarrow> format_version \<Rightarrow> compatibility_info" where
  "compat_check reader dump =
     (let cr = can_read reader dump;
          cw = can_write reader dump;
          mig = is_deprecated dump;
          ws = (if mig then [Deprecated dump (case recommended_upgrade dump of Some u \<Rightarrow> u | None \<Rightarrow> current)] else []);
          ws = (if dump > reader then ws @ [Newer_Than_Reader dump reader] else ws);
          ws = (if \<not> cr then ws @ [Cannot_Read reader dump] else ws);
          ws = (if dump = V3 \<and> reader < V3 then ws @ [Varint_Encoding] else ws)
      in \<lparr> reader_version = reader, dump_version = dump, ci_can_read = cr, ci_can_write = cw,
           requires_migration = mig, warnings = ws \<rparr>)"

definition detect_version :: "bytes \<Rightarrow> (zumic_error + format_version) panics" where
  "detect_version data =
     (if length data < 4 then Some (Inl (UnsupportedVersion 0))
      else do {
        m \<leftarrow> slice data 0 3;
        if m \<noteq> FILE_MAGIC then Some (Inl (UnsupportedVersion 0))
        else do { b \<leftarrow> idx data 3; Some (version_try_from b) } })"

definition validate_compatibility :: "format_version \<Rightarrow> format_version \<Rightarrow> zumic_error + compatibility_info" where
  "validate_compatibility reader dump =
     (let info = compat_check reader dump in
      if \<not> ci_can_read info then Inl (IncompatibleVersion (version_byte reader) (version_byte dump))
      else Inr info)"

definition version_changes :: "format_version \<Rightarrow> format_version \<Rightarrow> string list" where
  "version_changes frm target =
     (if frm < V1 \<and> target \<ge> V1 then [''Added explicit version header'', ''Improved error handling''] else []) @
     (if frm < V2 \<and> target \<ge> V2
      then [''Enhanced compression algorithm'', ''Added new data types support'', ''Improved streaming performance'']
      else []) @
     (if frm < V3 \<and> target \<ge> V3
      then [''Varint encoding for all size (LEB128)'', ''20-30% space saving on typical data'',
            ''1 byte for sizes <128 (vs 4 bytes)'', ''2 bytes for sizes <16384 (vs 4 bytes)'',
            ''Backward compatible reader''] else [])"

section \<open>Properties\<close>

lemma version_try_from_byte [simp]: "version_try_from (version_byte v) = Inr v"
  by (cases v) (simp_all add: version_try_from_def)

lemma can_read_iff: "can_read r d \<longleftrightarrow> d \<le> r"
  by (cases r; cases d) (simp_all add: less_eq_format_version_def word_le_nat_alt)

lemma validate_compatibility_ok: "d \<le> r \<Longrightarrow> validate_compatibility r d = Inr (compat_check r d)"
  by (simp add: validate_compatibility_def Let_def compat_check_def can_read_iff)

lemma validate_compatibility_current: "validate_compatibility current d = Inr (compat_check current d)"
  by (rule validate_compatibility_ok) (cases d; simp add: less_eq_format_version_def current_def word_le_nat_alt)

text \<open>A version reads exactly the dumps of its own and of older versions: \<open>validate_compatibility\<close>
  accepts those and reports the two version numbers for every other; the current version reads all.
  The version byte of a header round-trips, \<open>detect_version\<close> returns the version of every dump that
  starts with the header, never panics, and upgrades lead from every version to the current one.\<close>
theorem version_compatibility:
  "validate_compatibility r d =
     (if d \<le> r then Inr (compat_check r d) else Inl (IncompatibleVersion (version_byte r) (version_byte d))) \<and>
   (\<exists>i. validate_compatibility current d = Inr i) \<and>
   version_try_from (version_byte d) = Inr d \<and>
   detect_version (FILE_MAGIC @ version_byte d # rest) = Some (Inr d) \<and>
   detect_version data \<noteq> None \<and>
   (warnings (compat_check r d) = [] \<longleftrightarrow> d \<le> r \<and> V1 < d) \<and>
   (case recommended_upgrade d of Some u \<Rightarrow> d < u \<and> u \<le> current | None \<Rightarrow> d = current)"
proof (intro conjI)
  show "validate_compatibility r d =
     (if d \<le> r then Inr (compat_check r d) else Inl (IncompatibleVersion (version_byte r) (version_byte d)))"
    by (simp add: validate_compatibility_def Let_def compat_check_def can_read_iff)
  show "\<exists>i. validate_compatibility current d = Inr i" by (simp add: validate_compatibility_current)
  show "version_try_from (version_byte d) = Inr d" by simp
  show "detect_version (FILE_MAGIC @ version_byte d # rest) = Some (Inr d)"
    by (simp add: detect_version_def slice_def)
  show "detect_version data \<noteq> None"
    by (auto simp: detect_version_def slice_def)
  show "warnings (compat_check r d) = [] \<longleftrightarrow> d \<le> r \<and> V1 < d"
    by (cases r; cases d)
      (simp_all add: compat_check_def less_eq_format_version_def less_format_version_def word_le_nat_alt word_less_nat_alt)
  show "case recommended_upgrade d of Some u \<Rightarrow> d < u \<and> u \<le> current | None \<Rightarrow> d = current"
    by (cases d) (simp_all add: current_def less_eq_format_version_def less_format_version_def word_le_nat_alt word_less_nat_alt)
qed

end
