(* ===== verification/Zdb_Encode.thy ===== *)
theory Zdb_Encode
  imports Varint Zdb_File QuickList SmartHash Dict SkipList Hll Bitmap Streams
begin

text \<open>
  \<open>Value\<close> of \<open>src/database/types.rs\<close> over the models of the containers, and \<open>src/engine/zdb/encode.rs\<close>:
  values, dumps and streams written to any \<open>Write\<close>. The functions outside the crate are the fields of
  \<open>zenv\<close>: the traversal orders of the standard hash maps, the hash of \<open>Dict\<close>, the random numbers of
  \<open>SkipList\<close>, \<open>crc32fast\<close>, \<open>zstd\<close> and the widening of an \<open>f32\<close>.
  A \<open>f64\<close> is its bits; a value of \<open>OrderedFloat<f64>\<close>, a type of another crate, is its rank in the order of
  that crate, \<open>score_rank\<close> being the constructor and \<open>into_inner\<close> the bits of a value of that rank.
\<close>

section \<open>Values\<close>

type_synonym ordered_float = int

type_synonym 'a hash_set = "('a, unit) hash_map"

datatype zvalue =
    Str bytes
  | IntV i64
  | Float u64
  | Bool bool
  | Null
  | List "bytes quicklist"
  | Array "zvalue list"
  | Hash "(bytes, bytes) smart_hash"
  | ZSet "(bytes, u64) dict" "(ordered_float, bytes) skip_list"
  | Set "bytes hash_set"
  | HyperLogLog hll
  | SStream "(stream_id \<times> (bytes \<times> zvalue) list) list"
  | Bitmap bitmap

record zenv =
  hash_order :: "(bytes, bytes) order"
  set_order :: "(bytes, unit) order"
  data_order :: "(bytes, zvalue) order"
  dict_hash :: "bytes \<Rightarrow> u64"
  sl_rand :: "nat \<Rightarrow> u32"
  crc32 :: "bytes \<Rightarrow> u32"
  encode_all :: "bytes \<Rightarrow> io_error + bytes"
  zstd_decoder :: "bytes \<Rightarrow> bytes \<times> bool"
  f32_to_f64 :: "u32 \<Rightarrow> u64"
  score_rank :: "u64 \<Rightarrow> ordered_float"
  into_inner :: "ordered_float \<Rightarrow> u64"

abbreviation HLL_P :: nat where "HLL_P \<equiv> 14"

section \<open>Tags and compression\<close>

abbreviation TAG_STR :: u8 where "TAG_STR \<equiv> 0x01"
abbreviation TAG_INT :: u8 where "TAG_INT \<equiv> 0x02"
abbreviation TAG_FLOAT :: u8 where "TAG_FLOAT \<equiv> 0x03"
abbreviation TAG_BOOL :: u8 where "TAG_BOOL \<equiv> 0x0B"
abbreviation TAG_NULL :: u8 where "TAG_NULL \<equiv> 0x04"
abbreviation TAG_LIST :: u8 where "TAG_LIST \<equiv> 0x05"
abbreviation TAG_HASH :: u8 where "TAG_HASH \<equiv> 0x06"
abbreviation TAG_ZSET :: u8 where "TAG_ZSET \<equiv> 0x07"
abbreviation TAG_SET :: u8 where "TAG_SET \<equiv> 0x08"
abbreviation TAG_HLL :: u8 where "TAG_HLL \<equiv> 0x09"
abbreviation TAG_SSTREAM :: u8 where "TAG_SSTREAM \<equiv> 0x0A"
abbreviation TAG_COMPRESSED :: u8 where "TAG_COMPRESSED \<equiv> 0x0C"
abbreviation TAG_EOF :: u8 where "TAG_EOF \<equiv> 0xFF"
abbreviation TAG_ARRAY :: u8 where "TAG_ARRAY \<equiv> 0x0D"
abbreviation TAG_BITMAP :: u8 where "TAG_BITMAP \<equiv> 0x0E"

abbreviation MIN_COMPRESSION_SIZE :: nat where "MIN_COMPRESSION_SIZE \<equiv> 64"

definition should_compress :: "nat \<Rightarrow> bool" where
  "should_compress sz \<longleftrightarrow> sz \<ge> MIN_COMPRESSION_SIZE"

definition compress_block :: "zenv \<Rightarrow> bytes \<Rightarrow> io_error + bytes" where
  "compress_block env data = encode_all env data"

section \<open>Writing values\<close>

definition write_bytes :: "'w write_all \<Rightarrow> 'w \<Rightarrow> bytes \<Rightarrow> 'w zres" where
  "write_bytes write_all w bs = zio (write_all w bs)"

definition write_u8 :: "'w write_all \<Rightarrow> 'w \<Rightarrow> u8 \<Rightarrow> 'w zres" where
  "write_u8 write_all w b = write_bytes write_all w [b]"

text \<open>\<open>write_u32::<BigEndian>\<close>, and the eight-byte writes of \<open>u64\<close>, \<open>i64\<close> and \<open>f64\<close>.\<close>

definition write_u32 :: "'w write_all \<Rightarrow> 'w \<Rightarrow> u32 \<Rightarrow> 'w zres" where
  "write_u32 write_all w x = write_bytes write_all w (to_be_bytes 4 x)"

definition write_u64 :: "'w write_all \<Rightarrow> 'w \<Rightarrow> u64 \<Rightarrow> 'w zres" where
  "write_u64 write_all w x = write_bytes write_all w (to_be_bytes 8 x)"

definition write_length :: "'w write_all \<Rightarrow> 'w \<Rightarrow> u32 \<Rightarrow> format_version \<Rightarrow> 'w zres" where
  "write_length write_all w len version =
     (if uses_varint version then Some (map_sum id fst (write_varint write_all w len))
      else write_u32 write_all w len)"

text \<open>A length and the bytes it counts; the length is cut to 32 bits.\<close>

definition write_sized :: "'w write_all \<Rightarrow> 'w \<Rightarrow> bytes \<Rightarrow> format_version \<Rightarrow> 'w zres" where
  "write_sized write_all w b version =
     zbind (write_length write_all w (of_nat (length b)) version) (\<lambda>w. write_bytes write_all w b)"

definition write_str :: "'w write_all \<Rightarrow> 'w \<Rightarrow> bytes \<Rightarrow> format_version \<Rightarrow> 'w zres" where
  "write_str write_all w b version =
     zbind (write_u8 write_all w TAG_STR) (\<lambda>w. write_sized write_all w b version)"

function write_value_inner :: "'w write_all \<Rightarrow> zenv \<Rightarrow> format_version \<Rightarrow> zvalue \<Rightarrow> 'w \<Rightarrow> 'w zres" where
  "write_value_inner wa env ver (Str s) w = write_str wa w s ver"
| "write_value_inner wa env ver (IntV i) w = zbind (write_u8 wa w TAG_INT) (\<lambda>w. write_u64 wa w i)"
| "write_value_inner wa env ver (Float f) w = zbind (write_u8 wa w TAG_FLOAT) (\<lambda>w. write_u64 wa w f)"
| "write_value_inner wa env ver (Bool b) w =
     zbind (write_u8 wa w TAG_BOOL) (\<lambda>w. write_u8 wa w (if b then 1 else 0))"
| "write_value_inner wa env ver Null w = write_u8 wa w TAG_NULL"
| "write_value_inner wa env ver (List l) w =
     zbind (write_u8 wa w TAG_LIST) (\<lambda>w.
     zbind (write_length wa w (of_nat (ql_len l)) ver) (\<lambda>w.
     zfor (\<lambda>item w. write_str wa w item ver) (concat (segments l)) w))"
| "write_value_inner wa env ver (Array arr) w =
     zbind (write_u8 wa w TAG_ARRAY) (\<lambda>w.
     zbind (write_length wa w (of_nat (length arr)) ver) (\<lambda>w.
     zfor (\<lambda>item w. write_value_inner wa env ver item w) arr w))"
| "write_value_inner wa env ver (Hash hmap) w =
     zbind (write_u8 wa w TAG_HASH) (\<lambda>w.
     zbind (write_length wa w (of_nat (sh_len hmap)) ver) (\<lambda>w.
     zfor (\<lambda>(field, val) w.
       zbind (write_sized wa w field ver) (\<lambda>w.
       zbind (write_u8 wa w TAG_STR) (\<lambda>w.
       write_sized wa w val ver))) (sh_entries (hash_order env) hmap) w))"
| "write_value_inner wa env ver (ZSet d sl) w =
     zbind (write_u8 wa w TAG_ZSET) (\<lambda>w.
     zbind (write_length wa w (of_nat (dict_len d)) ver) (\<lambda>w.
     zbind (zlift (sl_serialize sl)) (\<lambda>items.
     zfor (\<lambda>(score, key) w.
       zbind (write_sized wa w key ver) (\<lambda>w.
       write_u64 wa w (into_inner env score))) items w)))"
| "write_value_inner wa env ver (Set s) w =
     zbind (write_u8 wa w TAG_SET) (\<lambda>w.
     zbind (write_length wa w (of_nat (length s)) ver) (\<lambda>w.
     zfor (\<lambda>(mb, _) w. write_sized wa w mb ver) (hm_iter (set_order env) s) w))"
| "write_value_inner wa env ver (HyperLogLog h) w =
     zbind (write_u8 wa w TAG_HLL) (\<lambda>w.
     case encoding h of
       Dense data \<Rightarrow> write_sized wa w data ver
     | Sparse sparse \<Rightarrow> zbind (zlift (from_sparse HLL_P sparse)) (\<lambda>data. write_sized wa w data ver))"
| "write_value_inner wa env ver (SStream es) w =
     zbind (write_u8 wa w TAG_SSTREAM) (\<lambda>w.
     zbind (write_length wa w (of_nat (length es)) ver) (\<lambda>w.
     zfor (\<lambda>(eid, data) w.
       zbind (write_u64 wa w (ms_time eid)) (\<lambda>w.
       zbind (write_u64 wa w (sequence eid)) (\<lambda>w.
       zbind (write_length wa w (of_nat (length data)) ver) (\<lambda>w.
       zfor (\<lambda>(field, val) w.
         zbind (write_sized wa w field ver) (\<lambda>w.
         write_value_inner wa env ver val w)) (hm_iter (data_order env) data) w)))) es w))"
| "write_value_inner wa env ver (Bitmap bm) w =
     zbind (write_u8 wa w TAG_BITMAP) (\<lambda>w. write_sized wa w (bm_bytes bm) ver)"
  by pat_completeness auto
termination
proof (relation "measure (\<lambda>(wa, env, ver, v, w). size v)", goal_cases)
  case (3 wa env ver es w w1 w2 p s eid data w3 w4 w5 w6 q t k v w7)
  have kv: "(k, v) \<in> set data" using 3 by (auto simp: hm_iter_facts)
  have es: "(eid, data) \<in> set es" using 3 by auto
  have "size v \<le> size_list (size_prod (\<lambda>_. 0) size) data"
    by (rule size_list_estimation'[OF kv]) simp
  then have "size v \<le> size_list (size_prod (\<lambda>_. 0) (size_list (size_prod (\<lambda>_. 0) size))) es"
    by (intro size_list_estimation'[OF es]) simp
  then show ?case by simp
qed (auto intro: size_list_estimation' simp: less_Suc_eq_le)

definition write_value_versioned :: "'w write_all \<Rightarrow> zenv \<Rightarrow> 'w \<Rightarrow> zvalue \<Rightarrow> format_version \<Rightarrow> 'w zres" where
  "write_value_versioned wa env w v ver =
     zbind (write_value_inner vec_write_all env ver v []) (\<lambda>buf.
     if should_compress (length buf) then
       case compress_block env buf of
         Inl _ \<Rightarrow> zerr CompressionError
       | Inr compressed \<Rightarrow>
           zbind (write_u8 wa w TAG_COMPRESSED) (\<lambda>w. write_sized wa w compressed ver)
     else write_bytes wa w buf)"

definition write_value :: "'w write_all \<Rightarrow> zenv \<Rightarrow> 'w \<Rightarrow> zvalue \<Rightarrow> 'w zres" where
  "write_value wa env w v = write_value_versioned wa env w v current"

definition write_value_no_compress :: "'w write_all \<Rightarrow> zenv \<Rightarrow> 'w \<Rightarrow> zvalue \<Rightarrow> 'w zres" where
  "write_value_no_compress wa env w v = write_value_inner wa env current v w"

section \<open>Writing dumps and streams\<close>

text \<open>The body goes to \<open>buf\<close>; the bytes of a key are written to \<open>w\<close>, as in the source.\<close>

definition write_dump_versioned :: "'w write_all \<Rightarrow> zenv \<Rightarrow> 'w \<Rightarrow> (bytes \<times> zvalue) list \<Rightarrow> format_version \<Rightarrow> 'w zres" where
  "write_dump_versioned wa env w kvs ver =
     (let buf = FILE_MAGIC @ [version_byte ver] in
      zbind (write_length vec_write_all buf (of_nat (length kvs)) ver) (\<lambda>buf.
      zbind (zfor (\<lambda>(key, val) (w, buf).
          zbind (write_length vec_write_all buf (of_nat (length key)) ver) (\<lambda>buf.
          zbind (write_bytes wa w key) (\<lambda>w.
          zbind (write_value_inner vec_write_all env ver val buf) (\<lambda>buf. zok (w, buf))))) kvs (w, buf)) (\<lambda>(w, buf).
      zbind (write_bytes wa w buf) (\<lambda>w. write_u32 wa w (crc32 env buf)))))"

definition write_dump :: "'w write_all \<Rightarrow> zenv \<Rightarrow> 'w \<Rightarrow> (bytes \<times> zvalue) list \<Rightarrow> 'w zres" where
  "write_dump wa env w kvs = write_dump_versioned wa env w kvs current"

text \<open>The closure of the source keeps what was hashed beside the writer; the hash of the pieces is the hash
  of their concatenation.\<close>

definition write_and_hash :: "'w write_all \<Rightarrow> bytes \<Rightarrow> 'w \<times> bytes \<Rightarrow> ('w \<times> bytes) zres" where
  "write_and_hash wa bs st = zbind (write_bytes wa (fst st) bs) (\<lambda>w. zok (w, snd st @ bs))"

definition write_record :: "zenv \<Rightarrow> format_version \<Rightarrow> bytes \<Rightarrow> zvalue \<Rightarrow> bytes zres" where
  "write_record env ver key val =
     zbind (write_length vec_write_all [] (of_nat (length key)) ver) (\<lambda>tmp.
     write_value_inner vec_write_all env ver val (tmp @ key))"

definition write_dump_streaming_versioned ::
  "'w write_all \<Rightarrow> zenv \<Rightarrow> 'w \<Rightarrow> (bytes \<times> zvalue) list \<Rightarrow> format_version \<Rightarrow> 'w zres" where
  "write_dump_streaming_versioned wa env w kvs ver =
     zbind (write_and_hash wa FILE_MAGIC (w, [])) (\<lambda>st.
     zbind (write_and_hash wa [version_byte ver] st) (\<lambda>st.
     zbind (write_length vec_write_all [] (of_nat (length kvs)) ver) (\<lambda>cnt_buf.
     zbind (write_and_hash wa cnt_buf st) (\<lambda>st.
     zbind (zfor (\<lambda>(key, val) st. zbind (write_record env ver key val) (\<lambda>tmp. write_and_hash wa tmp st)) kvs st) (\<lambda>(w, hashed).
     write_u32 wa w (crc32 env hashed))))))"

definition write_dump_streaming :: "'w write_all \<Rightarrow> zenv \<Rightarrow> 'w \<Rightarrow> (bytes \<times> zvalue) list \<Rightarrow> 'w zres" where
  "write_dump_streaming wa env w kvs = write_dump_streaming_versioned wa env w kvs current"

definition write_stream_versioned ::
  "'w write_all \<Rightarrow> zenv \<Rightarrow> 'w \<Rightarrow> (bytes \<times> zvalue) list \<Rightarrow> format_version \<Rightarrow> 'w zres" where
  "write_stream_versioned wa env w kvs ver =
     zbind (write_bytes wa w FILE_MAGIC) (\<lambda>w.
     zbind (write_u8 wa w (version_byte ver)) (\<lambda>w.
     zbind (zfor (\<lambda>(key, val) w.
         zbind (write_sized wa w key ver) (\<lambda>w. write_value_versioned wa env w val ver)) kvs w) (\<lambda>w.
     write_u8 wa w TAG_EOF)))"

definition write_stream :: "'w write_all \<Rightarrow> zenv \<Rightarrow> 'w \<Rightarrow> (bytes \<times> zvalue) list \<Rightarrow> 'w zres" where
  "write_stream wa env w kvs = write_stream_versioned wa env w kvs current"

section \<open>What a \<open>Vec<u8>\<close> receives\<close>

definition enc_len :: "format_version \<Rightarrow> nat \<Rightarrow> bytes" where
  "enc_len ver n = (if uses_varint ver then leb n else to_be_bytes 4 (of_nat n :: u32))"

definition enc_sized :: "format_version \<Rightarrow> bytes \<Rightarrow> bytes" where
  "enc_sized ver b = enc_len ver (length b) @ b"

text \<open>The writer \<open>f\<close> appends \<open>bs\<close> to every vector.\<close>

definition appends :: "(bytes \<Rightarrow> bytes zres) \<Rightarrow> bytes \<Rightarrow> bool" where
  "appends f bs \<longleftrightarrow> (\<forall>w. f w = zok (w @ bs))"

lemma appendsD: "appends f bs \<Longrightarrow> f w = zok (w @ bs)"
  by (simp add: appends_def)

lemma appends_bytes: "appends (\<lambda>w. write_bytes vec_write_all w bs) bs"
  by (simp add: appends_def write_bytes_def vec_write_all_def)

lemma appends_u8: "appends (\<lambda>w. write_u8 vec_write_all w b) [b]"
  by (simp add: appends_def write_u8_def write_bytes_def vec_write_all_def)

lemma appends_u64: "appends (\<lambda>w. write_u64 vec_write_all w x) (to_be_bytes 8 x)"
  by (simp add: appends_def write_u64_def write_bytes_def vec_write_all_def)

lemma appends_bind: "appends f as \<Longrightarrow> appends g bs \<Longrightarrow> appends (\<lambda>w. zbind (f w) g) (as @ bs)"
  by (simp add: appends_def)

lemma appends_length: "n < 2 ^ 32 \<Longrightarrow> appends (\<lambda>w. write_length vec_write_all w (of_nat n) ver) (enc_len ver n)"
proof -
  assume n: "n < 2 ^ 32"
  then have u: "unat (of_nat n :: u32) = n" by (simp add: unat_of_nat)
  have "write_varint vec_write_all w (of_nat n) = Inr (w @ leb n, length (leb n))" for w
    using vec.write_varint_leb[of w "of_nat n"] by (simp add: u)
  then show ?thesis
    by (simp add: appends_def write_length_def enc_len_def write_u32_def write_bytes_def vec_write_all_def zok_def)
qed

lemma appends_sized:
  "length b < 2 ^ 32 \<Longrightarrow> appends (\<lambda>w. write_sized vec_write_all w b ver) (enc_sized ver b)"
  unfolding write_sized_def enc_sized_def by (intro appends_bind appends_length appends_bytes)

lemma appends_str:
  "length b < 2 ^ 32 \<Longrightarrow> appends (\<lambda>w. write_str vec_write_all w b ver) (TAG_STR # enc_sized ver b)"
  unfolding write_str_def using appends_bind[OF appends_u8 appends_sized] by fastforce

lemma appends_for:
  assumes "\<And>x. x \<in> set xs \<Longrightarrow> appends (f x) (g x)"
  shows "appends (zfor f xs) (concat (map g xs))"
  using assms by (induction xs) (auto simp: appends_def)

end
