(* ===== verification/Zdb_Decode.thy ===== *)
theory Zdb_Decode
  imports Zdb_Encode
begin

text \<open>
  The value readers of \<open>src/engine/zdb/decode.rs\<close>. A reader is the bytes it has left, which covers the
  cursors and slices the code reads from; a \<open>zstd\<close> decoder over a block is the bytes it delivers and
  whether it reaches the end of the block without an error. The readers are recursive; the first
  argument of \<open>read_value_with_version\<close> and \<open>skip_value\<close> is the depth of calls the stack has room for, and
  \<open>None\<close> is an exhausted stack or a panic.
\<close>

section \<open>Primitive reads\<close>

abbreviation DENSE_SIZE :: nat where "DENSE_SIZE \<equiv> 16 * 1024"
abbreviation MAX_COMPRESSED_SIZE :: nat where "MAX_COMPRESSED_SIZE \<equiv> 100 * 1024 * 1024"
abbreviation MAX_STRING_SIZE :: nat where "MAX_STRING_SIZE \<equiv> 512 * 1024 * 1024"
abbreviation MAX_COLLECTION_SIZE :: nat where "MAX_COLLECTION_SIZE \<equiv> 10000000"
abbreviation MAX_BITMAP_SIZE :: nat where "MAX_BITMAP_SIZE \<equiv> 100 * 1024 * 1024"

definition read_bytes :: "nat \<Rightarrow> bytes \<Rightarrow> (bytes \<times> bytes) zres" where
  "read_bytes n r = zio (slice_read_exact r n)"

definition read_u8 :: "bytes \<Rightarrow> (u8 \<times> bytes) zres" where
  "read_u8 r = zbind (read_bytes 1 r) (\<lambda>(b, r). zbind (zlift (idx b 0)) (\<lambda>x. zok (x, r)))"

definition read_u32 :: "bytes \<Rightarrow> (u32 \<times> bytes) zres" where
  "read_u32 r = zbind (read_bytes 4 r) (\<lambda>(b, r). zok (from_be_bytes b, r))"

definition read_u64 :: "bytes \<Rightarrow> (u64 \<times> bytes) zres" where
  "read_u64 r = zbind (read_bytes 8 r) (\<lambda>(b, r). zok (from_be_bytes b, r))"

definition read_length :: "format_version \<Rightarrow> bytes \<Rightarrow> (nat \<times> bytes) zres" where
  "read_length ver r =
     zbind (if uses_varint ver then read_varint slice_read_exact r else read_u32 r) (\<lambda>(n, r). zok (unat n, r))"

text \<open>A length checked against a limit.\<close>

definition read_limited :: "nat \<Rightarrow> format_version \<Rightarrow> bytes \<Rightarrow> (nat \<times> bytes) zres" where
  "read_limited limit ver r =
     zbind (read_length ver r) (\<lambda>(n, r). zbind (zensure (n \<le> limit) (SizeLimit n limit)) (\<lambda>_. zok (n, r)))"

definition read_sized :: "nat \<Rightarrow> format_version \<Rightarrow> bytes \<Rightarrow> (bytes \<times> bytes) zres" where
  "read_sized limit ver r = zbind (read_limited limit ver r) (\<lambda>(n, r). read_bytes n r)"

section \<open>Values by type\<close>

definition read_string_value :: "format_version \<Rightarrow> bytes \<Rightarrow> (zvalue \<times> bytes) zres" where
  "read_string_value ver r = zbind (read_sized MAX_STRING_SIZE ver r) (\<lambda>(b, r). zok (Str b, r))"

definition read_int_value :: "bytes \<Rightarrow> (zvalue \<times> bytes) zres" where
  "read_int_value r = zbind (read_u64 r) (\<lambda>(i, r). zok (IntV i, r))"

definition read_float_value :: "bytes \<Rightarrow> (zvalue \<times> bytes) zres" where
  "read_float_value r = zbind (read_u64 r) (\<lambda>(f, r). zok (Float f, r))"

definition read_bool_value :: "bytes \<Rightarrow> (zvalue \<times> bytes) zres" where
  "read_bool_value r = zbind (read_u8 r) (\<lambda>(b, r). zok (Bool (b \<noteq> 0), r))"

definition read_compressed_value ::
  "(bytes \<Rightarrow> (zvalue \<times> bytes) zres) \<Rightarrow> zenv \<Rightarrow> format_version \<Rightarrow> bytes \<Rightarrow> (zvalue \<times> bytes) zres" where
  "read_compressed_value rd env ver r =
     zbind (read_length ver r) (\<lambda>(len, r).
     zbind (zensure (len > 0) CompressionError) (\<lambda>_.
     zbind (zensure (len \<le> MAX_COMPRESSED_SIZE) (SizeLimit len MAX_COMPRESSED_SIZE)) (\<lambda>_.
     let (decoded, clean) = zstd_decoder env (take len r) in
     zbind (rd decoded) (\<lambda>(val, _).
     zbind (zensure clean (Io [] OtherError)) (\<lambda>_. zok (val, drop len r))))))"

definition read_hash_entry ::
  "(bytes \<Rightarrow> (zvalue \<times> bytes) zres) \<Rightarrow> zenv \<Rightarrow> format_version \<Rightarrow> (bytes, bytes) smart_hash \<times> bytes \<Rightarrow>
   ((bytes, bytes) smart_hash \<times> bytes) zres" where
  "read_hash_entry rd env ver st =
     zbind (read_sized MAX_STRING_SIZE ver (snd st)) (\<lambda>(kb, r).
     zbind (rd r) (\<lambda>(raw, r).
     case raw of
       Str s \<Rightarrow> zok (fst (sh_insert (hash_order env) (fst st) kb s), r)
     | _ \<Rightarrow> zerr (ParseError ''Hash'' ''Expected Str'')))"

definition read_hash_value ::
  "(bytes \<Rightarrow> (zvalue \<times> bytes) zres) \<Rightarrow> zenv \<Rightarrow> format_version \<Rightarrow> bytes \<Rightarrow> (zvalue \<times> bytes) zres" where
  "read_hash_value rd env ver r =
     zbind (read_limited MAX_COLLECTION_SIZE ver r) (\<lambda>(n, r).
     zbind (zrepeat n (read_hash_entry rd env ver) (sh_new, r)) (\<lambda>(m, r). zok (Hash m, r)))"

definition read_score :: "zenv \<Rightarrow> format_version \<Rightarrow> bytes \<Rightarrow> (u64 \<times> bytes) zres" where
  "read_score env ver r =
     (if ver = Legacy then zbind (read_u32 r) (\<lambda>(s, r). zok (f32_to_f64 env s, r)) else read_u64 r)"

definition read_zset_entry ::
  "zenv \<Rightarrow> format_version \<Rightarrow> ((bytes, u64) dict \<times> (ordered_float, bytes) skip_list) \<times> bytes \<Rightarrow>
   (((bytes, u64) dict \<times> (ordered_float, bytes) skip_list) \<times> bytes) zres" where
  "read_zset_entry env ver st =
     (let ((d, sl), r) = st in
      zbind (read_sized MAX_STRING_SIZE ver r) (\<lambda>(key, r).
      zbind (read_score env ver r) (\<lambda>(score, r).
      zbind (zlift (dict_insert (dict_hash env) d key score)) (\<lambda>(d, _).
      zbind (zlift (sl_insert (sl_rand env) sl (score_rank env score) key)) (\<lambda>sl.
      zok ((d, sl), r))))))"

definition read_zset_value :: "zenv \<Rightarrow> format_version \<Rightarrow> bytes \<Rightarrow> (zvalue \<times> bytes) zres" where
  "read_zset_value env ver r =
     zbind (read_limited MAX_COLLECTION_SIZE ver r) (\<lambda>(n, r).
     zbind (zrepeat n (read_zset_entry env ver) ((dict_with_hasher, sl_new (score_rank env 0) []), r)) (\<lambda>((d, sl), r).
     zok (ZSet d sl, r)))"

definition read_set_entry :: "format_version \<Rightarrow> bytes hash_set \<times> bytes \<Rightarrow> (bytes hash_set \<times> bytes) zres" where
  "read_set_entry ver st =
     zbind (read_sized MAX_STRING_SIZE ver (snd st)) (\<lambda>(kb, r). zok (fst (hm_insert (fst st) kb ()), r))"

definition read_set_value :: "format_version \<Rightarrow> bytes \<Rightarrow> (zvalue \<times> bytes) zres" where
  "read_set_value ver r =
     zbind (read_limited MAX_COLLECTION_SIZE ver r) (\<lambda>(n, r).
     zbind (zrepeat n (read_set_entry ver) ([], r)) (\<lambda>(s, r). zok (Set s, r)))"

definition read_hll_value :: "format_version \<Rightarrow> bytes \<Rightarrow> (zvalue \<times> bytes) zres" where
  "read_hll_value ver r =
     (let limit = (if ver = Legacy then DENSE_SIZE else DENSE_SIZE * 2) in
      zbind (read_sized limit ver r) (\<lambda>(regs, r).
      let data = replicate DENSE_SIZE 0; to_copy = min (length regs) DENSE_SIZE in
      zbind (zlift (slice regs 0 to_copy)) (\<lambda>src.
      zbind (zlift (copy_from_slice data 0 to_copy src)) (\<lambda>data.
      zok (HyperLogLog \<lparr> encoding = Dense data, hll_version = 1 \<rparr>, r)))))"

definition read_array_value ::
  "(bytes \<Rightarrow> (zvalue \<times> bytes) zres) \<Rightarrow> format_version \<Rightarrow> bytes \<Rightarrow> (zvalue \<times> bytes) zres" where
  "read_array_value rd ver r =
     zbind (read_limited MAX_COLLECTION_SIZE ver r) (\<lambda>(n, r).
     zbind (zrepeat n (\<lambda>(items, r). zbind (rd r) (\<lambda>(item, r). zok (items @ [item], r))) ([], r)) (\<lambda>(items, r).
     zok (Array items, r)))"

definition read_bitmap_value :: "format_version \<Rightarrow> bytes \<Rightarrow> (zvalue \<times> bytes) zres" where
  "read_bitmap_value ver r =
     (let limit = (if ver = Legacy then 1024 * 1024 else MAX_BITMAP_SIZE) in
      zbind (read_sized limit ver r) (\<lambda>(buf, r). zok (Bitmap (bm_new \<lparr> bm_bytes := buf \<rparr>), r)))"

section \<open>Any value\<close>

definition read_tagged ::
  "(bytes \<Rightarrow> (zvalue \<times> bytes) zres) \<Rightarrow> zenv \<Rightarrow> format_version \<Rightarrow> u8 \<Rightarrow> bytes \<Rightarrow> (zvalue \<times> bytes) zres" where
  "read_tagged rd env ver tag r =
     (if tag = TAG_STR then read_string_value ver r
      else if tag = TAG_INT then read_int_value r
      else if tag = TAG_FLOAT then read_float_value r
      else if tag = TAG_BOOL then read_bool_value r
      else if tag = TAG_NULL then zok (Null, r)
      else if tag = TAG_COMPRESSED then read_compressed_value rd env ver r
      else if tag = TAG_HASH then read_hash_value rd env ver r
      else if tag = TAG_ZSET then read_zset_value env ver r
      else if tag = TAG_SET then read_set_value ver r
      else if tag = TAG_HLL then read_hll_value ver r
      else if tag = TAG_ARRAY then read_array_value rd ver r
      else if tag = TAG_BITMAP then read_bitmap_value ver r
      else zerr (InvalidTag tag))"

primrec read_value_with_version :: "nat \<Rightarrow> zenv \<Rightarrow> format_version \<Rightarrow> bytes \<Rightarrow> (zvalue \<times> bytes) zres" where
  "read_value_with_version 0 env ver r = None"
| "read_value_with_version (Suc depth) env ver r =
     (case r of
        [] \<Rightarrow> zerr ZdbUnexpectedEof
      | tag # r \<Rightarrow> read_tagged (read_value_with_version depth env ver) env ver tag r)"

definition read_value :: "nat \<Rightarrow> zenv \<Rightarrow> bytes \<Rightarrow> (zvalue \<times> bytes) zres" where
  "read_value depth env r = read_value_with_version depth env current r"

section \<open>Skipping\<close>

text \<open>\<open>read\<close> on a slice fills the buffer as far as there are bytes.\<close>

function skip_bytes :: "nat \<Rightarrow> bytes \<Rightarrow> bytes zres" where
  "skip_bytes n r =
     (if n > 0 then
        let to_read = min n (8 * 1024); rd = min to_read (length r) in
        if rd = 0 then zerr ZdbUnexpectedEof else skip_bytes (n - rd) (drop rd r)
      else zok r)"
  by pat_completeness auto
termination
  by (relation "measure fst") auto

declare skip_bytes.simps [simp del]

definition skip_sized :: "format_version \<Rightarrow> bytes \<Rightarrow> bytes zres" where
  "skip_sized ver r = zbind (read_length ver r) (\<lambda>(n, r). skip_bytes n r)"

definition skip_n :: "format_version \<Rightarrow> (bytes \<Rightarrow> bytes zres) \<Rightarrow> bytes \<Rightarrow> bytes zres" where
  "skip_n ver f r = zbind (read_length ver r) (\<lambda>(n, r). zrepeat n f r)"

definition skip_read :: "('a \<times> bytes) zres \<Rightarrow> bytes zres" where
  "skip_read m = zbind m (\<lambda>(_, r). zok r)"

definition skip_tagged :: "(bytes \<Rightarrow> bytes zres) \<Rightarrow> format_version \<Rightarrow> u8 \<Rightarrow> bytes \<Rightarrow> bytes zres" where
  "skip_tagged sk ver tag r =
     (if tag = TAG_NULL then zok r
      else if tag = TAG_BOOL then skip_read (read_u8 r)
      else if tag = TAG_INT then skip_read (read_u64 r)
      else if tag = TAG_FLOAT then skip_read (read_u64 r)
      else if tag = TAG_STR then skip_sized ver r
      else if tag = TAG_COMPRESSED then skip_sized ver r
      else if tag = TAG_ARRAY then skip_n ver sk r
      else if tag = TAG_HASH then skip_n ver (\<lambda>r. zbind (skip_sized ver r) sk) r
      else if tag = TAG_SET then skip_n ver (skip_sized ver) r
      else if tag = TAG_ZSET then
        skip_n ver (\<lambda>r. zbind (skip_sized ver r) (\<lambda>r.
          if ver = Legacy then skip_read (read_u32 r) else skip_read (read_u64 r))) r
      else if tag = TAG_HLL then skip_sized ver r
      else if tag = TAG_BITMAP then skip_sized ver r
      else zerr (InvalidTag tag))"

primrec skip_value :: "nat \<Rightarrow> format_version \<Rightarrow> bytes \<Rightarrow> bytes zres" where
  "skip_value 0 ver r = None"
| "skip_value (Suc depth) ver r =
     zbind (read_u8 r) (\<lambda>(tag, r). skip_tagged (skip_value depth ver) ver tag r)"

section \<open>Reading what was written\<close>

lemma read_bytes_app [simp]: "read_bytes (length b) (b @ rest) = zok (b, rest)"
  by (simp add: read_bytes_def slice_read_exact_def)

lemma read_bytes_app_len: "n = length b \<Longrightarrow> read_bytes n (b @ rest) = zok (b, rest)"
  by simp

lemma read_u8_Cons [simp]: "read_u8 (b # r) = zok (b, r)"
  by (simp add: read_u8_def read_bytes_def slice_read_exact_def)

lemma read_u64_be [simp]: "read_u64 (to_be_bytes 8 x @ rest) = zok (x, rest)"
  by (simp add: read_u64_def read_bytes_app_len from_to_be_bytes)

lemma read_u32_be [simp]: "read_u32 (to_be_bytes 4 x @ rest) = zok (x, rest)"
  by (simp add: read_u32_def read_bytes_app_len from_to_be_bytes)

lemma read_length_enc: "n < 2 ^ 32 \<Longrightarrow> read_length ver (enc_len ver n @ rest) = zok (n, rest)"
proof -
  assume "n < 2 ^ 32"
  then have u: "unat (of_nat n :: u32) = n" by (simp add: unat_of_nat)
  have "read_varint slice_read_exact (leb n @ rest) = zok (of_nat n, rest)"
    using slc.read_varint_leb[of _ "of_nat n :: u32" rest] by (simp add: u zok_def)
  then show ?thesis by (simp add: read_length_def enc_len_def u)
qed

lemma read_limited_enc:
  "n < 2 ^ 32 \<Longrightarrow> n \<le> limit \<Longrightarrow> read_limited limit ver (enc_len ver n @ rest) = zok (n, rest)"
  by (simp add: read_limited_def read_length_enc)

lemma read_sized_enc:
  assumes "length b \<le> limit" "length b < 2 ^ 32"
  shows "read_sized limit ver (enc_sized ver b @ rest) = zok (b, rest)"
  using assms by (simp add: read_sized_def enc_sized_def read_limited_enc)

lemma skip_bytes_app: "skip_bytes (length b) (b @ rest) = zok rest"
proof (induction "length b" arbitrary: b rule: less_induct)
  case less
  show ?case
  proof (cases "b = []")
    case False
    define k where "k = min (length b) (8 * 1024)"
    have k: "0 < k" "k \<le> length b" using False by (simp_all add: k_def)
    have "length (drop k b) < length b" using k False by simp
    then have IH: "skip_bytes (length b - k) (drop k b @ rest) = zok rest" using less[of "drop k b"] by simp
    have "min k (length (b @ rest)) = k" using k by simp
    then show ?thesis using k IH False
      by (subst skip_bytes.simps) (simp add: Let_def k_def)
  qed (simp add: skip_bytes.simps)
qed

lemma skip_sized_enc: "length b < 2 ^ 32 \<Longrightarrow> skip_sized ver (enc_sized ver b @ rest) = zok rest"
  by (simp add: skip_sized_def enc_sized_def read_length_enc skip_bytes_app)

end
