(* ===== verification/Zdb_Roundtrip.thy ===== *)
theory Zdb_Roundtrip
  imports Zdb_Decode
begin

text \<open>
  What \<open>read_value_with_version\<close> returns on the bytes of \<open>write_value_inner\<close>. The value read is the value
  written up to the representation: the tables of a hash or a sorted set are rebuilt, a sparse
  HyperLogLog comes back dense and padded. \<open>writable\<close> collects the limits of the reader and the
  invariants of the containers.
\<close>

section \<open>Values the reader accepts\<close>

fun depth :: "zvalue \<Rightarrow> nat" where
  "depth (Array vs) = Suc (foldr max (map depth vs) 0)"
| "depth (Hash _) = 2"
| "depth _ = 1"

text \<open>The members of a sorted set with their scores, in the order of the skip list.\<close>

definition zset_ok :: "zenv \<Rightarrow> (bytes, u64) dict \<Rightarrow> (ordered_float, bytes) skip_list \<Rightarrow> bool" where
  "zset_ok env d sl \<longleftrightarrow> dict_inv (dict_hash env) d \<and> sl_inv sl \<and> dict_len d = length (sl_items sl) \<and>
     distinct (map snd (sl_items sl)) \<and>
     (\<lambda>m. map_option (score_rank env) (dict_abs d m)) = map_of (map (\<lambda>(k, m). (m, k)) (sl_items sl)) \<and>
     (\<forall>(k, m) \<in> set (sl_items sl). score_rank env (into_inner env k) = k)"

fun writable :: "zenv \<Rightarrow> format_version \<Rightarrow> zvalue \<Rightarrow> bool" where
  "writable env ver (Str s) \<longleftrightarrow> length s \<le> MAX_STRING_SIZE"
| "writable env ver (Array vs) \<longleftrightarrow> length vs \<le> MAX_COLLECTION_SIZE \<and> list_all (writable env ver) vs"
| "writable env ver (Hash s) \<longleftrightarrow> sh_inv s \<and> sh_len s \<le> MAX_COLLECTION_SIZE \<and>
     (\<forall>(k, v) \<in> set (sh_pairs s). length k \<le> MAX_STRING_SIZE \<and> length v \<le> MAX_STRING_SIZE)"
| "writable env ver (ZSet d sl) \<longleftrightarrow> ver \<noteq> Legacy \<and> zset_ok env d sl \<and>
     length (sl_items sl) \<le> MAX_COLLECTION_SIZE \<and> (\<forall>(k, m) \<in> set (sl_items sl). length m \<le> MAX_STRING_SIZE)"
| "writable env ver (Set s) \<longleftrightarrow> distinct (map fst s) \<and> length s \<le> MAX_COLLECTION_SIZE \<and>
     (\<forall>(m, _) \<in> set s. length m \<le> MAX_STRING_SIZE)"
| "writable env ver (HyperLogLog h) \<longleftrightarrow> (case encoding h of
       Dense d \<Rightarrow> dense_size HLL_P \<le> length d \<and> length d \<le> DENSE_SIZE
     | Sparse s \<Rightarrow> (\<exists>r. hll_regs HLL_P h r))"
| "writable env ver (Bitmap b) \<longleftrightarrow> length (bm_bytes b) \<le> (if ver = Legacy then 1024 * 1024 else MAX_BITMAP_SIZE)"
| "writable env ver (List _) \<longleftrightarrow> False"
| "writable env ver (SStream _) \<longleftrightarrow> False"
| "writable env ver (IntV _) \<longleftrightarrow> True"
| "writable env ver (Float _) \<longleftrightarrow> True"
| "writable env ver (Bool _) \<longleftrightarrow> True"
| "writable env ver Null \<longleftrightarrow> True"

text \<open>Equality of values up to the representation of the containers.\<close>

fun same_value :: "zenv \<Rightarrow> zvalue \<Rightarrow> zvalue \<Rightarrow> bool" where
  "same_value env (Array vs) w \<longleftrightarrow> (case w of Array ws \<Rightarrow> list_all2 (same_value env) vs ws | _ \<Rightarrow> False)"
| "same_value env (Hash s) w \<longleftrightarrow> (case w of Hash t \<Rightarrow> sh_abs s = sh_abs t | _ \<Rightarrow> False)"
| "same_value env (ZSet d sl) w \<longleftrightarrow> (case w of
       ZSet e sm \<Rightarrow> (\<lambda>m. map_option (score_rank env) (dict_abs d m)) = (\<lambda>m. map_option (score_rank env) (dict_abs e m)) \<and>
         sl_items sl = sl_items sm
     | _ \<Rightarrow> False)"
| "same_value env (Set s) w \<longleftrightarrow> (case w of Set t \<Rightarrow> fst ` set s = fst ` set t | _ \<Rightarrow> False)"
| "same_value env (HyperLogLog h) w \<longleftrightarrow> (case w of
       HyperLogLog g \<Rightarrow> \<forall>i < num_registers HLL_P. hll_get_register HLL_P h i = hll_get_register HLL_P g i
     | _ \<Rightarrow> False)"
| "same_value env (Str s) w \<longleftrightarrow> w = Str s"
| "same_value env (IntV i) w \<longleftrightarrow> w = IntV i"
| "same_value env (Float f) w \<longleftrightarrow> w = Float f"
| "same_value env (Bool b) w \<longleftrightarrow> w = Bool b"
| "same_value env Null w \<longleftrightarrow> w = Null"
| "same_value env (List l) w \<longleftrightarrow> w = List l"
| "same_value env (SStream es) w \<longleftrightarrow> w = SStream es"
| "same_value env (Bitmap b) w \<longleftrightarrow> w = Bitmap b"

section \<open>Loops\<close>

lemma zrepeat_read:
  assumes "\<And>x st rest. x \<in> set xs \<Longrightarrow> f (st, g x @ rest) = zok (step x st, rest)"
  shows "zrepeat (length xs) f (st, concat (map g xs) @ rest) = zok (fold step xs st, rest)"
  using assms by (induction xs arbitrary: st) simp_all

lemma zrepeat_skip:
  assumes "\<And>x rest. x \<in> set xs \<Longrightarrow> f (g x @ rest) = zok rest"
  shows "zrepeat (length xs) f (concat (map g xs) @ rest) = zok rest"
  using assms by (induction xs) simp_all

lemma skip_n_enc:
  assumes "\<And>x rest. x \<in> set xs \<Longrightarrow> f (g x @ rest) = zok rest" "length xs < 2 ^ 32"
  shows "skip_n ver f (enc_len ver (length xs) @ concat (map g xs) @ rest) = zok rest"
  using zrepeat_skip[of xs f g rest] assms by (simp add: skip_n_def read_length_enc)

section \<open>One value\<close>

definition trip :: "zenv \<Rightarrow> format_version \<Rightarrow> zvalue \<Rightarrow> bytes \<Rightarrow> zvalue \<Rightarrow> bool" where
  "trip env ver v bs v' \<longleftrightarrow> appends (write_value_inner vec_write_all env ver v) bs \<and>
     (\<forall>n rest. depth v \<le> n \<longrightarrow> read_value_with_version n env ver (bs @ rest) = zok (v', rest) \<and>
        skip_value n ver (bs @ rest) = zok rest) \<and> same_value env v v'"

lemma tripI:
  assumes "appends (write_value_inner vec_write_all env ver v) (tag # bs)"
    and "\<And>m rest. depth v \<le> Suc m \<Longrightarrow>
      read_tagged (read_value_with_version m env ver) env ver tag (bs @ rest) = zok (v', rest) \<and>
      skip_tagged (skip_value m ver) ver tag (bs @ rest) = zok rest"
    and "same_value env v v'" "0 < depth v"
  shows "trip env ver v (tag # bs) v'"
  unfolding trip_def
proof (intro conjI allI impI)
  fix n rest assume "depth v \<le> n"
  then obtain m where n: "n = Suc m" using assms(4) by (cases n) auto
  show "read_value_with_version n env ver ((tag # bs) @ rest) = zok (v', rest)"
    "skip_value n ver ((tag # bs) @ rest) = zok rest"
    using assms(2)[of m rest] \<open>depth v \<le> n\<close> by (simp_all add: n)
qed (use assms in auto)

lemma appends_tag: "appends f bs \<Longrightarrow> appends (\<lambda>w. zbind (write_u8 vec_write_all w tag) f) (tag # bs)"
  using appends_bind[OF appends_u8, of f bs tag] by simp

lemmas write_value_fun = write_value_inner.simps [abs_def]

lemma trip_str: "length s \<le> MAX_STRING_SIZE \<Longrightarrow> trip env ver (Str s) (TAG_STR # enc_sized ver s) (Str s)"
  by (rule tripI)
    (use appends_str[of s ver] in \<open>simp_all add: write_value_fun read_tagged_def skip_tagged_def read_string_value_def
      read_sized_enc skip_sized_enc\<close>)

lemma trip_int: "trip env ver (IntV i) (TAG_INT # to_be_bytes 8 i) (IntV i)"
  by (rule tripI)
    (simp_all add: write_value_fun appends_tag[OF appends_u64] read_tagged_def skip_tagged_def read_int_value_def
      skip_read_def)

lemma trip_float: "trip env ver (Float f) (TAG_FLOAT # to_be_bytes 8 f) (Float f)"
  by (rule tripI)
    (simp_all add: write_value_fun appends_tag[OF appends_u64] read_tagged_def skip_tagged_def
      read_float_value_def skip_read_def)

lemma trip_bool: "trip env ver (Bool b) (TAG_BOOL # [if b then 1 else 0]) (Bool b)"
  by (rule tripI)
    (unfold write_value_fun, rule appends_tag[OF appends_u8],
      simp_all add: read_tagged_def skip_tagged_def read_bool_value_def skip_read_def)

lemma trip_null: "trip env ver Null [TAG_NULL] Null"
  by (rule tripI) (simp_all add: write_value_fun appends_u8 read_tagged_def skip_tagged_def)

lemma trip_bitmap:
  assumes "writable env ver (Bitmap b)"
  shows "trip env ver (Bitmap b) (TAG_BITMAP # enc_sized ver (bm_bytes b)) (Bitmap b)"
proof -
  have l: "length (bm_bytes b) < 2 ^ 32" "length (bm_bytes b) \<le> (if ver = Legacy then 1024 * 1024 else MAX_BITMAP_SIZE)"
    using assms by (auto split: if_splits)
  have "bm_new \<lparr> bm_bytes := bm_bytes b \<rparr> = b" by (simp add: bm_new_def)
  with l show ?thesis
    by (intro tripI)
      (simp_all add: write_value_fun appends_tag[OF appends_sized[OF l(1)]] read_tagged_def skip_tagged_def
        read_bitmap_value_def Let_def read_sized_enc[OF l(2,1)] skip_sized_enc[OF l(1)])
qed

lemma trip_array:
  assumes "\<And>v. v \<in> set vs \<Longrightarrow> \<exists>bs v'. trip env ver v bs v'" "length vs \<le> MAX_COLLECTION_SIZE"
  shows "\<exists>bs v'. trip env ver (Array vs) bs v'"
proof -
  obtain g d where t: "\<And>v. v \<in> set vs \<Longrightarrow> trip env ver v (g v) (d v)" using assms(1) by metis
  let ?bs = "enc_len ver (length vs) @ concat (map g vs)"
  have l: "length vs < 2 ^ 32" using assms(2) by simp
  have w: "appends (write_value_inner vec_write_all env ver (Array vs)) (TAG_ARRAY # ?bs)"
    unfolding write_value_fun using t
    by (intro appends_tag appends_bind appends_length[OF l] appends_for) (simp add: trip_def)
  have dp: "depth v \<le> m" if "depth (Array vs) \<le> Suc m" "v \<in> set vs" for v m
    using that by (induction vs) (auto simp: max_def split: if_splits)
  have r: "read_tagged (read_value_with_version m env ver) env ver TAG_ARRAY (?bs @ rest) = zok (Array (map d vs), rest)"
    if "depth (Array vs) \<le> Suc m" for m rest
  proof -
    have "zrepeat (length vs) (\<lambda>(items, r). zbind (read_value_with_version m env ver r) (\<lambda>(item, r). zok (items @ [item], r)))
        ([], concat (map g vs) @ rest) = zok (fold (\<lambda>v items. items @ [d v]) vs [], rest)"
      by (rule zrepeat_read) (use t dp[OF that] in \<open>simp add: trip_def\<close>)
    moreover have "fold (\<lambda>v items. items @ [d v]) vs acc = acc @ map d vs" for acc
      by (induction vs arbitrary: acc) simp_all
    ultimately show ?thesis using assms(2) l
      by (simp add: read_tagged_def read_array_value_def read_limited_enc)
  qed
  have sk: "skip_tagged (skip_value m ver) ver TAG_ARRAY (?bs @ rest) = zok rest"
    if "depth (Array vs) \<le> Suc m" for m rest
    using skip_n_enc[of vs "skip_value m ver" g ver rest] l t dp[OF that]
    by (simp add: skip_tagged_def trip_def)
  have "list_all2 (same_value env) vs (map d vs)"
    using t by (simp add: list_all2_conv_all_nth trip_def)
  then show ?thesis using tripI[OF w] r sk by fastforce
qed

section \<open>Containers\<close>

lemma map_of_rev_distinct: "distinct (map fst kvs) \<Longrightarrow> map_of (rev kvs) = map_of kvs"
  by (subst map_of_inject_set) (simp_all add: rev_map[symmetric])

lemma sh_entries_facts:
  assumes "sh_inv s"
  shows "set (sh_entries \<sigma> s) = set (sh_pairs s)" "length (sh_entries \<sigma> s) = sh_len s"
    "distinct (map fst (sh_entries \<sigma> s))" "map_of (sh_entries \<sigma> s) = sh_abs s"
  using assms
  by (auto simp: sh_entries_def sh_pairs_def sh_len_def sh_inv_def sh_abs_def hm_iter_facts hm_iter_map_of
      split: repr.splits)

lemma trip_hash:
  assumes "writable env ver (Hash s)"
  shows "\<exists>bs v'. trip env ver (Hash s) bs v'"
proof -
  define es where "es = sh_entries (hash_order env) s"
  have inv: "sh_inv s" using assms by simp
  note f = sh_entries_facts[OF inv, of "hash_order env", folded es_def]
  have sz: "length k \<le> MAX_STRING_SIZE" "length v \<le> MAX_STRING_SIZE" if "(k, v) \<in> set es" for k v
    using assms that f(1) by auto
  have l: "length es < 2 ^ 32" "length es \<le> MAX_COLLECTION_SIZE" using assms f(2) by simp_all
  define g where "g = (\<lambda>(k, v). enc_sized ver k @ TAG_STR # enc_sized ver v)"
  let ?bs = "enc_len ver (length es) @ concat (map g es)"
  let ?step = "\<lambda>(k, v) m. fst (sh_insert (hash_order env) m k v)"
  have w: "appends (write_value_inner vec_write_all env ver (Hash s)) (TAG_HASH # ?bs)"
    unfolding write_value_fun f(2)[symmetric] es_def[symmetric]
  proof (intro appends_tag appends_bind appends_length[OF l(1)] appends_for)
    fix e assume "e \<in> set es"
    moreover obtain k v where e: "e = (k, v)" by force
    ultimately show "appends (case e of (field, val) \<Rightarrow> \<lambda>w. zbind (write_sized vec_write_all w field ver) (\<lambda>w.
        zbind (write_u8 vec_write_all w TAG_STR) (\<lambda>w. write_sized vec_write_all w val ver))) (g e)"
      using sz[of k v] unfolding g_def e prod.case by (intro appends_bind appends_tag appends_sized) simp_all
  qed
  have entry: "read_hash_entry (read_value_with_version m env ver) env ver (st, g e @ rest) = zok (?step e st, rest)"
    if "e \<in> set es" "0 < m" for e st rest m
  proof -
    obtain k v where e: "e = (k, v)" by force
    have "read_value_with_version m env ver ((TAG_STR # enc_sized ver v) @ rest) = zok (Str v, rest)" for rest
      using trip_str[of v env ver] sz[of k v] that by (simp add: trip_def e)
    then show ?thesis using sz[of k v] that(1)
      by (simp add: read_hash_entry_def g_def e read_sized_enc)
  qed
  have fold: "fold ?step kvs m = sh_extend (hash_order env) m kvs" for kvs m
    by (induction kvs arbitrary: m) auto
  define m' where "m' = sh_extend (hash_order env) sh_new es"
  have m': "sh_abs m' = sh_abs s"
    using sh.insert_all_law[OF sh_new_spec(1), of "hash_order env" es] f(3,4)
    by (auto simp: sh_extend_insert_all sh_new_spec m'_def map_of_rev_distinct)
  have r: "read_tagged (read_value_with_version m env ver) env ver TAG_HASH (?bs @ rest) = zok (Hash m', rest)"
    if "depth (Hash s) \<le> Suc m" for m rest
    using zrepeat_read[of es "read_hash_entry (read_value_with_version m env ver) env ver" g ?step sh_new rest]
      entry[of _ m] that l
    by (simp add: read_tagged_def read_hash_value_def read_limited_enc fold m'_def)
  have sk: "skip_tagged (skip_value m ver) ver TAG_HASH (?bs @ rest) = zok rest"
    if "depth (Hash s) \<le> Suc m" for m rest
  proof -
    have "zbind (skip_sized ver (g e @ rest)) (skip_value m ver) = zok rest" if e: "e \<in> set es" for e rest
    proof -
      obtain k v where kv: "e = (k, v)" by force
      have "skip_value m ver ((TAG_STR # enc_sized ver v) @ rest) = zok rest"
        using trip_str[of v env ver] sz[of k v] e \<open>depth (Hash s) \<le> Suc m\<close> by (simp add: trip_def kv)
      then show ?thesis using sz[of k v] e by (simp add: g_def kv skip_sized_enc)
    qed
    then show ?thesis using skip_n_enc[of es _ g ver rest] l by (simp add: skip_tagged_def)
  qed
  show ?thesis using tripI[OF w, of "Hash m'"] r sk m' by fastforce
qed

lemma insert_pairs_keys: "fst ` set (insert_pairs m kvs) = fst ` set m \<union> fst ` set kvs"
proof (induction m kvs rule: insert_pairs.induct)
  case (2 m k v kvs)
  obtain m' r where r: "hm_insert m k v = (m', r)" by (cases "hm_insert m k v")
  have "set (map fst m') = insert k (fst ` set m)" using hm_insert_keys[OF r] by (auto split: if_splits)
  with 2 r show ?case by auto
qed simp

lemma trip_set:
  assumes "writable env ver (Set s)"
  shows "\<exists>bs v'. trip env ver (Set s) bs v'"
proof -
  define es where "es = hm_iter (set_order env) s"
  have f: "set es = set s" "length es = length s" by (simp_all add: es_def hm_iter_facts)
  have sz: "length (fst e) \<le> MAX_STRING_SIZE" if "e \<in> set es" for e using assms that f(1) by fastforce
  have szu: "length (fst e) < 2 ^ 32" if "e \<in> set es" for e using sz[OF that] by simp
  have l: "length es < 2 ^ 32" "length es \<le> MAX_COLLECTION_SIZE" using assms f(2) by simp_all
  define g where "g = (\<lambda>e :: bytes \<times> unit. enc_sized ver (fst e))"
  let ?bs = "enc_len ver (length es) @ concat (map g es)"
  let ?step = "\<lambda>e m. fst (hm_insert m (fst e) ())"
  have w: "appends (write_value_inner vec_write_all env ver (Set s)) (TAG_SET # ?bs)"
    unfolding write_value_fun f(2)[symmetric] es_def[symmetric]
    by (intro appends_tag appends_bind appends_length[OF l(1)] appends_for)
      (use szu in \<open>auto simp: g_def intro!: appends_sized\<close>)
  have fold: "fold ?step kvs m = insert_pairs m kvs" for kvs m
    by (induction m kvs rule: insert_pairs.induct) auto
  have r: "read_tagged (read_value_with_version m env ver) env ver TAG_SET (?bs @ rest) = zok (Set (insert_pairs [] es), rest)"
    for m rest
  proof -
    have "zrepeat (length es) (read_set_entry ver) ([], concat (map g es) @ rest) = zok (fold ?step es [], rest)"
      by (rule zrepeat_read) (use sz szu in \<open>simp add: read_set_entry_def g_def read_sized_enc\<close>)
    then show ?thesis using l by (simp add: read_tagged_def read_set_value_def read_limited_enc fold)
  qed
  have sk: "skip_tagged (skip_value m ver) ver TAG_SET (?bs @ rest) = zok rest" for m rest
  proof -
    have "skip_sized ver (g e @ rest) = zok rest" if "e \<in> set es" for e rest
      using szu[OF that] by (simp add: g_def skip_sized_enc)
    from skip_n_enc[of es _ g ver rest, OF this l(1)] show ?thesis by (simp add: skip_tagged_def)
  qed
  have "same_value env (Set s) (Set (insert_pairs [] es))" using insert_pairs_keys[of "[]" es] f(1) by simp
  then show ?thesis using tripI[OF w] r sk by fastforce
qed

lemma read_zset_entries:
  assumes "ver \<noteq> Legacy" "visit_seq (dict_hash env) d (map (\<lambda>(k, m). (m, into_inner env k)) items) = Some d'"
    "sl_insert_all (sl_rand env) sl items = Some sl'"
    "\<forall>(k, m) \<in> set items. length m \<le> MAX_STRING_SIZE \<and> score_rank env (into_inner env k) = k"
  shows "zrepeat (length items) (read_zset_entry env ver)
      ((d, sl), concat (map (\<lambda>(k, m). enc_sized ver m @ to_be_bytes 8 (into_inner env k)) items) @ rest) = zok ((d', sl'), rest)"
  using assms(2-)
proof (induction items arbitrary: d sl)
  case (Cons e items)
  obtain k m where e: "e = (k, m)" by force
  have k: "score_rank env (into_inner env k) = k" "length m \<le> MAX_STRING_SIZE"
    using Cons.prems(3) by (auto simp: e)
  obtain d1 b where d1: "dict_insert (dict_hash env) d m (into_inner env k) = Some (d1, b)"
    "visit_seq (dict_hash env) d1 (map (\<lambda>(k, m). (m, into_inner env k)) items) = Some d'"
    using Cons.prems(1) by (auto simp: e bind_Some_iff)
  obtain sl1 where sl1: "sl_insert (sl_rand env) sl k m = Some sl1" "sl_insert_all (sl_rand env) sl1 items = Some sl'"
    using Cons.prems(2) by (auto simp: e bind_Some_iff)
  have "read_zset_entry env ver ((d, sl), enc_sized ver m @ to_be_bytes 8 (into_inner env k) @ rest) = zok ((d1, sl1), rest)" for rest
    using k assms(1) d1(1) sl1(1)
    by (simp add: read_zset_entry_def read_sized_enc read_score_def)
  then show ?case using Cons.IH[OF d1(2) sl1(2)] Cons.prems(3) by (simp add: e)
qed simp

lemma trip_zset:
  assumes "writable env ver (ZSet d sl)"
  shows "\<exists>bs v'. trip env ver (ZSet d sl) bs v'"
proof -
  define items where "items = sl_items sl"
  have ver: "ver \<noteq> Legacy" and ok: "zset_ok env d sl"
    and l: "length items \<le> MAX_COLLECTION_SIZE" and sz: "\<forall>(k, m) \<in> set items. length m \<le> MAX_STRING_SIZE"
    using assms by (simp_all add: items_def)
  have len: "dict_len d = length items" and dist: "distinct (map snd items)"
    and abs: "(\<lambda>m. map_option (score_rank env) (dict_abs d m)) = map_of (map (\<lambda>(k, m). (m, k)) items)"
    and rng: "\<forall>(k, m) \<in> set items. score_rank env (into_inner env k) = k"
    using ok by (simp_all add: zset_ok_def items_def)
  obtain ps H where sl: "sl_ok sl ps H" using ok by (auto simp: zset_ok_def sl_inv_def)
  have items: "sl_serialize sl = Some items" "items = pairs (sl_cells sl) ps"
    using sl_iter_spec[OF sl] sl_items_pairs[OF sl] by (simp_all add: items_def)
  obtain sl' qs J where sl': "sl_insert_all (sl_rand env) (sl_new (score_rank env 0) []) items = Some sl'" "sl_ok sl' qs J"
    "pairs (sl_cells sl') qs = items"
    using sl_rebuild[OF sl, of "sl_rand env" "score_rank env 0" "[]"] items(2) by (auto simp: sl_deserialize_def)
  let ?kvs = "map (\<lambda>(k, m). (m, into_inner env k)) items"
  obtain d' where d': "visit_seq (dict_hash env) dict_with_hasher ?kvs = Some d'" "dict_abs d' = map_of (rev ?kvs)"
    using dict.insert_all_law[OF dict_with_hasher_spec(1), of "dict_hash env" ?kvs]
    by (auto simp: visit_seq_insert_all dict_with_hasher_spec)
  have "distinct (map fst ?kvs)" using dist by (simp add: comp_def case_prod_beta')
  then have da: "dict_abs d' = map_of ?kvs" using d'(2) by (simp add: map_of_rev_distinct)
  have "map_option (score_rank env) (map_of ?kvs m) = map_of (map (\<lambda>(k, m). (m, k)) items) m" for m
    using rng by (induction items) auto
  then have same: "same_value env (ZSet d sl) (ZSet d' sl')"
    using abs da sl_items_pairs[OF sl'(2)] sl'(3) by (simp add: items_def[symmetric])
  define g where "g = (\<lambda>(k, m). enc_sized ver m @ to_be_bytes 8 (into_inner env k))"
  let ?bs = "enc_len ver (length items) @ concat (map g items)"
  have w: "appends (write_value_inner vec_write_all env ver (ZSet d sl)) (TAG_ZSET # ?bs)"
    unfolding write_value_fun len items(1) zlift_Some zbind_simps
  proof (intro appends_tag appends_bind appends_length appends_for)
    fix e assume "e \<in> set items"
    moreover obtain k m where e: "e = (k, m)" by force
    ultimately show "appends (case e of (score, key) \<Rightarrow> \<lambda>w. zbind (write_sized vec_write_all w key ver) (\<lambda>w.
        write_u64 vec_write_all w (into_inner env score))) (g e)"
      using sz unfolding g_def e prod.case by (intro appends_bind appends_u64 appends_sized) auto
  qed (use l in simp)
  have r: "read_tagged (read_value_with_version m env ver) env ver TAG_ZSET (?bs @ rest) = zok (ZSet d' sl', rest)"
    for m rest
  proof -
    have "\<forall>(k, m) \<in> set items. length m \<le> MAX_STRING_SIZE \<and> score_rank env (into_inner env k) = k" using sz rng by fast
    from read_zset_entries[OF ver d'(1) sl'(1) this, of rest] show ?thesis using l
      by (simp add: read_tagged_def read_zset_value_def read_limited_enc g_def)
  qed
  have entry: "zbind (skip_sized ver (g e @ rest)) (\<lambda>r. if ver = Legacy then skip_read (read_u32 r) else skip_read (read_u64 r)) = zok rest"
    if "e \<in> set items" for e rest
    using that sz ver by (cases e) (auto simp: g_def skip_sized_enc skip_read_def)
  have sk: "skip_tagged (skip_value m ver) ver TAG_ZSET (?bs @ rest) = zok rest" for m rest
    using skip_n_enc[of items _ g ver rest, OF entry] l by (simp add: skip_tagged_def)
  show ?thesis using tripI[OF w, of "ZSet d' sl'"] r sk same by fastforce
qed

lemma combined_padded:
  assumes "i < length d"
  shows "combined (d @ replicate k 0) i = combined d i"
  using assms by (auto simp: combined_def nth_append)

lemma dense_get_padded:
  assumes "dense_size P \<le> length d" "2 \<le> P" "i < num_registers P"
  shows "dense_get_register P (d @ replicate k 0) i = dense_get_register P d i"
proof -
  have "i * 6 div 8 < length d" using dense_bits[OF assms(2)] assms(1,3) by linarith
  then show ?thesis by (simp only: dense_get_register_def combined_padded Let_def)
qed

lemma trip_hll:
  assumes "writable env ver (HyperLogLog h)"
  shows "\<exists>bs v'. trip env ver (HyperLogLog h) bs v'"
proof -
  obtain d where d: "dense_size HLL_P \<le> length d" "length d \<le> DENSE_SIZE"
    and wr: "write_value_inner vec_write_all env ver (HyperLogLog h) =
      (\<lambda>w. zbind (write_u8 vec_write_all w TAG_HLL) (\<lambda>w. write_sized vec_write_all w d ver))"
    and reg: "\<And>i. i < num_registers HLL_P \<Longrightarrow> hll_get_register HLL_P h i = dense_get_register HLL_P d i"
  proof (cases "encoding h")
    case (Dense d)
    then show ?thesis using assms by (intro that[of d]) (simp_all add: write_value_fun hll_get_register_def)
  next
    case (Sparse s)
    then obtain r where r: "hll_regs HLL_P h r" using assms by auto
    obtain d where d: "from_sparse HLL_P s = Some d" "length d = dense_size HLL_P"
      "\<forall>i < num_registers HLL_P. dense_get_register HLL_P d i = Some (r i)"
      using from_sparse_regs[OF _ r Sparse] by auto
    have "hll_get_register HLL_P h i = dense_get_register HLL_P d i" if "i < num_registers HLL_P" for i
      using hll_regs_get[OF r that] d(3) that by simp
    then show ?thesis using d Sparse
      by (intro that[of d]) (simp_all add: write_value_fun dense_size_def num_registers_def)
  qed
  let ?d' = "d @ replicate (DENSE_SIZE - length d) 0"
  let ?h = "\<lparr> encoding = Dense ?d', hll_version = 1 \<rparr>"
  have l: "length d < 2 ^ 32" "length d \<le> (if ver = Legacy then DENSE_SIZE else DENSE_SIZE * 2)" using d(2) by auto
  have w: "appends (write_value_inner vec_write_all env ver (HyperLogLog h)) (TAG_HLL # enc_sized ver d)"
    unfolding wr by (intro appends_tag appends_sized[OF l(1)])
  have "copy_from_slice (replicate DENSE_SIZE 0) 0 (length d) d = Some ?d'"
    using d(2) by (simp add: copy_from_slice_def drop_replicate)
  then have r: "read_tagged rd env ver TAG_HLL (enc_sized ver d @ rest) = zok (HyperLogLog ?h, rest)" for rd rest
    using d(2) by (simp add: read_tagged_def read_hll_value_def Let_def read_sized_enc[OF l(2,1)] slice_def)
  have sk: "skip_tagged sk ver TAG_HLL (enc_sized ver d @ rest) = zok rest" for sk rest
    by (simp add: skip_tagged_def skip_sized_enc[OF l(1)])
  have "same_value env (HyperLogLog h) (HyperLogLog ?h)"
    using reg dense_get_padded[OF d(1)] by (simp add: hll_get_register_def)
  then show ?thesis using tripI[OF w, of "HyperLogLog ?h"] r sk by fastforce
qed

lemma value_trip: "writable env ver v \<Longrightarrow> \<exists>bs v'. trip env ver v bs v'"
proof (induction v)
  case (Array vs)
  then show ?case by (intro trip_array) (auto simp: list_all_iff)
qed (use trip_str trip_int trip_float trip_bool trip_null trip_hash trip_zset trip_set trip_hll trip_bitmap in \<open>fastforce+\<close>)

section \<open>Properties\<close>

text \<open>C26. For every version and every value of the types below, writing appends bytes from which reading restores
  the value, up to the representation of its containers, and leaves what follows; skipping consumes exactly
  the same bytes. The types are strings, numbers, truth values, null, hashes, sets, bitmaps and HyperLogLogs of
  precision 14 within the size limits of the reader, sorted sets whose scores all differ (not in the
  \<open>Legacy\<close> version), and arrays of such values. Lists and streams, which the reader does not know, and
  sorted sets with tied scores are left out. The stack needs one call per level of nesting.\<close>

theorem zdb_value_roundtrip:
  assumes "writable env ver v" "depth v \<le> n"
  shows "\<exists>bs v'. (\<forall>w. write_value_inner vec_write_all env ver v w = zok (w @ bs)) \<and>
    (\<forall>rest. read_value_with_version n env ver (bs @ rest) = zok (v', rest) \<and> skip_value n ver (bs @ rest) = zok rest) \<and>
    same_value env v v'"
  using value_trip[OF assms(1)] assms(2) by (auto simp: trip_def appends_def)

text \<open>An environment for the examples: blocks are stored with one byte in front.\<close>

definition plain_env :: zenv where
  "plain_env = \<lparr> hash_order = (\<lambda>_. []), set_order = (\<lambda>_. []), data_order = (\<lambda>_. []), dict_hash = (\<lambda>_. 0),
     sl_rand = (\<lambda>_. 0), crc32 = (\<lambda>_. 0), encode_all = (\<lambda>b. Inr (0 # b)), zstd_decoder = (\<lambda>c. (tl c, True)),
     f32_to_f64 = ucast, score_rank = uint, into_inner = of_int \<rparr>"

theorem zdb_value_roundtrip_witness:
  "\<exists>bs v'. (\<forall>w. write_value_inner vec_write_all plain_env V2 (Array [Str [7], Set [([1], ())], Bool True]) w = zok (w @ bs)) \<and>
    (\<forall>rest. read_value_with_version 2 plain_env V2 (bs @ rest) = zok (v', rest) \<and> skip_value 2 V2 (bs @ rest) = zok rest) \<and>
    same_value plain_env (Array [Str [7], Set [([1], ())], Bool True]) v'"
  by (rule zdb_value_roundtrip) simp_all

lemma appends_list:
  assumes "ql_len l < 2 ^ 32" "\<forall>s \<in> set (concat (segments l)). length s < 2 ^ 32"
  shows "appends (write_value_inner vec_write_all env ver (List l))
      (TAG_LIST # enc_len ver (ql_len l) @ concat (map (\<lambda>s. TAG_STR # enc_sized ver s) (concat (segments l))))"
  unfolding write_value_fun
  by (intro appends_tag appends_bind appends_length appends_for appends_str) (use assms in auto)

lemma read_list_tag:
  "read_value_with_version (Suc n) env ver (TAG_LIST # r) = zerr (InvalidTag TAG_LIST)"
  "skip_value (Suc n) ver (TAG_LIST # r) = zerr (InvalidTag TAG_LIST)"
  by (simp_all add: read_tagged_def skip_tagged_def)

text \<open>The encoder writes lists under a tag the decoder does not know: reading the bytes of any list value
  fails, in every version.\<close>
theorem list_value_unreadable:
  assumes "ql_len l < 2 ^ 32" "\<forall>s \<in> set (concat (segments l)). length s < 2 ^ 32"
  shows "\<exists>bs. write_value_inner vec_write_all env ver (List l) [] = zok bs \<and>
    read_value_with_version (Suc n) env ver (bs @ rest) = zerr (InvalidTag TAG_LIST) \<and>
    skip_value (Suc n) ver (bs @ rest) = zerr (InvalidTag TAG_LIST)"
  using appendsD [OF appends_list [OF assms]] by (simp add: read_tagged_def skip_tagged_def)

theorem list_value_unreadable_witness:
  "\<exists>bs. write_value_inner vec_write_all plain_env V3 (List (ql_with_optimize_threshold 4 8)) [] = zok bs \<and>
    read_value_with_version (Suc 0) plain_env V3 (bs @ []) = zerr (InvalidTag TAG_LIST) \<and>
    skip_value (Suc 0) V3 (bs @ []) = zerr (InvalidTag TAG_LIST)"
  by (rule list_value_unreadable) (simp_all add: ql_with_optimize_threshold_def)

end
