(* ===== verification/Zdb_Stream.thy ===== *)
theory Zdb_Stream
  imports Zdb_Roundtrip
begin

text \<open>
  Dumps and streams: \<open>StreamReader\<close> and \<open>read_dump\<close> of \<open>src/engine/zdb/decode.rs\<close>, and the parser with its
  handlers of \<open>src/engine/zdb/streaming.rs\<close>. The underlying reader is an in-memory cursor, as in
  \<open>read_dump\<close>. A call that returns \<open>Err\<close> ends a run: what a caller could read after it is not
  modelled, and \<open>should_continue_on_error\<close> is \<open>false\<close>, as in every handler of the crate. The byte
  counters only serve error reports and are left out.
\<close>

section \<open>StreamReader\<close>

record stream_reader =
  inner :: bytes
  sr_version :: format_version
  sr_done :: bool
  sr_compat :: compatibility_info

definition read_magic :: "bytes \<Rightarrow> bytes zres" where
  "read_magic r =
     zbind (read_bytes 3 r) (\<lambda>(magic, r). zbind (zensure (magic = FILE_MAGIC) (InvalidMagic magic)) (\<lambda>_. zok r))"

definition sr_new_with_version :: "bytes \<Rightarrow> format_version \<Rightarrow> stream_reader zres" where
  "sr_new_with_version r reader =
     zbind (read_magic r) (\<lambda>r.
     zbind (read_u8 r) (\<lambda>(version_byte, r).
     zbind (Some (version_try_from version_byte)) (\<lambda>dump.
     zbind (Some (validate_compatibility reader dump)) (\<lambda>info.
     zok \<lparr> inner = r, sr_version = dump, sr_done = False, sr_compat = info \<rparr>))))"

definition sr_new :: "bytes \<Rightarrow> stream_reader zres" where
  "sr_new r = sr_new_with_version r current"

text \<open>
  \<open>BufReader::new(first.chain(second))\<close>: the buffer, what is left of the first part and of the second.
  An empty buffer is filled with up to 8192 bytes of the first part, or of the second one when the first
  is exhausted.
\<close>

type_synonym chain_reader = "bytes \<times> bytes \<times> bytes"

abbreviation BUF_CAPACITY :: nat where "BUF_CAPACITY \<equiv> 8192"

fun fill_buf :: "chain_reader \<Rightarrow> chain_reader" where
  "fill_buf (buf, first, second) =
     (if buf \<noteq> [] then (buf, first, second)
      else if first \<noteq> [] then (take BUF_CAPACITY first, drop BUF_CAPACITY first, second)
      else (take BUF_CAPACITY second, [], drop BUF_CAPACITY second))"

fun chain_read_exact :: "chain_reader read_exact" where
  "chain_read_exact r 0 = Inr ([], r)"
| "chain_read_exact r (Suc n) =
     (case fill_buf r of
        (b # buf, rest) \<Rightarrow> bind_result (chain_read_exact (buf, rest) n) (\<lambda>(bs, r). Inr (b # bs, r))
      | ([], _) \<Rightarrow> Inl UnexpectedEof)"

text \<open>The length of a key whose first byte has been read; the buffered reader is dropped after use.\<close>

definition sr_key_len :: "format_version \<Rightarrow> u8 \<Rightarrow> bytes \<Rightarrow> (nat \<times> bytes) zres" where
  "sr_key_len ver peek r =
     (if uses_varint ver then
        case read_varint slice_read_exact [peek] of
          None \<Rightarrow> None
        | Some (Inr (len, _)) \<Rightarrow> zok (unat len, r)
        | Some (Inl _) \<Rightarrow>
            zbind (read_varint chain_read_exact ([], [peek], r)) (\<lambda>(len, (_, _, r)). zok (unat len, r))
      else
        case slice_read_exact r 3 of
          Inl _ \<Rightarrow> zerr ZdbUnexpectedEof
        | Inr (bs, r) \<Rightarrow> zok (unat (from_be_bytes (peek # bs) :: u32), r))"

definition sr_next :: "nat \<Rightarrow> zenv \<Rightarrow> stream_reader \<Rightarrow> ((bytes \<times> zvalue) option \<times> stream_reader) zres" where
  "sr_next stack env s =
     (if sr_done s then zok (None, s)
      else case inner s of
        [] \<Rightarrow> zerr ZdbUnexpectedEof
      | peek # r \<Rightarrow>
          if peek = TAG_EOF then zok (None, s \<lparr> inner := r, sr_done := True \<rparr>)
          else
            zbind (sr_key_len (sr_version s) peek r) (\<lambda>(klen, r).
            zbind (zensure (klen \<le> MAX_STRING_SIZE) (SizeLimit klen MAX_STRING_SIZE)) (\<lambda>_.
            zbind (read_bytes klen r) (\<lambda>(key, r).
            zbind (read_value_with_version stack env (sr_version s) r) (\<lambda>(v, r).
            zok (Some (key, v), s \<lparr> inner := r \<rparr>))))))"

text \<open>Calling \<open>next\<close> up to the first \<open>None\<close>, with room for \<open>fuel\<close> calls.\<close>

primrec sr_collect :: "nat \<Rightarrow> nat \<Rightarrow> zenv \<Rightarrow> stream_reader \<Rightarrow> (bytes \<times> zvalue) list zres" where
  "sr_collect 0 stack env s = None"
| "sr_collect (Suc fuel) stack env s =
     zbind (sr_next stack env s) (\<lambda>(item, s).
       case item of
         None \<Rightarrow> zok []
       | Some kv \<Rightarrow> zbind (sr_collect fuel stack env s) (\<lambda>kvs. zok (kv # kvs)))"

definition read_stream :: "nat \<Rightarrow> nat \<Rightarrow> zenv \<Rightarrow> bytes \<Rightarrow> (bytes \<times> zvalue) list zres" where
  "read_stream fuel stack env r = zbind (sr_new r) (sr_collect fuel stack env)"

section \<open>The streaming parser\<close>

datatype parse_event =
    Header format_version compatibility_info
  | Entry bytes zvalue
  | End
  | Error

text \<open>A handler is its two methods over a state of its own.\<close>

record 'h parse_handler =
  handle_event :: "parse_event \<Rightarrow> 'h \<Rightarrow> 'h zres"
  finalize :: "'h \<Rightarrow> 'h zres"

definition read_and_validate_header :: "bytes \<Rightarrow> (format_version \<times> bytes) zres" where
  "read_and_validate_header r =
     (case slice_read_exact r 3 of
        Inl _ \<Rightarrow> zerr ZdbUnexpectedEof
      | Inr (magic, r) \<Rightarrow>
          zbind (zensure (magic = FILE_MAGIC) (InvalidMagic magic)) (\<lambda>_.
          case slice_read_exact r 1 of
            Inl _ \<Rightarrow> zerr ZdbUnexpectedEof
          | Inr (version_bytes, r) \<Rightarrow>
              zbind (zlift (idx version_bytes 0)) (\<lambda>b.
              zbind (Some (version_try_from b)) (\<lambda>ver. zok (ver, r)))))"

unbundle bit_operations_syntax

text \<open>The loop over the continuation bytes of a varint: \<open>consumed\<close> bytes have been read.\<close>

function key_len_loop :: "nat \<Rightarrow> nat \<Rightarrow> u32 \<Rightarrow> bytes \<Rightarrow> (nat \<times> bytes) zres" where
  "key_len_loop consumed shift v r =
     (case r of
        [] \<Rightarrow> zerr ZdbUnexpectedEof
      | byte # r \<Rightarrow>
          let consumed = consumed + 1; v = v OR push_bit shift (ucast (byte AND 0x7F)) in
          if byte AND 0x80 = 0 then zok (unat v, r)
          else if consumed \<ge> MAX_VARINT_LEN then zerr (ParseError ''varint'' ''Varint too long'')
          else key_len_loop consumed (shift + 7) v r)"
  by pat_completeness auto
termination
  by (relation "measure (\<lambda>(consumed, shift, v, r). length r)") auto

declare key_len_loop.simps [simp del]

definition parser_key_len :: "format_version \<Rightarrow> u8 \<Rightarrow> bytes \<Rightarrow> (nat \<times> bytes) zres" where
  "parser_key_len ver peek r =
     (if uses_varint ver then
        let v = ucast (peek AND 0x7F) in
        if peek AND 0x80 = 0 then zok (unat (v :: u32), r) else key_len_loop 1 7 v r
      else
        case slice_read_exact r 3 of
          Inl _ \<Rightarrow> zerr ZdbUnexpectedEof
        | Inr (bs, r) \<Rightarrow> zok (unat (from_be_bytes (peek # bs) :: u32), r))"

definition read_next_entry ::
  "nat \<Rightarrow> zenv \<Rightarrow> format_version \<Rightarrow> nat \<Rightarrow> bytes \<Rightarrow> ((bytes \<times> zvalue) option \<times> bytes) zres" where
  "read_next_entry stack env ver records_parsed r =
     (case r of
        [] \<Rightarrow> if records_parsed = 0 then zok (None, []) else zerr ZdbUnexpectedEof
      | peek # r \<Rightarrow>
          if peek = TAG_EOF then zok (None, r)
          else
            zbind (parser_key_len ver peek r) (\<lambda>(klen, r).
            zbind (zensure (klen \<le> MAX_STRING_SIZE) (SizeLimit klen MAX_STRING_SIZE)) (\<lambda>_.
            case slice_read_exact r klen of
              Inl _ \<Rightarrow> zerr ZdbUnexpectedEof
            | Inr (key, r) \<Rightarrow>
                zbind (read_value_with_version stack env ver r) (\<lambda>(v, r). zok (Some (key, v), r)))))"

text \<open>An error of the reader or of the handler is first reported to the handler and then returned; the
  report carries the message, which is left out.\<close>

definition report :: "'h parse_handler \<Rightarrow> 'h \<Rightarrow> zumic_error \<Rightarrow> 'b zres" where
  "report H h e = zbind (handle_event H Error h) (\<lambda>_. zerr e)"

primrec parse_loop ::
  "nat \<Rightarrow> nat \<Rightarrow> zenv \<Rightarrow> 'h parse_handler \<Rightarrow> format_version \<Rightarrow> nat \<Rightarrow> bytes \<Rightarrow> 'h \<Rightarrow> 'h zres" where
  "parse_loop 0 stack env H ver records r h = None"
| "parse_loop (Suc fuel) stack env H ver records r h =
     (case read_next_entry stack env ver records r of
        None \<Rightarrow> None
      | Some (Inl e) \<Rightarrow> report H h e
      | Some (Inr (None, _)) \<Rightarrow> zok h
      | Some (Inr (Some (key, v), r)) \<Rightarrow>
          (case handle_event H (Entry key v) h of
             None \<Rightarrow> None
           | Some (Inl e) \<Rightarrow> report H h e
           | Some (Inr h) \<Rightarrow> parse_loop fuel stack env H ver (records + 1) r h))"

definition parse :: "nat \<Rightarrow> nat \<Rightarrow> zenv \<Rightarrow> 'h parse_handler \<Rightarrow> format_version \<Rightarrow> bytes \<Rightarrow> 'h \<Rightarrow> 'h zres" where
  "parse fuel stack env H reader r h =
     zbind (read_and_validate_header r) (\<lambda>(ver, r).
     zbind (Some (validate_compatibility reader ver)) (\<lambda>info.
     zbind (handle_event H (Header ver info) h) (\<lambda>h.
     zbind (parse_loop fuel stack env H ver 0 r h) (\<lambda>h.
     zbind (handle_event H End h) (finalize H)))))"

section \<open>Handlers\<close>

definition collect_handler :: "(bytes \<times> zvalue) list parse_handler" where
  "collect_handler = \<lparr>
     handle_event = (\<lambda>event items. case event of Entry key v \<Rightarrow> zok (items @ [(key, v)]) | _ \<Rightarrow> zok items),
     finalize = zok \<rparr>"

definition filter_handler :: "(bytes \<Rightarrow> bool) \<Rightarrow> (bytes \<times> zvalue) list parse_handler" where
  "filter_handler predicate = \<lparr>
     handle_event = (\<lambda>event items. case event of
         Entry key v \<Rightarrow> if predicate key then zok (items @ [(key, v)]) else zok items
       | _ \<Rightarrow> zok items),
     finalize = zok \<rparr>"

record count_state =
  total_entries :: nat
  key_lengths :: "nat list"
  cs_version :: "format_version option"

definition count_new :: count_state where
  "count_new = \<lparr> total_entries = 0, key_lengths = [], cs_version = None \<rparr>"

definition count_handler :: "count_state parse_handler" where
  "count_handler = \<lparr>
     handle_event = (\<lambda>event st. case event of
         Header ver _ \<Rightarrow> zok (st \<lparr> cs_version := Some ver \<rparr>)
       | Entry key _ \<Rightarrow> zok (st \<lparr> total_entries := total_entries st + 1, key_lengths := key_lengths st @ [length key] \<rparr>)
       | _ \<Rightarrow> zok st),
     finalize = zok \<rparr>"

definition callback_handler :: "(bytes \<Rightarrow> zvalue \<Rightarrow> 's \<Rightarrow> 's zres) \<Rightarrow> 's parse_handler" where
  "callback_handler callback = \<lparr>
     handle_event = (\<lambda>event st. case event of Entry key v \<Rightarrow> callback key v st | _ \<Rightarrow> zok st),
     finalize = zok \<rparr>"

text \<open>The writer of the transformed dump and the count of the entries written.\<close>

definition transform_handler ::
  "'w write_all \<Rightarrow> zenv \<Rightarrow> (bytes \<Rightarrow> zvalue \<Rightarrow> (bytes \<times> zvalue) option) \<Rightarrow> ('w \<times> nat) parse_handler" where
  "transform_handler wa env transform = \<lparr>
     handle_event = (\<lambda>event (w, count). case event of
         Header ver _ \<Rightarrow>
           zbind (write_bytes wa w FILE_MAGIC) (\<lambda>w.
           zbind (write_bytes wa w [version_byte ver]) (\<lambda>w. zok (w, count)))
       | Entry key v \<Rightarrow>
           (case transform key v of
              Some (new_key, new_value) \<Rightarrow>
                zbind (write_u32 wa w (of_nat (length new_key))) (\<lambda>w.
                zbind (write_bytes wa w new_key) (\<lambda>w.
                zbind (write_value wa env w new_value) (\<lambda>w. zok (w, count + 1))))
            | None \<Rightarrow> zok (w, count))
       | End \<Rightarrow> zbind (write_bytes wa w [TAG_EOF]) (\<lambda>w. zok (w, count))
       | _ \<Rightarrow> zok (w, count)),
     finalize = zok \<rparr>"

section \<open>Dumps\<close>

definition read_dump_item :: "nat \<Rightarrow> zenv \<Rightarrow> format_version \<Rightarrow> bytes \<Rightarrow> ((bytes \<times> zvalue) \<times> bytes) zres" where
  "read_dump_item stack env ver r =
     zbind (read_sized MAX_STRING_SIZE ver r) (\<lambda>(key, r).
     zbind (read_value_with_version stack env ver r) (\<lambda>(v, r). zok ((key, v), r)))"

text \<open>The fallback: the body with the count of its items.\<close>

definition read_counted :: "nat \<Rightarrow> zenv \<Rightarrow> format_version \<Rightarrow> bytes \<Rightarrow> (bytes \<times> zvalue) list zres" where
  "read_counted stack env reader body =
     zbind (read_magic body) (\<lambda>r.
     zbind (read_u8 r) (\<lambda>(version_byte, r).
     zbind (Some (version_try_from version_byte)) (\<lambda>dump.
     zbind (Some (validate_compatibility reader dump)) (\<lambda>_.
     zbind (read_limited MAX_COLLECTION_SIZE dump r) (\<lambda>(count, r).
     zbind (zrepeat count (\<lambda>(items, r). zbind (read_dump_item stack env dump r) (\<lambda>(item, r). zok (items @ [item], r))) ([], r))
       (\<lambda>(items, r). zok items))))))"

text \<open>The body is first tried as a stream; the parser fails as well when its stack is exhausted, which is
  a panic of the whole.\<close>

definition read_body :: "nat \<Rightarrow> nat \<Rightarrow> zenv \<Rightarrow> format_version \<Rightarrow> bytes \<Rightarrow> (bytes \<times> zvalue) list zres" where
  "read_body fuel stack env reader body =
     (case parse fuel stack env collect_handler reader body [] of
        None \<Rightarrow> None
      | Some (Inr items) \<Rightarrow> zok items
      | Some (Inl _) \<Rightarrow> read_counted stack env reader body)"

definition read_dump_with_version :: "nat \<Rightarrow> nat \<Rightarrow> zenv \<Rightarrow> bytes \<Rightarrow> format_version \<Rightarrow> (bytes \<times> zvalue) list zres" where
  "read_dump_with_version fuel stack env data reader =
     zbind (zensure (length data \<ge> 8) (FileTooSmall (length data) 8)) (\<lambda>_.
     let body_len = length data - 4; body = take body_len data; crc_bytes = drop body_len data;
         recorded_crc = from_be_bytes crc_bytes; computed_crc = crc32 env body in
     zbind (zensure (computed_crc = recorded_crc) (CrcMismatch computed_crc recorded_crc)) (\<lambda>_.
     read_body fuel stack env reader body))"

definition read_dump :: "nat \<Rightarrow> nat \<Rightarrow> zenv \<Rightarrow> bytes \<Rightarrow> (bytes \<times> zvalue) list zres" where
  "read_dump fuel stack env data = read_dump_with_version fuel stack env data current"

section \<open>Lengths of keys\<close>

text \<open>The parser decodes a length as \<open>read_varint\<close> does.\<close>

lemma key_len_loop_varint:
  assumes "read_varint_loop slice_read_exact r [i..<MAX_VARINT_LEN] v shift = Some (Inr (x, r'))"
  shows "key_len_loop i shift v r = zok (unat x, r')"
  using assms
proof (induction "MAX_VARINT_LEN - i" arbitrary: i r v shift)
  case (Suc d)
  then have i: "i < MAX_VARINT_LEN" by simp
  then have u: "[i..<MAX_VARINT_LEN] = i # [Suc i..<MAX_VARINT_LEN]" by (simp only: upt_conv_Cons)
  show ?case
  proof (cases r)
    case Nil
    then show ?thesis using Suc.prems by (simp add: u slice_read_exact_def)
  next
    case r: (Cons b r1)
    let ?v = "v OR push_bit shift (ucast (b AND 0x7F))"
    have prem: "(if b AND 0x80 = 0 then Some (Inr (?v, r1))
      else if i = 4 then Some (Inl (ParseError ''varint'' ''Varint too long (>5 bytes), possible corruption''))
      else read_varint_loop slice_read_exact r1 [Suc i..<MAX_VARINT_LEN] ?v (shift + 7)) = Some (Inr (x, r'))"
      using Suc.prems unfolding u r by (simp add: slice_read_exact_def Let_def split: if_splits)
    show ?thesis
    proof (cases "b AND 0x80 = 0")
      case True
      then show ?thesis using prem by (subst key_len_loop.simps) (simp add: r)
    next
      case False
      then have i4: "i \<noteq> 4" using prem by (auto split: if_splits)
      then have "read_varint_loop slice_read_exact r1 [Suc i..<MAX_VARINT_LEN] ?v (shift + 7) = Some (Inr (x, r'))"
        using prem False by simp
      from Suc.hyps(1)[OF _ this] have "key_len_loop (Suc i) (shift + 7) ?v r1 = zok (unat x, r')"
        using Suc.hyps(2) by simp
      then show ?thesis using False i i4 by (subst key_len_loop.simps) (simp add: r Let_def)
    qed
  qed
qed simp

lemma parser_key_len_varint:
  assumes "read_varint slice_read_exact (p # r) = Some (Inr (x, r'))"
  shows "parser_key_len V3 p r = zok (unat x, r')"
proof -
  have u: "[0..<MAX_VARINT_LEN] = 0 # [1..<MAX_VARINT_LEN]" by (simp add: upt_conv_Cons)
  let ?v = "ucast (p AND 0x7F) :: u32"
  have "(if p AND 0x80 = 0 then Some (Inr (?v, r))
      else read_varint_loop slice_read_exact r [1..<MAX_VARINT_LEN] ?v 7) = Some (Inr (x, r'))"
    using assms unfolding read_varint_def u by (simp add: slice_read_exact_def Let_def split: if_splits)
  then show ?thesis
    using key_len_loop_varint[of r 1 ?v 7 x r'] by (auto simp: parser_key_len_def Let_def split: if_splits)
qed

text \<open>The length field as its first byte and the others.\<close>

lemma parser_key_len_enc:
  assumes "n < 2 ^ 32"
  obtains p ps where "enc_len ver n = p # ps" "\<And>rest. parser_key_len ver p (ps @ rest) = zok (n, rest)"
proof (cases "uses_varint ver")
  case True
  then have ver: "ver = V3" by (cases ver) simp_all
  obtain p ps where p: "leb n = p # ps" by (cases "leb n") auto
  have u: "unat (of_nat n :: u32) = n" using assms by (simp add: unat_of_nat)
  have "parser_key_len ver p (ps @ rest) = zok (n, rest)" for rest
    using slc.read_varint_leb[of _ "of_nat n :: u32" rest] parser_key_len_varint[of p "ps @ rest" "of_nat n"]
    by (simp add: u p ver)
  then show ?thesis using that p True by (simp add: enc_len_def)
next
  case False
  let ?e = "to_be_bytes 4 (of_nat n :: u32)"
  have u: "unat (of_nat n :: u32) = n" using assms by (simp add: unat_of_nat)
  obtain p ps where p: "?e = p # ps" by (cases ?e) (simp_all add: to_be_bytes_def)
  have l: "length ps = 3" using arg_cong[OF p, of length] by simp
  have "unat (from_be_bytes (p # ps) :: u32) = n" by (simp add: from_to_be_bytes u flip: p)
  then have "parser_key_len ver p (ps @ rest) = zok (n, rest)" for rest
    using False l by (simp add: parser_key_len_def slice_read_exact_def)
  then show ?thesis using that p False by (simp add: enc_len_def)
qed

text \<open>The first byte of a length is the end mark for the varints of 255, 383 and so on, and never else.\<close>

definition eof_like :: "format_version \<Rightarrow> nat \<Rightarrow> bool" where
  "eof_like ver n \<longleftrightarrow> uses_varint ver \<and> 128 \<le> n \<and> n mod 128 = 127"

lemma enc_len_hd:
  assumes "n < 2 ^ 32" "enc_len ver n = p # ps" "uses_varint ver \<or> n \<le> MAX_STRING_SIZE"
  shows "p = TAG_EOF \<longleftrightarrow> eof_like ver n"
proof (cases "uses_varint ver")
  case True
  then have p: "unat p = (if n < 128 then n else n mod 128 + 128)"
    using leb_hd[of n] assms(2) by (simp add: enc_len_def)
  have "p = TAG_EOF \<longleftrightarrow> unat p = 255" by (simp add: word_unat_eq_iff)
  also have "\<dots> \<longleftrightarrow> 128 \<le> n \<and> n mod 128 = 127" unfolding p by auto
  finally show ?thesis using True by (simp add: eof_like_def)
next
  case False
  then have "p = ucast (drop_bit 24 (of_nat n :: u32))"
    using assms(2) by (simp add: enc_len_def to_be_bytes_def upt_rec)
  moreover have "unat (drop_bit 24 (of_nat n :: u32)) = unat (of_nat n :: u32) div 2 ^ 24"
    unfolding unat_drop_bit_eq by (rule drop_bit_eq_div)
  moreover have "unat (of_nat n :: u32) = n" using assms(1) by (simp add: unat_of_nat)
  moreover have "n div 2 ^ 24 \<le> 32" using False assms(3) by (simp add: div_le_mono[of n "512 * 1024 * 1024" "2 ^ 24", simplified])
  ultimately have p: "p = ucast (drop_bit 24 (of_nat n :: u32))" and le: "unat (drop_bit 24 (of_nat n :: u32)) \<le> 32"
    by (simp_all only:)
  have "unat p \<le> 32" unfolding p unsigned_ucast_eq by (rule order_trans[OF take_bit_nat_less_eq_self le])
  then show ?thesis using False by (auto simp: eof_like_def)
qed

section \<open>Streams\<close>

text \<open>What is used of \<open>zstd\<close>: decoding a block gives back the data, without an error, and a block is not
  empty and not much larger than its data.\<close>

definition zstd_ok :: "zenv \<Rightarrow> bool" where
  "zstd_ok env \<longleftrightarrow> (\<forall>x. \<exists>c. encode_all env x = Inr c \<and> zstd_decoder env c = (x, True) \<and> c \<noteq> [] \<and>
     length c \<le> length x + length x div 128 + 1024)"

text \<open>The encoding of the value is at most 64 MB, within the limit on compressed blocks.\<close>

definition small_block :: "zenv \<Rightarrow> format_version \<Rightarrow> zvalue \<Rightarrow> bool" where
  "small_block env ver v \<longleftrightarrow> (\<exists>bs. write_value_inner vec_write_all env ver v [] = zok bs \<and> length bs \<le> 64 * 1024 * 1024)"

lemma versioned_trip:
  assumes "writable env ver v" "zstd_ok env" "small_block env ver v"
  obtains bs v' where "appends (\<lambda>w. write_value_versioned vec_write_all env w v ver) bs"
    "\<And>n rest. depth v < n \<Longrightarrow> read_value_with_version n env ver (bs @ rest) = zok (v', rest)" "same_value env v v'"
proof -
  obtain bs v' where t: "trip env ver v bs v'" using value_trip[OF assms(1)] by blast
  have wr: "write_value_inner vec_write_all env ver v w = zok (w @ bs)" for w
    using t by (simp add: trip_def appends_def)
  have small: "length bs \<le> 64 * 1024 * 1024" using assms(3) by (simp add: small_block_def wr)
  show ?thesis
  proof (cases "should_compress (length bs)")
    case True
    obtain c where c: "encode_all env bs = Inr c" "zstd_decoder env c = (bs, True)" "c \<noteq> []"
      "length c \<le> length bs + length bs div 128 + 1024"
      using assms(2) by (auto simp: zstd_ok_def)
    have "length bs div 128 \<le> 64 * 1024 * 1024 div 128" using small by (rule div_le_mono)
    then have lc: "length c \<le> MAX_COMPRESSED_SIZE" "length c < 2 ^ 32" using c(4) small by simp_all
    have w: "appends (\<lambda>w. write_value_versioned vec_write_all env w v ver) (TAG_COMPRESSED # enc_sized ver c)"
      unfolding write_value_versioned_def wr
      using appends_tag[OF appends_sized[OF lc(2)], of TAG_COMPRESSED ver] True c(1) by (simp add: compress_block_def)
    have "read_value_with_version n env ver ((TAG_COMPRESSED # enc_sized ver c) @ rest) = zok (v', rest)"
      if "depth v < n" for n rest
    proof -
      obtain m where n: "n = Suc m" "depth v \<le> m" using \<open>depth v < n\<close> by (cases n) auto
      have "read_value_with_version m env ver (bs @ []) = zok (v', [])"
        using t n(2) unfolding trip_def by blast
      then show ?thesis using lc c(2,3) n
        by (simp add: read_tagged_def read_compressed_value_def enc_sized_def read_length_enc)
    qed
    then show ?thesis using that[OF w] t by (simp add: trip_def)
  next
    case False
    then have w: "appends (\<lambda>w. write_value_versioned vec_write_all env w v ver) bs"
      unfolding write_value_versioned_def wr using appends_bytes[of bs] by simp
    show ?thesis using that[OF w] t by (simp add: trip_def)
  qed
qed

text \<open>The entries a stream can carry for the given stack, and those that read back as the entry.\<close>

definition stream_entry_ok :: "zenv \<Rightarrow> format_version \<Rightarrow> nat \<Rightarrow> bytes \<times> zvalue \<Rightarrow> bool" where
  "stream_entry_ok env ver stack kv \<longleftrightarrow> length (fst kv) \<le> MAX_STRING_SIZE \<and> \<not> eof_like ver (length (fst kv)) \<and>
     writable env ver (snd kv) \<and> small_block env ver (snd kv) \<and> depth (snd kv) < stack"

definition same_entry :: "zenv \<Rightarrow> bytes \<times> zvalue \<Rightarrow> bytes \<times> zvalue \<Rightarrow> bool" where
  "same_entry env kv kw \<longleftrightarrow> fst kw = fst kv \<and> same_value env (snd kv) (snd kw)"

text \<open>One entry as the stream holds it: the first byte of the key length, its other bytes, the key and
  the value.\<close>

definition entry_bytes :: "zenv \<Rightarrow> format_version \<Rightarrow> nat \<Rightarrow> bytes \<times> zvalue \<Rightarrow> bytes \<Rightarrow> zvalue \<Rightarrow> bool" where
  "entry_bytes env ver stack kv eb v' \<longleftrightarrow> (\<exists>p ps vb.
     enc_len ver (length (fst kv)) = p # ps \<and> eb = p # ps @ fst kv @ vb \<and> p \<noteq> TAG_EOF \<and>
     (\<forall>rest. parser_key_len ver p (ps @ rest) = zok (length (fst kv), rest)) \<and>
     (\<forall>rest. read_value_with_version stack env ver (vb @ rest) = zok (v', rest)) \<and>
     length (fst kv) \<le> MAX_STRING_SIZE \<and> same_value env (snd kv) v')"

abbreviation write_entry :: "zenv \<Rightarrow> format_version \<Rightarrow> bytes \<times> zvalue \<Rightarrow> bytes \<Rightarrow> bytes zres" where
  "write_entry env ver \<equiv> (\<lambda>(key, val) w.
     zbind (write_sized vec_write_all w key ver) (\<lambda>w. write_value_versioned vec_write_all env w val ver))"

lemma entry_bytes_exist:
  assumes "zstd_ok env" "stream_entry_ok env ver stack kv"
  shows "\<exists>eb v'. entry_bytes env ver stack kv eb v' \<and> appends (write_entry env ver kv) eb"
proof -
  obtain key v where kv: "kv = (key, v)" by force
  have l: "length key < 2 ^ 32" "length key \<le> MAX_STRING_SIZE" and ne: "\<not> eof_like ver (length key)"
    and v: "writable env ver v" "small_block env ver v" "depth v < stack"
    using assms(2) by (simp_all add: stream_entry_ok_def kv)
  obtain p ps where p: "enc_len ver (length key) = p # ps"
    "\<And>rest. parser_key_len ver p (ps @ rest) = zok (length key, rest)" using parser_key_len_enc[OF l(1), of ver] by metis
  have "p \<noteq> TAG_EOF" using enc_len_hd[OF l(1) p(1)] l(2) ne by simp
  obtain vb v' where vb: "appends (\<lambda>w. write_value_versioned vec_write_all env w v ver) vb"
    "\<And>n rest. depth v < n \<Longrightarrow> read_value_with_version n env ver (vb @ rest) = zok (v', rest)" "same_value env v v'"
    using versioned_trip[OF v(1) assms(1) v(2)] by metis
  have "entry_bytes env ver stack kv (p # ps @ key @ vb) v'"
    unfolding entry_bytes_def using p \<open>p \<noteq> TAG_EOF\<close> vb(2)[OF v(3)] vb(3) l(2) by (auto simp: kv)
  moreover have "appends (write_entry env ver kv) (p # ps @ key @ vb)"
    using appends_bind[OF appends_sized[OF l(1)] vb(1), of ver] p(1) by (simp add: enc_sized_def kv)
  ultimately show ?thesis by blast
qed

lemma stream_bytes_exist:
  assumes "zstd_ok env" "\<forall>kv \<in> set kvs. stream_entry_ok env ver stack kv"
  shows "\<exists>eb d. (\<forall>kv \<in> set kvs. entry_bytes env ver stack kv (eb kv) (d kv)) \<and>
    write_stream_versioned vec_write_all env [] kvs ver =
       zok (FILE_MAGIC @ version_byte ver # concat (map eb kvs) @ [TAG_EOF]) \<and>
    list_all2 (same_entry env) kvs (map (\<lambda>kv. (fst kv, d kv)) kvs)"
proof -
  obtain eb d where e: "\<And>kv. kv \<in> set kvs \<Longrightarrow> entry_bytes env ver stack kv (eb kv) (d kv)"
    and w: "\<And>kv. kv \<in> set kvs \<Longrightarrow> appends (write_entry env ver kv) (eb kv)"
    using entry_bytes_exist[OF assms(1)] assms(2) by metis
  have "same_value env (snd kv) (d kv)" if "kv \<in> set kvs" for kv
    using e[OF that] by (auto simp: entry_bytes_def)
  then have "list_all2 (same_entry env) kvs (map (\<lambda>kv. (fst kv, d kv)) kvs)"
    by (simp add: list_all2_conv_all_nth same_entry_def)
  then show ?thesis
    using e appendsD[OF appends_for[of kvs "write_entry env ver" eb, OF w]]
    by (intro exI[of _ eb] exI[of _ d]) (simp add: write_stream_versioned_def appendsD[OF appends_bytes] appendsD[OF appends_u8])
qed

lemma parse_loop_entries:
  assumes "\<And>kv. kv \<in> set kvs \<Longrightarrow> entry_bytes env ver stack kv (eb kv) (d kv)"
  shows "parse_loop (length kvs + fuel) stack env collect_handler ver n (concat (map eb kvs) @ rest) items =
       parse_loop fuel stack env collect_handler ver (n + length kvs) rest (items @ map (\<lambda>kv. (fst kv, d kv)) kvs)"
  using assms
proof (induction kvs arbitrary: n items)
  case (Cons kv kvs)
  obtain p ps vb where e: "eb kv = p # ps @ fst kv @ vb" "p \<noteq> TAG_EOF"
    "\<And>rest. parser_key_len ver p (ps @ rest) = zok (length (fst kv), rest)"
    "\<And>rest. read_value_with_version stack env ver (vb @ rest) = zok (d kv, rest)" "length (fst kv) \<le> MAX_STRING_SIZE"
    using Cons.prems[of kv] by (auto simp: entry_bytes_def)
  have "read_next_entry stack env ver n (eb kv @ rest) = zok (Some (fst kv, d kv), rest)" for n rest
    using e by (simp add: read_next_entry_def slice_read_exact_def)
  then have "parse_loop (Suc fuel) stack env collect_handler ver n (eb kv @ rest) items =
      parse_loop fuel stack env collect_handler ver (n + 1) rest (items @ [(fst kv, d kv)])" for fuel n rest items
    by (simp only: parse_loop.simps zok_def) (simp add: collect_handler_def zok_def)
  then show ?case using Cons.IH Cons.prems by simp
qed simp

lemma header_enc: "read_and_validate_header (FILE_MAGIC @ version_byte ver # rest) = zok (ver, rest)"
  by (simp add: read_and_validate_header_def slice_read_exact_def zok_def[symmetric])

lemma sr_new_enc:
  "sr_new (FILE_MAGIC @ version_byte ver # rest) =
     zok \<lparr> inner = rest, sr_version = ver, sr_done = False, sr_compat = compat_check current ver \<rparr>"
  by (simp add: sr_new_def sr_new_with_version_def read_magic_def read_bytes_def slice_read_exact_def
      validate_compatibility_current)

lemma sr_key_len_enc:
  assumes "enc_len ver n = p # ps" "n < 2 ^ 32" "uses_varint ver \<longrightarrow> n < 128"
  shows "sr_key_len ver p (ps @ rest) = zok (n, rest)"
proof (cases "uses_varint ver")
  case True
  then have "enc_len ver n = leb n" "leb n = [of_nat n]" using assms(3) by (simp_all add: enc_len_def leb_small)
  then have p: "p # [] = leb n" "ps = []" using assms(1) by simp_all
  have "read_varint slice_read_exact [p] = Some (Inr (of_nat n, []))"
    using slc.read_varint_leb[of "leb n" "of_nat n :: u32" "[]"] assms(2) p by (simp add: unat_of_nat)
  then show ?thesis using True assms(2) p(2) by (simp add: sr_key_len_def unat_of_nat)
next
  case False
  then show ?thesis
    using parser_key_len_enc[OF assms(2), of ver] assms(1)
    by (auto simp: sr_key_len_def parser_key_len_def)
qed

lemma sr_collect_entries:
  assumes "\<And>kv. kv \<in> set kvs \<Longrightarrow> entry_bytes env ver stack kv (eb kv) (d kv)"
    "\<And>kv. kv \<in> set kvs \<Longrightarrow> uses_varint ver \<longrightarrow> length (fst kv) < 128" "sr_version s = ver" "\<not> sr_done s"
  shows "sr_collect (length kvs + fuel) stack env (s \<lparr> inner := concat (map eb kvs) @ rest \<rparr>) =
     zbind (sr_collect fuel stack env (s \<lparr> inner := rest \<rparr>)) (\<lambda>l. zok (map (\<lambda>kv. (fst kv, d kv)) kvs @ l))"
  using assms(1,2)
proof (induction kvs)
  case (Cons kv kvs)
  obtain p ps vb where e: "enc_len ver (length (fst kv)) = p # ps" "eb kv = p # ps @ fst kv @ vb" "p \<noteq> TAG_EOF"
    "\<And>rest. read_value_with_version stack env ver (vb @ rest) = zok (d kv, rest)" "length (fst kv) \<le> MAX_STRING_SIZE"
    using Cons.prems(1)[of kv] by (auto simp: entry_bytes_def)
  have "sr_next stack env (s \<lparr> inner := eb kv @ rest \<rparr>) = zok (Some (fst kv, d kv), s \<lparr> inner := rest \<rparr>)" for rest
    using e assms(3,4) sr_key_len_enc[OF e(1)] Cons.prems(2)[of kv] by (simp add: sr_next_def)
  then show ?case using Cons.IH Cons.prems by (simp add: zbind_assoc)
qed simp

section \<open>Properties\<close>

text \<open>C32. What \<open>write_stream\<close> writes, in any version, the streaming parser collects: the same keys with the
  same values in the same order, given a stack deeper than the nesting of the values and a call for every entry.
  The keys are within the size limit of the reader and their encoded lengths do not start with the end mark; the
  values are those of the value round trip (no lists, no streams, no sorted sets with tied scores or in the
  \<open>Legacy\<close> version) whose encoding is at most 64 MB. The compressor is assumed to be inverted by the
  decompressor and to grow its input by little.\<close>

theorem stream_parser_roundtrip:
  assumes "zstd_ok env" "\<forall>kv \<in> set kvs. stream_entry_ok env ver stack kv" "length kvs < fuel"
  shows "\<exists>bs kws. write_stream_versioned vec_write_all env [] kvs ver = zok bs \<and>
    parse fuel stack env collect_handler current bs [] = zok kws \<and> list_all2 (same_entry env) kvs kws"
proof -
  obtain eb d where e: "\<forall>kv \<in> set kvs. entry_bytes env ver stack kv (eb kv) (d kv)"
    and w: "write_stream_versioned vec_write_all env [] kvs ver =
       zok (FILE_MAGIC @ version_byte ver # concat (map eb kvs) @ [TAG_EOF])"
    and same: "list_all2 (same_entry env) kvs (map (\<lambda>kv. (fst kv, d kv)) kvs)"
    using stream_bytes_exist[OF assms(1,2)] by auto
  obtain k where k: "fuel = length kvs + Suc k" using assms(3) by (metis add_Suc_right less_iff_Suc_add)
  have "parse_loop fuel stack env collect_handler ver 0 (concat (map eb kvs) @ [TAG_EOF]) [] =
      parse_loop (Suc k) stack env collect_handler ver (0 + length kvs) [TAG_EOF] ([] @ map (\<lambda>kv. (fst kv, d kv)) kvs)"
    unfolding k by (rule parse_loop_entries) (use e in blast)
  also have "\<dots> = zok (map (\<lambda>kv. (fst kv, d kv)) kvs)"
    by (simp add: read_next_entry_def zok_def)
  finally have "parse fuel stack env collect_handler current
      (FILE_MAGIC @ version_byte ver # concat (map eb kvs) @ [TAG_EOF]) [] = zok (map (\<lambda>kv. (fst kv, d kv)) kvs)"
    unfolding parse_def header_enc by (simp add: validate_compatibility_current) (simp add: collect_handler_def)
  then show ?thesis using w same by blast
qed

text \<open>The iterator \<open>StreamReader\<close> returns the same entries, where a version 3 key is shorter than 128
  bytes.\<close>
theorem stream_reader_roundtrip:
  assumes "zstd_ok env" "\<forall>kv \<in> set kvs. stream_entry_ok env ver stack kv" "length kvs < fuel"
    "\<forall>kv \<in> set kvs. uses_varint ver \<longrightarrow> length (fst kv) < 128"
  shows "\<exists>bs kws. write_stream_versioned vec_write_all env [] kvs ver = zok bs \<and>
    read_stream fuel stack env bs = zok kws \<and> list_all2 (same_entry env) kvs kws"
proof -
  obtain eb d where e: "\<forall>kv \<in> set kvs. entry_bytes env ver stack kv (eb kv) (d kv)"
    and w: "write_stream_versioned vec_write_all env [] kvs ver =
       zok (FILE_MAGIC @ version_byte ver # concat (map eb kvs) @ [TAG_EOF])"
    and same: "list_all2 (same_entry env) kvs (map (\<lambda>kv. (fst kv, d kv)) kvs)"
    using stream_bytes_exist[OF assms(1,2)] by auto
  obtain k where k: "fuel = length kvs + Suc k" using assms(3) by (metis add_Suc_right less_iff_Suc_add)
  let ?s = "\<lparr> inner = [], sr_version = ver, sr_done = False, sr_compat = compat_check current ver \<rparr>"
  have "sr_collect fuel stack env (?s \<lparr> inner := concat (map eb kvs) @ [TAG_EOF] \<rparr>) = zok (map (\<lambda>kv. (fst kv, d kv)) kvs)"
    unfolding k by (subst sr_collect_entries[OF e[rule_format]]) (use assms(4) in \<open>simp_all add: sr_next_def\<close>)
  then have "read_stream fuel stack env (FILE_MAGIC @ version_byte ver # concat (map eb kvs) @ [TAG_EOF]) =
      zok (map (\<lambda>kv. (fst kv, d kv)) kvs)"
    unfolding read_stream_def sr_new_enc by simp
  then show ?thesis using w same by blast
qed

lemma plain_env_zstd: "zstd_ok plain_env"
  by (simp add: zstd_ok_def plain_env_def)

lemma plain_entry_ok:
  "stream_entry_ok plain_env ver 3 ([1, 2], Array [Str [7], Null])"
  by (simp add: stream_entry_ok_def eof_like_def small_block_def write_str_def write_u8_def write_bytes_def
      vec_write_all_def write_sized_def appendsD[OF appends_length[of "Suc 0", simplified]]
      appendsD[OF appends_length[of "Suc (Suc 0)", simplified]] enc_len_def leb_small)

theorem stream_parser_roundtrip_witness:
  "\<exists>bs kws. write_stream_versioned vec_write_all plain_env [] [([1, 2], Array [Str [7], Null])] V3 = zok bs \<and>
    parse 2 3 plain_env collect_handler current bs [] = zok kws \<and>
    list_all2 (same_entry plain_env) [([1, 2], Array [Str [7], Null])] kws"
  by (rule stream_parser_roundtrip) (simp_all add: plain_env_zstd plain_entry_ok)

theorem stream_reader_roundtrip_witness:
  "\<exists>bs kws. write_stream_versioned vec_write_all plain_env [] [([1, 2], Array [Str [7], Null])] V3 = zok bs \<and>
    read_stream 2 3 plain_env bs = zok kws \<and> list_all2 (same_entry plain_env) [([1, 2], Array [Str [7], Null])] kws"
  by (rule stream_reader_roundtrip) (simp_all add: plain_env_zstd plain_entry_ok)

end
