(* ===== verification/Zdb_Dump.thy ===== *)
theory Zdb_Dump
  imports Zdb_Stream
begin

text \<open>
  Where the writers and the readers of dumps and streams do not fit together, and what holds of the dump
  whose body the streaming parser rejects.
\<close>

section \<open>The bytes of a dump\<close>

definition dump_entry_ok :: "zenv \<Rightarrow> format_version \<Rightarrow> nat \<Rightarrow> bytes \<times> zvalue \<Rightarrow> bool" where
  "dump_entry_ok env ver stack kv \<longleftrightarrow> length (fst kv) \<le> MAX_STRING_SIZE \<and> writable env ver (snd kv) \<and>
     depth (snd kv) \<le> stack"

text \<open>A choice of the bytes and of the value read back for each entry.\<close>

definition dump_layout ::
  "zenv \<Rightarrow> format_version \<Rightarrow> nat \<Rightarrow> (bytes \<times> zvalue) list \<Rightarrow> (bytes \<times> zvalue \<Rightarrow> bytes) \<Rightarrow> (bytes \<times> zvalue \<Rightarrow> zvalue) \<Rightarrow> bool" where
  "dump_layout env ver stack kvs vb d \<longleftrightarrow> (\<forall>kv \<in> set kvs.
     appends (write_value_inner vec_write_all env ver (snd kv)) (vb kv) \<and> same_value env (snd kv) (d kv) \<and>
     length (fst kv) \<le> MAX_STRING_SIZE \<and>
     (\<forall>rest. read_value_with_version stack env ver (vb kv @ rest) = zok (d kv, rest)))"

lemma dump_layout_exists:
  assumes "\<forall>kv \<in> set kvs. dump_entry_ok env ver stack kv"
  shows "\<exists>vb d. dump_layout env ver stack kvs vb d"
proof -
  have "\<exists>b v'. trip env ver (snd kv) b v'" if "kv \<in> set kvs" for kv
    using value_trip assms that by (simp add: dump_entry_ok_def)
  then obtain vb d where "\<And>kv. kv \<in> set kvs \<Longrightarrow> trip env ver (snd kv) (vb kv) (d kv)" by metis
  then have "dump_layout env ver stack kvs vb d"
    using assms by (auto simp: dump_layout_def dump_entry_ok_def trip_def)
  then show ?thesis by blast
qed

definition dump_body :: "format_version \<Rightarrow> (bytes \<times> zvalue) list \<Rightarrow> (bytes \<times> zvalue \<Rightarrow> bytes) \<Rightarrow> bytes" where
  "dump_body ver kvs vb = FILE_MAGIC @ version_byte ver # enc_len ver (length kvs) @
     concat (map (\<lambda>kv. enc_sized ver (fst kv) @ vb kv) kvs)"

lemma write_record_layout:
  assumes "dump_layout env ver stack kvs vb d" "(key, v) \<in> set kvs"
  shows "write_record env ver key v = zok (enc_sized ver key @ vb (key, v))"
proof -
  have "length key < 2 ^ 32" "appends (write_value_inner vec_write_all env ver v) (vb (key, v))"
    using assms by (auto simp: dump_layout_def)
  then show ?thesis
    using appendsD[OF appends_length, of "length key" "[]" ver]
    by (simp add: write_record_def enc_sized_def appendsD)
qed

lemma write_and_hash_vec: "write_and_hash vec_write_all bs st = zok (fst st @ bs, snd st @ bs)"
  by (simp add: write_and_hash_def appendsD[OF appends_bytes])

lemma write_dump_streaming_bytes:
  assumes "dump_layout env ver stack kvs vb d" "length kvs < 2 ^ 32"
  shows "write_dump_streaming_versioned vec_write_all env [] kvs ver =
    zok (dump_body ver kvs vb @ to_be_bytes 4 (crc32 env (dump_body ver kvs vb)))"
proof -
  have "zfor (\<lambda>(key, val) st. zbind (write_record env ver key val) (\<lambda>tmp. write_and_hash vec_write_all tmp st)) xs (w, h) =
     zok (w @ concat (map (\<lambda>kv. enc_sized ver (fst kv) @ vb kv) xs), h @ concat (map (\<lambda>kv. enc_sized ver (fst kv) @ vb kv) xs))"
    if "set xs \<subseteq> set kvs" for xs w h
    using that
  proof (induction xs arbitrary: w h)
    case (Cons kv xs)
    obtain key v where kv: "kv = (key, v)" by force
    then show ?case using Cons write_record_layout[OF assms(1), of key v] by (simp add: write_and_hash_vec)
  qed simp
  from this[of kvs] show ?thesis
    using appendsD[OF appends_length[OF assms(2)], of "[]" ver] appendsD[OF appends_bytes]
    by (simp add: write_dump_streaming_versioned_def write_and_hash_vec dump_body_def write_u32_def)
qed

lemma read_dump_split:
  assumes "4 \<le> length body" "crc32 env body = crc"
  shows "read_dump_with_version fuel stack env (body @ to_be_bytes 4 crc) reader = read_body fuel stack env reader body"
  using assms by (simp add: read_dump_with_version_def from_to_be_bytes)

lemma read_counted_body:
  assumes "dump_layout env ver stack kvs vb d" "length kvs \<le> MAX_COLLECTION_SIZE"
  shows "read_counted stack env current (dump_body ver kvs vb) = zok (map (\<lambda>kv. (fst kv, d kv)) kvs)"
proof -
  let ?f = "\<lambda>(items, r). zbind (read_dump_item stack env ver r) (\<lambda>(item, r). zok (items @ [item], r))"
  let ?g = "\<lambda>kv. enc_sized ver (fst kv) @ vb kv"
  have item: "?f (items, ?g kv @ rest) = zok (items @ [(fst kv, d kv)], rest)" if "kv \<in> set kvs" for items kv rest
  proof -
    have "length (fst kv) \<le> MAX_STRING_SIZE" "length (fst kv) < 2 ^ 32"
      and "read_value_with_version stack env ver (vb kv @ rest) = zok (d kv, rest)"
      using assms(1) that by (auto simp: dump_layout_def)
    then show ?thesis by (simp add: read_dump_item_def read_sized_enc)
  qed
  have "zrepeat (length kvs) ?f ([], concat (map ?g kvs) @ []) = zok (fold (\<lambda>kv items. items @ [(fst kv, d kv)]) kvs [], [])"
    using item by (rule zrepeat_read)
  moreover have "fold (\<lambda>kv items. items @ [(fst kv, d kv)]) xs acc = acc @ map (\<lambda>kv. (fst kv, d kv)) xs" for xs acc
    by (induction xs arbitrary: acc) simp_all
  ultimately show ?thesis using assms(2) read_limited_enc[of "length kvs" MAX_COLLECTION_SIZE ver]
    by (simp add: read_counted_def dump_body_def read_magic_def read_bytes_def slice_read_exact_def
        validate_compatibility_current)
qed

section \<open>Properties\<close>

text \<open>A dump written by \<open>write_dump_streaming_versioned\<close> is at least eight bytes and passes the checksum.
  \<open>read_dump\<close> first takes its body for a stream: when the parser accepts it, what it collects is returned;
  when the parser rejects it, the entries are read back, every one and in order.\<close>
theorem dump_roundtrip:
  assumes "\<forall>kv \<in> set kvs. dump_entry_ok env ver stack kv" "length kvs \<le> MAX_COLLECTION_SIZE"
  shows "\<exists>bs kws. write_dump_streaming_versioned vec_write_all env [] kvs ver = zok bs \<and> 8 \<le> length bs \<and>
    list_all2 (same_entry env) kvs kws \<and>
    read_dump fuel stack env bs =
      (case parse fuel stack env collect_handler current (take (length bs - 4) bs) [] of
         None \<Rightarrow> None | Some (Inr items) \<Rightarrow> zok items | Some (Inl _) \<Rightarrow> zok kws)"
proof -
  obtain vb d where lay: "dump_layout env ver stack kvs vb d" using dump_layout_exists[OF assms(1)] by blast
  let ?b = "dump_body ver kvs vb" and ?kws = "map (\<lambda>kv. (fst kv, d kv)) kvs"
  have "list_all2 (same_entry env) kvs ?kws"
    using lay by (simp add: list_all2_conv_all_nth same_entry_def dump_layout_def)
  moreover have "write_dump_streaming_versioned vec_write_all env [] kvs ver = zok (?b @ to_be_bytes 4 (crc32 env ?b))"
    using write_dump_streaming_bytes[OF lay] assms(2) by simp
  moreover have l: "4 \<le> length ?b" by (simp add: dump_body_def)
  moreover have "read_dump fuel stack env (?b @ to_be_bytes 4 (crc32 env ?b)) =
      (case parse fuel stack env collect_handler current ?b [] of
         None \<Rightarrow> None | Some (Inr items) \<Rightarrow> zok items | Some (Inl _) \<Rightarrow> zok ?kws)"
    using read_dump_split[OF l refl] read_counted_body[OF lay assms(2)]
    by (simp add: read_dump_def read_body_def split: option.split sum.split)
  ultimately show ?thesis
    by (intro exI[of _ "?b @ to_be_bytes 4 (crc32 env ?b)"] exI[of _ ?kws]) simp
qed

theorem dump_roundtrip_witness:
  "\<exists>bs kws. write_dump_streaming_versioned vec_write_all plain_env [] [([7], Null)] V1 = zok bs \<and> 8 \<le> length bs \<and>
    list_all2 (same_entry plain_env) [([7], Null)] kws \<and>
    read_dump 5 2 plain_env bs =
      (case parse 5 2 plain_env collect_handler current (take (length bs - 4) bs) [] of
         None \<Rightarrow> None | Some (Inr items) \<Rightarrow> zok items | Some (Inl _) \<Rightarrow> zok kws)"
  by (rule dump_roundtrip) (simp_all add: dump_entry_ok_def)

text \<open>A version 3 dump of 255 entries, or of any larger number that is 127 modulo 128, is written without
  an error and read back without an error as the empty dump: the first byte of its count is the end mark of
  a stream.\<close>
theorem dump_count_taken_for_eof:
  assumes "\<forall>kv \<in> set kvs. dump_entry_ok env current stack kv" "128 \<le> length kvs" "length kvs mod 128 = 127"
    "length kvs < 2 ^ 32"
  shows "\<exists>bs. write_dump_streaming vec_write_all env [] kvs = zok bs \<and> read_dump (Suc fuel) stack env bs = zok []"
proof -
  obtain vb d where lay: "dump_layout env current stack kvs vb d" using dump_layout_exists[OF assms(1)] by blast
  let ?b = "dump_body current kvs vb"
  obtain p ps where p: "enc_len current (length kvs) = p # ps" using parser_key_len_enc[OF assms(4), of current] by metis
  have "p = TAG_EOF"
    using enc_len_hd[OF assms(4) p] assms(2,3) by (simp add: eof_like_def current_def)
  then have b: "?b = FILE_MAGIC @ version_byte current # TAG_EOF # ps @ concat (map (\<lambda>kv. enc_sized current (fst kv) @ vb kv) kvs)"
    by (simp add: dump_body_def p)
  have "parse (Suc fuel) stack env collect_handler current ?b [] = zok []"
    unfolding b parse_def header_enc
    by (simp add: validate_compatibility_current) (simp add: collect_handler_def read_next_entry_def zok_def)
  moreover have "4 \<le> length ?b" by (simp add: b)
  moreover have "write_dump_streaming vec_write_all env [] kvs = zok (?b @ to_be_bytes 4 (crc32 env ?b))"
    using write_dump_streaming_bytes[OF lay assms(4)] by (simp add: write_dump_streaming_def)
  ultimately show ?thesis
    using read_dump_split[of ?b env] by (simp add: read_dump_def read_body_def zok_def)
qed

theorem dump_count_taken_for_eof_witness:
  "\<exists>bs. write_dump_streaming vec_write_all plain_env [] (replicate 255 ([7], Null)) = zok bs \<and>
    read_dump (Suc 0) 1 plain_env bs = zok []"
  by (rule dump_count_taken_for_eof) (simp_all add: dump_entry_ok_def)

text \<open>The other writer: the bytes of the keys precede the header.\<close>

lemma write_dump_bytes:
  assumes "dump_layout env ver stack kvs vb d" "length kvs < 2 ^ 32"
  shows "\<exists>buf. 5 \<le> length buf \<and> write_dump_versioned vec_write_all env [] kvs ver =
    zok (concat (map fst kvs) @ buf @ to_be_bytes 4 (crc32 env buf))"
proof -
  let ?f = "\<lambda>(key, val) (w, buf). zbind (write_length vec_write_all buf (of_nat (length key)) ver) (\<lambda>buf.
          zbind (write_bytes vec_write_all w key) (\<lambda>w.
          zbind (write_value_inner vec_write_all env ver val buf) (\<lambda>buf. zok (w, buf))))"
  have step: "?f kv (w, buf) = zok (w @ fst kv, buf @ enc_len ver (length (fst kv)) @ vb kv)" if "kv \<in> set kvs" for kv w buf
  proof -
    obtain key v where kv: "kv = (key, v)" by force
    have "length key < 2 ^ 32" "appends (write_value_inner vec_write_all env ver v) (vb kv)"
      using assms(1) that by (auto simp: dump_layout_def kv)
    then show ?thesis by (simp add: kv appendsD[OF appends_length] appendsD[OF appends_bytes] appendsD)
  qed
  have loop: "zfor ?f xs (w, buf) = zok (w @ concat (map fst xs), buf @ concat (map (\<lambda>kv. enc_len ver (length (fst kv)) @ vb kv) xs))"
    if "set xs \<subseteq> set kvs" for xs w buf
    using that
  proof (induction xs arbitrary: w buf)
    case (Cons kv xs)
    then show ?case using step[of kv w buf] by (simp del: case_prod_conv)
  qed simp
  let ?buf = "(FILE_MAGIC @ [version_byte ver]) @ enc_len ver (length kvs) @ concat (map (\<lambda>kv. enc_len ver (length (fst kv)) @ vb kv) kvs)"
  have "enc_len ver (length kvs) \<noteq> []" using parser_key_len_enc[OF assms(2), of ver] by (metis list.distinct(1))
  then have "5 \<le> length ?buf" by (cases "enc_len ver (length kvs)") simp_all
  moreover have "write_dump_versioned vec_write_all env [] kvs ver =
      zok (concat (map fst kvs) @ ?buf @ to_be_bytes 4 (crc32 env ?buf))"
    unfolding write_dump_versioned_def Let_def appendsD[OF appends_length[OF assms(2)]] zbind_simps loop[OF subset_refl]
    by (simp add: appendsD[OF appends_bytes] write_u32_def)
  ultimately show ?thesis by blast
qed

text \<open>C39. \<open>write_dump\<close> puts the bytes of the keys in front of the header: unless the first key is empty or
  starts with the letter Z, what it writes is not readable by \<open>read_dump\<close> as anything.\<close>
theorem write_dump_unreadable:
  assumes "\<forall>kv \<in> set kvs. dump_entry_ok env ver stack kv" "length kvs < 2 ^ 32"
    "kvs = (b # key, v) # kvs'" "b \<noteq> 0x5A"
  shows "\<exists>bs e. write_dump_versioned vec_write_all env [] kvs ver = zok bs \<and> read_dump fuel stack env bs = zerr e"
proof -
  obtain vb d where "dump_layout env ver stack kvs vb d" using dump_layout_exists[OF assms(1)] by blast
  from write_dump_bytes[OF this assms(2)] obtain buf where buf: "5 \<le> length buf"
    and w: "write_dump_versioned vec_write_all env [] kvs ver = zok (concat (map fst kvs) @ buf @ to_be_bytes 4 (crc32 env buf))"
    by blast
  define body where "body = concat (map fst kvs) @ buf"
  have len: "5 \<le> length body" using buf by (simp add: body_def)
  have tk: "take 3 body \<noteq> FILE_MAGIC" using assms(3,4) by (simp add: body_def)
  have m: "slice_read_exact body 3 = Inr (take 3 body, drop 3 body)" using len by (simp add: slice_read_exact_def)
  have "parse fuel stack env collect_handler current body [] = zerr (InvalidMagic (take 3 body))"
    using tk by (simp add: parse_def read_and_validate_header_def m)
  moreover have "read_counted stack env current body = zerr (InvalidMagic (take 3 body))"
    using tk by (simp add: read_counted_def read_magic_def read_bytes_def m)
  ultimately have "\<exists>e. read_dump fuel stack env (body @ to_be_bytes 4 (crc32 env buf)) = zerr e"
    using len by (cases "crc32 env body = crc32 env buf")
      (simp_all add: read_dump_def read_dump_with_version_def from_to_be_bytes read_body_def zerr_def)
  then show ?thesis using w by (simp add: body_def)
qed

theorem write_dump_unreadable_witness:
  "\<exists>bs e. write_dump_versioned vec_write_all plain_env [] [([7], Null)] V3 = zok bs \<and> read_dump 9 1 plain_env bs = zerr e"
  by (rule write_dump_unreadable[where b = 7 and key = "[]" and v = Null and kvs' = "[]"])
    (simp_all add: dump_entry_ok_def word_unat_eq_iff)

section \<open>Long keys in the iterator\<close>

text \<open>The buffered reader takes all that fits into its buffer and is dropped with it.\<close>

lemma chain_read_varint:
  assumes "128 \<le> n" "n < 16384"
  obtains p q where "leb n = [p, q]"
    "\<And>rest. read_varint chain_read_exact ([], [p], q # rest) = Some (Inr (of_nat n, (take 8191 rest, [], drop 8191 rest)))"
    "\<exists>e. read_varint slice_read_exact [p] = Some (Inl e)"
proof -
  have d: "n div 128 < 128" using assms(2) by (simp add: div_less_iff_less_mult)
  define p q :: u8 where "p = of_nat (n mod 128 + 128)" and "q = of_nat (n div 128)"
  have leb: "leb n = [p, q]" using assms(1) d by (simp add: leb_large leb_small p_def q_def)
  have "unat p = n mod 128 + 128" unfolding p_def by (rule unat_of_nat_byte) simp
  moreover have "unat q = n div 128" unfolding q_def by (rule unat_of_nat_byte) (use d in simp)
  ultimately have pq: "p AND 0x80 \<noteq> 0" "q AND 0x80 = 0" using d by (simp_all add: and_128_eq_0)
  have five: "[0..<MAX_VARINT_LEN] = [0, 1, 2, 3, 4]" by (simp add: upt_rec)
  let ?v = "ucast (p AND 0x7F) OR push_bit 7 (ucast (q AND 0x7F)) :: u32"
  have "n < 2 ^ 32" using assms(2) by simp
  then have "unat (of_nat n :: u32) = n" by (simp add: unat_of_nat)
  then have "read_varint slice_read_exact [p, q] = Some (Inr (of_nat n, []))"
    using slc.read_varint_leb[of "[p, q]" "of_nat n :: u32" "[]"] by (simp add: leb)
  then have v: "?v = of_nat n"
    using pq by (simp add: read_varint_def five slice_read_exact_def Let_def split: if_splits)
  have "read_varint chain_read_exact ([], [p], q # rest) = Some (Inr (of_nat n, (take 8191 rest, [], drop 8191 rest)))" for rest
  proof -
    have first: "chain_read_exact ([], [p], q # rest) 1 = Inr ([p], ([], [], q # rest))"
      by (simp add: numeral_2_eq_2[symmetric] One_nat_def)
    have second: "chain_read_exact ([], [], q # rest) 1 = Inr ([q], (take 8191 rest, [], drop 8191 rest))"
      by (simp add: take_Cons' drop_Cons')
    show ?thesis
      unfolding read_varint_def five using pq v first second by (simp del: chain_read_exact.simps add: Let_def)
  qed
  moreover have "\<exists>e. read_varint slice_read_exact [p] = Some (Inl e)"
    using pq by (simp add: read_varint_def five slice_read_exact_def Let_def)
  ultimately show ?thesis using that leb by blast
qed

text \<open>A version 3 stream whose first key has 128 bytes or more cannot be iterated: the length of the key is
  read through a buffer that takes up to 8192 bytes out of the stream and is then dropped. When the stream
  fits into the buffer, \<open>StreamReader\<close> fails at the first entry, whatever the entries.\<close>
theorem stream_reader_long_key:
  assumes "zstd_ok env" "\<forall>kv \<in> set ((key, v) # kvs). stream_entry_ok env current stack kv" "128 \<le> length key"
    "write_stream vec_write_all env [] ((key, v) # kvs) = zok bs" "length bs \<le> 8192"
  shows "read_stream (Suc fuel) stack env bs = zerr (Io [] UnexpectedEof)"
proof -
  obtain eb d where e: "\<forall>kv \<in> set ((key, v) # kvs). entry_bytes env current stack kv (eb kv) (d kv)"
    and w: "write_stream_versioned vec_write_all env [] ((key, v) # kvs) current =
       zok (FILE_MAGIC @ version_byte current # concat (map eb ((key, v) # kvs)) @ [TAG_EOF])"
    using stream_bytes_exist[OF assms(1,2)] by auto
  obtain p ps vb where p: "enc_len current (length key) = p # ps" "eb (key, v) = p # ps @ key @ vb" "p \<noteq> TAG_EOF"
    using e by (auto simp: entry_bytes_def)
  define rest where "rest = vb @ concat (map eb kvs) @ [TAG_EOF]"
  have bs: "bs = FILE_MAGIC @ version_byte current # p # ps @ key @ rest"
    using w assms(4) by (simp add: write_stream_def rest_def p(2))
  then have len: "length key + length rest \<le> 8191" using assms(5) by simp
  then have n: "length key < 16384" by simp
  obtain p' q where pq: "leb (length key) = [p', q]"
    "\<And>rest. read_varint chain_read_exact ([], [p'], q # rest) =
       Some (Inr (of_nat (length key), (take 8191 rest, [], drop 8191 rest)))"
    "\<exists>e. read_varint slice_read_exact [p'] = Some (Inl e)"
    using chain_read_varint[OF assms(3) n] by metis
  have ps: "p' = p" "ps = [q]" using p(1) pq(1) by (simp_all add: enc_len_def current_def)
  have "unat (of_nat (length key) :: u32) = length key" using n by (simp add: unat_of_nat)
  then have "sr_key_len current p (ps @ key @ rest) = zok (length key, [])"
    using pq(2)[of "key @ rest"] pq(3) len by (auto simp: sr_key_len_def ps current_def zok_def)
  moreover have "read_bytes (length key) [] = zerr (Io [] UnexpectedEof)"
    using assms(3) by (auto simp: read_bytes_def slice_read_exact_def)
  ultimately show ?thesis
    unfolding read_stream_def bs sr_new_enc using p(3) n by (simp add: sr_next_def)
qed

lemma write_null: "write_value_versioned vec_write_all env w Null current = zok (w @ [TAG_NULL])"
  by (simp add: write_value_versioned_def should_compress_def appendsD[OF appends_u8] appendsD[OF appends_bytes])

lemma write_null_stream:
  assumes "length key < 2 ^ 32"
  shows "write_stream vec_write_all env [] [(key, Null)] =
    zok (FILE_MAGIC @ version_byte current # enc_len current (length key) @ key @ [TAG_NULL, TAG_EOF])"
  by (simp add: write_stream_def write_stream_versioned_def appendsD[OF appends_bytes] appendsD[OF appends_u8]
      appendsD[OF appends_sized[OF assms]] enc_sized_def write_null)

theorem stream_reader_long_key_witness:
  "\<exists>bs. write_stream vec_write_all plain_env [] [(replicate 130 7, Null)] = zok bs \<and>
    read_stream (Suc 0) 2 plain_env bs = zerr (Io [] UnexpectedEof)"
proof -
  have ok: "\<forall>kv \<in> set [(replicate 130 7, Null)]. stream_entry_ok plain_env current 2 kv"
    by (simp add: stream_entry_ok_def eof_like_def small_block_def appendsD[OF appends_u8])
  have len: "length (enc_len current 130) = 2" by (simp add: enc_len_def current_def leb_large leb_small)
  show ?thesis
    using stream_reader_long_key[OF plain_env_zstd ok _ write_null_stream, of 0] len write_null_stream[of "replicate 130 7" plain_env]
    by simp
qed

section \<open>Transformed dumps\<close>

text \<open>\<open>TransformHandler\<close> copies the version of its source into the header but writes fixed four-byte key
  lengths: a version 3 stream of one entry, transformed by the identity, is rejected by the reader.\<close>
theorem transform_unreadable:
  assumes "length key < 65536" "\<not> eof_like current (length key)"
  shows "\<exists>bs out. write_stream vec_write_all env [] [(key, Null)] = zok bs \<and>
    parse (Suc (Suc fuel)) (Suc stack) env (transform_handler vec_write_all env (\<lambda>k v. Some (k, v))) current bs ([], 0) = zok (out, 1) \<and>
    read_stream (Suc fuel') (Suc stack) env out = zerr (InvalidTag 0) \<and>
    parse (Suc fuel') (Suc stack) env collect_handler current out [] = zerr (InvalidTag 0)"
proof -
  have l: "length key < 2 ^ 32" using assms(1) by simp
  obtain p ps where p: "enc_len current (length key) = p # ps"
    "\<And>rest. parser_key_len current p (ps @ rest) = zok (length key, rest)" using parser_key_len_enc[OF l, of current] by metis
  have pe: "p \<noteq> TAG_EOF" using enc_len_hd[OF l p(1)] assms by simp
  let ?H = "transform_handler vec_write_all env (\<lambda>k v. Some (k, v))"
  have "read_next_entry (Suc stack) env current 0 ((p # ps @ key @ [TAG_NULL]) @ [TAG_EOF]) = zok (Some (key, Null), [TAG_EOF])"
    using pe p(2)[of "key @ [TAG_NULL, TAG_EOF]"] assms(1)
    by (simp add: read_next_entry_def slice_read_exact_def read_tagged_def)
  moreover define out where "out = FILE_MAGIC @ version_byte current # to_be_bytes 4 (of_nat (length key) :: u32) @ key @ [TAG_NULL, TAG_EOF]"
  ultimately have t: "parse (Suc (Suc fuel)) (Suc stack) env ?H current
      (FILE_MAGIC @ version_byte current # (p # ps @ key @ [TAG_NULL]) @ [TAG_EOF]) ([], 0) = zok (out, 1)"
    unfolding parse_def header_enc
    by (simp add: validate_compatibility_current)
      (simp add: transform_handler_def appendsD[OF appends_bytes] write_u32_def write_value_def write_null zok_def read_next_entry_def)
  have z: "drop_bit k (of_nat (length key) :: u32) = 0" if "16 \<le> k" for k
  proof -
    have "(2 :: nat) ^ 16 \<le> 2 ^ k" using that by (rule power_increasing) simp
    then have "length key div 2 ^ k = 0" using assms(1) by simp
    moreover have "unat (drop_bit k (of_nat (length key) :: u32)) = unat (of_nat (length key) :: u32) div 2 ^ k"
      unfolding unat_drop_bit_eq by (rule drop_bit_eq_div)
    moreover have "unat (of_nat (length key) :: u32) = length key" using l by (simp add: unat_of_nat)
    ultimately show ?thesis by (metis unat_eq_0)
  qed
  obtain rest where "out = FILE_MAGIC @ version_byte current # 0 # 0 # rest"
    using z[of 24] z[of 16] by (simp add: out_def to_be_bytes_def upt_rec)
  moreover have not_eof: "(0 :: u8) \<noteq> TAG_EOF" by (simp add: word_unat_eq_iff)
  have v0: "read_varint slice_read_exact [0] = Some (Inr (0, []))"
    by (simp add: read_varint_def upt_rec slice_read_exact_def)
  have "read_stream (Suc fuel') (Suc stack) env (FILE_MAGIC @ version_byte current # 0 # 0 # rest) = zerr (InvalidTag 0)" for rest
    unfolding read_stream_def sr_new_enc using v0 not_eof
    by (simp add: sr_next_def sr_key_len_def current_def read_bytes_def slice_read_exact_def read_tagged_def)
  moreover have "parse (Suc fuel') (Suc stack) env collect_handler current (FILE_MAGIC @ version_byte current # 0 # 0 # rest) [] = zerr (InvalidTag 0)" for rest
    unfolding parse_def header_enc using not_eof
    by (simp add: validate_compatibility_current)
      (simp add: collect_handler_def report_def read_next_entry_def parser_key_len_def current_def slice_read_exact_def
        read_tagged_def zok_def zerr_def)
  ultimately show ?thesis using t write_null_stream[OF l, of env] p(1) by auto
qed

theorem transform_unreadable_witness:
  "\<exists>bs out. write_stream vec_write_all plain_env [] [([7], Null)] = zok bs \<and>
    parse 2 1 plain_env (transform_handler vec_write_all plain_env (\<lambda>k v. Some (k, v))) current bs ([], 0) = zok (out, 1) \<and>
    read_stream 1 1 plain_env out = zerr (InvalidTag 0) \<and> parse 1 1 plain_env collect_handler current out [] = zerr (InvalidTag 0)"
  using transform_unreadable[of "[7]" plain_env 0 0 0] by (simp add: eof_like_def numeral_2_eq_2)

end
