(* ===== verification/Zsp_Frame.thy ===== *)
theory Zsp_Frame
  imports Rust_Text SmartHash
begin

text \<open>
  \<open>src/network/zsp/frame/zsp_types.rs\<close> (the frames of the ZSP protocol, their hash and equality) and
  \<open>src/network/zsp/frame/encoder.rs\<close>. A \<open>f64\<close> is its bits. The functions outside the crate are the
  fields of \<open>zsp_env\<close>: formatting and parsing of floating-point numbers, the conversion of an \<open>i64\<close>
  to \<open>f64\<close>, the traversal orders of the standard tables, whether the table lookup for one hash
  input meets an entry of another, and which allocations the allocator grants.
\<close>

section \<open>Frames\<close>

datatype zsp_frame =
    InlineString bytes
  | FrameError bytes
  | Integer i64
  | Float u64
  | Bool bool
  | BinaryString "bytes option"
  | Array "zsp_frame list"
  | Dictionary "(bytes, zsp_frame) hash_map"
  | Set "zsp_frame list"
  | Push "zsp_frame list"
  | ZSet "(bytes \<times> u64) list"
  | Null

text \<open>What \<open>Hash\<close> feeds to the hasher: a tag and, for the containers, only their length.\<close>

datatype hash_input =
    HBytes u8 bytes | HWord u8 u64 | HBool u8 bool | HOpt u8 "bytes option" | HLen u8 nat | HTag u8

datatype allocation = FrameVec | FrameMap | FrameSet | PairVec | ByteVec

record zsp_env =
  fmt5 :: "u64 \<Rightarrow> bytes"
  fmt :: "u64 \<Rightarrow> bytes"
  parse_f64 :: "bytes \<Rightarrow> u64 option"
  i64_to_f64 :: "i64 \<Rightarrow> u64"
  items_order :: "(bytes, zsp_frame) order"
  members_order :: "(zsp_frame, unit) order"
  probe :: "hash_input \<Rightarrow> hash_input \<Rightarrow> bool"
  grants :: "allocation \<Rightarrow> nat \<Rightarrow> bool"

fun frame_hash :: "zsp_frame \<Rightarrow> hash_input" where
  "frame_hash (InlineString s) = HBytes 0 s"
| "frame_hash (FrameError e) = HBytes 1 e"
| "frame_hash (Integer i) = HWord 2 i"
| "frame_hash (Float f) = HWord 3 f"
| "frame_hash (Bool b) = HBool 4 b"
| "frame_hash (BinaryString opt) = HOpt 5 opt"
| "frame_hash Null = HTag 6"
| "frame_hash (Array arr) = HLen 7 (length arr)"
| "frame_hash (Dictionary d) = HLen 8 (length d)"
| "frame_hash (Set s) = HLen 9 (length s)"
| "frame_hash (Push p) = HLen 10 (length p)"
| "frame_hash (ZSet z) = HLen 11 (length z)"

section \<open>Equality\<close>

unbundle bit_operations_syntax

abbreviation f64_INFINITY :: u64 where "f64_INFINITY \<equiv> 0x7FF0000000000000"
abbreviation f64_NEG_INFINITY :: u64 where "f64_NEG_INFINITY \<equiv> 0xFFF0000000000000"

definition f64_is_nan :: "u64 \<Rightarrow> bool" where
  "f64_is_nan f \<longleftrightarrow> f64_INFINITY < (f AND 0x7FFFFFFFFFFFFFFF)"

definition f64_eq :: "u64 \<Rightarrow> u64 \<Rightarrow> bool" where
  "f64_eq a b \<longleftrightarrow>
     \<not> f64_is_nan a \<and> \<not> f64_is_nan b \<and>
     (a = b \<or> (a AND 0x7FFFFFFFFFFFFFFF) = 0 \<and> (b AND 0x7FFFFFFFFFFFFFFF) = 0)"

text \<open>The derived \<open>PartialEq\<close>, with the equality of the standard vectors, maps and sets.\<close>

lemma size_items: "(k, v) \<in> set items \<Longrightarrow> size v < Suc (size_list (size_prod (\<lambda>_. 0) size) items)"
  by (auto intro: size_list_estimation' simp: less_Suc_eq_le)

lemma size_members: "x \<in> set xs \<Longrightarrow> size x < Suc (size_list size xs)"
  by (auto intro: size_list_estimation' simp: less_Suc_eq_le)

function frame_eq :: "zsp_env \<Rightarrow> zsp_frame \<Rightarrow> zsp_frame \<Rightarrow> bool" where
  "frame_eq env (InlineString s) g \<longleftrightarrow> g = InlineString s"
| "frame_eq env (FrameError e) g \<longleftrightarrow> g = FrameError e"
| "frame_eq env (Integer i) g \<longleftrightarrow> g = Integer i"
| "frame_eq env (Float a) g \<longleftrightarrow> (case g of Float b \<Rightarrow> f64_eq a b | _ \<Rightarrow> False)"
| "frame_eq env (Bool b) g \<longleftrightarrow> g = Bool b"
| "frame_eq env (BinaryString opt) g \<longleftrightarrow> g = BinaryString opt"
| "frame_eq env (Array xs) g \<longleftrightarrow>
     (case g of
        Array ys \<Rightarrow> length xs = length ys \<and> (\<forall>(x, y) \<in> set (zip xs ys). frame_eq env x y)
      | _ \<Rightarrow> False)"
| "frame_eq env (Dictionary xs) g \<longleftrightarrow>
     (case g of
        Dictionary ys \<Rightarrow> length xs = length ys \<and>
          (\<forall>(k, v) \<in> set xs. case map_of ys k of None \<Rightarrow> False | Some w \<Rightarrow> frame_eq env v w)
      | _ \<Rightarrow> False)"
| "frame_eq env (Set xs) g \<longleftrightarrow>
     (case g of
        Set ys \<Rightarrow> length xs = length ys \<and>
          (\<forall>x \<in> set xs. \<exists>y \<in> set ys. probe env (frame_hash y) (frame_hash x) \<and> frame_eq env x y)
      | _ \<Rightarrow> False)"
| "frame_eq env (Push xs) g \<longleftrightarrow>
     (case g of
        Push ys \<Rightarrow> length xs = length ys \<and> (\<forall>(x, y) \<in> set (zip xs ys). frame_eq env x y)
      | _ \<Rightarrow> False)"
| "frame_eq env (ZSet xs) g \<longleftrightarrow>
     (case g of
        ZSet ys \<Rightarrow> length xs = length ys \<and>
          (\<forall>(p, q) \<in> set (zip xs ys). fst p = fst q \<and> f64_eq (snd p) (snd q))
      | _ \<Rightarrow> False)"
| "frame_eq env Null g \<longleftrightarrow> g = Null"
  by pat_completeness auto
termination
  by (relation "measure (\<lambda>(env, f, g). size f)")
     (auto dest!: set_zip_leftD intro: size_items size_members)

text \<open>\<open>HashSet::insert\<close>: an equal entry that the lookup meets stays, else the value is added.\<close>

definition hs_insert :: "zsp_env \<Rightarrow> zsp_frame list \<Rightarrow> zsp_frame \<Rightarrow> zsp_frame list" where
  "hs_insert env s x =
     (if \<exists>y \<in> set s. probe env (frame_hash y) (frame_hash x) \<and> frame_eq env x y then s else s @ [x])"

definition hs_iter :: "zsp_env \<Rightarrow> zsp_frame list \<Rightarrow> zsp_frame list" where
  "hs_iter env s = map fst (hm_iter (members_order env) (map (\<lambda>x. (x, ())) s))"

lemma hs_iter_facts: "set (hs_iter env s) = set s" "length (hs_iter env s) = length s"
  by (auto simp: hs_iter_def hm_iter_facts image_image)

section \<open>The encoder\<close>

abbreviation MAX_LINE_LENGTH :: nat where "MAX_LINE_LENGTH \<equiv> 1048576"
abbreviation MAX_BINARY_LENGTH :: nat where "MAX_BINARY_LENGTH \<equiv> 536870912"
abbreviation MAX_ARRAY_DEPTH :: nat where "MAX_ARRAY_DEPTH \<equiv> 32"

datatype zsp_encode_error = InvalidData string

abbreviation crlf :: bytes where "crlf \<equiv> [0x0D, 0x0A]"

text \<open>A number inside a message.\<close>

definition message_nat :: "nat \<Rightarrow> string" where
  "message_nat n = map (\<lambda>b. char_of (unat b)) (show_nat n)"

definition validate_simple_string :: "bytes \<Rightarrow> zsp_encode_error + unit" where
  "validate_simple_string s =
     (if 0x0D \<in> set s \<or> 0x0A \<in> set s
      then Inl (InvalidData ''Simple string contains CR or LF characters'') else Inr ())"

definition validate_error_string :: "bytes \<Rightarrow> zsp_encode_error + unit" where
  "validate_error_string s =
     (if 0x0D \<in> set s \<or> 0x0A \<in> set s
      then Inl (InvalidData ''Error message contains CR or LF characters'') else Inr ())"

text \<open>The first error of a sequence of encodings, else their concatenation.\<close>

fun enc_concat :: "('e + bytes) list \<Rightarrow> 'e + bytes" where
  "enc_concat [] = Inr []"
| "enc_concat (Inl e # rs) = Inl e"
| "enc_concat (Inr b # rs) = map_sum id (\<lambda>bs. b @ bs) (enc_concat rs)"

definition encode_bulk :: "bytes \<Rightarrow> bytes" where
  "encode_bulk b = 0x24 # show_nat (length b) @ crlf @ b @ crlf"

function encode_frame :: "zsp_env \<Rightarrow> zsp_frame \<Rightarrow> nat \<Rightarrow> zsp_encode_error + bytes" where
  "encode_frame env frame depth =
     (if depth > MAX_ARRAY_DEPTH
      then Inl (InvalidData (''Max array depth exceed ('' @ message_nat MAX_ARRAY_DEPTH @ '')''))
      else case frame of
        InlineString s \<Rightarrow> map_sum id (\<lambda>_. 0x2B # s @ crlf) (validate_simple_string s)
      | FrameError s \<Rightarrow> map_sum id (\<lambda>_. 0x2D # s @ crlf) (validate_error_string s)
      | Integer i \<Rightarrow> Inr (0x3A # show_int (sint i) @ crlf)
      | Float f \<Rightarrow>
          (if f = f64_INFINITY then Inr ([0x2C, 0x69, 0x6E, 0x66] @ crlf)
           else if f = f64_NEG_INFINITY then Inr ([0x2C, 0x2D, 0x69, 0x6E, 0x66] @ crlf)
           else Inr (0x2C # fmt5 env f @ crlf))
      | Bool b \<Rightarrow> Inr ((if b then [0x23, 0x74] else [0x23, 0x66]) @ crlf)
      | BinaryString (Some b) \<Rightarrow>
          (if length b > MAX_BINARY_LENGTH
           then Inl (InvalidData (''Binary string too long ('' @ message_nat (length b) @ '' > '' @
                                  message_nat MAX_BINARY_LENGTH @ '')''))
           else Inr (encode_bulk b))
      | BinaryString None \<Rightarrow> Inr ([0x24, 0x2D, 0x31] @ crlf)
      | Array elements \<Rightarrow>
          (if elements = [] then Inr ([0x2A, 0x30] @ crlf)
           else map_sum id (\<lambda>bs. 0x2A # show_nat (length elements) @ crlf @ bs)
                  (enc_concat (map (\<lambda>e. encode_frame env e (depth + 1)) elements)))
      | Dictionary items \<Rightarrow>
          (if items = [] then Inr ([0x25, 0x30] @ crlf)
           else map_sum id (\<lambda>bs. 0x25 # show_nat (length items) @ crlf @ bs)
                  (enc_concat (map (\<lambda>(key, val). map_sum id (\<lambda>bs. encode_bulk key @ bs)
                                       (encode_frame env val (depth + 1)))
                                (hm_iter (items_order env) items))))
      | Set members \<Rightarrow>
          (if members = [] then Inr ([0x7E, 0x30] @ crlf)
           else map_sum id (\<lambda>bs. 0x7E # show_nat (length members) @ crlf @ bs)
                  (enc_concat (map (\<lambda>e. encode_frame env e (depth + 1)) (hs_iter env members))))
      | Push elements \<Rightarrow>
          map_sum id (\<lambda>bs. 0x3E # show_nat (length elements) @ crlf @ bs)
            (enc_concat (map (\<lambda>e. encode_frame env e (depth + 1)) elements))
      | ZSet entries \<Rightarrow>
          Inr (0x5E # show_nat (length entries) @ crlf @
               concat (map (\<lambda>(member, score). encode_bulk member @ 0x2C # fmt env score @ crlf) entries))
      | Null \<Rightarrow> Inr (0x5F # crlf))"
  by pat_completeness auto
termination
  by (relation "measure (\<lambda>(env, f, d). size f)")
     (auto simp: hm_iter_facts hs_iter_facts intro: size_items size_members)

declare encode_frame.simps [simp del]

definition zsp_encode :: "zsp_env \<Rightarrow> zsp_frame \<Rightarrow> zsp_encode_error + bytes" where
  "zsp_encode env frame = encode_frame env frame 0"

end
