(* ===== verification/Zsp_Decode.thy ===== *)
theory Zsp_Decode
  imports Zsp_Frame
begin

text \<open>
  \<open>src/network/zsp/frame/decoder.rs\<close>: the resumable decoder of ZSP frames. A \<open>decoding\<close> takes the
  state of the decoder and the input slice and returns its result with the state and the rest of the
  slice; an error leaves both as they are at that point, as \<open>?\<close> does. The decoder calls itself
  for the elements of a container: \<open>decode_body\<close> has the recursive call as an argument and
  \<open>decode_fuel\<close> ties the knot with the nesting depth as fuel, which the length of the
  input bounds. A refused allocation is a panic.
\<close>

section \<open>State and results\<close>

datatype zsp_decode_error = InvalidData string | UnexpectedEof string | InvalidUtf8 string

datatype zsp_decode_state =
    Initial
  | PartialBinaryString nat bytes
  | PartialArray nat "zsp_frame list" nat
  | PartialDictionary nat "(bytes, zsp_frame) hash_map" nat "bytes option"
  | PartialSet nat "zsp_frame list" nat
  | PartialPush nat "zsp_frame list" nat
  | PartialZSet nat "(bytes \<times> u64) list" "bytes option" nat

datatype 'a outcome = Done 'a | Fail zsp_decode_error | Panic | OutOfFuel

type_synonym 'a decoding = "zsp_decode_state \<times> bytes \<Rightarrow> 'a outcome \<times> zsp_decode_state \<times> bytes"

definition dret :: "'a \<Rightarrow> 'a decoding" where
  "dret x = (\<lambda>s. (Done x, s))"

definition dfail :: "zsp_decode_error \<Rightarrow> 'a decoding" where
  "dfail e = (\<lambda>s. (Fail e, s))"

definition dbind :: "'a decoding \<Rightarrow> ('a \<Rightarrow> 'b decoding) \<Rightarrow> 'b decoding" where
  "dbind m f = (\<lambda>s. case m s of
       (Done x, s') \<Rightarrow> f x s'
     | (Fail e, s') \<Rightarrow> (Fail e, s')
     | (Panic, s') \<Rightarrow> (Panic, s')
     | (OutOfFuel, s') \<Rightarrow> (OutOfFuel, s'))"

text \<open>\<open>self.state = st; Ok(None)\<close>\<close>

definition suspend :: "zsp_decode_state \<Rightarrow> zsp_frame option decoding" where
  "suspend st = (\<lambda>(_, inp). (Done None, st, inp))"

text \<open>\<open>with_capacity(n)\<close> for a collection of the given kind.\<close>

definition with_capacity :: "zsp_env \<Rightarrow> allocation \<Rightarrow> nat \<Rightarrow> unit decoding" where
  "with_capacity env k n = (\<lambda>s. (if grants env k n then Done () else Panic, s))"

text \<open>A step that fails with a fixed error when there is no value.\<close>

definition dexpect :: "zsp_decode_error \<Rightarrow> 'a option \<Rightarrow> 'a decoding" where
  "dexpect e x = (case x of None \<Rightarrow> dfail e | Some y \<Rightarrow> dret y)"

section \<open>Lines\<close>

definition read_line :: "bytes decoding" where
  "read_line = (\<lambda>(st, inp).
     case memchr 0x0D inp of
       Some pos \<Rightarrow>
         if pos + 1 < length inp \<and> inp ! (pos + 1) = 0x0A
         then (let line = take pos inp
               in if utf8_valid line then (Done line, st, drop (pos + 2) inp)
                  else (Fail (InvalidUtf8 ''Invalid UTF-8''), st, inp))
         else (Fail (UnexpectedEof ''Incomplete line''), st, inp)
     | None \<Rightarrow> (Fail (UnexpectedEof ''Incomplete line''), st, inp))"

definition expect_crlf :: "unit decoding" where
  "expect_crlf = (\<lambda>(st, inp).
     if length inp < 2 \<or> inp ! 0 \<noteq> 0x0D \<or> inp ! 1 \<noteq> 0x0A
     then (Fail (UnexpectedEof ''Expected CRLF''), st, inp)
     else (Done (), st, drop 2 inp))"

section \<open>Frames without parts\<close>

definition parse_inline_string :: "zsp_frame option decoding" where
  "parse_inline_string = dbind read_line (\<lambda>line. dret (Some (InlineString line)))"

definition parse_error :: "zsp_frame option decoding" where
  "parse_error = dbind read_line (\<lambda>line. dret (Some (FrameError line)))"

definition parse_integer :: "zsp_frame option decoding" where
  "parse_integer = dbind read_line (\<lambda>line.
     dbind (dexpect (InvalidData ''Invalid integer'') (parse_i64 line)) (\<lambda>num.
     dret (Some (Integer num))))"

definition parse_float :: "zsp_env \<Rightarrow> zsp_frame option decoding" where
  "parse_float env = dbind read_line (\<lambda>line.
     if line = [0x69, 0x6E, 0x66] then dret (Some (Float f64_INFINITY))
     else if line = [0x2D, 0x69, 0x6E, 0x66] then dret (Some (Float f64_NEG_INFINITY))
     else dbind (dexpect (InvalidData ''Invalid float'') (parse_f64 env line)) (\<lambda>num.
          dret (Some (Float num))))"

definition parse_bool :: "zsp_frame option decoding" where
  "parse_bool = (\<lambda>(st, inp).
     if length inp < 3 then (Fail (UnexpectedEof ''Incomplete boolean''), st, inp)
     else if inp ! 1 \<noteq> 0x0D \<or> inp ! 2 \<noteq> 0x0A
       then (Fail (InvalidData ''Invalid boolean format''), st, inp)
     else if inp ! 0 = 0x74 then (Done (Some (Bool True)), st, drop 3 inp)
     else if inp ! 0 = 0x66 then (Done (Some (Bool False)), st, drop 3 inp)
     else (Fail (InvalidData ''Unknown boolean value''), st, drop 3 inp))"

definition parse_null :: "zsp_frame option decoding" where
  "parse_null = (\<lambda>(st, inp).
     if length inp < 2 then (Fail (UnexpectedEof ''Incomplete null''), st, inp)
     else if inp ! 0 \<noteq> 0x0D \<or> inp ! 1 \<noteq> 0x0A
       then (Fail (InvalidData ''Invalid null format''), st, inp)
     else (Done (Some Null), st, drop 2 inp))"

section \<open>Binary strings\<close>

text \<open>
  Both entries copy what the slice has of the missing bytes. When bytes are still missing, the first
  entry stores the partial string; the second one, entered with the state already reset, stores nothing.
\<close>

definition copy_available :: "nat \<Rightarrow> bytes \<Rightarrow> bytes decoding" where
  "copy_available len data = (\<lambda>(st, inp).
     if len < length data then (Panic, st, inp)
     else let available = min (length inp) (len - length data)
       in (Done (data @ take available inp), st, drop available inp))"

definition parse_binary_string :: "zsp_env \<Rightarrow> zsp_frame option decoding" where
  "parse_binary_string env =
     dbind read_line (\<lambda>line.
     dbind (dexpect (InvalidData ''Invalid binary'') (parse_isize line)) (\<lambda>len.
     if len = - 1 then dret (Some (BinaryString None))
     else if len \<ge> 0 then
       (let len = nat len
        in if len > MAX_BINARY_LENGTH
           then dfail (InvalidData (''Binary string too long ('' @ message_nat len @ '' > '' @
                                    message_nat MAX_BINARY_LENGTH @ '')''))
           else dbind (with_capacity env ByteVec len) (\<lambda>_.
                dbind (copy_available len []) (\<lambda>data.
                if length data = len
                then dbind expect_crlf (\<lambda>_. dret (Some (BinaryString (Some data))))
                else suspend (PartialBinaryString len data))))
     else dfail (InvalidData ''Negative binary length'')))"

text \<open>\<open>len - data.len()\<close> does not underflow in the states the decoder stores: the data of a partial string is shorter than
  its length.\<close>

definition continue_binary_string :: "nat \<Rightarrow> bytes \<Rightarrow> zsp_frame option decoding" where
  "continue_binary_string len data =
     dbind (copy_available len data) (\<lambda>data.
     if length data = len
     then dbind expect_crlf (\<lambda>_. dret (Some (BinaryString (Some data))))
     else dret None)"

section \<open>Containers\<close>

text \<open>
  The loop \<open>while *remaining > 0\<close> of the containers of single frames: the completed frame, or the items
  so far and what remains when the slice ran out.
\<close>

fun collect :: "('c \<Rightarrow> zsp_frame) \<Rightarrow> ('c \<Rightarrow> zsp_frame \<Rightarrow> 'c) \<Rightarrow> zsp_frame option decoding \<Rightarrow>
    'c \<Rightarrow> nat \<Rightarrow> (zsp_frame + 'c \<times> nat) decoding" where
  "collect mk add dec items 0 = dret (Inl (mk items))"
| "collect mk add dec items (Suc n) =
     dbind dec (\<lambda>r. case r of
       Some frame \<Rightarrow> collect mk add dec (add items frame) n
     | None \<Rightarrow> dret (Inr (items, Suc n)))"

definition push_item :: "zsp_frame list \<Rightarrow> zsp_frame \<Rightarrow> zsp_frame list" where
  "push_item items frame = items @ [frame]"

definition continue_array ::
    "zsp_frame option decoding \<Rightarrow> zsp_frame list \<Rightarrow> nat \<Rightarrow> (zsp_frame + zsp_frame list \<times> nat) decoding" where
  "continue_array dec items remaining = collect Array push_item dec items remaining"

definition continue_push ::
    "zsp_frame option decoding \<Rightarrow> zsp_frame list \<Rightarrow> nat \<Rightarrow> (zsp_frame + zsp_frame list \<times> nat) decoding" where
  "continue_push dec items remaining = collect Push push_item dec items remaining"

definition continue_set :: "zsp_env \<Rightarrow> zsp_frame option decoding \<Rightarrow> zsp_frame list \<Rightarrow> nat \<Rightarrow>
    (zsp_frame + zsp_frame list \<times> nat) decoding" where
  "continue_set env dec items remaining = collect Set (hs_insert env) dec items remaining"

text \<open>The loop of the containers of pairs, which reads a key, keeps it pending, then reads its value.\<close>

function collect_pairs :: "('c \<Rightarrow> zsp_frame) \<Rightarrow> (zsp_frame \<Rightarrow> zsp_decode_error + bytes) \<Rightarrow>
    (zsp_frame \<Rightarrow> zsp_decode_error + 'v) \<Rightarrow> ('c \<Rightarrow> bytes \<Rightarrow> 'v \<Rightarrow> 'c) \<Rightarrow> zsp_frame option decoding \<Rightarrow>
    'c \<Rightarrow> bytes option \<Rightarrow> nat \<Rightarrow> (zsp_frame + 'c \<times> bytes option \<times> nat) decoding" where
  "collect_pairs mk keyf valf put dec items pending 0 = dret (Inl (mk items))"
| "collect_pairs mk keyf valf put dec items None (Suc n) =
     dbind dec (\<lambda>r. case r of
       Some frame \<Rightarrow> (case keyf frame of
           Inl e \<Rightarrow> dfail e
         | Inr key \<Rightarrow> collect_pairs mk keyf valf put dec items (Some key) (Suc n))
     | None \<Rightarrow> dret (Inr (items, None, Suc n)))"
| "collect_pairs mk keyf valf put dec items (Some key) (Suc n) =
     dbind dec (\<lambda>r. case r of
       Some frame \<Rightarrow> (case valf frame of
           Inl e \<Rightarrow> dfail e
         | Inr val \<Rightarrow> collect_pairs mk keyf valf put dec (put items key val) None n)
     | None \<Rightarrow> dret (Inr (items, Some key, Suc n)))"
  by pat_completeness auto
termination
  by (relation "measure (\<lambda>(mk, keyf, valf, put, dec, items, pending, n).
                           2 * n + (if pending = None then 1 else 0))") auto

definition string_key :: "string \<Rightarrow> string \<Rightarrow> zsp_frame \<Rightarrow> zsp_decode_error + bytes" where
  "string_key not_utf8 not_string frame = (case frame of
       BinaryString (Some bytes) \<Rightarrow>
         if utf8_valid bytes then Inr bytes else Inl (InvalidData not_utf8)
     | InlineString s \<Rightarrow> Inr s
     | _ \<Rightarrow> Inl (InvalidData not_string))"

definition dict_put :: "(bytes, zsp_frame) hash_map \<Rightarrow> bytes \<Rightarrow> zsp_frame \<Rightarrow> (bytes, zsp_frame) hash_map" where
  "dict_put items key val = fst (hm_insert items key val)"

definition continue_dictionary :: "zsp_frame option decoding \<Rightarrow> (bytes, zsp_frame) hash_map \<Rightarrow>
    bytes option \<Rightarrow> nat \<Rightarrow> (zsp_frame + (bytes, zsp_frame) hash_map \<times> bytes option \<times> nat) decoding" where
  "continue_dictionary dec items pending_key remaining =
     collect_pairs Dictionary (string_key ''Key not UTF-8'' ''Expected string key'') Inr dict_put dec
       items pending_key remaining"

definition zset_score :: "zsp_env \<Rightarrow> zsp_frame \<Rightarrow> zsp_decode_error + u64" where
  "zset_score env frame = (case frame of
       Float f \<Rightarrow> Inr f
     | Integer i \<Rightarrow> Inr (i64_to_f64 env i)
     | _ \<Rightarrow> Inl (InvalidData ''Expected float/integer for zset score''))"

definition zset_put :: "(bytes \<times> u64) list \<Rightarrow> bytes \<Rightarrow> u64 \<Rightarrow> (bytes \<times> u64) list" where
  "zset_put items member score = items @ [(member, score)]"

definition continue_zset :: "zsp_env \<Rightarrow> zsp_frame option decoding \<Rightarrow> (bytes \<times> u64) list \<Rightarrow>
    bytes option \<Rightarrow> nat \<Rightarrow> (zsp_frame + (bytes \<times> u64) list \<times> bytes option \<times> nat) decoding" where
  "continue_zset env dec items pending_member remaining =
     collect_pairs ZSet (string_key ''Invalid UTF-8 in zset member'' ''Expected string for zset member'')
       (zset_score env) zset_put dec items pending_member remaining"

text \<open>The end of every loop: the frame, or the state to resume from and no frame.\<close>

definition finish :: "('p \<Rightarrow> zsp_decode_state) \<Rightarrow> (zsp_frame + 'p) decoding \<Rightarrow> zsp_frame option decoding" where
  "finish resume m = dbind m (\<lambda>r. case r of
       Inl frame \<Rightarrow> dret (Some frame)
     | Inr p \<Rightarrow> suspend (resume p))"

definition parse_array :: "zsp_env \<Rightarrow> zsp_frame option decoding \<Rightarrow> nat \<Rightarrow> zsp_frame option decoding" where
  "parse_array env dec depth =
     (if depth > MAX_ARRAY_DEPTH then dfail (InvalidData ''Max array depth exceeded'')
      else dbind read_line (\<lambda>line.
      dbind (dexpect (InvalidData ''Invalid array length'') (parse_isize line)) (\<lambda>len.
      if len = - 1 \<or> len = 0 then dret (Some (Array []))
      else if len > 0 then
        (let len = nat len
         in dbind (with_capacity env FrameVec len) (\<lambda>_.
            finish (\<lambda>(items, remaining). PartialArray len items remaining) (continue_array dec [] len)))
      else dfail (InvalidData ''Negative array length''))))"

definition parse_dictionary :: "zsp_env \<Rightarrow> zsp_frame option decoding \<Rightarrow> zsp_frame option decoding" where
  "parse_dictionary env dec =
     dbind read_line (\<lambda>line.
     dbind (dexpect (InvalidData ''Invalid dictionary length'') (parse_isize line)) (\<lambda>len.
     if len = 0 then dret (Some (Dictionary []))
     else if len > 0 then
       (let len = nat len
        in dbind (with_capacity env FrameMap len) (\<lambda>_.
           finish (\<lambda>(items, pending, remaining). PartialDictionary len items remaining pending)
             (continue_dictionary dec [] None len)))
     else dfail (InvalidData ''Negative dictionary length'')))"

definition parse_set :: "zsp_env \<Rightarrow> zsp_frame option decoding \<Rightarrow> zsp_frame option decoding" where
  "parse_set env dec =
     dbind read_line (\<lambda>line.
     dbind (dexpect (InvalidData ''Invalid set length'') (parse_isize line)) (\<lambda>len.
     if len = 0 then dret (Some (Set []))
     else if len > 0 then
       (let len = nat len
        in dbind (with_capacity env FrameSet len) (\<lambda>_.
           finish (\<lambda>(items, remaining). PartialSet len items remaining) (continue_set env dec [] len)))
     else dfail (InvalidData ''Negative set length'')))"

definition parse_push :: "zsp_env \<Rightarrow> zsp_frame option decoding \<Rightarrow> zsp_frame option decoding" where
  "parse_push env dec =
     dbind read_line (\<lambda>line.
     dbind (dexpect (InvalidData ''Invalid push length'') (parse_isize line)) (\<lambda>len.
     if len = 0 then dret (Some (Push []))
     else if len > 0 then
       (let len = nat len
        in dbind (with_capacity env FrameVec len) (\<lambda>_.
           finish (\<lambda>(items, remaining). PartialPush len items remaining) (continue_push dec [] len)))
     else dfail (InvalidData ''Negative push length'')))"

definition parse_zset :: "zsp_env \<Rightarrow> zsp_frame option decoding \<Rightarrow> zsp_frame option decoding" where
  "parse_zset env dec =
     dbind read_line (\<lambda>line.
     dbind (dexpect (InvalidData ''Invalid zset length'') (parse_isize line)) (\<lambda>len.
     if len = - 1 \<or> len = 0 then dret (Some (ZSet []))
     else if len > 0 then
       (let len = nat len
        in dbind (with_capacity env PairVec len) (\<lambda>_.
           finish (\<lambda>(items, pending, remaining). PartialZSet len items pending remaining)
             (continue_zset env dec [] None len)))
     else dfail (InvalidData ''Invalid zset length'')))"

section \<open>Decoding\<close>

definition initial_decode :: "zsp_env \<Rightarrow> zsp_frame option decoding \<Rightarrow> zsp_frame option decoding" where
  "initial_decode env dec = (\<lambda>(st, inp).
     case inp of
       [] \<Rightarrow> (Done None, st, inp)
     | b # rest \<Rightarrow>
         (if b = 0x2B then parse_inline_string
          else if b = 0x2D then parse_error
          else if b = 0x3A then parse_integer
          else if b = 0x2C then parse_float env
          else if b = 0x23 then parse_bool
          else if b = 0x24 then parse_binary_string env
          else if b = 0x5F then parse_null
          else if b = 0x2A then parse_array env dec 0
          else if b = 0x25 then parse_dictionary env dec
          else if b = 0x7E then parse_set env dec
          else if b = 0x3E then parse_push env dec
          else if b = 0x5E then parse_zset env dec
          else dfail (InvalidData ''Unknown ZSP/RESP3 type'')) (st, rest))"

definition decode_body :: "zsp_env \<Rightarrow> zsp_frame option decoding \<Rightarrow> zsp_frame option decoding" where
  "decode_body env dec = (\<lambda>(st, inp).
     (case st of
        Initial \<Rightarrow> initial_decode env dec
      | PartialBinaryString len data \<Rightarrow> continue_binary_string len data
      | PartialArray len items remaining \<Rightarrow>
          finish (\<lambda>(items, remaining). PartialArray len items remaining) (continue_array dec items remaining)
      | PartialDictionary len items remaining pending \<Rightarrow>
          finish (\<lambda>(items, pending, remaining). PartialDictionary len items remaining pending)
            (continue_dictionary dec items pending remaining)
      | PartialSet len items remaining \<Rightarrow>
          finish (\<lambda>(items, remaining). PartialSet len items remaining) (continue_set env dec items remaining)
      | PartialPush len items remaining \<Rightarrow>
          finish (\<lambda>(items, remaining). PartialPush len items remaining) (continue_push dec items remaining)
      | PartialZSet len items pending remaining \<Rightarrow>
          finish (\<lambda>(items, pending, remaining). PartialZSet len items pending remaining)
            (continue_zset env dec items pending remaining)) (Initial, inp))"

fun decode_fuel :: "zsp_env \<Rightarrow> nat \<Rightarrow> zsp_frame option decoding" where
  "decode_fuel env 0 = (\<lambda>s. (OutOfFuel, s))"
| "decode_fuel env (Suc k) = decode_body env (decode_fuel env k)"

definition zsp_decode :: "zsp_env \<Rightarrow> zsp_frame option decoding" where
  "zsp_decode env = (\<lambda>(st, inp). decode_fuel env (length inp + 2) (st, inp))"

end
