(* ===== verification/Zsp_Total.thy ===== *)
theory Zsp_Total
  imports Zsp_Decode
begin

text \<open>
  The decoder always returns: fuel beyond the length of the input changes nothing, and the fuel-free
  function satisfies the equation of the source, \<open>zsp_decode = decode_body zsp_decode\<close>.
  The argument relates two runs that differ only in the recursive call: they give the same result, which is
  never \<open>OutOfFuel\<close> and never has more input left than there was.
\<close>

section \<open>Related runs\<close>

text \<open>\<open>B\<close> says whether a run may panic.\<close>

definition ran_ok :: "bool \<Rightarrow> ('a \<Rightarrow> zsp_decode_state \<Rightarrow> bool) \<Rightarrow> nat \<Rightarrow> 'a outcome \<times> zsp_decode_state \<times> bytes \<Rightarrow> bool" where
  "ran_ok B Q n = (\<lambda>(r, st, inp). length inp \<le> n \<and>
     (case r of Done x \<Rightarrow> Q x st | OutOfFuel \<Rightarrow> False | Panic \<Rightarrow> B | Fail _ \<Rightarrow> True))"

text \<open>What a run that must not panic needs: every allocation is granted, and a partial string is no longer than
  announced.\<close>

definition may_allocate :: "bool \<Rightarrow> zsp_env \<Rightarrow> bool" where
  "may_allocate B env \<longleftrightarrow> B \<or> (\<forall>k n. grants env k n)"

definition may_copy :: "bool \<Rightarrow> nat \<Rightarrow> bytes \<Rightarrow> bool" where
  "may_copy B len d \<longleftrightarrow> B \<or> length d \<le> len"

lemma may_copy_Nil [simp]: "may_copy B len []"
  by (simp add: may_copy_def)

fun fitting :: "zsp_decode_state \<Rightarrow> bool" where
  "fitting (PartialBinaryString len d) \<longleftrightarrow> length d \<le> len"
| "fitting _ \<longleftrightarrow> True"

definition same_run :: "bool \<Rightarrow> ('a \<Rightarrow> zsp_decode_state \<Rightarrow> bool) \<Rightarrow> nat \<Rightarrow> 'a outcome \<times> zsp_decode_state \<times> bytes \<Rightarrow>
    'a outcome \<times> zsp_decode_state \<times> bytes \<Rightarrow> bool" where
  "same_run B Q n a b \<longleftrightarrow> a = b \<and> ran_ok B Q n a"

fun initial_if_some :: "'a option \<Rightarrow> zsp_decode_state \<Rightarrow> bool" where
  "initial_if_some None st \<longleftrightarrow> True"
| "initial_if_some (Some x) st \<longleftrightarrow> st = Initial"

abbreviation initial_after :: "'a \<Rightarrow> zsp_decode_state \<Rightarrow> bool" where
  "initial_after _ st \<equiv> st = Initial"

text \<open>Two recursive calls that agree on the inputs shorter than a bound.\<close>

definition same_calls :: "bool \<Rightarrow> nat \<Rightarrow> zsp_frame option decoding \<Rightarrow> zsp_frame option decoding \<Rightarrow> bool" where
  "same_calls B L dec dec' \<longleftrightarrow>
     (\<forall>inp. length inp < L \<longrightarrow>
        same_run B initial_if_some (length inp) (dec (Initial, inp)) (dec' (Initial, inp)))"

named_theorems run_rules \<open>related runs of composed decodings\<close>

lemma same_run_mono:
  "same_run B Q n a b \<Longrightarrow> n \<le> m \<Longrightarrow> (\<And>x st. Q x st \<Longrightarrow> R x st) \<Longrightarrow> same_run B R m a b"
  by (auto simp: same_run_def ran_ok_def split: outcome.splits)

lemma same_runD: "same_run B Q n a b \<Longrightarrow> a = b" "same_run B Q n a b \<Longrightarrow> ran_ok B Q n b"
  by (auto simp: same_run_def)

lemma same_run_bind:
  assumes "same_run B Q n (m s) (m' s)"
    and "\<And>x st inp. Q x st \<Longrightarrow> length inp \<le> n \<Longrightarrow> same_run B R n (f x (st, inp)) (f' x (st, inp))"
  shows "same_run B R n (dbind m f s) (dbind m' f' s)"
proof -
  obtain r st inp where ms: "m s = (r, st, inp)" by (cases "m s")
  with assms(1) have ms': "m' s = (r, st, inp)" and le: "length inp \<le> n"
    and r: "case r of Done x \<Rightarrow> Q x st | OutOfFuel \<Rightarrow> False | Panic \<Rightarrow> B | Fail _ \<Rightarrow> True"
    by (auto simp: same_run_def ran_ok_def)
  show ?thesis
  proof (cases r)
    case (Done x)
    with r have "Q x st" by simp
    from assms(2) [OF this le] Done ms ms' show ?thesis by (simp add: dbind_def)
  qed (use ms ms' le r in \<open>auto simp: dbind_def same_run_def ran_ok_def\<close>)
qed

lemma same_run_seq:
  assumes "same_run B initial_after n (m (Initial, inp)) (m' (Initial, inp))"
    and "\<And>x inp. length inp \<le> n \<Longrightarrow> same_run B R n (f x (Initial, inp)) (f' x (Initial, inp))"
  shows "same_run B R n (dbind m f (Initial, inp)) (dbind m' f' (Initial, inp))"
  by (rule same_run_bind [of B initial_after n m _ m', OF assms(1)]) (use assms(2) in blast)

lemma same_calls_run:
  assumes "same_calls B L dec dec'" "length inp \<le> n" "n < L"
  shows "same_run B initial_if_some n (dec (Initial, inp)) (dec' (Initial, inp))"
  by (rule same_run_mono [of B initial_if_some "length inp"]) (use assms in \<open>auto simp: same_calls_def\<close>)

lemma same_run_call:
  assumes "same_calls B L dec dec'" and "length inp \<le> n" and "n < L"
    and "\<And>x st inp. initial_if_some x st \<Longrightarrow> length inp \<le> n \<Longrightarrow> same_run B R n (f x (st, inp)) (f' x (st, inp))"
  shows "same_run B R n (dbind dec f (Initial, inp)) (dbind dec' f' (Initial, inp))"
  by (rule same_run_bind [of B initial_if_some n dec _ dec', OF same_calls_run [OF assms(1-3)]])
     (use assms(4) in blast)

lemma same_run_dret [run_rules]: "Q x st \<Longrightarrow> length inp \<le> n \<Longrightarrow> same_run B Q n (dret x (st, inp)) (dret x (st, inp))"
  by (simp add: same_run_def ran_ok_def dret_def)

lemma same_run_dfail [run_rules]: "length inp \<le> n \<Longrightarrow> same_run B Q n (dfail e (st, inp)) (dfail e (st, inp))"
  by (simp add: same_run_def ran_ok_def dfail_def)

lemma same_run_dexpect [run_rules]:
  "length inp \<le> n \<Longrightarrow> same_run B initial_after n (dexpect e x (Initial, inp)) (dexpect e x (Initial, inp))"
  by (auto simp: dexpect_def intro: run_rules split: option.splits)

lemma same_run_capacity [run_rules]:
  "length inp \<le> n \<Longrightarrow> may_allocate B env \<Longrightarrow> same_run B initial_after n (with_capacity env k c (Initial, inp)) (with_capacity env k c (Initial, inp))"
  by (auto simp: same_run_def ran_ok_def with_capacity_def may_allocate_def)

lemma same_run_suspend [run_rules]:
  "length inp \<le> n \<Longrightarrow>
   same_run B initial_if_some n (suspend s (st, inp)) (suspend s (st, inp))"
  by (simp add: same_run_def ran_ok_def suspend_def)

lemma same_run_line [run_rules]:
  "length inp \<le> n \<Longrightarrow> same_run B initial_after n (read_line (Initial, inp)) (read_line (Initial, inp))"
  by (auto simp: same_run_def ran_ok_def read_line_def Let_def split: option.splits)

lemma same_run_crlf [run_rules]:
  "length inp \<le> n \<Longrightarrow> same_run B initial_after n (expect_crlf (Initial, inp)) (expect_crlf (Initial, inp))"
  by (auto simp: same_run_def ran_ok_def expect_crlf_def)

lemma same_run_copy [run_rules]:
  "length inp \<le> n \<Longrightarrow> may_copy B len d \<Longrightarrow>
   same_run B initial_after n (copy_available len d (Initial, inp)) (copy_available len d (Initial, inp))"
  by (auto simp: same_run_def ran_ok_def copy_available_def may_copy_def Let_def)

section \<open>The parts of the decoder\<close>

lemma same_run_finish:
  assumes "same_run B (\<lambda>r st. isl r \<longrightarrow> st = Initial) n (m s) (m' s)"
  shows "same_run B initial_if_some n (finish resume m s) (finish resume m' s)"
  unfolding finish_def
  by (rule same_run_bind [of B _ n m s m', OF assms]) (auto split: sum.splits intro: run_rules)

lemma same_run_collect:
  assumes "same_calls B L dec dec'" and "length inp \<le> n" and "n < L"
  shows "same_run B (\<lambda>r st. isl r \<longrightarrow> st = Initial) n
           (collect mk add dec items k (Initial, inp)) (collect mk add dec' items k (Initial, inp))"
  using assms(2)
proof (induction k arbitrary: items inp)
  case 0
  then show ?case by (auto intro: run_rules)
next
  case (Suc k)
  then show ?case
    by (auto split: option.splits intro!: same_run_call [OF assms(1) _ assms(3)] run_rules)
qed

lemma same_run_pairs:
  assumes "same_calls B L dec dec'" and "length inp \<le> n" and "n < L"
  shows "same_run B (\<lambda>r st. isl r \<longrightarrow> st = Initial) n
           (collect_pairs mk keyf valf put dec items pending k (Initial, inp))
           (collect_pairs mk keyf valf put dec' items pending k (Initial, inp))"
proof -
  note call = same_run_call [OF assms(1) _ assms(3)]
  let ?same = "\<lambda>items pending k inp. same_run B (\<lambda>r st. isl r \<longrightarrow> st = Initial) n
           (collect_pairs mk keyf valf put dec items pending k (Initial, inp))
           (collect_pairs mk keyf valf put dec' items pending k (Initial, inp))"
  show ?thesis
    using assms(2)
  proof (induction k arbitrary: items pending inp)
    case (Suc k)
    have val: "?same items (Some key) (Suc k) inp" if "length inp \<le> n" for items key inp
      using that Suc.IH by (auto split: option.splits sum.splits intro!: call run_rules)
    show ?case
    proof (cases pending)
      case None
      then show ?thesis
        using Suc.prems val by (auto split: option.splits sum.splits intro!: call run_rules simp del: collect_pairs.simps(3))
    qed (use Suc.prems val in simp)
  qed (auto intro: run_rules)
qed

lemma same_run_binary [run_rules]:
  assumes "length inp \<le> n"
  shows "may_allocate B env \<Longrightarrow> same_run B initial_if_some n (parse_binary_string env (Initial, inp)) (parse_binary_string env (Initial, inp))"
    "may_copy B len d \<Longrightarrow> same_run B initial_if_some n (continue_binary_string len d (Initial, inp)) (continue_binary_string len d (Initial, inp))"
  unfolding parse_binary_string_def continue_binary_string_def Let_def
  using assms by (auto intro!: same_run_seq run_rules)

lemma same_run_simple [run_rules]:
  assumes "length inp \<le> n"
  shows "same_run B initial_if_some n (parse_inline_string (Initial, inp)) (parse_inline_string (Initial, inp))"
    "same_run B initial_if_some n (parse_error (Initial, inp)) (parse_error (Initial, inp))"
    "same_run B initial_if_some n (parse_integer (Initial, inp)) (parse_integer (Initial, inp))"
    "same_run B initial_if_some n (parse_float env (Initial, inp)) (parse_float env (Initial, inp))"
    "same_run B initial_if_some n (parse_bool (Initial, inp)) (parse_bool (Initial, inp))"
    "same_run B initial_if_some n (parse_null (Initial, inp)) (parse_null (Initial, inp))"
  unfolding parse_inline_string_def parse_error_def parse_integer_def parse_float_def parse_bool_def parse_null_def
  using assms by (auto intro!: same_run_seq run_rules simp: same_run_def [of _ _ _ "(_, _)"] ran_ok_def)

lemmas continue_defs = continue_array_def continue_push_def continue_set_def continue_dictionary_def continue_zset_def
lemmas container_defs = parse_array_def parse_dictionary_def parse_set_def parse_push_def parse_zset_def

lemma same_run_containers:
  assumes "same_calls B L dec dec'" and "length inp \<le> n" and "n < L" and "may_allocate B env"
  shows "same_run B initial_if_some n (parse_array env dec d (Initial, inp)) (parse_array env dec' d (Initial, inp))"
    "same_run B initial_if_some n (parse_dictionary env dec (Initial, inp)) (parse_dictionary env dec' (Initial, inp))"
    "same_run B initial_if_some n (parse_set env dec (Initial, inp)) (parse_set env dec' (Initial, inp))"
    "same_run B initial_if_some n (parse_push env dec (Initial, inp)) (parse_push env dec' (Initial, inp))"
    "same_run B initial_if_some n (parse_zset env dec (Initial, inp)) (parse_zset env dec' (Initial, inp))"
  unfolding container_defs continue_defs Let_def using assms(2,4)
  by (auto intro!: same_run_seq run_rules same_run_finish same_run_collect [OF assms(1) _ assms(3)]
        same_run_pairs [OF assms(1) _ assms(3)])

lemma same_run_initial:
  assumes "same_calls B (length inp) dec dec'" and "may_allocate B env"
  shows "same_run B initial_if_some (length inp) (initial_decode env dec (Initial, inp)) (initial_decode env dec' (Initial, inp))"
proof (cases inp)
  case Nil
  then show ?thesis by (simp add: initial_decode_def same_run_def ran_ok_def)
next
  case (Cons b rest)
  then have le: "length rest < length inp" by simp
  note c = same_run_containers [OF assms(1) order_refl le assms(2)]
  have "same_run B initial_if_some (length rest) (initial_decode env dec (Initial, inp)) (initial_decode env dec' (Initial, inp))"
    using Cons c assms(2) by (simp add: initial_decode_def run_rules)
  then show ?thesis by (rule same_run_mono) (use le in auto)
qed

lemma same_run_body:
  assumes "same_calls B (Suc (length inp)) dec dec'" and "may_allocate B env" and "B \<or> fitting st"
  shows "same_run B initial_if_some (length inp) (decode_body env dec (st, inp)) (decode_body env dec' (st, inp))"
proof -
  have "same_calls B (length inp) dec dec'" using assms by (simp add: same_calls_def)
  note i = same_run_initial [OF this assms(2)]
  note c = same_run_collect [OF assms(1) order_refl lessI] same_run_pairs [OF assms(1) order_refl lessI]
  show ?thesis using assms(3)
    by (cases st) (simp_all add: decode_body_def i run_rules same_run_finish c continue_defs may_copy_def)
qed

section \<open>The decoder returns\<close>

lemma decode_fuel_same:
  "length inp < k \<Longrightarrow> length inp < k' \<Longrightarrow> may_allocate B env \<Longrightarrow>
   same_run B initial_if_some (length inp) (decode_fuel env k (Initial, inp)) (decode_fuel env k' (Initial, inp))"
proof (induction "length inp" arbitrary: inp k k' rule: less_induct)
  case less
  obtain j j' where k: "k = Suc j" "k' = Suc j'" using less.prems by (cases k; cases k') auto
  have "same_calls B (length inp) (decode_fuel env j) (decode_fuel env j')"
    unfolding same_calls_def using less k by auto
  from same_run_initial [OF this less.prems(3)] k show ?case by (simp add: decode_body_def)
qed

lemma same_calls_fuel:
  "may_allocate B env \<Longrightarrow> same_calls B (Suc (length inp)) (decode_fuel env (Suc (length inp + d))) (zsp_decode env)"
  unfolding same_calls_def zsp_decode_def
  by (auto simp del: decode_fuel.simps intro!: decode_fuel_same)

lemma decode_fuel_same_body:
  assumes "may_allocate B env" and "B \<or> fitting st"
  shows "same_run B initial_if_some (length inp) (decode_fuel env (Suc (Suc (length inp + d))) (st, inp))
     (decode_body env (zsp_decode env) (st, inp))"
  unfolding decode_fuel.simps(2) [of _ "Suc _"] by (rule same_run_body [OF same_calls_fuel [OF assms(1)] assms])

lemma zsp_decode_unfold: "zsp_decode env s = decode_body env (zsp_decode env) s"
proof (cases s)
  case (Pair st inp)
  have "zsp_decode env (st, inp) = decode_fuel env (Suc (Suc (length inp + 0))) (st, inp)"
    unfolding zsp_decode_def by (simp del: decode_fuel.simps)
  with same_runD(1) [OF decode_fuel_same_body [of True env st inp 0]] Pair show ?thesis by (simp add: may_allocate_def)
qed

lemma decode_fuel_zsp_decode:
  assumes "may_allocate B env" and "B \<or> fitting st"
  shows "same_run B initial_if_some (length inp) (decode_fuel env (length inp + 2 + d) (st, inp)) (zsp_decode env (st, inp))"
  using decode_fuel_same_body [OF assms, of inp d] unfolding zsp_decode_unfold [of env "(st, inp)"]
  by (simp del: decode_fuel.simps)

text \<open>C28. Decoding ends on every state and every input, with a frame, a wait for more, an error or a panic (a recursion as
  deep as the length of the input suffices, and a deeper limit changes nothing). It panics only when an
  allocation is refused or when the state holds more of a binary string than was announced. It never gives back
  more input than it got, and after a complete frame it is in its initial state.
\<close>

theorem zsp_decode_total:
  "\<exists>r st' rest. zsp_decode env (st, inp) = (r, st', rest) \<and> r \<noteq> OutOfFuel \<and> length rest \<le> length inp \<and>
     (case r of Done (Some f) \<Rightarrow> st' = Initial | Panic \<Rightarrow> (\<exists>k n. \<not> grants env k n) \<or> \<not> fitting st | _ \<Rightarrow> True) \<and>
     (\<forall>d. decode_fuel env (length inp + 2 + d) (st, inp) = (r, st', rest))"
proof -
  obtain r st' rest where run: "zsp_decode env (st, inp) = (r, st', rest)" by (cases "zsp_decode env (st, inp)")
  let ?B = "(\<exists>k n. \<not> grants env k n) \<or> \<not> fitting st"
  have "may_allocate ?B env" and "?B \<or> fitting st" by (auto simp: may_allocate_def)
  note same = decode_fuel_zsp_decode [OF this, of inp, unfolded run]
  have fuel: "decode_fuel env (length inp + 2 + d) (st, inp) = (r, st', rest)" for d
    by (rule same_runD(1) [OF same])
  have "ran_ok ?B initial_if_some (length inp) (r, st', rest)" by (rule same_runD(2) [OF same])
  then have "r \<noteq> OutOfFuel \<and> length rest \<le> length inp \<and>
      (case r of Done (Some f) \<Rightarrow> st' = Initial | Panic \<Rightarrow> ?B | _ \<Rightarrow> True)"
    by (auto simp: ran_ok_def split: outcome.splits option.splits)
  with fuel run show ?thesis by blast
qed

text \<open>A surrounding in which every allocation is granted.\<close>

definition roomy_env :: zsp_env where
  "roomy_env = \<lparr>fmt5 = \<lambda>_. [], fmt = \<lambda>_. [], parse_f64 = \<lambda>_. None, i64_to_f64 = id, items_order = \<lambda>_. [],
     members_order = \<lambda>_. [], probe = (=), grants = \<lambda>_ _. True\<rparr>"

theorem zsp_decode_total_witness:
  "\<exists>r st' rest. zsp_decode roomy_env (PartialBinaryString 3 [1], [2, 3, 0x0D, 0x0A]) = (r, st', rest) \<and>
     r \<noteq> OutOfFuel \<and> r \<noteq> Panic \<and> length rest \<le> 4"
proof -
  have room: "\<not> (\<exists>k n. \<not> grants roomy_env k n)" "fitting (PartialBinaryString 3 [1])" by (simp_all add: roomy_env_def)
  obtain r st' rest where "zsp_decode roomy_env (PartialBinaryString 3 [1], [2, 3, 0x0D, 0x0A]) = (r, st', rest)"
    and "r \<noteq> OutOfFuel" and len: "length rest \<le> length [2, 3, 0x0D, 0x0A :: u8]"
    and end_: "case r of Done (Some f) \<Rightarrow> st' = Initial
      | Panic \<Rightarrow> (\<exists>k n. \<not> grants roomy_env k n) \<or> \<not> fitting (PartialBinaryString 3 [1]) | _ \<Rightarrow> True"
    using zsp_decode_total [of roomy_env "PartialBinaryString 3 [1]" "[2, 3, 0x0D, 0x0A]"] by (elim exE conjE)
  moreover have "r \<noteq> Panic" using end_ room by auto
  moreover have "length rest \<le> 4" using len by simp
  ultimately show ?thesis by blast
qed

end
