(* ===== verification/Zsp_Roundtrip.thy ===== *)
theory Zsp_Roundtrip
  imports Zsp_Total
begin

text \<open>
  What the decoder reads back from the bytes of the encoder. \<open>readback\<close> is the frame the reader gets:
  floating-point numbers have passed through five decimals, tables are in the order in which the
  encoder visited them. \<open>frame_ok\<close> states what a frame must satisfy to be read at all.
\<close>

section \<open>Frames that can be read back\<close>

text \<open>
  The documented behaviour of \<open>{:.5}\<close>, \<open>{}\<close> and \<open>str::parse::<f64>\<close>: numbers print as a line of text that
  parses, only the infinities print as \<open>inf\<close> and \<open>-inf\<close>, and \<open>{}\<close> prints enough digits of a finite number.
\<close>

abbreviation inf_text :: bytes where "inf_text \<equiv> [0x69, 0x6E, 0x66]"
abbreviation neg_inf_text :: bytes where "neg_inf_text \<equiv> [0x2D, 0x69, 0x6E, 0x66]"

definition f64_finite :: "u64 \<Rightarrow> bool" where
  "f64_finite f \<longleftrightarrow> (f AND 0x7FF0000000000000) \<noteq> 0x7FF0000000000000"

definition number_text :: "zsp_env \<Rightarrow> bytes \<Rightarrow> bool" where
  "number_text env s \<longleftrightarrow> text_line s \<and> s \<noteq> inf_text \<and> s \<noteq> neg_inf_text \<and> parse_f64 env s \<noteq> None"

definition float_text :: "zsp_env \<Rightarrow> bool" where
  "float_text env \<longleftrightarrow>
     (\<forall>f. f \<noteq> f64_INFINITY \<and> f \<noteq> f64_NEG_INFINITY \<longrightarrow>
        number_text env (fmt5 env f) \<and> number_text env (fmt env f)) \<and>
     fmt env f64_INFINITY = inf_text \<and> fmt env f64_NEG_INFINITY = neg_inf_text \<and>
     (\<forall>f. f64_finite f \<longrightarrow> parse_f64 env (fmt env f) = Some f)"

text \<open>The number read from the text of a number.\<close>

definition reread :: "zsp_env \<Rightarrow> (u64 \<Rightarrow> bytes) \<Rightarrow> u64 \<Rightarrow> u64" where
  "reread env print f =
     (if f = f64_INFINITY \<or> f = f64_NEG_INFINITY then f
      else case parse_f64 env (print f) of Some g \<Rightarrow> g | None \<Rightarrow> f)"

function readback :: "zsp_env \<Rightarrow> zsp_frame \<Rightarrow> zsp_frame" where
  "readback env frame = (case frame of
       Float f \<Rightarrow> Float (reread env (fmt5 env) f)
     | Array xs \<Rightarrow> Array (map (readback env) xs)
     | Dictionary items \<Rightarrow>
         Dictionary (map (\<lambda>(k, v). (k, readback env v)) (hm_iter (items_order env) items))
     | Set xs \<Rightarrow> Set (map (readback env) (hs_iter env xs))
     | Push xs \<Rightarrow> Push (map (readback env) xs)
     | ZSet es \<Rightarrow> ZSet (map (\<lambda>(m, s). (m, reread env (fmt env) s)) es)
     | _ \<Rightarrow> frame)"
  by pat_completeness auto
termination
  by (relation "measure (\<lambda>(env, f). size f)")
     (auto simp: hm_iter_facts hs_iter_facts intro: size_items size_members)

declare readback.simps [simp del]
lemmas readback_simps [simp] = readback.simps [of _ "InlineString _"] readback.simps [of _ "FrameError _"]
  readback.simps [of _ "Integer _"] readback.simps [of _ "Float _"] readback.simps [of _ "Bool _"]
  readback.simps [of _ "BinaryString _"] readback.simps [of _ "Array _"] readback.simps [of _ "Dictionary _"]
  readback.simps [of _ "Set _"] readback.simps [of _ "Push _"] readback.simps [of _ "ZSet _"] readback.simps [of _ "Null"]

fun frames_apart :: "zsp_env \<Rightarrow> zsp_frame list \<Rightarrow> bool" where
  "frames_apart env [] \<longleftrightarrow> True"
| "frames_apart env (x # xs) \<longleftrightarrow> (\<forall>y \<in> set xs. \<not> frame_eq env y x) \<and> frames_apart env xs"

definition key_ok :: "zsp_env \<Rightarrow> bytes \<Rightarrow> bool" where
  "key_ok env k \<longleftrightarrow> utf8_valid k \<and> length k \<le> MAX_BINARY_LENGTH \<and> grants env ByteVec (length k)"

definition count_ok :: "zsp_env \<Rightarrow> allocation \<Rightarrow> nat \<Rightarrow> bool" where
  "count_ok env k n \<longleftrightarrow> int n \<le> i64_MAX \<and> grants env k n"

fun frame_ok :: "zsp_env \<Rightarrow> zsp_frame \<Rightarrow> bool" where
  "frame_ok env (InlineString s) \<longleftrightarrow> utf8_valid s"
| "frame_ok env (FrameError s) \<longleftrightarrow> utf8_valid s"
| "frame_ok env (BinaryString b) \<longleftrightarrow> (case b of None \<Rightarrow> True | Some b \<Rightarrow> grants env ByteVec (length b))"
| "frame_ok env (Array xs) \<longleftrightarrow> count_ok env FrameVec (length xs) \<and> (\<forall>x \<in> set xs. frame_ok env x)"
| "frame_ok env (Push xs) \<longleftrightarrow> count_ok env FrameVec (length xs) \<and> (\<forall>x \<in> set xs. frame_ok env x)"
| "frame_ok env (Dictionary items) \<longleftrightarrow>
     count_ok env FrameMap (length items) \<and> distinct (map fst items) \<and>
     (\<forall>kv \<in> set items. key_ok env (fst kv) \<and> frame_ok env (snd kv))"
| "frame_ok env (Set xs) \<longleftrightarrow>
     count_ok env FrameSet (length xs) \<and> (\<forall>x \<in> set xs. frame_ok env x) \<and>
     frames_apart env (map (readback env) (hs_iter env xs))"
| "frame_ok env (ZSet es) \<longleftrightarrow>
     count_ok env PairVec (length es) \<and> (\<forall>e \<in> set es. key_ok env (fst e))"
| "frame_ok env frame \<longleftrightarrow> True"

section \<open>Reading pieces of text\<close>

lemma read_line_text [simp]:
  "text_line l \<Longrightarrow> read_line (st, l @ 0x0D # 0x0A # rest) = (Done l, st, rest)"
  by (simp add: read_line_def text_line_def memchr_append nth_append)

lemma expect_crlf_text [simp]: "expect_crlf (st, 0x0D # 0x0A # rest) = (Done (), st, rest)"
  by (simp add: expect_crlf_def)

lemmas decoding_simps = dbind_def dret_def dexpect_def with_capacity_def finish_def copy_available_def
lemmas zsp_decode_initial = zsp_decode_unfold [of env "(Initial, inp)" for env inp, unfolded decode_body_def, simplified]

definition reads :: "zsp_env \<Rightarrow> bytes \<Rightarrow> zsp_frame \<Rightarrow> bool" where
  "reads env bs f \<longleftrightarrow> (\<forall>rest. zsp_decode env (Initial, bs @ rest) = (Done (Some f), Initial, rest))"

lemma collect_reads:
  "list_all2 (reads env) bss fs \<Longrightarrow>
   collect mk add (zsp_decode env) items (length fs) (Initial, concat bss @ rest)
   = (Done (Inl (mk (foldl add items fs))), Initial, rest)"
  by (induction bss fs arbitrary: items rule: list_all2_induct) (simp_all add: decoding_simps reads_def)

definition reads_pair :: "zsp_env \<Rightarrow> (zsp_frame \<Rightarrow> zsp_decode_error + bytes) \<Rightarrow>
    (zsp_frame \<Rightarrow> zsp_decode_error + 'v) \<Rightarrow> bytes \<Rightarrow> bytes \<times> 'v \<Rightarrow> bool" where
  "reads_pair env keyf valf bs kv \<longleftrightarrow>
     (\<exists>kb kf vb vf. bs = kb @ vb \<and> reads env kb kf \<and> keyf kf = Inr (fst kv) \<and>
        reads env vb vf \<and> valf vf = Inr (snd kv))"

lemma collect_pairs_reads:
  "list_all2 (reads_pair env keyf valf) bss kvs \<Longrightarrow>
   collect_pairs mk keyf valf put (zsp_decode env) items None (length kvs) (Initial, concat bss @ rest)
   = (Done (Inl (mk (foldl (\<lambda>m kv. put m (fst kv) (snd kv)) items kvs))), Initial, rest)"
  by (induction bss kvs arbitrary: items rule: list_all2_induct)
     (auto simp: decoding_simps reads_def reads_pair_def)

lemma reads_bulk:
  assumes "length b \<le> MAX_BINARY_LENGTH" and "grants env ByteVec (length b)"
  shows "reads env (encode_bulk b) (BinaryString (Some b))"
proof -
  have "parse_isize (show_nat (length b)) = Some (int (length b))" using assms by (simp add: parse_show_isize)
  then show ?thesis
    using assms unfolding reads_def
    by (simp add: encode_bulk_def zsp_decode_initial initial_decode_def parse_binary_string_def decoding_simps Let_def)
qed

section \<open>Reading the encoder's output\<close>

lemma enc_concat_Inr: "enc_concat rs = Inr bs \<longleftrightarrow> (\<exists>bss. rs = map Inr bss \<and> bs = concat bss)"
proof (induction rs arbitrary: bs rule: enc_concat.induct)
  case (3 b rs)
  show ?case by (auto simp: map_sum_Inr 3 Cons_eq_map_conv)
qed (auto simp: Cons_eq_map_conv)

lemma enc_list_reads:
  assumes "enc_concat (map (\<lambda>e. encode_frame env e d) xs) = Inr bs"
    and "\<And>x b. x \<in> set xs \<Longrightarrow> encode_frame env x d = Inr b \<Longrightarrow> reads env b (readback env x)"
  shows "\<exists>bss. bs = concat bss \<and> list_all2 (reads env) bss (map (readback env) xs)"
proof -
  obtain bss where bss: "map (\<lambda>e. encode_frame env e d) xs = map Inr bss" "bs = concat bss"
    using assms(1) by (auto simp: enc_concat_Inr)
  have len: "length bss = length xs" using bss(1) by (metis length_map)
  have "reads env (bss ! i) (readback env (xs ! i))" if "i < length xs" for i
    using bss(1) that len assms(2) [of "xs ! i" "bss ! i"] by (metis nth_map nth_mem)
  with len bss(2) show ?thesis by (auto simp: list_all2_conv_all_nth)
qed

lemma foldl_push_item: "foldl push_item xs ys = xs @ ys"
  by (induction ys arbitrary: xs) (simp_all add: push_item_def)

lemma foldl_zset_put: "foldl (\<lambda>m kv. zset_put m (fst kv) (snd kv)) xs ys = xs @ ys"
  by (induction ys arbitrary: xs) (simp_all add: zset_put_def)

lemma hm_insert_new: "k \<notin> fst ` set m \<Longrightarrow> hm_insert m k v = (m @ [(k, v)], None)"
  by (induction m) auto

lemma foldl_dict_put:
  "distinct (map fst (xs @ ys)) \<Longrightarrow> foldl (\<lambda>m kv. dict_put m (fst kv) (snd kv)) xs ys = xs @ ys"
proof (induction ys arbitrary: xs)
  case (Cons y ys)
  from Cons.prems have "dict_put xs (fst y) (snd y) = xs @ [y]"
    by (auto simp: dict_put_def hm_insert_new)
  with Cons.IH [of "xs @ [y]"] Cons.prems show ?case by simp
qed simp

lemma foldl_hs_insert:
  "frames_apart env ys \<Longrightarrow> \<forall>x \<in> set xs. \<forall>y \<in> set ys. \<not> frame_eq env y x \<Longrightarrow> foldl (hs_insert env) xs ys = xs @ ys"
proof (induction ys arbitrary: xs)
  case (Cons y ys)
  from Cons.prems have "hs_insert env xs y = xs @ [y]" by (auto simp: hs_insert_def)
  with Cons.IH [of "xs @ [y]"] Cons.prems show ?case by auto
qed simp

text \<open>The bytes of each kind of container, once its parts are read.\<close>

lemma reads_count:
  assumes "count_ok env k n"
  shows "parse_isize (show_nat n) = Some (int n)" "grants env k n"
  using assms by (auto simp: count_ok_def parse_show_isize)

lemmas frame_simps = zsp_decode_initial initial_decode_def decoding_simps Let_def

lemma reads_containers:
  assumes "list_all2 (reads env) bss fs"
  shows "count_ok env FrameVec (length fs) \<Longrightarrow>
           reads env (0x2A # show_nat (length fs) @ crlf @ concat bss) (Array fs)"
    and "count_ok env FrameVec (length fs) \<Longrightarrow>
           reads env (0x3E # show_nat (length fs) @ crlf @ concat bss) (Push fs)"
    and "count_ok env FrameSet (length fs) \<Longrightarrow> frames_apart env fs \<Longrightarrow>
           reads env (0x7E # show_nat (length fs) @ crlf @ concat bss) (Set fs)"
proof -
  note c = collect_reads [OF assms, of _ _ "[]"]
  show "count_ok env FrameVec (length fs) \<Longrightarrow>
          reads env (0x2A # show_nat (length fs) @ crlf @ concat bss) (Array fs)"
    using c [of Array push_item]
    by (auto simp: reads_def frame_simps parse_array_def continue_array_def reads_count foldl_push_item)
  show "count_ok env FrameVec (length fs) \<Longrightarrow>
          reads env (0x3E # show_nat (length fs) @ crlf @ concat bss) (Push fs)"
    using c [of Push push_item]
    by (auto simp: reads_def frame_simps parse_push_def continue_push_def reads_count foldl_push_item)
  show "count_ok env FrameSet (length fs) \<Longrightarrow> frames_apart env fs \<Longrightarrow>
          reads env (0x7E # show_nat (length fs) @ crlf @ concat bss) (Set fs)"
    using c [of Set "hs_insert env"]
    by (auto simp: reads_def frame_simps parse_set_def continue_set_def reads_count foldl_hs_insert)
qed

lemma reads_dictionary:
  assumes "list_all2 (reads_pair env (string_key ''Key not UTF-8'' ''Expected string key'') Inr) bss kvs"
    and "count_ok env FrameMap (length kvs)" and "distinct (map fst kvs)"
  shows "reads env (0x25 # show_nat (length kvs) @ crlf @ concat bss) (Dictionary kvs)"
  using collect_pairs_reads [OF assms(1), of Dictionary dict_put "[]"] assms(2,3)
  by (auto simp: reads_def frame_simps parse_dictionary_def continue_dictionary_def reads_count foldl_dict_put)

lemma reads_zset:
  assumes "list_all2 (reads_pair env
             (string_key ''Invalid UTF-8 in zset member'' ''Expected string for zset member'')
             (zset_score env)) bss kvs"
    and "count_ok env PairVec (length kvs)"
  shows "reads env (0x5E # show_nat (length kvs) @ crlf @ concat bss) (ZSet kvs)"
  using collect_pairs_reads [OF assms(1), of ZSet zset_put "[]"] assms(2)
  by (auto simp: reads_def frame_simps parse_zset_def continue_zset_def reads_count foldl_zset_put)

lemma reads_float:
  assumes "if f = f64_INFINITY then s = inf_text else if f = f64_NEG_INFINITY then s = neg_inf_text
           else s = p f \<and> number_text env s"
  shows "reads env (0x2C # s @ crlf) (Float (reread env p f))"
proof -
  have "text_line inf_text" "text_line neg_inf_text" by (simp_all add: text_line_def)
  note inf = this [THEN read_line_text, of Initial, simplified append.simps]
  show ?thesis
    using assms by (auto simp: reads_def frame_simps inf parse_float_def number_text_def reread_def split: if_splits)
qed

lemma reads_bulk_pair:
  assumes "key_ok env k" and "reads env b vf" and "valf vf = Inr v"
  shows "reads_pair env (string_key m1 m2) valf (encode_bulk k @ b) (k, v)"
proof -
  have "reads env (encode_bulk k) (BinaryString (Some k))"
    by (rule reads_bulk) (use assms(1) in \<open>auto simp: key_ok_def\<close>)
  moreover have "string_key m1 m2 (BinaryString (Some k)) = Inr k"
    using assms(1) by (simp add: string_key_def key_ok_def)
  ultimately show ?thesis using assms(2,3) unfolding reads_pair_def fst_conv snd_conv by blast
qed

lemma enc_pairs_reads:
  assumes "enc_concat (map (\<lambda>(k, v). map_sum id (\<lambda>bs. encode_bulk k @ bs) (encode_frame env v d)) kvs) = Inr bs"
    and "\<And>kv. kv \<in> set kvs \<Longrightarrow> key_ok env (fst kv)"
    and "\<And>kv b. kv \<in> set kvs \<Longrightarrow> encode_frame env (snd kv) d = Inr b \<Longrightarrow> reads env b (readback env (snd kv))"
  shows "\<exists>bss. bs = concat bss \<and>
           list_all2 (reads_pair env (string_key m1 m2) Inr) bss (map (\<lambda>(k, v). (k, readback env v)) kvs)"
proof -
  let ?enc = "\<lambda>(k, v). map_sum id (\<lambda>bs. encode_bulk k @ bs) (encode_frame env v d)"
  obtain bss where bss: "map ?enc kvs = map Inr bss" "bs = concat bss"
    using assms(1) by (auto simp: enc_concat_Inr)
  have len: "length bss = length kvs" using bss(1) by (metis length_map)
  have "reads_pair env (string_key m1 m2) Inr (bss ! i) (fst (kvs ! i), readback env (snd (kvs ! i)))"
    if i: "i < length kvs" for i
  proof -
    obtain k v where kv: "kvs ! i = (k, v)" by (cases "kvs ! i")
    with bss(1) i len have "map_sum id (\<lambda>bs. encode_bulk k @ bs) (encode_frame env v d) = Inr (bss ! i)"
      by (metis (mono_tags, lifting) nth_map case_prod_conv)
    then obtain b where b: "encode_frame env v d = Inr b" "bss ! i = encode_bulk k @ b" by (auto simp: map_sum_Inr)
    have "reads env b (readback env v)" using assms(3) [of "(k, v)" b] b kv i by (metis nth_mem snd_conv)
    moreover have "key_ok env k" using assms(2) [of "(k, v)"] kv i by (metis nth_mem fst_conv)
    ultimately show ?thesis using b kv by (simp add: reads_bulk_pair)
  qed
  with len bss(2) show ?thesis by (auto simp: list_all2_conv_all_nth case_prod_beta)
qed

lemma zset_entries_reads:
  assumes "float_text env" and "\<And>e. e \<in> set es \<Longrightarrow> key_ok env (fst e)"
  shows "list_all2 (reads_pair env (string_key m1 m2) (zset_score env))
           (map (\<lambda>(m, s). encode_bulk m @ 0x2C # fmt env s @ crlf) es)
           (map (\<lambda>(m, s). (m, reread env (fmt env) s)) es)"
proof -
  have "reads_pair env (string_key m1 m2) (zset_score env) (encode_bulk m @ 0x2C # fmt env s @ crlf)
          (m, reread env (fmt env) s)" if "key_ok env m" for m s
  proof -
    have "reads env (0x2C # fmt env s @ crlf) (Float (reread env (fmt env) s))"
      by (rule reads_float) (use assms(1) in \<open>auto simp: float_text_def\<close>)
    with that show ?thesis by (rule reads_bulk_pair) (simp add: zset_score_def)
  qed
  with assms(2) show ?thesis by (auto simp: list_all2_map1 list_all2_map2 list_all2_same case_prod_beta)
qed

lemma reads_lines:
  "text_line s \<Longrightarrow> reads env (0x2B # s @ crlf) (InlineString s)"
  "text_line s \<Longrightarrow> reads env (0x2D # s @ crlf) (FrameError s)"
  "reads env (0x3A # show_int (sint i) @ crlf) (Integer i)"
  by (simp_all add: reads_def frame_simps parse_inline_string_def parse_error_def parse_integer_def parse_show_i64)

lemma reads_constants:
  "reads env (0x5F # crlf) Null" "reads env (0x23 # (if b then 0x74 else 0x66) # crlf) (Bool b)"
  "reads env (0x24 # 0x2D # 0x31 # crlf) (BinaryString None)"
  "reads env (0x2A # 0x30 # crlf) (Array [])" "reads env (0x25 # 0x30 # crlf) (Dictionary [])"
  "reads env (0x7E # 0x30 # crlf) (Set [])"
proof -
  have "text_line [0x2D, 0x31]" "text_line [0x30]" by (simp_all add: text_line_def)
  note line = this [THEN read_line_text, of Initial, simplified append.simps]
  have p: "parse_isize [0x2D, 0x31] = Some (- 1)" "parse_isize [0x30] = Some 0" by code_simp+
  show "reads env (0x5F # crlf) Null" "reads env (0x23 # (if b then 0x74 else 0x66) # crlf) (Bool b)"
    by (simp_all add: reads_def frame_simps parse_null_def parse_bool_def)
  show "reads env (0x24 # 0x2D # 0x31 # crlf) (BinaryString None)"
    "reads env (0x2A # 0x30 # crlf) (Array [])" "reads env (0x25 # 0x30 # crlf) (Dictionary [])"
    "reads env (0x7E # 0x30 # crlf) (Set [])"
    by (simp_all add: reads_def frame_simps line p parse_binary_string_def container_defs)
qed

lemmas encode_simps = encode_frame.simps [of _ "InlineString _"]
  encode_frame.simps [of _ "FrameError _"]
  encode_frame.simps [of _ "Integer _"]
  encode_frame.simps [of _ "Float _"]
  encode_frame.simps [of _ "Bool _"]
  encode_frame.simps [of _ "BinaryString _"]
  encode_frame.simps [of _ "Array _"]
  encode_frame.simps [of _ "Dictionary _"]
  encode_frame.simps [of _ "Set _"]
  encode_frame.simps [of _ "Push _"]
  encode_frame.simps [of _ "ZSet _"]
  encode_frame.simps [of _ "Null"]

lemma encode_leaf_reads:
  assumes "float_text env" and "encode_frame env f d = Inr bs" and "frame_ok env f"
    and "case f of Array _ \<Rightarrow> False | Push _ \<Rightarrow> False | Set _ \<Rightarrow> False | Dictionary _ \<Rightarrow> False | ZSet _ \<Rightarrow> False | _ \<Rightarrow> True"
  shows "reads env bs (readback env f)"
proof (cases f)
  case (Float x)
  obtain s where s: "bs = 0x2C # s @ crlf" and "if x = f64_INFINITY then s = inf_text
    else if x = f64_NEG_INFINITY then s = neg_inf_text else s = fmt5 env x \<and> number_text env s"
    using assms(1,2) Float by (simp add: encode_simps float_text_def split: if_splits)
  from reads_float [of x s "fmt5 env" env, OF this(2)] s Float show ?thesis by simp
next
  case (Bool b)
  then show ?thesis using reads_constants(2) [of env b] assms(2) by (simp add: encode_simps split: if_splits)
next
  case (BinaryString b)
  then show ?thesis
    using assms(2,3) by (cases b) (auto simp: encode_simps reads_bulk reads_constants split: if_splits)
qed (use assms in \<open>auto simp: encode_simps map_sum_Inr validate_simple_string_def validate_error_string_def
       text_line_def reads_constants reads_lines split: if_splits\<close>)

text \<open>A container of frames: the count, then the frames in some order.\<close>

lemma encode_frames_reads:
  assumes "map_sum id (\<lambda>cs. tag # show_nat (length xs) @ crlf @ cs)
             (enc_concat (map (\<lambda>e. encode_frame env e d) ys)) = Inr bs"
    and "\<And>x b. x \<in> set ys \<Longrightarrow> encode_frame env x d = Inr b \<Longrightarrow> reads env b (readback env x)"
    and "\<And>bss. list_all2 (reads env) bss (map (readback env) ys) \<Longrightarrow>
           reads env (tag # show_nat (length xs) @ crlf @ concat bss) f"
  shows "reads env bs f"
proof -
  obtain cs where cs: "bs = tag # show_nat (length xs) @ crlf @ cs"
    "enc_concat (map (\<lambda>e. encode_frame env e d) ys) = Inr cs"
    using assms(1) by (auto simp: map_sum_Inr)
  obtain bss where "cs = concat bss" "list_all2 (reads env) bss (map (readback env) ys)"
    using enc_list_reads [OF cs(2) assms(2)] by blast
  with assms(3) cs show ?thesis by simp
qed

lemma encode_dictionary_reads:
  assumes "encode_frame env (Dictionary items) d = Inr bs" and "frame_ok env (Dictionary items)"
    and "\<And>kv b. kv \<in> set items \<Longrightarrow> encode_frame env (snd kv) (d + 1) = Inr b \<Longrightarrow> reads env b (readback env (snd kv))"
  shows "reads env bs (readback env (Dictionary items))"
proof (cases "items = []")
  case True
  then show ?thesis using assms(1) by (auto simp: encode_simps reads_constants hm_iter_def split: if_splits)
next
  case False
  let ?kvs = "hm_iter (items_order env) items"
  obtain cs where cs: "bs = 0x25 # show_nat (length items) @ crlf @ cs"
    "enc_concat (map (\<lambda>(k, v). map_sum id (\<lambda>bs. encode_bulk k @ bs) (encode_frame env v (d + 1))) ?kvs) = Inr cs"
    using assms(1) False by (auto simp: encode_simps map_sum_Inr split: if_splits)
  from enc_pairs_reads [OF cs(2), of "''Key not UTF-8''" "''Expected string key''"] assms(2,3)
  obtain bss where "cs = concat bss" and
    l: "list_all2 (reads_pair env (string_key ''Key not UTF-8'' ''Expected string key'') Inr) bss
      (map (\<lambda>(k, v). (k, readback env v)) ?kvs)" by (auto simp: hm_iter_facts)
  moreover have "distinct (map fst (map (\<lambda>(k, v). (k, readback env v)) ?kvs))"
    using assms(2) by (simp add: hm_iter_facts comp_def case_prod_beta)
  ultimately show ?thesis
    using reads_dictionary [OF l] cs assms(2) by (simp add: hm_iter_facts)
qed

lemma encode_zset_reads:
  assumes "float_text env" and "encode_frame env (ZSet es) d = Inr bs" and "frame_ok env (ZSet es)"
  shows "reads env bs (readback env (ZSet es))"
proof -
  let ?bss = "map (\<lambda>(m, s). encode_bulk m @ 0x2C # fmt env s @ crlf) es"
  let ?es = "map (\<lambda>(m, s). (m, reread env (fmt env) s)) es"
  have "bs = 0x5E # show_nat (length es) @ crlf @ concat ?bss"
    using assms(2) by (simp add: encode_simps split: if_splits)
  moreover have "reads env (0x5E # show_nat (length ?es) @ crlf @ concat ?bss) (ZSet ?es)"
    by (rule reads_zset [OF zset_entries_reads [OF assms(1)]]) (use assms(3) in auto)
  ultimately show ?thesis by simp
qed

lemma encode_reads:
  assumes "float_text env"
  shows "encode_frame env f d = Inr bs \<Longrightarrow> frame_ok env f \<Longrightarrow> reads env bs (readback env f)"
proof (induction f arbitrary: d bs)
  case (Array xs)
  show ?case
  proof (cases "xs = []")
    case False
    then have "map_sum id (\<lambda>cs. 0x2A # show_nat (length xs) @ crlf @ cs)
        (enc_concat (map (\<lambda>e. encode_frame env e (d + 1)) xs)) = Inr bs"
      using Array.prems(1) by (auto simp: encode_simps split: if_splits)
    then show ?thesis
      by (rule encode_frames_reads) (use Array reads_containers(1) in \<open>auto dest: reads_containers(1)\<close>)
  qed (use Array.prems in \<open>auto simp: encode_simps reads_constants split: if_splits\<close>)
next
  case (Push xs)
  then have "map_sum id (\<lambda>cs. 0x3E # show_nat (length xs) @ crlf @ cs)
      (enc_concat (map (\<lambda>e. encode_frame env e (d + 1)) xs)) = Inr bs"
    by (auto simp: encode_simps split: if_splits)
  then show ?case
    by (rule encode_frames_reads) (use Push in \<open>auto dest: reads_containers(2)\<close>)
next
  case (Set xs)
  show ?case
  proof (cases "xs = []")
    case False
    then have "map_sum id (\<lambda>cs. 0x7E # show_nat (length xs) @ crlf @ cs)
        (enc_concat (map (\<lambda>e. encode_frame env e (d + 1)) (hs_iter env xs))) = Inr bs"
      using Set.prems(1) by (auto simp: encode_simps split: if_splits)
    then show ?thesis
      by (rule encode_frames_reads) (use Set in \<open>auto simp: hs_iter_facts dest: reads_containers(3)\<close>)
  qed (use Set.prems in \<open>auto simp: encode_simps reads_constants hs_iter_def hm_iter_def split: if_splits\<close>)
next
  case (Dictionary items)
  show ?case
    by (rule encode_dictionary_reads [OF Dictionary.prems(1,2)])
       (use Dictionary in \<open>auto simp: snds.simps\<close>)
next
  case (ZSet es)
  then show ?case by (rule encode_zset_reads [OF assms])
qed (erule (1) encode_leaf_reads [OF assms], simp)+

section \<open>Frames read back exactly\<close>

fun exact_frame :: "zsp_frame \<Rightarrow> bool" where
  "exact_frame (Float f) \<longleftrightarrow> f = f64_INFINITY \<or> f = f64_NEG_INFINITY"
| "exact_frame (Array xs) \<longleftrightarrow> (\<forall>x \<in> set xs. exact_frame x)"
| "exact_frame (Push xs) \<longleftrightarrow> (\<forall>x \<in> set xs. exact_frame x)"
| "exact_frame (Dictionary items) \<longleftrightarrow> items = []"
| "exact_frame (Set xs) \<longleftrightarrow> xs = []"
| "exact_frame (ZSet es) \<longleftrightarrow> (\<forall>e \<in> set es. f64_finite (snd e) \<or> snd e = f64_INFINITY \<or> snd e = f64_NEG_INFINITY)"
| "exact_frame _ \<longleftrightarrow> True"

lemma readback_exact:
  assumes "float_text env"
  shows "exact_frame f \<Longrightarrow> readback env f = f"
proof (induction f)
  case (ZSet es)
  have "reread env (fmt env) s = s" if "(m, s) \<in> set es" for m s
    using ZSet that assms by (fastforce simp: reread_def float_text_def)
  then show ?case by (auto intro!: map_idI)
qed (auto simp: reread_def hm_iter_def hs_iter_def intro!: map_idI)

text \<open>An environment that satisfies the hypotheses: numbers print as the decimal form of their bits.\<close>

definition decimal_fmt :: "u64 \<Rightarrow> bytes" where
  "decimal_fmt f = (if f = f64_INFINITY then inf_text else if f = f64_NEG_INFINITY then neg_inf_text
                    else show_nat (unat f))"

definition decimal_env :: zsp_env where
  "decimal_env = \<lparr>fmt5 = decimal_fmt, fmt = decimal_fmt, parse_f64 = (\<lambda>s. map_option of_nat (parse_nat s)),
     i64_to_f64 = id, items_order = (\<lambda>_. []), members_order = (\<lambda>_. []), probe = (=),
     grants = (\<lambda>_ n. n \<le> 1048576)\<rparr>"

lemma number_text_decimal: "number_text decimal_env (show_nat n)"
proof -
  have "parse_nat inf_text = None" "parse_nat neg_inf_text = None" by code_simp+
  then have "show_nat n \<noteq> inf_text" "show_nat n \<noteq> neg_inf_text" using parse_nat_show [of n] by auto
  then show ?thesis by (simp add: number_text_def decimal_env_def parse_nat_show)
qed

lemma float_text_decimal: "float_text decimal_env"
proof -
  have "f \<noteq> f64_INFINITY" "f \<noteq> f64_NEG_INFINITY" if "f64_finite f" for f
    using that by (auto simp: f64_finite_def)
  then show ?thesis
    using number_text_decimal unfolding float_text_def
    by (auto simp: decimal_env_def decimal_fmt_def parse_nat_show)
qed

section \<open>The round trip\<close>

text \<open>C27. What \<open>ZspEncoder::encode\<close> writes for a frame, a fresh decoder reads as one frame, leaving the bytes
  behind it: the frame itself when it has no finite float and no non-empty table, else the frame with its floats
  at five decimals and its tables in the order of the traversal. This holds for frames (\<open>frame_ok\<close>) whose texts
  are valid UTF-8, whose dictionary keys are distinct, whose dictionary keys and sorted set members are at most
  \<open>MAX_BINARY_LENGTH\<close> long (the encoder does not check it), whose sets have members that still differ at five
  decimals, and whose sizes the allocator grants; \<open>float_text\<close> is what is used of the standard library's
  printing and parsing of floats.
\<close>

theorem zsp_roundtrip:
  assumes "zsp_encode env f = Inr bs" and "frame_ok env f" and "float_text env"
  shows "zsp_decode env (Initial, bs @ rest) = (Done (Some (readback env f)), Initial, rest) \<and>
         (exact_frame f \<longrightarrow> readback env f = f)"
  using encode_reads [OF assms(3)] assms readback_exact by (auto simp: zsp_encode_def reads_def)

theorem zsp_roundtrip_witness:
  "\<exists>bs. zsp_encode decimal_env (Array [Integer (- 5), BinaryString (Some [1, 2]), ZSet [([0x61], 7)]]) = Inr bs \<and>
     zsp_decode decimal_env (Initial, bs @ [0x2B])
       = (Done (Some (Array [Integer (- 5), BinaryString (Some [1, 2]), ZSet [([0x61], 7)]])), Initial, [0x2B])"
proof -
  let ?f = "Array [Integer (- 5), BinaryString (Some [1, 2]), ZSet [([0x61], 7)]]"
  have "\<exists>bs. zsp_encode decimal_env ?f = Inr bs" by (simp add: zsp_encode_def encode_frame.simps)
  then obtain bs where bs: "zsp_encode decimal_env ?f = Inr bs" by blast
  have "frame_ok decimal_env ?f" by (simp add: decimal_env_def count_ok_def key_ok_def)
  moreover have "exact_frame ?f" by (simp add: f64_finite_def)
  ultimately show ?thesis using zsp_roundtrip [OF bs _ float_text_decimal] bs by auto
qed

end
