(* ===== verification/Zsp_Connection.thy ===== *)
theory Zsp_Connection
  imports Zsp_Roundtrip
begin

text \<open>
  Frames that arrive in pieces. First the decoder alone: which cuts it resumes from and which it loses.
  Then its use by \<open>process_buffer\<close> of \<open>src/network/connection.rs\<close>, which appends every chunk to the receive buffer
  and gives the decoder the whole buffer again.
\<close>

section \<open>The receive buffer\<close>

datatype zsp_event = Frame zsp_frame | Waiting | DecodeError zsp_decode_error | Crash

text \<open>
  The ZSP branch of \<open>process_buffer\<close>: the bytes of a complete frame are drained and the frame goes to its handler;
  a partial frame and an error leave the buffer as it is (an error is also answered to the client).
\<close>

definition process_zsp :: "zsp_env \<Rightarrow> bytes \<times> zsp_decode_state \<Rightarrow> zsp_event \<times> bytes \<times> zsp_decode_state" where
  "process_zsp env = (\<lambda>(recv_buf, decoder).
     case zsp_decode env (decoder, recv_buf) of
       (Done (Some frame), decoder', rest) \<Rightarrow>
         (Frame frame, drop (length recv_buf - length rest) recv_buf, decoder')
     | (Done None, decoder', rest) \<Rightarrow> (Waiting, recv_buf, decoder')
     | (Fail e, decoder', rest) \<Rightarrow> (DecodeError e, recv_buf, decoder')
     | (_, decoder', rest) \<Rightarrow> (Crash, recv_buf, decoder'))"

text \<open>One successful read of \<open>run\<close>: the bytes are appended and the buffer is processed once.\<close>

definition receive :: "zsp_env \<Rightarrow> bytes \<times> zsp_decode_state \<Rightarrow> bytes \<Rightarrow> zsp_event \<times> bytes \<times> zsp_decode_state" where
  "receive env = (\<lambda>(recv_buf, decoder) chunk. process_zsp env (recv_buf @ chunk, decoder))"

section \<open>Resuming\<close>

abbreviation bulk_header :: "nat \<Rightarrow> bytes" where
  "bulk_header n \<equiv> 0x24 # show_nat n @ crlf"

lemma decode_bulk_cut:
  assumes "length data < n" and "n \<le> MAX_BINARY_LENGTH" and "grants env ByteVec n"
  shows "zsp_decode env (Initial, bulk_header n @ data) = (Done None, PartialBinaryString n data, [])"
proof -
  have "parse_isize (show_nat n) = Some (int n)" using assms(2) by (simp add: parse_show_isize)
  with assms show ?thesis by (simp add: frame_simps parse_binary_string_def suspend_def)
qed

lemma decode_bulk_more:
  "zsp_decode env (PartialBinaryString n data, inp) = continue_binary_string n data (Initial, inp)"
  by (simp add: zsp_decode_unfold [of env "(PartialBinaryString _ _, _)"] decode_body_def)

text \<open>
  A binary string cut once inside its data is resumed: the first part gives no frame and is kept, the second
  part gives the whole string.
\<close>

theorem zsp_bulk_resumes:
  assumes "n = length (a @ b)" and "b \<noteq> []" and "n \<le> MAX_BINARY_LENGTH" and "grants env ByteVec n"
  shows "zsp_decode env (Initial, bulk_header n @ a) = (Done None, PartialBinaryString n a, []) \<and>
         zsp_decode env (PartialBinaryString n a, b @ crlf @ rest)
           = (Done (Some (BinaryString (Some (a @ b)))), Initial, rest)"
proof -
  have "length a < n" using assms(1,2) by simp
  from decode_bulk_cut [OF this assms(3,4)] assms(1) show ?thesis
    by (simp add: decode_bulk_more continue_binary_string_def decoding_simps Let_def)
qed

theorem zsp_bulk_resumes_witness:
  "zsp_decode decimal_env (Initial, bulk_header 3 @ [1]) = (Done None, PartialBinaryString 3 [1], []) \<and>
   zsp_decode decimal_env (PartialBinaryString 3 [1], [2, 3] @ crlf @ [0x5F])
     = (Done (Some (BinaryString (Some [1, 2, 3]))), Initial, [0x5F])"
  using zsp_bulk_resumes [of 3 "[1]" "[2, 3]" decimal_env "[0x5F]"] by (simp add: decimal_env_def)

text \<open>
  A binary string that arrives in three pieces is lost: after the second piece the decoder is in its initial
  state, with nothing of the string kept. A string inside an array is lost at its first cut: the array's own state
  replaces the string's, so what follows is read as if the element had not begun.
\<close>

theorem zsp_partial_lost:
  assumes "length a + length b < n" and "n \<le> MAX_BINARY_LENGTH" and "grants env ByteVec n"
    and "grants env FrameVec 1"
  shows "zsp_decode env (Initial, bulk_header n @ a) = (Done None, PartialBinaryString n a, []) \<and>
         zsp_decode env (PartialBinaryString n a, b) = (Done None, Initial, []) \<and>
         zsp_decode env (Initial, 0x2A # 0x31 # crlf @ bulk_header n @ a) = (Done None, PartialArray 1 [] 1, [])"
proof -
  have "length a < n" using assms(1) by simp
  note cut = decode_bulk_cut [OF this assms(2,3)]
  have "text_line [0x31]" by (simp add: text_line_def)
  note line = read_line_text [OF this, of Initial, simplified append.simps]
  have p: "parse_isize [0x31] = Some 1" by code_simp
  have "zsp_decode env (Initial, 0x2A # 0x31 # crlf @ bulk_header n @ a) = (Done None, PartialArray 1 [] 1, [])"
    using cut assms(4) unfolding zsp_decode_initial [of env "0x2A # _"]
    by (simp add: initial_decode_def decoding_simps parse_array_def line p continue_array_def
        Let_def suspend_def)
  moreover have "zsp_decode env (PartialBinaryString n a, b) = (Done None, Initial, [])"
    using assms(1) by (simp add: decode_bulk_more continue_binary_string_def decoding_simps Let_def)
  ultimately show ?thesis using cut by blast
qed

theorem zsp_partial_lost_witness:
  "zsp_decode decimal_env (PartialBinaryString 6 [1, 2], [3, 4]) = (Done None, Initial, [])"
  using zsp_partial_lost [of "[1, 2]" "[3, 4]" 6 decimal_env] by (simp add: decimal_env_def)

section \<open>Arrays cut between elements\<close>

lemma collect_cut:
  "list_all2 (reads env) bss fs \<Longrightarrow>
   collect mk add (zsp_decode env) items (length fs + Suc n) (Initial, concat bss)
   = (Done (Inr (foldl add items fs, Suc n)), Initial, [])"
proof (induction bss fs arbitrary: items rule: list_all2_induct)
  case Nil
  then show ?case by (simp add: zsp_decode_initial initial_decode_def decoding_simps)
next
  case (Cons b bss f fs)
  then show ?case by (simp add: decoding_simps reads_def)
qed

lemma decode_array_cut:
  assumes "list_all2 (reads env) bss fs" and m: "m = length fs + Suc n" and "count_ok env FrameVec m"
  shows "zsp_decode env (Initial, 0x2A # show_nat m @ crlf @ concat bss)
         = (Done None, PartialArray m fs (Suc n), [])"
proof -
  have "0 < m" using m by simp
  then show ?thesis
    using collect_cut [OF assms(1), of Array push_item "[]" n, folded m] reads_count [OF assms(3)]
    unfolding zsp_decode_initial [of env "0x2A # _"]
    by (simp add: initial_decode_def decoding_simps Let_def parse_array_def continue_array_def suspend_def
        foldl_push_item)
qed

lemma decode_array_more:
  assumes "list_all2 (reads env) bss fs"
  shows "zsp_decode env (PartialArray len items (length fs), concat bss @ rest)
         = (Done (Some (Array (items @ fs))), Initial, rest)"
  using collect_reads [OF assms, of Array push_item items]
  by (simp add: zsp_decode_unfold [of env "(PartialArray _ _ _, _)"] decode_body_def continue_array_def
      finish_def dbind_def dret_def foldl_push_item)

text \<open>An array that arrives in two pieces cut between two of its elements is resumed: the first piece gives no frame
  and leaves the elements read so far in the state, the second piece gives the array the encoder was given.
\<close>

theorem zsp_array_resumes:
  assumes "zsp_encode env (Array (xs @ y # ys)) = Inr bs" and "frame_ok env (Array (xs @ y # ys))"
    and "float_text env"
  shows "\<exists>b1 b2. bs = b1 @ b2 \<and>
    zsp_decode env (Initial, b1) = (Done None,
      PartialArray (length xs + Suc (length ys)) (map (readback env) xs) (Suc (length ys)), []) \<and>
    zsp_decode env (PartialArray (length xs + Suc (length ys)) (map (readback env) xs) (Suc (length ys)), b2 @ rest)
      = (Done (Some (readback env (Array (xs @ y # ys)))), Initial, rest)"
proof -
  obtain cs where cs: "bs = 0x2A # show_nat (length xs + Suc (length ys)) @ crlf @ cs"
    "enc_concat (map (\<lambda>e. encode_frame env e 1) (xs @ y # ys)) = Inr cs"
    using assms(1) by (auto simp: zsp_encode_def encode_simps map_sum_Inr)
  obtain bss where bss: "cs = concat bss" "list_all2 (reads env) bss (map (readback env) (xs @ y # ys))"
    using enc_list_reads [OF cs(2)] encode_reads [OF assms(3)] assms(2) by force
  then obtain b1 b2 where b: "bss = b1 @ b2" "list_all2 (reads env) b1 (map (readback env) xs)"
    "list_all2 (reads env) b2 (map (readback env) (y # ys))"
    by (auto simp: list_all2_append2)
  have c: "count_ok env FrameVec (length xs + Suc (length ys))" using assms(2) by simp
  show ?thesis
    using cs(1) bss(1) b(1) decode_array_cut [OF b(2) _ c, of "length ys"] decode_array_more [OF b(3), of "length xs + Suc (length ys)"]
    by (intro exI [of _ "0x2A # show_nat (length xs + Suc (length ys)) @ crlf @ concat b1"] exI [of _ "concat b2"]) simp
qed

theorem zsp_array_resumes_witness:
  "\<exists>b1 b2. zsp_encode decimal_env (Array ([Integer 1] @ Null # [])) = Inr (b1 @ b2) \<and>
    zsp_decode decimal_env (Initial, b1) = (Done None, PartialArray 2 [Integer 1] 1, []) \<and>
    zsp_decode decimal_env (PartialArray 2 [Integer 1] 1, b2) = (Done (Some (Array [Integer 1, Null])), Initial, [])"
proof -
  have "\<exists>bs. zsp_encode decimal_env (Array ([Integer 1] @ Null # [])) = Inr bs"
    by (simp add: zsp_encode_def encode_frame.simps)
  then obtain bs where bs: "zsp_encode decimal_env (Array ([Integer 1] @ Null # [])) = Inr bs" by blast
  have ok: "frame_ok decimal_env (Array ([Integer 1] @ Null # []))" by (simp add: decimal_env_def count_ok_def)
  obtain b1 b2 where b: "bs = b1 @ b2"
    "zsp_decode decimal_env (Initial, b1) = (Done None, PartialArray 2 [Integer 1] 1, [])"
    "zsp_decode decimal_env (PartialArray 2 [Integer 1] 1, b2) = (Done (Some (Array [Integer 1, Null])), Initial, [])"
    using zsp_array_resumes [OF bs ok float_text_decimal, of "[]"] by (auto simp: numeral_2_eq_2)
  have "zsp_encode decimal_env (Array ([Integer 1] @ Null # [])) = Inr (b1 @ b2)" using bs b(1) by simp
  with b(2,3) show ?thesis by blast
qed

section \<open>Limits\<close>

fun nest :: "nat \<Rightarrow> zsp_frame" where
  "nest 0 = Null"
| "nest (Suc n) = Array [nest n]"

lemma encode_nest: "isl (encode_frame env (nest n) d) \<longleftrightarrow> MAX_ARRAY_DEPTH < n + d"
proof (induction n arbitrary: d)
  case 0
  then show ?case by (simp add: encode_simps)
next
  case (Suc n)
  show ?case
    using Suc [of "d + 1"] by (cases "encode_frame env (nest n) (d + 1)") (auto simp: encode_simps)
qed

lemma reads_nest:
  assumes "grants env FrameVec 1"
  shows "reads env (concat (replicate n [0x2A, 0x31, 0x0D, 0x0A]) @ 0x5F # crlf) (nest n)"
proof (induction n)
  case 0
  then show ?case by (simp add: reads_constants)
next
  case (Suc n)
  have "show_nat 1 = [0x31]" by code_simp
  moreover have "count_ok env FrameVec 1" using assms by (simp add: count_ok_def)
  ultimately show ?case
    using reads_containers(1) [of env "[concat (replicate n [0x2A, 0x31, 0x0D, 0x0A]) @ 0x5F # crlf]" "[nest n]"] Suc
    by simp
qed

text \<open>
  The encoder refuses arrays nested deeper than \<open>MAX_ARRAY_DEPTH\<close>, the decoder accepts every depth, because
  it passes depth 0 to \<open>parse_array\<close> for every array: \<open>n\<close> nested arrays are read for every \<open>n\<close>.
\<close>

theorem zsp_depth:
  assumes "grants env FrameVec 1"
  shows "zsp_decode env (Initial, concat (replicate n [0x2A, 0x31, 0x0D, 0x0A]) @ 0x5F # crlf)
           = (Done (Some (nest n)), Initial, []) \<and>
         (isl (zsp_encode env (nest n)) \<longleftrightarrow> MAX_ARRAY_DEPTH < n)"
  using reads_nest [OF assms, of n, unfolded reads_def, THEN spec, of "[]"]
  by (simp add: zsp_encode_def encode_nest)

theorem zsp_depth_witness:
  "zsp_decode decimal_env (Initial, concat (replicate 1000 [0x2A, 0x31, 0x0D, 0x0A]) @ 0x5F # crlf)
     = (Done (Some (nest 1000)), Initial, []) \<and> isl (zsp_encode decimal_env (nest 1000))"
  using zsp_depth [of decimal_env 1000] by (simp add: decimal_env_def del: replicate.simps)

text \<open>An array header announcing \<open>isize::MAX\<close> elements panics before any element is read: the decoder asks for the
  capacity the header announces, and \<open>Vec::with_capacity\<close> panics beyond \<open>isize::MAX\<close> bytes.
\<close>

theorem zsp_huge_count_panics:
  assumes "\<forall>n. grants env FrameVec n \<longrightarrow> int (n * frame_size) \<le> i64_MAX" and "2 \<le> frame_size"
  shows "zsp_decode env (Initial, 0x2A # show_int i64_MAX @ crlf @ rest) = (Panic, Initial, rest)"
proof -
  have "\<not> grants env FrameVec (nat i64_MAX)"
  proof
    assume "grants env FrameVec (nat i64_MAX)"
    with assms(1) have "int (nat i64_MAX * frame_size) \<le> i64_MAX" by blast
    moreover have "nat i64_MAX * 2 \<le> nat i64_MAX * frame_size" using assms(2) by (rule mult_le_mono2)
    ultimately show False by linarith
  qed
  moreover have "parse_isize (show_int i64_MAX) = Some i64_MAX"
    unfolding parse_isize_def by (rule parse_show_int) simp_all
  moreover have "read_line (Initial, show_int i64_MAX @ 0x0D # 0x0A # rest) = (Done (show_int i64_MAX), Initial, rest)"
    by (rule read_line_text) (rule text_line_show_int)
  ultimately show ?thesis by (simp add: frame_simps parse_array_def)
qed

theorem zsp_huge_count_panics_witness:
  "zsp_decode decimal_env (Initial, 0x2A # show_int i64_MAX @ crlf @ []) = (Panic, Initial, [])"
  by (rule zsp_huge_count_panics [of decimal_env 24]) (simp_all add: decimal_env_def)

text \<open>
  The encoder does not check the length of a sorted-set member (nor of a dictionary key) although it writes
  it as a binary string: a member beyond \<open>MAX_BINARY_LENGTH\<close> is encoded, and the decoder refuses the frame.
\<close>

theorem zsp_long_member_unreadable:
  assumes "MAX_BINARY_LENGTH < length m" and "int (length m) \<le> i64_MAX" and "grants env PairVec 1"
  shows "\<exists>bs st rest. zsp_encode env (ZSet [(m, score)]) = Inr bs \<and>
    zsp_decode env (Initial, bs) = (Fail (InvalidData (''Binary string too long ('' @ message_nat (length m) @ '' > '' @
      message_nat MAX_BINARY_LENGTH @ '')'')), st, rest)"
proof -
  let ?rest = "m @ crlf @ 0x2C # fmt env score @ crlf"
  have one: "show_nat 1 = [0x31]" by code_simp
  have "text_line [0x31]" by (simp add: text_line_def)
  note line = read_line_text [OF this, of Initial, simplified append.simps]
  have p: "parse_isize [0x31] = Some 1" by code_simp
  have q: "parse_isize (show_nat (length m)) = Some (int (length m))"
    using assms(2) by (rule parse_show_isize)
  let ?err = "InvalidData (''Binary string too long ('' @ message_nat (length m) @ '' > '' @
      message_nat MAX_BINARY_LENGTH @ '')'')"
  have bulk: "zsp_decode env (Initial, bulk_header (length m) @ ?rest) = (Fail ?err, Initial, ?rest)"
    using assms(1) q by (simp add: frame_simps parse_binary_string_def dfail_def)
  have "zsp_decode env (Initial, 0x5E # 0x31 # 0x0D # 0x0A # bulk_header (length m) @ ?rest) = (Fail ?err, Initial, ?rest)"
    unfolding zsp_decode_initial [of env "0x5E # _"] using bulk assms(3)
    by (simp add: initial_decode_def decoding_simps Let_def parse_zset_def line p continue_zset_def)
  moreover have "zsp_encode env (ZSet [(m, score)]) = Inr (0x5E # 0x31 # 0x0D # 0x0A # bulk_header (length m) @ ?rest)"
    by (simp add: zsp_encode_def encode_simps one [simplified] encode_bulk_def)
  ultimately show ?thesis by blast
qed

theorem zsp_long_member_unreadable_witness:
  "\<exists>bs e st rest. zsp_encode decimal_env (ZSet [(replicate 536870913 0x61, 1)]) = Inr bs \<and>
    zsp_decode decimal_env (Initial, bs) = (Fail e, st, rest)"
  using zsp_long_member_unreadable [of "replicate 536870913 0x61" decimal_env 1]
  by (fastforce simp: decimal_env_def simp del: replicate.simps)

section \<open>Reads of the connection\<close>

text \<open>
  Frames that arrive in one read are handled one per read: the first frame is decoded and drained, the
  second one stays in the buffer and is handled at the next read, whatever bytes come with it.
\<close>

theorem zsp_receive_pipelined:
  assumes "zsp_encode env f = Inr b1" and "zsp_encode env g = Inr b2"
    and "frame_ok env f" and "frame_ok env g" and "float_text env"
  shows "receive env ([], Initial) (b1 @ b2) = (Frame (readback env f), b2, Initial) \<and>
         receive env (b2, Initial) chunk = (Frame (readback env g), chunk, Initial)"
  using encode_reads [OF assms(5), of f 0 b1] encode_reads [OF assms(5), of g 0 b2] assms(1-4)
  by (simp add: receive_def process_zsp_def reads_def zsp_encode_def)

theorem zsp_receive_pipelined_witness:
  "receive decimal_env ([], Initial) (([0x5F] @ crlf) @ [0x23, 0x74] @ crlf) = (Frame Null, [0x23, 0x74] @ crlf, Initial) \<and>
   receive decimal_env ([0x23, 0x74] @ crlf, Initial) [0x2B] = (Frame (Bool True), [0x2B], Initial)"
proof -
  have e: "zsp_encode decimal_env Null = Inr ([0x5F] @ crlf)"
    "zsp_encode decimal_env (Bool True) = Inr ([0x23, 0x74] @ crlf)"
    by (simp_all add: zsp_encode_def encode_frame.simps)
  have ok: "frame_ok decimal_env Null" "frame_ok decimal_env (Bool True)" by simp_all
  show ?thesis using zsp_receive_pipelined [OF e ok float_text_decimal, of "[0x2B]"] by simp
qed

text \<open>C30. A binary string that the connection receives in two reads is not recovered: the first read keeps its bytes both
  in the buffer and in the decoder, so the second read appends the header again to the data. Unless the
  missing part happens to begin with a dollar sign, the frame handed on is never the string that was sent.
\<close>

theorem zsp_split_frame_corrupted:
  assumes "n = length (a @ b)" and "b \<noteq> []" and "hd b \<noteq> 0x24" and "n \<le> MAX_BINARY_LENGTH"
    and "grants env ByteVec n"
  shows "receive env ([], Initial) (bulk_header n @ a) = (Waiting, bulk_header n @ a, PartialBinaryString n a) \<and>
         fst (receive env (bulk_header n @ a, PartialBinaryString n a) (b @ crlf)) \<noteq> Frame (BinaryString (Some (a @ b)))"
proof -
  have "length a < n" using assms(1,2) by simp
  note first = decode_bulk_cut [OF this assms(4,5)]
  let ?buf = "bulk_header n @ a @ b @ crlf"
  let ?data = "a @ take (length b) ?buf"
  have "take (length b) ?buf \<noteq> b" using assms(2,3) by (cases b) auto
  moreover have "length b \<le> length ?buf" by simp
  ultimately have "zsp_decode env (PartialBinaryString n a, ?buf) \<noteq> (Done (Some (BinaryString (Some (a @ b)))), st, r)" for st r
    using assms(1) unfolding decode_bulk_more continue_binary_string_def
    by (auto simp: decoding_simps Let_def min_def expect_crlf_def split: if_splits)
  then have "fst (receive env (bulk_header n @ a, PartialBinaryString n a) (b @ crlf)) \<noteq> Frame (BinaryString (Some (a @ b)))"
    by (auto simp: receive_def process_zsp_def split: prod.split outcome.split option.split)
  with first show ?thesis by (simp add: receive_def process_zsp_def)
qed

theorem zsp_split_frame_corrupted_witness:
  "fst (receive decimal_env (bulk_header 5 @ [0x68, 0x65], PartialBinaryString 5 [0x68, 0x65]) ([0x6C, 0x6C, 0x6F] @ crlf))
     \<noteq> Frame (BinaryString (Some [0x68, 0x65, 0x6C, 0x6C, 0x6F]))"
  using zsp_split_frame_corrupted [of 5 "[0x68, 0x65]" "[0x6C, 0x6C, 0x6F]" decimal_env]
  by (simp add: decimal_env_def)

text \<open>
  A simple string cut before its line end is answered with an error although nothing is wrong with it, and the
  frame is then handled as well when the line end arrives.
\<close>

theorem zsp_line_cut_answered:
  assumes "text_line s"
  shows "receive env ([], Initial) (0x2B # s) = (DecodeError (UnexpectedEof ''Incomplete line''), 0x2B # s, Initial) \<and>
         receive env (0x2B # s, Initial) crlf = (Frame (InlineString s), [], Initial)"
proof -
  have "takeWhile (\<lambda>c. c \<noteq> 0x0D) s = s"
    using assms by (auto simp: text_line_def takeWhile_eq_all_conv)
  then have "memchr 0x0D s = None" unfolding memchr_def by (simp only: Let_def less_irrefl if_False)
  then have "zsp_decode env (Initial, 0x2B # s) = (Fail (UnexpectedEof ''Incomplete line''), Initial, s)"
    by (simp add: frame_simps parse_inline_string_def read_line_def)
  moreover have "zsp_decode env (Initial, 0x2B # s @ crlf) = (Done (Some (InlineString s)), Initial, [])"
    using reads_lines(1) [OF assms, of env] by (auto simp: reads_def dest: spec [of _ "[]"])
  ultimately show ?thesis by (simp add: receive_def process_zsp_def)
qed

theorem zsp_line_cut_answered_witness:
  "receive decimal_env ([], Initial) (0x2B # [0x4F, 0x4B])
     = (DecodeError (UnexpectedEof ''Incomplete line''), 0x2B # [0x4F, 0x4B], Initial)"
  using zsp_line_cut_answered [of "[0x4F, 0x4B]" decimal_env] by (simp add: text_line_def)

end
