(* ===== verification/Zsp_Convert.thy ===== *)
theory Zsp_Convert
  imports Zdb_Encode Zsp_Roundtrip
begin

text \<open>
  \<open>TryFrom<Value> for ZspFrame\<close> of \<open>src/network/zsp/frame/zsp_types.rs\<close>: the reply for a stored value, over the models
  of the containers. An error is the constructor of its message: \<open>format!("Invalid hash key: {e}")\<close>,
  \<open>format!("ZSet key error: {e}")\<close>, the literal for an unsupported type, and the prefix an array adds.
\<close>

section \<open>Conversions\<close>

datatype convert_error = InvalidHashKey bytes | ZSetKeyError bytes | UnsupportedType | ArrayElement convert_error

definition convert_sds_to_frame :: "bytes \<Rightarrow> convert_error + zsp_frame" where
  "convert_sds_to_frame s =
     (if utf8_valid s
      then if 0x0D \<in> set s \<or> 0x0A \<in> set s then Inr (BinaryString (Some s)) else Inr (InlineString s)
      else Inr (BinaryString (Some s)))"

text \<open>\<open>From<Sds> for ZspFrame\<close>\<close>

definition frame_of_sds :: "bytes \<Rightarrow> zsp_frame" where
  "frame_of_sds s = BinaryString (Some s)"

definition convert_quicklist :: "bytes quicklist \<Rightarrow> convert_error + zsp_frame" where
  "convert_quicklist l = Inr (zsp_frame.Array (map frame_of_sds (ql_iter l)))"

text \<open>A loop that inserts converted items until the first error.\<close>

fun convert_fold :: "('c \<Rightarrow> 'b \<Rightarrow> 'c) \<Rightarrow> ('a \<Rightarrow> 'e + 'b) \<Rightarrow> 'c \<Rightarrow> 'a list \<Rightarrow> 'e + 'c" where
  "convert_fold add conv acc [] = Inr acc"
| "convert_fold add conv acc (x # xs) =
     (case conv x of Inl e \<Rightarrow> Inl e | Inr y \<Rightarrow> convert_fold add conv (add acc y) xs)"

definition convert_hashset_to_set :: "zenv \<Rightarrow> zsp_env \<Rightarrow> bytes hash_set \<Rightarrow> convert_error + zsp_frame" where
  "convert_hashset_to_set zenv env s =
     map_sum id zsp_frame.Set
       (convert_fold (hs_insert env) convert_sds_to_frame [] (map fst (hm_iter (set_order zenv) s)))"

definition convert_hashset :: "zenv \<Rightarrow> bytes hash_set \<Rightarrow> convert_error + zsp_frame" where
  "convert_hashset zenv s =
     map_sum id zsp_frame.Array
       (convert_fold push_item convert_sds_to_frame [] (map fst (hm_iter (set_order zenv) s)))"

definition convert_smart_hash :: "zenv \<Rightarrow> (bytes, bytes) smart_hash \<Rightarrow> convert_error + zsp_frame" where
  "convert_smart_hash zenv smart =
     map_sum id Dictionary
       (convert_fold (\<lambda>m (k, frame). dict_put m k frame)
          (\<lambda>(k, v). if utf8_valid k then Inr (k, frame_of_sds v) else Inl (InvalidHashKey k)) []
          (fst (sh_iter (hash_order zenv) smart)))"

definition convert_zset :: "(bytes, u64) dict \<Rightarrow> convert_error + zsp_frame" where
  "convert_zset d =
     map_sum id zsp_frame.ZSet
       (convert_fold (\<lambda>ps p. ps @ [p])
          (\<lambda>(k, score). if utf8_valid k then Inr (k, score) else Inl (ZSetKeyError k)) []
          (drain dict_iter_next (dict_len d) (dict_iter_of d)))"

lemma convert_fold_cong [fundef_cong]:
  "xs = ys \<Longrightarrow> add = add' \<Longrightarrow> acc = acc' \<Longrightarrow> (\<And>x. x \<in> set ys \<Longrightarrow> conv x = conv' x) \<Longrightarrow>
   convert_fold add conv acc xs = convert_fold add' conv' acc' ys"
  by (induction xs arbitrary: ys acc acc') (auto split: sum.splits)

function frame_try_from :: "zenv \<Rightarrow> zsp_env \<Rightarrow> zvalue \<Rightarrow> convert_error + zsp_frame" where
  "frame_try_from zenv env val = (case val of
       zvalue.Str s \<Rightarrow> convert_sds_to_frame s
     | zvalue.IntV i \<Rightarrow> Inr (Integer i)
     | zvalue.Float f \<Rightarrow> Inr (zsp_frame.Float f)
     | zvalue.Bool b \<Rightarrow> Inr (zsp_frame.Bool b)
     | zvalue.List l \<Rightarrow> convert_quicklist l
     | zvalue.Set s \<Rightarrow> convert_hashset_to_set zenv env s
     | zvalue.Hash h \<Rightarrow> convert_smart_hash zenv h
     | zvalue.ZSet d _ \<Rightarrow> convert_zset d
     | zvalue.Null \<Rightarrow> Inr zsp_frame.Null
     | zvalue.Array arr \<Rightarrow>
         map_sum id zsp_frame.Array
           (convert_fold push_item (\<lambda>v. map_sum ArrayElement id (frame_try_from zenv env v)) [] arr)
     | zvalue.Bitmap bmp \<Rightarrow> Inr (BinaryString (Some (bm_bytes bmp)))
     | zvalue.HyperLogLog _ \<Rightarrow> Inl UnsupportedType
     | zvalue.SStream _ \<Rightarrow> Inl UnsupportedType)"
  by pat_completeness auto
termination
  by (relation "measure (\<lambda>(zenv, env, v). size v)")
     (auto intro: size_list_estimation' simp: less_Suc_eq_le)

declare frame_try_from.simps [simp del]

section \<open>Which replies can be encoded\<close>

lemma convert_fold_Inr:
  "convert_fold add conv acc xs = Inr r \<longleftrightarrow> (\<exists>ys. map conv xs = map Inr ys \<and> r = foldl add acc ys)"
  by (induction xs arbitrary: acc) (auto simp: Cons_eq_map_conv split: sum.splits)

lemma convert_fold_all:
  assumes "\<And>x. x \<in> set xs \<Longrightarrow> \<exists>y. conv x = Inr y \<and> P y"
  shows "\<exists>ys. convert_fold add conv acc xs = Inr (foldl add acc ys) \<and> (\<forall>y \<in> set ys. P y)"
  using assms
proof (induction xs arbitrary: acc)
  case (Cons x xs)
  obtain y where y: "conv x = Inr y" "P y" using Cons.prems by force
  obtain ys where "convert_fold add conv (add acc y) xs = Inr (foldl add (add acc y) ys)" "\<forall>y \<in> set ys. P y"
    using Cons by (metis list.set_intros(2))
  with y show ?case by (intro exI [of _ "y # ys"]) simp
qed (auto intro: exI [of _ "[]"])

text \<open>The frames the encoder accepts at a given depth.\<close>

fun fits :: "nat \<Rightarrow> zsp_frame \<Rightarrow> bool" where
  "fits d (InlineString s) \<longleftrightarrow> d \<le> MAX_ARRAY_DEPTH \<and> 0x0D \<notin> set s \<and> 0x0A \<notin> set s"
| "fits d (FrameError s) \<longleftrightarrow> d \<le> MAX_ARRAY_DEPTH \<and> 0x0D \<notin> set s \<and> 0x0A \<notin> set s"
| "fits d (BinaryString b) \<longleftrightarrow>
     d \<le> MAX_ARRAY_DEPTH \<and> (case b of None \<Rightarrow> True | Some b \<Rightarrow> length b \<le> MAX_BINARY_LENGTH)"
| "fits d (zsp_frame.Array xs) \<longleftrightarrow> d \<le> MAX_ARRAY_DEPTH \<and> (\<forall>x \<in> set xs. fits (d + 1) x)"
| "fits d (Push xs) \<longleftrightarrow> d \<le> MAX_ARRAY_DEPTH \<and> (\<forall>x \<in> set xs. fits (d + 1) x)"
| "fits d (zsp_frame.Set xs) \<longleftrightarrow> d \<le> MAX_ARRAY_DEPTH \<and> (\<forall>x \<in> set xs. fits (d + 1) x)"
| "fits d (Dictionary items) \<longleftrightarrow> d \<le> MAX_ARRAY_DEPTH \<and> (\<forall>kv \<in> set items. fits (d + 1) (snd kv))"
| "fits d frame \<longleftrightarrow> d \<le> MAX_ARRAY_DEPTH"

lemma enc_concat_isl: "isl (enc_concat rs) \<longleftrightarrow> (\<exists>r \<in> set rs. isl r)"
  by (induction rs rule: enc_concat.induct) (auto simp: isl_map_sum)

lemma encode_fits: "\<not> isl (encode_frame env f d) \<longleftrightarrow> fits d f"
proof (induction f arbitrary: d)
  case (Dictionary items)
  then show ?case
    by (force simp: encode_simps isl_map_sum enc_concat_isl hm_iter_facts snds.simps)
next
  case (BinaryString b)
  then show ?case by (cases b) (auto simp: encode_simps)
qed (auto simp: encode_simps isl_map_sum enc_concat_isl hs_iter_facts validate_simple_string_def
       validate_error_string_def)

text \<open>
  The values whose reply can be sent: no type without a frame, keys that are text, and no part too long or too deep.
\<close>

fun replyable :: "zenv \<Rightarrow> nat \<Rightarrow> zvalue \<Rightarrow> bool" where
  "replyable zenv d (zvalue.Str s) \<longleftrightarrow> length s \<le> MAX_BINARY_LENGTH"
| "replyable zenv d (zvalue.List l) \<longleftrightarrow>
     d < MAX_ARRAY_DEPTH \<and> (\<forall>s \<in> set (ql_iter l). length s \<le> MAX_BINARY_LENGTH)"
| "replyable zenv d (zvalue.Set s) \<longleftrightarrow>
     d < MAX_ARRAY_DEPTH \<and> (\<forall>m \<in> set s. length (fst m) \<le> MAX_BINARY_LENGTH)"
| "replyable zenv d (zvalue.Hash h) \<longleftrightarrow>
     d < MAX_ARRAY_DEPTH \<and>
     (\<forall>kv \<in> set (fst (sh_iter (hash_order zenv) h)). utf8_valid (fst kv) \<and> length (snd kv) \<le> MAX_BINARY_LENGTH)"
| "replyable zenv d (zvalue.ZSet dict _) \<longleftrightarrow>
     (\<forall>kv \<in> set (drain dict_iter_next (dict_len dict) (dict_iter_of dict)). utf8_valid (fst kv))"
| "replyable zenv d (zvalue.Array arr) \<longleftrightarrow> d < MAX_ARRAY_DEPTH \<and> (\<forall>v \<in> set arr. replyable zenv (d + 1) v)"
| "replyable zenv d (zvalue.Bitmap bmp) \<longleftrightarrow> length (bm_bytes bmp) \<le> MAX_BINARY_LENGTH"
| "replyable zenv d (zvalue.HyperLogLog _) \<longleftrightarrow> False"
| "replyable zenv d (zvalue.SStream _) \<longleftrightarrow> False"
| "replyable zenv d _ \<longleftrightarrow> True"

lemma convert_sds_fits:
  "length s \<le> MAX_BINARY_LENGTH \<Longrightarrow> d \<le> MAX_ARRAY_DEPTH \<Longrightarrow> \<exists>f. convert_sds_to_frame s = Inr f \<and> fits d f"
  by (simp add: convert_sds_to_frame_def)

lemma foldl_hs_insert_subset: "set (foldl (hs_insert env) xs ys) \<subseteq> set xs \<union> set ys"
proof (induction ys arbitrary: xs)
  case (Cons y ys)
  have "set (hs_insert env xs y) \<subseteq> insert y (set xs)" by (auto simp: hs_insert_def)
  with Cons [of "hs_insert env xs y"] show ?case by auto
qed simp

lemma foldl_dict_put_values:
  "snd ` set (foldl (\<lambda>m (k, v). dict_put m k v) m kvs) \<subseteq> snd ` set m \<union> snd ` set kvs"
proof (induction kvs arbitrary: m)
  case (Cons kv kvs)
  obtain k v where kv: "kv = (k, v)" by (cases kv)
  have "snd ` set (fst (hm_insert m k v)) \<subseteq> insert v (snd ` set m)"
    by (induction m) (force simp: case_prod_beta Let_def split: if_splits)+
  with Cons [of "dict_put m k v"] kv show ?case by (auto simp: dict_put_def)
qed simp

lemma try_from_fits:
  "replyable zenv d v \<Longrightarrow> d \<le> MAX_ARRAY_DEPTH \<Longrightarrow> \<exists>f. frame_try_from zenv env v = Inr f \<and> fits d f"
proof (induction v arbitrary: d)
  case (Set s)
  let ?ms = "map fst (hm_iter (set_order zenv) s)"
  have "\<exists>fs. convert_fold (hs_insert env) convert_sds_to_frame [] ?ms = Inr (foldl (hs_insert env) [] fs) \<and>
      (\<forall>f \<in> set fs. fits (d + 1) f)"
    by (rule convert_fold_all) (use Set in \<open>auto simp: hm_iter_facts intro!: convert_sds_fits\<close>)
  then show ?case
    using foldl_hs_insert_subset [of env "[]"] Set
    by (fastforce simp: frame_try_from.simps [of _ _ "zvalue.Set _"] convert_hashset_to_set_def)
next
  case (Hash h)
  have "\<exists>kvs. convert_fold (\<lambda>m (k, frame). dict_put m k frame)
      (\<lambda>(k, v). if utf8_valid k then Inr (k, frame_of_sds v) else Inl (InvalidHashKey k)) []
      (fst (sh_iter (hash_order zenv) h)) = Inr (foldl (\<lambda>m (k, frame). dict_put m k frame) [] kvs) \<and>
      (\<forall>kv \<in> set kvs. fits (d + 1) (snd kv))"
    by (rule convert_fold_all) (use Hash in \<open>auto simp: frame_of_sds_def\<close>)
  then show ?case
    using foldl_dict_put_values [of "[]"] Hash
    by (fastforce simp: frame_try_from.simps [of _ _ "zvalue.Hash _"] convert_smart_hash_def)
next
  case (ZSet dict sl)
  have "\<exists>ps. convert_fold (\<lambda>ps p. ps @ [p])
      (\<lambda>(k, score). if utf8_valid k then Inr (k, score) else Inl (ZSetKeyError k)) []
      (drain dict_iter_next (dict_len dict) (dict_iter_of dict)) = Inr (foldl (\<lambda>ps p. ps @ [p]) [] ps) \<and>
      (\<forall>p \<in> set ps. True)"
    by (rule convert_fold_all) (use ZSet in auto)
  then show ?case using ZSet by (auto simp: frame_try_from.simps [of _ _ "zvalue.ZSet _ _"] convert_zset_def)
next
  case (Array arr)
  have "\<exists>fs. convert_fold push_item (\<lambda>v. map_sum ArrayElement id (frame_try_from zenv env v)) [] arr
        = Inr (foldl push_item [] fs) \<and> (\<forall>f \<in> set fs. fits (d + 1) f)"
    by (rule convert_fold_all) (use Array in fastforce)
  then show ?case
    using Array by (auto simp: frame_try_from.simps [of _ _ "zvalue.Array _"] foldl_push_item)
qed (auto simp: frame_try_from.simps convert_quicklist_def frame_of_sds_def intro!: convert_sds_fits)

text \<open>C29. Every value whose keys are text, that is nowhere too long or too deep and has no part of a type without frames
  has a reply: its conversion succeeds and the encoder accepts the frame (in particular no
  simple string with a line break is ever produced).
\<close>

theorem value_reply:
  assumes "replyable zenv 0 v"
  shows "\<exists>f bs. frame_try_from zenv env v = Inr f \<and> zsp_encode env f = Inr bs"
proof -
  obtain f where "frame_try_from zenv env v = Inr f" "fits 0 f" using try_from_fits [OF assms, of env] by auto
  then show ?thesis using encode_fits [of env f 0] by (cases "encode_frame env f 0") (auto simp: zsp_encode_def)
qed

theorem value_reply_witness:
  "\<forall>zenv. \<exists>f bs. frame_try_from zenv decimal_env (zvalue.Array [zvalue.Str [0x0A], zvalue.IntV 3]) = Inr f \<and>
     zsp_encode decimal_env f = Inr bs"
  by (intro allI value_reply) simp

fun frame_bytes :: "zsp_frame \<Rightarrow> bytes option" where
  "frame_bytes (InlineString s) = Some s"
| "frame_bytes (BinaryString b) = b"
| "frame_bytes _ = None"

text \<open>
  The reply for a stored string gives the client the string back, whether it is sent as a simple or as a binary
  string.
\<close>

theorem string_reply_roundtrip:
  assumes "length s \<le> MAX_BINARY_LENGTH" and "grants env ByteVec (length s)" and "float_text env"
  shows "\<exists>f bs. frame_try_from zenv env (zvalue.Str s) = Inr f \<and> zsp_encode env f = Inr bs \<and>
    zsp_decode env (Initial, bs @ rest) = (Done (Some f), Initial, rest) \<and> frame_bytes f = Some s"
proof -
  obtain f where f: "frame_try_from zenv env (zvalue.Str s) = Inr f" "fits 0 f" "frame_bytes f = Some s"
    "frame_ok env f" "exact_frame f"
    using assms(1,2)
    by (cases "utf8_valid s \<and> 0x0D \<notin> set s \<and> 0x0A \<notin> set s")
       (force simp: frame_try_from.simps convert_sds_to_frame_def)+
  obtain bs where bs: "encode_frame env f 0 = Inr bs" using f(2) encode_fits [of env f 0] by (cases "encode_frame env f 0") auto
  from encode_reads [OF assms(3) bs f(4)] readback_exact [OF assms(3) f(5)]
  show ?thesis using f(1,3) bs by (auto simp: reads_def zsp_encode_def)
qed

theorem string_reply_roundtrip_witness:
  "\<forall>zenv. \<exists>f bs. frame_try_from zenv decimal_env (zvalue.Str [0x61, 0x0D]) = Inr f \<and> zsp_encode decimal_env f = Inr bs \<and>
     zsp_decode decimal_env (Initial, bs @ [1]) = (Done (Some f), Initial, [1]) \<and> frame_bytes f = Some [0x61, 0x0D]"
  by (intro allI string_reply_roundtrip [OF _ _ float_text_decimal]) (simp_all add: decimal_env_def)

end
