(* ===== verification/Slots.thy ===== *)
theory Slots
  imports SmartHash Rust_Text
begin

text \<open>
  The slot manager (\<open>engine/slot_manager.rs\<close>): the CRC-16 that sends a key to one of 16384 slots,
  the table that gives each slot to a shard, the migrations that change it and the counters that plan them.
  A \<open>u16\<close> slot is a word, a shard id a \<open>nat\<close>, an \<open>Instant\<close> the seconds on the process's clock, given to the operations
  that read it; a \<open>HashMap\<close> is a \<open>hash_map\<close> with the order \<open>\<sigma>\<close> of its traversals. Loads are compared
  as \<open>f64\<close>, whose operations are the parameter \<open>load_ops\<close>. A lock is poisoned only by a panic inside a
  critical section, and no critical section of the file has one; the error \<open>PoisonedLock\<close> does not arise.
\<close>

unbundle bit_operations_syntax

section \<open>The checksum\<close>

definition CRC16_TAB :: "u16 list" where
  "CRC16_TAB =
   [0x0000, 0x1021, 0x2042, 0x3063, 0x4084, 0x50a5, 0x60c6, 0x70e7, 0x8108, 0x9129, 0xa14a, 0xb16b, 0xc18c, 0xd1ad, 0xe1ce, 0xf1ef,
    0x1231, 0x0210, 0x3273, 0x2252, 0x52b5, 0x4294, 0x72f7, 0x62d6, 0x9339, 0x8318, 0xb37b, 0xa35a, 0xd3bd, 0xc39c, 0xf3ff, 0xe3de,
    0x2462, 0x3443, 0x0420, 0x1401, 0x64e6, 0x74c7, 0x44a4, 0x5485, 0xa56a, 0xb54b, 0x8528, 0x9509, 0xe5ee, 0xf5cf, 0xc5ac, 0xd58d,
    0x3653, 0x2672, 0x1611, 0x0630, 0x76d7, 0x66f6, 0x5695, 0x46b4, 0xb75b, 0xa77a, 0x9719, 0x8738, 0xf7df, 0xe7fe, 0xd79d, 0xc7bc,
    0x48c4, 0x58e5, 0x6886, 0x78a7, 0x0840, 0x1861, 0x2802, 0x3823, 0xc9cc, 0xd9ed, 0xe98e, 0xf9af, 0x8948, 0x9969, 0xa90a, 0xb92b,
    0x5af5, 0x4ad4, 0x7ab7, 0x6a96, 0x1a71, 0x0a50, 0x3a33, 0x2a12, 0xdbfd, 0xcbdc, 0xfbbf, 0xeb9e, 0x9b79, 0x8b58, 0xbb3b, 0xab1a,
    0x6ca6, 0x7c87, 0x4ce4, 0x5cc5, 0x2c22, 0x3c03, 0x0c60, 0x1c41, 0xedae, 0xfd8f, 0xcdec, 0xddcd, 0xad2a, 0xbd0b, 0x8d68, 0x9d49,
    0x7e97, 0x6eb6, 0x5ed5, 0x4ef4, 0x3e13, 0x2e32, 0x1e51, 0x0e70, 0xff9f, 0xefbe, 0xdfdd, 0xcffc, 0xbf1b, 0xaf3a, 0x9f59, 0x8f78,
    0x9188, 0x81a9, 0xb1ca, 0xa1eb, 0xd10c, 0xc12d, 0xf14e, 0xe16f, 0x1080, 0x00a1, 0x30c2, 0x20e3, 0x5004, 0x4025, 0x7046, 0x6067,
    0x83b9, 0x9398, 0xa3fb, 0xb3da, 0xc33d, 0xd31c, 0xe37f, 0xf35e, 0x02b1, 0x1290, 0x22f3, 0x32d2, 0x4235, 0x5214, 0x6277, 0x7256,
    0xb5ea, 0xa5cb, 0x95a8, 0x8589, 0xf56e, 0xe54f, 0xd52c, 0xc50d, 0x34e2, 0x24c3, 0x14a0, 0x0481, 0x7466, 0x6447, 0x5424, 0x4405,
    0xa7db, 0xb7fa, 0x8799, 0x97b8, 0xe75f, 0xf77e, 0xc71d, 0xd73c, 0x26d3, 0x36f2, 0x0691, 0x16b0, 0x6657, 0x7676, 0x4615, 0x5634,
    0xd94c, 0xc96d, 0xf90e, 0xe92f, 0x99c8, 0x89e9, 0xb98a, 0xa9ab, 0x5844, 0x4865, 0x7806, 0x6827, 0x18c0, 0x08e1, 0x3882, 0x28a3,
    0xcb7d, 0xdb5c, 0xeb3f, 0xfb1e, 0x8bf9, 0x9bd8, 0xabbb, 0xbb9a, 0x4a75, 0x5a54, 0x6a37, 0x7a16, 0x0af1, 0x1ad0, 0x2ab3, 0x3a92,
    0xfd2e, 0xed0f, 0xdd6c, 0xcd4d, 0xbdaa, 0xad8b, 0x9de8, 0x8dc9, 0x7c26, 0x6c07, 0x5c64, 0x4c45, 0x3ca2, 0x2c83, 0x1ce0, 0x0cc1,
    0xef1f, 0xff3e, 0xcf5d, 0xdf7c, 0xaf9b, 0xbfba, 0x8fd9, 0x9ff8, 0x6e17, 0x7e36, 0x4e55, 0x5e74, 0x2e93, 0x3eb2, 0x0ed1, 0x1ef0]"

definition crc16_step :: "u16 \<Rightarrow> u8 \<Rightarrow> u16" where
  "crc16_step crc byte = push_bit 8 crc XOR CRC16_TAB ! unat (drop_bit 8 crc XOR ucast byte)"

definition crc16 :: "bytes \<Rightarrow> u16" where
  "crc16 data = foldl crc16_step 0 data"

text \<open>The reference: division by the polynomial \<open>x\<^sup>1\<^sup>6 + x\<^sup>1\<^sup>2 + x\<^sup>5 + 1\<close>, one bit at a time, most significant first.\<close>

definition crc16_shift :: "u16 \<Rightarrow> u16" where
  "crc16_shift w = (if bit w 15 then push_bit 1 w XOR 0x1021 else push_bit 1 w)"

definition crc16_reference :: "u16 \<Rightarrow> u8 \<Rightarrow> u16" where
  "crc16_reference crc byte = (crc16_shift ^^ 8) (crc XOR push_bit 8 (ucast byte))"

section \<open>State\<close>

datatype slot_state =
  Stable nat
| Migrating nat nat u64
| Importing nat nat u64

record load_metrics =
  operations_per_second :: "(nat, u64) hash_map"
  hot_keys :: "(bytes, u64) hash_map"
  slot_access_count :: "(u16, u64) hash_map"
  last_updated :: nat

record migration_task =
  mt_slot :: u16
  from_shard :: nat
  to_shard :: nat
  keys_to_migrate :: "bytes list"
  migrated_keys :: nat
  total_keys :: nat
  started_at :: nat

record slot_manager =
  slot_assignments :: "slot_state list"
  slot_map_version :: u64
  shard_ops :: "u64 list"
  slot_access :: "u64 list"
  sm_metrics :: load_metrics
  active_migrations :: "(u16, migration_task) hash_map"
  migration_queue :: "(u16 \<times> nat \<times> nat) list"
  sm_shard_count :: nat
  rebalance_interval :: nat
  last_rebalance :: nat

datatype slot_error =
  MigrationActive u16
| NoActiveMigration u16
| InvalidSlot u16

definition TOTAL_SLOTS :: u16 where "TOTAL_SLOTS = 16384"
definition HOT_KEY_THRESHOLD :: u64 where "HOT_KEY_THRESHOLD = 100"
definition MIGRATION_BATCH_SIZE :: nat where "MIGRATION_BATCH_SIZE = 64"

definition new_metrics :: "nat \<Rightarrow> load_metrics" where
  "new_metrics now = \<lparr>operations_per_second = [], hot_keys = [], slot_access_count = [], last_updated = now\<rparr>"

text \<open>The remainder \<open>slot mod shard_count\<close> panics when there are no shards.\<close>

definition sm_new :: "nat \<Rightarrow> nat \<Rightarrow> slot_manager panics" where
  "sm_new now shard_count =
     (if shard_count = 0 then None
      else Some \<lparr>slot_assignments = map (\<lambda>slot. Stable (slot mod shard_count)) [0..<unat TOTAL_SLOTS],
                 slot_map_version = 1,
                 shard_ops = replicate shard_count 0,
                 slot_access = replicate (unat TOTAL_SLOTS) 0,
                 sm_metrics = new_metrics now,
                 active_migrations = [],
                 migration_queue = [],
                 sm_shard_count = shard_count,
                 rebalance_interval = 30,
                 last_rebalance = now\<rparr>)"

section \<open>Routing\<close>

fun state_shard :: "slot_state \<Rightarrow> nat" where
  "state_shard (Stable s) = s"
| "state_shard (Migrating from_s to_s p) = from_s"
| "state_shard (Importing from_s to_s p) = to_s"

definition get_slot_shard :: "slot_manager \<Rightarrow> u16 \<Rightarrow> nat option" where
  "get_slot_shard sm slot =
     (if length (slot_assignments sm) \<le> unat slot then None
      else Some (state_shard (slot_assignments sm ! unat slot)))"

definition hash_tag :: "bytes \<Rightarrow> bytes" where
  "hash_tag key =
     (case memchr 123 key of
        None \<Rightarrow> key
      | Some start \<Rightarrow>
          (case memchr 125 (drop (start + 1) key) of
             None \<Rightarrow> key
           | Some n \<Rightarrow> let tag = take n (drop (start + 1) key) in if tag \<noteq> [] then tag else key))"

definition calculate_slot :: "bytes \<Rightarrow> u16" where
  "calculate_slot key = crc16 (hash_tag key) mod TOTAL_SLOTS"

definition get_key_shard :: "slot_manager \<Rightarrow> bytes \<Rightarrow> nat" where
  "get_key_shard sm key = (case get_slot_shard sm (calculate_slot key) of Some s \<Rightarrow> s | None \<Rightarrow> 0)"

definition bump :: "u64 list \<Rightarrow> nat \<Rightarrow> u64 list" where
  "bump xs i = (if i < length xs then xs[i := xs ! i + 1] else xs)"

definition record_operation :: "bytes \<Rightarrow> slot_manager \<Rightarrow> slot_manager" where
  "record_operation key sm =
     sm\<lparr>slot_access := bump (slot_access sm) (unat (calculate_slot key)),
        shard_ops := bump (shard_ops sm) (get_key_shard sm key)\<rparr>"

definition reset_metrics :: "nat \<Rightarrow> slot_manager \<Rightarrow> slot_manager" where
  "reset_metrics now sm =
     sm\<lparr>sm_metrics := new_metrics now,
        shard_ops := map (\<lambda>_. 0) (shard_ops sm),
        slot_access := map (\<lambda>_. 0) (slot_access sm)\<rparr>"

section \<open>Migration of one slot\<close>

text \<open>Each operation is a sequence of critical sections; the locks are released between them.\<close>

definition migration_active :: "u16 \<Rightarrow> slot_manager \<Rightarrow> bool" where
  "migration_active slot sm \<longleftrightarrow> map_of (active_migrations sm) slot \<noteq> None"

definition assign :: "u16 \<Rightarrow> slot_state \<Rightarrow> slot_manager \<Rightarrow> (slot_error + slot_manager)" where
  "assign slot st sm =
     (if length (slot_assignments sm) \<le> unat slot then Inl (InvalidSlot slot)
      else Inr (sm\<lparr>slot_assignments := (slot_assignments sm)[unat slot := st]\<rparr>))"

definition register :: "nat \<Rightarrow> u16 \<Rightarrow> nat \<Rightarrow> nat \<Rightarrow> slot_manager \<Rightarrow> slot_manager" where
  "register now slot from_s to_s sm =
     sm\<lparr>active_migrations := fst (hm_insert (active_migrations sm) slot
          \<lparr>mt_slot = slot, from_shard = from_s, to_shard = to_s, keys_to_migrate = [], migrated_keys = 0, total_keys = 0,
           started_at = now\<rparr>)\<rparr>"

definition unregister :: "u16 \<Rightarrow> slot_manager \<Rightarrow> slot_manager" where
  "unregister slot sm = sm\<lparr>active_migrations := fst (hm_remove (active_migrations sm) slot)\<rparr>"

definition next_version :: "slot_manager \<Rightarrow> slot_manager" where
  "next_version sm = sm\<lparr>slot_map_version := slot_map_version sm + 1\<rparr>"

definition start_slot_migration :: "nat \<Rightarrow> u16 \<Rightarrow> nat \<Rightarrow> nat \<Rightarrow> slot_manager \<Rightarrow> slot_manager \<times> (slot_error + unit)" where
  "start_slot_migration now slot from_s to_s sm =
     (if migration_active slot sm then (sm, Inl (MigrationActive slot))
      else case assign slot (Migrating from_s to_s 0) sm of
             Inl e \<Rightarrow> (sm, Inl e)
           | Inr sm1 \<Rightarrow> (next_version (register now slot from_s to_s sm1), Inr ()))"

definition complete_slot_migration :: "u16 \<Rightarrow> slot_manager \<Rightarrow> slot_manager \<times> (slot_error + unit)" where
  "complete_slot_migration slot sm =
     (case map_of (active_migrations sm) slot of
        None \<Rightarrow> (sm, Inl (NoActiveMigration slot))
      | Some migration \<Rightarrow>
          (case assign slot (Stable (to_shard migration)) sm of
             Inl e \<Rightarrow> (sm, Inl e)
           | Inr sm1 \<Rightarrow> (next_version (unregister slot sm1), Inr ())))"

definition rollback_migration :: "u16 \<Rightarrow> slot_manager \<Rightarrow> slot_manager \<times> (slot_error + unit)" where
  "rollback_migration slot sm =
     (case map_of (active_migrations sm) slot of
        None \<Rightarrow> (sm, Inl (NoActiveMigration slot))
      | Some migration \<Rightarrow>
          (case assign slot (Stable (from_shard migration)) sm of
             Inl e \<Rightarrow> (sm, Inl e)
           | Inr sm1 \<Rightarrow> (next_version (unregister slot sm1), Inr ())))"

section \<open>Planning\<close>

text \<open>The operations of \<open>f64\<close> that planning uses.\<close>

record 'f load_ops =
  lo_of :: "u64 \<Rightarrow> 'f"
  lo_mul :: "'f \<Rightarrow> 'f \<Rightarrow> 'f"
  lo_div :: "'f \<Rightarrow> 'f \<Rightarrow> 'f"
  lo_lt :: "'f \<Rightarrow> 'f \<Rightarrow> bool"
  REBALANCE_THRESHOLD :: 'f

text \<open>A sum of \<open>u64\<close> counters panics when it overflows.\<close>

definition sum_u64 :: "u64 list \<Rightarrow> u64 panics" where
  "sum_u64 xs = (let n = sum_list (map unat xs) in if n < 2 ^ 64 then Some (of_nat n) else None)"

definition imbalanced :: "'f load_ops \<Rightarrow> u64 list \<Rightarrow> bool" where
  "imbalanced fl loads =
     (let max_load = Max (set loads); min_load = Min (set loads) in
      if min_load = 0 then 0 < max_load
      else lo_lt fl (REBALANCE_THRESHOLD fl) (lo_div fl (lo_of fl max_load) (lo_of fl min_load)))"

definition should_rebalance :: "'f load_ops \<Rightarrow> nat \<Rightarrow> slot_manager \<Rightarrow> bool" where
  "should_rebalance fl now sm =
     (let ops = operations_per_second (sm_metrics sm) in
      if now - last_rebalance sm < rebalance_interval sm \<and> ops = [] then False
      else if ops \<noteq> [] then (if length ops < 2 then False else imbalanced fl (map snd ops))
      else let loads = map (\<lambda>i. shard_ops sm ! i) [0..<sm_shard_count sm] in
        if length loads < 2 then False
        else if \<forall>x\<in>set loads. x = 0 then False
        else imbalanced fl loads)"

text \<open>Slots of a shard that are stable and hot, by a given count of accesses.\<close>

definition hot_slots :: "(nat \<Rightarrow> u64 option) \<Rightarrow> slot_manager \<Rightarrow> nat \<Rightarrow> u16 list" where
  "hot_slots access sm shard =
     List.map_filter (\<lambda>i. if slot_assignments sm ! i = Stable shard \<and>
           (case access i of Some n \<Rightarrow> HOT_KEY_THRESHOLD < n | None \<Rightarrow> False) then Some (of_nat i) else None)
       [0..<length (slot_assignments sm)]"

text \<open>The pairs of an overloaded and an underloaded shard, until a batch is full. The first planner takes at most a
  batch per pair and looks at the size only after each; the second stops at the batch.\<close>

fun plan_batches :: "(nat \<Rightarrow> u16 list) \<Rightarrow> (nat \<times> nat) list \<Rightarrow> (u16 \<times> nat \<times> nat) list \<Rightarrow> (u16 \<times> nat \<times> nat) list" where
  "plan_batches hot [] migrations = migrations"
| "plan_batches hot ((ov, ud) # pairs) migrations =
     (let migrations = migrations @ map (\<lambda>slot. (slot, ov, ud)) (take MIGRATION_BATCH_SIZE (hot ov)) in
      if MIGRATION_BATCH_SIZE \<le> length migrations then migrations else plan_batches hot pairs migrations)"

definition plan_prefix :: "(nat \<Rightarrow> u16 list) \<Rightarrow> (nat \<times> nat) list \<Rightarrow> (u16 \<times> nat \<times> nat) list" where
  "plan_prefix hot pairs = take MIGRATION_BATCH_SIZE (concat (map (\<lambda>(ov, ud). map (\<lambda>slot. (slot, ov, ud)) (hot ov)) pairs))"

definition shard_pairs :: "(nat \<times> u64) list \<Rightarrow> (nat \<times> u64) list \<Rightarrow> (nat \<times> nat) list" where
  "shard_pairs overloaded underloaded =
     List.product (map fst (sort_key (\<lambda>b. - uint (snd b)) overloaded)) (map fst (sort_key (\<lambda>a. uint (snd a)) underloaded))"

definition enqueue :: "nat \<Rightarrow> (u16 \<times> nat \<times> nat) list \<Rightarrow> slot_manager \<Rightarrow> slot_manager" where
  "enqueue now migrations sm =
     (if migrations = [] then sm else sm\<lparr>migration_queue := migration_queue sm @ migrations, last_rebalance := now\<rparr>)"

definition overload :: "'f load_ops \<Rightarrow> 'f \<Rightarrow> u64 \<Rightarrow> bool" where
  "overload fl avg load \<longleftrightarrow> lo_lt fl (lo_mul fl avg (REBALANCE_THRESHOLD fl)) (lo_of fl load)"

definition underload :: "'f load_ops \<Rightarrow> 'f \<Rightarrow> u64 \<Rightarrow> bool" where
  "underload fl avg load \<longleftrightarrow> lo_lt fl (lo_of fl load) (lo_div fl avg (REBALANCE_THRESHOLD fl))"

definition plan_from_metrics :: "'f load_ops \<Rightarrow> (nat, u64) order \<Rightarrow> slot_manager \<Rightarrow> (u16 \<times> nat \<times> nat) list panics" where
  "plan_from_metrics fl \<sigma> sm =
     (let ops = hm_iter \<sigma> (operations_per_second (sm_metrics sm)) in
      if ops = [] then Some []
      else do {
        total \<leftarrow> sum_u64 (map snd ops);
        let avg = lo_div fl (lo_of fl total) (lo_of fl (of_nat (length ops)));
        let high = filter (\<lambda>(_, load). overload fl avg load) ops;
        let low = filter (\<lambda>(_, load). \<not> overload fl avg load \<and> underload fl avg load) ops;
        let hot = hot_slots (\<lambda>i. map_of (slot_access_count (sm_metrics sm)) (of_nat i)) sm;
        Some (plan_batches hot (shard_pairs high low) [])
      })"

definition plan_from_counters :: "'f load_ops \<Rightarrow> slot_manager \<Rightarrow> (u16 \<times> nat \<times> nat) list panics" where
  "plan_from_counters fl sm =
     (let shard_loads = map (\<lambda>i. (i, shard_ops sm ! i)) [0..<sm_shard_count sm] in do {
        total \<leftarrow> sum_u64 (map snd shard_loads);
        if total = 0 then Some []
        else
          let avg = lo_div fl (lo_of fl total) (lo_of fl (of_nat (sm_shard_count sm)));
              high = filter (\<lambda>(_, load). overload fl avg load) shard_loads;
              low = filter (\<lambda>(_, load). underload fl avg load) shard_loads
          in if high = [] \<or> low = [] then Some []
             else Some (plan_prefix (hot_slots (\<lambda>i. Some (slot_access sm ! i)) sm) (shard_pairs high low))
      })"

definition trigger_rebalance ::
  "'f load_ops \<Rightarrow> (nat, u64) order \<Rightarrow> nat \<Rightarrow> slot_manager \<Rightarrow> (slot_manager \<times> (u16 \<times> nat \<times> nat) list) panics" where
  "trigger_rebalance fl \<sigma> now sm = do {
     migrations \<leftarrow> plan_from_metrics fl \<sigma> sm;
     if migrations \<noteq> [] then Some (enqueue now migrations sm, migrations)
     else do {
       migrations \<leftarrow> plan_from_counters fl sm;
       Some (enqueue now migrations sm, migrations)
     }
   }"

section \<open>Reports\<close>

definition get_hot_keys :: "(bytes, u64) order \<Rightarrow> slot_manager \<Rightarrow> (bytes \<times> u64) list" where
  "get_hot_keys \<sigma> sm =
     sort_key (\<lambda>b. - uint (snd b)) (filter (\<lambda>(_, n). HOT_KEY_THRESHOLD < n) (hm_iter \<sigma> (hot_keys (sm_metrics sm))))"

definition get_load_distribution :: "'f load_ops \<Rightarrow> slot_manager \<Rightarrow> (nat, 'f) hash_map panics" where
  "get_load_distribution fl sm = do {
     let distribution = map (\<lambda>i. (i, shard_ops sm ! i)) [0..<sm_shard_count sm];
     total \<leftarrow> sum_u64 (map snd distribution);
     if total = 0 then Some [] else Some (map (\<lambda>(sid, ops). (sid, lo_div fl (lo_of fl ops) (lo_of fl total))) distribution)
   }"

definition get_migration_status ::
  "'f load_ops \<Rightarrow> 'f \<Rightarrow> (u16, migration_task) order \<Rightarrow> slot_manager \<Rightarrow> (u16 \<times> nat \<times> nat \<times> 'f) list" where
  "get_migration_status fl zero \<sigma> sm =
     map (\<lambda>(_, task). (mt_slot task, from_shard task, to_shard task,
            if 0 < total_keys task
            then lo_div fl (lo_of fl (of_nat (migrated_keys task))) (lo_of fl (of_nat (total_keys task))) else zero))
       (hm_iter \<sigma> (active_migrations sm))"

section \<open>The table is the division\<close>

lemma crc16_shift_clear: "\<not> bit w 15 \<Longrightarrow> crc16_shift w = push_bit 1 w"
  by (simp add: crc16_shift_def)

lemma crc16_shift_unroll:
  "(crc16_shift ^^ 8) w =
   crc16_shift (crc16_shift (crc16_shift (crc16_shift (crc16_shift (crc16_shift (crc16_shift (crc16_shift w)))))))"
  by (simp add: eval_nat_numeral)

lemma crc16_shift_xor: "(crc16_shift ^^ n) (a XOR b) = (crc16_shift ^^ n) a XOR (crc16_shift ^^ n) b"
proof (induction n)
  case (Suc n)
  have "crc16_shift (v XOR w) = crc16_shift v XOR crc16_shift w" for v w
    by (rule bit_eqI) (auto simp: crc16_shift_def bit_xor_iff push_bit_xor)
  then show ?case using Suc by simp
qed simp

text \<open>The remainders of \<open>2 i\<close> and \<open>2 i + 1\<close> from that of \<open>i\<close>, so that the table is eight doublings of \<open>[0]\<close>.\<close>

definition double :: "u16 list \<Rightarrow> u16 list" where
  "double xs = concat (map (\<lambda>x. [crc16_shift x, crc16_shift x XOR 0x1021]) xs)"

lemma CRC16_TAB_doubled: "CRC16_TAB = double (double (double (double (double (double (double (double [0])))))))"
  by (simp add: double_def crc16_shift_def CRC16_TAB_def)

lemma double_nth:
  "i < 2 * length xs \<Longrightarrow> double xs ! i = (if even i then crc16_shift (xs ! (i div 2)) else crc16_shift (xs ! (i div 2)) XOR 0x1021)"
proof (induction xs arbitrary: i)
  case (Cons x xs)
  show ?case
  proof (cases "i < 2")
    case True
    then have "i = 0 \<or> i = 1" by auto
    then show ?thesis by (auto simp: double_def)
  next
    case False
    then obtain j where "i = Suc (Suc j)" by (metis add_2_eq_Suc le_Suc_ex not_less)
    then show ?thesis using Cons.IH [of j] Cons.prems by (simp add: double_def)
  qed
qed simp

lemma length_double [simp]: "length (double xs) = 2 * length xs"
  by (induction xs) (simp_all add: double_def)

definition remainder16 :: "nat \<Rightarrow> u16" where
  "remainder16 i = (crc16_shift ^^ 8) (push_bit 8 (of_nat i))"

lemma remainder16_double:
  assumes "j < 128"
  shows "remainder16 (2 * j) = crc16_shift (remainder16 j)"
    and "remainder16 (2 * j + 1) = crc16_shift (remainder16 j) XOR 0x1021"
proof -
  have "take_bit 7 (of_nat j) = (of_nat j :: u16)"
    using assms by (simp add: take_bit_of_nat take_bit_nat_eq_self)
  then have j: "\<not> bit (of_nat j :: u16) 7" by (metis bit_take_bit_iff less_irrefl)
  have "\<not> bit (push_bit 8 (of_nat j :: u16)) 15" using j unfolding bit_push_bit_iff by simp
  from crc16_shift_clear [OF this] have "push_bit 8 (of_nat (2 * j)) = crc16_shift (push_bit 8 (of_nat j))"
    by (simp add: push_bit_eq_mult)
  then show e: "remainder16 (2 * j) = crc16_shift (remainder16 j)"
    unfolding remainder16_def by (simp add: funpow_swap1)
  have "of_nat (2 * j + 1) = (of_nat (2 * j) XOR 1 :: u16)"
    by (simp add: xor_one_eq even_mult_iff)
  then have "remainder16 (2 * j + 1) = remainder16 (2 * j) XOR (crc16_shift ^^ 8) (push_bit 8 1)"
    unfolding remainder16_def by (simp only: crc16_shift_xor push_bit_xor)
  moreover have "(crc16_shift ^^ 8) (push_bit 8 1) = 0x1021" by (simp add: crc16_shift_unroll crc16_shift_def)
  ultimately show "remainder16 (2 * j + 1) = crc16_shift (remainder16 j) XOR 0x1021" by (simp add: e)
qed


lemma CRC16_TAB_nth: "i < 256 \<Longrightarrow> CRC16_TAB ! i = remainder16 i"
proof -
  have step: "length (double xs) = 2 * n \<and> (\<forall>i<2 * n. double xs ! i = remainder16 i)"
    if "length xs = n \<and> (\<forall>i<n. xs ! i = remainder16 i)" and "n \<le> 128" for xs n
  proof -
    have "double xs ! i = remainder16 i" if "i < 2 * n" for i
      using that \<open>length xs = n \<and> _\<close> \<open>n \<le> 128\<close> remainder16_double [of "i div 2"]
      by (cases "even i") (auto simp: double_nth)
    then show ?thesis using that by simp
  qed
  have "length [0] = 1 \<and> (\<forall>i<1. [0 :: u16] ! i = remainder16 i)"
    by (simp add: remainder16_def crc16_shift_unroll crc16_shift_def)
  from step [OF step [OF step [OF step [OF step [OF step [OF step [OF step [OF this]]]]]]]]
  show "i < 256 \<Longrightarrow> CRC16_TAB ! i = remainder16 i" by (simp add: CRC16_TAB_doubled)
qed

text \<open>The low byte only moves up: its bits do not reach the top within eight steps.\<close>

lemma crc16_shift_low: "n \<le> 8 \<Longrightarrow> \<forall>i\<ge>16 - n. \<not> bit w i \<Longrightarrow> (crc16_shift ^^ n) w = push_bit n w"
proof (induction n)
  case (Suc n)
  have "\<not> bit w (15 - n)" using Suc.prems by auto
  then have "\<not> bit (push_bit n w) 15" using Suc.prems(1) by (simp add: bit_push_bit_iff)
  moreover have "(crc16_shift ^^ n) w = push_bit n w" using Suc by auto
  ultimately show ?case using crc16_shift_clear [of "push_bit n w"] by (simp add: push_bit_eq_mult)
qed simp

lemma crc16_step_reference: "crc16_step crc byte = crc16_reference crc byte"
proof -
  let ?hi = "drop_bit 8 crc XOR ucast byte" and ?lo = "take_bit 8 crc"
  have "take_bit 8 ?hi = ?hi"
    by (rule bit_eqI) (auto simp: bit_take_bit_iff bit_xor_iff bit_drop_bit_eq bit_ucast_iff dest: bit_imp_le_length)
  then have "take_bit 8 (unat ?hi) = unat ?hi" by (metis unsigned_take_bit_eq)
  then have "unat ?hi < 256" using take_bit_nat_less_exp [of 8 "unat ?hi"] by simp
  then have "CRC16_TAB ! unat ?hi = (crc16_shift ^^ 8) (push_bit 8 ?hi)" by (simp add: CRC16_TAB_nth remainder16_def)
  moreover have "(crc16_shift ^^ 8) ?lo = push_bit 8 ?lo" by (rule crc16_shift_low) (auto simp: bit_take_bit_iff)
  moreover have "push_bit 8 ?lo = push_bit 8 crc"
    by (rule bit_eqI) (auto simp: bit_take_bit_iff bit_push_bit_iff dest: bit_imp_le_length)
  moreover have "crc XOR push_bit 8 (ucast byte) = ?lo XOR push_bit 8 ?hi"
  proof (rule bit_eqI)
    fix n
    show "bit (crc XOR push_bit 8 (ucast byte)) n = bit (?lo XOR push_bit 8 ?hi) n"
      by (cases "n < 8") (auto simp: bit_take_bit_iff bit_push_bit_iff bit_xor_iff bit_drop_bit_eq dest: bit_imp_le_length)
  qed
  ultimately show ?thesis by (simp add: crc16_step_def crc16_reference_def crc16_shift_xor)
qed

text \<open>C22. The table-driven CRC-16 that assigns keys to slots is, on every input, the bit-by-bit division by
  \<open>x\<^sup>1\<^sup>6 + x\<^sup>1\<^sup>2 + x\<^sup>5 + 1\<close> of the specification it follows.\<close>

theorem crc16_is_division: "crc16 data = foldl crc16_reference 0 data"
  by (simp add: crc16_def crc16_step_reference [abs_def] cong: foldl_cong)

end
