(* ===== verification/Slot_Machine.thy ===== *)
theory Slot_Machine
  imports Slots
begin

text \<open>
  The slot manager as a state machine. Its invariant \<open>sm_wf\<close> ties the two tables together: a slot is
  \<open>Migrating\<close> exactly when a task for it is registered, with the same two shards. The operations keep it one
  at a time; run from two threads, the three critical sections of \<open>start_slot_migration\<close> do not.
\<close>

section \<open>Lookups\<close>

lemma unat_TOTAL_SLOTS [simp]: "unat TOTAL_SLOTS = 16384"
  by (simp add: TOTAL_SLOTS_def)

lemma calculate_slot_less: "unat (calculate_slot key) < 16384"
  unfolding calculate_slot_def unat_mod unat_TOTAL_SLOTS by simp

lemma get_slot_shard_assign:
  assumes "assign slot st sm = Inr sm1"
  shows "get_slot_shard sm1 s = (if s = slot then Some (state_shard st) else get_slot_shard sm s)"
  using assms by (auto simp: assign_def get_slot_shard_def nth_list_update word_unat_eq_iff split: if_splits)

lemma get_slot_shard_unchanged [simp]:
  "get_slot_shard (register now slot a b sm) s = get_slot_shard sm s"
  "get_slot_shard (unregister slot sm) s = get_slot_shard sm s"
  "get_slot_shard (next_version sm) s = get_slot_shard sm s"
  "get_slot_shard (record_operation key sm) s = get_slot_shard sm s"
  "get_slot_shard (reset_metrics now sm) s = get_slot_shard sm s"
  "get_slot_shard (enqueue now ms sm) s = get_slot_shard sm s"
  by (simp_all add: get_slot_shard_def register_def unregister_def next_version_def record_operation_def reset_metrics_def
      enqueue_def)

lemma get_key_shard_cong: "(\<And>s. get_slot_shard sm s = get_slot_shard sm' s) \<Longrightarrow> get_key_shard sm key = get_key_shard sm' key"
  by (simp add: get_key_shard_def)

lemma get_key_shard_unchanged [simp]:
  "get_key_shard (record_operation k sm) key = get_key_shard sm key"
  "get_key_shard (reset_metrics now sm) key = get_key_shard sm key"
  "get_key_shard (enqueue now ms sm) key = get_key_shard sm key"
  by (rule get_key_shard_cong, simp)+

text \<open>Braces: keys with the same tag share their slot.\<close>

lemma hash_tag_braces:
  assumes "123 \<notin> set p" and "125 \<notin> set tag" and "tag \<noteq> []"
  shows "hash_tag (p @ 123 # tag @ 125 # q) = tag"
  using assms by (simp add: hash_tag_def memchr_append)

section \<open>The invariant\<close>

definition task_for :: "slot_manager \<Rightarrow> u16 \<Rightarrow> (nat \<times> nat) option" where
  "task_for sm slot = map_option (\<lambda>t. (from_shard t, to_shard t)) (map_of (active_migrations sm) slot)"

text \<open>No call checks the shards it is given: the slots go to shards of a set \<open>S\<close>, those that exist and those that were
  ever named.\<close>

fun slot_ok :: "nat set \<Rightarrow> slot_state \<Rightarrow> (nat \<times> nat) option \<Rightarrow> bool" where
  "slot_ok S (Stable s) task \<longleftrightarrow> s \<in> S \<and> task = None"
| "slot_ok S (Migrating a b p) task \<longleftrightarrow> a \<in> S \<and> b \<in> S \<and> task = Some (a, b)"
| "slot_ok S (Importing a b p) task \<longleftrightarrow> False"

definition sm_within :: "nat \<Rightarrow> nat set \<Rightarrow> slot_manager \<Rightarrow> bool" where
  "sm_within n S sm \<longleftrightarrow> {..<n} \<subseteq> S \<and>
     sm_shard_count sm = n \<and> length (shard_ops sm) = n \<and>
     length (slot_assignments sm) = 16384 \<and> length (slot_access sm) = 16384 \<and>
     (\<forall>i<16384. slot_ok S (slot_assignments sm ! i) (task_for sm (of_nat i))) \<and>
     (\<forall>slot. task_for sm slot \<noteq> None \<longrightarrow> unat slot < 16384) \<and>
     (\<forall>(s, load)\<in>set (operations_per_second (sm_metrics sm)). s < n)"

text \<open>Only existing shards were named.\<close>

abbreviation sm_wf :: "nat \<Rightarrow> slot_manager \<Rightarrow> bool" where
  "sm_wf n \<equiv> sm_within n {..<n}"

lemma slot_ok_mono: "slot_ok S st t \<Longrightarrow> S \<subseteq> S' \<Longrightarrow> slot_ok S' st t"
  by (cases st) auto

lemma sm_within_mono: "sm_within n S sm \<Longrightarrow> S \<subseteq> S' \<Longrightarrow> sm_within n S' sm"
  unfolding sm_within_def using slot_ok_mono by blast

lemma sm_wf_new: "sm_new now n = Some sm \<Longrightarrow> sm_wf n sm"
  by (auto simp: sm_new_def sm_within_def task_for_def new_metrics_def split: if_splits)

lemma sm_new_fields:
  "sm_new now n = Some sm \<Longrightarrow> shard_ops sm = replicate n 0 \<and> sm_shard_count sm = n \<and> active_migrations sm = []"
  by (auto simp: sm_new_def split: if_splits)

lemma sm_wf_shard:
  assumes "sm_within n S sm"
  shows "get_key_shard sm key \<in> S"
proof -
  let ?i = "unat (calculate_slot key)"
  have "slot_ok S (slot_assignments sm ! ?i) (task_for sm (of_nat ?i))" "length (slot_assignments sm) = 16384"
    using assms calculate_slot_less [of key] unfolding sm_within_def by blast+
  then show ?thesis using calculate_slot_less [of key]
    by (cases "slot_assignments sm ! ?i") (simp_all add: get_key_shard_def get_slot_shard_def)
qed

lemma task_for_simps [simp]:
  "task_for (register now slot a b sm) s = (if s = slot then Some (a, b) else task_for sm s)"
  "task_for (unregister slot sm) s = (if s = slot then None else task_for sm s)"
  "task_for (next_version sm) s = task_for sm s"
proof -
  obtain m old where "hm_insert (active_migrations sm) slot
      \<lparr>mt_slot = slot, from_shard = a, to_shard = b, keys_to_migrate = [], migrated_keys = 0, total_keys = 0, started_at = now\<rparr> = (m, old)"
    by fastforce
  with hm_insert_map [OF this] show "task_for (register now slot a b sm) s = (if s = slot then Some (a, b) else task_for sm s)"
    by (simp add: task_for_def register_def)
  show "task_for (unregister slot sm) s = (if s = slot then None else task_for sm s)"
    by (auto simp: task_for_def unregister_def hm_remove_def map_of_filter_key)
qed (simp add: task_for_def next_version_def)

text \<open>Replacing the state of one slot together with its task.\<close>

lemma sm_wf_update:
  assumes "sm_within n S sm" and "assign slot st sm = Inr sm1" and "slot_ok S st t"
    and "\<And>s. task_for sm2 s = (if s = slot then t else task_for sm s)"
    and "slot_assignments sm2 = slot_assignments sm1" and "shard_ops sm2 = shard_ops sm" and "slot_access sm2 = slot_access sm"
    and "sm_shard_count sm2 = sm_shard_count sm" and "sm_metrics sm2 = sm_metrics sm"
  shows "sm_within n S sm2"
proof -
  have l: "unat slot < 16384" "slot_assignments sm1 = (slot_assignments sm)[unat slot := st]" "length (slot_assignments sm) = 16384"
    using assms(1,2) by (auto simp: assign_def sm_within_def split: if_splits)
  have "slot_ok S (slot_assignments sm2 ! i) (task_for sm2 (of_nat i))" if "i < 16384" for i
  proof (cases "of_nat i = slot")
    case True
    then have "i = unat slot" using that by (auto simp: unat_of_nat take_bit_nat_eq_self)
    then show ?thesis using assms(3,4,5) l by simp
  next
    case False
    then have "i \<noteq> unat slot" by auto
    then show ?thesis using assms(1,4,5) l False that by (simp add: sm_within_def)
  qed
  then show ?thesis using assms l by (simp add: sm_within_def)
qed

lemmas slot_ops_def = register_def unregister_def next_version_def

lemma sm_wf_start:
  assumes "sm_within n S sm" and "a \<in> S" and "b \<in> S" and "start_slot_migration now slot a b sm = (sm', r)"
  shows "sm_within n S sm'"
proof (cases "migration_active slot sm")
  case False
  show ?thesis
  proof (cases "assign slot (Migrating a b 0) sm")
    case (Inr sm1)
    then have sm': "sm' = next_version (register now slot a b sm1)" and
      sm1: "sm1 = sm\<lparr>slot_assignments := (slot_assignments sm)[unat slot := Migrating a b 0]\<rparr>"
      using assms(4) False by (auto simp: start_slot_migration_def assign_def split: if_splits)
    show ?thesis by (rule sm_wf_update [OF assms(1) Inr, where t = "Some (a, b)"])
        (use assms(2,3) sm1 in \<open>simp_all add: sm', simp_all add: task_for_def slot_ops_def\<close>)
  qed (use assms False in \<open>simp add: start_slot_migration_def\<close>)
qed (use assms in \<open>simp add: start_slot_migration_def\<close>)

text \<open>Completing and rolling back differ in the shard they keep.\<close>

lemma sm_wf_finish:
  assumes "sm_within n S sm" and "assign slot (Stable s) sm = Inr sm1" and "s \<in> S"
  shows "sm_within n S (next_version (unregister slot sm1))"
proof -
  have sm1: "sm1 = sm\<lparr>slot_assignments := (slot_assignments sm)[unat slot := Stable s]\<rparr>"
    using assms(2) by (auto simp: assign_def split: if_splits)
  show ?thesis by (rule sm_wf_update [OF assms(1,2), where t = None])
      (use assms(3) sm1 in \<open>simp_all, simp_all add: task_for_def slot_ops_def\<close>)
qed

lemma sm_wf_task:
  assumes "sm_within n S sm" and "map_of (active_migrations sm) slot = Some t"
  shows "unat slot < 16384" and "\<exists>p. slot_assignments sm ! unat slot = Migrating (from_shard t) (to_shard t) p"
    and "from_shard t \<in> S" and "to_shard t \<in> S"
proof -
  have t: "task_for sm slot = Some (from_shard t, to_shard t)" using assms(2) by (simp add: task_for_def)
  then show u: "unat slot < 16384" using assms(1) unfolding sm_within_def by blast
  then have "slot_ok S (slot_assignments sm ! unat slot) (task_for sm (of_nat (unat slot)))"
    using assms(1) unfolding sm_within_def by blast
  then show "\<exists>p. slot_assignments sm ! unat slot = Migrating (from_shard t) (to_shard t) p"
    and "from_shard t \<in> S" and "to_shard t \<in> S"
    using t by (cases "slot_assignments sm ! unat slot"; simp)+
qed

lemma sm_wf_complete:
  assumes "sm_within n S sm" and "complete_slot_migration slot sm = (sm', r)"
  shows "sm_within n S sm'"
  using assms sm_wf_finish [OF assms(1)] sm_wf_task(4) [OF assms(1)]
  by (auto simp: complete_slot_migration_def split: option.splits sum.splits)

lemma sm_wf_rollback:
  assumes "sm_within n S sm" and "rollback_migration slot sm = (sm', r)"
  shows "sm_within n S sm'"
  using assms sm_wf_finish [OF assms(1)] sm_wf_task(3) [OF assms(1)]
  by (auto simp: rollback_migration_def split: option.splits sum.splits)

lemma sm_wf_counters:
  assumes "sm_within n S sm"
  shows "sm_within n S (record_operation key sm)" and "sm_within n S (reset_metrics now sm)" and "sm_within n S (enqueue now ms sm)"
  using assms
  by (simp_all add: sm_within_def task_for_def record_operation_def reset_metrics_def new_metrics_def bump_def enqueue_def)

text \<open>What a successful call leaves.\<close>

lemma start_Inr:
  assumes "start_slot_migration now slot a b sm = (sm', Inr u)"
  shows "get_slot_shard sm' s = (if s = slot then Some a else get_slot_shard sm s)"
    and "task_for sm' s = (if s = slot then Some (a, b) else task_for sm s)"
proof -
  obtain sm1 where sm1: "assign slot (Migrating a b 0) sm = Inr sm1" "sm' = next_version (register now slot a b sm1)"
    using assms by (auto simp: start_slot_migration_def split: if_splits sum.splits)
  then have "task_for sm1 s = task_for sm s" by (auto simp: assign_def task_for_def split: if_splits)
  with sm1 get_slot_shard_assign [OF sm1(1)] show "get_slot_shard sm' s = (if s = slot then Some a else get_slot_shard sm s)"
    and "task_for sm' s = (if s = slot then Some (a, b) else task_for sm s)" by simp_all
qed

lemma complete_Inr:
  assumes "complete_slot_migration slot sm = (sm', Inr u)" and "task_for sm slot = Some (a, b)"
  shows "get_slot_shard sm' s = (if s = slot then Some b else get_slot_shard sm s)"
  using assms get_slot_shard_assign [of slot "Stable b" sm]
  by (auto simp: complete_slot_migration_def task_for_def split: option.splits sum.splits)

lemma migration_succeeds:
  assumes "sm_within n S sm" and "unat slot < 16384" and "\<not> migration_active slot sm"
  shows "\<exists>sm1 sm2 sm3. start_slot_migration now slot a b sm = (sm1, Inr ()) \<and> complete_slot_migration slot sm1 = (sm2, Inr ()) \<and>
    rollback_migration slot sm1 = (sm3, Inr ())"
proof -
  obtain sm1 where sm1: "start_slot_migration now slot a b sm = (sm1, Inr ())" "length (slot_assignments sm1) = 16384"
    using assms by (auto simp: start_slot_migration_def assign_def sm_within_def slot_ops_def)
  have "task_for sm1 slot = Some (a, b)" using start_Inr(2) [OF sm1(1)] by simp
  then show ?thesis using sm1 assms(2)
    by (auto simp: complete_slot_migration_def rollback_migration_def assign_def task_for_def split: option.split)
qed

section \<open>What planning proposes\<close>

definition proposes :: "nat set \<Rightarrow> slot_manager \<Rightarrow> (u16 \<times> nat \<times> nat) \<Rightarrow> bool" where
  "proposes S sm m \<longleftrightarrow> (case m of (slot, a, b) \<Rightarrow> get_slot_shard sm slot = Some a \<and> a \<in> S \<and> b \<in> S)"

lemma hot_slots_stable:
  assumes "sm_within n S sm" and "slot \<in> set (hot_slots access sm shard)"
  shows "get_slot_shard sm slot = Some shard \<and> shard \<in> S"
proof -
  obtain i where i: "i < 16384" "slot_assignments sm ! i = Stable shard" "slot = of_nat i"
    using assms by (auto simp: hot_slots_def List.map_filter_def sm_within_def split: if_splits)
  then have "unat slot = i" by (simp add: unat_of_nat take_bit_nat_eq_self)
  moreover have "slot_ok S (slot_assignments sm ! i) (task_for sm (of_nat i))"
    using assms(1) i(1) unfolding sm_within_def by blast
  ultimately show ?thesis using i assms(1) by (simp add: get_slot_shard_def sm_within_def)
qed

lemma plan_batches_set:
  "set (plan_batches hot pairs ms) \<subseteq> set ms \<union> {(slot, ov, ud). slot \<in> set (hot ov) \<and> (ov, ud) \<in> set pairs}"
  by (induction hot pairs ms rule: plan_batches.induct) (auto simp: Let_def dest: in_set_takeD split: if_splits)

lemma plan_batches_length:
  "length ms < MIGRATION_BATCH_SIZE \<Longrightarrow> length (plan_batches hot pairs ms) < 2 * MIGRATION_BATCH_SIZE"
  by (induction hot pairs ms rule: plan_batches.induct) (auto simp: Let_def)

lemma plan_prefix_set: "set (plan_prefix hot pairs) \<subseteq> {(slot, ov, ud). slot \<in> set (hot ov) \<and> (ov, ud) \<in> set pairs}"
  by (auto simp: plan_prefix_def dest!: in_set_takeD)

lemma shard_pairs_set: "set (shard_pairs high low) = fst ` set high \<times> fst ` set low"
  by (simp add: shard_pairs_def)

lemma plan_from_metrics_spec:
  assumes "sm_within n S sm" and "plan_from_metrics fl \<sigma> sm = Some ms"
  shows "(\<forall>m\<in>set ms. proposes S sm m) \<and> length ms < 2 * MIGRATION_BATCH_SIZE"
proof -
  let ?ops = "hm_iter \<sigma> (operations_per_second (sm_metrics sm))"
  let ?hot = "hot_slots (\<lambda>i. map_of (slot_access_count (sm_metrics sm)) (of_nat i)) sm"
  have n: "s \<in> S" if "(s, load) \<in> set ?ops" for s load
    using assms(1) that by (fastforce simp: sm_within_def hm_iter_facts)
  show ?thesis
  proof (cases "?ops = []")
    case False
    then obtain high low where ms: "ms = plan_batches ?hot (shard_pairs high low) []" and low: "set low \<subseteq> set ?ops"
      using assms(2) by (auto simp: plan_from_metrics_def Let_def split: Option.bind_splits)
    have "proposes S sm m" if "m \<in> set ms" for m
    proof -
      obtain slot a b where m: "m = (slot, a, b)" by (cases m)
      with that have "slot \<in> set (?hot a)" "(a, b) \<in> set (shard_pairs high low)"
        using plan_batches_set [of ?hot "shard_pairs high low" "[]"] by (auto simp: ms)
      then show ?thesis using hot_slots_stable [OF assms(1)] low n by (auto simp: m proposes_def shard_pairs_set)
    qed
    then show ?thesis using plan_batches_length [of "[]"] by (simp add: ms MIGRATION_BATCH_SIZE_def)
  qed (use assms(2) in \<open>simp add: plan_from_metrics_def MIGRATION_BATCH_SIZE_def\<close>)
qed

lemma plan_from_counters_spec:
  assumes "sm_within n S sm" and "plan_from_counters fl sm = Some ms"
  shows "(\<forall>m\<in>set ms. proposes S sm m) \<and> length ms \<le> MIGRATION_BATCH_SIZE"
proof (cases "ms = []")
  case False
  let ?hot = "hot_slots (\<lambda>i. Some (slot_access sm ! i)) sm"
  let ?loads = "map (\<lambda>i. (i, shard_ops sm ! i)) [0..<sm_shard_count sm]"
  obtain high low where ms: "ms = plan_prefix ?hot (shard_pairs high low)" and low: "set low \<subseteq> set ?loads"
    using assms(2) False by (auto simp: plan_from_counters_def Let_def split: Option.bind_splits if_splits)
  have "proposes S sm m" if "m \<in> set ms" for m
  proof -
    obtain slot a b where m: "m = (slot, a, b)" by (cases m)
    with that have "slot \<in> set (?hot a)" "(a, b) \<in> set (shard_pairs high low)"
      using plan_prefix_set [of ?hot "shard_pairs high low"] by (auto simp: ms)
    moreover have "b \<in> S" using calculation(2) low assms(1) by (fastforce simp: shard_pairs_set sm_within_def)
    ultimately show ?thesis using hot_slots_stable [OF assms(1)] by (auto simp: m proposes_def)
  qed
  then show ?thesis by (simp add: ms plan_prefix_def)
qed simp

lemma trigger_rebalance_spec:
  assumes "sm_within n S sm" and "trigger_rebalance fl \<sigma> now sm = Some (sm', ms)"
  shows "sm' = enqueue now ms sm \<and> (\<forall>m\<in>set ms. proposes S sm m) \<and> length ms < 2 * MIGRATION_BATCH_SIZE"
  using assms(2) plan_from_metrics_spec [OF assms(1), of fl \<sigma>] plan_from_counters_spec [OF assms(1), of fl]
  by (auto simp: trigger_rebalance_def MIGRATION_BATCH_SIZE_def split: Option.bind_splits if_splits)

section \<open>The background thread\<close>

text \<open>One round of the loop of \<open>start_rebalancer\<close> in \<open>cluster.rs\<close>, with the time of its last check; a failed start is only printed.\<close>

definition start_all :: "nat \<Rightarrow> (u16 \<times> nat \<times> nat) list \<Rightarrow> slot_manager \<Rightarrow> slot_manager" where
  "start_all now ms sm = foldl (\<lambda>sm (slot, a, b). fst (start_slot_migration now slot a b sm)) sm ms"

definition rebalancer_round :: "'f load_ops \<Rightarrow> (nat, u64) order \<Rightarrow> nat \<Rightarrow> nat \<times> slot_manager \<Rightarrow> (nat \<times> slot_manager) panics" where
  "rebalancer_round fl \<sigma> now w =
     (let (last_check, sm) = w in
      if now - last_check < 10 then Some w
      else if should_rebalance fl now sm
      then map_option (\<lambda>(sm, ms). (now, start_all now ms sm)) (trigger_rebalance fl \<sigma> now sm)
      else Some (now, sm))"

lemma start_keeps_routing:
  assumes "get_slot_shard sm slot = Some a" and "start_slot_migration now slot a b sm = (sm', r)"
  shows "get_slot_shard sm' s = get_slot_shard sm s"
  using assms get_slot_shard_assign [of slot "Migrating a b 0" sm]
  by (auto simp: start_slot_migration_def split: if_splits sum.splits)

lemma start_all_spec:
  "sm_within n S sm \<Longrightarrow> \<forall>m\<in>set ms. proposes S sm m \<Longrightarrow>
   sm_within n S (start_all now ms sm) \<and> (\<forall>s. get_slot_shard (start_all now ms sm) s = get_slot_shard sm s)"
proof (induction ms arbitrary: sm)
  case (Cons m ms)
  obtain slot a b where m: "m = (slot, a, b)" by (cases m)
  obtain sm1 r where sm1: "start_slot_migration now slot a b sm = (sm1, r)" by fastforce
  have p: "get_slot_shard sm slot = Some a" "a \<in> S" "b \<in> S" using Cons.prems(2) by (simp_all add: m proposes_def)
  note same = start_keeps_routing [OF p(1) sm1]
  have "sm_within n S sm1" using sm_wf_start [OF Cons.prems(1) p(2,3) sm1] .
  moreover have "\<forall>m\<in>set ms. proposes S sm1 m" using Cons.prems(2) by (simp add: proposes_def same)
  ultimately show ?case using Cons.IH [of sm1] same by (simp add: start_all_def m sm1)
qed (simp add: start_all_def)

lemma rebalancer_round_spec:
  assumes "sm_within n S sm" and "rebalancer_round fl \<sigma> now (t, sm) = Some (t', sm')"
  shows "sm_within n S sm'" and "get_slot_shard sm' s = get_slot_shard sm s"
proof -
  have "sm_within n S sm' \<and> get_slot_shard sm' s = get_slot_shard sm s"
  proof (cases "trigger_rebalance fl \<sigma> now sm")
    case (Some w)
    obtain sm1 ms where w: "w = (sm1, ms)" by (cases w)
    note tr = trigger_rebalance_spec [OF assms(1) Some [unfolded w]]
    have "sm_within n S sm1" using tr sm_wf_counters(3) [OF assms(1)] by simp
    moreover have "\<forall>m\<in>set ms. proposes S sm1 m" using tr by (simp add: proposes_def)
    ultimately show ?thesis using start_all_spec [of n S sm1 ms now] assms tr
      by (auto simp: rebalancer_round_def Some w split: if_splits)
  qed (use assms in \<open>auto simp: rebalancer_round_def split: if_splits\<close>)
  then show "sm_within n S sm'" and "get_slot_shard sm' s = get_slot_shard sm s" by simp_all
qed

section \<open>Reachable states\<close>

text \<open>The states after any operations one after the other, with the shards that the calls of \<open>start_slot_migration\<close> named.\<close>

inductive sm_reach :: "'f load_ops \<Rightarrow> nat \<Rightarrow> nat set \<Rightarrow> slot_manager \<Rightarrow> bool" for fl n where
  fresh: "sm_new now n = Some sm \<Longrightarrow> sm_reach fl n {} sm"
| recorded: "sm_reach fl n N sm \<Longrightarrow> sm_reach fl n N (record_operation key sm)"
| reset: "sm_reach fl n N sm \<Longrightarrow> sm_reach fl n N (reset_metrics now sm)"
| planned: "sm_reach fl n N sm \<Longrightarrow> trigger_rebalance fl \<sigma> now sm = Some (sm', ms) \<Longrightarrow> sm_reach fl n N sm'"
| started: "sm_reach fl n N sm \<Longrightarrow> start_slot_migration now slot a b sm = (sm', r) \<Longrightarrow> sm_reach fl n (insert a (insert b N)) sm'"
| completed: "sm_reach fl n N sm \<Longrightarrow> complete_slot_migration slot sm = (sm', r) \<Longrightarrow> sm_reach fl n N sm'"
| rolled_back: "sm_reach fl n N sm \<Longrightarrow> rollback_migration slot sm = (sm', r) \<Longrightarrow> sm_reach fl n N sm'"
| round: "sm_reach fl n N sm \<Longrightarrow> rebalancer_round fl \<sigma> now (t, sm) = Some (t', sm') \<Longrightarrow> sm_reach fl n N sm'"

lemma sm_reach_within: "sm_reach fl n N sm \<Longrightarrow> sm_within n ({..<n} \<union> N) sm"
proof (induction rule: sm_reach.induct)
  case (planned N sm \<sigma> now sm' ms)
  then show ?case using trigger_rebalance_spec sm_wf_counters(3) by blast
next
  case (started N sm now slot a b sm' r)
  have "sm_within n ({..<n} \<union> insert a (insert b N)) sm" by (rule sm_within_mono [OF started.IH]) auto
  then show ?case by (rule sm_wf_start [OF _ _ _ started.hyps(2)]) simp_all
qed (auto simp: sm_wf_new intro: sm_wf_counters sm_wf_complete sm_wf_rollback rebalancer_round_spec)

section \<open>Two threads\<close>

text \<open>\<open>start_slot_migration\<close> one critical section at a time.\<close>

datatype start_pc = AtCheck | AtAssign | AtRegister | AtVersion | Done "slot_error + unit"

fun start_step :: "nat \<Rightarrow> u16 \<Rightarrow> nat \<Rightarrow> nat \<Rightarrow> start_pc \<times> slot_manager \<Rightarrow> start_pc \<times> slot_manager" where
  "start_step now slot a b (AtCheck, sm) = (if migration_active slot sm then (Done (Inl (MigrationActive slot)), sm) else (AtAssign, sm))"
| "start_step now slot a b (AtAssign, sm) =
     (case assign slot (Migrating a b 0) sm of Inl e \<Rightarrow> (Done (Inl e), sm) | Inr sm \<Rightarrow> (AtRegister, sm))"
| "start_step now slot a b (AtRegister, sm) = (AtVersion, register now slot a b sm)"
| "start_step now slot a b (AtVersion, sm) = (Done (Inr ()), next_version sm)"
| "start_step now slot a b (Done r, sm) = (Done r, sm)"

lemma start_step_alone:
  "(start_step now slot a b ^^ 4) (AtCheck, sm) =
   (let (sm', r) = start_slot_migration now slot a b sm in (Done r, sm'))"
  by (auto simp: start_slot_migration_def eval_nat_numeral split: sum.split)

text \<open>A schedule says which of two calls for the same slot takes the next step.\<close>

fun race :: "nat \<Rightarrow> u16 \<Rightarrow> nat \<times> nat \<Rightarrow> nat \<times> nat \<Rightarrow> bool list \<Rightarrow> start_pc \<times> start_pc \<times> slot_manager \<Rightarrow> start_pc \<times> start_pc \<times> slot_manager" where
  "race now slot x y [] w = w"
| "race now slot x y (True # sched) (p, q, sm) =
     (let (p, sm) = start_step now slot (fst x) (snd x) (p, sm) in race now slot x y sched (p, q, sm))"
| "race now slot x y (False # sched) (p, q, sm) =
     (let (q, sm) = start_step now slot (fst y) (snd y) (q, sm) in race now slot x y sched (p, q, sm))"

lemma race_inconsistent:
  assumes "sm_wf n sm" and "unat slot < 16384" and "\<not> migration_active slot sm"
    and "race now slot (a, b) (a, c) [True, False, True, False, False, True, True, False] (AtCheck, AtCheck, sm) = (p, q, sm')"
  shows "p = Done (Inr ()) \<and> q = Done (Inr ()) \<and>
    slot_assignments sm' ! unat slot = Migrating a c 0 \<and> task_for sm' slot = Some (a, b)"
proof -
  have "length (slot_assignments sm) = 16384" using assms(1) by (simp add: sm_within_def)
  then have "p = Done (Inr ()) \<and> q = Done (Inr ()) \<and>
      sm' = next_version (next_version (register now slot a b (register now slot a c
        (sm\<lparr>slot_assignments := (slot_assignments sm)[unat slot := Migrating a b 0, unat slot := Migrating a c 0]\<rparr>))))"
    using assms(2-4) by (auto simp: assign_def Let_def)
  then show ?thesis using assms(2) \<open>length _ = _\<close> by (simp, simp add: slot_ops_def)
qed

section \<open>Properties\<close>

text \<open>A planner's arithmetic for examples: shares in hundredths.\<close>

definition percent_ops :: "int load_ops" where
  "percent_ops = \<lparr>lo_of = uint, lo_mul = \<lambda>x y. x * y div 100, lo_div = \<lambda>x y. x * 100 div y, lo_lt = (<), REBALANCE_THRESHOLD = 150\<rparr>"

text \<open>C19. From a fresh slot manager, whatever operations run one after the other, a slot is marked as migrating exactly
  when a task for it is registered, with the same source and target, and every key is routed to an existing shard or
  to one that a call of \<open>start_slot_migration\<close> named: to an existing shard, when the calls named only such.\<close>

theorem slots_stay_consistent:
  assumes "sm_reach fl n N sm" and "unat slot < 16384"
  shows "get_key_shard sm key \<in> {..<n} \<union> N \<and>
      (case slot_assignments sm ! unat slot of
         Stable s \<Rightarrow> s \<in> {..<n} \<union> N \<and> map_of (active_migrations sm) slot = None
       | Migrating a b p \<Rightarrow> a \<in> {..<n} \<union> N \<and> b \<in> {..<n} \<union> N \<and>
           (\<exists>t. map_of (active_migrations sm) slot = Some t \<and> from_shard t = a \<and> to_shard t = b)
       | Importing a b p \<Rightarrow> False)"
proof -
  let ?S = "{..<n} \<union> N"
  have wf: "sm_within n ?S sm" by (rule sm_reach_within [OF assms(1)])
  have "slot_ok ?S (slot_assignments sm ! unat slot) (task_for sm (of_nat (unat slot)))"
    using wf assms(2) unfolding sm_within_def by blast
  then show ?thesis using sm_wf_shard [OF wf, of key]
    by (cases "slot_assignments sm ! unat slot") (auto simp: task_for_def)
qed

theorem slots_stay_consistent_witness:
  "\<exists>sm0 sm. sm_new 0 2 = Some sm0 \<and> start_slot_migration 0 5 1 0 sm0 = (sm, Inr ()) \<and> get_key_shard sm [97] < 2 \<and>
     (\<exists>t. map_of (active_migrations sm) 5 = Some t \<and> from_shard t = 1 \<and> to_shard t = 0)"
proof -
  obtain sm0 where sm0: "sm_new 0 2 = Some sm0" by (simp add: sm_new_def)
  have "\<not> migration_active 5 sm0" using sm0 by (auto simp: sm_new_def migration_active_def)
  then obtain sm where sm: "start_slot_migration 0 5 1 0 sm0 = (sm, Inr ())"
    using migration_succeeds [OF sm_wf_new [OF sm0], of 5 0 1 0] by auto
  have "sm_reach percent_ops 2 {1, 0} sm" using sm_reach.started [OF sm_reach.fresh [OF sm0] sm] .
  then have "get_key_shard sm [97] \<in> {..<2} \<union> {1, 0}"
    using slots_stay_consistent [of percent_ops 2 "{1, 0}" sm 5 "[97]"] by auto
  moreover have "task_for sm 5 = Some (1, 0)" using start_Inr(2) [OF sm] by simp
  ultimately show ?thesis using sm0 sm by (auto simp: task_for_def)
qed

text \<open>C35. Two threads that start a migration of the same free slot to different shards can both succeed, although
  the second should fail with \<open>MigrationActive\<close>: the check and the two updates are separate critical sections. The slot
  table then names one target and the registered task the other.\<close>

theorem concurrent_starts_diverge:
  assumes "sm_wf n sm" and "unat slot < 16384" and "\<not> migration_active slot sm" and "b \<noteq> c"
  shows "\<exists>sched sm'. race now slot (a, b) (a, c) sched (AtCheck, AtCheck, sm) = (Done (Inr ()), Done (Inr ()), sm') \<and>
    slot_assignments sm' ! unat slot = Migrating a c 0 \<and> task_for sm' slot = Some (a, b) \<and> \<not> sm_wf n sm'"
proof -
  let ?sched = "[True, False, True, False, False, True, True, False]"
  obtain p q sm' where r: "race now slot (a, b) (a, c) ?sched (AtCheck, AtCheck, sm) = (p, q, sm')" by (metis prod_cases3)
  note d = race_inconsistent [OF assms(1-3) r]
  have "\<not> slot_ok {..<n} (slot_assignments sm' ! unat slot) (task_for sm' (of_nat (unat slot)))" using d assms(4) by simp
  then have "\<not> sm_wf n sm'" using assms(2) unfolding sm_within_def by blast
  then show ?thesis using r d by blast
qed

theorem concurrent_starts_diverge_witness:
  "\<exists>sm sched sm'. sm_new 0 3 = Some sm \<and>
     race 0 7 (1, 0) (1, 2) sched (AtCheck, AtCheck, sm) = (Done (Inr ()), Done (Inr ()), sm') \<and> \<not> sm_wf 3 sm'"
proof -
  obtain sm where sm: "sm_new 0 3 = Some sm" by (simp add: sm_new_def)
  have "\<not> migration_active 7 sm" using sm by (auto simp: sm_new_def migration_active_def)
  with concurrent_starts_diverge [OF sm_wf_new [OF sm], of 7 0 2 0 1] sm show ?thesis by auto
qed

end
