(* ===== verification/Storage.thy ===== *)
theory Storage
  imports Zdb_Stream Rust_Text
begin

text \<open>
  What the engines share (\<open>engine/storage.rs\<close>, \<open>error/system.rs\<close>, \<open>database/types.rs\<close>): the errors,
  the trait \<open>Storage\<close> as a record of operations, the loops over a \<open>HashSet\<close> that the set commands run,
  and the conversion of a value to the bytes the persistent engine keeps. The random choices are
  functions of the crate \<open>rand\<close> and arguments here.
\<close>

section \<open>Errors\<close>

datatype store_error =
    StoreIo string
  | Utf8Failed
  | SerdeError zumic_error
  | InvalidOperation string
  | WrongType string
  | KeyNotFound
  | InvalidType
  | InvalidValue
  | Overflow
  | WrongShard
  | UnsupportedOperation string
  | Syntax string bytes
  | InvalidArgument string bytes
  | ServerShutdown

type_synonym 'a store_result = "store_error + 'a"

text \<open>An operation on an engine in state \<open>'s\<close>: it panics, or returns the state and a result.\<close>

type_synonym ('s, 'a) engine_op = "'s \<Rightarrow> ('s \<times> 'a store_result) panics"

definition eok :: "'a \<Rightarrow> ('s, 'a) engine_op" where
  "eok x s = Some (s, Inr x)"

definition eerr :: "store_error \<Rightarrow> ('s, 'a) engine_op" where
  "eerr e s = Some (s, Inl e)"

definition ebind :: "('s, 'a) engine_op \<Rightarrow> ('a \<Rightarrow> ('s, 'b) engine_op) \<Rightarrow> ('s, 'b) engine_op" where
  "ebind m f s = (case m s of None \<Rightarrow> None | Some (s, Inl e) \<Rightarrow> Some (s, Inl e) | Some (s, Inr x) \<Rightarrow> f x s)"

definition epanic :: "('s, 'a) engine_op" where
  "epanic s = None"

definition elift :: "'a panics \<Rightarrow> ('s, 'a) engine_op" where
  "elift m s = map_option (\<lambda>x. (s, Inr x)) m"

definition eresult :: "'a store_result \<Rightarrow> ('s, 'a) engine_op" where
  "eresult r s = Some (s, r)"

lemma ebind_simps [simp]:
  "ebind (eok x) f = f x" "ebind (eerr e) f = eerr e" "ebind epanic f = epanic"
  "ebind (elift (Some x)) f = f x" "ebind (elift None) f = epanic"
  "ebind (eresult (Inr x)) f = f x" "ebind (eresult (Inl e)) f = eerr e"
  by (simp_all add: ebind_def eok_def eerr_def epanic_def elift_def eresult_def fun_eq_iff)

lemma eok_apply: "eok x s = Some (s, Inr x)" and eerr_apply: "eerr e s = Some (s, Inl e)"
  and epanic_apply: "epanic s = None" and eresult_apply: "eresult r s = Some (s, r)"
  by (simp_all add: eok_def eerr_def epanic_def eresult_def)

lemma ebind_apply: "m s = Some (s', Inr x) \<Longrightarrow> ebind m f s = f x s'"
  and ebind_apply_err: "m s = Some (s', Inl e) \<Longrightarrow> ebind m f s = Some (s', Inl e)"
  and ebind_apply_panic: "m s = None \<Longrightarrow> ebind m f s = None"
  by (simp_all add: ebind_def)

section \<open>The trait\<close>

record 's storage =
  st_set :: "bytes \<Rightarrow> zvalue \<Rightarrow> ('s, unit) engine_op"
  st_get :: "bytes \<Rightarrow> ('s, zvalue option) engine_op"
  st_del :: "bytes \<Rightarrow> ('s, bool) engine_op"
  st_mset :: "(bytes \<times> zvalue) list \<Rightarrow> ('s, unit) engine_op"
  st_mget :: "bytes list \<Rightarrow> ('s, zvalue option list) engine_op"
  st_rename :: "bytes \<Rightarrow> bytes \<Rightarrow> ('s, unit) engine_op"
  st_renamenx :: "bytes \<Rightarrow> bytes \<Rightarrow> ('s, bool) engine_op"
  st_flushdb :: "('s, unit) engine_op"
  st_dbsize :: "('s, nat) engine_op"
  st_save :: "('s, unit) engine_op"
  st_sadd :: "bytes \<Rightarrow> bytes list \<Rightarrow> ('s, nat) engine_op"
  st_smembers :: "bytes \<Rightarrow> ('s, bytes list) engine_op"
  st_scard :: "bytes \<Rightarrow> ('s, nat) engine_op"
  st_sismember :: "bytes \<Rightarrow> bytes \<Rightarrow> ('s, bool) engine_op"
  st_srem :: "bytes \<Rightarrow> bytes list \<Rightarrow> ('s, nat) engine_op"
  st_srandmember :: "bytes \<Rightarrow> int \<Rightarrow> ('s, bytes list) engine_op"
  st_spop :: "bytes \<Rightarrow> int \<Rightarrow> ('s, bytes list) engine_op"

section \<open>Sets\<close>

text \<open>\<open>HashSet::insert\<close> and \<open>remove\<close> over a slice, counting the members that were new or were there.\<close>

definition hs_insert :: "bytes \<Rightarrow> bytes hash_set \<Rightarrow> bytes hash_set \<times> bool" where
  "hs_insert m s = (let (s', old) = hm_insert s m () in (s', old = None))"

definition hs_remove :: "bytes \<Rightarrow> bytes hash_set \<Rightarrow> bytes hash_set \<times> bool" where
  "hs_remove m s = (let (s', old) = hm_remove s m in (s', old \<noteq> None))"

fun add_members :: "bytes list \<Rightarrow> bytes hash_set \<times> nat \<Rightarrow> bytes hash_set \<times> nat" where
  "add_members [] w = w"
| "add_members (m # ms) (s, added) =
     (let (s, new) = hs_insert m s in add_members ms (s, if new then added + 1 else added))"

fun remove_members :: "bytes list \<Rightarrow> bytes hash_set \<times> nat \<Rightarrow> bytes hash_set \<times> nat" where
  "remove_members [] w = w"
| "remove_members (m # ms) (s, removed) =
     (let (s, was) = hs_remove m s in remove_members ms (s, if was then removed + 1 else removed))"

definition set_members :: "(bytes, unit) order \<Rightarrow> bytes hash_set \<Rightarrow> bytes list" where
  "set_members \<sigma> s = map fst (hm_iter \<sigma> s)"

text \<open>
  The functions of the crate \<open>rand\<close> on an iterator: \<open>choose\<close> with the number of the draw, and
  \<open>choose_multiple\<close>. \<open>rng_ok\<close> is what they document.
\<close>

record rng =
  rng_choose :: "nat \<Rightarrow> bytes list \<Rightarrow> bytes option"
  rng_choose_multiple :: "bytes list \<Rightarrow> nat \<Rightarrow> bytes list"

definition rng_ok :: "rng \<Rightarrow> bool" where
  "rng_ok r \<longleftrightarrow>
     (\<forall>i xs. case rng_choose r i xs of None \<Rightarrow> xs = [] | Some x \<Rightarrow> x \<in> set xs) \<and>
     (\<forall>xs n. \<exists>ys. mset xs = mset (rng_choose_multiple r xs n) + ys \<and>
        length (rng_choose_multiple r xs n) = min n (length xs))"

primrec pop_members :: "(bytes, unit) order \<Rightarrow> rng \<Rightarrow> nat \<Rightarrow> bytes hash_set \<times> bytes list \<Rightarrow> bytes hash_set \<times> bytes list" where
  "pop_members \<sigma> r 0 w = w"
| "pop_members \<sigma> r (Suc n) w =
     (let (s, out) = w in
      case rng_choose r n (set_members \<sigma> s) of
        Some item \<Rightarrow> pop_members \<sigma> r n (fst (hs_remove item s), out @ [item])
      | None \<Rightarrow> (s, out))"

definition random_members :: "(bytes, unit) order \<Rightarrow> rng \<Rightarrow> int \<Rightarrow> bytes hash_set \<Rightarrow> bytes list" where
  "random_members \<sigma> r cnt s =
     (if cnt = 1 then (case rng_choose r 0 (set_members \<sigma> s) of Some x \<Rightarrow> [x] | None \<Rightarrow> [])
      else if cnt > 1 then rng_choose_multiple r (set_members \<sigma> s) (nat cnt)
      else [])"

definition pop_count :: "int \<Rightarrow> nat" where
  "pop_count cnt = (if cnt \<le> 0 then 1 else nat cnt)"

section \<open>Values as bytes\<close>

text \<open>\<open>to_bytes\<close> panics when the encoder fails; \<open>from_bytes\<close> reports what the decoder reports.\<close>

definition to_bytes :: "zenv \<Rightarrow> zvalue \<Rightarrow> bytes panics" where
  "to_bytes env v = (case write_value vec_write_all env [] v of Some (Inr bs) \<Rightarrow> Some bs | _ \<Rightarrow> None)"

definition from_bytes :: "nat \<Rightarrow> zenv \<Rightarrow> bytes \<Rightarrow> zvalue store_result panics" where
  "from_bytes stack env bs =
     map_option (\<lambda>r. case r of Inl e \<Rightarrow> Inl (SerdeError e) | Inr (v, rest) \<Rightarrow> Inr v) (read_value stack env bs)"

text \<open>Values that the engine can keep and read back with the given stack.\<close>

definition storable :: "zenv \<Rightarrow> nat \<Rightarrow> zvalue \<Rightarrow> bool" where
  "storable env stack v \<longleftrightarrow> writable env current v \<and> small_block env current v \<and> depth v < stack"

lemma bytes_roundtrip:
  assumes "storable env stack v" and "zstd_ok env"
  obtains bs v' where "to_bytes env v = Some bs" and "from_bytes stack env bs = Some (Inr v')" and "same_value env v v'"
proof -
  obtain bs v' where bs: "appends (\<lambda>w. write_value_versioned vec_write_all env w v current) bs"
    "\<And>n rest. depth v < n \<Longrightarrow> read_value_with_version n env current (bs @ rest) = zok (v', rest)" "same_value env v v'"
    using versioned_trip [of env current v] assms by (auto simp: storable_def)
  have "to_bytes env v = Some bs"
    using appendsD [OF bs(1), of "[]"] by (simp add: to_bytes_def write_value_def zok_def)
  moreover have "from_bytes stack env bs = Some (Inr v')"
    using bs(2) [of stack "[]"] assms(1) by (simp add: from_bytes_def read_value_def storable_def zok_def)
  ultimately show ?thesis using that bs(3) by blast
qed

section \<open>Facts on sets\<close>

definition set_of :: "bytes hash_set \<Rightarrow> bytes set" where
  "set_of s = fst ` set s"

definition hs_ok :: "bytes hash_set \<Rightarrow> bool" where
  "hs_ok s \<longleftrightarrow> distinct (map fst s)"

lemma hs_empty [simp]: "hs_ok []" "set_of [] = {}"
  by (simp_all add: hs_ok_def set_of_def)

lemma set_of_map_of: "m \<in> set_of s \<longleftrightarrow> map_of s m \<noteq> None"
  by (simp add: set_of_def map_of_eq_None_iff)

lemma hs_insert_spec:
  assumes "hs_ok s" and "hs_insert m s = (s', new)"
  shows "hs_ok s'" and "set_of s' = insert m (set_of s)" and "new \<longleftrightarrow> m \<notin> set_of s"
proof -
  obtain t old where t: "hm_insert s m () = (t, old)" by (cases "hm_insert s m ()")
  have s': "s' = t" "new \<longleftrightarrow> old = None" using assms(2) t by (simp_all add: hs_insert_def)
  show "hs_ok s'" using hm_insert_distinct [OF t] assms(1) by (simp add: hs_ok_def s')
  show "set_of s' = insert m (set_of s)" using hm_insert_map [OF t] by (auto simp: set_of_map_of s' set_eq_iff)
  show "new \<longleftrightarrow> m \<notin> set_of s" using hm_insert_map [OF t] by (simp add: set_of_map_of s' del: not_None_eq)
qed

lemma hs_remove_spec:
  assumes "hs_ok s" and "hs_remove m s = (s', was)"
  shows "hs_ok s'" and "set_of s' = set_of s - {m}" and "was \<longleftrightarrow> m \<in> set_of s"
proof -
  obtain t old where t: "hm_remove s m = (t, old)" by (cases "hm_remove s m")
  have s': "s' = t" "was \<longleftrightarrow> old \<noteq> None" using assms(2) t by (simp_all add: hs_remove_def)
  note spec = hm_remove_spec [OF t assms(1) [unfolded hs_ok_def]]
  show "hs_ok s'" using spec(3) by (simp add: hs_ok_def s')
  show "set_of s' = set_of s - {m}" "was \<longleftrightarrow> m \<in> set_of s"
    using spec(1,2) by (auto simp: set_of_map_of s' set_eq_iff)
qed

lemma add_members_spec:
  assumes "hs_ok s" and "add_members ms (s, n) = (s', n')"
  shows "hs_ok s' \<and> set_of s' = set_of s \<union> set ms \<and> n' = n + card (set ms - set_of s)"
  using assms
proof (induction ms "(s, n)" arbitrary: s n rule: add_members.induct)
  case (2 m ms s n)
  obtain t new where t: "hs_insert m s = (t, new)" by (cases "hs_insert m s")
  note spec = hs_insert_spec [OF 2(2) t]
  have "hs_ok s' \<and> set_of s' = set_of t \<union> set ms \<and> n' = (if new then n + 1 else n) + card (set ms - set_of t)"
    using 2(1) [OF t [symmetric] refl spec(1)] 2(3) t by simp
  moreover have "(if new then 1 else 0) + card (set ms - set_of t) = card (set (m # ms) - set_of s)"
  proof (cases new)
    case True
    have "set (m # ms) - set_of s = insert m (set ms - set_of t)" using True spec by auto
    then show ?thesis using True spec by (simp add: card_insert_if)
  next
    case False
    then show ?thesis using spec by (simp add: insert_absorb)
  qed
  ultimately show ?case using spec(2) by (auto split: if_splits)
qed simp

lemma remove_members_spec:
  assumes "hs_ok s" and "remove_members ms (s, n) = (s', n')"
  shows "hs_ok s' \<and> set_of s' = set_of s - set ms \<and> n' = n + card (set ms \<inter> set_of s)"
  using assms
proof (induction ms "(s, n)" arbitrary: s n rule: remove_members.induct)
  case (2 m ms s n)
  obtain t was where t: "hs_remove m s = (t, was)" by (cases "hs_remove m s")
  note spec = hs_remove_spec [OF 2(2) t]
  have "hs_ok s' \<and> set_of s' = set_of t - set ms \<and> n' = (if was then n + 1 else n) + card (set ms \<inter> set_of t)"
    using 2(1) [OF t [symmetric] refl spec(1)] 2(3) t by simp
  moreover have "(if was then 1 else 0) + card (set ms \<inter> set_of t) = card (set (m # ms) \<inter> set_of s)"
  proof (cases was)
    case True
    have "set (m # ms) \<inter> set_of s = insert m (set ms \<inter> set_of t)" using True spec by auto
    then show ?thesis using True spec by simp
  next
    case False
    have "set (m # ms) \<inter> set_of s = set ms \<inter> set_of t" using False spec by auto
    then show ?thesis using False by simp
  qed
  ultimately show ?case using spec(2) by (auto split: if_splits)
qed simp

lemma set_members_set: "set (set_members \<sigma> s) = set_of s" "length (set_members \<sigma> s) = length s"
  by (simp_all add: set_members_def set_of_def hm_iter_facts)

lemma set_members_distinct: "hs_ok s \<Longrightarrow> distinct (set_members \<sigma> s)" "hs_ok s \<Longrightarrow> length s = card (set_of s)"
  by (simp_all add: set_members_def hs_ok_def set_of_def hm_iter_facts distinct_card flip: set_map)

lemma rng_chooseD:
  assumes "rng_ok r"
  shows "rng_choose r i xs = None \<Longrightarrow> xs = []" and "rng_choose r i xs = Some x \<Longrightarrow> x \<in> set xs"
proof -
  have "case rng_choose r i xs of None \<Rightarrow> xs = [] | Some x \<Rightarrow> x \<in> set xs" using assms by (simp add: rng_ok_def)
  then show "rng_choose r i xs = None \<Longrightarrow> xs = []" and "rng_choose r i xs = Some x \<Longrightarrow> x \<in> set xs" by simp_all
qed

text \<open>Popping takes distinct members out, as many as asked for or as there are.\<close>

lemma pop_members_spec:
  assumes "rng_ok r" and "hs_ok s" and "distinct out" and "set out \<inter> set_of s = {}"
    and "pop_members \<sigma> r n (s, out) = (s', out')"
  shows "hs_ok s' \<and> distinct out' \<and> set out' \<union> set_of s' = set out \<union> set_of s \<and> set out' \<inter> set_of s' = {} \<and>
    length out' = length out + min n (card (set_of s)) \<and> (\<exists>zs. out' = out @ zs)"
  using assms(2-5)
proof (induction n arbitrary: s out)
  case (Suc n)
  show ?case
  proof (cases "rng_choose r n (set_members \<sigma> s)")
    case None
    then have "set_of s = {}" using rng_chooseD(1) [OF assms(1) None] set_members_set(1) [of \<sigma> s] by simp
    then show ?thesis using None Suc.prems by simp
  next
    case (Some x)
    then have x: "x \<in> set_of s" using rng_chooseD(2) [OF assms(1) Some] set_members_set(1) [of \<sigma> s] by simp
    obtain t was where t: "hs_remove x s = (t, was)" by (cases "hs_remove x s")
    note spec = hs_remove_spec [OF Suc.prems(1) t]
    have fin: "finite (set_of s)" by (simp add: set_of_def)
    have "distinct (out @ [x])" "set (out @ [x]) \<inter> set_of t = {}" using Suc.prems x spec(2) by auto
    from Suc.IH [OF spec(1) this] Suc.prems(4) Some t
    have "hs_ok s' \<and> distinct out' \<and> set out' \<union> set_of s' = set (out @ [x]) \<union> set_of t \<and> set out' \<inter> set_of s' = {} \<and>
      length out' = length (out @ [x]) + min n (card (set_of t)) \<and> (\<exists>zs. out' = (out @ [x]) @ zs)" by simp
    moreover have "Suc (card (set_of t)) = card (set_of s)"
      unfolding spec(2) by (rule card_Suc_Diff1 [OF fin x])
    ultimately show ?thesis using x spec(2) by auto
  qed
qed simp

end
