(* ===== verification/Cluster.thy ===== *)
theory Cluster
  imports Slot_Machine Sds_Numeric Storage
begin

text \<open>
  The cluster (\<open>engine/cluster.rs\<close>): a store made of stores. \<open>InClusterStore\<close> is a \<open>Storage\<close> whose operations pick a
  shard by the key's slot and run there. All shards are given by one record \<open>st\<close> of operations on a
  state \<open>'s\<close>; engines of different kinds are a sum of states. The groups of \<open>MSET\<close> and \<open>MGET\<close> are a \<open>HashMap\<close>, visited in
  the orders \<open>\<sigma>\<close> and \<open>\<tau>\<close>. The counters of \<open>OperationMetrics\<close> are natural numbers; the
  geographic operations are those of the shard, behind the same routing.
\<close>

section \<open>State\<close>

record 's cluster =
  c_shards :: "'s list"
  c_slots :: slot_manager
  total_operations :: nat
  cross_shard_operations :: nat
  migration_operations :: nat
  failed_operations :: nat

definition cluster_new :: "nat \<Rightarrow> 's list \<Rightarrow> 's cluster panics" where
  "cluster_new now shards =
     map_option (\<lambda>sm. \<lparr>c_shards = shards, c_slots = sm, total_operations = 0, cross_shard_operations = 0,
        migration_operations = 0, failed_operations = 0\<rparr>) (sm_new now (length shards))"

section \<open>Routing\<close>

definition c_record_operation :: "bytes \<Rightarrow> 's cluster \<Rightarrow> 's cluster" where
  "c_record_operation key c =
     c\<lparr>c_slots := record_operation (utf8_lossy key) (c_slots c), total_operations := total_operations c + 1\<rparr>"

definition record_failed_operation :: "'s cluster \<Rightarrow> 's cluster" where
  "record_failed_operation c = c\<lparr>failed_operations := failed_operations c + 1\<rparr>"

definition record_cross_shard_operation :: "'s cluster \<Rightarrow> 's cluster" where
  "record_cross_shard_operation c = c\<lparr>cross_shard_operations := cross_shard_operations c + 1\<rparr>"

definition shard_of :: "'s cluster \<Rightarrow> bytes \<Rightarrow> nat" where
  "shard_of c key = get_key_shard (c_slots c) (utf8_lossy key)"

text \<open>\<open>shard_by_id\<close> followed by a call on the shard.\<close>

definition on_shard :: "nat \<Rightarrow> ('s, 'a) engine_op \<Rightarrow> ('s cluster, 'a) engine_op" where
  "on_shard shard_id op c =
     (if shard_id < length (c_shards c)
      then map_option (\<lambda>(s, r). (c\<lparr>c_shards := (c_shards c)[shard_id := s]\<rparr>, r)) (op (c_shards c ! shard_id))
      else Some (record_failed_operation c, Inl WrongShard))"

definition routed :: "bytes \<Rightarrow> ('s, 'a) engine_op \<Rightarrow> ('s cluster, 'a) engine_op" where
  "routed key op c = (let c = c_record_operation key c in on_shard (shard_of c key) op c)"

section \<open>Several keys\<close>

definition entry_push :: "(nat, 'a list) hash_map \<Rightarrow> nat \<Rightarrow> 'a \<Rightarrow> (nat, 'a list) hash_map" where
  "entry_push groups i x = fst (hm_insert groups i ((case map_of groups i of Some xs \<Rightarrow> xs | None \<Rightarrow> []) @ [x]))"

fun group_keys :: "('a \<Rightarrow> bytes) \<Rightarrow> 'a list \<Rightarrow> (nat, 'a list) hash_map \<times> slot_manager \<Rightarrow> (nat, 'a list) hash_map \<times> slot_manager" where
  "group_keys kf [] w = w"
| "group_keys kf (x # xs) (groups, sm) =
     (let ks = utf8_lossy (kf x) in
      group_keys kf xs (entry_push groups (get_key_shard sm ks) x, record_operation ks sm))"

fun mset_groups :: "'s storage \<Rightarrow> (nat \<times> (bytes \<times> zvalue) list) list \<Rightarrow> ('s cluster, unit) engine_op" where
  "mset_groups st [] = eok ()"
| "mset_groups st ((shard_id, vec) # gs) = ebind (on_shard shard_id (st_mset st vec)) (\<lambda>_. mset_groups st gs)"

definition count_groups :: "'b list \<Rightarrow> 's cluster \<Rightarrow> 's cluster" where
  "count_groups groups c = (if 1 < length groups then record_cross_shard_operation c else c)"

definition cl_mset :: "'s storage \<Rightarrow> (nat, (bytes \<times> zvalue) list) order \<Rightarrow> (bytes \<times> zvalue) list \<Rightarrow> ('s cluster, unit) engine_op" where
  "cl_mset st \<sigma> kvs c =
     (if kvs = [] then Some (c, Inr ())
      else let (groups, sm) = group_keys fst kvs ([], c_slots c) in
        ebind (mset_groups st (hm_iter \<sigma> groups)) (\<lambda>_ c. Some (count_groups groups c, Inr ())) (c\<lparr>c_slots := sm\<rparr>))"

definition put_results :: "(nat \<times> bytes) list \<Rightarrow> zvalue option list \<Rightarrow> zvalue option list \<Rightarrow> zvalue option list" where
  "put_results items shard_results results =
     foldl (\<lambda>results ((i, _), res). results[i := res]) results (zip items shard_results)"

fun mget_groups :: "'s storage \<Rightarrow> (nat \<times> (nat \<times> bytes) list) list \<Rightarrow> zvalue option list \<Rightarrow> ('s cluster, zvalue option list) engine_op" where
  "mget_groups st [] results = eok results"
| "mget_groups st ((shard_id, items) # gs) results =
     ebind (on_shard shard_id (st_mget st (map snd items))) (\<lambda>rs. mget_groups st gs (put_results items rs results))"

definition cl_mget :: "'s storage \<Rightarrow> (nat, (nat \<times> bytes) list) order \<Rightarrow> bytes list \<Rightarrow> ('s cluster, zvalue option list) engine_op" where
  "cl_mget st \<tau> keys c =
     (if keys = [] then Some (c, Inr [])
      else let (groups, sm) = group_keys snd (enumerate 0 keys) ([], c_slots c) in
        ebind (mget_groups st (hm_iter \<tau> groups) (replicate (length keys) None))
          (\<lambda>results c. Some (count_groups groups c, Inr results)) (c\<lparr>c_slots := sm\<rparr>))"

text \<open>\<open>rename\<close> and \<open>renamenx\<close> ask that both keys be on one shard.\<close>

definition cl_on_both :: "('s, 'a) engine_op \<Rightarrow> bytes \<Rightarrow> bytes \<Rightarrow> ('s cluster, 'a) engine_op" where
  "cl_on_both op from_key to_key c =
     (let from_s = shard_of c from_key; to_s = shard_of c to_key;
          c = c\<lparr>c_slots := record_operation (utf8_lossy to_key) (record_operation (utf8_lossy from_key) (c_slots c))\<rparr>
      in if from_s \<noteq> to_s then Some (c, Inl WrongShard) else on_shard from_s op c)"

section \<open>The whole store\<close>

fun flush_shards :: "'s storage \<Rightarrow> nat list \<Rightarrow> ('s cluster, unit) engine_op" where
  "flush_shards st [] = eok ()"
| "flush_shards st (i # is) = ebind (on_shard i (st_flushdb st)) (\<lambda>_. flush_shards st is)"

definition cl_flushdb :: "'s storage \<Rightarrow> nat \<Rightarrow> ('s cluster, unit) engine_op" where
  "cl_flushdb st now c =
     ebind (flush_shards st [0..<length (c_shards c)]) (\<lambda>_ c. Some (c\<lparr>c_slots := reset_metrics now (c_slots c)\<rparr>, Inr ())) c"

fun dbsize_shards :: "'s storage \<Rightarrow> nat list \<Rightarrow> nat \<Rightarrow> ('s cluster, nat) engine_op" where
  "dbsize_shards st [] total_n c = Some (c, Inr total_n)"
| "dbsize_shards st (i # is) total_n c =
     (case on_shard i (st_dbsize st) c of
        None \<Rightarrow> None
      | Some (c, Inr n) \<Rightarrow> dbsize_shards st is (min (total_n + n) (2 ^ 64 - 1)) c
      | Some (c, Inl e) \<Rightarrow> Some (record_failed_operation c, Inl e))"

definition cl_dbsize :: "'s storage \<Rightarrow> ('s cluster, nat) engine_op" where
  "cl_dbsize st c = dbsize_shards st [0..<length (c_shards c)] 0 c"

fun save_shards :: "'s storage \<Rightarrow> nat list \<Rightarrow> bool \<Rightarrow> ('s cluster, bool) engine_op" where
  "save_shards st [] any_saved c = Some (c, Inr any_saved)"
| "save_shards st (i # is) any_saved c =
     (case on_shard i (st_save st) c of
        None \<Rightarrow> None
      | Some (c, Inr u) \<Rightarrow> save_shards st is True c
      | Some (c, Inl (UnsupportedOperation msg)) \<Rightarrow> save_shards st is any_saved c
      | Some (c, Inl e) \<Rightarrow> Some (record_failed_operation c, Inl e))"

definition cl_save :: "'s storage \<Rightarrow> ('s cluster, unit) engine_op" where
  "cl_save st c =
     ebind (save_shards st [0..<length (c_shards c)] False)
       (\<lambda>any_saved. if any_saved then eok () else eerr (UnsupportedOperation ''No shard supports SAVE'')) c"

definition cluster_storage ::
  "'s storage \<Rightarrow> (nat, (bytes \<times> zvalue) list) order \<Rightarrow> (nat, (nat \<times> bytes) list) order \<Rightarrow> nat \<Rightarrow> 's cluster storage" where
  "cluster_storage st \<sigma> \<tau> now =
     \<lparr>st_set = \<lambda>k v. routed k (st_set st k v), st_get = \<lambda>k. routed k (st_get st k), st_del = \<lambda>k. routed k (st_del st k),
      st_mset = cl_mset st \<sigma>, st_mget = cl_mget st \<tau>,
      st_rename = \<lambda>a b. cl_on_both (st_rename st a b) a b, st_renamenx = \<lambda>a b. cl_on_both (st_renamenx st a b) a b,
      st_flushdb = cl_flushdb st now, st_dbsize = cl_dbsize st, st_save = cl_save st,
      st_sadd = \<lambda>k ms. routed k (st_sadd st k ms), st_smembers = \<lambda>k. routed k (st_smembers st k),
      st_scard = \<lambda>k. routed k (st_scard st k), st_sismember = \<lambda>k m. routed k (st_sismember st k m),
      st_srem = \<lambda>k ms. routed k (st_srem st k ms), st_srandmember = \<lambda>k n. routed k (st_srandmember st k n),
      st_spop = \<lambda>k n. routed k (st_spop st k n)\<rparr>"

end
