(* ===== verification/Rebalancer.thy ===== *)
theory Rebalancer
  imports Slot_Machine Rust_Std
begin

text \<open>
  The second planner of migrations (\<open>engine/rebalancer.rs\<close>). \<open>AdvancedRebalancer\<close> shares the slot manager with the
  cluster, plans by the share of operations each shard had, and completes every migration right after it started it.
  The shares are \<open>f64\<close>; \<open>share_ops\<close> adds to \<open>load_ops\<close> what the file uses of them, with \<open>partial_cmp\<close> as an option.
  The duration of an event and the efficiency computed from past events, both reports, are left out.
\<close>

section \<open>State\<close>

record 'f share_ops = "'f load_ops" +
  lo_add :: "'f \<Rightarrow> 'f \<Rightarrow> 'f"
  lo_zero :: 'f
  lo_near :: "'f \<Rightarrow> 'f \<Rightarrow> bool"
  lo_cmp :: "'f \<Rightarrow> 'f \<Rightarrow> cmp_ordering option"

text \<open>\<open>lo_near x y\<close> is \<open>(x - y).abs() < f64::EPSILON\<close>.\<close>

datatype 'f rebalance_trigger =
  LoadImbalance 'f 'f
| HotKeyDetected bytes u64
| ManualTrigger
| ShardAddition
| ShardRemoval

record 'f rebalancer_config =
  load_threshold :: 'f
  hot_key_threshold :: u64
  migration_batch_size :: nat
  cool_down_period :: nat
  enable_consistent_hashing :: bool

record 'f rebalance_event =
  ev_timestamp :: nat
  trigger_reason :: "'f rebalance_trigger"
  migrations_planned :: nat
  migrations_completed :: nat
  load_before :: "(nat, 'f) hash_map"
  load_after :: "(nat, 'f) hash_map"

record 'f rebalancer =
  r_config :: "'f rebalancer_config"
  r_last_rebalance :: nat
  rebalance_history :: "'f rebalance_event list"

text \<open>The default threshold is \<open>1.5\<close>.\<close>

definition default_config :: "'f \<Rightarrow> 'f rebalancer_config" where
  "default_config one_and_a_half =
     \<lparr>load_threshold = one_and_a_half, hot_key_threshold = 100, migration_batch_size = 64, cool_down_period = 60,
      enable_consistent_hashing = False\<rparr>"

definition rebalancer_new :: "nat \<Rightarrow> 'f rebalancer_config \<Rightarrow> 'f rebalancer" where
  "rebalancer_new now config = \<lparr>r_config = config, r_last_rebalance = now, rebalance_history = []\<rparr>"

definition evaluate_rebalancing_need ::
  "('f, 'z) share_ops_scheme \<Rightarrow> nat \<Rightarrow> 'f rebalancer \<Rightarrow> slot_manager \<Rightarrow> 'f rebalance_trigger option panics" where
  "evaluate_rebalancing_need fl now r sm =
     (if now - r_last_rebalance r < cool_down_period (r_config r) then Some None
      else do {
        load_distribution \<leftarrow> get_load_distribution (load_ops.truncate fl) sm;
        if load_distribution = [] then Some None else Some None
      })"

section \<open>Planning\<close>

text \<open>\<open>sort_by\<close> with a comparison that may panic: a stable insertion sort.\<close>

fun insert_by :: "('a \<Rightarrow> 'a \<Rightarrow> cmp_ordering option) \<Rightarrow> 'a \<Rightarrow> 'a list \<Rightarrow> 'a list panics" where
  "insert_by cmp x [] = Some [x]"
| "insert_by cmp x (y # ys) =
     (case cmp x y of
        None \<Rightarrow> None
      | Some Greater \<Rightarrow> map_option ((#) y) (insert_by cmp x ys)
      | Some _ \<Rightarrow> Some (x # y # ys))"

fun sort_by :: "('a \<Rightarrow> 'a \<Rightarrow> cmp_ordering option) \<Rightarrow> 'a list \<Rightarrow> 'a list panics" where
  "sort_by cmp [] = Some []"
| "sort_by cmp (x # xs) = Option.bind (sort_by cmp xs) (insert_by cmp x)"

definition plan_load_based_rebalancing ::
  "('f, 'z) share_ops_scheme \<Rightarrow> (nat, 'f) order \<Rightarrow> 'f rebalancer \<Rightarrow> slot_manager \<Rightarrow> (u16 \<times> nat \<times> nat) list panics" where
  "plan_load_based_rebalancing fl \<sigma> r sm = do {
     dist \<leftarrow> get_load_distribution (load_ops.truncate fl) sm;
     let dist = hm_iter \<sigma> dist;
     let total_load = foldl (lo_add fl) (lo_zero fl) (map snd dist);
     let avg_load = lo_div fl total_load (lo_of fl (of_nat (length dist)));
     let threshold = load_threshold (r_config r);
     let batch = migration_batch_size (r_config r);
     let high = filter (\<lambda>(_, load). lo_lt fl (lo_mul fl avg_load threshold) load) dist;
     let low = filter (\<lambda>(_, load). \<not> lo_lt fl (lo_mul fl avg_load threshold) load \<and>
                          lo_lt fl load (lo_div fl avg_load threshold)) dist;
     high \<leftarrow> sort_by (\<lambda>a b. lo_cmp fl (snd b) (snd a)) high;
     low \<leftarrow> sort_by (\<lambda>a b. lo_cmp fl (snd a) (snd b)) low;
     let pairs = List.product (take (batch div 2) (map fst high)) (take 2 (map fst low));
     Some (take batch (concat (map (\<lambda>(ov, ud). map (\<lambda>slot. (slot, ov, ud))
       (filter (\<lambda>slot. get_slot_shard sm slot = Some ov) (map of_nat [0..<100]))) pairs)))
   }"

fun min_by :: "('f \<Rightarrow> 'f \<Rightarrow> cmp_ordering option) \<Rightarrow> nat \<times> 'f \<Rightarrow> (nat \<times> 'f) list \<Rightarrow> (nat \<times> 'f) panics" where
  "min_by cmp best [] = Some best"
| "min_by cmp best (x # xs) =
     (case cmp (snd best) (snd x) of
        None \<Rightarrow> None
      | Some Greater \<Rightarrow> min_by cmp x xs
      | Some _ \<Rightarrow> min_by cmp best xs)"

text \<open>Indexing the map by the shard of the key panics when it has no entry; over an empty map nothing is looked up.\<close>

definition plan_hot_key_redistribution ::
  "('f, 'z) share_ops_scheme \<Rightarrow> (nat, 'f) order \<Rightarrow> bytes \<Rightarrow> slot_manager \<Rightarrow> (u16 \<times> nat \<times> nat) list panics" where
  "plan_hot_key_redistribution fl \<sigma> hot_key sm = do {
     let slot = calculate_slot hot_key;
     let current_shard = get_key_shard sm hot_key;
     dist \<leftarrow> get_load_distribution (load_ops.truncate fl) sm;
     (case hm_iter \<sigma> dist of
        [] \<Rightarrow> Some []
      | x # xs \<Rightarrow> do {
          here \<leftarrow> map_of dist current_shard;
          if \<forall>(_, load)\<in>set (x # xs). lo_near fl load here then Some []
          else do {
            (target_shard, _) \<leftarrow> min_by (lo_cmp fl) x xs;
            Some (if target_shard \<noteq> current_shard then [(slot, current_shard, target_shard)] else [])
          }
        })
   }"

definition plan_rebalancing ::
  "('f, 'z) share_ops_scheme \<Rightarrow> (nat, 'f) order \<Rightarrow> 'f rebalance_trigger \<Rightarrow> 'f rebalancer \<Rightarrow> slot_manager \<Rightarrow>
   (u16 \<times> nat \<times> nat) list panics" where
  "plan_rebalancing fl \<sigma> trigger r sm =
     (case trigger of
        LoadImbalance _ _ \<Rightarrow> plan_load_based_rebalancing fl \<sigma> r sm
      | HotKeyDetected key _ \<Rightarrow> plan_hot_key_redistribution fl \<sigma> key sm
      | ManualTrigger \<Rightarrow> plan_load_based_rebalancing fl \<sigma> r sm
      | _ \<Rightarrow> Some [])"

section \<open>Execution\<close>

definition migrate :: "nat \<Rightarrow> u16 \<times> nat \<times> nat \<Rightarrow> slot_manager \<times> nat \<Rightarrow> slot_manager \<times> nat" where
  "migrate now m w =
     (let (slot, a, b) = m; (sm, completed) = w in
      case start_slot_migration now slot a b sm of
        (sm, Inl e) \<Rightarrow> (sm, completed)
      | (sm, Inr u) \<Rightarrow>
          (case complete_slot_migration slot sm of
             (sm, Inl e) \<Rightarrow> (sm, completed)
           | (sm, Inr u) \<Rightarrow> (sm, completed + 1)))"

definition migrate_all :: "nat \<Rightarrow> (u16 \<times> nat \<times> nat) list \<Rightarrow> slot_manager \<Rightarrow> slot_manager \<times> nat" where
  "migrate_all now ms sm = fold (migrate now) ms (sm, 0)"

definition execute_rebalancing ::
  "('f, 'z) share_ops_scheme \<Rightarrow> (nat, 'f) order \<Rightarrow> nat \<Rightarrow> 'f rebalance_trigger \<Rightarrow> 'f rebalancer \<times> slot_manager \<Rightarrow>
   (('f rebalancer \<times> slot_manager) \<times> 'f rebalance_event) panics" where
  "execute_rebalancing fl \<sigma> now trigger w = do {
     let (r, sm) = w;
     before \<leftarrow> get_load_distribution (load_ops.truncate fl) sm;
     migrations \<leftarrow> plan_rebalancing fl \<sigma> trigger r sm;
     let (sm, completed) = migrate_all now migrations sm;
     after \<leftarrow> get_load_distribution (load_ops.truncate fl) sm;
     let event = \<lparr>ev_timestamp = now, trigger_reason = trigger, migrations_planned = length migrations,
                  migrations_completed = completed, load_before = before, load_after = after\<rparr>;
     Some ((r\<lparr>rebalance_history := rebalance_history r @ [event], r_last_rebalance := now\<rparr>, sm), event)
   }"

section \<open>What a rebalancing does to the routing\<close>

lemma evaluate_never_triggers: "evaluate_rebalancing_need fl now r sm = Some t \<Longrightarrow> t = None"
  by (auto simp: evaluate_rebalancing_need_def split: if_splits Option.bind_splits)

lemma min_by_mem: "min_by cmp best xs = Some y \<Longrightarrow> y \<in> set (best # xs)"
  by (induction cmp best xs rule: min_by.induct) (auto split: option.splits cmp_ordering.splits)

lemma load_distribution_shards:
  "get_load_distribution fl sm = Some dist \<Longrightarrow> (s, load) \<in> set dist \<Longrightarrow> s < sm_shard_count sm"
  by (auto simp: get_load_distribution_def Let_def split: Option.bind_splits if_splits)

lemma hot_key_plan:
  assumes "plan_hot_key_redistribution fl \<sigma> key sm = Some ms"
  shows "ms = [] \<or> (\<exists>target. ms = [(calculate_slot key, get_key_shard sm key, target)] \<and>
    target \<noteq> get_key_shard sm key \<and> target < sm_shard_count sm)"
proof (cases "ms = []")
  case False
  from assms False obtain dist x xs target load where d: "get_load_distribution (load_ops.truncate fl) sm = Some dist"
    "hm_iter \<sigma> dist = x # xs" "min_by (lo_cmp fl) x xs = Some (target, load)" "target \<noteq> get_key_shard sm key"
    "ms = [(calculate_slot key, get_key_shard sm key, target)]"
    by (auto simp: plan_hot_key_redistribution_def Let_def split: Option.bind_splits list.splits if_splits)
  have "(target, load) \<in> set dist" using min_by_mem [OF d(3)] d(2) hm_iter_facts(1) [of \<sigma> dist] by auto
  then show ?thesis using load_distribution_shards [OF d(1)] d(4,5) by simp
qed simp

lemma migrate_one:
  assumes "migrate now (slot, a, b) (sm, 0) = (sm', 1)"
  shows "get_slot_shard sm' s = (if s = slot then Some b else get_slot_shard sm s)"
proof -
  obtain sm1 u v where sm1: "start_slot_migration now slot a b sm = (sm1, Inr u)" "complete_slot_migration slot sm1 = (sm', Inr v)"
    using assms by (auto simp: migrate_def split: prod.splits sum.splits)
  have "task_for sm1 slot = Some (a, b)" using start_Inr(2) [OF sm1(1)] by simp
  then show ?thesis using complete_Inr [OF sm1(2)] start_Inr(1) [OF sm1(1)] by simp
qed

lemma hot_key_moves:
  assumes "sm_wf n sm" and "execute_rebalancing fl \<sigma> now (HotKeyDetected key k) (r, sm) = Some ((r', sm'), ev)"
    and "migrations_completed ev = 1"
  shows "get_key_shard sm' key \<noteq> get_key_shard sm key \<and> get_key_shard sm' key < n"
proof -
  obtain ms where ms: "plan_hot_key_redistribution fl \<sigma> key sm = Some ms" "migrate_all now ms sm = (sm', 1)"
    using assms(2,3) by (auto simp: execute_rebalancing_def plan_rebalancing_def Let_def split: Option.bind_splits prod.splits)
  have "ms \<noteq> []" using ms(2) by (auto simp: migrate_all_def)
  then obtain b where b: "ms = [(calculate_slot key, get_key_shard sm key, b)]" "b \<noteq> get_key_shard sm key" "b < sm_shard_count sm"
    using hot_key_plan [OF ms(1)] by blast
  then have "get_slot_shard sm' (calculate_slot key) = Some b" using ms(2) migrate_one by (simp add: migrate_all_def)
  then have "get_key_shard sm' key = b" by (simp add: get_key_shard_def)
  then show ?thesis using b assms(1) by (simp add: sm_within_def)
qed

lemma migrate_succeeds:
  assumes "sm_wf n sm" and "unat slot < 16384" and "\<not> migration_active slot sm"
  shows "\<exists>sm'. migrate now (slot, a, b) (sm, 0) = (sm', 1)"
  using migration_succeeds [OF assms, of now a b] by (auto simp: migrate_def)

lemma migrate_wf:
  assumes "sm_within n S sm" and "a \<in> S" and "b \<in> S" and "migrate now (slot, a, b) (sm, x) = (sm', y)"
  shows "sm_within n S sm'"
  using assms(4)
  by (auto simp: migrate_def intro: sm_wf_complete [OF sm_wf_start [OF assms(1-3)]] sm_wf_start [OF assms(1-3)]
      split: prod.splits sum.splits)

lemma execute_hot_key_wf:
  assumes "sm_wf n sm" and "execute_rebalancing fl \<sigma> now (HotKeyDetected key k) (r, sm) = Some ((r', sm'), ev)"
  shows "sm_wf n sm'"
proof -
  obtain ms m where ms: "plan_hot_key_redistribution fl \<sigma> key sm = Some ms" "migrate_all now ms sm = (sm', m)"
    using assms(2) by (auto simp: execute_rebalancing_def plan_rebalancing_def Let_def split: Option.bind_splits prod.splits)
  have "sm_shard_count sm = n" using assms(1) by (simp add: sm_within_def)
  with hot_key_plan [OF ms(1)] consider "ms = []" | b where "ms = [(calculate_slot key, get_key_shard sm key, b)]" "b < n" by blast
  then show ?thesis
  proof cases
    case (2 b)
    then show ?thesis using migrate_wf [OF assms(1) sm_wf_shard [OF assms(1)]] ms(2) by (simp add: migrate_all_def)
  qed (use assms(1) ms(2) in \<open>simp add: migrate_all_def\<close>)
qed

lemma get_load_distribution_cong:
  "shard_ops sm' = shard_ops sm \<Longrightarrow> sm_shard_count sm' = sm_shard_count sm \<Longrightarrow>
   get_load_distribution fl sm' = get_load_distribution fl sm"
  by (simp add: get_load_distribution_def)

lemma migrate_counters:
  assumes "migrate now (slot, a, b) (sm, n) = (sm', m)"
  shows "shard_ops sm' = shard_ops sm \<and> sm_shard_count sm' = sm_shard_count sm"
  using assms
  by (auto simp: migrate_def start_slot_migration_def complete_slot_migration_def assign_def slot_ops_def
      split: if_splits option.splits)

lemma hot_key_runs:
  assumes "sm_wf n sm" and "plan_hot_key_redistribution fl \<sigma> key sm = Some [(slot, a, b)]" and "unat slot < 16384"
    and "\<not> migration_active slot sm"
  shows "\<exists>r' sm' ev. execute_rebalancing fl \<sigma> now (HotKeyDetected key k) (r, sm) = Some ((r', sm'), ev) \<and> migrations_completed ev = 1"
proof -
  obtain sm' where sm': "migrate now (slot, a, b) (sm, 0) = (sm', 1)" using migrate_succeeds [OF assms(1,3,4)] by blast
  obtain dist where dist: "get_load_distribution (load_ops.truncate fl) sm = Some dist"
    using assms(2) by (auto simp: plan_hot_key_redistribution_def Let_def split: Option.bind_splits)
  have "get_load_distribution (load_ops.truncate fl) sm' = Some dist"
    using get_load_distribution_cong migrate_counters [OF sm'] dist by metis
  then show ?thesis using assms(2) sm' dist by (simp add: execute_rebalancing_def plan_rebalancing_def migrate_all_def Let_def)
qed

text \<open>Shares in hundredths, for examples.\<close>

definition percent_shares :: "int share_ops" where
  "percent_shares = \<lparr>lo_of = uint, lo_mul = \<lambda>x y. x * y div 100, lo_div = \<lambda>x y. x * 100 div y, lo_lt = (<), REBALANCE_THRESHOLD = 150,
     lo_add = (+), lo_zero = 0, lo_near = (=), lo_cmp = \<lambda>x y. Some (ord_cmp x y)\<rparr>"

end
