(* ===== verification/Engine.thy ===== *)
theory Engine
  imports Storage
begin

text \<open>
  The contract of a storage engine (\<open>engine/storage.rs\<close>), as the commands rely on it. An engine stands
  for a map from keys to contents; a content is what a value denotes, without the layout of its
  container. The locale \<open>kv_core\<close> has the laws of the operations on single keys and on many, \<open>set_core\<close>
  adds those on sets, \<open>kv_engine\<close> those on renaming, which a cluster does not keep; \<open>set_engine\<close> is both.
  Reading may change the state of an engine, but not what it stands for. \<open>ok\<close> are the values an
  engine can keep.
\<close>

section \<open>Contents\<close>

datatype content =
    CStr bytes
  | CInt i64
  | CFloat u64
  | CBool bool
  | CNull
  | CList "bytes list"
  | CHash "bytes \<rightharpoonup> bytes"
  | CSet "bytes set"
  | CBits bytes
  | CArray "content list"
  | COther zvalue

type_synonym keyspace = "bytes \<rightharpoonup> content"

fun content_of :: "zvalue \<Rightarrow> content" where
  "content_of (Str s) = CStr s"
| "content_of (IntV i) = CInt i"
| "content_of (Float f) = CFloat f"
| "content_of (Bool b) = CBool b"
| "content_of Null = CNull"
| "content_of (List l) = CList (ql_items l)"
| "content_of (Hash h) = CHash (sh_abs h)"
| "content_of (Set s) = CSet (set_of s)"
| "content_of (Bitmap b) = CBits (bm_bytes b)"
| "content_of (Array vs) = CArray (map content_of vs)"
| "content_of v = COther v"

text \<open>The invariants of the containers inside a value, at every level.\<close>

fun value_wf :: "zvalue \<Rightarrow> bool" where
  "value_wf (List l) \<longleftrightarrow> ql_inv l"
| "value_wf (Array vs) \<longleftrightarrow> (\<forall>v\<in>set vs. value_wf v)"
| "value_wf (Hash h) \<longleftrightarrow> sh_inv h"
| "value_wf (ZSet d sl) \<longleftrightarrow> (\<exists>hash. dict_inv hash d) \<and> sl_inv sl"
| "value_wf (Set s) \<longleftrightarrow> hs_ok s"
| "value_wf (HyperLogLog h) \<longleftrightarrow> (\<exists>r. hll_regs HLL_P h r)"
| "value_wf (SStream es) \<longleftrightarrow> (\<forall>e\<in>set es. \<forall>f\<in>set (snd e). value_wf (snd f))"
| "value_wf _ \<longleftrightarrow> True"

lemma content_cases:
  "content_of v = CStr s \<longleftrightarrow> v = Str s"
  "content_of v = CInt i \<longleftrightarrow> v = IntV i"
  "content_of v = CFloat f \<longleftrightarrow> v = Float f"
  "content_of v = CBool b \<longleftrightarrow> v = Bool b"
  "content_of v = CNull \<longleftrightarrow> v = Null"
  "content_of v = CList xs \<longleftrightarrow> (\<exists>l. v = List l \<and> ql_items l = xs)"
  "content_of v = CHash m \<longleftrightarrow> (\<exists>h. v = Hash h \<and> sh_abs h = m)"
  "content_of v = CSet S \<longleftrightarrow> (\<exists>t. v = Set t \<and> set_of t = S)"
  "content_of v = CBits bs \<longleftrightarrow> (\<exists>b. v = Bitmap b \<and> bm_bytes b = bs)"
  by (cases v; auto)+

section \<open>Outcomes\<close>

text \<open>\<open>yields I A m s r ks\<close>: run in \<open>s\<close>, the operation returns \<open>r\<close> and leaves the keyspace \<open>ks\<close>.\<close>

definition yields :: "('s \<Rightarrow> bool) \<Rightarrow> ('s \<Rightarrow> keyspace) \<Rightarrow> ('s, 'a) engine_op \<Rightarrow> 's \<Rightarrow> 'a store_result \<Rightarrow> keyspace \<Rightarrow> bool" where
  "yields I A m s r ks \<longleftrightarrow> (\<exists>s'. m s = Some (s', r) \<and> I s' \<and> A s' = ks)"

lemma yields_same: "m s = Some (s, r) \<Longrightarrow> I s \<Longrightarrow> yields I A m s r (A s)"
  by (simp add: yields_def)

section \<open>The contract\<close>

locale kv_core =
  fixes st :: "'s storage"
    and inv :: "'s \<Rightarrow> bool"
    and abs :: "'s \<Rightarrow> keyspace"
    and ok :: "zvalue \<Rightarrow> bool"
  assumes set_law: "inv s \<Longrightarrow> ok v \<Longrightarrow> value_wf v \<Longrightarrow> yields inv abs (st_set st k v) s (Inr ()) ((abs s)(k \<mapsto> content_of v))"
    and get_law: "inv s \<Longrightarrow>
      \<exists>vo. yields inv abs (st_get st k) s (Inr vo) (abs s) \<and> map_option content_of vo = abs s k \<and> pred_option value_wf vo"
    and del_law: "inv s \<Longrightarrow> yields inv abs (st_del st k) s (Inr (abs s k \<noteq> None)) ((abs s)(k := None))"
    and mset_law: "inv s \<Longrightarrow> \<forall>v \<in> snd ` set kvs. ok v \<and> value_wf v \<Longrightarrow>
      yields inv abs (st_mset st kvs) s (Inr ()) (abs s ++ map_of (rev (map (map_prod id content_of) kvs)))"
    and mget_law: "inv s \<Longrightarrow>
      \<exists>vs. yields inv abs (st_mget st ks) s (Inr vs) (abs s) \<and> map (map_option content_of) vs = map (abs s) ks \<and>
        list_all (pred_option value_wf) vs"
    and flush_law: "inv s \<Longrightarrow> yields inv abs (st_flushdb st) s (Inr ()) Map.empty"

locale kv_engine = kv_core +
  assumes rename_law: "inv s \<Longrightarrow>
      (case abs s a of
         None \<Rightarrow> yields inv abs (st_rename st a b) s (Inl KeyNotFound) (abs s)
       | Some c \<Rightarrow> yields inv abs (st_rename st a b) s (Inr ()) ((abs s)(a := None, b \<mapsto> c)))"
    and renamenx_law: "inv s \<Longrightarrow>
      (case (abs s a, abs s b) of
         (Some c, None) \<Rightarrow> yields inv abs (st_renamenx st a b) s (Inr True) ((abs s)(a := None, b \<mapsto> c))
       | (Some c, Some d) \<Rightarrow> yields inv abs (st_renamenx st a b) s (Inr False) (abs s)
       | (None, None) \<Rightarrow> yields inv abs (st_renamenx st a b) s (Inl KeyNotFound) (abs s)
       | (None, Some d) \<Rightarrow> \<exists>r \<in> {Inr False, Inl KeyNotFound}. yields inv abs (st_renamenx st a b) s r (abs s))"

locale set_core = kv_core +
  assumes sadd_law: "inv s \<Longrightarrow>
      (case abs s k of
         None \<Rightarrow> yields inv abs (st_sadd st k ms) s (Inr (card (set ms))) ((abs s)(k \<mapsto> CSet (set ms)))
       | Some (CSet S) \<Rightarrow> yields inv abs (st_sadd st k ms) s (Inr (card (set ms - S))) ((abs s)(k \<mapsto> CSet (S \<union> set ms)))
       | Some _ \<Rightarrow> \<exists>msg. yields inv abs (st_sadd st k ms) s (Inl (WrongType msg)) (abs s))"
    and srem_law: "inv s \<Longrightarrow>
      (case abs s k of
         None \<Rightarrow> yields inv abs (st_srem st k ms) s (Inr 0) (abs s)
       | Some (CSet S) \<Rightarrow> yields inv abs (st_srem st k ms) s (Inr (card (set ms \<inter> S)))
           ((abs s)(k := if S \<subseteq> set ms then None else Some (CSet (S - set ms))))
       | Some _ \<Rightarrow> \<exists>msg. yields inv abs (st_srem st k ms) s (Inl (WrongType msg)) (abs s))"
    and smembers_law: "inv s \<Longrightarrow>
      (case abs s k of
         None \<Rightarrow> yields inv abs (st_smembers st k) s (Inr []) (abs s)
       | Some (CSet S) \<Rightarrow> \<exists>xs. yields inv abs (st_smembers st k) s (Inr xs) (abs s) \<and> distinct xs \<and> set xs = S
       | Some _ \<Rightarrow> \<exists>msg. yields inv abs (st_smembers st k) s (Inl (WrongType msg)) (abs s))"
    and scard_law: "inv s \<Longrightarrow>
      (case abs s k of
         None \<Rightarrow> yields inv abs (st_scard st k) s (Inr 0) (abs s)
       | Some (CSet S) \<Rightarrow> yields inv abs (st_scard st k) s (Inr (card S)) (abs s)
       | Some _ \<Rightarrow> \<exists>msg. yields inv abs (st_scard st k) s (Inl (WrongType msg)) (abs s))"
    and sismember_law: "inv s \<Longrightarrow>
      (case abs s k of
         None \<Rightarrow> yields inv abs (st_sismember st k x) s (Inr False) (abs s)
       | Some (CSet S) \<Rightarrow> yields inv abs (st_sismember st k x) s (Inr (x \<in> S)) (abs s)
       | Some _ \<Rightarrow> \<exists>msg. yields inv abs (st_sismember st k x) s (Inl (WrongType msg)) (abs s))"
    and srandmember_law: "inv s \<Longrightarrow>
      (case abs s k of
         None \<Rightarrow> yields inv abs (st_srandmember st k n) s (Inr []) (abs s)
       | Some (CSet S) \<Rightarrow> \<exists>xs. yields inv abs (st_srandmember st k n) s (Inr xs) (abs s) \<and> distinct xs \<and> set xs \<subseteq> S \<and>
           length xs = min (nat n) (card S)
       | Some _ \<Rightarrow> \<exists>msg. yields inv abs (st_srandmember st k n) s (Inl (WrongType msg)) (abs s))"
    and spop_law: "inv s \<Longrightarrow>
      (case abs s k of
         None \<Rightarrow> yields inv abs (st_spop st k n) s (Inr []) (abs s)
       | Some (CSet S) \<Rightarrow> \<exists>xs. yields inv abs (st_spop st k n) s (Inr xs)
             ((abs s)(k := if S \<subseteq> set xs then None else Some (CSet (S - set xs)))) \<and>
           distinct xs \<and> set xs \<subseteq> S \<and> length xs = min (pop_count n) (card S)
       | Some _ \<Rightarrow> \<exists>msg. yields inv abs (st_spop st k n) s (Inl (WrongType msg)) (abs s))"

locale set_engine = kv_engine st inv abs ok + set_core st inv abs ok
  for st :: "'s storage" and inv and abs and ok

end
