(* ===== verification/Commands.thy ===== *)
theory Commands
  imports Engine Sds_Numeric
begin

text \<open>
  The commands of \<open>src/command\<close>, one definition per \<open>execute\<close>, over any engine \<open>st\<close>. Keys and texts
  are their bytes. Floating-point arithmetic, the clock, the random choices and the traversal order
  of hash maps are arguments. A command whose body is \<open>unimplemented!\<close> panics. Error texts that are not
  in ASCII are translated.
\<close>

section \<open>Strings (\<open>string.rs\<close>)\<close>

definition set_execute :: "'s storage \<Rightarrow> bytes \<Rightarrow> zvalue \<Rightarrow> ('s, zvalue) engine_op" where
  "set_execute st key v = ebind (st_set st key v) (\<lambda>_. eok Null)"

definition get_execute :: "'s storage \<Rightarrow> bytes \<Rightarrow> ('s, zvalue) engine_op" where
  "get_execute st key = ebind (st_get st key) (\<lambda>vo. case vo of Some v \<Rightarrow> eok v | None \<Rightarrow> eok Null)"

definition setnx_execute :: "'s storage \<Rightarrow> bytes \<Rightarrow> zvalue \<Rightarrow> ('s, zvalue) engine_op" where
  "setnx_execute st key v =
     ebind (st_get st key) (\<lambda>vo.
     if vo = None then ebind (st_set st key v) (\<lambda>_. eok (IntV 1)) else eok (IntV 0))"

definition mset_execute :: "'s storage \<Rightarrow> (bytes \<times> zvalue) list \<Rightarrow> ('s, zvalue) engine_op" where
  "mset_execute st kvs = ebind (st_mset st kvs) (\<lambda>_. eok Null)"

fun mget_strings :: "zvalue option list \<Rightarrow> bytes list store_result" where
  "mget_strings [] = Inr []"
| "mget_strings (Some (Str s) # vs) = map_sum id ((#) s) (mget_strings vs)"
| "mget_strings (Some _ # vs) = Inl (WrongType ''wrong type'')"
| "mget_strings (None # vs) = map_sum id ((#) []) (mget_strings vs)"

definition mget_execute :: "'s storage \<Rightarrow> bytes list \<Rightarrow> ('s, zvalue) engine_op" where
  "mget_execute st keys =
     ebind (st_mget st keys) (\<lambda>values.
     ebind (eresult (mget_strings values)) (\<lambda>vec.
     ebind (elift (push_all ql_ops (ql_new 64) vec)) (\<lambda>list. eok (List list))))"

definition strlen_execute :: "'s storage \<Rightarrow> bytes \<Rightarrow> ('s, zvalue) engine_op" where
  "strlen_execute st key =
     ebind (st_get st key) (\<lambda>vo.
     case vo of
       Some (Str s) \<Rightarrow> eok (IntV (of_nat (length s)))
     | Some _ \<Rightarrow> eerr InvalidType
     | None \<Rightarrow> eok (IntV 0))"

definition append_execute :: "'s storage \<Rightarrow> bytes \<Rightarrow> bytes \<Rightarrow> ('s, zvalue) engine_op" where
  "append_execute st key append_data =
     ebind (st_get st key) (\<lambda>vo.
     case vo of
       Some (Str s) \<Rightarrow>
         (let result = s @ append_data in
          ebind (st_set st key (Str result)) (\<lambda>_. eok (IntV (of_nat (length result)))))
     | Some _ \<Rightarrow> eerr InvalidType
     | None \<Rightarrow> ebind (st_set st key (Str append_data)) (\<lambda>_. eok (IntV (of_nat (length append_data)))))"

text \<open>Indexing a text panics off the boundaries of its characters.\<close>

definition is_char_boundary :: "bytes \<Rightarrow> nat \<Rightarrow> bool" where
  "is_char_boundary s i \<longleftrightarrow> i = 0 \<or> i = length s \<or> (i < length s \<and> \<not> utf8_cont (s ! i))"

definition str_slice :: "bytes \<Rightarrow> nat \<Rightarrow> nat \<Rightarrow> bytes panics" where
  "str_slice s a b = (if is_char_boundary s a \<and> is_char_boundary s b then slice s a b else None)"

text \<open>The arithmetic is in \<open>i64\<close> and cannot overflow, as a length is added to a negative number.\<close>

definition range_bounds :: "nat \<Rightarrow> i64 \<Rightarrow> i64 \<Rightarrow> nat \<times> nat" where
  "range_bounds n start end =
     (let len = int n;
          start = (if sint start < 0 then len + sint start else sint start);
          end = (if sint end < 0 then len + sint end else sint end);
          start = min (max start 0) len;
          end = min (max end start) len
      in (nat start, nat end))"

definition getrange_execute :: "'s storage \<Rightarrow> bytes \<Rightarrow> i64 \<Rightarrow> i64 \<Rightarrow> ('s, zvalue) engine_op" where
  "getrange_execute st key start end =
     ebind (st_get st key) (\<lambda>vo.
     case vo of
       Some (Str s) \<Rightarrow>
         if utf8_valid s then
           (let (a, b) = range_bounds (length s) start end in
            ebind (elift (str_slice s a b)) (\<lambda>result. eok (Str result)))
         else eerr InvalidType
     | Some _ \<Rightarrow> eerr InvalidType
     | None \<Rightarrow> eok Null)"

section \<open>Integers (\<open>int.rs\<close>)\<close>

fun value_to_i64 :: "zvalue \<Rightarrow> i64 store_result" where
  "value_to_i64 (IntV n) = Inr n"
| "value_to_i64 (Str s) = (case to_i64 s of Inr n \<Rightarrow> Inr n | Inl _ \<Rightarrow> Inl InvalidType)"
| "value_to_i64 _ = Inl InvalidType"

definition overflow_err :: store_error where
  "overflow_err = InvalidType"

definition checked :: "int \<Rightarrow> i64 option" where
  "checked i = (if i64_MIN \<le> i \<and> i \<le> i64_MAX then Some (word_of_int i) else None)"

text \<open>The bodies of the four commands differ in the checked operation only.\<close>

definition add_execute :: "(i64 \<Rightarrow> i64 option) \<Rightarrow> 's storage \<Rightarrow> bytes \<Rightarrow> ('s, zvalue) engine_op" where
  "add_execute f st key =
     ebind (st_get st key) (\<lambda>vo.
     ebind (case vo of Some v \<Rightarrow> eresult (value_to_i64 v) | None \<Rightarrow> eok 0) (\<lambda>cur.
     case f cur of
       None \<Rightarrow> eerr overflow_err
     | Some new_val \<Rightarrow> ebind (st_set st key (IntV new_val)) (\<lambda>_. eok (IntV new_val))))"

definition incr_execute :: "'s storage \<Rightarrow> bytes \<Rightarrow> ('s, zvalue) engine_op" where
  "incr_execute = add_execute (\<lambda>n. checked (sint n + 1))"

definition incrby_execute :: "'s storage \<Rightarrow> bytes \<Rightarrow> i64 \<Rightarrow> ('s, zvalue) engine_op" where
  "incrby_execute st key increment = add_execute (\<lambda>n. checked (sint n + sint increment)) st key"

definition decr_execute :: "'s storage \<Rightarrow> bytes \<Rightarrow> ('s, zvalue) engine_op" where
  "decr_execute = add_execute (\<lambda>n. checked (sint n - 1))"

definition decrby_execute :: "'s storage \<Rightarrow> bytes \<Rightarrow> i64 \<Rightarrow> ('s, zvalue) engine_op" where
  "decrby_execute st key decrement = add_execute (\<lambda>n. checked (sint n - sint decrement)) st key"

section \<open>Floats (\<open>float.rs\<close>)\<close>

text \<open>A float is its 64 bits; what the language computes with them is an argument.\<close>

record float_ops =
  f_add :: "u64 \<Rightarrow> u64 \<Rightarrow> u64"
  f_sub :: "u64 \<Rightarrow> u64 \<Rightarrow> u64"
  f_neg :: "u64 \<Rightarrow> u64"
  f_is_nan :: "u64 \<Rightarrow> bool"
  f_is_finite :: "u64 \<Rightarrow> bool"
  f_parse :: "bytes \<Rightarrow> u64 option"
  f_show :: "u64 \<Rightarrow> bytes"

definition incrbyfloat_execute :: "float_ops \<Rightarrow> 's storage \<Rightarrow> bytes \<Rightarrow> u64 \<Rightarrow> ('s, zvalue) engine_op" where
  "incrbyfloat_execute fl st key increment =
     ebind (st_get st key) (\<lambda>vo.
     case vo of
       Some (Float cur) \<Rightarrow>
         (let new_value = f_add fl cur increment in
          ebind (st_set st key (Float new_value)) (\<lambda>_. eok (Float new_value)))
     | Some _ \<Rightarrow> eerr InvalidType
     | None \<Rightarrow> ebind (st_set st key (Float increment)) (\<lambda>_. eok (Float increment)))"

text \<open>No variant of \<open>Command\<close> holds a \<open>DecrByFloatCommand\<close>.\<close>

definition decrbyfloat_execute :: "float_ops \<Rightarrow> 's storage \<Rightarrow> bytes \<Rightarrow> u64 \<Rightarrow> ('s, zvalue) engine_op" where
  "decrbyfloat_execute fl st key decrement =
     ebind (st_get st key) (\<lambda>vo.
     case vo of
       Some (Float cur) \<Rightarrow>
         (let new_value = f_sub fl cur decrement in
          ebind (st_set st key (Float new_value)) (\<lambda>_. eok (Float new_value)))
     | Some _ \<Rightarrow> eerr InvalidType
     | None \<Rightarrow> ebind (st_set st key (Float (f_neg fl decrement))) (\<lambda>_. eok (Float (f_neg fl decrement))))"

definition setfloat_execute :: "'s storage \<Rightarrow> bytes \<Rightarrow> u64 \<Rightarrow> ('s, zvalue) engine_op" where
  "setfloat_execute st key v = ebind (st_set st key (Float v)) (\<lambda>_. eok (Float v))"

section \<open>Keys (\<open>keys.rs\<close>)\<close>

definition del_execute :: "'s storage \<Rightarrow> bytes \<Rightarrow> ('s, zvalue) engine_op" where
  "del_execute st key = ebind (st_del st key) (\<lambda>deleted. eok (Bool deleted))"

text \<open>A key whose value cannot be read counts as absent.\<close>

fun count_existing :: "'s storage \<Rightarrow> bytes list \<Rightarrow> nat \<Rightarrow> ('s, nat) engine_op" where
  "count_existing st [] n s = Some (s, Inr n)"
| "count_existing st (k # ks) n s =
     (case st_get st k s of
        None \<Rightarrow> None
      | Some (s, Inr (Some v)) \<Rightarrow> count_existing st ks (n + 1) s
      | Some (s, _) \<Rightarrow> count_existing st ks n s)"

definition exists_execute :: "'s storage \<Rightarrow> bytes list \<Rightarrow> ('s, zvalue) engine_op" where
  "exists_execute st keys = ebind (count_existing st keys 0) (\<lambda>n. eok (IntV (of_nat n)))"

definition rename_execute :: "'s storage \<Rightarrow> bytes \<Rightarrow> bytes \<Rightarrow> ('s, zvalue) engine_op" where
  "rename_execute st from to = ebind (st_rename st from to) (\<lambda>_. eok (Str []))"

definition renamenx_execute :: "'s storage \<Rightarrow> bytes \<Rightarrow> bytes \<Rightarrow> ('s, zvalue) engine_op" where
  "renamenx_execute st from to = ebind (st_renamenx st from to) (\<lambda>success. eok (IntV (if success then 1 else 0)))"

definition flushdb_execute :: "'s storage \<Rightarrow> ('s, zvalue) engine_op" where
  "flushdb_execute st = ebind (st_flushdb st) (\<lambda>_. eok (Str (ascii ''OK'')))"

section \<open>Lists (\<open>list.rs\<close>)\<close>

definition read_list :: "'s storage \<Rightarrow> bytes \<Rightarrow> ('s, bytes quicklist option) engine_op" where
  "read_list st key =
     ebind (st_get st key) (\<lambda>vo.
     case vo of Some (List l) \<Rightarrow> eok (Some l) | Some _ \<Rightarrow> eerr InvalidType | None \<Rightarrow> eok None)"

definition push_execute ::
  "(bytes quicklist \<Rightarrow> bytes \<Rightarrow> bytes quicklist panics) \<Rightarrow> 's storage \<Rightarrow> bytes \<Rightarrow> bytes \<Rightarrow> ('s, zvalue) engine_op" where
  "push_execute push st key element =
     ebind (read_list st key) (\<lambda>lo.
     ebind (elift (push (case lo of Some l \<Rightarrow> l | None \<Rightarrow> ql_new 64) element)) (\<lambda>l.
     ebind (st_set st key (List l)) (\<lambda>_. eok (IntV (of_nat (ql_len l))))))"

definition lpush_execute :: "'s storage \<Rightarrow> bytes \<Rightarrow> bytes \<Rightarrow> ('s, zvalue) engine_op" where
  "lpush_execute = push_execute ql_push_front"

definition rpush_execute :: "'s storage \<Rightarrow> bytes \<Rightarrow> bytes \<Rightarrow> ('s, zvalue) engine_op" where
  "rpush_execute = push_execute ql_push_back"

definition pop_execute ::
  "(bytes quicklist \<Rightarrow> (bytes option \<times> bytes quicklist) panics) \<Rightarrow> 's storage \<Rightarrow> bytes \<Rightarrow> ('s, zvalue) engine_op" where
  "pop_execute pop st key =
     ebind (read_list st key) (\<lambda>lo.
     case lo of
       None \<Rightarrow> eok Null
     | Some l \<Rightarrow> ebind (elift (pop l)) (\<lambda>(elem, l).
         case elem of
           Some x \<Rightarrow> ebind (st_set st key (List l)) (\<lambda>_. eok (Str x))
         | None \<Rightarrow> eok Null))"

definition lpop_execute :: "'s storage \<Rightarrow> bytes \<Rightarrow> ('s, zvalue) engine_op" where
  "lpop_execute = pop_execute ql_pop_front"

definition rpop_execute :: "'s storage \<Rightarrow> bytes \<Rightarrow> ('s, zvalue) engine_op" where
  "rpop_execute = pop_execute ql_pop_back"

definition llen_execute :: "'s storage \<Rightarrow> bytes \<Rightarrow> ('s, zvalue) engine_op" where
  "llen_execute st key =
     ebind (read_list st key) (\<lambda>lo. eok (IntV (case lo of Some l \<Rightarrow> of_nat (ql_len l) | None \<Rightarrow> 0)))"

text \<open>The bounds are cast to \<open>usize\<close>; on an empty list the upper one is \<open>-1\<close> before the cast.\<close>

definition as_usize :: "int \<Rightarrow> nat" where
  "as_usize i = (if i < 0 then nat (2 ^ 64 + i) else nat i)"

definition lrange_bounds :: "nat \<Rightarrow> i64 \<Rightarrow> i64 \<Rightarrow> nat \<times> nat" where
  "lrange_bounds n start stop =
     (let len = int n;
          s = as_usize (if sint start < 0 then max (len + sint start) 0 else min (sint start) len);
          e = as_usize (if sint stop < 0 then max (len + sint stop) 0 else min (sint stop) (len - 1))
      in (s, min e (n - 1)))"

fun collect_range :: "bytes quicklist \<Rightarrow> nat list \<Rightarrow> bytes list \<Rightarrow> bytes list panics" where
  "collect_range l [] vec = Some vec"
| "collect_range l (i # is) vec = do {
     (elem, l) \<leftarrow> ql_get l i;
     collect_range l is (case elem of Some x \<Rightarrow> vec @ [x] | None \<Rightarrow> vec)
   }"

definition lrange_execute :: "'s storage \<Rightarrow> bytes \<Rightarrow> i64 \<Rightarrow> i64 \<Rightarrow> ('s, zvalue) engine_op" where
  "lrange_execute st key start stop =
     ebind (read_list st key) (\<lambda>lo.
     case lo of
       None \<Rightarrow> eok Null
     | Some l \<Rightarrow>
         (let (s, e) = lrange_bounds (ql_len l) start stop in
          ebind (elift (collect_range l [s..<e + 1] [])) (\<lambda>vec.
          ebind (elift (ql_from_iter vec 64)) (\<lambda>ql. eok (List ql)))))"

definition lset_execute :: "bytes \<Rightarrow> i64 \<Rightarrow> bytes \<Rightarrow> ('s, zvalue) engine_op" where
  "lset_execute key index v = epanic"

definition lrem_execute :: "bytes \<Rightarrow> i64 \<Rightarrow> bytes \<Rightarrow> ('s, zvalue) engine_op" where
  "lrem_execute key cnt v = epanic"

section \<open>Sets (\<open>set.rs\<close>)\<close>

definition sadd_execute :: "'s storage \<Rightarrow> bytes \<Rightarrow> bytes \<Rightarrow> ('s, zvalue) engine_op" where
  "sadd_execute st key member = ebind (st_sadd st key [member]) (\<lambda>added. eok (IntV (of_nat added)))"

definition srem_execute :: "'s storage \<Rightarrow> bytes \<Rightarrow> bytes \<Rightarrow> ('s, zvalue) engine_op" where
  "srem_execute st key member = ebind (st_srem st key [member]) (\<lambda>removed. eok (IntV (of_nat removed)))"

definition scard_execute :: "'s storage \<Rightarrow> bytes \<Rightarrow> ('s, zvalue) engine_op" where
  "scard_execute st key = ebind (st_scard st key) (\<lambda>n. eok (IntV (of_nat n)))"

definition smembers_execute :: "'s storage \<Rightarrow> bytes \<Rightarrow> ('s, zvalue) engine_op" where
  "smembers_execute st key =
     ebind (st_get st key) (\<lambda>vo.
     case vo of
       Some (Set _) \<Rightarrow>
         ebind (st_smembers st key) (\<lambda>members. ebind (elift (ql_from_iter members 64)) (\<lambda>list. eok (List list)))
     | Some Null \<Rightarrow> eok Null
     | None \<Rightarrow> eok Null
     | Some _ \<Rightarrow> eerr (WrongType ''SMEMBERS on non-set key''))"

definition sismember_execute :: "'s storage \<Rightarrow> bytes \<Rightarrow> bytes \<Rightarrow> ('s, zvalue) engine_op" where
  "sismember_execute st key member = ebind (st_sismember st key member) (\<lambda>b. eok (IntV (if b then 1 else 0)))"

definition members_reply :: "bytes list \<Rightarrow> ('s, zvalue) engine_op" where
  "members_reply members =
     (if members = [] then eok Null else ebind (elift (ql_from_iter members 64)) (\<lambda>list. eok (List list)))"

definition srandmember_execute :: "'s storage \<Rightarrow> bytes \<Rightarrow> int \<Rightarrow> ('s, zvalue) engine_op" where
  "srandmember_execute st key cnt =
     ebind (st_get st key) (\<lambda>vo.
     if vo = None \<or> vo = Some Null then eok Null else ebind (st_srandmember st key cnt) members_reply)"

definition spop_execute :: "'s storage \<Rightarrow> bytes \<Rightarrow> int \<Rightarrow> ('s, zvalue) engine_op" where
  "spop_execute st key cnt =
     ebind (st_get st key) (\<lambda>vo.
     if vo = None \<or> vo = Some Null then eok Null else ebind (st_spop st key cnt) members_reply)"

definition sinter_execute :: "bytes list \<Rightarrow> ('s, zvalue) engine_op" where
  "sinter_execute keys = epanic"

definition sunion_execute :: "bytes list \<Rightarrow> ('s, zvalue) engine_op" where
  "sunion_execute keys = epanic"

definition sdiff_execute :: "bytes list \<Rightarrow> ('s, zvalue) engine_op" where
  "sdiff_execute keys = epanic"

section \<open>Hashes (\<open>hash.rs\<close>)\<close>

definition read_hash :: "'s storage \<Rightarrow> bytes \<Rightarrow> ('s, (bytes, bytes) smart_hash option) engine_op" where
  "read_hash st key =
     ebind (st_get st key) (\<lambda>vo.
     case vo of Some (Hash h) \<Rightarrow> eok (Some h) | Some _ \<Rightarrow> eerr InvalidType | None \<Rightarrow> eok None)"

fun insert_fields ::
  "(bytes, bytes) order \<Rightarrow> (bytes \<times> bytes) list \<Rightarrow> (bytes, bytes) smart_hash \<times> nat \<Rightarrow> (bytes, bytes) smart_hash \<times> nat" where
  "insert_fields \<sigma> [] w = w"
| "insert_fields \<sigma> ((f, v) # fvs) (sh, added) =
     (let (sh, new) = sh_insert \<sigma> sh f v in insert_fields \<sigma> fvs (sh, if new then added + 1 else added))"

definition hset_execute :: "(bytes, bytes) order \<Rightarrow> 's storage \<Rightarrow> bytes \<Rightarrow> (bytes \<times> bytes) list \<Rightarrow> ('s, zvalue) engine_op" where
  "hset_execute \<sigma> st key fvs =
     ebind (read_hash st key) (\<lambda>ho.
     let (sh, added) = insert_fields \<sigma> fvs (case ho of Some h \<Rightarrow> h | None \<Rightarrow> sh_new, 0) in
     ebind (st_set st key (Hash sh)) (\<lambda>_. eok (IntV (of_nat added))))"

definition hget_execute :: "'s storage \<Rightarrow> bytes \<Rightarrow> bytes \<Rightarrow> ('s, zvalue) engine_op" where
  "hget_execute st key field =
     ebind (read_hash st key) (\<lambda>ho.
     eok (case ho of Some h \<Rightarrow> (case sh_get h field of Some v \<Rightarrow> Str v | None \<Rightarrow> Null) | None \<Rightarrow> Null))"

definition hmget_execute :: "'s storage \<Rightarrow> bytes \<Rightarrow> bytes list \<Rightarrow> ('s, zvalue) engine_op" where
  "hmget_execute st key fs =
     ebind (read_hash st key) (\<lambda>ho.
     eok (Array (case ho of
            Some h \<Rightarrow> map (\<lambda>f. case sh_get h f of Some v \<Rightarrow> Str v | None \<Rightarrow> Null) fs
          | None \<Rightarrow> replicate (length fs) Null)))"

fun remove_fields :: "bytes list \<Rightarrow> (bytes, bytes) smart_hash \<times> nat \<Rightarrow> (bytes, bytes) smart_hash \<times> nat" where
  "remove_fields [] w = w"
| "remove_fields (f # fs) (sh, removed) =
     (let (sh, was) = sh_remove sh f in remove_fields fs (sh, if was then removed + 1 else removed))"

definition hdel_execute :: "'s storage \<Rightarrow> bytes \<Rightarrow> bytes list \<Rightarrow> ('s, zvalue) engine_op" where
  "hdel_execute st key fs =
     ebind (read_hash st key) (\<lambda>ho.
     case ho of
       None \<Rightarrow> eok (IntV 0)
     | Some h \<Rightarrow>
         (let (sh, removed) = remove_fields fs (h, 0) in
          if sh_is_empty sh then ebind (st_del st key) (\<lambda>_. eok (IntV (of_nat removed)))
          else ebind (st_set st key (Hash sh)) (\<lambda>_. eok (IntV (of_nat removed)))))"

definition hexists_execute :: "'s storage \<Rightarrow> bytes \<Rightarrow> bytes \<Rightarrow> ('s, zvalue) engine_op" where
  "hexists_execute st key field =
     ebind (read_hash st key) (\<lambda>ho.
     eok (IntV (case ho of Some h \<Rightarrow> if sh_contains h field then 1 else 0 | None \<Rightarrow> 0)))"

definition hlen_execute :: "'s storage \<Rightarrow> bytes \<Rightarrow> ('s, zvalue) engine_op" where
  "hlen_execute st key =
     ebind (read_hash st key) (\<lambda>ho. eok (IntV (case ho of Some h \<Rightarrow> of_nat (sh_len h) | None \<Rightarrow> 0)))"

definition list_reply :: "bytes list \<Rightarrow> ('s, zvalue) engine_op" where
  "list_reply xs = ebind (elift (ql_from_iter xs 64)) (\<lambda>ql. eok (List ql))"

definition hkeys_execute :: "(bytes, bytes) order \<Rightarrow> 's storage \<Rightarrow> bytes \<Rightarrow> ('s, zvalue) engine_op" where
  "hkeys_execute \<sigma> st key =
     ebind (read_hash st key) (\<lambda>ho. list_reply (case ho of Some h \<Rightarrow> sh_keys \<sigma> h | None \<Rightarrow> []))"

definition hvals_execute :: "(bytes, bytes) order \<Rightarrow> 's storage \<Rightarrow> bytes \<Rightarrow> ('s, zvalue) engine_op" where
  "hvals_execute \<sigma> st key =
     ebind (read_hash st key) (\<lambda>ho. list_reply (case ho of Some h \<Rightarrow> sh_values \<sigma> h | None \<Rightarrow> []))"

text \<open>\<open>sort_by_key\<close> is stable.\<close>

fun insert_by_key :: "bytes \<times> bytes \<Rightarrow> (bytes \<times> bytes) list \<Rightarrow> (bytes \<times> bytes) list" where
  "insert_by_key e [] = [e]"
| "insert_by_key e (x # xs) = (if slice_cmp (fst e) (fst x) \<le> 0 then e # x # xs else x # insert_by_key e xs)"

definition sort_by_key :: "(bytes \<times> bytes) list \<Rightarrow> (bytes \<times> bytes) list" where
  "sort_by_key xs = foldr insert_by_key xs []"

definition flat :: "(bytes \<times> bytes) list \<Rightarrow> bytes list" where
  "flat xs = concat (map (\<lambda>(k, v). [k, v]) xs)"

definition hgetall_execute :: "(bytes, bytes) order \<Rightarrow> 's storage \<Rightarrow> bytes \<Rightarrow> ('s, zvalue) engine_op" where
  "hgetall_execute \<sigma> st key =
     ebind (read_hash st key) (\<lambda>ho.
     case ho of Some h \<Rightarrow> list_reply (flat (sort_by_key (fst (sh_iter \<sigma> h)))) | None \<Rightarrow> eok Null)"

text \<open>The choices of the crate \<open>rand\<close> over the entries, numbered by the draw.\<close>

definition fields_reply :: "bool \<Rightarrow> (bytes \<times> bytes) list \<Rightarrow> ('s, zvalue) engine_op" where
  "fields_reply with_values items = list_reply (if with_values then flat items else map fst items)"

definition hrandfield_execute ::
  "(nat \<Rightarrow> (bytes \<times> bytes) list \<Rightarrow> (bytes \<times> bytes) option) \<Rightarrow> ((bytes \<times> bytes) list \<Rightarrow> nat \<Rightarrow> (bytes \<times> bytes) list) \<Rightarrow>
   (bytes, bytes) order \<Rightarrow> 's storage \<Rightarrow> bytes \<Rightarrow> i64 option \<Rightarrow> bool \<Rightarrow> ('s, zvalue) engine_op" where
  "hrandfield_execute pick pick_multiple \<sigma> st key cnt with_values =
     ebind (read_hash st key) (\<lambda>ho.
     case ho of
       Some h \<Rightarrow>
         (let es = sh_entries \<sigma> h in
          case cnt of
            Some c \<Rightarrow>
              if sint c < 0 then fields_reply with_values (List.map_filter (\<lambda>i. pick i es) [0..<nat (- sint c)])
              else fields_reply with_values (pick_multiple es (min (nat (sint c)) (length es)))
          | None \<Rightarrow> eok (case pick 0 es of Some (f, _) \<Rightarrow> Str f | None \<Rightarrow> Null))
     | None \<Rightarrow> (case cnt of Some _ \<Rightarrow> list_reply [] | None \<Rightarrow> eok Null))"

definition field_i64 :: "bytes option \<Rightarrow> i64 store_result" where
  "field_i64 vo =
     (case vo of
        None \<Rightarrow> Inr 0
      | Some v \<Rightarrow>
          if utf8_valid v then (case parse_i64 v of Some n \<Rightarrow> Inr n | None \<Rightarrow> Inl InvalidValue) else Inl InvalidValue)"

definition hincrby_execute :: "(bytes, bytes) order \<Rightarrow> 's storage \<Rightarrow> bytes \<Rightarrow> bytes \<Rightarrow> i64 \<Rightarrow> ('s, zvalue) engine_op" where
  "hincrby_execute \<sigma> st key field increment =
     ebind (read_hash st key) (\<lambda>ho.
     let h = (case ho of Some h \<Rightarrow> h | None \<Rightarrow> sh_new) in
     ebind (eresult (field_i64 (sh_get h field))) (\<lambda>cur.
     case checked (sint cur + sint increment) of
       None \<Rightarrow> eerr store_error.Overflow
     | Some new_value \<Rightarrow>
         ebind (st_set st key (Hash (fst (sh_insert \<sigma> h field (show_int (sint new_value)))))) (\<lambda>_.
         eok (IntV new_value))))"

definition hincrbyfloat_execute ::
  "float_ops \<Rightarrow> (bytes, bytes) order \<Rightarrow> 's storage \<Rightarrow> bytes \<Rightarrow> bytes \<Rightarrow> u64 \<Rightarrow> ('s, zvalue) engine_op" where
  "hincrbyfloat_execute fl \<sigma> st key field increment =
     ebind (read_hash st key) (\<lambda>ho.
     let h = (case ho of Some h \<Rightarrow> h | None \<Rightarrow> sh_new) in
     ebind (case sh_get h field of
              None \<Rightarrow> eok 0
            | Some v \<Rightarrow> if utf8_valid v then (case f_parse fl v of Some x \<Rightarrow> eok x | None \<Rightarrow> eerr InvalidValue) else eerr InvalidValue)
       (\<lambda>cur.
     if f_is_nan fl increment then eerr InvalidValue
     else let new_value = f_add fl cur increment in
       if \<not> f_is_finite fl new_value then eerr InvalidValue
       else ebind (st_set st key (Hash (fst (sh_insert \<sigma> h field (f_show fl new_value))))) (\<lambda>_. eok (Float new_value))))"

section \<open>Bitmaps (\<open>bitmap.rs\<close>)\<close>

definition setbit_execute :: "'s storage \<Rightarrow> bytes \<Rightarrow> nat \<Rightarrow> bool \<Rightarrow> ('s, zvalue) engine_op" where
  "setbit_execute st key offset v =
     ebind (st_get st key) (\<lambda>vo.
     ebind (elift (set_bit_bm (case vo of Some (Bitmap b) \<Rightarrow> b | _ \<Rightarrow> bm_new) offset v)) (\<lambda>(old, bmp).
     ebind (st_set st key (Bitmap bmp)) (\<lambda>_. eok (IntV (if old then 1 else 0)))))"

definition getbit_execute :: "'s storage \<Rightarrow> bytes \<Rightarrow> nat \<Rightarrow> ('s, zvalue) engine_op" where
  "getbit_execute st key offset =
     ebind (st_get st key) (\<lambda>vo.
     ebind (case vo of Some (Bitmap b) \<Rightarrow> elift (get_bit_bm b offset) | _ \<Rightarrow> eok False) (\<lambda>b.
     eok (IntV (if b then 1 else 0))))"

definition bitcount_execute :: "cpu_features \<Rightarrow> 's storage \<Rightarrow> bytes \<Rightarrow> nat \<Rightarrow> nat \<Rightarrow> ('s, zvalue) engine_op" where
  "bitcount_execute cpu st key start end =
     ebind (st_get st key) (\<lambda>vo.
     ebind (case vo of Some (Bitmap b) \<Rightarrow> elift (bm_bitcount cpu b start end) | _ \<Rightarrow> eok 0) (\<lambda>n.
     eok (IntV (of_nat n))))"

fun read_bitmaps :: "'s storage \<Rightarrow> bytes list \<Rightarrow> ('s, bitmap list) engine_op" where
  "read_bitmaps st [] = eok []"
| "read_bitmaps st (k # ks) =
     ebind (st_get st k) (\<lambda>vo.
     ebind (read_bitmaps st ks) (\<lambda>bs.
     eok (case vo of Some (Bitmap b) \<Rightarrow> b # bs | _ \<Rightarrow> bs)))"

definition bitop_result :: "bytes \<Rightarrow> bitmap list \<Rightarrow> bitmap option" where
  "bitop_result op bitmaps =
     (let fold = (\<lambda>f. case bitmaps of [] \<Rightarrow> bm_new | b # bs \<Rightarrow> foldl f b bs) in
      if op = ascii ''NOT'' then Some (bm_not (case bitmaps of [] \<Rightarrow> bm_new | b # _ \<Rightarrow> b))
      else if op = ascii ''AND'' then Some (fold bm_and)
      else if op = ascii ''OR'' then Some (fold bm_or)
      else if op = ascii ''XOR'' then Some (fold bm_xor)
      else None)"

definition bitop_execute :: "'s storage \<Rightarrow> bytes \<Rightarrow> bytes \<Rightarrow> bytes list \<Rightarrow> ('s, zvalue) engine_op" where
  "bitop_execute st op dest keys =
     ebind (read_bitmaps st keys) (\<lambda>bitmaps.
     case bitop_result op bitmaps of
       None \<Rightarrow> eerr (Syntax ''Unknown BITOP'' op)
     | Some result \<Rightarrow> ebind (st_set st dest (Bitmap result)) (\<lambda>_. eok (IntV (of_nat (bit_len result)))))"

definition bitpos_execute :: "bytes \<Rightarrow> bool \<Rightarrow> nat option \<Rightarrow> nat option \<Rightarrow> ('s, zvalue) engine_op" where
  "bitpos_execute key b start end = epanic"

section \<open>Server (\<open>server.rs\<close>)\<close>

definition ping_execute :: "bytes option \<Rightarrow> ('s, zvalue) engine_op" where
  "ping_execute message = eok (Str (case message of Some msg \<Rightarrow> msg | None \<Rightarrow> ascii ''PONG''))"

definition echo_execute :: "bytes \<Rightarrow> ('s, zvalue) engine_op" where
  "echo_execute message = eok (Str message)"

definition dbsize_execute :: "'s storage \<Rightarrow> ('s, zvalue) engine_op" where
  "dbsize_execute st = ebind (st_dbsize st) (\<lambda>n. eok (IntV (of_nat n)))"

definition time_execute :: "u64 \<Rightarrow> u32 \<Rightarrow> ('s, zvalue) engine_op" where
  "time_execute secs micros = eok (Array [IntV (ucast secs), IntV (ucast micros)])"

definition select_execute :: "nat \<Rightarrow> ('s, zvalue) engine_op" where
  "select_execute db =
     (if db = 0 then eok (Str (ascii ''OK''))
      else eerr (InvalidArgument ''DB index is out of range. Zumic supports only DB 0, got '' (show_nat db)))"

definition save_execute :: "'s storage \<Rightarrow> ('s, zvalue) engine_op" where
  "save_execute st = ebind (st_save st) (\<lambda>_. eok (Str (ascii ''OK'')))"

definition bgsave_execute :: "'s storage \<Rightarrow> ('s, zvalue) engine_op" where
  "bgsave_execute st = ebind (st_save st) (\<lambda>_. eok (Str (ascii ''Background saving started'')))"

definition shutdown_execute :: "'s storage \<Rightarrow> bool \<Rightarrow> ('s, zvalue) engine_op" where
  "shutdown_execute st save = ebind (if save then st_save st else eok ()) (\<lambda>_. eerr ServerShutdown)"

text \<open>\<open>INFO\<close>: a failure to count the keys counts none.\<close>

definition info_lines :: "string list \<Rightarrow> bytes" where
  "info_lines ls = concat (map (\<lambda>l. ascii l @ [0x0D, 0x0A]) ls)"

definition info_execute :: "'s storage \<Rightarrow> bytes option \<Rightarrow> ('s, zvalue) engine_op" where
  "info_execute st sec =
     (if sec = None \<or> sec = Some (ascii ''server'') then
        eok (Str (info_lines [''# Server'', ''zumic_version:0.4.0'', ''zumic_mode:standalone'', ''os:Linux'', ''arch_bits:64'']))
      else if sec = Some (ascii ''memory'') then
        eok (Str (info_lines [''# Memory'', ''used_memory:0'', ''used_memory_human:0B'']))
      else if sec = Some (ascii ''stats'') then
        (\<lambda>s. case st_dbsize st s of
           None \<Rightarrow> None
         | Some (s, r) \<Rightarrow>
             (let dbsize = (case r of Inr n \<Rightarrow> n | Inl _ \<Rightarrow> 0) in
              Some (s, Inr (Str (info_lines [''# Stats''] @ ascii ''total_keys:'' @ show_nat dbsize @
                [0x0D, 0x0A] @ info_lines [''total_commands_processed:0''])))))
      else eerr (InvalidArgument ''Unknown section: '' (the sec)))"

section \<open>Authentication and subscriptions (\<open>auth.rs\<close>, \<open>pubsub.rs\<close>)\<close>

definition auth_execute :: "'s storage \<Rightarrow> bytes \<Rightarrow> bytes \<Rightarrow> ('s, zvalue) engine_op" where
  "auth_execute st user pass =
     ebind (st_get st (ascii ''user:'' @ user)) (\<lambda>vo.
     case vo of
       Some (Str stored_password) \<Rightarrow>
         if \<not> utf8_valid stored_password then eerr InvalidType
         else if stored_password = pass then eok (Str (ascii ''AUTH_OK''))
         else eok (Str (ascii ''AUTH_FAILED''))
     | Some _ \<Rightarrow> eerr InvalidType
     | None \<Rightarrow> eok (Str (ascii ''USER_NOT_FOUND'')))"

definition subscribe_execute :: "bytes list \<Rightarrow> ('s, zvalue) engine_op" where
  "subscribe_execute channels = eok Null"

definition unsubscribe_execute :: "bytes list \<Rightarrow> ('s, zvalue) engine_op" where
  "unsubscribe_execute channels = eok Null"

definition publish_execute :: "bytes \<Rightarrow> zvalue \<Rightarrow> ('s, zvalue) engine_op" where
  "publish_execute channel message = eok (IntV 1)"

section \<open>Dispatch (\<open>execute.rs\<close>)\<close>

text \<open>
  What a run takes from its surroundings: floating-point arithmetic, the traversal order of hash maps,
  the processor's features, the draws of the crate \<open>rand\<close> and the clock.
\<close>

record cenv =
  c_fl :: float_ops
  c_order :: "(bytes, bytes) order"
  c_cpu :: cpu_features
  c_pick :: "nat \<Rightarrow> (bytes \<times> bytes) list \<Rightarrow> (bytes \<times> bytes) option"
  c_pick_multiple :: "(bytes \<times> bytes) list \<Rightarrow> nat \<Rightarrow> (bytes \<times> bytes) list"
  c_secs :: u64
  c_micros :: u32

text \<open>
  The variants of \<open>Command\<close> with the fields of their structures, grouped by the file of the structure,
  the five geo commands apart. The variants whose \<open>execute\<close> is \<open>unimplemented!\<close> in the files \<open>zset.rs\<close>,
  \<open>stream.rs\<close>, \<open>timeseries.rs\<close>, \<open>hll.rs\<close> and \<open>pubsub.rs\<close> are \<open>Unimplemented\<close>, with what \<open>key\<close> returns for
  them. \<open>AUTH\<close> and the subscriptions stand with the server commands.
\<close>

datatype string_command =
    SetCommand bytes zvalue | GetCommand bytes | SetNxCommand bytes zvalue
  | MSetCommand "(bytes \<times> zvalue) list" | MGetCommand "bytes list" | StrLenCommand bytes
  | AppendCommand bytes bytes | GetRangeCommand bytes i64 i64

datatype int_command =
    IncrCommand bytes | IncrByCommand bytes i64 | DecrCommand bytes | DecrByCommand bytes i64

text \<open>The variant \<open>Decrbyfloat\<close> holds a \<open>DecrByCommand\<close>, the decrement of an integer.\<close>

datatype float_command =
    IncrByFloatCommand bytes u64 | Decrbyfloat bytes i64 | SetFloatCommand bytes u64

datatype keys_command =
    DelCommand bytes | ExistsCommand "bytes list" | RenameCommand bytes bytes
  | RenameNxCommand bytes bytes | FlushDbCommand

datatype list_command =
    LSetCommand bytes i64 bytes | LRemCommand bytes i64 bytes | LPushCommand bytes bytes
  | RPushCommand bytes bytes | LPopCommand bytes | RPopCommand bytes | LLenCommand bytes
  | LRangeCommand bytes i64 i64

datatype set_command =
    SAddCommand bytes bytes | SRemCommand bytes bytes | SCardCommand bytes | SMembersCommand bytes
  | SIsMemberCommand bytes bytes | SRandMemberCommand bytes int | SPopCommand bytes int
  | SInterCommand "bytes list" | SUnionCommand "bytes list" | SDiffCommand "bytes list"

datatype hash_command =
    HSetCommand bytes "(bytes \<times> bytes) list" | HGetCommand bytes bytes
  | HmGetCommand bytes "bytes list" | HDelCommand bytes "bytes list" | HExistsCommand bytes bytes
  | HLenCommand bytes | HKeysCommand bytes | HValsCommand bytes | HGetAllCommand bytes
  | HRandFieldCommand bytes "i64 option" bool | HIncrByCommand bytes bytes i64
  | HIncrByFloatCommand bytes bytes u64

datatype bitmap_command =
    SetBitCommand bytes nat bool | GetBitCommand bytes nat | BitCountCommand bytes nat nat
  | BitOpCommand bytes bytes "bytes list" | BitPosCommand bytes bool "nat option" "nat option"

datatype server_command =
    PingCommand "bytes option" | EchoCommand bytes | DbSizeCommand | InfoCommand "bytes option"
  | TimeCommand | SelectCommand nat | SaveCommand | BgSaveCommand | ShutdownCommand bool
  | AuthCommand bytes bytes | SubscribeCommand "bytes list" | UnsubscribeCommand "bytes list"
  | PublishCommand bytes zvalue

datatype command =
    Strings string_command | Ints int_command | Floats float_command | Keys keys_command | Lists list_command
  | Sets set_command | Hashes hash_command | Bitmaps bitmap_command | Server server_command
  | Unimplemented "bytes option"

text \<open>The \<open>match\<close> of \<open>execute\<close>; the tracker of slow queries around it only logs.\<close>

fun execute_string :: "'s storage \<Rightarrow> string_command \<Rightarrow> ('s, zvalue) engine_op" where
  "execute_string st (SetCommand k v) = set_execute st k v"
| "execute_string st (GetCommand k) = get_execute st k"
| "execute_string st (SetNxCommand k v) = setnx_execute st k v"
| "execute_string st (MSetCommand kvs) = mset_execute st kvs"
| "execute_string st (MGetCommand ks) = mget_execute st ks"
| "execute_string st (StrLenCommand k) = strlen_execute st k"
| "execute_string st (AppendCommand k x) = append_execute st k x"
| "execute_string st (GetRangeCommand k i j) = getrange_execute st k i j"

fun execute_int :: "'s storage \<Rightarrow> int_command \<Rightarrow> ('s, zvalue) engine_op" where
  "execute_int st (IncrCommand k) = incr_execute st k"
| "execute_int st (IncrByCommand k i) = incrby_execute st k i"
| "execute_int st (DecrCommand k) = decr_execute st k"
| "execute_int st (DecrByCommand k i) = decrby_execute st k i"

fun execute_float :: "cenv \<Rightarrow> 's storage \<Rightarrow> float_command \<Rightarrow> ('s, zvalue) engine_op" where
  "execute_float e st (IncrByFloatCommand k x) = incrbyfloat_execute (c_fl e) st k x"
| "execute_float e st (Decrbyfloat k i) = decrby_execute st k i"
| "execute_float e st (SetFloatCommand k x) = setfloat_execute st k x"

fun execute_keys :: "'s storage \<Rightarrow> keys_command \<Rightarrow> ('s, zvalue) engine_op" where
  "execute_keys st (DelCommand k) = del_execute st k"
| "execute_keys st (ExistsCommand ks) = exists_execute st ks"
| "execute_keys st (RenameCommand a b) = rename_execute st a b"
| "execute_keys st (RenameNxCommand a b) = renamenx_execute st a b"
| "execute_keys st FlushDbCommand = flushdb_execute st"

fun execute_list :: "'s storage \<Rightarrow> list_command \<Rightarrow> ('s, zvalue) engine_op" where
  "execute_list st (LSetCommand k i x) = lset_execute k i x"
| "execute_list st (LRemCommand k i x) = lrem_execute k i x"
| "execute_list st (LPushCommand k x) = lpush_execute st k x"
| "execute_list st (RPushCommand k x) = rpush_execute st k x"
| "execute_list st (LPopCommand k) = lpop_execute st k"
| "execute_list st (RPopCommand k) = rpop_execute st k"
| "execute_list st (LLenCommand k) = llen_execute st k"
| "execute_list st (LRangeCommand k i j) = lrange_execute st k i j"

fun execute_set :: "'s storage \<Rightarrow> set_command \<Rightarrow> ('s, zvalue) engine_op" where
  "execute_set st (SAddCommand k x) = sadd_execute st k x"
| "execute_set st (SRemCommand k x) = srem_execute st k x"
| "execute_set st (SCardCommand k) = scard_execute st k"
| "execute_set st (SMembersCommand k) = smembers_execute st k"
| "execute_set st (SIsMemberCommand k x) = sismember_execute st k x"
| "execute_set st (SRandMemberCommand k n) = srandmember_execute st k n"
| "execute_set st (SPopCommand k n) = spop_execute st k n"
| "execute_set st (SInterCommand ks) = sinter_execute ks"
| "execute_set st (SUnionCommand ks) = sunion_execute ks"
| "execute_set st (SDiffCommand ks) = sdiff_execute ks"

fun execute_hash :: "cenv \<Rightarrow> 's storage \<Rightarrow> hash_command \<Rightarrow> ('s, zvalue) engine_op" where
  "execute_hash e st (HSetCommand k fvs) = hset_execute (c_order e) st k fvs"
| "execute_hash e st (HGetCommand k f) = hget_execute st k f"
| "execute_hash e st (HmGetCommand k fs) = hmget_execute st k fs"
| "execute_hash e st (HDelCommand k fs) = hdel_execute st k fs"
| "execute_hash e st (HExistsCommand k f) = hexists_execute st k f"
| "execute_hash e st (HLenCommand k) = hlen_execute st k"
| "execute_hash e st (HKeysCommand k) = hkeys_execute (c_order e) st k"
| "execute_hash e st (HValsCommand k) = hvals_execute (c_order e) st k"
| "execute_hash e st (HGetAllCommand k) = hgetall_execute (c_order e) st k"
| "execute_hash e st (HRandFieldCommand k n w) = hrandfield_execute (c_pick e) (c_pick_multiple e) (c_order e) st k n w"
| "execute_hash e st (HIncrByCommand k f i) = hincrby_execute (c_order e) st k f i"
| "execute_hash e st (HIncrByFloatCommand k f x) = hincrbyfloat_execute (c_fl e) (c_order e) st k f x"

fun execute_bitmap :: "cenv \<Rightarrow> 's storage \<Rightarrow> bitmap_command \<Rightarrow> ('s, zvalue) engine_op" where
  "execute_bitmap e st (SetBitCommand k i b) = setbit_execute st k i b"
| "execute_bitmap e st (GetBitCommand k i) = getbit_execute st k i"
| "execute_bitmap e st (BitCountCommand k i j) = bitcount_execute (c_cpu e) st k i j"
| "execute_bitmap e st (BitOpCommand op d ks) = bitop_execute st op d ks"
| "execute_bitmap e st (BitPosCommand k b i j) = bitpos_execute k b i j"

fun execute_server :: "cenv \<Rightarrow> 's storage \<Rightarrow> server_command \<Rightarrow> ('s, zvalue) engine_op" where
  "execute_server e st (PingCommand m) = ping_execute m"
| "execute_server e st (EchoCommand m) = echo_execute m"
| "execute_server e st DbSizeCommand = dbsize_execute st"
| "execute_server e st (InfoCommand sec) = info_execute st sec"
| "execute_server e st TimeCommand = time_execute (c_secs e) (c_micros e)"
| "execute_server e st (SelectCommand n) = select_execute n"
| "execute_server e st SaveCommand = save_execute st"
| "execute_server e st BgSaveCommand = bgsave_execute st"
| "execute_server e st (ShutdownCommand b) = shutdown_execute st b"
| "execute_server e st (AuthCommand u p) = auth_execute st u p"
| "execute_server e st (SubscribeCommand cs) = subscribe_execute cs"
| "execute_server e st (UnsubscribeCommand cs) = unsubscribe_execute cs"
| "execute_server e st (PublishCommand c m) = publish_execute c m"

fun execute :: "cenv \<Rightarrow> 's storage \<Rightarrow> command \<Rightarrow> ('s, zvalue) engine_op" where
  "execute e st (Strings c) = execute_string st c"
| "execute e st (Ints c) = execute_int st c"
| "execute e st (Floats c) = execute_float e st c"
| "execute e st (Keys c) = execute_keys st c"
| "execute e st (Lists c) = execute_list st c"
| "execute e st (Sets c) = execute_set st c"
| "execute e st (Hashes c) = execute_hash e st c"
| "execute e st (Bitmaps c) = execute_bitmap e st c"
| "execute e st (Server c) = execute_server e st c"
| "execute e st (Unimplemented k) = epanic"

definition first_key :: "bytes list \<Rightarrow> bytes option" where
  "first_key ks = (case ks of [] \<Rightarrow> None | k # _ \<Rightarrow> Some k)"

fun key_string :: "string_command \<Rightarrow> bytes option" where
  "key_string (SetCommand k v) = Some k"
| "key_string (GetCommand k) = Some k"
| "key_string (SetNxCommand k v) = Some k"
| "key_string (MSetCommand kvs) = first_key (map fst kvs)"
| "key_string (MGetCommand ks) = first_key ks"
| "key_string (StrLenCommand k) = Some k"
| "key_string (AppendCommand k x) = Some k"
| "key_string (GetRangeCommand k i j) = Some k"

fun key_int :: "int_command \<Rightarrow> bytes option" where
  "key_int (IncrCommand k) = Some k"
| "key_int (IncrByCommand k i) = Some k"
| "key_int (DecrCommand k) = Some k"
| "key_int (DecrByCommand k i) = Some k"

fun key_float :: "float_command \<Rightarrow> bytes option" where
  "key_float (IncrByFloatCommand k x) = Some k"
| "key_float (Decrbyfloat k i) = Some k"
| "key_float (SetFloatCommand k x) = Some k"

fun key_keys :: "keys_command \<Rightarrow> bytes option" where
  "key_keys (DelCommand k) = Some k"
| "key_keys (ExistsCommand ks) = first_key ks"
| "key_keys (RenameCommand a b) = Some a"
| "key_keys (RenameNxCommand a b) = Some a"
| "key_keys FlushDbCommand = None"

fun key_list :: "list_command \<Rightarrow> bytes option" where
  "key_list (LSetCommand k i x) = Some k"
| "key_list (LRemCommand k i x) = Some k"
| "key_list (LPushCommand k x) = Some k"
| "key_list (RPushCommand k x) = Some k"
| "key_list (LPopCommand k) = Some k"
| "key_list (RPopCommand k) = Some k"
| "key_list (LLenCommand k) = Some k"
| "key_list (LRangeCommand k i j) = Some k"

fun key_set :: "set_command \<Rightarrow> bytes option" where
  "key_set (SAddCommand k x) = Some k"
| "key_set (SRemCommand k x) = Some k"
| "key_set (SCardCommand k) = Some k"
| "key_set (SMembersCommand k) = Some k"
| "key_set (SIsMemberCommand k x) = Some k"
| "key_set (SRandMemberCommand k n) = Some k"
| "key_set (SPopCommand k n) = Some k"
| "key_set (SInterCommand ks) = first_key ks"
| "key_set (SUnionCommand ks) = first_key ks"
| "key_set (SDiffCommand ks) = first_key ks"

fun key_hash :: "hash_command \<Rightarrow> bytes option" where
  "key_hash (HSetCommand k fvs) = Some k"
| "key_hash (HGetCommand k f) = Some k"
| "key_hash (HmGetCommand k fs) = Some k"
| "key_hash (HDelCommand k fs) = Some k"
| "key_hash (HExistsCommand k f) = Some k"
| "key_hash (HLenCommand k) = Some k"
| "key_hash (HKeysCommand k) = Some k"
| "key_hash (HValsCommand k) = Some k"
| "key_hash (HGetAllCommand k) = Some k"
| "key_hash (HRandFieldCommand k n w) = Some k"
| "key_hash (HIncrByCommand k f i) = Some k"
| "key_hash (HIncrByFloatCommand k f x) = Some k"

fun key_bitmap :: "bitmap_command \<Rightarrow> bytes option" where
  "key_bitmap (SetBitCommand k i b) = Some k"
| "key_bitmap (GetBitCommand k i) = Some k"
| "key_bitmap (BitCountCommand k i j) = Some k"
| "key_bitmap (BitOpCommand op d ks) = first_key ks"
| "key_bitmap (BitPosCommand k b i j) = Some k"

fun key_server :: "server_command \<Rightarrow> bytes option" where
  "key_server (PingCommand m) = None"
| "key_server (EchoCommand m) = None"
| "key_server DbSizeCommand = None"
| "key_server (InfoCommand sec) = None"
| "key_server TimeCommand = None"
| "key_server (SelectCommand n) = None"
| "key_server SaveCommand = None"
| "key_server BgSaveCommand = None"
| "key_server (ShutdownCommand b) = None"
| "key_server (AuthCommand u p) = None"
| "key_server (SubscribeCommand cs) = None"
| "key_server (UnsubscribeCommand cs) = None"
| "key_server (PublishCommand c m) = None"

fun key :: "command \<Rightarrow> bytes option" where
  "key (Strings c) = key_string c"
| "key (Ints c) = key_int c"
| "key (Floats c) = key_float c"
| "key (Keys c) = key_keys c"
| "key (Lists c) = key_list c"
| "key (Sets c) = key_set c"
| "key (Hashes c) = key_hash c"
| "key (Bitmaps c) = key_bitmap c"
| "key (Server c) = key_server c"
| "key (Unimplemented k) = k"

end
