(* ===== verification/Command_Spec.thy ===== *)
theory Command_Spec
  imports Commands
begin

text \<open>
  What the commands promise, over a plain map from keys to contents: \<open>spec e c ks r ks'\<close> says that the
  command \<open>c\<close> may answer \<open>r\<close> and leave \<open>ks'\<close> when the keyspace is \<open>ks\<close>. Lists are lists, hashes are
  maps, sets are sets, bitmaps are sequences of bits and counters are integers; no container of the code
  occurs. The relation is not a function where the code lists a hash or a set in an order of its own
  or draws at random. \<open>crashes\<close> are the commands whose code panics.
\<close>

type_synonym outcome = "content store_result \<Rightarrow> keyspace \<Rightarrow> bool"

definition gives :: "content store_result \<Rightarrow> keyspace \<Rightarrow> outcome" where
  "gives r ks r' ks' \<longleftrightarrow> r' = r \<and> ks' = ks"

abbreviation number :: "nat \<Rightarrow> content store_result" where
  "number n \<equiv> Inr (CInt (of_nat n))"

abbreviation truth :: "bool \<Rightarrow> content store_result" where
  "truth b \<equiv> Inr (CInt (if b then 1 else 0))"

text \<open>Reading with a type: an absent key is empty, another type is an error.\<close>

definition typed :: "(content \<Rightarrow> 'a option) \<Rightarrow> store_error \<Rightarrow> bytes \<Rightarrow> keyspace \<Rightarrow> ('a option \<Rightarrow> outcome) \<Rightarrow> outcome" where
  "typed read err k ks f =
     (case ks k of
        None \<Rightarrow> f None
      | Some c \<Rightarrow> (case read c of None \<Rightarrow> gives (Inl err) ks | Some x \<Rightarrow> f (Some x)))"

fun as_str where "as_str (CStr s) = Some s" | "as_str _ = None"
fun as_list where "as_list (CList xs) = Some xs" | "as_list _ = None"
fun as_hash where "as_hash (CHash m) = Some m" | "as_hash _ = None"
fun as_float where "as_float (CFloat f) = Some f" | "as_float _ = None"
fun as_bits where "as_bits (CBits bs) = Some bs" | "as_bits _ = None"

section \<open>Strings, numbers and keys\<close>

definition spec_mget :: "keyspace \<Rightarrow> bytes list \<Rightarrow> content store_result" where
  "spec_mget ks keys =
     (if \<forall>k\<in>set keys. \<forall>c. ks k = Some c \<longrightarrow> as_str c \<noteq> None
      then Inr (CList (map (\<lambda>k. case ks k of Some (CStr s) \<Rightarrow> s | _ \<Rightarrow> []) keys))
      else Inl (WrongType ''wrong type''))"

text \<open>The part of a text from one position up to another; negative positions count from the end.\<close>

definition from_end :: "nat \<Rightarrow> i64 \<Rightarrow> int" where
  "from_end n i = (if sint i < 0 then max (int n + sint i) 0 else sint i)"

definition part :: "'a list \<Rightarrow> int \<Rightarrow> int \<Rightarrow> 'a list" where
  "part xs a b = take (nat (b - a)) (drop (nat a) xs)"

fun spec_string :: "string_command \<Rightarrow> keyspace \<Rightarrow> outcome" where
  "spec_string (SetCommand k v) ks = gives (Inr CNull) (ks(k \<mapsto> content_of v))"
| "spec_string (GetCommand k) ks = gives (Inr (case ks k of Some c \<Rightarrow> c | None \<Rightarrow> CNull)) ks"
| "spec_string (SetNxCommand k v) ks =
     (if ks k = None then gives (number 1) (ks(k \<mapsto> content_of v)) else gives (number 0) ks)"
| "spec_string (MSetCommand kvs) ks = gives (Inr CNull) (ks ++ map_of (rev (map (map_prod id content_of) kvs)))"
| "spec_string (MGetCommand keys) ks = gives (spec_mget ks keys) ks"
| "spec_string (StrLenCommand k) ks =
     typed as_str InvalidType k ks (\<lambda>so. gives (number (case so of Some s \<Rightarrow> length s | None \<Rightarrow> 0)) ks)"
| "spec_string (AppendCommand k x) ks =
     typed as_str InvalidType k ks (\<lambda>so.
       let t = (case so of Some s \<Rightarrow> s | None \<Rightarrow> []) @ x in gives (number (length t)) (ks(k \<mapsto> CStr t)))"
| "spec_string (GetRangeCommand k i j) ks =
     typed as_str InvalidType k ks (\<lambda>so.
       case so of
         None \<Rightarrow> gives (Inr CNull) ks
       | Some s \<Rightarrow> if utf8_valid s then gives (Inr (CStr (part s (from_end (length s) i) (from_end (length s) j)))) ks
                   else gives (Inl InvalidType) ks)"

text \<open>The number a key stands for: an integer, a text that reads as one, or zero.\<close>

fun as_number :: "content \<Rightarrow> int option" where
  "as_number (CInt n) = Some (sint n)"
| "as_number (CStr s) = parse_int i64_MIN i64_MAX s"
| "as_number _ = None"

definition spec_count :: "(int \<Rightarrow> int) \<Rightarrow> bytes \<Rightarrow> keyspace \<Rightarrow> outcome" where
  "spec_count f k ks =
     typed as_number InvalidType k ks (\<lambda>no.
       let i = f (case no of Some n \<Rightarrow> n | None \<Rightarrow> 0) in
       if i64_MIN \<le> i \<and> i \<le> i64_MAX then gives (Inr (CInt (word_of_int i))) (ks(k \<mapsto> CInt (word_of_int i)))
       else gives (Inl InvalidType) ks)"

fun spec_int :: "int_command \<Rightarrow> keyspace \<Rightarrow> outcome" where
  "spec_int (IncrCommand k) = spec_count (\<lambda>n. n + 1) k"
| "spec_int (IncrByCommand k i) = spec_count (\<lambda>n. n + sint i) k"
| "spec_int (DecrCommand k) = spec_count (\<lambda>n. n - 1) k"
| "spec_int (DecrByCommand k i) = spec_count (\<lambda>n. n - sint i) k"

definition spec_accum :: "(u64 option \<Rightarrow> u64) \<Rightarrow> bytes \<Rightarrow> keyspace \<Rightarrow> outcome" where
  "spec_accum f k ks = typed as_float InvalidType k ks (\<lambda>xo. gives (Inr (CFloat (f xo))) (ks(k \<mapsto> CFloat (f xo))))"

fun spec_float :: "cenv \<Rightarrow> float_command \<Rightarrow> keyspace \<Rightarrow> outcome" where
  "spec_float e (IncrByFloatCommand k d) = spec_accum (\<lambda>xo. case xo of Some x \<Rightarrow> f_add (c_fl e) x d | None \<Rightarrow> d) k"
| "spec_float e (Decrbyfloat k i) = spec_count (\<lambda>n. n - sint i) k"
| "spec_float e (SetFloatCommand k x) = (\<lambda>ks. gives (Inr (CFloat x)) (ks(k \<mapsto> CFloat x)))"

fun spec_keys :: "keys_command \<Rightarrow> keyspace \<Rightarrow> outcome" where
  "spec_keys (DelCommand k) ks = gives (Inr (CBool (ks k \<noteq> None))) (ks(k := None))"
| "spec_keys (ExistsCommand keys) ks = gives (number (length (filter (\<lambda>k. ks k \<noteq> None) keys))) ks"
| "spec_keys (RenameCommand a b) ks =
     (case ks a of
        None \<Rightarrow> gives (Inl KeyNotFound) ks
      | Some c \<Rightarrow> gives (Inr (CStr [])) (ks(a := None, b \<mapsto> c)))"
| "spec_keys (RenameNxCommand a b) ks =
     (case (ks a, ks b) of
        (Some c, None) \<Rightarrow> gives (number 1) (ks(a := None, b \<mapsto> c))
      | (Some c, Some d) \<Rightarrow> gives (number 0) ks
      | (None, None) \<Rightarrow> gives (Inl KeyNotFound) ks
      | (None, Some d) \<Rightarrow> (\<lambda>r ks'. r \<in> {number 0, Inl KeyNotFound} \<and> ks' = ks))"
| "spec_keys FlushDbCommand ks = gives (Inr (CStr (ascii ''OK''))) Map.empty"

section \<open>Lists and sets\<close>

definition spec_push :: "(bytes list \<Rightarrow> bytes list) \<Rightarrow> bytes \<Rightarrow> keyspace \<Rightarrow> outcome" where
  "spec_push f k ks =
     typed as_list InvalidType k ks (\<lambda>xo.
       let xs = f (case xo of Some xs \<Rightarrow> xs | None \<Rightarrow> []) in gives (number (length xs)) (ks(k \<mapsto> CList xs)))"

definition spec_pop :: "(bytes list \<Rightarrow> bytes) \<Rightarrow> (bytes list \<Rightarrow> bytes list) \<Rightarrow> bytes \<Rightarrow> keyspace \<Rightarrow> outcome" where
  "spec_pop elem rest k ks =
     typed as_list InvalidType k ks (\<lambda>xo.
       case xo of
         None \<Rightarrow> gives (Inr CNull) ks
       | Some xs \<Rightarrow> if xs = [] then gives (Inr CNull) ks else gives (Inr (CStr (elem xs))) (ks(k \<mapsto> CList (rest xs))))"

text \<open>The last position of \<open>LRANGE\<close> is included; a position before the first is the first.\<close>

fun spec_list :: "list_command \<Rightarrow> keyspace \<Rightarrow> outcome" where
  "spec_list (LPushCommand k x) = spec_push (\<lambda>xs. x # xs) k"
| "spec_list (RPushCommand k x) = spec_push (\<lambda>xs. xs @ [x]) k"
| "spec_list (LPopCommand k) = spec_pop hd tl k"
| "spec_list (RPopCommand k) = spec_pop last butlast k"
| "spec_list (LLenCommand k) =
     (\<lambda>ks. typed as_list InvalidType k ks (\<lambda>xo. gives (number (case xo of Some xs \<Rightarrow> length xs | None \<Rightarrow> 0)) ks))"
| "spec_list (LRangeCommand k i j) =
     (\<lambda>ks. typed as_list InvalidType k ks (\<lambda>xo.
        gives (Inr (case xo of
            Some xs \<Rightarrow> CList (part xs (from_end (length xs) i) (from_end (length xs) j + 1))
          | None \<Rightarrow> CNull)) ks))"
| "spec_list _ = (\<lambda>ks r ks'. False)"

text \<open>The storage engine words the error for another type.\<close>

definition on_set :: "bytes \<Rightarrow> keyspace \<Rightarrow> outcome \<Rightarrow> (bytes set \<Rightarrow> outcome) \<Rightarrow> outcome" where
  "on_set k ks absent f =
     (case ks k of
        None \<Rightarrow> absent
      | Some (CSet S) \<Rightarrow> f S
      | Some _ \<Rightarrow> (\<lambda>r ks'. (\<exists>msg. r = Inl (WrongType msg)) \<and> ks' = ks))"

definition unless_null :: "bytes \<Rightarrow> keyspace \<Rightarrow> outcome \<Rightarrow> outcome" where
  "unless_null k ks f = (if ks k = Some CNull then gives (Inr CNull) ks else f)"

definition listing :: "bytes list \<Rightarrow> content store_result" where
  "listing xs = Inr (if xs = [] then CNull else CList xs)"

fun spec_set :: "set_command \<Rightarrow> keyspace \<Rightarrow> outcome" where
  "spec_set (SAddCommand k x) ks =
     on_set k ks (gives (number 1) (ks(k \<mapsto> CSet {x}))) (\<lambda>S. gives (truth (x \<notin> S)) (ks(k \<mapsto> CSet (insert x S))))"
| "spec_set (SRemCommand k x) ks =
     on_set k ks (gives (number 0) ks) (\<lambda>S. gives (truth (x \<in> S)) (ks(k := if S \<subseteq> {x} then None else Some (CSet (S - {x})))))"
| "spec_set (SCardCommand k) ks = on_set k ks (gives (number 0) ks) (\<lambda>S. gives (number (card S)) ks)"
| "spec_set (SMembersCommand k) ks = unless_null k ks
     (on_set k ks (gives (Inr CNull) ks) (\<lambda>S r ks'. ks' = ks \<and> (\<exists>xs. r = Inr (CList xs) \<and> distinct xs \<and> set xs = S)))"
| "spec_set (SIsMemberCommand k x) ks = on_set k ks (gives (number 0) ks) (\<lambda>S. gives (truth (x \<in> S)) ks)"
| "spec_set (SRandMemberCommand k n) ks = unless_null k ks
     (on_set k ks (gives (Inr CNull) ks) (\<lambda>S r ks'. ks' = ks \<and>
        (\<exists>xs. r = listing xs \<and> distinct xs \<and> set xs \<subseteq> S \<and> length xs = min (nat n) (card S))))"
| "spec_set (SPopCommand k n) ks = unless_null k ks
     (on_set k ks (gives (Inr CNull) ks) (\<lambda>S r ks'.
        \<exists>xs. r = listing xs \<and> distinct xs \<and> set xs \<subseteq> S \<and> length xs = min (pop_count n) (card S) \<and>
          ks' = ks(k := if S \<subseteq> set xs then None else Some (CSet (S - set xs)))))"
| "spec_set _ ks = (\<lambda>r ks'. False)"

section \<open>Hashes\<close>

abbreviation fields_at :: "(bytes \<rightharpoonup> bytes) option \<Rightarrow> bytes \<rightharpoonup> bytes" where
  "fields_at mo \<equiv> (case mo of Some m \<Rightarrow> m | None \<Rightarrow> Map.empty)"

definition field_reply :: "bytes option \<Rightarrow> content" where
  "field_reply vo = (case vo of Some v \<Rightarrow> CStr v | None \<Rightarrow> CNull)"

text \<open>A listing of a map: each field once.\<close>

definition lists_map :: "(bytes \<times> bytes) list \<Rightarrow> (bytes \<rightharpoonup> bytes) \<Rightarrow> bool" where
  "lists_map es m \<longleftrightarrow> distinct (map fst es) \<and> map_of es = m"

definition spec_hrand :: "i64 option \<Rightarrow> bool \<Rightarrow> (bytes \<rightharpoonup> bytes) \<Rightarrow> content \<Rightarrow> bool" where
  "spec_hrand cnt w m c =
     (case cnt of
        None \<Rightarrow> if m = Map.empty then c = CNull else \<exists>f\<in>dom m. c = CStr f
      | Some n \<Rightarrow>
          (\<exists>es. c = CList (if w then flat es else map fst es) \<and> (\<forall>(f, v)\<in>set es. m f = Some v) \<and>
             (if sint n < 0 then length es = (if m = Map.empty then 0 else nat (- sint n))
              else distinct (map fst es) \<and> length es = min (nat (sint n)) (card (dom m)))))"

fun spec_hash :: "cenv \<Rightarrow> hash_command \<Rightarrow> keyspace \<Rightarrow> outcome" where
  "spec_hash e (HSetCommand k fvs) ks =
     typed as_hash InvalidType k ks (\<lambda>mo.
       gives (number (card (fst ` set fvs - dom (fields_at mo)))) (ks(k \<mapsto> CHash (fields_at mo ++ map_of (rev fvs)))))"
| "spec_hash e (HGetCommand k f) ks =
     typed as_hash InvalidType k ks (\<lambda>mo. gives (Inr (field_reply (fields_at mo f))) ks)"
| "spec_hash e (HmGetCommand k fs) ks =
     typed as_hash InvalidType k ks (\<lambda>mo. gives (Inr (CArray (map (\<lambda>f. field_reply (fields_at mo f)) fs))) ks)"
| "spec_hash e (HDelCommand k fs) ks =
     typed as_hash InvalidType k ks (\<lambda>mo.
       case mo of
         None \<Rightarrow> gives (number 0) ks
       | Some m \<Rightarrow>
           gives (number (card (set fs \<inter> dom m)))
             (ks(k := if dom m \<subseteq> set fs then None else Some (CHash (m |` (- set fs))))))"
| "spec_hash e (HExistsCommand k f) ks =
     typed as_hash InvalidType k ks (\<lambda>mo. gives (truth (f \<in> dom (fields_at mo))) ks)"
| "spec_hash e (HLenCommand k) ks =
     typed as_hash InvalidType k ks (\<lambda>mo. gives (number (card (dom (fields_at mo)))) ks)"
| "spec_hash e (HKeysCommand k) ks =
     typed as_hash InvalidType k ks (\<lambda>mo r ks'. ks' = ks \<and> (\<exists>es. lists_map es (fields_at mo) \<and> r = Inr (CList (map fst es))))"
| "spec_hash e (HValsCommand k) ks =
     typed as_hash InvalidType k ks (\<lambda>mo r ks'. ks' = ks \<and> (\<exists>es. lists_map es (fields_at mo) \<and> r = Inr (CList (map snd es))))"
| "spec_hash e (HGetAllCommand k) ks =
     typed as_hash InvalidType k ks (\<lambda>mo.
       case mo of
         None \<Rightarrow> gives (Inr CNull) ks
       | Some m \<Rightarrow> (\<lambda>r ks'. ks' = ks \<and> (\<exists>es. lists_map es m \<and> r = Inr (CList (flat es)) \<and>
           sorted_wrt (\<lambda>a b. slice_cmp (fst a) (fst b) < 0) es)))"
| "spec_hash e (HRandFieldCommand k n w) ks =
     typed as_hash InvalidType k ks (\<lambda>mo r ks'. ks' = ks \<and> (\<exists>c. r = Inr c \<and> spec_hrand n w (fields_at mo) c))"
| "spec_hash e (HIncrByCommand k f i) ks =
     typed as_hash InvalidType k ks (\<lambda>mo.
       let m = fields_at mo in
       case (case m f of Some t \<Rightarrow> parse_int i64_MIN i64_MAX t | None \<Rightarrow> Some 0) of
         None \<Rightarrow> gives (Inl InvalidValue) ks
       | Some n \<Rightarrow>
           if i64_MIN \<le> n + sint i \<and> n + sint i \<le> i64_MAX
           then gives (Inr (CInt (word_of_int (n + sint i)))) (ks(k \<mapsto> CHash (m(f \<mapsto> show_int (n + sint i)))))
           else gives (Inl store_error.Overflow) ks)"
| "spec_hash e (HIncrByFloatCommand k f x) ks =
     typed as_hash InvalidType k ks (\<lambda>mo.
       let m = fields_at mo; fl = c_fl e in
       case (case m f of Some t \<Rightarrow> if utf8_valid t then f_parse fl t else None | None \<Rightarrow> Some 0) of
         None \<Rightarrow> gives (Inl InvalidValue) ks
       | Some y \<Rightarrow>
           if f_is_nan fl x \<or> \<not> f_is_finite fl (f_add fl y x) then gives (Inl InvalidValue) ks
           else gives (Inr (CFloat (f_add fl y x))) (ks(k \<mapsto> CHash (m(f \<mapsto> f_show fl (f_add fl y x))))))"

section \<open>Bitmaps and the server\<close>

text \<open>A key that is absent or not a bitmap is an empty bitmap.\<close>

definition bit_at :: "bytes \<Rightarrow> nat \<Rightarrow> bool" where
  "bit_at bs i = bm_bit \<lparr>bm_bytes = bs\<rparr> i"

definition bits_at :: "bytes \<Rightarrow> keyspace \<Rightarrow> bytes" where
  "bits_at k ks = (case ks k of Some (CBits bs) \<Rightarrow> bs | _ \<Rightarrow> [])"

definition spec_bitop :: "bytes \<Rightarrow> bytes list \<Rightarrow> bytes \<Rightarrow> bool" where
  "spec_bitop op bss res \<longleftrightarrow>
     (if bss = [] then res = []
      else if op = ascii ''NOT'' then length res = length (hd bss) \<and> (\<forall>i < 8 * length res. bit_at res i \<longleftrightarrow> \<not> bit_at (hd bss) i)
      else if op = ascii ''AND'' then length res = Min (length ` set bss) \<and> (\<forall>i. bit_at res i \<longleftrightarrow> (\<forall>bs\<in>set bss. bit_at bs i))
      else if op = ascii ''OR'' then length res = Max (length ` set bss) \<and> (\<forall>i. bit_at res i \<longleftrightarrow> (\<exists>bs\<in>set bss. bit_at bs i))
      else length res = Max (length ` set bss) \<and> (\<forall>i. bit_at res i \<longleftrightarrow> odd (length (filter (\<lambda>bs. bit_at bs i) bss))))"

fun spec_bitmap :: "bitmap_command \<Rightarrow> keyspace \<Rightarrow> outcome" where
  "spec_bitmap (SetBitCommand k i b) ks = (\<lambda>r ks'.
     r = truth (bit_at (bits_at k ks) i) \<and>
     (\<exists>bs. ks' = ks(k \<mapsto> CBits bs) \<and> length bs = max (length (bits_at k ks)) (i div 8 + 1) \<and>
        (\<forall>j. bit_at bs j = (if j = i then b else bit_at (bits_at k ks) j))))"
| "spec_bitmap (GetBitCommand k i) ks = gives (truth (bit_at (bits_at k ks) i)) ks"
| "spec_bitmap (BitCountCommand k i j) ks = gives (number (card {n. i \<le> n \<and> n < j \<and> bit_at (bits_at k ks) n})) ks"
| "spec_bitmap (BitOpCommand op dest keys) ks =
     (if op \<in> {ascii ''NOT'', ascii ''AND'', ascii ''OR'', ascii ''XOR''}
      then (\<lambda>r ks'. \<exists>bs. r = number (8 * length bs) \<and> ks' = ks(dest \<mapsto> CBits bs) \<and>
              spec_bitop op (List.map_filter (\<lambda>k. Option.bind (ks k) as_bits) keys) bs)
      else gives (Inl (Syntax ''Unknown BITOP'' op)) ks)"
| "spec_bitmap _ ks = (\<lambda>r ks'. False)"

fun spec_server :: "cenv \<Rightarrow> server_command \<Rightarrow> keyspace \<Rightarrow> outcome" where
  "spec_server e (PingCommand m) ks = gives (Inr (CStr (case m of Some x \<Rightarrow> x | None \<Rightarrow> ascii ''PONG''))) ks"
| "spec_server e (EchoCommand m) ks = gives (Inr (CStr m)) ks"
| "spec_server e DbSizeCommand ks = gives (number (card (dom ks))) ks"
| "spec_server e (InfoCommand sec) ks = (\<lambda>r ks'. ks' = ks \<and>
     (if sec \<in> {None, Some (ascii ''server''), Some (ascii ''memory''), Some (ascii ''stats'')} then \<exists>t. r = Inr (CStr t)
      else r = Inl (InvalidArgument ''Unknown section: '' (the sec))))"
| "spec_server e TimeCommand ks = gives (Inr (CArray [CInt (ucast (c_secs e)), CInt (ucast (c_micros e))])) ks"
| "spec_server e (SelectCommand n) ks = (\<lambda>r ks'. ks' = ks \<and> (case r of Inr c \<Rightarrow> n = 0 \<and> c = CStr (ascii ''OK'') | Inl _ \<Rightarrow> n \<noteq> 0))"
| "spec_server e SaveCommand ks = (\<lambda>r ks'. ks' = ks \<and> (r = Inr (CStr (ascii ''OK'')) \<or> (\<exists>x. r = Inl x)))"
| "spec_server e BgSaveCommand ks = (\<lambda>r ks'. ks' = ks \<and> (r = Inr (CStr (ascii ''Background saving started'')) \<or> (\<exists>x. r = Inl x)))"
| "spec_server e (ShutdownCommand b) ks = (\<lambda>r ks'. ks' = ks \<and> (if b then \<exists>x. r = Inl x else r = Inl ServerShutdown))"
| "spec_server e (AuthCommand u p) ks =
     typed as_str InvalidType (ascii ''user:'' @ u) ks (\<lambda>so.
       case so of
         None \<Rightarrow> gives (Inr (CStr (ascii ''USER_NOT_FOUND''))) ks
       | Some s \<Rightarrow> gives (if \<not> utf8_valid s then Inl InvalidType
                         else Inr (CStr (ascii (if s = p then ''AUTH_OK'' else ''AUTH_FAILED'')))) ks)"
| "spec_server e (SubscribeCommand cs) ks = gives (Inr CNull) ks"
| "spec_server e (UnsubscribeCommand cs) ks = gives (Inr CNull) ks"
| "spec_server e (PublishCommand c m) ks = gives (number 1) ks"

section \<open>All commands\<close>

fun spec :: "cenv \<Rightarrow> command \<Rightarrow> keyspace \<Rightarrow> outcome" where
  "spec e (Strings c) = spec_string c"
| "spec e (Ints c) = spec_int c"
| "spec e (Floats c) = spec_float e c"
| "spec e (Keys c) = spec_keys c"
| "spec e (Lists c) = spec_list c"
| "spec e (Sets c) = spec_set c"
| "spec e (Hashes c) = spec_hash e c"
| "spec e (Bitmaps c) = spec_bitmap c"
| "spec e (Server c) = spec_server e c"
| "spec e (Unimplemented k) = (\<lambda>ks r ks'. False)"

text \<open>The commands that panic: those that are not implemented, and \<open>GETRANGE\<close> inside a character.\<close>

fun crashes_string :: "string_command \<Rightarrow> keyspace \<Rightarrow> bool" where
  "crashes_string (GetRangeCommand k i j) ks \<longleftrightarrow>
     (case ks k of
        Some (CStr s) \<Rightarrow> utf8_valid s \<and>
          \<not> (is_char_boundary s (fst (range_bounds (length s) i j)) \<and> is_char_boundary s (snd (range_bounds (length s) i j)))
      | _ \<Rightarrow> False)"
| "crashes_string _ ks \<longleftrightarrow> False"

fun crashes_list :: "list_command \<Rightarrow> bool" where
  "crashes_list (LSetCommand k i x) \<longleftrightarrow> True"
| "crashes_list (LRemCommand k i x) \<longleftrightarrow> True"
| "crashes_list _ \<longleftrightarrow> False"

fun crashes_set :: "set_command \<Rightarrow> bool" where
  "crashes_set (SInterCommand keys) \<longleftrightarrow> True"
| "crashes_set (SUnionCommand keys) \<longleftrightarrow> True"
| "crashes_set (SDiffCommand keys) \<longleftrightarrow> True"
| "crashes_set _ \<longleftrightarrow> False"

fun crashes_bitmap :: "bitmap_command \<Rightarrow> bool" where
  "crashes_bitmap (BitPosCommand k b i j) \<longleftrightarrow> True"
| "crashes_bitmap _ \<longleftrightarrow> False"

fun crashes :: "command \<Rightarrow> keyspace \<Rightarrow> bool" where
  "crashes (Strings c) ks \<longleftrightarrow> crashes_string c ks"
| "crashes (Lists c) ks \<longleftrightarrow> crashes_list c"
| "crashes (Sets c) ks \<longleftrightarrow> crashes_set c"
| "crashes (Bitmaps c) ks \<longleftrightarrow> crashes_bitmap c"
| "crashes (Unimplemented k) ks \<longleftrightarrow> True"
| "crashes _ ks \<longleftrightarrow> False"

text \<open>The values a client sends are well formed, and the crate \<open>rand\<close> draws from what it is given.\<close>

fun string_command_wf :: "string_command \<Rightarrow> bool" where
  "string_command_wf (SetCommand k v) \<longleftrightarrow> value_wf v"
| "string_command_wf (SetNxCommand k v) \<longleftrightarrow> value_wf v"
| "string_command_wf (MSetCommand kvs) \<longleftrightarrow> (\<forall>v \<in> snd ` set kvs. value_wf v)"
| "string_command_wf _ \<longleftrightarrow> True"

fun command_wf :: "command \<Rightarrow> bool" where
  "command_wf (Strings c) \<longleftrightarrow> string_command_wf c"
| "command_wf _ \<longleftrightarrow> True"

definition draws_ok :: "cenv \<Rightarrow> bool" where
  "draws_ok e \<longleftrightarrow>
     (\<forall>i es. case c_pick e i es of None \<Rightarrow> es = [] | Some x \<Rightarrow> x \<in> set es) \<and>
     (\<forall>es n. n \<le> length es \<longrightarrow> length (c_pick_multiple e es n) = n \<and> mset (c_pick_multiple e es n) \<subseteq># mset es)"

end
