(* ===== verification/Command_Refine.thy ===== *)
theory Command_Refine
  imports Command_Spec
begin

text \<open>
  The commands keep the promises of \<open>spec\<close> on every engine that meets the contract. \<open>answers I A m s P\<close>
  says that the operation \<open>m\<close> returns from \<open>s\<close>, keeps the invariant, and that its reply is well formed
  and allowed by \<open>P\<close> together with the keyspace it leaves. Each lemma of the locales below is one command;
  the rules \<open>answers_get\<close>, \<open>answers_set\<close> and \<open>answers_bind\<close> walk through its body.
\<close>

section \<open>Answers\<close>

definition answers :: "('s \<Rightarrow> bool) \<Rightarrow> ('s \<Rightarrow> keyspace) \<Rightarrow> ('s, zvalue) engine_op \<Rightarrow> 's \<Rightarrow> outcome \<Rightarrow> bool" where
  "answers I A m s P \<longleftrightarrow>
     (\<exists>s' r. m s = Some (s', r) \<and> I s' \<and> (\<forall>v. r = Inr v \<longrightarrow> value_wf v) \<and> P (map_sum id content_of r) (A s'))"

lemma answers_eok: "I s \<Longrightarrow> value_wf v \<Longrightarrow> P (Inr (content_of v)) (A s) \<Longrightarrow> answers I A (eok v) s P"
  and answers_eerr: "I s \<Longrightarrow> P (Inl x) (A s) \<Longrightarrow> answers I A (eerr x) s P"
  by (simp_all add: answers_def eok_apply eerr_apply)

lemma answers_bind:
  assumes "yields I A m s (Inr x) ks" and "\<And>s1. I s1 \<Longrightarrow> A s1 = ks \<Longrightarrow> answers I A (f x) s1 P"
  shows "answers I A (ebind m f) s P"
  using assms by (auto simp: yields_def ebind_def answers_def)

lemma answers_bind_err: "yields I A m s (Inl x) ks \<Longrightarrow> P (Inl x) ks \<Longrightarrow> answers I A (ebind m f) s P"
  by (auto simp: yields_def ebind_def answers_def)

lemma answers_lift: "m = Some x \<Longrightarrow> answers I A (f x) s P \<Longrightarrow> answers I A (ebind (elift m) f) s P"
  by (simp add: elift_def ebind_def answers_def eok_apply)

lemma elift_Some [simp]: "elift (Some x) = eok x"
  by (simp add: elift_def fun_eq_iff eok_apply)

lemma eresult_simps [simp]: "eresult (Inr x) = eok x" "eresult (Inl y) = eerr y"
  by (simp_all add: fun_eq_iff eresult_apply eok_apply eerr_apply)

lemma ebind_assoc: "ebind (ebind m f) g = ebind m (\<lambda>x. ebind (f x) g)"
  by (auto simp: ebind_def fun_eq_iff split: option.split sum.split)

lemma gives_iff: "gives r ks r' ks' \<longleftrightarrow> r' = r \<and> ks' = ks"
  by (simp add: gives_def)

section \<open>The replies\<close>

lemma ql_from_iter_spec: "\<exists>q. ql_from_iter xs 64 = Some q \<and> ql_inv q \<and> ql_items q = xs"
  using ql.push_all_law [of "ql_new 64" xs] by (auto simp: ql_from_iter_def)

lemma answers_list:
  assumes "I s" and "P (Inr (CList xs)) (A s)"
  shows "answers I A (list_reply xs) s P"
proof -
  obtain q where "ql_from_iter xs 64 = Some q" "ql_inv q" "ql_items q = xs" using ql_from_iter_spec by blast
  then show ?thesis using assms by (simp add: list_reply_def answers_eok)
qed

lemma answers_members:
  assumes "I s" and "P (listing xs) (A s)"
  shows "answers I A (members_reply xs) s P"
  using assms answers_list [of I s P xs A]
  by (auto simp: members_reply_def list_reply_def listing_def intro!: answers_eok split: if_splits)

text \<open>A well-formed value with the content a type asks for.\<close>

lemma typed_content:
  "as_str (content_of v) = Some s \<longleftrightarrow> v = Str s"
  "as_float (content_of v) = Some x \<longleftrightarrow> v = Float x"
  "as_list (content_of v) = Some xs \<longleftrightarrow> (\<exists>l. v = List l \<and> ql_items l = xs)"
  "as_hash (content_of v) = Some m \<longleftrightarrow> (\<exists>h. v = Hash h \<and> sh_abs h = m)"
  "as_bits (content_of v) = Some bs \<longleftrightarrow> (\<exists>b. v = Bitmap b \<and> bm_bytes b = bs)"
  by (cases v; auto)+

lemma as_str_None: "as_str (content_of v) = None \<longleftrightarrow> (\<forall>s. v \<noteq> Str s)"
  and as_float_None: "as_float (content_of v) = None \<longleftrightarrow> (\<forall>x. v \<noteq> Float x)"
  and as_list_None: "as_list (content_of v) = None \<longleftrightarrow> (\<forall>l. v \<noteq> List l)"
  and as_hash_None: "as_hash (content_of v) = None \<longleftrightarrow> (\<forall>h. v \<noteq> Hash h)"
  by (cases v; simp)+

section \<open>Strings, numbers and keys\<close>

lemma mget_strings_spec:
  assumes "map (map_option content_of) vs = map ks keys"
  shows "map_sum id CList (mget_strings vs) = spec_mget ks keys"
  using assms
proof (induction vs arbitrary: keys)
  case (Cons vo vs)
  then obtain k keys' where k: "keys = k # keys'" "ks k = map_option content_of vo"
    and ks: "map (map_option content_of) vs = map ks keys'"
    by (auto simp: Cons_eq_map_conv)
  note IH = Cons.IH [OF ks]
  show ?case
  proof (cases "\<exists>v. vo = Some v \<and> (\<forall>s. v \<noteq> Str s)")
    case True
    then obtain v where v: "vo = Some v" "\<forall>s. v \<noteq> Str s" by blast
    then have "mget_strings (vo # vs) = Inl (WrongType ''wrong type'')" by (cases v) auto
    moreover have "as_str (content_of v) = None" using v(2) by (simp add: as_str_None)
    ultimately show ?thesis using k v(1) by (auto simp: spec_mget_def)
  next
    case False
    then show ?thesis using k IH by (cases "mget_strings vs"; cases vo) (auto simp: spec_mget_def split: if_splits)
  qed
qed (simp add: spec_mget_def)

lemma from_end_nonneg: "0 \<le> from_end n i"
  by (simp add: from_end_def)

lemma slice_bounds:
  "slice s (fst (range_bounds (length s) i j)) (snd (range_bounds (length s) i j)) =
   Some (part s (from_end (length s) i) (from_end (length s) j))"
proof -
  obtain a where a: "from_end (length s) i = int a" using from_end_nonneg zero_le_imp_eq_int by blast
  obtain b where b: "from_end (length s) j = int b" using from_end_nonneg zero_le_imp_eq_int by blast
  let ?n = "length s"
  have 1: "min (max (if sint i < 0 then int ?n + sint i else sint i) 0) (int ?n) = int (min a ?n)"
    using a by (auto simp: from_end_def of_nat_min)
  have 2: "min (max (if sint j < 0 then int ?n + sint j else sint j) (int (min a ?n))) (int ?n) = int (min (max b (min a ?n)) ?n)"
    using b by (auto simp: from_end_def of_nat_min of_nat_max)
  have r: "range_bounds ?n i j = (min a ?n, min (max b (min a ?n)) ?n)"
    unfolding range_bounds_def Let_def 1 2 by simp
  have "take (min (max b (min a ?n)) ?n - min a ?n) (drop (min a ?n) s) = take (b - a) (drop a s)"
    by (cases "a \<le> ?n"; cases "b \<le> ?n"; cases "a \<le> b") (simp_all add: min_def max_def)
  then show ?thesis by (simp add: r slice_def part_def a b nat_diff_distrib' nat_int_add flip: of_nat_diff)
qed

lemma value_to_i64_spec:
  "value_to_i64 v = (case as_number (content_of v) of Some n \<Rightarrow> Inr (word_of_int n) | None \<Rightarrow> Inl InvalidType)"
proof (cases v)
  case (Str s)
  show ?thesis
  proof (cases "to_i64 s")
    case (Inl x)
    then have "parse_int i64_MIN i64_MAX s = None"
      using to_i64_parse_int [of s] by (metis not_None_eq sum.simps(4))
    then show ?thesis using Str Inl by simp
  next
    case (Inr n)
    then show ?thesis using Str to_i64_parse_int [of s n] by auto
  qed
qed simp_all

lemma parse_int_range: "parse_int lo hi bs = Some n \<Longrightarrow> lo \<le> n \<and> n \<le> hi"
  by (auto simp: parse_int_def split: option.splits if_splits)

lemma sint_range: "i64_MIN \<le> sint (x :: i64) \<and> sint x \<le> i64_MAX"
  using sint_greater_eq [of x] sint_less [of x] by simp

lemma sint_of_int: "i64_MIN \<le> n \<Longrightarrow> n \<le> i64_MAX \<Longrightarrow> sint (word_of_int n :: i64) = n"
  by (simp add: sint_sbintrunc' signed_take_bit_int_eq_self)

lemma sint_of_int':
  "i64_MIN \<le> n + sint i \<Longrightarrow> n + sint i \<le> i64_MAX \<Longrightarrow> sint (word_of_int n + (i :: i64)) = n + sint i"
  using sint_of_int [of "n + sint i"] by simp

lemma as_number_range: "as_number c = Some n \<Longrightarrow> i64_MIN \<le> n \<and> n \<le> i64_MAX"
  using parse_int_range sint_range by (cases c) auto

lemma collect_range_spec:
  "ql_inv l \<Longrightarrow> collect_range l is vec = Some (vec @ List.map_filter (nth_opt (ql_items l)) is)"
proof (induction "is" arbitrary: l vec)
  case (Cons i "is")
  obtain l' where "ql_get l i = Some (nth_opt (ql_items l) i, l')" "ql_inv l'" "ql_items l' = ql_items l"
    using get_items_spec [OF Cons.prems] by blast
  then show ?case using Cons.IH [of l'] by (auto simp: map_filter_simps split: option.split)
qed (simp add: map_filter_simps)

lemma map_filter_nth: "List.map_filter (nth_opt xs) [a..<b] = take (b - a) (drop a xs)"
proof (induction b)
  case (Suc b)
  have "List.map_filter f (us @ vs) = List.map_filter f us @ List.map_filter f vs" for f :: "nat \<Rightarrow> 'a option" and us vs
    by (simp add: List.map_filter_def)
  then show ?case using Suc
    by (auto simp: map_filter_simps nth_opt_def take_Suc_conv_app_nth Suc_diff_le)
qed (simp add: map_filter_simps)

lemma list_range_bounds:
  "take (snd (lrange_bounds (length xs) i j) + 1 - fst (lrange_bounds (length xs) i j))
     (drop (fst (lrange_bounds (length xs) i j)) xs) =
   part xs (from_end (length xs) i) (from_end (length xs) j + 1)"
proof -
  obtain a where a: "from_end (length xs) i = int a" using from_end_nonneg zero_le_imp_eq_int by blast
  obtain b where b: "from_end (length xs) j = int b" using from_end_nonneg zero_le_imp_eq_int by blast
  let ?n = "length xs"
  have p: "part xs (int a) (int b + 1) = take (b + 1 - a) (drop a xs)"
    by (simp add: part_def nat_diff_distrib' nat_add_distrib)
  show ?thesis
  proof (cases "?n = 0")
    case False
    have 1: "fst (lrange_bounds ?n i j) = min a ?n" 
      using a by (auto simp: lrange_bounds_def as_usize_def from_end_def Let_def)
    have 2: "snd (lrange_bounds ?n i j) = min b (?n - 1)"
      using b False by (auto simp: lrange_bounds_def as_usize_def from_end_def Let_def)
    show ?thesis unfolding 1 2 a b p using False
      by (cases "a \<le> ?n"; cases "b < ?n") (simp_all add: min_def)
  qed (simp add: part_def)
qed

context kv_core
begin

lemma answers_get:
  assumes "inv s"
    and "\<And>s1. inv s1 \<Longrightarrow> abs s1 = abs s \<Longrightarrow> abs s k = None \<Longrightarrow> answers inv abs (f None) s1 P"
    and "\<And>s1 v. inv s1 \<Longrightarrow> abs s1 = abs s \<Longrightarrow> abs s k = Some (content_of v) \<Longrightarrow> value_wf v \<Longrightarrow> answers inv abs (f (Some v)) s1 P"
  shows "answers inv abs (ebind (st_get st k) f) s P"
proof -
  obtain vo where vo: "yields inv abs (st_get st k) s (Inr vo) (abs s)" "map_option content_of vo = abs s k" "pred_option value_wf vo"
    using get_law [OF assms(1)] by blast
  have "answers inv abs (f vo) s1 P" if "inv s1" "abs s1 = abs s" for s1
    using assms(2,3) [OF that] vo(2,3) by (cases vo) auto
  then show ?thesis by (rule answers_bind [OF vo(1)])
qed

lemma answers_set:
  assumes "inv s" and "ok v" and "value_wf v" and "value_wf x"
    and "P (Inr (content_of x)) ((abs s)(k \<mapsto> content_of v))"
  shows "answers inv abs (ebind (st_set st k v) (\<lambda>_. eok x)) s P"
  by (rule answers_bind [OF set_law [OF assms(1-3)]]) (simp add: answers_eok assms)

lemma set_answers: "inv s \<Longrightarrow> ok v \<Longrightarrow> value_wf v \<Longrightarrow> answers inv abs (set_execute st k v) s (spec_string (SetCommand k v) (abs s))"
  unfolding set_execute_def by (rule answers_set) (simp_all add: gives_iff)

lemma get_answers: "inv s \<Longrightarrow> answers inv abs (get_execute st k) s (spec_string (GetCommand k) (abs s))"
  unfolding get_execute_def by (rule answers_get) (simp_all add: answers_eok gives_iff)

lemma setnx_answers:
  "inv s \<Longrightarrow> ok v \<Longrightarrow> value_wf v \<Longrightarrow> answers inv abs (setnx_execute st k v) s (spec_string (SetNxCommand k v) (abs s))"
  unfolding setnx_execute_def by (rule answers_get) (simp_all add: answers_set answers_eok gives_iff)

lemma mset_answers:
  assumes "inv s" and "\<forall>v \<in> snd ` set kvs. ok v \<and> value_wf v"
  shows "answers inv abs (mset_execute st kvs) s (spec_string (MSetCommand kvs) (abs s))"
  unfolding mset_execute_def by (rule answers_bind [OF mset_law [OF assms]]) (simp add: answers_eok gives_iff)

lemma mget_answers:
  assumes "inv s"
  shows "answers inv abs (mget_execute st keys) s (spec_string (MGetCommand keys) (abs s))"
proof -
  obtain vs where vs: "yields inv abs (st_mget st keys) s (Inr vs) (abs s)" "map (map_option content_of) vs = map (abs s) keys"
    using mget_law [OF assms] by blast
  note m = mget_strings_spec [OF vs(2)]
  show ?thesis unfolding mget_execute_def
  proof (rule answers_bind [OF vs(1)])
    fix s1
    assume s1: "inv s1" "abs s1 = abs s"
    show "answers inv abs (ebind (eresult (mget_strings vs)) (\<lambda>vec. ebind (elift (push_all ql_ops (ql_new 64) vec))
        (\<lambda>list. eok (List list)))) s1 (spec_string (MGetCommand keys) (abs s))"
    proof (cases "mget_strings vs")
      case (Inr xs)
      then show ?thesis
        using answers_list [where xs = xs and I = inv and A = abs and P = "spec_string (MGetCommand keys) (abs s)"] s1 m
        by (simp add: list_reply_def ql_from_iter_def gives_iff)
    qed (use s1 m in \<open>simp add: answers_eerr gives_iff\<close>)
  qed
qed

lemma strlen_answers: "inv s \<Longrightarrow> answers inv abs (strlen_execute st k) s (spec_string (StrLenCommand k) (abs s))"
  unfolding strlen_execute_def
  by (rule answers_get) (auto simp: answers_eok answers_eerr gives_iff typed_def as_str_None split: zvalue.split)

lemma append_answers:
  "inv s \<Longrightarrow> (\<And>t. ok (Str t)) \<Longrightarrow> answers inv abs (append_execute st k x) s (spec_string (AppendCommand k x) (abs s))"
  unfolding append_execute_def
  by (rule answers_get)
    (auto simp: answers_set answers_eerr gives_iff typed_def as_str_None Let_def split: zvalue.split)

lemma getrange_answers:
  assumes "inv s" and "\<not> crashes_string (GetRangeCommand k i j) (abs s)"
  shows "answers inv abs (getrange_execute st k i j) s (spec_string (GetRangeCommand k i j) (abs s))"
  unfolding getrange_execute_def using assms
  by (intro answers_get)
    (auto simp: answers_eok answers_eerr gives_iff typed_def as_str_None str_slice_def slice_bounds case_prod_unfold Let_def
       split: zvalue.split)

text \<open>Counters: the four commands differ in the function on the integers.\<close>

lemma add_answers:
  assumes "inv s" and "\<And>n. ok (IntV n)" and "\<And>n. f n = checked (g (sint n))"
  shows "answers inv abs (add_execute f st k) s (spec_count g k (abs s))"
proof -
  have fin: "answers inv abs (case f n of None \<Rightarrow> eerr overflow_err
      | Some new_val \<Rightarrow> ebind (st_set st k (IntV new_val)) (\<lambda>_. eok (IntV new_val))) s1 P"
    if "inv s1" and "abs s1 = abs s" and "sint n = m" and "P = (if i64_MIN \<le> g m \<and> g m \<le> i64_MAX
       then gives (Inr (CInt (word_of_int (g m)))) ((abs s)(k \<mapsto> CInt (word_of_int (g m))))
       else gives (Inl InvalidType) (abs s))" for s1 n m P
    using assms(2) that
    by (auto simp: assms(3) checked_def overflow_err_def gives_iff intro!: answers_set answers_eerr)
  show ?thesis unfolding add_execute_def
  proof (rule answers_get [OF assms(1)])
    fix s1
    assume s1: "inv s1" "abs s1 = abs s" and "abs s k = None"
    then show "answers inv abs (ebind (case None of None \<Rightarrow> eok 0 | Some v \<Rightarrow> eresult (value_to_i64 v)) (\<lambda>cur.
        case f cur of None \<Rightarrow> eerr overflow_err
        | Some new_val \<Rightarrow> ebind (st_set st k (IntV new_val)) (\<lambda>_. eok (IntV new_val)))) s1 (spec_count g k (abs s))"
      using fin [of s1 0 0] by (auto simp: spec_count_def typed_def Let_def split: if_splits)
  next
    fix s1 v
    assume s1: "inv s1" "abs s1 = abs s" and v: "abs s k = Some (content_of v)"
    show "answers inv abs (ebind (case Some v of None \<Rightarrow> eok 0 | Some v \<Rightarrow> eresult (value_to_i64 v)) (\<lambda>cur.
        case f cur of None \<Rightarrow> eerr overflow_err
        | Some new_val \<Rightarrow> ebind (st_set st k (IntV new_val)) (\<lambda>_. eok (IntV new_val)))) s1 (spec_count g k (abs s))"
    proof (cases "as_number (content_of v)")
      case None
      then show ?thesis using v s1 by (simp add: value_to_i64_spec spec_count_def typed_def answers_eerr gives_iff)
    next
      case (Some n)
      then have "sint (word_of_int n :: i64) = n" using as_number_range sint_of_int by blast
      then show ?thesis
        using v Some fin [OF s1, of "word_of_int n" n] by (auto simp: value_to_i64_spec spec_count_def typed_def Let_def split: if_splits)
    qed
  qed
qed

lemma int_answers: "inv s \<Longrightarrow> (\<And>n. ok (IntV n)) \<Longrightarrow> answers inv abs (execute_int st c) s (spec_int c (abs s))"
  by (cases c) (simp_all add: incr_execute_def incrby_execute_def decr_execute_def decrby_execute_def add_answers)

lemma float_answers:
  assumes "inv s" and "\<And>x. ok (Float x)" and "\<And>n. ok (IntV n)"
  shows "answers inv abs (execute_float e st c) s (spec_float e c (abs s))"
proof (cases c)
  case (IncrByFloatCommand k d)
  then show ?thesis unfolding IncrByFloatCommand execute_float.simps incrbyfloat_execute_def using assms
    by (intro answers_get)
      (auto simp: answers_set answers_eerr gives_iff typed_def as_float_None spec_accum_def Let_def split: zvalue.split)
next
  case (Decrbyfloat k i)
  then show ?thesis using assms by (simp add: decrby_execute_def add_answers)
next
  case (SetFloatCommand k x)
  then show ?thesis using assms by (simp add: setfloat_execute_def answers_set gives_iff)
qed

lemma del_answers: "inv s \<Longrightarrow> answers inv abs (del_execute st k) s (spec_keys (DelCommand k) (abs s))"
  unfolding del_execute_def by (rule answers_bind, rule del_law) (simp_all add: answers_eok gives_iff)

lemma count_existing_spec:
  "inv s \<Longrightarrow> yields inv abs (count_existing st keys n) s (Inr (n + length (filter (\<lambda>k. abs s k \<noteq> None) keys))) (abs s)"
proof (induction keys arbitrary: n s)
  case (Cons k keys)
  obtain vo s1 where "st_get st k s = Some (s1, Inr vo)" "inv s1" "abs s1 = abs s" "map_option content_of vo = abs s k"
    using get_law [OF Cons.prems, of k] by (auto simp: yields_def)
  then show ?case using Cons.IH [of s1 n] Cons.IH [of s1 "Suc n"] by (cases vo) (auto simp: yields_def dest: sym)
qed (simp add: yields_def)

lemma exists_answers: "inv s \<Longrightarrow> answers inv abs (exists_execute st keys) s (spec_keys (ExistsCommand keys) (abs s))"
  unfolding exists_execute_def
  by (rule answers_bind, rule count_existing_spec) (simp_all add: answers_eok gives_iff)

lemma flushdb_answers: "inv s \<Longrightarrow> answers inv abs (flushdb_execute st) s (spec_keys FlushDbCommand (abs s))"
  unfolding flushdb_execute_def by (rule answers_bind, rule flush_law) (simp_all add: answers_eok gives_iff)

lemma string_answers:
  assumes "inv s" and "\<And>v. ok v" and "string_command_wf c" and "\<not> crashes_string c (abs s)"
  shows "answers inv abs (execute_string st c) s (spec_string c (abs s))"
  using assms
  by (cases c)
    (simp_all del: spec_string.simps crashes_string.simps
      add: set_answers get_answers setnx_answers mset_answers mget_answers strlen_answers append_answers getrange_answers)

section \<open>Lists\<close>

lemma read_list_answers:
  assumes "inv s"
    and "\<And>s1. inv s1 \<Longrightarrow> abs s1 = abs s \<Longrightarrow> abs s k = None \<Longrightarrow> answers inv abs (f None) s1 (g None)"
    and "\<And>s1 l. inv s1 \<Longrightarrow> abs s1 = abs s \<Longrightarrow> abs s k = Some (CList (ql_items l)) \<Longrightarrow> ql_inv l \<Longrightarrow>
      answers inv abs (f (Some l)) s1 (g (Some (ql_items l)))"
  shows "answers inv abs (ebind (read_list st k) f) s (typed as_list InvalidType k (abs s) g)"
  unfolding read_list_def ebind_assoc using assms
  by (intro answers_get) (auto simp: typed_def as_list_None gives_iff answers_eerr split: zvalue.split)

lemma push_answers:
  assumes "inv s" and "\<And>l. ok (List l)"
    and push: "\<And>l. ql_inv l \<Longrightarrow> \<exists>l'. push l x = Some l' \<and> ql_inv l' \<and> ql_items l' = h (ql_items l)"
  shows "answers inv abs (push_execute push st k x) s (spec_push h k (abs s))"
proof -
  have fin: "answers inv abs (ebind (elift (push l x)) (\<lambda>l. ebind (st_set st k (List l)) (\<lambda>_. eok (IntV (of_nat (ql_len l)))))) s1
      (gives (number (length (h (ql_items l)))) ((abs s)(k \<mapsto> CList (h (ql_items l)))))"
    if "inv s1" and "abs s1 = abs s" and "ql_inv l" for s1 l
  proof -
    obtain l' where "push l x = Some l'" "ql_inv l'" "ql_items l' = h (ql_items l)" using push \<open>ql_inv l\<close> by blast
    then show ?thesis using assms(2) that by (auto simp: gives_iff len_spec intro!: answers_set)
  qed
  from fin [where l = "ql_new 64"] fin assms(1) show ?thesis
    unfolding push_execute_def spec_push_def by (intro read_list_answers) (simp_all add: Let_def)
qed

lemma pop_answers:
  assumes "inv s" and "\<And>l. ok (List l)"
    and pop: "\<And>l. ql_inv l \<Longrightarrow> \<exists>l'. pop l = Some (if ql_items l = [] then None else Some (elem (ql_items l)), l') \<and>
      ql_inv l' \<and> ql_items l' = rest (ql_items l)"
  shows "answers inv abs (pop_execute pop st k) s (spec_pop elem rest k (abs s))"
  unfolding pop_execute_def spec_pop_def
proof (rule read_list_answers [OF assms(1)])
  fix s1 and l :: "bytes quicklist"
  assume s1: "inv s1" "abs s1 = abs s"
  assume "ql_inv l"
  then obtain l' where "pop l = Some (if ql_items l = [] then None else Some (elem (ql_items l)), l')"
    "ql_inv l'" "ql_items l' = rest (ql_items l)" using pop by blast
  with assms(2) s1 show "answers inv abs (case Some l of None \<Rightarrow> eok Null
      | Some l \<Rightarrow> ebind (elift (pop l)) (\<lambda>(elem, l). case elem of None \<Rightarrow> eok Null
          | Some x \<Rightarrow> ebind (st_set st k (List l)) (\<lambda>_. eok (Str x)))) s1
      (case Some (ql_items l) of None \<Rightarrow> gives (Inr CNull) (abs s)
       | Some xs \<Rightarrow> if xs = [] then gives (Inr CNull) (abs s)
           else gives (Inr (CStr (elem xs))) ((abs s)(k \<mapsto> CList (rest xs))))"
    by (auto simp: gives_iff intro!: answers_set answers_eok)
qed (simp add: answers_eok gives_iff)

lemma llen_answers: "inv s \<Longrightarrow> answers inv abs (llen_execute st k) s (spec_list (LLenCommand k) (abs s))"
  unfolding llen_execute_def spec_list.simps
  by (rule read_list_answers) (simp_all add: answers_eok gives_iff len_spec)

lemma lrange_answers:
  assumes "inv s"
  shows "answers inv abs (lrange_execute st k i j) s (spec_list (LRangeCommand k i j) (abs s))"
  unfolding lrange_execute_def spec_list.simps
proof (rule read_list_answers [OF assms])
  fix s1 and l :: "bytes quicklist"
  assume s1: "inv s1" "abs s1 = abs s" and l: "ql_inv l"
  let ?xs = "ql_items l" and ?P = "gives (Inr (case Some (ql_items l) of
      Some xs \<Rightarrow> CList (part xs (from_end (length xs) i) (from_end (length xs) j + 1)) | None \<Rightarrow> CNull)) (abs s)"
  show "answers inv abs (case Some l of None \<Rightarrow> eok Null
      | Some l \<Rightarrow> let (s, e) = lrange_bounds (ql_len l) i j in ebind (elift (collect_range l [s..<e + 1] []))
          (\<lambda>vec. ebind (elift (ql_from_iter vec 64)) (\<lambda>ql. eok (List ql)))) s1 ?P"
    using answers_list [where I = inv and A = abs and P = ?P and s = s1 and
        xs = "part ?xs (from_end (length ?xs) i) (from_end (length ?xs) j + 1)"] s1
    by (simp add: len_spec [OF l] collect_range_spec [OF l] map_filter_nth list_range_bounds [simplified] list_reply_def
        gives_iff case_prod_unfold Let_def del: upt_Suc)
qed (simp add: answers_eok gives_iff)

lemma list_answers:
  assumes "inv s" and "\<And>l. ok (List l)" and "\<not> crashes_list c"
  shows "answers inv abs (execute_list st c) s (spec_list c (abs s))"
proof (cases c)
  case (LPushCommand k x)
  then show ?thesis using push_answers [where push = ql_push_front, OF assms(1,2) push_front_spec] by (simp add: lpush_execute_def)
next
  case (RPushCommand k x)
  then show ?thesis using push_answers [where push = ql_push_back, OF assms(1,2) push_back_spec] by (simp add: rpush_execute_def)
next
  case (LPopCommand k)
  have "(case xs of [] \<Rightarrow> None | x # _ \<Rightarrow> Some x) = (if xs = [] then None else Some (hd xs))" for xs :: "bytes list"
    by (cases xs) simp_all
  note pop_answers [where pop = ql_pop_front, OF assms(1,2) pop_front_spec [where 'a = bytes, unfolded this]]
  then show ?thesis using LPopCommand by (simp add: lpop_execute_def)
next
  case (RPopCommand k)
  then show ?thesis using pop_answers [where pop = ql_pop_back, OF assms(1,2) pop_back_spec] by (simp add: rpop_execute_def)
qed (use assms in \<open>simp_all del: spec_list.simps add: llen_answers lrange_answers\<close>)

end

context kv_engine
begin

lemma rename_answers:
  assumes "inv s"
  shows "answers inv abs (rename_execute st a b) s (spec_keys (RenameCommand a b) (abs s))"
  using rename_law [OF assms, of a b] unfolding rename_execute_def
  by (cases "abs s a") (auto simp: gives_iff answers_eok elim!: answers_bind answers_bind_err)

lemma renamenx_answers:
  assumes "inv s"
  shows "answers inv abs (renamenx_execute st a b) s (spec_keys (RenameNxCommand a b) (abs s))"
  using renamenx_law [OF assms, of a b] unfolding renamenx_execute_def
  by (cases "abs s a"; cases "abs s b") (auto simp: gives_iff answers_eok elim!: answers_bind answers_bind_err)

lemma keys_answers: "inv s \<Longrightarrow> answers inv abs (execute_keys st c) s (spec_keys c (abs s))"
  by (cases c)
    (simp_all del: spec_keys.simps add: del_answers exists_answers rename_answers renamenx_answers flushdb_answers)

end

section \<open>Hashes\<close>

lemma sh_get_abs: "sh_inv h \<Longrightarrow> sh_get h f = sh_abs h f"
  and sh_len_abs: "sh_inv h \<Longrightarrow> sh_len h = card (dom (sh_abs h))"
  using sh.get_law [of h undefined f] sh.len_law [of h undefined] by (simp_all add: sh_ops_def)

lemma sh_empty_abs:
  assumes "sh_inv h"
  shows "sh_is_empty h \<longleftrightarrow> sh_abs h = Map.empty"
proof -
  have "finite (dom (sh_abs h))" by (simp add: sh_abs_def finite_dom_map_of)
  then show ?thesis using sh_len_abs [OF assms] by (auto simp: sh_is_empty_def)
qed

lemma insert_fields_spec:
  assumes "sh_inv h" and "insert_fields \<sigma> fvs (h, n) = (h', n')"
  shows "sh_inv h' \<and> sh_abs h' = sh_abs h ++ map_of (rev fvs) \<and> n' = n + card (fst ` set fvs - dom (sh_abs h))"
  using assms
proof (induction fvs arbitrary: h n)
  case (Cons fv fvs)
  obtain f v where fv: "fv = (f, v)" by (cases fv)
  obtain h1 b where h1: "sh_insert \<sigma> h f v = (h1, b)" by (cases "sh_insert \<sigma> h f v")
  note i = sh_insert_spec [OF Cons.prems(1) h1]
  have "card (insert f (fst ` set fvs) - dom (sh_abs h)) =
      (if f \<in> dom (sh_abs h) then 0 else 1) + card (fst ` set fvs - dom (sh_abs h1))"
  proof (cases "f \<in> dom (sh_abs h)")
    case True
    then show ?thesis using i by (simp add: insert_absorb insert_Diff_if)
  next
    case False
    have "insert f (fst ` set fvs) - dom (sh_abs h) = insert f (fst ` set fvs - insert f (dom (sh_abs h)))" using False by auto
    then show ?thesis using i False by simp
  qed
  moreover have "sh_abs h1 ++ map_of (rev fvs) = sh_abs h ++ map_of (rev (fv # fvs))"
    using i by (auto simp: fv fun_eq_iff map_add_def split: option.split)
  moreover have "b \<longleftrightarrow> f \<notin> dom (sh_abs h)" using i by simp
  moreover have "insert_fields \<sigma> fvs (h1, if b then n + 1 else n) = (h', n')" using Cons.prems(2) by (simp add: fv h1)
  note Cons.IH [OF i [THEN conjunct1] this]
  ultimately show ?case by (simp add: fv)
qed simp

lemma remove_fields_spec:
  assumes "sh_inv h" and "remove_fields fs (h, n) = (h', n')"
  shows "sh_inv h' \<and> sh_abs h' = sh_abs h |` (- set fs) \<and> n' = n + card (set fs \<inter> dom (sh_abs h))"
  using assms
proof (induction fs arbitrary: h n)
  case (Cons f fs)
  obtain h1 b where h1: "sh_remove h f = (h1, b)" by (cases "sh_remove h f")
  note r = sh_remove_spec [OF Cons.prems(1) h1]
  have "card (set (f # fs) \<inter> dom (sh_abs h)) = (if f \<in> dom (sh_abs h) then 1 else 0) + card (set fs \<inter> dom (sh_abs h1))"
  proof (cases "f \<in> dom (sh_abs h)")
    case True
    have "set (f # fs) \<inter> dom (sh_abs h) = insert f (set fs \<inter> (dom (sh_abs h) - {f}))" using True by auto
    then show ?thesis using r True by simp
  next
    case False
    then have "set (f # fs) \<inter> dom (sh_abs h) = set fs \<inter> (dom (sh_abs h) - {f})" by auto
    then show ?thesis using r False by simp
  qed
  moreover have "sh_abs h1 |` (- set fs) = sh_abs h |` (- set (f # fs))" using r by (auto simp: fun_eq_iff restrict_map_def)
  moreover have "b \<longleftrightarrow> f \<in> dom (sh_abs h)" using r by simp
  moreover have "remove_fields fs (h1, if b then n + 1 else n) = (h', n')" using Cons.prems(2) by (simp add: h1)
  note Cons.IH [OF r [THEN conjunct1] this]
  ultimately show ?case by simp
qed (simp add: restrict_map_def fun_eq_iff)

lemma restrict_empty: "m |` (- F) = Map.empty \<longleftrightarrow> dom m \<subseteq> F"
  by (auto simp: restrict_map_def fun_eq_iff split: if_splits)

subsection \<open>Sorting by key\<close>

lemma slice_cmp_trans: "slice_cmp a b \<le> 0 \<Longrightarrow> slice_cmp b c \<le> 0 \<Longrightarrow> slice_cmp a c \<le> 0"
proof (induction a b arbitrary: c rule: slice_cmp.induct)
  case (4 a as b bs)
  then show ?case by (cases c) (auto split: if_splits)
next
  case (2 b bs)
  then show ?case by (cases c) auto
next
  case 1
  then show ?case by (cases c) auto
qed simp

lemma mset_insert_by_key: "mset (insert_by_key e xs) = add_mset e (mset xs)"
  by (induction xs) auto

lemma sorted_insert_by_key:
  "sorted_wrt (\<lambda>a b. slice_cmp (fst a) (fst b) \<le> 0) xs \<Longrightarrow> sorted_wrt (\<lambda>a b. slice_cmp (fst a) (fst b) \<le> 0) (insert_by_key e xs)"
proof (induction xs)
  case (Cons x xs)
  have "set (insert_by_key e xs) = insert e (set xs)" by (metis mset_insert_by_key set_mset_add_mset_insert set_mset_mset)
  moreover have "slice_cmp (fst x) (fst e) \<le> 0" if "\<not> slice_cmp (fst e) (fst x) \<le> 0"
    using that slice_cmp_swap [of "fst x" "fst e"] by simp
  ultimately show ?case using Cons by (auto intro: slice_cmp_trans)
qed simp

lemma sorted_strict:
  "sorted_wrt (\<lambda>a b. slice_cmp (fst a) (fst b) \<le> 0) ys \<Longrightarrow> distinct (map fst ys) \<Longrightarrow>
   sorted_wrt (\<lambda>a b. slice_cmp (fst a) (fst b) < 0) ys"
proof (induction ys)
  case (Cons y ys)
  have "slice_cmp (fst y) (fst z) < 0" if "z \<in> set ys" for z
  proof -
    have "slice_cmp (fst y) (fst z) \<le> 0" using Cons.prems(1) that by auto
    moreover have "fst y \<noteq> fst z" using Cons.prems(2) that by auto
    ultimately show ?thesis using slice_cmp_eq [of "fst y" "fst z"] by simp
  qed
  then show ?case using Cons by simp
qed simp

lemma sort_by_key_spec:
  assumes "distinct (map fst xs)"
  shows "distinct (map fst (sort_by_key xs))" and "map_of (sort_by_key xs) = map_of xs"
    and "sorted_wrt (\<lambda>a b. slice_cmp (fst a) (fst b) < 0) (sort_by_key xs)"
proof -
  have m: "mset (sort_by_key xs) = mset xs" by (induction xs) (simp_all add: sort_by_key_def mset_insert_by_key)
  then have "mset (map fst (sort_by_key xs)) = mset (map fst xs)" by simp
  then show d: "distinct (map fst (sort_by_key xs))" using assms mset_eq_imp_distinct_iff by blast
  then show "map_of (sort_by_key xs) = map_of xs" using assms m by (metis map_of_inject_set mset_eq_setD)
  have "sorted_wrt (\<lambda>a b. slice_cmp (fst a) (fst b) \<le> 0) (sort_by_key xs)"
    by (induction xs) (simp_all add: sort_by_key_def sorted_insert_by_key)
  then show "sorted_wrt (\<lambda>a b. slice_cmp (fst a) (fst b) < 0) (sort_by_key xs)" using d by (rule sorted_strict)
qed

subsection \<open>Random fields\<close>

lemma submultiset_distinct: "mset xs \<subseteq># mset ys \<Longrightarrow> distinct (map fst ys) \<Longrightarrow> distinct (map fst xs) \<and> set xs \<subseteq> set ys"
proof
  assume m: "mset xs \<subseteq># mset ys" and d: "distinct (map fst ys)"
  obtain C where "mset ys = mset xs + C" using m by (metis subset_mset.le_iff_add)
  then obtain zs where "mset ys = mset (xs @ zs)" by (metis ex_mset mset_append)
  then have "mset (map fst ys) = mset (map fst (xs @ zs))" by simp
  then have "distinct (map fst (xs @ zs))" using d mset_eq_imp_distinct_iff by blast
  then show "distinct (map fst xs)" by simp
  show "set xs \<subseteq> set ys" using m by (metis mset_subset_eqD set_mset_mset subsetI)
qed

lemma hrand_many:
  assumes "draws_ok e" and "lists_map es m"
  shows "\<exists>ds. List.map_filter (\<lambda>i. c_pick e i es) is = ds \<and> (\<forall>(f, v)\<in>set ds. m f = Some v) \<and>
    length ds = (if m = Map.empty then 0 else length is)"
proof -
  have es: "map_of es f = Some v" if "(f, v) \<in> set es" for f v using that assms(2) by (auto simp: lists_map_def)
  have m: "m = Map.empty \<longleftrightarrow> es = []" using assms(2) by (auto simp: lists_map_def)
  have p: "case c_pick e i es of None \<Rightarrow> es = [] | Some x \<Rightarrow> x \<in> set es" for i using assms(1) by (simp add: draws_ok_def)
  show ?thesis
  proof (induction "is")
    case (Cons i "is")
    then show ?case using p [of i] es m assms(2) by (auto simp: map_filter_simps lists_map_def split: option.splits)
  qed (simp add: map_filter_simps)
qed

lemma hrand_distinct:
  assumes "draws_ok e" and "lists_map es m"
  shows "\<exists>ds. c_pick_multiple e es (min k (length es)) = ds \<and> (\<forall>(f, v)\<in>set ds. m f = Some v) \<and>
    distinct (map fst ds) \<and> length ds = min k (card (dom m))"
proof -
  let ?n = "min k (length es)" and ?ds = "c_pick_multiple e es (min k (length es))"
  have ds: "length ?ds = ?n" "mset ?ds \<subseteq># mset es" using assms(1) by (simp_all add: draws_ok_def)
  have d: "distinct (map fst es)" "map_of es = m" using assms(2) by (simp_all add: lists_map_def)
  have "length es = card (dom m)" using distinct_card [OF d(1)] by (simp add: dom_map_of_conv_image_fst flip: d(2))
  moreover have "m f = Some v" if "(f, v) \<in> set ?ds" for f v
    using submultiset_distinct [OF ds(2) d(1)] that map_of_is_SomeI [OF d(1), of f v] by (auto simp: d(2))
  ultimately show ?thesis using submultiset_distinct [OF ds(2) d(1)] ds(1) by auto
qed

lemma hrand_listed:
  assumes "\<forall>(f, v)\<in>set es. m f = Some v"
    and "if sint n < 0 then length es = (if m = Map.empty then 0 else nat (- sint n))
      else distinct (map fst es) \<and> length es = min (nat (sint n)) (card (dom m))"
  shows "spec_hrand (Some n) w m (CList (if w then flat es else map fst es))"
  unfolding spec_hrand_def option.case by (rule exI [of _ es]) (use assms in simp)

lemma fields_answers:
  "I s \<Longrightarrow> P (Inr (CList (if w then flat es else map fst es))) (A s) \<Longrightarrow> answers I A (fields_reply w es) s P"
  unfolding fields_reply_def by (rule answers_list) simp_all

lemma field_i64_spec:
  "field_i64 vo = (case (case vo of Some t \<Rightarrow> parse_int i64_MIN i64_MAX t | None \<Rightarrow> Some 0) of
     None \<Rightarrow> Inl InvalidValue | Some n \<Rightarrow> Inr (word_of_int n))"
proof (cases vo)
  case (Some t)
  have "utf8_valid t" if "parse_int i64_MIN i64_MAX t = Some n" for n
    using parse_int_is_integer [OF that] is_integer_utf8 by auto
  then show ?thesis using Some by (auto simp: field_i64_def parse_i64_def split: option.split)
qed (simp add: field_i64_def)

context kv_core
begin

lemma read_hash_answers:
  assumes "inv s"
    and "\<And>s1. inv s1 \<Longrightarrow> abs s1 = abs s \<Longrightarrow> abs s k = None \<Longrightarrow> answers inv abs (f None) s1 (g None)"
    and "\<And>s1 h. inv s1 \<Longrightarrow> abs s1 = abs s \<Longrightarrow> abs s k = Some (CHash (sh_abs h)) \<Longrightarrow> sh_inv h \<Longrightarrow>
      answers inv abs (f (Some h)) s1 (g (Some (sh_abs h)))"
  shows "answers inv abs (ebind (read_hash st k) f) s (typed as_hash InvalidType k (abs s) g)"
  unfolding read_hash_def ebind_assoc using assms
  by (intro answers_get) (auto simp: typed_def as_hash_None gives_iff answers_eerr split: zvalue.split)

text \<open>The commands that read an absent key as an empty hash.\<close>

lemma hash_answers_empty:
  assumes "inv s"
    and "\<And>s1 h. inv s1 \<Longrightarrow> abs s1 = abs s \<Longrightarrow> sh_inv h \<Longrightarrow> answers inv abs (f h) s1 (g (sh_abs h))"
  shows "answers inv abs (ebind (read_hash st k) (\<lambda>ho. f (case ho of Some h \<Rightarrow> h | None \<Rightarrow> sh_new))) s
    (typed as_hash InvalidType k (abs s) (\<lambda>mo. g (fields_at mo)))"
  using assms assms(2) [OF _ _ sh_new_spec(1)] by (intro read_hash_answers) (simp_all add: sh_new_spec)

lemma hset_answers:
  assumes "inv s" and "\<And>h. ok (Hash h)"
  shows "answers inv abs (hset_execute \<sigma> st k fvs) s (spec_hash e (HSetCommand k fvs) (abs s))"
  unfolding hset_execute_def spec_hash.simps
proof (rule hash_answers_empty [OF assms(1)])
  fix s1 and h :: "(bytes, bytes) smart_hash"
  assume s1: "inv s1" "abs s1 = abs s" and h: "sh_inv h"
  obtain h' n where h': "insert_fields \<sigma> fvs (h, 0) = (h', n)" by (cases "insert_fields \<sigma> fvs (h, 0)")
  show "answers inv abs (let (sh, added) = insert_fields \<sigma> fvs (h, 0)
      in ebind (st_set st k (Hash sh)) (\<lambda>_. eok (IntV (of_nat added)))) s1
      (gives (number (card (fst ` set fvs - dom (sh_abs h)))) ((abs s)(k \<mapsto> CHash (sh_abs h ++ map_of (rev fvs)))))"
    using insert_fields_spec [OF h h'] assms(2) s1 by (simp add: h' gives_iff answers_set)
qed

lemma hdel_answers:
  assumes "inv s" and "\<And>h. ok (Hash h)"
  shows "answers inv abs (hdel_execute st k fs) s (spec_hash e (HDelCommand k fs) (abs s))"
  unfolding hdel_execute_def spec_hash.simps
proof (rule read_hash_answers [OF assms(1)])
  fix s1 and h :: "(bytes, bytes) smart_hash"
  assume s1: "inv s1" "abs s1 = abs s" and h: "sh_inv h"
  obtain h' n where h': "remove_fields fs (h, 0) = (h', n)" by (cases "remove_fields fs (h, 0)")
  note r = remove_fields_spec [OF h h']
  then have e: "sh_is_empty h' \<longleftrightarrow> dom (sh_abs h) \<subseteq> set fs" by (simp add: sh_empty_abs restrict_empty)
  have "answers inv abs (ebind (st_del st k) (\<lambda>_. eok (IntV (of_nat n)))) s1
      (gives (number n) ((abs s)(k := None)))"
    by (rule answers_bind, rule del_law) (simp_all add: answers_eok gives_iff s1)
  then show "answers inv abs (case Some h of None \<Rightarrow> eok (IntV 0) | Some h \<Rightarrow>
      let (sh, removed) = remove_fields fs (h, 0)
      in if sh_is_empty sh then ebind (st_del st k) (\<lambda>_. eok (IntV (of_nat removed)))
         else ebind (st_set st k (Hash sh)) (\<lambda>_. eok (IntV (of_nat removed)))) s1
      (case Some (sh_abs h) of None \<Rightarrow> gives (number 0) (abs s) | Some m \<Rightarrow>
        gives (number (card (set fs \<inter> dom m)))
          ((abs s)(k := if dom m \<subseteq> set fs then None else Some (CHash (m |` (- set fs))))))"
    using r assms(2) s1 by (simp add: h' e gives_iff answers_set)
qed (simp add: answers_eok gives_iff)

lemma hgetall_answers:
  assumes "inv s"
  shows "answers inv abs (hgetall_execute \<sigma> st k) s (spec_hash e (HGetAllCommand k) (abs s))"
  unfolding hgetall_execute_def spec_hash.simps
proof (rule read_hash_answers [OF assms])
  fix s1 and h :: "(bytes, bytes) smart_hash"
  assume s1: "inv s1" "abs s1 = abs s" and h: "sh_inv h"
  obtain es h' where i: "sh_iter \<sigma> h = (es, h')" by (cases "sh_iter \<sigma> h")
  note s = sh_iter_spec(2,3) [OF h i]
  show "answers inv abs (case Some h of None \<Rightarrow> eok Null
      | Some h \<Rightarrow> list_reply (flat (sort_by_key (fst (sh_iter \<sigma> h))))) s1
      (case Some (sh_abs h) of None \<Rightarrow> gives (Inr CNull) (abs s)
       | Some m \<Rightarrow> \<lambda>r ks'. ks' = abs s \<and> (\<exists>es. lists_map es m \<and> r = Inr (CList (flat es)) \<and>
           sorted_wrt (\<lambda>a b. slice_cmp (fst a) (fst b) < 0) es))"
    using sort_by_key_spec [OF s(1)] s(2) s1 by (auto simp: i lists_map_def intro!: answers_list)
qed (simp add: answers_eok gives_iff)

lemma hrandfield_answers:
  assumes "inv s" and "draws_ok e"
  shows "answers inv abs (hrandfield_execute (c_pick e) (c_pick_multiple e) (c_order e) st k n w) s
    (spec_hash e (HRandFieldCommand k n w) (abs s))"
  unfolding hrandfield_execute_def spec_hash.simps
proof (rule read_hash_answers [OF assms(1)])
  fix s1 and h :: "(bytes, bytes) smart_hash"
  assume s1: "inv s1" "abs s1 = abs s" and h: "sh_inv h"
  let ?es = "sh_entries (c_order e) h" and ?m = "sh_abs h"
  have l: "lists_map ?es ?m" using sh_entries_spec [OF h] by (simp add: lists_map_def)
  have "case c_pick e 0 ?es of None \<Rightarrow> ?es = [] | Some x \<Rightarrow> x \<in> set ?es" using assms(2) by (simp add: draws_ok_def)
  then have p: "case c_pick e 0 ?es of None \<Rightarrow> ?m = Map.empty | Some (f, v) \<Rightarrow> f \<in> dom ?m"
    using l weak_map_of_SomeI [of _ _ ?es] by (auto simp: lists_map_def split: option.splits)
  have one: "value_wf v \<and> spec_hrand None w ?m (content_of v)"
    if "v = (case c_pick e 0 ?es of None \<Rightarrow> Null | Some (f, _) \<Rightarrow> Str f)" for v
    using p that by (auto simp: spec_hrand_def split: option.splits)
  have many: "spec_hrand (Some c) w ?m (CList (if w then flat ds else map fst ds))"
    if "ds = (if sint c < 0 then List.map_filter (\<lambda>i. c_pick e i ?es) [0..<nat (- sint c)]
       else c_pick_multiple e ?es (min (nat (sint c)) (length ?es)))" for c ds
    using that hrand_many [OF assms(2) l, of "[0..<nat (- sint c)]"] hrand_distinct [OF assms(2) l, of "nat (sint c)"]
    by (intro hrand_listed) (simp_all split: if_splits)
  show "answers inv abs (case Some h of
        None \<Rightarrow> (case n of None \<Rightarrow> eok Null | Some x \<Rightarrow> list_reply [])
      | Some h \<Rightarrow> let es = sh_entries (c_order e) h in case n of
          None \<Rightarrow> eok (case c_pick e 0 es of None \<Rightarrow> Null | Some (f, _) \<Rightarrow> Str f)
        | Some c \<Rightarrow> if sint c < 0 then fields_reply w (List.map_filter (\<lambda>i. c_pick e i es) [0..<nat (- sint c)])
            else fields_reply w (c_pick_multiple e es (min (nat (sint c)) (length es)))) s1
      (\<lambda>r ks'. ks' = abs s \<and> (\<exists>c. r = Inr c \<and> spec_hrand n w (fields_at (Some ?m)) c))"
    using one many s1 by (cases n) (simp_all add: Let_def answers_eok fields_answers)
next
  fix s1
  assume s1: "inv s1" "abs s1 = abs s"
  have "spec_hrand None w Map.empty CNull" by (simp add: spec_hrand_def)
  moreover have "spec_hrand (Some c) w Map.empty (CList [])" for c
    using hrand_listed [of "[]" Map.empty c w] by (cases w) (simp_all add: flat_def)
  ultimately show "answers inv abs (case None of
        None \<Rightarrow> (case n of None \<Rightarrow> eok Null | Some x \<Rightarrow> list_reply [])
      | Some h \<Rightarrow> let es = sh_entries (c_order e) h in case n of
          None \<Rightarrow> eok (case c_pick e 0 es of None \<Rightarrow> Null | Some (f, _) \<Rightarrow> Str f)
        | Some c \<Rightarrow> if sint c < 0 then fields_reply w (List.map_filter (\<lambda>i. c_pick e i es) [0..<nat (- sint c)])
            else fields_reply w (c_pick_multiple e es (min (nat (sint c)) (length es)))) s1
      (\<lambda>r ks'. ks' = abs s \<and> (\<exists>c. r = Inr c \<and> spec_hrand n w (fields_at None) c))"
    using s1 by (cases n) (simp_all add: answers_eok answers_list)
qed

lemma hincrby_answers:
  assumes "inv s" and "\<And>h. ok (Hash h)"
  shows "answers inv abs (hincrby_execute \<sigma> st k f i) s (spec_hash e (HIncrByCommand k f i) (abs s))"
  unfolding hincrby_execute_def spec_hash.simps Let_def
proof (rule hash_answers_empty [OF assms(1)])
  fix s1 and h :: "(bytes, bytes) smart_hash"
  assume s1: "inv s1" "abs s1 = abs s" and h: "sh_inv h"
  let ?no = "case sh_abs h f of Some t \<Rightarrow> parse_int i64_MIN i64_MAX t | None \<Rightarrow> Some 0"
  have r: "i64_MIN \<le> n \<and> n \<le> i64_MAX" if "?no = Some n" for n
    using that parse_int_range by (auto split: option.splits)
  have fin: "answers inv abs (ebind (st_set st k (Hash (fst (sh_insert \<sigma> h f v)))) (\<lambda>_. eok (IntV x))) s1
      (gives (Inr (CInt x)) ((abs s)(k \<mapsto> CHash ((sh_abs h)(f \<mapsto> v)))))" for v x
    using sh_insert_spec [OF h, of \<sigma> f v] assms(2) s1 by (cases "sh_insert \<sigma> h f v") (simp add: gives_iff answers_set)
  show "answers inv abs (ebind (eresult (field_i64 (sh_get h f))) (\<lambda>cur.
      case checked (sint cur + sint i) of None \<Rightarrow> eerr store_error.Overflow
      | Some new_value \<Rightarrow> ebind (st_set st k (Hash (fst (sh_insert \<sigma> h f (show_int (sint new_value)))))) (\<lambda>_. eok (IntV new_value)))) s1
      (case ?no of None \<Rightarrow> gives (Inl InvalidValue) (abs s)
       | Some n \<Rightarrow> if i64_MIN \<le> n + sint i \<and> n + sint i \<le> i64_MAX
           then gives (Inr (CInt (word_of_int (n + sint i)))) ((abs s)(k \<mapsto> CHash ((sh_abs h)(f \<mapsto> show_int (n + sint i)))))
           else gives (Inl store_error.Overflow) (abs s))"
    unfolding sh_get_abs [OF h] field_i64_spec
    using r fin s1
    by (cases ?no) (auto simp: sint_of_int sint_of_int' checked_def gives_iff answers_eerr)
qed

lemma hincrbyfloat_answers:
  assumes "inv s" and "\<And>h. ok (Hash h)"
  shows "answers inv abs (hincrbyfloat_execute (c_fl e) \<sigma> st k f x) s (spec_hash e (HIncrByFloatCommand k f x) (abs s))"
  unfolding hincrbyfloat_execute_def spec_hash.simps Let_def
proof (rule hash_answers_empty [OF assms(1)])
  fix s1 and h :: "(bytes, bytes) smart_hash"
  assume s1: "inv s1" "abs s1 = abs s" and h: "sh_inv h"
  let ?fl = "c_fl e"
  have fin: "answers inv abs (ebind (st_set st k (Hash (fst (sh_insert \<sigma> h f v)))) (\<lambda>_. eok (Float y))) s1
      (gives (Inr (CFloat y)) ((abs s)(k \<mapsto> CHash ((sh_abs h)(f \<mapsto> v)))))" for v y
    using sh_insert_spec [OF h, of \<sigma> f v] assms(2) s1 by (cases "sh_insert \<sigma> h f v") (simp add: gives_iff answers_set)
  show "answers inv abs (ebind (case sh_get h f of None \<Rightarrow> eok 0
        | Some v \<Rightarrow> if utf8_valid v then (case f_parse ?fl v of None \<Rightarrow> eerr InvalidValue | Some x \<Rightarrow> eok x) else eerr InvalidValue)
      (\<lambda>cur. if f_is_nan ?fl x then eerr InvalidValue
        else if \<not> f_is_finite ?fl (f_add ?fl cur x) then eerr InvalidValue
        else ebind (st_set st k (Hash (fst (sh_insert \<sigma> h f (f_show ?fl (f_add ?fl cur x))))))
               (\<lambda>_. eok (Float (f_add ?fl cur x))))) s1
      (case (case sh_abs h f of Some t \<Rightarrow> if utf8_valid t then f_parse ?fl t else None | None \<Rightarrow> Some 0) of
         None \<Rightarrow> gives (Inl InvalidValue) (abs s)
       | Some y \<Rightarrow> if f_is_nan ?fl x \<or> \<not> f_is_finite ?fl (f_add ?fl y x) then gives (Inl InvalidValue) (abs s)
           else gives (Inr (CFloat (f_add ?fl y x))) ((abs s)(k \<mapsto> CHash ((sh_abs h)(f \<mapsto> f_show ?fl (f_add ?fl y x))))))"
    unfolding sh_get_abs [OF h] using fin s1
    by (auto simp: gives_iff answers_eerr split: option.split)
qed

lemma hash_answers:
  assumes "inv s" and "\<And>h. ok (Hash h)" and "draws_ok e"
  shows "answers inv abs (execute_hash e st c) s (spec_hash e c (abs s))"
proof (cases c)
  case (HGetCommand k f)
  then show ?thesis unfolding HGetCommand execute_hash.simps spec_hash.simps hget_execute_def
    by (intro read_hash_answers [OF assms(1)])
      (auto simp: answers_eok gives_iff assms(1) sh_get_abs field_reply_def intro!: answers_eok split: option.split)
next
  case (HmGetCommand k fs)
  then show ?thesis unfolding HmGetCommand execute_hash.simps spec_hash.simps hmget_execute_def
    by (intro read_hash_answers [OF assms(1)])
      (auto simp: gives_iff assms(1) sh_get_abs field_reply_def map_replicate_const intro!: answers_eok split: option.split)
next
  case (HExistsCommand k f)
  then show ?thesis unfolding HExistsCommand execute_hash.simps spec_hash.simps hexists_execute_def
    by (intro read_hash_answers [OF assms(1)]) (auto simp: gives_iff assms(1) sh_contains_spec intro!: answers_eok)
next
  case (HLenCommand k)
  then show ?thesis unfolding HLenCommand execute_hash.simps spec_hash.simps hlen_execute_def
    by (intro read_hash_answers [OF assms(1)]) (auto simp: gives_iff assms(1) sh_len_abs intro!: answers_eok)
next
  case (HKeysCommand k)
  have "lists_map (sh_entries (c_order e) h) (sh_abs h)" if "sh_inv h" for h
    using sh_entries_spec [OF that] by (simp add: lists_map_def)
  then show ?thesis unfolding HKeysCommand execute_hash.simps spec_hash.simps hkeys_execute_def
    by (intro read_hash_answers [OF assms(1)] answers_list)
      (auto simp: assms(1) sh_entries_spec(3) lists_map_def)
next
  case (HValsCommand k)
  have "lists_map (sh_entries (c_order e) h) (sh_abs h)" if "sh_inv h" for h
    using sh_entries_spec [OF that] by (simp add: lists_map_def)
  then show ?thesis unfolding HValsCommand execute_hash.simps spec_hash.simps hvals_execute_def
    by (intro read_hash_answers [OF assms(1)] answers_list)
      (auto simp: assms(1) sh_entries_spec(4) lists_map_def)
qed (simp_all only: execute_hash.simps hset_answers hdel_answers hgetall_answers hrandfield_answers hincrby_answers
    hincrbyfloat_answers assms)

end

section \<open>Sets\<close>

context set_core
begin

lemma sadd_answers:
  assumes "inv s"
  shows "answers inv abs (sadd_execute st k x) s (spec_set (SAddCommand k x) (abs s))"
  using sadd_law [OF assms, of k "[x]"] unfolding sadd_execute_def spec_set.simps on_set_def
  by (auto simp: gives_iff answers_eok insert_Diff_if elim!: answers_bind answers_bind_err split: option.splits content.splits)

lemma srem_answers:
  assumes "inv s"
  shows "answers inv abs (srem_execute st k x) s (spec_set (SRemCommand k x) (abs s))"
  using srem_law [OF assms, of k "[x]"] unfolding srem_execute_def spec_set.simps on_set_def
  by (auto simp: gives_iff intro!: answers_eok elim!: answers_bind answers_bind_err split: option.splits content.splits)

lemma scard_answers:
  assumes "inv s"
  shows "answers inv abs (scard_execute st k) s (spec_set (SCardCommand k) (abs s))"
  using scard_law [OF assms, of k] assms unfolding scard_execute_def spec_set.simps on_set_def
  by (auto simp: gives_iff intro!: answers_eok elim!: answers_bind answers_bind_err split: option.splits content.splits)

lemma sismember_answers:
  assumes "inv s"
  shows "answers inv abs (sismember_execute st k x) s (spec_set (SIsMemberCommand k x) (abs s))"
  using sismember_law [OF assms, of k x] assms unfolding sismember_execute_def spec_set.simps on_set_def
  by (auto simp: gives_iff intro!: answers_eok elim!: answers_bind answers_bind_err split: option.splits content.splits)

lemma smembers_answers:
  assumes "inv s"
  shows "answers inv abs (smembers_execute st k) s (spec_set (SMembersCommand k) (abs s))"
  unfolding smembers_execute_def
proof (rule answers_get [OF assms])
  fix s1 v
  assume s1: "inv s1" "abs s1 = abs s" and v: "abs s k = Some (content_of v)"
  show "answers inv abs (case Some v of None \<Rightarrow> eok Null
      | Some (Set _) \<Rightarrow> ebind (st_smembers st k) (\<lambda>members. ebind (elift (ql_from_iter members 64)) (\<lambda>list. eok (List list)))
      | Some Null \<Rightarrow> eok Null | Some _ \<Rightarrow> eerr (WrongType ''SMEMBERS on non-set key'')) s1
      (spec_set (SMembersCommand k) (abs s))"
  proof (cases "\<exists>t. v = Set t")
    case True
    then obtain t where t: "v = Set t" by blast
    then obtain xs where "yields inv abs (st_smembers st k) s1 (Inr xs) (abs s)" "distinct xs" "set xs = set_of t"
      using smembers_law [OF s1(1), of k] s1(2) v by auto
    then show ?thesis using t v answers_list [of inv _ "spec_set (SMembersCommand k) (abs s)" xs abs]
      by (auto simp: list_reply_def unless_null_def on_set_def elim!: answers_bind)
  next
    case False
    then show ?thesis using v s1
      by (cases v) (auto simp: unless_null_def on_set_def gives_iff intro!: answers_eok answers_eerr)
  qed
qed (simp add: unless_null_def on_set_def gives_iff answers_eok)

lemma drawn_answers:
  assumes "inv s"
    and "\<And>s1 v. inv s1 \<Longrightarrow> abs s1 = abs s \<Longrightarrow> abs s k = Some (content_of v) \<Longrightarrow> v \<noteq> Null \<Longrightarrow>
      answers inv abs (ebind m members_reply) s1 (on_set k (abs s) (gives (Inr CNull) (abs s)) f)"
  shows "answers inv abs (ebind (st_get st k) (\<lambda>vo. if vo = None \<or> vo = Some Null then eok Null else ebind m members_reply)) s
    (unless_null k (abs s) (on_set k (abs s) (gives (Inr CNull) (abs s)) f))"
  using assms
  by (intro answers_get) (auto simp: unless_null_def on_set_def gives_iff content_cases intro!: answers_eok)

lemma srandmember_answers:
  assumes "inv s"
  shows "answers inv abs (srandmember_execute st k n) s (spec_set (SRandMemberCommand k n) (abs s))"
  unfolding srandmember_execute_def spec_set.simps
proof (rule drawn_answers [OF assms])
  fix s1 v
  assume s1: "inv s1" "abs s1 = abs s" and "abs s k = Some (content_of v)"
  then show "answers inv abs (ebind (st_srandmember st k n) members_reply) s1 (on_set k (abs s) (gives (Inr CNull) (abs s))
      (\<lambda>S r ks'. ks' = abs s \<and> (\<exists>xs. r = listing xs \<and> distinct xs \<and> set xs \<subseteq> S \<and> length xs = min (nat n) (card S))))"
    using srandmember_law [OF s1(1), of k n]
    by (auto simp: on_set_def intro!: answers_members elim!: answers_bind answers_bind_err split: content.splits)
qed

lemma spop_answers:
  assumes "inv s"
  shows "answers inv abs (spop_execute st k n) s (spec_set (SPopCommand k n) (abs s))"
  unfolding spop_execute_def spec_set.simps
proof (rule drawn_answers [OF assms])
  fix s1 v
  assume s1: "inv s1" "abs s1 = abs s" and "abs s k = Some (content_of v)"
  then show "answers inv abs (ebind (st_spop st k n) members_reply) s1 (on_set k (abs s) (gives (Inr CNull) (abs s))
      (\<lambda>S r ks'. \<exists>xs. r = listing xs \<and> distinct xs \<and> set xs \<subseteq> S \<and> length xs = min (pop_count n) (card S) \<and>
        ks' = (abs s)(k := if S \<subseteq> set xs then None else Some (CSet (S - set xs)))))"
    using spop_law [OF s1(1), of k n]
    by (auto simp: on_set_def intro!: answers_members elim!: answers_bind answers_bind_err split: content.splits)
qed

lemma set_command_answers:
  "inv s \<Longrightarrow> \<not> crashes_set c \<Longrightarrow> answers inv abs (execute_set st c) s (spec_set c (abs s))"
  by (cases c)
    (simp_all del: spec_set.simps add: sadd_answers srem_answers scard_answers smembers_answers sismember_answers
      srandmember_answers spop_answers)

end

section \<open>Bitmaps\<close>

lemma bit_at_bm: "bit_at (bm_bytes b) i = bm_bit b i"
  by (simp add: bit_at_def bm_bit_def)

lemma bm_bit_and:
  "length (bm_bytes (bm_and a b)) = min (length (bm_bytes a)) (length (bm_bytes b))"
  "bm_bit (bm_and a b) i \<longleftrightarrow> bm_bit a i \<and> bm_bit b i"
  by (auto simp: bm_and_def bm_bit_def bit_and_iff)

lemma get_or_zero_bit: "bit (get_or_zero bs (i div 8)) (7 - i mod 8) \<longleftrightarrow> bit_at bs i"
  by (simp add: get_or_zero_def bit_at_def bm_bit_def)

lemma bm_bit_or:
  "length (bm_bytes (bm_or a b)) = max (length (bm_bytes a)) (length (bm_bytes b))"
  "bm_bit (bm_or a b) i \<longleftrightarrow> bm_bit a i \<or> bm_bit b i"
  by (auto simp: bm_or_def bm_bit_def bit_or_iff Let_def get_or_zero_def split: if_splits)

lemma bm_bit_xor:
  "length (bm_bytes (bm_xor a b)) = max (length (bm_bytes a)) (length (bm_bytes b))"
  "bm_bit (bm_xor a b) i \<longleftrightarrow> bm_bit a i \<noteq> bm_bit b i"
  by (auto simp: bm_xor_def bm_bit_def bit_xor_iff Let_def get_or_zero_def split: if_splits)

lemma bm_bit_not:
  "length (bm_bytes (bm_not a)) = length (bm_bytes a)"
  "i < 8 * length (bm_bytes a) \<Longrightarrow> bm_bit (bm_not a) i \<longleftrightarrow> \<not> bm_bit a i"
  by (auto simp: bm_not_def bm_bit_def bit_not_iff)

lemma Min_insert_min: "finite X \<Longrightarrow> Min (insert (min a b) X) = Min (insert a (insert b X))"
  and Max_insert_max: "finite X \<Longrightarrow> Max (insert (max a b) X) = Max (insert a (insert b X))"
  for X :: "nat set"
  by (cases "X = {}"; simp add: min.assoc max.assoc)+

lemma foldl_and:
  "length (bm_bytes (foldl bm_and b bs)) = Min (insert (length (bm_bytes b)) ((\<lambda>c. length (bm_bytes c)) ` set bs)) \<and>
   (\<forall>i. bm_bit (foldl bm_and b bs) i \<longleftrightarrow> (\<forall>c\<in>set (b # bs). bm_bit c i))"
  by (induction bs arbitrary: b) (simp_all add: bm_bit_and Min_insert_min del: Min_insert)

lemma foldl_or:
  "length (bm_bytes (foldl bm_or b bs)) = Max (insert (length (bm_bytes b)) ((\<lambda>c. length (bm_bytes c)) ` set bs)) \<and>
   (\<forall>i. bm_bit (foldl bm_or b bs) i \<longleftrightarrow> (\<exists>c\<in>set (b # bs). bm_bit c i))"
  by (induction bs arbitrary: b) (simp_all add: bm_bit_or Max_insert_max del: Max_insert)

lemma foldl_xor:
  "length (bm_bytes (foldl bm_xor b bs)) = Max (insert (length (bm_bytes b)) ((\<lambda>c. length (bm_bytes c)) ` set bs)) \<and>
   (\<forall>i. bm_bit (foldl bm_xor b bs) i \<longleftrightarrow> odd (length (filter (\<lambda>c. bm_bit c i) (b # bs))))"
  by (induction bs arbitrary: b) (simp_all add: bm_bit_xor Max_insert_max del: Max_insert)

lemma bitop_result_spec:
  assumes "bitop_result op bs = Some b"
  shows "spec_bitop op (map bm_bytes bs) (bm_bytes b)"
proof (cases bs)
  case Nil
  then show ?thesis using assms
    by (auto simp: bitop_result_def spec_bitop_def bm_new_def bm_not_def Let_def split: if_splits)
next
  case (Cons a as)
  have f: "length (filter (\<lambda>x. bit_at x i) (map bm_bytes cs)) = length (filter (\<lambda>c. bm_bit c i) cs)" for cs i
    by (simp add: filter_map comp_def bit_at_bm)
  have ops: "op = ascii ''NOT'' \<and> b = bm_not a \<or> op = ascii ''AND'' \<and> b = foldl bm_and a as \<or>
      op = ascii ''OR'' \<and> b = foldl bm_or a as \<or> op = ascii ''XOR'' \<and> b = foldl bm_xor a as"
    using assms Cons by (auto simp: bitop_result_def Let_def split: if_splits)
  have ne: "ascii ''NOT'' \<noteq> ascii ''AND''" "ascii ''NOT'' \<noteq> ascii ''OR''" "ascii ''NOT'' \<noteq> ascii ''XOR''"
    "ascii ''AND'' \<noteq> ascii ''OR''" "ascii ''AND'' \<noteq> ascii ''XOR''" "ascii ''OR'' \<noteq> ascii ''XOR''"
    by (simp_all add: ascii_def of_char_def horner_sum_simps)
  show ?thesis using ops foldl_and [of a as] foldl_or [of a as] foldl_xor [of a as] ne ne [symmetric] f [where cs = "a # as"]
    by (auto simp: spec_bitop_def Cons bit_at_bm bm_bit_not image_image simp del: Min_insert Max_insert)
qed

lemma bitop_result_None: "bitop_result op bs = None \<longleftrightarrow> op \<notin> {ascii ''NOT'', ascii ''AND'', ascii ''OR'', ascii ''XOR''}"
  by (auto simp: bitop_result_def Let_def)

context kv_core
begin

text \<open>A bitmap command reads a key that is absent or of another type as an empty bitmap.\<close>

lemma read_bits:
  assumes "inv s"
    and "\<And>s1 b. inv s1 \<Longrightarrow> abs s1 = abs s \<Longrightarrow> bm_bytes b = bits_at k (abs s) \<Longrightarrow> answers inv abs (f b) s1 P"
    and "g None = f bm_new" and "\<And>v. g (Some v) = f (case v of Bitmap b \<Rightarrow> b | _ \<Rightarrow> bm_new)"
  shows "answers inv abs (ebind (st_get st k) g) s P"
proof (rule answers_get [OF assms(1)])
  fix s1
  assume "inv s1" "abs s1 = abs s" "abs s k = None"
  then show "answers inv abs (g None) s1 P" using assms(2,3) by (simp add: bits_at_def bm_new_def)
next
  fix s1 v
  assume s1: "inv s1" "abs s1 = abs s" and "abs s k = Some (content_of v)"
  then have "bm_bytes (case v of Bitmap b \<Rightarrow> b | _ \<Rightarrow> bm_new) = bits_at k (abs s)"
    by (cases v) (simp_all add: bits_at_def bm_new_def)
  then show "answers inv abs (g (Some v)) s1 P" using assms(2,4) s1 by simp
qed

lemma setbit_answers:
  assumes "inv s" and "\<And>b. ok (Bitmap b)"
  shows "answers inv abs (setbit_execute st k i b) s (spec_bitmap (SetBitCommand k i b) (abs s))"
  unfolding setbit_execute_def
proof (rule read_bits [OF assms(1), where f = "\<lambda>bm. ebind (elift (set_bit_bm bm i b)) (\<lambda>(old, bmp).
    ebind (st_set st k (Bitmap bmp)) (\<lambda>_. eok (IntV (if old then 1 else 0))))"])
  fix s1 and bm :: bitmap
  assume s1: "inv s1" "abs s1 = abs s" and bm: "bm_bytes bm = bits_at k (abs s)"
  obtain bm' where bm': "set_bit_bm bm i b = Some (bm_bit bm i, bm')" "\<forall>j. bm_bit bm' j = (if j = i then b else bm_bit bm j)"
    "length (bm_bytes bm') = max (length (bm_bytes bm)) (i div 8 + 1)" using set_bit_spec by blast
  have "spec_bitmap (SetBitCommand k i b) (abs s) (truth (bm_bit bm i)) ((abs s)(k \<mapsto> CBits (bm_bytes bm')))"
    using bm' by (auto simp: bit_at_bm simp flip: bm)
  then show "answers inv abs (ebind (elift (set_bit_bm bm i b)) (\<lambda>(old, bmp).
      ebind (st_set st k (Bitmap bmp)) (\<lambda>_. eok (IntV (if old then 1 else 0))))) s1 (spec_bitmap (SetBitCommand k i b) (abs s))"
    using assms(2) s1 by (auto simp: bm'(1) simp del: spec_bitmap.simps intro!: answers_set)
qed (simp_all split: zvalue.split)

lemma getbit_answers:
  assumes "inv s"
  shows "answers inv abs (getbit_execute st k i) s (spec_bitmap (GetBitCommand k i) (abs s))"
  unfolding getbit_execute_def
proof (rule read_bits [OF assms, where f = "\<lambda>bm. eok (IntV (if bm_bit bm i then 1 else 0))"])
  fix s1 and bm :: bitmap
  assume s1: "inv s1" "abs s1 = abs s" and "bm_bytes bm = bits_at k (abs s)"
  then have "bit_at (bits_at k (abs s)) i = bm_bit bm i" by (metis bit_at_bm)
  then show "answers inv abs (eok (IntV (if bm_bit bm i then 1 else 0))) s1 (spec_bitmap (GetBitCommand k i) (abs s))"
    using s1 by (simp add: gives_iff answers_eok)
qed (simp_all add: get_bit_spec bm_new_def bm_bit_def split: zvalue.split)

lemma bitcount_answers:
  assumes "inv s"
  shows "answers inv abs (bitcount_execute cpu st k i j) s (spec_bitmap (BitCountCommand k i j) (abs s))"
  unfolding bitcount_execute_def
proof (rule read_bits [OF assms, where f = "\<lambda>bm. eok (IntV (of_nat (card {n. i \<le> n \<and> n < j \<and> bm_bit bm n})))"])
  fix s1 and bm :: bitmap
  assume s1: "inv s1" "abs s1 = abs s" and "bm_bytes bm = bits_at k (abs s)"
  then have "bit_at (bits_at k (abs s)) n = bm_bit bm n" for n by (metis bit_at_bm)
  then show "answers inv abs (eok (IntV (of_nat (card {n. i \<le> n \<and> n < j \<and> bm_bit bm n})))) s1
      (spec_bitmap (BitCountCommand k i j) (abs s))"
    using s1 by (simp add: gives_iff answers_eok)
qed (simp_all add: bitcount_card bm_new_def bm_bit_def split: zvalue.split)

lemma read_bitmaps_spec:
  "inv s \<Longrightarrow> \<exists>bs. yields inv abs (read_bitmaps st keys) s (Inr bs) (abs s) \<and>
     map bm_bytes bs = List.map_filter (\<lambda>k. Option.bind (abs s k) as_bits) keys"
proof (induction keys arbitrary: s)
  case (Cons k keys)
  obtain vo s1 where vo: "st_get st k s = Some (s1, Inr vo)" "inv s1" "abs s1 = abs s" "map_option content_of vo = abs s k"
    using get_law [OF Cons.prems, of k] by (auto simp: yields_def)
  obtain bs s2 where bs: "read_bitmaps st keys s1 = Some (s2, Inr bs)" "inv s2" "abs s2 = abs s"
    "map bm_bytes bs = List.map_filter (\<lambda>k. Option.bind (abs s k) as_bits) keys"
    using Cons.IH [OF vo(2)] vo(3) by (auto simp: yields_def)
  show ?case
  proof (cases vo)
    case None
    then show ?thesis using bs vo by (auto simp: yields_def ebind_def eok_apply map_filter_simps)
  next
    case (Some v)
    then show ?thesis using bs vo
      by (cases v) (auto simp: yields_def ebind_def eok_apply map_filter_simps simp flip: vo(4))
  qed
qed (simp add: yields_def eok_apply map_filter_simps)

lemma bitop_answers:
  assumes "inv s" and "\<And>b. ok (Bitmap b)"
  shows "answers inv abs (bitop_execute st op d keys) s (spec_bitmap (BitOpCommand op d keys) (abs s))"
proof -
  obtain bs where bs: "yields inv abs (read_bitmaps st keys) s (Inr bs) (abs s)"
    "map bm_bytes bs = List.map_filter (\<lambda>k. Option.bind (abs s k) as_bits) keys"
    using read_bitmaps_spec [OF assms(1)] by blast
  show ?thesis unfolding bitop_execute_def
  proof (rule answers_bind [OF bs(1)])
    fix s1
    assume s1: "inv s1" "abs s1 = abs s"
    show "answers inv abs (case bitop_result op bs of None \<Rightarrow> eerr (Syntax ''Unknown BITOP'' op)
        | Some result \<Rightarrow> ebind (st_set st d (Bitmap result)) (\<lambda>_. eok (IntV (of_nat (bit_len result))))) s1
        (spec_bitmap (BitOpCommand op d keys) (abs s))"
    proof (cases "bitop_result op bs")
      case None
      then show ?thesis using s1 bitop_result_None [of op bs] by (simp add: gives_iff answers_eerr)
    next
      case (Some b)
      have "op \<in> {ascii ''NOT'', ascii ''AND'', ascii ''OR'', ascii ''XOR''}" using bitop_result_None [of op bs] Some by auto
      then have "spec_bitmap (BitOpCommand op d keys) (abs s) (number (bit_len b)) ((abs s)(d \<mapsto> CBits (bm_bytes b)))"
        using bitop_result_spec [OF Some] bs(2) by (auto simp: bit_len_def mult.commute)
      then show ?thesis using assms(2) s1 Some by (simp add: answers_set del: spec_bitmap.simps)
    qed
  qed
qed

lemma bitmap_answers:
  "inv s \<Longrightarrow> (\<And>b. ok (Bitmap b)) \<Longrightarrow> \<not> crashes_bitmap c \<Longrightarrow> answers inv abs (execute_bitmap e st c) s (spec_bitmap c (abs s))"
  by (cases c) (simp_all del: spec_bitmap.simps add: setbit_answers getbit_answers bitcount_answers bitop_answers)

lemma auth_answers: "inv s \<Longrightarrow> answers inv abs (auth_execute st u p) s (spec_server e (AuthCommand u p) (abs s))"
  unfolding auth_execute_def
  by (rule answers_get) (auto simp: typed_def as_str_None gives_iff answers_eok answers_eerr split: zvalue.split)

end

section \<open>All commands\<close>

text \<open>The commands an engine serves by the operations on single keys, \<open>MSET\<close>, \<open>MGET\<close> and \<open>FLUSHDB\<close>: all but those
  that rename a key or ask about the whole store.\<close>

fun by_key_server :: "server_command \<Rightarrow> bool" where
  "by_key_server DbSizeCommand \<longleftrightarrow> False"
| "by_key_server (InfoCommand s) \<longleftrightarrow> False"
| "by_key_server SaveCommand \<longleftrightarrow> False"
| "by_key_server BgSaveCommand \<longleftrightarrow> False"
| "by_key_server (ShutdownCommand b) \<longleftrightarrow> False"
| "by_key_server _ \<longleftrightarrow> True"

fun by_key_keys :: "keys_command \<Rightarrow> bool" where
  "by_key_keys (RenameCommand a b) \<longleftrightarrow> False"
| "by_key_keys (RenameNxCommand a b) \<longleftrightarrow> False"
| "by_key_keys _ \<longleftrightarrow> True"

fun by_key :: "command \<Rightarrow> bool" where
  "by_key (Keys c) \<longleftrightarrow> by_key_keys c"
| "by_key (Server c) \<longleftrightarrow> by_key_server c"
| "by_key _ \<longleftrightarrow> True"

locale total_core = set_core +
  assumes ok_all: "ok v"
begin

lemma by_key_server_answers:
  assumes "inv s" and "by_key_server c"
  shows "answers inv abs (execute_server e st c) s (spec_server e c (abs s))"
  using assms
  by (cases c)
    (auto simp: ping_execute_def echo_execute_def time_execute_def select_execute_def subscribe_execute_def
      unsubscribe_execute_def publish_execute_def gives_iff simp del: spec_server.simps(10)
      intro!: answers_eok answers_eerr auth_answers)

lemma by_key_keys_answers: "inv s \<Longrightarrow> by_key_keys c \<Longrightarrow> answers inv abs (execute_keys st c) s (spec_keys c (abs s))"
  by (cases c) (simp_all del: spec_keys.simps add: del_answers exists_answers flushdb_answers)

theorem by_key_answers:
  assumes "inv s" and "command_wf c" and "\<not> crashes c (abs s)" and "draws_ok e" and "by_key c"
  shows "answers inv abs (execute e st c) s (spec e c (abs s))"
  using assms ok_all
  by (cases c)
    (simp_all add: string_answers int_answers float_answers by_key_keys_answers list_answers set_command_answers hash_answers
      bitmap_answers by_key_server_answers)

end

text \<open>An engine that keeps every value and counts its keys.\<close>

locale full_engine = total_core st inv abs ok + kv_engine st inv abs ok
  for st :: "'s storage" and inv and abs and ok +
  assumes dbsize_law: "inv s \<Longrightarrow> yields inv abs (st_dbsize st) s (Inr (card (dom (abs s)))) (abs s)"
    and save_law: "inv s \<Longrightarrow> \<exists>r. yields inv abs (st_save st) s r (abs s)"
begin

lemma save_bind:
  assumes "inv s" and "\<And>s1. inv s1 \<Longrightarrow> abs s1 = abs s \<Longrightarrow> answers inv abs (f ()) s1 P" and "\<And>x. P (Inl x) (abs s)"
  shows "answers inv abs (ebind (st_save st) f) s P"
proof -
  obtain r where r: "yields inv abs (st_save st) s r (abs s)" using save_law [OF assms(1)] by blast
  show ?thesis
  proof (cases r)
    case (Inl x)
    then show ?thesis using r assms(3) by (auto intro: answers_bind_err)
  next
    case (Inr u)
    then show ?thesis using r assms(2) by (auto intro: answers_bind)
  qed
qed

lemma server_answers:
  assumes "inv s"
  shows "answers inv abs (execute_server e st c) s (spec_server e c (abs s))"
proof (cases "by_key_server c")
  case False
  then show ?thesis
  proof (cases c)
    case (ShutdownCommand b)
    then show ?thesis using assms
      by (auto simp: shutdown_execute_def intro!: answers_eerr save_bind)
  next
    case (InfoCommand sec)
    then show ?thesis using assms dbsize_law [OF assms]
      by (auto simp: info_execute_def answers_def yields_def eok_apply eerr_apply)
  qed (use assms dbsize_law [OF assms] in \<open>auto simp: dbsize_execute_def save_execute_def bgsave_execute_def
      gives_iff intro!: answers_eok answers_eerr save_bind elim!: answers_bind\<close>)
qed (use assms by_key_server_answers in blast)

theorem execute_answers:
  assumes "inv s" and "command_wf c" and "\<not> crashes c (abs s)" and "draws_ok e"
  shows "answers inv abs (execute e st c) s (spec e c (abs s))"
proof (cases "by_key c")
  case False
  then show ?thesis using assms(1) by (cases c) (simp_all add: keys_answers server_answers)
qed (use assms by_key_answers in blast)

end

end
