(* ===== verification/Memory.thy ===== *)
theory Memory
  imports Engine
begin

text \<open>
  \<open>engine/memory.rs\<close>: the engine that keeps values in a \<open>DashMap\<close>, a concurrent map of another crate.
  It is an argument, a record of the operations called, and \<open>dash_ok\<close> says what the crate documents of
  them; \<open>alist_dash\<close> shows that this can hold. The geo operations are left out.
\<close>

section \<open>The map of the crate\<close>

record ('d, 'v) dash =
  dm_new :: 'd
  dm_get :: "'d \<Rightarrow> bytes \<Rightarrow> 'v option"
  dm_insert :: "'d \<Rightarrow> bytes \<Rightarrow> 'v \<Rightarrow> 'd \<times> 'v option"
  dm_remove :: "'d \<Rightarrow> bytes \<Rightarrow> 'd \<times> (bytes \<times> 'v) option"
  dm_contains_key :: "'d \<Rightarrow> bytes \<Rightarrow> bool"
  dm_assign :: "'d \<Rightarrow> bytes \<Rightarrow> 'v \<Rightarrow> 'd"
  dm_clear :: "'d \<Rightarrow> 'd"
  dm_len :: "'d \<Rightarrow> nat"
  dm_iter :: "'d \<Rightarrow> (bytes \<times> 'v) list"

text \<open>\<open>dm_assign\<close> is an assignment through the guard that \<open>get_mut\<close> returns for a key that is there.\<close>

definition dash_ok :: "('d, 'v) dash \<Rightarrow> bool" where
  "dash_ok dm \<longleftrightarrow>
     dm_get dm (dm_new dm) = Map.empty \<and>
     (\<forall>d k v. dm_get dm (fst (dm_insert dm d k v)) = (dm_get dm d)(k \<mapsto> v) \<and> snd (dm_insert dm d k v) = dm_get dm d k) \<and>
     (\<forall>d k. dm_get dm (fst (dm_remove dm d k)) = (dm_get dm d)(k := None) \<and>
        snd (dm_remove dm d k) = map_option (Pair k) (dm_get dm d k)) \<and>
     (\<forall>d k. dm_contains_key dm d k \<longleftrightarrow> dm_get dm d k \<noteq> None) \<and>
     (\<forall>d k v. dm_get dm d k \<noteq> None \<longrightarrow> dm_get dm (dm_assign dm d k v) = (dm_get dm d)(k \<mapsto> v)) \<and>
     (\<forall>d. dm_get dm (dm_clear dm d) = Map.empty) \<and>
     (\<forall>d. finite (dom (dm_get dm d)) \<and> dm_len dm d = card (dom (dm_get dm d))) \<and>
     (\<forall>d. distinct (map fst (dm_iter dm d)) \<and> map_of (dm_iter dm d) = dm_get dm d)"

lemma dash_okD:
  assumes "dash_ok dm"
  shows "dm_get dm (dm_new dm) = Map.empty"
    and "dm_get dm (fst (dm_insert dm d k v)) = (dm_get dm d)(k \<mapsto> v)"
    and "snd (dm_insert dm d k v) = dm_get dm d k"
    and "dm_get dm (fst (dm_remove dm d k)) = (dm_get dm d)(k := None)"
    and "snd (dm_remove dm d k) = map_option (Pair k) (dm_get dm d k)"
    and "dm_contains_key dm d k \<longleftrightarrow> dm_get dm d k \<noteq> None"
    and "dm_get dm d k = Some u \<Longrightarrow> dm_get dm (dm_assign dm d k v) = (dm_get dm d)(k \<mapsto> v)"
    and "dm_get dm (dm_clear dm d) = Map.empty"
    and "dm_len dm d = card (dom (dm_get dm d))"
    and "distinct (map fst (dm_iter dm d))" and "map_of (dm_iter dm d) = dm_get dm d"
  using assms unfolding dash_ok_def by simp_all

definition alist_dash :: "((bytes \<times> 'v) list, 'v) dash" where
  "alist_dash =
     \<lparr>dm_new = [],
      dm_get = map_of,
      dm_insert = \<lambda>d k v. ((k, v) # d, map_of d k),
      dm_remove = \<lambda>d k. (filter (\<lambda>e. fst e \<noteq> k) d, map_option (Pair k) (map_of d k)),
      dm_contains_key = \<lambda>d k. map_of d k \<noteq> None,
      dm_assign = \<lambda>d k v. (k, v) # d,
      dm_clear = \<lambda>_. [],
      dm_len = \<lambda>d. length (remdups (map fst d)),
      dm_iter = \<lambda>d. map (\<lambda>k. (k, the (map_of d k))) (remdups (map fst d))\<rparr>"

lemma alist_dash_ok: "dash_ok (alist_dash :: ((bytes \<times> 'v) list, 'v) dash)"
proof -
  have "card (dom (map_of d)) = length (remdups (map fst d))" for d :: "(bytes \<times> 'v) list"
    by (simp add: dom_map_of_conv_image_fst length_remdups_card_conv)
  moreover have "map_of (map (\<lambda>k. (k, the (map_of d k))) (remdups (map fst d))) = map_of d" for d :: "(bytes \<times> 'v) list"
  proof
    fix k
    have "map_of (map (\<lambda>k. (k, the (map_of d k))) ks) k = (if k \<in> set ks then Some (the (map_of d k)) else None)" for ks
      by (induction ks) auto
    then show "map_of (map (\<lambda>k. (k, the (map_of d k))) (remdups (map fst d))) k = map_of d k"
      using map_of_eq_None_iff [of d k] by (cases "map_of d k") simp_all
  qed
  ultimately show ?thesis
    unfolding dash_ok_def by (simp add: alist_dash_def map_of_filter_key finite_dom_map_of comp_def)
qed

text \<open>A generator that takes members from the front.\<close>

definition first_rng :: rng where
  "first_rng = \<lparr>rng_choose = \<lambda>_ xs. case xs of [] \<Rightarrow> None | x # _ \<Rightarrow> Some x, rng_choose_multiple = \<lambda>xs n. take n xs\<rparr>"

lemma first_rng_ok: "rng_ok first_rng"
  unfolding rng_ok_def
proof (intro conjI allI)
  fix xs :: "bytes list" and n
  show "\<exists>ys. mset xs = mset (rng_choose_multiple first_rng xs n) + ys \<and>
      length (rng_choose_multiple first_rng xs n) = min n (length xs)"
    by (rule exI [of _ "mset (drop n xs)"]) (simp add: first_rng_def min.commute flip: mset_append)
qed (simp add: first_rng_def split: list.split)

section \<open>Operations\<close>

definition mem_set :: "('d, zvalue) dash \<Rightarrow> bytes \<Rightarrow> zvalue \<Rightarrow> ('d, unit) engine_op" where
  "mem_set dm key value d = Some (fst (dm_insert dm d key value), Inr ())"

definition mem_get :: "('d, zvalue) dash \<Rightarrow> bytes \<Rightarrow> ('d, zvalue option) engine_op" where
  "mem_get dm key d = Some (d, Inr (dm_get dm d key))"

definition mem_del :: "('d, zvalue) dash \<Rightarrow> bytes \<Rightarrow> ('d, bool) engine_op" where
  "mem_del dm key d = (let (d, old) = dm_remove dm d key in Some (d, Inr (old \<noteq> None)))"

fun mem_mset :: "('d, zvalue) dash \<Rightarrow> (bytes \<times> zvalue) list \<Rightarrow> ('d, unit) engine_op" where
  "mem_mset dm [] d = Some (d, Inr ())"
| "mem_mset dm ((key, value) # kvs) d = mem_mset dm kvs (fst (dm_insert dm d key value))"

definition mem_mget :: "('d, zvalue) dash \<Rightarrow> bytes list \<Rightarrow> ('d, zvalue option list) engine_op" where
  "mem_mget dm keys d = Some (d, Inr (map (dm_get dm d) keys))"

definition mem_rename :: "('d, zvalue) dash \<Rightarrow> bytes \<Rightarrow> bytes \<Rightarrow> ('d, unit) engine_op" where
  "mem_rename dm from to d =
     (case dm_remove dm d from of
        (d, Some (_, value)) \<Rightarrow> Some (fst (dm_insert dm d to value), Inr ())
      | (d, None) \<Rightarrow> Some (d, Inl KeyNotFound))"

definition mem_renamenx :: "('d, zvalue) dash \<Rightarrow> bytes \<Rightarrow> bytes \<Rightarrow> ('d, bool) engine_op" where
  "mem_renamenx dm from to d =
     (if dm_contains_key dm d to then Some (d, Inr False)
      else case dm_remove dm d from of
             (d, Some (_, value)) \<Rightarrow> Some (fst (dm_insert dm d to value), Inr True)
           | (d, None) \<Rightarrow> Some (d, Inl KeyNotFound))"

definition mem_flushdb :: "('d, zvalue) dash \<Rightarrow> ('d, unit) engine_op" where
  "mem_flushdb dm d = Some (dm_clear dm d, Inr ())"

definition mem_dbsize :: "('d, zvalue) dash \<Rightarrow> ('d, nat) engine_op" where
  "mem_dbsize dm d = Some (d, Inr (dm_len dm d))"

definition mem_save :: "('d, unit) engine_op" where
  "mem_save = eerr (UnsupportedOperation ''SAVE not supported for in-memory storage'')"

definition mem_sadd :: "('d, zvalue) dash \<Rightarrow> bytes \<Rightarrow> bytes list \<Rightarrow> ('d, nat) engine_op" where
  "mem_sadd dm key members d =
     (case dm_get dm d key of
        Some (Set s) \<Rightarrow> (let (s, added) = add_members members (s, 0) in Some (dm_assign dm d key (Set s), Inr added))
      | Some _ \<Rightarrow> Some (d, Inl (WrongType ''SADD: key is not a set''))
      | None \<Rightarrow> (let (s, added) = add_members members ([], 0) in Some (fst (dm_insert dm d key (Set s)), Inr added)))"

definition mem_smembers :: "('d, zvalue) dash \<Rightarrow> (bytes, unit) order \<Rightarrow> bytes \<Rightarrow> ('d, bytes list) engine_op" where
  "mem_smembers dm \<sigma> key d =
     (case dm_get dm d key of
        Some (Set s) \<Rightarrow> Some (d, Inr (set_members \<sigma> s))
      | Some _ \<Rightarrow> Some (d, Inl (WrongType ''SMEMBERS: key is not a set''))
      | None \<Rightarrow> Some (d, Inr []))"

definition mem_scard :: "('d, zvalue) dash \<Rightarrow> bytes \<Rightarrow> ('d, nat) engine_op" where
  "mem_scard dm key d =
     (case dm_get dm d key of
        Some (Set s) \<Rightarrow> Some (d, Inr (length s))
      | Some _ \<Rightarrow> Some (d, Inl (WrongType ''SCARD: key is not a set''))
      | None \<Rightarrow> Some (d, Inr 0))"

definition mem_sismember :: "('d, zvalue) dash \<Rightarrow> bytes \<Rightarrow> bytes \<Rightarrow> ('d, bool) engine_op" where
  "mem_sismember dm key member d =
     (case dm_get dm d key of
        Some (Set s) \<Rightarrow> Some (d, Inr (map_of s member \<noteq> None))
      | Some _ \<Rightarrow> Some (d, Inl (WrongType ''SISMEMBER: key is not a set''))
      | None \<Rightarrow> Some (d, Inr False))"

text \<open>A set that loses its last member is removed after the guard of the entry is released.\<close>

definition mem_srem :: "('d, zvalue) dash \<Rightarrow> bytes \<Rightarrow> bytes list \<Rightarrow> ('d, nat) engine_op" where
  "mem_srem dm key members d =
     (case dm_get dm d key of
        Some (Set s) \<Rightarrow>
          (let (s, removed) = remove_members members (s, 0); d = dm_assign dm d key (Set s)
           in Some (if s = [] then fst (dm_remove dm d key) else d, Inr removed))
      | Some _ \<Rightarrow> Some (d, Inl (WrongType ''SREM: key is not a set''))
      | None \<Rightarrow> Some (d, Inr 0))"

definition mem_srandmember ::
  "('d, zvalue) dash \<Rightarrow> (bytes, unit) order \<Rightarrow> rng \<Rightarrow> bytes \<Rightarrow> int \<Rightarrow> ('d, bytes list) engine_op" where
  "mem_srandmember dm \<sigma> rg key cnt d =
     (case dm_get dm d key of
        Some (Set s) \<Rightarrow> Some (d, Inr (random_members \<sigma> rg cnt s))
      | Some _ \<Rightarrow> Some (d, Inl (WrongType ''SRANDMEMBER: key is not a set''))
      | None \<Rightarrow> Some (d, Inr []))"

definition mem_spop ::
  "('d, zvalue) dash \<Rightarrow> (bytes, unit) order \<Rightarrow> rng \<Rightarrow> bytes \<Rightarrow> int \<Rightarrow> ('d, bytes list) engine_op" where
  "mem_spop dm \<sigma> rg key cnt d =
     (case dm_get dm d key of
        Some (Set s) \<Rightarrow>
          (let (s, out) = pop_members \<sigma> rg (pop_count cnt) (s, []); d = dm_assign dm d key (Set s)
           in Some (if s = [] then fst (dm_remove dm d key) else d, Inr out))
      | Some _ \<Rightarrow> Some (d, Inl (WrongType ''SPOP: key is not a set''))
      | None \<Rightarrow> Some (d, Inr []))"

definition mem_storage :: "('d, zvalue) dash \<Rightarrow> (bytes, unit) order \<Rightarrow> rng \<Rightarrow> 'd storage" where
  "mem_storage dm \<sigma> rg =
     \<lparr>st_set = mem_set dm, st_get = mem_get dm, st_del = mem_del dm, st_mset = mem_mset dm, st_mget = mem_mget dm,
      st_rename = mem_rename dm, st_renamenx = mem_renamenx dm, st_flushdb = mem_flushdb dm, st_dbsize = mem_dbsize dm,
      st_save = mem_save, st_sadd = mem_sadd dm, st_smembers = mem_smembers dm \<sigma>, st_scard = mem_scard dm,
      st_sismember = mem_sismember dm, st_srem = mem_srem dm, st_srandmember = mem_srandmember dm \<sigma> rg,
      st_spop = mem_spop dm \<sigma> rg\<rparr>"

section \<open>The contract\<close>

definition mem_inv :: "('d, zvalue) dash \<Rightarrow> 'd \<Rightarrow> bool" where
  "mem_inv dm d \<longleftrightarrow> (\<forall>k v. dm_get dm d k = Some v \<longrightarrow> value_wf v)"

definition mem_abs :: "('d, zvalue) dash \<Rightarrow> 'd \<Rightarrow> keyspace" where
  "mem_abs dm d k = map_option content_of (dm_get dm d k)"

lemma mem_yieldsI:
  assumes "m d = Some (d', r)" and "dm_get dm d' = g" and "\<And>k v. g k = Some v \<Longrightarrow> value_wf v"
    and "\<And>k. map_option content_of (g k) = ks k"
  shows "yields (mem_inv dm) (mem_abs dm) m d r ks"
  using assms by (auto simp: yields_def mem_inv_def mem_abs_def fun_eq_iff)

lemma mem_mset_get:
  assumes "dash_ok dm"
  shows "\<exists>d'. mem_mset dm kvs d = Some (d', Inr ()) \<and> dm_get dm d' = dm_get dm d ++ map_of (rev kvs)"
proof (induction kvs arbitrary: d)
  case (Cons kv kvs)
  obtain k v where kv: "kv = (k, v)" by (cases kv)
  from Cons.IH [of "fst (dm_insert dm d k v)"] show ?case
    by (auto simp: kv dash_okD(2) [OF assms] map_add_def fun_eq_iff split: option.split)
qed simp

locale memory_engine =
  fixes dm :: "('d, zvalue) dash" and \<sigma> :: "(bytes, unit) order" and rg :: rng
  assumes dash: "dash_ok dm" and rng: "rng_ok rg"
begin

abbreviation st :: "'d storage" where
  "st \<equiv> mem_storage dm \<sigma> rg"

lemmas mem_simps = mem_storage_def dash_okD [OF dash] mem_inv_def mem_abs_def

lemma mem_set_law:
  "mem_inv dm d \<Longrightarrow> value_wf v \<Longrightarrow> yields (mem_inv dm) (mem_abs dm) (st_set st k v) d (Inr ()) ((mem_abs dm d)(k \<mapsto> content_of v))"
  by (rule mem_yieldsI [where g = "(dm_get dm d)(k \<mapsto> v)"]) (auto simp: mem_simps mem_set_def split: if_splits)

lemma mem_get_law:
  "mem_inv dm d \<Longrightarrow>
   \<exists>vo. yields (mem_inv dm) (mem_abs dm) (st_get st k) d (Inr vo) (mem_abs dm d) \<and> map_option content_of vo = mem_abs dm d k \<and> pred_option value_wf vo"
  by (auto simp: mem_simps mem_get_def pred_option_def yields_def)

lemma mem_del_law:
  "mem_inv dm d \<Longrightarrow> yields (mem_inv dm) (mem_abs dm) (st_del st k) d (Inr (mem_abs dm d k \<noteq> None)) ((mem_abs dm d)(k := None))"
  by (rule mem_yieldsI [where g = "(dm_get dm d)(k := None)"])
    (auto simp: mem_simps mem_del_def split_beta split: if_splits)

lemma mem_mset_law:
  assumes I: "mem_inv dm d" and wf: "\<forall>v \<in> snd ` set kvs. True \<and> value_wf v"
  shows "yields (mem_inv dm) (mem_abs dm) (st_mset st kvs) d (Inr ()) (mem_abs dm d ++ map_of (rev (map (map_prod id content_of) kvs)))"
proof -
  obtain d' where d': "mem_mset dm kvs d = Some (d', Inr ())" "dm_get dm d' = dm_get dm d ++ map_of (rev kvs)"
    using mem_mset_get [OF dash] by blast
  show ?thesis
  proof (rule mem_yieldsI [where d' = d' and g = "dm_get dm d ++ map_of (rev kvs)"])
    show "value_wf v" if "(dm_get dm d ++ map_of (rev kvs)) k = Some v" for k v
      using that I wf by (fastforce simp: mem_inv_def map_add_Some_iff dest!: map_of_SomeD)
    show "map_option content_of ((dm_get dm d ++ map_of (rev kvs)) k) =
        (mem_abs dm d ++ map_of (rev (map (map_prod id content_of) kvs))) k" for k
      by (auto simp: mem_abs_def map_add_def rev_map map_prod_def map_of_map split: option.split)
  qed (use d' in \<open>simp_all add: mem_storage_def\<close>)
qed

lemma mem_mget_law:
  "mem_inv dm d \<Longrightarrow>
   \<exists>vs. yields (mem_inv dm) (mem_abs dm) (st_mget st ks) d (Inr vs) (mem_abs dm d) \<and> map (map_option content_of) vs = map (mem_abs dm d) ks \<and> list_all (pred_option value_wf) vs"
  by (auto simp: mem_simps mem_mget_def list_all_iff pred_option_def yields_def)

lemma mem_rename_law:
  assumes "mem_inv dm d"
  shows "case mem_abs dm d a of
      None \<Rightarrow> yields (mem_inv dm) (mem_abs dm) (st_rename st a b) d (Inl KeyNotFound) (mem_abs dm d)
    | Some c \<Rightarrow> yields (mem_inv dm) (mem_abs dm) (st_rename st a b) d (Inr ()) ((mem_abs dm d)(a := None, b \<mapsto> c))"
proof (cases "dm_get dm d a")
  case None
  have "yields (mem_inv dm) (mem_abs dm) (st_rename st a b) d (Inl KeyNotFound) (mem_abs dm d)"
    by (rule mem_yieldsI [where g = "(dm_get dm d)(a := None)"])
      (use assms None in \<open>auto simp: mem_simps mem_rename_def split_beta split: if_splits\<close>)
  then show ?thesis using None by (simp add: mem_abs_def)
next
  case (Some v)
  have "yields (mem_inv dm) (mem_abs dm) (st_rename st a b) d (Inr ()) ((mem_abs dm d)(a := None, b \<mapsto> content_of v))"
    by (rule mem_yieldsI [where g = "(dm_get dm d)(a := None, b \<mapsto> v)"])
      (use assms Some in \<open>auto simp: mem_simps mem_rename_def split_beta split: if_splits\<close>)
  then show ?thesis using Some by (simp add: mem_abs_def)
qed

lemma mem_renamenx_law:
  assumes "mem_inv dm d"
  shows "case (mem_abs dm d a, mem_abs dm d b) of
      (Some c, None) \<Rightarrow> yields (mem_inv dm) (mem_abs dm) (st_renamenx st a b) d (Inr True) ((mem_abs dm d)(a := None, b \<mapsto> c))
    | (Some c, Some e) \<Rightarrow> yields (mem_inv dm) (mem_abs dm) (st_renamenx st a b) d (Inr False) (mem_abs dm d)
    | (None, None) \<Rightarrow> yields (mem_inv dm) (mem_abs dm) (st_renamenx st a b) d (Inl KeyNotFound) (mem_abs dm d)
    | (None, Some e) \<Rightarrow> \<exists>r \<in> {Inr False, Inl KeyNotFound}. yields (mem_inv dm) (mem_abs dm) (st_renamenx st a b) d r (mem_abs dm d)"
proof (cases "dm_get dm d b")
  case (Some u)
  have "yields (mem_inv dm) (mem_abs dm) (st_renamenx st a b) d (Inr False) (mem_abs dm d)"
    by (rule mem_yieldsI [where g = "dm_get dm d"])
      (use assms Some in \<open>auto simp: mem_simps mem_renamenx_def\<close>)
  then show ?thesis using Some by (cases "dm_get dm d a") (simp_all add: mem_abs_def)
next
  case b: None
  show ?thesis
  proof (cases "dm_get dm d a")
    case None
    have "yields (mem_inv dm) (mem_abs dm) (st_renamenx st a b) d (Inl KeyNotFound) (mem_abs dm d)"
      by (rule mem_yieldsI [where g = "(dm_get dm d)(a := None)"])
        (use assms b None in \<open>auto simp: mem_simps mem_renamenx_def split_beta split: if_splits\<close>)
    then show ?thesis using b None by (simp add: mem_abs_def)
  next
    case (Some v)
    have "yields (mem_inv dm) (mem_abs dm) (st_renamenx st a b) d (Inr True) ((mem_abs dm d)(a := None, b \<mapsto> content_of v))"
      by (rule mem_yieldsI [where g = "(dm_get dm d)(a := None, b \<mapsto> v)"])
        (use assms b Some in \<open>auto simp: mem_simps mem_renamenx_def split_beta split: if_splits\<close>)
    then show ?thesis using b Some by (simp add: mem_abs_def)
  qed
qed

lemma mem_flush_law: "yields (mem_inv dm) (mem_abs dm) (st_flushdb st) d (Inr ()) Map.empty"
  by (rule mem_yieldsI [where g = Map.empty]) (auto simp: mem_simps mem_flushdb_def)

lemma mem_wrong_type:
  assumes "mem_inv dm d" and "m d = Some (d, Inl e)"
  shows "yields (mem_inv dm) (mem_abs dm) m d (Inl e) (mem_abs dm d)"
  using assms by (simp add: yields_def)

lemma mem_sadd_law:
  assumes "mem_inv dm d"
  shows "case mem_abs dm d k of
      None \<Rightarrow> yields (mem_inv dm) (mem_abs dm) (st_sadd st k ms) d (Inr (card (set ms))) ((mem_abs dm d)(k \<mapsto> CSet (set ms)))
    | Some (CSet S) \<Rightarrow> yields (mem_inv dm) (mem_abs dm) (st_sadd st k ms) d (Inr (card (set ms - S))) ((mem_abs dm d)(k \<mapsto> CSet (S \<union> set ms)))
    | Some _ \<Rightarrow> \<exists>msg. yields (mem_inv dm) (mem_abs dm) (st_sadd st k ms) d (Inl (WrongType msg)) (mem_abs dm d)"
proof (cases "\<exists>v. dm_get dm d k = Some v \<and> (\<forall>s. v \<noteq> Set s)")
  case True
  then show ?thesis using assms
    by (auto simp: mem_abs_def mem_storage_def mem_sadd_def yields_def content_cases
        split: content.split option.split zvalue.split)
next
  case False
  define s0 where "s0 = (case dm_get dm d k of Some (Set s) \<Rightarrow> s | _ \<Rightarrow> [])"
  have ok: "hs_ok s0" using assms by (fastforce simp: s0_def mem_inv_def split: option.split zvalue.split)
  obtain s n where s: "add_members ms (s0, 0) = (s, n)" by (cases "add_members ms (s0, 0)")
  note spec = add_members_spec [OF ok s]
  have "yields (mem_inv dm) (mem_abs dm) (st_sadd st k ms) d (Inr n) ((mem_abs dm d)(k \<mapsto> content_of (Set s)))"
    by (rule mem_yieldsI [where g = "(dm_get dm d)(k \<mapsto> Set s)" and
          d' = "case dm_get dm d k of None \<Rightarrow> fst (dm_insert dm d k (Set s)) | Some _ \<Rightarrow> dm_assign dm d k (Set s)"])
      (use assms False s spec in \<open>auto simp: mem_simps mem_sadd_def s0_def Let_def split: option.splits zvalue.splits if_splits\<close>)
  then show ?thesis using False spec by (auto simp: mem_abs_def s0_def split: option.splits)
qed

text \<open>Reading a set and taking members out of one.\<close>

lemma mem_set_read:
  assumes "mem_inv dm d" and "\<And>s. hs_ok s \<Longrightarrow> f s = g (set_of s)"
    and "op d = (case dm_get dm d k of Some (Set s) \<Rightarrow> Some (d, Inr (f s)) | Some _ \<Rightarrow> Some (d, Inl (WrongType msg)) | None \<Rightarrow> Some (d, Inr z))"
  shows "case mem_abs dm d k of
      None \<Rightarrow> yields (mem_inv dm) (mem_abs dm) op d (Inr z) (mem_abs dm d)
    | Some (CSet S) \<Rightarrow> yields (mem_inv dm) (mem_abs dm) op d (Inr (g S)) (mem_abs dm d)
    | Some _ \<Rightarrow> \<exists>msg. yields (mem_inv dm) (mem_abs dm) op d (Inl (WrongType msg)) (mem_abs dm d)"
proof (cases "dm_get dm d k")
  case (Some v)
  moreover have "value_wf v" using Some assms(1) by (simp add: mem_inv_def)
  ultimately show ?thesis using assms by (cases v) (simp_all add: mem_abs_def yields_def)
qed (use assms in \<open>simp add: mem_abs_def yields_def\<close>)

lemma mem_shrink_law:
  assumes "mem_inv dm d" and "hs_ok s" and "dm_get dm d k = Some (Set s)" and "hs_ok s'" and "set_of s' = S'"
    and "op d = Some (if s' = [] then fst (dm_remove dm (dm_assign dm d k (Set s')) k) else dm_assign dm d k (Set s'), Inr x)"
  shows "yields (mem_inv dm) (mem_abs dm) op d (Inr x) ((mem_abs dm d)(k := if S' = {} then None else Some (CSet S')))"
proof (rule mem_yieldsI)
  let ?g = "(dm_get dm d)(k := if s' = [] then None else Some (Set s'))"
  show "dm_get dm (if s' = [] then fst (dm_remove dm (dm_assign dm d k (Set s')) k) else dm_assign dm d k (Set s')) = ?g"
    using assms(3) by (simp add: dash_okD [OF dash])
  show "value_wf v" if "?g i = Some v" for i v using that assms(1,4) by (auto simp: mem_inv_def split: if_splits)
  show "map_option content_of (?g i) = ((mem_abs dm d)(k := if S' = {} then None else Some (CSet S'))) i" for i
    using assms(5) by (auto simp: mem_abs_def set_of_def)
qed (rule assms(6))

lemma mem_srem_law:
  assumes "mem_inv dm d"
  shows "case mem_abs dm d k of
      None \<Rightarrow> yields (mem_inv dm) (mem_abs dm) (st_srem st k ms) d (Inr 0) (mem_abs dm d)
    | Some (CSet S) \<Rightarrow> yields (mem_inv dm) (mem_abs dm) (st_srem st k ms) d (Inr (card (set ms \<inter> S)))
        ((mem_abs dm d)(k := if S \<subseteq> set ms then None else Some (CSet (S - set ms))))
    | Some _ \<Rightarrow> \<exists>msg. yields (mem_inv dm) (mem_abs dm) (st_srem st k ms) d (Inl (WrongType msg)) (mem_abs dm d)"
proof (cases "\<exists>s. dm_get dm d k = Some (Set s)")
  case True
  then obtain s where s: "dm_get dm d k = Some (Set s)" "hs_ok s" using assms by (force simp: mem_inv_def)
  obtain s' n where r: "remove_members ms (s, 0) = (s', n)" by (cases "remove_members ms (s, 0)")
  note spec = remove_members_spec [OF s(2) r]
  show ?thesis
    using mem_shrink_law [OF assms s(2,1), of s' "set_of s - set ms" "st_srem st k ms" n] spec s r
    by (simp add: mem_abs_def mem_storage_def mem_srem_def Let_def Diff_eq_empty_iff)
next
  case False
  then show ?thesis using assms
    by (cases "dm_get dm d k"; cases "the (dm_get dm d k)")
      (simp_all add: mem_abs_def mem_storage_def mem_srem_def yields_def)
qed

lemma mem_spop_law:
  assumes "mem_inv dm d"
  shows "case mem_abs dm d k of
      None \<Rightarrow> yields (mem_inv dm) (mem_abs dm) (st_spop st k n) d (Inr []) (mem_abs dm d)
    | Some (CSet S) \<Rightarrow> \<exists>xs. yields (mem_inv dm) (mem_abs dm) (st_spop st k n) d (Inr xs)
          ((mem_abs dm d)(k := if S \<subseteq> set xs then None else Some (CSet (S - set xs)))) \<and>
        distinct xs \<and> set xs \<subseteq> S \<and> length xs = min (pop_count n) (card S)
    | Some _ \<Rightarrow> \<exists>msg. yields (mem_inv dm) (mem_abs dm) (st_spop st k n) d (Inl (WrongType msg)) (mem_abs dm d)"
proof (cases "\<exists>s. dm_get dm d k = Some (Set s)")
  case True
  then obtain s where s: "dm_get dm d k = Some (Set s)" "hs_ok s" using assms by (force simp: mem_inv_def)
  obtain s' out where r: "pop_members \<sigma> rg (pop_count n) (s, []) = (s', out)" by (cases "pop_members \<sigma> rg (pop_count n) (s, [])")
  have spec: "hs_ok s'" "distinct out" "set out \<union> set_of s' = set_of s" "set out \<inter> set_of s' = {}"
    "length out = min (pop_count n) (card (set_of s))"
    using pop_members_spec [OF rng s(2) _ _ r] by simp_all
  then have "set_of s' = set_of s - set out" by auto
  then have y: "yields (mem_inv dm) (mem_abs dm) (st_spop st k n) d (Inr out)
      ((mem_abs dm d)(k := if set_of s \<subseteq> set out then None else Some (CSet (set_of s - set out))))"
    using mem_shrink_law [OF assms s(2,1) spec(1), of "set_of s - set out" "st_spop st k n" out] s(1) r
    by (simp add: mem_storage_def mem_spop_def Let_def Diff_eq_empty_iff)
  have "mem_abs dm d k = Some (CSet (set_of s))" using s(1) by (simp add: mem_abs_def)
  moreover have "set out \<subseteq> set_of s" using spec(3) by auto
  ultimately show ?thesis using y spec(2,5) by (simp only: option.case content.case) blast
next
  case False
  then show ?thesis using assms
    by (cases "dm_get dm d k"; cases "the (dm_get dm d k)")
      (simp_all add: mem_abs_def mem_storage_def mem_spop_def yields_def)
qed

lemma random_members_spec:
  assumes "hs_ok s"
  shows "distinct (random_members \<sigma> rg n s) \<and> set (random_members \<sigma> rg n s) \<subseteq> set_of s \<and>
    length (random_members \<sigma> rg n s) = min (nat n) (card (set_of s))"
proof -
  let ?xs = "set_members \<sigma> s" and ?ys = "rng_choose_multiple rg (set_members \<sigma> s) (nat n)"
  have xs: "distinct ?xs" "set ?xs = set_of s" "length ?xs = card (set_of s)"
    using set_members_set [of \<sigma> s] set_members_distinct [OF assms] by simp_all
  obtain Z where Z: "mset ?xs = mset ?ys + Z" "length ?ys = min (nat n) (length ?xs)" using rng unfolding rng_ok_def by blast
  obtain zs where "mset zs = Z" using ex_mset by blast
  then have m: "mset ?xs = mset (?ys @ zs)" using Z(1) by simp
  have many: "distinct ?ys" "set ?ys \<subseteq> set_of s" "length ?ys = min (nat n) (card (set_of s))"
    using xs mset_eq_imp_distinct_iff [OF m] mset_eq_setD [OF m] Z(2) by auto
  have one: "card (set_of s) = 0 \<longleftrightarrow> ?xs = []" using xs(3) by (metis length_0_conv)
  consider "n = 1" | "1 < n" | "n < 1" by linarith
  then show ?thesis
  proof cases
    case 1
    show ?thesis
    proof (cases "rng_choose rg 0 ?xs")
      case None
      then show ?thesis using 1 rng_chooseD(1) [OF rng None] one by (simp add: random_members_def)
    next
      case (Some x)
      then have "x \<in> set_of s" using rng_chooseD(2) [OF rng Some] xs(2) by simp
      moreover from this have "0 < card (set_of s)" using one xs(2) by fastforce
      ultimately show ?thesis using 1 Some by (simp add: random_members_def)
    qed
  qed (use many in \<open>simp_all add: random_members_def\<close>)
qed

lemma mem_srandmember_law:
  assumes "mem_inv dm d"
  shows "case mem_abs dm d k of
      None \<Rightarrow> yields (mem_inv dm) (mem_abs dm) (st_srandmember st k n) d (Inr []) (mem_abs dm d)
    | Some (CSet S) \<Rightarrow> \<exists>xs. yields (mem_inv dm) (mem_abs dm) (st_srandmember st k n) d (Inr xs) (mem_abs dm d) \<and> distinct xs \<and> set xs \<subseteq> S \<and> length xs = min (nat n) (card S)
    | Some _ \<Rightarrow> \<exists>msg. yields (mem_inv dm) (mem_abs dm) (st_srandmember st k n) d (Inl (WrongType msg)) (mem_abs dm d)"
proof (cases "dm_get dm d k")
  case (Some v)
  moreover have "value_wf v" using Some assms by (simp add: mem_inv_def)
  ultimately show ?thesis
    using random_members_spec assms by (cases v) (simp_all add: mem_abs_def mem_storage_def mem_srandmember_def yields_def)
qed (use assms in \<open>simp add: mem_abs_def mem_storage_def mem_srandmember_def yields_def\<close>)

lemma mem_smembers_law:
  assumes "mem_inv dm d"
  shows "case mem_abs dm d k of
      None \<Rightarrow> yields (mem_inv dm) (mem_abs dm) (st_smembers st k) d (Inr []) (mem_abs dm d)
    | Some (CSet S) \<Rightarrow> \<exists>xs. yields (mem_inv dm) (mem_abs dm) (st_smembers st k) d (Inr xs) (mem_abs dm d) \<and> distinct xs \<and> set xs = S
    | Some _ \<Rightarrow> \<exists>msg. yields (mem_inv dm) (mem_abs dm) (st_smembers st k) d (Inl (WrongType msg)) (mem_abs dm d)"
proof (cases "dm_get dm d k")
  case (Some v)
  moreover have "value_wf v" using Some assms by (simp add: mem_inv_def)
  ultimately show ?thesis
    using set_members_set(1) set_members_distinct(1) assms
    by (cases v) (simp_all add: mem_abs_def mem_storage_def mem_smembers_def yields_def)
qed (use assms in \<open>simp add: mem_abs_def mem_storage_def mem_smembers_def yields_def\<close>)

end

sublocale memory_engine \<subseteq> set_engine "mem_storage dm \<sigma> rg" "mem_inv dm" "mem_abs dm" "\<lambda>_. True"
proof
  show "case mem_abs dm d k of
      None \<Rightarrow> yields (mem_inv dm) (mem_abs dm) (st_scard st k) d (Inr 0) (mem_abs dm d)
    | Some (CSet S) \<Rightarrow> yields (mem_inv dm) (mem_abs dm) (st_scard st k) d (Inr (card S)) (mem_abs dm d)
    | Some _ \<Rightarrow> \<exists>msg. yields (mem_inv dm) (mem_abs dm) (st_scard st k) d (Inl (WrongType msg)) (mem_abs dm d)" if "mem_inv dm d" for d k
    by (rule mem_set_read [OF that]) (simp_all add: mem_storage_def mem_scard_def set_members_distinct(2))
  show "case mem_abs dm d k of
      None \<Rightarrow> yields (mem_inv dm) (mem_abs dm) (st_sismember st k x) d (Inr False) (mem_abs dm d)
    | Some (CSet S) \<Rightarrow> yields (mem_inv dm) (mem_abs dm) (st_sismember st k x) d (Inr (x \<in> S)) (mem_abs dm d)
    | Some _ \<Rightarrow> \<exists>msg. yields (mem_inv dm) (mem_abs dm) (st_sismember st k x) d (Inl (WrongType msg)) (mem_abs dm d)" if "mem_inv dm d" for d k x
    by (rule mem_set_read [OF that]) (simp_all add: mem_storage_def mem_sismember_def set_of_map_of)
qed (rule mem_set_law mem_get_law mem_del_law mem_mset_law mem_mget_law mem_rename_law mem_renamenx_law mem_flush_law
    mem_sadd_law mem_srem_law mem_smembers_law mem_srandmember_law mem_spop_law; assumption)+

interpretation mem_alist: memory_engine alist_dash \<sigma> first_rng for \<sigma>
  by unfold_locales (rule alist_dash_ok, rule first_rng_ok)

end
