(* ===== verification/Sharding.thy ===== *)
theory Sharding
  imports SmartHash Rust_Std
begin

text \<open>
  \<open>engine/sharding.rs\<close>: the index of the persistent store, a vector of shards that each hold a hash
  map and, when metrics are enabled, a counter of keys. A key goes to the shard its hash selects;
  the hash is \<open>SipHasher\<close> of another crate under a random key, the parameter \<open>hash\<close>. Of the metrics
  only the key counter is modelled, which \<open>dbsize\<close> reports; the counters of operations and the lock
  timings are read by monitoring alone. A lock is held for the whole of a closure, so an operation
  on a shard is one step.
\<close>

unbundle bit_operations_syntax

section \<open>Shards\<close>

record 'v shard =
  shard_data :: "(bytes, 'v) hash_map"
  key_count :: "u64 option"

type_synonym 'v index = "'v shard list"

definition shard_new :: "bool \<Rightarrow> 'v shard" where
  "shard_new enable_metrics = \<lparr>shard_data = [], key_count = (if enable_metrics then Some 0 else None)\<rparr>"

definition index_new :: "nat \<Rightarrow> bool \<Rightarrow> 'v index" where
  "index_new num_shards enable_metrics = replicate num_shards (shard_new enable_metrics)"

definition increment_key_count :: "'v shard \<Rightarrow> 'v shard" where
  "increment_key_count sh = sh\<lparr>key_count := map_option (\<lambda>c. c + 1) (key_count sh)\<rparr>"

definition decrement_key_count :: "'v shard \<Rightarrow> 'v shard" where
  "decrement_key_count sh = sh\<lparr>key_count := map_option (\<lambda>c. c - 1) (key_count sh)\<rparr>"

definition is_power_of_two :: "nat \<Rightarrow> bool" where
  "is_power_of_two n \<longleftrightarrow> next_power_of_two n = n"

text \<open>A remainder by zero panics: an index without shards has no place for a key.\<close>

definition shard_for_key :: "(bytes \<Rightarrow> u64) \<Rightarrow> nat \<Rightarrow> bytes \<Rightarrow> nat panics" where
  "shard_for_key hash n key =
     (let h = unat (hash key) in
      if is_power_of_two n then Some (h AND (n - 1)) else if n = 0 then None else Some (h mod n))"

text \<open>The closures the code runs under a shard's lock: insert, and remove, with the counter.\<close>

definition shard_insert :: "bytes \<Rightarrow> 'v \<Rightarrow> 'v shard \<Rightarrow> 'v shard \<times> 'v option" where
  "shard_insert key value sh =
     (let (m, prev) = hm_insert (shard_data sh) key value; sh = sh\<lparr>shard_data := m\<rparr>
      in (if prev = None then increment_key_count sh else sh, prev))"

definition shard_remove :: "bytes \<Rightarrow> 'v shard \<Rightarrow> 'v shard \<times> bool" where
  "shard_remove key sh =
     (let (m, old) = hm_remove (shard_data sh) key; sh = sh\<lparr>shard_data := m\<rparr>; existed = (old \<noteq> None)
      in (if existed then decrement_key_count sh else sh, existed))"

definition shard_get :: "bytes \<Rightarrow> 'v shard \<Rightarrow> 'v option" where
  "shard_get key sh = map_of (shard_data sh) key"

section \<open>The index\<close>

definition with_shard :: "(bytes \<Rightarrow> u64) \<Rightarrow> 'v index \<Rightarrow> bytes \<Rightarrow> ('v shard \<Rightarrow> 'v shard \<times> 'a) \<Rightarrow> ('v index \<times> 'a) panics" where
  "with_shard hash ix key f = do {
     i \<leftarrow> shard_for_key hash (length ix) key;
     sh \<leftarrow> idx ix i;
     let (sh', a) = f sh;
     Some (ix[i := sh'], a)
   }"

definition index_insert :: "(bytes \<Rightarrow> u64) \<Rightarrow> 'v index \<Rightarrow> bytes \<Rightarrow> 'v \<Rightarrow> ('v index \<times> 'v option) panics" where
  "index_insert hash ix key value = with_shard hash ix key (shard_insert key value)"

definition index_remove :: "(bytes \<Rightarrow> u64) \<Rightarrow> 'v index \<Rightarrow> bytes \<Rightarrow> ('v index \<times> bool) panics" where
  "index_remove hash ix key = with_shard hash ix key (shard_remove key)"

definition index_get :: "(bytes \<Rightarrow> u64) \<Rightarrow> 'v index \<Rightarrow> bytes \<Rightarrow> 'v option panics" where
  "index_get hash ix key = do {
     i \<leftarrow> shard_for_key hash (length ix) key;
     sh \<leftarrow> idx ix i;
     Some (shard_get key sh)
   }"

text \<open>\<open>entry(sid).or_default().push(x)\<close>, for every item of a list.\<close>

fun group_by_shard :: "('a \<Rightarrow> nat panics) \<Rightarrow> 'a list \<Rightarrow> (nat, 'a list) hash_map \<Rightarrow> (nat, 'a list) hash_map panics" where
  "group_by_shard sid [] groups = Some groups"
| "group_by_shard sid (x # xs) groups = do {
     i \<leftarrow> sid x;
     let old = (case map_of groups i of Some ys \<Rightarrow> ys | None \<Rightarrow> []);
     group_by_shard sid xs (fst (hm_insert groups i (old @ [x])))
   }"

definition group_keys_by_shard :: "(bytes \<Rightarrow> u64) \<Rightarrow> 'v index \<Rightarrow> bytes list \<Rightarrow> (nat, bytes list) hash_map panics" where
  "group_keys_by_shard hash ix keys = group_by_shard (shard_for_key hash (length ix)) keys []"

fun shard_insert_all :: "(bytes \<times> 'v) list \<Rightarrow> 'v shard \<Rightarrow> 'v shard" where
  "shard_insert_all [] sh = sh"
| "shard_insert_all ((k, v) # kvs) sh = shard_insert_all kvs (fst (shard_insert k v sh))"

text \<open>The shards are visited in the order of their numbers, which is why the keys of the group are sorted.\<close>

fun index_mset_loop :: "(nat, (bytes \<times> 'v) list) hash_map \<Rightarrow> nat list \<Rightarrow> 'v index \<Rightarrow> 'v index panics" where
  "index_mset_loop groups [] ix = Some ix"
| "index_mset_loop groups (sid # sids) ix = do {
     sh \<leftarrow> idx ix sid;
     let list = (case map_of groups sid of Some l \<Rightarrow> l | None \<Rightarrow> []);
     index_mset_loop (fst (hm_remove groups sid)) sids (ix[sid := shard_insert_all list sh])
   }"

definition index_mset :: "(bytes \<Rightarrow> u64) \<Rightarrow> 'v index \<Rightarrow> (bytes \<times> 'v) list \<Rightarrow> 'v index panics" where
  "index_mset hash ix entries =
     (if entries = [] then Some ix else do {
        groups \<leftarrow> group_by_shard (\<lambda>(k, v). shard_for_key hash (length ix) k) entries [];
        index_mset_loop groups (sort (map fst groups)) ix
      })"

fun fill_results :: "'v shard \<Rightarrow> (nat \<times> bytes) list \<Rightarrow> 'v option list \<Rightarrow> 'v option list panics" where
  "fill_results sh [] results = Some results"
| "fill_results sh ((i, key) # list) results = do {
     results \<leftarrow> upd results i (shard_get key sh);
     fill_results sh list results
   }"

fun index_mget_loop ::
  "(nat, (nat \<times> bytes) list) hash_map \<Rightarrow> nat list \<Rightarrow> 'v index \<Rightarrow> 'v option list \<Rightarrow> 'v option list panics" where
  "index_mget_loop groups [] ix results = Some results"
| "index_mget_loop groups (sid # sids) ix results = do {
     sh \<leftarrow> idx ix sid;
     list \<leftarrow> map_of groups sid;
     results \<leftarrow> fill_results sh list results;
     index_mget_loop groups sids ix results
   }"

definition index_mget :: "(bytes \<Rightarrow> u64) \<Rightarrow> 'v index \<Rightarrow> bytes list \<Rightarrow> 'v option list panics" where
  "index_mget hash ix keys =
     (if keys = [] then Some [] else do {
        groups \<leftarrow> group_by_shard (\<lambda>(i, k). shard_for_key hash (length ix) k) (enumerate 0 keys) [];
        index_mget_loop groups (sort (map fst groups)) ix (replicate (length keys) None)
      })"

text \<open>\<open>collect_metrics\<close> skips the shards without metrics; the sum is taken in \<open>u64\<close>.\<close>

definition global_total_keys :: "'v index \<Rightarrow> u64" where
  "global_total_keys ix = sum_list (List.map_filter key_count ix)"

section \<open>The map it stands for\<close>

definition index_abs :: "(bytes \<Rightarrow> u64) \<Rightarrow> 'v index \<Rightarrow> bytes \<rightharpoonup> 'v" where
  "index_abs hash ix key =
     (case shard_for_key hash (length ix) key of None \<Rightarrow> None | Some i \<Rightarrow> map_of (shard_data (ix ! i)) key)"

definition shard_ok :: "(bytes \<Rightarrow> u64) \<Rightarrow> nat \<Rightarrow> nat \<Rightarrow> 'v shard \<Rightarrow> bool" where
  "shard_ok hash n i sh \<longleftrightarrow> distinct (map fst (shard_data sh)) \<and>
     (\<forall>k \<in> fst ` set (shard_data sh). shard_for_key hash n k = Some i) \<and>
     (case key_count sh of None \<Rightarrow> True | Some c \<Rightarrow> c = of_nat (length (shard_data sh)))"

definition index_inv :: "(bytes \<Rightarrow> u64) \<Rightarrow> 'v index \<Rightarrow> bool" where
  "index_inv hash ix \<longleftrightarrow> ix \<noteq> [] \<and> (\<forall>i < length ix. shard_ok hash (length ix) i (ix ! i))"

lemma is_power_of_two_iff: "is_power_of_two n \<longleftrightarrow> is_pow2 n"
proof
  assume "is_power_of_two n"
  then show "is_pow2 n" using next_power_of_two_pow2 [of n] by (simp add: is_power_of_two_def)
next
  assume "is_pow2 n"
  then have "next_power_of_two n \<le> n"
    using npo2_from_least [of 1 n n] is_pow2_pos [of n] by (simp add: next_power_of_two_def Suc_le_eq)
  then show "is_power_of_two n" using next_power_of_two_ge [of n] by (simp add: is_power_of_two_def)
qed

lemma and_minus_one_mod: "h AND (2 ^ e - 1) = h mod 2 ^ e" for h :: nat
proof -
  have "(2 ^ e - 1 :: nat) = mask e" by (simp add: mask_eq_exp_minus_1)
  then show ?thesis by (simp only: take_bit_eq_mask [symmetric] take_bit_eq_mod)
qed

lemma shard_for_key_mod: "0 < n \<Longrightarrow> shard_for_key hash n key = Some (unat (hash key) mod n)"
  unfolding shard_for_key_def Let_def is_power_of_two_iff is_pow2_def
  by (auto simp only: and_minus_one_mod split: if_splits)

lemma shard_for_key_less: "shard_for_key hash n key = Some i \<Longrightarrow> i < n"
  by (cases "0 < n") (auto simp: shard_for_key_mod, auto simp: shard_for_key_def is_power_of_two_iff is_pow2_def)

lemma index_invD:
  assumes "index_inv hash ix"
  shows "0 < length ix" and "i < length ix \<Longrightarrow> shard_ok hash (length ix) i (ix ! i)"
  using assms by (auto simp: index_inv_def)

text \<open>Where a key lives, in an index that has shards.\<close>

definition home :: "(bytes \<Rightarrow> u64) \<Rightarrow> 'v index \<Rightarrow> bytes \<Rightarrow> nat" where
  "home hash ix key = unat (hash key) mod length ix"

lemma home_facts:
  assumes "index_inv hash ix"
  shows "shard_for_key hash (length ix) key = Some (home hash ix key)" and "home hash ix key < length ix"
    and "index_abs hash ix key = map_of (shard_data (ix ! home hash ix key)) key"
  using index_invD(1) [OF assms] by (simp_all add: shard_for_key_mod home_def index_abs_def)

lemma home_update [simp]: "home hash (ix[i := sh]) = home hash ix"
  by (simp add: home_def fun_eq_iff)

lemma shard_insert_spec:
  assumes "shard_ok hash n i sh" and "shard_for_key hash n k = Some i" and "shard_insert k v sh = (sh', prev)"
  shows "shard_ok hash n i sh'" and "map_of (shard_data sh') = (map_of (shard_data sh))(k \<mapsto> v)"
    and "prev = map_of (shard_data sh) k"
proof -
  obtain m old where m: "hm_insert (shard_data sh) k v = (m, old)" by (cases "hm_insert (shard_data sh) k v")
  note keys = hm_insert_keys [OF m] and maps = hm_insert_map [OF m]
  have d: "distinct (map fst (shard_data sh))" using assms(1) by (simp add: shard_ok_def)
  have old: "old = None \<longleftrightarrow> k \<notin> fst ` set (shard_data sh)" using maps by (simp add: map_of_eq_None_iff)
  have len: "length m = (if old = None then Suc (length (shard_data sh)) else length (shard_data sh))"
    using arg_cong [OF keys, of length] old by (simp split: if_splits)
  have set: "fst ` set m = insert k (fst ` set (shard_data sh))"
    using arg_cong [OF keys, of set] by (auto split: if_splits)
  have data: "shard_data sh' = m" "prev = old"
    and count: "key_count sh' = (if old = None then map_option (\<lambda>c. c + 1) (key_count sh) else key_count sh)"
    using assms(3) m by (auto simp: shard_insert_def Let_def increment_key_count_def split: if_splits)
  show "map_of (shard_data sh') = (map_of (shard_data sh))(k \<mapsto> v)" "prev = map_of (shard_data sh) k"
    using maps data by simp_all
  show "shard_ok hash n i sh'"
    using assms(1,2) hm_insert_distinct [OF m d] set len
    by (auto simp: shard_ok_def data count add.commute split: option.splits)
qed

lemma length_filter_key:
  "distinct (map fst m) \<Longrightarrow>
   length m = (if map_of m k = None then length (filter (\<lambda>e. fst e \<noteq> k) m) else Suc (length (filter (\<lambda>e. fst e \<noteq> k) m)))"
proof (induction m)
  case (Cons e m)
  have "filter (\<lambda>e. fst e \<noteq> k) m = m" if "k \<notin> fst ` set m"
    using that by (simp add: filter_id_conv) blast
  with Cons show ?case by (cases e) auto
qed simp

lemma shard_remove_spec:
  assumes "shard_ok hash n i sh" and "shard_remove k sh = (sh', existed)"
  shows "shard_ok hash n i sh'" and "map_of (shard_data sh') = (map_of (shard_data sh))(k := None)"
    and "existed \<longleftrightarrow> map_of (shard_data sh) k \<noteq> None"
proof -
  obtain m old where m: "hm_remove (shard_data sh) k = (m, old)" by (cases "hm_remove (shard_data sh) k")
  have d: "distinct (map fst (shard_data sh))" using assms(1) by (simp add: shard_ok_def)
  note spec = hm_remove_spec [OF m d]
  have m': "m = filter (\<lambda>e. fst e \<noteq> k) (shard_data sh)" using m by (simp add: hm_remove_def)
  have len: "length (shard_data sh) = (if old = None then length m else Suc (length m))"
    using length_filter_key [OF d, of k] spec(1) by (simp add: m')
  show "map_of (shard_data sh') = (map_of (shard_data sh))(k := None)"
    and "existed \<longleftrightarrow> map_of (shard_data sh) k \<noteq> None"
    using spec(1,2) assms(2) m by (auto simp: shard_remove_def Let_def decrement_key_count_def split: if_splits)
  show "shard_ok hash n i sh'"
    using assms m spec(3) len
    by (auto simp: shard_ok_def shard_remove_def Let_def decrement_key_count_def m' split: option.splits if_splits)
qed

section \<open>Operations on the index\<close>

lemma index_update:
  assumes "index_inv hash ix" and "shard_ok hash (length ix) (home hash ix key) sh"
    and "map_of (shard_data sh) = (map_of (shard_data (ix ! home hash ix key)))(key := v)"
  shows "index_inv hash (ix[home hash ix key := sh])"
    and "index_abs hash (ix[home hash ix key := sh]) = (index_abs hash ix)(key := v)"
proof -
  let ?i = "home hash ix key" and ?ix = "ix[home hash ix key := sh]"
  show inv: "index_inv hash ?ix"
    unfolding index_inv_def
  proof (intro conjI allI impI)
    show "?ix \<noteq> []" using assms(1) by (simp add: index_inv_def)
    show "shard_ok hash (length ?ix) i (?ix ! i)" if "i < length ?ix" for i
      using index_invD(2) [OF assms(1), of i] assms(2) that by (cases "i = ?i") simp_all
  qed
  show "index_abs hash ?ix = (index_abs hash ix)(key := v)"
  proof
    fix k
    show "index_abs hash ?ix k = ((index_abs hash ix)(key := v)) k"
      using home_facts(2,3) [OF assms(1), of k] home_facts(3) [OF inv, of k] home_facts(2) [OF assms(1), of key] assms(3)
      by (cases "home hash ix k = ?i") auto
  qed
qed

lemma with_shard_home:
  assumes "index_inv hash ix" and "f (ix ! home hash ix key) = (sh, a)"
  shows "with_shard hash ix key f = Some (ix[home hash ix key := sh], a)"
  using home_facts(1,2) [OF assms(1), of key] assms(2) by (simp add: with_shard_def idx_def)

lemma index_insert_law:
  assumes "index_inv hash ix"
  shows "\<exists>ix'. index_insert hash ix key value = Some (ix', index_abs hash ix key) \<and> index_inv hash ix' \<and>
    index_abs hash ix' = (index_abs hash ix)(key \<mapsto> value) \<and> length ix' = length ix"
proof -
  let ?i = "home hash ix key"
  obtain sh prev where s: "shard_insert key value (ix ! ?i) = (sh, prev)" by (cases "shard_insert key value (ix ! ?i)")
  note spec = shard_insert_spec [OF index_invD(2) [OF assms home_facts(2) [OF assms]] home_facts(1) [OF assms] s]
  show ?thesis
    using with_shard_home [where f = "shard_insert key value", OF assms s] index_update [OF assms spec(1,2)] spec(3) home_facts(3) [OF assms, of key]
    by (simp add: index_insert_def)
qed

lemma index_remove_law:
  assumes "index_inv hash ix"
  shows "\<exists>ix'. index_remove hash ix key = Some (ix', index_abs hash ix key \<noteq> None) \<and> index_inv hash ix' \<and>
    index_abs hash ix' = (index_abs hash ix)(key := None) \<and> length ix' = length ix"
proof -
  let ?i = "home hash ix key"
  obtain sh ex where s: "shard_remove key (ix ! ?i) = (sh, ex)" by (cases "shard_remove key (ix ! ?i)")
  note spec = shard_remove_spec [OF index_invD(2) [OF assms home_facts(2) [OF assms]] s]
  show ?thesis
    using with_shard_home [where f = "shard_remove key", OF assms s] index_update [OF assms spec(1,2)] spec(3) home_facts(3) [OF assms, of key]
    by (simp add: index_remove_def)
qed

lemma index_get_law: "index_inv hash ix \<Longrightarrow> index_get hash ix key = Some (index_abs hash ix key)"
  using home_facts [of hash ix key] by (simp add: index_get_def idx_def shard_get_def)

lemma index_new_inv:
  assumes "0 < n"
  shows "index_inv hash (index_new n m)" and "index_abs hash (index_new n m) = Map.empty"
  using assms by (auto simp: index_inv_def index_new_def shard_ok_def shard_new_def index_abs_def fun_eq_iff shard_for_key_mod)

text \<open>The counters add up to the number of keys, for which the domains of the shards are disjoint.\<close>

lemma index_dom:
  assumes "index_inv hash ix"
  shows "dom (index_abs hash ix) = (\<Union>i < length ix. fst ` set (shard_data (ix ! i)))"
proof
  show "dom (index_abs hash ix) \<subseteq> (\<Union>i < length ix. fst ` set (shard_data (ix ! i)))"
    using home_facts(2,3) [OF assms] by (force simp: dom_def dest: map_of_SomeD)
  show "(\<Union>i < length ix. fst ` set (shard_data (ix ! i))) \<subseteq> dom (index_abs hash ix)"
  proof
    fix k assume "k \<in> (\<Union>i < length ix. fst ` set (shard_data (ix ! i)))"
    then obtain i where i: "i < length ix" "k \<in> fst ` set (shard_data (ix ! i))" by auto
    then have "home hash ix k = i"
      using index_invD(2) [OF assms i(1)] home_facts(1) [OF assms, of k] by (auto simp: shard_ok_def)
    then show "k \<in> dom (index_abs hash ix)"
      using i(2) home_facts(3) [OF assms, of k] by (auto simp: domIff map_of_eq_None_iff)
  qed
qed

lemma index_card:
  assumes "index_inv hash ix"
  shows "card (dom (index_abs hash ix)) = (\<Sum>i < length ix. length (shard_data (ix ! i)))"
proof -
  have "card (dom (index_abs hash ix)) = (\<Sum>i < length ix. card (fst ` set (shard_data (ix ! i))))"
    unfolding index_dom [OF assms]
  proof (rule card_UN_disjoint)
    show "\<forall>i \<in> {..<length ix}. \<forall>j \<in> {..<length ix}. i \<noteq> j \<longrightarrow>
        fst ` set (shard_data (ix ! i)) \<inter> fst ` set (shard_data (ix ! j)) = {}"
    proof (intro ballI impI)
      fix i j assume "i \<in> {..<length ix}" "j \<in> {..<length ix}" "i \<noteq> j"
      then show "fst ` set (shard_data (ix ! i)) \<inter> fst ` set (shard_data (ix ! j)) = {}"
        using index_invD(2) [OF assms, of i] index_invD(2) [OF assms, of j] by (auto simp: shard_ok_def) force
    qed
  qed simp_all
  also have "\<dots> = (\<Sum>i < length ix. length (shard_data (ix ! i)))"
    by (rule sum.cong) (use index_invD(2) [OF assms] in \<open>auto simp: shard_ok_def distinct_card simp flip: set_map\<close>)
  finally show ?thesis .
qed

definition metrics_on :: "'v index \<Rightarrow> bool" where
  "metrics_on ix \<longleftrightarrow> list_all (\<lambda>sh. key_count sh \<noteq> None) ix"

definition metrics_off :: "'v index \<Rightarrow> bool" where
  "metrics_off ix \<longleftrightarrow> list_all (\<lambda>sh. key_count sh = None) ix"

lemma global_total_keys_off: "metrics_off ix \<Longrightarrow> global_total_keys ix = 0"
  unfolding global_total_keys_def metrics_off_def by (induction ix) (simp_all add: List.map_filter_simps)

lemma global_total_keys_on:
  assumes "index_inv hash ix" and "metrics_on ix"
  shows "global_total_keys ix = of_nat (card (dom (index_abs hash ix)))"
proof -
  have "key_count (ix ! i) = Some (of_nat (length (shard_data (ix ! i))))" if "i < length ix" for i
    using index_invD(2) [OF assms(1) that] assms(2) that by (auto simp: shard_ok_def metrics_on_def list_all_length)
  then have "list_all (\<lambda>sh. key_count sh = Some (of_nat (length (shard_data sh)))) ix" by (simp add: list_all_length)
  then have "global_total_keys ix = of_nat (sum_list (map (\<lambda>sh. length (shard_data sh)) ix))"
    unfolding global_total_keys_def by (induction ix) (simp_all add: List.map_filter_simps)
  also have "sum_list (map (\<lambda>sh. length (shard_data sh)) ix) = (\<Sum>i < length ix. length (shard_data (ix ! i)))"
    by (simp add: sum_list_sum_nth atLeast0LessThan)
  finally show ?thesis by (simp add: index_card [OF assms(1)])
qed

section \<open>Many keys at once\<close>

definition group_of :: "(nat, 'a list) hash_map \<Rightarrow> nat \<Rightarrow> 'a list" where
  "group_of groups i = (case map_of groups i of Some ys \<Rightarrow> ys | None \<Rightarrow> [])"

lemma group_of_insert:
  "group_of (fst (hm_insert groups i ys)) j = (if j = i then ys else group_of groups j)"
  using hm_insert_map [of groups i ys "fst (hm_insert groups i ys)" "snd (hm_insert groups i ys)"]
  by (simp add: group_of_def)

lemma group_by_shard_spec:
  assumes "\<forall>x \<in> set xs. sid x \<noteq> None" and "distinct (map fst groups)"
  shows "\<exists>groups'. group_by_shard sid xs groups = Some groups' \<and> distinct (map fst groups') \<and>
    fst ` set groups' = fst ` set groups \<union> {i. \<exists>x \<in> set xs. sid x = Some i} \<and>
    (\<forall>i. group_of groups' i = group_of groups i @ filter (\<lambda>x. sid x = Some i) xs)"
  using assms
proof (induction xs arbitrary: groups)
  case (Cons x xs)
  obtain i where i: "sid x = Some i" using Cons.prems(1) by auto
  let ?g = "fst (hm_insert groups i (group_of groups i @ [x]))"
  obtain m old where m: "hm_insert groups i (group_of groups i @ [x]) = (m, old)"
    by (cases "hm_insert groups i (group_of groups i @ [x])")
  have d: "distinct (map fst ?g)" using hm_insert_distinct [OF m Cons.prems(2)] m by simp
  have keys: "fst ` set ?g = insert i (fst ` set groups)"
    using arg_cong [OF hm_insert_keys [OF m], of set] m by (auto split: if_splits)
  obtain g' where g': "group_by_shard sid xs ?g = Some g'" "distinct (map fst g')"
    "fst ` set g' = fst ` set ?g \<union> {i. \<exists>x \<in> set xs. sid x = Some i}"
    "\<forall>i. group_of g' i = group_of ?g i @ filter (\<lambda>x. sid x = Some i) xs"
    using Cons.IH [OF _ d] Cons.prems(1) by auto
  then show ?case
    using i keys by (auto simp: group_of_insert Let_def group_of_def [symmetric])
qed simp

lemma shard_insert_all_spec:
  assumes "shard_ok hash n i sh" and "\<forall>(k, v) \<in> set kvs. shard_for_key hash n k = Some i"
  shows "shard_ok hash n i (shard_insert_all kvs sh) \<and>
    map_of (shard_data (shard_insert_all kvs sh)) = map_of (shard_data sh) ++ map_of (rev kvs)"
  using assms
proof (induction kvs sh rule: shard_insert_all.induct)
  case (2 k v kvs sh)
  obtain sh' prev where s: "shard_insert k v sh = (sh', prev)" by (cases "shard_insert k v sh")
  have "shard_for_key hash n k = Some i" using 2 by simp
  note spec = shard_insert_spec [OF 2(2) this s]
  have "map_of (shard_data sh) ++ map_of (rev ((k, v) # kvs)) = (map_of (shard_data sh))(k \<mapsto> v) ++ map_of (rev kvs)"
    by (rule ext) (simp add: map_add_def split: option.split)
  then show ?case using 2 spec s by (simp add: fun_upd_def)
qed simp

lemma index_mset_loop_spec:
  assumes "distinct sids" and "\<forall>i \<in> set sids. i < length ix"
  shows "\<exists>ix'. index_mset_loop groups sids ix = Some ix' \<and> length ix' = length ix \<and>
    (\<forall>j < length ix. ix' ! j = (if j \<in> set sids then shard_insert_all (group_of groups j) (ix ! j) else ix ! j))"
  using assms
proof (induction sids arbitrary: groups ix)
  case (Cons sid sids)
  let ?g = "fst (hm_remove groups sid)" and ?ix = "ix[sid := shard_insert_all (group_of groups sid) (ix ! sid)]"
  have other: "group_of ?g j = group_of groups j" if "j \<noteq> sid" for j
  proof -
    have "map_of (filter (\<lambda>e. fst e \<noteq> sid) groups) j = map_of groups j"
      using that by (induction groups) auto
    then show ?thesis by (simp add: group_of_def hm_remove_def)
  qed
  have sid: "sid < length ix" "sid \<notin> set sids" using Cons.prems by simp_all
  obtain ix' where ix': "index_mset_loop ?g sids ?ix = Some ix'" "length ix' = length ix"
    "\<And>j. j < length ix \<Longrightarrow>
      ix' ! j = (if j \<in> set sids then shard_insert_all (group_of ?g j) (?ix ! j) else ?ix ! j)"
    using Cons.IH [of ?ix ?g] Cons.prems by auto
  have "ix' ! j = (if j \<in> set (sid # sids) then shard_insert_all (group_of groups j) (ix ! j) else ix ! j)"
    if "j < length ix" for j
    using ix'(3) [OF that] that sid other [of j] by (cases "j = sid") auto
  moreover have "index_mset_loop groups (sid # sids) ix = Some ix'"
    using ix'(1) sid(1) by (simp add: idx_def Let_def group_of_def)
  ultimately show ?case using ix'(2) by blast
qed simp

text \<open>\<open>mset\<close> is the insertion of its pairs in order; later pairs win.\<close>

lemma index_mset_law:
  assumes "index_inv hash ix"
  shows "\<exists>ix'. index_mset hash ix kvs = Some ix' \<and> index_inv hash ix' \<and> length ix' = length ix \<and>
    index_abs hash ix' = index_abs hash ix ++ map_of (rev kvs)"
proof (cases "kvs = []")
  case False
  let ?sid = "\<lambda>(k, v :: 'a). shard_for_key hash (length ix) k"
  have total: "\<forall>x \<in> set kvs. ?sid x \<noteq> None" using home_facts(1) [OF assms] by auto
  obtain g where g: "group_by_shard ?sid kvs [] = Some g" "distinct (map fst g)"
    "fst ` set g = {i. \<exists>x \<in> set kvs. ?sid x = Some i}" "\<And>i. group_of g i = filter (\<lambda>x. ?sid x = Some i) kvs"
    using group_by_shard_spec [OF total, of "[]"] by (auto simp: group_of_def [of "[]"])
  have sids: "distinct (sort (map fst g))" "\<forall>i \<in> set (sort (map fst g)). i < length ix"
    using g(2,3) shard_for_key_less by fastforce+
  obtain ix' where ix': "index_mset_loop g (sort (map fst g)) ix = Some ix'" "length ix' = length ix"
    "\<And>j. j < length ix \<Longrightarrow>
      ix' ! j = (if j \<in> fst ` set g then shard_insert_all (group_of g j) (ix ! j) else ix ! j)"
    using index_mset_loop_spec [OF sids, of g] by auto
  have shard: "shard_ok hash (length ix) j (ix' ! j) \<and>
      map_of (shard_data (ix' ! j)) = map_of (shard_data (ix ! j)) ++ map_of (rev (filter (\<lambda>x. ?sid x = Some j) kvs))"
    if "j < length ix" for j
  proof (cases "j \<in> fst ` set g")
    case True
    then show ?thesis
      using ix'(3) [OF that] g(4) [of j] shard_insert_all_spec [OF index_invD(2) [OF assms that], of "group_of g j"] by auto
  next
    case False
    then have "filter (\<lambda>x. ?sid x = Some j) kvs = []" using g(3) by (auto simp: filter_empty_conv)
    then show ?thesis using ix'(3) [OF that] False index_invD(2) [OF assms that] by simp
  qed
  have inv: "index_inv hash ix'" using assms shard ix'(2) by (auto simp: index_inv_def)
  have "index_abs hash ix' k = (index_abs hash ix ++ map_of (rev kvs)) k" for k
  proof -
    let ?j = "home hash ix k"
    have home: "home hash ix' k = ?j" using ix'(2) by (simp add: home_def)
    have "map_of (rev (filter (\<lambda>x. ?sid x = Some ?j) kvs)) k = map_of (rev kvs) k"
      using home_facts(1) [OF assms, of k] by (induction kvs) (auto simp: map_add_def split: option.split)
    then show ?thesis
      using shard [OF home_facts(2) [OF assms, of k]] home_facts(3) [OF assms, of k] home_facts(3) [OF inv, of k] home
      by (simp add: map_add_def split: option.split)
  qed
  with False g(1) ix' inv show ?thesis by (intro exI [of _ ix']) (simp add: index_mset_def fun_eq_iff)
qed (use assms in \<open>simp add: index_mset_def\<close>)

lemma fill_results_spec:
  assumes "\<forall>(i, k) \<in> set list. i < length results \<and> keys ! i = k"
  shows "\<exists>results'. fill_results sh list results = Some results' \<and> length results' = length results \<and>
    (\<forall>j < length results. results' ! j = (if j \<in> fst ` set list then shard_get (keys ! j) sh else results ! j))"
  using assms
proof (induction sh list results rule: fill_results.induct)
  case (2 sh i key list results)
  let ?r = "results[i := shard_get key sh]"
  have i: "i < length results" "keys ! i = key" using "2.prems" by auto
  have u: "upd results i (shard_get key sh) = Some ?r" using i by (simp add: upd_def)
  with 2 obtain r' where "fill_results sh list ?r = Some r'" "length r' = length results"
    "\<forall>j < length results. r' ! j = (if j \<in> fst ` set list then shard_get (keys ! j) sh else ?r ! j)"
    by auto
  with i u show ?case by (auto simp: nth_list_update)
qed simp

lemma index_mget_loop_spec:
  assumes "\<forall>i \<in> set sids. i < length ix \<and> i \<in> fst ` set groups"
    and "\<forall>i \<in> set sids. \<forall>(j, k) \<in> set (group_of groups i). j < length results \<and> keys ! j = k"
    and "distinct sids" and "\<And>i j. i \<noteq> j \<Longrightarrow> fst ` set (group_of groups i) \<inter> fst ` set (group_of groups j) = {}"
  shows "\<exists>results'. index_mget_loop groups sids ix results = Some results' \<and> length results' = length results \<and>
    (\<forall>j < length results. (\<forall>i \<in> set sids. j \<in> fst ` set (group_of groups i) \<longrightarrow> results' ! j = shard_get (keys ! j) (ix ! i)) \<and>
      ((\<forall>i \<in> set sids. j \<notin> fst ` set (group_of groups i)) \<longrightarrow> results' ! j = results ! j))"
  using assms(1-3)
proof (induction sids arbitrary: results)
  case (Cons sid sids)
  obtain l where l: "map_of groups sid = Some l" using Cons.prems(1) by (auto simp: image_iff) (metis weak_map_of_SomeI)
  then have gl: "group_of groups sid = l" by (simp add: group_of_def)
  have sh: "idx ix sid = Some (ix ! sid)" using Cons.prems(1) by (simp add: idx_def)
  obtain r1 where r1: "fill_results (ix ! sid) l results = Some r1" "length r1 = length results"
    "\<And>j. j < length results \<Longrightarrow> r1 ! j = (if j \<in> fst ` set l then shard_get (keys ! j) (ix ! sid) else results ! j)"
    using fill_results_spec [of l results keys "ix ! sid"] Cons.prems(2) gl by auto
  obtain r2 where r2: "index_mget_loop groups sids ix r1 = Some r2" "length r2 = length results"
    "\<And>j i. j < length results \<Longrightarrow> i \<in> set sids \<Longrightarrow> j \<in> fst ` set (group_of groups i) \<Longrightarrow> r2 ! j = shard_get (keys ! j) (ix ! i)"
    "\<And>j. j < length results \<Longrightarrow> \<forall>i \<in> set sids. j \<notin> fst ` set (group_of groups i) \<Longrightarrow> r2 ! j = r1 ! j"
    using Cons.IH [of r1] Cons.prems r1(2) by auto
  have "r2 ! j = shard_get (keys ! j) (ix ! sid)" if j: "j < length results" "j \<in> fst ` set (group_of groups sid)" for j
  proof -
    have "\<forall>i \<in> set sids. j \<notin> fst ` set (group_of groups i)"
      using j(2) assms(4) [of sid] Cons.prems(3) by fastforce
    with r2(4) [OF j(1)] r1(3) [OF j(1)] j(2) gl show ?thesis by simp
  qed
  then show ?case
    using r1 r2 l sh gl by (intro exI [of _ r2]) auto
qed simp

text \<open>\<open>mget\<close> answers in the order of its keys.\<close>

lemma index_mget_law:
  assumes "index_inv hash ix"
  shows "index_mget hash ix keys = Some (map (index_abs hash ix) keys)"
proof (cases "keys = []")
  case False
  let ?sid = "\<lambda>(i :: nat, k). shard_for_key hash (length ix) k"
  have total: "\<forall>x \<in> set (enumerate 0 keys). ?sid x \<noteq> None" using home_facts(1) [OF assms] by auto
  obtain g where g: "group_by_shard ?sid (enumerate 0 keys) [] = Some g" "distinct (map fst g)"
    "fst ` set g = {i. \<exists>x \<in> set (enumerate 0 keys). ?sid x = Some i}"
    "\<And>i. group_of g i = filter (\<lambda>x. ?sid x = Some i) (enumerate 0 keys)"
    using group_by_shard_spec [OF total, of "[]"] by (auto simp: group_of_def [of "[]"])
  have members: "(j, k) \<in> set (group_of g i) \<longleftrightarrow> j < length keys \<and> k = keys ! j \<and> home hash ix k = i" for i j k
    using home_facts(1) [OF assms, of k] by (auto simp: g(4) in_set_enumerate_eq)
  have sids: "\<forall>i \<in> set (sort (map fst g)). i < length ix \<and> i \<in> fst ` set g"
    using g(3) shard_for_key_less by fastforce
  have disj: "fst ` set (group_of g i) \<inter> fst ` set (group_of g j) = {}" if "i \<noteq> j" for i j
    using that members by auto
  have items: "\<forall>i \<in> set (sort (map fst g)). \<forall>(j, k) \<in> set (group_of g i).
      j < length (replicate (length keys) (None :: 'a option)) \<and> keys ! j = k"
    using members by auto
  obtain r where r: "index_mget_loop g (sort (map fst g)) ix (replicate (length keys) None) = Some r" "length r = length keys"
    "\<And>j i. j < length keys \<Longrightarrow> i \<in> fst ` set g \<Longrightarrow> j \<in> fst ` set (group_of g i) \<Longrightarrow> r ! j = shard_get (keys ! j) (ix ! i)"
    using index_mget_loop_spec [OF sids items _ disj] g(2) by auto
  have "r ! j = index_abs hash ix (keys ! j)" if j: "j < length keys" for j
  proof -
    let ?i = "home hash ix (keys ! j)"
    have "?i \<in> fst ` set g"
      using j home_facts(1) [OF assms, of "keys ! j"] by (auto simp: g(3) in_set_enumerate_eq intro!: bexI [of _ "(j, keys ! j)"])
    moreover have "j \<in> fst ` set (group_of g ?i)" using j members [of j "keys ! j" ?i] by force
    ultimately show ?thesis using r(3) [OF j] home_facts(3) [OF assms, of "keys ! j"] by (simp add: shard_get_def)
  qed
  then have "r = map (index_abs hash ix) keys" using r(2) by (auto intro: nth_equalityI)
  then show ?thesis using False g(1) r(1) by (simp add: index_mget_def)
qed (simp add: index_mget_def)

end
