(* ===== verification/Crc32.thy ===== *)
theory Crc32
  imports Rust_Io
begin

text \<open>
  The checksum of the append-only file (\<open>engine/aof_integrity.rs\<close>, \<open>Crc32\<close>): a table of 256
  words computed once, and a loop over the bytes that looks the table up. The table-driven loop is
  shown equal to the bit-by-bit division it stands for, and from that the checksum detects every
  change confined to four consecutive bytes.
\<close>

unbundle bit_operations_syntax

section \<open>The table and the loop\<close>

definition POLYNOMIAL :: u32 where
  "POLYNOMIAL = 0xEDB88320"

definition crc_shift :: "u32 \<Rightarrow> u32" where
  "crc_shift crc = (if crc AND 1 \<noteq> 0 then drop_bit 1 crc XOR POLYNOMIAL else drop_bit 1 crc)"

definition crc_new :: "u32 list" where
  "crc_new = map (\<lambda>i. (crc_shift ^^ 8) (of_nat i)) [0..<256]"

definition crc_step :: "u32 list \<Rightarrow> u32 \<Rightarrow> u8 \<Rightarrow> u32" where
  "crc_step table crc byte = drop_bit 8 crc XOR table ! unat ((crc XOR ucast byte) AND 0xFF)"

definition checksum :: "u32 list \<Rightarrow> bytes \<Rightarrow> u32" where
  "checksum table data = foldl (crc_step table) 0xFFFFFFFF data XOR 0xFFFFFFFF"

definition crc_verify :: "u32 list \<Rightarrow> bytes \<Rightarrow> u32 \<Rightarrow> bool" where
  "crc_verify table data expected \<longleftrightarrow> checksum table data = expected"

section \<open>One step of the division\<close>

lemma xor_right_cancel: "a XOR c = b XOR c \<longleftrightarrow> a = (b :: u32)"
proof
  assume "a XOR c = b XOR c"
  then have "(a XOR c) XOR c = (b XOR c) XOR c" by simp
  then show "a = b" by (simp add: xor.assoc)
qed simp

lemma xor_left_cancel: "c XOR a = c XOR b \<longleftrightarrow> a = (b :: u32)"
  using xor_right_cancel [of a c b] by (simp add: xor.commute)

lemma bit_crc_shift:
  "bit (crc_shift w) n \<longleftrightarrow> bit w (Suc n) \<noteq> (bit w 0 \<and> bit POLYNOMIAL n)"
proof -
  have "(w AND 1 \<noteq> 0) = bit w 0"
    by (simp add: and_one_eq odd_iff_mod_2_eq_one bit_0 flip: mod_2_eq_odd)
  then show ?thesis
    by (simp add: crc_shift_def bit_drop_bit_eq bit_xor_iff)
qed

lemma crc_shift_xor: "crc_shift (a XOR b) = crc_shift a XOR crc_shift b"
  by (rule bit_eqI) (auto simp: bit_crc_shift bit_xor_iff)

lemma crc_shift_funpow_xor: "(crc_shift ^^ n) (a XOR b) = (crc_shift ^^ n) a XOR (crc_shift ^^ n) b"
  by (induction n) (simp_all add: crc_shift_xor)

lemma bit_POLYNOMIAL_31: "bit POLYNOMIAL 31"
  by (simp add: POLYNOMIAL_def)

lemma crc_shift_inject: "crc_shift a = crc_shift b \<longleftrightarrow> a = b"
proof
  assume eq: "crc_shift a = crc_shift b"
  have top: "\<not> bit w (Suc 31)" for w :: u32
    using bit_imp_le_length [of w "Suc 31"] by auto
  have low: "bit a 0 = bit b 0"
    using arg_cong [OF eq, of "\<lambda>w. bit w 31"] top by (simp add: bit_crc_shift bit_POLYNOMIAL_31)
  show "a = b"
  proof (rule bit_eqI)
    fix n
    show "bit a n = bit b n"
      using low arg_cong [OF eq, of "\<lambda>w. bit w (n - 1)"] by (cases n) (auto simp: bit_crc_shift)
  qed
qed simp

lemma crc_shift_funpow_inject: "(crc_shift ^^ n) a = (crc_shift ^^ n) b \<longleftrightarrow> a = b"
  by (induction n) (simp_all add: crc_shift_inject)

text \<open>Bits below the divisor's reach are only shifted.\<close>

lemma crc_shift_zeros:
  "n \<le> 32 \<Longrightarrow> take_bit n w = 0 \<Longrightarrow> (crc_shift ^^ n) w = drop_bit n w"
proof (induction n arbitrary: w)
  case (Suc n)
  have low: "\<not> bit w i" if "i \<le> n" for i
    using Suc.prems(2) that bit_take_bit_iff [of "Suc n" w i] by (simp add: less_Suc_eq_le)
  have shift: "crc_shift w = drop_bit 1 w"
    using low [of 0] by (intro bit_eqI) (simp add: bit_crc_shift bit_drop_bit_eq)
  have zeros: "take_bit n (drop_bit 1 w) = 0"
    by (rule bit_eqI) (use low in \<open>auto simp: bit_take_bit_iff bit_drop_bit_eq\<close>)
  have "(crc_shift ^^ Suc n) w = (crc_shift ^^ n) (drop_bit 1 w)"
    by (simp add: funpow_swap1 shift del: funpow.simps add: funpow_Suc_right)
  also have "\<dots> = drop_bit n (drop_bit 1 w)"
    using Suc.IH [OF _ zeros] Suc.prems(1) by simp
  finally show ?case by (simp add: drop_bit_drop_bit)
qed simp

section \<open>The table-driven step\<close>

lemma crc_new_nth: "i < 256 \<Longrightarrow> crc_new ! i = (crc_shift ^^ 8) (of_nat i)"
  by (simp add: crc_new_def)

lemma mask_byte: "(0xFF :: u32) = mask 8"
  by (simp add: mask_eq_exp_minus_1)

lemma crc_split: "w = push_bit 8 (drop_bit 8 w) XOR (w AND 0xFF)" for w :: u32
  unfolding mask_byte
  by (rule bit_eqI) (auto simp: bit_xor_iff bit_push_bit_iff bit_drop_bit_eq bit_and_iff bit_mask_iff
      le_add_diff_inverse dest: bit_imp_le_length)

lemma crc_shift_eight: "(crc_shift ^^ 8) w = drop_bit 8 w XOR crc_new ! unat (w AND 0xFF)"
proof -
  have lt: "unat (w AND 0xFF) < 256"
    using word_and_le1 [of w "0xFF"] by (simp add: word_le_nat_alt)
  have "(crc_shift ^^ 8) (push_bit 8 (drop_bit 8 w)) = drop_bit 8 (push_bit 8 (drop_bit 8 w))"
    by (rule crc_shift_zeros) (auto intro!: bit_eqI simp: bit_take_bit_iff bit_push_bit_iff)
  also have "\<dots> = drop_bit 8 w"
    by (rule bit_eqI) (auto simp: bit_drop_bit_eq bit_push_bit_iff dest: bit_imp_le_length)
  finally have high: "(crc_shift ^^ 8) (push_bit 8 (drop_bit 8 w)) = drop_bit 8 w" .
  have "(crc_shift ^^ 8) w = (crc_shift ^^ 8) (push_bit 8 (drop_bit 8 w)) XOR (crc_shift ^^ 8) (w AND 0xFF)"
    by (subst (1) crc_split) (rule crc_shift_funpow_xor)
  then show ?thesis using high lt by (simp add: crc_new_nth)
qed

text \<open>The bit-by-bit reference: feed the byte into the low bits and divide eight times.\<close>

definition crc_reference :: "u32 \<Rightarrow> u8 \<Rightarrow> u32" where
  "crc_reference crc byte = (crc_shift ^^ 8) (crc XOR ucast byte)"

lemma crc_step_reference: "crc_step crc_new crc byte = crc_reference crc byte"
proof -
  have "drop_bit 8 (crc XOR ucast byte) = drop_bit 8 crc"
    by (rule bit_eqI) (auto simp: bit_drop_bit_eq bit_xor_iff bit_ucast_iff dest: bit_imp_le_length)
  then show ?thesis by (simp add: crc_step_def crc_reference_def crc_shift_eight)
qed

lemma checksum_reference: "checksum crc_new data = foldl crc_reference 0xFFFFFFFF data XOR 0xFFFFFFFF"
  by (simp add: checksum_def crc_step_reference [abs_def] cong: foldl_cong)

text \<open>The rules that evaluate a checksum on concrete bytes.\<close>

lemma crc_shift_unroll:
  "(crc_shift ^^ 8) w = crc_shift (crc_shift (crc_shift (crc_shift (crc_shift (crc_shift (crc_shift (crc_shift w)))))))"
  by (simp add: eval_nat_numeral)

lemmas crc_eval = checksum_reference crc_reference_def crc_shift_def POLYNOMIAL_def crc_shift_unroll

section \<open>Bursts\<close>

text \<open>Up to four bytes read as one little-endian word, which is how they reach the register.\<close>

primrec le_word :: "bytes \<Rightarrow> u32" where
  "le_word [] = 0"
| "le_word (b # bs) = ucast b XOR push_bit 8 (le_word bs)"

lemma le_word_high: "length bs \<le> 3 \<Longrightarrow> bit (le_word bs) n \<Longrightarrow> n < 8 * length bs"
proof (induction bs arbitrary: n)
  case (Cons b bs)
  then show ?case
    by (auto simp: bit_xor_iff bit_push_bit_iff bit_ucast_iff dest: bit_imp_le_length) fastforce+
qed simp

lemma drop_push_le_word: "length bs \<le> 3 \<Longrightarrow> drop_bit 8 (push_bit 8 (le_word bs)) = le_word bs"
  using le_word_high [of bs] by (intro bit_eqI) (fastforce simp: bit_drop_bit_eq bit_push_bit_iff)

lemma foldl_crc_reference:
  "length bs \<le> 4 \<Longrightarrow> foldl crc_reference s bs = (crc_shift ^^ (8 * length bs)) (s XOR le_word bs)"
proof (induction bs arbitrary: s)
  case (Cons b bs)
  have "(crc_shift ^^ 8) (push_bit 8 (le_word bs)) = le_word bs"
    using Cons.prems by (subst crc_shift_zeros)
      (auto intro!: bit_eqI simp: drop_push_le_word bit_take_bit_iff bit_push_bit_iff)
  then have "crc_reference s b XOR le_word bs = (crc_shift ^^ 8) ((s XOR ucast b) XOR push_bit 8 (le_word bs))"
    by (simp add: crc_reference_def crc_shift_funpow_xor)
  then show ?case
    using Cons funpow_add [of "8 * length bs" 8 crc_shift] by (simp add: xor.assoc add.commute [of 8])
qed simp

lemma le_word_inject:
  "length bs = length cs \<Longrightarrow> length bs \<le> 4 \<Longrightarrow> le_word bs = le_word cs \<longleftrightarrow> bs = cs"
proof (induction bs cs rule: list_induct2)
  case (Cons b bs c cs)
  have low: "take_bit 8 (ucast a XOR push_bit 8 w) = ucast a" for a :: u8 and w :: u32
    by (rule bit_eqI) (auto simp: bit_take_bit_iff bit_xor_iff bit_push_bit_iff bit_ucast_iff dest: bit_imp_le_length)
  have high: "drop_bit 8 (ucast a XOR push_bit 8 (le_word ds)) = le_word ds" if "length ds \<le> 3" for a :: u8 and ds
  proof -
    have "drop_bit 8 (ucast a :: u32) = 0"
      by (rule bit_eqI) (auto simp: bit_drop_bit_eq bit_ucast_iff dest: bit_imp_le_length)
    then show ?thesis using drop_push_le_word [OF that] by (simp add: drop_bit_xor)
  qed
  have cast: "ucast b = (ucast c :: u32) \<longleftrightarrow> b = c"
  proof
    assume "ucast b = (ucast c :: u32)"
    then have "(ucast (ucast b :: u32) :: u8) = ucast (ucast c :: u32)" by simp
    then show "b = c" by (simp add: ucast_down_ucast_id is_down)
  qed simp
  have "b = c \<and> le_word bs = le_word cs" if "le_word (b # bs) = le_word (c # cs)"
    using that low [of b "le_word bs"] low [of c "le_word cs"] high [of bs b] high [of cs c] cast Cons
    by (metis le_word.simps(2) length_Cons Suc_le_mono numeral_eq_Suc pred_numeral_simps(2,3) BitM.simps)
  then show ?case using Cons by auto
qed simp

lemma foldl_crc_reference_inject: "foldl crc_reference s bs = foldl crc_reference t bs \<longleftrightarrow> s = t"
  by (induction bs arbitrary: s t)
    (auto simp: crc_reference_def crc_shift_funpow_inject xor_right_cancel)

text \<open>Two messages that differ only inside a window of at most four bytes have different checksums.\<close>

theorem checksum_detects_burst:
  assumes "length ws = length ws'" and "length ws \<le> 4"
  shows "checksum crc_new (pre @ ws @ post) = checksum crc_new (pre @ ws' @ post) \<longleftrightarrow> ws = ws'"
proof -
  have "foldl crc_reference s ws = foldl crc_reference s ws' \<longleftrightarrow> ws = ws'" for s
    using assms foldl_crc_reference [of ws s] foldl_crc_reference [of ws' s]
    by (auto simp: crc_shift_funpow_inject le_word_inject xor_left_cancel)
  then show ?thesis
    by (simp add: checksum_reference foldl_crc_reference_inject xor_right_cancel)
qed

end
