(* ===== verification/Aof_Log.thy ===== *)
theory Aof_Log
  imports Crc32
begin

text \<open>
  The format of the append-only file and its replay: the record validator
  (\<open>engine/aof_integrity.rs\<close>) and the replay loops of \<open>engine/aof.rs\<close>, for the format \<open>AOF2\<close>
  with a checksum per record and for the older \<open>AOF1\<close> without. The callback that \<open>replay\<close> is
  given is a function on the state it captures. Positions are \<open>usize\<close>; where the code adds with
  \<open>checked_add\<close> it treats an overflow as a position past the end of the buffer, and no buffer is
  longer than \<open>usize::MAX\<close>, so the sum is taken in \<open>nat\<close>.
\<close>

unbundle bit_operations_syntax

section \<open>Operations and errors\<close>

datatype aof_op = OpSet | OpDel

definition op_code :: "aof_op \<Rightarrow> u8" where
  "op_code op = (case op of OpSet \<Rightarrow> 1 | OpDel \<Rightarrow> 2)"

datatype corruption_policy = Strict | Skip | Log

datatype aof_error =
    BadHeader bytes
  | PartialHeader bytes
  | UnknownAofOp u8
  | ChecksumMismatch u32 u32
  | AofEof string
  | AofIo io_error

definition op_try_from :: "u8 \<Rightarrow> aof_error + aof_op" where
  "op_try_from v = (if v = 1 then Inr OpSet else if v = 2 then Inr OpDel else Inl (UnknownAofOp v))"

lemma op_try_from_code [simp]: "op_try_from (op_code op) = Inr op"
  by (cases op) (simp_all add: op_try_from_def op_code_def)

section \<open>The validator\<close>

datatype validation_result =
    Valid
  | Corrupted u32 u32
  | Truncated
  | UnknownOperation u8
  | ValidationEof

record integrity_stats =
  records_checked :: nat
  records_valid :: nat
  records_corrupted :: nat
  records_truncated :: nat
  records_unknown_op :: nat
  records_skipped :: nat

definition stats_default :: integrity_stats where
  "stats_default = \<lparr>records_checked = 0, records_valid = 0, records_corrupted = 0,
     records_truncated = 0, records_unknown_op = 0, records_skipped = 0\<rparr>"

definition stats_update :: "validation_result \<Rightarrow> integrity_stats \<Rightarrow> integrity_stats" where
  "stats_update r st =
     (let st = st\<lparr>records_checked := records_checked st + 1\<rparr> in
      case r of
        Valid \<Rightarrow> st\<lparr>records_valid := records_valid st + 1\<rparr>
      | Corrupted _ _ \<Rightarrow> st\<lparr>records_corrupted := records_corrupted st + 1\<rparr>
      | Truncated \<Rightarrow> st\<lparr>records_truncated := records_truncated st + 1\<rparr>
      | UnknownOperation _ \<Rightarrow> st\<lparr>records_unknown_op := records_unknown_op st + 1\<rparr>
      | ValidationEof \<Rightarrow> st\<lparr>records_truncated := records_truncated st + 1\<rparr>)"

definition skip_record :: "integrity_stats \<Rightarrow> integrity_stats" where
  "skip_record st = st\<lparr>records_skipped := records_skipped st + 1\<rparr>"

text \<open>Four bytes at a position that the caller has checked to be inside the buffer.\<close>

definition be_u32_at :: "bytes \<Rightarrow> nat \<Rightarrow> nat" where
  "be_u32_at buf pos = unat (from_be_bytes (take 4 (drop pos buf)) :: u32)"

definition validate_record_internal :: "bytes \<Rightarrow> validation_result" where
  "validate_record_internal data =
     (if length data < 9 then Truncated else
      let op = data ! 0 in
      if op \<noteq> 1 \<and> op \<noteq> 2 then UnknownOperation op else
      let expected = from_be_bytes (take 4 (drop 1 data)) :: u32;
          payload = drop 5 data in
      if length payload < 4 then Truncated else
      let after_key = 4 + be_u32_at payload 0 in
      if length payload < after_key then Truncated else
      if op = 1 \<and> length payload < after_key + 4 then Truncated else
      if op = 1 \<and> length payload < after_key + 4 + be_u32_at payload after_key then Truncated else
      let actual = checksum crc_new payload in
      if actual \<noteq> expected then Corrupted expected actual else Valid)"

definition validate_record :: "bytes \<Rightarrow> integrity_stats \<Rightarrow> validation_result \<times> integrity_stats" where
  "validate_record data st = (let r = validate_record_internal data in (r, stats_update r st))"

section \<open>Reading records\<close>

definition aof_read_u32 :: "bytes \<Rightarrow> nat \<Rightarrow> aof_error + nat \<times> nat" where
  "aof_read_u32 buf pos =
     (if pos + 4 > length buf then Inl (AofEof ''Unexpected EOF while reading u32'')
      else Inr (be_u32_at buf pos, pos + 4))"

definition find_record_end :: "bytes \<Rightarrow> nat \<Rightarrow> nat" where
  "find_record_end buf start =
     (if start \<ge> length buf then length buf else
      if start + 9 > length buf then length buf else
      let pos = start + 5;
          key_len = be_u32_at buf pos;
          pos = pos + 4 + key_len in
      if pos > length buf then length buf else
      if buf ! start = 1 then
        (if pos + 4 > length buf then length buf else
         let val_len = be_u32_at buf pos;
             pos = pos + 4 + val_len in
         if pos > length buf then length buf else min pos (length buf))
      else min pos (length buf))"

type_synonym 's aof_callback = "aof_op \<Rightarrow> bytes \<Rightarrow> bytes option \<Rightarrow> 's \<Rightarrow> 's"

definition parse_valid_aof2_record :: "bytes \<Rightarrow> aof_error + aof_op \<times> bytes \<times> bytes option" where
  "parse_valid_aof2_record record_data =
     (if length record_data = 0 then Inl (AofEof ''Empty record'') else
      bind_result (op_try_from (record_data ! 0)) (\<lambda>op.
      if 1 + 4 > length record_data then Inl (AofEof ''truncated checksum'') else
      bind_result (aof_read_u32 record_data 5) (\<lambda>(klen, pos).
      if pos + klen > length record_data then Inl (AofEof ''truncated key'') else
      let key = take klen (drop pos record_data); pos = pos + klen in
      if op = OpSet then
        bind_result (aof_read_u32 record_data pos) (\<lambda>(vlen, pos).
        if pos + vlen > length record_data then Inl (AofEof ''truncated value'') else
        Inr (op, key, Some (take vlen (drop pos record_data))))
      else Inr (op, key, None))))"

definition find_next_valid_record :: "bytes \<Rightarrow> nat \<Rightarrow> nat option" where
  "find_next_valid_record buf start_pos =
     find (\<lambda>pos. (buf ! pos = 1 \<or> buf ! pos = 2) \<and> pos + 9 \<le> length buf) [start_pos + 1..<length buf]"

text \<open>One record of \<open>AOF2\<close>: the position moves only past a valid record.\<close>

definition replay_aof2_record ::
  "'s aof_callback \<Rightarrow> bytes \<Rightarrow> nat \<Rightarrow> integrity_stats \<times> 's \<Rightarrow> (aof_error + nat) \<times> integrity_stats \<times> 's" where
  "replay_aof2_record f buf pos w =
     (let (st, s) = w in
      if pos \<ge> length buf then (Inr pos, st, s) else
      let record_end = find_record_end buf pos;
          record_data = take (record_end - pos) (drop pos buf);
          (r, st) = validate_record record_data st in
      case r of
        Valid \<Rightarrow>
          (case parse_valid_aof2_record record_data of
             Inl e \<Rightarrow> (Inl e, st, s)
           | Inr (op, key, val) \<Rightarrow> (Inr record_end, st, f op key val s))
      | Corrupted expected actual \<Rightarrow> (Inl (ChecksumMismatch expected actual), st, s)
      | Truncated \<Rightarrow> (Inl (AofEof ''Truncated AOF record''), st, s)
      | UnknownOperation op \<Rightarrow> (Inl (UnknownAofOp op), st, s)
      | ValidationEof \<Rightarrow> (Inl (AofEof ''Unexpected end of file in AOF record''), st, s))"

text \<open>One record of \<open>AOF1\<close>: the position is left where the reading stopped, also on an error.\<close>

definition replay_aof1_record ::
  "'s aof_callback \<Rightarrow> bytes \<Rightarrow> nat \<Rightarrow> 's \<Rightarrow> (aof_error + unit) \<times> nat \<times> 's" where
  "replay_aof1_record f buf pos s =
     (if pos \<ge> length buf then (Inr (), pos, s) else
      case op_try_from (buf ! pos) of
        Inl e \<Rightarrow> (Inl e, pos, s)
      | Inr op \<Rightarrow>
     (let pos = pos + 1 in
      case aof_read_u32 buf pos of
        Inl e \<Rightarrow> (Inl e, pos, s)
      | Inr (key_len, pos) \<Rightarrow>
      if pos + key_len > length buf then (Inl (AofEof ''Truncated key data''), pos, s) else
      let key = take key_len (drop pos buf); pos = pos + key_len in
      if op = OpSet then
        (case aof_read_u32 buf pos of
           Inl e \<Rightarrow> (Inl e, pos, s)
         | Inr (vlen, pos) \<Rightarrow>
         if pos + vlen > length buf then (Inl (AofEof ''Truncated value data''), pos, s) else
         (Inr (), pos + vlen, f op key (Some (take vlen (drop pos buf))) s))
      else (Inr (), pos, f op key None s)))"

section \<open>The replay loops\<close>

lemma find_next_gt:
  assumes "find_next_valid_record buf pos = Some p"
  shows "pos < p" and "p < length buf"
  using assms by (auto simp: find_next_valid_record_def find_Some_iff)

lemma validate_len: "validate_record_internal data = Valid \<Longrightarrow> 9 \<le> length data"
  by (auto simp: validate_record_internal_def split: if_splits)

lemma replay_aof2_record_moves:
  assumes "replay_aof2_record f buf pos w = (Inr pos', w')" and "pos < length buf"
  shows "pos < pos'"
proof -
  let ?d = "take (find_record_end buf pos - pos) (drop pos buf)"
  obtain st s where w: "w = (st, s)" by (cases w)
  have "validate_record_internal ?d = Valid" and "pos' = find_record_end buf pos"
    using assms by (auto simp: w replay_aof2_record_def validate_record_def Let_def
        split: validation_result.splits sum.splits)
  then show ?thesis using validate_len [of ?d] by auto
qed

lemma replay_aof1_record_moves:
  assumes "replay_aof1_record f buf pos s = (r, pos', s')"
  shows "pos \<le> pos'" and "r = Inr () \<Longrightarrow> pos < length buf \<Longrightarrow> pos < pos'"
  using assms by (auto simp: replay_aof1_record_def aof_read_u32_def Let_def split: if_splits sum.splits)

function replay_aof2_format ::
  "corruption_policy \<Rightarrow> 's aof_callback \<Rightarrow> bytes \<Rightarrow> nat \<Rightarrow> integrity_stats \<times> nat \<times> 's \<Rightarrow>
     (aof_error + unit) \<times> integrity_stats \<times> nat \<times> 's" where
  "replay_aof2_format policy f buf pos (st, skipped, s) =
     (if pos < length buf then
        case replay_aof2_record f buf pos (st, s) of
          (Inr pos', st, s) \<Rightarrow> replay_aof2_format policy f buf pos' (st, skipped, s)
        | (Inl e, st, s) \<Rightarrow>
            if policy = Strict then (Inl e, st, skipped, s)
            else (case find_next_valid_record buf pos of
                    Some next_pos \<Rightarrow> replay_aof2_format policy f buf next_pos (skip_record st, skipped + 1, s)
                  | None \<Rightarrow> (Inr (), skip_record st, skipped + 1, s))
      else (Inr (), st, skipped, s))"
  by pat_completeness auto
termination
proof (relation "measure (\<lambda>(policy, f, buf, pos, w). length buf - pos)", goal_cases)
  case 2
  then show ?case by (auto dest: find_next_gt)
next
  case (3 policy f buf pos st skipped s r w pos' st' s')
  then have "replay_aof2_record f buf pos (st, s) = (Inr pos', st', s')" by simp
  from replay_aof2_record_moves [OF this 3(1)] 3(1) show ?case by auto
qed auto

function replay_aof1_format ::
  "corruption_policy \<Rightarrow> 's aof_callback \<Rightarrow> bytes \<Rightarrow> nat \<Rightarrow> nat \<times> 's \<Rightarrow> (aof_error + unit) \<times> nat \<times> 's" where
  "replay_aof1_format policy f buf pos (skipped, s) =
     (if pos < length buf then
        case replay_aof1_record f buf pos s of
          (Inr u, pos', s) \<Rightarrow> replay_aof1_format policy f buf pos' (skipped, s)
        | (Inl e, pos', s) \<Rightarrow>
            if policy = Strict then (Inl e, skipped, s)
            else (case find_next_valid_record buf pos' of
                    Some next_pos \<Rightarrow> replay_aof1_format policy f buf next_pos (skipped + 1, s)
                  | None \<Rightarrow> (Inr (), skipped + 1, s))
      else (Inr (), skipped, s))"
  by pat_completeness auto
termination
proof (relation "measure (\<lambda>(policy, f, buf, pos, w). length buf - pos)", goal_cases)
  case (2 policy f buf pos skipped s r w e pos' s')
  then have "replay_aof1_record f buf pos s = (Inl e, pos', s')" by simp
  from replay_aof1_record_moves(1) [OF this] 2 show ?case by (auto dest: find_next_gt)
next
  case (3 policy f buf pos skipped s r w u pos' s')
  then have "replay_aof1_record f buf pos s = (Inr (), pos', s')" by simp
  from replay_aof1_record_moves(2) [OF this refl 3(1)] 3(1) show ?case by auto
qed auto

declare replay_aof2_format.simps [simp del] replay_aof1_format.simps [simp del]

section \<open>What is written\<close>

text \<open>
  A log entry is a key with the value of a \<open>SET\<close>, or none for a \<open>DEL\<close>. The lengths are written as
  \<open>u32\<close>, so an entry is representable when key and value are shorter than 4 GiB.
\<close>

type_synonym aof_entry = "bytes \<times> bytes option"

definition be_len :: "bytes \<Rightarrow> bytes" where
  "be_len bs = to_be_bytes 4 (of_nat (length bs) :: u32)"

fun aof_payload :: "aof_entry \<Rightarrow> bytes" where
  "aof_payload (key, None) = be_len key @ key"
| "aof_payload (key, Some value) = be_len key @ key @ be_len value @ value"

fun entry_op :: "aof_entry \<Rightarrow> aof_op" where
  "entry_op (key, None) = OpDel"
| "entry_op (key, Some value) = OpSet"

definition aof_record :: "aof_entry \<Rightarrow> bytes" where
  "aof_record e = op_code (entry_op e) # to_be_bytes 4 (checksum crc_new (aof_payload e)) @ aof_payload e"

definition aof1_record :: "aof_entry \<Rightarrow> bytes" where
  "aof1_record e = op_code (entry_op e) # aof_payload e"

fun entry_ok :: "aof_entry \<Rightarrow> bool" where
  "entry_ok (key, None) \<longleftrightarrow> length key < 2 ^ 32"
| "entry_ok (key, Some value) \<longleftrightarrow> length key < 2 ^ 32 \<and> length value < 2 ^ 32"

definition apply_entry :: "'s aof_callback \<Rightarrow> aof_entry \<Rightarrow> 's \<Rightarrow> 's" where
  "apply_entry f e = f (entry_op e) (fst e) (snd e)"

section \<open>Reading back one record\<close>

lemma length_be_len [simp]: "length (be_len bs) = 4"
  by (simp add: be_len_def)

lemma be_u32_at_append [simp]: "be_u32_at (pre @ bs) (length pre) = be_u32_at bs 0"
  by (simp add: be_u32_at_def)

lemma be_u32_at_shift: "be_u32_at (pre @ bs) (length pre + n) = be_u32_at bs n"
  by (simp add: be_u32_at_def)

lemma be_u32_at_len [simp]: "length bs < 2 ^ 32 \<Longrightarrow> be_u32_at (be_len bs @ rest) 0 = length bs"
  by (simp add: be_u32_at_def be_len_def from_to_be_bytes unsigned_of_nat take_bit_nat_eq_self)

lemma be_u32_at_take: "pos + 4 \<le> n \<Longrightarrow> be_u32_at (take n bs) pos = be_u32_at bs pos"
  by (simp add: be_u32_at_def drop_take min_def)

lemma be_u32_at_drop: "be_u32_at (drop k bs) pos = be_u32_at bs (k + pos)"
  by (simp add: be_u32_at_def add.commute)

lemma find_record_end_shift:
  assumes "bs \<noteq> []"
  shows "find_record_end (pre @ bs) (length pre) = length pre + find_record_end bs 0"
  using assms by (simp add: find_record_end_def Let_def nth_append add.assoc be_u32_at_shift)

text \<open>
  The layout that both ends agree on: the bytes of an entry are an op code, a checksum and a
  payload whose first field is the length of the key.
\<close>

lemma record_key_len: "entry_ok e \<Longrightarrow> be_u32_at (aof_payload e @ rest) 0 = length (fst e)"
  by (cases e rule: aof_payload.cases) simp_all

lemma record_val_len:
  "entry_ok (key, Some value) \<Longrightarrow>
   be_u32_at (aof_payload (key, Some value) @ rest) (4 + length key) = length value"
  using be_u32_at_shift [of "be_len key @ key" "be_len value @ value @ rest" 0] by simp

lemma length_aof_payload:
  "length (aof_payload (key, None)) = 4 + length key"
  "length (aof_payload (key, Some value)) = 8 + length key + length value"
  by simp_all

text \<open>A record that carries some checksum, the right one or not.\<close>

definition framed_record :: "aof_entry \<Rightarrow> u32 \<Rightarrow> bytes" where
  "framed_record e c = op_code (entry_op e) # to_be_bytes 4 c @ aof_payload e"

lemma aof_record_framed: "aof_record e = framed_record e (checksum crc_new (aof_payload e))"
  by (simp add: aof_record_def framed_record_def)

lemma length_aof_record: "length (aof_record e) = 5 + length (aof_payload e)"
  by (simp add: aof_record_def)

lemma payload_ge: "4 + length (fst e) \<le> length (aof_payload e)"
  by (cases e rule: aof_payload.cases) simp_all

lemma framed_record_parts:
  "(framed_record e c @ rest) ! 0 = op_code (entry_op e)"
  "from_be_bytes (take 4 (drop 1 (framed_record e c @ rest))) = c"
  "drop 5 (framed_record e c @ rest) = aof_payload e @ rest"
  by (simp_all add: framed_record_def from_to_be_bytes drop_Cons')

lemma length_framed_record: "length (framed_record e c) = 5 + length (aof_payload e)"
  by (simp add: framed_record_def)

lemma aof_record_parts:
  "aof_record e ! 0 = op_code (entry_op e)"
  "from_be_bytes (take 4 (drop 1 (aof_record e @ rest))) = checksum crc_new (aof_payload e)"
  "drop 5 (aof_record e @ rest) = aof_payload e @ rest"
  by (simp_all add: aof_record_def from_to_be_bytes drop_Cons')

lemma framed_u32_at: "be_u32_at (framed_record e c @ rest) (5 + n) = be_u32_at (aof_payload e @ rest) n"
  using be_u32_at_drop [of 5 "framed_record e c @ rest" n] framed_record_parts(3) [of e c rest] by simp

lemma record_u32_at: "be_u32_at (aof_record e @ rest) (5 + n) = be_u32_at (aof_payload e @ rest) n"
  by (simp add: aof_record_framed framed_u32_at)

lemma find_record_end_framed:
  assumes "entry_ok e"
  shows "find_record_end (framed_record e c @ rest) 0 = length (framed_record e c)"
proof -
  let ?r = "framed_record e c"
  have key: "be_u32_at (?r @ rest) 5 = length (fst e)"
    using framed_u32_at [of e c rest 0] record_key_len [OF assms, of rest] by simp
  show ?thesis
  proof (cases e rule: aof_payload.cases)
    case (1 k)
    then show ?thesis using key framed_record_parts(1) [of e c rest]
      by (simp add: find_record_end_def Let_def length_framed_record op_code_def)
  next
    case (2 k v)
    have "be_u32_at (?r @ rest) (9 + length k) = length v"
      using framed_u32_at [of e c rest "4 + length k"] record_val_len [of k v rest] assms 2
      by (simp add: add.assoc)
    then show ?thesis using 2 key framed_record_parts(1) [of e c rest]
      by (simp add: find_record_end_def Let_def length_framed_record op_code_def)
  qed
qed

lemma find_record_end_record:
  "entry_ok e \<Longrightarrow> find_record_end (aof_record e @ rest) 0 = length (aof_record e)"
  by (simp add: aof_record_framed find_record_end_framed)

lemma validate_framed:
  assumes "entry_ok e"
  shows "validate_record_internal (framed_record e c) =
    (if checksum crc_new (aof_payload e) = c then Valid else Corrupted c (checksum crc_new (aof_payload e)))"
proof -
  have key: "be_u32_at (aof_payload e) 0 = length (fst e)"
    using record_key_len [OF assms, of "[]"] by simp
  note parts = framed_record_parts [of e c "[]", simplified]
  show ?thesis
  proof (cases e rule: aof_payload.cases)
    case (1 k)
    then show ?thesis using key parts
      by (simp add: validate_record_internal_def Let_def length_framed_record op_code_def)
  next
    case (2 k v)
    have "be_u32_at (aof_payload e) (4 + length k) = length v"
      using record_val_len [of k v "[]"] assms 2 by simp
    then show ?thesis using 2 key parts
      by (simp add: validate_record_internal_def Let_def length_framed_record op_code_def)
  qed
qed

lemma validate_aof_record: "entry_ok e \<Longrightarrow> validate_record_internal (aof_record e) = Valid"
  by (simp add: aof_record_framed validate_framed)

lemma parse_aof_record:
  assumes "entry_ok e"
  shows "parse_valid_aof2_record (aof_record e) = Inr (entry_op e, fst e, snd e)"
proof -
  have key: "be_u32_at (aof_record e) 5 = length (fst e)"
    using record_u32_at [of e "[]" 0] record_key_len [OF assms, of "[]"] by simp
  have pay: "drop (5 + n) (aof_record e) = drop n (aof_payload e)" for n
    using aof_record_parts(3) [of e "[]"] by (metis add.commute append_Nil2 drop_drop)
  show ?thesis
  proof (cases e rule: aof_payload.cases)
    case (1 k)
    then show ?thesis using key pay [of 4] aof_record_parts(1) [of e] aof_record_parts(2,3) [of e "[]"]
      by (simp add: parse_valid_aof2_record_def aof_read_u32_def Let_def length_aof_record)
  next
    case (2 k v)
    have "be_u32_at (aof_record e) (9 + length k) = length v"
      using record_u32_at [of e "[]" "4 + length k"] record_val_len [of k v "[]"] assms 2
      by (simp add: add.assoc)
    then show ?thesis using 2 key pay [of 4] pay [of "8 + length k"] aof_record_parts(1) [of e] aof_record_parts(2,3) [of e "[]"]
      by (simp add: parse_valid_aof2_record_def aof_read_u32_def Let_def length_aof_record)
  qed
qed

section \<open>Replaying a log\<close>

definition aof_log_bytes :: "aof_entry list \<Rightarrow> bytes" where
  "aof_log_bytes es = concat (map aof_record es)"

lemma aof_log_bytes_simps [simp]:
  "aof_log_bytes [] = []"
  "aof_log_bytes (e # es) = aof_record e @ aof_log_bytes es"
  "aof_log_bytes (es @ es') = aof_log_bytes es @ aof_log_bytes es'"
  by (simp_all add: aof_log_bytes_def)

lemma aof_record_nonempty [simp]: "aof_record e \<noteq> []"
  by (simp add: aof_record_def)

lemma take_record_at:
  assumes "bs \<noteq> []"
  shows "take (find_record_end (pre @ bs) (length pre) - length pre) (drop (length pre) (pre @ bs)) =
    take (find_record_end bs 0) bs"
  using find_record_end_shift [OF assms, of pre] by simp

lemma replay_aof2_record_at:
  assumes "entry_ok e"
  shows "replay_aof2_record f (pre @ aof_record e @ rest) (length pre) (st, s) =
    (Inr (length pre + length (aof_record e)), stats_update Valid st, apply_entry f e s)"
proof -
  have "take (find_record_end (aof_record e @ rest) 0) (aof_record e @ rest) = aof_record e"
    by (simp add: find_record_end_record [OF assms])
  then show ?thesis
    using take_record_at [of "aof_record e @ rest" pre] find_record_end_shift [of "aof_record e @ rest" pre]
      find_record_end_record [OF assms, of rest]
    by (simp add: replay_aof2_record_def validate_record_def Let_def validate_aof_record [OF assms]
        parse_aof_record [OF assms] apply_entry_def split_beta)
qed

lemma replay_aof2_step:
  assumes "pos < length buf"
  shows "replay_aof2_format policy f buf pos (st, skipped, s) =
    (case replay_aof2_record f buf pos (st, s) of
       (Inr pos', st, s) \<Rightarrow> replay_aof2_format policy f buf pos' (st, skipped, s)
     | (Inl e, st, s) \<Rightarrow>
         if policy = Strict then (Inl e, st, skipped, s)
         else (case find_next_valid_record buf pos of
                 Some next_pos \<Rightarrow> replay_aof2_format policy f buf next_pos (skip_record st, skipped + 1, s)
               | None \<Rightarrow> (Inr (), skip_record st, skipped + 1, s)))"
  using assms by (simp add: replay_aof2_format.simps [of policy f buf pos])

lemma replay_aof2_end [simp]: "length buf \<le> pos \<Longrightarrow> replay_aof2_format policy f buf pos (st, skipped, s) = (Inr (), st, skipped, s)"
  by (simp add: replay_aof2_format.simps)

lemma replay_aof2_entries:
  assumes "list_all entry_ok es"
  shows "replay_aof2_format policy f (pre @ aof_log_bytes es @ rest) (length pre) (st, skipped, s) =
    replay_aof2_format policy f (pre @ aof_log_bytes es @ rest) (length pre + length (aof_log_bytes es))
      ((stats_update Valid ^^ length es) st, skipped, fold (apply_entry f) es s)"
  using assms
proof (induction es arbitrary: pre st s)
  case (Cons e es)
  let ?buf = "pre @ aof_log_bytes (e # es) @ rest"
  have ok: "entry_ok e" and oks: "list_all entry_ok es" using Cons.prems by simp_all
  have "length pre < length ?buf" by (simp add: length_aof_record)
  then have "replay_aof2_format policy f ?buf (length pre) (st, skipped, s) =
      replay_aof2_format policy f ?buf (length pre + length (aof_record e))
        (stats_update Valid st, skipped, apply_entry f e s)"
    using replay_aof2_record_at [OF ok, of f pre "aof_log_bytes es @ rest" st s]
    by (simp add: replay_aof2_step)
  then show ?case
    using Cons.IH [OF oks, of "pre @ aof_record e" "stats_update Valid st" "apply_entry f e s"]
    by (simp add: funpow_swap1 add.assoc)
qed simp

section \<open>Damage\<close>

text \<open>A record cut short is reported as truncated, wherever it is cut.\<close>

lemma validate_torn:
  assumes "entry_ok e" and "n < length (aof_record e)"
  shows "validate_record_internal (take n (aof_record e)) = Truncated"
proof (cases "n < 9")
  case False
  let ?d = "take n (aof_record e)"
  have head: "?d ! 0 = op_code (entry_op e)" using False by (simp add: aof_record_parts)
  have pay: "drop 5 ?d = take (n - 5) (aof_payload e)"
    using aof_record_parts(3) [of e "[]"] by (simp add: drop_take)
  have key: "be_u32_at (take (n - 5) (aof_payload e)) 0 = length (fst e)"
    using False record_key_len [OF assms(1), of "[]"] by (simp add: be_u32_at_take)
  show ?thesis
  proof (cases e rule: aof_payload.cases)
    case (1 k)
    then show ?thesis using False assms head pay key
      by (simp add: validate_record_internal_def Let_def op_code_def length_aof_record)
  next
    case (2 k v)
    have val: "be_u32_at (take (n - 5) (aof_payload e)) (4 + length k) = length v" if "13 + length k \<le> n"
      using that record_val_len [of k v "[]"] assms(1) by (simp add: 2 be_u32_at_take del: take_append aof_payload.simps)
    then show ?thesis using 2 False assms head pay key
      by (auto simp: validate_record_internal_def Let_def op_code_def length_aof_record)
  qed
qed (use assms in \<open>simp add: validate_record_internal_def\<close>)

lemma find_record_end_torn:
  assumes "entry_ok e" and "n < length (aof_record e)"
  shows "find_record_end (take n (aof_record e)) 0 = n"
proof (cases "n < 9")
  case False
  let ?d = "take n (aof_record e)"
  have head: "?d ! 0 = op_code (entry_op e)" using False by (simp add: aof_record_parts)
  have key: "be_u32_at ?d 5 = length (fst e)"
    using False record_u32_at [of e "[]" 0] record_key_len [OF assms(1), of "[]"] by (simp add: be_u32_at_take)
  show ?thesis
  proof (cases e rule: aof_payload.cases)
    case (1 k)
    then show ?thesis using False assms head key
      by (simp add: find_record_end_def Let_def op_code_def length_aof_record)
  next
    case (2 k v)
    have "be_u32_at ?d (9 + length k) = length v" if "13 + length k \<le> n"
      using that record_u32_at [of e "[]" "4 + length k"] record_val_len [of k v "[]"] assms 2
      by (simp add: be_u32_at_take)
    then show ?thesis using 2 False assms head key
      by (auto simp: find_record_end_def Let_def op_code_def length_aof_record)
  qed
qed (use assms in \<open>simp add: find_record_end_def\<close>)

lemma replay_aof2_record_torn:
  assumes "entry_ok e" and "0 < n" and "n < length (aof_record e)"
  shows "replay_aof2_record f (pre @ take n (aof_record e)) (length pre) (st, s) =
    (Inl (AofEof ''Truncated AOF record''), stats_update Truncated st, s)"
proof -
  have "take n (aof_record e) \<noteq> []" using assms by simp
  from take_record_at [OF this, of pre] show ?thesis
    using assms find_record_end_torn [OF assms(1,3)] validate_torn [OF assms(1,3)]
    by (simp add: replay_aof2_record_def validate_record_def Let_def)
qed

lemma replay_aof2_record_damaged:
  assumes "entry_ok e" and "checksum crc_new (aof_payload e) \<noteq> c"
  shows "replay_aof2_record f (pre @ framed_record e c @ rest) (length pre) (st, s) =
    (Inl (ChecksumMismatch c (checksum crc_new (aof_payload e))),
     stats_update (Corrupted c (checksum crc_new (aof_payload e))) st, s)"
proof -
  have "framed_record e c @ rest \<noteq> []" by (simp add: framed_record_def)
  from take_record_at [OF this, of pre] show ?thesis
    using assms find_record_end_framed [OF assms(1), of c rest]
    by (simp add: replay_aof2_record_def validate_record_def Let_def validate_framed length_framed_record)
qed

text \<open>A log of any entries whose keys and values are shorter than 4 GiB is replayed exactly: the
  callback is called once per entry, in the order they were written, with the key and the value
  of a \<open>SET\<close> and with none for a \<open>DEL\<close>; nothing is skipped and the validator counts every record as
  valid. This holds under each of the three policies.\<close>

theorem aof_log_replays:
  assumes "list_all entry_ok es"
  shows "replay_aof2_format policy f (aof_log_bytes es) 0 (st, skipped, s) =
    (Inr (), (stats_update Valid ^^ length es) st, skipped, fold (apply_entry f) es s)"
  using replay_aof2_entries [OF assms, of policy f "[]" "[]"] by simp

text \<open>A log that ends in the middle of a record, as after a crash during a write: the complete
  records are applied, in order, and then the strict policy reports the truncation. Under the
  other policies the tail is skipped, and the replay ends there unless a later byte of the torn
  record has the value of an operation code with nine bytes still following it.\<close>

theorem aof_torn_tail:
  assumes "list_all entry_ok es" and "entry_ok e" and "0 < n" and "n < length (aof_record e)"
  shows "replay_aof2_format policy f (aof_log_bytes es @ take n (aof_record e)) 0 (st, 0, s) =
    (let buf = aof_log_bytes es @ take n (aof_record e);
         st = stats_update Truncated ((stats_update Valid ^^ length es) st);
         s = fold (apply_entry f) es s in
     if policy = Strict then (Inl (AofEof ''Truncated AOF record''), st, 0, s)
     else case find_next_valid_record buf (length (aof_log_bytes es)) of
            None \<Rightarrow> (Inr (), skip_record st, 1, s)
          | Some p \<Rightarrow> replay_aof2_format policy f buf p (skip_record st, 1, s))"
  using replay_aof2_entries [OF assms(1), of policy f "[]" "take n (aof_record e)" st 0 s] assms(3,4)
    replay_aof2_record_torn [OF assms(2-4), of f "aof_log_bytes es"
      "(stats_update Valid ^^ length es) st" "fold (apply_entry f) es s"]
  by (simp add: replay_aof2_step Let_def length_aof_record split: option.split)

text \<open>C15. Damage to a record that leaves its shape alone is found: when either the stored checksum, or
  up to four neighbouring bytes of the payload, differ from what was written, the strict
  replay applies the records before it and stops with a checksum mismatch; the damaged record
  never reaches the callback.\<close>

theorem aof_damage_detected:
  assumes "list_all entry_ok es" and "entry_ok e" and "entry_ok e'"
    and "aof_payload e = pre @ ws @ post" and "aof_payload e' = pre @ ws' @ post"
    and "length ws = length ws'" and "length ws \<le> 4"
    and "(ws \<noteq> ws') \<noteq> (c \<noteq> checksum crc_new (aof_payload e))"
  shows "case replay_aof2_format Strict f (aof_log_bytes es @ framed_record e' c @ rest) 0 (st, 0, s) of
      (r, st', skipped, s') \<Rightarrow>
        r = Inl (ChecksumMismatch c (checksum crc_new (aof_payload e'))) \<and> skipped = 0 \<and>
        s' = fold (apply_entry f) es s \<and> records_corrupted st' = records_corrupted st + 1"
proof -
  have ne: "checksum crc_new (aof_payload e') \<noteq> c"
    using checksum_detects_burst [OF assms(6,7), of pre post] assms(4,5,8) by auto
  have corrupted: "records_corrupted ((stats_update Valid ^^ n) st) = records_corrupted st" for n
    by (induction n) (simp_all add: stats_update_def Let_def)
  have "framed_record e' c \<noteq> []" by (simp add: framed_record_def)
  then show ?thesis
    using replay_aof2_entries [OF assms(1), of Strict f "[]" "framed_record e' c @ rest" st 0 s]
      replay_aof2_record_damaged [OF assms(3) ne, of f "aof_log_bytes es" rest
        "(stats_update Valid ^^ length es) st" "fold (apply_entry f) es s"]
    by (simp add: replay_aof2_step stats_update_def Let_def corrupted)
qed

lemma aof_damage_detected_witness:
  "case replay_aof2_format Strict (\<lambda>op k v xs. xs @ [(k, v)])
      (aof_log_bytes [([98], None)] @
       framed_record ([97], Some [1, 3]) (checksum crc_new (aof_payload ([97], Some [1, 2]))) @ []) 0
      (stats_default, 0, []) of
    (r, st', skipped, s') \<Rightarrow>
      r = Inl (ChecksumMismatch (checksum crc_new (aof_payload ([97], Some [1, 2])))
                (checksum crc_new (aof_payload ([97], Some [1, 3])))) \<and> skipped = 0 \<and>
      s' = fold (apply_entry (\<lambda>op k v xs. xs @ [(k, v)])) [([98], None)] [] \<and>
      records_corrupted st' = records_corrupted stats_default + 1"
  by (rule aof_damage_detected [where pre = "be_len [97] @ [97] @ be_len [1, 2] @ [1]" and ws = "[2]" and ws' = "[3]"
        and post = "[]" and e = "([97], Some [1, 2])"]) (simp_all add: be_len_def)

section \<open>Resuming after damage\<close>

text \<open>No valid record starts at a position.\<close>

definition no_record :: "bytes \<Rightarrow> nat \<Rightarrow> bool" where
  "no_record buf pos \<longleftrightarrow> validate_record_internal (take (find_record_end buf pos - pos) (drop pos buf)) \<noteq> Valid"

lemma no_record_no_op: "pos < length buf \<Longrightarrow> buf ! pos \<noteq> 1 \<Longrightarrow> buf ! pos \<noteq> 2 \<Longrightarrow> no_record buf pos"
  by (simp add: no_record_def validate_record_internal_def)

lemma replay_aof2_record_fails:
  assumes "pos < length buf" and "no_record buf pos"
  shows "\<exists>e st'. replay_aof2_record f buf pos (st, s) = (Inl e, st', s)"
  using assms
  by (cases "validate_record_internal (take (find_record_end buf pos - pos) (drop pos buf))")
    (auto simp: no_record_def replay_aof2_record_def validate_record_def Let_def)

lemma find_next_before:
  assumes "buf ! q = 1 \<or> buf ! q = 2" and "q + 9 \<le> length buf" and "pos < q"
  shows "\<exists>p. find_next_valid_record buf pos = Some p \<and> pos < p \<and> p \<le> q"
proof -
  let ?P = "\<lambda>pos. (buf ! pos = 1 \<or> buf ! pos = 2) \<and> pos + 9 \<le> length buf" and ?xs = "[pos + 1..<length buf]"
  have q: "?xs ! (q - (pos + 1)) = q" "q - (pos + 1) < length ?xs" "?P q" using assms by simp_all
  moreover have "q \<in> set ?xs" using assms by simp
  ultimately have "find ?P ?xs \<noteq> None" unfolding find_None_iff by blast
  then obtain p where p: "find ?P ?xs = Some p" by blast
  then obtain i where i: "i < length ?xs" "p = ?xs ! i" "\<forall>j<i. \<not> ?P (?xs ! j)" unfolding find_Some_iff by blast
  have "\<not> q - (pos + 1) < i" using i(3) q by metis
  moreover have "p = pos + 1 + i" using i(1,2) by simp
  ultimately have "pos < p" and "p \<le> q" using assms(3) by linarith+
  then show ?thesis using p by (auto simp: find_next_valid_record_def)
qed

text \<open>Replay gets from one position to the next record when nothing between them is one.\<close>

lemma replay_over_junk:
  assumes "policy \<noteq> Strict" and "buf ! q = 1 \<or> buf ! q = 2" and "q + 9 \<le> length buf"
  shows "pos \<le> q \<Longrightarrow> \<forall>i. pos \<le> i \<and> i < q \<longrightarrow> no_record buf i \<Longrightarrow>
    \<exists>st' k. replay_aof2_format policy f buf pos (st, skipped, s) = replay_aof2_format policy f buf q (st', skipped + k, s) \<and>
      k \<le> q - pos \<and> (pos < q \<longrightarrow> 0 < k)"
proof (induction "q - pos" arbitrary: pos st skipped rule: less_induct)
  case less
  show ?case
  proof (cases "pos = q")
    case False
    with less.prems have pos: "pos < q" "pos < length buf" "no_record buf pos" using assms(3) by auto
    obtain e st1 where bad: "replay_aof2_record f buf pos (st, s) = (Inl e, st1, s)"
      using replay_aof2_record_fails [OF pos(2,3), of f st s] by blast
    obtain p where p: "find_next_valid_record buf pos = Some p" "pos < p" "p \<le> q"
      using find_next_before [OF assms(2,3) pos(1)] by blast
    have "q - p < q - pos" using p(2,3) by linarith
    then obtain st' k where k: "replay_aof2_format policy f buf p (skip_record st1, skipped + 1, s) =
        replay_aof2_format policy f buf q (st', skipped + 1 + k, s)" "k \<le> q - p"
      using less.hyps [of p "skip_record st1" "skipped + 1"] p less.prems(2) by auto
    have "replay_aof2_format policy f buf pos (st, skipped, s) = replay_aof2_format policy f buf q (st', skipped + (1 + k), s)"
      using replay_aof2_step [OF pos(2), of policy f st skipped s] bad p(1) k(1) assms(1) by (simp add: add.assoc)
    moreover have "1 + k \<le> q - pos" using k(2) p(2,3) by simp
    ultimately show ?thesis by fastforce
  qed (intro exI [of _ st] exI [of _ 0], simp)
qed

text \<open>C16. Under the policies that skip, replay passes over any stretch of bytes in which no valid record starts, such as a
  damaged record, whatever these bytes are: the records before and after the stretch are all applied, in order, and
  nothing else, and at least one gap is counted.\<close>

theorem aof_resumes_after_damage:
  assumes "policy \<noteq> Strict" and "list_all entry_ok (es @ es')" and "es' \<noteq> []" and "junk \<noteq> []"
    and "\<forall>i<length junk. no_record (aof_log_bytes es @ junk @ aof_log_bytes es') (length (aof_log_bytes es) + i)"
  shows "case replay_aof2_format policy f (aof_log_bytes es @ junk @ aof_log_bytes es') 0 (st, 0, s) of
      (r, st', skipped, s') \<Rightarrow> r = Inr () \<and> 0 < skipped \<and> skipped \<le> length junk \<and> s' = fold (apply_entry f) (es @ es') s"
proof -
  let ?buf = "aof_log_bytes es @ junk @ aof_log_bytes es'" and ?n = "length (aof_log_bytes es)"
  let ?q = "?n + length junk" and ?w = "fold (apply_entry f) es s" and ?st = "(stats_update Valid ^^ length es) st"
  obtain e es'' where es': "es' = e # es''" using assms(3) by (cases es') auto
  obtain rest where rest: "aof_log_bytes es' = op_code (entry_op e) # rest" and len: "8 \<le> length rest"
    using payload_ge [of e] by (auto simp: es' aof_record_def)
  have "?buf ! ?q = 1 \<or> ?buf ! ?q = 2"
    by (cases "entry_op e") (simp_all add: rest nth_append op_code_def)
  moreover have "?q + 9 \<le> length ?buf" using rest len by simp
  moreover have "no_record ?buf i" if "?n \<le> i" and "i < ?q" for i
    using that assms(5) [rule_format, of "i - ?n"] by simp
  ultimately obtain st' k where k: "replay_aof2_format policy f ?buf ?n (?st, 0, ?w) = replay_aof2_format policy f ?buf ?q (st', k, ?w)"
      "k \<le> length junk" "0 < k"
    using replay_over_junk [OF assms(1), of ?buf ?q ?n f ?st 0 ?w] assms(4) by auto
  have "replay_aof2_format policy f ?buf 0 (st, 0, s) = replay_aof2_format policy f ?buf ?n (?st, 0, ?w)"
    using replay_aof2_entries [of es policy f "[]" "junk @ aof_log_bytes es'" st 0 s] assms(2) by simp
  then show ?thesis
    using k replay_aof2_entries [of es' policy f "aof_log_bytes es @ junk" "[]" st' k ?w] assms(2) by simp
qed

text \<open>A \<open>SET\<close> record whose key length is damaged, its operation code intact.\<close>

lemma aof_resumes_after_damage_witness:
  "case replay_aof2_format Log (\<lambda>op k v xs. xs @ [(k, v)])
      (aof_log_bytes [] @ [1, 0, 0, 0, 0, 255, 255, 255, 255, 107] @ aof_log_bytes [([97], None)]) 0 (stats_default, 0, []) of
    (r, st', skipped, s') \<Rightarrow> r = Inr () \<and> 0 < skipped \<and> skipped \<le> length [1, 0, 0, 0, 0, 255, 255, 255, 255, 107 :: u8] \<and>
      s' = fold (apply_entry (\<lambda>op k v xs. xs @ [(k, v)])) ([] @ [([97], None)]) []"
proof (rule aof_resumes_after_damage)
  let ?junk = "[1, 0, 0, 0, 0, 255, 255, 255, 255, 107 :: u8]" and ?log = "aof_log_bytes [([97], None)]"
  show "\<forall>i<length ?junk. no_record (aof_log_bytes [] @ ?junk @ ?log) (length (aof_log_bytes []) + i)"
  proof (intro allI impI)
    fix i
    assume i: "i < length ?junk"
    have len: "length ?log = 10" by (simp add: length_aof_record be_len_def)
    have "be_u32_at (?junk @ ?log) 5 = 4294967295" by (simp add: be_u32_at_def from_be_bytes_def)
    then have "no_record (?junk @ ?log) 0"
      using len by (simp add: no_record_def find_record_end_def validate_record_internal_def be_u32_at_def Let_def)
    moreover have "no_record (?junk @ ?log) i" if "i \<noteq> 0"
    proof (rule no_record_no_op)
      have "\<forall>b\<in>set (tl ?junk). b \<noteq> 1 \<and> b \<noteq> 2" by simp
      moreover have "(?junk @ ?log) ! i = tl ?junk ! (i - 1)" and "i - 1 < length (tl ?junk)"
        using i that by (simp_all add: nth_append nth_Cons' del: append_Cons)
      then have "(?junk @ ?log) ! i \<in> set (tl ?junk)" by (simp only: nth_mem)
      ultimately show "(?junk @ ?log) ! i \<noteq> 1" and "(?junk @ ?log) ! i \<noteq> 2" by blast+
    qed (use i len in simp)
    ultimately show "no_record (aof_log_bytes [] @ ?junk @ ?log) (length (aof_log_bytes []) + i)" by (cases "i = 0") simp_all
  qed
qed simp_all

section \<open>The older format\<close>

definition aof1_log_bytes :: "aof_entry list \<Rightarrow> bytes" where
  "aof1_log_bytes es = concat (map aof1_record es)"

lemma aof1_u32_at: "be_u32_at (pre @ aof1_record e @ rest) (Suc (length pre + n)) = be_u32_at (aof_payload e @ rest) n"
  using be_u32_at_shift [of "pre @ [op_code (entry_op e)]" "aof_payload e @ rest" n]
  by (simp add: aof1_record_def)

lemma drop_aof1_record: "drop (Suc (length pre + n)) (pre @ aof1_record e @ rest) = drop n (aof_payload e @ rest)"
  by (simp add: aof1_record_def)

lemma replay_aof1_record_at:
  assumes "entry_ok e"
  shows "replay_aof1_record f (pre @ aof1_record e @ rest) (length pre) s =
    (Inr (), length pre + length (aof1_record e), apply_entry f e s)"
proof -
  let ?buf = "pre @ aof1_record e @ rest"
  have head: "?buf ! length pre = op_code (entry_op e)" by (simp add: aof1_record_def nth_append)
  have len: "length ?buf = length pre + 1 + length (aof_payload e) + length rest"
    by (simp add: aof1_record_def)
  have key: "be_u32_at ?buf (Suc (length pre)) = length (fst e)"
    using aof1_u32_at [of pre e rest 0] record_key_len [OF assms, of rest] by simp
  show ?thesis
  proof (cases e rule: aof_payload.cases)
    case (1 k)
    have "drop (Suc (length pre + 4)) ?buf = k @ rest" using drop_aof1_record [of pre 4 e rest] 1 by simp
    then show ?thesis using head len key 1
      by (simp add: replay_aof1_record_def aof_read_u32_def Let_def apply_entry_def aof1_record_def)
  next
    case (2 k v)
    have val: "be_u32_at ?buf (Suc (length pre + (4 + length k))) = length v"
      using aof1_u32_at [of pre e rest "4 + length k"] record_val_len [of k v rest] assms 2 by simp
    have "drop (Suc (length pre + 4)) ?buf = k @ be_len v @ v @ rest"
      and "drop (Suc (length pre + (8 + length k))) ?buf = v @ rest"
      using drop_aof1_record [of pre 4 e rest] drop_aof1_record [of pre "8 + length k" e rest] 2 by simp_all
    then show ?thesis using head len key val 2
      by (simp add: replay_aof1_record_def aof_read_u32_def Let_def apply_entry_def aof1_record_def add.commute
          add.left_commute)
  qed
qed

lemma replay_aof1_step:
  assumes "pos < length buf"
  shows "replay_aof1_format policy f buf pos (skipped, s) =
    (case replay_aof1_record f buf pos s of
       (Inr u, pos', s) \<Rightarrow> replay_aof1_format policy f buf pos' (skipped, s)
     | (Inl e, pos', s) \<Rightarrow>
         if policy = Strict then (Inl e, skipped, s)
         else (case find_next_valid_record buf pos' of
                 Some next_pos \<Rightarrow> replay_aof1_format policy f buf next_pos (skipped + 1, s)
               | None \<Rightarrow> (Inr (), skipped + 1, s)))"
  using assms by (simp add: replay_aof1_format.simps [of policy f buf pos])

lemma replay_aof1_end [simp]: "length buf \<le> pos \<Longrightarrow> replay_aof1_format policy f buf pos (skipped, s) = (Inr (), skipped, s)"
  by (simp add: replay_aof1_format.simps)

lemma replay_aof1_entries:
  assumes "list_all entry_ok es"
  shows "replay_aof1_format policy f (pre @ aof1_log_bytes es @ rest) (length pre) (skipped, s) =
    replay_aof1_format policy f (pre @ aof1_log_bytes es @ rest) (length pre + length (aof1_log_bytes es))
      (skipped, fold (apply_entry f) es s)"
  using assms
proof (induction es arbitrary: pre s)
  case (Cons e es)
  let ?buf = "pre @ aof1_log_bytes (e # es) @ rest"
  have ok: "entry_ok e" and oks: "list_all entry_ok es" using Cons.prems by simp_all
  have cons: "aof1_log_bytes (e # es) = aof1_record e @ aof1_log_bytes es" by (simp add: aof1_log_bytes_def)
  have "length pre < length ?buf" by (simp add: cons aof1_record_def)
  then have "replay_aof1_format policy f ?buf (length pre) (skipped, s) =
      replay_aof1_format policy f ?buf (length pre + length (aof1_record e)) (skipped, apply_entry f e s)"
    using replay_aof1_record_at [OF ok, of f pre "aof1_log_bytes es @ rest" s]
    by (simp add: replay_aof1_step cons)
  then show ?case
    using Cons.IH [OF oks, of "pre @ aof1_record e" "apply_entry f e s"] by (simp add: cons add.assoc)
qed (simp add: aof1_log_bytes_def)

lemma aof1_log_replays:
  assumes "list_all entry_ok es"
  shows "replay_aof1_format policy f (aof1_log_bytes es) 0 (skipped, s) =
    (Inr (), skipped, fold (apply_entry f) es s)"
  using replay_aof1_entries [OF assms, of policy f "[]" "[]" skipped s] by simp

text \<open>A newer record read as an older one: its checksum is taken for the length of the key.\<close>

lemma aof1_reads_checksum_as_length:
  assumes "list_all entry_ok es"
    and "length (aof_payload e) + length rest < unat (checksum crc_new (aof_payload e))"
  shows "replay_aof1_format Strict f (aof1_log_bytes es @ aof_record e @ rest) 0 (skipped, s) =
    (Inl (AofEof ''Truncated key data''), skipped, fold (apply_entry f) es s)"
proof -
  let ?buf = "aof1_log_bytes es @ aof_record e @ rest" and ?n = "length (aof1_log_bytes es)"
  have head: "?buf ! ?n = op_code (entry_op e)" by (simp add: aof_record_def nth_append)
  have klen: "be_u32_at ?buf (Suc ?n) = unat (checksum crc_new (aof_payload e))"
    by (simp add: be_u32_at_def aof_record_def from_to_be_bytes)
  have len: "length ?buf = ?n + 5 + length (aof_payload e) + length rest"
    by (simp add: length_aof_record)
  have "replay_aof1_record f ?buf ?n w = (Inl (AofEof ''Truncated key data''), ?n + 5, w)" for w
    using head klen len assms(2) by (simp add: replay_aof1_record_def aof_read_u32_def Let_def)
  then show ?thesis
    using replay_aof1_entries [OF assms(1), of Strict f "[]" "aof_record e @ rest" skipped s] len
    by (simp add: replay_aof1_step)
qed

end
