(* ===== verification/Aof_File.thy ===== *)
theory Aof_File
  imports Aof_Log SmartHash
begin

text \<open>
  The append-only file as \<open>AofLog\<close> (\<open>engine/aof.rs\<close>) keeps it: a reader and a buffered writer on
  files, the sync policy with its batches, and the operations \<open>open\<close>, \<open>append_set\<close>, \<open>append_del\<close>,
  \<open>replay\<close>, \<open>rewrite\<close>, \<open>verify_integrity\<close> and \<open>repair\<close>.

  The file system is a map from file numbers to contents and the number the log's path names, so
  that replacing the path does not touch a file that is still open. A device that refuses writes
  refuses all of them and keeps what it has. What a process loses in a crash is the buffer of the
  writer; \<open>flush\<close> hands the bytes to the operating system, and whether they survive a power failure
  is outside the model (the code never calls \<open>sync_all\<close> on the log). Clocks are arguments; the
  counters of the metrics are natural numbers.
\<close>

section \<open>Files and the buffered writer\<close>

record aof_fs =
  fs_files :: "nat \<Rightarrow> bytes"
  fs_path :: "nat option"
  fs_next :: nat
  fs_ok :: bool

definition fs_append :: "nat \<Rightarrow> bytes \<Rightarrow> aof_fs \<Rightarrow> aof_fs \<times> (io_error + unit)" where
  "fs_append i bs fs =
     (if fs_ok fs then (fs\<lparr>fs_files := (fs_files fs)(i := fs_files fs i @ bs)\<rparr>, Inr ())
      else (fs, Inl OtherError))"

definition BUF_CAPACITY :: nat where
  "BUF_CAPACITY = 8192"

text \<open>\<open>std::io::BufWriter\<close>: the bytes not yet written, with the capacity the library gives it.\<close>

definition bw_flush :: "nat \<Rightarrow> aof_fs \<times> bytes \<Rightarrow> (aof_fs \<times> bytes) \<times> (io_error + unit)" where
  "bw_flush i w =
     (let (fs, buf) = w in
      if buf = [] then ((fs, buf), Inr ()) else
      case fs_append i buf fs of
        (fs, Inl e) \<Rightarrow> ((fs, buf), Inl e)
      | (fs, Inr _) \<Rightarrow> ((fs, []), Inr ()))"

definition bw_write_all :: "nat \<Rightarrow> bytes \<Rightarrow> aof_fs \<times> bytes \<Rightarrow> (aof_fs \<times> bytes) \<times> (io_error + unit)" where
  "bw_write_all i bs w =
     (let (fs, buf) = w; spare = BUF_CAPACITY - length buf in
      if length bs < spare then ((fs, buf @ bs), Inr ()) else
      case (if length bs > spare then bw_flush i (fs, buf) else ((fs, buf), Inr ())) of
        ((fs, buf), Inl e) \<Rightarrow> ((fs, buf), Inl e)
      | ((fs, buf), Inr _) \<Rightarrow>
          if length bs \<ge> BUF_CAPACITY then (let (fs, r) = fs_append i bs fs in ((fs, buf), r))
          else ((fs, buf @ bs), Inr ()))"

section \<open>The log\<close>

datatype sync_policy = Always | EverySec | No

record aof_log =
  writer_file :: nat
  writer_buf :: bytes
  reader_file :: nat
  policy :: sync_policy
  corruption :: corruption_policy
  validator :: integrity_stats
  pending_ops :: nat
  batch_size :: nat
  last_activity :: nat
  ops_total :: nat
  ops_set :: nat
  ops_del :: nat
  flush_count :: nat
  flush_errors :: nat
  replay_skipped :: nat
  last_integrity_check :: nat

definition MAGIC :: bytes where
  "MAGIC = [0x41, 0x4F, 0x46, 0x32]"

definition MAGIC1 :: bytes where
  "MAGIC1 = [0x41, 0x4F, 0x46, 0x31]"

definition INITIAL_BATCH :: nat where
  "INITIAL_BATCH = 32"

type_synonym 'a aof_io = "aof_fs \<times> aof_log \<Rightarrow> (aof_fs \<times> aof_log) \<times> (io_error + 'a)"

definition io_then :: "'a aof_io \<Rightarrow> 'b aof_io \<Rightarrow> 'b aof_io" where
  "io_then m k w = (case m w of (w, Inl e) \<Rightarrow> (w, Inl e) | (w, Inr _) \<Rightarrow> k w)"

definition log_write :: "bytes \<Rightarrow> unit aof_io" where
  "log_write bs w =
     (let (fs, l) = w; ((fs, buf), r) = bw_write_all (writer_file l) bs (fs, writer_buf l)
      in ((fs, l\<lparr>writer_buf := buf\<rparr>), r))"

definition log_flush :: "unit aof_io" where
  "log_flush w =
     (let (fs, l) = w; ((fs, buf), r) = bw_flush (writer_file l) (fs, writer_buf l)
      in ((fs, l\<lparr>writer_buf := buf\<rparr>), r))"

text \<open>Opening creates the file when there is none and checks or writes the four bytes of the header.\<close>

definition fs_create :: "aof_fs \<Rightarrow> aof_fs \<times> nat" where
  "fs_create fs =
     (case fs_path fs of
        Some i \<Rightarrow> (fs, i)
      | None \<Rightarrow> (fs\<lparr>fs_files := (fs_files fs)(fs_next fs := []), fs_path := Some (fs_next fs),
                   fs_next := fs_next fs + 1\<rparr>, fs_next fs))"

definition aof_open :: "nat \<Rightarrow> sync_policy \<Rightarrow> corruption_policy \<Rightarrow> aof_fs \<Rightarrow> aof_fs \<times> (aof_error + aof_log)" where
  "aof_open now pol cpol fs =
     (let (fs, i) = fs_create fs; header = take 4 (fs_files fs i);
          l = \<lparr>writer_file = i, writer_buf = [], reader_file = i, policy = pol, corruption = cpol,
               validator = stats_default, pending_ops = 0, batch_size = INITIAL_BATCH,
               last_activity = now, ops_total = 0, ops_set = 0, ops_del = 0, flush_count = 0,
               flush_errors = 0, replay_skipped = 0, last_integrity_check = 0\<rparr> in
      if length header = 4 then
        (if header \<noteq> MAGIC \<and> header \<noteq> MAGIC1 then (fs, Inl (BadHeader header)) else (fs, Inr l))
      else if length header = 0 then
        (case fs_append i MAGIC fs of
           (fs, Inl e) \<Rightarrow> (fs, Inl (AofIo e))
         | (fs, Inr _) \<Rightarrow> (fs, Inr l))
      else (fs, Inl (PartialHeader header)))"

section \<open>Appending\<close>

definition flush_immediate :: "unit aof_io" where
  "flush_immediate w =
     (let ((fs, l), r) = log_flush w; l = l\<lparr>flush_count := flush_count l + 1\<rparr> in
      case r of
        Inl e \<Rightarrow> ((fs, l\<lparr>flush_errors := flush_errors l + 1\<rparr>), Inl e)
      | Inr _ \<Rightarrow> ((fs, l), Inr ()))"

definition maybe_flush :: "unit aof_io" where
  "maybe_flush w = (case policy (snd w) of Always \<Rightarrow> flush_immediate w | EverySec \<Rightarrow> (w, Inr ()) | No \<Rightarrow> (w, Inr ()))"

definition adjust_batch_size :: "nat \<Rightarrow> aof_log \<Rightarrow> aof_log" where
  "adjust_batch_size now l =
     (if now - last_activity l > 5 \<and> batch_size l > 4
      then l\<lparr>batch_size := max (batch_size l div 2) 4\<rparr> else l)"

text \<open>What both appends do once the record is in the buffer; the clock is read twice.\<close>

definition after_append :: "nat \<Rightarrow> nat \<Rightarrow> unit aof_io" where
  "after_append now now' w =
     (let (fs, l) = w; l = l\<lparr>last_activity := now\<rparr> in
      if policy l = Always then
        let count = pending_ops l + 1; l = l\<lparr>pending_ops := count\<rparr> in
        if count \<ge> batch_size l then
          io_then flush_immediate (\<lambda>(fs, l). ((fs, adjust_batch_size now' (l\<lparr>pending_ops := 0\<rparr>)), Inr ())) (fs, l)
        else ((fs, adjust_batch_size now' l), Inr ())
      else maybe_flush (fs, l))"

definition append_set :: "nat \<Rightarrow> nat \<Rightarrow> bytes \<Rightarrow> bytes \<Rightarrow> unit aof_io" where
  "append_set now now' key value w =
     (let (fs, l) = w; l = l\<lparr>ops_total := ops_total l + 1, ops_set := ops_set l + 1\<rparr>;
          payload = be_len key @ key @ be_len value @ value;
          sum = checksum crc_new payload in
      io_then (log_write [op_code OpSet])
        (io_then (log_write (to_be_bytes 4 sum))
          (io_then (log_write payload) (after_append now now'))) (fs, l))"

definition append_del :: "nat \<Rightarrow> nat \<Rightarrow> bytes \<Rightarrow> unit aof_io" where
  "append_del now now' key w =
     (let (fs, l) = w; l = l\<lparr>ops_total := ops_total l + 1, ops_del := ops_del l + 1\<rparr>;
          payload = be_len key @ key;
          sum = checksum crc_new payload in
      io_then (log_write [op_code OpDel])
        (io_then (log_write (to_be_bytes 4 sum))
          (io_then (log_write payload) (after_append now now'))) (fs, l))"

text \<open>The background thread of \<open>EverySec\<close> flushes and ignores the result; so does dropping the writer.\<close>

definition background_flush :: "aof_fs \<times> aof_log \<Rightarrow> aof_fs \<times> aof_log" where
  "background_flush w = fst (log_flush w)"

definition aof_drop :: "aof_fs \<times> aof_log \<Rightarrow> aof_fs" where
  "aof_drop w = fst (fst (log_flush w))"

section \<open>Replay, rewrite and repair\<close>

definition aof_replay :: "nat \<Rightarrow> 's aof_callback \<Rightarrow> aof_fs \<Rightarrow> aof_log \<times> 's \<Rightarrow> (aof_error + unit) \<times> aof_log \<times> 's" where
  "aof_replay now f fs w =
     (let (l, s) = w; content = fs_files fs (reader_file l) in
      if length content < 4 then (Inl (AofIo UnexpectedEof), l, s) else
      let header = take 4 content; buf = drop 4 content in
      if header \<noteq> MAGIC1 \<and> header \<noteq> MAGIC then (Inl (BadHeader header), l, s) else
      if header = MAGIC1 then
        (case replay_aof1_format (corruption l) f buf 0 (replay_skipped l, s) of
           (r, skipped, s) \<Rightarrow> (r, l\<lparr>replay_skipped := skipped\<rparr>, s))
      else
        (case replay_aof2_format (corruption l) f buf 0 (validator l, replay_skipped l, s) of
           (r, st, skipped, s) \<Rightarrow>
             (r, l\<lparr>validator := st, replay_skipped := skipped, last_integrity_check := now\<rparr>, s)))"

definition aof_rewrite :: "aof_entry list \<Rightarrow> unit aof_io" where
  "aof_rewrite live w =
     (let (fs, l) = w; i = fs_next fs; fs = fs\<lparr>fs_files := (fs_files fs)(i := []), fs_next := i + 1\<rparr> in
      case fs_append i (MAGIC @ concat (map aof_record live)) fs of
        (fs, Inl e) \<Rightarrow> ((fs, l), Inl e)
      | (fs, Inr _) \<Rightarrow>
          (let (fs, l) = fst (log_flush (fs, l))
           in ((fs\<lparr>fs_path := Some i\<rparr>, l\<lparr>reader_file := i, writer_file := i, writer_buf := []\<rparr>), Inr ())))"

definition verify_integrity :: "nat \<Rightarrow> aof_fs \<Rightarrow> aof_log \<Rightarrow> (aof_error + integrity_stats) \<times> aof_log" where
  "verify_integrity now fs l =
     (case aof_replay now (\<lambda>op key val u. u) fs (l\<lparr>validator := stats_default\<rparr>, ()) of
        (Inl e, l, _) \<Rightarrow> (Inl e, l)
      | (Inr _, l, _) \<Rightarrow> (Inr (validator l), l))"

datatype repair_mode = RepairSkip | RepairStrict | RepairRecover

datatype repair_message = Rewritten | RewriteFailed io_error | FoundCorrupted nat | FoundTruncated nat | SkippedInvalid nat

record repair_result =
  repair_stats :: integrity_stats
  modified :: bool
  messages :: "repair_message list"

definition collect_live :: "((bytes, bytes) hash_map) aof_callback" where
  "collect_live op key val m =
     (case op of
        OpSet \<Rightarrow> (case val of Some value \<Rightarrow> fst (hm_insert m key value) | None \<Rightarrow> m)
      | OpDel \<Rightarrow> fst (hm_remove m key))"

definition aof_repair ::
  "(bytes, bytes) order \<Rightarrow> nat \<Rightarrow> repair_mode \<Rightarrow> aof_fs \<times> aof_log \<Rightarrow> (aof_fs \<times> aof_log) \<times> (aof_error + repair_result)" where
  "aof_repair \<sigma> now mode w =
     (let (fs, l) = w; original = corruption l;
          l = l\<lparr>corruption := (case mode of RepairSkip \<Rightarrow> Skip | RepairStrict \<Rightarrow> Strict | RepairRecover \<Rightarrow> Log)\<rparr>;
          (r, l, recovered) = aof_replay now collect_live fs (l, []);
          stats = validator l;
          was_modified = (records_corrupted stats > 0 \<or> records_truncated stats > 0);
          ((fs, l), msgs) =
            (if was_modified \<and> mode \<noteq> RepairStrict then
               case aof_rewrite (map (\<lambda>(k, v). (k, Some v)) (hm_iter \<sigma> recovered)) (fs, l) of
                 (w, Inr _) \<Rightarrow> (w, [Rewritten])
               | (w, Inl e) \<Rightarrow> (w, [RewriteFailed e])
             else ((fs, l), []));
          msgs = msgs @ (if records_corrupted stats > 0 then [FoundCorrupted (records_corrupted stats)] else [])
            @ (if records_truncated stats > 0 then [FoundTruncated (records_truncated stats)] else [])
            @ (if records_skipped stats > 0 then [SkippedInvalid (records_skipped stats)] else []);
          l = l\<lparr>corruption := original\<rparr>;
          result = \<lparr>repair_stats = stats, modified = was_modified, messages = msgs\<rparr> in
      case r of
        Inl e \<Rightarrow> if mode = RepairStrict then ((fs, l), Inl e) else ((fs, l), Inr result)
      | Inr _ \<Rightarrow> ((fs, l), Inr result))"

end
