(* ===== verification/Aof_Durability.thy ===== *)
theory Aof_Durability
  imports Aof_File "HOL-Library.Sublist"
begin

text \<open>
  What the append-only file guarantees across a restart: everything appended is replayed after an
  orderly shutdown, what a crash can lose, what happens to a file of the older format, and what a
  repair leaves behind.
\<close>

section \<open>The writer\<close>

text \<open>
  On a working device a write never fails, appends to what the file and the buffer hold together,
  and only ever extends the file.
\<close>

lemma bw_flush_ok:
  assumes "fs_ok fs"
  shows "bw_flush i (fs, buf) =
    ((fs\<lparr>fs_files := (fs_files fs)(i := fs_files fs i @ buf)\<rparr>, []), Inr ())"
  using assms by (simp add: bw_flush_def fs_append_def)

lemma bw_write_small:
  "length buf + length bs < BUF_CAPACITY \<Longrightarrow> bw_write_all i bs (fs, buf) = ((fs, buf @ bs), Inr ())"
  by (simp add: bw_write_all_def Let_def)

lemma bw_write_ok:
  assumes "fs_ok fs"
  shows "\<exists>d buf'. bw_write_all i bs (fs, buf) = ((fs\<lparr>fs_files := (fs_files fs)(i := d)\<rparr>, buf'), Inr ()) \<and>
    d @ buf' = fs_files fs i @ buf @ bs \<and> prefix (fs_files fs i) d"
proof -
  have same: "fs = fs\<lparr>fs_files := (fs_files fs)(i := fs_files fs i)\<rparr>" by simp
  consider (small) "length bs < BUF_CAPACITY - length buf"
    | (fits) "length bs = BUF_CAPACITY - length buf"
    | (spill) "length bs > BUF_CAPACITY - length buf"
    by linarith
  then show ?thesis
  proof cases
    case small
    then show ?thesis using same by (intro exI [of _ "fs_files fs i"] exI [of _ "buf @ bs"]) (simp add: bw_write_all_def)
  next
    case fits
    then show ?thesis
    proof (cases "buf = []")
      case True
      then show ?thesis using assms fits
        by (intro exI [of _ "fs_files fs i @ bs"] exI [of _ "[]"]) (simp add: bw_write_all_def fs_append_def)
    next
      case False
      then have "length bs < BUF_CAPACITY" using fits by (simp add: BUF_CAPACITY_def)
      then show ?thesis using fits same
        by (intro exI [of _ "fs_files fs i"] exI [of _ "buf @ bs"]) (simp add: bw_write_all_def)
    qed
  next
    case spill
    then show ?thesis
    proof (cases "BUF_CAPACITY \<le> length bs")
      case True
      then show ?thesis using assms spill
        by (intro exI [of _ "fs_files fs i @ buf @ bs"] exI [of _ "[]"])
          (simp add: bw_write_all_def bw_flush_ok fs_append_def)
    next
      case False
      then show ?thesis using assms spill
        by (intro exI [of _ "fs_files fs i @ buf"] exI [of _ bs]) (simp add: bw_write_all_def bw_flush_ok)
    qed
  qed
qed

text \<open>The fields a write leaves alone: \<open>set_disk\<close> names what is left.\<close>

definition set_disk :: "bytes \<Rightarrow> bytes \<Rightarrow> aof_fs \<times> aof_log \<Rightarrow> aof_fs \<times> aof_log" where
  "set_disk d buf w =
     ((fst w)\<lparr>fs_files := (fs_files (fst w))(writer_file (snd w) := d)\<rparr>, (snd w)\<lparr>writer_buf := buf\<rparr>)"

abbreviation disk :: "aof_fs \<times> aof_log \<Rightarrow> bytes" where
  "disk w \<equiv> fs_files (fst w) (writer_file (snd w))"

lemma set_disk_simps [simp]:
  "disk (set_disk d buf w) = d"
  "writer_buf (snd (set_disk d buf w)) = buf"
  "set_disk d' buf' (set_disk d buf w) = set_disk d' buf' w"
  "fs_ok (fst (set_disk d buf w)) = fs_ok (fst w)"
  by (simp_all add: set_disk_def)

lemma log_write_ok:
  assumes "fs_ok (fst w)"
  shows "\<exists>d buf. log_write bs w = (set_disk d buf w, Inr ()) \<and> d @ buf = disk w @ writer_buf (snd w) @ bs \<and>
    prefix (disk w) d"
proof -
  obtain fs l where w: "w = (fs, l)" by (cases w)
  obtain d buf where "bw_write_all (writer_file l) bs (fs, writer_buf l) =
      ((fs\<lparr>fs_files := (fs_files fs)(writer_file l := d)\<rparr>, buf), Inr ())"
    and "d @ buf = fs_files fs (writer_file l) @ writer_buf l @ bs" and "prefix (fs_files fs (writer_file l)) d"
    using bw_write_ok [of fs "writer_file l" bs "writer_buf l"] assms by (auto simp: w)
  then show ?thesis
    by (intro exI [of _ d] exI [of _ buf]) (simp add: w log_write_def set_disk_def)
qed

lemma log_flush_ok:
  assumes "fs_ok (fst w)"
  shows "log_flush w = (set_disk (disk w @ writer_buf (snd w)) [] w, Inr ())"
  using assms by (cases w) (simp add: log_flush_def bw_flush_ok set_disk_def)

lemma io_then_ok: "m w = (w', Inr x) \<Longrightarrow> io_then m k w = k w'"
  by (simp add: io_then_def)

lemma log_writes_ok:
  assumes "fs_ok (fst w)"
  shows "\<exists>d buf. io_then (log_write a) (io_then (log_write b) (io_then (log_write c) k)) w = k (set_disk d buf w) \<and>
    d @ buf = disk w @ writer_buf (snd w) @ a @ b @ c \<and> prefix (disk w) d"
proof -
  obtain d1 b1 where 1: "log_write a w = (set_disk d1 b1 w, Inr ())" "d1 @ b1 = disk w @ writer_buf (snd w) @ a"
    "prefix (disk w) d1"
    using log_write_ok [OF assms, of a] by blast
  obtain d2 b2 where 2: "log_write b (set_disk d1 b1 w) = (set_disk d2 b2 w, Inr ())" "d2 @ b2 = d1 @ b1 @ b" "prefix d1 d2"
    using log_write_ok [of "set_disk d1 b1 w" b] assms by auto
  obtain d3 b3 where 3: "log_write c (set_disk d2 b2 w) = (set_disk d3 b3 w, Inr ())" "d3 @ b3 = d2 @ b2 @ c" "prefix d2 d3"
    using log_write_ok [of "set_disk d2 b2 w" c] assms by auto
  have "d3 @ b3 = disk w @ writer_buf (snd w) @ a @ b @ c" using 1(2) 2(2) 3(2) by (metis append_assoc)
  moreover have "prefix (disk w) d3" using 1(3) 2(3) 3(3) by (meson prefix_order.trans)
  ultimately show ?thesis using 1(1) 2(1) 3(1) by (auto simp: io_then_ok)
qed

section \<open>The state of an open log\<close>

text \<open>
  \<open>aof_holds h w es\<close>: the file and the buffer together are the bytes \<open>h\<close> (a header) and the records of \<open>es\<close>; under
  \<open>Always\<close> the entries before the pending ones are on the disk, and fewer than a batch are pending.
\<close>

definition aof_holds :: "bytes \<Rightarrow> aof_fs \<times> aof_log \<Rightarrow> aof_entry list \<Rightarrow> bool" where
  "aof_holds h w es \<longleftrightarrow>
     fs_ok (fst w) \<and> fs_path (fst w) = Some (writer_file (snd w)) \<and> reader_file (snd w) = writer_file (snd w) \<and>
     disk w @ writer_buf (snd w) = h @ aof_log_bytes es \<and> prefix h (disk w) \<and>
     pending_ops (snd w) < INITIAL_BATCH \<and> batch_size (snd w) \<le> INITIAL_BATCH \<and>
     (policy (snd w) = Always \<longrightarrow>
        prefix (h @ aof_log_bytes (take (length es - pending_ops (snd w)) es)) (disk w))"

definition append_entry :: "nat \<times> nat \<Rightarrow> aof_entry \<Rightarrow> unit aof_io" where
  "append_entry t e = (case e of (key, Some value) \<Rightarrow> append_set (fst t) (snd t) key value
                               | (key, None) \<Rightarrow> append_del (fst t) (snd t) key)"

fun append_entries :: "(nat \<times> nat) list \<Rightarrow> aof_entry list \<Rightarrow> unit aof_io" where
  "append_entries (t # ts) (e # es) = io_then (append_entry t e) (append_entries ts es)"
| "append_entries _ _ = (\<lambda>w. (w, Inr ()))"

lemma append_entry_writes:
  assumes "fs_ok (fst w)"
  obtains d buf l where
    "append_entry t e w = after_append (fst t) (snd t) (set_disk d buf (fst w, l))"
    "d @ buf = disk w @ writer_buf (snd w) @ aof_record e" "prefix (disk w) d"
    "l = (snd w)\<lparr>ops_total := ops_total l, ops_set := ops_set l, ops_del := ops_del l\<rparr>"
proof (cases e rule: aof_payload.cases)
  case (1 k)
  let ?l = "(snd w)\<lparr>ops_total := ops_total (snd w) + 1, ops_del := ops_del (snd w) + 1\<rparr>"
  from log_writes_ok [of "(fst w, ?l)" "[op_code OpDel]" "to_be_bytes 4 (checksum crc_new (be_len k @ k))"
      "be_len k @ k" "after_append (fst t) (snd t)"] assms
  show ?thesis using 1 that [of _ _ ?l]
    by (auto simp: append_entry_def append_del_def Let_def split_beta aof_record_def)
next
  case (2 k v)
  let ?l = "(snd w)\<lparr>ops_total := ops_total (snd w) + 1, ops_set := ops_set (snd w) + 1\<rparr>"
  from log_writes_ok [of "(fst w, ?l)" "[op_code OpSet]"
      "to_be_bytes 4 (checksum crc_new (be_len k @ k @ be_len v @ v))"
      "be_len k @ k @ be_len v @ v" "after_append (fst t) (snd t)"] assms
  show ?thesis using 2 that [of _ _ ?l]
    by (auto simp: append_entry_def append_set_def Let_def split_beta aof_record_def)
qed

lemma after_append_holds:
  assumes w: "w = set_disk d buf (fs, l)" and ok: "fs_ok fs" "fs_path fs = Some (writer_file l)"
    "reader_file l = writer_file l" "pending_ops l < INITIAL_BATCH" "batch_size l \<le> INITIAL_BATCH"
    and db: "d @ buf = h @ aof_log_bytes (es @ [e])" and m: "prefix h d"
    and pre: "policy l = Always \<Longrightarrow> prefix (h @ aof_log_bytes (take (length es - pending_ops l) es)) d"
  shows "\<exists>w'. after_append now now' w = (w', Inr ()) \<and> aof_holds h w' (es @ [e]) \<and>
    policy (snd w') = policy l \<and> corruption (snd w') = corruption l \<and> validator (snd w') = validator l \<and>
    replay_skipped (snd w') = replay_skipped l"
proof (cases "policy l = Always")
  case False
  then show ?thesis using w ok db m
    by (cases "policy l") (simp_all add: after_append_def maybe_flush_def set_disk_def aof_holds_def)
next
  case True
  let ?n = "pending_ops l + 1"
  have half: "batch_size l div 2 \<le> INITIAL_BATCH" using ok(5) by linarith
  show ?thesis
  proof (cases "batch_size l \<le> ?n")
    case flush: True
    let ?l = "l\<lparr>writer_buf := buf, last_activity := now, pending_ops := ?n\<rparr>"
    have "log_flush (fs\<lparr>fs_files := (fs_files fs)(writer_file l := d)\<rparr>, ?l) =
        ((fs\<lparr>fs_files := (fs_files fs)(writer_file l := h @ aof_log_bytes (es @ [e]))\<rparr>, ?l\<lparr>writer_buf := []\<rparr>), Inr ())"
      using log_flush_ok [of "(fs\<lparr>fs_files := (fs_files fs)(writer_file l := d)\<rparr>, ?l)"] ok db
      by (simp add: set_disk_def)
    then show ?thesis using True flush w ok db half
      by (simp add: after_append_def set_disk_def io_then_def flush_immediate_def aof_holds_def Let_def
          adjust_batch_size_def INITIAL_BATCH_def)
  next
    case wait: False
    then show ?thesis using True w ok db m half pre [OF True]
      by (simp add: after_append_def set_disk_def aof_holds_def Let_def adjust_batch_size_def INITIAL_BATCH_def)
  qed
qed

lemma append_entry_holds:
  assumes "aof_holds h w es"
  shows "\<exists>w'. append_entry t e w = (w', Inr ()) \<and> aof_holds h w' (es @ [e]) \<and>
    policy (snd w') = policy (snd w) \<and> corruption (snd w') = corruption (snd w)"
proof -
  note H = assms [unfolded aof_holds_def]
  obtain d buf l where a: "append_entry t e w = after_append (fst t) (snd t) (set_disk d buf (fst w, l))"
    and db: "d @ buf = disk w @ writer_buf (snd w) @ aof_record e" and d: "prefix (disk w) d"
    and l: "l = (snd w)\<lparr>ops_total := ops_total l, ops_set := ops_set l, ops_del := ops_del l\<rparr>"
    using append_entry_writes H by blast
  have same: "writer_file l = writer_file (snd w)" "reader_file l = reader_file (snd w)"
    "pending_ops l = pending_ops (snd w)" "batch_size l = batch_size (snd w)"
    "policy l = policy (snd w)" "corruption l = corruption (snd w)"
    by (subst l, simp)+
  have "d @ buf = h @ aof_log_bytes (es @ [e])"
    using db H by (metis append_assoc aof_log_bytes_simps append_Nil2)
  then show ?thesis
    using after_append_holds [OF refl, where fs = "fst w" and l = l and d = d and buf = buf and es = es
        and e = e and now = "fst t" and now' = "snd t"] H d same
    by (auto simp: a intro: prefix_order.trans)
qed

lemma append_entries_holds:
  assumes "aof_holds h w es" and "length ts = length es'"
  shows "\<exists>w'. append_entries ts es' w = (w', Inr ()) \<and> aof_holds h w' (es @ es') \<and>
    policy (snd w') = policy (snd w) \<and> corruption (snd w') = corruption (snd w)"
  using assms(2,1)
proof (induction ts es' arbitrary: w es rule: list_induct2)
  case (Cons t ts e es')
  obtain w1 where w1: "append_entry t e w = (w1, Inr ())" "aof_holds h w1 (es @ [e])"
    "policy (snd w1) = policy (snd w)" "corruption (snd w1) = corruption (snd w)"
    using append_entry_holds [OF Cons.prems] by blast
  from Cons.IH [OF w1(2)] w1 show ?case by (auto simp: io_then_ok)
qed simp

section \<open>Opening and replaying\<close>

definition fs_fresh :: "aof_fs \<Rightarrow> bool" where
  "fs_fresh fs \<longleftrightarrow> fs_ok fs \<and> (case fs_path fs of None \<Rightarrow> True | Some i \<Rightarrow> fs_files fs i = [])"

lemma aof_open_fresh:
  assumes "fs_fresh fs"
  shows "\<exists>fs' l. aof_open now pol cpol fs = (fs', Inr l) \<and> aof_holds MAGIC (fs', l) [] \<and> policy l = pol \<and>
    corruption l = cpol \<and> writer_buf l = [] \<and> pending_ops l = 0 \<and> batch_size l = INITIAL_BATCH"
  using assms by (auto simp: fs_fresh_def aof_open_def fs_create_def fs_append_def aof_holds_def
      INITIAL_BATCH_def MAGIC_def split: option.splits)

lemma aof_open_existing:
  assumes "fs_ok fs" and "fs_path fs = Some i" and "fs_files fs i = MAGIC @ log"
  shows "\<exists>l. aof_open now pol cpol fs = (fs, Inr l) \<and> reader_file l = i \<and> writer_file l = i \<and> corruption l = cpol \<and>
    validator l = stats_default \<and> replay_skipped l = 0"
  using assms by (simp add: aof_open_def fs_create_def MAGIC_def)

lemma aof_replay_aof2:
  assumes "fs_files fs (reader_file l) = MAGIC @ log"
  shows "aof_replay now f fs (l, s) =
    (case replay_aof2_format (corruption l) f log 0 (validator l, replay_skipped l, s) of
       (r, st, skipped, s) \<Rightarrow>
         (r, l\<lparr>validator := st, replay_skipped := skipped, last_integrity_check := now\<rparr>, s))"
  using assms by (simp add: aof_replay_def MAGIC_def MAGIC1_def)

lemma aof_drop_holds:
  assumes "aof_holds h w es"
  shows "fs_ok (aof_drop w)" and "fs_path (aof_drop w) = Some (writer_file (snd w))"
    and "fs_files (aof_drop w) (writer_file (snd w)) = h @ aof_log_bytes es"
  using assms log_flush_ok [of w] by (simp_all add: aof_drop_def aof_holds_def set_disk_def)

text \<open>C14. A restart keeps everything: open a log on a fresh path, append any entries in any order
  (every append succeeds), drop the log, open it again under any policies and replay it. The
  callback sees exactly the entries appended, in order.\<close>

theorem aof_survives_restart:
  assumes "fs_fresh fs" and "length ts = length es" and "list_all entry_ok es"
  shows "case aof_open now pol cpol fs of
      (fs1, Inl e) \<Rightarrow> False
    | (fs1, Inr l1) \<Rightarrow>
       (case append_entries ts es (fs1, l1) of (w2, r) \<Rightarrow> r = Inr () \<and>
        (case aof_open now' pol' cpol' (aof_drop w2) of
           (fs3, Inl e) \<Rightarrow> False
         | (fs3, Inr l3) \<Rightarrow>
            (case aof_replay now'' f fs3 (l3, s) of (r, l4, s') \<Rightarrow>
               r = Inr () \<and> s' = fold (apply_entry f) es s \<and> replay_skipped l4 = 0)))"
proof -
  obtain fs1 l1 where 1: "aof_open now pol cpol fs = (fs1, Inr l1)" "aof_holds MAGIC (fs1, l1) []"
    using aof_open_fresh [OF assms(1)] by blast
  obtain w2 where 2: "append_entries ts es (fs1, l1) = (w2, Inr ())" "aof_holds MAGIC w2 es"
    using append_entries_holds [OF 1(2) assms(2)] by auto
  note d = aof_drop_holds [OF 2(2)]
  obtain l3 where 3: "aof_open now' pol' cpol' (aof_drop w2) = (aof_drop w2, Inr l3)"
    "reader_file l3 = writer_file (snd w2)" "replay_skipped l3 = 0" "validator l3 = stats_default"
    using aof_open_existing [OF d] by blast
  have "aof_replay now'' f (aof_drop w2) (l3, s) =
      (Inr (), l3\<lparr>validator := (stats_update Valid ^^ length es) stats_default, replay_skipped := 0,
         last_integrity_check := now''\<rparr>, fold (apply_entry f) es s)"
    using aof_replay_aof2 [of "aof_drop w2" l3 "aof_log_bytes es" now'' f s] d(3) 3(2-4)
      replay_aof2_entries [OF assms(3), of "corruption l3" f "[]" "[]" stats_default 0 s]
    by simp
  then show ?thesis by (simp add: 1 2 3)
qed

lemma aof_survives_restart_witness:
  "case aof_open 0 EverySec Log \<lparr>fs_files = \<lambda>_. [], fs_path = None, fs_next = 0, fs_ok = True\<rparr> of
      (fs1, Inl e) \<Rightarrow> False
    | (fs1, Inr l1) \<Rightarrow>
       (case append_entries [(0, 0), (1, 1), (2, 2)] [([97], Some [1, 2]), ([98], Some []), ([97], None)] (fs1, l1) of (w2, r) \<Rightarrow> r = Inr () \<and>
        (case aof_open 9 No Strict (aof_drop w2) of
           (fs3, Inl e) \<Rightarrow> False
         | (fs3, Inr l3) \<Rightarrow>
            (case aof_replay 9 (\<lambda>op k v xs. xs @ [(k, v)]) fs3 (l3, []) of (r, l4, s') \<Rightarrow>
               r = Inr () \<and> s' = fold (apply_entry (\<lambda>op k v xs. xs @ [(k, v)])) [([97], Some [1, 2]), ([98], Some []), ([97], None)] [] \<and> replay_skipped l4 = 0)))"
  by (rule aof_survives_restart) (simp_all add: fs_fresh_def)

section \<open>Crashes\<close>

text \<open>Whatever prefix of a log is on the disk, it is some complete records and a torn one.\<close>

lemma log_prefix_split:
  assumes "prefix d (aof_log_bytes es)"
  shows "\<exists>m n. m \<le> length es \<and> d = aof_log_bytes (take m es) @ (if m < length es then take n (aof_record (es ! m)) else []) \<and>
    (m < length es \<longrightarrow> n < length (aof_record (es ! m)))"
  using assms
proof (induction es arbitrary: d)
  case (Cons e es)
  from Cons.prems obtain z where z: "aof_record e @ aof_log_bytes es = d @ z" by (auto simp: prefix_def)
  show ?case
  proof (cases "length d < length (aof_record e)")
    case True
    have "d = take (length d) (d @ z)" by simp
    also have "\<dots> = take (length d) (aof_record e)" using True by (simp flip: z)
    finally have "d = take (length d) (aof_record e)" .
    with True show ?thesis by (intro exI [of _ 0] exI [of _ "length d"]) simp
  next
    case False
    define d' where "d' = drop (length (aof_record e)) d"
    have "take (length (aof_record e)) (aof_record e @ aof_log_bytes es) = take (length (aof_record e)) d"
      using False by (simp add: z)
    then have d1: "d = aof_record e @ d'" unfolding d'_def by (metis append_take_drop_id append_eq_conv_conj)
    then have "prefix d' (aof_log_bytes es)" using z by (auto simp: prefix_def)
    note d = d1 this
    from Cons.IH [OF d(2)] obtain m n where "m \<le> length es"
      "d' = aof_log_bytes (take m es) @ (if m < length es then take n (aof_record (es ! m)) else [])"
      "m < length es \<longrightarrow> n < length (aof_record (es ! m))" by blast
    with d(1) show ?thesis by (intro exI [of _ "Suc m"] exI [of _ n]) simp
  qed
qed simp

lemma length_log_take_mono: "i \<le> j \<Longrightarrow> length (aof_log_bytes (take i es)) \<le> length (aof_log_bytes (take j es))"
  using aof_log_bytes_simps(3) [of "take i es" "take (j - i) (drop i es)"]
  by (metis add.commute le_add1 le_add_diff_inverse length_append take_add)

lemma replay_prefix:
  assumes "prefix d (aof_log_bytes es)" and "list_all entry_ok es"
    and "prefix (aof_log_bytes (take k es)) d"
  shows "\<exists>m. m \<le> length es \<and> (k \<le> length es \<longrightarrow> k \<le> m) \<and>
    (case replay_aof2_format Strict f d 0 (st, 0, s) of (r, st', skipped, s') \<Rightarrow>
       (r = Inr () \<or> r = Inl (AofEof ''Truncated AOF record'')) \<and> skipped = 0 \<and>
       s' = fold (apply_entry f) (take m es) s)"
proof -
  obtain m n where m: "m \<le> length es"
    and d: "d = aof_log_bytes (take m es) @ (if m < length es then take n (aof_record (es ! m)) else [])"
    and n: "m < length es \<longrightarrow> n < length (aof_record (es ! m))"
    using log_prefix_split [OF assms(1)] by blast
  have ok: "list_all entry_ok (take m es)" "m < length es \<longrightarrow> entry_ok (es ! m)"
    using assms(2) by (auto simp: list_all_length)
  have km: "k \<le> m" if "k \<le> length es"
  proof (rule ccontr)
    assume "\<not> k \<le> m"
    then have lt: "m < length es" using that by simp
    have "length d < length (aof_log_bytes (take (Suc m) es))"
      using n lt by (simp add: d take_Suc_conv_app_nth)
    also have "\<dots> \<le> length (aof_log_bytes (take k es))" using \<open>\<not> k \<le> m\<close> by (intro length_log_take_mono) simp
    also have "\<dots> \<le> length d" using assms(3) by (rule prefix_length_le)
    finally show False by simp
  qed
  have "case replay_aof2_format Strict f d 0 (st, 0, s) of (r, st', skipped, s') \<Rightarrow>
       (r = Inr () \<or> r = Inl (AofEof ''Truncated AOF record'')) \<and> skipped = 0 \<and>
       s' = fold (apply_entry f) (take m es) s"
  proof (cases "m < length es \<and> 0 < n")
    case True
    then show ?thesis
      using replay_aof2_record_torn [of "es ! m" n f "aof_log_bytes (take m es)"] n ok
        replay_aof2_entries [OF ok(1), of Strict f "[]" "take n (aof_record (es ! m))" st 0 s]
      by (simp add: d replay_aof2_step)
  next
    case False
    then have "d = aof_log_bytes (take m es)" by (auto simp: d)
    then show ?thesis using replay_aof2_entries [OF ok(1), of Strict f "[]" "[]" st 0 s] by simp
  qed
  with m km show ?thesis by (intro exI [of _ m] conjI impI)
qed

text \<open>A crash keeps the files and loses the buffer of the writer.\<close>

definition aof_crash :: "aof_fs \<times> aof_log \<Rightarrow> aof_fs" where
  "aof_crash w = fst w"

text \<open>C17. What a crash can lose under \<open>SyncPolicy::Always\<close>: after any appends to a fresh log, a crash
  and a strict replay, the callback has seen a prefix of what was appended, in order, that lacks
  fewer entries than the initial batch of 32; at worst the replay then reports a torn record.\<close>

theorem aof_always_window:
  assumes "fs_fresh fs" and "length ts = length es" and "list_all entry_ok es"
  shows "case aof_open now Always cpol fs of
      (fs1, Inl e) \<Rightarrow> False
    | (fs1, Inr l1) \<Rightarrow>
       (case append_entries ts es (fs1, l1) of (w2, r) \<Rightarrow> r = Inr () \<and>
        (case aof_open now' pol' Strict (aof_crash w2) of
           (fs3, Inl e) \<Rightarrow> False
         | (fs3, Inr l3) \<Rightarrow>
            (case aof_replay now'' f fs3 (l3, s) of (r, l4, s') \<Rightarrow>
               (r = Inr () \<or> r = Inl (AofEof ''Truncated AOF record'')) \<and>
               (\<exists>m. length es < m + INITIAL_BATCH \<and> s' = fold (apply_entry f) (take m es) s))))"
proof -
  obtain fs1 l1 where 1: "aof_open now Always cpol fs = (fs1, Inr l1)" "aof_holds MAGIC (fs1, l1) []" "policy l1 = Always"
    using aof_open_fresh [OF assms(1)] by blast
  obtain w2 where 2: "append_entries ts es (fs1, l1) = (w2, Inr ())" "aof_holds MAGIC w2 es" "policy (snd w2) = Always"
    using append_entries_holds [OF 1(2) assms(2)] 1(3) by auto
  note h = 2(2) [unfolded aof_holds_def]
  obtain d where d: "disk w2 = MAGIC @ d" using h by (auto simp: prefix_def)
  have pre: "prefix d (aof_log_bytes es)" "prefix (aof_log_bytes (take (length es - pending_ops (snd w2)) es)) d"
    using h d 2(3) by (auto intro: prefixI [OF sym])
  obtain l3 where 3: "aof_open now' pol' Strict (aof_crash w2) = (aof_crash w2, Inr l3)"
    "reader_file l3 = writer_file (snd w2)" "replay_skipped l3 = 0" "validator l3 = stats_default" "corruption l3 = Strict"
    using aof_open_existing [of "aof_crash w2" "writer_file (snd w2)" d now' pol' Strict] h d
    by (auto simp: aof_crash_def)
  obtain m where m: "length es - pending_ops (snd w2) \<le> m"
    "case replay_aof2_format Strict f d 0 (stats_default, 0, s) of (r, st', skipped, s') \<Rightarrow>
       (r = Inr () \<or> r = Inl (AofEof ''Truncated AOF record'')) \<and> skipped = 0 \<and>
       s' = fold (apply_entry f) (take m es) s"
    using replay_prefix [OF pre(1) assms(3) pre(2), where f = f and st = stats_default and s = s] by auto
  have "length es < m + INITIAL_BATCH" using m(1) h by linarith
  then show ?thesis
    using m(2) aof_replay_aof2 [of "aof_crash w2" l3 d now'' f s] 3 d
    by (auto simp: 1 2 aof_crash_def split_beta)
qed

lemma aof_always_window_witness:
  "case aof_open 0 Always Log \<lparr>fs_files = \<lambda>_. [], fs_path = None, fs_next = 0, fs_ok = True\<rparr> of
      (fs1, Inl e) \<Rightarrow> False
    | (fs1, Inr l1) \<Rightarrow>
       (case append_entries (replicate 40 (0, 0)) (replicate 40 ([97], None)) (fs1, l1) of (w2, r) \<Rightarrow> r = Inr () \<and>
        (case aof_open 9 No Strict (aof_crash w2) of
           (fs3, Inl e) \<Rightarrow> False
         | (fs3, Inr l3) \<Rightarrow>
            (case aof_replay 9 (\<lambda>op k v xs. xs @ [(k, v)]) fs3 (l3, []) of (r, l4, s') \<Rightarrow>
               (r = Inr () \<or> r = Inl (AofEof ''Truncated AOF record'')) \<and>
               (\<exists>m. length (replicate 40 ([97 :: u8], None :: bytes option)) < m + INITIAL_BATCH \<and>
                 s' = fold (apply_entry (\<lambda>op k v xs. xs @ [(k, v)])) (take m (replicate 40 ([97], None))) []))))"
  by (rule aof_always_window) (simp_all add: fs_fresh_def list_all_iff)

lemma append_entry_unsynced:
  assumes "policy (snd w) = Always" and "pending_ops (snd w) + 1 < batch_size (snd w)"
    and "length (writer_buf (snd w)) + length (aof_record e) < BUF_CAPACITY" and "snd t - fst t \<le> 5"
  shows "\<exists>l. append_entry t e w = ((fst w, l), Inr ()) \<and> policy l = Always \<and>
    pending_ops l = pending_ops (snd w) + 1 \<and> batch_size l = batch_size (snd w) \<and>
    writer_buf l = writer_buf (snd w) @ aof_record e \<and> writer_file l = writer_file (snd w)"
proof (cases e rule: aof_payload.cases)
  case (1 k)
  then show ?thesis using assms
    by (cases w) (simp add: append_entry_def append_del_def io_then_def log_write_def bw_write_small
        after_append_def adjust_batch_size_def aof_record_def Let_def)
next
  case (2 k v)
  then show ?thesis using assms
    by (cases w) (simp add: append_entry_def append_set_def io_then_def log_write_def bw_write_small
        after_append_def adjust_batch_size_def aof_record_def Let_def)
qed

lemma append_entries_unsynced:
  assumes "length ts = length es" and "list_all (\<lambda>t. snd t - fst t \<le> 5) ts"
    and "policy (snd w) = Always" and "pending_ops (snd w) + length es < batch_size (snd w)"
    and "length (writer_buf (snd w)) + length (aof_log_bytes es) < BUF_CAPACITY"
  shows "\<exists>l. append_entries ts es w = ((fst w, l), Inr ())"
  using assms
proof (induction ts es arbitrary: w rule: list_induct2)
  case (Cons t ts e es)
  obtain l where l: "append_entry t e w = ((fst w, l), Inr ())" "policy l = Always"
    "pending_ops l = pending_ops (snd w) + 1" "batch_size l = batch_size (snd w)"
    "writer_buf l = writer_buf (snd w) @ aof_record e"
    using append_entry_unsynced [of w e t] Cons.prems by auto
  from Cons.IH [of "(fst w, l)"] l Cons.prems show ?case by (auto simp: io_then_ok)
qed (metis prod.collapse append_entries.simps(2))

text \<open>The other side of the same policy, whose description is a flush after every command: up to
  31 appends to a fresh log that fit the writer's buffer all succeed and leave nothing but the
  header in the file, so that a crash after them loses every one.\<close>

theorem aof_always_unsynced:
  assumes "fs_fresh fs" and "length ts = length es" and "length es < 32" and "length (aof_log_bytes es) < 8192"
    and "list_all (\<lambda>t. snd t - fst t \<le> 5) ts"
  shows "case aof_open now Always cpol fs of
      (fs1, Inl e) \<Rightarrow> False
    | (fs1, Inr l1) \<Rightarrow>
       (case append_entries ts es (fs1, l1) of (w2, r) \<Rightarrow> r = Inr () \<and>
        (case aof_open now' pol' cpol' (aof_crash w2) of
           (fs3, Inl e) \<Rightarrow> False
         | (fs3, Inr l3) \<Rightarrow> fst (aof_replay now'' f fs3 (l3, s)) = Inr () \<and> snd (snd (aof_replay now'' f fs3 (l3, s))) = s))"
proof -
  obtain fs1 l1 where 1: "aof_open now Always cpol fs = (fs1, Inr l1)" "aof_holds MAGIC (fs1, l1) []" "policy l1 = Always"
    "writer_buf l1 = []" "pending_ops l1 = 0" "batch_size l1 = INITIAL_BATCH"
    using aof_open_fresh [OF assms(1)] by blast
  obtain l2 where 2: "append_entries ts es (fs1, l1) = ((fs1, l2), Inr ())"
    using append_entries_unsynced [OF assms(2,5), of "(fs1, l1)"] assms(3,4) 1
    by (auto simp: INITIAL_BATCH_def BUF_CAPACITY_def)
  have fs1: "fs_ok fs1" "fs_path fs1 = Some (writer_file l1)" "fs_files fs1 (writer_file l1) = MAGIC @ []"
    using 1(2,4) by (simp_all add: aof_holds_def)
  obtain l3 where 3: "aof_open now' pol' cpol' fs1 = (fs1, Inr l3)" "reader_file l3 = writer_file l1"
    using aof_open_existing [OF fs1] by blast
  show ?thesis
    using aof_replay_aof2 [of fs1 l3 "[]" now'' f s] fs1(3) 3 by (simp add: 1(1) 2 aof_crash_def)
qed

lemma aof_always_unsynced_witness:
  "case aof_open 0 Always Log \<lparr>fs_files = \<lambda>_. [], fs_path = None, fs_next = 0, fs_ok = True\<rparr> of
      (fs1, Inl e) \<Rightarrow> False
    | (fs1, Inr l1) \<Rightarrow>
       (case append_entries [(0, 0), (1, 1), (2, 2)] [([97], Some [1, 2]), ([98], Some []), ([97], None)] (fs1, l1) of (w2, r) \<Rightarrow> r = Inr () \<and>
        (case aof_open 9 Always Log (aof_crash w2) of
           (fs3, Inl e) \<Rightarrow> False
         | (fs3, Inr l3) \<Rightarrow> fst (aof_replay 9 (\<lambda>op k v xs. xs @ [(k, v)]) fs3 (l3, [])) = Inr () \<and>
             snd (snd (aof_replay 9 (\<lambda>op k v xs. xs @ [(k, v)]) fs3 (l3, []))) = []))"
  by (rule aof_always_unsynced) (simp_all add: fs_fresh_def length_aof_record)

section \<open>The older format\<close>

text \<open>A log of the older format is opened and replayed, and then appended to in the newer format.
  The first entry appended after the restart makes the file unreadable: unless its checksum is a
  small number, the next strict replay stops at it, and the entry and everything after it are lost.\<close>

theorem aof1_appended_unreadable:
  assumes "fs_ok fs" and "fs_path fs = Some i" and "fs_files fs i = MAGIC1 @ aof1_log_bytes old"
    and "list_all entry_ok old" and "length ts = length (e # es)"
    and "length (aof_payload e) + length (aof_log_bytes es) < unat (checksum crc_new (aof_payload e))"
  shows "case aof_open now pol Strict fs of
      (fs1, Inl err) \<Rightarrow> False
    | (fs1, Inr l1) \<Rightarrow>
       fst (aof_replay now f fs1 (l1, s)) = Inr () \<and>
       snd (snd (aof_replay now f fs1 (l1, s))) = fold (apply_entry f) old s \<and>
       (case append_entries ts (e # es) (fs1, l1) of (w2, r) \<Rightarrow> r = Inr () \<and>
        (case aof_open now' pol' Strict (aof_drop w2) of
           (fs3, Inl err) \<Rightarrow> False
         | (fs3, Inr l3) \<Rightarrow>
            fst (aof_replay now' f fs3 (l3, s)) = Inl (AofEof ''Truncated key data'') \<and>
            snd (snd (aof_replay now' f fs3 (l3, s))) = fold (apply_entry f) old s))"
proof -
  let ?h = "MAGIC1 @ aof1_log_bytes old"
  have M: "take 4 (MAGIC1 @ x) = MAGIC1" "drop 4 (MAGIC1 @ x) = x" "length MAGIC1 = 4" "MAGIC1 \<noteq> MAGIC" for x
    by (simp_all add: MAGIC1_def MAGIC_def)
  have opened: "\<exists>l. aof_open now pol Strict fs' = (fs', Inr l) \<and> reader_file l = i \<and> writer_file l = i \<and> writer_buf l = [] \<and>
      corruption l = Strict \<and> policy l = pol \<and> pending_ops l = 0 \<and> batch_size l = INITIAL_BATCH"
    if "fs_path fs' = Some i" and "fs_files fs' i = MAGIC1 @ x" for fs' x now pol
    using that M by (simp add: aof_open_def fs_create_def)
  have read: "fst (aof_replay now f fs' (l, s)) = fst (replay_aof1_format Strict f x 0 (replay_skipped l, s)) \<and>
      snd (snd (aof_replay now f fs' (l, s))) = snd (snd (replay_aof1_format Strict f x 0 (replay_skipped l, s)))"
    if "fs_files fs' (reader_file l) = MAGIC1 @ x" and "corruption l = Strict" for fs' l x now
    using that M by (simp add: aof_replay_def split_beta)
  obtain l1 where 1: "aof_open now pol Strict fs = (fs, Inr l1)" "reader_file l1 = i" "writer_file l1 = i"
    "writer_buf l1 = []" "corruption l1 = Strict" "pending_ops l1 = 0" "batch_size l1 = INITIAL_BATCH"
    using opened [OF assms(2,3)] by blast
  have "aof_holds ?h (fs, l1) []"
    using 1 assms(1-3) by (simp add: aof_holds_def INITIAL_BATCH_def)
  then obtain w2 where 2: "append_entries ts (e # es) (fs, l1) = (w2, Inr ())" "aof_holds ?h w2 (e # es)"
    using append_entries_holds [of ?h "(fs, l1)" "[]" ts "e # es"] assms(5) by auto
  note d = aof_drop_holds [OF 2(2)]
  have wf: "fs_files (aof_drop w2) (writer_file (snd w2)) = MAGIC1 @ aof1_log_bytes old @ aof_record e @ aof_log_bytes es"
    using d(3) by simp
  obtain l3 where 3: "aof_open now' pol' Strict (aof_drop w2) = (aof_drop w2, Inr l3)"
    "reader_file l3 = writer_file (snd w2)" "corruption l3 = Strict"
    using d(2) wf M by (simp add: aof_open_def fs_create_def)
  show ?thesis
    using read [of fs l1 "aof1_log_bytes old" now] read [of "aof_drop w2" l3 _ now'] wf 1 3 assms(3)
      aof1_log_replays [OF assms(4), of Strict f "replay_skipped l1" s]
      aof1_reads_checksum_as_length [OF assms(4,6), of f "replay_skipped l3" s]
    by (simp add: 2 del: append_entries.simps)
qed

lemma aof1_appended_unreadable_witness:
  "case aof_open 0 EverySec Strict \<lparr>fs_files = \<lambda>_. MAGIC1 @ aof1_log_bytes [([98], Some [7])], fs_path = Some 0, fs_next = 1, fs_ok = True\<rparr> of
      (fs1, Inl err) \<Rightarrow> False
    | (fs1, Inr l1) \<Rightarrow>
       fst (aof_replay 0 (\<lambda>op k v xs. xs @ [(k, v)]) fs1 (l1, [])) = Inr () \<and>
       snd (snd (aof_replay 0 (\<lambda>op k v xs. xs @ [(k, v)]) fs1 (l1, []))) = fold (apply_entry (\<lambda>op k v xs. xs @ [(k, v)])) [([98], Some [7])] [] \<and>
       (case append_entries [(0, 0)] [([], None)] (fs1, l1) of (w2, r) \<Rightarrow> r = Inr () \<and>
        (case aof_open 9 EverySec Strict (aof_drop w2) of
           (fs3, Inl err) \<Rightarrow> False
         | (fs3, Inr l3) \<Rightarrow>
            fst (aof_replay 9 (\<lambda>op k v xs. xs @ [(k, v)]) fs3 (l3, [])) = Inl (AofEof ''Truncated key data'') \<and>
            snd (snd (aof_replay 9 (\<lambda>op k v xs. xs @ [(k, v)]) fs3 (l3, []))) = fold (apply_entry (\<lambda>op k v xs. xs @ [(k, v)])) [([98], Some [7])] []))"
  by (rule aof1_appended_unreadable) (simp_all add: be_len_def to_be_bytes_def upt_rec crc_eval)

section \<open>Repair\<close>

text \<open>What reaches a callback is always an entry that can be written back.\<close>

lemma be_u32_at_less: "be_u32_at buf pos < 2 ^ 32"
  using unsigned_less [of "from_be_bytes (take 4 (drop pos buf)) :: u32"] by (simp add: be_u32_at_def)

lemma parse_entry_ok:
  assumes "parse_valid_aof2_record d = Inr (op, k, v)"
  shows "entry_ok (k, v) \<and> entry_op (k, v) = op"
  using assms be_u32_at_less [of d 5] be_u32_at_less [of d "9 + be_u32_at d 5"]
  by (auto simp: parse_valid_aof2_record_def bind_result_def aof_read_u32_def Let_def op_try_from_def
      split: if_splits sum.splits)

lemma aof1_record_calls:
  assumes "replay_aof1_record f buf pos s = (r, pos', s')"
  shows "s' = s \<or> (\<exists>e. entry_ok e \<and> s' = apply_entry f e s)"
proof -
  have len: "length (take (be_u32_at buf p) xs) < 2 ^ 32" for p and xs :: bytes
    using be_u32_at_less [of buf p] by auto
  have set: "\<exists>e. entry_ok e \<and> f OpSet (take (be_u32_at buf p) xs) (Some (take (be_u32_at buf q) ys)) s = apply_entry f e s"
    for p q xs ys
    using len [of p xs] len [of q ys]
    by (intro exI [of _ "(take (be_u32_at buf p) xs, Some (take (be_u32_at buf q) ys))"]) (simp add: apply_entry_def)
  have del: "\<exists>e. entry_ok e \<and> f OpDel (take (be_u32_at buf p) xs) None s = apply_entry f e s" for p xs
    using len [of p xs] by (intro exI [of _ "(take (be_u32_at buf p) xs, None)"]) (simp add: apply_entry_def)
  show ?thesis
    using assms set del
    by (auto simp: replay_aof1_record_def aof_read_u32_def Let_def op_try_from_def simp del: split_paired_Ex
        split: if_splits sum.splits)
qed

lemma aof2_record_calls:
  assumes "replay_aof2_record f buf pos (st, s) = (r, st', s')"
  shows "s' = s \<or> (\<exists>e. entry_ok e \<and> s' = apply_entry f e s)"
  using assms by (auto simp: replay_aof2_record_def validate_record_def Let_def apply_entry_def
      dest!: parse_entry_ok split: if_splits validation_result.splits sum.splits)

lemma replay_aof2_invariant:
  assumes "\<And>e s. entry_ok e \<Longrightarrow> I s \<Longrightarrow> I (apply_entry f e s)"
    and "replay_aof2_format pol f buf pos (st, skipped, s) = (r, st', skipped', s')" and "I s"
  shows "I s'"
  using assms(2,3)
proof (induction "length buf - pos" arbitrary: pos st skipped s rule: less_induct)
  case less
  show ?case
  proof (cases "pos < length buf")
    case True
    obtain q st1 s1 where rec: "replay_aof2_record f buf pos (st, s) = (q, st1, s1)"
      by (cases "replay_aof2_record f buf pos (st, s)")
    have I: "I s1" using aof2_record_calls [OF rec] assms(1) less.prems(2) by auto
    show ?thesis
    proof (cases q)
      case (Inr pos')
      then have "pos < pos'" using replay_aof2_record_moves [of f buf pos "(st, s)"] rec True by simp
      with less.hyps [of pos' st1 skipped s1] less.prems(1) I True rec Inr show ?thesis
        by (simp add: replay_aof2_step)
    next
      case (Inl e)
      note step = replay_aof2_step [OF True, of pol f st skipped s, unfolded rec Inl, simplified]
      show ?thesis
      proof (cases "find_next_valid_record buf pos")
        case (Some p)
        then show ?thesis
          using find_next_gt [OF Some] less.hyps [of p "skip_record st1" "skipped + 1" s1] less.prems(1) I step
          by (auto split: if_splits)
      qed (use less.prems(1) I step in \<open>auto split: if_splits\<close>)
    qed
  qed (use less.prems in \<open>simp\<close>)
qed

lemma replay_aof1_invariant:
  assumes "\<And>e s. entry_ok e \<Longrightarrow> I s \<Longrightarrow> I (apply_entry f e s)"
    and "replay_aof1_format pol f buf pos (skipped, s) = (r, skipped', s')" and "I s"
  shows "I s'"
  using assms(2,3)
proof (induction "length buf - pos" arbitrary: pos skipped s rule: less_induct)
  case less
  show ?case
  proof (cases "pos < length buf")
    case True
    obtain q pos1 s1 where rec: "replay_aof1_record f buf pos s = (q, pos1, s1)"
      by (cases "replay_aof1_record f buf pos s")
    have I: "I s1" using aof1_record_calls [OF rec] assms(1) less.prems(2) by auto
    show ?thesis
    proof (cases q)
      case (Inr u)
      then have "pos < pos1" using replay_aof1_record_moves(2) [OF rec] True by simp
      with less.hyps [of pos1 skipped s1] less.prems(1) I True rec Inr show ?thesis
        by (simp add: replay_aof1_step)
    next
      case (Inl e)
      note step = replay_aof1_step [OF True, of pol f skipped s, unfolded rec Inl, simplified]
      show ?thesis
      proof (cases "find_next_valid_record buf pos1")
        case (Some p)
        then show ?thesis
          using find_next_gt [OF Some] replay_aof1_record_moves(1) [OF rec] less.hyps [of p "skipped + 1" s1]
            less.prems(1) I step True
          by (auto split: if_splits)
      qed (use less.prems(1) I step in \<open>auto split: if_splits\<close>)
    qed
  qed (use less.prems in \<open>simp\<close>)
qed

lemma aof_replay_invariant:
  assumes "\<And>e s. entry_ok e \<Longrightarrow> I s \<Longrightarrow> I (apply_entry f e s)"
    and "aof_replay now f fs (l, s) = (r, l', s')" and "I s"
  shows "I s'"
  using assms(2,3) replay_aof1_invariant [of I f, OF assms(1)] replay_aof2_invariant [of I f, OF assms(1)]
  by (auto simp: aof_replay_def Let_def split: if_splits prod.splits)

definition live_ok :: "(bytes, bytes) hash_map \<Rightarrow> bool" where
  "live_ok m \<longleftrightarrow> distinct (map fst m) \<and> (\<forall>(k, v) \<in> set m. entry_ok (k, Some v))"

lemma live_ok_map_of: "live_ok m \<longleftrightarrow> distinct (map fst m) \<and> (\<forall>k v. map_of m k = Some v \<longrightarrow> entry_ok (k, Some v))"
  by (auto simp: live_ok_def)

lemma collect_live_ok:
  assumes "entry_ok e" and "live_ok m"
  shows "live_ok (apply_entry collect_live e m)"
proof (cases e rule: entry_op.cases)
  case (1 k)
  obtain m' old where "hm_remove m k = (m', old)" by (cases "hm_remove m k")
  then show ?thesis
    using hm_remove_spec [of m k m' old] assms
    by (auto simp: 1 live_ok_map_of apply_entry_def collect_live_def split: if_splits)
next
  case (2 k v)
  obtain m' old where "hm_insert m k v = (m', old)" by (cases "hm_insert m k v")
  then show ?thesis
    using hm_insert_map [of m k v m' old] hm_insert_distinct [of m k v m' old] assms
    by (auto simp: 2 live_ok_map_of apply_entry_def collect_live_def split: if_splits)
qed

lemma collect_live_sets:
  "fold (apply_entry collect_live) (map (\<lambda>(k, v). (k, Some v)) kvs) m = insert_pairs m kvs"
  by (induction m kvs rule: insert_pairs.induct) (simp_all add: apply_entry_def collect_live_def)

lemma aof_rewrite_ok:
  assumes "fs_ok fs"
  shows "\<exists>fs' l'. aof_rewrite live (fs, l) = ((fs', l'), Inr ()) \<and> fs_ok fs' \<and> fs_path fs' = Some (fs_next fs) \<and>
    writer_file l' = fs_next fs \<and> reader_file l' = fs_next fs \<and>
    (writer_file l \<noteq> fs_next fs \<longrightarrow> fs_files fs' (fs_next fs) = MAGIC @ aof_log_bytes live)"
  using assms by (auto simp: aof_rewrite_def fs_append_def log_flush_def bw_flush_ok aof_log_bytes_def Let_def)

lemma torn_file_replay:
  assumes "l = \<lparr>writer_file = 0, writer_buf = [], reader_file = 0, policy = No, corruption = Log, validator = stats_default,
      pending_ops = 0, batch_size = 32, last_activity = 0, ops_total = 0, ops_set = 0, ops_del = 0,
      flush_count = 0, flush_errors = 0, replay_skipped = 0, last_integrity_check = 0\<rparr>" and "fs = \<lparr>fs_files = \<lambda>_. MAGIC @ [1, 0, 0], fs_path = Some 0, fs_next = 1, fs_ok = True\<rparr>"
  shows "aof_replay 0 collect_live fs (l\<lparr>corruption := Skip\<rparr>, []) =
    (Inr (), l\<lparr>corruption := Skip, validator := skip_record (stats_update Truncated stats_default), replay_skipped := 1\<rparr>, [])"
proof -
  have "replay_aof2_format Skip collect_live [1, 0, 0] 0 (stats_default, 0, []) =
      (Inr (), skip_record (stats_update Truncated stats_default), 1, [])"
    by (simp add: replay_aof2_step replay_aof2_record_def find_record_end_def validate_record_def
        validate_record_internal_def find_next_valid_record_def upt_rec Let_def)
  then show ?thesis
    using aof_replay_aof2 [of fs "l\<lparr>corruption := Skip\<rparr>" "[1, 0, 0]" 0 collect_live "[]"] by (simp add: assms)
qed

text \<open>C18. Repair of a log in which damage was found, in either of the modes that rewrite it, on a
  working device: the path then names a new file that opens and replays without an error or a
  skipped byte under every policy, and the keys and values it holds are exactly those the skipping
  replay of the damaged file had collected.\<close>

theorem aof_repair_clean:
  assumes "fs_ok fs" and "writer_file l < fs_next fs" and "mode \<noteq> RepairStrict"
    and "aof_replay now collect_live fs
           (l\<lparr>corruption := (case mode of RepairSkip \<Rightarrow> Skip | RepairStrict \<Rightarrow> Strict | RepairRecover \<Rightarrow> Log)\<rparr>, []) =
         (r0, l0, recovered)"
    and "records_corrupted (validator l0) > 0 \<or> records_truncated (validator l0) > 0"
  shows "case aof_repair \<sigma> now mode (fs, l) of
      ((fs1, l1), Inl e) \<Rightarrow> False
    | ((fs1, l1), Inr result) \<Rightarrow>
       modified result \<and> Rewritten \<in> set (messages result) \<and> corruption l1 = corruption l \<and>
       (case aof_open now' pol' cpol' fs1 of
          (fs2, Inl e) \<Rightarrow> False
        | (fs2, Inr l2) \<Rightarrow>
           (case aof_replay now' collect_live fs2 (l2, []) of (r, l3, m) \<Rightarrow>
              r = Inr () \<and> replay_skipped l3 = 0 \<and> map_of m = map_of recovered))"
proof -
  let ?kvs = "hm_iter \<sigma> recovered"
  let ?live = "map (\<lambda>(k, v). (k, Some v)) ?kvs"
  have ok: "live_ok recovered"
    using aof_replay_invariant [of live_ok collect_live, OF collect_live_ok assms(4)] by (simp add: live_ok_def)
  have wf: "writer_file l0 = writer_file l" "corruption l0 \<noteq> Strict"
    using assms(3,4) by (cases mode; auto simp: aof_replay_def Let_def split: if_splits prod.splits)+
  obtain fs1 l1 where rw: "aof_rewrite ?live (fs, l0) = ((fs1, l1), Inr ())" "fs_ok fs1" "fs_path fs1 = Some (fs_next fs)"
    "fs_files fs1 (fs_next fs) = MAGIC @ aof_log_bytes ?live"
    using aof_rewrite_ok [OF assms(1), of ?live l0] assms(2) wf(1) by auto
  have rep: "\<exists>l2 result. aof_repair \<sigma> now mode (fs, l) = ((fs1, l2), Inr result) \<and> modified result \<and>
      Rewritten \<in> set (messages result) \<and> corruption l2 = corruption l"
    using assms(3,5) rw(1) by (cases r0) (simp_all add: aof_repair_def assms(4) Let_def)
  obtain l2 where op: "aof_open now' pol' cpol' fs1 = (fs1, Inr l2)" "reader_file l2 = fs_next fs" "replay_skipped l2 = 0"
    using aof_open_existing [OF rw(2-4), of now' pol' cpol'] by auto
  have oks: "list_all entry_ok ?live"
    using ok by (auto simp: list_all_iff live_ok_def hm_iter_facts)
  have "distinct (map fst ?kvs)" using ok by (simp add: live_ok_def hm_iter_facts)
  then have "map_of (rev ?kvs) = map_of ?kvs"
    by (subst map_of_inject_set) (simp_all flip: rev_map)
  then have "map_of (insert_pairs [] ?kvs) = map_of recovered"
    using insert_pairs_spec [of "[]" ?kvs] ok hm_iter_map_of [of recovered \<sigma>] by (simp add: live_ok_def)
  then show ?thesis
    using rep aof_replay_aof2 [of fs1 l2 "aof_log_bytes ?live" now' collect_live "[]"] rw(4) op
      replay_aof2_entries [OF oks, of "corruption l2" collect_live "[]" "[]" "validator l2" 0 "[]"]
    by (auto simp: collect_live_sets)
qed

lemma aof_repair_clean_witness:
  "\<exists>fs l recovered. (case aof_repair (\<lambda>_. []) 0 RepairSkip (fs, l) of
      ((fs1, l1), Inl e) \<Rightarrow> False
    | ((fs1, l1), Inr result) \<Rightarrow>
       modified result \<and> Rewritten \<in> set (messages result) \<and> corruption l1 = corruption l \<and>
       (case aof_open 9 No Strict fs1 of
          (fs2, Inl e) \<Rightarrow> False
        | (fs2, Inr l2) \<Rightarrow>
           (case aof_replay 9 collect_live fs2 (l2, []) of (r, l3, m) \<Rightarrow>
              r = Inr () \<and> replay_skipped l3 = 0 \<and> map_of m = map_of recovered)))"
proof (intro exI)
  let ?l = "\<lparr>writer_file = 0, writer_buf = [], reader_file = 0, policy = No, corruption = Log, validator = stats_default,
      pending_ops = 0, batch_size = 32, last_activity = 0, ops_total = 0, ops_set = 0, ops_del = 0,
      flush_count = 0, flush_errors = 0, replay_skipped = 0, last_integrity_check = 0\<rparr>"
  let ?fs = "\<lparr>fs_files = \<lambda>_. MAGIC @ [1, 0, 0], fs_path = Some 0, fs_next = 1, fs_ok = True\<rparr>"
  have rep: "aof_replay 0 collect_live ?fs
      (?l\<lparr>corruption := (case RepairSkip of RepairSkip \<Rightarrow> Skip | RepairStrict \<Rightarrow> Strict | RepairRecover \<Rightarrow> Log)\<rparr>, []) =
    (Inr (), ?l\<lparr>corruption := Skip, validator := skip_record (stats_update Truncated stats_default), replay_skipped := 1\<rparr>, [])"
    using torn_file_replay [OF refl refl] by simp
  show "case aof_repair (\<lambda>_. []) 0 RepairSkip (?fs, ?l) of
      ((fs1, l1), Inl e) \<Rightarrow> False
    | ((fs1, l1), Inr result) \<Rightarrow>
       modified result \<and> Rewritten \<in> set (messages result) \<and> corruption l1 = corruption ?l \<and>
       (case aof_open 9 No Strict fs1 of
          (fs2, Inl e) \<Rightarrow> False
        | (fs2, Inr l2) \<Rightarrow>
           (case aof_replay 9 collect_live fs2 (l2, []) of (r, l3, m) \<Rightarrow>
              r = Inr () \<and> replay_skipped l3 = 0 \<and> map_of m = map_of []))"
    by (rule aof_repair_clean [OF _ _ _ rep]) (simp_all add: stats_update_def skip_record_def Let_def)
qed

end
