(* ===== verification/Persistent.thy ===== *)
theory Persistent
  imports Storage Sharding Aof_Durability
begin

text \<open>
  \<open>engine/persistent.rs\<close>: the engine that keeps its keys in a sharded index of bytes and logs every
  change to the append-only file. The state is the index with the open log; the file system is
  threaded beside it. \<open>hash\<close> is the keyed hash of the index, drawn afresh when the store is opened,
  \<open>t\<close> supplies the clock readings of one append and \<open>stack\<close> bounds the nesting the decoder can follow.
  The geo operations are left out, they compute with floating-point coordinates.
\<close>

section \<open>State\<close>

record pstore =
  p_index :: "bytes index"
  p_aof :: aof_log
  p_enable_snapshots :: bool

type_synonym 'a pop = "(aof_fs \<times> pstore, 'a) engine_op"

text \<open>The engine's access to its log; an I/O error becomes \<open>StoreError::Io\<close>.\<close>

definition log_entry :: "nat \<times> nat \<Rightarrow> aof_entry \<Rightarrow> unit pop" where
  "log_entry t e w =
     (let (fs, p) = w; ((fs, l), r) = append_entry t e (fs, p_aof p); w = (fs, p\<lparr>p_aof := l\<rparr>) in
      case r of Inl _ \<Rightarrow> Some (w, Inl (StoreIo ''append'')) | Inr _ \<Rightarrow> Some (w, Inr ()))"

definition read_index :: "('a \<Rightarrow> 'b pop) \<Rightarrow> (bytes index \<Rightarrow> 'a) \<Rightarrow> 'b pop" where
  "read_index k f w = k (f (p_index (snd w))) w"

text \<open>A closure on one shard that returns a value, as \<open>shard.write\<close> runs it.\<close>

definition on_index :: "(bytes index \<Rightarrow> (bytes index \<times> 'a) panics) \<Rightarrow> 'a pop" where
  "on_index f w =
     (case f (p_index (snd w)) of
        None \<Rightarrow> None
      | Some (ix, a) \<Rightarrow> Some ((fst w, (snd w)\<lparr>p_index := ix\<rparr>), Inr a))"

section \<open>Opening\<close>

text \<open>The callback of \<open>replay_aof\<close>; its state is the index, or none after a panic.\<close>

definition replay_into :: "(bytes \<Rightarrow> u64) \<Rightarrow> (bytes index panics) aof_callback" where
  "replay_into hash op key val ixo =
     Option.bind ixo (\<lambda>ix.
       case op of
         OpSet \<Rightarrow> (case val of Some v \<Rightarrow> map_option fst (index_insert hash ix key v) | None \<Rightarrow> Some ix)
       | OpDel \<Rightarrow> map_option fst (index_remove hash ix key))"

definition p_new ::
  "(bytes \<Rightarrow> u64) \<Rightarrow> nat \<Rightarrow> nat \<Rightarrow> bool \<Rightarrow> sync_policy \<Rightarrow> corruption_policy \<Rightarrow> bool \<Rightarrow> aof_fs \<Rightarrow>
     (aof_fs \<times> pstore store_result) panics" where
  "p_new hash now num_shards enable_metrics pol cpol snapshots fs =
     (case aof_open now pol cpol fs of
        (fs, Inl e) \<Rightarrow> Some (fs, Inl (StoreIo ''open''))
      | (fs, Inr l) \<Rightarrow>
          (case aof_replay now (replay_into hash) fs (l, Some (index_new num_shards enable_metrics)) of
             (r, l, None) \<Rightarrow> None
           | (Inl e, l, Some ix) \<Rightarrow> Some (fs, Inl (StoreIo ''replay''))
           | (Inr _, l, Some ix) \<Rightarrow>
               Some (fs, Inr \<lparr>p_index = ix, p_aof = l, p_enable_snapshots = snapshots\<rparr>)))"

section \<open>Keys and values\<close>

definition p_set :: "zenv \<Rightarrow> (bytes \<Rightarrow> u64) \<Rightarrow> nat \<times> nat \<Rightarrow> bytes \<Rightarrow> zvalue \<Rightarrow> unit pop" where
  "p_set env hash t key value =
     ebind (elift (to_bytes env value)) (\<lambda>val_b.
     ebind (log_entry t (key, Some val_b)) (\<lambda>_.
     ebind (on_index (\<lambda>ix. index_insert hash ix key val_b)) (\<lambda>_. eok ())))"

definition p_get :: "nat \<Rightarrow> zenv \<Rightarrow> (bytes \<Rightarrow> u64) \<Rightarrow> bytes \<Rightarrow> zvalue option pop" where
  "p_get stack env hash key =
     read_index (\<lambda>r. ebind (elift r) (\<lambda>raw.
       case raw of
         None \<Rightarrow> eok None
       | Some val \<Rightarrow> ebind (elift (from_bytes stack env val)) (\<lambda>r. ebind (eresult r) (\<lambda>v. eok (Some v)))))
       (\<lambda>ix. index_get hash ix key)"

definition p_del :: "(bytes \<Rightarrow> u64) \<Rightarrow> nat \<times> nat \<Rightarrow> bytes \<Rightarrow> bool pop" where
  "p_del hash t key =
     ebind (on_index (\<lambda>ix. index_remove hash ix key)) (\<lambda>existed.
     ebind (if existed then log_entry t (key, None) else eok ()) (\<lambda>_. eok existed))"

text \<open>\<open>mset\<close>: the last value of each key is logged, in the order of the lookup table, and then written
  shard by shard with one update of the counter.\<close>

fun lookup_table :: "zenv \<Rightarrow> (bytes \<times> zvalue) list \<Rightarrow> (bytes, bytes) hash_map \<Rightarrow> (bytes, bytes) hash_map panics" where
  "lookup_table env [] m = Some m"
| "lookup_table env ((k, v) # kvs) m = do {
     b \<leftarrow> to_bytes env v;
     lookup_table env kvs (fst (hm_insert m k b))
   }"

fun log_all :: "(nat \<times> nat) list \<Rightarrow> aof_entry list \<Rightarrow> unit pop" where
  "log_all ts [] = eok ()"
| "log_all ts (e # es) = ebind (log_entry (case ts of [] \<Rightarrow> (0, 0) | t # _ \<Rightarrow> t) e) (\<lambda>_. log_all (tl ts) es)"

fun write_keys :: "(bytes, bytes) hash_map \<Rightarrow> bytes list \<Rightarrow> (bytes, bytes) hash_map \<times> nat \<Rightarrow> (bytes, bytes) hash_map \<times> nat" where
  "write_keys table [] w = w"
| "write_keys table (k # ks) (m, new_keys) =
     (case map_of table k of
        Some v \<Rightarrow> (let (m, old) = hm_insert m k v in write_keys table ks (m, if old = None then new_keys + 1 else new_keys))
      | None \<Rightarrow> write_keys table ks (m, new_keys))"

definition shard_mset :: "(bytes, bytes) hash_map \<Rightarrow> bytes list \<Rightarrow> bytes shard \<Rightarrow> bytes shard" where
  "shard_mset table keys sh =
     (let (m, new_keys) = write_keys table keys (shard_data sh, 0); sh = sh\<lparr>shard_data := m\<rparr>
      in if new_keys > 0 then sh\<lparr>key_count := map_option (\<lambda>c. c + of_nat new_keys) (key_count sh)\<rparr> else sh)"

fun write_groups :: "(bytes, bytes) hash_map \<Rightarrow> (nat \<times> bytes list) list \<Rightarrow> bytes index \<Rightarrow> bytes index panics" where
  "write_groups table [] ix = Some ix"
| "write_groups table ((sid, keys) # gs) ix = do {
     sh \<leftarrow> idx ix sid;
     write_groups table gs (ix[sid := shard_mset table keys sh])
   }"

definition p_mset ::
  "zenv \<Rightarrow> (bytes \<Rightarrow> u64) \<Rightarrow> (bytes, bytes) order \<Rightarrow> (nat, bytes list) order \<Rightarrow> (nat \<times> nat) list \<Rightarrow>
     (bytes \<times> zvalue) list \<Rightarrow> unit pop" where
  "p_mset env hash \<sigma> \<tau> ts kvs =
     ebind (elift (lookup_table env kvs [])) (\<lambda>table.
     read_index (\<lambda>g. ebind (elift g) (\<lambda>groups.
       ebind (log_all ts (map (\<lambda>(k, v). (k, Some v)) (hm_iter \<sigma> table))) (\<lambda>_.
       ebind (on_index (\<lambda>ix. map_option (\<lambda>ix. (ix, ())) (write_groups table (hm_iter \<tau> groups) ix))) (\<lambda>_. eok ()))))
       (\<lambda>ix. group_keys_by_shard hash ix (map fst kvs)))"

text \<open>\<open>mget\<close>: the shards in the order of their numbers; the first value that does not decode is the error.\<close>

fun read_items :: "nat \<Rightarrow> zenv \<Rightarrow> bytes shard \<Rightarrow> (nat \<times> bytes) list \<Rightarrow> zvalue option list store_result panics" where
  "read_items stack env sh [] = Some (Inr [])"
| "read_items stack env sh ((i, key) # items) =
     (case shard_get key sh of
        None \<Rightarrow> map_option (map_sum id ((#) None)) (read_items stack env sh items)
      | Some val \<Rightarrow>
          (case from_bytes stack env val of
             None \<Rightarrow> None
           | Some (Inl e) \<Rightarrow> Some (Inl e)
           | Some (Inr v) \<Rightarrow> map_option (map_sum id ((#) (Some v))) (read_items stack env sh items)))"

fun store_results :: "(nat \<times> bytes) list \<Rightarrow> zvalue option list \<Rightarrow> zvalue option list \<Rightarrow> zvalue option list panics" where
  "store_results ((i, key) # items) (r # rs) result = do { result \<leftarrow> upd result i r; store_results items rs result }"
| "store_results _ _ result = Some result"

fun mget_shards ::
  "nat \<Rightarrow> zenv \<Rightarrow> (nat, (nat \<times> bytes) list) hash_map \<Rightarrow> nat list \<Rightarrow> bytes index \<Rightarrow> zvalue option list \<Rightarrow>
     zvalue option list store_result panics" where
  "mget_shards stack env groups [] ix result = Some (Inr result)"
| "mget_shards stack env groups (sid # sids) ix result =
     (case (map_of groups sid, idx ix sid) of
        (Some items, Some sh) \<Rightarrow>
          (case read_items stack env sh items of
             None \<Rightarrow> None
           | Some (Inl e) \<Rightarrow> Some (Inl e)
           | Some (Inr rs) \<Rightarrow>
               Option.bind (store_results items rs result) (mget_shards stack env (fst (hm_remove groups sid)) sids ix))
      | _ \<Rightarrow> None)"

definition p_mget :: "nat \<Rightarrow> zenv \<Rightarrow> (bytes \<Rightarrow> u64) \<Rightarrow> bytes list \<Rightarrow> zvalue option list pop" where
  "p_mget stack env hash keys =
     read_index (\<lambda>r. ebind (elift r) eresult)
       (\<lambda>ix. do {
          groups \<leftarrow> group_by_shard (\<lambda>(i, k). shard_for_key hash (length ix) k) (enumerate 0 keys) [];
          mget_shards stack env groups (sort (map fst groups)) ix (replicate (length keys) None)
        })"

section \<open>Renaming\<close>

text \<open>\<open>with_two_shards_write\<close>: both shards are locked, the lower number first, and the closure gets
  them as \<open>a\<close> and \<open>b\<close>; it is called for two different shards.\<close>

definition with_two_shards_write ::
  "nat \<Rightarrow> nat \<Rightarrow> (bytes shard \<Rightarrow> bytes shard \<Rightarrow> (bytes shard \<times> bytes shard) \<times> 'a) \<Rightarrow> bytes index \<Rightarrow> (bytes index \<times> 'a) panics" where
  "with_two_shards_write a b f ix = do {
     from_sh \<leftarrow> idx ix a;
     to_sh \<leftarrow> idx ix b;
     let ((from_sh, to_sh), x) = f from_sh to_sh;
     Some (ix[a := from_sh, b := to_sh], x)
   }"

definition rename_same :: "bytes \<Rightarrow> bytes \<Rightarrow> bytes shard \<Rightarrow> bytes shard \<times> bytes option" where
  "rename_same from to sh =
     (case hm_remove (shard_data sh) from of
        (m, None) \<Rightarrow> (sh\<lparr>shard_data := m\<rparr>, None)
      | (m, Some val) \<Rightarrow>
          (let to_was_new = (map_of m to = None);
               sh = decrement_key_count (sh\<lparr>shard_data := fst (hm_insert m to val)\<rparr>)
           in (if to_was_new then increment_key_count sh else sh, Some val)))"

definition rename_across :: "bytes \<Rightarrow> bytes \<Rightarrow> bytes shard \<Rightarrow> bytes shard \<Rightarrow> (bytes shard \<times> bytes shard) \<times> bytes option" where
  "rename_across from to from_sh to_sh =
     (case hm_remove (shard_data from_sh) from of
        (m, None) \<Rightarrow> ((from_sh, to_sh), None)
      | (m, Some val) \<Rightarrow>
          (let to_was_new = (map_of (shard_data to_sh) to = None);
               to_sh = to_sh\<lparr>shard_data := fst (hm_insert (shard_data to_sh) to val)\<rparr>
           in ((decrement_key_count (from_sh\<lparr>shard_data := m\<rparr>),
                if to_was_new then increment_key_count to_sh else to_sh), Some val)))"

definition p_rename :: "(bytes \<Rightarrow> u64) \<Rightarrow> nat \<times> nat \<Rightarrow> nat \<times> nat \<Rightarrow> bytes \<Rightarrow> bytes \<Rightarrow> unit pop" where
  "p_rename hash t t' from to =
     ebind (on_index (\<lambda>ix. do {
         a \<leftarrow> shard_for_key hash (length ix) from;
         b \<leftarrow> shard_for_key hash (length ix) to;
         if a = b then with_shard hash ix from (rename_same from to)
         else with_two_shards_write a b (rename_across from to) ix
       })) (\<lambda>value.
     case value of
       None \<Rightarrow> eerr KeyNotFound
     | Some val \<Rightarrow> ebind (log_entry t (from, None)) (\<lambda>_. log_entry t' (to, Some val)))"

text \<open>The three outcomes of a conditional rename: no source, a target already there, or the value moved.\<close>

datatype nx_outcome = NxNoKey | NxExists | NxMoved bytes

definition renamenx_same :: "bytes \<Rightarrow> bytes \<Rightarrow> bytes shard \<Rightarrow> bytes shard \<times> nx_outcome" where
  "renamenx_same from to sh =
     (if map_of (shard_data sh) from = None then (sh, NxNoKey)
      else if map_of (shard_data sh) to \<noteq> None then (sh, NxExists)
      else case hm_remove (shard_data sh) from of
             (m, Some val) \<Rightarrow> (sh\<lparr>shard_data := fst (hm_insert m to val)\<rparr>, NxMoved val)
           | (m, None) \<Rightarrow> (sh\<lparr>shard_data := m\<rparr>, NxExists))"

definition renamenx_across :: "bytes \<Rightarrow> bytes \<Rightarrow> bytes shard \<Rightarrow> bytes shard \<Rightarrow> (bytes shard \<times> bytes shard) \<times> nx_outcome" where
  "renamenx_across from to from_sh to_sh =
     (if map_of (shard_data from_sh) from = None then ((from_sh, to_sh), NxNoKey)
      else if map_of (shard_data to_sh) to \<noteq> None then ((from_sh, to_sh), NxExists)
      else case rename_across from to from_sh to_sh of
             (shs, Some val) \<Rightarrow> (shs, NxMoved val)
           | (shs, None) \<Rightarrow> (shs, NxNoKey))"

text \<open>The value that is logged is read back from the index, where it has just been written.\<close>

definition p_renamenx :: "(bytes \<Rightarrow> u64) \<Rightarrow> nat \<times> nat \<Rightarrow> nat \<times> nat \<Rightarrow> bytes \<Rightarrow> bytes \<Rightarrow> bool pop" where
  "p_renamenx hash t t' from to =
     ebind (on_index (\<lambda>ix. do {
         a \<leftarrow> shard_for_key hash (length ix) from;
         b \<leftarrow> shard_for_key hash (length ix) to;
         if a = b then with_shard hash ix from (renamenx_same from to)
         else with_two_shards_write a b (renamenx_across from to) ix
       })) (\<lambda>outcome.
     case outcome of
       NxNoKey \<Rightarrow> eerr KeyNotFound
     | NxExists \<Rightarrow> eok False
     | NxMoved _ \<Rightarrow>
         ebind (log_entry t (from, None)) (\<lambda>_.
         read_index (\<lambda>r. ebind (elift r) (\<lambda>raw. ebind (elift raw) (\<lambda>val.
           ebind (log_entry t' (to, Some val)) (\<lambda>_. eok True))))
           (\<lambda>ix. index_get hash ix to)))"

section \<open>The whole database\<close>

definition shard_clear :: "'v shard \<Rightarrow> 'v shard" where
  "shard_clear sh = sh\<lparr>shard_data := [], key_count := map_option (\<lambda>c. c - of_nat (length (shard_data sh))) (key_count sh)\<rparr>"

definition p_flushdb :: "unit pop" where
  "p_flushdb = on_index (\<lambda>ix. Some (map shard_clear ix, ()))"

definition p_dbsize :: "nat pop" where
  "p_dbsize = read_index (\<lambda>n. eok n) (\<lambda>ix. unat (global_total_keys ix))"

text \<open>\<open>RecoveryManager::new\<close> leaves the compaction manager unset and nothing in \<open>new\<close> sets it, so
  \<open>create_snapshot\<close> always takes its error branch.\<close>

definition p_create_snapshot :: "unit pop" where
  "p_create_snapshot = eerr (InvalidOperation ''Compaction manager not initialized'')"

definition p_save :: "unit pop" where
  "p_save w = (if p_enable_snapshots (snd w) then p_create_snapshot w else eok () w)"

section \<open>Sets\<close>

text \<open>The value of a key as the set commands read it: none, a set, or the error.\<close>

definition read_set :: "nat \<Rightarrow> zenv \<Rightarrow> (bytes \<Rightarrow> u64) \<Rightarrow> string \<Rightarrow> bytes \<Rightarrow> bytes hash_set option pop" where
  "read_set stack env hash msg key =
     read_index (\<lambda>r. ebind (elift r) (\<lambda>raw.
       case raw of
         None \<Rightarrow> eok None
       | Some b \<Rightarrow> ebind (elift (from_bytes stack env b)) (\<lambda>r. ebind (eresult r) (\<lambda>v.
           case v of Set s \<Rightarrow> eok (Some s) | _ \<Rightarrow> eerr (WrongType msg)))))
       (\<lambda>ix. index_get hash ix key)"

text \<open>Writing the bytes of a set under its key, in the shard and then in the log.\<close>

definition write_set :: "zenv \<Rightarrow> (bytes \<Rightarrow> u64) \<Rightarrow> nat \<times> nat \<Rightarrow> bytes \<Rightarrow> bytes hash_set \<Rightarrow> unit pop" where
  "write_set env hash t key s =
     ebind (elift (to_bytes env (Set s))) (\<lambda>b.
     ebind (on_index (\<lambda>ix. index_insert hash ix key b)) (\<lambda>_. log_entry t (key, Some b)))"

definition delete_set :: "(bytes \<Rightarrow> u64) \<Rightarrow> nat \<times> nat \<Rightarrow> bytes \<Rightarrow> unit pop" where
  "delete_set hash t key =
     ebind (on_index (\<lambda>ix. index_remove hash ix key)) (\<lambda>_. log_entry t (key, None))"

definition p_sadd :: "nat \<Rightarrow> zenv \<Rightarrow> (bytes \<Rightarrow> u64) \<Rightarrow> nat \<times> nat \<Rightarrow> bytes \<Rightarrow> bytes list \<Rightarrow> nat pop" where
  "p_sadd stack env hash t key members =
     ebind (read_set stack env hash ''SADD: key is not a set'' key) (\<lambda>so.
     let (s, added) = add_members members (case so of Some s \<Rightarrow> s | None \<Rightarrow> [], 0) in
     ebind (write_set env hash t key s) (\<lambda>_. eok added))"

definition p_smembers :: "nat \<Rightarrow> zenv \<Rightarrow> (bytes \<Rightarrow> u64) \<Rightarrow> bytes \<Rightarrow> bytes list pop" where
  "p_smembers stack env hash key =
     ebind (read_set stack env hash ''SMEMBERS: key is not a set'' key) (\<lambda>so.
     eok (case so of Some s \<Rightarrow> set_members (set_order env) s | None \<Rightarrow> []))"

definition p_scard :: "nat \<Rightarrow> zenv \<Rightarrow> (bytes \<Rightarrow> u64) \<Rightarrow> bytes \<Rightarrow> nat pop" where
  "p_scard stack env hash key =
     ebind (read_set stack env hash ''SCARD: key is not a set'' key) (\<lambda>so.
     eok (case so of Some s \<Rightarrow> length s | None \<Rightarrow> 0))"

definition p_sismember :: "nat \<Rightarrow> zenv \<Rightarrow> (bytes \<Rightarrow> u64) \<Rightarrow> bytes \<Rightarrow> bytes \<Rightarrow> bool pop" where
  "p_sismember stack env hash key member =
     ebind (read_set stack env hash ''SISMEMBER: key is not a set'' key) (\<lambda>so.
     eok (case so of Some s \<Rightarrow> map_of s member \<noteq> None | None \<Rightarrow> False))"

definition p_srem :: "nat \<Rightarrow> zenv \<Rightarrow> (bytes \<Rightarrow> u64) \<Rightarrow> nat \<times> nat \<Rightarrow> bytes \<Rightarrow> bytes list \<Rightarrow> nat pop" where
  "p_srem stack env hash t key members =
     ebind (read_set stack env hash ''SREM: key is not a set'' key) (\<lambda>so.
     case so of
       None \<Rightarrow> eok 0
     | Some s \<Rightarrow>
         (let (s, removed) = remove_members members (s, 0) in
          ebind (if s = [] then delete_set hash t key else write_set env hash t key s) (\<lambda>_. eok removed)))"

definition p_srandmember :: "nat \<Rightarrow> zenv \<Rightarrow> (bytes \<Rightarrow> u64) \<Rightarrow> rng \<Rightarrow> bytes \<Rightarrow> int \<Rightarrow> bytes list pop" where
  "p_srandmember stack env hash r key cnt =
     ebind (read_set stack env hash ''SRANDMEMBER: key is not a set'' key) (\<lambda>so.
     eok (case so of Some s \<Rightarrow> random_members (set_order env) r cnt s | None \<Rightarrow> []))"

definition p_spop :: "nat \<Rightarrow> zenv \<Rightarrow> (bytes \<Rightarrow> u64) \<Rightarrow> rng \<Rightarrow> nat \<times> nat \<Rightarrow> bytes \<Rightarrow> int \<Rightarrow> bytes list pop" where
  "p_spop stack env hash r t key cnt =
     ebind (read_set stack env hash ''SPOP: key is not a set'' key) (\<lambda>so.
     case so of
       None \<Rightarrow> eok []
     | Some s \<Rightarrow>
         (let (s, out) = pop_members (set_order env) r (pop_count cnt) (s, []) in
          ebind (if s = [] then delete_set hash t key else write_set env hash t key s) (\<lambda>_. eok out)))"

end
