(* ===== verification/Persistent_Recovery.thy ===== *)
theory Persistent_Recovery
  imports Persistent Memory
begin

text \<open>
  The contract between the index of the persistent engine and its log: every operation but
  \<open>flushdb\<close> leaves in the log exactly the entries whose replay gives the contents of the index, so
  that opening the store again restores it, under a new hash and another number of shards.
\<close>

section \<open>The map a log describes\<close>

definition log_step :: "aof_entry \<Rightarrow> (bytes \<rightharpoonup> bytes) \<Rightarrow> bytes \<rightharpoonup> bytes" where
  "log_step e m = m(fst e := snd e)"

definition log_map :: "aof_entry list \<Rightarrow> bytes \<rightharpoonup> bytes" where
  "log_map es = fold log_step es Map.empty"

lemma log_map_snoc [simp]: "log_map (es @ [(k, v)]) = (log_map es)(k := v)"
  and log_map_Nil [simp]: "log_map [] = Map.empty"
  by (simp_all add: log_map_def log_step_def)

lemma log_map_append: "log_map (es @ es') = fold log_step es' (log_map es)"
  by (simp add: log_map_def)

lemma fold_log_step_sets: "fold log_step (map (\<lambda>(k, v). (k, Some v)) kvs) m = m ++ map_of (rev kvs)"
  by (induction kvs arbitrary: m) (auto simp: log_step_def map_add_def fun_eq_iff split: option.split)

lemma replay_into_spec:
  assumes "index_inv hash ix"
  shows "\<exists>ix'. fold (apply_entry (replay_into hash)) es (Some ix) = Some ix' \<and> index_inv hash ix' \<and>
    length ix' = length ix \<and> index_abs hash ix' = fold log_step es (index_abs hash ix)"
  using assms
proof (induction es arbitrary: ix)
  case (Cons e es)
  have "\<exists>ix1. apply_entry (replay_into hash) e (Some ix) = Some ix1 \<and> index_inv hash ix1 \<and> length ix1 = length ix \<and>
      index_abs hash ix1 = log_step e (index_abs hash ix)"
  proof (cases e rule: entry_op.cases)
    case (1 k)
    from index_remove_law [OF Cons.prems, of k] show ?thesis
      by (auto simp: 1 apply_entry_def replay_into_def log_step_def)
  next
    case (2 k v)
    from index_insert_law [OF Cons.prems, of k v] show ?thesis
      by (auto simp: 2 apply_entry_def replay_into_def log_step_def)
  qed
  then obtain ix1 where ix1: "apply_entry (replay_into hash) e (Some ix) = Some ix1" "index_inv hash ix1"
    "length ix1 = length ix" "index_abs hash ix1 = log_step e (index_abs hash ix)" by blast
  from Cons.IH [OF ix1(2)] ix1 show ?case by auto
qed simp

section \<open>The invariant\<close>

text \<open>\<open>p_at hash w es m\<close>: the index is sound and holds the map \<open>m\<close>, the log holds the entries \<open>es\<close>.
  Between two operations \<open>m\<close> is the map that \<open>es\<close> describes.\<close>

definition p_at :: "(bytes \<Rightarrow> u64) \<Rightarrow> aof_fs \<times> pstore \<Rightarrow> aof_entry list \<Rightarrow> (bytes \<rightharpoonup> bytes) \<Rightarrow> bool" where
  "p_at hash w es m \<longleftrightarrow> index_inv hash (p_index (snd w)) \<and> index_abs hash (p_index (snd w)) = m \<and>
     aof_holds MAGIC (fst w, p_aof (snd w)) es"

definition p_inv :: "(bytes \<Rightarrow> u64) \<Rightarrow> aof_fs \<times> pstore \<Rightarrow> aof_entry list \<Rightarrow> bool" where
  "p_inv hash w es \<longleftrightarrow> p_at hash w es (log_map es)"

lemma log_entry_at:
  assumes "p_at hash w es m"
  shows "\<exists>w'. log_entry t e w = Some (w', Inr ()) \<and> p_at hash w' (es @ [e]) m \<and> p_index (snd w') = p_index (snd w)"
proof -
  obtain w1 where w1: "append_entry t e (fst w, p_aof (snd w)) = (w1, Inr ())" "aof_holds MAGIC w1 (es @ [e])"
    using append_entry_holds [of MAGIC "(fst w, p_aof (snd w))" es t e] assms by (auto simp: p_at_def)
  have "log_entry t e w = Some ((fst w1, (snd w)\<lparr>p_aof := snd w1\<rparr>), Inr ())"
    using w1(1) by (simp add: log_entry_def split_beta Let_def)
  moreover have "p_at hash (fst w1, (snd w)\<lparr>p_aof := snd w1\<rparr>) (es @ [e]) m"
    using assms w1(2) by (simp add: p_at_def)
  ultimately show ?thesis by auto
qed

lemma on_index_at:
  assumes "p_at hash w es m" and "f (p_index (snd w)) = Some (ix, a)"
    and "index_inv hash ix" and "index_abs hash ix = m'"
  shows "\<exists>w'. on_index f w = Some (w', Inr a) \<and> p_at hash w' es m'"
  using assms by (simp add: on_index_def p_at_def)

lemma insert_at:
  assumes "p_at hash w es m"
  shows "\<exists>w'. on_index (\<lambda>ix. index_insert hash ix k v) w = Some (w', Inr (m k)) \<and> p_at hash w' es (m(k \<mapsto> v))"
proof -
  have inv: "index_inv hash (p_index (snd w))" and m: "index_abs hash (p_index (snd w)) = m"
    using assms by (simp_all add: p_at_def)
  obtain ix where ix: "index_insert hash (p_index (snd w)) k v = Some (ix, m k)" "index_inv hash ix"
    "index_abs hash ix = m(k \<mapsto> v)"
    using index_insert_law [OF inv, of k v] m by auto
  show ?thesis using on_index_at [where f = "\<lambda>ix. index_insert hash ix k v", OF assms ix] .
qed

lemma remove_at_index:
  assumes "p_at hash w es m"
  shows "\<exists>w'. on_index (\<lambda>ix. index_remove hash ix k) w = Some (w', Inr (m k \<noteq> None)) \<and> p_at hash w' es (m(k := None))"
proof -
  have inv: "index_inv hash (p_index (snd w))" and m: "index_abs hash (p_index (snd w)) = m"
    using assms by (simp_all add: p_at_def)
  obtain ix where ix: "index_remove hash (p_index (snd w)) k = Some (ix, m k \<noteq> None)" "index_inv hash ix"
    "index_abs hash ix = m(k := None)"
    using index_remove_law [OF inv, of k] m by auto
  show ?thesis using on_index_at [where f = "\<lambda>ix. index_remove hash ix k", OF assms ix] .
qed

lemma get_at: "p_at hash w es m \<Longrightarrow> index_get hash (p_index (snd w)) k = Some (m k)"
  using index_get_law [of hash "p_index (snd w)" k] by (auto simp: p_at_def)

lemmas run_simps = ebind_def [of "log_entry _ _"] ebind_def [of "on_index _"] eok_apply eerr_apply epanic_apply

section \<open>Single keys\<close>

lemma p_set_at:
  assumes "p_at hash w es m" and "to_bytes env v = Some b"
  shows "\<exists>w'. p_set env hash t k v w = Some (w', Inr ()) \<and> p_at hash w' (es @ [(k, Some b)]) (m(k \<mapsto> b))"
proof -
  obtain w1 where w1: "log_entry t (k, Some b) w = Some (w1, Inr ())" "p_at hash w1 (es @ [(k, Some b)]) m"
    using log_entry_at [OF assms(1)] by blast
  obtain w2 where "on_index (\<lambda>ix. index_insert hash ix k b) w1 = Some (w2, Inr (m k))"
    "p_at hash w2 (es @ [(k, Some b)]) (m(k \<mapsto> b))"
    using insert_at [OF w1(2)] by blast
  then show ?thesis using w1(1) assms(2) by (simp add: p_set_def run_simps)
qed

lemma p_get_at:
  assumes "p_at hash w es m"
  shows "p_get stack env hash k w =
    (case m k of
       None \<Rightarrow> Some (w, Inr None)
     | Some b \<Rightarrow> map_option (\<lambda>r. (w, map_sum id Some r)) (from_bytes stack env b))"
  using get_at [OF assms, of k]
  by (cases "m k"; cases "from_bytes stack env (the (m k))"; cases "the (from_bytes stack env (the (m k)))")
    (simp_all add: p_get_def read_index_def eok_apply eerr_apply epanic_apply)

lemma p_del_at:
  assumes "p_at hash w es m"
  shows "\<exists>w'. p_del hash t k w = Some (w', Inr (m k \<noteq> None)) \<and>
    p_at hash w' (es @ (if m k = None then [] else [(k, None)])) (m(k := None))"
proof -
  obtain w1 where w1: "on_index (\<lambda>ix. index_remove hash ix k) w = Some (w1, Inr (m k \<noteq> None))"
    "p_at hash w1 es (m(k := None))"
    using remove_at_index [OF assms] by blast
  obtain w2 where w2: "log_entry t (k, None) w1 = Some (w2, Inr ())" "p_at hash w2 (es @ [(k, None)]) (m(k := None))"
    using log_entry_at [OF w1(2)] by blast
  from w1 w2 show ?thesis by (cases "m k") (simp_all add: p_del_def run_simps)
qed

section \<open>Renaming\<close>

text \<open>On either path a rename is a removal and an insertion; the counters move as these do.\<close>

definition moved :: "(bytes \<Rightarrow> u64) \<Rightarrow> bytes index \<Rightarrow> bytes \<Rightarrow> bytes \<Rightarrow> bytes \<Rightarrow> bytes index" where
  "moved hash ix src dst v =
     (let ix = ix[home hash ix src := fst (shard_remove src (ix ! home hash ix src))]
      in ix[home hash ix dst := fst (shard_insert dst v (ix ! home hash ix dst))])"

lemma moved_spec:
  assumes "index_inv hash ix"
  shows "index_inv hash (moved hash ix src dst v)"
    and "index_abs hash (moved hash ix src dst v) = (index_abs hash ix)(src := None, dst \<mapsto> v)"
proof -
  let ?ix = "ix[home hash ix src := fst (shard_remove src (ix ! home hash ix src))]"
  obtain ix1 where ix1: "index_remove hash ix src = Some (ix1, index_abs hash ix src \<noteq> None)" "index_inv hash ix1"
    "index_abs hash ix1 = (index_abs hash ix)(src := None)"
    using index_remove_law [OF assms] by blast
  have e1: "ix1 = ?ix"
    using ix1(1) with_shard_home [OF assms, of "shard_remove src" src] by (auto simp: index_remove_def split_beta prod_eq_iff)
  obtain ix2 where ix2: "index_insert hash ix1 dst v = Some (ix2, index_abs hash ix1 dst)" "index_inv hash ix2"
    "index_abs hash ix2 = (index_abs hash ix1)(dst \<mapsto> v)"
    using index_insert_law [OF ix1(2)] by blast
  have "ix2 = moved hash ix src dst v"
    using ix2(1) with_shard_home [OF ix1(2), of "shard_insert dst v" dst]
    by (auto simp: index_insert_def split_beta prod_eq_iff moved_def Let_def e1)
  then show "index_inv hash (moved hash ix src dst v)"
    and "index_abs hash (moved hash ix src dst v) = (index_abs hash ix)(src := None, dst \<mapsto> v)"
    using ix2 ix1 by simp_all
qed

lemma hm_remove_absent: "map_of m k = None \<Longrightarrow> hm_remove m k = (m, None)"
  by (auto simp: hm_remove_def filter_id_conv map_of_eq_None_iff image_iff)

lemma rename_same_eq:
  "rename_same src dst sh =
     (case map_of (shard_data sh) src of
        None \<Rightarrow> (sh, None)
      | Some v \<Rightarrow> (fst (shard_insert dst v (fst (shard_remove src sh))), Some v))"
proof (cases "map_of (shard_data sh) src")
  case (Some v)
  obtain m' old where i: "hm_insert (fst (hm_remove (shard_data sh) src)) dst v = (m', old)"
    by (cases "hm_insert (fst (hm_remove (shard_data sh) src)) dst v")
  then show ?thesis using Some hm_insert_map [OF i]
    by (simp add: rename_same_def shard_insert_def shard_remove_def increment_key_count_def decrement_key_count_def
        hm_remove_def Let_def)
qed (simp add: rename_same_def hm_remove_absent)

lemma rename_across_eq:
  "rename_across src dst a b =
     (case map_of (shard_data a) src of
        None \<Rightarrow> ((a, b), None)
      | Some v \<Rightarrow> ((fst (shard_remove src a), fst (shard_insert dst v b)), Some v))"
proof (cases "map_of (shard_data a) src")
  case (Some v)
  obtain m' old where i: "hm_insert (shard_data b) dst v = (m', old)" by (cases "hm_insert (shard_data b) dst v")
  then show ?thesis using Some hm_insert_map [OF i]
    by (simp add: rename_across_def shard_insert_def shard_remove_def increment_key_count_def decrement_key_count_def
        hm_remove_def Let_def)
qed (simp add: rename_across_def hm_remove_absent)

lemma renamenx_same_eq:
  "renamenx_same src dst sh =
     (case map_of (shard_data sh) src of
        None \<Rightarrow> (sh, NxNoKey)
      | Some v \<Rightarrow>
          if map_of (shard_data sh) dst \<noteq> None then (sh, NxExists)
          else (fst (shard_insert dst v (fst (shard_remove src sh))), NxMoved v))"
proof (cases "map_of (shard_data sh) src")
  case (Some v)
  obtain m' old where i: "hm_insert (fst (hm_remove (shard_data sh) src)) dst v = (m', old)"
    by (cases "hm_insert (fst (hm_remove (shard_data sh) src)) dst v")
  have "map_of (filter (\<lambda>e. fst e \<noteq> src) (shard_data sh)) dst = None" if "map_of (shard_data sh) dst = None"
    using that by (auto simp: map_of_eq_None_iff)
  then show ?thesis using Some hm_insert_map [OF i] i
    by (simp add: renamenx_same_def shard_insert_def shard_remove_def increment_key_count_def decrement_key_count_def
        hm_remove_def Let_def option.map_comp o_def option.map_ident)
qed (simp add: renamenx_same_def)

lemma rename_index:
  assumes "index_inv hash ix"
  shows "\<exists>ix'. (do {
       a \<leftarrow> shard_for_key hash (length ix) src;
       b \<leftarrow> shard_for_key hash (length ix) dst;
       if a = b then with_shard hash ix src (rename_same src dst)
       else with_two_shards_write a b (rename_across src dst) ix
     }) = Some (ix', index_abs hash ix src) \<and> index_inv hash ix' \<and>
     index_abs hash ix' =
       (case index_abs hash ix src of None \<Rightarrow> index_abs hash ix | Some v \<Rightarrow> (index_abs hash ix)(src := None, dst \<mapsto> v))"
proof -
  note hs = home_facts [OF assms, of src] and hd = home_facts [OF assms, of dst]
  show ?thesis
  proof (cases "index_abs hash ix src")
    case None
    then show ?thesis using assms hs hd
      by (cases "home hash ix src = home hash ix dst") 
        (simp_all add: with_shard_def with_two_shards_write_def rename_same_eq rename_across_eq idx_def)
  next
    case (Some v)
    let ?ix = "moved hash ix src dst v"
    have "(if home hash ix src = home hash ix dst then with_shard hash ix src (rename_same src dst)
       else with_two_shards_write (home hash ix src) (home hash ix dst) (rename_across src dst) ix) = Some (?ix, Some v)"
      using Some hs hd by (cases "home hash ix src = home hash ix dst") 
        (simp_all add: with_shard_def with_two_shards_write_def rename_same_eq rename_across_eq idx_def moved_def Let_def)
    then show ?thesis using moved_spec [OF assms, of src dst v] hs(1) hd(1) Some by simp
  qed
qed

lemma renamenx_index:
  assumes "index_inv hash ix"
  shows "\<exists>ix'. (do {
       a \<leftarrow> shard_for_key hash (length ix) src;
       b \<leftarrow> shard_for_key hash (length ix) dst;
       if a = b then with_shard hash ix src (renamenx_same src dst)
       else with_two_shards_write a b (renamenx_across src dst) ix
     }) = Some (ix', case index_abs hash ix src of None \<Rightarrow> NxNoKey
                     | Some v \<Rightarrow> if index_abs hash ix dst \<noteq> None then NxExists else NxMoved v) \<and> index_inv hash ix' \<and>
     index_abs hash ix' =
       (case index_abs hash ix src of None \<Rightarrow> index_abs hash ix
        | Some v \<Rightarrow> if index_abs hash ix dst \<noteq> None then index_abs hash ix else (index_abs hash ix)(src := None, dst \<mapsto> v))"
proof -
  note hs = home_facts [OF assms, of src] and hd = home_facts [OF assms, of dst]
  show ?thesis
  proof (cases "index_abs hash ix src = None \<or> index_abs hash ix dst \<noteq> None")
    case True
    then show ?thesis using assms hs hd
      by (cases "home hash ix src = home hash ix dst"; cases "index_abs hash ix src")
        (auto simp: with_shard_def with_two_shards_write_def renamenx_same_eq renamenx_across_def idx_def
          split: option.splits)
  next
    case False
    then obtain v where Some: "index_abs hash ix src = Some v" "index_abs hash ix dst = None" by auto
    let ?ix = "moved hash ix src dst v"
    have "(if home hash ix src = home hash ix dst then with_shard hash ix src (renamenx_same src dst)
       else with_two_shards_write (home hash ix src) (home hash ix dst) (renamenx_across src dst) ix) = Some (?ix, NxMoved v)"
      using Some hs hd
      by (cases "home hash ix src = home hash ix dst") 
        (simp_all add: with_shard_def with_two_shards_write_def renamenx_same_eq renamenx_across_def rename_across_eq
          idx_def moved_def Let_def)
    then show ?thesis using moved_spec [OF assms, of src dst v] hs(1) hd(1) Some by simp
  qed
qed

lemma p_rename_at:
  assumes "p_at hash w es m"
  shows "case m src of
      None \<Rightarrow> \<exists>w'. p_rename hash t t' src dst w = Some (w', Inl KeyNotFound) \<and> p_at hash w' es m
    | Some v \<Rightarrow> \<exists>w'. p_rename hash t t' src dst w = Some (w', Inr ()) \<and>
        p_at hash w' (es @ [(src, None), (dst, Some v)]) (m(src := None, dst \<mapsto> v))"
proof -
  have m: "index_inv hash (p_index (snd w))" "index_abs hash (p_index (snd w)) = m" using assms by (simp_all add: p_at_def)
  let ?f = "\<lambda>ix. do {
       a \<leftarrow> shard_for_key hash (length ix) src;
       b \<leftarrow> shard_for_key hash (length ix) dst;
       if a = b then with_shard hash ix src (rename_same src dst)
       else with_two_shards_write a b (rename_across src dst) ix
     }"
  obtain ix where "?f (p_index (snd w)) = Some (ix, m src)" "index_inv hash ix"
    "index_abs hash ix = (case m src of None \<Rightarrow> m | Some v \<Rightarrow> m(src := None, dst \<mapsto> v))"
    using rename_index [OF m(1), of src dst] m(2) by auto
  from on_index_at [where f = ?f, OF assms this] obtain w1 where w1: "on_index ?f w = Some (w1, Inr (m src))"
    "p_at hash w1 es (case m src of None \<Rightarrow> m | Some v \<Rightarrow> m(src := None, dst \<mapsto> v))" by blast
  show ?thesis
  proof (cases "m src")
    case None
    then show ?thesis using w1 by (simp add: p_rename_def run_simps)
  next
    case (Some v)
    obtain w2 where w2: "log_entry t (src, None) w1 = Some (w2, Inr ())"
      "p_at hash w2 (es @ [(src, None)]) (m(src := None, dst \<mapsto> v))"
      using log_entry_at [OF w1(2), of t "(src, None)"] Some by auto
    from log_entry_at [OF this(2), of t' "(dst, Some v)"] w1(1) w2 Some
    show ?thesis by (auto simp: p_rename_def run_simps)
  qed
qed

lemma p_renamenx_at:
  assumes "p_at hash w es m"
  shows "case m src of
      None \<Rightarrow> \<exists>w'. p_renamenx hash t t' src dst w = Some (w', Inl KeyNotFound) \<and> p_at hash w' es m
    | Some v \<Rightarrow>
        if m dst \<noteq> None then \<exists>w'. p_renamenx hash t t' src dst w = Some (w', Inr False) \<and> p_at hash w' es m
        else \<exists>w'. p_renamenx hash t t' src dst w = Some (w', Inr True) \<and>
          p_at hash w' (es @ [(src, None), (dst, Some v)]) (m(src := None, dst \<mapsto> v))"
proof -
  have m: "index_inv hash (p_index (snd w))" "index_abs hash (p_index (snd w)) = m" using assms by (simp_all add: p_at_def)
  let ?f = "\<lambda>ix. do {
       a \<leftarrow> shard_for_key hash (length ix) src;
       b \<leftarrow> shard_for_key hash (length ix) dst;
       if a = b then with_shard hash ix src (renamenx_same src dst)
       else with_two_shards_write a b (renamenx_across src dst) ix
     }"
  let ?r = "case m src of None \<Rightarrow> NxNoKey | Some v \<Rightarrow> if m dst \<noteq> None then NxExists else NxMoved v"
  let ?m = "case m src of None \<Rightarrow> m | Some v \<Rightarrow> if m dst \<noteq> None then m else m(src := None, dst \<mapsto> v)"
  obtain ix where "?f (p_index (snd w)) = Some (ix, ?r)" "index_inv hash ix" "index_abs hash ix = ?m"
    using renamenx_index [OF m(1), of src dst] m(2) by auto
  from on_index_at [where f = ?f, OF assms this] obtain w1 where w1: "on_index ?f w = Some (w1, Inr ?r)"
    "p_at hash w1 es ?m" by blast
  show ?thesis
  proof (cases "m src = None \<or> m dst \<noteq> None")
    case True
    then show ?thesis using w1 by (auto simp: p_renamenx_def run_simps split: option.splits)
  next
    case False
    then obtain v where Some: "m src = Some v" "m dst = None" by auto
    obtain w2 where w2: "log_entry t (src, None) w1 = Some (w2, Inr ())"
      "p_at hash w2 (es @ [(src, None)]) (m(src := None, dst \<mapsto> v))"
      using log_entry_at [OF w1(2), of t "(src, None)"] Some by auto
    from log_entry_at [OF this(2), of t' "(dst, Some v)"] w1(1) w2(1) Some get_at [OF w2(2), of dst]
    show ?thesis by (auto simp: p_renamenx_def run_simps read_index_def)
  qed
qed

section \<open>Many keys\<close>

definition table_pairs :: "(bytes, bytes) hash_map \<Rightarrow> bytes list \<Rightarrow> (bytes \<times> bytes) list" where
  "table_pairs table keys = List.map_filter (\<lambda>k. map_option (Pair k) (map_of table k)) keys"

lemma table_pairs_simps [simp]:
  "table_pairs table [] = []"
  "table_pairs table (k # keys) = (case map_of table k of None \<Rightarrow> [] | Some v \<Rightarrow> [(k, v)]) @ table_pairs table keys"
  by (simp_all add: table_pairs_def List.map_filter_simps split: option.split)

lemma map_of_table_pairs: "map_of (rev (table_pairs table keys)) k = (if k \<in> set keys then map_of table k else None)"
  by (induction keys) (auto simp: map_add_def split: option.split)

text \<open>Counting the new keys and adding once is inserting them one by one.\<close>

lemma write_keys_inserts:
  assumes "write_keys table keys (m, n) = (m', n')"
  shows "shard_insert_all (table_pairs table keys) (sh\<lparr>shard_data := m, key_count := map_option (\<lambda>c. c + of_nat n) kc\<rparr>) =
    sh\<lparr>shard_data := m', key_count := map_option (\<lambda>c. c + of_nat n') kc\<rparr>"
  using assms
proof (induction table keys "(m, n)" arbitrary: m n rule: write_keys.induct)
  case (2 table k ks m n)
  show ?case
  proof (cases "map_of table k")
    case None
    then show ?thesis using 2 by simp
  next
    case (Some v)
    obtain m1 old where i: "hm_insert m k v = (m1, old)" by (cases "hm_insert m k v")
    from 2(3) Some i have "write_keys table ks (m1, if old = None then n + 1 else n) = (m', n')" by simp
    from 2(2) [OF Some i [symmetric] refl this] i Some show ?thesis
      by (cases sh; cases old) (simp_all add: shard_insert_def increment_key_count_def Let_def option.map_comp o_def ac_simps)
  qed
qed simp

lemma shard_mset_inserts: "shard_mset table keys sh = shard_insert_all (table_pairs table keys) sh"
proof -
  obtain m n where w: "write_keys table keys (shard_data sh, 0) = (m, n)" by (cases "write_keys table keys (shard_data sh, 0)")
  from write_keys_inserts [OF w, where sh = sh and kc = "key_count sh"] show ?thesis
    by (simp add: shard_mset_def w Let_def option.map_ident)
qed

lemma write_groups_spec:
  assumes "distinct (map fst gs)" and "\<forall>i \<in> fst ` set gs. i < length ix"
  shows "\<exists>ix'. write_groups table gs ix = Some ix' \<and> length ix' = length ix \<and>
    (\<forall>j < length ix. ix' ! j = shard_insert_all (table_pairs table (group_of gs j)) (ix ! j))"
  using assms
proof (induction gs arbitrary: ix)
  case (Cons g gs)
  obtain sid keys where g: "g = (sid, keys)" by (cases g)
  let ?ix = "ix[sid := shard_mset table keys (ix ! sid)]"
  have sid: "sid < length ix" "sid \<notin> fst ` set gs" using Cons.prems g by auto
  have none: "group_of gs sid = []" using sid(2) by (simp add: group_of_def map_of_eq_None_iff [THEN iffD2])
  obtain ix' where ix': "write_groups table gs ?ix = Some ix'" "length ix' = length ix"
    "\<And>j. j < length ix \<Longrightarrow> ix' ! j = shard_insert_all (table_pairs table (group_of gs j)) (?ix ! j)"
    using Cons.IH [of ?ix] Cons.prems by auto
  have "ix' ! j = shard_insert_all (table_pairs table (group_of (g # gs) j)) (ix ! j)" if "j < length ix" for j
    using ix'(3) [OF that] sid none that by (cases "j = sid") (simp_all add: g group_of_def shard_mset_inserts)
  then show ?case using ix'(1,2) sid(1) by (simp add: g idx_def)
qed (simp add: group_of_def)

lemma write_groups_law:
  assumes "index_inv hash ix" and "group_keys_by_shard hash ix keys = Some groups" and "fst ` set table \<subseteq> set keys"
  shows "\<exists>ix'. write_groups table (hm_iter \<tau> groups) ix = Some ix' \<and> index_inv hash ix' \<and>
    index_abs hash ix' = index_abs hash ix ++ map_of table"
proof -
  let ?sid = "shard_for_key hash (length ix)" and ?gs = "hm_iter \<tau> groups"
  have g: "distinct (map fst groups)" "fst ` set groups = {i. \<exists>k \<in> set keys. ?sid k = Some i}"
    "\<And>i. group_of groups i = filter (\<lambda>k. ?sid k = Some i) keys"
    using group_by_shard_spec [of keys ?sid "[]"] assms(2)
    by (simp_all add: group_keys_by_shard_def group_of_def [of "[]"] home_facts(1) [OF assms(1)])
  have gs: "group_of ?gs i = filter (\<lambda>k. ?sid k = Some i) keys" for i
    using g(3) [of i] hm_iter_map_of [OF g(1), of \<tau>] by (simp add: group_of_def)
  have "\<forall>i \<in> fst ` set ?gs. i < length ix" using g(2) by (auto simp: hm_iter_facts dest: shard_for_key_less)
  then obtain ix' where ix': "write_groups table ?gs ix = Some ix'" "length ix' = length ix"
    "\<And>j. j < length ix \<Longrightarrow> ix' ! j = shard_insert_all (table_pairs table (group_of ?gs j)) (ix ! j)"
    using write_groups_spec [of ?gs ix table] g(1) by (auto simp: hm_iter_facts)
  have home_pairs: "\<forall>(k, v) \<in> set (table_pairs table (filter (\<lambda>k. ?sid k = Some j) keys)). ?sid k = Some j" for j
    by (auto simp: table_pairs_def List.map_filter_def)
  have shard: "shard_ok hash (length ix) j (ix' ! j) \<and>
      map_of (shard_data (ix' ! j)) = map_of (shard_data (ix ! j)) ++ map_of (rev (table_pairs table (filter (\<lambda>k. ?sid k = Some j) keys)))"
    if "j < length ix" for j
    using ix'(3) [OF that] gs [of j] shard_insert_all_spec [OF index_invD(2) [OF assms(1) that] home_pairs] by simp
  have inv: "index_inv hash ix'" using assms(1) shard ix'(2) by (auto simp: index_inv_def)
  have "index_abs hash ix' k = (index_abs hash ix ++ map_of table) k" for k
  proof -
    let ?j = "home hash ix k"
    have "map_of table k = None" if "k \<notin> set keys" using assms(3) that by (auto simp: map_of_eq_None_iff)
    then have "map_of (rev (table_pairs table (filter (\<lambda>k. ?sid k = Some ?j) keys))) k = map_of table k"
      using home_facts(1) [OF assms(1), of k] by (simp add: map_of_table_pairs)
    moreover have "home hash ix' k = ?j" using ix'(2) by (simp add: home_def)
    ultimately show ?thesis
      using shard [OF home_facts(2) [OF assms(1), of k]] home_facts(3) [OF assms(1), of k] home_facts(3) [OF inv, of k]
      by (simp add: map_add_def split: option.split)
  qed
  then show ?thesis using ix'(1) inv by (auto simp: fun_eq_iff)
qed

lemma lookup_table_spec:
  assumes "lookup_table env kvs m = Some table" and "distinct (map fst m)"
  shows "distinct (map fst table) \<and> fst ` set table = fst ` set m \<union> fst ` set kvs"
  using assms
proof (induction env kvs m rule: lookup_table.induct)
  case (2 env k v kvs m)
  obtain b where b: "to_bytes env v = Some b" using 2(2) by (auto split: bind_splits)
  obtain m' old where i: "hm_insert m k b = (m', old)" by (cases "hm_insert m k b")
  have "fst ` set m' = insert k (fst ` set m)" using arg_cong [OF hm_insert_keys [OF i], of set] by (auto split: if_splits)
  then show ?case using 2(1) [OF b] 2(2,3) b i hm_insert_distinct [OF i 2(3)] by auto
qed auto

lemma log_all_at:
  assumes "p_at hash w es m"
  shows "\<exists>w'. log_all ts es' w = Some (w', Inr ()) \<and> p_at hash w' (es @ es') m \<and> p_index (snd w') = p_index (snd w)"
  using assms
proof (induction es' arbitrary: ts w es)
  case (Cons e es')
  obtain w1 where w1: "log_entry (case ts of [] \<Rightarrow> (0, 0) | t # _ \<Rightarrow> t) e w = Some (w1, Inr ())" "p_at hash w1 (es @ [e]) m"
    "p_index (snd w1) = p_index (snd w)" using log_entry_at [OF Cons.prems] by blast
  from Cons.IH [OF w1(2), of "tl ts"] w1(1,3) show ?case by (simp add: run_simps)
qed (simp add: eok_apply)

lemma p_mset_at:
  assumes "p_at hash w es m" and "lookup_table env kvs [] = Some table"
  shows "\<exists>w'. p_mset env hash \<sigma> \<tau> ts kvs w = Some (w', Inr ()) \<and>
    p_at hash w' (es @ map (\<lambda>(k, v). (k, Some v)) (hm_iter \<sigma> table)) (m ++ map_of table)"
proof -
  note table = lookup_table_spec [OF assms(2)]
  let ?ix = "p_index (snd w)" and ?es = "es @ map (\<lambda>(k, v). (k, Some v)) (hm_iter \<sigma> table)"
  have inv: "index_inv hash ?ix" using assms(1) by (simp add: p_at_def)
  obtain groups where g: "group_keys_by_shard hash ?ix (map fst kvs) = Some groups"
    using group_by_shard_spec [of "map fst kvs" "shard_for_key hash (length ?ix)" "[]"] home_facts(1) [OF inv]
    by (auto simp: group_keys_by_shard_def)
  obtain w1 where w1: "log_all ts (map (\<lambda>(k, v). (k, Some v)) (hm_iter \<sigma> table)) w = Some (w1, Inr ())" "p_at hash w1 ?es m"
    "p_index (snd w1) = ?ix" using log_all_at [OF assms(1)] by blast
  let ?f = "\<lambda>ix. map_option (\<lambda>ix. (ix, ())) (write_groups table (hm_iter \<tau> groups) ix)"
  obtain ix' where ix': "write_groups table (hm_iter \<tau> groups) ?ix = Some ix'" "index_inv hash ix'"
    "index_abs hash ix' = m ++ map_of table"
    using write_groups_law [OF inv g, of table \<tau>] table assms(1) by (auto simp: p_at_def)
  have f: "?f (p_index (snd w1)) = Some (ix', ())" using ix'(1) w1(3) by simp
  from on_index_at [where f = ?f, OF w1(2) f ix'(2,3)] w1(1) g assms(2) show ?thesis
    by (auto simp: p_mset_def read_index_def ebind_def [of "log_all _ _"] run_simps)
qed

section \<open>Sets\<close>

lemma read_set_at:
  assumes "p_at hash w es m" and "read_set stack env hash msg k w = Some (w', r)"
  shows "w' = w" and "r = Inr (Some s) \<Longrightarrow> m k \<noteq> None"
  using assms(2) get_at [OF assms(1), of k]
  by (auto simp: read_set_def read_index_def ebind_def elift_def eresult_def eok_apply eerr_apply
      split: option.splits sum.splits zvalue.splits)

lemma write_set_at:
  assumes "p_at hash w es m" and "write_set env hash t k s w = Some (w', r)"
  shows "\<exists>b. r = Inr () \<and> p_at hash w' (es @ [(k, Some b)]) (m(k \<mapsto> b))"
proof -
  obtain b where b: "to_bytes env (Set s) = Some b"
    using assms(2) by (cases "to_bytes env (Set s)") (simp_all add: write_set_def epanic_apply)
  obtain w1 where w1: "on_index (\<lambda>ix. index_insert hash ix k b) w = Some (w1, Inr (m k))" "p_at hash w1 es (m(k \<mapsto> b))"
    using insert_at [OF assms(1)] by blast
  from log_entry_at [OF w1(2), of t "(k, Some b)"] w1(1) b assms(2) show ?thesis
    by (auto simp: write_set_def run_simps)
qed

lemma delete_set_at:
  assumes "p_at hash w es m"
  shows "\<exists>w'. delete_set hash t k w = Some (w', Inr ()) \<and> p_at hash w' (es @ [(k, None)]) (m(k := None))"
proof -
  obtain w1 where w1: "on_index (\<lambda>ix. index_remove hash ix k) w = Some (w1, Inr (m k \<noteq> None))" "p_at hash w1 es (m(k := None))"
    using remove_at_index [OF assms] by blast
  from log_entry_at [OF w1(2), of t "(k, None)"] w1(1) show ?thesis by (auto simp: delete_set_def run_simps)
qed

section \<open>Steps\<close>

text \<open>What an operation may log: a deletion of a key that was there, and values that the index now holds.\<close>

definition logged :: "(bytes \<rightharpoonup> bytes) \<Rightarrow> (bytes \<rightharpoonup> bytes) \<Rightarrow> aof_entry list \<Rightarrow> bool" where
  "logged m m' es \<longleftrightarrow> list_all (\<lambda>(k, v). case v of None \<Rightarrow> m k \<noteq> None | Some b \<Rightarrow> m' k = Some b) es"

definition p_advances :: "(bytes \<Rightarrow> u64) \<Rightarrow> aof_entry list \<Rightarrow> (bytes \<rightharpoonup> bytes) \<Rightarrow> aof_fs \<times> pstore \<Rightarrow> bool" where
  "p_advances hash es m w \<longleftrightarrow> (\<exists>es' m'. p_at hash w (es @ es') m' \<and> m' = fold log_step es' m \<and> logged m m' es')"

lemma p_advancesI: "p_at hash w (es @ es') m' \<Longrightarrow> m' = fold log_step es' m \<Longrightarrow> logged m m' es' \<Longrightarrow> p_advances hash es m w"
  unfolding p_advances_def by blast

lemma p_advances_refl: "p_at hash w es m \<Longrightarrow> p_advances hash es m w"
  using p_advancesI [of hash w es "[]" m m] by (simp add: logged_def)

lemma p_advances_put: "p_at hash w (es @ [(k, Some b)]) (m(k \<mapsto> b)) \<Longrightarrow> p_advances hash es m w"
  by (erule p_advancesI) (simp_all add: log_step_def logged_def)

lemma p_advances_del: "p_at hash w (es @ [(k, None)]) (m(k := None)) \<Longrightarrow> m k \<noteq> None \<Longrightarrow> p_advances hash es m w"
  by (erule p_advancesI) (simp_all add: log_step_def logged_def)

lemma p_advances_move:
  "p_at hash w (es @ [(src, None), (dst, Some v)]) (m(src := None, dst \<mapsto> v)) \<Longrightarrow> m src \<noteq> None \<Longrightarrow> p_advances hash es m w"
  by (erule p_advancesI) (simp_all add: log_step_def logged_def)

inductive p_step :: "nat \<Rightarrow> zenv \<Rightarrow> rng \<Rightarrow> (bytes \<Rightarrow> u64) \<Rightarrow> aof_fs \<times> pstore \<Rightarrow> aof_fs \<times> pstore \<Rightarrow> bool"
  for stack env rg hash where
  step_set: "p_set env hash t k v w = Some (w', x) \<Longrightarrow> p_step stack env rg hash w w'"
| step_get: "p_get stack env hash k w = Some (w', y) \<Longrightarrow> p_step stack env rg hash w w'"
| step_del: "p_del hash t k w = Some (w', z) \<Longrightarrow> p_step stack env rg hash w w'"
| step_mset: "p_mset env hash \<sigma> \<tau> ts kvs w = Some (w', x) \<Longrightarrow> p_step stack env rg hash w w'"
| step_rename: "p_rename hash t t' src dst w = Some (w', x) \<Longrightarrow> p_step stack env rg hash w w'"
| step_renamenx: "p_renamenx hash t t' src dst w = Some (w', z) \<Longrightarrow> p_step stack env rg hash w w'"
| step_sadd: "p_sadd stack env hash t k ms w = Some (w', n) \<Longrightarrow> p_step stack env rg hash w w'"
| step_srem: "p_srem stack env hash t k ms w = Some (w', n) \<Longrightarrow> p_step stack env rg hash w w'"
| step_spop: "p_spop stack env hash rg t k cnt w = Some (w', out) \<Longrightarrow> p_step stack env rg hash w w'"

lemma p_mset_advances:
  assumes "p_at hash w es m" and "p_mset env hash \<sigma> \<tau> ts kvs w = Some (w', x)"
  shows "p_advances hash es m w'"
proof -
  obtain table where t: "lookup_table env kvs [] = Some table"
    using assms(2) by (cases "lookup_table env kvs []") (simp_all add: p_mset_def epanic_apply)
  have d: "distinct (map fst (hm_iter \<sigma> table))" "distinct (map fst table)"
    using lookup_table_spec [OF t] by (simp_all add: hm_iter_facts)
  have rev: "map_of (rev (hm_iter \<sigma> table)) = map_of table"
    by (rule map_of_inject_set [THEN iffD2]) (use d in \<open>simp_all add: hm_iter_facts rev_map [symmetric]\<close>)
  show ?thesis
  proof (rule p_advancesI)
    show "p_at hash w' (es @ map (\<lambda>(k, v). (k, Some v)) (hm_iter \<sigma> table)) (m ++ map_of table)"
      using p_mset_at [OF assms(1) t, of \<sigma> \<tau> ts] assms(2) by auto
    show "m ++ map_of table = fold log_step (map (\<lambda>(k, v). (k, Some v)) (hm_iter \<sigma> table)) m"
      by (simp add: fold_log_step_sets rev)
    show "logged m (m ++ map_of table) (map (\<lambda>(k, v). (k, Some v)) (hm_iter \<sigma> table))"
      using d(2) by (auto simp: logged_def list_all_iff hm_iter_facts map_add_Some_iff)
  qed
qed

lemma write_set_advances:
  assumes "p_at hash w es m" and "write_set env hash t k s w = Some (w', r)"
  shows "p_advances hash es m w'"
  using write_set_at [OF assms] by (auto intro: p_advances_put)

lemma put_or_delete_advances:
  assumes "p_at hash w es m" and "m k \<noteq> None"
    and "(if c then delete_set hash t k else write_set env hash t k s) w = Some (w', r)"
  shows "p_advances hash es m w'"
  using assms delete_set_at [OF assms(1), of t k] write_set_advances [OF assms(1), of env t k s w' r]
  by (auto split: if_splits intro: p_advances_del)

lemma ebind_Some:
  "ebind m f s = Some (s', r) \<longleftrightarrow>
   (\<exists>e. m s = Some (s', Inl e) \<and> r = Inl e) \<or> (\<exists>s1 x. m s = Some (s1, Inr x) \<and> f x s1 = Some (s', r))"
  by (auto simp: ebind_def split: option.splits sum.splits)

text \<open>\<open>srem\<close> and \<open>spop\<close> take members out of a set and delete the key with its last member.\<close>

lemma shrink_advances:
  assumes "p_at hash w es m"
    and "ebind (read_set stack env hash msg k) (\<lambda>so.
        case so of
          None \<Rightarrow> eok z
        | Some s \<Rightarrow> ebind (if c s then delete_set hash t k else write_set env hash t k (g s)) (\<lambda>_. eok (h s))) w = Some (w', r)"
  shows "p_advances hash es m w'"
proof -
  obtain w1 r1 where r1: "read_set stack env hash msg k w = Some (w1, r1)"
    using assms(2) by (cases "read_set stack env hash msg k w") (auto simp: ebind_def)
  have w1: "w1 = w" using read_set_at(1) [OF assms(1) r1] .
  show ?thesis
  proof (cases "\<exists>s. r1 = Inr (Some s)")
    case False
    then show ?thesis using assms r1 w1
      by (auto simp: ebind_def eok_apply split: sum.splits option.splits intro: p_advances_refl)
  next
    case True
    then obtain s where s: "r1 = Inr (Some s)" by blast
    then obtain x where "(if c s then delete_set hash t k else write_set env hash t k (g s)) w = Some (w', x)"
      using assms(2) r1 w1 by (auto simp: ebind_Some eok_apply)
    from put_or_delete_advances [OF assms(1) read_set_at(2) [OF assms(1) r1 s] this] show ?thesis .
  qed
qed

lemma p_step_advances:
  assumes "p_step stack env rg hash w w'" and at: "p_at hash w es m"
  shows "p_advances hash es m w'"
  using assms(1)
proof cases
  case (step_set t k v x)
  obtain b where "to_bytes env v = Some b"
    using step_set by (cases "to_bytes env v") (simp_all add: p_set_def epanic_apply)
  from p_set_at [OF at this, of t k] step_set show ?thesis by (auto intro: p_advances_put)
next
  case (step_get k y)
  then show ?thesis using p_get_at [OF at, of stack env k] at by (auto split: option.splits intro: p_advances_refl)
next
  case (step_del t k z)
  then show ?thesis using p_del_at [OF at, of t k] at
    by (auto split: if_splits simp: fun_upd_idem intro: p_advances_refl p_advances_del)
next
  case (step_mset \<sigma> \<tau> ts kvs x)
  then show ?thesis by (rule p_mset_advances [OF at])
next
  case (step_rename t t' src dst x)
  then show ?thesis using p_rename_at [OF at, where src = src and dst = dst and t = t and t' = t']
    by (auto split: option.splits intro: p_advances_refl p_advances_move)
next
  case (step_renamenx t t' src dst z)
  then show ?thesis using p_renamenx_at [OF at, where src = src and dst = dst and t = t and t' = t']
    by (auto split: option.splits if_splits intro: p_advances_refl p_advances_move)
next
  case (step_sadd t k ms n)
  then show ?thesis using at
    by (auto simp: p_sadd_def ebind_Some eok_apply split_beta dest!: read_set_at(1) [OF at]
        intro: p_advances_refl write_set_advances [OF at])
next
  case (step_srem t k ms n)
  then show ?thesis unfolding p_srem_def Let_def split_beta by (rule shrink_advances [OF at])
next
  case (step_spop t k cnt out)
  then show ?thesis unfolding p_spop_def Let_def split_beta by (rule shrink_advances [OF at])
qed

section \<open>Opening\<close>

lemma replay_holds:
  assumes "aof_holds MAGIC (fs, l) es" and "disk (fs, l) = MAGIC @ aof_log_bytes es" and "list_all entry_ok es"
    and "validator l = stats_default" and "replay_skipped l = 0" and "0 < n"
  shows "\<exists>l' ix. aof_replay now (replay_into hash) fs (l, Some (index_new n mt)) = (Inr (), l', Some ix) \<and>
    aof_holds MAGIC (fs, l') es \<and> index_inv hash ix \<and> index_abs hash ix = log_map es"
proof -
  obtain ix where ix: "fold (apply_entry (replay_into hash)) es (Some (index_new n mt)) = Some ix" "index_inv hash ix"
    "index_abs hash ix = log_map es"
    using replay_into_spec [OF index_new_inv(1) [OF assms(6), of hash mt], of es]
    by (auto simp: log_map_def index_new_inv(2) [OF assms(6)])
  let ?l = "l\<lparr>validator := (stats_update Valid ^^ length es) stats_default, replay_skipped := 0, last_integrity_check := now\<rparr>"
  have "aof_replay now (replay_into hash) fs (l, Some (index_new n mt)) = (Inr (), ?l, Some ix)"
    using aof_replay_aof2 [of fs l "aof_log_bytes es" now "replay_into hash"] assms(1,2,4,5) ix(1)
      replay_aof2_entries [OF assms(3), of "corruption l" "replay_into hash" "[]" "[]" stats_default 0]
    by (simp add: aof_holds_def)
  moreover have "aof_holds MAGIC (fs, ?l) es" using assms(1) by (simp add: aof_holds_def)
  ultimately show ?thesis using ix by blast
qed

lemma aof_reopen_holds:
  assumes "aof_holds MAGIC w es"
  shows "\<exists>l. aof_open now pol cpol (aof_drop w) = (aof_drop w, Inr l) \<and> aof_holds MAGIC (aof_drop w, l) es \<and>
    disk (aof_drop w, l) = MAGIC @ aof_log_bytes es \<and> validator l = stats_default \<and> replay_skipped l = 0"
  using aof_drop_holds [OF assms]
  by (simp add: aof_open_def fs_create_def aof_holds_def MAGIC_def INITIAL_BATCH_def)

lemma p_new_reopens:
  assumes "aof_holds MAGIC w es" and "list_all entry_ok es" and "0 < n"
  shows "\<exists>p. p_new hash now n mt pol cpol sn (aof_drop w) = Some (aof_drop w, Inr p) \<and> p_inv hash (aof_drop w, p) es"
proof -
  obtain l where l: "aof_open now pol cpol (aof_drop w) = (aof_drop w, Inr l)" "aof_holds MAGIC (aof_drop w, l) es"
    "disk (aof_drop w, l) = MAGIC @ aof_log_bytes es" "validator l = stats_default" "replay_skipped l = 0"
    using aof_reopen_holds [OF assms(1)] by blast
  from replay_holds [OF l(2,3) assms(2) l(4,5) assms(3), of now hash mt] l(1) show ?thesis
    by (auto simp: p_new_def p_inv_def p_at_def)
qed

lemma p_new_fresh:
  assumes "fs_fresh fs" and "0 < n"
  shows "\<exists>fs' p. p_new hash now n mt pol cpol sn fs = Some (fs', Inr p) \<and> p_inv hash (fs', p) []"
proof -
  obtain fs' l where l: "aof_open now pol cpol fs = (fs', Inr l)" "aof_holds MAGIC (fs', l) []"
    "disk (fs', l) = MAGIC" "validator l = stats_default" "replay_skipped l = 0"
    using assms(1) by (auto simp: fs_fresh_def aof_open_def fs_create_def fs_append_def aof_holds_def
      INITIAL_BATCH_def MAGIC_def split: option.splits)
  from replay_holds [OF l(2) _ _ l(4,5) assms(2), of now hash mt] l(1,3) show ?thesis
    by (auto simp: p_new_def p_inv_def p_at_def)
qed

section \<open>Lives of a store\<close>

text \<open>Keys and values whose lengths the four bytes of a record can hold.\<close>

definition p_fits :: "aof_fs \<times> pstore \<Rightarrow> bool" where
  "p_fits w \<longleftrightarrow> list_all (\<lambda>sh. list_all (\<lambda>(k, v). entry_ok (k, Some v)) (shard_data sh)) (p_index (snd w))"

lemma p_fitsD:
  assumes "p_fits w" and "p_at hash w es m" and "m k = Some v"
  shows "entry_ok (k, Some v)"
proof -
  have inv: "index_inv hash (p_index (snd w))" and m: "index_abs hash (p_index (snd w)) = m" using assms(2) by (simp_all add: p_at_def)
  have "(k, v) \<in> set (shard_data (p_index (snd w) ! home hash (p_index (snd w)) k))"
    using home_facts(3) [OF inv, of k] assms(3) m by (intro map_of_SomeD) simp
  then show ?thesis using assms(1) home_facts(2) [OF inv, of k] by (auto simp: p_fits_def list_all_iff)
qed

lemma log_map_entry: "fold log_step es m k = Some v \<Longrightarrow> m k = Some v \<or> (k, Some v) \<in> set es"
  by (induction es arbitrary: m) (fastforce simp: log_step_def split: if_splits)+

text \<open>A store is opened on a fresh path, runs operations and is closed and opened again, with another
  hash, any number of shards and any policies.\<close>

inductive p_life :: "nat \<Rightarrow> zenv \<Rightarrow> rng \<Rightarrow> (bytes \<Rightarrow> u64) \<Rightarrow> aof_fs \<times> pstore \<Rightarrow> bool"
  for stack env rg where
  life_open: "fs_fresh fs \<Longrightarrow> 0 < n \<Longrightarrow> p_new hash now n mt pol cpol sn fs = Some (fs', Inr p) \<Longrightarrow>
    p_life stack env rg hash (fs', p)"
| life_step: "p_life stack env rg hash w \<Longrightarrow> p_step stack env rg hash w w' \<Longrightarrow> p_fits w' \<Longrightarrow> p_life stack env rg hash w'"
| life_reopen: "p_life stack env rg hash w \<Longrightarrow> 0 < n \<Longrightarrow>
    p_new hash' now n mt pol cpol sn (aof_drop (fst w, p_aof (snd w))) = Some (fs', Inr p) \<Longrightarrow>
    p_life stack env rg hash' (fs', p)"

lemma p_life_inv: "p_life stack env rg hash w \<Longrightarrow> \<exists>es. p_inv hash w es \<and> list_all entry_ok es"
proof (induction rule: p_life.induct)
  case (life_open fs n hash now mt pol cpol sn fs' p)
  then show ?case using p_new_fresh [OF life_open(1,2), of hash now mt pol cpol sn] by (intro exI [of _ "[]"]) auto
next
  case (life_step hash w w')
  then obtain es where es: "p_at hash w es (log_map es)" "list_all entry_ok es" by (auto simp: p_inv_def)
  obtain es' m' where es': "p_at hash w' (es @ es') m'" "m' = fold log_step es' (log_map es)" "logged (log_map es) m' es'"
    using p_step_advances [OF life_step(2) es(1)] by (auto simp: p_advances_def)
  have "entry_ok e" if mem: "e \<in> set es'" for e
  proof (cases e rule: entry_op.cases)
    case (1 k)
    then obtain v where "log_map es k = Some v" using es'(3) mem by (fastforce simp: logged_def list_all_iff)
    then have "(k, Some v) \<in> set es" using log_map_entry [of es Map.empty k v] by (simp add: log_map_def)
    then show ?thesis using es(2) 1 by (auto simp: list_all_iff)
  next
    case (2 k v)
    then have "m' k = Some v" using es'(3) mem by (fastforce simp: logged_def list_all_iff)
    then show ?thesis using p_fitsD [OF life_step(3) es'(1)] 2 by simp
  qed
  then show ?case using es(2) es' by (intro exI [of _ "es @ es'"]) (auto simp: p_inv_def log_map_append list_all_iff)
next
  case (life_reopen hash w n hash' now mt pol cpol sn fs' p)
  then obtain es where es: "p_inv hash w es" "list_all entry_ok es" by blast
  then have "aof_holds MAGIC (fst w, p_aof (snd w)) es" by (simp add: p_inv_def p_at_def)
  from p_new_reopens [OF this es(2) life_reopen(2), of hash' now mt pol cpol sn] life_reopen(3) es(2)
  show ?case by auto
qed

lemma reopen_reads:
  assumes "p_inv hash w es" and "list_all entry_ok es" and "0 < n"
  shows "case p_new hash' now n mt pol cpol sn (aof_drop (fst w, p_aof (snd w))) of
      Some (fs', Inr p) \<Rightarrow>
        (\<forall>key. map_option snd (p_get stack env hash' key (fs', p)) = map_option snd (p_get stack env hash key w))
    | _ \<Rightarrow> False"
proof -
  let ?fs = "aof_drop (fst w, p_aof (snd w))"
  have "aof_holds MAGIC (fst w, p_aof (snd w)) es" using assms(1) by (simp add: p_inv_def p_at_def)
  from p_new_reopens [OF this assms(2,3), of hash' now mt pol cpol sn] obtain p
    where p: "p_new hash' now n mt pol cpol sn ?fs = Some (?fs, Inr p)" "p_inv hash' (?fs, p) es" by blast
  have "map_option snd (p_get stack env hash' key (?fs, p)) = map_option snd (p_get stack env hash key w)" for key
    using p_get_at [OF assms(1) [unfolded p_inv_def], of stack env key] p_get_at [OF p(2) [unfolded p_inv_def], of stack env key]
    by (simp add: option.map_comp o_def split: option.split)
  then show ?thesis by (simp add: p)
qed

lemma p_fitsI:
  assumes "p_at hash w es m" and "\<And>k v. m k = Some v \<Longrightarrow> entry_ok (k, Some v)"
  shows "p_fits w"
  unfolding p_fits_def list_all_length
proof (intro allI impI)
  fix i j
  let ?ix = "p_index (snd w)" and ?e = "shard_data (p_index (snd w) ! i) ! j"
  have inv: "index_inv hash ?ix" using assms(1) by (simp add: p_at_def)
  assume i: "i < length ?ix" and j: "j < length (shard_data (?ix ! i))"
  then have mem: "?e \<in> set (shard_data (?ix ! i))" by simp
  have "home hash ?ix (fst ?e) = i"
    using index_invD(2) [OF inv i] mem home_facts(1) [OF inv, of "fst ?e"] by (force simp: shard_ok_def)
  moreover have "map_of (shard_data (?ix ! i)) (fst ?e) = Some (snd ?e)"
    using index_invD(2) [OF inv i] mem by (intro map_of_is_SomeI) (simp_all add: shard_ok_def)
  ultimately have "index_abs hash ?ix (fst ?e) = Some (snd ?e)" using home_facts(3) [OF inv, of "fst ?e"] by simp
  then have "m (fst ?e) = Some (snd ?e)" using assms(1) by (auto simp: p_at_def)
  then show "case ?e of (k, v) \<Rightarrow> entry_ok (k, Some v)" using assms(2) [of "fst ?e" "snd ?e"] by (simp add: split_beta)
qed

lemma life_set:
  assumes "p_life stack env rg hash w" and "to_bytes env v = Some b" and "entry_ok (k, Some b)"
  shows "\<exists>w'. p_set env hash t k v w = Some (w', Inr ()) \<and> p_life stack env rg hash w'"
proof -
  obtain es where es: "p_at hash w es (log_map es)" "list_all entry_ok es"
    using p_life_inv [OF assms(1)] by (auto simp: p_inv_def)
  obtain w' where w': "p_set env hash t k v w = Some (w', Inr ())" "p_at hash w' (es @ [(k, Some b)]) ((log_map es)(k \<mapsto> b))"
    using p_set_at [OF es(1) assms(2)] by blast
  have "entry_ok (k', Some v')" if "((log_map es)(k \<mapsto> b)) k' = Some v'" for k' v'
    using that assms(3) es(2) log_map_entry [of es Map.empty k' v']
    by (auto simp: log_map_def list_all_iff split: if_splits)
  from life_step [OF assms(1) step_set [OF w'(1)] p_fitsI [OF w'(2) this]] w'(1) show ?thesis by blast
qed

definition empty_fs :: aof_fs where
  "empty_fs = \<lparr>fs_files = \<lambda>_. [], fs_path = None, fs_next = 0, fs_ok = True\<rparr>"

lemma bool_bytes: "to_bytes plain_env (Bool True) = Some [TAG_BOOL, 1]"
  by (simp add: to_bytes_def write_value_def write_value_versioned_def write_value_fun should_compress_def
      appendsD [OF appends_u8] appendsD [OF appends_bytes], simp add: zok_def)

lemma life_example:
  obtains w where "p_life 3 plain_env first_rng (\<lambda>_. 0) w" and "index_abs (\<lambda>_. 0) (p_index (snd w)) [107] = Some [TAG_BOOL, 1]"
proof -
  obtain fs p where o: "p_new (\<lambda>_. 0) 0 4 True Always Log False empty_fs = Some (fs, Inr p)" "p_inv (\<lambda>_. 0) (fs, p) []"
    using p_new_fresh [of empty_fs 4 "\<lambda>_. 0" 0 True Always Log False] by (auto simp: empty_fs_def fs_fresh_def)
  have life: "p_life 3 plain_env first_rng (\<lambda>_. 0) (fs, p)"
    by (rule life_open [OF _ _ o(1)]) (simp_all add: empty_fs_def fs_fresh_def)
  obtain w where w: "p_set plain_env (\<lambda>_. 0) (1, 2) [107] (Bool True) (fs, p) = Some (w, Inr ())" "p_life 3 plain_env first_rng (\<lambda>_. 0) w"
    using life_set [OF life bool_bytes, where k = "[107]" and t = "(1, 2)"] by auto
  moreover have "index_abs (\<lambda>_. 0) (p_index (snd w)) [107] = Some [TAG_BOOL, 1]"
    using p_set_at [OF o(2) [unfolded p_inv_def] bool_bytes, of "(1, 2)" "[107]"] w(1) by (auto simp: p_at_def)
  ultimately show ?thesis using that by blast
qed

text \<open>C13. An orderly restart restores the database. Take a store that was opened on a fresh path and has since been
  through any calls of \<open>set\<close>, \<open>get\<close>, \<open>del\<close>, \<open>mset\<close>, \<open>rename\<close>, \<open>renamenx\<close>, \<open>sadd\<close>, \<open>srem\<close> and \<open>spop\<close> (not
  \<open>flushdb\<close>, which is not logged, and not \<open>geo_add\<close>) and orderly restarts, with keys and encoded values that fit
  the length fields of the log. Opening its log after an orderly drop succeeds, and every key then
  reads as it did before, under any hash and number of shards.\<close>

theorem persistent_recovers:
  assumes "p_life stack env rg hash w" and "0 < n"
  shows "case p_new hash' now n mt pol cpol sn (aof_drop (fst w, p_aof (snd w))) of
      Some (fs', Inr p) \<Rightarrow>
        (\<forall>key. map_option snd (p_get stack env hash' key (fs', p)) = map_option snd (p_get stack env hash key w))
    | _ \<Rightarrow> False"
  using p_life_inv [OF assms(1)] reopen_reads [OF _ _ assms(2)] by blast

lemma persistent_recovers_witness:
  "\<exists>w. p_life 3 plain_env first_rng (\<lambda>_. 0) w \<and> index_abs (\<lambda>_. 0) (p_index (snd w)) [107] = Some [TAG_BOOL, 1] \<and>
    (case p_new (\<lambda>k. of_nat (length k)) 7 3 False EverySec Strict True (aof_drop (fst w, p_aof (snd w))) of
      Some (fs', Inr p) \<Rightarrow>
        (\<forall>key. map_option snd (p_get 3 plain_env (\<lambda>k. of_nat (length k)) key (fs', p)) =
               map_option snd (p_get 3 plain_env (\<lambda>_. 0) key w))
    | _ \<Rightarrow> False)"
proof -
  obtain w where w: "p_life 3 plain_env first_rng (\<lambda>_. 0) w" "index_abs (\<lambda>_. 0) (p_index (snd w)) [107] = Some [TAG_BOOL, 1]"
    using life_example .
  show ?thesis by (intro exI [of _ w] conjI w persistent_recovers [OF w(1)]) simp
qed

text \<open>What is set is what is read: on any store, setting a value succeeds, reading its key gives the
  same value back, and every other key reads as before.\<close>

theorem persistent_set_get:
  assumes "p_life stack env rg hash w" and "storable env stack v" and "zstd_ok env"
  shows "case p_set env hash t key v w of
      Some (w', Inr _) \<Rightarrow>
        (\<exists>v'. p_get stack env hash key w' = Some (w', Inr (Some v')) \<and> same_value env v v') \<and>
        (\<forall>k. k \<noteq> key \<longrightarrow> map_option snd (p_get stack env hash k w') = map_option snd (p_get stack env hash k w))
    | _ \<Rightarrow> False"
proof -
  obtain es where es: "p_at hash w es (log_map es)" using p_life_inv [OF assms(1)] by (auto simp: p_inv_def)
  obtain bs v' where bs: "to_bytes env v = Some bs" "from_bytes stack env bs = Some (Inr v')" "same_value env v v'"
    using bytes_roundtrip [OF assms(2,3)] .
  obtain w' where w': "p_set env hash t key v w = Some (w', Inr ())" "p_at hash w' (es @ [(key, Some bs)]) ((log_map es)(key \<mapsto> bs))"
    using p_set_at [OF es bs(1)] by blast
  have "map_option snd (p_get stack env hash k w') = map_option snd (p_get stack env hash k w)" if "k \<noteq> key" for k
    using p_get_at [OF es, of stack env k] p_get_at [OF w'(2), of stack env k] that
    by (simp add: option.map_comp o_def split: option.split)
  then show ?thesis using w'(1) bs(2,3) p_get_at [OF w'(2), of stack env key] by simp
qed

lemma persistent_set_get_witness:
  "\<exists>w. p_life 3 plain_env first_rng (\<lambda>_. 0) w \<and>
    (case p_set plain_env (\<lambda>_. 0) (3, 4) [108] (Bool False) w of
      Some (w', Inr _) \<Rightarrow>
        (\<exists>v'. p_get 3 plain_env (\<lambda>_. 0) [108] w' = Some (w', Inr (Some v')) \<and> same_value plain_env (Bool False) v') \<and>
        (\<forall>k. k \<noteq> [108] \<longrightarrow> map_option snd (p_get 3 plain_env (\<lambda>_. 0) k w') = map_option snd (p_get 3 plain_env (\<lambda>_. 0) k w))
    | _ \<Rightarrow> False)"
proof -
  obtain w where w: "p_life 3 plain_env first_rng (\<lambda>_. 0) w" using life_example by blast
  show ?thesis
    by (intro exI [of _ w] conjI w persistent_set_get [OF w]) (simp_all add: storable_def plain_env_zstd small_block_def write_value_fun
      appendsD [OF appends_u8])
qed

lemma p_flush_at:
  assumes "p_at hash w es m"
  shows "\<exists>w'. p_flushdb w = Some (w', Inr ()) \<and> p_at hash w' es Map.empty \<and> fst w' = fst w \<and> p_aof (snd w') = p_aof (snd w)"
proof -
  let ?w = "(fst w, (snd w)\<lparr>p_index := map shard_clear (p_index (snd w))\<rparr>)"
  have inv: "index_inv hash (p_index (snd w))" and log: "aof_holds MAGIC (fst w, p_aof (snd w)) es"
    using assms by (simp_all add: p_at_def)
  have clear: "index_inv hash (map shard_clear (p_index (snd w)))"
    using inv by (auto simp: index_inv_def shard_ok_def shard_clear_def split: option.splits)
  have "index_abs hash (map shard_clear (p_index (snd w))) key = None" for key
    using home_facts(2,3) [OF clear, of key] by (simp add: home_def shard_clear_def)
  then have "p_at hash ?w es Map.empty" using clear log by (simp add: p_at_def fun_eq_iff)
  moreover have "p_flushdb w = Some (?w, Inr ())" by (simp add: p_flushdb_def on_index_def)
  ultimately show ?thesis by simp
qed

text \<open>C37. \<open>flushdb\<close> is not logged: it empties the database, and opening the log again brings every key back.\<close>

theorem persistent_flush_resurrects:
  assumes "p_life stack env rg hash w" and "0 < n"
  shows "case p_flushdb w of
      Some (w', Inr _) \<Rightarrow>
        (\<forall>key. p_get stack env hash key w' = Some (w', Inr None)) \<and>
        (case p_new hash' now n mt pol cpol sn (aof_drop (fst w', p_aof (snd w'))) of
           Some (fs', Inr p) \<Rightarrow>
             (\<forall>key. map_option snd (p_get stack env hash' key (fs', p)) = map_option snd (p_get stack env hash key w))
         | _ \<Rightarrow> False)
    | _ \<Rightarrow> False"
proof -
  obtain es where es: "p_inv hash w es" "list_all entry_ok es" using p_life_inv [OF assms(1)] by blast
  obtain w' where w': "p_flushdb w = Some (w', Inr ())" "p_at hash w' es Map.empty" "fst w' = fst w" "p_aof (snd w') = p_aof (snd w)"
    using p_flush_at [OF es(1) [unfolded p_inv_def]] by blast
  show ?thesis
    using p_get_at [OF w'(2), of stack env] reopen_reads [OF es assms(2), where hash' = hash' and stack = stack and env = env]
    by (simp add: w')
qed

lemma persistent_flush_resurrects_witness:
  "\<exists>w. p_life 3 plain_env first_rng (\<lambda>_. 0) w \<and> index_abs (\<lambda>_. 0) (p_index (snd w)) [107] = Some [TAG_BOOL, 1] \<and>
    (case p_flushdb w of
      Some (w', Inr _) \<Rightarrow>
        (\<forall>key. p_get 3 plain_env (\<lambda>_. 0) key w' = Some (w', Inr None)) \<and>
        (case p_new (\<lambda>_. 1) 7 3 False EverySec Strict True (aof_drop (fst w', p_aof (snd w'))) of
           Some (fs', Inr p) \<Rightarrow>
             (\<forall>key. map_option snd (p_get 3 plain_env (\<lambda>_. 1) key (fs', p)) = map_option snd (p_get 3 plain_env (\<lambda>_. 0) key w))
         | _ \<Rightarrow> False)
    | _ \<Rightarrow> False)"
proof -
  obtain w where w: "p_life 3 plain_env first_rng (\<lambda>_. 0) w" "index_abs (\<lambda>_. 0) (p_index (snd w)) [107] = Some [TAG_BOOL, 1]"
    using life_example .
  show ?thesis by (intro exI [of _ w] conjI w persistent_flush_resurrects [OF w(1)]) simp
qed

end
