(* ===== verification/Persistent_Engine.thy ===== *)
theory Persistent_Engine
  imports Persistent_Recovery
begin

text \<open>
  The persistent engine meets the contract \<open>kv_engine\<close> of the commands: its index of bytes stands for
  the contents of the values that the bytes decode to. The values it can keep are those whose bytes
  decode to the same content, which leaves out lists.
\<close>

definition p_storage ::
  "nat \<Rightarrow> zenv \<Rightarrow> (bytes \<Rightarrow> u64) \<Rightarrow> rng \<Rightarrow> (bytes, bytes) order \<Rightarrow> (nat, bytes list) order \<Rightarrow> (nat \<times> nat) list \<Rightarrow>
     (aof_fs \<times> pstore) storage" where
  "p_storage stack env hash rg \<sigma> \<tau> ts =
     (let t = (case ts of [] \<Rightarrow> (0, 0) | t # _ \<Rightarrow> t) in
      \<lparr>st_set = p_set env hash t, st_get = p_get stack env hash, st_del = p_del hash t, st_mset = p_mset env hash \<sigma> \<tau> ts,
       st_mget = p_mget stack env hash, st_rename = p_rename hash t t, st_renamenx = p_renamenx hash t t,
       st_flushdb = p_flushdb, st_dbsize = p_dbsize, st_save = p_save, st_sadd = p_sadd stack env hash t,
       st_smembers = p_smembers stack env hash, st_scard = p_scard stack env hash, st_sismember = p_sismember stack env hash,
       st_srem = p_srem stack env hash t, st_srandmember = p_srandmember stack env hash rg,
       st_spop = p_spop stack env hash rg t\<rparr>)"

section \<open>Reading many keys\<close>

text \<open>Where every value decodes, \<open>mget\<close> is the one of the index with the values decoded.\<close>

definition decodes :: "nat \<Rightarrow> zenv \<Rightarrow> bytes \<Rightarrow> zvalue \<Rightarrow> bool" where
  "decodes stack env b v \<longleftrightarrow> from_bytes stack env b = Some (Inr v) \<and> value_wf v"

definition decoded :: "nat \<Rightarrow> zenv \<Rightarrow> bytes \<Rightarrow> zvalue" where
  "decoded stack env b = (case from_bytes stack env b of Some (Inr v) \<Rightarrow> v | _ \<Rightarrow> Null)"

lemma decodes_decoded: "decodes stack env b v \<Longrightarrow> decoded stack env b = v"
  by (simp add: decodes_def decoded_def)

lemma read_items_decoded:
  assumes "\<And>k b. map_of (shard_data sh) k = Some b \<Longrightarrow> from_bytes stack env b = Some (Inr (f b))"
  shows "read_items stack env sh items = Some (Inr (map (\<lambda>(i, k). map_option f (shard_get k sh)) items))"
  using assms by (induction items) (auto simp: shard_get_def split: option.split)

lemma store_results_fill:
  "store_results items (map (\<lambda>(i, k). map_option f (shard_get k sh)) items) (map (map_option f) rs) =
   map_option (map (map_option f)) (fill_results sh items rs)"
  by (induction items arbitrary: rs) (auto simp: upd_def simp flip: map_update)

lemma map_of_hm_remove: "k \<noteq> i \<Longrightarrow> map_of (fst (hm_remove m i)) k = map_of m k"
  unfolding hm_remove_def by (induction m) auto

lemma index_mget_loop_cong:
  "(\<And>i. i \<in> set sids \<Longrightarrow> map_of g i = map_of g' i) \<Longrightarrow> index_mget_loop g sids ix rs = index_mget_loop g' sids ix rs"
  by (induction sids arbitrary: rs) (auto intro!: Option.bind_cong)

lemma mget_shards_decoded:
  assumes "\<And>i k b. i < length ix \<Longrightarrow> map_of (shard_data (ix ! i)) k = Some b \<Longrightarrow> from_bytes stack env b = Some (Inr (f b))"
    and "distinct sids"
  shows "mget_shards stack env groups sids ix (map (map_option f) rs) =
    map_option (\<lambda>rs. Inr (map (map_option f) rs)) (index_mget_loop groups sids ix rs)"
  using assms(2)
proof (induction sids arbitrary: groups rs)
  case (Cons sid sids)
  show ?case
  proof (cases "idx ix sid = None \<or> map_of groups sid = None")
    case True
    then show ?thesis by (auto split: option.split)
  next
    case False
    then obtain sh items where sh: "idx ix sid = Some sh" and items: "map_of groups sid = Some items" by auto
    have i: "sid < length ix" "sh = ix ! sid" using sh by (auto simp: idx_def split: if_splits)
    have rest: "index_mget_loop (fst (hm_remove groups sid)) sids ix r = index_mget_loop groups sids ix r" for r
      using Cons.prems by (intro index_mget_loop_cong map_of_hm_remove) auto
    have "read_items stack env sh items = Some (Inr (map (\<lambda>(i, k). map_option f (shard_get k sh)) items))"
      using assms(1) [OF i(1)] i(2) by (intro read_items_decoded) simp
    then show ?thesis
      using sh items store_results_fill [of items f sh rs] Cons.IH [of "fst (hm_remove groups sid)"] Cons.prems rest
      by (cases "fill_results sh items rs") simp_all
  qed
qed simp

lemma p_mget_at:
  assumes "p_at hash w es m" and "\<And>k b. m k = Some b \<Longrightarrow> from_bytes stack env b = Some (Inr (f b))"
  shows "p_mget stack env hash keys w = Some (w, Inr (map (\<lambda>k. map_option f (m k)) keys))"
proof -
  let ?ix = "p_index (snd w)"
  have inv: "index_inv hash ?ix" and m: "index_abs hash ?ix = m" using assms(1) by (simp_all add: p_at_def)
  have dec: "from_bytes stack env b = Some (Inr (f b))" if "i < length ?ix" "map_of (shard_data (?ix ! i)) k = Some b" for i k b
  proof -
    have "shard_for_key hash (length ?ix) k = Some i"
      using index_invD(2) [OF inv that(1)] map_of_SomeD [OF that(2)] by (force simp: shard_ok_def)
    then have "index_abs hash ?ix k = Some b" using that(2) by (simp add: index_abs_def)
    then show ?thesis using assms(2) m by simp
  qed
  obtain g where g: "group_by_shard (\<lambda>(i, k). shard_for_key hash (length ?ix) k) (enumerate 0 keys) [] = Some g" "distinct (map fst g)"
    using group_by_shard_spec [of "enumerate 0 keys" "\<lambda>(i, k). shard_for_key hash (length ?ix) k" "[]"]
    by (fastforce simp: home_facts(1) [OF inv])
  have "index_mget_loop g (sort (map fst g)) ?ix (replicate (length keys) None) = Some (map m keys)"
  proof (cases "keys = []")
    case True
    then show ?thesis using g(1) by simp
  next
    case False
    then show ?thesis using index_mget_law [OF inv, of keys] g(1) m by (simp add: index_mget_def)
  qed
  then have "mget_shards stack env g (sort (map fst g)) ?ix (replicate (length keys) None) =
      Some (Inr (map (map_option f) (map m keys)))"
    using mget_shards_decoded [where f = f and groups = g and rs = "replicate (length keys) None" and sids = "sort (map fst g)", OF dec] g(2)
    by simp
  then show ?thesis by (simp add: p_mget_def read_index_def g(1) eresult_apply comp_def)
qed

section \<open>The contract\<close>

definition p_ok :: "nat \<Rightarrow> zenv \<Rightarrow> zvalue \<Rightarrow> bool" where
  "p_ok stack env v \<longleftrightarrow> (\<exists>b v'. to_bytes env v = Some b \<and> decodes stack env b v' \<and> content_of v' = content_of v)"

definition p_good :: "nat \<Rightarrow> zenv \<Rightarrow> (bytes \<rightharpoonup> bytes) \<Rightarrow> bool" where
  "p_good stack env m \<longleftrightarrow> (\<forall>k b. m k = Some b \<longrightarrow> decodes stack env b (decoded stack env b))"

definition p_view :: "nat \<Rightarrow> zenv \<Rightarrow> (bytes \<rightharpoonup> bytes) \<Rightarrow> keyspace" where
  "p_view stack env m k = map_option (\<lambda>b. content_of (decoded stack env b)) (m k)"

definition p_abs :: "nat \<Rightarrow> zenv \<Rightarrow> (bytes \<Rightarrow> u64) \<Rightarrow> aof_fs \<times> pstore \<Rightarrow> keyspace" where
  "p_abs stack env hash w = p_view stack env (index_abs hash (p_index (snd w)))"

definition p_sound :: "nat \<Rightarrow> zenv \<Rightarrow> (bytes \<Rightarrow> u64) \<Rightarrow> aof_fs \<times> pstore \<Rightarrow> bool" where
  "p_sound stack env hash w \<longleftrightarrow> (\<exists>es m. p_at hash w es m \<and> p_good stack env m)"

lemma p_soundE:
  assumes "p_sound stack env hash w"
  obtains es m where "p_at hash w es m" and "p_good stack env m" and "p_abs stack env hash w = p_view stack env m"
proof -
  obtain es m where w: "p_at hash w es m" "p_good stack env m" using assms by (auto simp: p_sound_def)
  moreover have "index_abs hash (p_index (snd w)) = m" using w(1) by (simp add: p_at_def)
  ultimately show ?thesis using that by (simp add: p_abs_def)
qed

lemma p_yieldsI:
  assumes "op w = Some (w', r)" and "p_at hash w' es m" and "p_good stack env m" and "p_view stack env m = ks"
  shows "yields (p_sound stack env hash) (p_abs stack env hash) op w r ks"
proof -
  have "index_abs hash (p_index (snd w')) = m" using assms(2) by (simp add: p_at_def)
  then show ?thesis using assms by (auto simp: yields_def p_sound_def p_abs_def)
qed

lemma p_view_simps:
  "p_view stack env (m(k := x)) = (p_view stack env m)(k := map_option (\<lambda>b. content_of (decoded stack env b)) x)"
  "p_view stack env Map.empty = Map.empty"
  by (simp_all add: p_view_def fun_eq_iff)

lemma p_good_upd:
  assumes "p_good stack env m"
  shows "p_good stack env (m(k := None))"
    and "decodes stack env b (decoded stack env b) \<Longrightarrow> p_good stack env (m(k \<mapsto> b))"
  using assms by (auto simp: p_good_def)

lemma p_goodD: "p_good stack env m \<Longrightarrow> m k = Some b \<Longrightarrow> decodes stack env b (decoded stack env b)"
  by (simp add: p_good_def)

lemma p_okE:
  assumes "p_ok stack env v"
  obtains b where "to_bytes env v = Some b" and "decodes stack env b (decoded stack env b)"
    and "content_of (decoded stack env b) = content_of v"
proof -
  obtain b v' where "to_bytes env v = Some b" "decodes stack env b v'" "content_of v' = content_of v"
    using assms by (auto simp: p_ok_def)
  with that [of b] show ?thesis by (simp add: decodes_decoded)
qed

lemma p_set_law:
  assumes "p_sound stack env hash w" and "p_ok stack env v"
  shows "yields (p_sound stack env hash) (p_abs stack env hash) (p_set env hash t k v) w (Inr ())
    ((p_abs stack env hash w)(k \<mapsto> content_of v))"
proof -
  obtain es m where w: "p_at hash w es m" "p_good stack env m" "p_abs stack env hash w = p_view stack env m"
    using p_soundE [OF assms(1)] .
  obtain b where b: "to_bytes env v = Some b" "decodes stack env b (decoded stack env b)" "content_of (decoded stack env b) = content_of v"
    using p_okE [OF assms(2)] .
  obtain w' where "p_set env hash t k v w = Some (w', Inr ())" "p_at hash w' (es @ [(k, Some b)]) (m(k \<mapsto> b))"
    using p_set_at [OF w(1) b(1)] by blast
  then show ?thesis by (rule p_yieldsI) (use w b in \<open>simp_all add: p_view_simps p_good_upd\<close>)
qed

lemma p_get_value:
  assumes "p_sound stack env hash w"
  shows "\<exists>vo. p_get stack env hash k w = Some (w, Inr vo) \<and> map_option content_of vo = p_abs stack env hash w k \<and>
    pred_option value_wf vo"
proof -
  obtain es m where w: "p_at hash w es m" "p_good stack env m" "p_abs stack env hash w = p_view stack env m"
    using p_soundE [OF assms] .
  show ?thesis
  proof (cases "m k")
    case None
    then show ?thesis using p_get_at [OF w(1), of stack env k] by (simp add: w(3) p_view_def)
  next
    case (Some b)
    then show ?thesis using p_get_at [OF w(1), of stack env k] p_goodD [OF w(2) Some] by (simp add: w(3) p_view_def decodes_def)
  qed
qed

lemma p_del_law:
  assumes "p_sound stack env hash w"
  shows "yields (p_sound stack env hash) (p_abs stack env hash) (p_del hash t k) w (Inr (p_abs stack env hash w k \<noteq> None))
    ((p_abs stack env hash w)(k := None))"
proof -
  obtain es m where w: "p_at hash w es m" "p_good stack env m" "p_abs stack env hash w = p_view stack env m"
    using p_soundE [OF assms] .
  obtain w' where w': "p_del hash t k w = Some (w', Inr (m k \<noteq> None))"
    "p_at hash w' (es @ (if m k = None then [] else [(k, None)])) (m(k := None))"
    using p_del_at [OF w(1)] by blast
  have "p_abs stack env hash w k \<noteq> None \<longleftrightarrow> m k \<noteq> None" by (simp add: w(3) p_view_def)
  then show ?thesis using w by (intro p_yieldsI [OF _ w'(2)]) (simp_all add: w'(1) p_view_simps p_good_upd)
qed

lemma lookup_table_good:
  assumes "lookup_table env kvs tb = Some table" and "\<forall>v \<in> snd ` set kvs. p_ok stack env v" and "p_good stack env (map_of tb)"
  shows "p_good stack env (map_of table) \<and>
    p_view stack env (map_of table) = p_view stack env (map_of tb) ++ map_of (rev (map (map_prod id content_of) kvs))"
  using assms
proof (induction env kvs tb rule: lookup_table.induct)
  case (2 env k v kvs tb)
  obtain b where b: "to_bytes env v = Some b" "decodes stack env b (decoded stack env b)" "content_of (decoded stack env b) = content_of v"
    using p_okE [of stack env v] "2.prems"(2) by auto
  obtain tb' old where i: "hm_insert tb k b = (tb', old)" by (cases "hm_insert tb k b")
  have tb': "map_of tb' = (map_of tb)(k \<mapsto> b)" using hm_insert_map [OF i] by simp
  have "p_good stack env (map_of tb')" using "2.prems"(3) b(2) by (simp add: tb' p_good_upd)
  with 2(1) [OF b(1)] "2.prems" b i
  have "p_good stack env (map_of table) \<and>
      p_view stack env (map_of table) = p_view stack env (map_of tb') ++ map_of (rev (map (map_prod id content_of) kvs))"
    by (simp add: id_def)
  moreover have "p_view stack env (map_of tb') ++ map_of (rev (map (map_prod id content_of) kvs)) =
      p_view stack env (map_of tb) ++ map_of (rev (map (map_prod id content_of) ((k, v) # kvs)))"
    by (auto simp: tb' p_view_simps b(3) map_add_def fun_eq_iff split: option.split)
  ultimately show ?case by (simp add: id_def)
qed simp

lemma p_mset_law:
  assumes "p_sound stack env hash w" and "\<forall>v \<in> snd ` set kvs. p_ok stack env v \<and> value_wf v"
  shows "yields (p_sound stack env hash) (p_abs stack env hash) (p_mset env hash \<sigma> \<tau> ts kvs) w (Inr ())
    (p_abs stack env hash w ++ map_of (rev (map (map_prod id content_of) kvs)))"
proof -
  obtain es m where w: "p_at hash w es m" "p_good stack env m" "p_abs stack env hash w = p_view stack env m"
    using p_soundE [OF assms(1)] .
  have "\<exists>table. lookup_table env kvs tb = Some table" for tb
    using assms(2) by (induction env kvs tb rule: lookup_table.induct) (auto elim!: p_okE)
  then obtain table where t: "lookup_table env kvs [] = Some table" by blast
  have good: "p_good stack env (map_of table)"
    "p_view stack env (map_of table) = map_of (rev (map (map_prod id content_of) kvs))"
    using lookup_table_good [OF t, of stack] assms(2) by (simp_all add: p_good_def p_view_simps)
  have "p_good stack env (m ++ map_of table)" using w(2) good(1) by (auto simp: p_good_def map_add_Some_iff)
  moreover have "p_view stack env (m ++ map_of table) = p_abs stack env hash w ++ p_view stack env (map_of table)"
    by (auto simp: w(3) p_view_def map_add_def fun_eq_iff split: option.split)
  ultimately show ?thesis using p_mset_at [OF w(1) t, of \<sigma> \<tau> ts] good(2) by (auto intro: p_yieldsI)
qed

lemma p_mget_value:
  assumes "p_sound stack env hash w"
  shows "\<exists>vs. p_mget stack env hash ks w = Some (w, Inr vs) \<and> map (map_option content_of) vs = map (p_abs stack env hash w) ks \<and>
    list_all (pred_option value_wf) vs"
proof -
  obtain es m where w: "p_at hash w es m" "p_good stack env m" "p_abs stack env hash w = p_view stack env m"
    using p_soundE [OF assms] .
  have "from_bytes stack env b = Some (Inr (decoded stack env b))" if "m k = Some b" for k b
    using p_goodD [OF w(2) that] by (simp add: decodes_def)
  from p_mget_at [OF w(1) this, where keys = ks] have "p_mget stack env hash ks w = Some (w, Inr (map (\<lambda>k. map_option (decoded stack env) (m k)) ks))" .
  moreover have "list_all (pred_option value_wf) (map (\<lambda>k. map_option (decoded stack env) (m k)) ks)"
    using w(2) by (auto simp: list_all_iff pred_option_def p_good_def decodes_def)
  ultimately show ?thesis by (simp add: w(3) p_view_def option.map_comp comp_def)
qed

lemma p_get_law:
  assumes "p_sound stack env hash w"
  shows "\<exists>vo. yields (p_sound stack env hash) (p_abs stack env hash) (p_get stack env hash k) w (Inr vo) (p_abs stack env hash w) \<and>
    map_option content_of vo = p_abs stack env hash w k \<and> pred_option value_wf vo"
proof -
  obtain vo where v: "p_get stack env hash k w = Some (w, Inr vo)" and c: "map_option content_of vo = p_abs stack env hash w k \<and> pred_option value_wf vo"
    using p_get_value [OF assms] by blast
  show ?thesis by (rule exI [of _ vo], rule conjI [OF yields_same [where m = "p_get stack env hash k" and I = "p_sound stack env hash", OF v assms] c])
qed

lemma p_mget_law:
  assumes "p_sound stack env hash w"
  shows "\<exists>vs. yields (p_sound stack env hash) (p_abs stack env hash) (p_mget stack env hash ks) w (Inr vs) (p_abs stack env hash w) \<and>
    map (map_option content_of) vs = map (p_abs stack env hash w) ks \<and> list_all (pred_option value_wf) vs"
proof -
  obtain vs where v: "p_mget stack env hash ks w = Some (w, Inr vs)" and c: "map (map_option content_of) vs = map (p_abs stack env hash w) ks \<and> list_all (pred_option value_wf) vs"
    using p_mget_value [OF assms] by blast
  show ?thesis by (rule exI [of _ vs], rule conjI [OF yields_same [where m = "p_mget stack env hash ks" and I = "p_sound stack env hash", OF v assms] c])
qed

lemma p_rename_law:
  assumes "p_sound stack env hash w"
  shows "case p_abs stack env hash w a of
      None \<Rightarrow> yields (p_sound stack env hash) (p_abs stack env hash) (p_rename hash t t' a b) w (Inl KeyNotFound) (p_abs stack env hash w)
    | Some c \<Rightarrow> yields (p_sound stack env hash) (p_abs stack env hash) (p_rename hash t t' a b) w (Inr ())
        ((p_abs stack env hash w)(a := None, b \<mapsto> c))"
proof -
  obtain es m where w: "p_at hash w es m" "p_good stack env m" "p_abs stack env hash w = p_view stack env m"
    using p_soundE [OF assms] .
  show ?thesis
  proof (cases "m a")
    case None
    then show ?thesis using p_rename_at [OF w(1), where src = a and dst = b and t = t and t' = t'] w
      by (auto simp: p_view_def intro: p_yieldsI)
  next
    case (Some v)
    obtain w' where w': "p_rename hash t t' a b w = Some (w', Inr ())"
      "p_at hash w' (es @ [(a, None), (b, Some v)]) (m(a := None, b \<mapsto> v))"
      using p_rename_at [OF w(1), where src = a and dst = b and t = t and t' = t'] Some by auto
    have "p_abs stack env hash w a = Some (content_of (decoded stack env v))" using Some by (simp add: w(3) p_view_def)
    moreover have "p_good stack env (m(a := None, b \<mapsto> v))" using p_good_upd w(2) p_goodD [OF w(2) Some] by simp
    ultimately show ?thesis using p_yieldsI [where op = "p_rename hash t t' a b", OF w'] by (simp add: w(3) p_view_simps)
  qed
qed

lemma p_renamenx_law:
  assumes "p_sound stack env hash w"
  shows "case (p_abs stack env hash w a, p_abs stack env hash w b) of
      (Some c, None) \<Rightarrow> yields (p_sound stack env hash) (p_abs stack env hash) (p_renamenx hash t t' a b) w (Inr True)
        ((p_abs stack env hash w)(a := None, b \<mapsto> c))
    | (Some c, Some d) \<Rightarrow> yields (p_sound stack env hash) (p_abs stack env hash) (p_renamenx hash t t' a b) w (Inr False) (p_abs stack env hash w)
    | (None, None) \<Rightarrow> yields (p_sound stack env hash) (p_abs stack env hash) (p_renamenx hash t t' a b) w (Inl KeyNotFound) (p_abs stack env hash w)
    | (None, Some d) \<Rightarrow> \<exists>r \<in> {Inr False, Inl KeyNotFound}.
        yields (p_sound stack env hash) (p_abs stack env hash) (p_renamenx hash t t' a b) w r (p_abs stack env hash w)"
proof -
  obtain es m where w: "p_at hash w es m" "p_good stack env m" "p_abs stack env hash w = p_view stack env m"
    using p_soundE [OF assms] .
  note at = p_renamenx_at [OF w(1), where src = a and dst = b and t = t and t' = t']
  show ?thesis
  proof (cases "m a = None \<or> m b \<noteq> None")
    case True
    then show ?thesis using at w by (cases "m a"; cases "m b") (auto simp: p_view_def intro: p_yieldsI)
  next
    case False
    then obtain v where v: "m a = Some v" "m b = None" by auto
    obtain w' where w': "p_renamenx hash t t' a b w = Some (w', Inr True)"
      "p_at hash w' (es @ [(a, None), (b, Some v)]) (m(a := None, b \<mapsto> v))"
      using at v by auto
    have "p_abs stack env hash w a = Some (content_of (decoded stack env v))" "p_abs stack env hash w b = None"
      using v by (simp_all add: w(3) p_view_def)
    moreover have "p_good stack env (m(a := None, b \<mapsto> v))" using p_good_upd w(2) p_goodD [OF w(2) v(1)] by simp
    ultimately show ?thesis using p_yieldsI [where op = "p_renamenx hash t t' a b", OF w'] by (simp add: w(3) p_view_simps)
  qed
qed

lemma p_flush_law:
  assumes "p_sound stack env hash w"
  shows "yields (p_sound stack env hash) (p_abs stack env hash) p_flushdb w (Inr ()) Map.empty"
proof -
  obtain es m where w: "p_at hash w es m" using assms by (auto simp: p_sound_def)
  from p_flush_at [OF w] show ?thesis by (auto intro!: p_yieldsI simp: p_good_def p_view_simps)
qed

interpretation p_engine: kv_engine "p_storage stack env hash rg \<sigma> \<tau> ts" "p_sound stack env hash" "p_abs stack env hash" "p_ok stack env"
  for stack env hash rg \<sigma> \<tau> ts
  by unfold_locales
    (simp_all only: p_storage_def Let_def storage.simps
      p_set_law p_get_law p_del_law p_mset_law p_mget_law p_rename_law p_renamenx_law p_flush_law simp_thms)

end
