(* ===== verification/Command_Engines.thy ===== *)
theory Command_Engines
  imports Command_Refine Memory Persistent_Engine
begin

text \<open>
  The commands on the two engines of the program. On the memory engine every command, and every sequence
  of them, behaves as \<open>spec\<close> says on the map of contents, panics included. On the persistent engine the
  contract \<open>kv_engine\<close> gives the same for the commands on values it can keep; the two engines then
  agree. Lists are not among these values, and what a command stores of them is lost.
\<close>

section \<open>Sessions\<close>

text \<open>A client's commands in order, each with its surroundings; the replies so far are lost in a panic.\<close>

fun session :: "'s storage \<Rightarrow> (cenv \<times> command) list \<Rightarrow> 's \<Rightarrow> ('s \<times> zvalue store_result list) panics" where
  "session st [] s = Some (s, [])"
| "session st ((e, c) # cs) s =
     (case execute e st c s of
        None \<Rightarrow> None
      | Some (s, r) \<Rightarrow> map_option (\<lambda>(s, rs). (s, r # rs)) (session st cs s))"

fun spec_session :: "(cenv \<times> command) list \<Rightarrow> keyspace \<Rightarrow> (keyspace \<times> content store_result list) panics \<Rightarrow> bool" where
  "spec_session [] ks out \<longleftrightarrow> out = Some (ks, [])"
| "spec_session ((e, c) # cs) ks out \<longleftrightarrow>
     (if crashes c ks then out = None
      else \<exists>r ks1 out1. spec e c ks r ks1 \<and> spec_session cs ks1 out1 \<and> out = map_option (\<lambda>(ks, rs). (ks, r # rs)) out1)"

definition view :: "('s \<Rightarrow> keyspace) \<Rightarrow> ('s \<times> zvalue store_result list) panics \<Rightarrow> (keyspace \<times> content store_result list) panics" where
  "view A out = map_option (\<lambda>(s, rs). (A s, map (map_sum id content_of) rs)) out"

context kv_core
begin

lemma execute_crashes:
  assumes "inv s" and "crashes c (abs s)"
  shows "execute e st c s = None"
proof (cases c)
  case (Strings d)
  then obtain k i j t where c: "d = GetRangeCommand k i j" "abs s k = Some (CStr t)" "utf8_valid t"
      "\<not> (is_char_boundary t (fst (range_bounds (length t) i j)) \<and> is_char_boundary t (snd (range_bounds (length t) i j)))"
    using assms(2) by (cases d) (auto split: option.splits content.splits)
  obtain vo s1 where vo: "st_get st k s = Some (s1, Inr vo)" "map_option content_of vo = abs s k"
    using get_law [OF assms(1), of k] by (auto simp: yields_def)
  then have "vo = Some (Str t)" using c(2) by (auto simp: content_cases)
  then show ?thesis using vo(1) c(3,4) Strings c(1)
    by (auto simp: getrange_execute_def ebind_def str_slice_def elift_def epanic_apply case_prod_unfold Let_def)
next
  case (Lists d)
  then show ?thesis using assms(2) by (cases d) (simp_all add: lset_execute_def lrem_execute_def epanic_apply)
next
  case (Sets d)
  then show ?thesis using assms(2)
    by (cases d) (simp_all add: sinter_execute_def sunion_execute_def sdiff_execute_def epanic_apply)
next
  case (Bitmaps d)
  then show ?thesis using assms(2) by (cases d) (simp_all add: bitpos_execute_def epanic_apply)
qed (use assms(2) in \<open>simp_all add: epanic_apply\<close>)

end

context full_engine
begin

theorem session_refines:
  assumes "inv s" and "\<forall>(e, c)\<in>set cs. command_wf c \<and> draws_ok e"
  shows "spec_session cs (abs s) (view abs (session st cs s))"
  using assms
proof (induction cs arbitrary: s)
  case (Cons ec cs)
  obtain e c where ec: "ec = (e, c)" by (cases ec)
  show ?case
  proof (cases "crashes c (abs s)")
    case True
    then show ?thesis using execute_crashes Cons.prems(1) by (simp add: ec view_def)
  next
    case False
    then obtain s1 r where s1: "execute e st c s = Some (s1, r)" "inv s1" "spec e c (abs s) (map_sum id content_of r) (abs s1)"
      using execute_answers [of s c e] Cons.prems by (auto simp: ec answers_def)
    have "view abs (session st ((e, c) # cs) s) =
        map_option (\<lambda>(ks, rs). (ks, map_sum id content_of r # rs)) (view abs (session st cs s1))"
      by (cases "session st cs s1") (auto simp: view_def s1(1))
    then show ?thesis using Cons.IH [OF s1(2)] Cons.prems(2) s1(3) False by (auto simp: ec)
  qed
qed (simp add: view_def)

end

sublocale memory_engine \<subseteq> full_engine "mem_storage dm \<sigma> rg" "mem_inv dm" "mem_abs dm" "\<lambda>_. True"
proof
  fix d
  have "dom (mem_abs dm d) = dom (dm_get dm d)" by (auto simp: mem_abs_def)
  then show "yields (mem_inv dm) (mem_abs dm) (st_dbsize (mem_storage dm \<sigma> rg)) d (Inr (card (dom (mem_abs dm d)))) (mem_abs dm d)"
    if "mem_inv dm d"
    using that by (simp add: yields_def mem_storage_def mem_dbsize_def dash_okD [OF dash])
  show "\<exists>r. yields (mem_inv dm) (mem_abs dm) (st_save (mem_storage dm \<sigma> rg)) d r (mem_abs dm d)" if "mem_inv dm d"
    using that by (auto simp: mem_storage_def mem_save_def yields_def eerr_apply)
qed simp

section \<open>The memory engine\<close>

context memory_engine
begin

lemma mem_session:
  "mem_inv dm d \<Longrightarrow> \<forall>(e, c)\<in>set cs. command_wf c \<and> draws_ok e \<Longrightarrow>
   spec_session cs (mem_abs dm d) (view (mem_abs dm) (session (mem_storage dm \<sigma> rg) cs d))"
  by (rule session_refines)

lemma mem_execute:
  assumes "mem_inv dm d" and "command_wf c" and "draws_ok e" and "execute e (mem_storage dm \<sigma> rg) c d = Some (d', r)"
  shows "mem_inv dm d' \<and> (\<forall>v. r = Inr v \<longrightarrow> value_wf v) \<and>
    spec e c (mem_abs dm d) (map_sum id content_of r) (mem_abs dm d')"
  using execute_crashes [OF assms(1), of c e] execute_answers [OF assms(1,2) _ assms(3)] assms(4)
  by (cases "crashes c (mem_abs dm d)") (auto simp: answers_def)

lemma mem_returns:
  assumes "mem_inv dm d" and "command_wf c" and "draws_ok e" and "\<not> crashes c (mem_abs dm d)"
  shows "\<exists>d' r. execute e (mem_storage dm \<sigma> rg) c d = Some (d', r)"
  using execute_answers [OF assms(1,2,4,3)] by (auto simp: answers_def)

end

lemma memory_engineI: "dash_ok dm \<Longrightarrow> rng_ok rg \<Longrightarrow> memory_engine dm rg"
  by unfold_locales

text \<open>C1. Any sequence of the modelled commands on the memory engine answers and changes the data exactly
  as the specification over a plain map of contents allows, and it panics exactly where the
  specification says so.\<close>

theorem commands_refine_keyspace:
  assumes "dash_ok dm" and "rng_ok rg" and "mem_inv dm d" and "\<forall>(e, c)\<in>set cs. command_wf c \<and> draws_ok e"
  shows "spec_session cs (mem_abs dm d) (view (mem_abs dm) (session (mem_storage dm \<sigma> rg) cs d))"
  by (rule memory_engine.mem_session [OF memory_engineI [OF assms(1,2)] assms(3,4)])

text \<open>Surroundings for examples: the first entry is always drawn.\<close>

definition plain_cenv :: cenv where
  "plain_cenv =
     \<lparr>c_fl = \<lparr>f_add = (+), f_sub = (-), f_neg = uminus, f_is_nan = \<lambda>_. False, f_is_finite = \<lambda>_. True,
        f_parse = \<lambda>_. None, f_show = \<lambda>_. []\<rparr>,
      c_order = \<lambda>_. [], c_cpu = \<lparr>has_popcnt = False, has_avx2 = False\<rparr>,
      c_pick = \<lambda>i es. case es of [] \<Rightarrow> None | x # _ \<Rightarrow> Some x, c_pick_multiple = \<lambda>es n. take n es,
      c_secs = 0, c_micros = 0\<rparr>"

lemma plain_draws: "draws_ok plain_cenv"
proof -
  have "mset (take n es) \<subseteq># mset es" for n and es :: "(bytes \<times> bytes) list"
    by (metis append_take_drop_id mset_append mset_subset_eq_add_left)
  then show ?thesis by (simp add: draws_ok_def plain_cenv_def split: list.split option.split)
qed

lemma mem_inv_empty: "mem_inv alist_dash []"
  by (simp add: mem_inv_def alist_dash_def)

lemma commands_refine_keyspace_witness:
  "spec_session [(plain_cenv, Lists (RPushCommand [1] [7])), (plain_cenv, Ints (IncrCommand [2])), (plain_cenv, Unimplemented None)]
     (mem_abs alist_dash []) (view (mem_abs alist_dash) (session (mem_storage alist_dash (\<lambda>_. []) first_rng)
       [(plain_cenv, Lists (RPushCommand [1] [7])), (plain_cenv, Ints (IncrCommand [2])), (plain_cenv, Unimplemented None)] []))"
  by (rule commands_refine_keyspace) (simp_all add: alist_dash_ok first_rng_ok mem_inv_empty plain_draws)

text \<open>C4. Whatever modelled command runs on the memory engine, if it returns, the containers inside every stored
  value and inside the reply keep the invariants of their types: lists, hashes, sets, sorted sets and
  HyperLogLogs, also those inside arrays and stream entries.\<close>

theorem commands_keep_types:
  assumes "dash_ok dm" and "rng_ok rg" and "mem_inv dm d" and "command_wf c" and "draws_ok e"
    and "execute e (mem_storage dm \<sigma> rg) c d = Some (d', r)"
  shows "mem_inv dm d' \<and> (\<forall>v. r = Inr v \<longrightarrow> value_wf v)"
  using memory_engine.mem_execute [OF memory_engineI [OF assms(1,2)] assms(3-6)] by blast

lemma commands_keep_types_witness:
  "\<exists>d' r. execute plain_cenv (mem_storage alist_dash (\<lambda>_. []) first_rng) (Lists (LPushCommand [1] [7])) [] = Some (d', r) \<and>
     mem_inv alist_dash d' \<and> (\<forall>v. r = Inr v \<longrightarrow> value_wf v)"
proof -
  obtain d' r where x: "execute plain_cenv (mem_storage alist_dash (\<lambda>_. []) first_rng) (Lists (LPushCommand [1] [7])) [] = Some (d', r)"
    using mem_alist.mem_returns [OF mem_inv_empty _ plain_draws, of "Lists (LPushCommand [1] [7])" "\<lambda>_. []"] by auto
  then show ?thesis
    using commands_keep_types [OF alist_dash_ok first_rng_ok mem_inv_empty _ plain_draws x] by simp
qed

section \<open>What a command touches\<close>

text \<open>The commands that change several keys; \<open>key\<close> names one of them, and for \<open>BITOP\<close> a source.\<close>

fun many_string :: "string_command \<Rightarrow> bool" where
  "many_string (MSetCommand kvs) \<longleftrightarrow> True"
| "many_string _ \<longleftrightarrow> False"

fun many_key :: "keys_command \<Rightarrow> bool" where
  "many_key (DelCommand k) \<longleftrightarrow> False"
| "many_key (ExistsCommand keys) \<longleftrightarrow> False"
| "many_key _ \<longleftrightarrow> True"

fun many_bitmap :: "bitmap_command \<Rightarrow> bool" where
  "many_bitmap (BitOpCommand op d keys) \<longleftrightarrow> True"
| "many_bitmap _ \<longleftrightarrow> False"

fun many_keys :: "command \<Rightarrow> bool" where
  "many_keys (Strings c) \<longleftrightarrow> many_string c"
| "many_keys (Keys c) \<longleftrightarrow> many_key c"
| "many_keys (Bitmaps c) \<longleftrightarrow> many_bitmap c"
| "many_keys _ \<longleftrightarrow> False"

lemma typed_frame:
  assumes "typed rd err k ks f r ks'" and "\<And>xo r ks'. f xo r ks' \<Longrightarrow> ks' k' = ks k'"
  shows "ks' k' = ks k'"
  using assms by (auto simp: typed_def gives_iff split: option.splits)

lemma on_set_frame:
  assumes "on_set k ks g f r ks'" and "\<And>r ks'. g r ks' \<Longrightarrow> ks' k' = ks k'" and "\<And>S r ks'. f S r ks' \<Longrightarrow> ks' k' = ks k'"
  shows "ks' k' = ks k'"
  using assms by (auto simp: on_set_def split: option.splits content.splits)

lemma unless_null_frame: "unless_null k ks f r ks' \<Longrightarrow> (f r ks' \<Longrightarrow> ks' k' = ks k') \<Longrightarrow> ks' k' = ks k'"
  by (auto simp: unless_null_def gives_iff split: if_splits)

lemma string_frame:
  "spec_string c ks r ks' \<Longrightarrow> \<not> many_string c \<Longrightarrow> key_string c \<noteq> Some k' \<Longrightarrow> ks' k' = ks k'"
  by (cases c) (auto simp: gives_iff Let_def elim!: typed_frame split: if_splits option.splits)

lemma int_frame: "spec_int c ks r ks' \<Longrightarrow> key_int c \<noteq> Some k' \<Longrightarrow> ks' k' = ks k'"
  by (cases c) (auto simp: spec_count_def gives_iff Let_def elim!: typed_frame split: if_splits)

lemma float_frame: "spec_float e c ks r ks' \<Longrightarrow> key_float c \<noteq> Some k' \<Longrightarrow> ks' k' = ks k'"
  by (cases c) (auto simp: spec_accum_def spec_count_def gives_iff Let_def elim!: typed_frame split: if_splits)

lemma keys_frame: "spec_keys c ks r ks' \<Longrightarrow> \<not> many_key c \<Longrightarrow> key_keys c \<noteq> Some k' \<Longrightarrow> ks' k' = ks k'"
  by (cases c) (auto simp: gives_iff)

lemma list_frame: "spec_list c ks r ks' \<Longrightarrow> key_list c \<noteq> Some k' \<Longrightarrow> ks' k' = ks k'"
  by (cases c) (auto simp: spec_push_def spec_pop_def gives_iff Let_def elim!: typed_frame split: if_splits option.splits)

lemma set_frame: "spec_set c ks r ks' \<Longrightarrow> key_set c \<noteq> Some k' \<Longrightarrow> ks' k' = ks k'"
  by (cases c) (auto simp: gives_iff elim!: unless_null_frame on_set_frame split: if_splits)

lemma hash_frame: "spec_hash e c ks r ks' \<Longrightarrow> key_hash c \<noteq> Some k' \<Longrightarrow> ks' k' = ks k'"
  by (cases c) (auto simp: gives_iff Let_def elim!: typed_frame split: if_splits option.splits)

lemma bitmap_frame: "spec_bitmap c ks r ks' \<Longrightarrow> \<not> many_bitmap c \<Longrightarrow> key_bitmap c \<noteq> Some k' \<Longrightarrow> ks' k' = ks k'"
  by (cases c) (auto simp: gives_iff)

lemma server_frame: "spec_server e c ks r ks' \<Longrightarrow> ks' k' = ks k'"
  by (cases c) (auto simp: gives_iff elim!: typed_frame split: option.splits)

lemma spec_frame: "spec e c ks r ks' \<Longrightarrow> \<not> many_keys c \<Longrightarrow> key c \<noteq> Some k' \<Longrightarrow> ks' k' = ks k'"
  by (cases c) (auto dest: string_frame int_frame float_frame keys_frame list_frame set_frame hash_frame bitmap_frame server_frame)

text \<open>C5. On the memory engine, a command other than \<open>MSET\<close>, \<open>RENAME\<close>, \<open>RENAMENX\<close>, \<open>FLUSHDB\<close> and \<open>BITOP\<close> changes no key but the one
  that \<open>key\<close> reports, whether it succeeds or fails.\<close>

theorem command_touches_its_key:
  assumes "dash_ok dm" and "rng_ok rg" and "mem_inv dm d" and "command_wf c" and "draws_ok e"
    and "execute e (mem_storage dm \<sigma> rg) c d = Some (d', r)" and "\<not> many_keys c" and "key c \<noteq> Some k"
  shows "mem_abs dm d' k = mem_abs dm d k"
  using memory_engine.mem_execute [OF memory_engineI [OF assms(1,2)] assms(3-6)] spec_frame assms(7,8) by blast

lemma command_touches_its_key_witness:
  "\<exists>d' r. execute plain_cenv (mem_storage alist_dash (\<lambda>_. []) first_rng) (Strings (SetCommand [1] Null)) [([2], IntV 5)] = Some (d', r) \<and>
     mem_abs alist_dash d' [2] = mem_abs alist_dash [([2], IntV 5)] [2]"
proof -
  have i: "mem_inv alist_dash [([2], IntV 5)]" by (simp add: mem_inv_def alist_dash_def)
  obtain d' r where x: "execute plain_cenv (mem_storage alist_dash (\<lambda>_. []) first_rng) (Strings (SetCommand [1] Null)) [([2], IntV 5)] = Some (d', r)"
    using mem_alist.mem_returns [OF i _ plain_draws, of "Strings (SetCommand [1] Null)" "\<lambda>_. []"] by auto
  then show ?thesis
    using command_touches_its_key [OF alist_dash_ok first_rng_ok i _ plain_draws x, of "[2]"] by simp
qed

section \<open>The persistent engine\<close>

lemma p_ok_small:
  assumes "trip env current v bs v'" and "length bs < 64" and "depth v \<le> stack" and "value_wf v'" and "content_of v' = content_of v"
  shows "p_ok stack env v"
proof -
  have "write_value_inner vec_write_all env current v [] = zok bs" using assms(1) by (simp add: trip_def appends_def)
  then have "to_bytes env v = Some bs"
    using assms(2) by (simp add: to_bytes_def write_value_def write_value_versioned_def should_compress_def write_bytes_def
        vec_write_all_def zok_def)
  moreover have "read_value_with_version stack env current (bs @ []) = zok (v', [])"
    using assms(1,3) unfolding trip_def by blast
  then have "from_bytes stack env bs = Some (Inr v')" by (simp add: from_bytes_def read_value_def zok_def)
  ultimately show ?thesis using assms(4,5) by (auto simp: p_ok_def decodes_def)
qed

lemma p_ok_numbers: "0 < stack \<Longrightarrow> p_ok stack env (IntV n)" "0 < stack \<Longrightarrow> p_ok stack env (Float x)"
  using p_ok_small [OF trip_int [of env current n]] p_ok_small [OF trip_float [of env current x]] by simp_all

text \<open>
  The commands whose answer the specification determines and which store numbers only; on them the
  contract of the persistent engine is enough. \<open>RENAMENX\<close> is not among them: the engines differ on it.
\<close>

fun portable_string :: "string_command \<Rightarrow> bool" where
  "portable_string (GetCommand k) \<longleftrightarrow> True"
| "portable_string (MGetCommand keys) \<longleftrightarrow> True"
| "portable_string (StrLenCommand k) \<longleftrightarrow> True"
| "portable_string (GetRangeCommand k i j) \<longleftrightarrow> True"
| "portable_string _ \<longleftrightarrow> False"

fun portable_key :: "keys_command \<Rightarrow> bool" where
  "portable_key (RenameNxCommand a b) \<longleftrightarrow> False"
| "portable_key _ \<longleftrightarrow> True"

fun portable :: "command \<Rightarrow> bool" where
  "portable (Ints c) \<longleftrightarrow> True"
| "portable (Floats c) \<longleftrightarrow> True"
| "portable (Keys c) \<longleftrightarrow> portable_key c"
| "portable (Strings c) \<longleftrightarrow> portable_string c"
| "portable _ \<longleftrightarrow> False"

context kv_engine
begin

lemma portable_answers:
  assumes "inv s" and "\<And>n. ok (IntV n)" and "\<And>x. ok (Float x)" and "portable c" and "\<not> crashes c (abs s)"
  shows "answers inv abs (execute e st c) s (spec e c (abs s))"
proof (cases c)
  case (Strings d)
  then show ?thesis using assms get_answers mget_answers strlen_answers getrange_answers
    by (cases d) (simp_all del: spec_string.simps crashes_string.simps(1))
qed (use assms in \<open>simp_all add: int_answers float_answers keys_answers\<close>)

end

context memory_engine
begin

lemma mem_portable:
  "mem_inv dm d \<Longrightarrow> portable c \<Longrightarrow> \<not> crashes c (mem_abs dm d) \<Longrightarrow>
   answers (mem_inv dm) (mem_abs dm) (execute e (mem_storage dm \<sigma> rg) c) d (spec e c (mem_abs dm d))"
  by (rule portable_answers) simp_all

lemma mem_crashes: "mem_inv dm d \<Longrightarrow> crashes c (mem_abs dm d) \<Longrightarrow> execute e (mem_storage dm \<sigma> rg) c d = None"
  by (rule execute_crashes)

end

lemma portable_functional:
  assumes "portable c" and "spec e c ks r ks1" and "spec e c ks q ks2"
  shows "q = r \<and> ks2 = ks1"
proof (cases c)
  case (Strings d)
  show ?thesis using assms unfolding Strings
    by (cases d) (auto simp: typed_def gives_iff split: if_splits option.splits)
next
  case (Ints d)
  show ?thesis using assms unfolding Ints
    by (cases d) (auto simp: spec_count_def typed_def gives_iff Let_def split: if_splits option.splits)
next
  case (Floats d)
  show ?thesis using assms unfolding Floats
    by (cases d) (auto simp: spec_accum_def spec_count_def typed_def gives_iff Let_def split: if_splits option.splits)
next
  case (Keys d)
  show ?thesis using assms unfolding Keys by (cases d) (auto simp: gives_iff split: option.splits)
qed (use assms(1) in simp_all)

text \<open>C3. The two engines agree: from the same contents, a counter or float command, \<open>GET\<close>, \<open>MGET\<close>, \<open>STRLEN\<close>,
  \<open>GETRANGE\<close>, \<open>DEL\<close>, \<open>EXISTS\<close>, \<open>RENAME\<close> or \<open>FLUSHDB\<close> gives the same reply and leaves the same contents on the memory engine
  and on the persistent engine, or panics on both.\<close>

theorem engines_agree:
  assumes "dash_ok dm" and "rng_ok rg" and "mem_inv dm d" and "p_sound stack env hash w" and "0 < stack"
    and "p_abs stack env hash w = mem_abs dm d" and "portable c"
  shows "if crashes c (mem_abs dm d)
    then execute e (mem_storage dm \<sigma> rg) c d = None \<and> execute e (p_storage stack env hash rg' \<sigma>' \<tau> ts) c w = None
    else \<exists>d' w' r q. execute e (mem_storage dm \<sigma> rg) c d = Some (d', r) \<and>
      execute e (p_storage stack env hash rg' \<sigma>' \<tau> ts) c w = Some (w', q) \<and>
      map_sum id content_of q = map_sum id content_of r \<and> p_abs stack env hash w' = mem_abs dm d' \<and>
      mem_inv dm d' \<and> p_sound stack env hash w'"
proof (cases "crashes c (mem_abs dm d)")
  case True
  then show ?thesis
    using memory_engine.mem_crashes [OF memory_engineI [OF assms(1,2)] assms(3)] p_engine.execute_crashes [OF assms(4)] assms(6)
    by simp
next
  case False
  have "answers (mem_inv dm) (mem_abs dm) (execute e (mem_storage dm \<sigma> rg) c) d (spec e c (mem_abs dm d))"
    using memory_engine.mem_portable [OF memory_engineI [OF assms(1,2)] assms(3,7) False] .
  moreover have "answers (p_sound stack env hash) (p_abs stack env hash) (execute e (p_storage stack env hash rg' \<sigma>' \<tau> ts) c) w
      (spec e c (mem_abs dm d))"
    using p_engine.portable_answers [OF assms(4) p_ok_numbers(1) p_ok_numbers(2) assms(7)] assms(5,6) False by simp
  ultimately show ?thesis using portable_functional [OF assms(7)] False by (fastforce simp: answers_def)
qed

lemma p_fresh:
  obtains w where "p_sound 3 plain_env (\<lambda>_. 0) w" and "p_abs 3 plain_env (\<lambda>_. 0) w = Map.empty"
proof -
  obtain fs p where "p_inv (\<lambda>_. 0) (fs, p) []"
    using p_new_fresh [of empty_fs 4 "\<lambda>_. 0" 0 True Always Log False] by (auto simp: empty_fs_def fs_fresh_def)
  then have w: "p_at (\<lambda>_. 0) (fs, p) [] Map.empty" by (simp add: p_inv_def log_map_def)
  then have "p_sound 3 plain_env (\<lambda>_. 0) (fs, p)" unfolding p_sound_def p_good_def by fastforce
  moreover have "p_abs 3 plain_env (\<lambda>_. 0) (fs, p) = Map.empty"
    using w by (simp add: p_abs_def p_at_def p_view_simps)
  ultimately show ?thesis using that by blast
qed

lemma engines_agree_witness:
  "\<exists>w. p_sound 3 plain_env (\<lambda>_. 0) w \<and>
     (\<exists>d' w' r q. execute plain_cenv (mem_storage alist_dash (\<lambda>_. []) first_rng) (Ints (IncrCommand [1])) [] = Some (d', r) \<and>
       execute plain_cenv (p_storage 3 plain_env (\<lambda>_. 0) first_rng (\<lambda>_. []) (\<lambda>_. []) []) (Ints (IncrCommand [1])) w = Some (w', q) \<and>
       map_sum id content_of q = map_sum id content_of r \<and> p_abs 3 plain_env (\<lambda>_. 0) w' = mem_abs alist_dash d' \<and>
       mem_inv alist_dash d' \<and> p_sound 3 plain_env (\<lambda>_. 0) w')"
proof -
  obtain w where w: "p_sound 3 plain_env (\<lambda>_. 0) w" "p_abs 3 plain_env (\<lambda>_. 0) w = Map.empty" using p_fresh .
  have a: "p_abs 3 plain_env (\<lambda>_. 0) w = mem_abs alist_dash []" using w(2) by (simp add: mem_abs_def alist_dash_def fun_eq_iff)
  have c: "portable (Ints (IncrCommand [1]))" and n: "0 < (3 :: nat)"
    and no: "\<not> crashes (Ints (IncrCommand [1])) (mem_abs alist_dash [])" by simp_all
  show ?thesis
    using engines_agree [OF alist_dash_ok first_rng_ok mem_inv_empty w(1) n a c, unfolded if_not_P [OF no]] w(1) by blast
qed

text \<open>Finding: a list pushed on the persistent engine.\<close>

lemma list_bytes:
  assumes "ql_inv l" and "ql_items l = [x]" and "length x < 40"
  obtains b where "to_bytes env (List l) = Some b" and "0 < stack \<Longrightarrow> from_bytes stack env b = Some (Inl (SerdeError (InvalidTag TAG_LIST)))"
proof -
  have i: "concat (segments l) = [x]" "ql_len l = 1" using assms len_spec [OF assms(1)] by simp_all
  let ?b = "TAG_LIST # enc_len current (ql_len l) @ concat (map (\<lambda>s. TAG_STR # enc_sized current s) (concat (segments l)))"
  have "appends (write_value_inner vec_write_all env current (List l)) ?b"
    by (rule appends_list) (use i assms(3) in auto)
  moreover have "length ?b < 64" using assms(3) i by (simp add: enc_sized_def enc_len_def leb.simps current_def)
  ultimately have "to_bytes env (List l) = Some ?b"
    by (simp add: appends_def to_bytes_def write_value_def write_value_versioned_def should_compress_def write_bytes_def
        vec_write_all_def zok_def)
  moreover have "from_bytes stack env ?b = Some (Inl (SerdeError (InvalidTag TAG_LIST)))" if "0 < stack"
    using that read_list_tag(1) [of "stack - 1" env current] by (simp add: from_bytes_def read_value_def zerr_def)
  ultimately show ?thesis using that by blast
qed

text \<open>C40. A list pushed on the persistent engine is lost: \<open>RPUSH\<close> to a new key reports success, and from then on
  every read of the key fails to decode, so that it can neither be read, nor grown, nor popped.\<close>

theorem persistent_list_lost:
  assumes "p_sound stack env hash w" and "p_abs stack env hash w k = None" and "0 < stack" and "length x < 40"
    and st: "st = p_storage stack env hash rg \<sigma> \<tau> ts"
  shows "\<exists>w'. execute e st (Lists (RPushCommand k x)) w = Some (w', Inr (IntV 1)) \<and>
    (\<forall>c \<in> {Strings (GetCommand k), Lists (RPushCommand k y), Lists (LPushCommand k y), Lists (LPopCommand k), Lists (RPopCommand k),
        Lists (LLenCommand k), Lists (LRangeCommand k i j)}.
       execute e st c w' = Some (w', Inl (SerdeError (InvalidTag TAG_LIST))))"
proof -
  obtain es m where m: "p_at hash w es m" "p_abs stack env hash w = p_view stack env m" using p_soundE [OF assms(1)] .
  have "m k = None" using m(2) assms(2) by (simp add: p_view_def)
  then have g: "st_get st k w = Some (w, Inr None)" using p_get_at [OF m(1), of stack env k] by (simp add: st p_storage_def Let_def)
  obtain l where l: "ql_push_back (ql_new 64) x = Some l" "ql_inv l" "ql_items l = [x]"
    using push_back_spec [of "ql_new 64" x] by auto
  obtain b where b: "to_bytes env (List l) = Some b" "from_bytes stack env b = Some (Inl (SerdeError (InvalidTag TAG_LIST)))"
    using list_bytes [OF l(2,3) assms(4)] assms(3) by metis
  obtain w' where w': "st_set st k (List l) w = Some (w', Inr ())" "p_at hash w' (es @ [(k, Some b)]) (m(k \<mapsto> b))"
    using p_set_at [OF m(1) b(1)] by (fastforce simp: st p_storage_def Let_def)
  have f: "st_get st k w' = Some (w', Inl (SerdeError (InvalidTag TAG_LIST)))"
    using p_get_at [OF w'(2), of stack env k] b(2) by (simp add: st p_storage_def Let_def)
  have "execute e st (Lists (RPushCommand k x)) w = Some (w', Inr (IntV 1))"
    using g l w'(1) len_spec [OF l(2)]
    by (simp add: rpush_execute_def push_execute_def read_list_def ebind_def eok_apply)
  moreover have "execute e st c w' = Some (w', Inl (SerdeError (InvalidTag TAG_LIST)))"
    if "c \<in> {Strings (GetCommand k), Lists (RPushCommand k y), Lists (LPushCommand k y), Lists (LPopCommand k), Lists (RPopCommand k),
        Lists (LLenCommand k), Lists (LRangeCommand k i j)}" for c
    using that f
    by (auto simp: get_execute_def rpush_execute_def lpush_execute_def push_execute_def lpop_execute_def rpop_execute_def
        pop_execute_def llen_execute_def lrange_execute_def read_list_def ebind_def)
  ultimately show ?thesis by blast
qed

lemma persistent_list_lost_witness:
  "\<exists>w w'. execute plain_cenv (p_storage 3 plain_env (\<lambda>_. 0) first_rng (\<lambda>_. []) (\<lambda>_. []) []) (Lists (RPushCommand [1] [7])) w = Some (w', Inr (IntV 1)) \<and>
     execute plain_cenv (p_storage 3 plain_env (\<lambda>_. 0) first_rng (\<lambda>_. []) (\<lambda>_. []) []) (Lists (LLenCommand [1])) w' =
       Some (w', Inl (SerdeError (InvalidTag TAG_LIST)))"
proof -
  obtain w where w: "p_sound 3 plain_env (\<lambda>_. 0) w" "p_abs 3 plain_env (\<lambda>_. 0) w = Map.empty" using p_fresh .
  then have "p_abs 3 plain_env (\<lambda>_. 0) w [1] = None" and "0 < (3 :: nat)" and "length [7 :: u8] < 40" by simp_all
  from persistent_list_lost [OF w(1) this refl] show ?thesis by blast
qed

end
