(* ===== verification/Cluster_Engine.thy ===== *)
theory Cluster_Engine
  imports Cluster Rebalancer Command_Engines
begin

text \<open>
  A cluster of engines that meet the contract \<open>total_core\<close> meets it too: the keyspace it shows reads every key
  on the shard its slot is given to. The commands that work by single keys therefore answer on a cluster
  as they do on one engine, also while the background thread starts migrations; a completed
  migration sends a key to a shard that does not have it.
\<close>

section \<open>Invariant and keyspace\<close>

definition cl_inv :: "('s \<Rightarrow> bool) \<Rightarrow> 's cluster \<Rightarrow> bool" where
  "cl_inv I c \<longleftrightarrow> (\<forall>s\<in>set (c_shards c). I s) \<and> sm_wf (length (c_shards c)) (c_slots c)"

definition cl_abs :: "('s \<Rightarrow> keyspace) \<Rightarrow> 's cluster \<Rightarrow> keyspace" where
  "cl_abs A c k = A (c_shards c ! shard_of c k) k"

lemma shard_of_less: "cl_inv I c \<Longrightarrow> shard_of c k < length (c_shards c)"
  using sm_wf_shard [of "length (c_shards c)"] by (fastforce simp: cl_inv_def shard_of_def)

lemma cl_inv_shard: "cl_inv I c \<Longrightarrow> I (c_shards c ! shard_of c k)"
  using shard_of_less [of I c k] by (simp add: cl_inv_def)

text \<open>Changing the slot manager without changing the routing.\<close>

lemma cl_slots:
  assumes "cl_inv I c" and "sm_wf (length (c_shards c)) sm" and "\<And>k. get_key_shard sm k = get_key_shard (c_slots c) k"
    and "c' = c\<lparr>c_slots := sm, total_operations := x\<rparr> \<or> c' = c\<lparr>c_slots := sm\<rparr>"
  shows "cl_inv I c'" and "cl_abs A c' = cl_abs A c" and "shard_of c' = shard_of c" and "c_shards c' = c_shards c"
  using assms(4) assms(1-3) by (elim disjE; simp add: cl_inv_def cl_abs_def shard_of_def fun_eq_iff)+

lemma cl_record:
  assumes "cl_inv I c"
  shows "cl_inv I (c_record_operation j c)" and "cl_abs A (c_record_operation j c) = cl_abs A c"
    and "shard_of (c_record_operation j c) = shard_of c" and "c_shards (c_record_operation j c) = c_shards c"
proof -
  have "sm_wf (length (c_shards c)) (record_operation (utf8_lossy j) (c_slots c))"
    using assms by (simp add: cl_inv_def sm_wf_counters)
  note s = cl_slots [OF assms this, of "c_record_operation j c" "total_operations c + 1"]
  show "cl_inv I (c_record_operation j c)" "cl_abs A (c_record_operation j c) = cl_abs A c"
    "shard_of (c_record_operation j c) = shard_of c" "c_shards (c_record_operation j c) = c_shards c"
    by (rule s, simp, simp add: c_record_operation_def)+
qed

text \<open>Replacing a shard.\<close>

lemma cl_update:
  assumes "cl_inv I c" and "i < length (c_shards c)" and "I s"
  shows "cl_inv I (c\<lparr>c_shards := (c_shards c)[i := s]\<rparr>)"
    and "cl_abs A (c\<lparr>c_shards := (c_shards c)[i := s]\<rparr>) = (\<lambda>k. if shard_of c k = i then A s k else cl_abs A c k)"
  using assms set_update_subset_insert [of "c_shards c" i s]
  by (auto simp: cl_inv_def cl_abs_def shard_of_def fun_eq_iff nth_list_update)

lemma cl_update_same:
  assumes "cl_inv I c" and "i < length (c_shards c)" and "I s" and "A s = A (c_shards c ! i)"
  shows "cl_abs A (c\<lparr>c_shards := (c_shards c)[i := s]\<rparr>) = cl_abs A c"
  unfolding cl_update(2) [OF assms(1-3)] assms(4) by (auto simp: fun_eq_iff cl_abs_def)

lemma on_shard_yields:
  assumes "cl_inv I c" and "i < length (c_shards c)" and "yields I A op (c_shards c ! i) r ks"
  shows "yields (cl_inv I) (cl_abs A) (on_shard i op) c r (\<lambda>k. if shard_of c k = i then ks k else cl_abs A c k)"
proof -
  obtain s where "op (c_shards c ! i) = Some (s, r)" "I s" "ks = A s" using assms(3) by (auto simp: yields_def)
  then show ?thesis using cl_update [OF assms(1,2), of s] assms(2) by (simp add: yields_def on_shard_def cong: if_cong)
qed

lemma routed_yields:
  assumes "cl_inv I c" and "yields I A op (c_shards c ! shard_of c k) r ((A (c_shards c ! shard_of c k))(k := x))"
  shows "yields (cl_inv I) (cl_abs A) (routed k op) c r ((cl_abs A c)(k := x))"
proof -
  let ?c = "c_record_operation k c"
  have "(\<lambda>j. if shard_of c j = shard_of c k then ((A (c_shards c ! shard_of c k))(k := x)) j else cl_abs A c j) = (cl_abs A c)(k := x)"
    by (auto simp: fun_eq_iff cl_abs_def)
  moreover have "yields (cl_inv I) (cl_abs A) (on_shard (shard_of c k) op) ?c r
      (\<lambda>j. if shard_of ?c j = shard_of c k then ((A (c_shards c ! shard_of c k))(k := x)) j else cl_abs A ?c j)"
    by (rule on_shard_yields [where ks = "(A (c_shards c ! shard_of c k))(k := x)"])
      (use assms shard_of_less [OF assms(1), of k] in \<open>simp_all add: cl_record(1,4) [OF assms(1)]\<close>)
  ultimately show ?thesis
    by (simp add: routed_def yields_def Let_def cl_record(3) [OF assms(1)] cl_record(2) [OF assms(1)] cong: if_cong)
qed

lemma routed_same:
  assumes "cl_inv I c" and "yields I A op (c_shards c ! shard_of c k) r (A (c_shards c ! shard_of c k))"
  shows "yields (cl_inv I) (cl_abs A) (routed k op) c r (cl_abs A c)"
proof -
  have "(cl_abs A c)(k := A (c_shards c ! shard_of c k) k) = cl_abs A c" by (auto simp: fun_eq_iff cl_abs_def)
  then show ?thesis using routed_yields [OF assms(1), of A op k r "A (c_shards c ! shard_of c k) k"] assms(2) by simp
qed

section \<open>Several keys\<close>

lemma entry_push_map:
  "map_of (entry_push g i x) j =
     (if j = i then Some ((case map_of g i of Some xs \<Rightarrow> xs | None \<Rightarrow> []) @ [x]) else map_of g j)"
  "distinct (map fst g) \<Longrightarrow> distinct (map fst (entry_push g i x))"
proof -
  let ?v = "(case map_of g i of Some xs \<Rightarrow> xs | None \<Rightarrow> []) @ [x]"
  obtain g' old where g': "hm_insert g i ?v = (g', old)" by fastforce
  show "map_of (entry_push g i x) j = (if j = i then Some ?v else map_of g j)"
    using hm_insert_map [OF g'] by (simp add: entry_push_def g')
  show "distinct (map fst g) \<Longrightarrow> distinct (map fst (entry_push g i x))"
    using hm_insert_distinct [OF g'] by (simp add: entry_push_def g')
qed

text \<open>The groups are the parts of the request by shard, in order.\<close>

definition part_of :: "('a \<Rightarrow> nat) \<Rightarrow> 'a list \<Rightarrow> nat \<Rightarrow> 'a list option" where
  "part_of route xs i = (let l = filter (\<lambda>x. route x = i) xs in if l = [] then None else Some l)"

lemma part_of_Some:
  assumes "map_of gs = part_of route xs" and "distinct (map fst gs)" and "(i, l) \<in> set gs"
  shows "l = filter (\<lambda>x. route x = i) xs" and "l \<noteq> []"
  using map_of_is_SomeI [OF assms(2,3)] by (auto simp: assms(1) part_of_def Let_def split: if_splits)

lemma group_keys_spec:
  assumes "group_keys kf xs (g, sm) = (g', sm')" and "distinct (map fst g)" and "\<And>k. get_key_shard sm (utf8_lossy k) = route k"
    and "map_of g = part_of (\<lambda>x. route (kf x)) ys" and "sm_wf n sm"
  shows "distinct (map fst g') \<and> map_of g' = part_of (\<lambda>x. route (kf x)) (ys @ xs) \<and>
    (\<forall>k. get_key_shard sm' k = get_key_shard sm k) \<and> sm_wf n sm'"
  using assms
proof (induction xs arbitrary: g sm ys)
  case (Cons x xs)
  let ?sm = "record_operation (utf8_lossy (kf x)) sm" and ?g = "entry_push g (route (kf x)) x"
  have "map_of ?g = part_of (\<lambda>x. route (kf x)) (ys @ [x])"
    by (rule ext) (simp add: entry_push_map Cons.prems(4) part_of_def Let_def)
  then show ?case
    using Cons.IH [of ?g ?sm "ys @ [x]"] Cons.prems by (simp add: entry_push_map(2) sm_wf_counters)
qed simp

lemma cl_counted [simp]:
  "cl_inv I (count_groups g c) \<longleftrightarrow> cl_inv I c" "cl_abs A (count_groups g c) = cl_abs A c"
  by (simp_all add: count_groups_def record_cross_shard_operation_def cl_inv_def cl_abs_def shard_of_def fun_eq_iff)

lemma map_of_filter_all: "(\<And>v. (k, v) \<in> set xs \<Longrightarrow> P (k, v)) \<Longrightarrow> map_of (filter P xs) k = map_of xs k"
  by (induction xs) auto

lemma shard_of_update [simp]: "shard_of (c\<lparr>c_shards := ss\<rparr>) = shard_of c"
  by (simp add: shard_of_def fun_eq_iff)

lemma length_put_results [simp]: "length (put_results items rs res) = length res"
proof -
  have "length (foldl (\<lambda>results ((i, _), r). results[i := r]) res zs) = length res" for zs :: "((nat \<times> bytes) \<times> zvalue option) list"
    by (induction zs arbitrary: res) auto
  then show ?thesis by (simp add: put_results_def)
qed

lemma put_results_nth:
  assumes "length rs = length items" and "distinct (map fst items)" and "\<forall>(i, k)\<in>set items. i < length res"
  shows "put_results items rs res ! j = (case map_of (zip (map fst items) rs) j of Some r \<Rightarrow> r | None \<Rightarrow> res ! j)"
  using assms
proof (induction rs items arbitrary: res rule: list_induct2)
  case (Cons r rs it items)
  obtain i k where it: "it = (i, k)" by (cases it)
  have "i \<notin> fst ` set items" using Cons.prems(1) by (simp add: it)
  then have "map_of (zip (map fst items) rs) i = None" using Cons.hyps by (simp add: map_of_zip_is_None)
  moreover have "put_results (it # items) (r # rs) res = put_results items rs (res[i := r])" by (simp add: put_results_def it)
  ultimately show ?case using Cons.IH [of "res[i := r]"] Cons.prems it
    by (auto simp: nth_list_update split: option.split)
qed (simp add: put_results_def)

lemma put_results_items:
  assumes "length rs = length items" and "distinct (map fst items)" and "\<forall>(i, k)\<in>set items. i < length res" and "m < length items"
  shows "put_results items rs res ! fst (items ! m) = rs ! m"
proof -
  have "map_of (zip (map fst items) rs) (map fst items ! m) = Some (rs ! m)"
    using assms(1,2,4) by (intro map_of_zip_nth) simp_all
  then show ?thesis using assms(4) by (simp add: put_results_nth [OF assms(1-3)])
qed

lemma put_results_other:
  assumes "length rs = length items" and "distinct (map fst items)" and "\<forall>(i, k)\<in>set items. i < length res" and "j \<notin> fst ` set items"
  shows "put_results items rs res ! j = res ! j"
proof -
  have "map_of (zip (map fst items) rs) j = None" using assms(1,4) by (simp add: map_of_zip_is_None)
  then show ?thesis by (simp add: put_results_nth [OF assms(1-3)])
qed

context kv_core
begin

lemma mset_groups_run:
  assumes "cl_inv inv c" and "distinct (map fst gs)"
    and "\<forall>(i, l)\<in>set gs. i < length (c_shards c) \<and> (\<forall>(k, v)\<in>set l. shard_of c k = i \<and> ok v \<and> value_wf v)"
  shows "yields (cl_inv inv) (cl_abs abs) (mset_groups st gs) c (Inr ())
    (\<lambda>k. case map_of gs (shard_of c k) of None \<Rightarrow> cl_abs abs c k
       | Some l \<Rightarrow> (cl_abs abs c ++ map_of (rev (map (map_prod id content_of) l))) k)"
  using assms
proof (induction gs arbitrary: c)
  case (Cons g gs)
  obtain i l where g: "g = (i, l)" by (cases g)
  let ?s = "c_shards c ! i" and ?M = "map_of (rev (map (map_prod id content_of) l))"
  have i: "i < length (c_shards c)" and l: "\<forall>v\<in>snd ` set l. ok v \<and> value_wf v" using Cons.prems(3) by (auto simp: g)
  have "inv ?s" using Cons.prems(1) i by (simp add: cl_inv_def)
  from mset_law [OF this l] obtain s' where s': "st_mset st l ?s = Some (s', Inr ())" "inv s'" "abs s' = abs ?s ++ ?M"
    by (auto simp: yields_def)
  let ?c = "c\<lparr>c_shards := (c_shards c)[i := s']\<rparr>"
  have c1: "cl_inv inv ?c" "cl_abs abs ?c = (\<lambda>k. if shard_of c k = i then (cl_abs abs c ++ ?M) k else cl_abs abs c k)"
  proof -
    have "(abs ?s ++ ?M) k = (cl_abs abs c ++ ?M) k" if "shard_of c k = i" for k using that
      by (auto simp: map_add_def cl_abs_def split: option.split)
    then show "cl_abs abs ?c = (\<lambda>k. if shard_of c k = i then (cl_abs abs c ++ ?M) k else cl_abs abs c k)"
      using cl_update(2) [OF Cons.prems(1) i s'(2), of abs] by (auto simp: fun_eq_iff s'(3))
  qed (rule cl_update(1) [OF Cons.prems(1) i s'(2)])
  have "mset_groups st (g # gs) c = mset_groups st gs ?c" using i s'(1) by (simp add: g ebind_def on_shard_def)
  moreover have "yields (cl_inv inv) (cl_abs abs) (mset_groups st gs) ?c (Inr ())
    (\<lambda>k. case map_of gs (shard_of c k) of None \<Rightarrow> cl_abs abs ?c k
       | Some l \<Rightarrow> (cl_abs abs ?c ++ map_of (rev (map (map_prod id content_of) l))) k)"
    using Cons.IH [OF c1(1)] Cons.prems(2,3) by simp
  moreover have "map_of gs i = None" using Cons.prems(2) by (simp add: g map_of_eq_None_iff)
  then have "(case map_of gs (shard_of c k) of None \<Rightarrow> cl_abs abs ?c k
       | Some l \<Rightarrow> (cl_abs abs ?c ++ map_of (rev (map (map_prod id content_of) l))) k) =
     (case map_of (g # gs) (shard_of c k) of None \<Rightarrow> cl_abs abs c k
       | Some l \<Rightarrow> (cl_abs abs c ++ map_of (rev (map (map_prod id content_of) l))) k)" for k
    by (auto simp: g c1(2) map_add_def split: option.split)
  ultimately show ?case by (simp add: yields_def)
qed (simp add: yields_def eok_apply)

lemma cl_mset_law:
  assumes "cl_inv inv c" and "\<forall>v\<in>snd ` set kvs. ok v \<and> value_wf v"
  shows "yields (cl_inv inv) (cl_abs abs) (cl_mset st \<sigma> kvs) c (Inr ())
    (cl_abs abs c ++ map_of (rev (map (map_prod id content_of) kvs)))"
proof (cases "kvs = []")
  case False
  obtain g sm where g: "group_keys fst kvs ([], c_slots c) = (g, sm)" by fastforce
  have "map_of [] = part_of (\<lambda>x. shard_of c (fst x)) []" by (simp add: part_of_def fun_eq_iff)
  with group_keys_spec [OF g, of "shard_of c" "[]" "length (c_shards c)"] assms(1)
  have s: "distinct (map fst g)" "map_of g = part_of (\<lambda>x. shard_of c (fst x)) kvs" "\<And>k. get_key_shard sm k = get_key_shard (c_slots c) k"
    "sm_wf (length (c_shards c)) sm" by (auto simp: shard_of_def cl_inv_def)
  let ?c = "c\<lparr>c_slots := sm\<rparr>" and ?gs = "hm_iter \<sigma> g"
  have c: "cl_inv inv ?c" "cl_abs abs ?c = cl_abs abs c" "shard_of ?c = shard_of c" "c_shards ?c = c_shards c"
    using cl_slots [OF assms(1) s(4,3), of ?c] by simp_all
  have gs: "map_of ?gs = map_of g" "distinct (map fst ?gs)" using s(1) by (simp_all add: hm_iter_map_of hm_iter_facts)
  have "\<forall>(i, l)\<in>set ?gs. i < length (c_shards c) \<and> (\<forall>(k, v)\<in>set l. shard_of c k = i \<and> ok v \<and> value_wf v)"
  proof (intro ballI, clarify)
    fix i l
    assume "(i, l) \<in> set ?gs"
    with gs s(2) have l: "l = filter (\<lambda>x. shard_of c (fst x) = i) kvs" "l \<noteq> []" using part_of_Some [of ?gs] by auto
    then obtain x where "x \<in> set kvs" "shard_of c (fst x) = i" by (auto simp: filter_empty_conv)
    then have "i < length (c_shards c)" using shard_of_less [OF assms(1)] by blast
    then show "i < length (c_shards c) \<and> (\<forall>(k, v)\<in>set l. shard_of c k = i \<and> ok v \<and> value_wf v)"
      using l(1) assms(2) by auto
  qed
  with mset_groups_run [OF c(1) gs(2)] c
  have run: "yields (cl_inv inv) (cl_abs abs) (mset_groups st ?gs) ?c (Inr ())
    (\<lambda>k. case part_of (\<lambda>x. shard_of c (fst x)) kvs (shard_of c k) of None \<Rightarrow> cl_abs abs c k
       | Some l \<Rightarrow> (cl_abs abs c ++ map_of (rev (map (map_prod id content_of) l))) k)"
    by (simp add: gs(1) s(2) cong: option.case_cong)
  have all: "map_of (rev (map (map_prod id content_of) (filter (\<lambda>x. shard_of c (fst x) = shard_of c k) kvs))) k =
      map_of (rev (map (map_prod id content_of) kvs)) k" for k
    using map_of_filter_all [of k "rev (map (map_prod id content_of) kvs)" "\<lambda>x. shard_of c (fst x) = shard_of c k"]
    by (simp add: rev_filter [symmetric] filter_map comp_def rev_map [symmetric])
  have "(case part_of (\<lambda>x. shard_of c (fst x)) kvs (shard_of c k) of None \<Rightarrow> cl_abs abs c k
       | Some l \<Rightarrow> (cl_abs abs c ++ map_of (rev (map (map_prod id content_of) l))) k) =
     (cl_abs abs c ++ map_of (rev (map (map_prod id content_of) kvs))) k" for k
    using all [of k] by (cases "filter (\<lambda>x. shard_of c (fst x) = shard_of c k) kvs = []") (simp_all add: part_of_def map_add_def)
  with run False show ?thesis by (auto simp: cl_mset_def g yields_def ebind_def)
qed (use assms in \<open>simp add: cl_mset_def yields_def\<close>)

lemma mget_groups_run:
  assumes "cl_inv inv c" and "distinct (map fst gs)" and "length res = length keys"
    and "\<forall>(i, l)\<in>set gs. i < length (c_shards c) \<and> distinct (map fst l) \<and>
      (\<forall>(j, k)\<in>set l. j < length keys \<and> keys ! j = k \<and> shard_of c k = i)"
  shows "\<exists>res'. yields (cl_inv inv) (cl_abs abs) (mget_groups st gs res) c (Inr res') (cl_abs abs c) \<and> length res' = length keys \<and>
    (\<forall>j. (\<forall>(i, l)\<in>set gs. j \<notin> fst ` set l) \<longrightarrow> res' ! j = res ! j) \<and>
    (\<forall>(i, l)\<in>set gs. \<forall>(j, k)\<in>set l. map_option content_of (res' ! j) = cl_abs abs c k \<and> pred_option value_wf (res' ! j))"
  using assms
proof (induction gs arbitrary: c res)
  case Nil
  then show ?case by (intro exI [of _ res]) (simp add: yields_def eok_apply)
next
  case (Cons g gs)
  obtain i l where g: "g = (i, l)" by (cases g)
  let ?s = "c_shards c ! i"
  have i: "i < length (c_shards c)" and l: "distinct (map fst l)" "\<forall>(j, k)\<in>set l. j < length res"
    and lk: "\<forall>(j, k)\<in>set l. keys ! j = k \<and> shard_of c k = i"
    using Cons.prems(3,4) by (auto simp: g)
  have "inv ?s" using Cons.prems(1) i by (simp add: cl_inv_def)
  from mget_law [OF this, of "map snd l"] obtain s' rs where rs: "st_mget st (map snd l) ?s = Some (s', Inr rs)" "inv s'" "abs s' = abs ?s"
    "map (map_option content_of) rs = map (abs ?s) (map snd l)" "list_all (pred_option value_wf) rs"
    by (auto simp: yields_def)
  let ?c = "c\<lparr>c_shards := (c_shards c)[i := s']\<rparr>" and ?res = "put_results l rs res"
  have len: "length rs = length l" using rs(4) by (metis length_map)
  note c1 = cl_update(1) [OF Cons.prems(1) i rs(2)] cl_update_same [where A = abs, OF Cons.prems(1) i rs(2,3)]
  have run: "mget_groups st (g # gs) res c = mget_groups st gs ?res ?c" using i rs(1) by (simp add: g ebind_def on_shard_def)
  have pre: "distinct (map fst gs)" "length ?res = length keys"
    "\<forall>(i, l)\<in>set gs. i < length (c_shards ?c) \<and> distinct (map fst l) \<and>
      (\<forall>(j, k)\<in>set l. j < length keys \<and> keys ! j = k \<and> shard_of ?c k = i)"
    using Cons.prems(2-4) by simp_all
  from Cons.IH [OF c1(1) pre, unfolded c1(2)] obtain res' where res': "yields (cl_inv inv) (cl_abs abs) (mget_groups st gs ?res) ?c (Inr res') (cl_abs abs c)" "length res' = length keys"
    "\<forall>j. (\<forall>(i, l)\<in>set gs. j \<notin> fst ` set l) \<longrightarrow> res' ! j = ?res ! j"
    "\<forall>(i, l)\<in>set gs. \<forall>(j, k)\<in>set l. map_option content_of (res' ! j) = cl_abs abs c k \<and> pred_option value_wf (res' ! j)"
    by blast
  have "map_option content_of (res' ! j) = cl_abs abs c k \<and> pred_option value_wf (res' ! j)" if jk: "(j, k) \<in> set l" for j k
  proof -
    obtain m where m: "m < length l" "l ! m = (j, k)" using jk by (auto simp: in_set_conv_nth)
    have "j \<notin> fst ` set l'" if "(i', l') \<in> set gs" for i' l'
    proof
      assume "j \<in> fst ` set l'"
      then have "i' = i" using Cons.prems(4) lk \<open>(j, k) \<in> set l\<close> \<open>(i', l') \<in> set gs\<close> by fastforce
      moreover have "i \<notin> fst ` set gs" using Cons.prems(2) by (simp add: g)
      ultimately show False using \<open>(i', l') \<in> set gs\<close> by force
    qed
    then have "res' ! j = ?res ! j" by (intro res'(3) [rule_format]) blast
    then have e: "res' ! j = rs ! m" using put_results_items [OF len l, of m] m by simp
    have "map_option content_of (rs ! m) = abs ?s k"
      using rs(4) m len by (metis length_map nth_map snd_conv)
    moreover have "pred_option value_wf (rs ! m)" using rs(5) m(1) len by (simp add: list_all_length)
    moreover have "cl_abs abs c k = abs ?s k" using lk that by (auto simp: cl_abs_def)
    ultimately show ?thesis by (simp add: e)
  qed
  moreover have "res' ! j = res ! j" if "\<forall>(i, l)\<in>set (g # gs). j \<notin> fst ` set l" for j
    using that res'(3) put_results_other [OF len l, of j] by (auto simp: g)
  moreover have "yields (cl_inv inv) (cl_abs abs) (mget_groups st (g # gs) res) c (Inr res') (cl_abs abs c)"
    using res'(1) unfolding yields_def run .
  ultimately show ?case using res'(2,4) by (intro exI [of _ res']) (auto simp: g)
qed

lemma cl_mget_law:
  assumes "cl_inv inv c"
  shows "\<exists>vs. yields (cl_inv inv) (cl_abs abs) (cl_mget st \<tau> keys) c (Inr vs) (cl_abs abs c) \<and>
    map (map_option content_of) vs = map (cl_abs abs c) keys \<and> list_all (pred_option value_wf) vs"
proof (cases "keys = []")
  case False
  let ?items = "enumerate 0 keys"
  obtain g sm where g: "group_keys snd ?items ([], c_slots c) = (g, sm)" by fastforce
  have "map_of [] = part_of (\<lambda>x. shard_of c (snd x)) []" by (simp add: part_of_def fun_eq_iff)
  with group_keys_spec [OF g, of "shard_of c" "[]" "length (c_shards c)"] assms(1)
  have s: "distinct (map fst g)" "map_of g = part_of (\<lambda>x. shard_of c (snd x)) ?items" "\<And>k. get_key_shard sm k = get_key_shard (c_slots c) k"
    "sm_wf (length (c_shards c)) sm" by (auto simp: shard_of_def cl_inv_def)
  let ?c = "c\<lparr>c_slots := sm\<rparr>" and ?gs = "hm_iter \<tau> g"
  have c: "cl_inv inv ?c" "cl_abs abs ?c = cl_abs abs c" "shard_of ?c = shard_of c" "c_shards ?c = c_shards c"
    using cl_slots [OF assms(1) s(4,3), of ?c] by simp_all
  have gs: "map_of ?gs = part_of (\<lambda>x. shard_of c (snd x)) ?items" "distinct (map fst ?gs)"
    using s(1,2) by (simp_all add: hm_iter_map_of hm_iter_facts)
  have items: "j < length keys \<and> keys ! j = k" if "(j, k) \<in> set ?items" for j k
    using that by (auto simp: in_set_enumerate_eq)
  have "\<forall>(i, l)\<in>set ?gs. i < length (c_shards c) \<and> distinct (map fst l) \<and>
      (\<forall>(j, k)\<in>set l. j < length keys \<and> keys ! j = k \<and> shard_of c k = i)"
  proof (intro ballI, clarify)
    fix i l
    assume "(i, l) \<in> set ?gs"
    note l = part_of_Some [OF gs this]
    obtain j k where "(j, k) \<in> set l" using l(2) by (metis list.set_intros(1) neq_Nil_conv surj_pair)
    then have "i < length (c_shards c)" using l(1) shard_of_less [OF assms(1)] by auto
    moreover have "distinct (map fst l)" using l(1) by (simp add: distinct_map_filter)
    ultimately show "i < length (c_shards c) \<and> distinct (map fst l) \<and> (\<forall>(j, k)\<in>set l. j < length keys \<and> keys ! j = k \<and> shard_of c k = i)"
      using l(1) items by auto
  qed
  with mget_groups_run [OF c(1) gs(2), of "replicate (length keys) None" keys] c
  obtain vs where vs: "yields (cl_inv inv) (cl_abs abs) (mget_groups st ?gs (replicate (length keys) None)) ?c (Inr vs) (cl_abs abs c)"
    "length vs = length keys"
    "\<And>i l j k. (i, l) \<in> set ?gs \<Longrightarrow> (j, k) \<in> set l \<Longrightarrow> map_option content_of (vs ! j) = cl_abs abs c k \<and> pred_option value_wf (vs ! j)"
    by (auto simp del: enumerate_simps) fastforce
  have "map_option content_of (vs ! j) = cl_abs abs c (keys ! j) \<and> pred_option value_wf (vs ! j)" if "j < length keys" for j
  proof -
    let ?i = "shard_of c (keys ! j)"
    have j: "(j, keys ! j) \<in> set ?items" using that by (simp add: in_set_enumerate_eq)
    then have "map_of ?gs ?i = Some (filter (\<lambda>x. shard_of c (snd x) = ?i) ?items)"
      by (force simp: gs(1) part_of_def Let_def filter_empty_conv)
    then show ?thesis using vs(3) [OF map_of_SomeD, of ?i _ j "keys ! j"] j by simp
  qed
  then have "map (map_option content_of) vs = map (cl_abs abs c) keys \<and> list_all (pred_option value_wf) vs"
    using vs(2) by (auto simp: list_all_length intro: nth_equalityI)
  with vs(1) False show ?thesis by (intro exI [of _ vs]) (auto simp: cl_mget_def g yields_def ebind_def)
qed (use assms in \<open>simp add: cl_mget_def yields_def\<close>)

lemma flush_shards_run:
  "cl_inv inv c \<Longrightarrow> \<forall>i\<in>set is. i < length (c_shards c) \<Longrightarrow>
   \<exists>c'. flush_shards st is c = Some (c', Inr ()) \<and> cl_inv inv c' \<and> shard_of c' = shard_of c \<and>
     cl_abs abs c' = (\<lambda>k. if shard_of c k \<in> set is then None else cl_abs abs c k)"
proof (induction "is" arbitrary: c)
  case (Cons i "is")
  have "inv (c_shards c ! i)" using Cons.prems by (simp add: cl_inv_def)
  from flush_law [OF this] obtain s' where s': "st_flushdb st (c_shards c ! i) = Some (s', Inr ())" "inv s'" "abs s' = Map.empty"
    by (auto simp: yields_def)
  let ?c = "c\<lparr>c_shards := (c_shards c)[i := s']\<rparr>"
  have i: "i < length (c_shards c)" using Cons.prems(2) by simp
  note u = cl_update [OF Cons.prems(1) i s'(2)]
  obtain c' where "flush_shards st is ?c = Some (c', Inr ())" "cl_inv inv c'" "shard_of c' = shard_of c"
    "cl_abs abs c' = (\<lambda>k. if shard_of c k \<in> set is then None else cl_abs abs ?c k)"
    using Cons.IH [OF u(1)] Cons.prems(2) by auto
  then show ?case using i s'(1,3) u(2) [of abs] by (auto simp: ebind_def on_shard_def fun_eq_iff)
qed (simp add: eok_apply)

lemma cl_flush_law:
  assumes "cl_inv inv c"
  shows "yields (cl_inv inv) (cl_abs abs) (cl_flushdb st now) c (Inr ()) Map.empty"
proof -
  obtain c' where c': "flush_shards st [0..<length (c_shards c)] c = Some (c', Inr ())" "cl_inv inv c'" "shard_of c' = shard_of c"
    "cl_abs abs c' = (\<lambda>k. if shard_of c k < length (c_shards c) then None else cl_abs abs c k)"
    using flush_shards_run [OF assms, of "[0..<length (c_shards c)]"] by auto
  have "cl_abs abs c' = Map.empty" using c'(4) shard_of_less [OF assms] by (simp add: fun_eq_iff)
  moreover have "sm_wf (length (c_shards c')) (reset_metrics now (c_slots c'))" using c'(2) by (simp add: cl_inv_def sm_wf_counters)
  note cl_slots [OF c'(2) this, of "c'\<lparr>c_slots := reset_metrics now (c_slots c')\<rparr>"]
  ultimately show ?thesis by (simp add: cl_flushdb_def yields_def ebind_def c'(1))
qed

end

section \<open>Single keys\<close>

context set_core
begin

lemma cl_set_law:
  assumes "cl_inv inv c" and "ok v" and "value_wf v"
  shows "yields (cl_inv inv) (cl_abs abs) (routed k (st_set st k v)) c (Inr ()) ((cl_abs abs c)(k \<mapsto> content_of v))"
  by (rule routed_yields [OF assms(1) set_law [OF cl_inv_shard [OF assms(1)] assms(2,3)]])

lemma cl_get_law:
  assumes "cl_inv inv c"
  shows "\<exists>vo. yields (cl_inv inv) (cl_abs abs) (routed k (st_get st k)) c (Inr vo) (cl_abs abs c) \<and>
    map_option content_of vo = cl_abs abs c k \<and> pred_option value_wf vo"
proof -
  obtain vo where vo: "yields inv abs (st_get st k) (c_shards c ! shard_of c k) (Inr vo) (abs (c_shards c ! shard_of c k))"
    "map_option content_of vo = cl_abs abs c k" "pred_option value_wf vo"
    using get_law [OF cl_inv_shard [OF assms], of k k] by (auto simp: cl_abs_def)
  with routed_same [OF assms vo(1)] show ?thesis by blast
qed

lemma cl_del_law:
  assumes "cl_inv inv c"
  shows "yields (cl_inv inv) (cl_abs abs) (routed k (st_del st k)) c (Inr (cl_abs abs c k \<noteq> None)) ((cl_abs abs c)(k := None))"
  using routed_yields [OF assms del_law [OF cl_inv_shard [OF assms]]] by (simp add: cl_abs_def)

lemma cl_sadd_law:
  assumes "cl_inv inv c"
  shows "case cl_abs abs c k of
      None \<Rightarrow> yields (cl_inv inv) (cl_abs abs) (routed k (st_sadd st k ms)) c (Inr (card (set ms))) ((cl_abs abs c)(k \<mapsto> CSet (set ms)))
    | Some (CSet S) \<Rightarrow> yields (cl_inv inv) (cl_abs abs) (routed k (st_sadd st k ms)) c (Inr (card (set ms - S)))
        ((cl_abs abs c)(k \<mapsto> CSet (S \<union> set ms)))
    | Some _ \<Rightarrow> \<exists>msg. yields (cl_inv inv) (cl_abs abs) (routed k (st_sadd st k ms)) c (Inl (WrongType msg)) (cl_abs abs c)"
  using sadd_law [OF cl_inv_shard [OF assms, of k], of k ms] unfolding cl_abs_def [of abs c k, symmetric]
  by (auto intro: routed_yields [OF assms] routed_same [OF assms] split: option.splits content.splits split del: if_split)

lemma cl_srem_law:
  assumes "cl_inv inv c"
  shows "case cl_abs abs c k of
      None \<Rightarrow> yields (cl_inv inv) (cl_abs abs) (routed k (st_srem st k ms)) c (Inr 0) (cl_abs abs c)
    | Some (CSet S) \<Rightarrow> yields (cl_inv inv) (cl_abs abs) (routed k (st_srem st k ms)) c (Inr (card (set ms \<inter> S)))
        ((cl_abs abs c)(k := if S \<subseteq> set ms then None else Some (CSet (S - set ms))))
    | Some _ \<Rightarrow> \<exists>msg. yields (cl_inv inv) (cl_abs abs) (routed k (st_srem st k ms)) c (Inl (WrongType msg)) (cl_abs abs c)"
  using srem_law [OF cl_inv_shard [OF assms, of k], of k ms] unfolding cl_abs_def [of abs c k, symmetric]
  by (auto intro: routed_yields [OF assms] routed_same [OF assms] split: option.splits content.splits split del: if_split)

lemma cl_smembers_law:
  assumes "cl_inv inv c"
  shows "case cl_abs abs c k of
      None \<Rightarrow> yields (cl_inv inv) (cl_abs abs) (routed k (st_smembers st k)) c (Inr []) (cl_abs abs c)
    | Some (CSet S) \<Rightarrow> \<exists>xs. yields (cl_inv inv) (cl_abs abs) (routed k (st_smembers st k)) c (Inr xs) (cl_abs abs c) \<and>
        distinct xs \<and> set xs = S
    | Some _ \<Rightarrow> \<exists>msg. yields (cl_inv inv) (cl_abs abs) (routed k (st_smembers st k)) c (Inl (WrongType msg)) (cl_abs abs c)"
  using smembers_law [OF cl_inv_shard [OF assms, of k], of k] unfolding cl_abs_def [of abs c k, symmetric]
  by (auto intro: routed_yields [OF assms] routed_same [OF assms] split: option.splits content.splits split del: if_split)

lemma cl_scard_law:
  assumes "cl_inv inv c"
  shows "case cl_abs abs c k of
      None \<Rightarrow> yields (cl_inv inv) (cl_abs abs) (routed k (st_scard st k)) c (Inr 0) (cl_abs abs c)
    | Some (CSet S) \<Rightarrow> yields (cl_inv inv) (cl_abs abs) (routed k (st_scard st k)) c (Inr (card S)) (cl_abs abs c)
    | Some _ \<Rightarrow> \<exists>msg. yields (cl_inv inv) (cl_abs abs) (routed k (st_scard st k)) c (Inl (WrongType msg)) (cl_abs abs c)"
  using scard_law [OF cl_inv_shard [OF assms, of k], of k] unfolding cl_abs_def [of abs c k, symmetric]
  by (auto intro: routed_yields [OF assms] routed_same [OF assms] split: option.splits content.splits split del: if_split)

lemma cl_sismember_law:
  assumes "cl_inv inv c"
  shows "case cl_abs abs c k of
      None \<Rightarrow> yields (cl_inv inv) (cl_abs abs) (routed k (st_sismember st k x)) c (Inr False) (cl_abs abs c)
    | Some (CSet S) \<Rightarrow> yields (cl_inv inv) (cl_abs abs) (routed k (st_sismember st k x)) c (Inr (x \<in> S)) (cl_abs abs c)
    | Some _ \<Rightarrow> \<exists>msg. yields (cl_inv inv) (cl_abs abs) (routed k (st_sismember st k x)) c (Inl (WrongType msg)) (cl_abs abs c)"
  using sismember_law [OF cl_inv_shard [OF assms, of k], of k x] unfolding cl_abs_def [of abs c k, symmetric]
  by (auto intro: routed_yields [OF assms] routed_same [OF assms] split: option.splits content.splits split del: if_split)

lemma cl_srandmember_law:
  assumes "cl_inv inv c"
  shows "case cl_abs abs c k of
      None \<Rightarrow> yields (cl_inv inv) (cl_abs abs) (routed k (st_srandmember st k n)) c (Inr []) (cl_abs abs c)
    | Some (CSet S) \<Rightarrow> \<exists>xs. yields (cl_inv inv) (cl_abs abs) (routed k (st_srandmember st k n)) c (Inr xs) (cl_abs abs c) \<and>
        distinct xs \<and> set xs \<subseteq> S \<and> length xs = min (nat n) (card S)
    | Some _ \<Rightarrow> \<exists>msg. yields (cl_inv inv) (cl_abs abs) (routed k (st_srandmember st k n)) c (Inl (WrongType msg)) (cl_abs abs c)"
  using srandmember_law [OF cl_inv_shard [OF assms, of k], of k n] unfolding cl_abs_def [of abs c k, symmetric]
  by (auto intro: routed_yields [OF assms] routed_same [OF assms] split: option.splits content.splits split del: if_split)

lemma cl_spop_law:
  assumes "cl_inv inv c"
  shows "case cl_abs abs c k of
      None \<Rightarrow> yields (cl_inv inv) (cl_abs abs) (routed k (st_spop st k n)) c (Inr []) (cl_abs abs c)
    | Some (CSet S) \<Rightarrow> \<exists>xs. yields (cl_inv inv) (cl_abs abs) (routed k (st_spop st k n)) c (Inr xs)
        ((cl_abs abs c)(k := if S \<subseteq> set xs then None else Some (CSet (S - set xs)))) \<and>
        distinct xs \<and> set xs \<subseteq> S \<and> length xs = min (pop_count n) (card S)
    | Some _ \<Rightarrow> \<exists>msg. yields (cl_inv inv) (cl_abs abs) (routed k (st_spop st k n)) c (Inl (WrongType msg)) (cl_abs abs c)"
  using spop_law [OF cl_inv_shard [OF assms, of k], of k n] unfolding cl_abs_def [of abs c k, symmetric]
  by (auto intro: routed_yields [OF assms] routed_same [OF assms] split: option.splits content.splits split del: if_split)

end

section \<open>A cluster is an engine\<close>

locale cluster_engine = total_core st inv abs ok
  for st :: "'s storage" and inv and abs and ok +
  fixes \<sigma> :: "(nat, (bytes \<times> zvalue) list) order"
    and \<tau> :: "(nat, (nat \<times> bytes) list) order"
    and now :: nat

sublocale cluster_engine \<subseteq> cl: total_core "cluster_storage st \<sigma> \<tau> now" "cl_inv inv" "cl_abs abs" ok
  by unfold_locales
    (simp_all only: cluster_storage_def storage.simps ok_all simp_thms
      cl_set_law cl_get_law cl_del_law cl_mset_law cl_mget_law cl_flush_law
      cl_sadd_law cl_srem_law cl_smembers_law cl_scard_law cl_sismember_law cl_srandmember_law cl_spop_law)

section \<open>Clients and the background thread\<close>

text \<open>What happens to a cluster, in order: a client's command, or a round of the background thread. A round that
  panics ends the thread and leaves the cluster as it was.\<close>

datatype cluster_event = Client cenv command | Round "(nat, u64) order" nat

fun cluster_run :: "'f load_ops \<Rightarrow> 's cluster storage \<Rightarrow> cluster_event list \<Rightarrow> nat \<times> 's cluster \<Rightarrow>
    ((nat \<times> 's cluster) \<times> zvalue store_result list) panics" where
  "cluster_run fl st [] w = Some (w, [])"
| "cluster_run fl st (Client e c # evs) (t, cl) =
     (case execute e st c cl of
        None \<Rightarrow> None
      | Some (cl, r) \<Rightarrow> map_option (\<lambda>(w, rs). (w, r # rs)) (cluster_run fl st evs (t, cl)))"
| "cluster_run fl st (Round \<sigma> now # evs) (t, cl) =
     (case rebalancer_round fl \<sigma> now (t, c_slots cl) of
        None \<Rightarrow> cluster_run fl st evs (t, cl)
      | Some (t, sm) \<Rightarrow> cluster_run fl st evs (t, cl\<lparr>c_slots := sm\<rparr>))"

fun client_commands :: "cluster_event list \<Rightarrow> (cenv \<times> command) list" where
  "client_commands [] = []"
| "client_commands (Client e c # evs) = (e, c) # client_commands evs"
| "client_commands (Round \<sigma> now # evs) = client_commands evs"

fun event_ok :: "cluster_event \<Rightarrow> bool" where
  "event_ok (Client e c) \<longleftrightarrow> command_wf c \<and> draws_ok e \<and> by_key c"
| "event_ok (Round \<sigma> now) \<longleftrightarrow> True"

lemma round_cluster:
  assumes "cl_inv I c" and "rebalancer_round fl \<sigma> now (t, c_slots c) = Some (t', sm)"
  shows "cl_inv I (c\<lparr>c_slots := sm\<rparr>)" and "cl_abs A (c\<lparr>c_slots := sm\<rparr>) = cl_abs A c"
proof -
  have "sm_wf (length (c_shards c)) (c_slots c)" using assms(1) by (simp add: cl_inv_def)
  note r = rebalancer_round_spec [OF this assms(2)]
  have "get_key_shard sm k = get_key_shard (c_slots c) k" for k by (rule get_key_shard_cong) (rule r(2))
  from cl_slots [OF assms(1) r(1) this, of "c\<lparr>c_slots := sm\<rparr>"]
  show "cl_inv I (c\<lparr>c_slots := sm\<rparr>)" and "cl_abs A (c\<lparr>c_slots := sm\<rparr>) = cl_abs A c" by simp_all
qed

context cluster_engine
begin

abbreviation "cst \<equiv> cluster_storage st \<sigma> \<tau> now"

lemma run_refines:
  "cl_inv inv c \<Longrightarrow> \<forall>ev\<in>set evs. event_ok ev \<Longrightarrow>
   spec_session (client_commands evs) (cl_abs abs c) (view (\<lambda>(t, c). cl_abs abs c) (cluster_run fl cst evs (t, c)))"
proof (induction evs arbitrary: t c)
  case (Cons ev evs)
  show ?case
  proof (cases ev)
    case (Client e d)
    show ?thesis
    proof (cases "crashes d (cl_abs abs c)")
      case True
      then show ?thesis using cl.execute_crashes [OF Cons.prems(1), of d e] by (simp add: Client view_def)
    next
      case False
      then obtain c1 r where c1: "execute e cst d c = Some (c1, r)" "cl_inv inv c1"
        "spec e d (cl_abs abs c) (map_sum id content_of r) (cl_abs abs c1)"
        using cl.by_key_answers [OF Cons.prems(1), of d e] Cons.prems(2) by (auto simp: Client answers_def)
      have "view (\<lambda>(t, c). cl_abs abs c) (cluster_run fl cst (ev # evs) (t, c)) =
          map_option (\<lambda>(ks, rs). (ks, map_sum id content_of r # rs)) (view (\<lambda>(t, c). cl_abs abs c) (cluster_run fl cst evs (t, c1)))"
        by (cases "cluster_run fl cst evs (t, c1)") (auto simp: view_def Client c1(1))
      then show ?thesis using Cons.IH [OF c1(2), of t] Cons.prems(2) c1(3) False by (auto simp: Client)
    qed
  next
    case (Round \<rho> time)
    show ?thesis
    proof (cases "rebalancer_round fl \<rho> time (t, c_slots c)")
      case None
      then show ?thesis using Cons.IH [OF Cons.prems(1)] Cons.prems(2) by (simp add: Round)
    next
      case (Some w)
      obtain t' sm where w: "w = (t', sm)" by (cases w)
      note rc = round_cluster [OF Cons.prems(1) Some [unfolded w]]
      show ?thesis using Cons.IH [OF rc(1), of t'] Cons.prems(2) by (simp add: Round Some w rc(2))
    qed
  qed
qed (simp add: view_def)

lemma moved_key:
  assumes "cl_inv inv c" and "sm_wf (length (c_shards c)) sm"
    and "abs (c_shards c ! get_key_shard sm (utf8_lossy k)) k = None"
  shows "cl_abs abs (c\<lparr>c_slots := sm\<rparr>) k = None \<and> (\<exists>c'. st_get cst k (c\<lparr>c_slots := sm\<rparr>) = Some (c', Inr None))"
proof -
  have "cl_inv inv (c\<lparr>c_slots := sm\<rparr>)" using assms(1,2) by (simp add: cl_inv_def)
  moreover have "cl_abs abs (c\<lparr>c_slots := sm\<rparr>) k = None" using assms(3) by (simp add: cl_abs_def shard_of_def)
  ultimately show ?thesis using cl.get_law [of "c\<lparr>c_slots := sm\<rparr>" k] by (auto simp: yields_def)
qed

end

section \<open>A cluster of memory engines\<close>

locale memory_cluster = memory_engine dm \<rho> rg
  for dm :: "('d, zvalue) dash" and \<rho> and rg +
  fixes \<sigma> :: "(nat, (bytes \<times> zvalue) list) order"
    and \<tau> :: "(nat, (nat \<times> bytes) list) order"
    and now :: nat

sublocale memory_cluster \<subseteq> mc: cluster_engine "mem_storage dm \<rho> rg" "mem_inv dm" "mem_abs dm" "\<lambda>_. True" \<sigma> \<tau> now
  by unfold_locales

context memory_cluster
begin

lemmas mem_run = mc.run_refines
lemmas mem_moved = mc.moved_key

end

interpretation mc_alist: memory_cluster alist_dash \<rho> first_rng \<sigma> \<tau> now for \<rho> \<sigma> \<tau> now
  by unfold_locales

lemma memory_clusterI: "dash_ok dm \<Longrightarrow> rng_ok rg \<Longrightarrow> memory_cluster dm rg"
  by unfold_locales

text \<open>C2. On a cluster of memory engines, any sequence of commands on single keys, \<open>MSET\<close>, \<open>MGET\<close> and \<open>FLUSHDB\<close>,
  interleaved with rounds of the background thread that starts migrations, answers and changes
  the data as the specification over one plain keyspace allows: clients do not see the shards.\<close>

theorem cluster_refines_keyspace:
  assumes "dash_ok dm" and "rng_ok rg" and "cl_inv (mem_inv dm) c" and "\<forall>ev\<in>set evs. event_ok ev"
  shows "spec_session (client_commands evs) (cl_abs (mem_abs dm) c)
    (view (\<lambda>(t, c). cl_abs (mem_abs dm) c) (cluster_run fl (cluster_storage (mem_storage dm \<rho> rg) \<sigma> \<tau> now) evs (t, c)))"
  by (rule memory_cluster.mem_run [OF memory_clusterI [OF assms(1,2)] assms(3,4)])

lemma cl_inv_new: "cluster_new now ss = Some c \<Longrightarrow> \<forall>s\<in>set ss. I s \<Longrightarrow> cl_inv I c"
  by (auto simp: cluster_new_def cl_inv_def intro: sm_wf_new)

theorem cluster_refines_keyspace_witness:
  "\<exists>c. cluster_new 0 [[], []] = Some c \<and>
     spec_session [(plain_cenv, Ints (IncrCommand [1])), (plain_cenv, Strings (GetCommand [1]))] (cl_abs (mem_abs alist_dash) c)
       (view (\<lambda>(t, c). cl_abs (mem_abs alist_dash) c)
         (cluster_run percent_ops (cluster_storage (mem_storage alist_dash (\<lambda>_. []) first_rng) (\<lambda>_. []) (\<lambda>_. []) 0)
           [Client plain_cenv (Ints (IncrCommand [1])), Round (\<lambda>_. []) 20, Client plain_cenv (Strings (GetCommand [1]))] (0, c)))"
proof -
  let ?evs = "[Client plain_cenv (Ints (IncrCommand [1])), Round (\<lambda>_. []) 20, Client plain_cenv (Strings (GetCommand [1]))]"
  obtain c :: "(bytes \<times> zvalue) list cluster" where c: "cluster_new 0 [[], []] = Some c" by (simp add: cluster_new_def sm_new_def)
  have "cl_inv (mem_inv alist_dash) c" using cl_inv_new [OF c] by (simp add: mem_inv_def alist_dash_def)
  moreover have "\<forall>ev\<in>set ?evs. event_ok ev" by (simp add: plain_draws)
  ultimately show ?thesis
    using cluster_refines_keyspace [OF alist_dash_ok first_rng_ok, of c ?evs percent_ops "\<lambda>_. []" "\<lambda>_. []" "\<lambda>_. []" 0 0] c by auto
qed

text \<open>C34. Rebalancing for a hot key loses it: when \<open>execute_rebalancing\<close> reports its one migration completed, the key's slot
  is given to a shard that was never sent the data, and the cluster answers that the key is absent.\<close>

theorem rebalance_loses_hot_key:
  assumes "dash_ok dm" and "rng_ok rg" and "cl_inv (mem_inv dm) c"
    and "\<forall>i<length (c_shards c). i \<noteq> shard_of c k \<longrightarrow> mem_abs dm (c_shards c ! i) k = None"
    and "execute_rebalancing fl \<pi> time (HotKeyDetected (utf8_lossy k) n) (r, c_slots c) = Some ((r', sm), ev)"
    and "migrations_completed ev = 1"
  shows "cl_abs (mem_abs dm) (c\<lparr>c_slots := sm\<rparr>) k = None \<and>
    (\<exists>c'. st_get (cluster_storage (mem_storage dm \<rho> rg) \<sigma> \<tau> now) k (c\<lparr>c_slots := sm\<rparr>) = Some (c', Inr None))"
proof -
  have wf: "sm_wf (length (c_shards c)) (c_slots c)" using assms(3) by (simp add: cl_inv_def)
  have m: "get_key_shard sm (utf8_lossy k) \<noteq> shard_of c k" "get_key_shard sm (utf8_lossy k) < length (c_shards c)"
    using hot_key_moves [OF wf assms(5,6)] by (simp_all add: shard_of_def)
  have "sm_wf (length (c_shards c)) sm" by (rule execute_hot_key_wf [OF wf assms(5)])
  then show ?thesis
    using memory_cluster.mem_moved [OF memory_clusterI [OF assms(1,2)] assms(3)] assms(4) m by blast
qed

theorem rebalance_loses_hot_key_witness:
  "\<exists>(c :: (bytes \<times> zvalue) list cluster) r' sm ev.
     cl_abs (mem_abs alist_dash) c [97] = Some (CInt 5) \<and>
     execute_rebalancing percent_shares (\<lambda>_. []) 9 (HotKeyDetected [97] 200) (rebalancer_new 0 (default_config 150), c_slots c) =
       Some ((r', sm), ev) \<and> cl_abs (mem_abs alist_dash) (c\<lparr>c_slots := sm\<rparr>) [97] = None"
proof -
  obtain c0 :: "(bytes \<times> zvalue) list cluster" where c0: "cluster_new 0 [[], []] = Some c0" by (simp add: cluster_new_def sm_new_def)
  note inv0 = cl_inv_new [OF c0, of "mem_inv alist_dash"]
  let ?i = "shard_of c0 [97]" and ?s = "[([97], IntV 5)]"
  define c where "c = (c_record_operation [97] c0)\<lparr>c_shards := [[], []][?i := ?s]\<rparr>"
  have i: "?i < 2" using shard_of_less [of "mem_inv alist_dash" c0 "[97]"] inv0 c0
    by (auto simp: mem_inv_def alist_dash_def cluster_new_def)
  have sh: "c_shards c0 = [[], []]" using c0 by (auto simp: cluster_new_def)
  have rec: "cl_inv (mem_inv alist_dash) (c_record_operation [97] c0)" "c_shards (c_record_operation [97] c0) = [[], []]"
    "shard_of (c_record_operation [97] c0) = shard_of c0"
    using cl_record [of "mem_inv alist_dash" c0] inv0 sh by (simp_all add: mem_inv_def alist_dash_def)
  have inv: "cl_inv (mem_inv alist_dash) c" and route: "shard_of c [97] = ?i"
    using cl_update(1) [OF rec(1), of ?i ?s] i rec by (simp_all add: c_def mem_inv_def alist_dash_def)
  have lossy: "utf8_lossy [97] = [97]" by simp
  have new: "shard_ops (c_slots c0) = [0, 0] \<and> sm_shard_count (c_slots c0) = 2 \<and> active_migrations (c_slots c0) = []"
    using c0 sm_new_fields [of 0 2 "c_slots c0"] by (auto simp: cluster_new_def numeral_2_eq_2)
  have s: "c_slots c = record_operation [97] (c_slots c0)" by (simp add: c_def c_record_operation_def lossy)
  have here: "get_key_shard (c_slots c0) [97] = ?i" by (simp add: shard_of_def lossy)
  have i01: "?i = 0 \<or> ?i = 1" using i by auto
  have ops: "shard_ops (c_slots c) = [0, 0][?i := 1]" "sm_shard_count (c_slots c) = 2" "active_migrations (c_slots c) = []"
    using new i01 here by (auto simp: s record_operation_def bump_def)
  have at: "get_key_shard (c_slots c) [97] = ?i" by (simp add: s here)
  have "[0..<2] = [0, 1 :: nat]" by (simp add: upt_rec)
  then have dist: "get_load_distribution (load_ops.truncate percent_shares) (c_slots c) =
      Some [(0, if ?i = 0 then 100 else 0), (1, if ?i = 1 then 100 else 0)]"
    using i01 by (auto simp: get_load_distribution_def ops sum_u64_def percent_shares_def load_ops.truncate_def)
  have it: "hm_iter (\<lambda>_. []) (x # xs) = x # xs" for x :: "nat \<times> int" and xs
    by (simp add: hm_iter_def mset_set_empty_iff del: upt_Suc)
  have ops_at: "lo_near percent_shares = (=)" "lo_cmp percent_shares = (\<lambda>x y. Some (ord_cmp x y))"
    by (simp_all add: percent_shares_def)
  have plan: "plan_hot_key_redistribution percent_shares (\<lambda>_. []) [97] (c_slots c) = Some [(calculate_slot [97], ?i, 1 - ?i)]"
    using i01 by (auto simp: plan_hot_key_redistribution_def dist at it ops_at ord_cmp_def)
  have "length (c_shards c) = 2" by (simp add: c_def split: nat.split)
  then have wf: "sm_wf 2 (c_slots c)" using inv by (simp add: cl_inv_def)
  have "\<not> migration_active (calculate_slot [97]) (c_slots c)" by (simp add: migration_active_def ops(3))
  from hot_key_runs [OF wf plan calculate_slot_less this]
  obtain r' sm ev where e: "execute_rebalancing percent_shares (\<lambda>_. []) 9 (HotKeyDetected [97] 200) (rebalancer_new 0 (default_config 150), c_slots c) =
      Some ((r', sm), ev)" "migrations_completed ev = 1"
    by blast
  have "\<forall>j<length (c_shards c). j \<noteq> shard_of c [97] \<longrightarrow> mem_abs alist_dash (c_shards c ! j) [97] = None"
    unfolding route using i01 by (auto simp: c_def mem_abs_def alist_dash_def nth_Cons split: nat.splits)
  from rebalance_loses_hot_key [OF alist_dash_ok first_rng_ok inv this, unfolded lossy, OF e]
  have "cl_abs (mem_abs alist_dash) (c\<lparr>c_slots := sm\<rparr>) [97] = None" by blast
  moreover have "cl_abs (mem_abs alist_dash) c [97] = Some (CInt 5)"
    unfolding cl_abs_def route using i01 by (auto simp: c_def mem_abs_def alist_dash_def)
  ultimately show ?thesis using e(1) by blast
qed

end
