(* ===== verification/Acl.thy ===== *)
theory Acl
  imports Memory Commands
begin

text \<open>
  Access control lists (\<open>auth/acl.rs\<close>): the rules of a user, their syntax, and the three checks. The globs are those of
  the crate \<open>globset\<close>: compiling a pattern and building a set may fail, and by its documentation a set matches what one of
  its globs matches. The table of users is a \<open>DashMap\<close>, as in the memory engine. Texts are bytes.
\<close>

unbundle bit_operations_syntax

section \<open>Rules and users\<close>

record ('g, 'm) glob_ops =
  gl_new :: "bytes \<Rightarrow> 'g option"
  gl_build :: "'g list \<Rightarrow> 'm option"
  gl_empty :: 'm
  gl_is_match :: "'m \<Rightarrow> bytes \<Rightarrow> bool"
  gl_is_empty :: "'m \<Rightarrow> bool"
  gl_glob_match :: "'g \<Rightarrow> bytes \<Rightarrow> bool"

type_synonym categories = u32

definition READ :: categories where "READ = push_bit 0 1"
definition WRITE :: categories where "WRITE = push_bit 1 1"
definition ADMIN :: categories where "ADMIN = push_bit 2 1"

datatype acl_rule =
  On
| Off
| PasswordHash bytes
| AllowCategory categories
| DenyCategory categories
| AllowCommand nat
| DenyCommand nat
| AllowKeyPattern bytes
| DenyKeyPattern bytes
| AllowChannelPattern bytes
| DenyChannelPattern bytes
| NoPass

datatype acl_error =
  UserExists
| UserNotFound
| PermissionDenied
| AuthFailed
| InvalidAclRule bytes
| ChannelDenied
| HashingFailed
| Internal bytes

record ('g, 'm) acl_user =
  username :: bytes
  enabled :: bool
  password_hashes :: "bytes list"
  allowed_categories :: categories
  allowed_commands :: "128 word"
  denied_commands :: "128 word"
  raw_key_patterns :: "'g list"
  raw_deny_key_patterns :: "'g list"
  raw_channel_patterns :: "'g list"
  raw_deny_channel_patterns :: "'g list"
  key_patterns :: 'm
  deny_key_patterns :: 'm
  channel_patterns :: 'm
  deny_channel_patterns :: 'm

section \<open>Patterns\<close>

definition rebuild_globset :: "('g, 'm) glob_ops \<Rightarrow> 'g list \<Rightarrow> acl_error + 'm" where
  "rebuild_globset gl patterns =
     (case gl_build gl patterns of Some s \<Rightarrow> Inr s | None \<Rightarrow> Inl (InvalidAclRule (ascii ''globset build'')))"

text \<open>A method on \<open>&mut self\<close> returns the user as it left it, also with an error.\<close>

type_synonym ('g, 'm) user_op = "('g, 'm) acl_user \<Rightarrow> ('g, 'm) acl_user \<times> (acl_error + unit)"

definition rebuild_all_patterns :: "('g, 'm) glob_ops \<Rightarrow> ('g, 'm) user_op" where
  "rebuild_all_patterns gl u =
     (case rebuild_globset gl (raw_key_patterns u) of
        Inl e \<Rightarrow> (u, Inl e)
      | Inr ks \<Rightarrow> let u = u\<lparr>key_patterns := ks\<rparr> in
          (case rebuild_globset gl (raw_channel_patterns u) of
             Inl e \<Rightarrow> (u, Inl e)
           | Inr cs \<Rightarrow> (u\<lparr>channel_patterns := cs\<rparr>, Inr ())))"

definition rebuild_all_deny_patterns :: "('g, 'm) glob_ops \<Rightarrow> ('g, 'm) user_op" where
  "rebuild_all_deny_patterns gl u =
     (case rebuild_globset gl (raw_deny_key_patterns u) of
        Inl e \<Rightarrow> (u, Inl e)
      | Inr ks \<Rightarrow> let u = u\<lparr>deny_key_patterns := ks\<rparr> in
          (case rebuild_globset gl (raw_deny_channel_patterns u) of
             Inl e \<Rightarrow> (u, Inl e)
           | Inr cs \<Rightarrow> (u\<lparr>deny_channel_patterns := cs\<rparr>, Inr ())))"

definition allow_key_pattern :: "('g, 'm) glob_ops \<Rightarrow> bytes \<Rightarrow> ('g, 'm) user_op" where
  "allow_key_pattern gl pat u =
     (case gl_new gl pat of
        None \<Rightarrow> (u, Inl (InvalidAclRule pat))
      | Some g \<Rightarrow> let u = u\<lparr>raw_key_patterns := raw_key_patterns u @ [g]\<rparr> in
          (case rebuild_globset gl (raw_key_patterns u) of Inl e \<Rightarrow> (u, Inl e) | Inr s \<Rightarrow> (u\<lparr>key_patterns := s\<rparr>, Inr ())))"

definition deny_key_pattern :: "('g, 'm) glob_ops \<Rightarrow> bytes \<Rightarrow> ('g, 'm) user_op" where
  "deny_key_pattern gl pat u =
     (case gl_new gl pat of
        None \<Rightarrow> (u, Inl (InvalidAclRule pat))
      | Some g \<Rightarrow> let u = u\<lparr>raw_deny_key_patterns := raw_deny_key_patterns u @ [g]\<rparr> in
          (case rebuild_globset gl (raw_deny_key_patterns u) of Inl e \<Rightarrow> (u, Inl e) | Inr s \<Rightarrow> (u\<lparr>deny_key_patterns := s\<rparr>, Inr ())))"

definition allow_channel_pattern :: "('g, 'm) glob_ops \<Rightarrow> bytes \<Rightarrow> ('g, 'm) user_op" where
  "allow_channel_pattern gl pat u =
     (case gl_new gl pat of
        None \<Rightarrow> (u, Inl (InvalidAclRule pat))
      | Some g \<Rightarrow> let u = u\<lparr>raw_channel_patterns := raw_channel_patterns u @ [g]\<rparr> in
          (case rebuild_globset gl (raw_channel_patterns u) of Inl e \<Rightarrow> (u, Inl e) | Inr s \<Rightarrow> (u\<lparr>channel_patterns := s\<rparr>, Inr ())))"

definition deny_channel_pattern :: "('g, 'm) glob_ops \<Rightarrow> bytes \<Rightarrow> ('g, 'm) user_op" where
  "deny_channel_pattern gl pat u =
     (case gl_new gl pat of
        None \<Rightarrow> (u, Inl (InvalidAclRule pat))
      | Some g \<Rightarrow> let u = u\<lparr>raw_deny_channel_patterns := raw_deny_channel_patterns u @ [g]\<rparr> in
          (case rebuild_globset gl (raw_deny_channel_patterns u) of
             Inl e \<Rightarrow> (u, Inl e) | Inr s \<Rightarrow> (u\<lparr>deny_channel_patterns := s\<rparr>, Inr ())))"

section \<open>Creation and reset\<close>

text \<open>\<open>DEFAULT_GLOB\<close>, the pattern \<open>*\<close>, is unwrapped where it is first used.\<close>

definition user_new :: "('g, 'm) glob_ops \<Rightarrow> bytes \<Rightarrow> (acl_error + ('g, 'm) acl_user) panics" where
  "user_new gl name =
     (case gl_new gl (ascii ''*'') of
        None \<Rightarrow> None
      | Some default_glob \<Rightarrow>
          let u = \<lparr>username = name, enabled = True, password_hashes = [], allowed_categories = READ OR WRITE OR ADMIN,
                   allowed_commands = 0, denied_commands = 0, raw_key_patterns = [default_glob], raw_deny_key_patterns = [],
                   raw_channel_patterns = [default_glob], raw_deny_channel_patterns = [], key_patterns = gl_empty gl,
                   deny_key_patterns = gl_empty gl, channel_patterns = gl_empty gl, deny_channel_patterns = gl_empty gl\<rparr>
          in case rebuild_all_patterns gl u of
               (u, Inl e) \<Rightarrow> Some (Inl e)
             | (u, Inr _) \<Rightarrow>
                 (case rebuild_all_deny_patterns gl u of (u, Inl e) \<Rightarrow> Some (Inl e) | (u, Inr _) \<Rightarrow> Some (Inr u)))"

definition reset_rules :: "('g, 'm) glob_ops \<Rightarrow> ('g, 'm) acl_user \<Rightarrow> ('g, 'm) acl_user" where
  "reset_rules gl u =
     (let u = u\<lparr>enabled := False, password_hashes := [], allowed_categories := 0, allowed_commands := 0, denied_commands := 0,
                raw_key_patterns := [], raw_deny_key_patterns := [], raw_channel_patterns := [], raw_deny_channel_patterns := []\<rparr>
      in fst (rebuild_all_deny_patterns gl (fst (rebuild_all_patterns gl u))))"

section \<open>Checks\<close>

definition contains_cat :: "categories \<Rightarrow> categories \<Rightarrow> bool" where
  "contains_cat cs c \<longleftrightarrow> cs AND c = c"

definition check_idx :: "('g, 'm) acl_user \<Rightarrow> categories \<Rightarrow> nat option \<Rightarrow> bool" where
  "check_idx u category cmd_idx =
     (if \<not> enabled u then False
      else case cmd_idx of
        Some i \<Rightarrow>
          (if denied_commands u AND push_bit i 1 \<noteq> 0 then False
           else if contains_cat (allowed_categories u) category then True
           else allowed_commands u AND push_bit i 1 \<noteq> 0)
      | None \<Rightarrow> contains_cat (allowed_categories u) category)"

definition check_key :: "('g, 'm) glob_ops \<Rightarrow> ('g, 'm) acl_user \<Rightarrow> bytes \<Rightarrow> bool" where
  "check_key gl u k =
     (if \<not> enabled u then False
      else if gl_is_match gl (deny_key_patterns u) k then False
      else if gl_is_empty gl (key_patterns u) then True
      else gl_is_match gl (key_patterns u) k)"

definition check_channel :: "('g, 'm) glob_ops \<Rightarrow> ('g, 'm) acl_user \<Rightarrow> bytes \<Rightarrow> bool" where
  "check_channel gl u channel =
     (if \<not> enabled u then False
      else if gl_is_match gl (deny_channel_patterns u) channel then False
      else if gl_is_empty gl (channel_patterns u) then True
      else gl_is_match gl (channel_patterns u) channel)"

section \<open>Syntax\<close>

definition parse_category :: "bytes \<Rightarrow> categories" where
  "parse_category cat =
     (if cat = ascii ''read'' then READ
      else if cat = ascii ''write'' then WRITE
      else if cat = ascii ''admin'' then ADMIN
      else 0)"

definition to_ascii_lowercase :: "bytes \<Rightarrow> bytes" where
  "to_ascii_lowercase s = map (\<lambda>b. if 65 \<le> b \<and> b \<le> 90 then b + 32 else b) s"

definition COMMAND_INDEX :: "(bytes \<times> nat) list" where
  "COMMAND_INDEX = [(ascii ''get'', 0), (ascii ''set'', 1), (ascii ''del'', 2), (ascii ''flushall'', 3)]"

definition lookup_cmd_idx :: "bytes \<Rightarrow> nat option" where
  "lookup_cmd_idx cmd = map_of COMMAND_INDEX (to_ascii_lowercase cmd)"

text \<open>\<open>split_at(1)\<close> panics on an empty text and inside a character.\<close>

definition rule_from_str :: "bytes \<Rightarrow> (acl_error + acl_rule) panics" where
  "rule_from_str s =
     (if s = ascii ''on'' then Some (Inr On)
      else if s = ascii ''off'' then Some (Inr Off)
      else if s = ascii ''nopass'' then Some (Inr NoPass)
      else if s = [] \<or> \<not> is_char_boundary s 1 then None
      else let head = hd s; rest = tl s in
        if head = 62 then Some (Inr (PasswordHash rest))
        else if head = 43 then
          (if rest \<noteq> [] \<and> hd rest = 64 then Some (Inr (AllowCategory (parse_category (tl rest))))
           else Some (case lookup_cmd_idx rest of None \<Rightarrow> Inl (InvalidAclRule rest) | Some i \<Rightarrow> Inr (AllowCommand i)))
        else if head = 45 then
          (if rest \<noteq> [] \<and> hd rest = 64 then Some (Inr (DenyCategory (parse_category (tl rest))))
           else if rest \<noteq> [] \<and> hd rest = 126 then Some (Inr (DenyKeyPattern (tl rest)))
           else if rest \<noteq> [] \<and> hd rest = 38 then Some (Inr (DenyChannelPattern (tl rest)))
           else Some (case lookup_cmd_idx rest of None \<Rightarrow> Inl (InvalidAclRule rest) | Some i \<Rightarrow> Inr (DenyCommand i)))
        else if head = 126 then Some (Inr (AllowKeyPattern rest))
        else if head = 38 then Some (Inr (AllowChannelPattern rest))
        else Some (Inl (InvalidAclRule s)))"

fun parse_rules :: "bytes list \<Rightarrow> (acl_error + acl_rule list) panics" where
  "parse_rules [] = Some (Inr [])"
| "parse_rules (s # ss) =
     (case rule_from_str s of
        None \<Rightarrow> None
      | Some (Inl e) \<Rightarrow> Some (Inl e)
      | Some (Inr r) \<Rightarrow> map_option (map_sum id ((#) r)) (parse_rules ss))"

section \<open>The table of users\<close>

fun apply_rule :: "('g, 'm) glob_ops \<Rightarrow> acl_rule \<Rightarrow> ('g, 'm) user_op" where
  "apply_rule gl On u = (u\<lparr>enabled := True\<rparr>, Inr ())"
| "apply_rule gl Off u = (u\<lparr>enabled := False\<rparr>, Inr ())"
| "apply_rule gl (PasswordHash h) u = (u\<lparr>password_hashes := password_hashes u @ [h]\<rparr>, Inr ())"
| "apply_rule gl (AllowCategory c) u = (u\<lparr>allowed_categories := allowed_categories u OR c\<rparr>, Inr ())"
| "apply_rule gl (DenyCategory c) u = (u\<lparr>allowed_categories := allowed_categories u AND NOT c\<rparr>, Inr ())"
| "apply_rule gl (AllowCommand i) u = (u\<lparr>allowed_commands := allowed_commands u OR push_bit i 1\<rparr>, Inr ())"
| "apply_rule gl (DenyCommand i) u = (u\<lparr>denied_commands := denied_commands u OR push_bit i 1\<rparr>, Inr ())"
| "apply_rule gl (AllowKeyPattern p) u = allow_key_pattern gl p u"
| "apply_rule gl (DenyKeyPattern p) u = deny_key_pattern gl p u"
| "apply_rule gl (AllowChannelPattern p) u = allow_channel_pattern gl p u"
| "apply_rule gl (DenyChannelPattern p) u = deny_channel_pattern gl p u"
| "apply_rule gl NoPass u = (u, Inr ())"

fun apply_rules :: "('g, 'm) glob_ops \<Rightarrow> acl_rule list \<Rightarrow> ('g, 'm) user_op" where
  "apply_rules gl [] u = (u, Inr ())"
| "apply_rules gl (r # rs) u = (case apply_rule gl r u of (u, Inl e) \<Rightarrow> (u, Inl e) | (u, Inr _) \<Rightarrow> apply_rules gl rs u)"

definition configure :: "('g, 'm) glob_ops \<Rightarrow> acl_rule list \<Rightarrow> ('g, 'm) user_op" where
  "configure gl rs u =
     (case apply_rules gl rs (reset_rules gl u) of
        (u, Inl e) \<Rightarrow> (u, Inl e)
      | (u, Inr _) \<Rightarrow>
          (case rebuild_all_patterns gl u of
             (u, Inl e) \<Rightarrow> (u, Inl e)
           | (u, Inr _) \<Rightarrow> rebuild_all_deny_patterns gl u))"

definition acl_setuser ::
  "('g, 'm) glob_ops \<Rightarrow> ('d, ('g, 'm) acl_user) dash \<Rightarrow> bytes \<Rightarrow> bytes list \<Rightarrow> 'd \<Rightarrow> ('d \<times> (acl_error + unit)) panics" where
  "acl_setuser gl dm name rules d =
     (case parse_rules rules of
        None \<Rightarrow> None
      | Some (Inl e) \<Rightarrow> Some (d, Inl e)
      | Some (Inr parsed) \<Rightarrow>
          (case (case dm_get dm d name of
                   Some u \<Rightarrow> Some (d, u)
                 | None \<Rightarrow> (case user_new gl name of Some (Inr u) \<Rightarrow> Some (fst (dm_insert dm d name u), u) | _ \<Rightarrow> None)) of
             None \<Rightarrow> None
           | Some (d, u) \<Rightarrow> let (u, r) = configure gl parsed u in Some (dm_assign dm d name u, r)))"

definition acl_getuser :: "('d, 'u) dash \<Rightarrow> 'd \<Rightarrow> bytes \<Rightarrow> 'u option" where
  "acl_getuser dm d name = dm_get dm d name"

definition acl_deluser :: "('d, 'u) dash \<Rightarrow> bytes \<Rightarrow> 'd \<Rightarrow> 'd \<times> (acl_error + unit)" where
  "acl_deluser dm name d =
     (case dm_remove dm d name of (d, Some _) \<Rightarrow> (d, Inr ()) | (d, None) \<Rightarrow> (d, Inl UserNotFound))"

definition acl_users :: "('d, 'u) dash \<Rightarrow> 'd \<Rightarrow> bytes list" where
  "acl_users dm d = map fst (dm_iter dm d)"

section \<open>What a list of rules means\<close>

text \<open>The laws of \<open>globset\<close> the code relies on.\<close>

definition glob_ok :: "('g, 'm) glob_ops \<Rightarrow> bool" where
  "glob_ok gl \<longleftrightarrow> (\<forall>gs m. gl_build gl gs = Some m \<longrightarrow>
     (\<forall>k. gl_is_match gl m k \<longleftrightarrow> (\<exists>g\<in>set gs. gl_glob_match gl g k)) \<and> (gl_is_empty gl m \<longleftrightarrow> gs = []))"

text \<open>The last of \<open>on\<close> and \<open>off\<close> counts, and for each category the last rule that names it.\<close>

definition on_by :: "acl_rule list \<Rightarrow> bool" where
  "on_by rs \<longleftrightarrow> (let xs = filter (\<lambda>r. r = On \<or> r = Off) rs in xs \<noteq> [] \<and> last xs = On)"

fun names_cat :: "nat \<Rightarrow> acl_rule \<Rightarrow> bool" where
  "names_cat b (AllowCategory c) \<longleftrightarrow> bit c b"
| "names_cat b (DenyCategory c) \<longleftrightarrow> bit c b"
| "names_cat b _ \<longleftrightarrow> False"

definition cat_by :: "acl_rule list \<Rightarrow> nat \<Rightarrow> bool" where
  "cat_by rs b \<longleftrightarrow> (let xs = filter (names_cat b) rs in xs \<noteq> [] \<and> (\<exists>c. last xs = AllowCategory c))"

definition may_run :: "acl_rule list \<Rightarrow> categories \<Rightarrow> nat option \<Rightarrow> bool" where
  "may_run rs cat cmd \<longleftrightarrow> on_by rs \<and>
     (let in_categories = (\<forall>b. bit cat b \<longrightarrow> cat_by rs b) in
      case cmd of
        Some i \<Rightarrow> DenyCommand i \<notin> set rs \<and> (in_categories \<or> AllowCommand i \<in> set rs)
      | None \<Rightarrow> in_categories)"

definition hits :: "('g, 'm) glob_ops \<Rightarrow> bytes set \<Rightarrow> bytes \<Rightarrow> bool" where
  "hits gl P k \<longleftrightarrow> (\<exists>p\<in>P. \<exists>g. gl_new gl p = Some g \<and> gl_glob_match gl g k)"

text \<open>What the code lets a user touch: without a pattern that allows something, everything that is not denied.\<close>

definition may_touch :: "('g, 'm) glob_ops \<Rightarrow> acl_rule list \<Rightarrow> (bytes \<Rightarrow> acl_rule) \<Rightarrow> (bytes \<Rightarrow> acl_rule) \<Rightarrow> bytes \<Rightarrow> bool" where
  "may_touch gl rs allow deny k \<longleftrightarrow> on_by rs \<and> \<not> hits gl {p. deny p \<in> set rs} k \<and>
     ({p. allow p \<in> set rs} = {} \<or> hits gl {p. allow p \<in> set rs} k)"

section \<open>Configuring a user\<close>

lemma on_by_simps [simp]: "\<not> on_by []" "on_by (rs @ [r]) \<longleftrightarrow> r = On \<or> (r \<noteq> Off \<and> on_by rs)"
  by (simp_all add: on_by_def Let_def)

lemma cat_by_simps [simp]:
  "\<not> cat_by [] b" "cat_by (rs @ [r]) b \<longleftrightarrow> (if names_cat b r then \<exists>c. r = AllowCategory c else cat_by rs b)"
  by (simp_all add: cat_by_def Let_def)

text \<open>The globs a list of patterns compiles to.\<close>

definition raw_for :: "('g, 'm) glob_ops \<Rightarrow> bytes set \<Rightarrow> 'g list \<Rightarrow> bool" where
  "raw_for gl P raw \<longleftrightarrow> set raw = {g. \<exists>p\<in>P. gl_new gl p = Some g} \<and> (raw = [] \<longleftrightarrow> P = {})"

lemma raw_for_simps [simp]:
  "raw_for gl {} raw \<longleftrightarrow> raw = []"
  "gl_new gl p = Some g \<Longrightarrow> raw_for gl P raw \<Longrightarrow> raw_for gl (insert p P) (raw @ [g])"
  by (auto simp: raw_for_def)

definition means :: "('g, 'm) glob_ops \<Rightarrow> acl_rule list \<Rightarrow> ('g, 'm) acl_user \<Rightarrow> bool" where
  "means gl rs u \<longleftrightarrow>
     (enabled u \<longleftrightarrow> on_by rs) \<and> (\<forall>b. bit (allowed_categories u) b \<longleftrightarrow> cat_by rs b) \<and>
     (\<forall>i<128. (bit (allowed_commands u) i \<longleftrightarrow> AllowCommand i \<in> set rs) \<and> (bit (denied_commands u) i \<longleftrightarrow> DenyCommand i \<in> set rs)) \<and>
     raw_for gl {p. AllowKeyPattern p \<in> set rs} (raw_key_patterns u) \<and>
     raw_for gl {p. DenyKeyPattern p \<in> set rs} (raw_deny_key_patterns u) \<and>
     raw_for gl {p. AllowChannelPattern p \<in> set rs} (raw_channel_patterns u) \<and>
     raw_for gl {p. DenyChannelPattern p \<in> set rs} (raw_deny_channel_patterns u)"

lemma bit_push_one: "i < 128 \<Longrightarrow> bit (w OR push_bit j 1 :: 128 word) i \<longleftrightarrow> bit w i \<or> i = j"
  by (auto simp: bit_or_iff bit_exp_iff)

lemma bit_and_not: "bit (w AND NOT c :: u32) b \<longleftrightarrow> bit w b \<and> \<not> bit c b"
  by (auto simp: bit_and_iff bit_not_iff dest: bit_imp_le_length)

lemma apply_rule_means:
  assumes "means gl rs u" and "apply_rule gl r u = (u', Inr ())"
  shows "means gl (rs @ [r]) u'"
proof (cases r)
  case (AllowKeyPattern p)
  then have "{q. AllowKeyPattern q \<in> set (rs @ [r])} = insert p {q. AllowKeyPattern q \<in> set rs}" by auto
  with AllowKeyPattern show ?thesis using assms
    by (auto simp: means_def allow_key_pattern_def Let_def split: option.splits sum.splits)
next
  case (DenyKeyPattern p)
  then have "{q. DenyKeyPattern q \<in> set (rs @ [r])} = insert p {q. DenyKeyPattern q \<in> set rs}" by auto
  with DenyKeyPattern show ?thesis using assms
    by (auto simp: means_def deny_key_pattern_def Let_def split: option.splits sum.splits)
next
  case (AllowChannelPattern p)
  then have "{q. AllowChannelPattern q \<in> set (rs @ [r])} = insert p {q. AllowChannelPattern q \<in> set rs}" by auto
  with AllowChannelPattern show ?thesis using assms
    by (auto simp: means_def allow_channel_pattern_def Let_def split: option.splits sum.splits)
next
  case (DenyChannelPattern p)
  then have "{q. DenyChannelPattern q \<in> set (rs @ [r])} = insert p {q. DenyChannelPattern q \<in> set rs}" by auto
  with DenyChannelPattern show ?thesis using assms
    by (auto simp: means_def deny_channel_pattern_def Let_def split: option.splits sum.splits)
next
  case (AllowCategory c)
  with assms show ?thesis by (auto simp: means_def bit_or_iff)
next
  case (DenyCategory c)
  with assms show ?thesis
    by (auto simp: means_def bit_and_not)
next
  case (AllowCommand j)
  with assms show ?thesis by (auto simp: means_def bit_push_one [simplified])
next
  case (DenyCommand j)
  with assms show ?thesis by (auto simp: means_def bit_push_one [simplified])
next
  case NoPass
  with assms show ?thesis by (simp add: means_def)
next
  case On
  with assms show ?thesis by (auto simp: means_def)
next
  case Off
  with assms show ?thesis by (auto simp: means_def)
next
  case (PasswordHash h)
  with assms show ?thesis by (auto simp: means_def)
qed


lemma reset_means: "means gl [] (reset_rules gl u)"
  by (simp add: means_def reset_rules_def rebuild_all_patterns_def rebuild_all_deny_patterns_def Let_def split: sum.split)

lemma apply_rules_means:
  "means gl rs u \<Longrightarrow> apply_rules gl rs' u = (u', Inr ()) \<Longrightarrow> means gl (rs @ rs') u'"
proof (induction rs' arbitrary: rs u)
  case (Cons r rs')
  then obtain v where v: "apply_rule gl r u = (v, Inr ())" and rest: "apply_rules gl rs' v = (u', Inr ())"
    by (auto split: prod.splits sum.splits)
  show ?case
    using Cons.IH [OF apply_rule_means [OF Cons.prems(1) v] rest] by simp
qed simp

text \<open>A user whose sets of globs are those of its patterns.\<close>

definition built :: "('g, 'm) glob_ops \<Rightarrow> ('g, 'm) acl_user \<Rightarrow> bool" where
  "built gl u \<longleftrightarrow>
     gl_build gl (raw_key_patterns u) = Some (key_patterns u) \<and>
     gl_build gl (raw_deny_key_patterns u) = Some (deny_key_patterns u) \<and>
     gl_build gl (raw_channel_patterns u) = Some (channel_patterns u) \<and>
     gl_build gl (raw_deny_channel_patterns u) = Some (deny_channel_patterns u)"

lemma rebuilds_Inr:
  assumes "rebuild_all_patterns gl u = (v, Inr ())" and "rebuild_all_deny_patterns gl v = (w, Inr ())"
  shows "built gl w" and "means gl rs w \<longleftrightarrow> means gl rs u" and "username w = username u"
    and "password_hashes w = password_hashes u"
  using assms
  by (auto simp: rebuild_all_patterns_def rebuild_all_deny_patterns_def rebuild_globset_def built_def means_def Let_def
      split: option.splits sum.splits)

lemma configure_means:
  assumes "configure gl rs u = (u', Inr ())"
  shows "means gl rs u'" and "built gl u'"
proof -
  obtain v w where v: "apply_rules gl rs (reset_rules gl u) = (v, Inr ())"
    and w: "rebuild_all_patterns gl v = (w, Inr ())" "rebuild_all_deny_patterns gl w = (u', Inr ())"
    using assms by (auto simp: configure_def split: prod.splits sum.splits)
  show "means gl rs u'" and "built gl u'"
    using apply_rules_means [OF reset_means v] by (simp_all add: rebuilds_Inr [OF w])
qed

lemma apply_rules_passwords:
  "apply_rules gl rs u = (u', Inr ()) \<Longrightarrow> password_hashes u' = password_hashes u @ [h. PasswordHash h \<leftarrow> rs]"
proof (induction rs arbitrary: u)
  case (Cons r rs)
  then obtain v where v: "apply_rule gl r u = (v, Inr ())" and rest: "apply_rules gl rs v = (u', Inr ())"
    by (auto split: prod.splits sum.splits)
  have "password_hashes v = password_hashes u @ [h. PasswordHash h \<leftarrow> [r]]"
    using v by (cases r) (auto simp: allow_key_pattern_def deny_key_pattern_def allow_channel_pattern_def
      deny_channel_pattern_def Let_def split: option.splits sum.splits)
  then show ?case using Cons.IH [OF rest] by (cases r) simp_all
qed simp

lemma configure_passwords:
  assumes "configure gl rs u = (u', Inr ())"
  shows "password_hashes u' = [h. PasswordHash h \<leftarrow> rs]"
proof -
  obtain v w where v: "apply_rules gl rs (reset_rules gl u) = (v, Inr ())"
    and w: "rebuild_all_patterns gl v = (w, Inr ())" "rebuild_all_deny_patterns gl w = (u', Inr ())"
    using assms by (auto simp: configure_def split: prod.splits sum.splits)
  have "password_hashes (reset_rules gl u) = []"
    by (simp add: reset_rules_def rebuild_all_patterns_def rebuild_all_deny_patterns_def Let_def split: sum.split)
  with apply_rules_passwords [OF v] show ?thesis by (simp add: rebuilds_Inr [OF w])
qed

section \<open>The checks decide what the rules mean\<close>

lemma contains_cat_bits: "contains_cat cs c \<longleftrightarrow> (\<forall>b. bit c b \<longrightarrow> bit cs b)"
proof
  assume "contains_cat cs c"
  then show "\<forall>b. bit c b \<longrightarrow> bit cs b" by (metis bit_and_iff contains_cat_def)
next
  assume "\<forall>b. bit c b \<longrightarrow> bit cs b"
  then show "contains_cat cs c" by (auto simp: contains_cat_def bit_eq_iff bit_and_iff)
qed

lemma test_bit: "i < 128 \<Longrightarrow> (w :: 128 word) AND push_bit i 1 \<noteq> 0 \<longleftrightarrow> bit w i"
  by (simp add: and_exp_eq_0_iff_not_bit)

lemma check_idx_means:
  assumes "means gl rs u" and "\<forall>i. cmd = Some i \<longrightarrow> i < 128"
  shows "check_idx u cat cmd \<longleftrightarrow> may_run rs cat cmd"
  using assms unfolding means_def check_idx_def may_run_def contains_cat_bits
  by (cases cmd) (simp_all add: test_bit [simplified] Let_def, blast)

lemma hits_raw:
  assumes "glob_ok gl" and "raw_for gl P raw" and "gl_build gl raw = Some m"
  shows "gl_is_match gl m k \<longleftrightarrow> hits gl P k" and "gl_is_empty gl m \<longleftrightarrow> P = {}"
  using assms unfolding glob_ok_def raw_for_def hits_def by (blast, metis)

lemma check_touch_means:
  assumes "glob_ok gl" and "means gl rs u" and "built gl u"
  shows "check_key gl u k \<longleftrightarrow> may_touch gl rs AllowKeyPattern DenyKeyPattern k"
    and "check_channel gl u k \<longleftrightarrow> may_touch gl rs AllowChannelPattern DenyChannelPattern k"
proof -
  note hits = hits_raw [OF assms(1), of "{p. AllowKeyPattern p \<in> set rs}" "raw_key_patterns u" "key_patterns u"]
    hits_raw [OF assms(1), of "{p. DenyKeyPattern p \<in> set rs}" "raw_deny_key_patterns u" "deny_key_patterns u"]
    hits_raw [OF assms(1), of "{p. AllowChannelPattern p \<in> set rs}" "raw_channel_patterns u" "channel_patterns u"]
    hits_raw [OF assms(1), of "{p. DenyChannelPattern p \<in> set rs}" "raw_deny_channel_patterns u" "deny_channel_patterns u"]
  have "enabled u \<longleftrightarrow> on_by rs" using assms(2) by (simp add: means_def)
  moreover have "gl_is_match gl (deny_key_patterns u) k \<longleftrightarrow> hits gl {p. DenyKeyPattern p \<in> set rs} k"
    and "gl_is_match gl (key_patterns u) k \<longleftrightarrow> hits gl {p. AllowKeyPattern p \<in> set rs} k"
    and "gl_is_empty gl (key_patterns u) \<longleftrightarrow> {p. AllowKeyPattern p \<in> set rs} = {}"
    and "gl_is_match gl (deny_channel_patterns u) k \<longleftrightarrow> hits gl {p. DenyChannelPattern p \<in> set rs} k"
    and "gl_is_match gl (channel_patterns u) k \<longleftrightarrow> hits gl {p. AllowChannelPattern p \<in> set rs} k"
    and "gl_is_empty gl (channel_patterns u) \<longleftrightarrow> {p. AllowChannelPattern p \<in> set rs} = {}"
    using assms(2,3) unfolding means_def built_def by (simp_all only: hits)
  ultimately show "check_key gl u k \<longleftrightarrow> may_touch gl rs AllowKeyPattern DenyKeyPattern k"
    and "check_channel gl u k \<longleftrightarrow> may_touch gl rs AllowChannelPattern DenyChannelPattern k"
    unfolding check_key_def check_channel_def may_touch_def by (simp_all only: if_bool_eq_disj) blast+
qed


text \<open>The user that \<open>acl_setuser\<close> finds or makes, and what it leaves in the table.\<close>

lemma acl_setuser_Inr:
  assumes dm: "dash_ok dm" and set: "acl_setuser gl dm name texts d = Some (d', Inr ())"
  obtains rs u u' where "parse_rules texts = Some (Inr rs)" and "configure gl rs u = (u', Inr ())"
    and "dm_get dm d' = (dm_get dm d)(name \<mapsto> u')"
proof -
  obtain rs where rs: "parse_rules texts = Some (Inr rs)"
    using set by (auto simp: acl_setuser_def split: option.splits sum.splits)
  show thesis
  proof (cases "dm_get dm d name")
    case None
    then obtain u where u: "user_new gl name = Some (Inr u)"
      using set rs by (auto simp: acl_setuser_def split: option.splits sum.splits)
    moreover obtain u' r where "configure gl rs u = (u', r)" by force
    ultimately show thesis
      using set rs None that [OF rs, of u u']
      dash_okD(7) [OF dm, of "fst (dm_insert dm d name u)" name u u']
      by (simp add: acl_setuser_def dash_okD(2) [OF dm])
  next
    case (Some u)
    moreover obtain u' r where "configure gl rs u = (u', r)" by force
    ultimately show thesis
      using set rs that [OF rs, of u u'] dash_okD(7) [OF dm, of d name u u'] by (simp add: acl_setuser_def)
  qed
qed

lemma acl_setuser_decides:
  assumes "glob_ok gl" and "dash_ok dm" and "acl_setuser gl dm name texts d = Some (d', Inr ())"
  shows "\<exists>rs u. parse_rules texts = Some (Inr rs) \<and> acl_getuser dm d' name = Some u \<and>
    (\<forall>cat cmd. check_idx u cat (lookup_cmd_idx cmd) \<longleftrightarrow> may_run rs cat (lookup_cmd_idx cmd)) \<and>
    (\<forall>k. check_key gl u k \<longleftrightarrow> may_touch gl rs AllowKeyPattern DenyKeyPattern k) \<and>
    (\<forall>c. check_channel gl u c \<longleftrightarrow> may_touch gl rs AllowChannelPattern DenyChannelPattern c) \<and>
    password_hashes u = [h. PasswordHash h \<leftarrow> rs] \<and>
    (\<forall>other. other \<noteq> name \<longrightarrow> acl_getuser dm d' other = acl_getuser dm d other)"
proof -
  obtain rs u u' where rs: "parse_rules texts = Some (Inr rs)" and conf: "configure gl rs u = (u', Inr ())"
    and d': "dm_get dm d' = (dm_get dm d)(name \<mapsto> u')"
    using acl_setuser_Inr [OF assms(2,3)] .
  note u' = configure_means [OF conf]
  have "\<forall>i. lookup_cmd_idx cmd = Some i \<longrightarrow> i < 128" for cmd
    by (auto simp: lookup_cmd_idx_def COMMAND_INDEX_def split: if_splits)
  then show ?thesis
    using rs d' check_idx_means [OF u'(1)] check_touch_means [OF assms(1) u'] configure_passwords [OF conf]
    by (auto simp: acl_getuser_def)
qed


text \<open>C20. After a successful \<open>acl_setuser\<close> whose category rules name known categories (read, write or admin), the
  checks decide what the list of rules says. The last of \<open>on\<close> and \<open>off\<close> counts; for each category the last rule that
  names it; a denied command stays denied. A user who is off touches nothing, a key or channel that a pattern denies
  is refused, and once a pattern allows some keys (or channels), exactly those that match such a pattern and none that
  denies are open. The passwords are those of the rules, nothing remains of the earlier rules, and no other user
  changes. Where no pattern allows anything, \<open>acl_setuser_decides\<close> shows that everything not denied is open, against
  the comment in \<open>reset_rules\<close>; that case is left out here.\<close>

theorem acl_rules_decide:
  assumes "glob_ok gl" and "dash_ok dm" and "acl_setuser gl dm name texts d = Some (d', Inr ())"
    and "parse_rules texts = Some (Inr rs)" and "AllowCategory 0 \<notin> set rs" and "DenyCategory 0 \<notin> set rs"
  shows "\<exists>u. acl_getuser dm d' name = Some u \<and>
    (\<forall>cat cmd. cat \<noteq> 0 \<longrightarrow> (check_idx u cat (lookup_cmd_idx cmd) \<longleftrightarrow> may_run rs cat (lookup_cmd_idx cmd))) \<and>
    (\<forall>k. check_key gl u k \<longrightarrow> on_by rs \<and> \<not> hits gl {p. DenyKeyPattern p \<in> set rs} k) \<and>
    (\<forall>k q. AllowKeyPattern q \<in> set rs \<longrightarrow>
       (check_key gl u k \<longleftrightarrow> on_by rs \<and> \<not> hits gl {p. DenyKeyPattern p \<in> set rs} k \<and>
          hits gl {p. AllowKeyPattern p \<in> set rs} k)) \<and>
    (\<forall>c. check_channel gl u c \<longrightarrow> on_by rs \<and> \<not> hits gl {p. DenyChannelPattern p \<in> set rs} c) \<and>
    (\<forall>c q. AllowChannelPattern q \<in> set rs \<longrightarrow>
       (check_channel gl u c \<longleftrightarrow> on_by rs \<and> \<not> hits gl {p. DenyChannelPattern p \<in> set rs} c \<and>
          hits gl {p. AllowChannelPattern p \<in> set rs} c)) \<and>
    password_hashes u = [h. PasswordHash h \<leftarrow> rs] \<and>
    (\<forall>other. other \<noteq> name \<longrightarrow> acl_getuser dm d' other = acl_getuser dm d other)"
proof -
  obtain u where "acl_getuser dm d' name = Some u"
    and "\<forall>cat cmd. check_idx u cat (lookup_cmd_idx cmd) \<longleftrightarrow> may_run rs cat (lookup_cmd_idx cmd)"
    and "\<forall>k. check_key gl u k \<longleftrightarrow> may_touch gl rs AllowKeyPattern DenyKeyPattern k"
    and "\<forall>c. check_channel gl u c \<longleftrightarrow> may_touch gl rs AllowChannelPattern DenyChannelPattern c"
    and "password_hashes u = [h. PasswordHash h \<leftarrow> rs]"
    and "\<forall>other. other \<noteq> name \<longrightarrow> acl_getuser dm d' other = acl_getuser dm d other"
    using acl_setuser_decides [OF assms(1-3)] assms(4) by auto
  then show ?thesis by (intro exI [of _ u]) (simp add: may_touch_def, blast)
qed

text \<open>Globs for the witnesses: a pattern is \<open>*\<close> or matches itself, and \<open>[\<close> is not a pattern.\<close>

definition plain_globs :: "(bytes, bytes list) glob_ops" where
  "plain_globs =
     \<lparr>gl_new = \<lambda>p. if p = ascii ''['' then None else Some p,
      gl_build = Some,
      gl_empty = [],
      gl_is_match = \<lambda>gs k. \<exists>g\<in>set gs. g = ascii ''*'' \<or> g = k,
      gl_is_empty = \<lambda>gs. gs = [],
      gl_glob_match = \<lambda>g k. g = ascii ''*'' \<or> g = k\<rparr>"

lemma plain_globs_ok: "glob_ok plain_globs"
  by (simp add: glob_ok_def plain_globs_def)

definition reader_rules :: "bytes list" where
  "reader_rules = [ascii ''on'', ascii ''+@read'', ascii ''-set'', ascii ''~a'', ascii ''-~b'']"

theorem acl_rules_decide_witness:
  "\<exists>d' u. acl_setuser plain_globs alist_dash (ascii ''eve'') reader_rules [] = Some (d', Inr ()) \<and>
     acl_getuser alist_dash d' (ascii ''eve'') = Some u \<and>
     check_key plain_globs u (ascii ''a'') \<and> \<not> check_key plain_globs u (ascii ''b'') \<and>
     \<not> check_key plain_globs u (ascii ''c'') \<and> check_idx u READ (lookup_cmd_idx (ascii ''get'')) \<and>
     \<not> check_idx u READ (lookup_cmd_idx (ascii ''set''))"
proof -
  let ?rs = "[On, AllowCategory READ, DenyCommand 1, AllowKeyPattern (ascii ''a''), DenyKeyPattern (ascii ''b'')]"
  have rs: "parse_rules reader_rules = Some (Inr ?rs)"
    by code_simp
  have cats: "AllowCategory 0 \<notin> set ?rs" "DenyCategory 0 \<notin> set ?rs" "READ \<noteq> 0"
    and cmds: "lookup_cmd_idx (ascii ''get'') = Some 0" "lookup_cmd_idx (ascii ''set'') = Some 1"
    by code_simp+
  have runs: "may_run ?rs READ (Some 0)" "\<not> may_run ?rs READ (Some 1)"
    by (auto simp: may_run_def on_by_def cat_by_def Let_def)
  obtain d' where d': "acl_setuser plain_globs alist_dash (ascii ''eve'') reader_rules [] = Some (d', Inr ())"
    by (simp add: acl_setuser_def rs plain_globs_def alist_dash_def user_new_def configure_def reset_rules_def rebuild_all_patterns_def
        rebuild_all_deny_patterns_def rebuild_globset_def allow_key_pattern_def deny_key_pattern_def ascii_def)
  obtain u where u: "acl_getuser alist_dash d' (ascii ''eve'') = Some u"
    and run: "\<forall>cat cmd. cat \<noteq> 0 \<longrightarrow> (check_idx u cat (lookup_cmd_idx cmd) \<longleftrightarrow> may_run ?rs cat (lookup_cmd_idx cmd))"
    and touch: "\<forall>k q. AllowKeyPattern q \<in> set ?rs \<longrightarrow> (check_key plain_globs u k \<longleftrightarrow> on_by ?rs \<and>
      \<not> hits plain_globs {p. DenyKeyPattern p \<in> set ?rs} k \<and> hits plain_globs {p. AllowKeyPattern p \<in> set ?rs} k)"
    using acl_rules_decide [OF plain_globs_ok alist_dash_ok d' rs cats(1,2)] by (elim exE conjE)
  have keys: "check_key plain_globs u k \<longleftrightarrow> k = ascii ''a''" for k
    using touch [rule_format, of "ascii ''a''" k] by (auto simp: on_by_def hits_def plain_globs_def ascii_def)
  have "ascii ''b'' \<noteq> ascii ''a''" "ascii ''c'' \<noteq> ascii ''a''" by code_simp+
  then have "check_key plain_globs u (ascii ''a'')" "\<not> check_key plain_globs u (ascii ''b'')"
    "\<not> check_key plain_globs u (ascii ''c'')"
    unfolding keys by simp_all
  moreover have "check_idx u READ (lookup_cmd_idx (ascii ''get''))" "\<not> check_idx u READ (lookup_cmd_idx (ascii ''set''))"
    using runs run [rule_format, OF cats(3), of "ascii ''get''"] run [rule_format, OF cats(3), of "ascii ''set''"]
    by (simp_all only: cmds not_False_eq_True)
  ultimately show ?thesis using d' u by (intro exI conjI)
qed

section \<open>A rule that fails\<close>

text \<open>C36. When an existing user is given the rules \<open>on\<close>, then a key pattern that does not compile, then any rules that
  parse, \<open>acl_setuser\<close> stops half way: the answer is an error, but the earlier rules are gone and the user stays in
  the table switched on, with no password and with every key and channel allowed.\<close>

theorem acl_error_opens:
  assumes gl: "glob_ok gl" "gl_build gl [] = Some m" and dm: "dash_ok dm" and user: "dm_get dm d name = Some u"
    and bad: "gl_new gl p = None" "p = [] \<or> \<not> utf8_cont (hd p)" and rest: "parse_rules rest = Some (Inr rs)"
  shows "\<exists>d' u'. acl_setuser gl dm name (ascii ''on'' # (ascii ''~'' @ p) # rest) d = Some (d', Inl (InvalidAclRule p)) \<and>
    acl_getuser dm d' name = Some u' \<and> password_hashes u' = [] \<and> (\<forall>k. check_key gl u' k) \<and> (\<forall>c. check_channel gl u' c)"
proof -
  have empty: "\<not> gl_is_match gl m k" "gl_is_empty gl m" for k
    using gl unfolding glob_ok_def by auto
  have "parse_rules (ascii ''on'' # (ascii ''~'' @ p) # rest) = Some (Inr (On # AllowKeyPattern p # rs))"
    using bad(2) rest by (cases p) (auto simp: rule_from_str_def is_char_boundary_def ascii_def)
  then show ?thesis
    using user gl(2) bad(1)
    by (simp add: acl_setuser_def acl_getuser_def configure_def dash_okD(7) [OF dm] reset_rules_def rebuild_all_patterns_def
        rebuild_all_deny_patterns_def rebuild_globset_def allow_key_pattern_def check_key_def check_channel_def empty)
qed

definition eve :: "(bytes, bytes list) acl_user" where
  "eve = \<lparr>username = ascii ''eve'', enabled = False, password_hashes = [ascii ''h''], allowed_categories = 0,
     allowed_commands = 0, denied_commands = 0, raw_key_patterns = [], raw_deny_key_patterns = [], raw_channel_patterns = [],
     raw_deny_channel_patterns = [], key_patterns = [], deny_key_patterns = [], channel_patterns = [], deny_channel_patterns = []\<rparr>"

theorem acl_error_opens_witness:
  "\<not> check_key plain_globs eve (ascii ''k'') \<and>
   (\<exists>d' u'. acl_setuser plain_globs alist_dash (ascii ''eve'') [ascii ''on'', ascii ''~['', ascii ''>hash''] [(ascii ''eve'', eve)] =
       Some (d', Inl (InvalidAclRule (ascii ''[''))) \<and>
     acl_getuser alist_dash d' (ascii ''eve'') = Some u' \<and> password_hashes u' = [] \<and> check_key plain_globs u' (ascii ''k''))"
proof -
  have eve: "dm_get alist_dash [(ascii ''eve'', eve)] (ascii ''eve'') = Some eve" by (simp add: alist_dash_def)
  have new: "gl_new plain_globs (ascii ''['') = None" and build: "gl_build plain_globs [] = Some []"
    by (simp_all add: plain_globs_def)
  have rest: "parse_rules [ascii ''>hash''] = Some (Inr [PasswordHash (ascii ''hash'')])" by code_simp
  have bound: "ascii ''['' = [] \<or> \<not> utf8_cont (hd (ascii ''[''))" by code_simp
  have spelt: "ascii ''~'' @ ascii ''['' = ascii ''~[''" by (simp add: ascii_def)
  have "\<not> check_key plain_globs eve (ascii ''k'')" by (simp add: check_key_def eve_def)
  then show ?thesis
    using acl_error_opens [OF plain_globs_ok build alist_dash_ok eve new bound rest]
    unfolding spelt by blast
qed

end
