(* ===== verification/Auth.thy ===== *)
theory Auth
  imports Acl
begin

text \<open>
  Authentication (\<open>auth/manager.rs\<close>, \<open>auth/password.rs\<close>): creating users, logging in with a limit on failures, the two
  authorisations, and the users of a configuration. Hashing is the crate \<open>argon2\<close>, an argument; the salt and every
  reading of the clock (milliseconds) are arguments of the call that draws them. The locks make each block of
  \<open>authenticate\<close> one step; the calls of a run follow one another.
\<close>

section \<open>Passwords\<close>

record ('s, 'p) pw_ops =
  pw_hash :: "bytes \<Rightarrow> 's \<Rightarrow> bytes option"
  pw_parse :: "bytes \<Rightarrow> 'p option"
  pw_verify :: "bytes \<Rightarrow> 'p \<Rightarrow> bool"

datatype password_error = Hash | Verify

definition peppered :: "bytes \<Rightarrow> bytes option \<Rightarrow> bytes" where
  "peppered password pepper = password @ (case pepper of Some pep \<Rightarrow> pep | None \<Rightarrow> [])"

definition hash_password :: "('s, 'p) pw_ops \<Rightarrow> 's \<Rightarrow> bytes \<Rightarrow> bytes option \<Rightarrow> password_error + bytes" where
  "hash_password pw salt password pepper =
     (case pw_hash pw (peppered password pepper) salt of Some h \<Rightarrow> Inr h | None \<Rightarrow> Inl Hash)"

definition verify_password :: "('s, 'p) pw_ops \<Rightarrow> bytes \<Rightarrow> bytes \<Rightarrow> bytes option \<Rightarrow> password_error + bool" where
  "verify_password pw h password pepper =
     (case pw_parse pw h of None \<Rightarrow> Inl Verify | Some parsed \<Rightarrow> Inr (pw_verify pw (peppered password pepper) parsed))"

section \<open>The manager\<close>

datatype auth_error =
  AuthenticationFailed
| NoSuchUser
| Password password_error
| AclFailed acl_error
| UserAlreadyExists
| TooManyAttempts

type_synonym failures = "bytes \<rightharpoonup> nat \<times> nat"

record 'd auth_manager =
  am_acl :: 'd
  am_pepper :: "bytes option"
  am_failures :: failures

definition MAX_FAILS :: nat where "MAX_FAILS = 5"
definition BLOCK_DURATION :: nat where "BLOCK_DURATION = 60000"

definition auth_new :: "('d, 'u) dash \<Rightarrow> bytes option \<Rightarrow> 'd auth_manager" where
  "auth_new dm pep = \<lparr>am_acl = dm_new dm, am_pepper = pep, am_failures = Map.empty\<rparr>"

type_synonym ('s, 'p, 'g, 'm, 'd) auth_env = "('s, 'p) pw_ops \<times> ('g, 'm) glob_ops \<times> ('d, ('g, 'm) acl_user) dash"

fun create_user ::
  "('s, 'p, 'g, 'm, 'd) auth_env \<Rightarrow> 's \<Rightarrow> bytes \<Rightarrow> bytes \<Rightarrow> bytes list \<Rightarrow> 'd auth_manager
     \<Rightarrow> ('d auth_manager \<times> (auth_error + unit)) panics" where
  "create_user (pw, gl, dm) salt name password permissions m =
     (case hash_password pw salt password (am_pepper m) of
        Inl e \<Rightarrow> Some (m, Inl (Password e))
      | Inr h \<Rightarrow>
          let rules = (62 # h) # ascii ''on'' # permissions in
          if acl_getuser dm (am_acl m) name \<noteq> None then Some (m, Inl UserAlreadyExists)
          else (case acl_setuser gl dm name rules (am_acl m) of
                  None \<Rightarrow> None
                | Some (d, r) \<Rightarrow> Some (m\<lparr>am_acl := d\<rparr>, map_sum AclFailed id r)))"

text \<open>One call of \<open>authenticate\<close>: its arguments, the clock where it checks the limit (twice) and where it counts the
  failure, and whether the blocking task is joined.\<close>

record attempt =
  at_user :: bytes
  at_password :: bytes
  at_check :: nat
  at_reset :: nat
  at_count :: nat
  at_joined :: bool

definition check_failures :: "attempt \<Rightarrow> failures \<Rightarrow> auth_error + failures" where
  "check_failures a fs =
     (case fs (at_user a) of
        None \<Rightarrow> Inr fs
      | Some (n, ts) \<Rightarrow>
          if MAX_FAILS \<le> n \<and> at_check a - ts < BLOCK_DURATION then Inl TooManyAttempts
          else if BLOCK_DURATION \<le> at_reset a - ts then Inr (fs(at_user a := None))
          else Inr fs)"

text \<open>The counter is an \<open>u8\<close> and its addition is checked.\<close>

definition count_failure :: "attempt \<Rightarrow> failures \<Rightarrow> failures panics" where
  "count_failure a fs =
     (let (n, ts) = (case fs (at_user a) of Some e \<Rightarrow> e | None \<Rightarrow> (0, at_count a)) in
      if n < 255 then Some (fs(at_user a \<mapsto> (n + 1, ts))) else None)"

fun password_ok :: "('s, 'p) pw_ops \<Rightarrow> bytes option \<Rightarrow> bytes list \<Rightarrow> bytes \<Rightarrow> bool" where
  "password_ok pw pepper hashes password =
     (hashes = [] \<or> (\<exists>h\<in>set hashes. verify_password pw h password pepper = Inr True))"

fun authenticate ::
  "('s, 'p, 'g, 'm, 'd) auth_env \<Rightarrow> attempt \<Rightarrow> 'd auth_manager \<Rightarrow> ('d auth_manager \<times> (auth_error + unit)) panics" where
  "authenticate (pw, gl, dm) a m =
     (case check_failures a (am_failures m) of
        Inl e \<Rightarrow> Some (m, Inl e)
      | Inr fs \<Rightarrow>
          let m = m\<lparr>am_failures := fs\<rparr> in
          case acl_getuser dm (am_acl m) (at_user a) of
            None \<Rightarrow> Some (m, Inl NoSuchUser)
          | Some u \<Rightarrow>
              if password_hashes u \<noteq> [] \<and> \<not> at_joined a then Some (m, Inl (Password Verify))
              else if password_ok pw (am_pepper m) (password_hashes u) (at_password a) then
                Some (m\<lparr>am_failures := (am_failures m)(at_user a := None)\<rparr>, Inr ())
              else (case count_failure a (am_failures m) of
                      None \<Rightarrow> None
                    | Some fs \<Rightarrow> Some (m\<lparr>am_failures := fs\<rparr>, Inl AuthenticationFailed)))"

fun authorize_command ::
  "('s, 'p, 'g, 'm, 'd) auth_env \<Rightarrow> 'd auth_manager \<Rightarrow> bytes \<Rightarrow> bytes \<Rightarrow> bytes \<Rightarrow> auth_error + unit" where
  "authorize_command (pw, gl, dm) m name category command =
     (case acl_getuser dm (am_acl m) name of
        None \<Rightarrow> Inl NoSuchUser
      | Some u \<Rightarrow>
          if check_idx u (parse_category category) (lookup_cmd_idx command) then Inr ()
          else Inl (AclFailed PermissionDenied))"

fun authorize_key :: "('s, 'p, 'g, 'm, 'd) auth_env \<Rightarrow> 'd auth_manager \<Rightarrow> bytes \<Rightarrow> bytes \<Rightarrow> auth_error + unit" where
  "authorize_key (pw, gl, dm) m name k =
     (case acl_getuser dm (am_acl m) name of
        None \<Rightarrow> Inl NoSuchUser
      | Some u \<Rightarrow> if check_key gl u k then Inr () else Inl (AclFailed PermissionDenied))"

section \<open>Users of a configuration\<close>

record user_config =
  uc_username :: bytes
  uc_enabled :: bool
  uc_nopass :: bool
  uc_password :: "bytes option"
  uc_keys :: "bytes list"
  uc_permissions :: "bytes list"

record server_config =
  requirepass :: "bytes option"
  auth_pepper :: "bytes option"
  sc_users :: "user_config list"

definition set_rules ::
  "('s, 'p, 'g, 'm, 'd) auth_env \<Rightarrow> bytes \<Rightarrow> bytes list \<Rightarrow> 'd \<Rightarrow> (auth_error + 'd) panics" where
  "set_rules env name rules d =
     (case env of (pw, gl, dm) \<Rightarrow>
        map_option (\<lambda>(d, r). case r of Inl e \<Rightarrow> Inl (AclFailed e) | Inr _ \<Rightarrow> Inr d) (acl_setuser gl dm name rules d))"

definition user_rules :: "('s, 'p) pw_ops \<Rightarrow> 's \<Rightarrow> bytes option \<Rightarrow> user_config \<Rightarrow> auth_error + bytes list" where
  "user_rules pw salt pepper uc =
     (case (if uc_nopass uc then Inr []
            else case uc_password uc of
              None \<Rightarrow> Inr []
            | Some pass \<Rightarrow> (case hash_password pw salt pass pepper of Inl e \<Rightarrow> Inl (Password e) | Inr h \<Rightarrow> Inr [62 # h])) of
        Inl e \<Rightarrow> Inl e
      | Inr rules \<Rightarrow>
          Inr (rules @ [if uc_enabled uc then ascii ''on'' else ascii ''off''] @
               (if uc_nopass uc then [ascii ''nopass''] else []) @ uc_keys uc @ uc_permissions uc))"

fun config_users ::
  "('s, 'p, 'g, 'm, 'd) auth_env \<Rightarrow> bytes option \<Rightarrow> ('s \<times> user_config) list \<Rightarrow> 'd \<Rightarrow> (auth_error + 'd) panics" where
  "config_users env pepper [] d = Some (Inr d)"
| "config_users env pepper ((salt, uc) # us) d =
     (case user_rules (fst env) salt pepper uc of
        Inl e \<Rightarrow> Some (Inl e)
      | Inr rules \<Rightarrow>
          (case set_rules env (uc_username uc) rules d of
             None \<Rightarrow> None
           | Some (Inl e) \<Rightarrow> Some (Inl e)
           | Some (Inr d) \<Rightarrow> config_users env pepper us d))"

text \<open>\<open>salts\<close> are the salts drawn, for the password of the server and then for the users.\<close>

definition from_config ::
  "('s, 'p, 'g, 'm, 'd) auth_env \<Rightarrow> (nat \<Rightarrow> 's) \<Rightarrow> server_config \<Rightarrow> (auth_error + 'd auth_manager) panics" where
  "from_config env salts cfg =
     (case env of (pw, gl, dm) \<Rightarrow>
        (case (case requirepass cfg of
                 None \<Rightarrow> Some (Inr (dm_new dm))
               | Some pass \<Rightarrow>
                   (case hash_password pw (salts 0) pass (auth_pepper cfg) of
                      Inl e \<Rightarrow> Some (Inl (Password e))
                    | Inr h \<Rightarrow>
                        set_rules env (ascii ''default'') [62 # h, ascii ''on'', ascii ''~*'', ascii ''+@all''] (dm_new dm))) of
           None \<Rightarrow> None
         | Some (Inl e) \<Rightarrow> Some (Inl e)
         | Some (Inr d) \<Rightarrow>
             (case config_users env (auth_pepper cfg) (zip (map (salts \<circ> Suc) [0..<length (sc_users cfg)]) (sc_users cfg)) d of
                None \<Rightarrow> None
              | Some (Inl e) \<Rightarrow> Some (Inl e)
              | Some (Inr d) \<Rightarrow> Some (Inr \<lparr>am_acl = d, am_pepper = auth_pepper cfg, am_failures = Map.empty\<rparr>))))"

section \<open>Failures are limited\<close>

fun run_auth ::
  "('s, 'p, 'g, 'm, 'd) auth_env \<Rightarrow> attempt list \<Rightarrow> 'd auth_manager \<Rightarrow> ('d auth_manager \<times> (auth_error + unit) list) panics" where
  "run_auth env [] m = Some (m, [])"
| "run_auth env (a # as) m =
     (case authenticate env a m of
        None \<Rightarrow> None
      | Some (m, r) \<Rightarrow> map_option (\<lambda>(m, rs). (m, r # rs)) (run_auth env as m))"

definition fails_ok :: "failures \<Rightarrow> bool" where
  "fails_ok fs \<longleftrightarrow> (\<forall>name n ts. fs name = Some (n, ts) \<longrightarrow> n \<le> MAX_FAILS)"

lemma fails_ok_remove [simp]: "fails_ok fs \<Longrightarrow> fails_ok (fs(name := None))"
  by (simp add: fails_ok_def)

lemma check_failures_Inr:
  assumes "check_failures a fs = Inr fs'" and "fails_ok fs" and "at_check a \<le> at_reset a"
  shows "fails_ok fs'" and "\<And>n ts. fs' (at_user a) = Some (n, ts) \<Longrightarrow> n < MAX_FAILS"
    and "name \<noteq> at_user a \<Longrightarrow> fs' name = fs name"
proof -
  show "fails_ok fs'" and "name \<noteq> at_user a \<Longrightarrow> fs' name = fs name"
    using assms by (auto simp: check_failures_def split: option.splits if_splits)
  show "n < MAX_FAILS" if "fs' (at_user a) = Some (n, ts)" for n ts
    using assms that by (auto simp: check_failures_def split: option.splits if_splits)
qed

lemma count_failure_Some:
  assumes "\<And>n ts. fs (at_user a) = Some (n, ts) \<Longrightarrow> n < MAX_FAILS" and "fails_ok fs"
  obtains fs' where "count_failure a fs = Some fs'" and "fails_ok fs'" and "\<forall>name. name \<noteq> at_user a \<longrightarrow> fs' name = fs name"
  using assms by (fastforce simp: count_failure_def fails_ok_def MAX_FAILS_def Let_def split: option.splits prod.splits)

text \<open>A call always returns, and touches the counter of its own user only.\<close>

lemma authenticate_returns:
  assumes ok: "fails_ok (am_failures m)" and clock: "at_check a \<le> at_reset a"
  obtains m' r where "authenticate (pw, gl, dm) a m = Some (m', r)" and "fails_ok (am_failures m')"
    and "am_acl m' = am_acl m" and "am_pepper m' = am_pepper m"
    and "\<forall>name. name \<noteq> at_user a \<longrightarrow> am_failures m' name = am_failures m name"
proof (cases "check_failures a (am_failures m)")
  case (Inl e)
  then show thesis using that [of m "Inl e"] ok by simp
next
  case (Inr fs)
  note fs = check_failures_Inr [OF Inr ok clock]
  obtain fs' where fs': "count_failure a fs = Some fs'" "fails_ok fs'" "\<forall>name. name \<noteq> at_user a \<longrightarrow> fs' name = fs name"
    by (rule count_failure_Some [OF fs(2) fs(1)])
  show thesis
  proof (cases "acl_getuser dm (am_acl m) (at_user a)")
    case None
    with Inr fs show thesis by (intro that [of "m\<lparr>am_failures := fs\<rparr>"]) simp_all
  next
    case (Some u)
    consider "password_hashes u \<noteq> [] \<and> \<not> at_joined a"
      | "\<not> (password_hashes u \<noteq> [] \<and> \<not> at_joined a)" "password_ok pw (am_pepper m) (password_hashes u) (at_password a)"
      | "\<not> (password_hashes u \<noteq> [] \<and> \<not> at_joined a)" "\<not> password_ok pw (am_pepper m) (password_hashes u) (at_password a)"
      by blast
    then show thesis
    proof cases
      case 1
      with Inr fs Some show thesis by (intro that [of "m\<lparr>am_failures := fs\<rparr>"]) simp_all
    next
      case 2
      with Inr fs Some show thesis
        by (intro that [of "m\<lparr>am_failures := fs(at_user a := None)\<rparr>" "Inr ()"]) (simp_all add: Let_def del: password_ok.simps)
    next
      case 3
      with Inr fs fs' Some show thesis
        by (intro that [of "m\<lparr>am_failures := fs'\<rparr>" "Inl AuthenticationFailed"]) (simp_all add: Let_def del: password_ok.simps)
    qed
  qed
qed

text \<open>The counter of one user: \<open>k\<close> failures, the first at \<open>t0\<close>.\<close>

definition failed_at :: "nat \<Rightarrow> nat \<Rightarrow> (nat \<times> nat) option" where
  "failed_at k t0 = (if k = 0 then None else Some (k, t0))"

lemma wrong_attempt:
  assumes "acl_getuser dm (am_acl m) (at_user a) = Some u" and "password_hashes u \<noteq> []" and "at_joined a"
    and "at_check a < t0 + BLOCK_DURATION" and "at_reset a < t0 + BLOCK_DURATION"
    and "am_failures m (at_user a) = failed_at k t0" and "k = 0 \<Longrightarrow> at_count a = t0"
  shows "k < MAX_FAILS \<Longrightarrow> \<not> password_ok pw (am_pepper m) (password_hashes u) (at_password a) \<Longrightarrow>
      \<exists>m'. authenticate (pw, gl, dm) a m = Some (m', Inl AuthenticationFailed) \<and> am_failures m' (at_user a) = failed_at (Suc k) t0"
    and "k = MAX_FAILS \<Longrightarrow> authenticate (pw, gl, dm) a m = Some (m, Inl TooManyAttempts)"
  using assms
  by (auto simp: check_failures_def count_failure_def failed_at_def MAX_FAILS_def BLOCK_DURATION_def Let_def split: if_splits)

definition answers :: "bytes \<Rightarrow> attempt list \<Rightarrow> 'r list \<Rightarrow> 'r list" where
  "answers name as rs = map snd (filter (\<lambda>(a, _). at_user a = name) (zip as rs))"

lemma answers_simps [simp]:
  "answers name [] rs = []"
  "answers name (a # as) (r # rs) = (if at_user a = name then [r] else []) @ answers name as rs"
  by (simp_all add: answers_def)

lemma run_auth_limited:
  assumes "fails_ok (am_failures m)" and "\<forall>a\<in>set as. at_check a \<le> at_reset a"
    and "acl_getuser dm (am_acl m) name = Some u" and "password_hashes u \<noteq> []"
    and "am_failures m name = failed_at k t0" and "k \<le> MAX_FAILS"
    and "mine = filter (\<lambda>a. at_user a = name) as"
    and "k = 0 \<and> mine \<noteq> [] \<longrightarrow> at_count (hd mine) = t0"
    and "\<forall>a\<in>set mine. at_joined a \<and> at_check a < t0 + BLOCK_DURATION \<and> at_reset a < t0 + BLOCK_DURATION"
    and "\<forall>a\<in>set (take (MAX_FAILS - k) mine). \<not> password_ok pw (am_pepper m) (password_hashes u) (at_password a)"
  shows "\<exists>m' rs. run_auth (pw, gl, dm) as m = Some (m', rs) \<and>
    answers name as rs = replicate (min (MAX_FAILS - k) (length mine)) (Inl AuthenticationFailed) @
      replicate (length mine - (MAX_FAILS - k)) (Inl TooManyAttempts)"
  using assms
proof (induction as arbitrary: m k mine)
  case (Cons a as)
  obtain m1 r where m1: "authenticate (pw, gl, dm) a m = Some (m1, r)" "fails_ok (am_failures m1)"
    "am_acl m1 = am_acl m" "am_pepper m1 = am_pepper m" "\<forall>n. n \<noteq> at_user a \<longrightarrow> am_failures m1 n = am_failures m n"
    using authenticate_returns [OF Cons.prems(1)] Cons.prems(2) by (metis list.set_intros(1))
  let ?limited = "\<lambda>k mine :: attempt list. replicate (min (MAX_FAILS - k) (length mine)) (Inl AuthenticationFailed) @
      replicate (length mine - (MAX_FAILS - k)) (Inl TooManyAttempts) :: (auth_error + unit) list"
  let ?mine = "filter (\<lambda>a. at_user a = name) as"
  show ?case
  proof (cases "at_user a = name")
    case False
    with Cons.prems m1(5) have at: "am_failures m1 name = failed_at k t0" and mine: "mine = ?mine" by simp_all
    have "\<exists>m' rs. run_auth (pw, gl, dm) as m1 = Some (m', rs) \<and> answers name as rs = ?limited k mine"
      by (rule Cons.IH [OF m1(2) _ _ _ at _ mine]) (use Cons.prems m1(3,4) in \<open>simp_all del: password_ok.simps\<close>)
    with m1(1) False show ?thesis by auto
  next
    case True
    with Cons.prems(7) have mine: "mine = a # ?mine" by simp
    note wrong = wrong_attempt [of dm m a u t0 k pw gl, unfolded True, OF Cons.prems(3,4) _ _ _ Cons.prems(5)]
    show ?thesis
    proof (cases "k < MAX_FAILS")
      case k: True
      then obtain j where j: "MAX_FAILS - k = Suc j" "MAX_FAILS - Suc k = j" by (metis Suc_diff_Suc)
      have r: "r = Inl AuthenticationFailed" and at: "am_failures m1 name = failed_at (Suc k) t0"
        using wrong(1) Cons.prems(8-10) k m1(1) j True unfolding mine by (auto simp del: authenticate.simps password_ok.simps)
      have "\<exists>m' rs. run_auth (pw, gl, dm) as m1 = Some (m', rs) \<and> answers name as rs = ?limited (Suc k) ?mine"
        by (rule Cons.IH [OF m1(2) _ _ _ at _ refl])
          (use Cons.prems m1(3,4) k j in \<open>simp_all add: mine del: password_ok.simps\<close>)
      with m1(1) True r j show ?thesis unfolding mine by auto
    next
      case False
      with Cons.prems(6) have k: "k = MAX_FAILS" by simp
      have m: "m1 = m" and r: "r = Inl TooManyAttempts"
        using wrong(2) Cons.prems(8-9) k m1(1) unfolding mine by (auto simp: MAX_FAILS_def simp del: authenticate.simps)
      have "\<exists>m' rs. run_auth (pw, gl, dm) as m = Some (m', rs) \<and> answers name as rs = ?limited k ?mine"
        by (rule Cons.IH [OF Cons.prems(1) _ _ _ Cons.prems(5) _ refl])
          (use Cons.prems k in \<open>simp_all add: mine MAX_FAILS_def del: password_ok.simps\<close>)
      with m1(1) True r m k show ?thesis unfolding mine by auto
    qed
  qed
qed simp

text \<open>C21. Guessing is limited: for a user with a password and no failures on record, whatever other users do in
  between, the first five attempts with wrong passwords fail, and every further attempt within a minute of the first
  failure is refused without looking at the password, even the right one. No call panics.\<close>

theorem attempts_limited:
  assumes "fails_ok (am_failures m)" and "\<forall>a\<in>set as. at_check a \<le> at_reset a"
    and "acl_getuser dm (am_acl m) name = Some u" and "password_hashes u \<noteq> []" and "am_failures m name = None"
    and "mine = filter (\<lambda>a. at_user a = name) as"
    and "\<forall>a\<in>set mine. at_joined a \<and> at_check a < at_count (hd mine) + BLOCK_DURATION \<and> at_reset a < at_count (hd mine) + BLOCK_DURATION"
    and "\<forall>a\<in>set (take MAX_FAILS mine). \<not> password_ok pw (am_pepper m) (password_hashes u) (at_password a)"
  shows "\<exists>m' rs. run_auth (pw, gl, dm) as m = Some (m', rs) \<and>
    answers name as rs = replicate (min MAX_FAILS (length mine)) (Inl AuthenticationFailed) @
      replicate (length mine - MAX_FAILS) (Inl TooManyAttempts)"
  using run_auth_limited [of m as dm name u 0 "at_count (hd mine)" mine pw gl] assms
  by (simp add: failed_at_def del: password_ok.simps)

text \<open>Hashing for the witnesses: the hash is the text itself.\<close>

definition plain_pw :: "(unit, bytes) pw_ops" where
  "plain_pw = \<lparr>pw_hash = \<lambda>p _. Some p, pw_parse = Some, pw_verify = (=)\<rparr>"

definition guess :: "string \<Rightarrow> nat \<Rightarrow> attempt" where
  "guess p t = \<lparr>at_user = ascii ''eve'', at_password = ascii p, at_check = t, at_reset = t, at_count = t, at_joined = True\<rparr>"

theorem attempts_limited_witness:
  "\<exists>m' rs. run_auth (plain_pw, plain_globs, alist_dash) (map (guess ''x'') [1, 2, 3, 4, 5] @ [guess ''h'' 6])
      \<lparr>am_acl = [(ascii ''eve'', eve)], am_pepper = None, am_failures = Map.empty\<rparr> = Some (m', rs) \<and>
    answers (ascii ''eve'') (map (guess ''x'') [1, 2, 3, 4, 5] @ [guess ''h'' 6]) rs =
      replicate 5 (Inl AuthenticationFailed) @ [Inl TooManyAttempts]"
proof -
  let ?m = "\<lparr>am_acl = [(ascii ''eve'', eve)], am_pepper = None, am_failures = Map.empty\<rparr> :: (bytes \<times> (bytes, bytes list) acl_user) list auth_manager"
  let ?as = "map (guess ''x'') [1, 2, 3, 4, 5] @ [guess ''h'' 6]"
  have p1: "fails_ok (am_failures ?m)" and p3: "acl_getuser alist_dash (am_acl ?m) (ascii ''eve'') = Some eve"
    and p4: "password_hashes eve \<noteq> []" and p5: "am_failures ?m (ascii ''eve'') = None"
    by (simp_all add: fails_ok_def acl_getuser_def alist_dash_def eve_def)
  have p2: "\<forall>a\<in>set ?as. at_check a \<le> at_reset a" and p6: "?as = filter (\<lambda>a. at_user a = ascii ''eve'') ?as"
    and p7: "\<forall>a\<in>set ?as. at_joined a \<and> at_check a < at_count (hd ?as) + BLOCK_DURATION \<and> at_reset a < at_count (hd ?as) + BLOCK_DURATION"
    by (simp_all add: guess_def BLOCK_DURATION_def)
  have p8: "\<forall>a\<in>set (take MAX_FAILS ?as). \<not> password_ok plain_pw (am_pepper ?m) (password_hashes eve) (at_password a)"
    by (simp add: guess_def MAX_FAILS_def eve_def plain_pw_def verify_password_def peppered_def ascii_def)
  have "min MAX_FAILS (length ?as) = 5" and "length ?as - MAX_FAILS = 1" by (simp_all add: MAX_FAILS_def)
  then show ?thesis
    using attempts_limited [OF p1 p2 p3 p4 p5 p6 p7 p8, of plain_globs] by (simp only: replicate_Suc replicate_0 One_nat_def)
qed

section \<open>Logging in\<close>

text \<open>What \<open>argon2\<close> promises: a hash it made can be read, and the password it was made of verifies.\<close>

definition pw_ok :: "('s, 'p) pw_ops \<Rightarrow> bool" where
  "pw_ok pw \<longleftrightarrow> (\<forall>p s h. pw_hash pw p s = Some h \<longrightarrow> (\<exists>q. pw_parse pw h = Some q \<and> pw_verify pw p q))"

declare map_sum_Inr [simp]

text \<open>A user that \<open>create_user\<close> made without an error can log in with its password, however many permissions it was
  given.\<close>

theorem created_user_logs_in:
  assumes "pw_ok pw" and "glob_ok gl" and "dash_ok dm"
    and created: "create_user (pw, gl, dm) salt name password permissions m = Some (m', Inr ())"
    and "am_failures m name = None" and "at_user a = name" and "at_password a = password" and "at_joined a"
  shows "\<exists>m''. authenticate (pw, gl, dm) a m' = Some (m'', Inr ())"
proof -
  obtain h d where h: "pw_hash pw (peppered password (am_pepper m)) salt = Some h"
    and d: "acl_setuser gl dm name ((62 # h) # ascii ''on'' # permissions) (am_acl m) = Some (d, Inr ())"
    and m': "m' = m\<lparr>am_acl := d\<rparr>"
    using created by (auto simp: hash_password_def Let_def split: option.splits sum.splits if_splits)
  obtain rs u where rs: "parse_rules ((62 # h) # ascii ''on'' # permissions) = Some (Inr rs)"
    and u: "acl_getuser dm d name = Some u" and hashes: "password_hashes u = [h. PasswordHash h \<leftarrow> rs]"
    using acl_setuser_decides [OF assms(2,3) d] by blast
  have "h \<in> set (password_hashes u)"
    using rs unfolding hashes by (auto simp: rule_from_str_def ascii_def Let_def split: option.splits sum.splits if_splits)
  moreover obtain q where "pw_parse pw h = Some q" and "pw_verify pw (peppered password (am_pepper m)) q"
    using assms(1) h unfolding pw_ok_def by blast
  then have "verify_password pw h password (am_pepper m) = Inr True"
    by (simp add: verify_password_def)
  ultimately show ?thesis
    using assms(5-8) u by (auto simp: m' check_failures_def Let_def)
qed

theorem created_user_logs_in_witness:
  "\<exists>m' m''. create_user (plain_pw, plain_globs, alist_dash) () (ascii ''eve'') (ascii ''pw'') [ascii ''+get'', ascii ''off'']
        (auth_new alist_dash (Some (ascii ''p''))) = Some (m', Inr ()) \<and>
     authenticate (plain_pw, plain_globs, alist_dash) (guess ''pw'' 0) m' = Some (m'', Inr ())"
proof -
  have ok: "pw_ok plain_pw" by (simp add: pw_ok_def plain_pw_def)
  have rs: "parse_rules [62 # ascii ''pwp'', ascii ''on'', ascii ''+get'', ascii ''off''] =
      Some (Inr [PasswordHash (ascii ''pwp''), On, AllowCommand 0, Off])" by code_simp
  have hash: "hash_password plain_pw () (ascii ''pw'') (Some (ascii ''p'')) = Inr (ascii ''pwp'')"
    by (simp add: hash_password_def plain_pw_def peppered_def ascii_def)
  have star: "ascii ''*'' \<noteq> ascii ''[''" by code_simp
  obtain m' where m': "create_user (plain_pw, plain_globs, alist_dash) () (ascii ''eve'') (ascii ''pw'') [ascii ''+get'', ascii ''off'']
      (auth_new alist_dash (Some (ascii ''p''))) = Some (m', Inr ())"
    by (simp add: auth_new_def hash acl_getuser_def acl_setuser_def rs plain_globs_def alist_dash_def user_new_def configure_def
        reset_rules_def rebuild_all_patterns_def rebuild_all_deny_patterns_def rebuild_globset_def star del: parse_rules.simps)
  show ?thesis
    using created_user_logs_in [OF ok plain_globs_ok alist_dash_ok m', of "guess ''pw'' 0"] m'
    by (simp add: auth_new_def guess_def del: authenticate.simps create_user.simps)
qed

text \<open>The user that a server password makes can run nothing: \<open>+@all\<close> names no category, so that a command of a
  category the server knows is refused, while one of a category it does not know is allowed.\<close>

theorem requirepass_permits_nothing:
  assumes "glob_ok gl" and "dash_ok dm"
    and made: "from_config (pw, gl, dm) salts cfg = Some (Inr m)" and cfg: "requirepass cfg = Some pass" "sc_users cfg = []"
  shows "\<forall>cat cmd. authorize_command (pw, gl, dm) m (ascii ''default'') cat cmd =
    (if parse_category cat = 0 then Inr () else Inl (AclFailed PermissionDenied))"
proof -
  obtain h d where d: "acl_setuser gl dm (ascii ''default'') [62 # h, ascii ''on'', ascii ''~*'', ascii ''+@all''] (dm_new dm) = Some (d, Inr ())"
    and m: "am_acl m = d"
    using made cfg by (auto simp: from_config_def set_rules_def split: option.splits sum.splits)
  obtain rs u where rs: "parse_rules [62 # h, ascii ''on'', ascii ''~*'', ascii ''+@all''] = Some (Inr rs)"
    and u: "acl_getuser dm d (ascii ''default'') = Some u"
    and idx: "\<forall>cat cmd. check_idx u cat (lookup_cmd_idx cmd) \<longleftrightarrow> may_run rs cat (lookup_cmd_idx cmd)"
    using acl_setuser_decides [OF assms(1,2) d] by blast
  have tail: "parse_rules [ascii ''on'', ascii ''~*'', ascii ''+@all''] = Some (Inr [On, AllowKeyPattern (ascii ''*''), AllowCategory 0])"
    by code_simp
  have "rs = [PasswordHash h, On, AllowKeyPattern (ascii ''*''), AllowCategory 0]"
    using rs unfolding parse_rules.simps(2) [of "62 # h"] tail
    by (auto simp: rule_from_str_def ascii_def Let_def split: option.splits sum.splits if_splits)
  moreover have "(\<forall>b. \<not> bit cat b) \<longleftrightarrow> cat = 0" for cat :: categories by (auto intro: bit_eqI)
  ultimately have "may_run rs cat cmd \<longleftrightarrow> cat = 0" for cat cmd
    by (auto simp: may_run_def on_by_def cat_by_def Let_def split: option.split)
  with idx show ?thesis using u m by simp
qed

theorem requirepass_permits_nothing_witness:
  "\<exists>m. from_config (plain_pw, plain_globs, alist_dash) (\<lambda>_. ()) \<lparr>requirepass = Some (ascii ''pw''), auth_pepper = None, sc_users = []\<rparr> = Some (Inr m) \<and>
     authorize_command (plain_pw, plain_globs, alist_dash) m (ascii ''default'') (ascii ''read'') (ascii ''get'') =
       Inl (AclFailed PermissionDenied)"
proof -
  let ?cfg = "\<lparr>requirepass = Some (ascii ''pw''), auth_pepper = None, sc_users = []\<rparr>"
  have rs: "parse_rules [62 # ascii ''pw'', ascii ''on'', ascii ''~*'', ascii ''+@all''] =
      Some (Inr [PasswordHash (ascii ''pw''), On, AllowKeyPattern (ascii ''*''), AllowCategory 0])" by code_simp
  have hash: "hash_password plain_pw () (ascii ''pw'') None = Inr (ascii ''pw'')"
    by (simp add: hash_password_def plain_pw_def peppered_def)
  have star: "ascii ''*'' \<noteq> ascii ''[''" by code_simp
  obtain m where m: "from_config (plain_pw, plain_globs, alist_dash) (\<lambda>_. ()) ?cfg = Some (Inr m)"
    by (simp add: from_config_def hash set_rules_def acl_setuser_def rs plain_globs_def alist_dash_def user_new_def configure_def
        reset_rules_def rebuild_all_patterns_def rebuild_all_deny_patterns_def rebuild_globset_def allow_key_pattern_def star del: parse_rules.simps)
  have "parse_category (ascii ''read'') \<noteq> 0" by code_simp
  then show ?thesis
    using requirepass_permits_nothing [OF plain_globs_ok alist_dash_ok m] m by (simp del: authorize_command.simps)
qed

end
