(* ===== verification/Spec2Isabelle.thy ===== *)
theory Spec2Isabelle
  imports Sds_Numeric IntSet QuickList ListPack Dict SmartHash ExpireMap Streams Bitmap SkipList Hll Varint
    Zdb_Dump Zsp_Connection Zsp_Convert Cluster_Engine Auth
begin

text \<open>
  \<^bold>\<open>A verification library for Zumic, an in-memory database server written in Rust.\<close>

  \<^bold>\<open>The program.\<close> Zumic keeps named values. The containers behind the values are in \<open>src/database\<close>, one
  directory each; \<open>Value\<close> in \<open>src/database/types.rs\<close> is their sum. The engines of \<open>src/engine\<close> implement the trait
  \<open>Storage\<close>: in memory, on disk through an append-only file, and as a cluster of engines; \<open>src/engine/zdb\<close> is the
  binary form of values and dumps. The commands of \<open>src/command\<close> run on any engine. \<open>src/network/zsp\<close> is the wire
  protocol and \<open>src/auth\<close> decides who may do what. The library covers these layers from the bytes up: the containers refine
  their specifications, the engines meet one contract over the containers, and the commands are verified once, against
  the contract.

  \<^bold>\<open>Foundations.\<close>
  \<^item> \<open>Prelude\<close>: machine types, panics as \<open>None\<close>, checked indexing and slicing, shared list lemmas.
  \<^item> \<open>Rust_Std\<close>: the parts of the standard library that the containers lean on, with what they guarantee:
    comparison, binary search as implemented, powers of two.
  \<^item> \<open>Rust_Text\<close>: UTF-8 validation, decimal printing and parsing of integers, \<open>memchr\<close>.
  \<^item> \<open>Interfaces\<close>: the contracts, as locales. \<open>simulation\<close> carries arbitrary runs of operations to runs of a
    specification; \<open>set_impl\<close>, \<open>deque_impl\<close>, \<open>map_impl\<close> state the laws of each operation and are its
    sublocales; \<open>metered_simulation\<close> is for operations that may panic where the specification does and that need
    room, measured by a cost per operation; \<open>iterator\<close> is the contract of \<open>next\<close>.
  \<^item> \<open>Leb128\<close>: the reference encoding of variable-length integers, shared by \<open>ListPack\<close> and the dump format.
  \<^item> \<open>Rust_Io\<close>: writers and readers as the locales \<open>byte_sink\<close> and \<open>byte_source\<close>, the errors of
    \<open>ZumicResult\<close>, the question mark operator, loops with errors, big-endian integers.

  \<^bold>\<open>Containers\<close> (state as the records of the source, one definition per method).
  \<^item> \<open>Sds\<close>, \<open>Sds_Numeric\<close> (\<open>sds_base.rs\<close>, \<open>sds_numeric.rs\<close>): byte strings kept inline or in a vector, and the
    numbers in them, with the panics of \<open>slice_range\<close> and of \<open>Vec\<close> when a capacity passes \<open>isize::MAX\<close>;
    \<open>metered_simulation\<close>. The text of a float is a parameter. The other theories take a string as its bytes,
    which \<open>sds_refines_bytes\<close> and \<open>sds_conversions\<close> justify.
  \<^item> \<open>IntSet\<close> (\<open>intset_base.rs\<close>): sorted integers in the narrowest of three encodings; \<open>set_impl\<close>.
  \<^item> \<open>QuickList\<close> (\<open>quicklist_base.rs\<close>): a deque of segments with a lazily rebuilt index and a cache; \<open>deque_impl\<close>.
  \<^item> \<open>ListPack\<close> (\<open>listpack_base.rs\<close>): a deque in one byte buffer, with head and tail gaps; \<open>deque_impl\<close>.
  \<^item> \<open>Dict\<close> (\<open>dict_base.rs\<close>, \<open>entry.rs\<close>): two chained tables with incremental rehashing; \<open>map_impl\<close>,
    \<open>iterator\<close>. The hash function is a parameter.
  \<^item> \<open>SmartHash\<close> (\<open>smarthash_base.rs\<close>): a flat list that turns into a hash map and back; \<open>map_impl\<close>.
    The traversal order of the standard map is a parameter.
  \<^item> \<open>ExpireMap\<close> (\<open>expire_base.rs\<close>): deadlines in a map and a heap; every reading of the clock is an argument,
    and a deadline beyond the last instant is a panic; \<open>metered_simulation\<close>.
  \<^item> \<open>Streams\<close> (\<open>stream_base.rs\<close>): entries with identifiers from the clock and a counter.
  \<^item> \<open>Bitmap\<close> (\<open>bitmap_base.rs\<close>, \<open>bitmap_simd.rs\<close>, \<open>bitmap_common.rs\<close>): bits, ranges, operators, and the
    three counting routines, the AVX2 one over models of the instructions it uses.
  \<^item> \<open>SkipList\<close> (\<open>skiplist_base.rs\<close>, \<open>safety.rs\<close>): raw pointers as addresses of an explicit heap; reading
    or writing a freed address is a panic; \<open>simulation\<close>. The random generator is a parameter.
  \<^item> \<open>Hll\<close> (\<open>hll_base.rs\<close>, \<open>hll_dense.rs\<close>, \<open>hll_sparse.rs\<close>): the registers of HyperLogLog in both
    encodings. The precision and the hash function are parameters; \<open>debug_assert!\<close> counts as a panic.

  \<^bold>\<open>The dump format\<close> (\<open>src/engine/zdb\<close>).
  \<^item> \<open>Varint\<close> (\<open>varint.rs\<close>): the lengths of version 3, over any sink and source.
  \<^item> \<open>Zdb_File\<close> (\<open>file.rs\<close>): versions, their order and compatibility, the header.
  \<^item> \<open>Zdb_Encode\<close> (\<open>encode.rs\<close>, \<open>tags.rs\<close>, \<open>compression.rs\<close>, \<open>types.rs\<close>): \<open>Value\<close> over the container models
    and everything that writes. The record \<open>zenv\<close> holds what comes from other crates: \<open>crc32fast\<close>, \<open>zstd\<close>,
    the order of \<open>OrderedFloat\<close>, the hash functions, the traversal orders, the random generator.
  \<^item> \<open>Zdb_Decode\<close> (\<open>decode.rs\<close>): the value readers and \<open>skip_value\<close>.
  \<^item> \<open>Zdb_Roundtrip\<close>: what reading gives on what was written, value by value, through the interfaces of the
    containers the decoder rebuilds.
  \<^item> \<open>Zdb_Stream\<close> (\<open>decode.rs\<close>, \<open>streaming.rs\<close>): \<open>StreamReader\<close>, the streaming parser and its handlers,
    \<open>read_dump\<close>; round trips of whole streams.
  \<^item> \<open>Zdb_Dump\<close>: round trips of dumps, and where writers and readers do not fit together.

  \<^bold>\<open>The protocol\<close> (\<open>src/network/zsp/frame\<close>).
  \<^item> \<open>Zsp_Frame\<close> (\<open>zsp_types.rs\<close>, \<open>encoder.rs\<close>): frames, their hash and equality, the encoder. The record
    \<open>zsp_env\<close> holds what is outside the crate: the text of floats, traversal orders, which entries a table lookup
    meets, which allocations succeed.
  \<^item> \<open>Zsp_Decode\<close> (\<open>decoder.rs\<close>): the resumable decoder as a function on its state and the input; every error keeps
    the state and input reached, as \<open>?\<close> does; a refused allocation is a panic.
  \<^item> \<open>Zsp_Total\<close>: the decoder ends on every input, satisfies the recursion of the source without fuel, and panics only on
    a refused allocation or a state that holds more than was announced.
  \<^item> \<open>Zsp_Roundtrip\<close>: what is read back from what the encoder writes.
  \<^item> \<open>Zsp_Connection\<close> (\<open>connection.rs\<close>): frames in pieces, limits, and the receive buffer.
  \<^item> \<open>Zsp_Convert\<close> (\<open>zsp_types.rs\<close>): replies for stored values.

  \<^bold>\<open>The append-only file\<close> (\<open>src/engine/aof.rs\<close>, \<open>aof_integrity.rs\<close>).
  \<^item> \<open>Crc32\<close>: the table-driven checksum and the polynomial division it computes.
  \<^item> \<open>Aof_Log\<close>: records of both formats, their validation, the replay loops with resynchronisation.
  \<^item> \<open>Aof_File\<close>: the log on a file system of named byte sequences with a durable part, buffered writing, the three
    sync policies, rewriting and repair.
  \<^item> \<open>Aof_Durability\<close>: what restarts keep, what crashes can lose, what repair leaves.

  \<^bold>\<open>Engines\<close> (\<open>src/engine\<close>).
  \<^item> \<open>Storage\<close> (\<open>storage.rs\<close>, \<open>error/system.rs\<close>): errors, the trait as a record of operations, values as bytes.
  \<^item> \<open>Engine\<close>: the contract. An engine stands for a map from keys to contents. \<open>kv_core\<close> and \<open>set_core\<close> state the laws
    of the operations that touch one key, \<open>kv_engine\<close> and \<open>set_engine\<close> add renaming, flushing and several keys. In
    \<open>Command_Refine\<close>, \<open>total_core\<close> is an engine on which nothing fails, \<open>full_engine\<close> all of it with counting and saving.
  \<^item> \<open>Memory\<close> (\<open>memory.rs\<close>): values in a \<open>DashMap\<close>, a parameter with the laws its crate documents; \<open>full_engine\<close>,
    \<open>set_engine\<close>.
  \<^item> \<open>Sharding\<close> (\<open>sharding.rs\<close>), \<open>Persistent\<close> (\<open>persistent.rs\<close>): a sharded index of bytes that logs every change.
    \<open>Persistent_Recovery\<close> ties the index to the log; \<open>Persistent_Engine\<close> shows \<open>kv_engine\<close> for the values whose bytes
    can be read back.
  \<^item> \<open>Slots\<close> (\<open>slot_manager.rs\<close>): CRC-16, slots and hash tags, the tables of slots and migrations, counters and planners.
    \<open>Slot_Machine\<close>: its invariant over every sequence of operations and rounds of the background thread, and what two
    threads can do to it between the locks. \<open>Rebalancer\<close> (\<open>rebalancer.rs\<close>): the second planner, and executing its plans.
  \<^item> \<open>Cluster\<close> (\<open>cluster.rs\<close>), \<open>Cluster_Engine\<close>: the store that routes each key to a shard by its slot; over shards with
    the contract \<open>total_core\<close> it has the contract itself.

  \<^bold>\<open>Commands\<close> (\<open>src/command\<close>).
  \<^item> \<open>Commands\<close>: one definition per \<open>execute\<close>, over any engine; floating-point arithmetic, the clock and random choices are
    parameters. \<open>DECRBYFLOAT\<close> runs the integer decrement, as the dispatch of \<open>execute.rs\<close> does; \<open>DecrByFloatCommand\<close> is
    modelled too, but no command reaches it.
  \<^item> \<open>Command_Spec\<close>: what each command may answer and do, as a relation over plain contents, with the inputs on which
    it panics.
  \<^item> \<open>Command_Refine\<close>: the commands keep these promises on every engine with the contract; \<open>Command_Engines\<close> carries this to
    the memory and the persistent engine, \<open>Cluster_Engine\<close> to the cluster.

  \<^bold>\<open>Access\<close> (\<open>src/auth\<close>).
  \<^item> \<open>Acl\<close> (\<open>acl.rs\<close>): rules, their syntax, users and the three checks. Globs are a parameter with the laws of \<open>globset\<close>.
  \<^item> \<open>Auth\<close> (\<open>manager.rs\<close>, \<open>password.rs\<close>): users, logging in with a limit on failures, the users of a configuration.
    Password hashing, salts and the clock are parameters.

  \<^bold>\<open>What is proved.\<close>
  \<^item> Refinement: every sequence of operations on a container answers as its abstract specification (a set, a
    list, a finite map, an ordered list of pairs, a map of deadlines, a list of bytes) and panics only where the
    specification says so (a bad range of an \<open>Sds\<close>, a deadline beyond the last instant), whatever the
    encodings, segments, tables, representations and random levels do on the way.
  \<^item> Memory: the skip list never follows a null or freed pointer, its heap is exactly the nodes of its items,
    \<open>validate_invariants\<close> accepts it and \<open>drop\<close> frees everything.
  \<^item> Equivalence: the counting routines agree with the number of set bits; equality tests decide equality of
    the contents; both HyperLogLog encodings hold the maximum per register, and merging is the union.
  \<^item> Round trips: serialisation of the containers, variable-length integers, values, streams
    (\<open>stream_parser_roundtrip\<close>), dumps and frames, for the types the readers know.
  \<^item> Engines and commands: every sequence of commands on the memory engine answers as the specification over a plain
    keyspace and panics exactly where it says (\<open>commands_refine_keyspace\<close>); the engines agree where both apply
    (\<open>engines_agree\<close>: not for \<open>RENAMENX\<close>, on which they differ); a cluster, with migrations started in between, shows one keyspace (\<open>cluster_refines_keyspace\<close>).
  \<^item> Durability: replay after an orderly restart gives everything back that was logged (\<open>flushdb\<close> is not), a crash
    under \<open>Always\<close> loses at most 31 entries, damage of up to four neighbouring bytes in a payload is found, and a replay
    that is not strict passes over a stretch in which no valid record starts.
  \<^item> Invariants: the tables of the slot manager agree after any sequence of calls, and keys are routed to existing
    shards unless \<open>start_slot_migration\<close>, which does not check it, was given another (\<open>slots_stay_consistent\<close>);
    identifiers of a stream are not reused; containers inside stored values keep their types.
  \<^item> Access: the checks decide what the rules of a user say (\<open>acl_rules_decide\<close>; without patterns that allow something they
    are open, \<open>acl_setuser_decides\<close>), and wrong passwords are limited
    (\<open>attempts_limited\<close>).
  \<^item> Errors: which bytes are refused and with which error; and the cases in which the code loses or rejects
    what it wrote itself, or leaves a state its own comments exclude (\<open>listpack_remove_left_corrupts\<close>,
    \<open>listpack_long_item_lost\<close>, \<open>dump_count_taken_for_eof\<close>, \<open>stream_reader_long_key\<close>, \<open>write_dump_unreadable\<close>,
    \<open>list_value_unreadable\<close>, \<open>transform_unreadable\<close>, \<open>zsp_partial_lost\<close>, \<open>zsp_split_frame_corrupted\<close>,
    \<open>zsp_huge_count_panics\<close>, \<open>zsp_depth\<close>, \<open>zsp_long_member_unreadable\<close>, \<open>zsp_line_cut_answered\<close>,
    \<open>aof1_appended_unreadable\<close>, \<open>aof_always_unsynced\<close>, \<open>persistent_flush_resurrects\<close>, \<open>persistent_list_lost\<close>,
    \<open>rebalance_loses_hot_key\<close>, \<open>concurrent_starts_diverge\<close>, \<open>acl_error_opens\<close>, \<open>requirepass_permits_nothing\<close>), each stated
    for every input of its class.

  \<^bold>\<open>Bounds.\<close> Loops with a decreasing measure are total functions. Loops along the pointers of a skip list are
  \<open>partial_function (option)\<close>, and the refinement theorem shows that they end. Two arguments bound the
  recursion of the dump readers: the depth of the stack, for which the nesting of the value is enough (one
  more under compression), and the number of calls of \<open>next\<close>, for which one more than the number of entries
  is enough; the round-trip theorems state both. The nesting depth bounds the recursion of the ZSP decoder; two more
  than the length of the input is enough (\<open>zsp_decode_total\<close>). Lengths are cut to 32 bits where the code does it, and the
  hypotheses of the round trips are the limits the reader enforces.

  \<^bold>\<open>Concurrency.\<close> Operations run one after the other, as the locks of the engines make them; the flusher thread and
  the rounds of the rebalancing thread are steps of the sequences. Where a call gives up its lock in between
  (\<open>start_slot_migration\<close>), \<open>Slot_Machine\<close> interleaves its critical sections.

  \<^bold>\<open>Left out of the modelled files.\<close> Memory reports (\<open>memory_usage\<close>, \<open>memory_footprint\<close>), estimators,
  latency counters and statistics in floating point, texts and offsets of error reports, the geographic operations of the
  engines and commands, \<open>read_dump_streaming_file\<close> and \<open>Crc32Read\<close>, which work on an open file, the consistent hash
  ring, which nothing calls, and the parser of the configuration file.

  \<^bold>\<open>Not modelled.\<close> Asynchronous I/O (server, connections, pub/sub), the concurrent skip lists (locks around the
  modelled one), compaction and recovery, which nothing starts, tokens and sessions, which nothing uses,
  floating-point geometry (\<open>geo\<close>), Lua and plugins, logging, configuration and the client.
\<close>

end
